(* ===== verification/Prelude.thy ===== *)
theory Prelude
  imports Main "HOL-Library.Word" "HOL-Library.Monad_Syntax"
begin

text \<open>
  Shared vocabulary of the development: machine integer types, pointers, the option
  monad used for code that can abort, and the two list-in-memory predicates on which the
  component invariants rest (a NULL terminated chain, and a doubly linked segment).
\<close>

section \<open>Machine types and pointers\<close>

type_synonym u8 = "8 word"
type_synonym u16 = "16 word"
type_synonym u32 = "32 word"
type_synonym u64 = "64 word"

type_synonym bytes = "u8 list"

text \<open>A pointer is an address; 0 is NULL.\<close>

type_synonym ptr = nat

abbreviation NULL :: ptr where
  "NULL \<equiv> 0"

text \<open>The control flow of code that may not return normally: \<open>None\<close> stands for an
  \<open>assert\<close> that fails, a call of \<open>abort\<close> or \<open>exit\<close>, or a lock on which the caller
  spins for ever.\<close>

definition c_assert :: "bool \<Rightarrow> unit option" where
  "c_assert b = (if b then Some () else None)"

named_theorems frame \<open>what an operation leaves unchanged\<close>
named_theorems msimps \<open>evaluation of the monadic code\<close>

lemma c_assert_simps [simp]:
  "c_assert True = Some ()"
  "c_assert False = None"
  "(c_assert b = Some u) = b"
  "(c_assert b = None) = (\<not> b)"
  by (simp_all add: c_assert_def)

lemma c_assert_bind [simp]: "(c_assert b \<bind> f = Some r) = (b \<and> f () = Some r)"
  by (simp add: c_assert_def)

lemma c_assert_True_bind: "b \<Longrightarrow> c_assert b \<bind> f = f ()"
  by (simp add: c_assert_def)

section \<open>Lists\<close>

lemma hd_append_if: "hd (xs @ ys) = (if xs = [] then hd ys else hd xs)"
  by simp

lemma last_append_if: "last (xs @ ys) = (if ys = [] then last xs else last ys)"
  by simp

lemma split_list_distinct:
  assumes "x \<in> set xs" and "distinct xs"
  obtains ys zs where "xs = ys @ x # zs" and "x \<notin> set ys" and "x \<notin> set zs"
  using assms by (metis distinct.simps(2) distinct_append not_distinct_conv_prefix split_list)

lemma remove1_mid: "x \<notin> set ys \<Longrightarrow> remove1 x (ys @ x # zs) = ys @ zs"
  by (simp add: remove1_append)

section \<open>Singly linked chains\<close>

text \<open>\<open>chain f p xs\<close>: following \<open>f\<close> from \<open>p\<close> visits the addresses \<open>xs\<close> and ends in NULL.\<close>

primrec chain :: "(ptr \<Rightarrow> ptr) \<Rightarrow> ptr \<Rightarrow> ptr list \<Rightarrow> bool" where
  "chain f p [] \<longleftrightarrow> p = NULL"
| "chain f p (x # xs) \<longleftrightarrow> p = x \<and> x \<noteq> NULL \<and> chain f (f x) xs"

text \<open>A segment of a chain, ending at \<open>q\<close>.\<close>

primrec seg :: "(ptr \<Rightarrow> ptr) \<Rightarrow> ptr \<Rightarrow> ptr list \<Rightarrow> ptr \<Rightarrow> bool" where
  "seg f p [] q \<longleftrightarrow> p = q"
| "seg f p (x # xs) q \<longleftrightarrow> p = x \<and> x \<noteq> NULL \<and> seg f (f x) xs q"

lemma chain_NULL [simp]: "chain f NULL xs \<longleftrightarrow> xs = []"
  by (cases xs) auto

lemma chain_nonnull: "p \<noteq> NULL \<Longrightarrow> chain f p xs \<longleftrightarrow> (\<exists>ys. xs = p # ys \<and> chain f (f p) ys)"
  by (cases xs) auto

lemma chain_append: "chain f p (xs @ ys) \<longleftrightarrow> (\<exists>q. seg f p xs q \<and> chain f q ys)"
  by (induction xs arbitrary: p) auto

lemma seg_append: "seg f p (xs @ ys) r \<longleftrightarrow> (\<exists>q. seg f p xs q \<and> seg f q ys r)"
  by (induction xs arbitrary: p) auto

lemma chain_unique: "chain f p xs \<Longrightarrow> chain f p ys \<Longrightarrow> xs = ys"
proof (induction xs arbitrary: p ys)
  case Nil
  then show ?case by simp
next
  case (Cons x xs)
  then show ?case by (cases ys) auto
qed

lemma chain_NULL_notin: "chain f p xs \<Longrightarrow> NULL \<notin> set xs"
  by (induction xs arbitrary: p) auto

lemma chain_distinct: "chain f p xs \<Longrightarrow> distinct xs"
proof (induction xs arbitrary: p)
  case Nil
  then show ?case by simp
next
  case (Cons x xs)
  have "x \<notin> set xs"
  proof
    assume "x \<in> set xs"
    then obtain ys zs where xs: "xs = ys @ x # zs" by (auto dest: split_list)
    with Cons.prems have "chain f (f x) (ys @ x # zs)" by simp
    then have "chain f x (x # zs)" by (auto simp: chain_append)
    with Cons.prems have "x # zs = x # xs" by (auto dest: chain_unique)
    with xs show False by simp
  qed
  with Cons show ?case by auto
qed

lemma chain_cong:
  "(\<And>x. x \<in> set xs \<Longrightarrow> f x = g x) \<Longrightarrow> chain f p xs \<longleftrightarrow> chain g p xs"
  by (induction xs arbitrary: p) auto

lemma seg_cong:
  "(\<And>x. x \<in> set xs \<Longrightarrow> f x = g x) \<Longrightarrow> seg f p xs q \<longleftrightarrow> seg g p xs q"
  by (induction xs arbitrary: p) auto

lemma chain_upd_notin: "y \<notin> set xs \<Longrightarrow> chain (f(y := z)) p xs \<longleftrightarrow> chain f p xs"
  by (rule chain_cong) auto

lemma seg_upd_notin: "y \<notin> set xs \<Longrightarrow> seg (f(y := z)) p xs q \<longleftrightarrow> seg f p xs q"
  by (rule seg_cong) auto

lemma seg_nonempty: "seg f p xs q \<Longrightarrow> xs \<noteq> [] \<Longrightarrow> p = hd xs \<and> f (last xs) = q"
  by (induction xs arbitrary: p) (auto split: if_splits)

text \<open>Redirecting the last link of a segment.\<close>

lemma seg_relink:
  "seg f p (xs @ [x]) q \<Longrightarrow> x \<notin> set xs \<Longrightarrow> seg (f(x := r)) p (xs @ [x]) r"
  by (auto simp: seg_append seg_upd_notin)

section \<open>Doubly linked segments\<close>

text \<open>
  \<open>dseg nx pv b p xs l e\<close>: the addresses \<open>xs\<close> are linked forwards by \<open>nx\<close> from \<open>p\<close> to
  \<open>e\<close> and backwards by \<open>pv\<close> from \<open>l\<close> to \<open>b\<close>.  A whole list has \<open>b = e = NULL\<close>, its
  head pointer is \<open>p\<close> and its tail pointer is \<open>l\<close>.
\<close>

primrec dseg :: "(ptr \<Rightarrow> ptr) \<Rightarrow> (ptr \<Rightarrow> ptr) \<Rightarrow> ptr \<Rightarrow> ptr \<Rightarrow> ptr list \<Rightarrow> ptr \<Rightarrow> ptr \<Rightarrow> bool" where
  "dseg nx pv b p [] l e \<longleftrightarrow> p = e \<and> l = b"
| "dseg nx pv b p (x # xs) l e \<longleftrightarrow>
     p = x \<and> x \<noteq> NULL \<and> pv x = b \<and> dseg nx pv x (nx x) xs l e"

abbreviation dll :: "(ptr \<Rightarrow> ptr) \<Rightarrow> (ptr \<Rightarrow> ptr) \<Rightarrow> ptr \<Rightarrow> ptr list \<Rightarrow> ptr \<Rightarrow> bool" where
  "dll nx pv p xs l \<equiv> dseg nx pv NULL p xs l NULL"

lemma dseg_append:
  "dseg nx pv b p (xs @ ys) l e \<longleftrightarrow> (\<exists>m q. dseg nx pv b p xs m q \<and> dseg nx pv m q ys l e)"
  by (induction xs arbitrary: b p) auto

lemma dseg_seg: "dseg nx pv b p xs l e \<Longrightarrow> seg nx p xs e"
  by (induction xs arbitrary: b p) auto

lemma seg_NULL_chain: "seg f p xs NULL = chain f p xs"
  by (induction xs arbitrary: p) auto

lemma dll_chain: "dll nx pv p xs l \<Longrightarrow> chain nx p xs"
  using dseg_seg seg_NULL_chain by blast

lemma dll_distinct: "dll nx pv p xs l \<Longrightarrow> distinct xs"
  by (blast dest: dll_chain chain_distinct)

lemma dll_NULL_notin: "dll nx pv p xs l \<Longrightarrow> NULL \<notin> set xs"
  by (blast dest: dll_chain chain_NULL_notin)

lemma dseg_NULL_notin: "dseg nx pv b p xs l e \<Longrightarrow> NULL \<notin> set xs"
  by (induction xs arbitrary: b p) auto

lemma dseg_cong:
  "(\<And>x. x \<in> set xs \<Longrightarrow> nx x = nx' x) \<Longrightarrow> (\<And>x. x \<in> set xs \<Longrightarrow> pv x = pv' x) \<Longrightarrow>
   dseg nx pv b p xs l e \<longleftrightarrow> dseg nx' pv' b p xs l e"
  by (induction xs arbitrary: b p) auto

lemma dseg_nx_notin: "y \<notin> set xs \<Longrightarrow> dseg (nx(y := z)) pv b p xs l e = dseg nx pv b p xs l e"
  by (rule dseg_cong) auto

lemma dseg_pv_notin: "y \<notin> set xs \<Longrightarrow> dseg nx (pv(y := z)) b p xs l e = dseg nx pv b p xs l e"
  by (rule dseg_cong) auto

lemma dseg_first: "dseg nx pv b p xs l e \<Longrightarrow> p = (if xs = [] then e else hd xs)"
  by (cases xs) auto

lemma dseg_last: "dseg nx pv b p xs l e \<Longrightarrow> l = (if xs = [] then b else last xs)"
  by (induction xs arbitrary: b p) auto

lemma dseg_last_nx: "dseg nx pv b p xs l e \<Longrightarrow> xs \<noteq> [] \<Longrightarrow> nx l = e"
  by (cases xs rule: rev_cases) (auto simp: dseg_append)

lemma dseg_first_pv: "dseg nx pv b p xs l e \<Longrightarrow> xs \<noteq> [] \<Longrightarrow> pv p = b"
  by (cases xs) auto

lemma dll_head_NULL: "dll nx pv p xs l \<Longrightarrow> p = NULL \<longleftrightarrow> xs = []"
  by (cases xs) auto

lemma dll_tail_NULL: "dll nx pv p xs l \<Longrightarrow> l = NULL \<longleftrightarrow> xs = []"
  using dll_NULL_notin dseg_last by (metis last_in_set)

text \<open>Changing what comes after the last, or before the first, element.\<close>

lemma dseg_set_end:
  assumes "dseg nx pv b p xs m e" and "distinct xs" and "xs \<noteq> []"
  shows "dseg (nx(m := e')) pv b p xs m e'"
proof -
  obtain ys y where xs: "xs = ys @ [y]" using assms(3) by (cases xs rule: rev_cases) auto
  with assms have y: "y \<notin> set ys" "m = y" by (auto dest: dseg_last)
  with assms(1) xs show ?thesis by (auto simp: dseg_append dseg_nx_notin)
qed

lemma dseg_set_begin:
  assumes "dseg nx pv b p xs m e" and "distinct xs" and "xs \<noteq> []"
  shows "dseg nx (pv(p := b')) b' p xs m e"
proof -
  obtain y ys where xs: "xs = y # ys" using assms(3) by (cases xs) auto
  with assms have "y \<notin> set ys" "p = y" by auto
  with assms(1) xs show ?thesis by (auto simp: dseg_pv_notin)
qed

lemma dseg_set_end_if:
  assumes "dseg nx pv NULL p xs m e" and "distinct xs"
  shows "dseg (if m = NULL then nx else nx(m := e')) pv NULL (if xs = [] then e' else p) xs m e'"
proof (cases "xs = []")
  case True
  with assms show ?thesis by auto
next
  case False
  from assms(1) have "NULL \<notin> set xs" by (rule dseg_NULL_notin)
  with False assms have "m \<noteq> NULL" by (metis dseg_last last_in_set)
  with False assms show ?thesis by (auto intro: dseg_set_end)
qed

lemma dseg_set_begin_if:
  assumes "dseg nx pv b p xs m NULL" and "distinct xs"
  shows "dseg nx (if p = NULL then pv else pv(p := b')) b' p xs (if xs = [] then b' else m) NULL"
proof (cases "xs = []")
  case True
  with assms show ?thesis by auto
next
  case False
  from assms(1) have "NULL \<notin> set xs" by (rule dseg_NULL_notin)
  with False assms have "p \<noteq> NULL" by (cases xs) auto
  with False assms show ?thesis by (auto intro: dseg_set_begin)
qed

text \<open>Taking an element out of a list, with the assignments of the code.\<close>

lemma dll_remove:
  assumes d: "dll nx pv p (xs @ x # ys) l"
  shows "dll (if pv x = NULL then nx else nx(pv x := nx x))
             (if nx x = NULL then pv else pv(nx x := pv x))
             (if p = x then nx x else p) (xs @ ys) (if l = x then pv x else l)"
proof -
  from d have dist: "distinct (xs @ x # ys)" and nn: "NULL \<notin> set (xs @ x # ys)"
    by (blast dest: dll_distinct dll_NULL_notin)+
  from d obtain a: "dseg nx pv NULL p xs (pv x) x" and b: "dseg nx pv x (nx x) ys l NULL"
    by (auto simp: dseg_append)
  let ?nx = "if pv x = NULL then nx else nx(pv x := nx x)"
  let ?pv = "if nx x = NULL then pv else pv(nx x := pv x)"
  have pvx: "xs \<noteq> [] \<Longrightarrow> pv x \<in> set xs" using a by (metis dseg_last last_in_set)
  have nxx: "ys \<noteq> [] \<Longrightarrow> nx x \<in> set ys" using b by (metis dseg_first hd_in_set)
  have pvx0: "xs = [] \<Longrightarrow> pv x = NULL" and nxx0: "ys = [] \<Longrightarrow> nx x = NULL" using a b by auto
  have a1: "dseg ?nx pv NULL (if xs = [] then nx x else p) xs (pv x) (nx x)"
    using dseg_set_end_if [OF a, of "nx x"] dist by simp
  have a2: "dseg ?nx ?pv NULL (if xs = [] then nx x else p) xs (pv x) (nx x)"
  proof -
    have "nx x \<notin> set xs" using nxx nxx0 dist nn by (cases "ys = []") auto
    then have "dseg ?nx pv NULL q xs (pv x) (nx x) = dseg ?nx ?pv NULL q xs (pv x) (nx x)" for q
      by (intro dseg_cong) auto
    with a1 show ?thesis by blast
  qed
  have b1: "dseg nx ?pv (pv x) (nx x) ys (if ys = [] then pv x else l) NULL"
    using dseg_set_begin_if [OF b, of "pv x"] dist by simp
  have b2: "dseg ?nx ?pv (pv x) (nx x) ys (if ys = [] then pv x else l) NULL"
  proof -
    have "pv x \<notin> set ys" using pvx pvx0 dist nn by (cases "xs = []") auto
    then have "dseg nx ?pv (pv x) (nx x) ys q NULL = dseg ?nx ?pv (pv x) (nx x) ys q NULL" for q
      by (intro dseg_cong) auto
    with b1 show ?thesis by blast
  qed
  have "dseg ?nx ?pv NULL (if xs = [] then nx x else p) (xs @ ys) (if ys = [] then pv x else l) NULL"
    unfolding dseg_append using a2 b2 by blast
  moreover have "(if xs = [] then nx x else p) = (if p = x then nx x else p)"
    using a dist by (auto dest!: dseg_first split: if_splits)
  moreover have "(if ys = [] then pv x else l) = (if l = x then pv x else l)"
    using b dist by (auto dest!: dseg_last split: if_splits)
  ultimately show ?thesis by simp
qed

text \<open>Putting an element in front of a list.\<close>

lemma dll_push:
  assumes d: "dll nx pv p xs l" and x: "x \<notin> set xs" "x \<noteq> NULL"
  shows "dll (nx(x := p)) (if p = NULL then pv(x := NULL) else pv(x := NULL, p := x)) x (x # xs)
             (if l = NULL then x else l)"
proof (cases "xs = []")
  case True
  with d x show ?thesis by auto
next
  case False
  with d have p: "p = hd xs" "p \<noteq> NULL" "l \<noteq> NULL" and dist: "distinct xs"
    by (auto dest: dseg_first dll_head_NULL dll_tail_NULL dll_distinct)
  have "dseg nx (pv(p := x)) x p xs l NULL" using d dist False by (rule dseg_set_begin)
  then have "dseg (nx(x := p)) (pv(x := NULL, p := x)) x p xs l NULL"
    using x p False by (subst dseg_cong [where nx' = nx and pv' = "pv(p := x)"]) auto
  with p x False show ?thesis by auto
qed

text \<open>Putting an element behind a list.\<close>

lemma dll_snoc:
  assumes d: "dll nx pv p xs l" and x: "x \<notin> set xs" "x \<noteq> NULL"
  shows "dll (if l = NULL then nx(x := NULL) else nx(x := NULL, l := x)) (pv(x := l))
             (if p = NULL then x else p) (xs @ [x]) x"
proof (cases "xs = []")
  case True
  with d x show ?thesis by auto
next
  case False
  with d have p: "p \<noteq> NULL" "l \<noteq> NULL" "l = last xs" and dist: "distinct xs"
    by (auto dest: dseg_last dll_head_NULL dll_tail_NULL dll_distinct)
  have "dseg (nx(l := x)) pv NULL p xs l x" using d dist False by (rule dseg_set_end)
  then have "dseg (nx(x := NULL, l := x)) (pv(x := l)) NULL p xs l x"
    using x p False by (subst dseg_cong [where nx' = "nx(l := x)" and pv' = pv]) auto
  with p x False show ?thesis by (auto simp: dseg_append)
qed

end
