(* ===== verification/MC_Hash.thy ===== *)
theory MC_Hash
  imports Prelude
begin

text \<open>
  The two hash functions of memcached (\<open>murmur3_hash.c\<close>, \<open>jenkins_hash.c\<close>, little-endian
  configuration) and the choice between them (\<open>hash.c\<close>).  A key is given by the bytes from
  its address on, as a function of the offset: the word-wise readers look past its end.
  The main result is that the three readers of \<open>jenkins_hash\<close>, chosen by the alignment of the
  key, compute the same value, which depends on nothing but the bytes of the key.
\<close>

unbundle bit_operations_syntax

section \<open>Reading words from memory\<close>

text \<open>\<open>*(uint16_t * )\<close> and \<open>*(uint32_t * )\<close> at an offset, on a little-endian machine.\<close>

definition byte_at :: "(nat \<Rightarrow> u8) \<Rightarrow> nat \<Rightarrow> u32" where
  "byte_at m i = ucast (m i)"

definition read16 :: "(nat \<Rightarrow> u8) \<Rightarrow> nat \<Rightarrow> u32" where
  "read16 m i = byte_at m i OR push_bit 8 (byte_at m (i + 1))"

definition read32 :: "(nat \<Rightarrow> u8) \<Rightarrow> nat \<Rightarrow> u32" where
  "read32 m i = byte_at m i OR push_bit 8 (byte_at m (i + 1)) OR
     push_bit 16 (byte_at m (i + 2)) OR push_bit 24 (byte_at m (i + 3))"

lemma bit_byte_at: "bit (byte_at m i) n \<longleftrightarrow> n < 8 \<and> bit (m i) n"
  by (auto simp: byte_at_def bit_unsigned_iff dest: bit_imp_le_length)

lemma read16_sum: "read16 m i = byte_at m i + push_bit 8 (byte_at m (i + 1))"
  unfolding read16_def
  by (rule disjunctive_add_eq_or [symmetric], rule bit_word_eqI) (auto simp: bit_simps bit_byte_at)

lemma read32_sum:
  "read32 m i = byte_at m i + push_bit 8 (byte_at m (i + 1)) +
     push_bit 16 (byte_at m (i + 2)) + push_bit 24 (byte_at m (i + 3))"
proof -
  let ?b = "\<lambda>k. byte_at m (i + k)"
  have 2: "read16 m i OR push_bit 16 (?b 2) = read16 m i + push_bit 16 (?b 2)"
    by (rule disjunctive_add_eq_or [symmetric], rule bit_word_eqI)
      (auto simp: read16_def bit_simps bit_byte_at)
  have 3: "(read16 m i OR push_bit 16 (?b 2)) OR push_bit 24 (?b 3) =
      (read16 m i OR push_bit 16 (?b 2)) + push_bit 24 (?b 3)"
    by (rule disjunctive_add_eq_or [symmetric], rule bit_word_eqI)
      (auto simp: read16_def bit_simps bit_byte_at)
  have "read32 m i = (read16 m i OR push_bit 16 (?b 2)) OR push_bit 24 (?b 3)"
    by (simp only: read32_def read16_def or.assoc)
  then have "read32 m i = (read16 m i + push_bit 16 (?b 2)) + push_bit 24 (?b 3)"
    by (simp only: 3) (simp only: 2)
  then show ?thesis by (simp only: read16_sum)
qed

lemma read32_mask:
  "read32 m i AND 0xff = byte_at m i"
  "read32 m i AND 0xffff = byte_at m i + push_bit 8 (byte_at m (i + 1))"
  "read32 m i AND 0xffffff = byte_at m i + push_bit 8 (byte_at m (i + 1)) + push_bit 16 (byte_at m (i + 2))"
proof -
  have k: "(0xff::u32) = mask 8" "(0xffff::u32) = mask 16" "(0xffffff::u32) = mask 24"
    by (simp_all add: mask_eq_exp_minus_1)
  show "read32 m i AND 0xff = byte_at m i"
    unfolding k by (rule bit_word_eqI) (auto simp: read32_def bit_simps bit_byte_at)
  have "read32 m i AND 0xffff = read16 m i"
    unfolding k by (rule bit_word_eqI) (auto simp: read32_def read16_def bit_simps bit_byte_at)
  then show "read32 m i AND 0xffff = byte_at m i + push_bit 8 (byte_at m (i + 1))"
    by (simp add: read16_sum)
  have "read32 m i AND 0xffffff = read16 m i OR push_bit 16 (byte_at m (i + 2))"
    unfolding k by (rule bit_word_eqI) (auto simp: read32_def read16_def bit_simps bit_byte_at)
  also have "\<dots> = read16 m i + push_bit 16 (byte_at m (i + 2))"
    by (rule disjunctive_add_eq_or [symmetric], rule bit_word_eqI) (auto simp: read16_def bit_simps bit_byte_at)
  finally show "read32 m i AND 0xffffff =
      byte_at m i + push_bit 8 (byte_at m (i + 1)) + push_bit 16 (byte_at m (i + 2))"
    by (simp add: read16_sum)
qed

section \<open>The Jenkins hash\<close>

definition rot :: "u32 \<Rightarrow> nat \<Rightarrow> u32" where
  "rot x k = push_bit k x XOR drop_bit (32 - k) x"

definition mix :: "u32 \<times> u32 \<times> u32 \<Rightarrow> u32 \<times> u32 \<times> u32" where
  "mix = (\<lambda>(a, b, c).
     let a = a - c; a = a XOR rot c 4; c = c + b;
         b = b - a; b = b XOR rot a 6; a = a + c;
         c = c - b; c = c XOR rot b 8; b = b + a;
         a = a - c; a = a XOR rot c 16; c = c + b;
         b = b - a; b = b XOR rot a 19; a = a + c;
         c = c - b; c = c XOR rot b 4; b = b + a
     in (a, b, c))"

definition final :: "u32 \<times> u32 \<times> u32 \<Rightarrow> u32 \<times> u32 \<times> u32" where
  "final = (\<lambda>(a, b, c).
     let c = c XOR b; c = c - rot b 14;
         a = a XOR c; a = a - rot c 11;
         b = b XOR a; b = b - rot a 25;
         c = c XOR b; c = c - rot b 16;
         a = a XOR c; a = a - rot c 4;
         b = b XOR a; b = b - rot a 14;
         c = c XOR b; c = c - rot b 24
     in (a, b, c))"

text \<open>The reader for keys aligned to 4 bytes; \<open>o\<close> is the offset of \<open>k\<close> from the key.\<close>

function loop32 ::
  "(nat \<Rightarrow> u8) \<Rightarrow> nat \<Rightarrow> nat \<Rightarrow> u32 \<times> u32 \<times> u32 \<Rightarrow> nat \<times> nat \<times> u32 \<times> u32 \<times> u32" where
  "loop32 m off len (a, b, c) =
     (if len > 12
      then loop32 m (off + 12) (len - 12)
             (mix (a + read32 m off, b + read32 m (off + 4), c + read32 m (off + 8)))
      else (off, len, a, b, c))"
  by pat_completeness auto
termination by (relation "measure (\<lambda>(_, _, len, _). len)") auto

definition tail32 :: "(nat \<Rightarrow> u8) \<Rightarrow> nat \<Rightarrow> nat \<Rightarrow> u32 \<times> u32 \<times> u32 \<Rightarrow> u32 \<times> u32 \<times> u32" where
  "tail32 m off len = (\<lambda>(a, b, c).
     let k0 = read32 m off; k1 = read32 m (off + 4); k2 = read32 m (off + 8) in
     if len = 12 then (a + k0, b + k1, c + k2)
     else if len = 11 then (a + k0, b + k1, c + (k2 AND 0xffffff))
     else if len = 10 then (a + k0, b + k1, c + (k2 AND 0xffff))
     else if len = 9 then (a + k0, b + k1, c + (k2 AND 0xff))
     else if len = 8 then (a + k0, b + k1, c)
     else if len = 7 then (a + k0, b + (k1 AND 0xffffff), c)
     else if len = 6 then (a + k0, b + (k1 AND 0xffff), c)
     else if len = 5 then (a + k0, b + (k1 AND 0xff), c)
     else if len = 4 then (a + k0, b, c)
     else if len = 3 then (a + (k0 AND 0xffffff), b, c)
     else if len = 2 then (a + (k0 AND 0xffff), b, c)
     else (a + (k0 AND 0xff), b, c))"

declare loop32.simps [simp del]

text \<open>The reader for keys aligned to 2 bytes.\<close>

function loop16 ::
  "(nat \<Rightarrow> u8) \<Rightarrow> nat \<Rightarrow> nat \<Rightarrow> u32 \<times> u32 \<times> u32 \<Rightarrow> nat \<times> nat \<times> u32 \<times> u32 \<times> u32" where
  "loop16 m off len (a, b, c) =
     (if len > 12
      then loop16 m (off + 12) (len - 12)
             (mix (a + (read16 m off + push_bit 16 (read16 m (off + 2))),
                   b + (read16 m (off + 4) + push_bit 16 (read16 m (off + 6))),
                   c + (read16 m (off + 8) + push_bit 16 (read16 m (off + 10)))))
      else (off, len, a, b, c))"
  by pat_completeness auto
termination by (relation "measure (\<lambda>(_, _, len, _). len)") auto

definition tail16 :: "(nat \<Rightarrow> u8) \<Rightarrow> nat \<Rightarrow> nat \<Rightarrow> u32 \<times> u32 \<times> u32 \<Rightarrow> u32 \<times> u32 \<times> u32" where
  "tail16 m off len = (\<lambda>(a, b, c).
     let k0 = read16 m off; k1 = read16 m (off + 2); k2 = read16 m (off + 4);
         k3 = read16 m (off + 6); k4 = read16 m (off + 8); k5 = read16 m (off + 10);
         k8 = (\<lambda>i. byte_at m (off + i)) in
     if len = 12 then (a + (k0 + push_bit 16 k1), b + (k2 + push_bit 16 k3), c + (k4 + push_bit 16 k5))
     else if len = 11 then (a + (k0 + push_bit 16 k1), b + (k2 + push_bit 16 k3), c + push_bit 16 (k8 10) + k4)
     else if len = 10 then (a + (k0 + push_bit 16 k1), b + (k2 + push_bit 16 k3), c + k4)
     else if len = 9 then (a + (k0 + push_bit 16 k1), b + (k2 + push_bit 16 k3), c + k8 8)
     else if len = 8 then (a + (k0 + push_bit 16 k1), b + (k2 + push_bit 16 k3), c)
     else if len = 7 then (a + (k0 + push_bit 16 k1), b + push_bit 16 (k8 6) + k2, c)
     else if len = 6 then (a + (k0 + push_bit 16 k1), b + k2, c)
     else if len = 5 then (a + (k0 + push_bit 16 k1), b + k8 4, c)
     else if len = 4 then (a + (k0 + push_bit 16 k1), b, c)
     else if len = 3 then (a + push_bit 16 (k8 2) + k0, b, c)
     else if len = 2 then (a + k0, b, c)
     else (a + k8 0, b, c))"

declare loop16.simps [simp del]

text \<open>The reader for all other keys.\<close>

function loop8 ::
  "(nat \<Rightarrow> u8) \<Rightarrow> nat \<Rightarrow> nat \<Rightarrow> u32 \<times> u32 \<times> u32 \<Rightarrow> nat \<times> nat \<times> u32 \<times> u32 \<times> u32" where
  "loop8 m off len (a, b, c) =
     (if len > 12
      then let k = (\<lambda>i. byte_at m (off + i)) in
           loop8 m (off + 12) (len - 12)
             (mix (a + k 0 + push_bit 8 (k 1) + push_bit 16 (k 2) + push_bit 24 (k 3),
                   b + k 4 + push_bit 8 (k 5) + push_bit 16 (k 6) + push_bit 24 (k 7),
                   c + k 8 + push_bit 8 (k 9) + push_bit 16 (k 10) + push_bit 24 (k 11)))
      else (off, len, a, b, c))"
  by pat_completeness auto
termination by (relation "measure (\<lambda>(_, _, len, _). len)") auto

declare loop8.simps [simp del]

text \<open>All cases fall through.\<close>

definition tail8 :: "(nat \<Rightarrow> u8) \<Rightarrow> nat \<Rightarrow> nat \<Rightarrow> u32 \<times> u32 \<times> u32 \<Rightarrow> u32 \<times> u32 \<times> u32" where
  "tail8 m off len = (\<lambda>(a, b, c).
     let k = (\<lambda>i. byte_at m (off + i));
         c = (if len \<ge> 12 then c + push_bit 24 (k 11) else c);
         c = (if len \<ge> 11 then c + push_bit 16 (k 10) else c);
         c = (if len \<ge> 10 then c + push_bit 8 (k 9) else c);
         c = (if len \<ge> 9 then c + k 8 else c);
         b = (if len \<ge> 8 then b + push_bit 24 (k 7) else b);
         b = (if len \<ge> 7 then b + push_bit 16 (k 6) else b);
         b = (if len \<ge> 6 then b + push_bit 8 (k 5) else b);
         b = (if len \<ge> 5 then b + k 4 else b);
         a = (if len \<ge> 4 then a + push_bit 24 (k 3) else a);
         a = (if len \<ge> 3 then a + push_bit 16 (k 2) else a);
         a = (if len \<ge> 2 then a + push_bit 8 (k 1) else a);
         a = (if len \<ge> 1 then a + k 0 else a)
     in (a, b, c))"

definition jenkins_hash :: "nat \<Rightarrow> (nat \<Rightarrow> u8) \<Rightarrow> nat \<Rightarrow> u32" where
  "jenkins_hash addr m len =
     (let i = 0xdeadbeef + of_nat len;
          (loop, tail) = (if addr mod 4 = 0 then (loop32, tail32)
                          else if addr mod 2 = 0 then (loop16, tail16) else (loop8, tail8));
          (off, len', abc) = loop m 0 len (i, i, i)
      in if len' = 0 then snd (snd abc) else snd (snd (final (tail m off len' abc))))"

section \<open>Murmur3\<close>

definition rotl32 :: "u32 \<Rightarrow> nat \<Rightarrow> u32" where
  "rotl32 x r = push_bit r x OR drop_bit (32 - r) x"

definition fmix32 :: "u32 \<Rightarrow> u32" where
  "fmix32 h =
     (let h = h XOR drop_bit 16 h; h = h * 0x85ebca6b;
          h = h XOR drop_bit 13 h; h = h * 0xc2b2ae35;
          h = h XOR drop_bit 16 h
      in h)"

definition murmur_c1 :: u32 where "murmur_c1 = 0xcc9e2d51"
definition murmur_c2 :: u32 where "murmur_c2 = 0x1b873593"

definition murmur_scramble :: "u32 \<Rightarrow> u32" where
  "murmur_scramble k1 = rotl32 (k1 * murmur_c1) 15 * murmur_c2"

definition murmur_round :: "u32 \<Rightarrow> u32 \<Rightarrow> u32" where
  "murmur_round k1 h1 = rotl32 (h1 XOR murmur_scramble k1) 13 * 5 + 0xe6546b64"

text \<open>The body: blocks \<open>0 .. n - 1\<close> in order.\<close>

fun murmur_body :: "(nat \<Rightarrow> u8) \<Rightarrow> nat \<Rightarrow> nat \<Rightarrow> u32 \<Rightarrow> u32" where
  "murmur_body m off 0 h1 = h1"
| "murmur_body m off (Suc n) h1 = murmur_body m (off + 4) n (murmur_round (read32 m off) h1)"

definition murmur_tail :: "(nat \<Rightarrow> u8) \<Rightarrow> nat \<Rightarrow> nat \<Rightarrow> u32 \<Rightarrow> u32" where
  "murmur_tail m t len h1 =
     (let k1 = 0;
          k1 = (if len mod 4 \<ge> 3 then k1 XOR push_bit 16 (byte_at m (t + 2)) else k1);
          k1 = (if len mod 4 \<ge> 2 then k1 XOR push_bit 8 (byte_at m (t + 1)) else k1);
          k1 = (if len mod 4 \<ge> 1 then k1 XOR byte_at m t else k1)
      in if len mod 4 \<ge> 1 then h1 XOR murmur_scramble k1 else h1)"

definition MurmurHash3_x86_32 :: "(nat \<Rightarrow> u8) \<Rightarrow> nat \<Rightarrow> u32" where
  "MurmurHash3_x86_32 m len =
     (let nblocks = len div 4;
          h1 = murmur_body m 0 nblocks 0;
          h1 = murmur_tail m (nblocks * 4) len h1
      in fmix32 (h1 XOR of_nat len))"

section \<open>Choosing the function\<close>

datatype hashfunc_type = JENKINS_HASH | MURMUR3_HASH

text \<open>\<open>hash_init\<close> returns -1 for any other value of the enumeration.\<close>

definition hash_init :: "hashfunc_type option \<Rightarrow> (nat \<Rightarrow> (nat \<Rightarrow> u8) \<Rightarrow> nat \<Rightarrow> u32) option" where
  "hash_init t = (case t of
       Some JENKINS_HASH \<Rightarrow> Some jenkins_hash
     | Some MURMUR3_HASH \<Rightarrow> Some (\<lambda>addr. MurmurHash3_x86_32)
     | None \<Rightarrow> None)"

section \<open>The readers agree\<close>

text \<open>The sums of the word-wise readers in the order in which the byte-wise one adds.\<close>

lemma add_read32:
  "a + read32 m i = a + push_bit 24 (byte_at m (i + 3)) + push_bit 16 (byte_at m (i + 2)) +
     push_bit 8 (byte_at m (i + 1)) + byte_at m i"
  "a + (read32 m i AND 0xffffff) = a + push_bit 16 (byte_at m (i + 2)) +
     push_bit 8 (byte_at m (i + 1)) + byte_at m i"
  "a + (read32 m i AND 0xffff) = a + push_bit 8 (byte_at m (i + 1)) + byte_at m i"
  "a + (read32 m i AND 0xff) = a + byte_at m i"
  by (simp_all only: read32_mask) (simp_all only: read32_sum ac_simps)

lemma read16_pair: "read16 m i + push_bit 16 (read16 m (i + 2)) = read32 m i"
  by (simp add: read16_sum read32_sum push_bit_add add.assoc eval_nat_numeral)

lemma read16_pair_at:
  "read16 m (i + 4) + push_bit 16 (read16 m (i + 6)) = read32 m (i + 4)"
  "read16 m (i + 8) + push_bit 16 (read16 m (i + 10)) = read32 m (i + 8)"
  using read16_pair [of m "i + 4"] read16_pair [of m "i + 8"] 
  by (simp_all only: add.assoc numeral_plus_numeral add_num_simps)

lemma add_read16: "a + read16 m i = a + push_bit 8 (byte_at m (i + 1)) + byte_at m i"
  unfolding read16_sum by (simp only: ac_simps)

lemmas off_simps = add.assoc [of i j k for i j k :: nat]

lemma loop32_loop8: "loop32 m off len abc = loop8 m off len abc"
proof (induction m off len abc rule: loop8.induct)
  case (1 m off len a b c)
  have "a + read32 m i = a + byte_at m i + push_bit 8 (byte_at m (i + 1)) +
     push_bit 16 (byte_at m (i + 2)) + push_bit 24 (byte_at m (i + 3))" for a i
    by (simp only: read32_sum add.assoc)
  note sum = this
  from 1 show ?case
    by (simp add: loop32.simps [of m off len] loop8.simps [of m off len] Let_def sum off_simps del: One_nat_def add_Suc_right add_2_eq_Suc add_2_eq_Suc')
qed

lemma loop16_loop32: "loop16 m off len abc = loop32 m off len abc"
  by (induction m off len abc rule: loop32.induct) 
    (subst loop16.simps, subst loop32.simps, simp add: read16_pair read16_pair_at del: add_2_eq_Suc add_2_eq_Suc')

lemma loop8_bound: "loop8 m off len abc = (off', len', abc') \<Longrightarrow> len' \<le> 12 \<and> off' + len' = off + len"
  by (induction m off len abc rule: loop8.induct) (subst (asm) loop8.simps, auto simp: Let_def split: if_splits)

lemma le12: "(n::nat) \<le> 12 \<Longrightarrow> n \<in> {0, 1, 2, 3, 4, 5, 6, 7, 8, 9, 10, 11, 12}"
  by (simp only: insert_iff empty_iff) presburger

lemma tail32_tail8:
  assumes "len \<le> 12" "len \<noteq> 0"
  shows "tail32 m off len abc = tail8 m off len abc"
  by (insert le12 [OF assms(1)] assms(2), cases abc, elim insertE emptyE;
      simp add: tail32_def tail8_def Let_def add_read32 off_simps del: One_nat_def add_Suc_right add_2_eq_Suc add_2_eq_Suc')

lemma tail16_tail8:
  assumes "len \<le> 12" "len \<noteq> 0"
  shows "tail16 m off len abc = tail8 m off len abc"
  by (insert le12 [OF assms(1)] assms(2), cases abc, elim insertE emptyE;
      simp add: tail16_def tail8_def Let_def read16_pair read16_pair_at add_read32 add_read16 off_simps
      del: One_nat_def add_Suc_right add_2_eq_Suc add_2_eq_Suc')

text \<open>\<open>jenkins_hash\<close> reads the same bytes whatever the alignment of the key.\<close>

lemma jenkins_hash_align: "jenkins_hash addr m len = jenkins_hash 1 m len"
proof -
  obtain off len' abc where l: "loop8 m 0 len (0xdeadbeef + of_nat len, 0xdeadbeef + of_nat len, 0xdeadbeef + of_nat len) = (off, len', abc)"
    by (metis prod_cases3)
  have "len' \<le> 12" using loop8_bound [OF l] by simp
  then show ?thesis
    using l tail32_tail8 [of len' m off abc] tail16_tail8 [of len' m off abc]
    by (auto simp: jenkins_hash_def Let_def loop32_loop8 loop16_loop32)
qed

text \<open>The byte-wise reader looks at the bytes of the key only.\<close>

lemma byte_at_cong: "m i = m' i \<Longrightarrow> byte_at m i = byte_at m' i"
  by (simp add: byte_at_def)

lemma byte_at_offsets:
  assumes "\<And>i. i < n \<Longrightarrow> byte_at m (off + i) = byte_at m' (off + i)"
  shows "0 < n \<Longrightarrow> byte_at m off = byte_at m' off" "1 < n \<Longrightarrow> byte_at m (Suc off) = byte_at m' (Suc off)"
    "2 < n \<Longrightarrow> byte_at m (Suc (Suc off)) = byte_at m' (Suc (Suc off))"
  using assms [of 0] assms [of 1] assms [of 2] by simp_all

lemma loop8_cong:
  assumes "\<And>i. off \<le> i \<Longrightarrow> i < off + len \<Longrightarrow> m i = m' i"
  shows "loop8 m off len abc = loop8 m' off len abc"
  using assms
proof (induction len arbitrary: off abc rule: less_induct)
  case (less len)
  obtain a b c where abc: "abc = (a, b, c)" by (cases abc)
  show ?case
  proof (cases "len > 12")
    case True
    have k: "byte_at m (off + i) = byte_at m' (off + i)" if "i < 12" for i
      using less.prems that True by (intro byte_at_cong) simp
    have "loop8 m (off + 12) (len - 12) x = loop8 m' (off + 12) (len - 12) x" for x
      using True less.prems by (intro less.IH) simp_all
    then show ?thesis using True byte_at_offsets [OF k] by (simp add: loop8.simps [of _ off len] abc Let_def k)
  next
    case False
    then show ?thesis by (simp add: abc loop8.simps [of _ off len])
  qed
qed

lemma tail8_cong:
  assumes "\<And>i. off \<le> i \<Longrightarrow> i < off + len \<Longrightarrow> m i = m' i"
  shows "tail8 m off len abc = tail8 m' off len abc"
proof -
  have k: "byte_at m (off + i) = byte_at m' (off + i)" if "i < len" for i
    using assms that by (intro byte_at_cong) simp
  then show ?thesis by (simp add: tail8_def Let_def byte_at_offsets [OF k] cong: if_cong)
qed

text \<open>So the hash of a key depends on its bytes only: neither on its alignment nor on what follows
  it in memory.\<close>

lemma jenkins_hash_bytes:
  assumes "\<And>i. i < len \<Longrightarrow> m i = m' i"
  shows "jenkins_hash addr m len = jenkins_hash addr' m' len"
proof -
  let ?i = "0xdeadbeef + of_nat len :: u32"
  obtain off len' abc where l: "loop8 m 0 len (?i, ?i, ?i) = (off, len', abc)"
    by (metis prod_cases3)
  then have l': "loop8 m' 0 len (?i, ?i, ?i) = (off, len', abc)"
    using loop8_cong [of 0 len m m'] assms by simp
  have "tail8 m off len' abc = tail8 m' off len' abc"
    using loop8_bound [OF l] assms by (intro tail8_cong) simp
  then have "jenkins_hash 1 m len = jenkins_hash 1 m' len"
    using l l' by (simp add: jenkins_hash_def Let_def)
  then show ?thesis by (metis jenkins_hash_align)
qed

lemma murmur_body_cong:
  "(\<And>i. off \<le> i \<Longrightarrow> i < off + n * 4 \<Longrightarrow> m i = m' i) \<Longrightarrow>
   murmur_body m off n h = murmur_body m' off n h"
proof (induction n arbitrary: off h)
  case (Suc n)
  have "read32 m off = read32 m' off" using Suc.prems by (simp add: read32_def byte_at_def)
  moreover have "murmur_body m (off + 4) n x = murmur_body m' (off + 4) n x" for x
    using Suc.prems by (intro Suc.IH) simp
  ultimately show ?case by simp
qed simp

lemma murmur_hash_bytes:
  assumes "\<And>i. i < len \<Longrightarrow> m i = m' i"
  shows "MurmurHash3_x86_32 m len = MurmurHash3_x86_32 m' len"
proof -
  let ?t = "len div 4 * 4"
  have "murmur_body m 0 (len div 4) 0 = murmur_body m' 0 (len div 4) 0"
    using assms by (intro murmur_body_cong) simp
  moreover have b: "byte_at m (?t + i) = byte_at m' (?t + i)" if "i < len mod 4" for i
  proof (rule byte_at_cong)
    have "?t + i < len" using that div_mult_mod_eq [of len 4] by linarith
    then show "m (?t + i) = m' (?t + i)" by (rule assms)
  qed
  have "murmur_tail m ?t len h = murmur_tail m' ?t len h" for h
    using byte_at_offsets [OF b] b by (simp add: murmur_tail_def Let_def cong: if_cong)
  ultimately show ?thesis by (simp add: MurmurHash3_x86_32_def Let_def)
qed

section \<open>Reversibility\<close>

text \<open>One line of \<open>mix\<close>; the three values change their roles from line to line.\<close>

definition mix_line :: "nat \<Rightarrow> u32 \<times> u32 \<times> u32 \<Rightarrow> u32 \<times> u32 \<times> u32" where
  "mix_line k = (\<lambda>(a, b, c). (b, c + b, (a - c) XOR rot c k))"

definition unmix_line :: "nat \<Rightarrow> u32 \<times> u32 \<times> u32 \<Rightarrow> u32 \<times> u32 \<times> u32" where
  "unmix_line k = (\<lambda>(b, c, a). ((a XOR rot (c - b) k) + (c - b), b, c - b))"

lemma bij_mix_line: "bij (mix_line k)"
proof (rule bij_betw_byWitness [where f' = "unmix_line k"])
  show "\<forall>x\<in>UNIV. unmix_line k (mix_line k x) = x"
    by (auto simp: mix_line_def unmix_line_def xor.assoc)
  show "\<forall>x\<in>UNIV. mix_line k (unmix_line k x) = x"
    by (auto simp: mix_line_def unmix_line_def xor.assoc)
qed simp_all

lemma mix_lines:
  "mix = mix_line 4 \<circ> mix_line 19 \<circ> mix_line 16 \<circ> mix_line 8 \<circ> mix_line 6 \<circ> mix_line 4"
proof
  fix x :: "u32 \<times> u32 \<times> u32"
  obtain a b c where x: "x = (a, b, c)" by (cases x)
  show "mix x = (mix_line 4 \<circ> mix_line 19 \<circ> mix_line 16 \<circ> mix_line 8 \<circ> mix_line 6 \<circ> mix_line 4) x"
    by (simp only: x mix_def mix_line_def Let_def comp_def split_conv)
qed

lemma bij_mix: "bij mix"
  unfolding mix_lines by (intro bij_comp bij_mix_line)

lemma bij_xor_shift16: "bij (\<lambda>h :: u32. h XOR drop_bit 16 h)"
proof (rule bij_betw_byWitness [where f' = "\<lambda>h. h XOR drop_bit 16 h"])
  have "(h XOR drop_bit 16 h) XOR drop_bit 16 (h XOR drop_bit 16 h) = h" for h :: u32
    by (rule bit_word_eqI) (auto simp: bit_simps)
  then show "\<forall>h\<in>UNIV. (h XOR drop_bit 16 h) XOR drop_bit 16 (h XOR drop_bit 16 h) = (h :: u32)"
    "\<forall>h\<in>UNIV. (h XOR drop_bit 16 h) XOR drop_bit 16 (h XOR drop_bit 16 h) = (h :: u32)" by blast+
qed simp_all

lemma bij_xor_shift13: "bij (\<lambda>h :: u32. h XOR drop_bit 13 h)"
proof -
  define g where "g = (\<lambda>h :: u32. h XOR drop_bit 13 h XOR drop_bit 26 h)"
  have "g (h XOR drop_bit 13 h) = h" for h
  proof (rule bit_word_eqI)
    fix n assume "n < LENGTH(32)"
    have out: "\<not> bit h (13 + (26 + n))" using bit_imp_le_length [of h "13 + (26 + n)"] by auto
    have eq: "bit h (26 + n) = bit h (13 + (13 + n))" by (rule arg_cong [where f = "bit h"]) simp
    show "bit (g (h XOR drop_bit 13 h)) n = bit h n"
      unfolding g_def bit_xor_iff bit_drop_bit_eq comp_def using out eq by blast
  qed
  then have "inj (\<lambda>h :: u32. h XOR drop_bit 13 h)"
    by (rule inj_on_inverseI)
  then show ?thesis by (simp add: finite_UNIV_inj_surj bij_def)
qed

lemma bij_mult_unit: "c * d = 1 \<Longrightarrow> bij (\<lambda>h. h * c)" for c d :: u32
proof (rule bij_betw_byWitness [where f' = "\<lambda>h. h * d"])
  assume cd: "c * d = 1"
  then have dc: "d * c = 1" by (simp only: mult.commute)
  show "\<forall>h\<in>UNIV. h * c * d = h" "\<forall>h\<in>UNIV. h * d * c = h"
    by (simp_all only: mult.assoc cd dc mult_1_right ball_UNIV simp_thms)
qed simp_all

lemma bij_fmix32: "bij fmix32"
proof -
  have "(0xc2b2ae35 :: u32) * 0x7ed1b41d = 1" "(0x85ebca6b :: u32) * 0xa5cb9243 = 1" by simp_all
  note m = bij_mult_unit [OF this(1)] bij_mult_unit [OF this(2)]
  have "fmix32 = (\<lambda>h. h XOR drop_bit 16 h) \<circ> (\<lambda>h. h * 0xc2b2ae35) \<circ> (\<lambda>h. h XOR drop_bit 13 h) \<circ>
      (\<lambda>h. h * 0x85ebca6b) \<circ> (\<lambda>h. h XOR drop_bit 16 h)"
    by (simp add: fun_eq_iff fmix32_def Let_def)
  from this show ?thesis
    by (rule ssubst) (intro bij_comp m bij_xor_shift16 bij_xor_shift13)
qed

section \<open>Properties of the hash functions\<close>

text \<open>A key in memory, with whatever follows it.\<close>

definition key_mem :: "bytes \<Rightarrow> (nat \<Rightarrow> u8) \<Rightarrow> nat \<Rightarrow> u8" where
  "key_mem key junk i = (if i < length key then key ! i else junk i)"

text \<open>Both hash functions depend on the bytes of the key alone: the three readers of
  \<open>jenkins_hash\<close> that the alignment of the key selects agree, and the bytes after the key, which
  the word-wise readers load as well, do not count.\<close>

theorem hash_depends_on_key:
  "jenkins_hash addr (key_mem key junk) (length key) = jenkins_hash addr' (key_mem key junk') (length key) \<and>
   MurmurHash3_x86_32 (key_mem key junk) (length key) = MurmurHash3_x86_32 (key_mem key junk') (length key)"
  by (intro conjI) (rule jenkins_hash_bytes murmur_hash_bytes; simp add: key_mem_def)+

text \<open>The mixing steps lose nothing: \<open>mix\<close>, between the 12 byte blocks of the Jenkins hash, is a
  bijection on its three words, and \<open>fmix32\<close>, at the end of Murmur3, on the 32 bit words.\<close>

theorem mixing_bijective: "bij mix \<and> bij fmix32"
  using bij_mix bij_fmix32 by blast

end
