(* ===== verification/MC_Base.thy ===== *)
theory MC_Base
  imports Complex_Main Prelude
begin

text \<open>
  The data every memcached component shares (\<open>memcached.h\<close>): the item structure and the
  macros that read it, the settings and the global statistics, and the base state record that the
  state records of the components extend.

  The C globals of one source file are the fields of one record extension, so the functions of
  a component are typed over every state that has its fields.  Memory is \<open>heap\<close>, a map from
  addresses to items; the flexible array \<open>data[]\<close> of an item is kept as its four regions (CAS,
  key, suffix, value).  The mutexes are fields too: \<open>True\<close> means held.  The code runs one
  critical section at a time, so waiting for a held lock is waiting for ever, which is \<open>None\<close>.
\<close>

unbundle bit_operations_syntax

section \<open>Items\<close>

record item =
  it_next :: ptr
  it_prev :: ptr
  it_h_next :: ptr
  it_time :: u32
  it_exptime :: u32
  it_nbytes :: u32
  it_refcount :: u16
  it_nsuffix :: u8
  it_flags :: u8
  it_slabs_clsid :: u8
  it_nkey :: u8
  it_cas :: u64
  it_key :: bytes
  it_suffix :: bytes
  it_data :: bytes

definition ITEM_LINKED :: u8 where "ITEM_LINKED = 1"
definition ITEM_CAS :: u8 where "ITEM_CAS = 2"
definition ITEM_SLABBED :: u8 where "ITEM_SLABBED = 4"
definition ITEM_FETCHED :: u8 where "ITEM_FETCHED = 8"

text \<open>\<open>sizeof(struct _stritem)\<close> with 8 byte pointers: 42 bytes of fields, padded to the
  alignment of \<open>data[]\<close>.\<close>

definition sizeof_item :: u64 where "sizeof_item = 48"

definition KEY_MAX_LENGTH :: nat where "KEY_MAX_LENGTH = 250"

definition POWER_SMALLEST :: nat where "POWER_SMALLEST = 1"
definition POWER_LARGEST :: nat where "POWER_LARGEST = 200"
definition LARGEST_ID :: nat where "LARGEST_ID = POWER_LARGEST"
definition CHUNK_ALIGN_BYTES :: nat where "CHUNK_ALIGN_BYTES = 8"
definition ITEM_UPDATE_INTERVAL :: u32 where "ITEM_UPDATE_INTERVAL = 60"

definition ITEM_get_cas :: "item \<Rightarrow> u64" where
  "ITEM_get_cas i = (if it_flags i AND ITEM_CAS \<noteq> 0 then it_cas i else 0)"

definition ITEM_set_cas :: "u64 \<Rightarrow> item \<Rightarrow> item" where
  "ITEM_set_cas v i = (if it_flags i AND ITEM_CAS \<noteq> 0 then i\<lparr>it_cas := v\<rparr> else i)"

text \<open>Offsets of the regions of \<open>data[]\<close> from its start.\<close>

definition cas_size :: "item \<Rightarrow> u64" where
  "cas_size i = (if it_flags i AND ITEM_CAS \<noteq> 0 then 8 else 0)"

definition ITEM_key_off :: "item \<Rightarrow> u64" where
  "ITEM_key_off i = cas_size i"

definition ITEM_suffix_off :: "item \<Rightarrow> u64" where
  "ITEM_suffix_off i = ucast (it_nkey i) + 1 + cas_size i"

definition ITEM_data_off :: "item \<Rightarrow> u64" where
  "ITEM_data_off i = ucast (it_nkey i) + 1 + ucast (it_nsuffix i) + cas_size i"

definition ITEM_ntotal :: "item \<Rightarrow> u64" where
  "ITEM_ntotal i =
     sizeof_item + ucast (it_nkey i) + 1 + ucast (it_nsuffix i) + scast (it_nbytes i) + cas_size i"

text \<open>The bytes that \<open>ITEM_key(it)\<close> and \<open>it->nkey\<close> denote together.\<close>

definition item_key :: "item \<Rightarrow> bytes" where
  "item_key i = take (unat (it_nkey i)) (it_key i)"

definition zero_item :: item where
  "zero_item = \<lparr>it_next = NULL, it_prev = NULL, it_h_next = NULL, it_time = 0, it_exptime = 0,
     it_nbytes = 0, it_refcount = 0, it_nsuffix = 0, it_flags = 0, it_slabs_clsid = 0,
     it_nkey = 0, it_cas = 0, it_key = [], it_suffix = [], it_data = []\<rparr>"

subsection \<open>Flag bits\<close>

definition is_linked :: "item \<Rightarrow> bool" where
  "is_linked i \<longleftrightarrow> it_flags i AND ITEM_LINKED \<noteq> 0"

definition is_slabbed :: "item \<Rightarrow> bool" where
  "is_slabbed i \<longleftrightarrow> it_flags i AND ITEM_SLABBED \<noteq> 0"

definition is_fetched :: "item \<Rightarrow> bool" where
  "is_fetched i \<longleftrightarrow> it_flags i AND ITEM_FETCHED \<noteq> 0"

lemma and_flag_bit:
  "(w AND 1 = 0) = (\<not> bit w 0)" "(w AND 2 = 0) = (\<not> bit w 1)"
  "(w AND 4 = 0) = (\<not> bit w 2)" "(w AND 8 = 0) = (\<not> bit w 3)" for w :: u8
  using and_exp_eq_0_iff_not_bit [of w 0] and_exp_eq_0_iff_not_bit [of w 1]
    and_exp_eq_0_iff_not_bit [of w 2] and_exp_eq_0_iff_not_bit [of w 3]
  by (simp_all)

lemma is_linked_bit: "is_linked i = bit (it_flags i) 0"
  and is_slabbed_bit: "is_slabbed i = bit (it_flags i) 2"
  and is_fetched_bit: "is_fetched i = bit (it_flags i) 3"
  by (simp_all add: is_linked_def is_slabbed_def is_fetched_def ITEM_LINKED_def
      ITEM_SLABBED_def ITEM_FETCHED_def and_flag_bit)

lemmas flag_bits = is_linked_bit is_slabbed_bit is_fetched_bit
  ITEM_LINKED_def ITEM_CAS_def ITEM_SLABBED_def ITEM_FETCHED_def

section \<open>Settings, statistics and the base state\<close>

datatype protocol = ascii_prot | binary_prot | negotiating_prot

record settings_t =
  maxbytes :: u64
  maxconns :: int
  tcp_port :: int
  udpport :: int
  inter :: "bytes option"
  verbose :: int
  oldest_live :: u32
  evict_to_free :: bool
  socketpath :: "bytes option"
  access_mask :: nat
  growth_factor :: rat
  chunk_size :: nat
  settings_num_threads :: int
  num_threads_per_udp :: int
  settings_prefix_delimiter :: u8
  detail_enabled :: bool
  reqs_per_event :: int
  use_cas :: bool
  binding_protocol :: protocol
  backlog :: int
  item_size_max :: nat
  sasl :: bool
  maxconns_fast :: bool
  lru_crawler :: bool
  slab_reassign :: bool
  slab_automove :: int
  hashpower_init :: int
  shutdown_command :: bool
  tail_repair_time :: u32
  flush_enabled :: bool
  hash_algorithm :: bytes
  lru_crawler_sleep :: int
  lru_crawler_tocrawl :: u32

text \<open>The counters that have the name of a counter of a worker thread or of a slab class start with
  \<open>st\<close>.\<close>

record stats_t =
  curr_items :: u32
  total_items :: u32
  curr_bytes :: u64
  curr_conns :: u32
  total_conns :: u32
  rejected_conns :: u64
  malloc_fails :: u64
  reserved_fds :: u32
  conn_structs :: u32
  st_get_cmds :: u64
  st_set_cmds :: u64
  st_touch_cmds :: u64
  st_get_hits :: u64
  st_get_misses :: u64
  st_touch_hits :: u64
  st_touch_misses :: u64
  st_evictions :: u64
  st_reclaimed :: u64
  st_started :: int
  accepting_conns :: bool
  listen_disabled_num :: u64
  hash_power_level :: nat
  hash_bytes :: u64
  hash_is_expanding :: bool
  st_expired_unfetched :: u64
  st_evicted_unfetched :: u64
  slab_reassign_running :: bool
  slabs_moved :: u64
  lru_crawler_running :: bool

datatype item_lock_types = ITEM_LOCK_GRANULAR | ITEM_LOCK_GLOBAL

record mc_base =
  heap :: "ptr \<Rightarrow> item"
  settings :: settings_t
  stats :: stats_t
  current_time :: u32
  hash_fn :: "bytes \<Rightarrow> u32"
  cache_lock :: bool
  slabs_lock :: bool
  slabs_rebalance_lock :: bool
  item_locks :: "nat \<Rightarrow> bool"
  item_lock_hashpower :: nat
  item_global_lock :: bool
  item_lock_type :: "item_lock_types option"

text \<open>What \<open>settings_init\<close> and \<open>stats_init\<close> of \<open>memcached.c\<close> assign; the static variables are
  zero before.  The rest of \<open>stats_init\<close> sets \<open>process_started\<close> and clears the prefix
  statistics.  Then the number of item locks that \<open>thread_init\<close> chooses.\<close>

definition settings_init :: settings_t where
  "settings_init = \<lparr>maxbytes = 64 * 1024 * 1024, maxconns = 1024, tcp_port = 11211, udpport = 11211,
     inter = None, verbose = 0, oldest_live = 0, evict_to_free = True, socketpath = None,
     access_mask = 448, growth_factor = 5 / 4, chunk_size = 48, settings_num_threads = 4,
     num_threads_per_udp = 0, settings_prefix_delimiter = 58, detail_enabled = False, reqs_per_event = 20,
     use_cas = True, binding_protocol = negotiating_prot, backlog = 1024, item_size_max = 1024 * 1024,
     sasl = False, maxconns_fast = False, lru_crawler = False, slab_reassign = False,
     slab_automove = 0, hashpower_init = 0, shutdown_command = False, tail_repair_time = 0,
     flush_enabled = True, hash_algorithm = [], lru_crawler_sleep = 100, lru_crawler_tocrawl = 0\<rparr>"

definition stats_init :: stats_t where
  "stats_init = \<lparr>curr_items = 0, total_items = 0, curr_bytes = 0, curr_conns = 0, total_conns = 0,
     rejected_conns = 0, malloc_fails = 0, reserved_fds = 0, conn_structs = 0, st_get_cmds = 0,
     st_set_cmds = 0, st_touch_cmds = 0, st_get_hits = 0, st_get_misses = 0, st_touch_hits = 0,
     st_touch_misses = 0, st_evictions = 0, st_reclaimed = 0, st_started = 0, accepting_conns = True,
     listen_disabled_num = 0, hash_power_level = 0, hash_bytes = 0, hash_is_expanding = False,
     st_expired_unfetched = 0, st_evicted_unfetched = 0, slab_reassign_running = False,
     slabs_moved = 0, lru_crawler_running = False\<rparr>"

definition item_lock_power :: "int \<Rightarrow> nat" where
  "item_lock_power nthreads =
     (if nthreads < 3 then 10 else if nthreads < 4 then 11 else if nthreads < 5 then 12 else 13)"

text \<open>Assigning to fields of one item.\<close>

definition upd_item :: "ptr \<Rightarrow> (item \<Rightarrow> item) \<Rightarrow> 'a mc_base_scheme \<Rightarrow> 'a mc_base_scheme" where
  "upd_item p f s = s\<lparr>heap := (heap s)(p := f (heap s p))\<rparr>"

text \<open>The assignments \<open>if (p) p->f = v\<close>.\<close>

definition upd_item_if :: "ptr \<Rightarrow> (item \<Rightarrow> item) \<Rightarrow> 'a mc_base_scheme \<Rightarrow> 'a mc_base_scheme" where
  "upd_item_if p f s = (if p \<noteq> NULL then upd_item p f s else s)"

lemma heap_upd_item [simp]: "heap (upd_item p f s) = (heap s)(p := f (heap s p))"
  by (simp add: upd_item_def)

lemma heap_upd_item_if [simp]:
  "heap (upd_item_if p f s) = (if p \<noteq> NULL then (heap s)(p := f (heap s p)) else heap s)"
  by (simp add: upd_item_if_def)

lemma upd_item_base [simp]:
  "settings (upd_item p f s) = settings s" "stats (upd_item p f s) = stats s"
  "current_time (upd_item p f s) = current_time s" "hash_fn (upd_item p f s) = hash_fn s"
  "cache_lock (upd_item p f s) = cache_lock s" "slabs_lock (upd_item p f s) = slabs_lock s"
  "slabs_rebalance_lock (upd_item p f s) = slabs_rebalance_lock s"
  "item_locks (upd_item p f s) = item_locks s"
  "item_lock_hashpower (upd_item p f s) = item_lock_hashpower s"
  "item_global_lock (upd_item p f s) = item_global_lock s"
  "item_lock_type (upd_item p f s) = item_lock_type s"
  "mc_base.more (upd_item p f s) = mc_base.more s"
  by (simp_all add: upd_item_def)

lemma upd_item_if_base [simp]:
  "settings (upd_item_if p f s) = settings s" "stats (upd_item_if p f s) = stats s"
  "current_time (upd_item_if p f s) = current_time s" "hash_fn (upd_item_if p f s) = hash_fn s"
  "cache_lock (upd_item_if p f s) = cache_lock s" "slabs_lock (upd_item_if p f s) = slabs_lock s"
  "slabs_rebalance_lock (upd_item_if p f s) = slabs_rebalance_lock s"
  "item_locks (upd_item_if p f s) = item_locks s"
  "item_lock_hashpower (upd_item_if p f s) = item_lock_hashpower s"
  "item_global_lock (upd_item_if p f s) = item_global_lock s"
  "item_lock_type (upd_item_if p f s) = item_lock_type s"
  "mc_base.more (upd_item_if p f s) = mc_base.more s"
  by (simp_all add: upd_item_if_def)

section \<open>Reference counts and locks\<close>

text \<open>\<open>refcount_incr\<close> and \<open>refcount_decr\<close> of \<open>thread.c\<close> return the new count; \<open>unsigned
  short\<close> wraps.\<close>

definition refcount_incr :: "ptr \<Rightarrow> 'a mc_base_scheme \<Rightarrow> u16 \<times> 'a mc_base_scheme" where
  "refcount_incr p s =
     (it_refcount (heap s p) + 1, upd_item p (\<lambda>i. i\<lparr>it_refcount := it_refcount i + 1\<rparr>) s)"

definition refcount_decr :: "ptr \<Rightarrow> 'a mc_base_scheme \<Rightarrow> u16 \<times> 'a mc_base_scheme" where
  "refcount_decr p s =
     (it_refcount (heap s p) - 1, upd_item p (\<lambda>i. i\<lparr>it_refcount := it_refcount i - 1\<rparr>) s)"

definition cache_lock_acquire :: "'a mc_base_scheme \<Rightarrow> 'a mc_base_scheme option" where
  "cache_lock_acquire s = (if cache_lock s then None else Some (s\<lparr>cache_lock := True\<rparr>))"

definition cache_lock_release :: "'a mc_base_scheme \<Rightarrow> 'a mc_base_scheme" where
  "cache_lock_release s = s\<lparr>cache_lock := False\<rparr>"

definition slabs_lock_acquire :: "'a mc_base_scheme \<Rightarrow> 'a mc_base_scheme option" where
  "slabs_lock_acquire s = (if slabs_lock s then None else Some (s\<lparr>slabs_lock := True\<rparr>))"

definition slabs_lock_release :: "'a mc_base_scheme \<Rightarrow> 'a mc_base_scheme" where
  "slabs_lock_release s = s\<lparr>slabs_lock := False\<rparr>"

text \<open>\<open>hashsize\<close> and \<open>hashmask\<close> of \<open>assoc.c\<close> and \<open>thread.c\<close>: shifts of an \<open>unsigned long\<close>.\<close>

definition hashsize :: "nat \<Rightarrow> u64" where
  "hashsize n = push_bit n 1"

definition hashmask :: "nat \<Rightarrow> u64" where
  "hashmask n = hashsize n - 1"

definition hash_index :: "u32 \<Rightarrow> nat \<Rightarrow> nat" where
  "hash_index hv n = unat (ucast hv AND hashmask n)"

lemma hashmask_mask: "n \<le> 64 \<Longrightarrow> hashmask n = mask n"
  by (simp add: hashmask_def hashsize_def mask_eq_decr_exp flip: push_bit_of_1)

lemma hash_index_mod: "n \<le> 64 \<Longrightarrow> hash_index hv n = unat hv mod 2 ^ n"
  by (simp add: hash_index_def hashmask_mask take_bit_eq_mask [symmetric] unsigned_take_bit_eq
      unsigned_ucast_eq min_def flip: take_bit_eq_mod)

lemma hash_index_bound: "n \<le> 64 \<Longrightarrow> hash_index hv n < 2 ^ n"
  by (simp add: hash_index_mod)

text \<open>The item lock table of \<open>thread.c\<close>.\<close>

definition item_trylock :: "u32 \<Rightarrow> 'a mc_base_scheme \<Rightarrow> nat option \<times> 'a mc_base_scheme" where
  "item_trylock hv s =
     (let lock = hash_index hv (item_lock_hashpower s)
      in if item_locks s lock then (None, s)
         else (Some lock, s\<lparr>item_locks := (item_locks s)(lock := True)\<rparr>))"

definition item_trylock_unlock :: "nat \<Rightarrow> 'a mc_base_scheme \<Rightarrow> 'a mc_base_scheme" where
  "item_trylock_unlock lock s = s\<lparr>item_locks := (item_locks s)(lock := False)\<rparr>"

definition item_lock :: "u32 \<Rightarrow> 'a mc_base_scheme \<Rightarrow> 'a mc_base_scheme option" where
  "item_lock hv s =
     (if item_lock_type s = None \<or> item_lock_type s = Some ITEM_LOCK_GRANULAR
      then (let lock = hash_index hv (item_lock_hashpower s)
            in if item_locks s lock then None
               else Some (s\<lparr>item_locks := (item_locks s)(lock := True)\<rparr>))
      else if item_global_lock s then None else Some (s\<lparr>item_global_lock := True\<rparr>))"

definition item_unlock :: "u32 \<Rightarrow> 'a mc_base_scheme \<Rightarrow> 'a mc_base_scheme" where
  "item_unlock hv s =
     (if item_lock_type s = None \<or> item_lock_type s = Some ITEM_LOCK_GRANULAR
      then s\<lparr>item_locks := (item_locks s)(hash_index hv (item_lock_hashpower s) := False)\<rparr>
      else s\<lparr>item_global_lock := False\<rparr>)"

lemma item_unlock_lock: "item_lock hv s = Some s' \<Longrightarrow> item_unlock hv s' = s"
  by (cases s) (auto simp: item_lock_def item_unlock_def Let_def fun_upd_idem split: if_splits)

end
