(* ===== verification/MC_Assoc.thy ===== *)
theory MC_Assoc
  imports MC_Base
begin

text \<open>
  The hash table of memcached (\<open>assoc.c\<close>): chained buckets, with incremental expansion that
  migrates bucket by bucket from the old table to a primary table of twice the size.
  \<open>assoc_rel s M\<close> relates a concrete state to the abstract map from keys to items; lookup,
  insertion, deletion and every step of an expansion are shown to implement the map's
  operations.  The arrays the code gets from \<open>calloc\<close> are maps from indices to pointers;
  whether \<open>calloc\<close> succeeds is an argument.
\<close>

unbundle bit_operations_syntax

section \<open>State and operations\<close>

record assoc_state = mc_base +
  hashpower :: nat
  primary_hashtable :: "nat \<Rightarrow> ptr"
  old_hashtable :: "nat \<Rightarrow> ptr"
  hash_items :: u32
  expanding :: bool
  started_expanding :: bool
  expand_bucket :: u32
  maintenance_cond :: bool
  hash_bulk_move :: int

definition HASHPOWER_DEFAULT :: nat where "HASHPOWER_DEFAULT = 16"

definition ptr_size :: u64 where "ptr_size = 8"

definition assoc_init ::
  "bool \<Rightarrow> nat \<Rightarrow> 'a assoc_state_scheme \<Rightarrow> 'a assoc_state_scheme option" where
  "assoc_init calloc_ok hashtable_init s =
     (let s1 = (if hashtable_init \<noteq> 0 then s\<lparr>hashpower := hashtable_init\<rparr> else s)
      in if \<not> calloc_ok then None
         else Some (s1\<lparr>primary_hashtable := (\<lambda>_. NULL),
                       stats := (stats s1)\<lparr>hash_power_level := hashpower s1,
                                           hash_bytes := hashsize (hashpower s1) * ptr_size\<rparr>\<rparr>))"

text \<open>An \<open>item **\<close>: the address of a bucket of one of the tables or of an \<open>h_next\<close> field.\<close>

datatype pos = Old_bucket nat | Primary_bucket nat | H_next ptr

fun read_pos :: "'a assoc_state_scheme \<Rightarrow> pos \<Rightarrow> ptr" where
  "read_pos s (Old_bucket b) = old_hashtable s b"
| "read_pos s (Primary_bucket b) = primary_hashtable s b"
| "read_pos s (H_next p) = it_h_next (heap s p)"

fun write_pos :: "pos \<Rightarrow> ptr \<Rightarrow> 'a assoc_state_scheme \<Rightarrow> 'a assoc_state_scheme" where
  "write_pos (Old_bucket b) v s = s\<lparr>old_hashtable := (old_hashtable s)(b := v)\<rparr>"
| "write_pos (Primary_bucket b) v s = s\<lparr>primary_hashtable := (primary_hashtable s)(b := v)\<rparr>"
| "write_pos (H_next p) v s = upd_item p (\<lambda>i. i\<lparr>it_h_next := v\<rparr>) s"

text \<open>The table choice that \<open>assoc_find\<close>, \<open>_hashitem_before\<close> and \<open>assoc_insert\<close> share.\<close>

definition assoc_bucket :: "u32 \<Rightarrow> 'a assoc_state_scheme \<Rightarrow> pos" where
  "assoc_bucket hv s =
     (let oldbucket = hash_index hv (hashpower s - 1)
      in if expanding s \<and> oldbucket \<ge> unat (expand_bucket s)
         then Old_bucket oldbucket
         else Primary_bucket (hash_index hv (hashpower s)))"

definition key_matches :: "bytes \<Rightarrow> nat \<Rightarrow> item \<Rightarrow> bool" where
  "key_matches key nkey i \<longleftrightarrow>
     nkey = unat (it_nkey i) \<and> take nkey key = take nkey (it_key i)"

partial_function (option) assoc_find_loop ::
  "bytes \<Rightarrow> nat \<Rightarrow> (ptr \<Rightarrow> item) \<Rightarrow> ptr \<Rightarrow> ptr option" where
  "assoc_find_loop key nkey h it =
     (if it \<noteq> NULL
      then if key_matches key nkey (h it) then Some it
           else assoc_find_loop key nkey h (it_h_next (h it))
      else Some NULL)"

definition assoc_find ::
  "bytes \<Rightarrow> nat \<Rightarrow> u32 \<Rightarrow> 'a assoc_state_scheme \<Rightarrow> ptr option" where
  "assoc_find key nkey hv s = assoc_find_loop key nkey (heap s) (read_pos s (assoc_bucket hv s))"

partial_function (option) hashitem_before_loop ::
  "bytes \<Rightarrow> nat \<Rightarrow> 'a assoc_state_scheme \<Rightarrow> pos \<Rightarrow> pos option" where
  "hashitem_before_loop key nkey s pos =
     (let it = read_pos s pos
      in if it \<noteq> NULL \<and> \<not> key_matches key nkey (heap s it)
         then hashitem_before_loop key nkey s (H_next it)
         else Some pos)"

definition hashitem_before ::
  "bytes \<Rightarrow> nat \<Rightarrow> u32 \<Rightarrow> 'a assoc_state_scheme \<Rightarrow> pos option" where
  "hashitem_before key nkey hv s = hashitem_before_loop key nkey s (assoc_bucket hv s)"

definition assoc_expand :: "bool \<Rightarrow> 'a assoc_state_scheme \<Rightarrow> 'a assoc_state_scheme" where
  "assoc_expand calloc_ok s =
     (let s1 = s\<lparr>old_hashtable := primary_hashtable s\<rparr>
      in if calloc_ok
         then let s2 = s1\<lparr>primary_hashtable := (\<lambda>_. NULL), hashpower := hashpower s1 + 1,
                          expanding := True, expand_bucket := 0\<rparr>
              in s2\<lparr>stats := (stats s2)\<lparr>hash_power_level := hashpower s2,
                      hash_bytes := hash_bytes (stats s2) + hashsize (hashpower s2) * ptr_size,
                      hash_is_expanding := True\<rparr>\<rparr>
         else s1\<lparr>primary_hashtable := old_hashtable s1\<rparr>)"

definition assoc_start_expand :: "'a assoc_state_scheme \<Rightarrow> 'a assoc_state_scheme" where
  "assoc_start_expand s =
     (if started_expanding s then s
      else s\<lparr>started_expanding := True, maintenance_cond := True\<rparr>)"

definition assoc_insert :: "ptr \<Rightarrow> u32 \<Rightarrow> 'a assoc_state_scheme \<Rightarrow> 'a assoc_state_scheme" where
  "assoc_insert it hv s =
     (let b = assoc_bucket hv s;
          s1 = upd_item it (\<lambda>i. i\<lparr>it_h_next := read_pos s b\<rparr>) s;
          s2 = write_pos b it s1;
          s3 = s2\<lparr>hash_items := hash_items s2 + 1\<rparr>
      in if \<not> expanding s3 \<and> ucast (hash_items s3) > (hashsize (hashpower s3) * 3) div 2
         then assoc_start_expand s3 else s3)"

definition assoc_delete ::
  "bytes \<Rightarrow> nat \<Rightarrow> u32 \<Rightarrow> 'a assoc_state_scheme \<Rightarrow> 'a assoc_state_scheme option" where
  "assoc_delete key nkey hv s = do {
     before \<leftarrow> hashitem_before key nkey hv s;
     let it = read_pos s before;
     if it \<noteq> NULL
     then let s1 = s\<lparr>hash_items := hash_items s - 1\<rparr>;
              nxt = it_h_next (heap s1 it);
              s2 = upd_item it (\<lambda>i. i\<lparr>it_h_next := NULL\<rparr>) s1
          in Some (write_pos before nxt s2)
     else None
   }"

subsection \<open>The maintenance thread\<close>

text \<open>The inner loop of the bulk move, over the chain of one old bucket.\<close>

partial_function (option) move_bucket_loop ::
  "ptr \<Rightarrow> 'a assoc_state_scheme \<Rightarrow> 'a assoc_state_scheme option" where
  "move_bucket_loop it s =
     (if it \<noteq> NULL
      then let nxt = it_h_next (heap s it);
               bucket = hash_index (hash_fn s (item_key (heap s it))) (hashpower s);
               s1 = upd_item it (\<lambda>i. i\<lparr>it_h_next := primary_hashtable s bucket\<rparr>) s;
               s2 = s1\<lparr>primary_hashtable := (primary_hashtable s1)(bucket := it)\<rparr>
           in move_bucket_loop nxt s2
      else Some s)"

definition move_bucket :: "'a assoc_state_scheme \<Rightarrow> 'a assoc_state_scheme option" where
  "move_bucket s = do {
     s1 \<leftarrow> move_bucket_loop (old_hashtable s (unat (expand_bucket s))) s;
     let s2 = s1\<lparr>old_hashtable := (old_hashtable s1)(unat (expand_bucket s1) := NULL)\<rparr>;
     let s3 = s2\<lparr>expand_bucket := expand_bucket s2 + 1\<rparr>;
     Some (if ucast (expand_bucket s3) = hashsize (hashpower s3 - 1)
           then s3\<lparr>expanding := False,
                   stats := (stats s3)\<lparr>hash_bytes := hash_bytes (stats s3)
                                          - hashsize (hashpower s3 - 1) * ptr_size,
                                       hash_is_expanding := False\<rparr>\<rparr>
           else s3)
   }"

text \<open>\<open>for (ii = 0; ii < hash_bulk_move && expanding; ++ii)\<close>.\<close>

fun bulk_move :: "nat \<Rightarrow> 'a assoc_state_scheme \<Rightarrow> 'a assoc_state_scheme option" where
  "bulk_move 0 s = Some s"
| "bulk_move (Suc n) s =
     (if expanding s then do { s1 \<leftarrow> move_bucket s; bulk_move n s1 } else Some s)"

text \<open>One pass of the loop of \<open>assoc_maintenance_thread\<close> up to the test of \<open>expanding\<close>.\<close>

definition maintenance_move :: "'a assoc_state_scheme \<Rightarrow> 'a assoc_state_scheme option" where
  "maintenance_move s = do {
     s1 \<leftarrow> (if item_global_lock s then None else Some (s\<lparr>item_global_lock := True\<rparr>));
     s2 \<leftarrow> cache_lock_acquire s1;
     s3 \<leftarrow> bulk_move (nat (hash_bulk_move s2)) s2;
     Some ((cache_lock_release s3)\<lparr>item_global_lock := False\<rparr>)
   }"

text \<open>
  The branch \<open>if (!expanding)\<close>: the part before \<open>pthread_cond_wait\<close>, which gives the
  rebalance lock back and lets \<open>assoc_start_expand\<close> signal again, and the part after the
  wake-up, which pauses the rebalancer and starts the expansion.  The worker threads take
  over the announced lock type before \<open>switch_item_lock_type\<close> returns.
\<close>

definition maintenance_sleep :: "'a assoc_state_scheme \<Rightarrow> 'a assoc_state_scheme option" where
  "maintenance_sleep s = do {
     let s1 = s\<lparr>item_lock_type := Some ITEM_LOCK_GRANULAR\<rparr>;
     let s2 = s1\<lparr>slabs_rebalance_lock := False\<rparr>;
     s3 \<leftarrow> cache_lock_acquire s2;
     Some (cache_lock_release (s3\<lparr>started_expanding := False\<rparr>))
   }"

definition maintenance_wake ::
  "bool \<Rightarrow> 'a assoc_state_scheme \<Rightarrow> 'a assoc_state_scheme option" where
  "maintenance_wake calloc_ok s = do {
     s1 \<leftarrow> (if slabs_rebalance_lock s then None else Some (s\<lparr>slabs_rebalance_lock := True\<rparr>));
     let s2 = s1\<lparr>item_lock_type := Some ITEM_LOCK_GLOBAL, maintenance_cond := False\<rparr>;
     s3 \<leftarrow> cache_lock_acquire s2;
     Some (cache_lock_release (assoc_expand calloc_ok s3))
   }"

section \<open>Tables as abstract maps\<close>

text \<open>
  \<open>tab_ok h rd A bk C M\<close>: in memory \<open>h\<close>, with bucket heads \<open>rd\<close> and active buckets \<open>A\<close>, the
  chain of each bucket \<open>b\<close> is \<open>C b\<close>, every item is in the bucket \<open>bk\<close> of its key, and \<open>M\<close>
  maps exactly the keys of the items in the chains to those items.
\<close>

definition key_ok :: "item \<Rightarrow> bool" where
  "key_ok i \<longleftrightarrow> unat (it_nkey i) \<le> length (it_key i)"

definition tab_ok ::
  "(ptr \<Rightarrow> item) \<Rightarrow> (pos \<Rightarrow> ptr) \<Rightarrow> pos set \<Rightarrow> (bytes \<Rightarrow> pos) \<Rightarrow> (pos \<Rightarrow> ptr list)
   \<Rightarrow> (bytes \<rightharpoonup> ptr) \<Rightarrow> bool" where
  "tab_ok h rd A bk C M \<longleftrightarrow>
     (\<forall>b\<in>A. chain (\<lambda>p. it_h_next (h p)) (rd b) (C b)) \<and>
     (\<forall>b\<in>A. \<forall>p\<in>set (C b). key_ok (h p) \<and> bk (item_key (h p)) = b) \<and>
     (\<forall>k p. M k = Some p \<longleftrightarrow> (\<exists>b\<in>A. p \<in> set (C b) \<and> item_key (h p) = k))"

lemma item_key_h_next [simp]:
  "item_key (i\<lparr>it_h_next := v\<rparr>) = item_key i" "key_ok (i\<lparr>it_h_next := v\<rparr>) = key_ok i"
  by (simp_all add: item_key_def key_ok_def)

lemma length_item_key: "key_ok i \<Longrightarrow> length (item_key i) = unat (it_nkey i)"
  by (simp add: key_ok_def item_key_def)

lemma key_matches_iff:
  assumes "key_ok i" and "nkey \<le> length key"
  shows "key_matches key nkey i \<longleftrightarrow> item_key i = take nkey key"
proof
  assume "item_key i = take nkey key"
  moreover from this have "unat (it_nkey i) = nkey"
    using length_item_key [OF assms(1)] assms(2) by simp
  ultimately show "key_matches key nkey i" by (simp add: key_matches_def item_key_def)
qed (auto simp: key_matches_def item_key_def)

lemma tab_okD:
  assumes "tab_ok h rd A bk C M"
  shows "b \<in> A \<Longrightarrow> chain (\<lambda>p. it_h_next (h p)) (rd b) (C b)"
    and "b \<in> A \<Longrightarrow> p \<in> set (C b) \<Longrightarrow> key_ok (h p)"
    and "b \<in> A \<Longrightarrow> p \<in> set (C b) \<Longrightarrow> bk (item_key (h p)) = b"
    and "M k = Some p \<longleftrightarrow> (\<exists>b\<in>A. p \<in> set (C b) \<and> item_key (h p) = k)"
  using assms unfolding tab_ok_def by blast+

lemma tab_okI:
  assumes "\<And>b. b \<in> A \<Longrightarrow> chain (\<lambda>p. it_h_next (h p)) (rd b) (C b)"
    and "\<And>b p. b \<in> A \<Longrightarrow> p \<in> set (C b) \<Longrightarrow> key_ok (h p) \<and> bk (item_key (h p)) = b"
    and "\<And>k p. M k = Some p \<longleftrightarrow> (\<exists>b\<in>A. p \<in> set (C b) \<and> item_key (h p) = k)"
  shows "tab_ok h rd A bk C M"
  using assms unfolding tab_ok_def by blast

lemma tab_ok_notin:
  assumes "tab_ok h rd A bk C M" and "M (item_key (h it)) \<noteq> Some it" and "b \<in> A"
  shows "it \<notin> set (C b)"
  using assms tab_okD(4) by metis

lemma tab_ok_mem:
  assumes "tab_ok h rd A bk C M" and "b \<in> A" and "p \<in> set (C b)"
  shows "M (item_key (h p)) = Some p"
proof -
  have "\<exists>b\<in>A. p \<in> set (C b) \<and> item_key (h p) = item_key (h p)" using assms(2,3) by blast
  then show ?thesis by (simp only: tab_okD(4) [OF assms(1)])
qed

text \<open>Keys are unique within the bucket that can hold them.\<close>

lemma tab_ok_unique:
  assumes "tab_ok h rd A bk C M" "b \<in> A" "p \<in> set (C b)" "q \<in> set (C b)"
    and "item_key (h p) = item_key (h q)"
  shows "p = q"
proof -
  have "M (item_key (h p)) = Some p" "M (item_key (h q)) = Some q"
    using assms(2-4) by (blast intro: tab_ok_mem [OF assms(1)])+
  with assms(5) show ?thesis by (metis option.inject)
qed

lemma tab_ok_None:
  assumes "tab_ok h rd A bk C M" "b \<in> A" "M k = None"
  shows "\<forall>p\<in>set (C b). item_key (h p) \<noteq> k"
  using assms tab_okD(4) by (metis option.distinct(1))

lemma tab_ok_Some:
  assumes "tab_ok h rd A bk C M" "M k = Some p"
  shows "bk k \<in> A" "p \<in> set (C (bk k))" "item_key (h p) = k" "key_ok (h p)"
proof -
  from assms obtain b where "b \<in> A" "p \<in> set (C b)" "item_key (h p) = k"
    using tab_okD(4) by metis
  with tab_okD(2,3) [OF assms(1)] show "bk k \<in> A" "p \<in> set (C (bk k))" "item_key (h p) = k" "key_ok (h p)"
    by auto
qed

lemma tab_ok_insert:
  assumes t: "tab_ok h rd A bk C M" and k: "k = item_key (h it)" "M k = None" "key_ok (h it)"
    and b: "b = bk k" "b \<in> A" and it: "it \<noteq> NULL"
    and h': "h' = h(it := (h it)\<lparr>it_h_next := rd b\<rparr>)" and rd': "\<forall>a\<in>A. rd' a = (rd(b := it)) a"
  shows "tab_ok h' rd' A bk (C(b := it # C b)) (M(k \<mapsto> it))"
proof -
  have fresh: "\<And>a. a \<in> A \<Longrightarrow> it \<notin> set (C a)"
    using tab_ok_notin [OF t] k by auto
  have keys: "\<And>p. item_key (h' p) = item_key (h p)" "\<And>p. key_ok (h' p) = key_ok (h p)"
    by (simp_all add: h')
  have nx: "(\<lambda>p. it_h_next (h' p)) = (\<lambda>p. it_h_next (h p))(it := rd b)"
    by (auto simp: h')
  have chains: "chain (\<lambda>p. it_h_next (h' p)) (rd' a) ((C(b := it # C b)) a)" if "a \<in> A" for a
  proof -
    have "chain (\<lambda>p. it_h_next (h p)) (rd a) (C a)" using t that by (rule tab_okD)
    then have "chain (\<lambda>p. it_h_next (h' p)) (rd a) (C a)"
      unfolding nx using fresh [OF that] by (simp add: chain_upd_notin)
    then show ?thesis using rd' it that by (auto simp: h')
  qed
  have abs: "(M(k \<mapsto> it)) k' = Some p \<longleftrightarrow>
        (\<exists>a\<in>A. p \<in> set ((C(b := it # C b)) a) \<and> item_key (h' p) = k')" for k' p
  proof (cases "k' = k")
    case True
    have "\<And>a. a \<in> A \<Longrightarrow> p \<in> set (C a) \<Longrightarrow> item_key (h p) \<noteq> k"
      using tab_ok_None [OF t _ k(2)] by blast
    then show ?thesis using True b(2) k(1) unfolding keys by (auto split: if_splits)
  next
    case False
    have "(\<exists>a\<in>A. p \<in> set ((C(b := it # C b)) a) \<and> item_key (h p) = k') \<longleftrightarrow>
          (\<exists>a\<in>A. p \<in> set (C a) \<and> item_key (h p) = k')"
      using False k(1) by (auto split: if_splits)
    then show ?thesis using tab_okD(4) [OF t, of k' p] False unfolding keys by simp
  qed
  show ?thesis
  proof (rule tab_okI)
    fix a p assume "a \<in> A" "p \<in> set ((C(b := it # C b)) a)"
    then show "key_ok (h' p) \<and> bk (item_key (h' p)) = a"
      using tab_okD(2,3) [OF t] k b(1) unfolding keys by (auto split: if_splits)
  qed (use chains abs in blast)+
qed

lemma tab_ok_delete:
  assumes t: "tab_ok h rd A bk C M" and p: "M k = Some p" and b: "b = bk k"
    and C: "C b = xs @ p # ys"
    and h': "h' = (let h1 = h(p := (h p)\<lparr>it_h_next := NULL\<rparr>)
                   in if xs = [] then h1
                      else h1(last xs := (h1 (last xs))\<lparr>it_h_next := it_h_next (h p)\<rparr>))"
    and rd': "\<forall>a\<in>A. rd' a = (if xs = [] then rd(b := it_h_next (h p)) else rd) a"
  shows "tab_ok h' rd' A bk (C(b := xs @ ys)) (M(k := None))"
proof -
  note p' = tab_ok_Some [OF t p]
  have bA: "b \<in> A" using p' b by simp
  have ch: "chain (\<lambda>p. it_h_next (h p)) (rd b) (xs @ p # ys)" using tab_okD(1) [OF t bA] C by simp
  then have dist: "distinct (xs @ p # ys)" by (rule chain_distinct)
  have keys: "\<And>q. item_key (h' q) = item_key (h q)" "\<And>q. key_ok (h' q) = key_ok (h q)"
    by (simp_all add: h' Let_def)
  have nx: "(\<lambda>q. it_h_next (h' q)) =
      (if xs = [] then (\<lambda>q. it_h_next (h q))(p := NULL)
       else (\<lambda>q. it_h_next (h q))(p := NULL, last xs := it_h_next (h p)))"
    using dist by (auto simp: h' Let_def fun_eq_iff)
  from ch have tail: "chain (\<lambda>p. it_h_next (h p)) (it_h_next (h p)) ys"
    and seg1: "seg (\<lambda>p. it_h_next (h p)) (rd b) xs p" by (auto simp: chain_append)
  have other: "p \<notin> set (C a) \<and> (xs \<noteq> [] \<longrightarrow> last xs \<notin> set (C a))" if "a \<in> A" "a \<noteq> b" for a
  proof -
    have "q \<in> set (C b) \<Longrightarrow> q \<notin> set (C a)" for q
      using tab_okD(3) [OF t] that bA by metis
    then show ?thesis using C by simp
  qed
  have "chain (\<lambda>q. it_h_next (h' q)) (rd' b) (xs @ ys)"
  proof (cases "xs = []")
    case True
    then show ?thesis using tail dist bA rd' by (simp add: nx chain_upd_notin)
  next
    case False
    then obtain zs z where xs: "xs = zs @ [z]" by (cases xs rule: rev_cases) auto
    let ?f = "(\<lambda>q. it_h_next (h q))(p := NULL, z := it_h_next (h p))"
    from seg1 xs have "seg (\<lambda>p. it_h_next (h p)) (rd b) (zs @ [z]) p" by simp
    then have "seg ((\<lambda>p. it_h_next (h p))(z := it_h_next (h p))) (rd b) (zs @ [z]) (it_h_next (h p))"
      by (rule seg_relink) (use dist xs in auto)
    then have "seg ?f (rd b) xs (it_h_next (h p))"
      using dist xs by (subst seg_cong [where g = "(\<lambda>p. it_h_next (h p))(z := it_h_next (h p))"]) auto
    moreover have "chain ?f (it_h_next (h p)) ys"
      using tail dist xs by (subst chain_cong [where g = "\<lambda>p. it_h_next (h p)"]) auto
    ultimately have "chain ?f (rd b) (xs @ ys)" unfolding chain_append by blast
    moreover have "rd' b = rd b" using False bA rd' by simp
    ultimately show ?thesis using False xs by (simp only: nx if_False last_snoc)
  qed
  moreover have "chain (\<lambda>q. it_h_next (h' q)) (rd' a) (C a)" if "a \<in> A" "a \<noteq> b" for a
  proof -
    have "it_h_next (h' q) = it_h_next (h q)" if "q \<in> set (C a)" for q
    proof -
      have "q \<noteq> p" "xs \<noteq> [] \<Longrightarrow> q \<noteq> last xs" using other [OF \<open>a \<in> A\<close> \<open>a \<noteq> b\<close>] that by auto
      then show ?thesis by (simp add: h' Let_def)
    qed
    then have "chain (\<lambda>q. it_h_next (h' q)) (rd a) (C a)"
      using tab_okD(1) [OF t \<open>a \<in> A\<close>] by (subst chain_cong [where g = "\<lambda>p. it_h_next (h p)"])
    moreover have "rd' a = rd a" using rd' that by simp
    ultimately show ?thesis by simp
  qed
  ultimately have chains: "chain (\<lambda>q. it_h_next (h' q)) (rd' a) ((C(b := xs @ ys)) a)" if "a \<in> A" for a
    using that by simp
  have mem: "q \<in> set ((C(b := xs @ ys)) a) \<longleftrightarrow> q \<in> set (C a) \<and> q \<noteq> p" if "a \<in> A" for a q
    using C dist other that by auto
  have abs: "(M(k := None)) k' = Some q \<longleftrightarrow>
      (\<exists>a\<in>A. q \<in> set ((C(b := xs @ ys)) a) \<and> item_key (h' q) = k')" for k' q
  proof -
    have "(\<exists>a\<in>A. q \<in> set ((C(b := xs @ ys)) a) \<and> item_key (h q) = k') \<longleftrightarrow> M k' = Some q \<and> q \<noteq> p"
      unfolding tab_okD(4) [OF t] using mem by blast
    also have "\<dots> \<longleftrightarrow> (M(k := None)) k' = Some q"
      using p p'(3) tab_okD(4) [OF t, of k' q] by auto
    finally show ?thesis unfolding keys by blast
  qed
  show ?thesis
  proof (rule tab_okI)
    fix a q assume "a \<in> A" "q \<in> set ((C(b := xs @ ys)) a)"
    then have "a \<in> A" "q \<in> set (C a)" using mem by auto
    then show "key_ok (h' q) \<and> bk (item_key (h' q)) = a"
      using tab_okD(2,3) [OF t] unfolding keys by blast
  qed (use chains abs in blast)+
qed

section \<open>The loops over a chain\<close>

lemma assoc_find_loop_chain:
  "chain (\<lambda>p. it_h_next (h p)) it xs \<Longrightarrow>
   assoc_find_loop key nkey h it =
     Some (case find (\<lambda>p. key_matches key nkey (h p)) xs of None \<Rightarrow> NULL | Some p \<Rightarrow> p)"
  by (induction xs arbitrary: it) (simp_all add: assoc_find_loop.simps)

lemma hashitem_before_loop_chain:
  "chain (\<lambda>p. it_h_next (heap s p)) (read_pos s pos) (xs @ ys) \<Longrightarrow>
   \<forall>p\<in>set xs. \<not> key_matches key nkey (heap s p) \<Longrightarrow>
   ys = [] \<or> key_matches key nkey (heap s (hd ys)) \<Longrightarrow>
   hashitem_before_loop key nkey s pos = Some (if xs = [] then pos else H_next (last xs))"
proof (induction xs arbitrary: pos)
  case Nil
  then show ?case by (cases ys) (simp_all add: hashitem_before_loop.simps)
next
  case (Cons x xs)
  then have "hashitem_before_loop key nkey s (H_next x) =
      Some (if xs = [] then H_next x else H_next (last xs))" by simp
  with Cons.prems show ?case
    by (simp add: hashitem_before_loop.simps [of key nkey s pos])
qed

section \<open>The representation relation\<close>

definition active :: "'a assoc_state_scheme \<Rightarrow> pos set" where
  "active s = (if expanding s
               then Old_bucket ` {unat (expand_bucket s) ..< 2 ^ (hashpower s - 1)} else {})
              \<union> Primary_bucket ` {..< 2 ^ hashpower s}"

definition assoc_wf :: "'a assoc_state_scheme \<Rightarrow> bool" where
  "assoc_wf s \<longleftrightarrow> hashpower s \<le> 32 \<and>
     (expanding s \<longrightarrow> 1 \<le> hashpower s \<and> unat (expand_bucket s) < 2 ^ (hashpower s - 1))"

definition bucket_of :: "'a assoc_state_scheme \<Rightarrow> bytes \<Rightarrow> pos" where
  "bucket_of s k = assoc_bucket (hash_fn s k) s"

definition assoc_rel :: "'a assoc_state_scheme \<Rightarrow> (bytes \<rightharpoonup> ptr) \<Rightarrow> bool" where
  "assoc_rel s M \<longleftrightarrow> assoc_wf s \<and> finite (dom M) \<and> hash_items s = of_nat (card (dom M)) \<and>
     (\<exists>C. tab_ok (heap s) (read_pos s) (active s) (bucket_of s) C M)"

lemma assoc_bucket_active: "assoc_wf s \<Longrightarrow> assoc_bucket hv s \<in> active s"
  by (auto simp: assoc_bucket_def active_def assoc_wf_def Let_def hash_index_bound
      intro!: image_eqI)

lemma bucket_of_active: "assoc_wf s \<Longrightarrow> bucket_of s k \<in> active s"
  by (simp add: bucket_of_def assoc_bucket_active)

lemma active_no_next: "H_next p \<notin> active s"
  by (auto simp: active_def)

lemma assoc_relE:
  assumes "assoc_rel s M"
  obtains C where "assoc_wf s" "finite (dom M)" "hash_items s = of_nat (card (dom M))"
    "tab_ok (heap s) (read_pos s) (active s) (bucket_of s) C M"
  using assms unfolding assoc_rel_def by blast

lemma assoc_rel_nonnull:
  assumes "assoc_rel s M" "M k = Some p"
  shows "p \<noteq> NULL" "item_key (heap s p) = k" "key_ok (heap s p)"
proof -
  from assms(1) obtain C where t: "tab_ok (heap s) (read_pos s) (active s) (bucket_of s) C M"
    by (rule assoc_relE)
  note p = tab_ok_Some [OF t assms(2)]
  have "NULL \<notin> set (C (bucket_of s k))"
    using tab_okD(1) [OF t p(1)] by (rule chain_NULL_notin)
  with p(2) show "p \<noteq> NULL" by metis
  show "item_key (heap s p) = k" "key_ok (heap s p)" using p by simp_all
qed

text \<open>A state in which only fields the table does not use have changed represents the same map.\<close>

lemma assoc_rel_frame:
  assumes "assoc_rel s M"
    and "\<And>p. it_h_next (heap s' p) = it_h_next (heap s p)"
    and "\<And>p. item_key (heap s' p) = item_key (heap s p)"
    and "\<And>p. key_ok (heap s' p) = key_ok (heap s p)"
    and "hashpower s' = hashpower s" "primary_hashtable s' = primary_hashtable s"
    and "old_hashtable s' = old_hashtable s" "hash_items s' = hash_items s"
    and "expanding s' = expanding s" "expand_bucket s' = expand_bucket s" "hash_fn s' = hash_fn s"
  shows "assoc_rel s' M"
proof -
  from assms(1) obtain C where r: "assoc_wf s" "finite (dom M)" "hash_items s = of_nat (card (dom M))"
    and t: "tab_ok (heap s) (read_pos s) (active s) (bucket_of s) C M" by (rule assoc_relE)
  have act: "active s' = active s" by (simp add: active_def assms)
  have bk: "bucket_of s' = bucket_of s" by (simp add: fun_eq_iff bucket_of_def assoc_bucket_def assms cong: if_cong)
  have rd: "read_pos s' b = read_pos s b" if "b \<in> active s" for b
    using that by (cases b) (simp_all add: assms active_no_next)
  have "tab_ok (heap s') (read_pos s') (active s') (bucket_of s') C M"
    unfolding act bk
  proof (rule tab_okI)
    fix b assume b: "b \<in> active s"
    show "chain (\<lambda>p. it_h_next (heap s' p)) (read_pos s' b) (C b)"
      using tab_okD(1) [OF t b] unfolding rd [OF b] assms(2) .
  next
    fix b p assume "b \<in> active s" "p \<in> set (C b)"
    then show "key_ok (heap s' p) \<and> bucket_of s (item_key (heap s' p)) = b"
      using tab_okD(2,3) [OF t] unfolding assms(3,4) by blast
  next
    fix k p
    show "(M k = Some p) = (\<exists>b\<in>active s. p \<in> set (C b) \<and> item_key (heap s' p) = k)"
      unfolding assms(3) by (rule tab_okD(4) [OF t])
  qed
  moreover have "assoc_wf s'" using r(1) by (simp add: assoc_wf_def assms)
  ultimately show ?thesis using r assms unfolding assoc_rel_def by auto
qed

subsection \<open>Lookup, insertion and deletion\<close>

lemma find_in_chain:
  assumes t: "tab_ok h rd A bk C M" and b: "bk k \<in> A" and k: "k = take nkey key" "nkey \<le> length key"
  shows "(case find (\<lambda>p. key_matches key nkey (h p)) (C (bk k)) of None \<Rightarrow> NULL | Some p \<Rightarrow> p) =
         (case M k of None \<Rightarrow> NULL | Some p \<Rightarrow> p)"
proof -
  have km: "key_matches key nkey (h p) \<longleftrightarrow> item_key (h p) = k" if "p \<in> set (C (bk k))" for p
    using key_matches_iff [OF tab_okD(2) [OF t b that] k(2)] k(1) by simp
  show ?thesis
  proof (cases "M k")
    case None
    then have "find (\<lambda>p. key_matches key nkey (h p)) (C (bk k)) = None"
      using tab_ok_None [OF t b None] km by (simp add: find_None_iff)
    with None show ?thesis by simp
  next
    case (Some p)
    note p = tab_ok_Some [OF t Some]
    have "find (\<lambda>p. key_matches key nkey (h p)) (C (bk k)) \<noteq> None"
      using p km by (auto simp: find_None_iff)
    then obtain q where q: "find (\<lambda>p. key_matches key nkey (h p)) (C (bk k)) = Some q" by blast
    then have "q \<in> set (C (bk k))" "key_matches key nkey (h q)"
      by (auto simp: find_Some_iff)
    then have "q = p" using tab_ok_unique [OF t b] p km by metis
    with q Some show ?thesis by simp
  qed
qed

lemma assoc_find_correct:
  assumes r: "assoc_rel s M" and k: "k = take nkey key" "nkey \<le> length key" and hv: "hv = hash_fn s k"
  shows "assoc_find key nkey hv s = Some (case M k of None \<Rightarrow> NULL | Some p \<Rightarrow> p)"
proof -
  from r obtain C where wf: "assoc_wf s"
    and t: "tab_ok (heap s) (read_pos s) (active s) (bucket_of s) C M" by (rule assoc_relE)
  have b: "bucket_of s k \<in> active s" using wf by (rule bucket_of_active)
  show ?thesis
    using assoc_find_loop_chain [OF tab_okD(1) [OF t b]] find_in_chain [OF t b k]
    by (simp add: assoc_find_def hv bucket_of_def)
qed

lemma bucket_heads:
  assumes "b \<in> active s"
  shows "\<forall>a\<in>active s. read_pos (write_pos b v s) a = ((read_pos s)(b := v)) a"
proof
  fix a assume "a \<in> active s"
  with assms show "read_pos (write_pos b v s) a = ((read_pos s)(b := v)) a"
    by (cases a; cases b) (auto simp: active_no_next)
qed

lemma assoc_start_expand_table [simp]:
  "heap (assoc_start_expand s) = heap s" "hashpower (assoc_start_expand s) = hashpower s"
  "primary_hashtable (assoc_start_expand s) = primary_hashtable s"
  "old_hashtable (assoc_start_expand s) = old_hashtable s"
  "hash_items (assoc_start_expand s) = hash_items s" "expanding (assoc_start_expand s) = expanding s"
  "expand_bucket (assoc_start_expand s) = expand_bucket s" "hash_fn (assoc_start_expand s) = hash_fn s"
  by (simp_all add: assoc_start_expand_def)

lemma assoc_rel_start_expand: "assoc_rel s M \<Longrightarrow> assoc_rel (assoc_start_expand s) M"
  by (erule assoc_rel_frame) simp_all

text \<open>Writing a bucket keeps everything the choice of buckets depends on.\<close>

lemma write_pos_table [simp]:
  "hashpower (write_pos b v s) = hashpower s" "hash_items (write_pos b v s) = hash_items s"
  "expanding (write_pos b v s) = expanding s" "expand_bucket (write_pos b v s) = expand_bucket s"
  "hash_fn (write_pos b v s) = hash_fn s"
  by (cases b; simp add: upd_item_def)+

lemma upd_item_table [simp]:
  "hashpower (upd_item p f s) = hashpower s" "hash_items (upd_item p f s) = hash_items s"
  "expanding (upd_item p f s) = expanding s" "expand_bucket (upd_item p f s) = expand_bucket s"
  "primary_hashtable (upd_item p f s) = primary_hashtable s"
  "old_hashtable (upd_item p f s) = old_hashtable s"
  by (simp_all add: upd_item_def)

lemma heap_write_bucket: "b \<in> active s \<Longrightarrow> heap (write_pos b v t) = heap t"
  by (cases b) (simp_all add: active_no_next)

lemma same_layout:
  assumes "hashpower s' = hashpower s" "expanding s' = expanding s"
    "expand_bucket s' = expand_bucket s" "hash_fn s' = hash_fn s"
  shows "active s' = active s" "bucket_of s' = bucket_of s" "assoc_wf s' = assoc_wf s"
    "assoc_bucket hv s' = assoc_bucket hv s"
  using assms
  by (simp_all add: active_def fun_eq_iff bucket_of_def assoc_bucket_def assoc_wf_def cong: if_cong)

lemma assoc_relI:
  assumes "assoc_wf s" "finite (dom M)" "hash_items s = of_nat (card (dom M))"
    and "tab_ok (heap s) (read_pos s) (active s) (bucket_of s) C M"
  shows "assoc_rel s M"
  using assms unfolding assoc_rel_def by blast

theorem assoc_insert_rel:
  assumes r: "assoc_rel s M" and k: "k = item_key (heap s it)" "M k = None" "key_ok (heap s it)"
    and it: "it \<noteq> NULL" and hv: "hv = hash_fn s k"
  shows "assoc_rel (assoc_insert it hv s) (M(k \<mapsto> it))"
proof -
  from r obtain C where wf: "assoc_wf s" and fin: "finite (dom M)"
    and items: "hash_items s = of_nat (card (dom M))"
    and t: "tab_ok (heap s) (read_pos s) (active s) (bucket_of s) C M" by (rule assoc_relE)
  let ?b = "bucket_of s k"
  have b: "?b \<in> active s" using wf by (rule bucket_of_active)
  let ?s1 = "upd_item it (\<lambda>i. i\<lparr>it_h_next := read_pos s ?b\<rparr>) s"
  let ?s3 = "(write_pos ?b it ?s1)\<lparr>hash_items := hash_items s + 1\<rparr>"
  have lay: "active ?s3 = active s" "bucket_of ?s3 = bucket_of s" "assoc_wf ?s3 = assoc_wf s"
    by (rule same_layout; simp)+
  have rd: "\<forall>a\<in>active s. read_pos ?s3 a = ((read_pos s)(?b := it)) a"
  proof
    fix a assume a: "a \<in> active s"
    with b show "read_pos ?s3 a = ((read_pos s)(?b := it)) a"
      by (cases a; cases ?b) (auto simp: active_no_next)
  qed
  have h: "heap ?s3 = (heap s)(it := (heap s it)\<lparr>it_h_next := read_pos s ?b\<rparr>)"
    using b by (simp add: heap_write_bucket)
  have "tab_ok (heap ?s3) (read_pos ?s3) (active ?s3) (bucket_of ?s3) (C(?b := it # C ?b)) (M(k \<mapsto> it))"
    unfolding lay(1,2) by (rule tab_ok_insert [OF t k refl b it h rd])
  moreover have "card (dom (M(k \<mapsto> it))) = Suc (card (dom M))"
    using k(2) fin by (simp add: domIff)
  ultimately have "assoc_rel ?s3 (M(k \<mapsto> it))"
    using lay wf fin items by (intro assoc_relI) auto
  moreover have "assoc_insert it hv s = ?s3 \<or> assoc_insert it hv s = assoc_start_expand ?s3"
    by (simp add: assoc_insert_def hv bucket_of_def Let_def)
  ultimately show ?thesis by (auto intro: assoc_rel_start_expand)
qed

lemma hashitem_before_correct:
  assumes t: "tab_ok (heap s) (read_pos s) (active s) (bucket_of s) C M" and M: "M k = Some p"
    and k: "k = take nkey key" "nkey \<le> length key" and hv: "hv = hash_fn s k"
    and C: "C (bucket_of s k) = xs @ p # ys"
  shows "hashitem_before key nkey hv s =
           Some (if xs = [] then bucket_of s k else H_next (last xs))"
proof -
  note p = tab_ok_Some [OF t M]
  have ch: "chain (\<lambda>p. it_h_next (heap s p)) (read_pos s (bucket_of s k)) (xs @ p # ys)"
    using tab_okD(1) [OF t p(1)] C by simp
  then have dist: "distinct (xs @ p # ys)" by (rule chain_distinct)
  have km: "key_matches key nkey (heap s q) \<longleftrightarrow> item_key (heap s q) = k"
    if "q \<in> set (C (bucket_of s k))" for q
    using key_matches_iff [OF tab_okD(2) [OF t p(1) that] k(2)] k(1) by simp
  have "\<not> key_matches key nkey (heap s q)" if "q \<in> set xs" for q
  proof
    assume "key_matches key nkey (heap s q)"
    then have "q = p" using tab_ok_unique [OF t p(1), of q p] km [of q] p that C by auto
    with that dist show False by auto
  qed
  moreover have "key_matches key nkey (heap s p)" using km [OF p(2)] p(3) by simp
  ultimately have "hashitem_before_loop key nkey s (bucket_of s k) =
      Some (if xs = [] then bucket_of s k else H_next (last xs))"
    by (intro hashitem_before_loop_chain [OF ch]) auto
  then show ?thesis by (simp add: hashitem_before_def hv bucket_of_def)
qed

theorem assoc_delete_rel:
  assumes r: "assoc_rel s M" and M: "M k = Some p"
    and k: "k = take nkey key" "nkey \<le> length key" and hv: "hv = hash_fn s k"
  shows "\<exists>s'. assoc_delete key nkey hv s = Some s' \<and> assoc_rel s' (M(k := None))"
proof -
  from r obtain C where wf: "assoc_wf s" and fin: "finite (dom M)"
    and items: "hash_items s = of_nat (card (dom M))"
    and t: "tab_ok (heap s) (read_pos s) (active s) (bucket_of s) C M" by (rule assoc_relE)
  let ?b = "bucket_of s k"
  note p = tab_ok_Some [OF t M]
  have ch: "chain (\<lambda>p. it_h_next (heap s p)) (read_pos s ?b) (C ?b)" using tab_okD(1) [OF t p(1)] .
  obtain xs ys where C: "C ?b = xs @ p # ys" using p(2) by (auto dest: split_list)
  have dist: "distinct (xs @ p # ys)" using chain_distinct [OF ch] C by simp
  have nn: "p \<noteq> NULL" using assoc_rel_nonnull [OF r M] by simp
  let ?pos = "if xs = [] then ?b else H_next (last xs)"
  note before = hashitem_before_correct [OF t M k hv C]
  have rp: "read_pos s ?pos = p"
  proof (cases "xs = []")
    case True
    then show ?thesis using ch C by simp
  next
    case False
    then obtain zs z where "xs = zs @ [z]" by (cases xs rule: rev_cases) auto
    then show ?thesis using ch C by (auto simp: chain_append seg_append)
  qed
  let ?s1 = "s\<lparr>hash_items := hash_items s - 1\<rparr>"
  let ?s2 = "upd_item p (\<lambda>i. i\<lparr>it_h_next := NULL\<rparr>) ?s1"
  let ?s' = "write_pos ?pos (it_h_next (heap s p)) ?s2"
  have del: "assoc_delete key nkey hv s = Some ?s'"
    using nn rp by (simp add: assoc_delete_def before Let_def del: read_pos.simps)
  have lay: "active ?s' = active s" "bucket_of ?s' = bucket_of s" "assoc_wf ?s' = assoc_wf s"
    by (rule same_layout; simp)+
  have rd: "\<forall>a\<in>active s. read_pos ?s' a = (if xs = [] then (read_pos s)(?b := it_h_next (heap s p)) else read_pos s) a"
  proof
    fix a assume a: "a \<in> active s"
    with p(1) show "read_pos ?s' a = (if xs = [] then (read_pos s)(?b := it_h_next (heap s p)) else read_pos s) a"
      by (cases a; cases ?b) (auto simp: active_no_next)
  qed
  have h: "heap ?s' = (let h1 = (heap s)(p := (heap s p)\<lparr>it_h_next := NULL\<rparr>)
       in if xs = [] then h1 else h1(last xs := (h1 (last xs))\<lparr>it_h_next := it_h_next (heap s p)\<rparr>))"
    using p(1) by (simp add: heap_write_bucket Let_def)
  have "tab_ok (heap ?s') (read_pos ?s') (active ?s') (bucket_of ?s') (C(?b := xs @ ys)) (M(k := None))"
    unfolding lay(1,2) by (rule tab_ok_delete [OF t M refl C h rd])
  moreover have "of_nat (card (dom (M(k := None)))) = hash_items s - (1::u32)"
  proof -
    have "card (dom M) = Suc (card (dom M - {k}))"
      using M fin by (intro card.remove) (auto simp: domIff)
    then show ?thesis using items by (simp add: dom_fun_upd)
  qed
  ultimately have "assoc_rel ?s' (M(k := None))"
    using lay wf fin by (intro assoc_relI) auto
  with del show ?thesis by blast
qed

subsection \<open>Expansion\<close>

lemma unat_hashsize: "n < 64 \<Longrightarrow> unat (hashsize n) = 2 ^ n"
proof -
  assume "n < 64"
  then have "(2::nat) ^ n < 2 ^ 64" by (rule power_strict_increasing) simp
  then have "unat (of_nat (2 ^ n) :: u64) = 2 ^ n" by (simp only: unat_of_nat) simp
  then show ?thesis by (simp add: hashsize_def)
qed

text \<open>One pass of the inner loop moves the floating items \<open>fl\<close> of the old chain into the table.\<close>

lemma move_bucket_loop_correct:
  assumes "chain (\<lambda>p. it_h_next (heap s p)) it fl"
    and "tab_ok (heap s) (read_pos s) A bk C M"
    and "\<forall>p\<in>set fl. key_ok (heap s p) \<and> bk (item_key (heap s p)) =
           Primary_bucket (hash_index (hash_fn s (item_key (heap s p))) (hashpower s)) \<and>
           bk (item_key (heap s p)) \<in> A \<and> M (item_key (heap s p)) = None"
    and "inj_on (\<lambda>p. item_key (heap s p)) (set fl)" and "\<forall>p. H_next p \<notin> A"
  shows "\<exists>s' C'. move_bucket_loop it s = Some s' \<and>
    tab_ok (heap s') (read_pos s') A bk C' (M ++ map_of (map (\<lambda>p. (item_key (heap s p), p)) fl)) \<and>
    (\<forall>p. item_key (heap s' p) = item_key (heap s p)) \<and>
    (\<exists>h pt. s' = s\<lparr>heap := h, primary_hashtable := pt\<rparr>)"
  using assms
proof (induction fl arbitrary: it s C M)
  case Nil
  have "s = s\<lparr>heap := heap s, primary_hashtable := primary_hashtable s\<rparr>" by simp
  then have "\<exists>h pt. s = s\<lparr>heap := h, primary_hashtable := pt\<rparr>" by blast
  then show ?case using Nil by (auto simp: move_bucket_loop.simps)
next
  case (Cons x fl)
  let ?k = "item_key (heap s x)"
  let ?i = "hash_index (hash_fn s ?k) (hashpower s)"
  let ?s1 = "upd_item x (\<lambda>i. i\<lparr>it_h_next := primary_hashtable s ?i\<rparr>) s"
  let ?s2 = "?s1\<lparr>primary_hashtable := (primary_hashtable s)(?i := x)\<rparr>"
  let ?nxt = "it_h_next (heap s x)"
  have it: "it = x" "x \<noteq> NULL" and rest: "chain (\<lambda>p. it_h_next (heap s p)) ?nxt fl"
    using Cons.prems(1) by auto
  have xfl: "x \<notin> set fl" using chain_distinct [OF Cons.prems(1)] by simp
  have bkx: "bk ?k = Primary_bucket ?i" "bk ?k \<in> A" "M ?k = None" "key_ok (heap s x)"
    using Cons.prems(3) by auto
  have step: "move_bucket_loop it s = move_bucket_loop ?nxt ?s2"
    using it by (simp add: move_bucket_loop.simps [of x s] Let_def)
  have keys: "\<And>p. item_key (heap ?s2 p) = item_key (heap s p)" "\<And>p. key_ok (heap ?s2 p) = key_ok (heap s p)"
    by simp_all
  have rd: "\<forall>a\<in>A. read_pos ?s2 a = ((read_pos s)(bk ?k := x)) a"
  proof
    fix a assume "a \<in> A"
    then show "read_pos ?s2 a = ((read_pos s)(bk ?k := x)) a"
      using Cons.prems(5) bkx(1) by (cases a) auto
  qed
  have h: "heap ?s2 = (heap s)(x := (heap s x)\<lparr>it_h_next := read_pos s (bk ?k)\<rparr>)"
    by (simp add: bkx(1))
  have t2: "tab_ok (heap ?s2) (read_pos ?s2) A bk (C(bk ?k := x # C (bk ?k))) (M(?k \<mapsto> x))"
    by (rule tab_ok_insert [OF Cons.prems(2) refl bkx(3,4) refl bkx(2) it(2) h rd])
  have ch2: "chain (\<lambda>p. it_h_next (heap ?s2 p)) ?nxt fl"
    using rest xfl by (subst chain_cong [where g = "\<lambda>p. it_h_next (heap s p)"]) auto
  have inj: "inj_on (\<lambda>p. item_key (heap s p)) (set fl)" and kfl: "\<forall>p\<in>set fl. item_key (heap s p) \<noteq> ?k"
    using Cons.prems(4) xfl by (auto simp: inj_on_def)
  have pre: "\<forall>p\<in>set fl. key_ok (heap ?s2 p) \<and> bk (item_key (heap ?s2 p)) =
           Primary_bucket (hash_index (hash_fn ?s2 (item_key (heap ?s2 p))) (hashpower ?s2)) \<and>
           bk (item_key (heap ?s2 p)) \<in> A \<and> (M(?k \<mapsto> x)) (item_key (heap ?s2 p)) = None"
  proof
    fix p assume "p \<in> set fl"
    with Cons.prems(3) kfl show "key_ok (heap ?s2 p) \<and> bk (item_key (heap ?s2 p)) =
           Primary_bucket (hash_index (hash_fn ?s2 (item_key (heap ?s2 p))) (hashpower ?s2)) \<and>
           bk (item_key (heap ?s2 p)) \<in> A \<and> (M(?k \<mapsto> x)) (item_key (heap ?s2 p)) = None"
      unfolding keys by auto
  qed
  have "\<exists>s' C'. move_bucket_loop ?nxt ?s2 = Some s' \<and>
    tab_ok (heap s') (read_pos s') A bk C' (M(?k \<mapsto> x) ++ map_of (map (\<lambda>p. (item_key (heap ?s2 p), p)) fl)) \<and>
    (\<forall>p. item_key (heap s' p) = item_key (heap ?s2 p)) \<and>
    (\<exists>h pt. s' = ?s2\<lparr>heap := h, primary_hashtable := pt\<rparr>)"
    by (rule Cons.IH [OF ch2 t2 pre _ Cons.prems(5)]) (use inj keys in simp)
  then obtain s' C' h pt where s': "move_bucket_loop ?nxt ?s2 = Some s'"
    "tab_ok (heap s') (read_pos s') A bk C' (M(?k \<mapsto> x) ++ map_of (map (\<lambda>p. (item_key (heap s p), p)) fl))"
    "\<forall>p. item_key (heap s' p) = item_key (heap s p)"
    "s' = ?s2\<lparr>heap := h, primary_hashtable := pt\<rparr>"
    unfolding keys by blast
  have "?k \<notin> dom (map_of (map (\<lambda>p. (item_key (heap s p), p)) fl))"
    using kfl by (auto simp: dom_map_of_conv_image_fst)
  then have m: "M(?k \<mapsto> x) ++ map_of (map (\<lambda>p. (item_key (heap s p), p)) fl) =
             M ++ map_of (map (\<lambda>p. (item_key (heap s p), p)) (x # fl))"
    by (simp add: map_add_upd_left)
  have e: "s' = s\<lparr>heap := h, primary_hashtable := pt\<rparr>" using s'(4) by (simp add: upd_item_def)
  have run: "move_bucket_loop it s = Some s'" using step s'(1) by simp
  show ?case
    by (intro exI [of _ s'] exI [of _ C'] exI [of _ h] exI [of _ pt] conjI run e s'(3) s'(2) [unfolded m])
qed

lemma map_split_by_bucket:
  assumes t: "tab_ok h rd A bk C M" and b: "b \<in> A"
  shows "(\<lambda>k. if bk k = b then None else M k) ++ map_of (map (\<lambda>p. (item_key (h p), p)) (C b)) = M"
proof
  fix k
  let ?L = "map (\<lambda>p. (item_key (h p), p)) (C b)"
  have inj: "inj_on (\<lambda>p. item_key (h p)) (set (C b))"
    using tab_ok_unique [OF t b] by (auto simp: inj_on_def)
  have "distinct (map fst ?L)"
    using inj chain_distinct [OF tab_okD(1) [OF t b]] by (simp add: comp_def distinct_map)
  then have L: "map_of ?L k = Some p \<longleftrightarrow> p \<in> set (C b) \<and> item_key (h p) = k" for p
    by (subst map_of_eq_Some_iff) auto
  show "((\<lambda>k. if bk k = b then None else M k) ++ map_of ?L) k = M k"
  proof (cases "map_of ?L k")
    case (Some p)
    then have "p \<in> set (C b)" "item_key (h p) = k" using L by auto
    then have "M k = Some p" using tab_ok_mem [OF t b] by metis
    with Some show ?thesis by (simp add: map_add_def)
  next
    case None
    have "M k = None" if "bk k = b"
    proof (rule ccontr)
      assume "M k \<noteq> None"
      then obtain p where "M k = Some p" by auto
      note p = tab_ok_Some(2,3) [OF t this]
      have "map_of ?L k = Some p" unfolding L using p that by simp
      with None show False by simp
    qed
    with None show ?thesis by (simp add: map_add_def)
  qed
qed

lemma tab_ok_drop_bucket:
  assumes t: "tab_ok h rd A bk C M" and A': "A' = A - {b}"
    and bk': "\<And>a p. a \<in> A' \<Longrightarrow> p \<in> set (C a) \<Longrightarrow> bk' (item_key (h p)) = a"
  shows "tab_ok h rd A' bk' C (\<lambda>k. if bk k = b then None else M k)"
proof (rule tab_okI)
  fix a assume "a \<in> A'"
  then show "chain (\<lambda>p. it_h_next (h p)) (rd a) (C a)" using tab_okD(1) [OF t] A' by blast
next
  fix a p assume "a \<in> A'" "p \<in> set (C a)"
  then show "key_ok (h p) \<and> bk' (item_key (h p)) = a" using tab_okD(2) [OF t] A' bk' by blast
next
  fix k p
  have bk: "bk k = a" if "a \<in> A" "p \<in> set (C a)" "item_key (h p) = k" for a
    using tab_okD(3) [OF t that(1,2)] that(3) by simp
  have "(\<exists>a\<in>A'. p \<in> set (C a) \<and> item_key (h p) = k) \<longleftrightarrow>
        bk k \<noteq> b \<and> (\<exists>a\<in>A. p \<in> set (C a) \<and> item_key (h p) = k)"
    unfolding A' using bk by blast
  then show "((if bk k = b then None else M k) = Some p) = (\<exists>a\<in>A'. p \<in> set (C a) \<and> item_key (h p) = k)"
    unfolding tab_okD(4) [OF t, of k p, symmetric] by simp
qed

text \<open>Moving the bucket at \<open>expand_bucket\<close> keeps the represented map and advances the index;
  after the last bucket of the old table the expansion is over.\<close>

theorem move_bucket_rel:
  assumes r: "assoc_rel s M" and ex: "expanding s"
  shows "\<exists>s'. move_bucket s = Some s' \<and> assoc_rel s' M \<and> hashpower s' = hashpower s \<and>
    (if unat (expand_bucket s) + 1 = 2 ^ (hashpower s - 1) then \<not> expanding s'
     else expanding s' \<and> unat (expand_bucket s') = unat (expand_bucket s) + 1)"
proof -
  from r obtain C where wf: "assoc_wf s" and fin: "finite (dom M)"
    and items: "hash_items s = of_nat (card (dom M))"
    and t: "tab_ok (heap s) (read_pos s) (active s) (bucket_of s) C M" by (rule assoc_relE)
  let ?eb = "unat (expand_bucket s)" and ?n = "2 ^ (hashpower s - 1) :: nat"
  let ?old = "Old_bucket ?eb"
  have hp: "1 \<le> hashpower s" "hashpower s \<le> 32" "?eb < ?n" using wf ex by (auto simp: assoc_wf_def)
  have oldA: "?old \<in> active s" using ex hp by (auto simp: active_def)
  have "?n \<le> 2 ^ 31" using hp by (intro power_increasing) auto
  then have eb1: "unat (expand_bucket s + 1) = ?eb + 1"
    using hp by (subst unat_add_lem [THEN iffD1]) auto
  define bk' where "bk' = (\<lambda>k. if hash_index (hash_fn s k) (hashpower s - 1) \<ge> ?eb + 1
      then Old_bucket (hash_index (hash_fn s k) (hashpower s - 1))
      else Primary_bucket (hash_index (hash_fn s k) (hashpower s)))"
  have bk_cases: "bk' k = (if bucket_of s k = ?old
       then Primary_bucket (hash_index (hash_fn s k) (hashpower s)) else bucket_of s k)" for k
    using ex by (auto simp: bk'_def bucket_of_def assoc_bucket_def Let_def)
  let ?A = "active s - {?old}"
  let ?M0 = "\<lambda>k. if bucket_of s k = ?old then None else M k"
  have t0: "tab_ok (heap s) (read_pos s) ?A bk' C ?M0"
    by (rule tab_ok_drop_bucket [OF t refl]) (use tab_okD(3) [OF t] bk_cases in auto)
  have ch: "chain (\<lambda>p. it_h_next (heap s p)) (old_hashtable s ?eb) (C ?old)"
    using tab_okD(1) [OF t oldA] by simp
  have prim: "Primary_bucket (hash_index hv (hashpower s)) \<in> ?A" for hv
    using hp by (auto simp: active_def hash_index_bound)
  have pre: "\<forall>p\<in>set (C ?old). key_ok (heap s p) \<and> bk' (item_key (heap s p)) =
           Primary_bucket (hash_index (hash_fn s (item_key (heap s p))) (hashpower s)) \<and>
           bk' (item_key (heap s p)) \<in> ?A \<and> ?M0 (item_key (heap s p)) = None"
    using tab_okD(2,3) [OF t oldA] prim by (auto simp: bk_cases)
  have inj: "inj_on (\<lambda>p. item_key (heap s p)) (set (C ?old))"
    using tab_ok_unique [OF t oldA] by (auto simp: inj_on_def)
  obtain s1 C' h pt where s1: "move_bucket_loop (old_hashtable s ?eb) s = Some s1"
    and t1: "tab_ok (heap s1) (read_pos s1) ?A bk' C' M"
    and e1: "s1 = s\<lparr>heap := h, primary_hashtable := pt\<rparr>"
    using move_bucket_loop_correct [OF ch t0 pre inj] map_split_by_bucket [OF t oldA]
    by (auto simp: active_no_next)
  define s3 where "s3 = s1\<lparr>old_hashtable := (old_hashtable s1)(?eb := NULL),
                           expand_bucket := expand_bucket s + 1\<rparr>"
  define last where "last \<longleftrightarrow> ucast (expand_bucket s + 1) = hashsize (hashpower s - 1)"
  have "take_bit 64 (?eb + 1) = ?eb + 1"
    using hp \<open>?n \<le> 2 ^ 31\<close> by (intro take_bit_nat_eq_self) simp
  then have last: "last \<longleftrightarrow> ?eb + 1 = ?n"
    using hp eb1 unat_hashsize [of "hashpower s - 1"]
    by (simp add: last_def word_unat_eq_iff unsigned_ucast_eq)
  define s' where "s' = (if last
      then s3\<lparr>expanding := False, stats := (stats s3)\<lparr>hash_bytes := hash_bytes (stats s3)
                    - hashsize (hashpower s3 - 1) * ptr_size, hash_is_expanding := False\<rparr>\<rparr>
      else s3)"
  have mv: "move_bucket s = Some s'"
    by (simp add: move_bucket_def s1 e1 s'_def s3_def last_def Let_def)
  have f: "heap s' = heap s1" "hashpower s' = hashpower s" "hash_fn s' = hash_fn s"
    "hash_items s' = hash_items s" "expand_bucket s' = expand_bucket s + 1"
    "expanding s' \<longleftrightarrow> \<not> last"
    using ex by (simp_all add: s'_def s3_def e1)
  have act: "active s' = ?A"
    using ex last hp by (auto simp: active_def f eb1 split: if_splits)
  have bkA: "bucket_of s' k = bk' k" for k
  proof (cases last)
    case True
    then have "hash_index (hash_fn s k) (hashpower s - 1) < ?eb + 1"
      using last hash_index_bound [of "hashpower s - 1"] hp by auto
    then show ?thesis using True by (simp add: bucket_of_def assoc_bucket_def bk'_def f)
  next
    case False
    then show ?thesis by (simp add: bucket_of_def assoc_bucket_def bk'_def f eb1 Let_def cong: if_cong)
  qed
  have rd: "read_pos s' a = read_pos s1 a" if "a \<in> ?A" for a
    using that by (cases a) (auto simp: s'_def s3_def active_no_next)
  have "tab_ok (heap s') (read_pos s') (active s') (bucket_of s') C' M"
  proof (rule tab_okI)
    fix b assume "b \<in> active s'"
    then show "chain (\<lambda>p. it_h_next (heap s' p)) (read_pos s' b) (C' b)"
      using tab_okD(1) [OF t1] rd by (simp add: act f(1))
  next
    fix b p assume "b \<in> active s'" "p \<in> set (C' b)"
    then show "key_ok (heap s' p) \<and> bucket_of s' (item_key (heap s' p)) = b"
      using tab_okD(2,3) [OF t1] by (simp add: act f(1) bkA)
  next
    fix k p
    show "(M k = Some p) = (\<exists>b\<in>active s'. p \<in> set (C' b) \<and> item_key (heap s' p) = k)"
      unfolding act f(1) by (rule tab_okD(4) [OF t1])
  qed
  moreover have "assoc_wf s'" using hp last by (auto simp: assoc_wf_def f eb1)
  ultimately have "assoc_rel s' M" using fin items f by (intro assoc_relI) auto
  with mv f last eb1 show ?thesis by auto
qed

lemma move_bucket_eq: "move_bucket s = Some s' \<Longrightarrow> assoc_rel s M \<Longrightarrow> expanding s \<Longrightarrow> assoc_rel s' M"
  using move_bucket_rel by fastforce

text \<open>The buckets of the old table that are still to be moved.\<close>

definition buckets_left :: "'a assoc_state_scheme \<Rightarrow> nat" where
  "buckets_left s = (if expanding s then 2 ^ (hashpower s - 1) - unat (expand_bucket s) else 0)"

lemma move_bucket_left:
  assumes "assoc_rel s M" "expanding s"
  shows "\<exists>s'. move_bucket s = Some s' \<and> assoc_rel s' M \<and> hashpower s' = hashpower s \<and>
             Suc (buckets_left s') = buckets_left s"
proof -
  have "unat (expand_bucket s) < 2 ^ (hashpower s - 1)"
    using assms by (auto simp: assoc_rel_def assoc_wf_def)
  with move_bucket_rel [OF assms] assms(2) show ?thesis
    by (fastforce simp: buckets_left_def split: if_splits)
qed

lemma bulk_move_rel:
  "assoc_rel s M \<Longrightarrow> \<exists>s'. bulk_move n s = Some s' \<and> assoc_rel s' M \<and>
     buckets_left s' = buckets_left s - n \<and> hashpower s' = hashpower s"
proof (induction n arbitrary: s)
  case 0
  then show ?case by simp
next
  case (Suc n)
  show ?case
  proof (cases "expanding s")
    case True
    with move_bucket_left [OF Suc.prems] obtain s1 where s1: "move_bucket s = Some s1"
      "assoc_rel s1 M" "hashpower s1 = hashpower s" "Suc (buckets_left s1) = buckets_left s" by blast
    from Suc.IH [OF s1(2)] obtain s' where "bulk_move n s1 = Some s'" "assoc_rel s' M"
      "buckets_left s' = buckets_left s1 - n" "hashpower s' = hashpower s1" by blast
    with s1 True show ?thesis by auto
  next
    case False
    with Suc.prems show ?thesis by (simp add: buckets_left_def)
  qed
qed

lemma expanding_left: "assoc_rel s M \<Longrightarrow> expanding s \<longleftrightarrow> buckets_left s \<noteq> 0"
  by (auto simp: buckets_left_def assoc_rel_def assoc_wf_def)

theorem assoc_expand_rel:
  assumes r: "assoc_rel s M" and ne: "\<not> expanding s" and hp: "hashpower s < 32"
  shows "assoc_rel (assoc_expand ok s) M"
proof -
  from r obtain C where wf: "assoc_wf s" and fin: "finite (dom M)"
    and items: "hash_items s = of_nat (card (dom M))"
    and t: "tab_ok (heap s) (read_pos s) (active s) (bucket_of s) C M" by (rule assoc_relE)
  let ?s' = "assoc_expand ok s"
  show ?thesis
  proof (cases ok)
    case False
    then have f: "heap ?s' = heap s" "hashpower ?s' = hashpower s" "expanding ?s' = expanding s"
      "expand_bucket ?s' = expand_bucket s" "hash_fn ?s' = hash_fn s" "hash_items ?s' = hash_items s"
      "primary_hashtable ?s' = primary_hashtable s"
      by (simp_all add: assoc_expand_def)
    note lay = same_layout [OF f(2-5)]
    have rd: "read_pos ?s' b = read_pos s b" if "b \<in> active s" for b
      using that ne by (cases b) (auto simp: active_def f)
    have "tab_ok (heap ?s') (read_pos ?s') (active ?s') (bucket_of ?s') C M"
      unfolding lay f(1)
      by (rule tab_okI) (use tab_okD [OF t] rd in \<open>simp; blast\<close>)+
    then show ?thesis using lay wf fin items f by (intro assoc_relI) simp_all
  next
    case True
    then have f: "heap ?s' = heap s" "hashpower ?s' = hashpower s + 1" "expanding ?s'"
      "expand_bucket ?s' = 0" "hash_fn ?s' = hash_fn s" "hash_items ?s' = hash_items s"
      "primary_hashtable ?s' = (\<lambda>_. NULL)" "old_hashtable ?s' = primary_hashtable s"
      by (simp_all add: assoc_expand_def Let_def)
    define C' where "C' = (\<lambda>b. case b of Old_bucket i \<Rightarrow> C (Primary_bucket i) | _ \<Rightarrow> [])"
    have A: "active ?s' = Old_bucket ` {..< 2 ^ hashpower s} \<union> Primary_bucket ` {..< 2 ^ (hashpower s + 1)}"
      by (auto simp: active_def f)
    have A0: "active s = Primary_bucket ` {..< 2 ^ hashpower s}" using ne by (simp add: active_def)
    have bk: "bucket_of ?s' k = Old_bucket (hash_index (hash_fn s k) (hashpower s))"
      "bucket_of s k = Primary_bucket (hash_index (hash_fn s k) (hashpower s))" for k
      using ne by (simp_all add: bucket_of_def assoc_bucket_def f)
    have "tab_ok (heap ?s') (read_pos ?s') (active ?s') (bucket_of ?s') C' M"
    proof (rule tab_okI)
      fix b assume "b \<in> active ?s'"
      then consider i where "b = Old_bucket i" "i < 2 ^ hashpower s" | i where "b = Primary_bucket i"
        by (auto simp: A)
      then show "chain (\<lambda>p. it_h_next (heap ?s' p)) (read_pos ?s' b) (C' b)"
      proof cases
        case 1
        then have "Primary_bucket i \<in> active s" by (simp add: A0)
        from tab_okD(1) [OF t this] 1 show ?thesis by (simp add: f C'_def)
      next
        case 2
        then show ?thesis by (simp add: f C'_def)
      qed
    next
      fix b p assume "b \<in> active ?s'" "p \<in> set (C' b)"
      then obtain i where i: "b = Old_bucket i" "i < 2 ^ hashpower s" "p \<in> set (C (Primary_bucket i))"
        by (auto simp: A C'_def)
      then have "Primary_bucket i \<in> active s" by (simp add: A0)
      from tab_okD(2,3) [OF t this i(3)] show "key_ok (heap ?s' p) \<and> bucket_of ?s' (item_key (heap ?s' p)) = b"
        by (simp add: f bk i)
    next
      fix k p
      have "(\<exists>b\<in>active ?s'. p \<in> set (C' b) \<and> item_key (heap s p) = k) =
            (\<exists>b\<in>active s. p \<in> set (C b) \<and> item_key (heap s p) = k)"
        by (auto simp: A A0 C'_def)
      then show "(M k = Some p) = (\<exists>b\<in>active ?s'. p \<in> set (C' b) \<and> item_key (heap ?s' p) = k)"
        unfolding f(1) tab_okD(4) [OF t, of k p] by simp
    qed
    moreover have "assoc_wf ?s'" using hp by (simp add: assoc_wf_def f)
    ultimately show ?thesis using fin items f by (intro assoc_relI) simp_all
  qed
qed

lemma assoc_rel_empty:
  assumes "assoc_init True n s = Some s'" and "hashpower s' \<le> 32" "hash_items s = 0" "\<not> expanding s"
  shows "assoc_rel s' Map.empty"
proof -
  from assms have f: "primary_hashtable s' = (\<lambda>_. NULL)" "\<not> expanding s'" "hash_items s' = 0"
    by (auto simp: assoc_init_def Let_def split: if_splits)
  have "tab_ok (heap s') (read_pos s') (active s') (bucket_of s') (\<lambda>_. []) Map.empty"
    by (rule tab_okI) (use f in \<open>auto simp: active_def\<close>)
  then show ?thesis using f assms(2) by (intro assoc_relI) (auto simp: assoc_wf_def)
qed

section \<open>The table as an interface\<close>

text \<open>What the item code relies on: a store of items addressed by key, related to an abstract
  map, with a lookup that answers from the map and operations that update it.\<close>

locale key_table =
  fixes rel :: "'s \<Rightarrow> (bytes \<rightharpoonup> ptr) \<Rightarrow> bool"
    and find :: "bytes \<Rightarrow> 's \<Rightarrow> ptr option"
    and insert :: "ptr \<Rightarrow> 's \<Rightarrow> 's option"
    and delete :: "bytes \<Rightarrow> 's \<Rightarrow> 's option"
    and keyof :: "'s \<Rightarrow> ptr \<Rightarrow> bytes"
    and storable :: "'s \<Rightarrow> ptr \<Rightarrow> bool"
  assumes find_rel: "rel s M \<Longrightarrow> find k s = Some (case M k of None \<Rightarrow> NULL | Some p \<Rightarrow> p)"
    and insert_rel: "rel s M \<Longrightarrow> storable s p \<Longrightarrow> M (keyof s p) = None \<Longrightarrow>
          \<exists>s'. insert p s = Some s' \<and> rel s' (M(keyof s p \<mapsto> p))"
    and delete_rel: "rel s M \<Longrightarrow> M k = Some p \<Longrightarrow>
          \<exists>s'. delete k s = Some s' \<and> rel s' (M(k := None))"
    and storable_nonnull: "storable s p \<Longrightarrow> p \<noteq> NULL"
    and stored_nonnull: "rel s M \<Longrightarrow> M k = Some p \<Longrightarrow> p \<noteq> NULL"
begin

lemma find_None: "rel s M \<Longrightarrow> find k s = Some NULL \<longleftrightarrow> M k = None"
  using find_rel [of s M k] stored_nonnull [of s M k] by (cases "M k") auto

lemma find_after_insert:
  assumes "rel s M" "storable s p" "find (keyof s p) s = Some NULL" "insert p s = Some s'"
  shows "find k s' = (if k = keyof s p then Some p else find k s)"
proof -
  have "M (keyof s p) = None" using assms(1,3) find_None by blast
  with insert_rel [OF assms(1,2)] assms(4) have "rel s' (M(keyof s p \<mapsto> p))" by auto
  from find_rel [OF this, of k] find_rel [OF assms(1), of k] show ?thesis by simp
qed

lemma find_after_delete:
  assumes "rel s M" "find k s = Some p" "p \<noteq> NULL"
  shows "\<exists>s'. delete k s = Some s' \<and> (\<forall>k'. find k' s' = (if k' = k then Some NULL else find k' s))"
proof -
  have M: "M k = Some p" using find_rel [OF assms(1), of k] assms(2,3) by (auto split: option.splits)
  from delete_rel [OF assms(1) M] obtain s' where s': "delete k s = Some s'" "rel s' (M(k := None))"
    by blast
  have "find k' s' = (if k' = k then Some NULL else find k' s)" for k'
    using find_rel [OF s'(2), of k'] find_rel [OF assms(1), of k'] by simp
  with s'(1) show ?thesis by blast
qed

lemma delete_undoes_insert:
  assumes "rel s M" "storable s p" "find (keyof s p) s = Some NULL" "insert p s = Some s1"
  shows "\<exists>s2. delete (keyof s p) s1 = Some s2 \<and> (\<forall>k. find k s2 = find k s)"
proof -
  have "M (keyof s p) = None" using assms(1,3) find_None by blast
  with insert_rel [OF assms(1,2)] assms(4) have r1: "rel s1 (M(keyof s p \<mapsto> p))" by auto
  have "find (keyof s p) s1 = Some p" using find_after_insert [OF assms] by simp
  from find_after_delete [OF r1 this] storable_nonnull [OF assms(2)]
  obtain s2 where s2: "delete (keyof s p) s1 = Some s2"
    "\<forall>k'. find k' s2 = (if k' = keyof s p then Some NULL else find k' s1)" by blast
  have "find k s2 = find k s" for k
    using s2(2) find_after_insert [OF assms, of k] assms(3) by auto
  with s2(1) show ?thesis by blast
qed

end

interpretation hashtab: key_table assoc_rel
  "\<lambda>k s. assoc_find k (length k) (hash_fn s k) s"
  "\<lambda>p s. Some (assoc_insert p (hash_fn s (item_key (heap s p))) s)"
  "\<lambda>k s. assoc_delete k (length k) (hash_fn s k) s"
  "\<lambda>s p. item_key (heap s p)"
  "\<lambda>s p. p \<noteq> NULL \<and> key_ok (heap s p)"
proof
  show "assoc_find k (length k) (hash_fn s k) s = Some (case M k of None \<Rightarrow> NULL | Some p \<Rightarrow> p)"
    if "assoc_rel s M" for s :: "'a assoc_state_scheme" and M k
    by (rule assoc_find_correct [OF that]) simp_all
  show "\<exists>s'. Some (assoc_insert p (hash_fn s (item_key (heap s p))) s) = Some s' \<and>
        assoc_rel s' (M(item_key (heap s p) \<mapsto> p))"
    if "assoc_rel s M" "p \<noteq> NULL \<and> key_ok (heap s p)" "M (item_key (heap s p)) = None"
    for s :: "'a assoc_state_scheme" and M p
    using assoc_insert_rel [OF that(1) refl that(3)] that(2) by auto
  show "\<exists>s'. assoc_delete k (length k) (hash_fn s k) s = Some s' \<and> assoc_rel s' (M(k := None))"
    if "assoc_rel s M" "M k = Some p" for s :: "'a assoc_state_scheme" and M k p
    by (rule assoc_delete_rel [OF that]) simp_all
  show "p \<noteq> NULL" if "p \<noteq> NULL \<and> key_ok (heap s p)" for s :: "'a assoc_state_scheme" and p
    using that by simp
  show "p \<noteq> NULL" if "assoc_rel s M" "M k = Some p" for s :: "'a assoc_state_scheme" and M k p
    using assoc_rel_nonnull [OF that] by simp
qed

section \<open>Runs of the table\<close>

text \<open>The steps the worker threads and the maintenance thread take on the table, each with the
  map it represents before and after.\<close>

inductive table_step ::
  "assoc_state \<Rightarrow> (bytes \<rightharpoonup> ptr) \<Rightarrow> assoc_state \<Rightarrow> (bytes \<rightharpoonup> ptr) \<Rightarrow> bool" where
  insert: "p \<noteq> NULL \<Longrightarrow> key_ok (heap s p) \<Longrightarrow> M (item_key (heap s p)) = None \<Longrightarrow>
     table_step s M (assoc_insert p (hash_fn s (item_key (heap s p))) s) (M(item_key (heap s p) \<mapsto> p))"
| delete: "M k = Some p \<Longrightarrow> assoc_delete k (length k) (hash_fn s k) s = Some s' \<Longrightarrow>
     table_step s M s' (M(k := None))"
| move: "maintenance_move s = Some s' \<Longrightarrow> table_step s M s' M"
| sleep: "\<not> expanding s \<Longrightarrow> maintenance_sleep s = Some s' \<Longrightarrow> table_step s M s' M"
| wake: "\<not> expanding s \<Longrightarrow> hashpower s < 32 \<Longrightarrow> maintenance_wake ok s = Some s' \<Longrightarrow> table_step s M s' M"

inductive table_reach :: "assoc_state \<Rightarrow> (bytes \<rightharpoonup> ptr) \<Rightarrow> bool" where
  init: "assoc_init True n s0 = Some s \<Longrightarrow> hashpower s \<le> 32 \<Longrightarrow> hash_items s0 = 0 \<Longrightarrow> \<not> expanding s0 \<Longrightarrow>
     table_reach s Map.empty"
| step: "table_reach s M \<Longrightarrow> table_step s M s' M' \<Longrightarrow> table_reach s' M'"

inductive_cases table_stepE: "table_step s M s' M'"

lemma assoc_rel_locks [simp]:
  "assoc_rel (s\<lparr>cache_lock := b\<rparr>) M = assoc_rel s M"
  "assoc_rel (s\<lparr>item_global_lock := b\<rparr>) M = assoc_rel s M"
  "assoc_rel (s\<lparr>slabs_rebalance_lock := b\<rparr>) M = assoc_rel s M"
  "assoc_rel (s\<lparr>item_lock_type := t\<rparr>) M = assoc_rel s M"
  "assoc_rel (s\<lparr>maintenance_cond := b\<rparr>) M = assoc_rel s M"
  "assoc_rel (s\<lparr>started_expanding := b\<rparr>) M = assoc_rel s M"
  by (rule iffI; erule assoc_rel_frame; simp)+

lemma buckets_left_locks [simp]:
  "buckets_left (s\<lparr>cache_lock := b\<rparr>) = buckets_left s"
  "buckets_left (s\<lparr>item_global_lock := b\<rparr>) = buckets_left s"
  by (simp_all add: buckets_left_def)

lemma maintenance_moveE:
  assumes "maintenance_move s = Some s'"
  obtains s3 where "\<not> item_global_lock s" "\<not> cache_lock s"
    "bulk_move (nat (hash_bulk_move s)) (s\<lparr>item_global_lock := True, cache_lock := True\<rparr>) = Some s3"
    "s' = s3\<lparr>cache_lock := False, item_global_lock := False\<rparr>"
  using assms by (auto simp: maintenance_move_def cache_lock_acquire_def cache_lock_release_def
      split: if_splits Option.bind_splits)

lemma maintenance_move_rel:
  assumes "assoc_rel s M" "maintenance_move s = Some s'"
  shows "assoc_rel s' M" "buckets_left s' = buckets_left s - nat (hash_bulk_move s)"
    "hashpower s' = hashpower s"
proof -
  let ?s2 = "s\<lparr>item_global_lock := True, cache_lock := True\<rparr>"
  from assms(2) obtain s3 where s3: "bulk_move (nat (hash_bulk_move s)) ?s2 = Some s3"
    "s' = s3\<lparr>cache_lock := False, item_global_lock := False\<rparr>" by (rule maintenance_moveE)
  have "assoc_rel ?s2 M" using assms(1) by simp
  from bulk_move_rel [OF this, of "nat (hash_bulk_move s)"] s3(1)
  have r: "assoc_rel s3 M" "buckets_left s3 = buckets_left s - nat (hash_bulk_move s)"
    "hashpower s3 = hashpower s" by auto
  show "assoc_rel s' M" "buckets_left s' = buckets_left s - nat (hash_bulk_move s)"
    "hashpower s' = hashpower s" using r by (simp_all add: s3(2))
qed

lemma maintenance_sleep_rel:
  assumes "assoc_rel s M" "maintenance_sleep s = Some s'"
  shows "assoc_rel s' M"
proof -
  from assms(2) have "s' = cache_lock_release ((s\<lparr>item_lock_type := Some ITEM_LOCK_GRANULAR,
      slabs_rebalance_lock := False, cache_lock := True, started_expanding := False\<rparr>))"
    by (auto simp: maintenance_sleep_def cache_lock_acquire_def split: if_splits)
  with assms(1) show ?thesis by (simp add: cache_lock_release_def)
qed

lemma maintenance_wake_rel:
  assumes "assoc_rel s M" "maintenance_wake ok s = Some s'" "\<not> expanding s" "hashpower s < 32"
  shows "assoc_rel s' M"
proof -
  let ?s3 = "s\<lparr>slabs_rebalance_lock := True, item_lock_type := Some ITEM_LOCK_GLOBAL,
      maintenance_cond := False, cache_lock := True\<rparr>"
  from assms(2) have s': "s' = cache_lock_release (assoc_expand ok ?s3)"
    by (auto simp: maintenance_wake_def cache_lock_acquire_def split: if_splits)
  have "assoc_rel (assoc_expand ok ?s3) M"
    by (rule assoc_expand_rel) (use assms in simp_all)
  then show ?thesis by (simp add: s' cache_lock_release_def)
qed

lemma table_step_rel: "table_step s M s' M' \<Longrightarrow> assoc_rel s M \<Longrightarrow> assoc_rel s' M'"
proof (induction rule: table_step.induct)
  case (insert p s M)
  then show ?case by (intro assoc_insert_rel) simp_all
next
  case (delete M k p s s')
  have k: "k = take (length k) k" "length k \<le> length k" by simp_all
  show ?case using assoc_delete_rel [OF delete.prems delete.hyps(1) k refl] delete.hyps(2)
    by (metis option.inject)
qed (auto intro: maintenance_move_rel maintenance_sleep_rel maintenance_wake_rel)

lemma table_reach_rel: "table_reach s M \<Longrightarrow> assoc_rel s M"
  by (induction rule: table_reach.induct) (auto intro: assoc_rel_empty table_step_rel)

text \<open>Passes of the maintenance thread until there is nothing left to move.\<close>

fun passes :: "nat \<Rightarrow> 'a assoc_state_scheme \<Rightarrow> 'a assoc_state_scheme option" where
  "passes 0 s = Some s"
| "passes (Suc n) s = maintenance_move s \<bind> passes n"

lemma move_bucket_loop_frame:
  assumes "move_bucket_loop it s = Some s'"
  shows "hash_bulk_move s' = hash_bulk_move s \<and> cache_lock s' = cache_lock s \<and>
     item_global_lock s' = item_global_lock s"
  using assms
proof (rule move_bucket_loop.raw_induct [rotated])
  fix f :: "ptr \<Rightarrow> 'a assoc_state_scheme \<Rightarrow> 'a assoc_state_scheme option" and it s y
  assume ih: "\<And>it s y. f it s = Some y \<Longrightarrow> hash_bulk_move y = hash_bulk_move s \<and>
      cache_lock y = cache_lock s \<and> item_global_lock y = item_global_lock s"
    and eq: "(if it \<noteq> NULL
      then let nxt = it_h_next (heap s it);
               bucket = hash_index (hash_fn s (item_key (heap s it))) (hashpower s);
               s1 = upd_item it (\<lambda>i. i\<lparr>it_h_next := primary_hashtable s bucket\<rparr>) s;
               s2 = s1\<lparr>primary_hashtable := (primary_hashtable s1)(bucket := it)\<rparr>
           in f nxt s2
      else Some s) = Some y"
  show "hash_bulk_move y = hash_bulk_move s \<and> cache_lock y = cache_lock s \<and>
     item_global_lock y = item_global_lock s"
  proof (cases "it = NULL")
    case False
    from eq False show ?thesis by (auto simp: Let_def upd_item_def dest!: ih)
  qed (use eq in simp)
qed

lemma move_bucket_frame:
  assumes "move_bucket s = Some s'"
  shows "hash_bulk_move s' = hash_bulk_move s \<and> cache_lock s' = cache_lock s \<and>
     item_global_lock s' = item_global_lock s"
  using assms unfolding move_bucket_def Let_def
  by (auto dest!: move_bucket_loop_frame split: Option.bind_splits if_splits)

lemma bulk_move_frame:
  "bulk_move n s = Some s' \<Longrightarrow> hash_bulk_move s' = hash_bulk_move s \<and> cache_lock s' = cache_lock s \<and>
     item_global_lock s' = item_global_lock s"
proof (induction n arbitrary: s)
  case (Suc n)
  show ?case
  proof (cases "expanding s")
    case True
    with Suc.prems obtain s1 where s1: "move_bucket s = Some s1" "bulk_move n s1 = Some s'"
      by (auto split: Option.bind_splits)
    from move_bucket_frame [OF s1(1)] Suc.IH [OF s1(2)] show ?thesis by simp
  qed (use Suc.prems in simp)
qed simp

lemma maintenance_move_total:
  assumes "assoc_rel s M" "\<not> item_global_lock s" "\<not> cache_lock s"
  shows "\<exists>s'. maintenance_move s = Some s' \<and> hash_bulk_move s' = hash_bulk_move s \<and>
    \<not> item_global_lock s' \<and> \<not> cache_lock s'"
proof -
  let ?s2 = "s\<lparr>item_global_lock := True, cache_lock := True\<rparr>"
  have "assoc_rel ?s2 M" using assms(1) by simp
  from bulk_move_rel [OF this, of "nat (hash_bulk_move s)"]
  obtain s3 where s3: "bulk_move (nat (hash_bulk_move s)) ?s2 = Some s3" by blast
  have "maintenance_move s = Some (s3\<lparr>cache_lock := False, item_global_lock := False\<rparr>)"
    using assms(2,3) s3 by (simp add: maintenance_move_def cache_lock_acquire_def cache_lock_release_def)
  with bulk_move_frame [OF s3] show ?thesis by simp
qed

lemma passes_finish:
  assumes "assoc_rel s M" "hash_bulk_move s > 0" "\<not> item_global_lock s" "\<not> cache_lock s"
    and "buckets_left s \<le> n * nat (hash_bulk_move s)"
  shows "\<exists>s'. passes n s = Some s' \<and> assoc_rel s' M \<and> \<not> expanding s'"
  using assms
proof (induction n arbitrary: s)
  case 0
  then show ?case using expanding_left [OF "0"(1)] by auto
next
  case (Suc n)
  from maintenance_move_total [OF Suc.prems(1,3,4)] obtain s1 where s1: "maintenance_move s = Some s1"
    "hash_bulk_move s1 = hash_bulk_move s" "\<not> item_global_lock s1" "\<not> cache_lock s1" by blast
  note r = maintenance_move_rel [OF Suc.prems(1) s1(1)]
  have "\<exists>s'. passes n s1 = Some s' \<and> assoc_rel s' M \<and> \<not> expanding s'"
    by (rule Suc.IH) (use r s1 Suc.prems in auto)
  with s1 show ?case by simp
qed

section \<open>The state at process start\<close>

text \<open>The static initialisers: default table size, no table yet, all locks free, the settings and
  statistics as their initialisers leave them; the hash function is the one \<open>hash_init\<close> picks, and
  the memory is arbitrary.\<close>

definition assoc_boot :: "(bytes \<Rightarrow> u32) \<Rightarrow> (ptr \<Rightarrow> item) \<Rightarrow> assoc_state" where
  "assoc_boot hash mem = \<lparr>heap = mem, settings = settings_init, stats = stats_init,
     current_time = 2, hash_fn = hash, cache_lock = False, slabs_lock = False,
     slabs_rebalance_lock = False, item_locks = (\<lambda>_. False), item_lock_hashpower = item_lock_power 4,
     item_global_lock = False, item_lock_type = None, hashpower = HASHPOWER_DEFAULT,
     primary_hashtable = (\<lambda>_. NULL), old_hashtable = (\<lambda>_. NULL), hash_items = 0, expanding = False,
     started_expanding = False, expand_bucket = 0, maintenance_cond = False, hash_bulk_move = 1\<rparr>"

lemma assoc_boot_fields [simp]:
  "heap (assoc_boot hash mem) = mem" "hash_fn (assoc_boot hash mem) = hash"
  "hashpower (assoc_boot hash mem) = 16" "expanding (assoc_boot hash mem) = False"
  "hash_items (assoc_boot hash mem) = 0" "hash_bulk_move (assoc_boot hash mem) = 1"
  "cache_lock (assoc_boot hash mem) = False" "item_global_lock (assoc_boot hash mem) = False"
  by (simp_all add: assoc_boot_def HASHPOWER_DEFAULT_def)

lemma assoc_boot_init:
  assumes "n \<le> 32"
  shows "\<exists>s. assoc_init True n (assoc_boot hash mem) = Some s \<and> table_reach s Map.empty \<and>
    hashpower s = (if n = 0 then 16 else n) \<and> hash_fn s = hash \<and> heap s = mem \<and>
    \<not> expanding s \<and> \<not> cache_lock s \<and> \<not> item_global_lock s \<and> hash_bulk_move s = 1 \<and>
    \<not> slabs_rebalance_lock s"
proof -
  obtain s where s: "assoc_init True n (assoc_boot hash mem) = Some s" by (simp add: assoc_init_def Let_def)
  then have f: "hashpower s = (if n = 0 then 16 else n)" "hash_fn s = hash" "heap s = mem"
    "\<not> expanding s" "\<not> cache_lock s" "\<not> item_global_lock s" "hash_bulk_move s = 1"
    "\<not> slabs_rebalance_lock s"
    by (auto simp: assoc_init_def Let_def assoc_boot_def HASHPOWER_DEFAULT_def split: if_splits)
  have "table_reach s Map.empty" by (rule table_reach.init [OF s]) (use f assms in auto)
  with s f show ?thesis by blast
qed

lemma assoc_delete_missing:
  assumes r: "assoc_rel s M" and M: "M k = None"
  shows "assoc_delete k (length k) (hash_fn s k) s = None"
proof -
  from r obtain C where wf: "assoc_wf s"
    and t: "tab_ok (heap s) (read_pos s) (active s) (bucket_of s) C M" by (rule assoc_relE)
  let ?b = "bucket_of s k"
  have b: "?b \<in> active s" using wf by (rule bucket_of_active)
  have ch: "chain (\<lambda>p. it_h_next (heap s p)) (read_pos s ?b) (C ?b)" using tab_okD(1) [OF t b] .
  have nk: "\<forall>p\<in>set (C ?b). \<not> key_matches k (length k) (heap s p)"
  proof
    fix p assume p: "p \<in> set (C ?b)"
    have "item_key (heap s p) \<noteq> k" using tab_ok_None [OF t b M] p by blast
    then show "\<not> key_matches k (length k) (heap s p)"
      using key_matches_iff [OF tab_okD(2) [OF t b p], of "length k" k] by simp
  qed
  let ?pos = "if C ?b = [] then ?b else H_next (last (C ?b))"
  have "hashitem_before_loop k (length k) s ?b = Some ?pos"
    by (rule hashitem_before_loop_chain [where ys = "[]"]) (use ch nk in simp_all)
  moreover have "read_pos s ?pos = NULL"
  proof (cases "C ?b = []")
    case False
    then obtain zs z where "C ?b = zs @ [z]" by (cases "C ?b" rule: rev_cases) auto
    then show ?thesis using ch by (auto simp: chain_append)
  qed (use ch in simp)
  ultimately show ?thesis
    by (simp add: assoc_delete_def hashitem_before_def bucket_of_def Let_def del: read_pos.simps)
qed

section \<open>Properties of the table\<close>


definition example_item :: item where
  "example_item = zero_item\<lparr>it_nkey := 3, it_key := [102, 111, 111]\<rparr>"

lemma example_table:
  "\<exists>s. table_reach s [[102, 111, 111] \<mapsto> 64] \<and> hash_fn s = (\<lambda>_. 7) \<and> hash_bulk_move s = 1 \<and>
     \<not> cache_lock s \<and> \<not> item_global_lock s \<and> \<not> expanding s \<and> hashpower s = 1 \<and>
     \<not> slabs_rebalance_lock s"
proof -
  obtain s where s: "table_reach s Map.empty" "hash_fn s = (\<lambda>_. 7)" "heap s = (\<lambda>_. example_item)"
    "hash_bulk_move s = 1" "\<not> cache_lock s" "\<not> item_global_lock s" "\<not> expanding s"
    "hashpower s = 1" "\<not> slabs_rebalance_lock s"
    using assoc_boot_init [of 1 "\<lambda>_. 7" "\<lambda>_. example_item"] by auto
  have i: "key_ok example_item" "item_key example_item = [102, 111, 111]"
    by (simp_all add: example_item_def key_ok_def item_key_def)
  let ?s = "assoc_insert 64 (hash_fn s (item_key (heap s 64))) s"
  have "table_step s Map.empty ?s [item_key (heap s 64) \<mapsto> 64]"
    using s i by (intro table_step.insert) simp_all
  then have "table_reach ?s [[102, 111, 111] \<mapsto> 64]" using s(1,3) i by (auto intro: table_reach.step)
  moreover have "hash_fn ?s = (\<lambda>_. 7) \<and> hash_bulk_move ?s = 1 \<and> \<not> cache_lock ?s \<and>
      \<not> item_global_lock ?s \<and> \<not> expanding ?s \<and> hashpower ?s = 1 \<and> \<not> slabs_rebalance_lock ?s"
    using s by (cases "assoc_bucket 7 s") (auto simp: assoc_insert_def Let_def assoc_start_expand_def upd_item_def)
  ultimately show ?thesis by blast
qed



lemma example_expanding:
  "\<exists>s. table_reach s [[102, 111, 111] \<mapsto> 64] \<and> hash_fn s = (\<lambda>_. 7) \<and> hash_bulk_move s = 1 \<and>
     \<not> cache_lock s \<and> \<not> item_global_lock s \<and> expanding s \<and> hashpower s = 2"
proof -
  obtain s0 where s0: "table_reach s0 [[102, 111, 111] \<mapsto> 64]" "hash_fn s0 = (\<lambda>_. 7)"
    "hash_bulk_move s0 = 1" "\<not> cache_lock s0" "\<not> item_global_lock s0" "\<not> expanding s0"
    "hashpower s0 = 1" "\<not> slabs_rebalance_lock s0"
    using example_table by blast
  define s where "s = cache_lock_release (assoc_expand True (s0\<lparr>slabs_rebalance_lock := True,
     item_lock_type := Some ITEM_LOCK_GLOBAL, maintenance_cond := False, cache_lock := True\<rparr>))"
  have "maintenance_wake True s0 = Some s"
    by (simp add: s_def maintenance_wake_def cache_lock_acquire_def s0)
  with s0 have "table_reach s [[102, 111, 111] \<mapsto> 64]"
    by (intro table_reach.step [OF s0(1)] table_step.wake [where ok = True]) auto
  moreover have "hash_fn s = (\<lambda>_. 7) \<and> hash_bulk_move s = 1 \<and> \<not> cache_lock s \<and>
      \<not> item_global_lock s \<and> expanding s \<and> hashpower s = 2"
    by (simp add: s_def assoc_expand_def Let_def cache_lock_release_def s0)
  ultimately show ?thesis by blast
qed


text \<open>Inserting an item under a key the table does not hold makes exactly that key answer
  with the item, and deleting it gives back the table that answers every key as before.\<close>

theorem table_insert_delete:
  assumes "table_reach s M" "p \<noteq> NULL" "key_ok (heap s p)" "k = item_key (heap s p)" "M k = None"
  shows "let s1 = assoc_insert p (hash_fn s k) s in
    (\<forall>k'. assoc_find k' (length k') (hash_fn s1 k') s1 =
       (if k' = k then Some p else assoc_find k' (length k') (hash_fn s k') s)) \<and>
    (\<exists>s2. assoc_delete k (length k) (hash_fn s1 k) s1 = Some s2 \<and>
       (\<forall>k'. assoc_find k' (length k') (hash_fn s2 k') s2 = assoc_find k' (length k') (hash_fn s k') s))"
proof -
  note r = table_reach_rel [OF assms(1)]
  have st: "p \<noteq> NULL \<and> key_ok (heap s p)" using assms(2,3) by simp
  have none: "assoc_find (item_key (heap s p)) (length (item_key (heap s p)))
      (hash_fn s (item_key (heap s p))) s = Some NULL"
    using hashtab.find_None [OF r] assms(4,5) by simp
  show ?thesis
    using hashtab.find_after_insert [OF r st none refl] hashtab.delete_undoes_insert [OF r st none refl]
    by (simp add: Let_def assms(4))
qed

text \<open>\<open>assoc_delete\<close> fails its assertion exactly on the keys the table does not hold.\<close>

theorem table_delete_error:
  assumes "table_reach s M"
  shows "assoc_delete k (length k) (hash_fn s k) s = None \<longleftrightarrow> M k = None"
proof -
  note r = table_reach_rel [OF assms]
  show ?thesis
  proof (cases "M k")
    case None
    with assoc_delete_missing [OF r] show ?thesis by simp
  next
    case (Some p)
    with hashtab.delete_rel [OF r] show ?thesis by auto
  qed
qed


theorem table_insert_delete_witness:
  "\<exists>s p. table_reach s Map.empty \<and>
    (let s1 = assoc_insert p (hash_fn s [102, 111, 111]) s in
      (\<exists>s2. assoc_delete [102, 111, 111] 3 (hash_fn s1 [102, 111, 111]) s1 = Some s2))"
proof -
  obtain s where s: "table_reach s Map.empty" "heap s = (\<lambda>_. example_item)"
    using assoc_boot_init [of 1 "\<lambda>_. 7" "\<lambda>_. example_item"] by auto
  have i: "key_ok example_item" "item_key example_item = [102, 111, 111]"
    by (simp_all add: example_item_def key_ok_def item_key_def)
  from table_insert_delete [OF s(1), of 64 "[102, 111, 111]"] s i show ?thesis
    by (intro exI [of _ s] exI [of _ 64]) (auto simp: Let_def numeral_3_eq_3)
qed

theorem table_delete_error_witness:
  "\<exists>s. table_reach s [[102, 111, 111] \<mapsto> 64] \<and> assoc_delete [98] 1 (hash_fn s [98]) s = None"
proof -
  obtain s where s: "table_reach s [[102, 111, 111] \<mapsto> 64]" using example_table by blast
  from table_delete_error [OF s, of "[98]"] s show ?thesis by (intro exI [of _ s]) simp
qed

end
