(* ===== verification/MC_Slabs.thy ===== *)
theory MC_Slabs
  imports MC_Assoc "HOL-Library.Log_Nat"
begin

text \<open>
  The slab allocator (\<open>slabs.c\<close>): size classes, the free list of chunks of each class, the
  pages that are split into chunks, and the bookkeeping of the rebalancer that is independent
  of the items (starting and finishing a move, and the requests to start one; moving the items
  of a page needs the LRU code and is in \<open>MC_Rebalance\<close>).

  What \<open>malloc\<close> and \<open>realloc\<close> return are arguments.  \<open>memset\<close> of a page clears the items that
  start inside it.  The class sizes are computed with IEEE doubles: \<open>dbl_round\<close> rounds an exact
  rational to 53 significant bits.
\<close>

unbundle bit_operations_syntax

section \<open>State\<close>

record slabclass_t =
  sc_size :: u32
  sc_perslab :: u32
  sc_slots :: ptr
  sc_sl_curr :: u32
  sc_slabs :: u32
  sc_slab_list :: "nat \<Rightarrow> ptr"
  sc_list_size :: u32
  sc_killing :: u32
  sc_requested :: u64

record slab_rebalance =
  slab_start :: ptr
  slab_end :: ptr
  slab_pos :: ptr
  s_clsid :: int
  d_clsid :: int
  busy_items :: int
  rebal_done :: u8

record slabs_state = assoc_state +
  slabclass :: "nat \<Rightarrow> slabclass_t"
  mem_limit :: u64
  mem_malloced :: u64
  power_largest :: nat
  mem_base :: ptr
  mem_current :: ptr
  mem_avail :: u64
  slab_rebal :: slab_rebalance
  slab_rebalance_signal :: int
  pick_any_cur :: nat

datatype reassign_result_type =
  REASSIGN_OK | REASSIGN_RUNNING | REASSIGN_BADCLASS | REASSIGN_NOSPARE | REASSIGN_SRC_DST_SAME

definition MAX_NUMBER_OF_SLAB_CLASSES :: nat where
  "MAX_NUMBER_OF_SLAB_CLASSES = POWER_LARGEST + 1"

text \<open>The outcome of the system calls one allocation may make: whether \<open>realloc\<close> of the slab
  list succeeds, and the address of the page \<open>malloc\<close> returns (NULL if it fails).\<close>

record alloc_env =
  realloc_ok :: bool
  malloc_page :: ptr

definition upd_class ::
  "nat \<Rightarrow> (slabclass_t \<Rightarrow> slabclass_t) \<Rightarrow> 'a slabs_state_scheme \<Rightarrow> 'a slabs_state_scheme" where
  "upd_class clsid f s = s\<lparr>slabclass := (slabclass s)(clsid := f (slabclass s clsid))\<rparr>"

definition zero_mem :: "ptr \<Rightarrow> nat \<Rightarrow> 'a mc_base_scheme \<Rightarrow> 'a mc_base_scheme" where
  "zero_mem p len s = s\<lparr>heap := (\<lambda>a. if p \<le> a \<and> a < p + len then zero_item else heap s a)\<rparr>"

definition zero_class :: slabclass_t where
  "zero_class = \<lparr>sc_size = 0, sc_perslab = 0, sc_slots = NULL, sc_sl_curr = 0, sc_slabs = 0,
     sc_slab_list = (\<lambda>_. NULL), sc_list_size = 0, sc_killing = 0, sc_requested = 0\<rparr>"

section \<open>Size classes\<close>

partial_function (option) slabs_clsid_loop ::
  "u64 \<Rightarrow> nat \<Rightarrow> 'a slabs_state_scheme \<Rightarrow> nat option" where
  "slabs_clsid_loop sz res s =
     (if sz > ucast (sc_size (slabclass s res))
      then if res = power_largest s then Some 0 else slabs_clsid_loop sz (res + 1) s
      else Some res)"

definition slabs_clsid :: "u64 \<Rightarrow> 'a slabs_state_scheme \<Rightarrow> nat option" where
  "slabs_clsid sz s = (if sz = 0 then Some 0 else slabs_clsid_loop sz POWER_SMALLEST s)"

text \<open>Rounding to the nearest integer, ties to even, and to the nearest double (values of at
  least 1; smaller ones are only compared with chunk sizes and stay exact).\<close>

definition round_even :: "rat \<Rightarrow> int" where
  "round_even x =
     (let f = \<lfloor>x\<rfloor>; d = x - of_int f
      in if d < 1 / 2 then f else if d > 1 / 2 then f + 1 else if even f then f else f + 1)"

definition dbl_round :: "rat \<Rightarrow> rat" where
  "dbl_round x =
     (if x < 1 then x
      else let e = floorlog 2 (nat \<lfloor>x\<rfloor>); ulp = (2::rat) powi (int e - 53)
           in of_int (round_even (x / ulp)) * ulp)"

definition align_size :: "u32 \<Rightarrow> u32" where
  "align_size sz =
     (if sz mod of_nat CHUNK_ALIGN_BYTES \<noteq> 0
      then sz + (of_nat CHUNK_ALIGN_BYTES - sz mod of_nat CHUNK_ALIGN_BYTES) else sz)"

definition grow_size :: "u32 \<Rightarrow> rat \<Rightarrow> u32" where
  "grow_size sz factor = of_int \<lfloor>dbl_round (of_nat (unat sz) * factor)\<rfloor>"

text \<open>The loop of \<open>slabs_init\<close>; \<open>i\<close> is the value before the increment in the loop's test.\<close>

function slabs_init_loop ::
  "rat \<Rightarrow> nat \<Rightarrow> u32 \<Rightarrow> 'a slabs_state_scheme \<Rightarrow> nat \<times> 'a slabs_state_scheme" where
  "slabs_init_loop factor i sz s =
     (if i + 1 < POWER_LARGEST \<and>
         of_nat (unat sz) \<le> dbl_round (of_nat (item_size_max (settings s)) / factor)
      then let sz' = align_size sz;
               s' = upd_class (i + 1) (\<lambda>p. p\<lparr>sc_size := sz',
                       sc_perslab := of_nat (item_size_max (settings s)) div sz'\<rparr>) s
           in slabs_init_loop factor (i + 1) (grow_size sz' factor) s'
      else (i + 1, s))"
  by pat_completeness auto
termination by (relation "measure (\<lambda>(_, i, _, _). POWER_LARGEST - i)") auto

section \<open>Pages and chunks\<close>

definition grow_slab_list :: "bool \<Rightarrow> nat \<Rightarrow> 'a slabs_state_scheme \<Rightarrow> bool \<times> 'a slabs_state_scheme" where
  "grow_slab_list ok clsid s =
     (let p = slabclass s clsid
      in if sc_slabs p = sc_list_size p
         then let new_size = (if sc_list_size p \<noteq> 0 then sc_list_size p * 2 else 16)
              in if ok then (True, upd_class clsid (\<lambda>p. p\<lparr>sc_list_size := new_size\<rparr>) s) else (False, s)
         else (True, s))"

definition memory_allocate ::
  "ptr \<Rightarrow> u64 \<Rightarrow> 'a slabs_state_scheme \<Rightarrow> ptr \<times> 'a slabs_state_scheme" where
  "memory_allocate page sz s =
     (if mem_base s = NULL then (page, s)
      else if sz > mem_avail s then (NULL, s)
      else let sz' = (if sz mod of_nat CHUNK_ALIGN_BYTES \<noteq> 0
                        then sz + (of_nat CHUNK_ALIGN_BYTES - sz mod of_nat CHUNK_ALIGN_BYTES)
                        else sz)
           in (mem_current s,
               s\<lparr>mem_current := mem_current s + unat sz',
                 mem_avail := (if sz' < mem_avail s then mem_avail s - sz' else 0)\<rparr>))"

definition do_slabs_free ::
  "ptr \<Rightarrow> u64 \<Rightarrow> nat \<Rightarrow> 'a slabs_state_scheme \<Rightarrow> 'a slabs_state_scheme option" where
  "do_slabs_free p sz clsid s = do {
     c_assert (it_slabs_clsid (heap s p) = 0);
     c_assert (POWER_SMALLEST \<le> clsid \<and> clsid \<le> power_largest s);
     let s1 = upd_item p (\<lambda>i. i\<lparr>it_flags := it_flags i OR ITEM_SLABBED\<rparr>) s;
     let s2 = upd_item p (\<lambda>i. i\<lparr>it_prev := NULL\<rparr>) s1;
     let s3 = upd_item p (\<lambda>i. i\<lparr>it_next := sc_slots (slabclass s2 clsid)\<rparr>) s2;
     let s4 = upd_item_if (it_next (heap s3 p)) (\<lambda>i. i\<lparr>it_prev := p\<rparr>) s3;
     let s5 = upd_class clsid (\<lambda>c. c\<lparr>sc_slots := p\<rparr>) s4;
     Some (upd_class clsid (\<lambda>c. c\<lparr>sc_sl_curr := sc_sl_curr c + 1,
                              sc_requested := sc_requested c - sz\<rparr>) s5)
   }"

fun split_loop :: "nat \<Rightarrow> ptr \<Rightarrow> nat \<Rightarrow> 'a slabs_state_scheme \<Rightarrow> 'a slabs_state_scheme option" where
  "split_loop 0 p clsid s = Some s"
| "split_loop (Suc n) p clsid s = do {
     s1 \<leftarrow> do_slabs_free p 0 clsid s;
     split_loop n (p + unat (sc_size (slabclass s clsid))) clsid s1
   }"

definition split_slab_page_into_freelist ::
  "ptr \<Rightarrow> nat \<Rightarrow> 'a slabs_state_scheme \<Rightarrow> 'a slabs_state_scheme option" where
  "split_slab_page_into_freelist p clsid s = split_loop (unat (sc_perslab (slabclass s clsid))) p clsid s"

text \<open>The length of a page, an \<open>int\<close> that is converted to \<open>size_t\<close>.\<close>

definition page_len :: "nat \<Rightarrow> 'a slabs_state_scheme \<Rightarrow> u64" where
  "page_len clsid s =
     (if slab_reassign (settings s) then of_nat (item_size_max (settings s))
      else scast (sc_size (slabclass s clsid) * sc_perslab (slabclass s clsid)))"

definition do_slabs_newslab ::
  "alloc_env \<Rightarrow> nat \<Rightarrow> 'a slabs_state_scheme \<Rightarrow> (bool \<times> 'a slabs_state_scheme) option" where
  "do_slabs_newslab env clsid s =
     (let len = page_len clsid s
      in if mem_limit s \<noteq> 0 \<and> mem_malloced s + len > mem_limit s \<and> sc_slabs (slabclass s clsid) > 0
         then Some (False, s)
         else case grow_slab_list (realloc_ok env) clsid s of
           (False, s1) \<Rightarrow> Some (False, s1)
         | (True, s1) \<Rightarrow>
             (case memory_allocate (malloc_page env) len s1 of (p, s2) \<Rightarrow>
                if p = NULL then Some (False, s2)
                else do {
                  s3 \<leftarrow> split_slab_page_into_freelist p clsid (zero_mem p (unat len) s2);
                  let s4 = upd_class clsid (\<lambda>c. c\<lparr>
                        sc_slab_list := (sc_slab_list c)(unat (sc_slabs c) := p),
                        sc_slabs := sc_slabs c + 1\<rparr>) s3;
                  Some (True, s4\<lparr>mem_malloced := mem_malloced s4 + len\<rparr>)
                }))"

definition do_slabs_alloc ::
  "alloc_env \<Rightarrow> u64 \<Rightarrow> nat \<Rightarrow> 'a slabs_state_scheme \<Rightarrow> (ptr \<times> 'a slabs_state_scheme) option" where
  "do_slabs_alloc env sz clsid s =
     (if clsid < POWER_SMALLEST \<or> clsid > power_largest s then Some (NULL, s)
      else do {
        c_assert (sc_sl_curr (slabclass s clsid) = 0 \<or>
                  it_slabs_clsid (heap s (sc_slots (slabclass s clsid))) = 0);
        (avail, s1) \<leftarrow> (if sc_sl_curr (slabclass s clsid) \<noteq> 0 then Some (True, s)
                        else do_slabs_newslab env clsid s);
        if \<not> avail then Some (NULL, s1)
        else if sc_sl_curr (slabclass s1 clsid) \<noteq> 0
        then let it = sc_slots (slabclass s1 clsid);
                 s2 = upd_class clsid (\<lambda>c. c\<lparr>sc_slots := it_next (heap s1 it)\<rparr>) s1;
                 s3 = upd_item_if (it_next (heap s2 it)) (\<lambda>i. i\<lparr>it_prev := NULL\<rparr>) s2;
                 s4 = upd_class clsid (\<lambda>c. c\<lparr>sc_sl_curr := sc_sl_curr c - 1\<rparr>) s3
             in if it \<noteq> NULL
                then Some (it, upd_class clsid (\<lambda>c. c\<lparr>sc_requested := sc_requested c + sz\<rparr>) s4)
                else Some (NULL, s4)
        else Some (NULL, s1)
      })"

definition slabs_alloc ::
  "alloc_env \<Rightarrow> u64 \<Rightarrow> nat \<Rightarrow> 'a slabs_state_scheme \<Rightarrow> (ptr \<times> 'a slabs_state_scheme) option" where
  "slabs_alloc env sz clsid s = do {
     s1 \<leftarrow> slabs_lock_acquire s;
     (ret, s2) \<leftarrow> do_slabs_alloc env sz clsid s1;
     Some (ret, slabs_lock_release s2)
   }"

definition slabs_free ::
  "ptr \<Rightarrow> u64 \<Rightarrow> nat \<Rightarrow> 'a slabs_state_scheme \<Rightarrow> 'a slabs_state_scheme option" where
  "slabs_free p sz clsid s = do {
     s1 \<leftarrow> slabs_lock_acquire s;
     s2 \<leftarrow> do_slabs_free p sz clsid s1;
     Some (slabs_lock_release s2)
   }"

definition slabs_adjust_mem_requested ::
  "nat \<Rightarrow> u64 \<Rightarrow> u64 \<Rightarrow> 'a slabs_state_scheme \<Rightarrow> 'a slabs_state_scheme option" where
  "slabs_adjust_mem_requested clsid old ntotal s = do {
     s1 \<leftarrow> slabs_lock_acquire s;
     if clsid < POWER_SMALLEST \<or> clsid > power_largest s1 then None
     else Some (slabs_lock_release
            (upd_class clsid (\<lambda>c. c\<lparr>sc_requested := sc_requested c - old + ntotal\<rparr>) s1))
   }"

section \<open>Start-up\<close>

text \<open>\<open>for (i = POWER_SMALLEST; i <= POWER_LARGEST; i++)\<close> with \<open>prealloc = i - 1\<close> at the test.\<close>

function slabs_preallocate_loop ::
  "(nat \<Rightarrow> alloc_env) \<Rightarrow> nat \<Rightarrow> nat \<Rightarrow> nat \<Rightarrow> 'a slabs_state_scheme \<Rightarrow> 'a slabs_state_scheme option" where
  "slabs_preallocate_loop envs maxslabs i prealloc s =
     (if i \<le> POWER_LARGEST
      then if prealloc + 1 > maxslabs then Some s
           else do {
             (ok, s1) \<leftarrow> do_slabs_newslab (envs i) i s;
             if \<not> ok then None
             else slabs_preallocate_loop envs maxslabs (i + 1) (prealloc + 1) s1
           }
      else Some s)"
  by pat_completeness auto
termination by (relation "measure (\<lambda>(_, _, i, _, _). Suc POWER_LARGEST - i)") auto

definition slabs_preallocate ::
  "(nat \<Rightarrow> alloc_env) \<Rightarrow> nat \<Rightarrow> 'a slabs_state_scheme \<Rightarrow> 'a slabs_state_scheme option" where
  "slabs_preallocate envs maxslabs s = slabs_preallocate_loop envs maxslabs POWER_SMALLEST 0 s"

text \<open>\<open>base\<close> is what \<open>malloc(mem_limit)\<close> returns; \<open>initial_malloc\<close> is the test suite's
  environment variable.\<close>

definition slabs_init ::
  "u64 \<Rightarrow> rat \<Rightarrow> bool \<Rightarrow> ptr \<Rightarrow> u64 option \<Rightarrow> (nat \<Rightarrow> alloc_env) \<Rightarrow>
   'a slabs_state_scheme \<Rightarrow> 'a slabs_state_scheme option" where
  "slabs_init limit factor prealloc base initial_malloc envs s =
     (let sz = ucast sizeof_item + of_nat (chunk_size (settings s));
          s1 = s\<lparr>mem_limit := limit\<rparr>;
          s2 = (if prealloc
                then if base \<noteq> NULL
                     then s1\<lparr>mem_base := base, mem_current := base, mem_avail := limit\<rparr>
                     else s1\<lparr>mem_base := NULL\<rparr>
                else s1);
          s3 = s2\<lparr>slabclass := (\<lambda>_. zero_class)\<rparr>
      in case slabs_init_loop factor (POWER_SMALLEST - 1) sz s3 of
           (i, s4) \<Rightarrow>
             let s5 = s4\<lparr>power_largest := i\<rparr>;
                 s6 = upd_class i (\<lambda>c. c\<lparr>sc_size := of_nat (item_size_max (settings s5)),
                                        sc_perslab := 1\<rparr>) s5;
                 s7 = (case initial_malloc of None \<Rightarrow> s6 | Some v \<Rightarrow> s6\<lparr>mem_malloced := v\<rparr>)
             in if prealloc then slabs_preallocate envs (power_largest s7) s7 else Some s7)"

section \<open>Requests to the rebalancer\<close>

text \<open>The array \<open>slabclass\<close> is only accessed inside its bounds.\<close>

definition class_index :: "int \<Rightarrow> nat option" where
  "class_index i = (if 0 \<le> i \<and> i < int MAX_NUMBER_OF_SLAB_CLASSES then Some (nat i) else None)"

fun pick_any_loop :: "nat \<Rightarrow> int \<Rightarrow> 'a slabs_state_scheme \<Rightarrow> int \<times> 'a slabs_state_scheme" where
  "pick_any_loop 0 dst s = (-1, s)"
| "pick_any_loop (Suc tries) dst s =
     (let cur0 = pick_any_cur s + 1;
          cur = (if cur0 > power_largest s then POWER_SMALLEST else cur0);
          s' = s\<lparr>pick_any_cur := cur\<rparr>
      in if int cur = dst then pick_any_loop tries dst s'
         else if sc_slabs (slabclass s' cur) > 1 then (int cur, s')
         else pick_any_loop tries dst s')"

definition slabs_reassign_pick_any ::
  "int \<Rightarrow> 'a slabs_state_scheme \<Rightarrow> int \<times> 'a slabs_state_scheme" where
  "slabs_reassign_pick_any dst s = pick_any_loop (power_largest s - POWER_SMALLEST + 1) dst s"

definition do_slabs_reassign ::
  "int \<Rightarrow> int \<Rightarrow> 'a slabs_state_scheme \<Rightarrow> reassign_result_type \<times> 'a slabs_state_scheme" where
  "do_slabs_reassign src dst s =
     (if slab_rebalance_signal s \<noteq> 0 then (REASSIGN_RUNNING, s)
      else if src = dst then (REASSIGN_SRC_DST_SAME, s)
      else case (if src = -1 then slabs_reassign_pick_any dst s else (src, s)) of
        (src', s1) \<Rightarrow>
          if src' < int POWER_SMALLEST \<or> src' > int (power_largest s1) \<or>
             dst < int POWER_SMALLEST \<or> dst > int (power_largest s1) then (REASSIGN_BADCLASS, s1)
          else if sc_slabs (slabclass s1 (nat src')) < 2 then (REASSIGN_NOSPARE, s1)
          else (REASSIGN_OK,
                s1\<lparr>slab_rebal := (slab_rebal s1)\<lparr>s_clsid := src', d_clsid := dst\<rparr>,
                   slab_rebalance_signal := 1\<rparr>))"

definition slabs_reassign ::
  "int \<Rightarrow> int \<Rightarrow> 'a slabs_state_scheme \<Rightarrow> reassign_result_type \<times> 'a slabs_state_scheme" where
  "slabs_reassign src dst s =
     (if slabs_rebalance_lock s then (REASSIGN_RUNNING, s)
      else let (ret, s1) = do_slabs_reassign src dst (s\<lparr>slabs_rebalance_lock := True\<rparr>)
           in (ret, s1\<lparr>slabs_rebalance_lock := False\<rparr>))"

definition slab_rebalance_start ::
  "bool \<Rightarrow> 'a slabs_state_scheme \<Rightarrow> (int \<times> 'a slabs_state_scheme) option" where
  "slab_rebalance_start ok s = do {
     s1 \<leftarrow> cache_lock_acquire s;
     s2 \<leftarrow> slabs_lock_acquire s1;
     let r = slab_rebal s2;
     let no_go0 = (if s_clsid r < int POWER_SMALLEST \<or> s_clsid r > int (power_largest s2) \<or>
                      d_clsid r < int POWER_SMALLEST \<or> d_clsid r > int (power_largest s2) \<or>
                      s_clsid r = d_clsid r then - 2 else 0 :: int);
     src \<leftarrow> class_index (s_clsid r);
     dst \<leftarrow> class_index (d_clsid r);
     let (grown, s3) = grow_slab_list ok dst s2;
     let no_go1 = (if \<not> grown then - 1 else no_go0);
     let no_go = (if sc_slabs (slabclass s3 src) < 2 then - 3 else no_go1);
     if no_go \<noteq> 0 then Some (no_go, cache_lock_release (slabs_lock_release s3))
     else
       let s4 = upd_class src (\<lambda>c. c\<lparr>sc_killing := 1\<rparr>) s3;
           c = slabclass s4 src;
           start = sc_slab_list c (unat (sc_killing c - 1));
           s5 = s4\<lparr>slab_rebal := r\<lparr>slab_start := start,
                      slab_end := start + unat (sc_size c * sc_perslab c),
                      slab_pos := start, rebal_done := 0\<rparr>,
                   slab_rebalance_signal := 2\<rparr>;
           s6 = cache_lock_release (slabs_lock_release s5)
       in Some (0, s6\<lparr>stats := (stats s6)\<lparr>slab_reassign_running := True\<rparr>\<rparr>)
   }"

text \<open>The array \<open>slab_list\<close> of a class has \<open>list_size\<close> entries; the index is an \<open>unsigned int\<close>.\<close>

definition slab_list_index :: "slabclass_t \<Rightarrow> u32 \<Rightarrow> nat option" where
  "slab_list_index c i = (if i < sc_list_size c then Some (unat i) else None)"

definition slab_rebalance_finish :: "'a slabs_state_scheme \<Rightarrow> 'a slabs_state_scheme option" where
  "slab_rebalance_finish s = do {
     s1 \<leftarrow> cache_lock_acquire s;
     s2 \<leftarrow> slabs_lock_acquire s1;
     src \<leftarrow> class_index (s_clsid (slab_rebal s2));
     dst \<leftarrow> class_index (d_clsid (slab_rebal s2));
     let start = slab_start (slab_rebal s2);
     last \<leftarrow> slab_list_index (slabclass s2 src) (sc_slabs (slabclass s2 src) - 1);
     killed \<leftarrow> slab_list_index (slabclass s2 src) (sc_killing (slabclass s2 src) - 1);
     let s3 = upd_class src (\<lambda>c. c\<lparr>
           sc_slab_list := (sc_slab_list c)(killed := sc_slab_list c last),
           sc_slabs := sc_slabs c - 1, sc_killing := 0\<rparr>) s2;
     let s4 = zero_mem start (item_size_max (settings s3)) s3;
     new \<leftarrow> slab_list_index (slabclass s4 dst) (sc_slabs (slabclass s4 dst));
     let s5 = upd_class dst (\<lambda>c. c\<lparr>
           sc_slab_list := (sc_slab_list c)(new := start),
           sc_slabs := sc_slabs c + 1\<rparr>) s4;
     s6 \<leftarrow> split_slab_page_into_freelist start dst s5;
     let s7 = s6\<lparr>slab_rebal := (slab_rebal s6)\<lparr>rebal_done := 0, s_clsid := 0, d_clsid := 0,
                     slab_start := NULL, slab_end := NULL, slab_pos := NULL\<rparr>,
                 slab_rebalance_signal := 0\<rparr>;
     let s8 = cache_lock_release (slabs_lock_release s7);
     Some (s8\<lparr>stats := (stats s8)\<lparr>slab_reassign_running := False,
                                   slabs_moved := slabs_moved (stats s8) + 1\<rparr>\<rparr>)
   }"

definition slabs_rebalancer_pause :: "'a mc_base_scheme \<Rightarrow> 'a mc_base_scheme option" where
  "slabs_rebalancer_pause s =
     (if slabs_rebalance_lock s then None else Some (s\<lparr>slabs_rebalance_lock := True\<rparr>))"

definition slabs_rebalancer_resume :: "'a mc_base_scheme \<Rightarrow> 'a mc_base_scheme" where
  "slabs_rebalancer_resume s = s\<lparr>slabs_rebalance_lock := False\<rparr>"

section \<open>Size classes\<close>

lemma slabs_clsid_loop_least:
  assumes "res \<le> power_largest s"
  shows "\<exists>r. slabs_clsid_loop sz res s = Some r \<and>
     (if \<exists>c. res \<le> c \<and> c \<le> power_largest s \<and> sz \<le> ucast (sc_size (slabclass s c))
      then res \<le> r \<and> r \<le> power_largest s \<and> sz \<le> ucast (sc_size (slabclass s r)) \<and>
           (\<forall>c. res \<le> c \<and> c < r \<longrightarrow> sz > ucast (sc_size (slabclass s c)))
      else r = 0)"
  using assms
proof (induction "power_largest s - res" arbitrary: res)
  case 0
  then have "res = power_largest s" by simp
  show ?case
  proof (cases "sz > ucast (sc_size (slabclass s res))")
    case True
    then have "slabs_clsid_loop sz res s = Some 0"
      using \<open>res = power_largest s\<close> by (simp add: slabs_clsid_loop.simps [of sz "power_largest s"])
    with True \<open>res = power_largest s\<close> show ?thesis by (auto dest: le_antisym)
  next
    case False
    then have "slabs_clsid_loop sz res s = Some res" by (simp add: slabs_clsid_loop.simps [of sz res])
    with False \<open>res = power_largest s\<close> show ?thesis by (auto simp: not_less)
  qed
next
  case (Suc n)
  show ?case
  proof (cases "sz > ucast (sc_size (slabclass s res))")
    case False
    then show ?thesis using Suc.prems by (auto simp: slabs_clsid_loop.simps [of sz res] not_less)
  next
    case True
    have up: "(res \<le> c \<and> c \<le> power_largest s \<and> sz \<le> ucast (sc_size (slabclass s c))) \<longleftrightarrow>
              (res + 1 \<le> c \<and> c \<le> power_largest s \<and> sz \<le> ucast (sc_size (slabclass s c)))" for c
      using True by (cases "c = res") auto
    from Suc have "n = power_largest s - (res + 1)" "res + 1 \<le> power_largest s" by auto
    from Suc.hyps(1) [OF this] obtain r where r: "slabs_clsid_loop sz (res + 1) s = Some r"
      "if \<exists>c. res + 1 \<le> c \<and> c \<le> power_largest s \<and> sz \<le> ucast (sc_size (slabclass s c))
      then res + 1 \<le> r \<and> r \<le> power_largest s \<and> sz \<le> ucast (sc_size (slabclass s r)) \<and>
           (\<forall>c. res + 1 \<le> c \<and> c < r \<longrightarrow> sz > ucast (sc_size (slabclass s c)))
      else r = 0" by blast
    have "slabs_clsid_loop sz res s = Some r"
      using True r(1) \<open>res + 1 \<le> power_largest s\<close> by (auto simp: slabs_clsid_loop.simps [of sz res])
    moreover have "(\<forall>c. res \<le> c \<and> c < r \<longrightarrow> sz > ucast (sc_size (slabclass s c)))"
      if "\<forall>c. res + 1 \<le> c \<and> c < r \<longrightarrow> sz > ucast (sc_size (slabclass s c))"
      using that True by (metis Suc_eq_plus1 Suc_leI le_neq_implies_less)
    ultimately show ?thesis using r(2) unfolding up by (auto split: if_splits)
  qed
qed

text \<open>The class found is the least that is large enough; 0 stands for none.\<close>

lemma slabs_clsid_spec:
  assumes "POWER_SMALLEST \<le> power_largest s"
  shows "slabs_clsid sz s = Some r \<longleftrightarrow>
     (if sz \<noteq> 0 \<and> (\<exists>c. POWER_SMALLEST \<le> c \<and> c \<le> power_largest s \<and> sz \<le> ucast (sc_size (slabclass s c)))
      then POWER_SMALLEST \<le> r \<and> r \<le> power_largest s \<and> sz \<le> ucast (sc_size (slabclass s r)) \<and>
           (\<forall>c. POWER_SMALLEST \<le> c \<and> c < r \<longrightarrow> sz > ucast (sc_size (slabclass s c)))
      else r = 0)" (is "_ \<longleftrightarrow> ?spec r")
proof -
  obtain r' where r': "slabs_clsid sz s = Some r'" "?spec r'"
    using slabs_clsid_loop_least [OF assms, of sz] by (cases "sz = 0") (auto simp: slabs_clsid_def)
  moreover have "r = r'" if "?spec r"
  proof (rule ccontr)
    assume "r \<noteq> r'"
    then consider "r < r'" | "r' < r" by linarith
    then show False using that r'(2) by cases (auto split: if_splits)
  qed
  ultimately show ?thesis by (metis option.inject)
qed

lemma upd_class_simps [simp]:
  "slabclass (upd_class c f s) = (slabclass s)(c := f (slabclass s c))"
  "heap (upd_class c f s) = heap s" "settings (upd_class c f s) = settings s"
  "stats (upd_class c f s) = stats s" "current_time (upd_class c f s) = current_time s"
  "hash_fn (upd_class c f s) = hash_fn s" "cache_lock (upd_class c f s) = cache_lock s"
  "slabs_lock (upd_class c f s) = slabs_lock s" "item_locks (upd_class c f s) = item_locks s"
  "slabs_rebalance_lock (upd_class c f s) = slabs_rebalance_lock s"
  "item_lock_hashpower (upd_class c f s) = item_lock_hashpower s"
  "item_global_lock (upd_class c f s) = item_global_lock s"
  "item_lock_type (upd_class c f s) = item_lock_type s"
  "hashpower (upd_class c f s) = hashpower s" "hash_items (upd_class c f s) = hash_items s"
  "primary_hashtable (upd_class c f s) = primary_hashtable s"
  "old_hashtable (upd_class c f s) = old_hashtable s"
  "expanding (upd_class c f s) = expanding s" "expand_bucket (upd_class c f s) = expand_bucket s"
  "mem_limit (upd_class c f s) = mem_limit s" "mem_malloced (upd_class c f s) = mem_malloced s"
  "power_largest (upd_class c f s) = power_largest s" "mem_base (upd_class c f s) = mem_base s"
  "mem_current (upd_class c f s) = mem_current s" "mem_avail (upd_class c f s) = mem_avail s"
  "slab_rebal (upd_class c f s) = slab_rebal s" "pick_any_cur (upd_class c f s) = pick_any_cur s"
  "slab_rebalance_signal (upd_class c f s) = slab_rebalance_signal s"
  "slabs_state.more (upd_class c f s) = slabs_state.more s"
  by (simp_all add: upd_class_def)

lemma upd_item_slabs [simp]:
  "slabclass (upd_item p f s) = slabclass s" "mem_limit (upd_item p f s) = mem_limit s"
  "mem_malloced (upd_item p f s) = mem_malloced s" "power_largest (upd_item p f s) = power_largest s"
  "mem_base (upd_item p f s) = mem_base s" "mem_current (upd_item p f s) = mem_current s"
  "mem_avail (upd_item p f s) = mem_avail s" "slab_rebal (upd_item p f s) = slab_rebal s"
  "slab_rebalance_signal (upd_item p f s) = slab_rebalance_signal s"
  "pick_any_cur (upd_item p f s) = pick_any_cur s"
  "slabs_state.more (upd_item p f s) = slabs_state.more s"
  by (simp_all add: upd_item_def)

lemma upd_item_if_table [simp]:
  "hashpower (upd_item_if p f s) = hashpower s" "hash_items (upd_item_if p f s) = hash_items s"
  "expanding (upd_item_if p f s) = expanding s" "expand_bucket (upd_item_if p f s) = expand_bucket s"
  "primary_hashtable (upd_item_if p f s) = primary_hashtable s"
  "old_hashtable (upd_item_if p f s) = old_hashtable s"
  by (simp_all add: upd_item_if_def)

lemma upd_item_if_slabs [simp]:
  "slabclass (upd_item_if p f s) = slabclass s" "mem_limit (upd_item_if p f s) = mem_limit s"
  "mem_malloced (upd_item_if p f s) = mem_malloced s" "power_largest (upd_item_if p f s) = power_largest s"
  "mem_base (upd_item_if p f s) = mem_base s" "mem_current (upd_item_if p f s) = mem_current s"
  "mem_avail (upd_item_if p f s) = mem_avail s" "slab_rebal (upd_item_if p f s) = slab_rebal s"
  "slab_rebalance_signal (upd_item_if p f s) = slab_rebalance_signal s"
  "pick_any_cur (upd_item_if p f s) = pick_any_cur s"
  "slabs_state.more (upd_item_if p f s) = slabs_state.more s"
  by (simp_all add: upd_item_if_def)

section \<open>Free lists\<close>

abbreviation nxt :: "('a mc_base_scheme) \<Rightarrow> ptr \<Rightarrow> ptr" where
  "nxt s \<equiv> \<lambda>p. it_next (heap s p)"

abbreviation prv :: "('a mc_base_scheme) \<Rightarrow> ptr \<Rightarrow> ptr" where
  "prv s \<equiv> \<lambda>p. it_prev (heap s p)"

definition classes :: "'a slabs_state_scheme \<Rightarrow> nat set" where
  "classes s = {POWER_SMALLEST .. power_largest s}"

text \<open>A chunk that \<open>do_slabs_free\<close> accepts, and one on a free list.\<close>

definition chunk_free :: "item \<Rightarrow> bool" where
  "chunk_free i \<longleftrightarrow> it_slabs_clsid i = 0 \<and> is_slabbed i"

text \<open>\<open>freelist h c xs\<close>: the free list of class \<open>c\<close> consists of the chunks \<open>xs\<close>.\<close>

definition freelist :: "(ptr \<Rightarrow> item) \<Rightarrow> slabclass_t \<Rightarrow> ptr list \<Rightarrow> bool" where
  "freelist h c xs \<longleftrightarrow>
     (\<exists>l. dll (\<lambda>p. it_next (h p)) (\<lambda>p. it_prev (h p)) (sc_slots c) xs l) \<and>
     sc_sl_curr c = of_nat (length xs) \<and> length xs < 2 ^ 32 \<and> (\<forall>p\<in>set xs. chunk_free (h p))"

definition freelists :: "'a slabs_state_scheme \<Rightarrow> (nat \<Rightarrow> ptr list) \<Rightarrow> bool" where
  "freelists s F \<longleftrightarrow>
     (\<forall>c\<in>classes s. freelist (heap s) (slabclass s c) (F c)) \<and>
     (\<forall>c\<in>classes s. \<forall>d\<in>classes s. c \<noteq> d \<longrightarrow> set (F c) \<inter> set (F d) = {})"

lemma freelist_cong:
  assumes "\<And>p. p \<in> set xs \<Longrightarrow> it_next (h' p) = it_next (h p) \<and> it_prev (h' p) = it_prev (h p) \<and>
             chunk_free (h' p) = chunk_free (h p)"
    and "sc_slots c' = sc_slots c" "sc_sl_curr c' = sc_sl_curr c"
  shows "freelist h' c' xs = freelist h c xs"
proof -
  have "dll (\<lambda>p. it_next (h' p)) (\<lambda>p. it_prev (h' p)) (sc_slots c) xs l =
        dll (\<lambda>p. it_next (h p)) (\<lambda>p. it_prev (h p)) (sc_slots c) xs l" for l
    using assms(1) by (intro dseg_cong) auto
  then show ?thesis using assms by (auto simp: freelist_def)
qed

lemma freelist_sl_curr_0: "freelist h c xs \<Longrightarrow> sc_sl_curr c = 0 \<longleftrightarrow> xs = []"
  by (auto simp: freelist_def word_unat_eq_iff unat_of_nat)

lemma freelist_NULL: "freelist h c xs \<Longrightarrow> NULL \<notin> set xs"
  by (auto simp: freelist_def dest: dll_NULL_notin)

lemma freelist_distinct: "freelist h c xs \<Longrightarrow> distinct xs"
  by (auto simp: freelist_def dest: dll_distinct)

lemma freelist_push:
  assumes f: "freelist h c xs" and x: "x \<notin> set xs" "x \<noteq> NULL" "it_slabs_clsid (h x) = 0"
    and len: "Suc (length xs) < 2 ^ 32"
    and h1: "h1 = h(x := (h x)\<lparr>it_flags := it_flags (h x) OR ITEM_SLABBED, it_prev := NULL, it_next := sc_slots c\<rparr>)"
    and h2: "h2 = (if sc_slots c \<noteq> NULL then h1(sc_slots c := (h1 (sc_slots c))\<lparr>it_prev := x\<rparr>) else h1)"
    and c': "sc_slots c' = x" "sc_sl_curr c' = sc_sl_curr c + 1"
  shows "freelist h2 c' (x # xs)"
proof -
  from f obtain l where d: "dll (\<lambda>p. it_next (h p)) (\<lambda>p. it_prev (h p)) (sc_slots c) xs l"
    and cf: "\<forall>p\<in>set xs. chunk_free (h p)" and n: "sc_sl_curr c = of_nat (length xs)" by (auto simp: freelist_def)
  have hd: "sc_slots c \<noteq> NULL \<Longrightarrow> sc_slots c \<in> set xs"
    using d by (metis dll_head_NULL dseg_first hd_in_set)
  have "dll (\<lambda>p. it_next (h2 p)) (\<lambda>p. it_prev (h2 p)) x (x # xs) (if l = NULL then x else l)"
  proof -
    have "(\<lambda>p. it_next (h2 p)) = (\<lambda>p. it_next (h p))(x := sc_slots c)"
      "(\<lambda>p. it_prev (h2 p)) = (if sc_slots c = NULL then (\<lambda>p. it_prev (h p))(x := NULL)
          else (\<lambda>p. it_prev (h p))(x := NULL, sc_slots c := x))"
      using hd x by (auto simp: h2 h1 fun_eq_iff)
    with dll_push [OF d x(1,2)] show ?thesis by simp
  qed
  moreover have "chunk_free (h2 p)" if "p \<in> set (x # xs)" for p
    using that cf x(3) hd x(1) by (auto simp: h2 h1 chunk_free_def flag_bits bit_or_iff)
  ultimately show ?thesis using c' n len by (auto simp: freelist_def)
qed

lemma freelist_pop:
  assumes f: "freelist h c (x # xs)"
    and h': "h' = (if it_next (h x) \<noteq> NULL then h(it_next (h x) := (h (it_next (h x)))\<lparr>it_prev := NULL\<rparr>) else h)"
    and c': "sc_slots c' = it_next (h x)" "sc_sl_curr c' = sc_sl_curr c - 1"
  shows "freelist h' c' xs"
proof -
  from f obtain l where d: "dll (\<lambda>p. it_next (h p)) (\<lambda>p. it_prev (h p)) (sc_slots c) ([] @ x # xs) l"
    and cf: "\<forall>p\<in>set (x # xs). chunk_free (h p)" and n: "sc_sl_curr c = of_nat (length (x # xs))"
    and len: "length (x # xs) < 2 ^ 32" by (auto simp: freelist_def)
  have px: "it_prev (h x) = NULL" "sc_slots c = x" using d by auto
  have pv: "(\<lambda>p. it_prev (h' p)) = (if it_next (h x) = NULL then (\<lambda>p. it_prev (h p))
        else (\<lambda>p. it_prev (h p))(it_next (h x) := NULL))"
    and nx: "(\<lambda>p. it_next (h' p)) = (\<lambda>p. it_next (h p))"
    by (auto simp: h')
  have "dll (\<lambda>p. it_next (h' p)) (\<lambda>p. it_prev (h' p)) (sc_slots c') xs (if l = x then NULL else l)"
    using dll_remove [OF d] unfolding pv nx c' px by simp
  moreover have "chunk_free (h' p)" if "p \<in> set xs" for p
    using that cf by (auto simp: h' chunk_free_def flag_bits)
  ultimately show ?thesis using c' n len by (auto simp: freelist_def)
qed


subsection \<open>Freeing and allocating a chunk\<close>

lemma freelistsD:
  assumes "freelists s F" "c \<in> classes s"
  shows "freelist (heap s) (slabclass s c) (F c)"
    and "d \<in> classes s \<Longrightarrow> c \<noteq> d \<Longrightarrow> set (F c) \<inter> set (F d) = {}"
  using assms unfolding freelists_def by blast+

lemma do_slabs_free_Some:
  assumes "it_slabs_clsid (heap s p) = 0" "c \<in> classes s" "sc_slots (slabclass s c) \<noteq> p"
  shows "\<exists>s'. do_slabs_free p sz c s = Some s' \<and>
    s' = s\<lparr>heap := (let h1 = (heap s)(p := (heap s p)\<lparr>it_flags := it_flags (heap s p) OR ITEM_SLABBED,
                           it_prev := NULL, it_next := sc_slots (slabclass s c)\<rparr>)
                    in if sc_slots (slabclass s c) \<noteq> NULL
                       then h1(sc_slots (slabclass s c) := (h1 (sc_slots (slabclass s c)))\<lparr>it_prev := p\<rparr>)
                       else h1),
          slabclass := (slabclass s)(c := (slabclass s c)\<lparr>sc_slots := p,
             sc_sl_curr := sc_sl_curr (slabclass s c) + 1,
             sc_requested := sc_requested (slabclass s c) - sz\<rparr>)\<rparr>"
  using assms
  by (simp add: do_slabs_free_def classes_def upd_class_def upd_item_def upd_item_if_def Let_def
      fun_upd_twist cong: if_cong)

theorem do_slabs_free_freelists:
  assumes f: "freelists s F" and c: "c \<in> classes s" and p: "it_slabs_clsid (heap s p) = 0" "p \<noteq> NULL"
    and new: "\<forall>d\<in>classes s. p \<notin> set (F d)" and len: "Suc (length (F c)) < 2 ^ 32"
  shows "\<exists>s'. do_slabs_free p sz c s = Some s' \<and> freelists s' (F(c := p # F c)) \<and>
           (\<exists>h cl. s' = s\<lparr>heap := h, slabclass := cl\<rparr> \<and>
              (\<forall>q. q \<noteq> p \<longrightarrow> (\<forall>d\<in>classes s. q \<notin> set (F d)) \<longrightarrow> h q = heap s q) \<and>
              cl = (slabclass s)(c := (slabclass s c)\<lparr>sc_slots := p,
                 sc_sl_curr := sc_sl_curr (slabclass s c) + 1,
                 sc_requested := sc_requested (slabclass s c) - sz\<rparr>))"
proof -
  note fc = freelistsD(1) [OF f c]
  let ?sl = "sc_slots (slabclass s c)"
  have sl: "?sl \<noteq> NULL \<Longrightarrow> ?sl \<in> set (F c)"
    using fc by (metis freelist_def dll_head_NULL dseg_first hd_in_set)
  have "?sl \<noteq> p" using sl new c p(2) by metis
  from do_slabs_free_Some [OF p(1) c this] obtain s' h1 where s': "do_slabs_free p sz c s = Some s'"
    and h1: "h1 = (heap s)(p := (heap s p)\<lparr>it_flags := it_flags (heap s p) OR ITEM_SLABBED,
                           it_prev := NULL, it_next := ?sl\<rparr>)"
    and e: "s' = s\<lparr>heap := (if ?sl \<noteq> NULL then h1(?sl := (h1 ?sl)\<lparr>it_prev := p\<rparr>) else h1),
          slabclass := (slabclass s)(c := (slabclass s c)\<lparr>sc_slots := p,
             sc_sl_curr := sc_sl_curr (slabclass s c) + 1,
             sc_requested := sc_requested (slabclass s c) - sz\<rparr>)\<rparr>"
    by (auto simp: Let_def)
  have h: "heap s' = (if ?sl \<noteq> NULL then h1(?sl := (h1 ?sl)\<lparr>it_prev := p\<rparr>) else h1)"
    and cl: "classes s' = classes s" by (simp_all add: e classes_def)
  have "freelist (heap s') (slabclass s' d) ((F(c := p # F c)) d)" if d: "d \<in> classes s" for d
  proof (cases "d = c")
    case True
    then show ?thesis
      using freelist_push [OF fc _ p(2) p(1) len h1 h, of "slabclass s' c"] new c by (simp add: e)
  next
    case False
    have "set (F c) \<inter> set (F d) = {}" using freelistsD(2) [OF f c d] False by blast
    with new d sl have "q \<in> set (F d) \<Longrightarrow> heap s' q = heap s q" for q
      unfolding h h1 by (auto split: if_splits)
    then show ?thesis using freelistsD(1) [OF f d] False
      by (subst freelist_cong [where h = "heap s" and c = "slabclass s d"]) (auto simp: e)
  qed
  moreover have "set ((F(c := p # F c)) a) \<inter> set ((F(c := p # F c)) d) = {}"
    if "a \<in> classes s" "d \<in> classes s" "a \<noteq> d" for a d
    using that new freelistsD(2) [OF f that(1,2)] by auto
  ultimately have "freelists s' (F(c := p # F c))" unfolding freelists_def cl by blast
  moreover have "\<forall>q. q \<noteq> p \<longrightarrow> (\<forall>d\<in>classes s. q \<notin> set (F d)) \<longrightarrow> heap s' q = heap s q"
    using sl c unfolding h h1 by auto
  ultimately show ?thesis using s' e h by (intro exI [of _ s']) auto
qed

text \<open>With a chunk on the free list, allocation takes the first one, whatever the system calls
  would return, and counts the requested bytes.\<close>

theorem do_slabs_alloc_freelists:
  assumes f: "freelists s F" and c: "c \<in> classes s" and F: "F c = p # ps"
  shows "\<exists>s'. do_slabs_alloc env sz c s = Some (p, s') \<and> freelists s' (F(c := ps)) \<and>
           (\<exists>h cl. s' = s\<lparr>heap := h, slabclass := cl\<rparr> \<and> h p = heap s p \<and>
              (\<forall>q. (\<forall>d\<in>classes s. q \<notin> set (F d)) \<longrightarrow> h q = heap s q) \<and>
              cl = (slabclass s)(c := (slabclass s c)\<lparr>sc_slots := it_next (heap s p),
                 sc_sl_curr := sc_sl_curr (slabclass s c) - 1,
                 sc_requested := sc_requested (slabclass s c) + sz\<rparr>))"
proof -
  note fc = freelistsD(1) [OF f c]
  from fc F have p: "sc_slots (slabclass s c) = p" "p \<noteq> NULL" "chunk_free (heap s p)"
    by (auto simp: freelist_def)
  let ?n = "it_next (heap s p)"
  have n: "?n \<noteq> NULL \<Longrightarrow> ?n \<in> set ps"
    using fc F by (cases ps) (auto simp: freelist_def)
  have pps: "p \<notin> set ps" using freelist_distinct [OF fc] F by simp
  define h where "h = (if ?n \<noteq> NULL then (heap s)(?n := (heap s ?n)\<lparr>it_prev := NULL\<rparr>) else heap s)"
  define s' where "s' = s\<lparr>heap := h,
     slabclass := (slabclass s)(c := (slabclass s c)\<lparr>sc_slots := ?n,
                 sc_sl_curr := sc_sl_curr (slabclass s c) - 1,
                 sc_requested := sc_requested (slabclass s c) + sz\<rparr>)\<rparr>"
  have nz: "sc_sl_curr (slabclass s c) \<noteq> 0" using freelist_sl_curr_0 [OF fc] F by simp
  have al: "do_slabs_alloc env sz c s = Some (p, s')"
    using c nz p by (simp add: do_slabs_alloc_def classes_def chunk_free_def not_less Let_def s'_def h_def
        upd_class_def upd_item_def upd_item_if_def cong: if_cong)
  have cl: "classes s' = classes s" by (simp add: s'_def classes_def)
  have "freelist (heap s') (slabclass s' d) ((F(c := ps)) d)" if d: "d \<in> classes s" for d
  proof (cases "d = c")
    case True
    then show ?thesis
      using freelist_pop [OF fc [unfolded F] h_def, of "slabclass s' c"] by (simp add: s'_def)
  next
    case False
    have "set (F c) \<inter> set (F d) = {}" using freelistsD(2) [OF f c d] False by blast
    with n F have "q \<in> set (F d) \<Longrightarrow> heap s' q = heap s q" for q
      by (auto simp: s'_def h_def split: if_splits)
    then show ?thesis using freelistsD(1) [OF f d] False
      by (subst freelist_cong [where h = "heap s" and c = "slabclass s d"]) (auto simp: s'_def)
  qed
  moreover have "set ((F(c := ps)) a) \<inter> set ((F(c := ps)) d) = {}"
    if "a \<in> classes s" "d \<in> classes s" "a \<noteq> d" for a d
    using that F freelistsD(2) [OF f that(1,2)] by auto
  ultimately have "freelists s' (F(c := ps))" unfolding freelists_def cl by blast
  moreover have "h p = heap s p" using n pps by (auto simp: h_def)
  moreover have "\<forall>q. (\<forall>d\<in>classes s. q \<notin> set (F d)) \<longrightarrow> h q = heap s q"
    using n c F by (auto simp: h_def)
  ultimately show ?thesis using al s'_def by (intro exI [of _ s']) auto
qed

subsection \<open>Splitting a page\<close>

text \<open>The chunks of a page of \<open>n\<close> chunks of \<open>sz\<close> bytes, in address order.\<close>

definition chunks :: "ptr \<Rightarrow> nat \<Rightarrow> nat \<Rightarrow> ptr list" where
  "chunks p sz n = map (\<lambda>k. p + k * sz) [0..<n]"

lemma chunks_Suc: "chunks p sz (Suc n) = p # chunks (p + sz) sz n"
  unfolding chunks_def by (subst upt_conv_Cons) (auto simp: map_Suc_upt [symmetric] simp del: upt_Suc)

lemma chunks_0 [simp]: "chunks p sz 0 = []"
  by (simp add: chunks_def)

lemma length_chunks [simp]: "length (chunks p sz n) = n"
  by (simp add: chunks_def)

lemma chunks_mem: "q \<in> set (chunks p sz n) \<longleftrightarrow> (\<exists>k<n. q = p + k * sz)"
  by (auto simp: chunks_def)

lemma chunks_bounds:
  assumes "q \<in> set (chunks p sz n)" "n * sz \<le> len"
  shows "p \<le> q" "q + sz \<le> p + len"
proof -
  from assms obtain k where k: "k < n" "q = p + k * sz" by (auto simp: chunks_mem)
  then show "p \<le> q" by simp
  have "(k + 1) * sz \<le> n * sz" using k by (intro mult_right_mono) auto
  with k assms show "q + sz \<le> p + len" by simp
qed

lemma chunks_distinct: "0 < sz \<Longrightarrow> distinct (chunks p sz n)"
  by (auto simp: chunks_def distinct_map inj_on_def)

lemma split_loop_freelists:
  assumes "freelists s F" "c \<in> classes s" "p \<noteq> NULL" "0 < sc_size (slabclass s c)"
    and "\<forall>q\<in>set (chunks p (unat (sc_size (slabclass s c))) n). it_slabs_clsid (heap s q) = 0 \<and>
           (\<forall>d\<in>classes s. q \<notin> set (F d))"
    and "n + length (F c) < 2 ^ 32"
  shows "\<exists>s'. split_loop n p c s = Some s' \<and>
    freelists s' (F(c := rev (chunks p (unat (sc_size (slabclass s c))) n) @ F c)) \<and>
    (\<exists>h cl. s' = s\<lparr>heap := h, slabclass := (slabclass s)(c := cl)\<rparr> \<and>
       (\<forall>q. q \<notin> set (chunks p (unat (sc_size (slabclass s c))) n) \<longrightarrow>
            (\<forall>d\<in>classes s. q \<notin> set (F d)) \<longrightarrow> h q = heap s q) \<and>
       (\<exists>sl. cl = (slabclass s c)\<lparr>sc_slots := sl, sc_sl_curr := of_nat (n + length (F c))\<rparr>))"
  using assms
proof (induction n arbitrary: s F p)
  case 0
  have "sc_sl_curr (slabclass s c) = of_nat (length (F c))"
    using freelistsD(1) [OF 0(1,2)] by (simp add: freelist_def)
  then have "s = s\<lparr>heap := heap s, slabclass := (slabclass s)(c := (slabclass s c)\<lparr>
       sc_slots := sc_slots (slabclass s c), sc_sl_curr := of_nat (0 + length (F c))\<rparr>)\<rparr>"
    by (simp flip: \<open>sc_sl_curr (slabclass s c) = of_nat (length (F c))\<close>)
  then have "\<exists>h cl. s = s\<lparr>heap := h, slabclass := (slabclass s)(c := cl)\<rparr> \<and>
      (\<forall>q. q \<notin> set (chunks p (unat (sc_size (slabclass s c))) 0) \<longrightarrow>
            (\<forall>d\<in>classes s. q \<notin> set (F d)) \<longrightarrow> h q = heap s q) \<and>
      (\<exists>sl. cl = (slabclass s c)\<lparr>sc_slots := sl, sc_sl_curr := of_nat (0 + length (F c))\<rparr>)"
    by (intro exI [of _ "heap s"] conjI exI [of _ "sc_slots (slabclass s c)"] exI; assumption?) simp_all
  moreover have "split_loop 0 p c s = Some s"
    "freelists s (F(c := rev (chunks p (unat (sc_size (slabclass s c))) 0) @ F c))"
    using 0(1) by simp_all
  ultimately show ?case by blast
next
  case (Suc n)
  let ?sz = "unat (sc_size (slabclass s c))"
  have sz: "0 < ?sz" using Suc.prems(4) by (simp add: unat_gt_0)
  have pin: "p \<in> set (chunks p ?sz (Suc n))" by (simp add: chunks_Suc)
  obtain s1 h cl where s1: "do_slabs_free p 0 c s = Some s1" "freelists s1 (F(c := p # F c))"
    "s1 = s\<lparr>heap := h, slabclass := cl\<rparr>"
    "\<forall>q. q \<noteq> p \<longrightarrow> (\<forall>d\<in>classes s. q \<notin> set (F d)) \<longrightarrow> h q = heap s q"
    "cl = (slabclass s)(c := (slabclass s c)\<lparr>sc_slots := p,
                 sc_sl_curr := sc_sl_curr (slabclass s c) + 1,
                 sc_requested := sc_requested (slabclass s c) - 0\<rparr>)"
    using do_slabs_free_freelists [OF Suc.prems(1,2), of p 0] Suc.prems(3,5,6) pin by auto
  have sz1: "sc_size (slabclass s1 c) = sc_size (slabclass s c)" "classes s1 = classes s"
    using s1(3,5) by (simp_all add: classes_def)
  have notp: "q \<noteq> p" if "q \<in> set (chunks (p + ?sz) ?sz n)" for q
    using that sz by (auto simp: chunks_mem)
  have rest: "\<forall>q\<in>set (chunks (p + ?sz) ?sz n). it_slabs_clsid (heap s1 q) = 0 \<and>
           (\<forall>d\<in>classes s1. q \<notin> set ((F(c := p # F c)) d))"
    using Suc.prems(5) s1(3,4) notp unfolding sz1 chunks_Suc by auto
  have "\<exists>s'. split_loop n (p + ?sz) c s1 = Some s' \<and>
    freelists s' ((F(c := p # F c))(c := rev (chunks (p + ?sz) ?sz n) @ (F(c := p # F c)) c)) \<and>
    (\<exists>h cl. s' = s1\<lparr>heap := h, slabclass := (slabclass s1)(c := cl)\<rparr> \<and>
       (\<forall>q. q \<notin> set (chunks (p + ?sz) ?sz n) \<longrightarrow>
            (\<forall>d\<in>classes s1. q \<notin> set ((F(c := p # F c)) d)) \<longrightarrow> h q = heap s1 q) \<and>
       (\<exists>sl. cl = (slabclass s1 c)\<lparr>sc_slots := sl, sc_sl_curr := of_nat (n + length ((F(c := p # F c)) c))\<rparr>))"
    by (rule Suc.IH [OF s1(2), of "p + ?sz", unfolded sz1(1)])
      (use Suc.prems(2,4,6) rest sz sz1(2) in \<open>simp_all\<close>)
  then obtain s' h' cl' sl where s': "split_loop n (p + ?sz) c s1 = Some s'"
    "freelists s' (F(c := rev (chunks p ?sz (Suc n)) @ F c))"
    "s' = s1\<lparr>heap := h', slabclass := (slabclass s1)(c := cl')\<rparr>"
    "\<forall>q. q \<notin> set (chunks (p + ?sz) ?sz n) \<longrightarrow>
            (\<forall>d\<in>classes s1. q \<notin> set ((F(c := p # F c)) d)) \<longrightarrow> h' q = heap s1 q"
    "cl' = (slabclass s1 c)\<lparr>sc_slots := sl, sc_sl_curr := of_nat (n + length ((F(c := p # F c)) c))\<rparr>"
    by (auto simp: chunks_Suc)
  have run: "split_loop (Suc n) p c s = Some s'" using s1(1) s'(1) by simp
  have e: "s' = s\<lparr>heap := h', slabclass := (slabclass s)(c := cl')\<rparr>"
    using s'(3) s1(3,5) by simp
  have cl: "cl' = (slabclass s c)\<lparr>sc_slots := sl, sc_sl_curr := of_nat (Suc n + length (F c))\<rparr>"
    using s'(5) s1(3,5) by simp
  have hq: "\<forall>q. q \<notin> set (chunks p ?sz (Suc n)) \<longrightarrow>
            (\<forall>d\<in>classes s. q \<notin> set (F d)) \<longrightarrow> h' q = heap s q"
    using s'(4) s1(3,4) sz1(2) unfolding chunks_Suc by auto
  show ?case using run s'(2) e cl hq by blast
qed

subsection \<open>A new page\<close>

text \<open>The page lies outside every free list.\<close>

definition page_fresh :: "'a slabs_state_scheme \<Rightarrow> (nat \<Rightarrow> ptr list) \<Rightarrow> ptr \<Rightarrow> nat \<Rightarrow> bool" where
  "page_fresh s F p len \<longleftrightarrow> p \<noteq> NULL \<and> (\<forall>c\<in>classes s. \<forall>q\<in>set (F c). q < p \<or> p + len \<le> q)"

text \<open>\<open>chunks_fit s c len\<close>: the chunks of a page of class \<open>c\<close> fit into \<open>len\<close> bytes.\<close>

definition chunks_fit :: "'a slabs_state_scheme \<Rightarrow> nat \<Rightarrow> nat \<Rightarrow> bool" where
  "chunks_fit s c len \<longleftrightarrow> 0 < sc_size (slabclass s c) \<and>
     unat (sc_perslab (slabclass s c)) * unat (sc_size (slabclass s c)) \<le> len"

abbreviation page_chunks :: "'a slabs_state_scheme \<Rightarrow> nat \<Rightarrow> ptr \<Rightarrow> ptr list" where
  "page_chunks s c p \<equiv>
     chunks p (unat (sc_size (slabclass s c))) (unat (sc_perslab (slabclass s c)))"

lemma split_page_freelists:
  assumes f: "freelists s F" and c: "c \<in> classes s" and p: "page_fresh s F p len"
    and fit: "chunks_fit s c len" and zero: "\<forall>q. p \<le> q \<and> q < p + len \<longrightarrow> it_slabs_clsid (heap s q) = 0"
    and room: "unat (sc_perslab (slabclass s c)) + length (F c) < 2 ^ 32"
  shows "\<exists>s' h sl. split_slab_page_into_freelist p c s = Some s' \<and>
    freelists s' (F(c := rev (page_chunks s c p) @ F c)) \<and>
    s' = s\<lparr>heap := h, slabclass := (slabclass s)(c := (slabclass s c)\<lparr>sc_slots := sl,
       sc_sl_curr := of_nat (unat (sc_perslab (slabclass s c)) + length (F c))\<rparr>)\<rparr> \<and>
    (\<forall>q. q < p \<or> p + len \<le> q \<longrightarrow> (\<forall>d\<in>classes s. q \<notin> set (F d)) \<longrightarrow> h q = heap s q)"
proof -
  let ?sz = "unat (sc_size (slabclass s c))" and ?n = "unat (sc_perslab (slabclass s c))"
  have sz: "0 < ?sz" and le: "?n * ?sz \<le> len" using fit by (simp_all add: chunks_fit_def word_less_nat_alt)
  have inp: "p \<le> q \<and> q < p + len" if "q \<in> set (chunks p ?sz ?n)" for q
    using chunks_bounds [OF that le] sz by simp
  have pre: "\<forall>q\<in>set (chunks p ?sz ?n). it_slabs_clsid (heap s q) = 0 \<and>
           (\<forall>d\<in>classes s. q \<notin> set (F d))"
  proof
    fix q assume q: "q \<in> set (chunks p ?sz ?n)"
    have "q \<notin> set (F d)" if "d \<in> classes s" for d
    proof
      assume "q \<in> set (F d)"
      with p that have "q < p \<or> p + len \<le> q" unfolding page_fresh_def by blast
      with inp [OF q] show False by linarith
    qed
    with inp [OF q] zero show "it_slabs_clsid (heap s q) = 0 \<and> (\<forall>d\<in>classes s. q \<notin> set (F d))"
      by blast
  qed
  from split_loop_freelists [OF f c _ _ pre room] p fit
  obtain s' h cl sl where s': "split_slab_page_into_freelist p c s = Some s'"
    "freelists s' (F(c := rev (chunks p ?sz ?n) @ F c))"
    "s' = s\<lparr>heap := h, slabclass := (slabclass s)(c := cl)\<rparr>"
    "\<forall>q. q \<notin> set (chunks p ?sz ?n) \<longrightarrow> (\<forall>d\<in>classes s. q \<notin> set (F d)) \<longrightarrow> h q = heap s q"
    "cl = (slabclass s c)\<lparr>sc_slots := sl, sc_sl_curr := of_nat (?n + length (F c))\<rparr>"
    unfolding split_slab_page_into_freelist_def page_fresh_def chunks_fit_def by blast
  have "\<forall>q. q < p \<or> p + len \<le> q \<longrightarrow> (\<forall>d\<in>classes s. q \<notin> set (F d)) \<longrightarrow> h q = heap s q"
    using s'(4) inp by (meson not_le)
  with s' show ?thesis by blast
qed

lemma zero_mem_simps [simp]:
  "heap (zero_mem p n s) q = (if p \<le> q \<and> q < p + n then zero_item else heap s q)"
  by (simp add: zero_mem_def)

lemma zero_mem_other [simp]:
  "slabclass (zero_mem p n s) = slabclass s" "power_largest (zero_mem p n s) = power_largest s"
  "classes (zero_mem p n s) = classes s" "settings (zero_mem p n s) = settings s"
  "mem_limit (zero_mem p n s) = mem_limit s" "mem_malloced (zero_mem p n s) = mem_malloced s"
  "slab_rebal (zero_mem p n s) = slab_rebal s" "stats (zero_mem p n s) = stats s"
  "cache_lock (zero_mem p n s) = cache_lock s" "slabs_lock (zero_mem p n s) = slabs_lock s"
  by (simp_all add: zero_mem_def classes_def)

lemma freelists_frame:
  assumes "freelists s F" and "power_largest s' = power_largest s"
    and "\<And>c q. c \<in> classes s \<Longrightarrow> q \<in> set (F c) \<Longrightarrow> it_next (heap s' q) = it_next (heap s q) \<and>
           it_prev (heap s' q) = it_prev (heap s q) \<and> chunk_free (heap s' q) = chunk_free (heap s q)"
    and "\<And>c. c \<in> classes s \<Longrightarrow> sc_slots (slabclass s' c) = sc_slots (slabclass s c) \<and>
                    sc_sl_curr (slabclass s' c) = sc_sl_curr (slabclass s c)"
  shows "freelists s' F"
proof -
  have cl: "classes s' = classes s" by (simp add: classes_def assms(2))
  have "freelist (heap s') (slabclass s' c) (F c)" if "c \<in> classes s" for c
    using freelistsD(1) [OF assms(1) that] assms(3,4) [OF that]
    by (subst freelist_cong [where h = "heap s" and c = "slabclass s c"]) auto
  with assms(1) show ?thesis unfolding freelists_def cl by blast
qed

lemma freelists_zero_mem:
  assumes "freelists s F" "page_fresh s F p n"
  shows "freelists (zero_mem p n s) F"
proof (rule freelists_frame [OF assms(1)])
  fix c q assume "c \<in> classes s" "q \<in> set (F c)"
  with assms(2) have "q < p \<or> p + n \<le> q" unfolding page_fresh_def by blast
  then have "heap (zero_mem p n s) q = heap s q" by auto
  then show "it_next (heap (zero_mem p n s) q) = it_next (heap s q) \<and>
           it_prev (heap (zero_mem p n s) q) = it_prev (heap s q) \<and>
           chunk_free (heap (zero_mem p n s) q) = chunk_free (heap s q)" by simp
qed simp_all

text \<open>What growing the slab list and taking the memory leave alone.\<close>

lemma grow_slab_list_frame:
  assumes "grow_slab_list ok c s = (b, s')"
  shows "\<exists>n. s' = upd_class c (\<lambda>p. p\<lparr>sc_list_size := n\<rparr>) s"
proof -
  have "s = upd_class c (\<lambda>p. p\<lparr>sc_list_size := sc_list_size (slabclass s c)\<rparr>) s"
    by (simp add: upd_class_def)
  with assms show ?thesis by (auto simp: grow_slab_list_def Let_def split: if_splits)
qed

lemma memory_allocate_frame:
  assumes "memory_allocate page n s = (p, s')"
  shows "\<exists>c a. s' = s\<lparr>mem_current := c, mem_avail := a\<rparr>"
proof -
  have "s = s\<lparr>mem_current := mem_current s, mem_avail := mem_avail s\<rparr>" by simp
  moreover from assms have "s' = s \<or> (\<exists>c a. s' = s\<lparr>mem_current := c, mem_avail := a\<rparr>)"
    by (simp add: memory_allocate_def Let_def split: if_splits) blast+
  ultimately show ?thesis by metis
qed

theorem do_slabs_newslab_freelists:
  assumes f: "freelists s F" and c: "c \<in> classes s"
    and lim: "mem_limit s = 0 \<or> mem_malloced s + page_len c s \<le> mem_limit s \<or> sc_slabs (slabclass s c) = 0"
    and grow: "fst (grow_slab_list (realloc_ok env) c s)"
    and p: "fst (memory_allocate (malloc_page env) (page_len c s) (snd (grow_slab_list (realloc_ok env) c s))) = p"
    and fresh: "page_fresh s F p (unat (page_len c s))"
    and fit: "chunks_fit s c (unat (page_len c s))"
    and room: "unat (sc_perslab (slabclass s c)) + length (F c) < 2 ^ 32"
  shows "\<exists>s'. do_slabs_newslab env c s = Some (True, s') \<and>
     freelists s' (F(c := rev (page_chunks s c p) @ F c)) \<and> classes s' = classes s \<and>
     sc_slabs (slabclass s' c) = sc_slabs (slabclass s c) + 1 \<and>
     sc_slab_list (slabclass s' c) (unat (sc_slabs (slabclass s c))) = p \<and>
     mem_malloced s' = mem_malloced s + page_len c s"
proof -
  obtain b s1 where g: "grow_slab_list (realloc_ok env) c s = (b, s1)" by force
  with grow have b: "b" by simp
  obtain n where s1: "s1 = upd_class c (\<lambda>p. p\<lparr>sc_list_size := n\<rparr>) s"
    using grow_slab_list_frame [OF g] by blast
  let ?len = "page_len c s"
  obtain s2 where m: "memory_allocate (malloc_page env) ?len s1 = (p, s2)"
    using p g by (cases "memory_allocate (malloc_page env) ?len s1") auto
  obtain mc ma where s2: "s2 = s1\<lparr>mem_current := mc, mem_avail := ma\<rparr>"
    using memory_allocate_frame [OF m] by blast
  have cl2: "classes s2 = classes s" by (simp add: s2 s1 classes_def)
  have f2: "freelists s2 F" by (rule freelists_frame [OF f]) (auto simp: s2 s1)
  have fresh2: "page_fresh s2 F p (unat ?len)" using fresh by (simp add: page_fresh_def cl2)
  let ?s3 = "zero_mem p (unat ?len) s2"
  have f3: "freelists ?s3 F" by (rule freelists_zero_mem [OF f2 fresh2])
  have sz3: "sc_size (slabclass ?s3 c) = sc_size (slabclass s c)"
    "sc_perslab (slabclass ?s3 c) = sc_perslab (slabclass s c)" "classes ?s3 = classes s"
    "sc_slabs (slabclass ?s3 c) = sc_slabs (slabclass s c)" "mem_malloced ?s3 = mem_malloced s"
    by (simp_all add: cl2) (simp_all add: s2 s1)
  have "page_fresh ?s3 F p (unat ?len)" "chunks_fit ?s3 c (unat ?len)"
    "\<forall>q. p \<le> q \<and> q < p + unat ?len \<longrightarrow> it_slabs_clsid (heap ?s3 q) = 0"
    "unat (sc_perslab (slabclass ?s3 c)) + length (F c) < 2 ^ 32" "c \<in> classes ?s3"
    using fresh fit room c sz3 by (simp_all add: page_fresh_def chunks_fit_def zero_item_def)
  from split_page_freelists [OF f3 this(5,1,2,3,4)] obtain s4 h sl where s4:
    "split_slab_page_into_freelist p c ?s3 = Some s4"
    "freelists s4 (F(c := rev (page_chunks ?s3 c p) @ F c))"
    "s4 = ?s3\<lparr>heap := h, slabclass := (slabclass ?s3)(c := (slabclass ?s3 c)\<lparr>sc_slots := sl,
       sc_sl_curr := of_nat (unat (sc_perslab (slabclass ?s3 c)) + length (F c))\<rparr>)\<rparr>" by blast
  define s' where "s' = (upd_class c (\<lambda>c. c\<lparr>
        sc_slab_list := (sc_slab_list c)(unat (sc_slabs c) := p), sc_slabs := sc_slabs c + 1\<rparr>) s4)
        \<lparr>mem_malloced := mem_malloced s4 + ?len\<rparr>"
  have "p \<noteq> NULL" using fresh by (simp add: page_fresh_def)
  then have run: "do_slabs_newslab env c s = Some (True, s')"
    using lim s4(1) by (auto simp: do_slabs_newslab_def g b m s'_def Let_def not_less)
  have "freelists s' (F(c := rev (page_chunks s c p) @ F c))"
    using s4(2) unfolding sz3 by (rule freelists_frame) (simp_all add: s'_def)
  moreover have "classes s' = classes s" using sz3(3) by (simp add: s'_def s4(3) classes_def)
  ultimately show ?thesis using run sz3 by (intro exI [of _ s']) (simp add: s'_def s4(3))
qed

text \<open>A page beyond the memory limit is refused to a class that has one already.\<close>

lemma do_slabs_newslab_limit:
  assumes "do_slabs_newslab env c s = Some (True, s')"
  shows "mem_limit s = 0 \<or> mem_malloced s + page_len c s \<le> mem_limit s \<or> sc_slabs (slabclass s c) = 0"
  using assms by (auto simp: do_slabs_newslab_def Let_def not_less split: if_splits)

text \<open>Allocation from a class without free chunks takes the last chunk of a new page.\<close>

theorem do_slabs_alloc_newslab:
  assumes f: "freelists s F" and c: "c \<in> classes s" and e: "F c = []"
    and ns: "do_slabs_newslab env c s = Some (True, s1)"
    and f1: "freelists s1 F1" "classes s1 = classes s" and F1: "F1 c = q # qs"
  shows "do_slabs_alloc env sz c s = do_slabs_alloc env sz c s1"
proof -
  have "sc_sl_curr (slabclass s c) = 0" using freelist_sl_curr_0 [OF freelistsD(1) [OF f c]] e by simp
  moreover from freelistsD(1) [OF f1(1)] c f1(2) F1
  have fl: "freelist (heap s1) (slabclass s1 c) (q # qs)" by metis
  moreover from fl have "chunk_free (heap s1 (sc_slots (slabclass s1 c)))" by (auto simp: freelist_def)
  moreover have "sc_sl_curr (slabclass s1 c) \<noteq> 0" using freelist_sl_curr_0 [OF fl] by simp
  moreover have "power_largest s1 = power_largest s"
    using c f1(2) by (simp add: classes_def)
  ultimately show ?thesis using c ns
    by (simp add: do_slabs_alloc_def classes_def not_less chunk_free_def c_assert_True_bind)
qed

lemma do_slabs_alloc_fails:
  assumes f: "freelists s F" and c: "c \<in> classes s" and e: "F c = []"
    and ns: "do_slabs_newslab env c s = Some (False, s1)"
  shows "do_slabs_alloc env sz c s = Some (NULL, s1)"
proof -
  have "sc_sl_curr (slabclass s c) = 0" using freelist_sl_curr_0 [OF freelistsD(1) [OF f c]] e by simp
  then show ?thesis using c ns by (simp add: do_slabs_alloc_def classes_def not_less c_assert_True_bind)
qed

section \<open>The preallocated region\<close>

text \<open>What \<open>memory_allocate\<close> keeps: what is left of the region \<open>[base, base + tot)\<close> lies
  between \<open>mem_current\<close> and its end.\<close>

definition region_ok :: "nat \<Rightarrow> 'a slabs_state_scheme \<Rightarrow> bool" where
  "region_ok tot s \<longleftrightarrow> mem_base s \<noteq> NULL \<and> mem_base s \<le> mem_current s \<and>
     (mem_avail s = 0 \<or> mem_current s + unat (mem_avail s) = mem_base s + tot)"

lemma align8_bounds:
  fixes sz :: "'a::len word"
  assumes "unat sz + 8 < 2 ^ LENGTH('a)" "3 < LENGTH('a)"
  defines "sz' \<equiv> (if sz mod 8 \<noteq> 0 then sz + (8 - sz mod 8) else sz)"
  shows "unat sz' mod 8 = 0" "unat sz \<le> unat sz'" "unat sz' < unat sz + 8"
proof -
  have "(8::nat) < 2 ^ LENGTH('a)"
    using assms(1) by linarith
  then have u8: "unat (8 :: 'a word) = 8" by (metis of_nat_numeral unat_of_nat mod_less)
  have m: "unat (sz mod 8) = unat sz mod 8" by (simp only: unat_mod u8)
  have "unat sz' = (if unat sz mod 8 \<noteq> 0 then unat sz + (8 - unat sz mod 8) else unat sz)"
  proof (cases "sz mod 8 = 0")
    case True
    then show ?thesis using m by (simp add: sz'_def)
  next
    case False
    then have nz: "unat sz mod 8 \<noteq> 0" using m by (metis unat_eq_zero)
    have "unat (8 - sz mod 8) = 8 - unat sz mod 8"
      using m u8 by (subst unat_sub) (simp_all add: word_le_nat_alt less_imp_le)
    moreover have "unat sz + (8 - unat sz mod 8) < 2 ^ LENGTH('a)" using assms(1) by simp
    ultimately have "unat (sz + (8 - sz mod 8)) = unat sz + (8 - unat sz mod 8)"
      by (subst unat_add_lem [THEN iffD1]) simp_all
    then show ?thesis using False nz by (simp add: sz'_def)
  qed
  moreover have "(if unat sz mod 8 \<noteq> 0 then unat sz + (8 - unat sz mod 8) else unat sz) mod 8 = 0 \<and>
      unat sz \<le> (if unat sz mod 8 \<noteq> 0 then unat sz + (8 - unat sz mod 8) else unat sz) \<and>
      (if unat sz mod 8 \<noteq> 0 then unat sz + (8 - unat sz mod 8) else unat sz) < unat sz + 8"
    by presburger
  ultimately show "unat sz' mod 8 = 0" "unat sz \<le> unat sz'" "unat sz' < unat sz + 8" by simp_all
qed

theorem memory_allocate_region:
  assumes r: "region_ok tot s" and m: "memory_allocate page sz s = (p, s')"
    and bound: "unat sz + 8 < 2 ^ 64"
  shows "region_ok tot s' \<and>
    (p \<noteq> NULL \<and> 0 < sz \<longrightarrow> mem_base s \<le> p \<and> p + unat sz \<le> mem_base s + tot \<and>
       p = mem_current s \<and> p + unat sz \<le> mem_current s') \<and>
    (p = NULL \<longrightarrow> s' = s)"
proof (cases "sz > mem_avail s")
  case True
  with r m show ?thesis by (auto simp: memory_allocate_def region_ok_def)
next
  case False
  define sz' where "sz' = (if sz mod 8 \<noteq> 0 then sz + (8 - sz mod 8) else sz)"
  note b = align8_bounds [of sz, folded sz'_def, simplified, OF bound [simplified]]
  have nb: "mem_base s \<noteq> NULL" using r by (simp add: region_ok_def)
  let ?s' = "s\<lparr>mem_current := mem_current s + unat sz',
                    mem_avail := (if sz' < mem_avail s then mem_avail s - sz' else 0)\<rparr>"
  have "memory_allocate page sz s = (mem_current s, ?s')"
    using False nb unfolding memory_allocate_def CHUNK_ALIGN_BYTES_def of_nat_numeral sz'_def [symmetric] Let_def
    by simp
  with m have p: "p = mem_current s" and s': "s' = ?s'" by (metis Pair_inject)+
  have nz: "mem_current s \<noteq> NULL" using r by (auto simp: region_ok_def)
  have "mem_current s' + unat (mem_avail s') = mem_base s + tot" if "mem_avail s' \<noteq> 0"
  proof -
    from that s' have lt: "sz' < mem_avail s" by (simp split: if_splits)
    then have "mem_avail s \<noteq> 0" by auto
    then have "mem_current s + unat (mem_avail s) = mem_base s + tot" using r by (simp add: region_ok_def)
    moreover have "unat (mem_avail s - sz') = unat (mem_avail s) - unat sz'" "unat sz' < unat (mem_avail s)"
      using lt by (simp_all add: unat_sub word_less_nat_alt less_imp_le)
    ultimately show ?thesis using lt by (simp add: s')
  qed
  then have "mem_avail s' = 0 \<or> mem_current s' + unat (mem_avail s') = mem_base s + tot" by blast
  moreover have "mem_base s' = mem_base s" "mem_current s \<le> mem_current s'" by (simp_all add: s')
  ultimately have "region_ok tot s'" using r unfolding region_ok_def by simp
  moreover have "mem_base s \<le> p \<and> p + unat sz \<le> mem_base s + tot \<and> p + unat sz \<le> mem_current s'"
    if "0 < sz"
  proof -
    have "mem_avail s \<noteq> 0" "unat sz \<le> unat (mem_avail s)"
      using that False by (auto simp: word_less_nat_alt not_less)
    with r b(2) show ?thesis by (auto simp: region_ok_def p s')
  qed
  ultimately show ?thesis using p nz by auto
qed

section \<open>Requests to the rebalancer\<close>

lemma pick_any_loop_sound:
  "pick_any_loop n dst s = (r, s') \<Longrightarrow> POWER_SMALLEST \<le> power_largest s \<Longrightarrow>
   slabclass s' = slabclass s \<and> power_largest s' = power_largest s \<and>
   (\<exists>c. s' = s\<lparr>pick_any_cur := c\<rparr>) \<and>
   (r = -1 \<or> (r \<noteq> dst \<and> int POWER_SMALLEST \<le> r \<and> r \<le> int (power_largest s) \<and>
              sc_slabs (slabclass s (nat r)) > 1))"
proof (induction n arbitrary: s)
  case 0
  then have s': "s' = s\<lparr>pick_any_cur := pick_any_cur s\<rparr>" "r = -1" by simp_all
  then have "\<exists>c. s' = s\<lparr>pick_any_cur := c\<rparr>" by blast
  with s' show ?case by simp
next
  case (Suc n)
  define cur where "cur = (if pick_any_cur s + 1 > power_largest s then POWER_SMALLEST else pick_any_cur s + 1)"
  have cur: "POWER_SMALLEST \<le> cur" "cur \<le> power_largest s"
    using Suc.prems(2) by (auto simp: cur_def POWER_SMALLEST_def)
  let ?s = "s\<lparr>pick_any_cur := cur\<rparr>"
  have step: "pick_any_loop (Suc n) dst s =
     (if int cur \<noteq> dst \<and> sc_slabs (slabclass s cur) > 1 then (int cur, ?s) else pick_any_loop n dst ?s)"
    by (simp add: cur_def Let_def)
  show ?case
  proof (cases "int cur \<noteq> dst \<and> sc_slabs (slabclass s cur) > 1")
    case True
    with step Suc.prems(1) have "r = int cur" "s' = ?s" by auto
    with True cur show ?thesis by auto
  next
    case False
    with step Suc.prems(1) have "pick_any_loop n dst ?s = (r, s')" by simp
    from Suc.IH [OF this] Suc.prems(2) show ?thesis by auto
  qed
qed

text \<open>A request that is accepted names two different classes, the source with a page to spare.\<close>

lemma do_slabs_reassign_ok:
  assumes "do_slabs_reassign src dst s = (REASSIGN_OK, s')" and pl: "POWER_SMALLEST \<le> power_largest s"
  shows "\<exists>a b. a \<in> classes s \<and> b \<in> classes s \<and> a \<noteq> b \<and> (src = -1 \<or> src = int a) \<and> dst = int b \<and>
     s_clsid (slab_rebal s') = int a \<and> d_clsid (slab_rebal s') = int b \<and>
     2 \<le> sc_slabs (slabclass s a) \<and> slab_rebalance_signal s = 0 \<and> slab_rebalance_signal s' = 1 \<and>
     slabclass s' = slabclass s \<and> power_largest s' = power_largest s"
proof -
  from assms(1) have sig: "slab_rebalance_signal s = 0" and ne: "src \<noteq> dst"
    by (auto simp: do_slabs_reassign_def split: if_splits)
  obtain a s1 where p: "(if src = -1 then slabs_reassign_pick_any dst s else (src, s)) = (a, s1)" by force
  have s1: "slabclass s1 = slabclass s" "power_largest s1 = power_largest s" "a = -1 \<or> a \<noteq> dst"
    "src = -1 \<or> src = a" "\<exists>c. s1 = s\<lparr>pick_any_cur := c\<rparr>"
  proof -
    have "s = s\<lparr>pick_any_cur := pick_any_cur s\<rparr>" by simp
    then have "slabclass s1 = slabclass s \<and> power_largest s1 = power_largest s \<and> (a = -1 \<or> a \<noteq> dst) \<and>
      (src = -1 \<or> src = a) \<and> (\<exists>c. s1 = s\<lparr>pick_any_cur := c\<rparr>)"
    proof (cases "src = -1")
      case True
      with p have "pick_any_loop (power_largest s - POWER_SMALLEST + 1) dst s = (a, s1)"
        by (simp add: slabs_reassign_pick_any_def)
      from pick_any_loop_sound [OF this pl] True show ?thesis by auto
    next
      case False
      with p have "a = src" "s1 = s" by auto
      with ne \<open>s = s\<lparr>pick_any_cur := pick_any_cur s\<rparr>\<close> show ?thesis by metis
    qed
    then show "slabclass s1 = slabclass s" "power_largest s1 = power_largest s" "a = -1 \<or> a \<noteq> dst"
      "src = -1 \<or> src = a" "\<exists>c. s1 = s\<lparr>pick_any_cur := c\<rparr>" by blast+
  qed
  from assms(1) sig ne p have rng: "int POWER_SMALLEST \<le> a" "a \<le> int (power_largest s)"
      "int POWER_SMALLEST \<le> dst" "dst \<le> int (power_largest s)" "\<not> sc_slabs (slabclass s (nat a)) < 2"
    and s': "s' = s1\<lparr>slab_rebal := (slab_rebal s1)\<lparr>s_clsid := a, d_clsid := dst\<rparr>,
                   slab_rebalance_signal := 1\<rparr>"
    using s1(1,2) by (auto simp: do_slabs_reassign_def split: if_splits prod.splits)
  from rng have "nat a \<in> classes s" "nat dst \<in> classes s" "a = int (nat a)" "dst = int (nat dst)"
    "a \<noteq> -1" by (auto simp: classes_def POWER_SMALLEST_def)
  with rng s1 s' sig show ?thesis
    by (intro exI [of _ "nat a"] exI [of _ "nat dst"]) (auto simp: not_less)
qed

section \<open>The class sizes\<close>

lemma round_even_mono_int: "of_int n \<le> x \<Longrightarrow> n \<le> round_even x"
proof -
  assume a: "of_int n \<le> x"
  then have "n \<le> \<lfloor>x\<rfloor>" by (simp add: le_floor_iff)
  then show ?thesis by (auto simp: round_even_def Let_def)
qed

lemma round_even_le_int: "x \<le> of_int n \<Longrightarrow> round_even x \<le> n"
proof -
  assume a: "x \<le> of_int n"
  show ?thesis
  proof (cases "\<lfloor>x\<rfloor> < n")
    case True
    then show ?thesis by (auto simp: round_even_def Let_def)
  next
    case False
    moreover have "\<lfloor>x\<rfloor> \<le> n" using a by (metis floor_mono floor_of_int)
    ultimately have "\<lfloor>x\<rfloor> = n" by simp
    moreover from this have "x - of_int n = 0" using a of_int_floor_le [of x] by simp
    ultimately show ?thesis by (simp add: round_even_def Let_def)
  qed
qed

text \<open>Rounding never crosses an integer below \<open>2 ^ 53\<close>.\<close>

lemma dbl_round_ge_nat:
  assumes "of_nat n \<le> x" "x < 2 ^ 53" "1 \<le> x"
  shows "of_nat n \<le> dbl_round x"
proof -
  let ?e = "floorlog 2 (nat \<lfloor>x\<rfloor>)"
  have e: "?e \<le> 53"
  proof -
    have "\<lfloor>x\<rfloor> < 2 ^ 53" using assms(2) by (simp add: floor_less_iff)
    then have "nat \<lfloor>x\<rfloor> < 2 ^ 53" by (simp only: nat_less_numeral_power_cancel_iff)
    then show ?thesis by (simp add: floorlog_leI)
  qed
  define k where "k = 53 - ?e"
  have ulp: "(2::rat) powi (int ?e - 53) = 1 / 2 ^ k"
    using e by (simp add: k_def power_int_def inverse_eq_divide nat_diff_distrib' power_one_over)
  have "of_int (int n * 2 ^ k) \<le> x * 2 ^ k" using assms(1) by (simp add: mult_right_mono)
  from round_even_mono_int [OF this] have "int n * 2 ^ k \<le> round_even (x * 2 ^ k)" .
  then have "(of_int (int n * 2 ^ k) :: rat) \<le> of_int (round_even (x * 2 ^ k))" by (simp only: of_int_le_iff)
  then have "(of_nat n :: rat) \<le> of_int (round_even (x * 2 ^ k)) / 2 ^ k" by (simp add: field_simps)
  then show ?thesis using assms(3) by (simp add: dbl_round_def Let_def ulp)
qed

lemma dbl_round_le_nat:
  assumes "x \<le> of_nat n" "x < 2 ^ 53" "0 < n"
  shows "dbl_round x \<le> of_nat n"
proof (cases "x < 1")
  case True
  then show ?thesis using assms by (simp add: dbl_round_def)
next
  case False
  let ?e = "floorlog 2 (nat \<lfloor>x\<rfloor>)"
  have e: "?e \<le> 53"
  proof -
    have "\<lfloor>x\<rfloor> < 2 ^ 53" using assms(2) by (simp add: floor_less_iff)
    then have "nat \<lfloor>x\<rfloor> < 2 ^ 53" by (simp only: nat_less_numeral_power_cancel_iff)
    then show ?thesis by (simp add: floorlog_leI)
  qed
  define k where "k = 53 - ?e"
  have ulp: "(2::rat) powi (int ?e - 53) = 1 / 2 ^ k"
    using e by (simp add: k_def power_int_def inverse_eq_divide nat_diff_distrib' power_one_over)
  have "x * 2 ^ k \<le> of_int (int n * 2 ^ k)" using assms(1) by (simp add: mult_right_mono)
  from round_even_le_int [OF this] have "round_even (x * 2 ^ k) \<le> int n * 2 ^ k" .
  then have "(of_int (round_even (x * 2 ^ k)) :: rat) \<le> of_int (int n * 2 ^ k)" by (simp only: of_int_le_iff)
  then have "(of_int (round_even (x * 2 ^ k)) :: rat) / 2 ^ k \<le> of_nat n" by (simp add: field_simps)
  then show ?thesis using False by (simp add: dbl_round_def Let_def ulp)
qed

lemma grow_size_ge:
  assumes "1 \<le> factor" "of_nat (unat sz) * factor < 2 ^ 32 - 1" "0 < unat sz"
  shows "unat sz \<le> unat (grow_size sz factor)"
proof -
  let ?x = "of_nat (unat sz) * factor"
  have x: "of_nat (unat sz) \<le> ?x" using mult_left_mono [OF assms(1) of_nat_0_le_iff, of "unat sz"] by simp
  have "(1::rat) \<le> of_nat (unat sz)" using assms(3) by (metis One_nat_def Suc_leI of_nat_1 of_nat_le_iff)
  with x have x1: "1 \<le> ?x" by linarith
  have lo: "of_nat (unat sz) \<le> dbl_round ?x"
    using x assms(2) x1 by (intro dbl_round_ge_nat) auto
  have hi: "dbl_round ?x \<le> of_nat (2 ^ 32 - 1)"
    using assms(2) by (intro dbl_round_le_nat) auto
  have f: "int (unat sz) \<le> \<lfloor>dbl_round ?x\<rfloor>" using lo by (simp add: le_floor_iff)
  have g: "\<lfloor>dbl_round ?x\<rfloor> < 2 ^ 32" using hi by (simp add: floor_less_iff)
  have "0 \<le> int (unat sz)" by (rule of_nat_0_le_iff)
  with f have "0 \<le> \<lfloor>dbl_round ?x\<rfloor>" by (rule order_trans [rotated])
  then obtain n where n: "\<lfloor>dbl_round ?x\<rfloor> = int n" by (rule nonneg_int_cases)
  then have "n < 2 ^ 32" using g by simp
  then have "unat (grow_size sz factor) = n" unfolding grow_size_def n by (simp add: unat_of_nat)
  with f [unfolded n] show ?thesis by (simp only: of_nat_le_iff)
qed

text \<open>The sizes the loop has assigned: multiples of 8, non-decreasing, none above the page size,
  with as many chunks as fit.\<close>

definition sizes_ok :: "nat \<Rightarrow> nat \<Rightarrow> (nat \<Rightarrow> slabclass_t) \<Rightarrow> bool" where
  "sizes_ok m i cl \<longleftrightarrow>
     (\<forall>c. POWER_SMALLEST \<le> c \<and> c \<le> i \<longrightarrow>
        0 < sc_size (cl c) \<and> unat (sc_size (cl c)) mod 8 = 0 \<and> unat (sc_size (cl c)) \<le> m \<and>
        sc_perslab (cl c) = of_nat m div sc_size (cl c) \<and>
        (\<forall>d. c \<le> d \<and> d \<le> i \<longrightarrow> sc_size (cl c) \<le> sc_size (cl d)))"

lemma align_size_bounds:
  assumes "unat sz \<le> m" "m mod 8 = 0" "m < 2 ^ 31"
  shows "unat (align_size sz) mod 8 = 0" "unat sz \<le> unat (align_size sz)" "unat (align_size sz) \<le> m"
proof -
  have e: "align_size sz = (if sz mod 8 \<noteq> 0 then sz + (8 - sz mod 8) else sz)"
    by (simp add: align_size_def CHUNK_ALIGN_BYTES_def)
  have "unat sz + 8 < 2 ^ LENGTH(32)" using assms by simp
  note b = align8_bounds [OF this, folded e, simplified]
  show "unat (align_size sz) mod 8 = 0" "unat sz \<le> unat (align_size sz)" by (rule b)+
  from b assms(1,2) show "unat (align_size sz) \<le> m" by presburger
qed

lemma slabs_init_loop_sizes:
  assumes "slabs_init_loop factor i sz s = (n, s')"
    and "1 \<le> factor" "of_nat m * factor < 2 ^ 32 - 1" "m = item_size_max (settings s)"
    and "m mod 8 = 0" "0 < m" "m < 2 ^ 31" "0 < sz" "i < POWER_LARGEST"
    and "sizes_ok m i (slabclass s)" and "\<forall>c. POWER_SMALLEST \<le> c \<and> c \<le> i \<longrightarrow> sc_size (slabclass s c) \<le> sz"
  shows "i < n \<and> n \<le> POWER_LARGEST \<and> sizes_ok m (n - 1) (slabclass s') \<and>
     (\<exists>cl. s' = s\<lparr>slabclass := cl\<rparr> \<and> (\<forall>c. \<exists>a b. cl c = (slabclass s c)\<lparr>sc_size := a, sc_perslab := b\<rparr>))"
  using assms
proof (induction factor i sz s rule: slabs_init_loop.induct)
  case (1 factor i sz s)
  note prems = "1.prems"
  have same: "\<exists>a b. slabclass s c = (slabclass s c)\<lparr>sc_size := a, sc_perslab := b\<rparr>" for c
  proof -
    have "slabclass s c = (slabclass s c)\<lparr>sc_size := sc_size (slabclass s c), sc_perslab := sc_perslab (slabclass s c)\<rparr>"
      by simp
    then show ?thesis by blast
  qed
  show ?case
  proof (cases "i + 1 < POWER_LARGEST \<and> of_nat (unat sz) \<le> dbl_round (of_nat (item_size_max (settings s)) / factor)")
    case False
    then have "slabs_init_loop factor i sz s = (i + 1, s)"
      by (subst slabs_init_loop.simps) (simp only: if_False)
    with prems(1) have ns: "n = i + 1" "s' = s" by simp_all
    have "s = s\<lparr>slabclass := slabclass s\<rparr>" by simp
    with same have "\<exists>cl. s = s\<lparr>slabclass := cl\<rparr> \<and> (\<forall>c. \<exists>a b. cl c = (slabclass s c)\<lparr>sc_size := a, sc_perslab := b\<rparr>)"
      by blast
    with ns prems(9,10) show ?thesis by simp
  next
    case True
    let ?sz' = "align_size sz"
    let ?s1 = "upd_class (i + 1) (\<lambda>p. p\<lparr>sc_size := ?sz',
                       sc_perslab := of_nat (item_size_max (settings s)) div ?sz'\<rparr>) s"
    let ?g = "grow_size ?sz' factor"
    have run: "slabs_init_loop factor (i + 1) ?g ?s1 = (n, s')"
      using True prems(1) by (subst (asm) slabs_init_loop.simps) (simp only: if_True Let_def simp_thms)
    have m: "item_size_max (settings s) = m" using prems(4) by simp
    have "(of_nat m :: rat) / factor \<le> of_nat m"
      using prems(2) by (simp add: divide_le_eq mult_le_cancel_left1)
    moreover from this have "(of_nat m :: rat) / factor < 2 ^ 53"
    proof -
      have "(of_nat m :: rat) < of_nat (2 ^ 53)" using prems(7) by (simp only: of_nat_less_iff) simp
      then have "(of_nat m :: rat) < 2 ^ 53" by simp
      with \<open>of_nat m / factor \<le> of_nat m\<close> show ?thesis by linarith
    qed
    ultimately have "dbl_round (of_nat m / factor) \<le> of_nat m"
      using prems(6) by (intro dbl_round_le_nat)
    with True m have "(of_nat (unat sz) :: rat) \<le> of_nat m" by (metis order_trans)
    then have szm: "unat sz \<le> m" by (simp only: of_nat_le_iff)
    note al = align_size_bounds [OF szm prems(5,7)]
    have pos': "0 < unat ?sz'" using al(2) prems(8) by (simp add: word_less_nat_alt)
    have "of_nat (unat ?sz') * factor \<le> of_nat m * factor"
      using al(3) prems(2) by (intro mult_right_mono) (simp_all only: of_nat_le_iff)
    with prems(3) have ov: "of_nat (unat ?sz') * factor < 2 ^ 32 - 1" by linarith
    have g: "unat ?sz' \<le> unat ?g" by (rule grow_size_ge [OF prems(2) ov pos'])
    have sz'0: "0 < ?sz'" "sz \<le> ?sz'" "?sz' \<le> ?g" "0 < ?g"
      using pos' al(2) g by (simp_all add: word_less_nat_alt word_le_nat_alt)
    have le': "\<forall>c. POWER_SMALLEST \<le> c \<and> c \<le> i + 1 \<longrightarrow> sc_size (slabclass ?s1 c) \<le> ?g"
      using prems(11) sz'0 by (auto simp: le_Suc_eq intro: order_trans)
    have ok': "sizes_ok m (i + 1) (slabclass ?s1)"
      unfolding sizes_ok_def
    proof (intro allI impI)
      fix c assume c: "POWER_SMALLEST \<le> c \<and> c \<le> i + 1"
      let ?cl = "slabclass ?s1"
      show "0 < sc_size (?cl c) \<and> unat (sc_size (?cl c)) mod 8 = 0 \<and> unat (sc_size (?cl c)) \<le> m \<and>
        sc_perslab (?cl c) = of_nat m div sc_size (?cl c) \<and>
        (\<forall>d. c \<le> d \<and> d \<le> i + 1 \<longrightarrow> sc_size (?cl c) \<le> sc_size (?cl d))"
      proof (cases "c = i + 1")
        case True
        then show ?thesis using al sz'0 m by (auto dest: le_antisym)
      next
        case False
        with c have ci: "POWER_SMALLEST \<le> c \<and> c \<le> i" by auto
        with prems(10) have o: "0 < sc_size (slabclass s c) \<and> unat (sc_size (slabclass s c)) mod 8 = 0 \<and>
          unat (sc_size (slabclass s c)) \<le> m \<and> sc_perslab (slabclass s c) = of_nat m div sc_size (slabclass s c) \<and>
          (\<forall>d. c \<le> d \<and> d \<le> i \<longrightarrow> sc_size (slabclass s c) \<le> sc_size (slabclass s d))"
          unfolding sizes_ok_def by blast
        have "sc_size (slabclass s c) \<le> ?sz'" using prems(11) ci sz'0(2) by (meson order_trans)
        with o ci show ?thesis by (auto simp: le_Suc_eq)
      qed
    qed
    have "i + 1 < n \<and> n \<le> POWER_LARGEST \<and> sizes_ok m (n - 1) (slabclass s') \<and>
     (\<exists>cl. s' = ?s1\<lparr>slabclass := cl\<rparr> \<and> (\<forall>c. \<exists>a b. cl c = (slabclass ?s1 c)\<lparr>sc_size := a, sc_perslab := b\<rparr>))"
      by (rule "1.IH" [OF True refl refl run prems(2,3) _ prems(5,6,7) sz'0(4) _ ok' le'])
        (use prems(4) True in simp_all)
    then obtain cl where n: "i + 1 < n" "n \<le> POWER_LARGEST" "sizes_ok m (n - 1) (slabclass s')"
      "s' = ?s1\<lparr>slabclass := cl\<rparr>" "\<And>c. \<exists>a b. cl c = (slabclass ?s1 c)\<lparr>sc_size := a, sc_perslab := b\<rparr>"
      by blast
    have "s' = s\<lparr>slabclass := cl\<rparr>" by (simp add: n(4) upd_class_def)
    moreover have "\<exists>a b. cl c = (slabclass s c)\<lparr>sc_size := a, sc_perslab := b\<rparr>" for c
      using n(5) [of c] by (auto split: if_splits)
    ultimately show ?thesis using n(1-3) by auto
  qed
qed

lemma unat_ucast_32_64 [simp]: "unat (ucast (w :: u32) :: u64) = unat w"
proof -
  have "unat w < 2 ^ 32" using unsigned_less [of w] by simp
  then have "unat w < 2 ^ 64" by simp
  then show ?thesis by (simp add: unsigned_ucast_eq take_bit_nat_eq_self)
qed

text \<open>The state \<open>slabs_init\<close> leaves when it does not preallocate.\<close>

definition classes_ok :: "nat \<Rightarrow> 'a slabs_state_scheme \<Rightarrow> bool" where
  "classes_ok m s \<longleftrightarrow> POWER_SMALLEST \<le> power_largest s \<and> power_largest s \<le> POWER_LARGEST \<and>
     sizes_ok m (power_largest s - 1) (slabclass s) \<and>
     unat (sc_size (slabclass s (power_largest s))) = m \<and> sc_perslab (slabclass s (power_largest s)) = 1"

lemma slabs_init_classes:
  assumes run: "slabs_init limit factor False base im envs s = Some s'"
    and m: "m = item_size_max (settings s)" "m mod 8 = 0" "0 < m" "m < 2 ^ 31"
    and f: "1 \<le> factor" "of_nat m * factor < 2 ^ 32 - 1"
    and cs: "unat sizeof_item + chunk_size (settings s) < 2 ^ 32"
  shows "classes_ok m s' \<and> settings s' = settings s \<and> mem_limit s' = limit \<and>
     (\<forall>c. sc_slots (slabclass s' c) = NULL \<and> sc_sl_curr (slabclass s' c) = 0 \<and>
          sc_slabs (slabclass s' c) = 0 \<and> sc_list_size (slabclass s' c) = 0 \<and>
          sc_requested (slabclass s' c) = 0)"
proof -
  define s3 where "s3 = s\<lparr>mem_limit := limit, slabclass := (\<lambda>_. zero_class)\<rparr>"
  define sz :: u32 where "sz = ucast sizeof_item + of_nat (chunk_size (settings s))"
  have sz: "0 < sz"
  proof -
    have "unat (of_nat (chunk_size (settings s)) :: u32) = chunk_size (settings s)"
      using cs by (simp add: unat_of_nat)
    then have "unat sz = 48 + chunk_size (settings s)"
      using cs unfolding sz_def by (subst unat_add_lem [THEN iffD1]) (simp_all add: sizeof_item_def)
    then show ?thesis by (simp add: word_less_nat_alt)
  qed
  obtain n s4 where l: "slabs_init_loop factor 0 sz s3 = (n, s4)" by force
  have "0 < n \<and> n \<le> POWER_LARGEST \<and> sizes_ok m (n - 1) (slabclass s4) \<and>
     (\<exists>cl. s4 = s3\<lparr>slabclass := cl\<rparr> \<and> (\<forall>c. \<exists>a b. cl c = (slabclass s3 c)\<lparr>sc_size := a, sc_perslab := b\<rparr>))"
    by (rule slabs_init_loop_sizes [OF l f])
      (use m sz in \<open>auto simp: s3_def sizes_ok_def POWER_SMALLEST_def POWER_LARGEST_def\<close>)
  then obtain cl where n: "0 < n" "n \<le> POWER_LARGEST" "sizes_ok m (n - 1) (slabclass s4)"
    and s4: "s4 = s3\<lparr>slabclass := cl\<rparr>" and cl: "\<And>c. \<exists>a b. cl c = zero_class\<lparr>sc_size := a, sc_perslab := b\<rparr>"
    by (auto simp: s3_def)
  have s': "s' = (case im of None \<Rightarrow> (\<lambda>x. x) | Some v \<Rightarrow> (\<lambda>x. x\<lparr>mem_malloced := v\<rparr>))
       (upd_class n (\<lambda>c. c\<lparr>sc_size := of_nat m, sc_perslab := 1\<rparr>) (s4\<lparr>power_largest := n\<rparr>))"
    using run l m(1)
    by (auto simp: slabs_init_def Let_def s3_def sz_def POWER_SMALLEST_def s4 split: option.splits)
  have pl: "power_largest s' = n" "slabclass s' = cl(n := (cl n)\<lparr>sc_size := of_nat m, sc_perslab := 1\<rparr>)"
    "settings s' = settings s" "mem_limit s' = limit"
    by (cases im; simp add: s' s4 s3_def)+
  have um: "unat (of_nat m :: u32) = m" using m(4) by (simp add: unat_of_nat)
  have "sizes_ok m (n - 1) (slabclass s')"
    using n(1,3) by (auto simp: sizes_ok_def pl s4)
  then have "classes_ok m s'" using n um by (simp add: classes_ok_def pl POWER_SMALLEST_def)
  moreover have "sc_slots (slabclass s' c) = NULL \<and> sc_sl_curr (slabclass s' c) = 0 \<and>
          sc_slabs (slabclass s' c) = 0 \<and> sc_list_size (slabclass s' c) = 0 \<and>
          sc_requested (slabclass s' c) = 0" for c
  proof -
    obtain a b where "cl c = zero_class\<lparr>sc_size := a, sc_perslab := b\<rparr>" using cl by blast
    then show ?thesis by (cases "c = n") (simp_all add: pl zero_class_def)
  qed
  ultimately show ?thesis using pl by blast
qed

lemma classes_okD:
  assumes "classes_ok m s" "c \<in> classes s" "m < 2 ^ 32"
  shows "0 < m \<Longrightarrow> 0 < sc_size (slabclass s c)" "unat (sc_size (slabclass s c)) \<le> m"
    and "unat (sc_perslab (slabclass s c)) * unat (sc_size (slabclass s c)) \<le> m"
    and "\<And>d. d \<in> classes s \<Longrightarrow> c \<le> d \<Longrightarrow> sc_size (slabclass s c) \<le> sc_size (slabclass s d)"
proof -
  note ok = assms(1) [unfolded classes_ok_def]
  have um: "unat (of_nat m :: u32) = m" using assms(3) by (simp add: unat_of_nat)
  show "0 < sc_size (slabclass s c)" if "0 < m"
    using ok that assms(2) by (cases "c = power_largest s") (auto simp: sizes_ok_def classes_def word_less_nat_alt)
  show le: "unat (sc_size (slabclass s c)) \<le> m"
    using ok assms(2) by (cases "c = power_largest s") (auto simp: sizes_ok_def classes_def)
  show "unat (sc_perslab (slabclass s c)) * unat (sc_size (slabclass s c)) \<le> m"
  proof (cases "c = power_largest s")
    case True
    then show ?thesis using ok by simp
  next
    case False
    with ok assms(2) have "sc_perslab (slabclass s c) = of_nat m div sc_size (slabclass s c)"
      by (auto simp: sizes_ok_def classes_def)
    then have "unat (sc_perslab (slabclass s c)) = m div unat (sc_size (slabclass s c))"
      using um by (simp add: unat_div)
    then show ?thesis by (metis div_times_less_eq_dividend)
  qed
  show "sc_size (slabclass s c) \<le> sc_size (slabclass s d)" if d: "d \<in> classes s" "c \<le> d" for d
  proof (cases "d = power_largest s")
    case True
    then show ?thesis using ok le by (simp add: word_le_nat_alt)
  next
    case False
    then show ?thesis using ok assms(2) d by (auto simp: sizes_ok_def classes_def)
  qed
qed

text \<open>In such a state every size up to the page size has a class, and no other size has one.\<close>

lemma slabs_clsid_total:
  assumes "classes_ok m s"
  shows "slabs_clsid sz s = Some 0 \<longleftrightarrow> sz = 0 \<or> m < unat sz"
proof -
  note ok = assms [unfolded classes_ok_def]
  have e: "(\<exists>c. POWER_SMALLEST \<le> c \<and> c \<le> power_largest s \<and> sz \<le> ucast (sc_size (slabclass s c))) \<longleftrightarrow>
        unat sz \<le> m" (is "?l \<longleftrightarrow> _")
  proof
    assume ?l
    then obtain c where "POWER_SMALLEST \<le> c" "c \<le> power_largest s" "unat sz \<le> unat (sc_size (slabclass s c))"
      by (auto simp: word_le_nat_alt unat_ucast_32_64)
    then show "unat sz \<le> m" using ok
      by (cases "c = power_largest s") (auto simp: sizes_ok_def intro: order_trans)
  next
    assume "unat sz \<le> m"
    then show ?l using ok
      by (intro exI [of _ "power_largest s"]) (auto simp: word_le_nat_alt unat_ucast_32_64)
  qed
  show ?thesis
    using slabs_clsid_spec [of s sz 0] ok unfolding e by (auto simp: POWER_SMALLEST_def not_le)
qed

section \<open>Starting and finishing a move\<close>

lemma lock_simps:
  "cache_lock_acquire s = (if cache_lock s then None else Some (s\<lparr>cache_lock := True\<rparr>))"
  "slabs_lock_acquire s = (if slabs_lock s then None else Some (s\<lparr>slabs_lock := True\<rparr>))"
  by (simp_all add: cache_lock_acquire_def slabs_lock_acquire_def)

lemma class_index_int: "c \<in> classes s \<Longrightarrow> power_largest s \<le> POWER_LARGEST \<Longrightarrow> class_index (int c) = Some c"
  by (simp add: class_index_def classes_def MAX_NUMBER_OF_SLAB_CLASSES_def)

theorem slab_rebalance_start_spec:
  assumes run: "slab_rebalance_start ok s = Some (r, s')"
    and ab: "s_clsid (slab_rebal s) = int a" "d_clsid (slab_rebal s) = int b" "a \<in> classes s"
      "b \<in> classes s" "a \<noteq> b" and pl: "power_largest s \<le> POWER_LARGEST"
  shows "(r = 0 \<or> r = -1 \<or> r = -3) \<and> cache_lock s' = False \<and> slabs_lock s' = False \<and>
    (r = 0 \<longrightarrow> 2 \<le> sc_slabs (slabclass s a) \<and> fst (grow_slab_list ok b s) \<and>
       slab_rebalance_signal s' = 2 \<and> sc_killing (slabclass s' a) = 1 \<and>
       slab_start (slab_rebal s') = sc_slab_list (slabclass s a) 0 \<and>
       slab_pos (slab_rebal s') = slab_start (slab_rebal s') \<and>
       slab_end (slab_rebal s') = slab_start (slab_rebal s') +
         unat (sc_size (slabclass s a) * sc_perslab (slabclass s a)) \<and>
       slab_reassign_running (stats s')) \<and>
    (r \<noteq> 0 \<longrightarrow> slab_rebalance_signal s' = slab_rebalance_signal s \<and> slab_rebal s' = slab_rebal s)"
proof -
  from run have nl: "\<not> cache_lock s" "\<not> slabs_lock s"
    by (auto simp: slab_rebalance_start_def lock_simps split: if_splits Option.bind_splits)
  let ?s2 = "s\<lparr>cache_lock := True, slabs_lock := True\<rparr>"
  obtain g s3 where g: "grow_slab_list ok b ?s2 = (g, s3)" by force
  obtain n where s3: "s3 = upd_class b (\<lambda>p. p\<lparr>sc_list_size := n\<rparr>) ?s2"
    using grow_slab_list_frame [OF g] by blast
  have gs: "fst (grow_slab_list ok b s) = g"
    using g by (auto simp: grow_slab_list_def Let_def split: if_splits)
  have ci: "class_index (int a) = Some a" "class_index (int b) = Some b"
    using class_index_int [OF ab(3) pl] class_index_int [OF ab(4) pl] .
  have valid: "POWER_SMALLEST \<le> a" "a \<le> power_largest s" "POWER_SMALLEST \<le> b" "b \<le> power_largest s"
    using ab(3,4) by (auto simp: classes_def)
  show ?thesis
  proof (cases "g \<and> \<not> sc_slabs (slabclass s a) < 2")
    case True
    have "\<exists>s0. slab_rebalance_start ok s = Some (0, s0) \<and> \<not> cache_lock s0 \<and> \<not> slabs_lock s0 \<and>
       slab_rebalance_signal s0 = 2 \<and> sc_killing (slabclass s0 a) = 1 \<and>
       slab_start (slab_rebal s0) = sc_slab_list (slabclass s a) 0 \<and>
       slab_pos (slab_rebal s0) = slab_start (slab_rebal s0) \<and>
       slab_end (slab_rebal s0) = slab_start (slab_rebal s0) +
         unat (sc_size (slabclass s a) * sc_perslab (slabclass s a)) \<and>
       slab_reassign_running (stats s0)"
      using True ab(5) valid
      by (simp add: slab_rebalance_start_def lock_simps nl ab(1,2) ci g s3 Let_def not_less
          cache_lock_release_def slabs_lock_release_def)
    with run True gs show ?thesis by auto
  next
    case False
    then have "\<exists>r0 s0. slab_rebalance_start ok s = Some (r0, s0) \<and> (r0 = -1 \<or> r0 = -3) \<and>
       \<not> cache_lock s0 \<and> \<not> slabs_lock s0 \<and>
       slab_rebalance_signal s0 = slab_rebalance_signal s \<and> slab_rebal s0 = slab_rebal s"
      using ab(5) valid
      by (simp add: slab_rebalance_start_def lock_simps nl ab(1,2) ci g s3 Let_def
          cache_lock_release_def slabs_lock_release_def)
    with run show ?thesis by auto
  qed
qed

theorem slab_rebalance_finish_freelists:
  assumes f: "freelists s F" and nl: "\<not> cache_lock s" "\<not> slabs_lock s"
    and ab: "s_clsid (slab_rebal s) = int a" "d_clsid (slab_rebal s) = int b" "a \<in> classes s"
      "b \<in> classes s" "a \<noteq> b" and pl: "power_largest s \<le> POWER_LARGEST"
    and page: "page_fresh s F (slab_start (slab_rebal s)) (item_size_max (settings s))"
    and fit: "chunks_fit s b (item_size_max (settings s))"
    and room: "unat (sc_perslab (slabclass s b)) + length (F b) < 2 ^ 32"
    and lists: "0 < sc_killing (slabclass s a)" "sc_killing (slabclass s a) \<le> sc_slabs (slabclass s a)"
      "sc_slabs (slabclass s a) \<le> sc_list_size (slabclass s a)" "sc_slabs (slabclass s b) < sc_list_size (slabclass s b)"
  shows "\<exists>s'. slab_rebalance_finish s = Some s' \<and>
    freelists s' (F(b := rev (page_chunks s b (slab_start (slab_rebal s))) @ F b)) \<and>
    sc_slabs (slabclass s' a) = sc_slabs (slabclass s a) - 1 \<and>
    sc_slab_list (slabclass s' a) = (sc_slab_list (slabclass s a))
      (unat (sc_killing (slabclass s a)) - 1 := sc_slab_list (slabclass s a) (unat (sc_slabs (slabclass s a)) - 1)) \<and>
    sc_slabs (slabclass s' b) = sc_slabs (slabclass s b) + 1 \<and>
    sc_slab_list (slabclass s' b) = (sc_slab_list (slabclass s b))
      (unat (sc_slabs (slabclass s b)) := slab_start (slab_rebal s)) \<and>
    (\<forall>c. c \<noteq> a \<longrightarrow> c \<noteq> b \<longrightarrow> slabclass s' c = slabclass s c) \<and>
    sc_killing (slabclass s' a) = 0 \<and> slab_rebalance_signal s' = 0 \<and>
    slab_start (slab_rebal s') = NULL \<and> rebal_done (slab_rebal s') = 0 \<and>
    \<not> cache_lock s' \<and> \<not> slabs_lock s' \<and> slabs_moved (stats s') = slabs_moved (stats s) + 1 \<and>
    \<not> slab_reassign_running (stats s')"
proof -
  let ?p = "slab_start (slab_rebal s)" and ?m = "item_size_max (settings s)"
  let ?s2 = "s\<lparr>cache_lock := True, slabs_lock := True\<rparr>"
  define k where "k = unat (sc_killing (slabclass s a)) - 1"
  define l where "l = unat (sc_slabs (slabclass s a)) - 1"
  let ?n = "unat (sc_slabs (slabclass s b))"
  have ne: "sc_killing (slabclass s a) \<noteq> 0" "sc_slabs (slabclass s a) \<noteq> 0"
    using lists(1,2) by (auto simp: word_gt_0)
  have "0 < unat (sc_killing (slabclass s a))" "0 < unat (sc_slabs (slabclass s a))"
    using ne by (simp_all add: unat_gt_0)
  then have lt: "l < unat (sc_list_size (slabclass s a))" "k < unat (sc_list_size (slabclass s a))"
    using lists(2,3) unfolding word_le_nat_alt k_def l_def by linarith+
  have ix: "slab_list_index (slabclass s a) (sc_slabs (slabclass s a) - 1) = Some l"
    "slab_list_index (slabclass s a) (sc_killing (slabclass s a) - 1) = Some k"
    "slab_list_index (slabclass s b) (sc_slabs (slabclass s b)) = Some ?n"
    using lists(4) ne lt by (simp_all add: slab_list_index_def word_less_nat_alt unat_minus_one k_def l_def)
  let ?s3 = "upd_class a (\<lambda>c. c\<lparr>
           sc_slab_list := (sc_slab_list c)(k := sc_slab_list c l),
           sc_slabs := sc_slabs c - 1, sc_killing := 0\<rparr>) ?s2"
  let ?s4 = "zero_mem ?p ?m ?s3"
  let ?s5 = "upd_class b (\<lambda>c. c\<lparr>
           sc_slab_list := (sc_slab_list c)(?n := ?p),
           sc_slabs := sc_slabs c + 1\<rparr>) ?s4"
  have cl: "classes ?s3 = classes s" "classes ?s5 = classes s" by (simp_all add: classes_def)
  have "freelists ?s3 F" by (rule freelists_frame [OF f]) auto
  moreover have "page_fresh ?s3 F ?p ?m" using page by (simp add: page_fresh_def cl)
  ultimately have "freelists ?s4 F" by (rule freelists_zero_mem)
  then have f5: "freelists ?s5 F" by (rule freelists_frame) auto
  have sz: "sc_size (slabclass ?s5 b) = sc_size (slabclass s b)"
    "sc_perslab (slabclass ?s5 b) = sc_perslab (slabclass s b)" using ab(5) by simp_all
  have "b \<in> classes ?s5" "page_fresh ?s5 F ?p ?m" "chunks_fit ?s5 b ?m"
    "\<forall>q. ?p \<le> q \<and> q < ?p + ?m \<longrightarrow> it_slabs_clsid (heap ?s5 q) = 0"
    "unat (sc_perslab (slabclass ?s5 b)) + length (F b) < 2 ^ 32"
    using page fit room sz ab(4) by (simp_all add: page_fresh_def chunks_fit_def cl zero_item_def)
  from split_page_freelists [OF f5 this] obtain s6 h sl where s6:
    "split_slab_page_into_freelist ?p b ?s5 = Some s6"
    "freelists s6 (F(b := rev (page_chunks s b ?p) @ F b))"
    "s6 = ?s5\<lparr>heap := h, slabclass := (slabclass ?s5)(b := (slabclass ?s5 b)\<lparr>sc_slots := sl,
       sc_sl_curr := of_nat (unat (sc_perslab (slabclass ?s5 b)) + length (F b))\<rparr>)\<rparr>"
    unfolding sz by blast
  let ?s7 = "s6\<lparr>slab_rebal := (slab_rebal s6)\<lparr>rebal_done := 0, s_clsid := 0, d_clsid := 0,
                     slab_start := NULL, slab_end := NULL, slab_pos := NULL\<rparr>,
                 slab_rebalance_signal := 0\<rparr>"
  let ?s8 = "cache_lock_release (slabs_lock_release ?s7)"
  let ?s' = "?s8\<lparr>stats := (stats ?s8)\<lparr>slab_reassign_running := False,
                                   slabs_moved := slabs_moved (stats ?s8) + 1\<rparr>\<rparr>"
  have ci: "class_index (int a) = Some a" "class_index (int b) = Some b"
    using class_index_int [OF ab(3) pl] class_index_int [OF ab(4) pl] .
  have "slab_rebalance_finish s = Some ?s'"
    using nl s6(1) by (simp add: slab_rebalance_finish_def lock_simps ab ab(5) [symmetric] ci ix Let_def)
  moreover have "freelists ?s' (F(b := rev (page_chunks s b ?p) @ F b))"
    using s6(2) by (rule freelists_frame) (simp_all add: cache_lock_release_def slabs_lock_release_def)
  ultimately show ?thesis using ab(5)
    by (intro exI [of _ ?s']) (simp add: s6(3) cache_lock_release_def slabs_lock_release_def k_def l_def)
qed

section \<open>The allocator as an interface\<close>

text \<open>What the item code relies on.  \<open>rel s F\<close>: the free chunks of each class are the lists \<open>F\<close>;
  \<open>fit s p\<close>: \<open>p\<close> is a chunk that may be given back; \<open>room\<close> bounds a free list.\<close>

locale chunk_allocator =
  fixes rel :: "'s \<Rightarrow> (nat \<Rightarrow> ptr list) \<Rightarrow> bool"
    and valid :: "'s \<Rightarrow> nat \<Rightarrow> bool"
    and returnable :: "'s \<Rightarrow> ptr \<Rightarrow> bool"
    and alloc :: "u64 \<Rightarrow> nat \<Rightarrow> 's \<Rightarrow> (ptr \<times> 's) option"
    and free :: "ptr \<Rightarrow> u64 \<Rightarrow> nat \<Rightarrow> 's \<Rightarrow> 's option"
    and room :: nat
  assumes alloc_rel: "rel s F \<Longrightarrow> valid s c \<Longrightarrow> F c = p # ps \<Longrightarrow>
          \<exists>s'. alloc n c s = Some (p, s') \<and> rel s' (F(c := ps)) \<and> valid s' = valid s"
    and free_rel: "rel s F \<Longrightarrow> valid s c \<Longrightarrow> returnable s p \<Longrightarrow> \<forall>d. valid s d \<longrightarrow> p \<notin> set (F d) \<Longrightarrow>
          length (F c) < room \<Longrightarrow>
          \<exists>s'. free p n c s = Some s' \<and> rel s' (F(c := p # F c)) \<and> valid s' = valid s"
    and rel_distinct: "rel s F \<Longrightarrow> valid s c \<Longrightarrow> distinct (F c)"
    and rel_disjoint: "rel s F \<Longrightarrow> valid s c \<Longrightarrow> valid s d \<Longrightarrow> c \<noteq> d \<Longrightarrow> set (F c) \<inter> set (F d) = {}"
begin

text \<open>A chunk just freed is the next one allocated, and the free lists are as before.\<close>

lemma alloc_after_free:
  assumes "rel s F" "valid s c" "returnable s p" "\<forall>d. valid s d \<longrightarrow> p \<notin> set (F d)" "length (F c) < room"
  shows "\<exists>s1 s2. free p n c s = Some s1 \<and> alloc m c s1 = Some (p, s2) \<and> rel s2 F"
proof -
  from free_rel [OF assms] obtain s1 where s1: "free p n c s = Some s1" "rel s1 (F(c := p # F c))"
    "valid s1 = valid s" by blast
  then have "\<exists>s2. alloc m c s1 = Some (p, s2) \<and> rel s2 ((F(c := p # F c))(c := F c)) \<and> valid s2 = valid s1"
    using assms(2) by (intro alloc_rel) simp_all
  with s1(1) show ?thesis by auto
qed

text \<open>Two allocations in a row never return the same chunk, from whichever classes.\<close>

lemma alloc_twice_distinct:
  assumes r: "rel s F" and v: "valid s c" "valid s d" and a: "alloc n c s = Some (p, s1)" "alloc m d s1 = Some (q, s2)"
    and ne: "F c \<noteq> []" "d = c \<Longrightarrow> tl (F c) \<noteq> []" "F d \<noteq> []"
  shows "p \<noteq> q"
proof -
  obtain ps where Fc: "F c = hd (F c) # ps" using ne(1) by (cases "F c") auto
  from alloc_rel [OF r v(1) Fc, of n] a(1) have p: "p = hd (F c)" "rel s1 (F(c := ps))" "valid s1 = valid s"
    by auto
  show ?thesis
  proof (cases "d = c")
    case True
    with ne(2) Fc obtain qs where ps: "ps = hd ps # qs" by (metis list.collapse list.sel(3))
    have "(F(c := ps)) c = hd ps # qs" using ps by simp
    from alloc_rel [OF p(2) _ this, of m] v(1) p(3) a(2) True have "q = hd ps" by auto
    moreover have "hd ps \<in> set ps" using ps by (metis list.set_intros(1))
    moreover have "hd (F c) \<notin> set ps" using rel_distinct [OF r v(1)] Fc by (metis distinct.simps(2))
    ultimately show ?thesis using p(1) by auto
  next
    case False
    obtain qs where Fd: "F d = hd (F d) # qs" using ne(3) by (cases "F d") auto
    have "(F(c := ps)) d = hd (F d) # qs" using Fd False by simp
    from alloc_rel [OF p(2) _ this, of m] v(2) p(3) a(2) have "q = hd (F d)" by auto
    moreover have "hd (F c) \<in> set (F c)" "hd (F d) \<in> set (F d)" using ne(1,3) by simp_all
    ultimately show ?thesis using rel_disjoint [OF r v(1,2)] False p(1) by auto
  qed
qed

end

interpretation slab_alloc: chunk_allocator
  "\<lambda>s F. freelists s F \<and> \<not> slabs_lock s" "\<lambda>s c. c \<in> classes s"
  "\<lambda>s p. p \<noteq> NULL \<and> it_slabs_clsid (heap s p) = 0"
  "slabs_alloc env" slabs_free "2 ^ 32 - 1"
proof
  fix s :: "'a slabs_state_scheme" and F c p ps n
  assume r: "freelists s F \<and> \<not> slabs_lock s" and c: "c \<in> classes s" and F: "F c = p # ps"
  let ?s1 = "s\<lparr>slabs_lock := True\<rparr>"
  have "freelists ?s1 F" by (rule freelists_frame [of s]) (use r in auto)
  moreover have "c \<in> classes ?s1" using c by (simp add: classes_def)
  ultimately obtain s2 h cl where s2: "do_slabs_alloc env n c ?s1 = Some (p, s2)" "freelists s2 (F(c := ps))"
    "s2 = ?s1\<lparr>heap := h, slabclass := cl\<rparr>"
    using do_slabs_alloc_freelists [of ?s1 F c p ps env n] F by blast
  have "freelists (slabs_lock_release s2) (F(c := ps))"
    using s2(2) by (rule freelists_frame) (simp_all add: slabs_lock_release_def)
  moreover have "slabs_alloc env n c s = Some (p, slabs_lock_release s2)"
    using r s2(1) by (simp add: slabs_alloc_def lock_simps)
  moreover have "classes (slabs_lock_release s2) = classes s" "\<not> slabs_lock (slabs_lock_release s2)"
    by (simp_all add: s2(3) slabs_lock_release_def classes_def)
  ultimately show "\<exists>s'. slabs_alloc env n c s = Some (p, s') \<and>
      (freelists s' (F(c := ps)) \<and> \<not> slabs_lock s') \<and> (\<lambda>c. c \<in> classes s') = (\<lambda>c. c \<in> classes s)"
    by (intro exI [of _ "slabs_lock_release s2"]) simp
next
  fix s :: "'a slabs_state_scheme" and F c p n
  assume r: "freelists s F \<and> \<not> slabs_lock s" and c: "c \<in> classes s"
    and p: "p \<noteq> NULL \<and> it_slabs_clsid (heap s p) = 0" and new: "\<forall>d. d \<in> classes s \<longrightarrow> p \<notin> set (F d)"
    and len: "length (F c) < 2 ^ 32 - 1"
  let ?s1 = "s\<lparr>slabs_lock := True\<rparr>"
  have f1: "freelists ?s1 F" by (rule freelists_frame [of s]) (use r in auto)
  have cl: "classes ?s1 = classes s" by (simp add: classes_def)
  obtain s2 h cl where s2: "do_slabs_free p n c ?s1 = Some s2" "freelists s2 (F(c := p # F c))"
    "s2 = ?s1\<lparr>heap := h, slabclass := cl\<rparr>"
    using do_slabs_free_freelists [OF f1, of c p n] c p new len unfolding cl by auto
  have "freelists (slabs_lock_release s2) (F(c := p # F c))"
    using s2(2) by (rule freelists_frame) (simp_all add: slabs_lock_release_def)
  moreover have "slabs_free p n c s = Some (slabs_lock_release s2)"
    using r s2(1) by (simp add: slabs_free_def lock_simps)
  moreover have "classes (slabs_lock_release s2) = classes s" "\<not> slabs_lock (slabs_lock_release s2)"
    by (simp_all add: s2(3) slabs_lock_release_def classes_def)
  ultimately show "\<exists>s'. slabs_free p n c s = Some s' \<and>
      (freelists s' (F(c := p # F c)) \<and> \<not> slabs_lock s') \<and> (\<lambda>c. c \<in> classes s') = (\<lambda>c. c \<in> classes s)"
    by (intro exI [of _ "slabs_lock_release s2"]) simp
next
  fix s :: "'a slabs_state_scheme" and F c
  assume "freelists s F \<and> \<not> slabs_lock s" "c \<in> classes s"
  then show "distinct (F c)" by (blast intro: freelist_distinct freelistsD(1))
next
  fix s :: "'a slabs_state_scheme" and F c d
  assume "freelists s F \<and> \<not> slabs_lock s" "c \<in> classes s" "d \<in> classes s" "c \<noteq> d"
  then show "set (F c) \<inter> set (F d) = {}" by (blast dest: freelistsD(2))
qed

section \<open>The state at process start\<close>

text \<open>The static initialisers of \<open>slabs.c\<close> on top of those of \<open>assoc.c\<close>.\<close>

definition slabs_boot :: "(bytes \<Rightarrow> u32) \<Rightarrow> (ptr \<Rightarrow> item) \<Rightarrow> slabs_state" where
  "slabs_boot hash mem = assoc_state.extend (assoc_boot hash mem)
     (slabs_state.fields (\<lambda>_. zero_class) 0 0 0 NULL NULL 0
        \<lparr>slab_start = NULL, slab_end = NULL, slab_pos = NULL, s_clsid = 0, d_clsid = 0,
         busy_items = 0, rebal_done = 0\<rparr> 0 0)"

lemma slabs_boot_fields [simp]:
  "heap (slabs_boot hash mem) = mem" "settings (slabs_boot hash mem) = settings_init"
  "slabs_lock (slabs_boot hash mem) = False" "cache_lock (slabs_boot hash mem) = False"
  "mem_base (slabs_boot hash mem) = NULL" "slabclass (slabs_boot hash mem) = (\<lambda>_. zero_class)"
  by (simp_all add: slabs_boot_def assoc_state.extend_def slabs_state.fields_def assoc_boot_def)

text \<open>The default start: no memory limit, factor 1.25, no preallocation.\<close>

declare slabs_init_loop.simps [simp del]

lemma slabs_init_loop_frame:
  "slabs_init_loop f i sz s = (n, s') \<Longrightarrow> heap s' = heap s \<and> slabs_lock s' = slabs_lock s \<and>
     cache_lock s' = cache_lock s \<and> settings s' = settings s \<and> mem_base s' = mem_base s"
proof (induction f i sz s rule: slabs_init_loop.induct)
  case (1 f i sz s)
  show ?case
  proof (cases "i + 1 < POWER_LARGEST \<and>
         of_nat (unat sz) \<le> dbl_round (of_nat (item_size_max (settings s)) / f)")
    case True
    from 1(1) [OF True refl refl] 1(2) True show ?thesis
      by (simp add: slabs_init_loop.simps [of f i sz s] Let_def)
  next
    case False
    with 1(2) show ?thesis by (subst (asm) slabs_init_loop.simps) (auto split: if_splits)
  qed
qed

lemma slabs_init_default:
  "\<exists>s. slabs_init 0 (5 / 4) False NULL None envs (slabs_boot hash mem) = Some s \<and>
     heap s = mem \<and> \<not> slabs_lock s \<and> \<not> cache_lock s \<and> settings s = settings_init \<and> mem_base s = NULL"
proof -
  let ?s3 = "(slabs_boot hash mem)\<lparr>mem_limit := 0, slabclass := (\<lambda>_. zero_class)\<rparr>"
  let ?sz = "ucast sizeof_item + of_nat (chunk_size (settings (slabs_boot hash mem))) :: u32"
  obtain n s4 where s4: "slabs_init_loop (5 / 4) (POWER_SMALLEST - 1) ?sz ?s3 = (n, s4)"
    by (cases "slabs_init_loop (5 / 4) (POWER_SMALLEST - 1) ?sz ?s3") blast
  from slabs_init_loop_frame [OF s4] s4 show ?thesis by (simp add: slabs_init_def Let_def)
qed

section \<open>Runs of the allocator\<close>

text \<open>The geometry of the pages: which operations leave it alone, and which page
  \<open>do_slabs_newslab\<close> adds.\<close>

definition same_pages :: "'a slabs_state_scheme \<Rightarrow> 'a slabs_state_scheme \<Rightarrow> bool" where
  "same_pages s s' \<longleftrightarrow> settings s' = settings s \<and> power_largest s' = power_largest s \<and>
     mem_base s' = mem_base s \<and> slabs_lock s' = slabs_lock s \<and>
     (\<forall>c. sc_size (slabclass s' c) = sc_size (slabclass s c) \<and>
          sc_perslab (slabclass s' c) = sc_perslab (slabclass s c) \<and>
          sc_slabs (slabclass s' c) = sc_slabs (slabclass s c) \<and>
          sc_slab_list (slabclass s' c) = sc_slab_list (slabclass s c))"

definition add_page :: "nat \<Rightarrow> ptr \<Rightarrow> 'a slabs_state_scheme \<Rightarrow> 'a slabs_state_scheme" where
  "add_page c p s = upd_class c (\<lambda>q. q\<lparr>sc_slab_list := (sc_slab_list q)(unat (sc_slabs q) := p),
     sc_slabs := sc_slabs q + 1\<rparr>) s"

lemma same_pages_refl [simp]: "same_pages s s"
  by (simp add: same_pages_def)

lemma same_pages_trans: "same_pages s t \<Longrightarrow> same_pages t u \<Longrightarrow> same_pages s u"
  by (simp add: same_pages_def)

lemma same_pages_add: "same_pages s t \<Longrightarrow> same_pages (add_page c p s) (add_page c p t)"
  by (simp add: same_pages_def add_page_def)

lemma same_pages_classes: "same_pages s s' \<Longrightarrow> classes s' = classes s"
  by (simp add: same_pages_def classes_def)

lemma upd_item_if_locks [simp]: "slabs_lock (upd_item_if p f s) = slabs_lock s"
  by (simp add: upd_item_if_def)

lemma do_slabs_free_pages: "do_slabs_free p n c s = Some s' \<Longrightarrow> same_pages s s'"
  by (auto simp: do_slabs_free_def Let_def same_pages_def)

lemma split_loop_pages: "split_loop n p c s = Some s' \<Longrightarrow> same_pages s s'"
proof (induction n arbitrary: p s)
  case (Suc n)
  then obtain s1 where "do_slabs_free p 0 c s = Some s1"
    "split_loop n (p + unat (sc_size (slabclass s c))) c s1 = Some s'"
    by (auto split: Option.bind_splits)
  with Suc.IH do_slabs_free_pages show ?case by (blast intro: same_pages_trans)
qed simp

lemma zero_mem_pages: "same_pages s (zero_mem p n s)"
  by (simp add: same_pages_def zero_mem_def)

lemma grow_slab_list_pages: "grow_slab_list ok c s = (b, s') \<Longrightarrow> same_pages s s'"
  by (auto simp: same_pages_def dest!: grow_slab_list_frame)

lemma memory_allocate_pages: "memory_allocate page n s = (p, s') \<Longrightarrow> same_pages s s'"
  by (auto simp: same_pages_def dest!: memory_allocate_frame)

lemma do_slabs_newslab_pages:
  assumes "do_slabs_newslab env c s = Some (b, s')"
  shows "if b then same_pages (add_page c (fst (memory_allocate (malloc_page env) (page_len c s)
                      (snd (grow_slab_list (realloc_ok env) c s)))) s) s'
         else same_pages s s'"
proof -
  obtain g s1 where g: "grow_slab_list (realloc_ok env) c s = (g, s1)" by force
  obtain p s2 where m: "memory_allocate (malloc_page env) (page_len c s) s1 = (p, s2)" by force
  note sp = grow_slab_list_pages [OF g] memory_allocate_pages [OF m]
  show ?thesis
  proof (cases b)
    case False
    with assms sp show ?thesis
      by (auto simp: do_slabs_newslab_def Let_def g m split: if_splits bool.splits Option.bind_splits
          intro: same_pages_trans)
  next
    case True
    with assms obtain s3 where s3: "split_slab_page_into_freelist p c (zero_mem p (unat (page_len c s)) s2) = Some s3"
      and s': "s' = (add_page c p s3)\<lparr>mem_malloced := mem_malloced (add_page c p s3) + page_len c s\<rparr>"
      by (auto simp: do_slabs_newslab_def Let_def g m add_page_def split: if_splits bool.splits Option.bind_splits)
    have "same_pages (zero_mem p (unat (page_len c s)) s2) s3"
      using s3 unfolding split_slab_page_into_freelist_def by (rule split_loop_pages)
    with sp zero_mem_pages have "same_pages s s3" by (blast intro: same_pages_trans)
    then have "same_pages (add_page c p s) (add_page c p s3)" by (rule same_pages_add)
    moreover have "same_pages (add_page c p s3) s'" by (simp add: s' same_pages_def)
    ultimately show ?thesis using True g m by (auto intro: same_pages_trans)
  qed
qed

lemma upd_class_pages [simp]:
  "same_pages s t \<Longrightarrow> same_pages s (upd_class c (\<lambda>q. q\<lparr>sc_slots := f q\<rparr>) t)"
  "same_pages s t \<Longrightarrow> same_pages s (upd_class c (\<lambda>q. q\<lparr>sc_sl_curr := g q\<rparr>) t)"
  "same_pages s t \<Longrightarrow> same_pages s (upd_class c (\<lambda>q. q\<lparr>sc_requested := r q\<rparr>) t)"
  "same_pages s t \<Longrightarrow> same_pages s (upd_item_if p h t)"
  by (simp_all add: same_pages_def upd_item_if_def)

lemma do_slabs_alloc_pages:
  assumes "do_slabs_alloc env n c s = Some (p, s')" "sc_sl_curr (slabclass s c) \<noteq> 0"
  shows "same_pages s s'"
  using assms by (auto simp: do_slabs_alloc_def Let_def split: if_splits)

text \<open>The pages and the chunks of a class.\<close>

definition page_at :: "'a slabs_state_scheme \<Rightarrow> nat \<Rightarrow> nat \<Rightarrow> ptr" where
  "page_at s c k = sc_slab_list (slabclass s c) k"

definition n_pages :: "'a slabs_state_scheme \<Rightarrow> nat \<Rightarrow> nat" where
  "n_pages s c = unat (sc_slabs (slabclass s c))"

abbreviation csize :: "'a slabs_state_scheme \<Rightarrow> nat \<Rightarrow> nat" where
  "csize s c \<equiv> unat (sc_size (slabclass s c))"

definition class_chunks :: "'a slabs_state_scheme \<Rightarrow> nat \<Rightarrow> ptr set" where
  "class_chunks s c = (\<Union>k<n_pages s c. set (page_chunks s c (page_at s c k)))"

definition apart :: "nat \<Rightarrow> nat \<Rightarrow> nat \<Rightarrow> nat \<Rightarrow> bool" where
  "apart a m b n \<longleftrightarrow> a + m \<le> b \<or> b + n \<le> a"

definition pages_apart :: "'a slabs_state_scheme \<Rightarrow> bool" where
  "pages_apart s \<longleftrightarrow> (\<forall>c\<in>classes s. \<forall>d\<in>classes s. \<forall>k<n_pages s c. \<forall>l<n_pages s d.
     (c, k) \<noteq> (d, l) \<longrightarrow> apart (page_at s c k) (unat (page_len c s)) (page_at s d l) (unat (page_len d s)))"

text \<open>\<open>alloc_inv m s F L\<close>: with page size \<open>m\<close>, the free lists \<open>F\<close> and the live chunks \<open>L\<close> of each
  class partition the chunks of its pages, and no two pages overlap.\<close>

definition alloc_inv :: "nat \<Rightarrow> 'a slabs_state_scheme \<Rightarrow> (nat \<Rightarrow> ptr list) \<Rightarrow> (nat \<Rightarrow> ptr set) \<Rightarrow> bool" where
  "alloc_inv m s F L \<longleftrightarrow> classes_ok m s \<and> 0 < m \<and> m < 2 ^ 31 \<and> item_size_max (settings s) = m \<and>
     mem_base s = NULL \<and> freelists s F \<and> pages_apart s \<and>
     (\<forall>c\<in>classes s. set (F c) \<inter> L c = {} \<and> set (F c) \<union> L c = class_chunks s c \<and>
        n_pages s c * unat (sc_perslab (slabclass s c)) < 2 ^ 32) \<and>
     (\<forall>c. c \<notin> classes s \<longrightarrow> L c = {})"

lemma same_pages_eqs:
  assumes "same_pages s s'"
  shows "page_at s' = page_at s" "n_pages s' = n_pages s" "page_len c s' = page_len c s"
    "csize s' c = csize s c" "classes s' = classes s" "class_chunks s' = class_chunks s"
    "pages_apart s' = pages_apart s"
proof -
  note sp = assms [unfolded same_pages_def]
  show e: "page_at s' = page_at s" "n_pages s' = n_pages s" "csize s' c = csize s c" "classes s' = classes s"
    using sp by (auto simp: page_at_def [abs_def] n_pages_def [abs_def] classes_def intro!: ext)
  have len: "page_len c s' = page_len c s" for c using sp by (simp add: page_len_def)
  then show "page_len c s' = page_len c s" .
  show "class_chunks s' = class_chunks s" using sp e by (intro ext) (simp add: class_chunks_def)
  show "pages_apart s' = pages_apart s" by (simp add: pages_apart_def e len)
qed

lemma unat_scast_pos:
  fixes x :: u32
  assumes "unat x < 2 ^ 31"
  shows "unat (scast x :: u64) = unat x"
proof -
  have "int (unat x) < int (2 ^ 31)" using assms by (simp only: of_nat_less_iff)
  then have u: "uint x < 2 ^ 31" by simp
  have "\<not> bit (uint x) 31"
  proof -
    have "take_bit 31 (uint x) = uint x" using u by (simp add: take_bit_int_eq_self)
    then have "bit (uint x) 31 = bit (take_bit 31 (uint x)) 31" by (rule subst) (rule refl)
    then show ?thesis by (simp add: bit_take_bit_iff)
  qed
  then have "sint x = take_bit 31 (uint x)"
    by (simp add: sint_uint signed_take_bit_eq_if_positive)
  also have "\<dots> = uint x" using u by (simp add: take_bit_int_eq_self)
  finally have "uint (scast x :: u64) = uint x"
    using u by (simp add: scast_eq unsigned_ucast_eq take_bit_int_eq_self)
  then have "int (unat (scast x :: u64)) = int (unat x)" by simp
  then show ?thesis by (simp only: of_nat_eq_iff)
qed

lemma page_len_ge:
  assumes "classes_ok m s" "m < 2 ^ 31" "item_size_max (settings s) = m" "c \<in> classes s"
  shows "unat (sc_perslab (slabclass s c)) * csize s c \<le> unat (page_len c s)"
proof -
  have m: "m < 2 ^ 32" using assms(2) by simp
  note le = classes_okD(3) [OF assms(1,4) m]
  then have "unat (sc_size (slabclass s c) * sc_perslab (slabclass s c)) = csize s c * unat (sc_perslab (slabclass s c))"
    using m by (simp add: unat_mult_lem [THEN iffD1] mult.commute)
  then show ?thesis using le assms(2,3)
    by (auto simp: page_len_def unat_of_nat unat_scast_pos mult.commute)
qed

lemma apart_sym: "apart a m b n = apart b n a m"
  by (auto simp: apart_def)

lemma apart_sub:
  assumes "apart a m b n" "a \<le> a'" "a' + m' \<le> a + m" "b \<le> b'" "b' + n' \<le> b + n"
  shows "apart a' m' b' n'"
  using assms by (auto simp: apart_def)

lemma class_chunksE:
  assumes "p \<in> class_chunks s c"
  obtains k where "k < n_pages s c" "p \<in> set (page_chunks s c (page_at s c k))"
  using assms by (auto simp: class_chunks_def)

lemma chunk_in_page:
  assumes "classes_ok m s" "m < 2 ^ 31" "item_size_max (settings s) = m" "c \<in> classes s"
    and "p \<in> set (page_chunks s c b)"
  shows "b \<le> p" "p + csize s c \<le> b + unat (page_len c s)"
  using chunks_bounds [OF assms(5) page_len_ge [OF assms(1-4)]] by auto

lemma chunks_apart:
  assumes "p \<in> set (chunks b sz n)" "q \<in> set (chunks b sz n)" "p \<noteq> q"
  shows "apart p sz q sz"
proof -
  from assms(1,2) obtain i j where ij: "p = b + i * sz" "q = b + j * sz" by (auto simp: chunks_mem)
  with assms(3) have "i \<noteq> j" by auto
  then consider "Suc i \<le> j" | "Suc j \<le> i" by linarith
  then show ?thesis
  proof cases
    case 1
    then have "Suc i * sz \<le> j * sz" by (rule mult_right_mono) simp
    then show ?thesis using ij by (simp add: apart_def)
  next
    case 2
    then have "Suc j * sz \<le> i * sz" by (rule mult_right_mono) simp
    then show ?thesis using ij by (simp add: apart_def)
  qed
qed

lemma class_chunks_apart:
  assumes ok: "classes_ok m s" "m < 2 ^ 31" "item_size_max (settings s) = m" and pa: "pages_apart s"
    and c: "c \<in> classes s" "d \<in> classes s" and p: "p \<in> class_chunks s c" "q \<in> class_chunks s d"
    and ne: "(c, p) \<noteq> (d, q)"
  shows "apart p (csize s c) q (csize s d)"
proof -
  from p(1) obtain k where k: "k < n_pages s c" "p \<in> set (page_chunks s c (page_at s c k))" by (rule class_chunksE)
  from p(2) obtain l where l: "l < n_pages s d" "q \<in> set (page_chunks s d (page_at s d l))" by (rule class_chunksE)
  show ?thesis
  proof (cases "(c, k) = (d, l)")
    case True
    with k l ne show ?thesis by (auto intro: chunks_apart)
  next
    case False
    then have "apart (page_at s c k) (unat (page_len c s)) (page_at s d l) (unat (page_len d s))"
      using pa c k(1) l(1) unfolding pages_apart_def by blast
    with chunk_in_page [OF ok c(1) k(2)] chunk_in_page [OF ok c(2) l(2)] show ?thesis
      by (blast intro: apart_sub)
  qed
qed

text \<open>Where \<open>malloc\<close> may put a new page: nowhere, or apart from all pages in use.\<close>

definition new_page_ok :: "alloc_env \<Rightarrow> nat \<Rightarrow> 'a slabs_state_scheme \<Rightarrow> bool" where
  "new_page_ok env c s \<longleftrightarrow> malloc_page env = NULL \<or>
     (\<forall>d\<in>classes s. \<forall>l<n_pages s d.
        apart (malloc_page env) (unat (page_len c s)) (page_at s d l) (unat (page_len d s)))"

lemma add_page_eqs:
  assumes "n_pages s c + 1 < 2 ^ 32"
  shows "n_pages (add_page c p s) = (n_pages s)(c := n_pages s c + 1)"
    and "page_at (add_page c p s) d k = (if d = c \<and> k = n_pages s c then p else page_at s d k)"
    and "page_len d (add_page c p s) = page_len d s" "csize (add_page c p s) d = csize s d"
    and "sc_perslab (slabclass (add_page c p s) d) = sc_perslab (slabclass s d)"
    and "classes (add_page c p s) = classes s"
proof -
  have "unat (sc_slabs (slabclass s c) + 1) = n_pages s c + 1"
    using assms by (simp add: n_pages_def unat_add_lem [THEN iffD1])
  then show "n_pages (add_page c p s) = (n_pages s)(c := n_pages s c + 1)"
    by (auto simp: n_pages_def add_page_def)
qed (simp_all add: add_page_def page_at_def n_pages_def page_len_def classes_def)

lemma add_page_chunks:
  assumes "n_pages s c + 1 < 2 ^ 32"
  shows "class_chunks (add_page c p s) d =
    (if d = c then class_chunks s c \<union> set (page_chunks s c p) else class_chunks s d)"
  unfolding class_chunks_def add_page_eqs [OF assms] by (auto simp: lessThan_Suc)

lemma add_page_apart:
  assumes "pages_apart s" "malloc_page env \<noteq> NULL" "new_page_ok env c s" "n_pages s c + 1 < 2 ^ 32"
  shows "pages_apart (add_page c (malloc_page env) s)"
  unfolding pages_apart_def add_page_eqs [OF assms(4)]
proof (intro ballI allI impI)
  let ?p = "malloc_page env" and ?n = "n_pages s c"
  let ?pg = "\<lambda>d k. if d = c \<and> k = ?n then ?p else page_at s d k"
  fix d e k l
  assume de: "d \<in> classes s" "e \<in> classes s" and kl: "k < ((n_pages s)(c := ?n + 1)) d"
    "l < ((n_pages s)(c := ?n + 1)) e" and ne: "(d, k) \<noteq> (e, l)"
  have old: "k < n_pages s d" if "\<not> (d = c \<and> k = ?n)" using that kl(1) by (auto split: if_splits)
  have old': "l < n_pages s e" if "\<not> (e = c \<and> l = ?n)" using that kl(2) by (auto split: if_splits)
  have new: "apart ?p (unat (page_len c s)) (page_at s d l) (unat (page_len d s))"
    if "d \<in> classes s" "l < n_pages s d" for d l
    using assms(2) assms(3) [unfolded new_page_ok_def] that by simp
  show "apart (?pg d k) (unat (page_len d s)) (?pg e l) (unat (page_len e s))"
  proof (cases "d = c \<and> k = ?n")
    case True
    with ne have "\<not> (e = c \<and> l = ?n)" by auto
    with True new [OF de(2) old'] show ?thesis by (auto simp: apart_sym)
  next
    case False
    show ?thesis
    proof (cases "e = c \<and> l = ?n")
      case True
      with False new [OF de(1) old] show ?thesis by (auto simp: apart_sym)
    next
      case False2: False
      with False show ?thesis
        using assms(1) de old old' ne unfolding pages_apart_def by auto
    qed
  qed
qed

lemma newslab_cases:
  assumes f: "freelists s F" and c: "c \<in> classes s" and mb: "mem_base s = NULL" and e: "F c = []"
    and fresh: "malloc_page env = NULL \<or> page_fresh s F (malloc_page env) (unat (page_len c s))"
    and fit: "chunks_fit s c (unat (page_len c s))"
  obtains s1 where "do_slabs_newslab env c s = Some (False, s1)" "freelists s1 F" "same_pages s s1"
  | s1 where "do_slabs_newslab env c s = Some (True, s1)" "malloc_page env \<noteq> NULL"
      "freelists s1 (F(c := rev (page_chunks s c (malloc_page env))))"
      "same_pages (add_page c (malloc_page env) s) s1"
proof -
  obtain g s1 where g: "grow_slab_list (realloc_ok env) c s = (g, s1)" by force
  obtain n where s1: "s1 = upd_class c (\<lambda>p. p\<lparr>sc_list_size := n\<rparr>) s"
    using grow_slab_list_frame [OF g] by blast
  have f1: "freelists s1 F" by (rule freelists_frame [OF f]) (auto simp: s1)
  have m: "memory_allocate (malloc_page env) len s1 = (malloc_page env, s1)" for len
    using mb by (simp add: memory_allocate_def s1)
  let ?lim = "mem_limit s = 0 \<or> mem_malloced s + page_len c s \<le> mem_limit s \<or> sc_slabs (slabclass s c) = 0"
  show thesis
  proof (cases "?lim \<and> g \<and> malloc_page env \<noteq> NULL")
    case True
    have "\<exists>s'. do_slabs_newslab env c s = Some (True, s') \<and>
       freelists s' (F(c := rev (page_chunks s c (malloc_page env)) @ F c)) \<and> classes s' = classes s \<and>
       sc_slabs (slabclass s' c) = sc_slabs (slabclass s c) + 1 \<and>
       sc_slab_list (slabclass s' c) (unat (sc_slabs (slabclass s c))) = malloc_page env \<and>
       mem_malloced s' = mem_malloced s + page_len c s"
    proof (rule do_slabs_newslab_freelists [OF f c])
      show "unat (sc_perslab (slabclass s c)) + length (F c) < 2 ^ 32"
        using e unsigned_less [of "sc_perslab (slabclass s c)"] by simp
    qed (use True fresh fit in \<open>simp_all add: g m\<close>)
    then obtain s' where s': "do_slabs_newslab env c s = Some (True, s')"
       "freelists s' (F(c := rev (page_chunks s c (malloc_page env))))" using e by auto
    from do_slabs_newslab_pages [OF s'(1)] have "same_pages (add_page c (malloc_page env) s) s'"
      by (simp add: g m)
    with s' True that(2) show ?thesis by blast
  next
    case False
    then have "do_slabs_newslab env c s = Some (False, s) \<or> do_slabs_newslab env c s = Some (False, s1)"
      by (cases g) (auto simp: do_slabs_newslab_def Let_def g m not_le word_gt_0)
    then obtain s' where s': "do_slabs_newslab env c s = Some (False, s')" "s' = s \<or> s' = s1" by blast
    with f f1 do_slabs_newslab_pages [OF s'(1)] that(1) show ?thesis by auto
  qed
qed

lemma alloc_invD:
  assumes "alloc_inv m s F L"
  shows "classes_ok m s" "0 < m" "m < 2 ^ 31" "item_size_max (settings s) = m" "mem_base s = NULL"
    "freelists s F" "pages_apart s"
    and "c \<in> classes s \<Longrightarrow> set (F c) \<inter> L c = {}"
    and "c \<in> classes s \<Longrightarrow> set (F c) \<union> L c = class_chunks s c"
    and "c \<in> classes s \<Longrightarrow> n_pages s c * unat (sc_perslab (slabclass s c)) < 2 ^ 32"
    and "c \<notin> classes s \<Longrightarrow> L c = {}"
  using assms unfolding alloc_inv_def by blast+

lemma alloc_inv_chunk_ok:
  assumes "alloc_inv m s F L" "c \<in> classes s"
  shows "0 < csize s c" "chunks_fit s c (unat (page_len c s))" "0 < unat (sc_perslab (slabclass s c))"
proof -
  note i = alloc_invD(1-4) [OF assms(1)]
  have m: "m < 2 ^ 32" using i(3) by simp
  show "0 < csize s c" using classes_okD(1) [OF i(1) assms(2) m i(2)] by (simp add: word_less_nat_alt)
  with page_len_ge [OF i(1,3,4) assms(2)] show "chunks_fit s c (unat (page_len c s))"
    by (simp add: chunks_fit_def word_less_nat_alt)
  show "0 < unat (sc_perslab (slabclass s c))"
  proof (cases "c = power_largest s")
    case True
    then show ?thesis using i(1) by (simp add: classes_ok_def)
  next
    case False
    with i(1) assms(2) have "sc_perslab (slabclass s c) = of_nat m div sc_size (slabclass s c)"
      by (auto simp: classes_ok_def sizes_ok_def classes_def)
    moreover have "unat (of_nat m :: u32) = m" using m by (simp add: unat_of_nat)
    ultimately have "unat (sc_perslab (slabclass s c)) = m div csize s c" by (simp add: unat_div)
    then show ?thesis using classes_okD(2) [OF i(1) assms(2) m] \<open>0 < csize s c\<close>
      by (simp add: div_greater_zero_iff)
  qed
qed

lemma alloc_inv_same_pages:
  assumes "alloc_inv m s F L" "same_pages s s'" "freelists s' F'"
    and "\<And>c. c \<in> classes s \<Longrightarrow> set (F' c) \<inter> L' c = {} \<and> set (F' c) \<union> L' c = set (F c) \<union> L c"
    and "\<And>c. c \<notin> classes s \<Longrightarrow> L' c = {}"
  shows "alloc_inv m s' F' L'"
proof -
  note e = same_pages_eqs [OF assms(2)] and sp = assms(2) [unfolded same_pages_def]
  note i = alloc_invD [OF assms(1)]
  have ok: "classes_ok m s'" using i(1) sp by (simp add: classes_ok_def sizes_ok_def)
  have parts: "set (F' c) \<inter> L' c = {} \<and> set (F' c) \<union> L' c = class_chunks s c \<and>
      n_pages s c * unat (sc_perslab (slabclass s' c)) < 2 ^ 32" if "c \<in> classes s" for c
    using assms(4) [OF that] i(9,10) [OF that] sp by simp
  show ?thesis unfolding alloc_inv_def e
    using i(2-7) sp ok assms(3,5) parts by simp
qed

lemma page_fresh_new:
  assumes i: "alloc_inv m s F L" and c: "c \<in> classes s" and n: "new_page_ok env c s"
    and ne: "malloc_page env \<noteq> NULL"
  shows "page_fresh s F (malloc_page env) (unat (page_len c s))"
    and "\<And>d. d \<in> classes s \<Longrightarrow> set (page_chunks s c (malloc_page env)) \<inter> class_chunks s d = {}"
proof -
  note j = alloc_invD [OF i]
  let ?p = "malloc_page env" and ?len = "unat (page_len c s)"
  have out: "q < ?p \<or> ?p + ?len \<le> q" if d: "d \<in> classes s" and q: "q \<in> class_chunks s d" for d q
  proof -
    from q obtain l where l: "l < n_pages s d" "q \<in> set (page_chunks s d (page_at s d l))" by (rule class_chunksE)
    have "apart ?p ?len (page_at s d l) (unat (page_len d s))"
      using n ne d l(1) unfolding new_page_ok_def by simp
    with chunk_in_page [OF j(1,3,4) d l(2)] alloc_inv_chunk_ok(1) [OF i d] show ?thesis
      by (auto simp: apart_def)
  qed
  then show "page_fresh s F ?p ?len"
    using ne j(9) unfolding page_fresh_def by blast
  show "set (page_chunks s c ?p) \<inter> class_chunks s d = {}" if d: "d \<in> classes s" for d
  proof -
    have "q \<notin> class_chunks s d" if "q \<in> set (page_chunks s c ?p)" for q
      using out [OF d, of q] chunk_in_page [OF j(1,3,4) c that] alloc_inv_chunk_ok(1) [OF i c] by auto
    then show ?thesis by blast
  qed
qed

lemma alloc_inv_add_page:
  assumes i: "alloc_inv m s F L" and c: "c \<in> classes s" and n: "new_page_ok env c s"
    and ne: "malloc_page env \<noteq> NULL" and e: "F c = []"
    and room: "(n_pages s c + 1) * unat (sc_perslab (slabclass s c)) < 2 ^ 32"
    and sp: "same_pages (add_page c (malloc_page env) s) s1"
    and f: "freelists s1 (F(c := rev (page_chunks s c (malloc_page env))))"
  shows "alloc_inv m s1 (F(c := rev (page_chunks s c (malloc_page env)))) L"
proof -
  note j = alloc_invD [OF i]
  let ?p = "malloc_page env" and ?s' = "add_page c (malloc_page env) s"
  have np: "n_pages s c + 1 < 2 ^ 32"
  proof -
    have "(n_pages s c + 1) * 1 \<le> (n_pages s c + 1) * unat (sc_perslab (slabclass s c))"
      using alloc_inv_chunk_ok(3) [OF i c] by (intro mult_le_mono2) simp
    from this room have "(n_pages s c + 1) * 1 < 2 ^ 32" by (rule le_less_trans)
    then show ?thesis by simp
  qed
  note ap = add_page_eqs [OF np] add_page_chunks [OF np]
  note e1 = same_pages_eqs [OF sp] and sp1 = sp [unfolded same_pages_def]
  have sz: "sc_size (slabclass ?s' d) = sc_size (slabclass s d)" "power_largest ?s' = power_largest s"
    "mem_base ?s' = mem_base s" for d by (simp_all add: add_page_def)
  have ok: "classes_ok m s1" using j(1) sp1 by (simp add: classes_ok_def sizes_ok_def ap(5) sz)
  have pa: "pages_apart ?s'" by (rule add_page_apart [OF j(7) ne n np])
  have parts: "set ((F(c := rev (page_chunks s c ?p))) d) \<inter> L d = {} \<and>
      set ((F(c := rev (page_chunks s c ?p))) d) \<union> L d = class_chunks ?s' d \<and>
      n_pages ?s' d * unat (sc_perslab (slabclass s1 d)) < 2 ^ 32" if d: "d \<in> classes s" for d
  proof -
    have pl: "sc_perslab (slabclass s1 d) = sc_perslab (slabclass s d)" using sp1 by (simp add: ap(5))
    show ?thesis
    proof (cases "d = c")
      case True
      have "L c = class_chunks s c" using j(9) [OF c] e by simp
      with True page_fresh_new(2) [OF i c n ne c] room pl show ?thesis by (simp add: ap) blast
    next
      case False
      with j(8-10) [OF d] pl show ?thesis by (simp add: ap)
    qed
  qed
  have "settings s1 = settings s" "mem_base s1 = mem_base s" using sp1 by (simp_all add: add_page_def)
  then show ?thesis unfolding alloc_inv_def e1 ap(6)
    using j(2-5,11) ok pa f parts by simp
qed

text \<open>Allocation returns NULL or a chunk that was not live, and frees nothing.\<close>

lemma do_slabs_alloc_inv:
  assumes i: "alloc_inv m s F L" and c: "c \<in> classes s" and n: "new_page_ok env c s"
    and room: "(n_pages s c + 1) * unat (sc_perslab (slabclass s c)) < 2 ^ 32"
  shows "\<exists>p s' F'. do_slabs_alloc env sz c s = Some (p, s') \<and>
    (if p = NULL then alloc_inv m s' F' L
     else p \<notin> L c \<and> alloc_inv m s' F' (L(c := insert p (L c)))) \<and> classes s' = classes s"
proof -
  have take: "\<exists>s' F'. do_slabs_alloc env sz c t = Some (p, s') \<and> p \<noteq> NULL \<and> p \<notin> L c \<and>
     alloc_inv m s' F' (L(c := insert p (L c))) \<and> classes s' = classes t"
    if it: "alloc_inv m t G L" and Gc: "G c = p # ps" and ct: "c \<in> classes t" for t G p ps
  proof -
    note j = alloc_invD [OF it]
    have fl: "freelist (heap t) (slabclass t c) (p # ps)" using freelistsD(1) [OF j(6) ct] Gc by simp
    from do_slabs_alloc_freelists [OF j(6) ct Gc, of env sz] obtain s' where
      s': "do_slabs_alloc env sz c t = Some (p, s')" "freelists s' (G(c := ps))" by blast
    have "sc_sl_curr (slabclass t c) \<noteq> 0" using freelist_sl_curr_0 [OF fl] by simp
    with s'(1) have sp: "same_pages t s'" by (rule do_slabs_alloc_pages)
    have p: "p \<noteq> NULL" "p \<notin> set ps" using freelist_NULL [OF fl] freelist_distinct [OF fl] by auto
    have "p \<notin> L c" using j(8) [OF ct] Gc by auto
    moreover have "alloc_inv m s' (G(c := ps)) (L(c := insert p (L c)))"
      by (rule alloc_inv_same_pages [OF it sp s'(2)])
        (use Gc p j(8) [OF ct] j(8,11) ct in \<open>auto split: if_splits\<close>)
    ultimately show ?thesis using s'(1) p same_pages_classes [OF sp] by blast
  qed
  note j = alloc_invD [OF i]
  show ?thesis
  proof (cases "F c")
    case (Cons p ps)
    from take [OF i this c] show ?thesis by auto
  next
    case Nil
    have fresh: "malloc_page env = NULL \<or> page_fresh s F (malloc_page env) (unat (page_len c s))"
      using page_fresh_new(1) [OF i c n] by blast
    show ?thesis
    proof (rule newslab_cases [OF j(6) c j(5) Nil fresh alloc_inv_chunk_ok(2) [OF i c]])
      fix s1 assume s1: "do_slabs_newslab env c s = Some (False, s1)" "freelists s1 F" "same_pages s s1"
      have "alloc_inv m s1 F L"
        by (rule alloc_inv_same_pages [OF i s1(3,2)]) (use j(8,11) in auto)
      with do_slabs_alloc_fails [OF j(6) c Nil s1(1)] same_pages_classes [OF s1(3)] show ?thesis by auto
    next
      fix s1 assume s1: "do_slabs_newslab env c s = Some (True, s1)" "malloc_page env \<noteq> NULL"
        and f1: "freelists s1 (F(c := rev (page_chunks s c (malloc_page env))))"
        and sp: "same_pages (add_page c (malloc_page env) s) s1"
      let ?F1 = "F(c := rev (page_chunks s c (malloc_page env)))"
      have i1: "alloc_inv m s1 ?F1 L" by (rule alloc_inv_add_page [OF i c n s1(2) Nil room sp f1])
      have cl: "classes s1 = classes s"
        using same_pages_classes [OF sp] by (simp add: add_page_def classes_def)
      have "page_chunks s c (malloc_page env) \<noteq> []"
        using alloc_inv_chunk_ok(3) [OF i c] by (metis length_chunks less_irrefl list.size(3))
      then obtain q qs where q: "?F1 c = q # qs" by (cases "rev (page_chunks s c (malloc_page env))") auto
      have "c \<in> classes s1" using c cl by simp
      from take [OF i1 q this] do_slabs_alloc_newslab [OF j(6) c Nil s1(1) f1 cl q, of sz] cl
      show ?thesis by auto
    qed
  qed
qed

lemma live_chunk_room:
  assumes i: "alloc_inv m s F L" and c: "c \<in> classes s" and p: "p \<in> L c"
  shows "\<forall>d\<in>classes s. p \<notin> set (F d)" "Suc (length (F c)) < 2 ^ 32"
proof -
  note j = alloc_invD [OF i]
  have pc: "p \<in> class_chunks s c" using p j(9) [OF c] by blast
  have new: "p \<notin> set (F d)" if d: "d \<in> classes s" for d
  proof
    assume pd: "p \<in> set (F d)"
    show False
    proof (cases "d = c")
      case True
      with pd p j(8) [OF c] show False by blast
    next
      case False
      have "p \<in> class_chunks s d" using pd j(9) [OF d] by blast
      with class_chunks_apart [OF j(1,3,4,7) c d pc this] False alloc_inv_chunk_ok(1) [OF i c]
        alloc_inv_chunk_ok(1) [OF i d]
      show False by (auto simp: apart_def)
    qed
  qed
  show "Suc (length (F c)) < 2 ^ 32"
  proof -
    have dist: "distinct (F c)" by (rule freelist_distinct [OF freelistsD(1) [OF j(6) c]])
    have fin: "finite (class_chunks s c)" by (simp add: class_chunks_def)
    have "insert p (set (F c)) \<subseteq> class_chunks s c" using pc j(9) [OF c] by blast
    then have "card (insert p (set (F c))) \<le> card (class_chunks s c)" by (rule card_mono [OF fin])
    moreover have "card (insert p (set (F c))) = Suc (length (F c))"
      using new [OF c] dist by (simp add: distinct_card)
    moreover have "card (class_chunks s c) \<le> (\<Sum>k<n_pages s c. card (set (page_chunks s c (page_at s c k))))"
      unfolding class_chunks_def by (rule card_UN_le) simp
    moreover have "\<dots> \<le> (\<Sum>k<n_pages s c. unat (sc_perslab (slabclass s c)))"
      by (rule sum_mono) (metis card_length length_chunks)
    ultimately show ?thesis using j(10) [OF c] by simp
  qed
  show "\<forall>d\<in>classes s. p \<notin> set (F d)" using new by blast
qed

lemma do_slabs_free_inv:
  assumes i: "alloc_inv m s F L" and c: "c \<in> classes s" and p: "p \<in> L c" "it_slabs_clsid (heap s p) = 0"
    and nn: "p \<noteq> NULL"
  shows "\<exists>s' F'. do_slabs_free p sz c s = Some s' \<and> alloc_inv m s' F' (L(c := L c - {p})) \<and>
    classes s' = classes s"
proof -
  note j = alloc_invD [OF i] and room = live_chunk_room [OF i c p(1)]
  from do_slabs_free_freelists [OF j(6) c p(2) nn room, of sz] obtain s' where
    s': "do_slabs_free p sz c s = Some s'" "freelists s' (F(c := p # F c))" by blast
  note sp = do_slabs_free_pages [OF s'(1)]
  have "alloc_inv m s' (F(c := p # F c)) (L(c := L c - {p}))"
  proof (rule alloc_inv_same_pages [OF i sp s'(2)])
    show "set ((F(c := p # F c)) d) \<inter> (L(c := L c - {p})) d = {} \<and>
        set ((F(c := p # F c)) d) \<union> (L(c := L c - {p})) d = set (F d) \<union> L d"
      if "d \<in> classes s" for d
      using j(8) [OF that] p(1) by auto
    show "(L(c := L c - {p})) d = {}" if "d \<notin> classes s" for d using that c j(11) by auto
  qed
  with s'(1) same_pages_classes [OF sp] show ?thesis by blast
qed

text \<open>
  The runs of the allocator: from any start without preallocation, allocations (where \<open>malloc\<close>
  hands out memory apart from the pages in use, and a class has fewer than \<open>2 ^ 32\<close> chunks),
  frees of live chunks, and any use of the live chunks by their owners.
\<close>

inductive slab_run :: "nat \<Rightarrow> 'a slabs_state_scheme \<Rightarrow> (nat \<Rightarrow> ptr set) \<Rightarrow> bool" where
  start: "slabs_init limit factor False base im envs s0 = Some s \<Longrightarrow>
     m = item_size_max (settings s0) \<Longrightarrow> m mod 8 = 0 \<Longrightarrow> 0 < m \<Longrightarrow> m < 2 ^ 31 \<Longrightarrow>
     1 \<le> factor \<Longrightarrow> of_nat m * factor < 2 ^ 32 - 1 \<Longrightarrow>
     unat sizeof_item + chunk_size (settings s0) < 2 ^ 32 \<Longrightarrow>
     mem_base s0 = NULL \<Longrightarrow> \<not> slabs_lock s0 \<Longrightarrow> slab_run m s (\<lambda>_. {})"
| alloc: "slab_run m s L \<Longrightarrow> c \<in> classes s \<Longrightarrow> new_page_ok env c s \<Longrightarrow>
     (n_pages s c + 1) * unat (sc_perslab (slabclass s c)) < 2 ^ 32 \<Longrightarrow>
     slabs_alloc env sz c s = Some (p, s') \<Longrightarrow>
     slab_run m s' (if p = NULL then L else L(c := insert p (L c)))"
| free: "slab_run m s L \<Longrightarrow> c \<in> classes s \<Longrightarrow> p \<in> L c \<Longrightarrow> it_slabs_clsid (heap s p) = 0 \<Longrightarrow> p \<noteq> NULL \<Longrightarrow>
     slabs_free p sz c s = Some s' \<Longrightarrow> slab_run m s' (L(c := L c - {p}))"
| use: "slab_run m s L \<Longrightarrow> (\<And>q. \<forall>c. q \<notin> L c \<Longrightarrow> h q = heap s q) \<Longrightarrow> slab_run m (s\<lparr>heap := h\<rparr>) L"

lemma lock_geometry [simp]:
  "classes (s\<lparr>slabs_lock := b\<rparr>) = classes s" "n_pages (s\<lparr>slabs_lock := b\<rparr>) c = n_pages s c"
  "page_at (s\<lparr>slabs_lock := b\<rparr>) c k = page_at s c k" "page_len c (s\<lparr>slabs_lock := b\<rparr>) = page_len c s"
  by (simp_all add: classes_def n_pages_def page_at_def page_len_def)

lemma lock_geometry_all [simp]:
  "class_chunks (s\<lparr>slabs_lock := b\<rparr>) = class_chunks s"
  "pages_apart (s\<lparr>slabs_lock := b\<rparr>) = pages_apart s"
  "new_page_ok env c (s\<lparr>slabs_lock := b\<rparr>) = new_page_ok env c s"
  by (simp_all add: class_chunks_def [abs_def] pages_apart_def new_page_ok_def)

lemma alloc_inv_lock:
  assumes "alloc_inv m s F L"
  shows "alloc_inv m (s\<lparr>slabs_lock := b\<rparr>) F L"
proof -
  note j = alloc_invD [OF assms]
  have f: "freelists (s\<lparr>slabs_lock := b\<rparr>) F" by (rule freelists_frame [OF j(6)]) auto
  show ?thesis unfolding alloc_inv_def using j f by (simp add: classes_ok_def)
qed

lemma slab_run_inv: "slab_run m s L \<Longrightarrow> (\<exists>F. alloc_inv m s F L) \<and> \<not> slabs_lock s"
proof (induction rule: slab_run.induct)
  case (start limit factor base im envs s0 s m)
  note ini = slabs_init_classes [OF start.hyps(1) start.hyps(2) start.hyps(3-8)]
  obtain n s4 where l: "slabs_init_loop factor (POWER_SMALLEST - 1) (ucast sizeof_item + of_nat (chunk_size (settings s0)))
      (s0\<lparr>mem_limit := limit, slabclass := (\<lambda>_. zero_class)\<rparr>) = (n, s4)" by force
  have mb: "mem_base s = NULL" "\<not> slabs_lock s"
    using start.hyps(1,9,10) l slabs_init_loop_frame [OF l]
    by (auto simp: slabs_init_def Let_def upd_class_def split: option.splits)
  have np: "n_pages s c = 0" for c using ini by (simp add: n_pages_def)
  have "freelists s (\<lambda>_. [])" using ini by (simp add: freelists_def freelist_def)
  then have "alloc_inv m s (\<lambda>_. []) (\<lambda>_. {})"
    using ini start.hyps mb unfolding alloc_inv_def
    by (simp add: np pages_apart_def class_chunks_def)
  with mb show ?case by blast
next
  case (alloc m s L c env sz p s')
  then obtain F where i: "alloc_inv m s F L" and nl: "\<not> slabs_lock s" by blast
  let ?s1 = "s\<lparr>slabs_lock := True\<rparr>"
  have i1: "alloc_inv m ?s1 F L" using i by (rule alloc_inv_lock)
  have "new_page_ok env c ?s1" "(n_pages ?s1 c + 1) * unat (sc_perslab (slabclass ?s1 c)) < 2 ^ 32"
    using alloc.hyps(3,4) by simp_all
  from do_slabs_alloc_inv [OF i1 _ this, of sz] alloc.hyps(2) obtain q s2 F' where
    q: "do_slabs_alloc env sz c ?s1 = Some (q, s2)"
      "if q = NULL then alloc_inv m s2 F' L else q \<notin> L c \<and> alloc_inv m s2 F' (L(c := insert q (L c)))"
    by auto
  from alloc.hyps(5) q(1) nl have e: "p = q" "s' = slabs_lock_release s2"
    by (simp_all add: slabs_alloc_def lock_simps)
  show ?case
    using q(2) e alloc_inv_lock [of m s2 F' _ False] by (auto simp: slabs_lock_release_def split: if_splits)
next
  case (free m s L c p sz s')
  then obtain F where i: "alloc_inv m s F L" and nl: "\<not> slabs_lock s" by blast
  let ?s1 = "s\<lparr>slabs_lock := True\<rparr>"
  have i1: "alloc_inv m ?s1 F L" using i by (rule alloc_inv_lock)
  from do_slabs_free_inv [OF i1 _ free.hyps(3), of sz] free.hyps(2,4,5) obtain s2 F' where
    s2: "do_slabs_free p sz c ?s1 = Some s2" "alloc_inv m s2 F' (L(c := L c - {p}))" by auto
  from free.hyps(6) s2(1) nl have e: "s' = slabs_lock_release s2"
    by (simp add: slabs_free_def lock_simps)
  have "alloc_inv m s' F' (L(c := L c - {p}))"
    using alloc_inv_lock [OF s2(2), of False] e by (simp add: slabs_lock_release_def)
  moreover have "\<not> slabs_lock s'" using e by (simp add: slabs_lock_release_def)
  ultimately show ?case by blast
next
  case (use m s L h)
  then obtain F where i: "alloc_inv m s F L" and nl: "\<not> slabs_lock s" by blast
  note j = alloc_invD [OF i]
  let ?s' = "s\<lparr>heap := h\<rparr>"
  have fh: "h q = heap s q" if c: "c \<in> classes s" and q: "q \<in> set (F c)" for c q
  proof (rule use.hyps(2), rule allI, rule notI)
    fix d assume d: "q \<in> L d"
    then have dc: "d \<in> classes s" using j(11) by blast
    have q: "q \<in> class_chunks s c" "q \<in> class_chunks s d" "c \<noteq> d" using c d q dc j(8,9) by blast+
    have "apart q (csize s c) q (csize s d)"
      by (rule class_chunks_apart [OF j(1,3,4,7) c dc q(1,2)]) (use q(3) in simp)
    then show False using alloc_inv_chunk_ok(1) [OF i c] alloc_inv_chunk_ok(1) [OF i dc]
      by (simp add: apart_def)
  qed
  have f: "freelists ?s' F" by (rule freelists_frame [OF j(6)]) (simp_all add: fh)
  have "same_pages s ?s'" by (simp add: same_pages_def)
  from alloc_inv_same_pages [OF i this f] j(8,11) have "alloc_inv m ?s' F L" by auto
  with nl show ?case by auto
qed

lemma slab_run_alloc:
  assumes "slab_run m s L" "c \<in> classes s" "new_page_ok env c s"
    "(n_pages s c + 1) * unat (sc_perslab (slabclass s c)) < 2 ^ 32"
  shows "\<exists>p s'. slabs_alloc env sz c s = Some (p, s') \<and> (p = NULL \<or> p \<notin> L c)"
proof -
  from slab_run_inv [OF assms(1)] obtain F where i: "alloc_inv m s F L" and nl: "\<not> slabs_lock s" by blast
  let ?s1 = "s\<lparr>slabs_lock := True\<rparr>"
  have i1: "alloc_inv m ?s1 F L" using i by (rule alloc_inv_lock)
  from do_slabs_alloc_inv [OF i1, of c env sz] assms(2-4) obtain q s2 F' where
    q: "do_slabs_alloc env sz c ?s1 = Some (q, s2)" "q \<noteq> NULL \<Longrightarrow> q \<notin> L c"
    by (auto split: if_splits)
  then have "slabs_alloc env sz c s = Some (q, slabs_lock_release s2)"
    using nl by (simp add: slabs_alloc_def lock_simps)
  with q(2) show ?thesis by auto
qed

lemma slab_run_apart:
  assumes "slab_run m s L" "p \<in> L c" "q \<in> L d" "(c, p) \<noteq> (d, q)"
  shows "apart p (csize s c) q (csize s d)"
proof -
  from slab_run_inv [OF assms(1)] obtain F where i: "alloc_inv m s F L" by blast
  note j = alloc_invD [OF i]
  have cd: "c \<in> classes s" "d \<in> classes s" using assms(2,3) j(11) by blast+
  then have "p \<in> class_chunks s c" "q \<in> class_chunks s d" using assms(2,3) j(9) by blast+
  then show ?thesis by (rule class_chunks_apart [OF j(1,3,4,7) cd _ _ assms(4)])
qed

section \<open>Properties of the allocator\<close>

text \<open>C2: In every run of the allocator an allocation returns (NULL or a chunk), two different live
  chunks never overlap, whatever their classes, and the chunk returned overlaps no chunk that was
  live before: the memory the slab allocator hands out has one owner.\<close>

theorem live_chunks_disjoint:
  assumes "slab_run m s L" "c \<in> classes s" "new_page_ok env c s"
    "(n_pages s c + 1) * unat (sc_perslab (slabclass s c)) < 2 ^ 32"
  shows "\<exists>p s'. slabs_alloc env sz c s = Some (p, s') \<and>
    (p \<noteq> NULL \<longrightarrow> (\<forall>d. \<forall>q\<in>L d. p + csize s' c \<le> q \<or> q + csize s' d \<le> p)) \<and>
    (\<forall>d e. \<forall>q\<in>L d. \<forall>r\<in>L e. (d, q) \<noteq> (e, r) \<longrightarrow> q + csize s d \<le> r \<or> r + csize s e \<le> q)"
proof -
  from slab_run_alloc [OF assms, of sz] obtain p s' where
    a: "slabs_alloc env sz c s = Some (p, s')" and new: "p \<noteq> NULL \<Longrightarrow> p \<notin> L c" by blast
  note r = slab_run.alloc [OF assms a]
  have "p + csize s' c \<le> q \<or> q + csize s' d \<le> p" if p: "p \<noteq> NULL" and q: "q \<in> L d" for d q
  proof -
    have ne: "(c, p) \<noteq> (d, q)" using new [OF p] q by auto
    have r': "slab_run m s' (L(c := insert p (L c)))" using r p by simp
    have "apart p (csize s' c) q (csize s' d)" by (rule slab_run_apart [OF r' _ _ ne]) (use q in auto)
    then show ?thesis by (simp add: apart_def)
  qed
  moreover have "q + csize s d \<le> r \<or> r + csize s e \<le> q"
    if "q \<in> L d" "r \<in> L e" "(d, q) \<noteq> (e, r)" for d e q r
    using slab_run_apart [OF assms(1) that] by (simp add: apart_def)
  ultimately show ?thesis using a by blast
qed

lemma example_allocator:
  "\<exists>s :: slabs_state. slab_run (2 ^ 20) s (\<lambda>_. {}) \<and> 1 \<in> classes s \<and> n_pages s 1 = 0 \<and>
     new_page_ok \<lparr>realloc_ok = True, malloc_page = 4096\<rparr> 1 s \<and> classes_ok (2 ^ 20) s"
proof -
  obtain s where s: "slabs_init 0 (5 / 4) False NULL None (\<lambda>_. undefined) (slabs_boot (\<lambda>_. 7) (\<lambda>_. zero_item)) = Some s"
    using slabs_init_default by blast
  have b: "item_size_max (settings (slabs_boot (\<lambda>_. 7) (\<lambda>_. zero_item))) = 2 ^ 20"
    "chunk_size (settings (slabs_boot (\<lambda>_. 7) (\<lambda>_. zero_item))) = 48"
    by (simp_all add: settings_init_def)
  have "slab_run (2 ^ 20) s (\<lambda>_. {})"
    by (rule slab_run.start [OF s]) (simp_all add: settings_init_def sizeof_item_def)
  moreover note ini = slabs_init_classes [OF s, of "2 ^ 20"]
  have "classes_ok (2 ^ 20) s" "sc_slabs (slabclass s c) = 0" for c
    using ini by (simp_all add: settings_init_def sizeof_item_def)
  ultimately show ?thesis
    by (intro exI [of _ s]) (simp add: classes_ok_def classes_def POWER_SMALLEST_def n_pages_def new_page_ok_def)
qed

theorem live_chunks_disjoint_witness:
  "\<exists>s p s'. slab_run (2 ^ 20) (s :: slabs_state) (\<lambda>_. {}) \<and>
     slabs_alloc \<lparr>realloc_ok = True, malloc_page = 4096\<rparr> 96 1 s = Some (p, s')"
proof -
  obtain s :: slabs_state where s: "slab_run (2 ^ 20) s (\<lambda>_. {})" "1 \<in> classes s" "n_pages s 1 = 0"
     "new_page_ok \<lparr>realloc_ok = True, malloc_page = 4096\<rparr> 1 s"
    using example_allocator by blast
  have "(n_pages s 1 + 1) * unat (sc_perslab (slabclass s 1)) < 2 ^ 32"
    using s(3) unsigned_less [of "sc_perslab (slabclass s 1)"] by simp
  from live_chunks_disjoint [OF s(1,2,4) this, of 96] s(1) show ?thesis by blast
qed

text \<open>Freeing a live chunk and allocating from its class again gives the same chunk back, with
  the allocator's lock free after both calls, and leaves every free list as it was.\<close>

theorem free_alloc_same_chunk:
  assumes "slab_run m s L" "c \<in> classes s" "p \<in> L c" "it_slabs_clsid (heap s p) = 0" "p \<noteq> NULL"
  shows "\<exists>s1 s2 F. slabs_free p n c s = Some s1 \<and> slabs_alloc env k c s1 = Some (p, s2) \<and>
    freelists s F \<and> freelists s2 F \<and> \<not> slabs_lock s2"
proof -
  from slab_run_inv [OF assms(1)] obtain F where i: "alloc_inv m s F L" and nl: "\<not> slabs_lock s" by blast
  note room = live_chunk_room [OF i assms(2,3)]
  have f: "freelists s F" by (rule alloc_invD(6) [OF i])
  have "\<exists>s1 s2. slabs_free p n c s = Some s1 \<and> slabs_alloc env k c s1 = Some (p, s2) \<and>
      freelists s2 F \<and> \<not> slabs_lock s2"
    by (rule slab_alloc.alloc_after_free) (use f nl room assms in auto)
  with f show ?thesis by blast
qed

lemma alloc_grows:
  assumes i: "alloc_inv m s F L" and c: "c \<in> classes s" and n: "new_page_ok env c s" and e: "F c = []"
    and room: "(n_pages s c + 1) * unat (sc_perslab (slabclass s c)) < 2 ^ 32"
    and lim: "mem_limit s = 0 \<or> mem_malloced s + page_len c s \<le> mem_limit s \<or> n_pages s c = 0"
    and env: "realloc_ok env" "malloc_page env \<noteq> NULL"
  shows "\<exists>p s'. do_slabs_alloc env sz c s = Some (p, s') \<and> p \<noteq> NULL \<and> it_slabs_clsid (heap s' p) = 0"
proof -
  note j = alloc_invD [OF i]
  obtain g s1 where g: "grow_slab_list (realloc_ok env) c s = (g, s1)" by force
  then have g1: "g" using env(1) by (simp add: grow_slab_list_def Let_def split: if_splits)
  have g2: "mem_base s1 = NULL" using grow_slab_list_pages [OF g] j(5) by (simp add: same_pages_def)
  have m: "memory_allocate (malloc_page env) len s1 = (malloc_page env, s1)" for len
    using g2 by (simp add: memory_allocate_def)
  let ?F1 = "F(c := rev (page_chunks s c (malloc_page env)) @ F c)"
  have "\<exists>s1. do_slabs_newslab env c s = Some (True, s1) \<and> freelists s1 ?F1 \<and> classes s1 = classes s \<and>
       sc_slabs (slabclass s1 c) = sc_slabs (slabclass s c) + 1 \<and>
       sc_slab_list (slabclass s1 c) (unat (sc_slabs (slabclass s c))) = malloc_page env \<and>
       mem_malloced s1 = mem_malloced s + page_len c s"
  proof (rule do_slabs_newslab_freelists [OF j(6) c])
    show "unat (sc_perslab (slabclass s c)) + length (F c) < 2 ^ 32"
      using e unsigned_less [of "sc_perslab (slabclass s c)"] by simp
    show "page_fresh s F (malloc_page env) (unat (page_len c s))" by (rule page_fresh_new(1) [OF i c n env(2)])
    show "chunks_fit s c (unat (page_len c s))" by (rule alloc_inv_chunk_ok(2) [OF i c])
    show "mem_limit s = 0 \<or> mem_malloced s + page_len c s \<le> mem_limit s \<or> sc_slabs (slabclass s c) = 0"
      using lim by (simp add: n_pages_def unat_eq_0)
  qed (use g1 in \<open>simp_all add: g m\<close>)
  then obtain s2 where s2: "do_slabs_newslab env c s = Some (True, s2)" "freelists s2 ?F1"
    "classes s2 = classes s" by blast
  have "page_chunks s c (malloc_page env) \<noteq> []"
    using alloc_inv_chunk_ok(3) [OF i c] by (metis length_chunks less_irrefl list.size(3))
  then obtain q qs where q: "?F1 c = q # qs" by (cases "rev (page_chunks s c (malloc_page env))") auto
  have c2: "c \<in> classes s2" using c s2(3) by simp
  have fl: "freelist (heap s2) (slabclass s2 c) (q # qs)" using freelistsD(1) [OF s2(2) c2] q by simp
  then have "chunk_free (heap s2 q)" "q \<noteq> NULL" using freelist_NULL [OF fl] by (auto simp: freelist_def)
  with do_slabs_alloc_freelists [OF s2(2) c2 q, of env sz] do_slabs_alloc_newslab [OF j(6) c e s2(1,2,3) q, of sz]
  show ?thesis by (auto simp: chunk_free_def)
qed

text \<open>C33: An allocation from a valid class returns NULL only when the class has no free chunk and
  its page is over the memory limit (and not its first), or the slab list cannot be grown, or
  \<open>malloc\<close> fails; otherwise it returns a chunk that is marked as unowned (\<open>slabs_clsid\<close> 0).\<close>

theorem alloc_fails_only_without_memory:
  assumes "slab_run m s L" "c \<in> classes s" "new_page_ok env c s"
    "(n_pages s c + 1) * unat (sc_perslab (slabclass s c)) < 2 ^ 32"
    and "sc_sl_curr (slabclass s c) \<noteq> 0 \<or> realloc_ok env \<and> malloc_page env \<noteq> NULL \<and>
      (mem_limit s = 0 \<or> mem_malloced s + page_len c s \<le> mem_limit s \<or> n_pages s c = 0)"
  shows "\<exists>p s'. slabs_alloc env sz c s = Some (p, s') \<and> p \<noteq> NULL \<and> it_slabs_clsid (heap s' p) = 0"
proof -
  from slab_run_inv [OF assms(1)] obtain F where i: "alloc_inv m s F L" and nl: "\<not> slabs_lock s" by blast
  let ?s1 = "s\<lparr>slabs_lock := True\<rparr>"
  have i1: "alloc_inv m ?s1 F L" using i by (rule alloc_inv_lock)
  note j = alloc_invD [OF i1]
  have c1: "c \<in> classes ?s1" using assms(2) by simp
  have fl: "freelist (heap ?s1) (slabclass ?s1 c) (F c)" by (rule freelistsD(1) [OF j(6) c1])
  have "\<exists>p s'. do_slabs_alloc env sz c ?s1 = Some (p, s') \<and> p \<noteq> NULL \<and> it_slabs_clsid (heap s' p) = 0"
  proof (cases "F c")
    case Nil
    then have "sc_sl_curr (slabclass s c) = 0" using freelist_sl_curr_0 [OF fl] by simp
    with assms(3-5) c1 show ?thesis by (intro alloc_grows [OF i1 c1 _ Nil]) simp_all
  next
    case (Cons p ps)
    with fl have "chunk_free (heap ?s1 p)" "p \<noteq> NULL" using freelist_NULL [OF fl] by (auto simp: freelist_def)
    with do_slabs_alloc_freelists [OF j(6) c1 Cons, of env sz] show ?thesis by (auto simp: chunk_free_def)
  qed
  then show ?thesis using nl by (auto simp: slabs_alloc_def lock_simps slabs_lock_release_def)
qed

theorem alloc_fails_only_without_memory_witness:
  "\<exists>(s :: slabs_state) p s'. slab_run (2 ^ 20) s (\<lambda>_. {}) \<and>
     slabs_alloc \<lparr>realloc_ok = True, malloc_page = 4096\<rparr> 96 1 s = Some (p, s') \<and> p \<noteq> NULL"
proof -
  obtain s :: slabs_state where s: "slab_run (2 ^ 20) s (\<lambda>_. {})" "1 \<in> classes s" "n_pages s 1 = 0"
     "new_page_ok \<lparr>realloc_ok = True, malloc_page = 4096\<rparr> 1 s"
    using example_allocator by blast
  have "(n_pages s 1 + 1) * unat (sc_perslab (slabclass s 1)) < 2 ^ 32"
    using s(3) unsigned_less [of "sc_perslab (slabclass s 1)"] by simp
  from alloc_fails_only_without_memory [OF s(1,2,4) this, of 96] s(1,3) show ?thesis by auto
qed

lemma example_live_chunk:
  "\<exists>(s :: slabs_state) L p. slab_run (2 ^ 20) s L \<and> 1 \<in> classes s \<and> p \<in> L 1 \<and> p \<noteq> NULL \<and>
     it_slabs_clsid (heap s p) = 0"
proof -
  let ?env = "\<lparr>realloc_ok = True, malloc_page = 4096\<rparr>"
  obtain s :: slabs_state where s: "slab_run (2 ^ 20) s (\<lambda>_. {})" "1 \<in> classes s" "n_pages s 1 = 0"
     "new_page_ok ?env 1 s"
    using example_allocator by blast
  have room: "(n_pages s 1 + 1) * unat (sc_perslab (slabclass s 1)) < 2 ^ 32"
    using s(3) unsigned_less [of "sc_perslab (slabclass s 1)"] by simp
  from slab_run_inv [OF s(1)] obtain F where i: "alloc_inv (2 ^ 20) s F (\<lambda>_. {})" and nl: "\<not> slabs_lock s" by blast
  let ?s1 = "s\<lparr>slabs_lock := True\<rparr>"
  have i1: "alloc_inv (2 ^ 20) ?s1 F (\<lambda>_. {})" using i by (rule alloc_inv_lock)
  have "F 1 = []" using alloc_invD(9) [OF i s(2)] s(3) by (simp add: class_chunks_def)
  from alloc_grows [OF i1 _ _ this, of ?env 96] s room obtain p s2 where
    p: "do_slabs_alloc ?env 96 1 ?s1 = Some (p, s2)" "p \<noteq> NULL" "it_slabs_clsid (heap s2 p) = 0" by auto
  from do_slabs_alloc_inv [OF i1, of 1 ?env 96] s room p(1) have cl: "classes s2 = classes s" by auto
  let ?s' = "slabs_lock_release s2"
  have a: "slabs_alloc ?env 96 1 s = Some (p, ?s')" using p(1) nl by (simp add: slabs_alloc_def lock_simps)
  from slab_run.alloc [OF s(1,2,4) room a] p(2) have "slab_run (2 ^ 20) ?s' ((\<lambda>_. {})(1 := {p}))" by simp
  moreover have "1 \<in> classes ?s'" "it_slabs_clsid (heap ?s' p) = 0"
    using p(3) cl s(2) by (simp_all add: slabs_lock_release_def)
  ultimately show ?thesis using p(2)
    by (intro exI [of _ ?s'] exI [of _ "(\<lambda>_. {})(1 := {p})"] exI [of _ p]) simp
qed

theorem free_alloc_same_chunk_witness:
  "\<exists>(s :: slabs_state) p s1 s2. slabs_free p 96 1 s = Some s1 \<and>
     slabs_alloc \<lparr>realloc_ok = False, malloc_page = NULL\<rparr> 80 1 s1 = Some (p, s2)"
proof -
  obtain s :: slabs_state and L p where "slab_run (2 ^ 20) s L" "1 \<in> classes s" "p \<in> L 1"
    "it_slabs_clsid (heap s p) = 0" "p \<noteq> NULL" using example_live_chunk by blast
  from free_alloc_same_chunk [OF this] show ?thesis by blast
qed

text \<open>The recurrence behind the sizes: each class is the aligned product of the one before, and the
  loop stops when the next size is beyond \<open>item_size_max / factor\<close> or the classes are used up.\<close>

lemma slabs_init_loop_recurrence:
  assumes "slabs_init_loop factor i sz s = (n, s')" "m = item_size_max (settings s)"
    "next = (\<lambda>c. if c = i + 1 then sz else grow_size (sc_size (slabclass s' (c - 1))) factor)"
  shows "i < n \<and> (\<forall>c\<le>i. slabclass s' c = slabclass s c) \<and>
    (\<forall>c. i < c \<and> c < n \<longrightarrow> sc_size (slabclass s' c) = align_size (next c) \<and>
       sc_perslab (slabclass s' c) = of_nat m div sc_size (slabclass s' c)) \<and>
    (POWER_LARGEST \<le> n \<or> dbl_round (of_nat m / factor) < of_nat (unat (next n)))"
  using assms
proof (induction factor i sz s arbitrary: "next" rule: slabs_init_loop.induct)
  case (1 factor i sz s)
  note prems = "1.prems"
  show ?case
  proof (cases "i + 1 < POWER_LARGEST \<and> of_nat (unat sz) \<le> dbl_round (of_nat (item_size_max (settings s)) / factor)")
    case False
    then have "slabs_init_loop factor i sz s = (i + 1, s)" by (subst slabs_init_loop.simps) (simp only: if_False)
    with prems False show ?thesis by auto
  next
    case True
    let ?sz' = "align_size sz"
    let ?s1 = "upd_class (i + 1) (\<lambda>p. p\<lparr>sc_size := ?sz',
                       sc_perslab := of_nat (item_size_max (settings s)) div ?sz'\<rparr>) s"
    have run: "slabs_init_loop factor (i + 1) (grow_size ?sz' factor) ?s1 = (n, s')"
      using True prems(1) by (subst (asm) slabs_init_loop.simps) (simp only: if_True Let_def simp_thms)
    define nxt where "nxt = (\<lambda>c. if c = i + 1 + 1 then grow_size ?sz' factor else grow_size (sc_size (slabclass s' (c - 1))) factor)"
    have IH: "i + 1 < n \<and> (\<forall>c\<le>i + 1. slabclass s' c = slabclass ?s1 c) \<and>
      (\<forall>c. i + 1 < c \<and> c < n \<longrightarrow> sc_size (slabclass s' c) = align_size (nxt c) \<and>
         sc_perslab (slabclass s' c) = of_nat m div sc_size (slabclass s' c)) \<and>
      (POWER_LARGEST \<le> n \<or> dbl_round (of_nat m / factor) < of_nat (unat (nxt n)))"
      by (rule "1.IH" [OF True refl refl run _ nxt_def]) (simp add: prems(2))
    then have i1: "sc_size (slabclass s' (i + 1)) = ?sz'"
      "sc_perslab (slabclass s' (i + 1)) = of_nat m div ?sz'" by (simp_all add: prems(2))
    have nx: "next c = nxt c" if "i + 1 < c" for c using that i1(1) by (auto simp: prems(3) nxt_def)
    have "next (i + 1) = sz" by (simp add: prems(3))
    then have "sc_size (slabclass s' c) = align_size (next c) \<and>
        sc_perslab (slabclass s' c) = of_nat m div sc_size (slabclass s' c)" if "i < c" "c < n" for c
      using IH that i1 nx [of c] by (cases "c = i + 1") auto
    moreover have "slabclass s' c = slabclass s c" if "c \<le> i" for c using IH that by simp
    ultimately show ?thesis using IH nx [of n] by simp
  qed
qed

lemma slabs_init_recurrence:
  assumes run: "slabs_init limit factor False base im envs s = Some s'" and m: "m = item_size_max (settings s)"
    "m < 2 ^ 31"
    and nx: "next = (\<lambda>c. if c = POWER_SMALLEST then ucast sizeof_item + of_nat (chunk_size (settings s))
                        else grow_size (sc_size (slabclass s' (c - 1))) factor)"
  shows "(\<forall>c. POWER_SMALLEST \<le> c \<and> c < power_largest s' \<longrightarrow> sc_size (slabclass s' c) = align_size (next c) \<and>
       sc_perslab (slabclass s' c) = of_nat m div sc_size (slabclass s' c)) \<and>
    csize s' (power_largest s') = m \<and> sc_perslab (slabclass s' (power_largest s')) = 1 \<and>
    (POWER_LARGEST \<le> power_largest s' \<or> dbl_round (of_nat m / factor) < of_nat (unat (next (power_largest s'))))"
proof -
  let ?s3 = "s\<lparr>mem_limit := limit, slabclass := (\<lambda>_. zero_class)\<rparr>"
  let ?sz = "ucast sizeof_item + of_nat (chunk_size (settings s))"
  obtain n s4 where l: "slabs_init_loop factor 0 ?sz ?s3 = (n, s4)" by force
  from slabs_init_loop_frame [OF l] have st: "settings s4 = settings s" by auto
  have pl: "power_largest s' = n" "slabclass s' = (slabclass s4)(n := (slabclass s4 n)\<lparr>sc_size := of_nat m, sc_perslab := 1\<rparr>)"
    using run l m(1) st by (auto simp: slabs_init_def Let_def POWER_SMALLEST_def split: option.splits)
  have um: "unat (of_nat m :: u32) = m" using m(2) by (simp add: unat_of_nat)
  define nx4 where "nx4 = (\<lambda>c. if c = 0 + 1 then ?sz else grow_size (sc_size (slabclass s4 (c - 1))) factor)"
  note R = slabs_init_loop_recurrence [OF l _ nx4_def, of m]
  have e: "next c = nx4 c" if "0 < c" "c \<le> n" for c using that by (auto simp: nx nx4_def pl POWER_SMALLEST_def)
  show ?thesis using R m(1) e um by (auto simp: pl POWER_SMALLEST_def)
qed

text \<open>C30: After \<open>slabs_init\<close> without preallocation, with an \<open>item_size_max\<close> that is a multiple of 8 and
  a growth factor of at least 1, the first class has the aligned size of the smallest chunk, every
  further one the aligned product of the one before and the factor, with as many chunks per page as
  fit, until the next size is beyond \<open>item_size_max / factor\<close> or the classes are used up; the last class
  has \<open>item_size_max\<close> itself.  So the sizes are positive multiples of 8 that never decrease, and a page of
  every class fits in \<open>item_size_max\<close> bytes.  \<open>slabs_clsid\<close> finds for a size the smallest class that is
  large enough, 0 exactly for 0 and for sizes beyond \<open>item_size_max\<close>.\<close>

theorem slabs_init_size_classes:
  assumes "slabs_init limit factor False base im envs s = Some s'"
    and "m = item_size_max (settings s)" "m mod 8 = 0" "0 < m" "m < 2 ^ 31"
    and "1 \<le> factor" "of_nat m * factor < 2 ^ 32 - 1"
    and "unat sizeof_item + chunk_size (settings s) < 2 ^ 32"
    and "next = (\<lambda>c. if c = POWER_SMALLEST then ucast sizeof_item + of_nat (chunk_size (settings s))
                     else grow_size (sc_size (slabclass s' (c - 1))) factor)"
  shows "(\<forall>c. POWER_SMALLEST \<le> c \<and> c < power_largest s' \<longrightarrow> sc_size (slabclass s' c) = align_size (next c) \<and>
       sc_perslab (slabclass s' c) = of_nat m div sc_size (slabclass s' c)) \<and>
    csize s' (power_largest s') = m \<and> sc_perslab (slabclass s' (power_largest s')) = 1 \<and>
    (POWER_LARGEST \<le> power_largest s' \<or> dbl_round (of_nat m / factor) < of_nat (unat (next (power_largest s')))) \<and>
    (\<forall>c\<in>classes s'. 0 < csize s' c \<and> csize s' c mod 8 = 0 \<and> csize s' c \<le> m \<and>
       unat (sc_perslab (slabclass s' c)) * csize s' c \<le> m \<and>
       (\<forall>d\<in>classes s'. c \<le> d \<longrightarrow> csize s' c \<le> csize s' d)) \<and>
    (\<exists>r. slabs_clsid sz s' = Some r \<and>
       (if sz = 0 \<or> m < unat sz then r = 0
        else r \<in> classes s' \<and> unat sz \<le> csize s' r \<and> (\<forall>c\<in>classes s'. c < r \<longrightarrow> csize s' c < unat sz)))"
proof -
  have ok: "classes_ok m s'" using slabs_init_classes [OF assms(1-5) assms(6-8)] by simp
  have m: "m < 2 ^ 32" using assms(5) by simp
  have cl: "0 < csize s' c \<and> csize s' c mod 8 = 0 \<and> csize s' c \<le> m \<and>
      unat (sc_perslab (slabclass s' c)) * csize s' c \<le> m \<and>
      (\<forall>d\<in>classes s'. c \<le> d \<longrightarrow> csize s' c \<le> csize s' d)" if c: "c \<in> classes s'" for c
  proof -
    have "0 < csize s' c" using classes_okD(1) [OF ok c m assms(4)] by (simp add: word_less_nat_alt)
    moreover have "csize s' c mod 8 = 0"
      using ok [unfolded classes_ok_def] c assms(3)
      by (cases "c = power_largest s'") (auto simp: sizes_ok_def classes_def)
    moreover have "\<forall>d\<in>classes s'. c \<le> d \<longrightarrow> csize s' c \<le> csize s' d"
      using classes_okD(4) [OF ok c m] by (simp add: word_le_nat_alt)
    ultimately show ?thesis using classes_okD(2,3) [OF ok c m] by simp
  qed
  have pl: "POWER_SMALLEST \<le> power_largest s'" using ok by (simp add: classes_ok_def)
  obtain r where r: "slabs_clsid sz s' = Some r"
    using slabs_clsid_loop_least [OF pl, of sz] by (cases "sz = 0") (auto simp: slabs_clsid_def)
  note spec = slabs_clsid_spec [OF pl, of sz r, THEN iffD1, OF r]
  have "(sz = 0 \<or> m < unat sz) = (r = 0)" using slabs_clsid_total [OF ok, of sz] r by auto
  with r spec have "\<exists>r. slabs_clsid sz s' = Some r \<and>
       (if sz = 0 \<or> m < unat sz then r = 0
        else r \<in> classes s' \<and> unat sz \<le> csize s' r \<and> (\<forall>c\<in>classes s'. c < r \<longrightarrow> csize s' c < unat sz))"
    by (auto simp: classes_def word_le_nat_alt word_less_nat_alt POWER_SMALLEST_def split: if_splits)
  with slabs_init_recurrence [OF assms(1,2,5,9)] cl show ?thesis by blast
qed

theorem slabs_init_size_classes_witness:
  "\<exists>s r. slabs_init 0 (5 / 4) False NULL None (\<lambda>_. undefined) (slabs_boot (\<lambda>_. 7) (\<lambda>_. zero_item)) = Some s \<and>
     slabs_clsid 100 s = Some r \<and> 100 \<le> csize s r \<and> csize s (power_largest s) = 2 ^ 20 \<and>
     (1 < power_largest s \<longrightarrow> csize s 1 = 96 \<and> unat (sc_perslab (slabclass s 1)) = 10922) \<and>
     (2 < power_largest s \<longrightarrow> csize s 2 = 120)"
proof -
  obtain s where s: "slabs_init 0 (5 / 4) False NULL None (\<lambda>_. undefined) (slabs_boot (\<lambda>_. 7) (\<lambda>_. zero_item)) = Some s"
    using slabs_init_default by blast
  have a: "align_size 96 = 96" "align_size 120 = 120" by (simp_all add: align_size_def CHUNK_ALIGN_BYTES_def)
  have "dbl_round 120 = 120" using dbl_round_le_nat [of 120 120] dbl_round_ge_nat [of 120 120] by simp
  then have g: "grow_size 96 (5 / 4) = 120" by (simp add: grow_size_def)
  from slabs_init_size_classes [OF s refl _ _ _ _ _ _ refl, of 100] s a g show ?thesis
    by (simp add: settings_init_def sizeof_item_def POWER_SMALLEST_def) fastforce
qed

text \<open>With preallocation, \<open>memory_allocate\<close> cuts consecutive blocks out of the region it got at
  start: a block lies between the old \<open>mem_current\<close> and the new one, never leaves the region, and
  a request that does not fit returns NULL and changes nothing.\<close>

theorem prealloc_region_safe:
  assumes "region_ok tot s" "memory_allocate page sz s = (p, s')" "unat sz + 8 < 2 ^ 64" "0 < sz"
  shows "region_ok tot s' \<and>
    (if p = NULL then s' = s
     else p = mem_current s \<and> mem_base s \<le> p \<and> p + unat sz \<le> mem_current s' \<and>
       p + unat sz \<le> mem_base s + tot)"
  using memory_allocate_region [OF assms(1-3)] assms(4) by auto

theorem prealloc_region_safe_witness:
  "\<exists>s p s'. region_ok 64 (s :: slabs_state) \<and> memory_allocate NULL 24 s = (p, s') \<and> p = 4096 \<and>
     p + 24 \<le> mem_current s'"
proof -
  let ?s = "(slabs_boot (\<lambda>_. 7) (\<lambda>_. zero_item))\<lparr>mem_base := 4096, mem_current := 4096, mem_avail := 64\<rparr>"
  have r: "region_ok 64 ?s" by (simp add: region_ok_def)
  obtain p s' where m: "memory_allocate NULL 24 ?s = (p, s')" by force
  then have "p = 4096" by (simp add: memory_allocate_def Let_def)
  with r m prealloc_region_safe [OF r m] show ?thesis by (intro exI [of _ ?s]) auto
qed

text \<open>A reassignment that is accepted has recorded two different existing classes, the source
  with at least two pages (an explicit source is the one asked for, -1 picks one), only when no
  other move was under way, and has changed no class.\<close>

theorem reassign_accepts_valid_moves:
  assumes "slabs_reassign src dst s = (REASSIGN_OK, s')" "POWER_SMALLEST \<le> power_largest s"
  shows "\<exists>a b. a \<in> classes s \<and> b \<in> classes s \<and> a \<noteq> b \<and> (src = -1 \<or> src = int a) \<and> dst = int b \<and>
    s_clsid (slab_rebal s') = int a \<and> d_clsid (slab_rebal s') = int b \<and>
    2 \<le> n_pages s a \<and> slab_rebalance_signal s = 0 \<and> slab_rebalance_signal s' = 1 \<and>
    slabclass s' = slabclass s \<and> \<not> slabs_rebalance_lock s'"
proof -
  let ?s1 = "s\<lparr>slabs_rebalance_lock := True\<rparr>"
  from assms(1) obtain s2 where s2: "do_slabs_reassign src dst ?s1 = (REASSIGN_OK, s2)"
    "s' = s2\<lparr>slabs_rebalance_lock := False\<rparr>"
    by (auto simp: slabs_reassign_def split: if_splits prod.splits)
  have "POWER_SMALLEST \<le> power_largest ?s1" using assms(2) by simp
  from do_slabs_reassign_ok [OF s2(1) this] s2(2) show ?thesis
    by (auto simp: classes_def n_pages_def word_le_nat_alt)
qed

theorem reassign_accepts_valid_moves_witness:
  "\<exists>(s :: slabs_state) s'. slabs_reassign 1 2 s = (REASSIGN_OK, s') \<and> d_clsid (slab_rebal s') = 2"
proof -
  let ?s = "(slabs_boot (\<lambda>_. 7) (\<lambda>_. zero_item))\<lparr>slabclass := (\<lambda>_. zero_class\<lparr>sc_slabs := 2\<rparr>),
     power_largest := 3, slab_rebalance_signal := 0, slabs_rebalance_lock := False\<rparr>"
  let ?s' = "snd (slabs_reassign 1 2 ?s)"
  have r: "slabs_reassign 1 2 ?s = (REASSIGN_OK, ?s')"
    by (simp add: slabs_reassign_def do_slabs_reassign_def POWER_SMALLEST_def Let_def word_less_nat_alt)
  from reassign_accepts_valid_moves [OF r] have "d_clsid (slab_rebal ?s') = 2"
    by (auto simp: POWER_SMALLEST_def)
  with r show ?thesis by blast
qed

text \<open>C32: While the source's \<open>killing\<close> is one of its pages and the destination has room for another,
  \<open>slab_rebalance_finish\<close> moves one page: the free lists are the old ones with the chunks of the page,
  cut to the size of the destination class, in front of the destination's list; the source has one
  page less, its last page taking the place of the one given away; the destination records the page as
  its last one; no other class changes; and the request is cleared with both locks free.\<close>

theorem rebalance_finish_moves_page:
  assumes "freelists s F" "\<not> cache_lock s" "\<not> slabs_lock s" "power_largest s \<le> POWER_LARGEST"
    and "s_clsid (slab_rebal s) = int a" "d_clsid (slab_rebal s) = int b" "a \<in> classes s"
      "b \<in> classes s" "a \<noteq> b"
    and "page_fresh s F (slab_start (slab_rebal s)) (item_size_max (settings s))"
    and "chunks_fit s b (item_size_max (settings s))"
    and "unat (sc_perslab (slabclass s b)) + length (F b) < 2 ^ 32"
    and "0 < sc_killing (slabclass s a)" "sc_killing (slabclass s a) \<le> sc_slabs (slabclass s a)"
      "sc_slabs (slabclass s a) \<le> sc_list_size (slabclass s a)" "sc_slabs (slabclass s b) < sc_list_size (slabclass s b)"
  shows "\<exists>s'. slab_rebalance_finish s = Some s' \<and>
    freelists s' (F(b := rev (page_chunks s b (slab_start (slab_rebal s))) @ F b)) \<and>
    sc_slabs (slabclass s' a) = sc_slabs (slabclass s a) - 1 \<and>
    sc_slab_list (slabclass s' a) = (sc_slab_list (slabclass s a))
      (unat (sc_killing (slabclass s a)) - 1 := sc_slab_list (slabclass s a) (unat (sc_slabs (slabclass s a)) - 1)) \<and>
    sc_killing (slabclass s' a) = 0 \<and>
    sc_slabs (slabclass s' b) = sc_slabs (slabclass s b) + 1 \<and>
    sc_slab_list (slabclass s' b) = (sc_slab_list (slabclass s b))
      (unat (sc_slabs (slabclass s b)) := slab_start (slab_rebal s)) \<and>
    (\<forall>c. c \<noteq> a \<longrightarrow> c \<noteq> b \<longrightarrow> slabclass s' c = slabclass s c) \<and>
    slab_rebalance_signal s' = 0 \<and> slab_start (slab_rebal s') = NULL \<and> rebal_done (slab_rebal s') = 0 \<and>
    slabs_moved (stats s') = slabs_moved (stats s) + 1 \<and> \<not> cache_lock s' \<and> \<not> slabs_lock s'"
  using slab_rebalance_finish_freelists [OF assms(1-3,5-9,4,10-16)] by blast

text \<open>The first of three pages of class 1 is given to class 2, which has two.\<close>

definition before_finish :: slabs_state where
  "before_finish = (slabs_boot (\<lambda>_. 7) (\<lambda>_. zero_item))\<lparr>
     slabclass := (\<lambda>_. zero_class\<lparr>sc_slabs := 2, sc_size := 2 ^ 19, sc_perslab := 2, sc_list_size := 16\<rparr>)
       (1 := zero_class\<lparr>sc_slabs := 3, sc_size := 2 ^ 18, sc_perslab := 4, sc_list_size := 16, sc_killing := 1,
          sc_slab_list := (\<lambda>i. Suc i * 2 ^ 20)\<rparr>),
     power_largest := 3,
     slab_rebal := \<lparr>slab_start = 2 ^ 20, slab_end = 2 ^ 21, slab_pos = 2 ^ 21, s_clsid = 1, d_clsid = 2,
       busy_items = 0, rebal_done = 1\<rparr>\<rparr>"

theorem rebalance_finish_moves_page_witness:
  "\<exists>s'. slab_rebalance_finish before_finish = Some s' \<and> sc_slabs (slabclass s' 2) = 3 \<and>
     sc_slab_list (slabclass s' 2) 2 = 2 ^ 20 \<and> map (sc_slab_list (slabclass s' 1)) [0, 1] = [3 * 2 ^ 20, 2 * 2 ^ 20] \<and>
     freelists s' ((\<lambda>_. [])(2 := [2 ^ 20 + 2 ^ 19, 2 ^ 20]))"
proof -
  have f: "freelists before_finish (\<lambda>_. [])"
    by (simp add: before_finish_def freelists_def freelist_def zero_class_def)
  note T = rebalance_finish_moves_page [OF f, where a = 1 and b = 2]
  have "rev (page_chunks before_finish 2 (2 ^ 20)) = [2 ^ 20 + 2 ^ 19, 2 ^ 20]"
    by (simp add: before_finish_def chunks_def upt_rec)
  moreover have "slab_start (slab_rebal before_finish) = 2 ^ 20"
    "sc_slab_list (slabclass before_finish 1) = (\<lambda>i. Suc i * 2 ^ 20)"
    "sc_slabs (slabclass before_finish 1) = 3" "sc_slabs (slabclass before_finish 2) = 2"
    "sc_killing (slabclass before_finish 1) = 1"
    by (simp_all add: before_finish_def)
  ultimately have "\<exists>s'. slab_rebalance_finish before_finish = Some s' \<and>
    freelists s' ((\<lambda>_. [])(2 := [2 ^ 20 + 2 ^ 19, 2 ^ 20])) \<and> sc_slabs (slabclass s' 2) = 3 \<and>
    sc_slab_list (slabclass s' 1) = (\<lambda>i. Suc i * 2 ^ 20)(0 := 3 * 2 ^ 20) \<and>
    sc_slab_list (slabclass s' 2) 2 = 2 ^ 20"
    using T by (simp add: before_finish_def classes_def POWER_SMALLEST_def POWER_LARGEST_def page_fresh_def
        chunks_fit_def settings_init_def word_less_nat_alt word_le_nat_alt) (erule ex_forward, simp)
  then show ?thesis by (elim ex_forward) simp
qed

end
