(* ===== verification/MC_Util.thy ===== *)
theory MC_Util
  imports Prelude
begin

text \<open>
  Number parsing and printing (\<open>util.c\<close>): the \<open>safe_strto*\<close> wrappers around the C library's
  \<open>strtol\<close> family, the decimal output of \<open>snprintf\<close> they are the inverse of, and the byte
  order conversion.  A C string is its list of bytes before the terminating NUL.
\<close>

unbundle bit_operations_syntax

section \<open>The library functions\<close>

text \<open>\<open>isspace\<close> and \<open>isdigit\<close> in the C locale.\<close>

definition isspace :: "u8 \<Rightarrow> bool" where
  "isspace c \<longleftrightarrow> c = 32 \<or> (9 \<le> c \<and> c \<le> 13)"

definition isdigit :: "u8 \<Rightarrow> bool" where
  "isdigit c \<longleftrightarrow> 48 \<le> c \<and> c \<le> 57"

text \<open>The character at an offset of a NUL terminated string.\<close>

definition char_at :: "bytes \<Rightarrow> nat \<Rightarrow> u8" where
  "char_at s n = (if n < length s then s ! n else 0)"

definition digits_value :: "bytes \<Rightarrow> nat" where
  "digits_value ds = foldl (\<lambda>v d. v * 10 + unat (d - 48)) 0 ds"

text \<open>What the \<open>strto*\<close> functions accept: white space, a sign, digits.  The result is the sign,
  the value and the number of bytes read; \<open>None\<close> when there is no number.\<close>

definition strto_scan :: "bytes \<Rightarrow> (bool \<times> nat \<times> nat) option" where
  "strto_scan s =
     (let ws = takeWhile isspace s; r = dropWhile isspace s;
          neg = (r \<noteq> [] \<and> hd r = 45);
          sgn = (r \<noteq> [] \<and> (hd r = 45 \<or> hd r = 43));
          ds = takeWhile isdigit (if sgn then tl r else r)
      in if ds = [] then None
         else Some (neg, digits_value ds, length ws + (if sgn then 1 else 0) + length ds))"

text \<open>\<open>strtoull(str, &endptr, 10)\<close> (and \<open>strtoul\<close>, on a machine with 64 bit longs): the value, the
  offset of \<open>endptr\<close> and whether \<open>errno\<close> is set to \<open>ERANGE\<close>.\<close>

definition strtoull :: "bytes \<Rightarrow> u64 \<times> nat \<times> bool" where
  "strtoull s = (case strto_scan s of
       None \<Rightarrow> (0, 0, False)
     | Some (neg, v, n) \<Rightarrow>
         if v \<ge> 2 ^ 64 then (- 1, n, True)
         else (if neg then - of_nat v else of_nat v, n, False))"

text \<open>\<open>strtoll\<close> and \<open>strtol\<close>.\<close>

definition strtoll :: "bytes \<Rightarrow> int \<times> nat \<times> bool" where
  "strtoll s = (case strto_scan s of
       None \<Rightarrow> (0, 0, False)
     | Some (neg, v, n) \<Rightarrow>
         if neg \<and> v > 2 ^ 63 then (- (2 ^ 63), n, True)
         else if \<not> neg \<and> v \<ge> 2 ^ 63 then (2 ^ 63 - 1, n, True)
         else (if neg then - int v else int v, n, False))"

text \<open>Decimal output of \<open>%u\<close>, \<open>%llu\<close> and \<open>%d\<close>.\<close>

fun show_nat :: "nat \<Rightarrow> bytes" where
  "show_nat n = (if n < 10 then [48 + of_nat n] else show_nat (n div 10) @ [48 + of_nat (n mod 10)])"

declare show_nat.simps [simp del]

definition show_int :: "int \<Rightarrow> bytes" where
  "show_int i = (if i < 0 then 45 # show_nat (nat (- i)) else show_nat (nat i))"

section \<open>The wrappers\<close>

text \<open>The result and the value stored through \<open>out\<close>.\<close>

definition safe_strtoull :: "bytes \<Rightarrow> bool \<times> u64" where
  "safe_strtoull s =
     (let (ull, e, erange) = strtoull s
      in if erange \<or> e = 0 then (False, 0)
         else if isspace (char_at s e) \<or> char_at s e = 0
         then if sint ull < 0 \<and> 45 \<in> set s then (False, 0) else (True, ull)
         else (False, 0))"

definition safe_strtoll :: "bytes \<Rightarrow> bool \<times> u64" where
  "safe_strtoll s =
     (let (ll, e, erange) = strtoll s
      in if erange \<or> e = 0 then (False, 0)
         else if isspace (char_at s e) \<or> char_at s e = 0 then (True, of_int ll)
         else (False, 0))"

definition safe_strtoul :: "bytes \<Rightarrow> bool \<times> u32" where
  "safe_strtoul s =
     (let (l, e, erange) = strtoull s
      in if erange \<or> e = 0 then (False, 0)
         else if isspace (char_at s e) \<or> char_at s e = 0
         then if sint l < 0 \<and> 45 \<in> set s then (False, 0) else (True, ucast l)
         else (False, 0))"

definition safe_strtol :: "bytes \<Rightarrow> bool \<times> u32" where
  "safe_strtol s =
     (let (l, e, erange) = strtoll s
      in if erange \<or> e = 0 then (False, 0)
         else if isspace (char_at s e) \<or> char_at s e = 0 then (True, of_int l)
         else (False, 0))"

section \<open>Byte order\<close>

fun swap_loop :: "nat \<Rightarrow> u64 \<Rightarrow> u64 \<Rightarrow> u64" where
  "swap_loop 0 rv inp = rv"
| "swap_loop (Suc n) rv inp = swap_loop n (push_bit 8 rv OR (inp AND 0xff)) (drop_bit 8 inp)"

definition mc_swap64 :: "u64 \<Rightarrow> u64" where
  "mc_swap64 inp = swap_loop 8 0 inp"

definition ntohll :: "u64 \<Rightarrow> u64" where "ntohll v = mc_swap64 v"
definition htonll :: "u64 \<Rightarrow> u64" where "htonll v = mc_swap64 v"

section \<open>Printing and parsing\<close>

lemma unat_digit: "n < 10 \<Longrightarrow> unat (48 + of_nat n :: u8) = 48 + n"
  by (subst unat_add_lem [THEN iffD1]) (simp_all add: unat_of_nat)

lemma digit_value: "n < 10 \<Longrightarrow> unat (of_nat n :: u8) = n"
  by (simp add: unat_of_nat)

lemma isdigit_digit: "n < 10 \<Longrightarrow> isdigit (48 + of_nat n)"
  using unat_digit [of n] by (simp add: isdigit_def word_le_nat_alt)

lemma show_nat_digits: "d \<in> set (show_nat n) \<Longrightarrow> isdigit d"
  by (induction n arbitrary: d rule: show_nat.induct)
    (subst (asm) (2) show_nat.simps, auto simp: isdigit_digit split: if_splits)

lemma show_nat_nonempty [simp]: "show_nat n \<noteq> []"
  by (subst show_nat.simps) simp

lemma digits_value_show_nat: "digits_value (show_nat n) = n"
  by (induction n rule: show_nat.induct)
    (subst show_nat.simps, auto simp: digits_value_def digit_value)

lemma isdigit_not: "isdigit c \<Longrightarrow> \<not> isspace c \<and> c \<noteq> 45 \<and> c \<noteq> 43 \<and> c \<noteq> 0"
  by (auto simp: isdigit_def isspace_def word_le_nat_alt)

lemma takeWhile_digits:
  assumes "\<forall>d\<in>set ds. isdigit d" "rest = [] \<or> \<not> isdigit (hd rest)"
  shows "takeWhile isdigit (ds @ rest) = ds"
  using assms by (cases rest) (auto simp: takeWhile_append)

text \<open>Scanning a number followed by anything that is not a digit.\<close>

lemma scan_show_nat:
  assumes "rest = [] \<or> \<not> isdigit (hd rest)"
  shows "strto_scan (show_nat n @ rest) = Some (False, n, length (show_nat n))"
    and "strto_scan (45 # show_nat n @ rest) = Some (True, n, Suc (length (show_nat n)))"
proof -
  have ds: "\<forall>d\<in>set (show_nat n). isdigit d" by (simp add: show_nat_digits)
  have h: "isdigit (hd (show_nat n))" using ds by (simp add: list.set_sel(1))
  obtain c cs where s: "show_nat n = c # cs" by (cases "show_nat n") auto
  then have c: "\<not> isspace c" "c \<noteq> 45" "c \<noteq> 43" using h isdigit_not by auto
  show "strto_scan (show_nat n @ rest) = Some (False, n, length (show_nat n))"
    using c takeWhile_digits [OF ds assms]
    by (simp add: strto_scan_def Let_def s digits_value_show_nat [of n, unfolded s])
  have "\<not> isspace 45" by (simp add: isspace_def word_le_nat_alt)
  then show "strto_scan (45 # show_nat n @ rest) = Some (True, n, Suc (length (show_nat n)))"
    using takeWhile_digits [OF ds assms] by (simp add: strto_scan_def Let_def digits_value_show_nat)
qed

text \<open>What may follow the number in the input: white space or the end.\<close>

definition number_ends :: "bytes \<Rightarrow> bool" where
  "number_ends rest \<longleftrightarrow> rest = [] \<or> isspace (hd rest)"

lemma number_ends_digit: "number_ends rest \<Longrightarrow> rest = [] \<or> \<not> isdigit (hd rest)"
  using isdigit_not by (auto simp: number_ends_def)

lemma char_at_end: "number_ends rest \<Longrightarrow> isspace (char_at (s @ rest) (length s)) \<or> char_at (s @ rest) (length s) = 0"
  by (cases rest) (auto simp: number_ends_def char_at_def)

lemma minus_notin: "45 \<notin> set (show_nat n)"
  using show_nat_digits [of 45 n] isdigit_not by blast

lemma safe_strtoull_show:
  assumes "n < 2 ^ 64" "number_ends rest" "45 \<notin> set rest"
  shows "safe_strtoull (show_nat n @ rest) = (True, of_nat n)"
  using assms char_at_end [OF assms(2), of "show_nat n"] minus_notin [of n]
  by (auto simp: safe_strtoull_def strtoull_def scan_show_nat [OF number_ends_digit])

lemma safe_strtoul_show:
  assumes "n < 2 ^ 32" "number_ends rest" "45 \<notin> set rest"
  shows "safe_strtoul (show_nat n @ rest) = (True, of_nat n)"
proof -
  have "ucast (of_nat n :: u64) = (of_nat n :: u32)"
    by (rule word_unat_eq_iff [THEN iffD2])
      (use assms(1) in \<open>simp add: unsigned_ucast_eq unat_of_nat take_bit_nat_eq_self\<close>)
  then show ?thesis
    using assms char_at_end [OF assms(2), of "show_nat n"] minus_notin [of n]
    by (auto simp: safe_strtoul_def strtoull_def scan_show_nat [OF number_ends_digit])
qed

lemma safe_strtoll_show:
  assumes "- (2 ^ 63) \<le> i" "i < 2 ^ 63" "number_ends rest"
  shows "safe_strtoll (show_int i @ rest) = (True, of_int i)"
proof (cases "i < 0")
  case True
  then show ?thesis
    using assms char_at_end [OF assms(3), of "45 # show_nat (nat (- i))"]
    by (auto simp: safe_strtoll_def strtoll_def show_int_def scan_show_nat [OF number_ends_digit])
next
  case False
  then show ?thesis
    using assms char_at_end [OF assms(3), of "show_nat (nat i)"]
    by (auto simp: safe_strtoll_def strtoll_def show_int_def scan_show_nat [OF number_ends_digit])
qed

text \<open>Anything else after the number is rejected.\<close>

lemma safe_strtoull_junk:
  assumes "n < 2 ^ 64" "\<not> isdigit c" "\<not> isspace c" "c \<noteq> 0"
  shows "safe_strtoull (show_nat n @ c # rest) = (False, 0)"
  using assms
  by (simp add: safe_strtoull_def strtoull_def scan_show_nat char_at_def)

lemma swap_loop_bit:
  "n \<le> 8 \<Longrightarrow> k < 64 \<Longrightarrow> bit (swap_loop n rv inp) k \<longleftrightarrow>
     (if k < 8 * n then bit inp (8 * (n - 1 - k div 8) + k mod 8) else bit rv (k - 8 * n))"
proof (induction n arbitrary: rv inp)
  case 0
  then show ?case by simp
next
  case (Suc n)
  have ff: "(0xff :: u64) = mask 8" by (simp add: mask_eq_exp_minus_1)
  show ?case
  proof (cases "k < 8 * n")
    case True
    then have "k div 8 < n" by simp
    then have "8 + (8 * (n - Suc (k div 8)) + k mod 8) = 8 * (n - k div 8) + k mod 8" by simp
    note e = arg_cong [OF this, of "bit inp"]
    show ?thesis using e True Suc.IH [of "push_bit 8 rv OR (inp AND 0xff)" "drop_bit 8 inp"] Suc.prems
      by (simp add: bit_drop_bit_eq)
  next
    case False
    then have r: "bit (swap_loop (Suc n) rv inp) k = bit (push_bit 8 rv OR (inp AND 0xff)) (k - 8 * n)"
      using Suc.IH [of "push_bit 8 rv OR (inp AND 0xff)" "drop_bit 8 inp"] Suc.prems by simp
    show ?thesis
    proof (cases "k < 8 * Suc n")
      case True
      then have d: "k div 8 = n" using False by (simp add: div_nat_eqI)
      have "k mod 8 = k - 8 * n" unfolding d [symmetric] by (simp add: minus_mult_div_eq_mod)
      moreover have "k - 8 * n < 8" "\<not> 8 \<le> k - 8 * n" "k - 8 * n < 64" using True False by auto
      ultimately show ?thesis using d r True False Suc.prems
        by (simp add: ff bit_simps)
    next
      case big: False
      have "k - (8 * n + 8) = k - (8 + 8 * n)" "\<not> k - 8 * n < 8" "8 \<le> k - 8 * n" "k - 8 * n < 64"
        using big Suc.prems by auto
      then show ?thesis using r Suc.prems big False
        by (simp add: ff bit_simps)
    qed
  qed
qed

lemma mc_swap64_bit: "k < 64 \<Longrightarrow> bit (mc_swap64 x) k \<longleftrightarrow> bit x (8 * (7 - k div 8) + k mod 8)"
  by (simp add: mc_swap64_def swap_loop_bit)

lemma mc_swap64_involution: "mc_swap64 (mc_swap64 x) = x"
proof (rule bit_word_eqI)
  fix k :: nat assume "k < LENGTH(64)"
  then have k: "k < 64" by simp
  let ?j = "8 * (7 - k div 8) + k mod 8"
  have "k div 8 < 8" using k by simp
  then have j: "?j < 64" "?j div 8 = 7 - k div 8" "?j mod 8 = k mod 8" by simp_all
  have "8 * (7 - ?j div 8) + ?j mod 8 = k" using j \<open>k div 8 < 8\<close> by simp
  then show "bit (mc_swap64 (mc_swap64 x)) k = bit x k"
    using k j(1) by (simp add: mc_swap64_bit)
qed

section \<open>Properties of the conversions\<close>

text \<open>The \<open>safe_strto*\<close> functions read back what \<open>snprintf\<close> prints: every 64 bit value, unsigned or
  signed, and every 32 bit value is recovered from its decimal form, at the end of the string or
  before white space.\<close>

theorem parse_printed_number:
  assumes "number_ends rest" "45 \<notin> set rest"
  shows "safe_strtoull (show_nat (unat u) @ rest) = (True, u) \<and>
    safe_strtoul (show_nat (unat v) @ rest) = (True, v) \<and>
    safe_strtoll (show_int (sint w) @ rest) = (True, w)"
proof (intro conjI)
  have "unat u < 2 ^ 64" "unat v < 2 ^ 32" using unsigned_less [of u] unsigned_less [of v] by simp_all
  then show "safe_strtoull (show_nat (unat u) @ rest) = (True, u)"
    "safe_strtoul (show_nat (unat v) @ rest) = (True, v)"
    using safe_strtoull_show [OF _ assms] safe_strtoul_show [OF _ assms] by simp_all
  have "- (2 ^ 63) \<le> sint w" "sint w < 2 ^ 63" using sint_greater_eq [of w] sint_less [of w] by simp_all
  then show "safe_strtoll (show_int (sint w) @ rest) = (True, w)"
    using safe_strtoll_show [OF _ _ assms(1)] by simp
qed

theorem parse_printed_number_witness:
  "number_ends [32, 48] \<and> safe_strtoull (show_nat (unat (4095 :: u64)) @ [32, 48]) = (True, 4095)"
proof -
  have n: "number_ends [32, 48]" by (simp add: number_ends_def isspace_def)
  from parse_printed_number [OF n, of 4095] n show ?thesis by simp
qed

text \<open>Text that goes on after the digits with a character that is neither a digit nor white space
  is rejected, with 0 as the value.\<close>

theorem reject_trailing_junk:
  assumes "\<not> isdigit c" "\<not> isspace c" "c \<noteq> 0"
  shows "safe_strtoull (show_nat (unat (u :: u64)) @ c # rest) = (False, 0)"
proof -
  have "unat u < 2 ^ 64" using unsigned_less [of u] by simp
  then show ?thesis using assms by (rule safe_strtoull_junk)
qed

theorem reject_trailing_junk_witness: "safe_strtoull (show_nat (unat (12 :: u64)) @ [120, 32]) = (False, 0)"
  by (rule reject_trailing_junk) (simp_all add: isdigit_def isspace_def)

text \<open>\<open>htonll\<close> reverses the eight bytes of its argument, and \<open>ntohll\<close> is its inverse.\<close>

theorem byte_order_round_trip:
  "ntohll (htonll x) = x \<and>
   (\<forall>k<64. bit (htonll x) k = bit x (8 * (7 - k div 8) + k mod 8))"
  by (simp add: ntohll_def htonll_def mc_swap64_involution mc_swap64_bit)

theorem byte_order_round_trip_witness: "bit (htonll 1) 56 = bit (1 :: u64) (8 * (7 - 56 div 8) + 56 mod 8)"
  using byte_order_round_trip [of 1] by simp

end
