(* ===== verification/MC_Items.thy ===== *)
theory MC_Items
  imports MC_Slabs MC_Util
begin

text \<open>
  The item layer (\<open>items.c\<close>): allocating an item (from a free chunk, an expired item or by
  evicting one), freeing it, the LRU list of each slab class, linking and unlinking items in the
  hash table and the LRU, lookup with lazy expiration, and flushing.  The lists are doubly
  linked through \<open>next\<close> and \<open>prev\<close>; \<open>lru_rel\<close> states which items each of them holds.

  Reference counts are \<open>unsigned short\<close>.  An access outside the arrays of \<open>LARGEST_ID\<close>
  entries is \<open>None\<close>, like a failed assertion.
\<close>

unbundle bit_operations_syntax

section \<open>State\<close>

record itemstats_t =
  evicted :: u64
  evicted_nonzero :: u64
  evicted_time :: u32
  reclaimed :: u64
  outofmemory :: u64
  tailrepairs :: u64
  expired_unfetched :: u64
  evicted_unfetched :: u64
  crawler_reclaimed :: u64
  lrutail_reflocked :: u64

definition zero_itemstats :: itemstats_t where
  "zero_itemstats = \<lparr>evicted = 0, evicted_nonzero = 0, evicted_time = 0, reclaimed = 0,
     outofmemory = 0, tailrepairs = 0, expired_unfetched = 0, evicted_unfetched = 0,
     crawler_reclaimed = 0, lrutail_reflocked = 0\<rparr>"

record items_state = slabs_state +
  heads :: "nat \<Rightarrow> ptr"
  tails :: "nat \<Rightarrow> ptr"
  sizes :: "nat \<Rightarrow> u32"
  itemstats :: "nat \<Rightarrow> itemstats_t"
  cas_id :: u64

definition upd_stats :: "(stats_t \<Rightarrow> stats_t) \<Rightarrow> 'a mc_base_scheme \<Rightarrow> 'a mc_base_scheme" where
  "upd_stats f s = s\<lparr>stats := f (stats s)\<rparr>"

definition upd_itemstats ::
  "nat \<Rightarrow> (itemstats_t \<Rightarrow> itemstats_t) \<Rightarrow> 'a items_state_scheme \<Rightarrow> 'a items_state_scheme" where
  "upd_itemstats i f s = s\<lparr>itemstats := (itemstats s)(i := f (itemstats s i))\<rparr>"

definition item_stats_reset :: "'a items_state_scheme \<Rightarrow> 'a items_state_scheme option" where
  "item_stats_reset s = do {
     s1 \<leftarrow> cache_lock_acquire s;
     Some (cache_lock_release (s1\<lparr>itemstats := (\<lambda>_. zero_itemstats)\<rparr>))
   }"

definition get_cas_id :: "'a items_state_scheme \<Rightarrow> u64 \<times> 'a items_state_scheme" where
  "get_cas_id s = (cas_id s + 1, s\<lparr>cas_id := cas_id s + 1\<rparr>)"

section \<open>The LRU lists\<close>

definition item_link_q :: "ptr \<Rightarrow> 'a items_state_scheme \<Rightarrow> 'a items_state_scheme option" where
  "item_link_q it s = do {
     let c = unat (it_slabs_clsid (heap s it));
     c_assert (c < LARGEST_ID);
     c_assert (it_flags (heap s it) AND ITEM_SLABBED = 0);
     c_assert (it \<noteq> heads s c);
     c_assert ((heads s c \<noteq> NULL \<and> tails s c \<noteq> NULL) \<or> (heads s c = NULL \<and> tails s c = NULL));
     let s1 = upd_item it (\<lambda>i. i\<lparr>it_prev := NULL\<rparr>) s;
     let s2 = upd_item it (\<lambda>i. i\<lparr>it_next := heads s1 c\<rparr>) s1;
     let s3 = upd_item_if (it_next (heap s2 it)) (\<lambda>i. i\<lparr>it_prev := it\<rparr>) s2;
     let s4 = s3\<lparr>heads := (heads s3)(c := it)\<rparr>;
     let s5 = (if tails s4 c = NULL then s4\<lparr>tails := (tails s4)(c := it)\<rparr> else s4);
     Some (s5\<lparr>sizes := (sizes s5)(c := sizes s5 c + 1)\<rparr>)
   }"

text \<open>The part \<open>item_unlink_q\<close> shares with \<open>crawler_unlink_q\<close>.\<close>

definition unlink_from_list ::
  "ptr \<Rightarrow> nat \<Rightarrow> 'a items_state_scheme \<Rightarrow> 'a items_state_scheme option" where
  "unlink_from_list it c s = do {
     c_assert (c < LARGEST_ID);
     c_assert (heads s c = it \<longrightarrow> it_prev (heap s it) = NULL);
     let s1 = (if heads s c = it then s\<lparr>heads := (heads s)(c := it_next (heap s it))\<rparr> else s);
     c_assert (tails s1 c = it \<longrightarrow> it_next (heap s1 it) = NULL);
     let s2 = (if tails s1 c = it then s1\<lparr>tails := (tails s1)(c := it_prev (heap s1 it))\<rparr> else s1);
     c_assert (it_next (heap s2 it) \<noteq> it);
     c_assert (it_prev (heap s2 it) \<noteq> it);
     let s3 = upd_item_if (it_next (heap s2 it)) (\<lambda>i. i\<lparr>it_prev := it_prev (heap s2 it)\<rparr>) s2;
     Some (upd_item_if (it_prev (heap s3 it)) (\<lambda>i. i\<lparr>it_next := it_next (heap s3 it)\<rparr>) s3)
   }"

definition item_unlink_q :: "ptr \<Rightarrow> 'a items_state_scheme \<Rightarrow> 'a items_state_scheme option" where
  "item_unlink_q it s = do {
     let c = unat (it_slabs_clsid (heap s it));
     s1 \<leftarrow> unlink_from_list it c s;
     Some (s1\<lparr>sizes := (sizes s1)(c := sizes s1 c - 1)\<rparr>)
   }"

section \<open>Freeing, linking and unlinking\<close>

definition item_free :: "ptr \<Rightarrow> 'a items_state_scheme \<Rightarrow> 'a items_state_scheme option" where
  "item_free it s = do {
     let ntotal = ITEM_ntotal (heap s it);
     let clsid = unat (it_slabs_clsid (heap s it));
     c_assert (clsid < LARGEST_ID);
     c_assert (it_flags (heap s it) AND ITEM_LINKED = 0);
     c_assert (it \<noteq> heads s clsid);
     c_assert (it \<noteq> tails s clsid);
     c_assert (it_refcount (heap s it) = 0);
     slabs_free it ntotal clsid (upd_item it (\<lambda>i. i\<lparr>it_slabs_clsid := 0\<rparr>) s)
   }"

definition do_item_remove :: "ptr \<Rightarrow> 'a items_state_scheme \<Rightarrow> 'a items_state_scheme option" where
  "do_item_remove it s = do {
     c_assert (it_flags (heap s it) AND ITEM_SLABBED = 0);
     c_assert (it_refcount (heap s it) > 0);
     let (rc, s1) = refcount_decr it s;
     if rc = 0 then item_free it s1 else Some s1
   }"

definition do_item_link :: "ptr \<Rightarrow> u32 \<Rightarrow> 'a items_state_scheme \<Rightarrow> 'a items_state_scheme option" where
  "do_item_link it hv s = do {
     c_assert (it_flags (heap s it) AND (ITEM_LINKED OR ITEM_SLABBED) = 0);
     s1 \<leftarrow> cache_lock_acquire s;
     let s2 = upd_item it (\<lambda>i. i\<lparr>it_flags := it_flags i OR ITEM_LINKED\<rparr>) s1;
     let s3 = upd_item it (\<lambda>i. i\<lparr>it_time := current_time s2\<rparr>) s2;
     let s4 = upd_stats (\<lambda>st. st\<lparr>curr_bytes := curr_bytes st + ITEM_ntotal (heap s3 it),
                               curr_items := curr_items st + 1,
                               total_items := total_items st + 1\<rparr>) s3;
     let (cas, s5) = (if use_cas (settings s4) then get_cas_id s4 else (0, s4));
     let s6 = upd_item it (ITEM_set_cas cas) s5;
     let s7 = assoc_insert it hv s6;
     s8 \<leftarrow> item_link_q it s7;
     Some (cache_lock_release (snd (refcount_incr it s8)))
   }"

definition do_item_unlink_nolock ::
  "ptr \<Rightarrow> u32 \<Rightarrow> 'a items_state_scheme \<Rightarrow> 'a items_state_scheme option" where
  "do_item_unlink_nolock it hv s =
     (if it_flags (heap s it) AND ITEM_LINKED \<noteq> 0
      then do {
        let s1 = upd_item it (\<lambda>i. i\<lparr>it_flags := it_flags i AND NOT ITEM_LINKED\<rparr>) s;
        let s2 = upd_stats (\<lambda>st. st\<lparr>curr_bytes := curr_bytes st - ITEM_ntotal (heap s1 it),
                                  curr_items := curr_items st - 1\<rparr>) s1;
        s3 \<leftarrow> assoc_delete (it_key (heap s2 it)) (unat (it_nkey (heap s2 it))) hv s2;
        s4 \<leftarrow> item_unlink_q it s3;
        do_item_remove it s4
      }
      else Some s)"

definition do_item_unlink ::
  "ptr \<Rightarrow> u32 \<Rightarrow> 'a items_state_scheme \<Rightarrow> 'a items_state_scheme option" where
  "do_item_unlink it hv s = do {
     s0 \<leftarrow> cache_lock_acquire s;
     s5 \<leftarrow> (if it_flags (heap s0 it) AND ITEM_LINKED \<noteq> 0
           then do {
             let s1 = upd_item it (\<lambda>i. i\<lparr>it_flags := it_flags i AND NOT ITEM_LINKED\<rparr>) s0;
             let s2 = upd_stats (\<lambda>st. st\<lparr>curr_bytes := curr_bytes st - ITEM_ntotal (heap s1 it),
                                       curr_items := curr_items st - 1\<rparr>) s1;
             s3 \<leftarrow> assoc_delete (it_key (heap s2 it)) (unat (it_nkey (heap s2 it))) hv s2;
             s4 \<leftarrow> item_unlink_q it s3;
             do_item_remove it s4
           }
           else Some s0);
     Some (cache_lock_release s5)
   }"

text \<open>The common body of \<open>do_item_update\<close> and \<open>do_item_update_nolock\<close>: move to the front.\<close>

definition item_bump :: "ptr \<Rightarrow> 'a items_state_scheme \<Rightarrow> 'a items_state_scheme option" where
  "item_bump it s =
     (if it_flags (heap s it) AND ITEM_LINKED \<noteq> 0
      then do {
        s1 \<leftarrow> item_unlink_q it s;
        item_link_q it (upd_item it (\<lambda>i. i\<lparr>it_time := current_time s1\<rparr>) s1)
      }
      else Some s)"

definition do_item_update_nolock :: "ptr \<Rightarrow> 'a items_state_scheme \<Rightarrow> 'a items_state_scheme option" where
  "do_item_update_nolock it s =
     (if it_time (heap s it) < current_time s - ITEM_UPDATE_INTERVAL
      then do {
        c_assert (it_flags (heap s it) AND ITEM_SLABBED = 0);
        item_bump it s
      }
      else Some s)"

definition do_item_update :: "ptr \<Rightarrow> 'a items_state_scheme \<Rightarrow> 'a items_state_scheme option" where
  "do_item_update it s =
     (if it_time (heap s it) < current_time s - ITEM_UPDATE_INTERVAL
      then do {
        c_assert (it_flags (heap s it) AND ITEM_SLABBED = 0);
        s1 \<leftarrow> cache_lock_acquire s;
        s2 \<leftarrow> item_bump it s1;
        Some (cache_lock_release s2)
      }
      else Some s)"

definition do_item_replace ::
  "ptr \<Rightarrow> ptr \<Rightarrow> u32 \<Rightarrow> 'a items_state_scheme \<Rightarrow> 'a items_state_scheme option" where
  "do_item_replace it new_it hv s = do {
     c_assert (it_flags (heap s it) AND ITEM_SLABBED = 0);
     s1 \<leftarrow> do_item_unlink it hv s;
     do_item_link new_it hv s1
   }"

section \<open>Allocation\<close>

text \<open>\<open>item_make_header\<close>: the suffix, its length as stored in a byte, and the total size.\<close>

definition item_make_header :: "u8 \<Rightarrow> int \<Rightarrow> int \<Rightarrow> bytes \<times> u8 \<times> u64" where
  "item_make_header nkey flags nbytes =
     (let suffix = take 39 (32 # show_int flags @ 32 # show_int (nbytes - 2) @ [13, 10]);
          nsuffix = of_nat (length (32 # show_int flags @ 32 # show_int (nbytes - 2) @ [13, 10]))
      in (suffix, nsuffix, sizeof_item + ucast nkey + ucast nsuffix + of_int nbytes))"

definition item_ntotal_for :: "nat \<Rightarrow> int \<Rightarrow> int \<Rightarrow> 'a items_state_scheme \<Rightarrow> u64" where
  "item_ntotal_for nkey flags nbytes s =
     (case item_make_header (of_nat nkey + 1) flags nbytes of
        (_, _, ntotal) \<Rightarrow> if use_cas (settings s) then ntotal + 8 else ntotal)"

definition item_size_ok :: "nat \<Rightarrow> int \<Rightarrow> int \<Rightarrow> 'a items_state_scheme \<Rightarrow> bool option" where
  "item_size_ok nkey flags nbytes s = do {
     clsid \<leftarrow> slabs_clsid (item_ntotal_for nkey flags nbytes s) s;
     Some (clsid \<noteq> 0)
   }"

definition is_crawler :: "item \<Rightarrow> bool" where
  "is_crawler i \<longleftrightarrow> it_nbytes i = 0 \<and> it_nkey i = 0 \<and> it_flags i = 1"

definition item_expired :: "item \<Rightarrow> u32 \<Rightarrow> u32 \<Rightarrow> bool" where
  "item_expired i oldest now \<longleftrightarrow>
     (it_exptime i \<noteq> 0 \<and> it_exptime i < now) \<or> (it_time i \<le> oldest \<and> oldest \<le> now)"

text \<open>Taking the memory of an item at the tail: an expired one, or one that is evicted.\<close>

definition reuse_item ::
  "ptr \<Rightarrow> u32 \<Rightarrow> u64 \<Rightarrow> 'a items_state_scheme \<Rightarrow> 'a items_state_scheme option" where
  "reuse_item it hv ntotal s = do {
     s1 \<leftarrow> slabs_adjust_mem_requested (unat (it_slabs_clsid (heap s it))) (ITEM_ntotal (heap s it)) ntotal s;
     s2 \<leftarrow> do_item_unlink_nolock it hv s1;
     Some (upd_item it (\<lambda>i. i\<lparr>it_slabs_clsid := 0\<rparr>) s2)
   }"

text \<open>What is done with the first item of the tail that nobody else uses: its memory is taken when it
  has expired; otherwise a free chunk is used, or the item is evicted.  The result is \<open>it\<close> and
  \<open>tried_alloc\<close>.\<close>

definition alloc_take ::
  "alloc_env \<Rightarrow> u64 \<Rightarrow> nat \<Rightarrow> u32 \<Rightarrow> u32 \<Rightarrow> ptr \<Rightarrow> 'a items_state_scheme \<Rightarrow>
   (ptr \<times> bool \<times> 'a items_state_scheme) option" where
  "alloc_take env ntotal clsid hv oldest search s2 =
     (if item_expired (heap s2 search) oldest (current_time s2)
      then do {
        let s3 = upd_itemstats clsid (\<lambda>t. t\<lparr>reclaimed := reclaimed t + 1\<rparr>) s2;
        let s4 = (if it_flags (heap s3 search) AND ITEM_FETCHED = 0
                  then upd_itemstats clsid (\<lambda>t. t\<lparr>expired_unfetched := expired_unfetched t + 1\<rparr>) s3
                  else s3);
        s5 \<leftarrow> reuse_item search hv ntotal s4;
        Some (search, False, s5)
      }
      else do {
        (p, s3) \<leftarrow> slabs_alloc env ntotal clsid s2;
        if p \<noteq> NULL then Some (p, False, s3)
        else if \<not> evict_to_free (settings s3)
        then Some (NULL, True, upd_itemstats clsid (\<lambda>t. t\<lparr>outofmemory := outofmemory t + 1\<rparr>) s3)
        else do {
          let j = heap s3 search;
          let s4 = upd_itemstats clsid (\<lambda>t. t\<lparr>evicted := evicted t + 1,
                      evicted_time := current_time s3 - it_time j\<rparr>) s3;
          let s5 = (if it_exptime j \<noteq> 0
                    then upd_itemstats clsid (\<lambda>t. t\<lparr>evicted_nonzero := evicted_nonzero t + 1\<rparr>) s4
                    else s4);
          let s6 = (if it_flags j AND ITEM_FETCHED = 0
                    then upd_itemstats clsid (\<lambda>t. t\<lparr>evicted_unfetched := evicted_unfetched t + 1\<rparr>) s5
                    else s5);
          s7 \<leftarrow> reuse_item search hv ntotal s6;
          Some (search, True,
                if slab_automove (settings s7) = 2
                then snd (slabs_reassign (- 1) (int clsid) s7) else s7)
        }
      })"

text \<open>The search that walks up from the tail.  The result is \<open>it\<close>, \<open>search\<close>, \<open>tries\<close> and
  \<open>tried_alloc\<close> as the loop leaves them.\<close>

partial_function (option) alloc_search ::
  "alloc_env \<Rightarrow> u64 \<Rightarrow> nat \<Rightarrow> u32 \<Rightarrow> u32 \<Rightarrow> int \<Rightarrow> int \<Rightarrow> ptr \<Rightarrow> 'a items_state_scheme \<Rightarrow>
   (ptr \<times> ptr \<times> int \<times> bool \<times> 'a items_state_scheme) option" where
  "alloc_search env ntotal clsid cur_hv oldest tries reflocked search s =
     (if tries > 0 \<and> search \<noteq> NULL
      then let next_it = it_prev (heap s search); i = heap s search in
        if is_crawler i
        then alloc_search env ntotal clsid cur_hv oldest (tries + 1 - 1) reflocked next_it s
        else let hv = hash_fn s (item_key i) in
        if hv = cur_hv
        then alloc_search env ntotal clsid cur_hv oldest (tries - 1) reflocked next_it s
        else case item_trylock hv s of
          (None, s1) \<Rightarrow> alloc_search env ntotal clsid cur_hv oldest (tries - 1) reflocked next_it s1
        | (Some hold_lock, s1) \<Rightarrow>
          (case refcount_incr search s1 of (rc, s2) \<Rightarrow>
           if rc \<noteq> 2
           then do {
             s3 \<leftarrow> do_item_update_nolock search s2;
             let s4 = snd (refcount_decr search s3);
             let s5 = upd_itemstats clsid (\<lambda>t. t\<lparr>lrutail_reflocked := lrutail_reflocked t + 1\<rparr>) s4;
             s6 \<leftarrow> (if tail_repair_time (settings s5) \<noteq> 0 \<and>
                      it_time (heap s5 search) + tail_repair_time (settings s5) < current_time s5
                   then do_item_unlink_nolock search hv
                          (upd_item search (\<lambda>i. i\<lparr>it_refcount := 1\<rparr>)
                             (upd_itemstats clsid (\<lambda>t. t\<lparr>tailrepairs := tailrepairs t + 1\<rparr>) s5))
                   else Some s5);
             let s7 = item_trylock_unlock hold_lock s6;
             if reflocked - 1 < 1 then Some (NULL, search, tries + 1, False, s7)
             else alloc_search env ntotal clsid cur_hv oldest (tries + 1 - 1) (reflocked - 1) next_it s7
           }
           else do {
             (it, tried, s8) \<leftarrow> alloc_take env ntotal clsid hv oldest search s2;
             let s9 = snd (refcount_decr search s8);
             Some (it, search, tries, tried, item_trylock_unlock hold_lock s9)
           })
      else Some (NULL, search, tries, False, s))"

definition do_item_alloc ::
  "alloc_env \<Rightarrow> bytes \<Rightarrow> nat \<Rightarrow> int \<Rightarrow> u32 \<Rightarrow> int \<Rightarrow> u32 \<Rightarrow> 'a items_state_scheme \<Rightarrow>
   (ptr \<times> 'a items_state_scheme) option" where
  "do_item_alloc env key nkey flags exptime nbytes cur_hv s =
     (case item_make_header (of_nat nkey + 1) flags nbytes of (suffix, nsuffix, _) \<Rightarrow> do {
        let ntotal = item_ntotal_for nkey flags nbytes s;
        clsid \<leftarrow> slabs_clsid ntotal s;
        if clsid = 0 then Some (NULL, s)
        else do {
          s1 \<leftarrow> cache_lock_acquire s;
          c_assert (clsid < LARGEST_ID);
          (it, search, tries, tried_alloc, s2) \<leftarrow>
            alloc_search env ntotal clsid cur_hv (oldest_live (settings s1)) 5 1000 (tails s1 clsid) s1;
          (it, s3) \<leftarrow> (if \<not> tried_alloc \<and> (tries = 0 \<or> search = NULL)
                      then slabs_alloc env ntotal clsid s2 else Some (it, s2));
          if it = NULL
          then Some (NULL, cache_lock_release
                 (upd_itemstats clsid (\<lambda>t. t\<lparr>outofmemory := outofmemory t + 1\<rparr>) s3))
          else do {
            c_assert (it_slabs_clsid (heap s3 it) = 0);
            c_assert (it \<noteq> heads s3 clsid);
            let s4 = cache_lock_release (upd_item it (\<lambda>i. i\<lparr>it_refcount := 1\<rparr>) s3);
            Some (it, upd_item it (\<lambda>i. i\<lparr>
              it_next := NULL, it_prev := NULL, it_h_next := NULL,
              it_slabs_clsid := of_nat clsid,
              it_flags := (if use_cas (settings s4) then ITEM_CAS else 0),
              it_nkey := of_nat nkey, it_nbytes := of_int nbytes, it_key := take nkey key,
              it_exptime := exptime, it_suffix := suffix, it_nsuffix := nsuffix\<rparr>) s4)
          }
        }
      })"

section \<open>Lookup and flushing\<close>

text \<open>The first part of \<open>do_item_get\<close>: lookup, a reference, and the check that keeps popular
  items from holding up the rebalancer.\<close>

definition item_get_find ::
  "bytes \<Rightarrow> nat \<Rightarrow> u32 \<Rightarrow> 'a items_state_scheme \<Rightarrow> (ptr \<times> 'a items_state_scheme) option" where
  "item_get_find key nkey hv s = do {
     it \<leftarrow> assoc_find key nkey hv s;
     if it \<noteq> NULL
     then do {
       let s1 = snd (refcount_incr it s);
       if slab_rebalance_signal s1 \<noteq> 0 \<and>
          slab_start (slab_rebal s1) \<le> it \<and> it < slab_end (slab_rebal s1)
       then do {
         s2 \<leftarrow> do_item_unlink_nolock it hv s1;
         s3 \<leftarrow> do_item_remove it s2;
         Some (NULL, s3)
       }
       else Some (it, s1)
     }
     else Some (NULL, s)
   }"

definition do_item_get ::
  "bytes \<Rightarrow> nat \<Rightarrow> u32 \<Rightarrow> 'a items_state_scheme \<Rightarrow> (ptr \<times> 'a items_state_scheme) option" where
  "do_item_get key nkey hv s = do {
     (it, s1) \<leftarrow> item_get_find key nkey hv s;
     if it \<noteq> NULL
     then let i = heap s1 it; oldest = oldest_live (settings s1) in
       if (oldest \<noteq> 0 \<and> oldest \<le> current_time s1 \<and> it_time i \<le> oldest)
       then do { s2 \<leftarrow> do_item_unlink it hv s1; s3 \<leftarrow> do_item_remove it s2; Some (NULL, s3) }
       else if it_exptime i \<noteq> 0 \<and> it_exptime i \<le> current_time s1
       then do { s2 \<leftarrow> do_item_unlink it hv s1; s3 \<leftarrow> do_item_remove it s2; Some (NULL, s3) }
       else Some (it, upd_item it (\<lambda>i. i\<lparr>it_flags := it_flags i OR ITEM_FETCHED\<rparr>) s1)
     else Some (NULL, s1)
   }"

definition do_item_touch ::
  "bytes \<Rightarrow> nat \<Rightarrow> u32 \<Rightarrow> u32 \<Rightarrow> 'a items_state_scheme \<Rightarrow> (ptr \<times> 'a items_state_scheme) option" where
  "do_item_touch key nkey exptime hv s = do {
     (it, s1) \<leftarrow> do_item_get key nkey hv s;
     Some (it, if it \<noteq> NULL then upd_item it (\<lambda>i. i\<lparr>it_exptime := exptime\<rparr>) s1 else s1)
   }"

partial_function (option) flush_list ::
  "ptr \<Rightarrow> 'a items_state_scheme \<Rightarrow> 'a items_state_scheme option" where
  "flush_list iter s =
     (if iter \<noteq> NULL
      then let i = heap s iter in
        if it_time i \<noteq> 0 \<and> it_time i \<ge> oldest_live (settings s)
        then do {
          let nxt = it_next i;
          s1 \<leftarrow> (if it_flags i AND ITEM_SLABBED = 0
                then do_item_unlink_nolock iter (hash_fn s (item_key i)) s else Some s);
          flush_list nxt s1
        }
        else Some s
      else Some s)"

fun flush_lists :: "nat \<Rightarrow> nat \<Rightarrow> 'a items_state_scheme \<Rightarrow> 'a items_state_scheme option" where
  "flush_lists 0 i s = Some s"
| "flush_lists (Suc n) i s = do { s1 \<leftarrow> flush_list (heads s i) s; flush_lists n (i + 1) s1 }"

definition do_item_flush_expired :: "'a items_state_scheme \<Rightarrow> 'a items_state_scheme option" where
  "do_item_flush_expired s =
     (if oldest_live (settings s) = 0 then Some s else flush_lists LARGEST_ID 0 s)"

section \<open>Statistics\<close>

definition item_stats_evictions :: "'a items_state_scheme \<Rightarrow> ((nat \<Rightarrow> u64) \<times> 'a items_state_scheme) option" where
  "item_stats_evictions s = do {
     s1 \<leftarrow> cache_lock_acquire s;
     Some (\<lambda>i. evicted (itemstats s1 i), cache_lock_release s1)
   }"

text \<open>The totals in the order in which they are reported.\<close>

definition do_item_stats_totals :: "'a items_state_scheme \<Rightarrow> u64 list" where
  "do_item_stats_totals s =
     (let tot = (\<lambda>f. foldl (\<lambda>a i. a + f (itemstats s i)) 0 [0..<LARGEST_ID])
      in [tot expired_unfetched, tot evicted_unfetched, tot evicted, tot reclaimed,
          tot crawler_reclaimed, tot lrutail_reflocked])"

text \<open>The lines for one class: \<open>number\<close>, \<open>age\<close>, \<open>evicted\<close>, \<open>evicted_nonzero\<close>, \<open>evicted_time\<close>,
  \<open>outofmemory\<close>, \<open>tailrepairs\<close>, \<open>reclaimed\<close>, \<open>expired_unfetched\<close>, \<open>evicted_unfetched\<close>,
  \<open>crawler_reclaimed\<close> and \<open>lrutail_reflocked\<close>.\<close>

definition class_stats :: "nat \<Rightarrow> 'a items_state_scheme \<Rightarrow> nat list" where
  "class_stats i s =
     (let t = itemstats s i
      in [unat (sizes s i), unat (current_time s - it_time (heap s (tails s i))),
          unat (evicted t), unat (evicted_nonzero t), unat (evicted_time t),
          unat (outofmemory t), unat (tailrepairs t), unat (reclaimed t),
          unat (expired_unfetched t), unat (evicted_unfetched t),
          unat (crawler_reclaimed t), unat (lrutail_reflocked t)])"

definition do_item_stats :: "'a items_state_scheme \<Rightarrow> (nat \<times> nat list) list" where
  "do_item_stats s =
     map (\<lambda>i. (i, class_stats i s)) (filter (\<lambda>i. tails s i \<noteq> NULL) [0..<LARGEST_ID])"

text \<open>The histogram of item sizes, in buckets of 32 bytes.\<close>

definition num_buckets :: nat where "num_buckets = 32768"

definition size_bucket :: "item \<Rightarrow> nat" where
  "size_bucket i =
     (let ntotal = unat (ITEM_ntotal i); b = ntotal div 32
      in if ntotal mod 32 \<noteq> 0 then b + 1 else b)"

partial_function (option) histogram_list ::
  "(ptr \<Rightarrow> item) \<Rightarrow> ptr \<Rightarrow> (nat \<Rightarrow> u32) \<Rightarrow> (nat \<Rightarrow> u32) option" where
  "histogram_list h iter hist =
     (if iter \<noteq> NULL
      then let b = size_bucket (h iter) in
        histogram_list h (it_next (h iter)) (if b < num_buckets then hist(b := hist b + 1) else hist)
      else Some hist)"

fun histogram :: "nat \<Rightarrow> nat \<Rightarrow> 'a items_state_scheme \<Rightarrow> (nat \<Rightarrow> u32) \<Rightarrow> (nat \<Rightarrow> u32) option" where
  "histogram 0 i s hist = Some hist"
| "histogram (Suc n) i s hist = do {
     h1 \<leftarrow> histogram_list (heap s) (heads s i) hist;
     histogram n (i + 1) s h1
   }"

text \<open>The lines \<open>size count\<close>; \<open>calloc_ok\<close> tells whether the histogram could be allocated.\<close>

definition do_item_stats_sizes :: "bool \<Rightarrow> 'a items_state_scheme \<Rightarrow> (nat \<times> u32) list option" where
  "do_item_stats_sizes calloc_ok s =
     (if calloc_ok
      then do {
        hist \<leftarrow> histogram LARGEST_ID 0 s (\<lambda>_. 0);
        Some (map (\<lambda>b. (b * 32, hist b)) (filter (\<lambda>b. hist b \<noteq> 0) [0..<num_buckets]))
      }
      else Some [])"

text \<open>\<open>do_item_cachedump\<close>: lines for up to \<open>limit\<close> items (all, if 0) from the head of a list, as
  many as fit into 2 MB; \<open>malloc_ok\<close> as above.\<close>

definition ascii :: "string \<Rightarrow> bytes" where
  "ascii str = map of_char str"

definition dump_line :: "u64 \<Rightarrow> item \<Rightarrow> bytes" where
  "dump_line started i =
     take 511 (ascii ''ITEM '' @ takeWhile (\<lambda>c. c \<noteq> 0) (item_key i) @ ascii '' ['' @
        show_int (sint (it_nbytes i) - 2) @ ascii '' b; '' @
        show_nat (unat (ucast (it_exptime i) + started)) @ ascii '' s]'' @ [13, 10])"

definition memlimit :: nat where "memlimit = 2 * 1024 * 1024"

partial_function (option) cachedump_loop ::
  "u64 \<Rightarrow> nat \<Rightarrow> (ptr \<Rightarrow> item) \<Rightarrow> ptr \<Rightarrow> nat \<Rightarrow> bytes \<Rightarrow> bytes option" where
  "cachedump_loop started limit h it shown buf =
     (if it \<noteq> NULL \<and> (limit = 0 \<or> shown < limit)
      then if unat (it_nkey (h it)) > KEY_MAX_LENGTH then None
      else if it_nbytes (h it) = 0 \<and> it_nkey (h it) = 0
      then cachedump_loop started limit h (it_next (h it)) shown buf
      else let line = dump_line started (h it) in
        if length buf + length line + 6 > memlimit then Some buf
        else cachedump_loop started limit h (it_next (h it)) (shown + 1) (buf @ line)
      else Some buf)"

definition do_item_cachedump ::
  "bool \<Rightarrow> u64 \<Rightarrow> nat \<Rightarrow> nat \<Rightarrow> 'a items_state_scheme \<Rightarrow> bytes option option" where
  "do_item_cachedump malloc_ok started clsid limit s =
     (if \<not> malloc_ok then Some None
      else do {
        c_assert (clsid < LARGEST_ID);
        buf \<leftarrow> cachedump_loop started limit (heap s) (heads s clsid) 0 [];
        Some (Some (buf @ ascii ''END'' @ [13, 10]))
      })"

end
