(* ===== verification/MC_Lru.thy ===== *)
theory MC_Lru
  imports MC_Items
begin

text \<open>
  The representation of the LRU lists and of the whole item cache, and what the operations of
  \<open>items.c\<close> do to it.  \<open>lru_rel s L\<close>: the list of class \<open>c\<close> holds the items \<open>L c\<close>, most
  recently used first.  \<open>cache_inv s M L F\<close> joins this with the hash table (\<open>M\<close>) and the free
  chunks (\<open>F\<close>): an item is in the table exactly when it is in the LRU list of its class, and the
  counters are the number and the total size of these items.
\<close>

unbundle bit_operations_syntax

section \<open>Heaps that differ in the list links only\<close>

definition links_only :: "(ptr \<Rightarrow> item) \<Rightarrow> (ptr \<Rightarrow> item) \<Rightarrow> bool" where
  "links_only h h' \<longleftrightarrow>
     (\<forall>p. (h' p)\<lparr>it_next := NULL, it_prev := NULL\<rparr> = (h p)\<lparr>it_next := NULL, it_prev := NULL\<rparr>)"

lemma links_onlyD:
  assumes "links_only h h'"
  shows "it_h_next (h' p) = it_h_next (h p)" "it_time (h' p) = it_time (h p)"
    "it_exptime (h' p) = it_exptime (h p)" "it_nbytes (h' p) = it_nbytes (h p)"
    "it_refcount (h' p) = it_refcount (h p)" "it_nsuffix (h' p) = it_nsuffix (h p)"
    "it_flags (h' p) = it_flags (h p)" "it_slabs_clsid (h' p) = it_slabs_clsid (h p)"
    "it_nkey (h' p) = it_nkey (h p)" "it_cas (h' p) = it_cas (h p)" "it_key (h' p) = it_key (h p)"
    "it_suffix (h' p) = it_suffix (h p)" "it_data (h' p) = it_data (h p)"
proof -
  have e: "(h' p)\<lparr>it_next := NULL, it_prev := NULL\<rparr> = (h p)\<lparr>it_next := NULL, it_prev := NULL\<rparr>"
    using assms by (simp add: links_only_def)
  show "it_h_next (h' p) = it_h_next (h p)" "it_time (h' p) = it_time (h p)"
    "it_exptime (h' p) = it_exptime (h p)" "it_nbytes (h' p) = it_nbytes (h p)"
    "it_refcount (h' p) = it_refcount (h p)" "it_nsuffix (h' p) = it_nsuffix (h p)"
    "it_flags (h' p) = it_flags (h p)" "it_slabs_clsid (h' p) = it_slabs_clsid (h p)"
    "it_nkey (h' p) = it_nkey (h p)" "it_cas (h' p) = it_cas (h p)" "it_key (h' p) = it_key (h p)"
    "it_suffix (h' p) = it_suffix (h p)" "it_data (h' p) = it_data (h p)"
    using arg_cong [OF e, of it_h_next] arg_cong [OF e, of it_time] arg_cong [OF e, of it_exptime]
      arg_cong [OF e, of it_nbytes] arg_cong [OF e, of it_refcount] arg_cong [OF e, of it_nsuffix]
      arg_cong [OF e, of it_flags] arg_cong [OF e, of it_slabs_clsid] arg_cong [OF e, of it_nkey]
      arg_cong [OF e, of it_cas] arg_cong [OF e, of it_key] arg_cong [OF e, of it_suffix]
      arg_cong [OF e, of it_data]
    by simp_all
qed

lemma links_only_refl [simp]: "links_only h h"
  by (simp add: links_only_def)

lemma links_only_trans: "links_only h h' \<Longrightarrow> links_only h' h'' \<Longrightarrow> links_only h h''"
  by (simp add: links_only_def)

lemma links_only_next: "links_only h (h(p := (h p)\<lparr>it_next := v\<rparr>))"
  and links_only_prev: "links_only h (h(p := (h p)\<lparr>it_prev := v\<rparr>))"
  by (simp_all add: links_only_def)

lemma ITEM_ntotal_cong:
  assumes "it_nkey i = it_nkey j" "it_nsuffix i = it_nsuffix j" "it_nbytes i = it_nbytes j"
    and "bit (it_flags i) 1 = bit (it_flags j) 1"
  shows "ITEM_ntotal i = ITEM_ntotal j"
  using assms by (simp add: ITEM_ntotal_def cas_size_def ITEM_CAS_def and_flag_bit)

text \<open>A node of a list is an item, not a crawler.\<close>

definition is_item :: "item \<Rightarrow> bool" where
  "is_item i \<longleftrightarrow> it_nbytes i \<noteq> 0 \<or> it_nkey i \<noteq> 0"

lemma is_item_crawler: "is_item i \<Longrightarrow> \<not> is_crawler i"
  by (auto simp: is_item_def is_crawler_def)

section \<open>The LRU lists\<close>

definition lru_list :: "(ptr \<Rightarrow> item) \<Rightarrow> nat \<Rightarrow> ptr \<Rightarrow> ptr \<Rightarrow> u32 \<Rightarrow> ptr list \<Rightarrow> bool" where
  "lru_list h c hp tp sz xs \<longleftrightarrow>
     dll (\<lambda>p. it_next (h p)) (\<lambda>p. it_prev (h p)) hp xs tp \<and>
     sz = of_nat (length (filter (\<lambda>p. is_item (h p)) xs)) \<and>
     (\<forall>p\<in>set xs. it_slabs_clsid (h p) = of_nat c)"

definition lru_rel :: "'a items_state_scheme \<Rightarrow> (nat \<Rightarrow> ptr list) \<Rightarrow> bool" where
  "lru_rel s L \<longleftrightarrow> (\<forall>c<LARGEST_ID. lru_list (heap s) c (heads s c) (tails s c) (sizes s c) (L c))"

lemma lru_list_cong:
  assumes "\<And>p. p \<in> set xs \<Longrightarrow> it_next (h' p) = it_next (h p) \<and> it_prev (h' p) = it_prev (h p) \<and>
             is_item (h' p) = is_item (h p) \<and> it_slabs_clsid (h' p) = it_slabs_clsid (h p)"
  shows "lru_list h' c hp tp sz xs = lru_list h c hp tp sz xs"
proof -
  have "dll (\<lambda>p. it_next (h' p)) (\<lambda>p. it_prev (h' p)) hp xs tp =
        dll (\<lambda>p. it_next (h p)) (\<lambda>p. it_prev (h p)) hp xs tp"
    using assms by (intro dseg_cong) auto
  moreover have "filter (\<lambda>p. is_item (h' p)) xs = filter (\<lambda>p. is_item (h p)) xs"
    using assms by (intro filter_cong) auto
  ultimately show ?thesis using assms by (simp add: lru_list_def)
qed

lemma lru_relD:
  "lru_rel s L \<Longrightarrow> c < LARGEST_ID \<Longrightarrow> lru_list (heap s) c (heads s c) (tails s c) (sizes s c) (L c)"
  by (simp add: lru_rel_def)

lemma of_nat_class_inj: "c < LARGEST_ID \<Longrightarrow> d < LARGEST_ID \<Longrightarrow> (of_nat c :: u8) = of_nat d \<Longrightarrow> c = d"
  by (simp add: LARGEST_ID_def POWER_LARGEST_def word_unat_eq_iff unat_of_nat)

lemma unat_of_nat_class: "c < LARGEST_ID \<Longrightarrow> unat (of_nat c :: u8) = c"
  by (simp add: LARGEST_ID_def POWER_LARGEST_def unat_of_nat)

lemma lru_class:
  assumes "lru_rel s L" "c < LARGEST_ID" "p \<in> set (L c)"
  shows "it_slabs_clsid (heap s p) = of_nat c" "unat (it_slabs_clsid (heap s p)) = c"
proof -
  show "it_slabs_clsid (heap s p) = of_nat c"
    using lru_relD [OF assms(1,2)] assms(3) by (simp add: lru_list_def)
  then show "unat (it_slabs_clsid (heap s p)) = c" using unat_of_nat_class [OF assms(2)] by simp
qed

lemma lru_disjoint:
  assumes "lru_rel s L" "c < LARGEST_ID" "d < LARGEST_ID" "c \<noteq> d"
  shows "set (L c) \<inter> set (L d) = {}"
  using lru_class(2) [OF assms(1)] assms(2-4) by blast

lemma lru_distinct: "lru_rel s L \<Longrightarrow> c < LARGEST_ID \<Longrightarrow> distinct (L c)"
  using lru_relD by (fastforce simp: lru_list_def dest: dll_distinct)

lemma lru_NULL: "lru_rel s L \<Longrightarrow> c < LARGEST_ID \<Longrightarrow> NULL \<notin> set (L c)"
  using lru_relD by (fastforce simp: lru_list_def dest: dll_NULL_notin)

text \<open>Replacing one list; the others are not affected by changes to its nodes.\<close>

lemma lru_rel_update:
  assumes l: "lru_rel s L" and c: "c < LARGEST_ID"
    and new: "lru_list (heap s') c (heads s' c) (tails s' c) (sizes s' c) xs"
    and same: "\<And>p. p \<notin> insert x (set (L c)) \<Longrightarrow> heap s' p = heap s p"
    and x: "\<And>d. d < LARGEST_ID \<Longrightarrow> d \<noteq> c \<Longrightarrow> x \<notin> set (L d)"
    and ht: "\<And>d. d \<noteq> c \<Longrightarrow> heads s' d = heads s d \<and> tails s' d = tails s d \<and> sizes s' d = sizes s d"
  shows "lru_rel s' (L(c := xs))"
  unfolding lru_rel_def
proof (intro allI impI)
  fix d assume d: "d < LARGEST_ID"
  show "lru_list (heap s') d (heads s' d) (tails s' d) (sizes s' d) ((L(c := xs)) d)"
  proof (cases "d = c")
    case True
    with new show ?thesis by simp
  next
    case False
    have "heap s' p = heap s p" if "p \<in> set (L d)" for p
      using that x [OF d False] lru_disjoint [OF l c d] False by (intro same) auto
    then show ?thesis using lru_relD [OF l d] ht [OF False] False
      by (subst lru_list_cong [where h = "heap s"]) auto
  qed
qed

lemma lru_list_push:
  assumes l: "lru_list h c hp tp sz xs" and x: "x \<notin> set xs" "x \<noteq> NULL" "is_item (h x)"
    "it_slabs_clsid (h x) = of_nat c"
    and h1: "h1 = h(x := (h x)\<lparr>it_prev := NULL, it_next := hp\<rparr>)"
    and h2: "h2 = (if hp \<noteq> NULL then h1(hp := (h1 hp)\<lparr>it_prev := x\<rparr>) else h1)"
  shows "lru_list h2 c x (if tp = NULL then x else tp) (sz + 1) (x # xs)"
    "links_only h h2" "\<And>p. p \<notin> insert x (set xs) \<Longrightarrow> h2 p = h p"
proof -
  from l have d: "dll (\<lambda>p. it_next (h p)) (\<lambda>p. it_prev (h p)) hp xs tp" by (simp add: lru_list_def)
  have hp: "hp \<noteq> NULL \<Longrightarrow> hp \<in> set xs" using d by (metis dll_head_NULL dseg_first hd_in_set)
  have "(\<lambda>p. it_next (h2 p)) = (\<lambda>p. it_next (h p))(x := hp)"
    "(\<lambda>p. it_prev (h2 p)) = (if hp = NULL then (\<lambda>p. it_prev (h p))(x := NULL)
          else (\<lambda>p. it_prev (h p))(x := NULL, hp := x))"
    using hp x by (auto simp: h2 h1 fun_eq_iff)
  with dll_push [OF d x(1,2)]
  have "dll (\<lambda>p. it_next (h2 p)) (\<lambda>p. it_prev (h2 p)) x (x # xs) (if tp = NULL then x else tp)" by simp
  moreover show lo: "links_only h h2"
    by (auto simp: h2 h1 links_only_def)
  moreover have "is_item (h2 p) = is_item (h p)" for p
    using links_onlyD [OF lo, of p] by (simp add: is_item_def)
  moreover have "it_slabs_clsid (h2 p) = it_slabs_clsid (h p)" for p
    using links_onlyD [OF lo, of p] by simp
  ultimately show "lru_list h2 c x (if tp = NULL then x else tp) (sz + 1) (x # xs)"
    using l x by (simp add: lru_list_def)
  show "h2 p = h p" if "p \<notin> insert x (set xs)" for p
    using that hp by (auto simp: h2 h1)
qed

lemma lru_list_remove:
  assumes l: "lru_list h c hp tp sz (xs @ x # ys)"
    and h1: "h1 = (if it_next (h x) \<noteq> NULL
                   then h(it_next (h x) := (h (it_next (h x)))\<lparr>it_prev := it_prev (h x)\<rparr>) else h)"
    and h2: "h2 = (if it_prev (h x) \<noteq> NULL
                   then h1(it_prev (h x) := (h1 (it_prev (h x)))\<lparr>it_next := it_next (h x)\<rparr>) else h1)"
  shows "lru_list h2 c (if hp = x then it_next (h x) else hp) (if tp = x then it_prev (h x) else tp)
            (if is_item (h x) then sz - 1 else sz) (xs @ ys)"
    "links_only h h2" "\<And>p. p \<notin> set (xs @ ys) \<Longrightarrow> h2 p = h p"
    "it_next (h x) \<noteq> x" "it_prev (h x) \<noteq> x" "hp = x \<Longrightarrow> it_prev (h x) = NULL" "tp = x \<Longrightarrow> it_next (h x) = NULL"
proof -
  from l have d: "dll (\<lambda>p. it_next (h p)) (\<lambda>p. it_prev (h p)) hp (xs @ x # ys) tp" by (simp add: lru_list_def)
  note dist = dll_distinct [OF d] and nn = dll_NULL_notin [OF d]
  from d obtain a: "dseg (\<lambda>p. it_next (h p)) (\<lambda>p. it_prev (h p)) NULL hp xs (it_prev (h x)) x"
    and b: "dseg (\<lambda>p. it_next (h p)) (\<lambda>p. it_prev (h p)) x (it_next (h x)) ys tp NULL"
    by (auto simp: dseg_append)
  have pv: "if xs = [] then it_prev (h x) = NULL else it_prev (h x) \<in> set xs"
    using dseg_last [OF a] by simp
  have nx: "if ys = [] then it_next (h x) = NULL else it_next (h x) \<in> set ys"
    using dseg_first [OF b] by simp
  show "it_next (h x) \<noteq> x" "it_prev (h x) \<noteq> x"
    using pv nx dist nn by (auto split: if_splits)
  show "it_prev (h x) = NULL" if "hp = x"
    using dseg_first [OF a] that dist pv by (auto split: if_splits)
  show "it_next (h x) = NULL" if "tp = x"
    using dseg_last [OF b] that dist nx by (auto split: if_splits)
  show lo: "links_only h h2"
    unfolding h2 h1 by (auto simp: links_only_def)
  show "h2 p = h p" if "p \<notin> set (xs @ ys)" for p
    using that pv nx unfolding h2 h1 by (auto split: if_splits)
  have ne: "it_next (h x) \<noteq> NULL \<Longrightarrow> it_next (h x) \<noteq> it_prev (h x)"
    using pv nx dist nn by (auto split: if_splits)
  have "(\<lambda>p. it_next (h2 p)) = (if it_prev (h x) = NULL then \<lambda>p. it_next (h p)
          else (\<lambda>p. it_next (h p))(it_prev (h x) := it_next (h x)))"
    "(\<lambda>p. it_prev (h2 p)) = (if it_next (h x) = NULL then \<lambda>p. it_prev (h p)
          else (\<lambda>p. it_prev (h p))(it_next (h x) := it_prev (h x)))"
    unfolding h2 h1 using ne by (auto simp: fun_eq_iff)
  with dll_remove [OF d] have "dll (\<lambda>p. it_next (h2 p)) (\<lambda>p. it_prev (h2 p))
      (if hp = x then it_next (h x) else hp) (xs @ ys) (if tp = x then it_prev (h x) else tp)" by simp
  moreover have it: "is_item (h2 p) = is_item (h p)" "it_slabs_clsid (h2 p) = it_slabs_clsid (h p)" for p
    using links_onlyD [OF lo, of p] by (simp_all add: is_item_def)
  moreover have "(if is_item (h x) then sz - 1 else sz) = of_nat (length (filter (\<lambda>p. is_item (h p)) (xs @ ys)))"
    using l by (simp add: lru_list_def)
  ultimately show "lru_list h2 c (if hp = x then it_next (h x) else hp) (if tp = x then it_prev (h x) else tp)
            (if is_item (h x) then sz - 1 else sz) (xs @ ys)"
    using l by (auto simp: lru_list_def)
qed

section \<open>Frames\<close>

text \<open>What linking and unlinking in a list changes.\<close>

definition list_frame :: "'a items_state_scheme \<Rightarrow> 'a items_state_scheme \<Rightarrow> bool" where
  "list_frame s s' \<longleftrightarrow> links_only (heap s) (heap s') \<and>
     (\<exists>h a b c. s' = s\<lparr>heap := h, heads := a, tails := b, sizes := c\<rparr>)"

lemma list_frameD:
  assumes "list_frame s s'"
  shows "links_only (heap s) (heap s')" "settings s' = settings s" "stats s' = stats s"
    "current_time s' = current_time s" "hash_fn s' = hash_fn s" "cache_lock s' = cache_lock s"
    "slabs_lock s' = slabs_lock s" "slabs_rebalance_lock s' = slabs_rebalance_lock s"
    "item_locks s' = item_locks s" "item_lock_hashpower s' = item_lock_hashpower s"
    "hashpower s' = hashpower s" "primary_hashtable s' = primary_hashtable s"
    "old_hashtable s' = old_hashtable s" "hash_items s' = hash_items s" "expanding s' = expanding s"
    "expand_bucket s' = expand_bucket s" "slabclass s' = slabclass s"
    "power_largest s' = power_largest s" "classes s' = classes s" "itemstats s' = itemstats s"
    "slab_rebal s' = slab_rebal s" "slab_rebalance_signal s' = slab_rebalance_signal s"
    "cas_id s' = cas_id s"
  using assms by (auto simp: list_frame_def classes_def)

lemma list_frame_trans: "list_frame s s' \<Longrightarrow> list_frame s' s'' \<Longrightarrow> list_frame s s''"
  unfolding list_frame_def using links_only_trans by fastforce

lemma item_link_q_rel:
  assumes l: "lru_rel s L" and it: "it \<noteq> NULL" "is_item (heap s it)" "\<not> is_slabbed (heap s it)"
    and c: "c = unat (it_slabs_clsid (heap s it))" "c < LARGEST_ID" and new: "it \<notin> set (L c)"
  shows "\<exists>s'. item_link_q it s = Some s' \<and> lru_rel s' (L(c := it # L c)) \<and> list_frame s s' \<and>
     (\<forall>p. p \<notin> insert it (set (L c)) \<longrightarrow> heap s' p = heap s p)"
proof -
  note lc = lru_relD [OF l c(2)]
  let ?hd = "heads s c" and ?tl = "tails s c"
  from lc have d: "dll (nxt s) (prv s) ?hd (L c) ?tl" by (simp add: lru_list_def)
  have ht: "(?hd = NULL) = (?tl = NULL)" "?hd \<noteq> it"
    using dll_head_NULL [OF d] dll_tail_NULL [OF d] dseg_first [OF d] new it(1)
    by (simp, metis hd_in_set)
  let ?h1 = "(heap s)(it := (heap s it)\<lparr>it_prev := NULL, it_next := ?hd\<rparr>)"
  define h2 where "h2 = (if ?hd \<noteq> NULL then ?h1(?hd := (?h1 ?hd)\<lparr>it_prev := it\<rparr>) else ?h1)"
  let ?s' = "s\<lparr>heap := h2, heads := (heads s)(c := it),
               tails := (if ?tl = NULL then (tails s)(c := it) else tails s),
               sizes := (sizes s)(c := sizes s c + 1)\<rparr>"
  have cl: "it_slabs_clsid (heap s it) = of_nat c" by (simp add: c(1))
  note push = lru_list_push [OF lc new it(1,2) cl refl h2_def]
  have "item_link_q it s = Some ?s'"
    using c it ht ht(2) [symmetric]
    by (cases "?hd = NULL")
      (simp_all add: h2_def item_link_q_def is_slabbed_def upd_item_def upd_item_if_def Let_def)
  moreover have "lru_rel ?s' (L(c := it # L c))"
  proof (rule lru_rel_update [OF l c(2), where x = it])
    show "lru_list (heap ?s') c (heads ?s' c) (tails ?s' c) (sizes ?s' c) (it # L c)"
      using push(1) by (cases "?tl = NULL") simp_all
    show "heap ?s' p = heap s p" if "p \<notin> insert it (set (L c))" for p
      using push(3) [OF that] by simp
    show "it \<notin> set (L d)" if "d < LARGEST_ID" "d \<noteq> c" for d
      using lru_class(2) [OF l that(1)] that(2) c(1) by blast
  qed simp_all
  moreover have "list_frame s ?s'"
    using push(2) unfolding list_frame_def by (intro conjI exI) simp_all
  moreover have "\<forall>p. p \<notin> insert it (set (L c)) \<longrightarrow> heap ?s' p = heap s p"
    using push(3) by simp
  ultimately show ?thesis by blast
qed

lemma item_unlink_q_rel:
  assumes l: "lru_rel s L" and it: "it \<in> set (L c)" "is_item (heap s it)" and c: "c < LARGEST_ID"
  shows "\<exists>s'. item_unlink_q it s = Some s' \<and> lru_rel s' (L(c := remove1 it (L c))) \<and> list_frame s s' \<and>
     (\<forall>p. p \<notin> set (L c) - {it} \<longrightarrow> heap s' p = heap s p)"
proof -
  note lc = lru_relD [OF l c]
  have dist: "distinct (L c)" using l c by (rule lru_distinct)
  obtain xs ys where L: "L c = xs @ it # ys" "it \<notin> set xs" "it \<notin> set ys"
    using it(1) dist by (rule split_list_distinct)
  have cl: "unat (it_slabs_clsid (heap s it)) = c" using lru_class(2) [OF l c it(1)] .
  let ?n = "it_next (heap s it)" and ?v = "it_prev (heap s it)"
  let ?h1 = "if ?n \<noteq> NULL then (heap s)(?n := (heap s ?n)\<lparr>it_prev := ?v\<rparr>) else heap s"
  define h2 where "h2 = (if ?v \<noteq> NULL then ?h1(?v := (?h1 ?v)\<lparr>it_next := ?n\<rparr>) else ?h1)"
  note rem = lru_list_remove [OF lc [unfolded L(1)] refl h2_def]
  let ?s' = "s\<lparr>heap := h2, heads := (if heads s c = it then (heads s)(c := ?n) else heads s),
               tails := (if tails s c = it then (tails s)(c := ?v) else tails s),
               sizes := (sizes s)(c := sizes s c - 1)\<rparr>"
  have "item_unlink_q it s = Some ?s'"
    using rem(4-7) c
    by (cases "heads s c = it"; cases "tails s c = it"; cases "?n = NULL"; cases "?v = NULL")
      (simp_all add: h2_def item_unlink_q_def unlink_from_list_def cl upd_item_def upd_item_if_def Let_def)
  moreover have "lru_rel ?s' (L(c := remove1 it (L c)))"
  proof (rule lru_rel_update [OF l c, where x = it])
    show "lru_list (heap ?s') c (heads ?s' c) (tails ?s' c) (sizes ?s' c) (remove1 it (L c))"
      using rem(1) it(2) unfolding L(1) remove1_mid [OF L(2)]
      by (cases "heads s c = it"; cases "tails s c = it") simp_all
    show "heap ?s' p = heap s p" if "p \<notin> insert it (set (L c))" for p
      using rem(3) [of p] that L(1) by simp
    show "it \<notin> set (L d)" if "d < LARGEST_ID" "d \<noteq> c" for d
      using lru_class(2) [OF l that(1)] that(2) cl by blast
  qed simp_all
  moreover have "list_frame s ?s'"
    using rem(2) unfolding list_frame_def by (intro conjI exI) simp_all
  moreover have "\<forall>p. p \<notin> set (L c) - {it} \<longrightarrow> heap ?s' p = heap s p"
    using rem(3) L by auto
  ultimately show ?thesis by blast
qed

text \<open>What inserting into and deleting from the hash table change.\<close>

definition hnext_only :: "(ptr \<Rightarrow> item) \<Rightarrow> (ptr \<Rightarrow> item) \<Rightarrow> bool" where
  "hnext_only h h' \<longleftrightarrow> (\<forall>p. (h' p)\<lparr>it_h_next := NULL\<rparr> = (h p)\<lparr>it_h_next := NULL\<rparr>)"

lemma hnext_onlyD:
  assumes "hnext_only h h'"
  shows "it_next (h' p) = it_next (h p)" "it_prev (h' p) = it_prev (h p)" "it_time (h' p) = it_time (h p)"
    "it_exptime (h' p) = it_exptime (h p)" "it_nbytes (h' p) = it_nbytes (h p)"
    "it_refcount (h' p) = it_refcount (h p)" "it_nsuffix (h' p) = it_nsuffix (h p)"
    "it_flags (h' p) = it_flags (h p)" "it_slabs_clsid (h' p) = it_slabs_clsid (h p)"
    "it_nkey (h' p) = it_nkey (h p)" "it_cas (h' p) = it_cas (h p)" "it_key (h' p) = it_key (h p)"
    "it_suffix (h' p) = it_suffix (h p)" "it_data (h' p) = it_data (h p)"
proof -
  have e: "(h' p)\<lparr>it_h_next := NULL\<rparr> = (h p)\<lparr>it_h_next := NULL\<rparr>"
    using assms by (simp add: hnext_only_def)
  show "it_next (h' p) = it_next (h p)" "it_prev (h' p) = it_prev (h p)" "it_time (h' p) = it_time (h p)"
    "it_exptime (h' p) = it_exptime (h p)" "it_nbytes (h' p) = it_nbytes (h p)"
    "it_refcount (h' p) = it_refcount (h p)" "it_nsuffix (h' p) = it_nsuffix (h p)"
    "it_flags (h' p) = it_flags (h p)" "it_slabs_clsid (h' p) = it_slabs_clsid (h p)"
    "it_nkey (h' p) = it_nkey (h p)" "it_cas (h' p) = it_cas (h p)" "it_key (h' p) = it_key (h p)"
    "it_suffix (h' p) = it_suffix (h p)" "it_data (h' p) = it_data (h p)"
    using arg_cong [OF e, of it_next] arg_cong [OF e, of it_prev] arg_cong [OF e, of it_time]
      arg_cong [OF e, of it_exptime] arg_cong [OF e, of it_nbytes] arg_cong [OF e, of it_refcount]
      arg_cong [OF e, of it_nsuffix] arg_cong [OF e, of it_flags] arg_cong [OF e, of it_slabs_clsid]
      arg_cong [OF e, of it_nkey] arg_cong [OF e, of it_cas] arg_cong [OF e, of it_key]
      arg_cong [OF e, of it_suffix] arg_cong [OF e, of it_data]
    by simp_all
qed

definition table_frame :: "'a assoc_state_scheme \<Rightarrow> 'a assoc_state_scheme \<Rightarrow> bool" where
  "table_frame s s' \<longleftrightarrow> hnext_only (heap s) (heap s') \<and>
     (\<exists>h a b n e m. s' = s\<lparr>heap := h, primary_hashtable := a, old_hashtable := b, hash_items := n,
        started_expanding := e, maintenance_cond := m\<rparr>)"

lemma table_frameI:
  assumes "hnext_only (heap s) (heap s')"
    and "s' = s\<lparr>heap := heap s', primary_hashtable := primary_hashtable s', old_hashtable := old_hashtable s',
      hash_items := hash_items s', started_expanding := started_expanding s', maintenance_cond := maintenance_cond s'\<rparr>"
  shows "table_frame s s'"
  using assms unfolding table_frame_def by blast

lemma table_frame_items:
  assumes "table_frame s s'"
  shows "hnext_only (heap s) (heap s')" "settings s' = settings s" "stats s' = stats s"
    "current_time s' = current_time s" "hash_fn s' = hash_fn s" "cache_lock s' = cache_lock s"
    "slabs_lock s' = slabs_lock s" "slabs_rebalance_lock s' = slabs_rebalance_lock s"
    "item_locks s' = item_locks s" "item_lock_hashpower s' = item_lock_hashpower s"
    "hashpower s' = hashpower s" "expanding s' = expanding s"
  using assms by (auto simp: table_frame_def)

lemma table_frame_more:
  assumes "table_frame s s'"
  shows "slabclass s' = slabclass s" "power_largest s' = power_largest s" "classes s' = classes s"
    "heads s' = heads s" "tails s' = tails s" "sizes s' = sizes s" "itemstats s' = itemstats s"
    "slab_rebal s' = slab_rebal s" "slab_rebalance_signal s' = slab_rebalance_signal s" "cas_id s' = cas_id s"
  using assms by (auto simp: table_frame_def classes_def)

lemma table_frame_trans:
  assumes "table_frame s s'" "table_frame s' s''"
  shows "table_frame s s''"
proof -
  from assms(1) obtain h a b n e m where s': "s' = s\<lparr>heap := h, primary_hashtable := a,
      old_hashtable := b, hash_items := n, started_expanding := e, maintenance_cond := m\<rparr>"
    unfolding table_frame_def by blast
  from assms(2) obtain h' a' b' n' e' m' where s'': "s'' = s'\<lparr>heap := h', primary_hashtable := a',
      old_hashtable := b', hash_items := n', started_expanding := e', maintenance_cond := m'\<rparr>"
    unfolding table_frame_def by blast
  have "hnext_only (heap s) (heap s'')"
    using assms unfolding table_frame_def hnext_only_def by simp
  then show ?thesis by (rule table_frameI) (simp add: s'' s')
qed

lemma table_frame_h_next: "table_frame s (upd_item p (\<lambda>i. i\<lparr>it_h_next := v\<rparr>) s)"
  by (rule table_frameI) (simp_all add: upd_item_def hnext_only_def)

lemma table_frame_table:
  "table_frame s (s\<lparr>primary_hashtable := a\<rparr>)" "table_frame s (s\<lparr>old_hashtable := a\<rparr>)"
  "table_frame s (s\<lparr>hash_items := n\<rparr>)" "table_frame s (s\<lparr>started_expanding := e, maintenance_cond := m\<rparr>)"
  by (rule table_frameI; simp add: hnext_only_def)+

lemma table_frame_write_pos: "table_frame s (write_pos b v s)"
  by (cases b) (simp_all add: table_frame_h_next table_frame_table)

lemma table_frame_self: "table_frame s s"
  using table_frame_table(3) [of s "hash_items s"] by simp

lemma assoc_insert_frame: "table_frame s (assoc_insert it hv s)"
proof -
  let ?b = "assoc_bucket hv s"
  let ?s1 = "upd_item it (\<lambda>i. i\<lparr>it_h_next := read_pos s ?b\<rparr>) s"
  let ?s2 = "write_pos ?b it ?s1"
  let ?s3 = "?s2\<lparr>hash_items := hash_items ?s2 + 1\<rparr>"
  have "table_frame ?s2 ?s3" by (rule table_frame_table)
  then have "table_frame ?s1 ?s3" by (rule table_frame_trans [OF table_frame_write_pos])
  then have f1: "table_frame s ?s3" by (rule table_frame_trans [OF table_frame_h_next])
  have "table_frame ?s3 (assoc_start_expand ?s3)"
    by (simp add: assoc_start_expand_def table_frame_self table_frame_table)
  with f1 have f2: "table_frame s (assoc_start_expand ?s3)" by (rule table_frame_trans)
  have "assoc_insert it hv s = ?s3 \<or> assoc_insert it hv s = assoc_start_expand ?s3"
    by (simp add: assoc_insert_def Let_def)
  then show ?thesis by (rule disjE) (erule ssubst, rule f1, erule ssubst, rule f2)
qed

lemma assoc_delete_frame:
  assumes "assoc_delete key nkey hv s = Some s'"
  shows "table_frame s s'"
proof -
  from assms obtain b where "hashitem_before key nkey hv s = Some b" and ne: "read_pos s b \<noteq> NULL"
    and s': "s' = write_pos b (it_h_next (heap s (read_pos s b)))
        (upd_item (read_pos s b) (\<lambda>i. i\<lparr>it_h_next := NULL\<rparr>) (s\<lparr>hash_items := hash_items s - 1\<rparr>))"
    by (auto simp: assoc_delete_def Let_def split: Option.bind_splits if_splits)
  let ?s1 = "s\<lparr>hash_items := hash_items s - 1\<rparr>"
  have "table_frame ?s1 s'" unfolding s'
    by (rule table_frame_trans [OF table_frame_h_next table_frame_write_pos])
  then show ?thesis by (rule table_frame_trans [OF table_frame_table(3)])
qed

section \<open>The invariant of the cache\<close>

text \<open>An item in the cache: linked, not free, referenced, and of a class with an LRU list.\<close>

definition item_ok :: "'a slabs_state_scheme \<Rightarrow> item \<Rightarrow> bool" where
  "item_ok s i \<longleftrightarrow> is_linked i \<and> \<not> is_slabbed i \<and> 0 < it_refcount i \<and>
     unat (it_slabs_clsid i) \<in> classes s \<and> unat (it_slabs_clsid i) < LARGEST_ID"

definition lru_items :: "'a items_state_scheme \<Rightarrow> (nat \<Rightarrow> ptr list) \<Rightarrow> ptr set" where
  "lru_items s L = {p. \<exists>c<LARGEST_ID. p \<in> set (L c) \<and> is_item (heap s p)}"

definition total_bytes :: "(ptr \<Rightarrow> item) \<Rightarrow> (bytes \<rightharpoonup> ptr) \<Rightarrow> u64" where
  "total_bytes h M = (\<Sum>k\<in>dom M. ITEM_ntotal (h (the (M k))))"

definition cache_inv ::
  "'a items_state_scheme \<Rightarrow> (bytes \<rightharpoonup> ptr) \<Rightarrow> (nat \<Rightarrow> ptr list) \<Rightarrow> (nat \<Rightarrow> ptr list) \<Rightarrow> bool" where
  "cache_inv s M L F \<longleftrightarrow> assoc_rel s M \<and> lru_rel s L \<and> freelists s F \<and>
     power_largest s \<le> POWER_LARGEST \<and> L 0 = [] \<and>
     ran M = lru_items s L \<and> (\<forall>p\<in>ran M. item_ok s (heap s p)) \<and>
     curr_items (stats s) = of_nat (card (dom M)) \<and> curr_bytes (stats s) = total_bytes (heap s) M"

lemma cache_invD:
  assumes "cache_inv s M L F"
  shows "assoc_rel s M" "lru_rel s L" "freelists s F" "power_largest s \<le> POWER_LARGEST" "L 0 = []"
    "ran M = lru_items s L" "\<And>p. p \<in> ran M \<Longrightarrow> item_ok s (heap s p)"
    "curr_items (stats s) = of_nat (card (dom M))" "curr_bytes (stats s) = total_bytes (heap s) M"
  using assms unfolding cache_inv_def by blast+

lemma cache_invI:
  assumes "assoc_rel s M" "lru_rel s L" "freelists s F" "power_largest s \<le> POWER_LARGEST" "L 0 = []"
    "ran M = lru_items s L" "\<And>p. p \<in> ran M \<Longrightarrow> item_ok s (heap s p)"
    "curr_items (stats s) = of_nat (card (dom M))" "curr_bytes (stats s) = total_bytes (heap s) M"
  shows "cache_inv s M L F"
  using assms unfolding cache_inv_def by blast

text \<open>Two keys never share an item.\<close>

lemma assoc_rel_inj: "assoc_rel s M \<Longrightarrow> M k = Some p \<Longrightarrow> M k' = Some p \<Longrightarrow> k = k'"
  using assoc_rel_nonnull(2) by metis

lemma ran_upd_None:
  assumes "assoc_rel s M" "M k = Some p"
  shows "ran (M(k := None)) = ran M - {p}"
proof (rule set_eqI)
  fix x
  show "x \<in> ran (M(k := None)) \<longleftrightarrow> x \<in> ran M - {p}"
  proof
    assume "x \<in> ran (M(k := None))"
    then obtain k' where k': "k' \<noteq> k" "M k' = Some x" by (auto simp: ran_def split: if_splits)
    with assoc_rel_inj [OF assms(1) assms(2)] have "x \<noteq> p" by metis
    with k'(2) show "x \<in> ran M - {p}" by (auto intro: ranI)
  next
    assume "x \<in> ran M - {p}"
    then obtain k' where k': "M k' = Some x" "x \<noteq> p" by (auto simp: ran_def)
    with assms(2) have "k' \<noteq> k" by auto
    with k'(1) show "x \<in> ran (M(k := None))" by (auto simp: ran_def)
  qed
qed

lemma ran_upd_Some: "M k = None \<Longrightarrow> ran (M(k \<mapsto> p)) = insert p (ran M)"
  by (rule ran_map_upd)

text \<open>Where a cached item is.\<close>

lemma cached_item:
  assumes i: "cache_inv s M L F" and k: "M k = Some p"
  defines "c \<equiv> unat (it_slabs_clsid (heap s p))"
  shows "p \<in> ran M" "c < LARGEST_ID" "c \<in> classes s" "p \<in> set (L c)" "is_item (heap s p)" "p \<noteq> NULL"
    "item_key (heap s p) = k" "key_ok (heap s p)" "is_linked (heap s p)" "\<not> is_slabbed (heap s p)"
    "0 < it_refcount (heap s p)"
proof -
  note I = cache_invD [OF i]
  show p: "p \<in> ran M" using k by (rule ranI)
  from I(7) [OF p] show "c < LARGEST_ID" "c \<in> classes s" "is_linked (heap s p)" "\<not> is_slabbed (heap s p)"
    "0 < it_refcount (heap s p)" by (simp_all add: item_ok_def c_def)
  from p I(6) obtain d where d: "d < LARGEST_ID" "p \<in> set (L d)" "is_item (heap s p)"
    by (auto simp: lru_items_def)
  with lru_class(2) [OF I(2) d(1,2)] show "p \<in> set (L c)" "is_item (heap s p)" by (simp_all add: c_def)
  show "p \<noteq> NULL" "item_key (heap s p) = k" "key_ok (heap s p)" using assoc_rel_nonnull [OF I(1) k] by simp_all
qed

lemma lru_not_free:
  assumes "cache_inv s M L F" "c < LARGEST_ID" "p \<in> set (L c)" "d \<in> classes s"
  shows "p \<notin> set (F d)"
proof
  assume "p \<in> set (F d)"
  then have "it_slabs_clsid (heap s p) = 0"
    using freelistsD(1) [OF cache_invD(3) [OF assms(1)] assms(4)] by (auto simp: freelist_def chunk_free_def)
  moreover have "unat (it_slabs_clsid (heap s p)) = c"
    using lru_class(2) [OF cache_invD(2) [OF assms(1)] assms(2,3)] .
  ultimately have "c = 0" by simp
  with assms(3) cache_invD(5) [OF assms(1)] show False by simp
qed

section \<open>Steps that keep the invariant\<close>

text \<open>Items that agree in everything the invariant looks at.\<close>

definition same_core :: "item \<Rightarrow> item \<Rightarrow> bool" where
  "same_core i j \<longleftrightarrow> it_next i = it_next j \<and> it_prev i = it_prev j \<and> it_h_next i = it_h_next j \<and>
     it_nbytes i = it_nbytes j \<and> it_nsuffix i = it_nsuffix j \<and>
     it_slabs_clsid i = it_slabs_clsid j \<and> it_nkey i = it_nkey j \<and> it_key i = it_key j \<and>
     bit (it_flags i) 0 = bit (it_flags j) 0 \<and> bit (it_flags i) 1 = bit (it_flags j) 1 \<and>
     bit (it_flags i) 2 = bit (it_flags j) 2"

lemma same_coreD:
  assumes "same_core i j"
  shows "item_key i = item_key j" "key_ok i = key_ok j" "is_item i = is_item j"
    "ITEM_ntotal i = ITEM_ntotal j" "is_linked i = is_linked j" "is_slabbed i = is_slabbed j"
    "chunk_free i = chunk_free j" "it_h_next i = it_h_next j" "it_next i = it_next j"
    "it_prev i = it_prev j" "it_slabs_clsid i = it_slabs_clsid j"
  using assms ITEM_ntotal_cong [of i j]
  by (simp_all add: same_core_def item_key_def key_ok_def is_item_def is_linked_bit is_slabbed_bit chunk_free_def)

lemma same_core_refl [simp]: "same_core i i"
  by (simp add: same_core_def)

lemma same_core_update [simp]:
  "same_core i (i\<lparr>it_refcount := r\<rparr>)" "same_core i (i\<lparr>it_time := t\<rparr>)"
  "same_core i (i\<lparr>it_exptime := t\<rparr>)" "same_core i (i\<lparr>it_flags := it_flags i OR ITEM_FETCHED\<rparr>)"
  by (simp_all add: same_core_def ITEM_FETCHED_def bit_simps)

lemma total_bytes_cong:
  assumes "\<And>p. p \<in> ran M \<Longrightarrow> ITEM_ntotal (h' p) = ITEM_ntotal (h p)"
  shows "total_bytes h' M = total_bytes h M"
  unfolding total_bytes_def by (intro sum.cong refl) (auto intro!: assms ranI)

lemma classes_cong: "power_largest s' = power_largest s \<Longrightarrow> classes s' = classes s"
  by (simp add: classes_def)

lemma cache_inv_frame:
  assumes i: "cache_inv s M L F"
    and core: "\<And>p. same_core (heap s p) (heap s' p)"
    and refs: "\<And>p. p \<in> ran M \<Longrightarrow> 0 < it_refcount (heap s' p)"
    and tab: "hashpower s' = hashpower s" "primary_hashtable s' = primary_hashtable s"
      "old_hashtable s' = old_hashtable s" "hash_items s' = hash_items s"
      "expanding s' = expanding s" "expand_bucket s' = expand_bucket s" "hash_fn s' = hash_fn s"
    and lists: "heads s' = heads s" "tails s' = tails s" "sizes s' = sizes s"
    and slabs: "power_largest s' = power_largest s"
      "\<And>c. sc_slots (slabclass s' c) = sc_slots (slabclass s c) \<and>
            sc_sl_curr (slabclass s' c) = sc_sl_curr (slabclass s c)"
    and st: "curr_items (stats s') = curr_items (stats s)" "curr_bytes (stats s') = curr_bytes (stats s)"
  shows "cache_inv s' M L F"
proof (rule cache_invI)
  note I = cache_invD [OF i]
  note core' = same_coreD [OF core]
  show "assoc_rel s' M" by (rule assoc_rel_frame [OF I(1)]) (simp_all add: core' tab)
  show "lru_rel s' L"
    unfolding lru_rel_def lists
  proof (intro allI impI)
    fix c assume "c < LARGEST_ID"
    from lru_relD [OF I(2) this] show "lru_list (heap s') c (heads s c) (tails s c) (sizes s c) (L c)"
      by (subst lru_list_cong [where h = "heap s"]) (simp_all add: core')
  qed
  show "freelists s' F" by (rule freelists_frame [OF I(3) slabs(1)]) (simp_all add: core' slabs(2))
  show "power_largest s' \<le> POWER_LARGEST" "L 0 = []" using I(4,5) slabs(1) by simp_all
  have "lru_items s' L = lru_items s L" by (simp add: lru_items_def core')
  with I(6) show "ran M = lru_items s' L" by simp
  show "item_ok s' (heap s' p)" if "p \<in> ran M" for p
    using I(7) [OF that] refs [OF that] classes_cong [OF slabs(1)] by (simp add: item_ok_def core')
  show "curr_items (stats s') = of_nat (card (dom M))" using I(8) st(1) by simp
  have "total_bytes (heap s') M = total_bytes (heap s) M" by (rule total_bytes_cong) (simp add: core')
  then show "curr_bytes (stats s') = total_bytes (heap s') M" using I(9) st(2) by simp
qed

text \<open>The parts of the state no item operation changes in the end.\<close>

definition env_same :: "'a items_state_scheme \<Rightarrow> 'a items_state_scheme \<Rightarrow> bool" where
  "env_same s s' \<longleftrightarrow> settings s' = settings s \<and> current_time s' = current_time s \<and>
     hash_fn s' = hash_fn s \<and> cache_lock s' = cache_lock s \<and> slabs_lock s' = slabs_lock s \<and>
     slabs_rebalance_lock s' = slabs_rebalance_lock s \<and> item_locks s' = item_locks s \<and>
     item_lock_hashpower s' = item_lock_hashpower s \<and> power_largest s' = power_largest s \<and>
     slab_rebal s' = slab_rebal s \<and> slab_rebalance_signal s' = slab_rebalance_signal s \<and>
     item_lock_type s' = item_lock_type s \<and> item_global_lock s' = item_global_lock s \<and>
     items_state.more s' = items_state.more s"

lemma env_same_refl [simp]: "env_same s s"
  by (simp add: env_same_def)

lemma env_same_trans: "env_same s s' \<Longrightarrow> env_same s' s'' \<Longrightarrow> env_same s s''"
  by (simp add: env_same_def)

lemma list_frame_rest:
  assumes "list_frame s s'"
  shows "item_lock_type s' = item_lock_type s" "item_global_lock s' = item_global_lock s"
    "items_state.more s' = items_state.more s"
  using assms by (auto simp: list_frame_def)

lemma table_frame_rest:
  assumes "table_frame s s'"
  shows "item_lock_type s' = item_lock_type s" "item_global_lock s' = item_global_lock s"
    "items_state.more s' = items_state.more s"
  using assms by (auto simp: table_frame_def)

lemma env_same_list: "list_frame s s' \<Longrightarrow> env_same s s'"
  using list_frameD [of s s'] list_frame_rest [of s s'] by (simp add: env_same_def)

lemma env_same_table: "table_frame s s' \<Longrightarrow> env_same s s'"
  using table_frame_items [of s s'] table_frame_more [of s s'] table_frame_rest [of s s']
  by (simp add: env_same_def)

lemma upd_item_items [simp]:
  "heads (upd_item p f s) = heads s" "tails (upd_item p f s) = tails s"
  "sizes (upd_item p f s) = sizes s" "itemstats (upd_item p f s) = itemstats s"
  "cas_id (upd_item p f s) = cas_id s" "classes (upd_item p f s) = classes s"
  "items_state.more (upd_item p f s) = items_state.more s"
  by (simp_all add: upd_item_def classes_def)

lemma upd_stats_simps [simp]:
  "stats (upd_stats f s) = f (stats s)" "heap (upd_stats f s) = heap s"
  "settings (upd_stats f s) = settings s" "current_time (upd_stats f s) = current_time s"
  "hash_fn (upd_stats f s) = hash_fn s" "cache_lock (upd_stats f s) = cache_lock s"
  "slabs_lock (upd_stats f s) = slabs_lock s" "slabs_rebalance_lock (upd_stats f s) = slabs_rebalance_lock s"
  "item_locks (upd_stats f s) = item_locks s" "item_lock_hashpower (upd_stats f s) = item_lock_hashpower s"
  "hashpower (upd_stats f s) = hashpower s" "primary_hashtable (upd_stats f s) = primary_hashtable s"
  "old_hashtable (upd_stats f s) = old_hashtable s" "hash_items (upd_stats f s) = hash_items s"
  "expanding (upd_stats f s) = expanding s" "expand_bucket (upd_stats f s) = expand_bucket s"
  "slabclass (upd_stats f s) = slabclass s" "power_largest (upd_stats f s) = power_largest s"
  "slab_rebal (upd_stats f s) = slab_rebal s" "slab_rebalance_signal (upd_stats f s) = slab_rebalance_signal s"
  "heads (upd_stats f s) = heads s" "tails (upd_stats f s) = tails s" "sizes (upd_stats f s) = sizes s"
  "itemstats (upd_stats f s) = itemstats s" "cas_id (upd_stats f s) = cas_id s"
  "classes (upd_stats f s) = classes s" "item_lock_type (upd_stats f s) = item_lock_type s"
  "item_global_lock (upd_stats f s) = item_global_lock s"
  "items_state.more (upd_stats f s) = items_state.more s"
  by (simp_all add: upd_stats_def classes_def)

lemma env_same_upd [simp]: "env_same s (upd_item p f s)" "env_same s (upd_stats g s)"
  by (simp_all add: env_same_def)

lemma env_same_upd_right [simp]:
  "env_same s (upd_item p f t) = env_same s t" "env_same s (upd_stats g t) = env_same s t"
  by (simp_all add: env_same_def)

subsection \<open>Dropping a reference\<close>

lemma it_refcount_dec: "0 < r \<Longrightarrow> r \<noteq> 1 \<Longrightarrow> (r :: u16) - 1 \<noteq> 0 \<and> 0 < r - 1"
  by (simp add: word_less_nat_alt unat_sub word_le_nat_alt unat_eq_0)
     (metis One_nat_def less_one nat_neq_iff unat_1 word_unat_eq_iff)

lemma do_item_remove_keep:
  assumes i: "cache_inv s M L F" and p: "\<not> is_slabbed (heap s p)" "0 < it_refcount (heap s p)"
      "it_refcount (heap s p) \<noteq> 1"
  shows "\<exists>s'. do_item_remove p s = Some s' \<and> cache_inv s' M L F \<and> env_same s s' \<and>
     heap s' = (heap s)(p := (heap s p)\<lparr>it_refcount := it_refcount (heap s p) - 1\<rparr>)"
proof -
  let ?s' = "upd_item p (\<lambda>i. i\<lparr>it_refcount := it_refcount i - 1\<rparr>) s"
  note r = it_refcount_dec [OF p(2,3)]
  have "do_item_remove p s = Some ?s'"
    using p r by (simp add: do_item_remove_def refcount_decr_def is_slabbed_def c_assert_True_bind)
  moreover have "cache_inv ?s' M L F"
    using r cache_invD(7) [OF i] by (intro cache_inv_frame [OF i]) (auto simp: item_ok_def)
  ultimately show ?thesis by simp
qed

lemma do_slabs_free_keys:
  assumes "do_slabs_free p sz c s = Some s'"
  shows "it_h_next (heap s' q) = it_h_next (heap s q)" "it_nkey (heap s' q) = it_nkey (heap s q)"
    "it_key (heap s' q) = it_key (heap s q)"
  using assms by (auto simp: do_slabs_free_def Let_def upd_item_if_def)

lemma slabs_free_spec:
  assumes f: "freelists s F" and c: "c \<in> classes s" and p: "it_slabs_clsid (heap s p) = 0" "p \<noteq> NULL"
    and new: "\<forall>d\<in>classes s. p \<notin> set (F d)" and len: "Suc (length (F c)) < 2 ^ 32" and nl: "\<not> slabs_lock s"
  shows "\<exists>s' h cl. slabs_free p sz c s = Some s' \<and> freelists s' (F(c := p # F c)) \<and>
           s' = s\<lparr>heap := h, slabclass := cl\<rparr> \<and>
           (\<forall>q. q \<noteq> p \<longrightarrow> (\<forall>d\<in>classes s. q \<notin> set (F d)) \<longrightarrow> h q = heap s q) \<and>
           (\<forall>q. it_h_next (h q) = it_h_next (heap s q) \<and> it_nkey (h q) = it_nkey (heap s q) \<and>
                it_key (h q) = it_key (heap s q))"
proof -
  let ?s1 = "s\<lparr>slabs_lock := True\<rparr>"
  have f1: "freelists ?s1 F" by (rule freelists_frame [OF f]) auto
  have cl: "classes ?s1 = classes s" by (simp add: classes_def)
  obtain s2 h cl where s2: "do_slabs_free p sz c ?s1 = Some s2" "freelists s2 (F(c := p # F c))"
    "s2 = ?s1\<lparr>heap := h, slabclass := cl\<rparr>"
    "\<forall>q. q \<noteq> p \<longrightarrow> (\<forall>d\<in>classes ?s1. q \<notin> set (F d)) \<longrightarrow> h q = heap ?s1 q"
    using do_slabs_free_freelists [OF f1, of c p sz] c p new len unfolding cl by auto
  let ?s' = "s\<lparr>heap := h, slabclass := cl\<rparr>"
  have e: "slabs_lock_release s2 = ?s'" using nl by (cases s) (simp add: s2(3) slabs_lock_release_def)
  have "slabs_free p sz c s = Some ?s'"
    using nl s2(1) e by (simp add: slabs_free_def lock_simps)
  moreover have "freelists ?s' (F(c := p # F c))"
    using s2(2) by (rule freelists_frame) (simp_all add: s2(3))
  moreover have "\<forall>q. it_h_next (h q) = it_h_next (heap s q) \<and> it_nkey (h q) = it_nkey (heap s q) \<and>
                it_key (h q) = it_key (heap s q)"
    using do_slabs_free_keys [OF s2(1)] by (simp add: s2(3))
  ultimately show ?thesis using s2(4) cl by auto
qed

text \<open>The last reference to an item that is in no list goes: its chunk is free again.\<close>

lemma do_item_remove_free:
  assumes i: "cache_inv s M L F" and p: "\<not> is_slabbed (heap s p)" "\<not> is_linked (heap s p)"
      "it_refcount (heap s p) = 1" "p \<noteq> NULL"
    and c: "c = unat (it_slabs_clsid (heap s p))" "c \<in> classes s" "c < LARGEST_ID"
    and out: "\<And>d. d < LARGEST_ID \<Longrightarrow> p \<notin> set (L d)" "\<And>d. d \<in> classes s \<Longrightarrow> p \<notin> set (F d)"
    and room: "Suc (length (F c)) < 2 ^ 32" and nl: "\<not> slabs_lock s"
  shows "\<exists>s'. do_item_remove p s = Some s' \<and> cache_inv s' M L (F(c := p # F c)) \<and> env_same s s'"
proof -
  note I = cache_invD [OF i]
  let ?s1 = "upd_item p (\<lambda>i. i\<lparr>it_refcount := it_refcount i - 1\<rparr>) s"
  let ?s2 = "upd_item p (\<lambda>i. i\<lparr>it_slabs_clsid := 0\<rparr>) ?s1"
  have f2: "freelists ?s2 F"
    by (rule freelists_frame [OF I(3)]) (use out(2) in \<open>auto simp: chunk_free_def flag_bits\<close>)
  have "\<forall>d\<in>classes ?s2. p \<notin> set (F d)" using out(2) by simp
  from slabs_free_spec [OF f2 _ _ p(4) this room, of "ITEM_ntotal (heap s p)"] c nl
  obtain s' h cl where s': "slabs_free p (ITEM_ntotal (heap s p)) c ?s2 = Some s'"
    "freelists s' (F(c := p # F c))" "s' = ?s2\<lparr>heap := h, slabclass := cl\<rparr>"
    and h: "\<And>q. q \<noteq> p \<Longrightarrow> (\<forall>d\<in>classes s. q \<notin> set (F d)) \<Longrightarrow> h q = heap s q"
    and k: "\<And>q. it_h_next (h q) = it_h_next (heap s q)" "\<And>q. it_nkey (h q) = it_nkey (heap s q)"
      "\<And>q. it_key (h q) = it_key (heap s q)"
    by auto
  have nt: "ITEM_ntotal (heap ?s1 p) = ITEM_ntotal (heap s p)" by (intro ITEM_ntotal_cong) simp_all
  have ht: "heads s c \<noteq> p" "tails s c \<noteq> p"
  proof -
    have d: "dll (nxt s) (prv s) (heads s c) (L c) (tails s c)"
      using lru_relD [OF I(2) c(3)] by (simp add: lru_list_def)
    show "heads s c \<noteq> p" "tails s c \<noteq> p"
      using dseg_first [OF d] dseg_last [OF d] out(1) [OF c(3)] p(4)
      by (auto split: if_splits)
  qed
  have run: "do_item_remove p s = Some s'"
    using p c ht s'(1) nt
    by (simp add: do_item_remove_def item_free_def refcount_decr_def is_slabbed_def is_linked_def
        c_assert_True_bind Let_def)
  have hL: "heap s' q = heap s q" if "d < LARGEST_ID" "q \<in> set (L d)" for d q
    using lru_not_free [OF i that] out(1) [OF that(1)] that(2) h [of q] by (auto simp: s'(3))
  have hM: "heap s' q = heap s q" if "q \<in> ran M" for q
    using that I(6) hL by (auto simp: lru_items_def)
  have cl: "classes s' = classes s" by (simp add: s'(3) classes_def)
  have "cache_inv s' M L (F(c := p # F c))"
  proof (rule cache_invI)
    show "assoc_rel s' M"
      by (rule assoc_rel_frame [OF I(1)]) (simp_all add: s'(3) k item_key_def key_ok_def)
    show "lru_rel s' L"
      unfolding lru_rel_def
    proof (intro allI impI)
      fix d assume d: "d < LARGEST_ID"
      from lru_relD [OF I(2) d] show "lru_list (heap s') d (heads s' d) (tails s' d) (sizes s' d) (L d)"
        using hL [OF d] by (subst lru_list_cong [where h = "heap s"]) (simp_all add: s'(3))
    qed
    show "freelists s' (F(c := p # F c))" by (rule s'(2))
    have "lru_items s' L = lru_items s L" using hL by (auto simp: lru_items_def)
    with I(6) show "ran M = lru_items s' L" by simp
    show "item_ok s' (heap s' q)" if "q \<in> ran M" for q
      using I(7) [OF that] hM [OF that] cl by (simp add: item_ok_def)
    have "total_bytes (heap s') M = total_bytes (heap s) M" by (rule total_bytes_cong) (simp add: hM)
    then show "curr_bytes (stats s') = total_bytes (heap s') M" using I(9) by (simp add: s'(3))
  qed (use I in \<open>simp_all add: s'(3)\<close>)
  moreover have "env_same s s'" by (simp add: s'(3) env_same_def)
  ultimately show ?thesis using run by blast
qed

subsection \<open>Unlinking an item\<close>

lemma total_bytes_remove:
  assumes "finite (dom M)" "M k = Some p"
  shows "total_bytes h (M(k := None)) = total_bytes h M - ITEM_ntotal (h p)"
proof -
  have "total_bytes h (M(k := None)) = (\<Sum>k'\<in>dom M - {k}. ITEM_ntotal (h (the (M k'))))"
    unfolding total_bytes_def by (intro sum.cong) auto
  also have "\<dots> = total_bytes h M - ITEM_ntotal (h (the (M k)))"
    unfolding total_bytes_def using assms by (subst sum.remove [of "dom M" k]) auto
  finally show ?thesis using assms(2) by simp
qed

lemma total_bytes_insert:
  assumes "finite (dom M)" "M k = None"
  shows "total_bytes h (M(k \<mapsto> p)) = total_bytes h M + ITEM_ntotal (h p)"
proof -
  have "total_bytes h (M(k \<mapsto> p)) = ITEM_ntotal (h p) + (\<Sum>k'\<in>dom M. ITEM_ntotal (h (the ((M(k \<mapsto> p)) k'))))"
    unfolding total_bytes_def using assms by (simp add: domIff)
  also have "(\<Sum>k'\<in>dom M. ITEM_ntotal (h (the ((M(k \<mapsto> p)) k')))) = total_bytes h M"
    unfolding total_bytes_def using assms(2) by (intro sum.cong) (auto simp: domIff)
  finally show ?thesis by (simp only: add.commute)
qed

text \<open>The item as it is after being unlinked, with its reference from the cache still counted.\<close>

definition unlinked_from :: "item \<Rightarrow> item \<Rightarrow> bool" where
  "unlinked_from i j \<longleftrightarrow> it_refcount j = it_refcount i \<and> it_slabs_clsid j = it_slabs_clsid i \<and>
     it_nkey j = it_nkey i \<and> it_key j = it_key i \<and> it_nbytes j = it_nbytes i \<and>
     it_nsuffix j = it_nsuffix i \<and> it_time j = it_time i \<and> it_exptime j = it_exptime i \<and>
     it_data j = it_data i \<and> it_suffix j = it_suffix i \<and> it_cas j = it_cas i \<and>
     it_flags j = it_flags i AND NOT ITEM_LINKED"

lemma unlinked_flags:
  assumes "unlinked_from i j"
  shows "\<not> is_linked j" "is_slabbed j = is_slabbed i" "ITEM_ntotal j = ITEM_ntotal i" "is_item j = is_item i"
proof -
  show "\<not> is_linked j" "is_slabbed j = is_slabbed i"
    using assms by (simp_all add: unlinked_from_def flag_bits bit_simps)
  show "ITEM_ntotal j = ITEM_ntotal i"
    using assms by (intro ITEM_ntotal_cong) (simp_all add: unlinked_from_def ITEM_LINKED_def bit_simps)
  show "is_item j = is_item i" using assms by (simp add: unlinked_from_def is_item_def)
qed

text \<open>The steps of \<open>do_item_unlink\<close> and \<open>do_item_unlink_nolock\<close> before the item is released.\<close>

definition unlink_steps :: "ptr \<Rightarrow> u32 \<Rightarrow> 'a items_state_scheme \<Rightarrow> 'a items_state_scheme option" where
  "unlink_steps it hv s = do {
     let s1 = upd_item it (\<lambda>i. i\<lparr>it_flags := it_flags i AND NOT ITEM_LINKED\<rparr>) s;
     let s2 = upd_stats (\<lambda>st. st\<lparr>curr_bytes := curr_bytes st - ITEM_ntotal (heap s1 it),
                               curr_items := curr_items st - 1\<rparr>) s1;
     s3 \<leftarrow> assoc_delete (it_key (heap s2 it)) (unat (it_nkey (heap s2 it))) hv s2;
     item_unlink_q it s3
   }"

lemma do_item_unlink_nolock_steps:
  "do_item_unlink_nolock it hv s =
     (if is_linked (heap s it) then unlink_steps it hv s \<bind> do_item_remove it else Some s)"
  by (simp add: do_item_unlink_nolock_def unlink_steps_def is_linked_def Let_def)

lemma do_item_unlink_steps:
  "do_item_unlink it hv s =
     do { s0 \<leftarrow> cache_lock_acquire s; s1 \<leftarrow> do_item_unlink_nolock it hv s0; Some (cache_lock_release s1) }"
  by (simp add: do_item_unlink_def do_item_unlink_nolock_def)

lemma unlink_steps_rel:
  assumes i: "cache_inv s M L F" and k: "M k = Some p" and hv: "hv = hash_fn s k"
  defines "c \<equiv> unat (it_slabs_clsid (heap s p))"
  shows "\<exists>s'. unlink_steps p hv s = Some s' \<and>
     cache_inv s' (M(k := None)) (L(c := remove1 p (L c))) F \<and> env_same s s' \<and>
     unlinked_from (heap s p) (heap s' p)"
proof -
  note I = cache_invD [OF i] and P = cached_item [OF i k, folded c_def]
  let ?f = "\<lambda>i. i\<lparr>it_flags := it_flags i AND NOT ITEM_LINKED\<rparr>"
  let ?s1 = "upd_item p ?f s"
  define s2 where "s2 = upd_stats (\<lambda>st. st\<lparr>curr_bytes := curr_bytes st - ITEM_ntotal (heap ?s1 p),
                               curr_items := curr_items st - 1\<rparr>) ?s1"
  have h2: "heap s2 q = (if q = p then ?f (heap s p) else heap s q)" for q by (simp add: s2_def)
  have nt: "ITEM_ntotal (?f (heap s p)) = ITEM_ntotal (heap s p)"
    by (rule ITEM_ntotal_cong) (simp_all add: ITEM_LINKED_def bit_simps)
  have r2: "assoc_rel s2 M" by (rule assoc_rel_frame [OF I(1)]) (simp_all add: s2_def item_key_def key_ok_def)
  have key: "k = take (unat (it_nkey (heap s p))) (it_key (heap s p))" "unat (it_nkey (heap s p)) \<le> length (it_key (heap s p))"
    using P(7,8) by (simp_all add: item_key_def key_ok_def)
  have "hv = hash_fn s2 k" by (simp add: s2_def hv)
  from assoc_delete_rel [OF r2 k key this] obtain s3 where
    s3: "assoc_delete (it_key (heap s p)) (unat (it_nkey (heap s p))) hv s2 = Some s3" "assoc_rel s3 (M(k := None))"
    by blast
  note T = table_frame_items [OF assoc_delete_frame [OF s3(1)]] table_frame_more [OF assoc_delete_frame [OF s3(1)]]
  note H = hnext_onlyD [OF T(1)]
  have l3: "lru_rel s3 L"
    unfolding lru_rel_def
  proof (intro allI impI)
    fix d assume "d < LARGEST_ID"
    from lru_relD [OF I(2) this] show "lru_list (heap s3) d (heads s3 d) (tails s3 d) (sizes s3 d) (L d)"
      by (subst lru_list_cong [where h = "heap s"]) (simp_all add: T H h2 is_item_def s2_def)
  qed
  have f3: "freelists s3 F"
    by (rule freelists_frame [OF I(3)])
      (use lru_not_free [OF i P(2,4)] in \<open>auto simp: T H s2_def chunk_free_def flag_bits\<close>)
  have it3: "is_item (heap s3 p)" using P(5) by (simp add: is_item_def H h2)
  from item_unlink_q_rel [OF l3 P(4) it3 P(2)] obtain s4 where
    s4: "item_unlink_q p s3 = Some s4" "lru_rel s4 (L(c := remove1 p (L c)))" "list_frame s3 s4"
    "\<And>q. q \<notin> set (L c) - {p} \<Longrightarrow> heap s4 q = heap s3 q" by blast
  note E = list_frameD [OF s4(3)]
  note G = links_onlyD [OF E(1)]
  have run: "unlink_steps p hv s = Some s4"
    unfolding unlink_steps_def Let_def s2_def [symmetric] using s3(1) s4(1) by (simp add: h2)
  have ul: "unlinked_from (heap s p) (heap s4 p)" by (simp add: unlinked_from_def G H h2)
  have oth: "q \<noteq> p \<Longrightarrow> is_item (heap s4 q) = is_item (heap s q)"
    "q \<noteq> p \<Longrightarrow> ITEM_ntotal (heap s4 q) = ITEM_ntotal (heap s q)"
    "q \<noteq> p \<Longrightarrow> item_ok s4 (heap s4 q) = item_ok s (heap s q)" for q
    using ITEM_ntotal_cong [of "heap s4 q" "heap s q"]
    by (simp_all add: is_item_def G H h2 item_ok_def E T s2_def flag_bits)
  have ran: "ran (M(k := None)) = ran M - {p}" by (rule ran_upd_None [OF I(1) k])
  have dist: "distinct (L c)" using lru_distinct [OF I(2) P(2)] .
  have fin: "finite (dom M)" using I(1) by (auto elim: assoc_relE)
  have "cache_inv s4 (M(k := None)) (L(c := remove1 p (L c))) F"
  proof (rule cache_invI)
    show "assoc_rel s4 (M(k := None))"
      by (rule assoc_rel_frame [OF s3(2)]) (simp_all add: E G item_key_def key_ok_def)
    show "lru_rel s4 (L(c := remove1 p (L c)))" by (rule s4(2))
    show "freelists s4 F"
    proof (rule freelists_frame [OF f3])
      fix d q assume "d \<in> classes s3" "q \<in> set (F d)"
      then have "q \<notin> set (L c)" using lru_not_free [OF i P(2), of q d] by (auto simp: T s2_def)
      with s4(4) [of q] show "it_next (heap s4 q) = it_next (heap s3 q) \<and>
           it_prev (heap s4 q) = it_prev (heap s3 q) \<and> chunk_free (heap s4 q) = chunk_free (heap s3 q)" by simp
    qed (simp_all add: E)
    show "power_largest s4 \<le> POWER_LARGEST" using I(4) by (simp add: E T s2_def)
    show "(L(c := remove1 p (L c))) 0 = []" using I(5) by simp
    have "lru_items s4 (L(c := remove1 p (L c))) = lru_items s L - {p}"
    proof (rule set_eqI)
      fix q
      have "q \<in> set ((L(c := remove1 p (L c))) d) \<longleftrightarrow> q \<in> set (L d) \<and> q \<noteq> p" if "d < LARGEST_ID" for d
        using dist P(4) lru_disjoint [OF I(2) P(2) that] by auto
      then show "q \<in> lru_items s4 (L(c := remove1 p (L c))) \<longleftrightarrow> q \<in> lru_items s L - {p}"
        using oth(1) [of q] unfolding lru_items_def by blast
    qed
    with I(6) show "ran (M(k := None)) = lru_items s4 (L(c := remove1 p (L c)))" unfolding ran by simp
    show "item_ok s4 (heap s4 q)" if "q \<in> ran (M(k := None))" for q
      using that I(7) [of q] oth(3) [of q] unfolding ran by simp
    have "card (dom M) = Suc (card (dom M - {k}))"
      using fin k by (intro card.remove) (auto simp: domIff)
    then have "card (dom M) = Suc (card (dom (M(k := None))))" by (simp add: dom_fun_upd)
    then show "curr_items (stats s4) = of_nat (card (dom (M(k := None))))"
      using I(8) by (simp add: E T s2_def)
    have "total_bytes (heap s4) (M(k := None)) = total_bytes (heap s) (M(k := None))"
      by (rule total_bytes_cong) (use oth(2) ran in auto)
    also have "\<dots> = total_bytes (heap s) M - ITEM_ntotal (heap s p)" by (rule total_bytes_remove [OF fin k])
    finally show "curr_bytes (stats s4) = total_bytes (heap s4) (M(k := None))"
      using I(9) by (simp add: E T s2_def nt)
  qed
  moreover have "env_same s s4" by (simp add: env_same_def E T table_frame_rest [OF assoc_delete_frame [OF s3(1)]]
      list_frame_rest [OF s4(3)] s2_def)
  ultimately show ?thesis using run ul by blast
qed

text \<open>After an unlink the chunk is free if the cache held the last reference.\<close>

definition after_unref :: "item \<Rightarrow> ptr \<Rightarrow> (nat \<Rightarrow> ptr list) \<Rightarrow> nat \<Rightarrow> ptr list" where
  "after_unref i p F =
     (if it_refcount i = 1 then F(unat (it_slabs_clsid i) := p # F (unat (it_slabs_clsid i))) else F)"

abbreviation lru_without :: "(nat \<Rightarrow> ptr list) \<Rightarrow> nat \<Rightarrow> ptr \<Rightarrow> nat \<Rightarrow> ptr list" where
  "lru_without L c p \<equiv> L(c := remove1 p (L c))"

lemma not_in_lists:
  assumes i: "cache_inv s M L F" and k: "M k = Some p" and d: "d < LARGEST_ID"
  shows "p \<notin> set ((lru_without L (unat (it_slabs_clsid (heap s p))) p) d)"
proof -
  note I = cache_invD [OF i] and P = cached_item [OF i k]
  show ?thesis
    using lru_distinct [OF I(2) P(2)] lru_disjoint [OF I(2) P(2) d] P(4) by auto
qed

theorem do_item_unlink_nolock_inv:
  assumes i: "cache_inv s M L F" and k: "M k = Some p" and hv: "hv = hash_fn s k"
  defines "c \<equiv> unat (it_slabs_clsid (heap s p))"
  assumes free: "it_refcount (heap s p) = 1 \<Longrightarrow> \<not> slabs_lock s \<and> Suc (length (F c)) < 2 ^ 32"
  shows "\<exists>s'. do_item_unlink_nolock p hv s = Some s' \<and>
     cache_inv s' (M(k := None)) (lru_without L c p) (after_unref (heap s p) p F) \<and> env_same s s' \<and>
     (it_refcount (heap s p) \<noteq> 1 \<longrightarrow>
        (\<exists>j. unlinked_from (heap s p) j \<and> heap s' p = j\<lparr>it_refcount := it_refcount j - 1\<rparr>))"
proof -
  note I = cache_invD [OF i] and P = cached_item [OF i k, folded c_def]
  from unlink_steps_rel [OF i k hv] obtain s1 where s1: "unlink_steps p hv s = Some s1"
    "cache_inv s1 (M(k := None)) (lru_without L c p) F" "env_same s s1" "unlinked_from (heap s p) (heap s1 p)"
    unfolding c_def by blast
  note U = s1(4) [unfolded unlinked_from_def] unlinked_flags [OF s1(4)]
  have run: "do_item_unlink_nolock p hv s = do_item_remove p s1"
    by (simp add: do_item_unlink_nolock_steps P(9) s1(1))
  have cl: "classes s1 = classes s" using s1(3) by (intro classes_cong) (simp add: env_same_def)
  show ?thesis
  proof (cases "it_refcount (heap s p) = 1")
    case False
    have "\<exists>s'. do_item_remove p s1 = Some s' \<and> cache_inv s' (M(k := None)) (lru_without L c p) F \<and>
       env_same s1 s' \<and> heap s' = (heap s1)(p := (heap s1 p)\<lparr>it_refcount := it_refcount (heap s1 p) - 1\<rparr>)"
      by (rule do_item_remove_keep [OF s1(2)]) (use U False P(10,11) in simp_all)
    then show ?thesis using run s1(3,4) False env_same_trans by (fastforce simp: after_unref_def)
  next
    case True
    have "\<exists>s'. do_item_remove p s1 = Some s' \<and>
       cache_inv s' (M(k := None)) (lru_without L c p) (F(c := p # F c)) \<and> env_same s1 s'"
    proof (rule do_item_remove_free [OF s1(2)])
      show "\<not> is_slabbed (heap s1 p)" "\<not> is_linked (heap s1 p)" "it_refcount (heap s1 p) = 1" "p \<noteq> NULL"
        using U True P(6,10) by simp_all
      show "c = unat (it_slabs_clsid (heap s1 p))" "c \<in> classes s1" "c < LARGEST_ID"
        using U P(2,3) cl by (simp_all add: c_def)
      show "p \<notin> set ((lru_without L c p) d)" if "d < LARGEST_ID" for d
        using not_in_lists [OF i k that] by (simp only: c_def not_False_eq_True)
      show "p \<notin> set (F d)" if "d \<in> classes s1" for d using lru_not_free [OF i P(2,4)] that cl by simp
      show "Suc (length (F c)) < 2 ^ 32" "\<not> slabs_lock s1"
        using free [OF True] s1(3) by (simp_all add: env_same_def)
    qed
    then show ?thesis using run s1(3) True env_same_trans by (fastforce simp: after_unref_def c_def)
  qed
qed

lemma cache_lock_irrelevant:
  "cache_inv (s\<lparr>cache_lock := b\<rparr>) M L F = cache_inv s M L F"
proof
  assume i: "cache_inv (s\<lparr>cache_lock := b\<rparr>) M L F"
  show "cache_inv s M L F"
    by (rule cache_inv_frame [OF i]) (use cache_invD(7) [OF i] in \<open>auto simp: item_ok_def\<close>)
next
  assume i: "cache_inv s M L F"
  show "cache_inv (s\<lparr>cache_lock := b\<rparr>) M L F"
    by (rule cache_inv_frame [OF i]) (use cache_invD(7) [OF i] in \<open>auto simp: item_ok_def\<close>)
qed

lemma env_same_lock:
  "\<not> cache_lock s \<Longrightarrow> env_same (s\<lparr>cache_lock := True\<rparr>) s' \<Longrightarrow> env_same s (cache_lock_release s')"
  by (simp add: env_same_def cache_lock_release_def)

theorem do_item_unlink_inv:
  assumes i: "cache_inv s M L F" and k: "M k = Some p" and hv: "hv = hash_fn s k"
    and nl: "\<not> cache_lock s"
  defines "c \<equiv> unat (it_slabs_clsid (heap s p))"
  assumes free: "it_refcount (heap s p) = 1 \<Longrightarrow> \<not> slabs_lock s \<and> Suc (length (F c)) < 2 ^ 32"
  shows "\<exists>s'. do_item_unlink p hv s = Some s' \<and>
     cache_inv s' (M(k := None)) (lru_without L c p) (after_unref (heap s p) p F) \<and> env_same s s' \<and>
     (it_refcount (heap s p) \<noteq> 1 \<longrightarrow>
        (\<exists>j. unlinked_from (heap s p) j \<and> heap s' p = j\<lparr>it_refcount := it_refcount j - 1\<rparr>))"
proof -
  let ?s0 = "s\<lparr>cache_lock := True\<rparr>"
  have "\<exists>s'. do_item_unlink_nolock p hv ?s0 = Some s' \<and>
     cache_inv s' (M(k := None)) (lru_without L (unat (it_slabs_clsid (heap ?s0 p))) p) (after_unref (heap ?s0 p) p F) \<and>
     env_same ?s0 s' \<and> (it_refcount (heap ?s0 p) \<noteq> 1 \<longrightarrow>
        (\<exists>j. unlinked_from (heap ?s0 p) j \<and> heap s' p = j\<lparr>it_refcount := it_refcount j - 1\<rparr>))"
    by (rule do_item_unlink_nolock_inv [where L = L])
      (use i k hv free in \<open>simp_all add: cache_lock_irrelevant c_def\<close>)
  then obtain s1 where s1: "do_item_unlink_nolock p hv ?s0 = Some s1"
    "cache_inv s1 (M(k := None)) (lru_without L c p) (after_unref (heap s p) p F)" "env_same ?s0 s1"
    "it_refcount (heap s p) \<noteq> 1 \<longrightarrow>
        (\<exists>j. unlinked_from (heap s p) j \<and> heap s1 p = j\<lparr>it_refcount := it_refcount j - 1\<rparr>)"
    by (auto simp: c_def)
  have "do_item_unlink p hv s = Some (cache_lock_release s1)"
    using nl s1(1) by (simp add: do_item_unlink_steps lock_simps)
  moreover have "heap (cache_lock_release s1) = heap s1" by (simp add: cache_lock_release_def)
  moreover have "cache_inv (cache_lock_release s1) (M(k := None)) (lru_without L c p) (after_unref (heap s p) p F)"
    using s1(2) by (simp add: cache_lock_release_def cache_lock_irrelevant)
  ultimately show ?thesis using s1(4) env_same_lock [OF nl s1(3)] by simp
qed

subsection \<open>Linking an item\<close>

text \<open>An item a caller holds that is in no list and may be linked.\<close>

definition linkable :: "'a items_state_scheme \<Rightarrow> (nat \<Rightarrow> ptr list) \<Rightarrow> (nat \<Rightarrow> ptr list) \<Rightarrow> ptr \<Rightarrow> bool" where
  "linkable s L F p \<longleftrightarrow> p \<noteq> NULL \<and> \<not> is_linked (heap s p) \<and> \<not> is_slabbed (heap s p) \<and>
     is_item (heap s p) \<and> key_ok (heap s p) \<and>
     unat (it_slabs_clsid (heap s p)) \<in> classes s \<and> unat (it_slabs_clsid (heap s p)) < LARGEST_ID \<and>
     (\<forall>d<LARGEST_ID. p \<notin> set (L d)) \<and> (\<forall>d\<in>classes s. p \<notin> set (F d))"

theorem do_item_link_inv:
  assumes i: "cache_inv s M L F" and p: "linkable s L F p"
    and k: "k = item_key (heap s p)" "M k = None" and hv: "hv = hash_fn s k"
    and nl: "\<not> cache_lock s" and rc: "it_refcount (heap s p) + 1 \<noteq> 0"
  defines "c \<equiv> unat (it_slabs_clsid (heap s p))"
  shows "\<exists>s'. do_item_link p hv s = Some s' \<and> cache_inv s' (M(k \<mapsto> p)) (L(c := p # L c)) F \<and>
     env_same s s' \<and> it_refcount (heap s' p) = it_refcount (heap s p) + 1 \<and>
     it_time (heap s' p) = current_time s \<and> total_items (stats s') = total_items (stats s) + 1 \<and>
     (use_cas (settings s) \<longrightarrow> cas_id s' = cas_id s + 1 \<and>
        (bit (it_flags (heap s p)) 1 \<longrightarrow> it_cas (heap s' p) = cas_id s + 1))"
proof -
  note I = cache_invD [OF i] and P = p [unfolded linkable_def, folded c_def]
  define s5 where "s5 = (let
     s1 = s\<lparr>cache_lock := True\<rparr>;
     s3 = upd_item p (\<lambda>i. i\<lparr>it_time := current_time s\<rparr>) (upd_item p (\<lambda>i. i\<lparr>it_flags := it_flags i OR ITEM_LINKED\<rparr>) s1);
     s4 = upd_stats (\<lambda>st. st\<lparr>curr_bytes := curr_bytes st + ITEM_ntotal (heap s3 p),
                               curr_items := curr_items st + 1, total_items := total_items st + 1\<rparr>) s3
     in if use_cas (settings s) then s4\<lparr>cas_id := cas_id s + 1\<rparr> else s4)"
  define cas where "cas = (if use_cas (settings s) then cas_id s + 1 else 0)"
  define s6 where "s6 = upd_item p (ITEM_set_cas cas) s5"
  let ?i = "(heap s p)\<lparr>it_flags := it_flags (heap s p) OR ITEM_LINKED, it_time := current_time s\<rparr>"
  have h5: "heap s5 q = (if q = p then ?i else heap s q)" for q
    by (simp add: s5_def Let_def)
  have h6: "heap s6 q = (if q = p then ITEM_set_cas cas ?i else heap s q)" for q
    by (simp add: s6_def h5)
  have set_cas: "ITEM_set_cas v j = j \<or> ITEM_set_cas v j = j\<lparr>it_cas := v\<rparr>" for v j
    by (simp add: ITEM_set_cas_def)
  have i6: "it_key (heap s6 q) = it_key (heap s q)" "it_nkey (heap s6 q) = it_nkey (heap s q)"
    "it_h_next (heap s6 q) = it_h_next (heap s q)" "it_next (heap s6 q) = it_next (heap s q)"
    "it_prev (heap s6 q) = it_prev (heap s q)" "it_nbytes (heap s6 q) = it_nbytes (heap s q)"
    "it_slabs_clsid (heap s6 q) = it_slabs_clsid (heap s q)" "it_refcount (heap s6 q) = it_refcount (heap s q)"
    "it_nsuffix (heap s6 q) = it_nsuffix (heap s q)"
    "bit (it_flags (heap s6 q)) 1 = bit (it_flags (heap s q)) 1"
    "bit (it_flags (heap s6 q)) 2 = bit (it_flags (heap s q)) 2"
    "bit (it_flags (heap s6 q)) 0 \<longleftrightarrow> q = p \<or> bit (it_flags (heap s q)) 0" for q
    using set_cas [of cas ?i] by (auto simp: h6 ITEM_LINKED_def bit_simps)
  have t6: "it_time (heap s6 p) = current_time s" using set_cas [of cas ?i] by (auto simp: h6)
  have nt: "ITEM_ntotal (heap s6 q) = ITEM_ntotal (heap s q)" for q by (rule ITEM_ntotal_cong) (rule i6)+
  have nt5: "ITEM_ntotal ?i = ITEM_ntotal (heap s p)"
    by (rule ITEM_ntotal_cong) (simp_all add: ITEM_LINKED_def bit_simps)
  have o6: "settings s6 = settings s" "current_time s6 = current_time s" "hash_fn s6 = hash_fn s"
    "slabs_lock s6 = slabs_lock s" "slabs_rebalance_lock s6 = slabs_rebalance_lock s"
    "item_locks s6 = item_locks s" "item_lock_hashpower s6 = item_lock_hashpower s"
    "hashpower s6 = hashpower s" "primary_hashtable s6 = primary_hashtable s"
    "old_hashtable s6 = old_hashtable s" "hash_items s6 = hash_items s" "expanding s6 = expanding s"
    "expand_bucket s6 = expand_bucket s" "slabclass s6 = slabclass s" "power_largest s6 = power_largest s"
    "slab_rebal s6 = slab_rebal s" "slab_rebalance_signal s6 = slab_rebalance_signal s"
    "heads s6 = heads s" "tails s6 = tails s" "sizes s6 = sizes s" "classes s6 = classes s"
    "curr_items (stats s6) = curr_items (stats s) + 1" "total_items (stats s6) = total_items (stats s) + 1"
    "curr_bytes (stats s6) = curr_bytes (stats s) + ITEM_ntotal (heap s p)"
    "cas_id s6 = (if use_cas (settings s) then cas_id s + 1 else cas_id s)"
    "item_lock_type s6 = item_lock_type s" "item_global_lock s6 = item_global_lock s"
    "items_state.more s6 = items_state.more s"
    by (simp_all add: s6_def s5_def Let_def classes_def nt5)
  have keys6: "item_key (heap s6 q) = item_key (heap s q)" "key_ok (heap s6 q) = key_ok (heap s q)"
    "is_item (heap s6 q) = is_item (heap s q)" "chunk_free (heap s6 q) = chunk_free (heap s q)" for q
    by (simp_all add: item_key_def key_ok_def is_item_def chunk_free_def flag_bits i6)
  have r6: "assoc_rel s6 M" by (rule assoc_rel_frame [OF I(1)]) (simp_all add: i6 keys6 o6)
  let ?s7 = "assoc_insert p hv s6"
  have r7: "assoc_rel ?s7 (M(k \<mapsto> p))"
    by (rule assoc_insert_rel [OF r6]) (use k hv P in \<open>simp_all add: keys6 o6\<close>)
  note T = table_frame_items [OF assoc_insert_frame [of s6 p hv]] table_frame_more [OF assoc_insert_frame [of s6 p hv]]
  note R = table_frame_rest [OF assoc_insert_frame [of s6 p hv]]
  note H = hnext_onlyD [OF T(1)]
  have l7: "lru_rel ?s7 L"
    unfolding lru_rel_def
  proof (intro allI impI)
    fix d assume "d < LARGEST_ID"
    from lru_relD [OF I(2) this] show "lru_list (heap ?s7) d (heads ?s7 d) (tails ?s7 d) (sizes ?s7 d) (L d)"
      by (subst lru_list_cong [where h = "heap s"]) (simp_all add: T H i6 is_item_def o6)
  qed
  have f7: "freelists ?s7 F"
    by (rule freelists_frame [OF I(3)]) (simp_all add: T H i6 o6 chunk_free_def flag_bits)
  have "p \<noteq> NULL" "is_item (heap ?s7 p)" "\<not> is_slabbed (heap ?s7 p)" "c = unat (it_slabs_clsid (heap ?s7 p))"
    "c < LARGEST_ID" "p \<notin> set (L c)"
    using P by (simp_all add: is_item_def H i6 flag_bits c_def)
  from item_link_q_rel [OF l7 this] obtain s8 where
    s8: "item_link_q p ?s7 = Some s8" "lru_rel s8 (L(c := p # L c))" "list_frame ?s7 s8"
    "\<And>q. q \<notin> insert p (set (L c)) \<Longrightarrow> heap s8 q = heap ?s7 q" by blast
  note E = list_frameD [OF s8(3)]
  note G = links_onlyD [OF E(1)]
  define s' where "s' = cache_lock_release (snd (refcount_incr p s8))"
  have run: "do_item_link p hv s = Some s'"
  proof -
    have "it_flags (heap s p) AND (ITEM_LINKED OR ITEM_SLABBED) = 0"
      using P by (simp add: is_linked_def is_slabbed_def bit.conj_disj_distrib)
    moreover have "(if use_cas (settings s) then get_cas_id t else (0, t)) =
        (cas, if use_cas (settings s) then t\<lparr>cas_id := cas_id t + 1\<rparr> else t)" if "cas_id t = cas_id s" for t :: "'a items_state_scheme"
      using that by (simp add: get_cas_id_def cas_def)
    ultimately show ?thesis using s8(1) nl
      by (cases "use_cas (settings s)")
        (simp_all add: do_item_link_def lock_simps c_assert_True_bind s6_def s5_def Let_def s'_def)
  qed
  have s': "heap s' q = (if q = p then (heap s8 p)\<lparr>it_refcount := it_refcount (heap s8 p) + 1\<rparr> else heap s8 q)"
    "settings s' = settings s" "stats s' = stats s6" "current_time s' = current_time s" "hash_fn s' = hash_fn s"
    "cache_lock s' = False" "slabs_lock s' = slabs_lock s" "slabs_rebalance_lock s' = slabs_rebalance_lock s"
    "item_locks s' = item_locks s" "item_lock_hashpower s' = item_lock_hashpower s"
    "hashpower s' = hashpower s8" "primary_hashtable s' = primary_hashtable s8"
    "old_hashtable s' = old_hashtable s8" "hash_items s' = hash_items s8" "expanding s' = expanding s8"
    "expand_bucket s' = expand_bucket s8" "slabclass s' = slabclass s" "power_largest s' = power_largest s"
    "slab_rebal s' = slab_rebal s" "slab_rebalance_signal s' = slab_rebalance_signal s"
    "heads s' = heads s8" "tails s' = tails s8" "sizes s' = sizes s8" "classes s' = classes s"
    "cas_id s' = cas_id s6" "item_lock_type s' = item_lock_type s" "item_global_lock s' = item_global_lock s"
    "items_state.more s' = items_state.more s" for q
    by (simp_all add: s'_def cache_lock_release_def refcount_incr_def upd_item_def E T R
      list_frame_rest [OF s8(3)] o6 classes_def)
  have all: "it_refcount (heap s' q) = (if q = p then it_refcount (heap s p) + 1 else it_refcount (heap s q))"
    "is_item (heap s' q) = is_item (heap s q)"
    "q \<noteq> p \<Longrightarrow> item_ok s' (heap s' q) = item_ok s (heap s q)" for q
    by (simp_all add: s' G H i6 is_item_def item_ok_def flag_bits)
  have nt': "ITEM_ntotal (heap s' q) = ITEM_ntotal (heap s q)" for q
    by (rule ITEM_ntotal_cong) (simp_all add: s' G H i6 i6(10) [unfolded One_nat_def])
  have okp: "item_ok s' (heap s' p)"
    using P rc by (simp add: item_ok_def s' G H i6 flag_bits c_def word_gt_0 add.commute)
  have fin: "finite (dom M)" using I(1) by (auto elim: assoc_relE)
  have ran: "ran (M(k \<mapsto> p)) = insert p (ran M)" using k(2) by (rule ran_upd_Some)
  have "cache_inv s' (M(k \<mapsto> p)) (L(c := p # L c)) F"
  proof (rule cache_invI)
    show "assoc_rel s' (M(k \<mapsto> p))"
      by (rule assoc_rel_frame [OF r7]) (simp_all add: s' E G H T item_key_def key_ok_def o6)
    show "lru_rel s' (L(c := p # L c))"
      unfolding lru_rel_def
    proof (intro allI impI)
      fix d assume "d < LARGEST_ID"
      from lru_relD [OF s8(2) this]
      show "lru_list (heap s') d (heads s' d) (tails s' d) (sizes s' d) ((L(c := p # L c)) d)"
        by (subst lru_list_cong [where h = "heap s8"]) (simp_all add: s' is_item_def)
    qed
    show "freelists s' F"
    proof (rule freelists_frame [OF f7])
      fix d q assume d: "d \<in> classes ?s7" "q \<in> set (F d)"
      then have "q \<notin> set (L c)" "q \<noteq> p" using lru_not_free [OF i, of c q d] P by (auto simp: T o6)
      with s8(4) [of q] show "it_next (heap s' q) = it_next (heap ?s7 q) \<and>
           it_prev (heap s' q) = it_prev (heap ?s7 q) \<and> chunk_free (heap s' q) = chunk_free (heap ?s7 q)"
        by (simp add: s')
    qed (simp_all add: s' T o6)
    show "power_largest s' \<le> POWER_LARGEST" using I(4) by (simp add: s')
    have "c \<noteq> 0" using P by (auto simp: classes_def POWER_SMALLEST_def)
    then show "(L(c := p # L c)) 0 = []" using I(5) by simp
    have "lru_items s' (L(c := p # L c)) = insert p (lru_items s L)"
    proof (rule set_eqI)
      fix q
      have "q \<in> set ((L(c := p # L c)) d) \<longleftrightarrow> q \<in> set (L d) \<or> (d = c \<and> q = p)" for d by auto
      then show "q \<in> lru_items s' (L(c := p # L c)) \<longleftrightarrow> q \<in> insert p (lru_items s L)"
        using all(2) [of q] P unfolding lru_items_def by blast
    qed
    with I(6) show "ran (M(k \<mapsto> p)) = lru_items s' (L(c := p # L c))" unfolding ran by simp
    show "item_ok s' (heap s' q)" if "q \<in> ran (M(k \<mapsto> p))" for q
      using that I(7) [of q] all(3) [of q] okp unfolding ran by (cases "q = p") simp_all
    have "card (dom (M(k \<mapsto> p))) = Suc (card (dom M))" using k(2) fin by (simp add: domIff)
    then show "curr_items (stats s') = of_nat (card (dom (M(k \<mapsto> p))))" using I(8) by (simp add: s' o6)
    have "total_bytes (heap s') (M(k \<mapsto> p)) = total_bytes (heap s) (M(k \<mapsto> p))"
      by (rule total_bytes_cong) (rule nt')
    also have "\<dots> = total_bytes (heap s) M + ITEM_ntotal (heap s p)" by (rule total_bytes_insert [OF fin k(2)])
    finally show "curr_bytes (stats s') = total_bytes (heap s') (M(k \<mapsto> p))" using I(9) by (simp add: s' o6)
  qed
  moreover have "env_same s s'" using nl by (simp add: env_same_def s')
  moreover have "it_time (heap s' p) = current_time s" by (simp add: s' G H t6)
  moreover have "use_cas (settings s) \<longrightarrow> cas_id s' = cas_id s + 1 \<and>
        (bit (it_flags (heap s p)) 1 \<longrightarrow> it_cas (heap s' p) = cas_id s + 1)"
    by (simp add: s' o6 G H h6 cas_def ITEM_set_cas_def ITEM_CAS_def ITEM_LINKED_def and_flag_bit bit_simps)
  ultimately show ?thesis using run all(1) [of p] by (intro exI [of _ s']) (simp add: s' o6)
qed

section \<open>Contents of items\<close>

text \<open>Items that differ in their links only; operations on one item leave all others so.\<close>

definition same_contents :: "item \<Rightarrow> item \<Rightarrow> bool" where
  "same_contents i j \<longleftrightarrow> j\<lparr>it_next := NULL, it_prev := NULL, it_h_next := NULL\<rparr> =
                        i\<lparr>it_next := NULL, it_prev := NULL, it_h_next := NULL\<rparr>"

lemma same_contents_refl [simp]: "same_contents i i"
  by (simp add: same_contents_def)

lemma same_contents_trans: "same_contents i j \<Longrightarrow> same_contents j l \<Longrightarrow> same_contents i l"
  by (simp add: same_contents_def)

lemma same_contentsD:
  assumes "same_contents i j"
  shows "it_time j = it_time i" "it_exptime j = it_exptime i" "it_nbytes j = it_nbytes i"
    "it_refcount j = it_refcount i" "it_nsuffix j = it_nsuffix i" "it_flags j = it_flags i"
    "it_slabs_clsid j = it_slabs_clsid i" "it_nkey j = it_nkey i" "it_cas j = it_cas i"
    "it_key j = it_key i" "it_suffix j = it_suffix i" "it_data j = it_data i"
proof -
  note e = assms [unfolded same_contents_def]
  show "it_time j = it_time i" "it_exptime j = it_exptime i" "it_nbytes j = it_nbytes i"
    "it_refcount j = it_refcount i" "it_nsuffix j = it_nsuffix i" "it_flags j = it_flags i"
    "it_slabs_clsid j = it_slabs_clsid i" "it_nkey j = it_nkey i" "it_cas j = it_cas i"
    "it_key j = it_key i" "it_suffix j = it_suffix i" "it_data j = it_data i"
    using arg_cong [OF e, of it_time] arg_cong [OF e, of it_exptime] arg_cong [OF e, of it_nbytes]
      arg_cong [OF e, of it_refcount] arg_cong [OF e, of it_nsuffix] arg_cong [OF e, of it_flags]
      arg_cong [OF e, of it_slabs_clsid] arg_cong [OF e, of it_nkey] arg_cong [OF e, of it_cas]
      arg_cong [OF e, of it_key] arg_cong [OF e, of it_suffix] arg_cong [OF e, of it_data]
    by simp_all
qed

lemma same_contents_facts:
  assumes "same_contents i j"
  shows "item_key j = item_key i" "key_ok j = key_ok i" "is_item j = is_item i" "is_linked j = is_linked i"
    "is_slabbed j = is_slabbed i" "ITEM_ntotal j = ITEM_ntotal i"
proof -
  note D = same_contentsD [OF assms]
  show "item_key j = item_key i" "key_ok j = key_ok i" "is_item j = is_item i" "is_linked j = is_linked i"
    "is_slabbed j = is_slabbed i"
    by (simp_all add: item_key_def key_ok_def is_item_def flag_bits D)
  show "ITEM_ntotal j = ITEM_ntotal i" by (rule ITEM_ntotal_cong) (simp_all add: D)
qed

lemma links_only_contents: "links_only h h' \<Longrightarrow> same_contents (h p) (h' p)"
proof -
  assume "links_only h h'"
  then have "(h' p)\<lparr>it_next := NULL, it_prev := NULL\<rparr> = (h p)\<lparr>it_next := NULL, it_prev := NULL\<rparr>"
    by (simp add: links_only_def)
  from arg_cong [OF this, of "\<lambda>i. i\<lparr>it_h_next := NULL\<rparr>"] show ?thesis
    by (simp add: same_contents_def)
qed

lemma hnext_only_contents: "hnext_only h h' \<Longrightarrow> same_contents (h p) (h' p)"
  unfolding same_contents_def by (rule item.equality) (simp_all add: hnext_onlyD)

lemma item_link_q_links: "item_link_q it s = Some s' \<Longrightarrow> links_only (heap s) (heap s')"
  by (auto simp: item_link_q_def Let_def upd_item_if_def links_only_def)

lemma links_only_upd_if:
  "links_only (heap s) (heap (upd_item_if p (\<lambda>i. i\<lparr>it_prev := v\<rparr>) s))"
  "links_only (heap s) (heap (upd_item_if p (\<lambda>i. i\<lparr>it_next := v\<rparr>) s))"
  by (simp_all add: links_only_def)

lemma unlink_from_list_links:
  assumes "unlink_from_list it c s = Some s'"
  shows "links_only (heap s) (heap s')"
proof -
  define s1 where "s1 = (if heads s c = it then s\<lparr>heads := (heads s)(c := it_next (heap s it))\<rparr> else s)"
  define s2 where "s2 = (if tails s1 c = it then s1\<lparr>tails := (tails s1)(c := it_prev (heap s1 it))\<rparr> else s1)"
  have h: "heap s2 = heap s" by (simp add: s2_def s1_def)
  let ?s3 = "upd_item_if (it_next (heap s2 it)) (\<lambda>i. i\<lparr>it_prev := it_prev (heap s2 it)\<rparr>) s2"
  have e: "s' = upd_item_if (it_prev (heap ?s3 it)) (\<lambda>i. i\<lparr>it_next := it_next (heap ?s3 it)\<rparr>) ?s3"
    using assms unfolding unlink_from_list_def Let_def s1_def [symmetric] s2_def [symmetric] c_assert_bind
    by (elim conjE) (simp only: option.inject)
  have "links_only (heap s2) (heap s')"
    by (subst e) (rule links_only_trans [OF links_only_upd_if(1) links_only_upd_if(2)])
  then show ?thesis by (simp only: h)
qed

lemma item_unlink_q_links: "item_unlink_q it s = Some s' \<Longrightarrow> links_only (heap s) (heap s')"
  by (auto simp: item_unlink_q_def Let_def dest!: unlink_from_list_links split: Option.bind_splits)

lemma slabs_free_contents:
  "slabs_free p sz c s = Some s' \<Longrightarrow> q \<noteq> p \<Longrightarrow> same_contents (heap s q) (heap s' q)"
  by (auto simp: slabs_free_def do_slabs_free_def lock_simps slabs_lock_release_def Let_def
      upd_item_if_def same_contents_def split: Option.bind_splits if_splits)

lemma do_item_remove_contents:
  assumes "do_item_remove p s = Some s'" "q \<noteq> p"
  shows "same_contents (heap s q) (heap s' q)"
proof -
  let ?s1 = "upd_item p (\<lambda>i. i\<lparr>it_refcount := it_refcount i - 1\<rparr>) s"
  from assms(1) have "s' = ?s1 \<or> (\<exists>n c. slabs_free p n c (upd_item p (\<lambda>i. i\<lparr>it_slabs_clsid := 0\<rparr>) ?s1) = Some s')"
    by (auto simp: do_item_remove_def refcount_decr_def item_free_def Let_def split: if_splits)
  then show ?thesis
  proof (elim disjE exE)
    fix n c assume "slabs_free p n c (upd_item p (\<lambda>i. i\<lparr>it_slabs_clsid := 0\<rparr>) ?s1) = Some s'"
    from slabs_free_contents [OF this assms(2)] show ?thesis using assms(2) by simp
  qed (use assms(2) in simp)
qed

lemma unlink_nolock_contents:
  assumes "do_item_unlink_nolock p hv s = Some s'" "q \<noteq> p"
  shows "same_contents (heap s q) (heap s' q)"
proof (cases "is_linked (heap s p)")
  case False
  with assms show ?thesis by (simp add: do_item_unlink_nolock_steps)
next
  case True
  define s2 where "s2 = upd_stats (\<lambda>st. st\<lparr>curr_bytes := curr_bytes st -
        ITEM_ntotal (heap (upd_item p (\<lambda>i. i\<lparr>it_flags := it_flags i AND NOT ITEM_LINKED\<rparr>) s) p),
        curr_items := curr_items st - 1\<rparr>) (upd_item p (\<lambda>i. i\<lparr>it_flags := it_flags i AND NOT ITEM_LINKED\<rparr>) s)"
  have h2: "heap s2 q = heap s q" using assms(2) by (simp add: s2_def)
  from assms(1) True obtain s1 where "unlink_steps p hv s = Some s1" and r: "do_item_remove p s1 = Some s'"
    by (auto simp: do_item_unlink_nolock_steps split: Option.bind_splits)
  then obtain s3 where s3: "assoc_delete (it_key (heap s2 p)) (unat (it_nkey (heap s2 p))) hv s2 = Some s3"
      "item_unlink_q p s3 = Some s1"
    unfolding unlink_steps_def Let_def s2_def [symmetric] by (auto split: Option.bind_splits)
  have "same_contents (heap s2 q) (heap s3 q)"
    by (rule hnext_only_contents [OF table_frame_items(1) [OF assoc_delete_frame [OF s3(1)]]])
  then have "same_contents (heap s2 q) (heap s1 q)"
    by (rule same_contents_trans) (rule links_only_contents [OF item_unlink_q_links [OF s3(2)]])
  then have "same_contents (heap s2 q) (heap s' q)"
    by (rule same_contents_trans) (rule do_item_remove_contents [OF r assms(2)])
  then show ?thesis unfolding h2 .
qed

lemma unlink_contents:
  assumes "do_item_unlink p hv s = Some s'" "q \<noteq> p"
  shows "same_contents (heap s q) (heap s' q)"
proof -
  from assms(1) obtain s1 where "do_item_unlink_nolock p hv (s\<lparr>cache_lock := True\<rparr>) = Some s1"
    "s' = cache_lock_release s1"
    by (auto simp: do_item_unlink_steps lock_simps split: Option.bind_splits if_splits)
  from unlink_nolock_contents [OF this(1) assms(2)] this(2) show ?thesis
    by (simp add: cache_lock_release_def)
qed

section \<open>Replacing, moving to the front, lookup\<close>

theorem do_item_replace_inv:
  assumes i: "cache_inv s M L F" and k: "M k = Some p" and hv: "hv = hash_fn s k"
    and q: "linkable s L F q" "item_key (heap s q) = k" "it_refcount (heap s q) + 1 \<noteq> 0" "q \<noteq> p"
    and nl: "\<not> cache_lock s"
  defines "c \<equiv> unat (it_slabs_clsid (heap s p))" and "d \<equiv> unat (it_slabs_clsid (heap s q))"
  assumes free: "it_refcount (heap s p) = 1 \<Longrightarrow> \<not> slabs_lock s \<and> Suc (length (F c)) < 2 ^ 32"
  shows "\<exists>s'. do_item_replace p q hv s = Some s' \<and>
     cache_inv s' (M(k \<mapsto> q)) ((lru_without L c p)(d := q # lru_without L c p d)) (after_unref (heap s p) p F) \<and>
     env_same s s' \<and> it_refcount (heap s' q) = it_refcount (heap s q) + 1"
proof -
  note P = cached_item [OF i k, folded c_def]
  from do_item_unlink_inv [OF i k hv nl] free obtain s1 where s1: "do_item_unlink p hv s = Some s1"
    "cache_inv s1 (M(k := None)) (lru_without L c p) (after_unref (heap s p) p F)" "env_same s s1"
    unfolding c_def by blast
  note C = unlink_contents [OF s1(1) q(4)]
  note D = same_contentsD [OF C] same_contents_facts [OF C]
  have cl: "classes s1 = classes s" using s1(3) by (intro classes_cong) (simp add: env_same_def)
  have l: "linkable s1 (lru_without L c p) (after_unref (heap s p) p F) q"
    using q(1,4) set_remove1_subset [of p "L c"] unfolding linkable_def D cl after_unref_def by auto
  from do_item_link_inv [OF s1(2) l, of k hv] q(2,3) hv nl s1(3)
  obtain s' where s': "do_item_link q hv s1 = Some s'"
    "cache_inv s' (M(k \<mapsto> q)) ((lru_without L c p)(d := q # lru_without L c p d)) (after_unref (heap s p) p F)"
    "env_same s1 s'" "it_refcount (heap s' q) = it_refcount (heap s1 q) + 1"
    unfolding D d_def by (auto simp: env_same_def)
  have "do_item_replace p q hv s = Some s'"
    using P(10) s1(1) s'(1) by (simp add: do_item_replace_def is_slabbed_def c_assert_True_bind)
  then show ?thesis using s'(2,3,4) s1(3) env_same_trans by (fastforce simp: D)
qed

lemma cache_inv_relink:
  assumes i: "cache_inv s M L F" and k: "M k = Some p"
  defines "c \<equiv> unat (it_slabs_clsid (heap s p))"
  shows "\<exists>s'. item_bump p s = Some s' \<and> cache_inv s' M (L(c := p # remove1 p (L c))) F \<and> env_same s s' \<and>
     it_time (heap s' p) = current_time s \<and> it_refcount (heap s' p) = it_refcount (heap s p) \<and>
     (\<forall>q. q \<noteq> p \<longrightarrow> same_contents (heap s q) (heap s' q))"
proof -
  note I = cache_invD [OF i] and P = cached_item [OF i k, folded c_def]
  from item_unlink_q_rel [OF I(2) P(4,5,2)] obtain s1 where
    s1: "item_unlink_q p s = Some s1" "lru_rel s1 (L(c := remove1 p (L c)))" "list_frame s s1"
    "\<And>q. q \<notin> set (L c) - {p} \<Longrightarrow> heap s1 q = heap s q" by blast
  note E = list_frameD [OF s1(3)] and G = links_onlyD [OF list_frameD(1) [OF s1(3)]]
  let ?s2 = "upd_item p (\<lambda>i. i\<lparr>it_time := current_time s1\<rparr>) s1"
  have l2: "lru_rel ?s2 (L(c := remove1 p (L c)))"
    unfolding lru_rel_def
  proof (intro allI impI)
    fix d assume "d < LARGEST_ID"
    from lru_relD [OF s1(2) this]
    show "lru_list (heap ?s2) d (heads ?s2 d) (tails ?s2 d) (sizes ?s2 d) ((L(c := remove1 p (L c))) d)"
      by (subst lru_list_cong [where h = "heap s1"]) (simp_all add: is_item_def)
  qed
  have "p \<notin> set ((L(c := remove1 p (L c))) c)" using lru_distinct [OF I(2) P(2)] by simp
  then have "\<exists>s'. item_link_q p ?s2 = Some s' \<and> lru_rel s' ((L(c := remove1 p (L c)))(c := p # (L(c := remove1 p (L c))) c)) \<and>
     list_frame ?s2 s' \<and> (\<forall>q. q \<notin> insert p (set ((L(c := remove1 p (L c))) c)) \<longrightarrow> heap s' q = heap ?s2 q)"
    by (intro item_link_q_rel [OF l2])
      (use P in \<open>simp_all add: is_item_def G is_slabbed_def c_def\<close>)
  then obtain s' where s': "item_link_q p ?s2 = Some s'" "lru_rel s' (L(c := p # remove1 p (L c)))"
    "list_frame ?s2 s'" "\<And>q. q \<notin> insert p (set (remove1 p (L c))) \<Longrightarrow> heap s' q = heap ?s2 q" by auto
  note E' = list_frameD [OF s'(3)] and G' = links_onlyD [OF list_frameD(1) [OF s'(3)]]
  have run: "item_bump p s = Some s'"
    using P(9) s1(1) s'(1) by (simp add: item_bump_def is_linked_def)
  have f: "it_key (heap s' q) = it_key (heap s q)" "it_nkey (heap s' q) = it_nkey (heap s q)"
    "it_nbytes (heap s' q) = it_nbytes (heap s q)" "it_h_next (heap s' q) = it_h_next (heap s q)"
    "it_flags (heap s' q) = it_flags (heap s q)" "it_refcount (heap s' q) = it_refcount (heap s q)"
    "it_slabs_clsid (heap s' q) = it_slabs_clsid (heap s q)" "it_nsuffix (heap s' q) = it_nsuffix (heap s q)" for q
    by (simp_all add: G G')
  have cl: "classes s' = classes s" by (simp add: E E')
  have "cache_inv s' M (L(c := p # remove1 p (L c))) F"
  proof (rule cache_invI)
    show "assoc_rel s' M" by (rule assoc_rel_frame [OF I(1)]) (simp_all add: f E E' item_key_def key_ok_def)
    show "freelists s' F"
    proof (rule freelists_frame [OF I(3)])
      fix d q assume "d \<in> classes s" "q \<in> set (F d)"
      then have q: "q \<notin> set (L c)" using lru_not_free [OF i P(2), of q d] by blast
      then have "q \<notin> set (L c) - {p}" "q \<notin> insert p (set (remove1 p (L c)))" "q \<noteq> p"
        using P(4) set_remove1_subset [of p "L c"] by auto
      then have "heap s' q = heap s q" using s1(4) s'(4) by simp
      then show "it_next (heap s' q) = it_next (heap s q) \<and> it_prev (heap s' q) = it_prev (heap s q) \<and>
           chunk_free (heap s' q) = chunk_free (heap s q)" by simp
    qed (simp_all add: E E')
    have "c \<noteq> 0" using P(3) by (auto simp: classes_def POWER_SMALLEST_def)
    then show "(L(c := p # remove1 p (L c))) 0 = []" using I(5) by simp
    have "q \<in> set ((L(c := p # remove1 p (L c))) d) \<longleftrightarrow> q \<in> set (L d)" for d q
      using lru_distinct [OF I(2) P(2)] P(4) by auto
    then have "lru_items s' (L(c := p # remove1 p (L c))) = lru_items s L"
      by (simp only: lru_items_def is_item_def f)
    with I(6) show "ran M = lru_items s' (L(c := p # remove1 p (L c)))" by simp
    show "item_ok s' (heap s' q)" if "q \<in> ran M" for q
      using I(7) [OF that] by (simp add: item_ok_def is_linked_def is_slabbed_def f cl)
    have "total_bytes (heap s') M = total_bytes (heap s) M"
      by (rule total_bytes_cong, rule ITEM_ntotal_cong) (simp_all add: f)
    then show "curr_bytes (stats s') = total_bytes (heap s') M" using I(9) by (simp add: E E')
  qed (use I s'(2) in \<open>simp_all add: E E'\<close>)
  moreover have "env_same s s'"
    by (simp add: env_same_def E E' list_frame_rest [OF s1(3)] list_frame_rest [OF s'(3)])
  moreover have "same_contents (heap s q) (heap s' q)" if "q \<noteq> p" for q
    using links_only_contents [OF E(1), of q] links_only_contents [OF E'(1), of q] that
    by (auto intro: same_contents_trans)
  ultimately show ?thesis using run by (intro exI [of _ s']) (simp add: f G' E)
qed

text \<open>Bumping an item moves it to the front of its list at most once per interval.\<close>

theorem do_item_update_inv:
  assumes i: "cache_inv s M L F" and k: "M k = Some p" and nl: "\<not> cache_lock s"
  defines "c \<equiv> unat (it_slabs_clsid (heap s p))"
  defines "old \<equiv> it_time (heap s p) < current_time s - ITEM_UPDATE_INTERVAL"
  shows "\<exists>s'. do_item_update p s = Some s' \<and> env_same s s' \<and>
     cache_inv s' M (if old then L(c := p # remove1 p (L c)) else L) F \<and>
     it_time (heap s' p) = (if old then current_time s else it_time (heap s p))"
proof (cases old)
  case False
  then show ?thesis using i by (simp add: do_item_update_def old_def)
next
  case True
  note P = cached_item [OF i k, folded c_def]
  let ?s0 = "s\<lparr>cache_lock := True\<rparr>"
  have i0: "cache_inv ?s0 M L F" using i by (simp add: cache_lock_irrelevant)
  from cache_inv_relink [OF i0 k] obtain s1 where s1: "item_bump p ?s0 = Some s1"
    "cache_inv s1 M (L(c := p # remove1 p (L c))) F" "env_same ?s0 s1" "it_time (heap s1 p) = current_time s"
    by (auto simp: c_def)
  have "do_item_update p s = Some (cache_lock_release s1)"
    using True P(10) nl s1(1)
    by (simp add: do_item_update_def old_def is_slabbed_def c_assert_True_bind lock_simps)
  moreover have "cache_inv (cache_lock_release s1) M (L(c := p # remove1 p (L c))) F"
    using s1(2) by (simp add: cache_lock_release_def cache_lock_irrelevant)
  moreover have "heap (cache_lock_release s1) = heap s1" by (simp add: cache_lock_release_def)
  ultimately show ?thesis using s1(4) env_same_lock [OF nl s1(3)] True by simp
qed

subsection \<open>Lookup\<close>

text \<open>Whether a lookup finds the item dead: flushed or expired.\<close>

definition item_dead :: "'a items_state_scheme \<Rightarrow> item \<Rightarrow> bool" where
  "item_dead s i \<longleftrightarrow>
     (oldest_live (settings s) \<noteq> 0 \<and> oldest_live (settings s) \<le> current_time s \<and>
        it_time i \<le> oldest_live (settings s)) \<or>
     (it_exptime i \<noteq> 0 \<and> it_exptime i \<le> current_time s)"

definition in_moving_page :: "'a slabs_state_scheme \<Rightarrow> ptr \<Rightarrow> bool" where
  "in_moving_page s p \<longleftrightarrow> slab_rebalance_signal s \<noteq> 0 \<and>
     slab_start (slab_rebal s) \<le> p \<and> p < slab_end (slab_rebal s)"

text \<open>An item is unlinked, and the caller's own reference dropped.\<close>

definition held :: "ptr \<Rightarrow> 'a items_state_scheme \<Rightarrow> 'a items_state_scheme" where
  "held p s = upd_item p (\<lambda>i. i\<lparr>it_refcount := it_refcount i + 1\<rparr>) s"

lemma held_inv:
  assumes i: "cache_inv s M L F" and r: "it_refcount (heap s p) + 1 \<noteq> 0"
  shows "cache_inv (held p s) M L F" "env_same s (held p s)"
    "heap (held p s) = (heap s)(p := (heap s p)\<lparr>it_refcount := it_refcount (heap s p) + 1\<rparr>)"
proof -
  show "cache_inv (held p s) M L F"
    using r cache_invD(7) [OF i] unfolding held_def
    by (intro cache_inv_frame [OF i]) (auto simp: item_ok_def word_gt_0)
  show "env_same s (held p s)" by (simp add: held_def)
  show "heap (held p s) = (heap s)(p := (heap s p)\<lparr>it_refcount := it_refcount (heap s p) + 1\<rparr>)"
    by (simp add: held_def)
qed

lemma remove_after_unlink:
  assumes i: "cache_inv s M L F" and k: "M k = Some p" and r: "it_refcount (heap s p) + 1 \<noteq> 0"
    and free: "it_refcount (heap s p) = 1 \<Longrightarrow> \<not> slabs_lock s \<and>
        Suc (length (F (unat (it_slabs_clsid (heap s p))))) < 2 ^ 32"
    and u: "cache_inv s2 (M(k := None)) (lru_without L (unat (it_slabs_clsid (heap s p))) p) F"
      "env_same (held p s) s2"
      "\<exists>j. unlinked_from (heap (held p s) p) j \<and> heap s2 p = j\<lparr>it_refcount := it_refcount j - 1\<rparr>"
  shows "\<exists>s'. do_item_remove p s2 = Some s' \<and>
     cache_inv s' (M(k := None)) (lru_without L (unat (it_slabs_clsid (heap s p))) p) (after_unref (heap s p) p F) \<and>
     env_same s s'"
proof -
  let ?c = "unat (it_slabs_clsid (heap s p))"
  note P = cached_item [OF i k] and Hd = held_inv [OF i r]
  from u(3) obtain j where j: "unlinked_from (heap (held p s) p) j"
    "heap s2 p = j\<lparr>it_refcount := it_refcount j - 1\<rparr>" by blast
  note U = j(1) [unfolded unlinked_from_def] unlinked_flags [OF j(1)]
  have e: "env_same s s2" by (rule env_same_trans [OF Hd(2) u(2)])
  have cl: "classes s2 = classes s" using e by (intro classes_cong) (simp add: env_same_def)
  have rc: "it_refcount (heap s2 p) = it_refcount (heap s p)" using U j(2) by (simp add: Hd(3))
  have sl: "is_slabbed (heap s2 p) = is_slabbed (heap s p)" "\<not> is_linked (heap s2 p)"
    "it_slabs_clsid (heap s2 p) = it_slabs_clsid (heap s p)"
    using U j(2) by (simp_all add: Hd(3) flag_bits)
  show ?thesis
  proof (cases "it_refcount (heap s p) = 1")
    case False
    have "\<exists>s'. do_item_remove p s2 = Some s' \<and> cache_inv s' (M(k := None)) (lru_without L ?c p) F \<and>
       env_same s2 s' \<and> heap s' = (heap s2)(p := (heap s2 p)\<lparr>it_refcount := it_refcount (heap s2 p) - 1\<rparr>)"
      by (rule do_item_remove_keep [OF u(1)]) (use False sl rc P(10,11) in simp_all)
    then show ?thesis using False e env_same_trans by (fastforce simp: after_unref_def)
  next
    case True
    have "\<exists>s'. do_item_remove p s2 = Some s' \<and>
       cache_inv s' (M(k := None)) (lru_without L ?c p) (F(?c := p # F ?c)) \<and> env_same s2 s'"
    proof (rule do_item_remove_free [OF u(1)])
      show "\<not> is_slabbed (heap s2 p)" "\<not> is_linked (heap s2 p)" "it_refcount (heap s2 p) = 1" "p \<noteq> NULL"
        using sl rc True P(6,10) by simp_all
      show "?c = unat (it_slabs_clsid (heap s2 p))" "?c \<in> classes s2" "?c < LARGEST_ID"
        using sl P(2,3) cl by simp_all
      show "p \<notin> set ((lru_without L ?c p) d)" if "d < LARGEST_ID" for d
        by (rule not_in_lists [OF i k that])
      show "p \<notin> set (F d)" if "d \<in> classes s2" for d using lru_not_free [OF i P(2,4)] that cl by simp
      show "Suc (length (F ?c)) < 2 ^ 32" "\<not> slabs_lock s2"
        using free [OF True] e by (simp_all add: env_same_def)
    qed
    then show ?thesis using True e env_same_trans by (fastforce simp: after_unref_def)
  qed
qed

text \<open>\<open>do_item_get\<close> finds what the map holds, unless the item is dead or its page is being moved;
  then it leaves the cache.\<close>

theorem do_item_get_inv:
  assumes i: "cache_inv s M L F" and k: "k = take nkey key" "nkey \<le> length key" and hv: "hv = hash_fn s k"
    and nl: "\<not> cache_lock s"
    and room: "\<And>p. M k = Some p \<Longrightarrow> it_refcount (heap s p) + 1 \<noteq> 0 \<and>
        (it_refcount (heap s p) = 1 \<longrightarrow> \<not> slabs_lock s \<and>
           Suc (length (F (unat (it_slabs_clsid (heap s p))))) < 2 ^ 32)"
  shows "\<exists>it s'. do_item_get key nkey hv s = Some (it, s') \<and> env_same s s' \<and>
     (case M k of None \<Rightarrow> it = NULL \<and> s' = s
      | Some p \<Rightarrow>
        if in_moving_page s p \<or> item_dead s (heap s p)
        then it = NULL \<and> cache_inv s' (M(k := None))
               (lru_without L (unat (it_slabs_clsid (heap s p))) p) (after_unref (heap s p) p F)
        else it = p \<and> cache_inv s' M L F \<and>
             heap s' = (heap s)(p := (heap s p)\<lparr>it_refcount := it_refcount (heap s p) + 1,
                                            it_flags := it_flags (heap s p) OR ITEM_FETCHED\<rparr>))"
proof (cases "M k")
  case None
  have "assoc_find key nkey hv s = Some NULL"
    using assoc_find_correct [OF cache_invD(1) [OF i] k hv] None by simp
  then show ?thesis using None by (simp add: do_item_get_def item_get_find_def)
next
  case (Some p)
  note P = cached_item [OF i Some]
  note R = room [OF Some]
  have r: "it_refcount (heap s p) + 1 \<noteq> 0" using R by simp
  note Hd = held_inv [OF i r]
  let ?c = "unat (it_slabs_clsid (heap s p))"
  have find: "assoc_find key nkey hv s = Some p"
    using assoc_find_correct [OF cache_invD(1) [OF i] k hv] Some by simp
  have inc: "snd (refcount_incr p s) = held p s" by (simp add: refcount_incr_def held_def)
  have hh: "heap (held p s) p = (heap s p)\<lparr>it_refcount := it_refcount (heap s p) + 1\<rparr>" by (simp add: Hd(3))
  have se: "settings (held p s) = settings s" "current_time (held p s) = current_time s"
    "hash_fn (held p s) = hash_fn s" "cache_lock (held p s) = cache_lock s"
    "slab_rebal (held p s) = slab_rebal s" "slab_rebalance_signal (held p s) = slab_rebalance_signal s"
    by (simp_all add: held_def)
  have ne1: "it_refcount (heap (held p s) p) \<noteq> 1" using P(11) by (simp add: hh)
  have au: "after_unref (heap (held p s) p) p F = F" using ne1 by (simp add: after_unref_def)
  have cl: "it_slabs_clsid (heap (held p s) p) = it_slabs_clsid (heap s p)" by (simp add: hh)
  show ?thesis
  proof (cases "in_moving_page s p")
    case True
    have "\<exists>s2. do_item_unlink_nolock p hv (held p s) = Some s2 \<and>
      cache_inv s2 (M(k := None)) (lru_without L ?c p) F \<and> env_same (held p s) s2 \<and>
      (\<exists>j. unlinked_from (heap (held p s) p) j \<and> heap s2 p = j\<lparr>it_refcount := it_refcount j - 1\<rparr>)"
      using do_item_unlink_nolock_inv [OF Hd(1) Some, of hv] hv ne1 unfolding au cl se by blast
    then obtain s2 s' where s2: "do_item_unlink_nolock p hv (held p s) = Some s2"
      and s': "do_item_remove p s2 = Some s'" "cache_inv s' (M(k := None)) (lru_without L ?c p) (after_unref (heap s p) p F)"
      "env_same s s'"
      using remove_after_unlink [OF i Some r] R by metis
    have "do_item_get key nkey hv s = Some (NULL, s')"
      using find P(6) True s2 s'(1)
      by (simp add: do_item_get_def item_get_find_def inc in_moving_page_def se)
    then show ?thesis using Some True s'(2,3) by simp
  next
    case nomove: False
    have gf: "item_get_find key nkey hv s = Some (p, held p s)"
      using find P(6) nomove by (auto simp: item_get_find_def inc in_moving_page_def se)
    show ?thesis
    proof (cases "item_dead s (heap s p)")
      case True
      have "\<exists>s2. do_item_unlink p hv (held p s) = Some s2 \<and>
        cache_inv s2 (M(k := None)) (lru_without L ?c p) F \<and> env_same (held p s) s2 \<and>
        (\<exists>j. unlinked_from (heap (held p s) p) j \<and> heap s2 p = j\<lparr>it_refcount := it_refcount j - 1\<rparr>)"
        using do_item_unlink_inv [OF Hd(1) Some, of hv] hv nl ne1 unfolding au cl se by blast
      then obtain s2 s' where s2: "do_item_unlink p hv (held p s) = Some s2"
        and s': "do_item_remove p s2 = Some s'" "cache_inv s' (M(k := None)) (lru_without L ?c p) (after_unref (heap s p) p F)"
        "env_same s s'"
        using remove_after_unlink [OF i Some r] R by metis
      have "do_item_get key nkey hv s = Some (NULL, s')"
        using gf P(6) True s2 s'(1) by (auto simp: do_item_get_def Let_def item_dead_def se hh)
      then show ?thesis using Some True s'(2,3) by simp
    next
      case False
      let ?s' = "upd_item p (\<lambda>i. i\<lparr>it_flags := it_flags i OR ITEM_FETCHED\<rparr>) (held p s)"
      have "do_item_get key nkey hv s = Some (p, ?s')"
        using gf P(6) False by (auto simp: do_item_get_def Let_def item_dead_def se hh)
      moreover have "cache_inv ?s' M L F"
        by (rule cache_inv_frame [OF Hd(1)]) (use cache_invD(7) [OF Hd(1)] in \<open>auto simp: item_ok_def\<close>)
      moreover have "heap ?s' = (heap s)(p := (heap s p)\<lparr>it_refcount := it_refcount (heap s p) + 1,
                                            it_flags := it_flags (heap s p) OR ITEM_FETCHED\<rparr>)"
        by (simp add: Hd(3))
      ultimately show ?thesis using Some False nomove Hd(2) by simp
    qed
  qed
qed

section \<open>An example cache\<close>

text \<open>The static initialisers of \<open>items.c\<close> on top of those of \<open>slabs.c\<close>.\<close>

definition items_boot :: "(bytes \<Rightarrow> u32) \<Rightarrow> (ptr \<Rightarrow> item) \<Rightarrow> items_state" where
  "items_boot hash mem = slabs_state.extend (slabs_boot hash mem)
     (items_state.fields (\<lambda>_. NULL) (\<lambda>_. NULL) (\<lambda>_. 0) (\<lambda>_. zero_itemstats) 0)"

text \<open>Three empty size classes, and an allocated item of class 1 at address 64.\<close>

definition fresh_item :: item where
  "fresh_item = zero_item\<lparr>it_nkey := 3, it_key := [102, 111, 111], it_slabs_clsid := 1,
     it_refcount := 1, it_nbytes := 2\<rparr>"

definition example_cache :: items_state where
  "example_cache = (items_boot (\<lambda>_. 7) (\<lambda>p. if p \<in> {64, 160} then fresh_item else zero_item))
     \<lparr>power_largest := 3, current_time := 100\<rparr>"

lemmas boot_fields = items_boot_def slabs_boot_def assoc_boot_def slabs_state.extend_def
  assoc_state.extend_def items_state.fields_def slabs_state.fields_def

lemma example_cache_fields [simp]:
  "heap example_cache = (\<lambda>p. if p \<in> {64, 160} then fresh_item else zero_item)"
  "hash_fn example_cache = (\<lambda>_. 7)" "current_time example_cache = 100"
  "settings example_cache = settings_init" "cache_lock example_cache = False"
  "slabs_lock example_cache = False" "power_largest example_cache = 3"
  "slab_rebalance_signal example_cache = 0" "stats example_cache = stats_init"
  by (simp_all add: example_cache_def boot_fields)

lemma example_cache_inv: "cache_inv example_cache Map.empty (\<lambda>_. []) (\<lambda>_. [])"
proof (rule cache_invI)
  have "tab_ok (heap example_cache) (read_pos example_cache) (active example_cache)
      (bucket_of example_cache) (\<lambda>_. []) Map.empty"
    by (rule tab_okI) (auto simp: active_def example_cache_def boot_fields)
  then show "assoc_rel example_cache Map.empty"
    by (intro assoc_relI) (auto simp: assoc_wf_def example_cache_def boot_fields HASHPOWER_DEFAULT_def)
  show "lru_rel example_cache (\<lambda>_. [])"
    by (simp add: lru_rel_def lru_list_def example_cache_def boot_fields)
  show "freelists example_cache (\<lambda>_. [])"
    by (simp add: freelists_def freelist_def example_cache_def boot_fields zero_class_def)
qed (simp_all add: lru_items_def total_bytes_def stats_init_def POWER_LARGEST_def)

lemma fresh_item_key: "item_key fresh_item = [102, 111, 111]" "key_ok fresh_item"
  "is_item fresh_item" "it_slabs_clsid fresh_item = 1" "it_refcount fresh_item = 1"
  "\<not> is_linked fresh_item" "\<not> is_slabbed fresh_item" "it_exptime fresh_item = 0" "it_flags fresh_item = 0"
  by (simp_all add: fresh_item_def zero_item_def item_key_def key_ok_def is_item_def is_linked_def is_slabbed_def)

lemma example_linkable: "p \<in> {64, 160} \<Longrightarrow> linkable example_cache (\<lambda>_. []) (\<lambda>_. []) p"
  by (auto simp: linkable_def fresh_item_key classes_def POWER_SMALLEST_def LARGEST_ID_def POWER_LARGEST_def)

text \<open>What linking leaves alone.\<close>

lemma link_contents:
  assumes "do_item_link p hv s = Some s'"
  shows "q \<noteq> p \<Longrightarrow> same_contents (heap s q) (heap s' q)" "it_exptime (heap s' p) = it_exptime (heap s p)"
proof -
  define s3 where "s3 = upd_item p (\<lambda>i. i\<lparr>it_time := current_time s\<rparr>)
     (upd_item p (\<lambda>i. i\<lparr>it_flags := it_flags i OR ITEM_LINKED\<rparr>) (s\<lparr>cache_lock := True\<rparr>))"
  define s4 where "s4 = upd_stats (\<lambda>st. st\<lparr>curr_bytes := curr_bytes st + ITEM_ntotal (heap s3 p),
                               curr_items := curr_items st + 1, total_items := total_items st + 1\<rparr>) s3"
  define cs where "cs = (if use_cas (settings s4) then get_cas_id s4 else (0, s4))"
  define s6 where "s6 = upd_item p (ITEM_set_cas (fst cs)) (snd cs)"
  have h: "heap (snd cs) = heap s3" by (simp add: cs_def get_cas_id_def s4_def)
  have h6: "q \<noteq> p \<Longrightarrow> heap s6 q = heap s q" "it_exptime (heap s6 p) = it_exptime (heap s p)" for q
    by (simp_all add: s6_def h s3_def ITEM_set_cas_def)
  from assms obtain s8 where s8: "item_link_q p (assoc_insert p hv s6) = Some s8"
    "s' = cache_lock_release (snd (refcount_incr p s8))"
    unfolding do_item_link_def lock_simps
    by (auto simp: Let_def s3_def s4_def cs_def s6_def case_prod_beta' split: Option.bind_splits if_splits)
  have "same_contents (heap s6 q) (heap s8 q)" for q
    by (rule same_contents_trans [OF hnext_only_contents [OF table_frame_items(1) [OF assoc_insert_frame]]
          links_only_contents [OF item_link_q_links [OF s8(1)]]])
  note c = this this [THEN same_contentsD(2)]
  show "same_contents (heap s q) (heap s' q)" if "q \<noteq> p"
    using c(1) [of q] h6(1) [OF that] that by (simp add: s8(2) cache_lock_release_def refcount_incr_def)
  show "it_exptime (heap s' p) = it_exptime (heap s p)"
    using c(2) [of p] h6(2) by (simp add: s8(2) cache_lock_release_def refcount_incr_def)
qed

section \<open>Properties of the item layer\<close>

text \<open>C3: Linking an item under a key that is not in the cache makes the lookup of that key return
  the item and of every other key what it returned before, puts the item at the head of the LRU
  list of its class, and takes one reference; the table, the lists, the free lists and the counts
  of items and bytes stay consistent.\<close>

theorem link_item:
  assumes "cache_inv s M L F" "linkable s L F p" "k = item_key (heap s p)" "M k = None"
    "\<not> cache_lock s" "it_refcount (heap s p) + 1 \<noteq> 0"
  shows "\<exists>s'. do_item_link p (hash_fn s k) s = Some s' \<and>
    cache_inv s' (M(k \<mapsto> p)) (L(unat (it_slabs_clsid (heap s p)) := p # L (unat (it_slabs_clsid (heap s p))))) F \<and>
    (\<forall>j. assoc_find j (length j) (hash_fn s j) s' =
       (if j = k then Some p else assoc_find j (length j) (hash_fn s j) s)) \<and>
    it_refcount (heap s' p) = it_refcount (heap s p) + 1 \<and> it_time (heap s' p) = current_time s \<and>
    curr_items (stats s') = curr_items (stats s) + 1 \<and> \<not> cache_lock s'"
proof -
  from do_item_link_inv [OF assms(1,2,3,4) refl assms(5,6)] obtain s' where
    s': "do_item_link p (hash_fn s k) s = Some s'"
      "cache_inv s' (M(k \<mapsto> p)) (L(unat (it_slabs_clsid (heap s p)) := p # L (unat (it_slabs_clsid (heap s p))))) F"
      "env_same s s'" "it_refcount (heap s' p) = it_refcount (heap s p) + 1"
      "it_time (heap s' p) = current_time s" by blast
  have h: "hash_fn s' = hash_fn s" "\<not> cache_lock s'" using s'(3) assms(5) by (simp_all add: env_same_def)
  have "assoc_find j (length j) (hash_fn s j) s' =
       (if j = k then Some p else assoc_find j (length j) (hash_fn s j) s)" for j
    using hashtab.find_rel [OF cache_invD(1) [OF s'(2)], of j] hashtab.find_rel [OF cache_invD(1) [OF assms(1)], of j]
    by (simp add: h)
  moreover have "curr_items (stats s') = curr_items (stats s) + 1"
  proof -
    have "finite (dom M)" using cache_invD(1) [OF assms(1)] by (simp add: assoc_rel_def)
    moreover have "k \<notin> dom M" using assms(4) by (simp add: domIff)
    ultimately show ?thesis
      using cache_invD(8) [OF s'(2)] cache_invD(8) [OF assms(1)] by (simp add: add.commute)
  qed
  ultimately show ?thesis using s' h by blast
qed

theorem link_item_witness:
  "\<exists>s'. do_item_link 64 7 example_cache = Some s' \<and> assoc_find [102, 111, 111] 3 7 s' = Some 64 \<and>
     it_refcount (heap s' 64) = 2"
proof -
  from link_item [OF example_cache_inv example_linkable, of 64 "[102, 111, 111]"]
  obtain s' where s': "do_item_link 64 7 example_cache = Some s'" "it_refcount (heap s' 64) = 2"
    "\<forall>j. assoc_find j (length j) 7 s' = (if j = [102, 111, 111] then Some 64 else assoc_find j (length j) 7 example_cache)"
    by (auto simp: fresh_item_key)
  from s'(3) [rule_format, of "[102, 111, 111]"] s'(1,2) show ?thesis by (simp add: numeral_3_eq_3)
qed

text \<open>A cache that holds one item.\<close>

lemma example_linked:
  "\<exists>s. cache_inv s [[102, 111, 111] \<mapsto> 64] ((\<lambda>_. [])(1 := [64])) (\<lambda>_. []) \<and> env_same example_cache s \<and>
     it_refcount (heap s 64) = 2 \<and> unat (it_slabs_clsid (heap s 64)) = 1 \<and>
     it_exptime (heap s 64) = 0 \<and> same_contents fresh_item (heap s 160)"
proof -
  from do_item_link_inv [OF example_cache_inv example_linkable, of 64 "[102, 111, 111]" 7]
  obtain s where s: "cache_inv s [[102, 111, 111] \<mapsto> 64] ((\<lambda>_. [])(1 := [64])) (\<lambda>_. [])"
    "env_same example_cache s" "it_refcount (heap s 64) = 2" "do_item_link 64 7 example_cache = Some s"
    by (auto simp: fresh_item_key)
  have "lru_list (heap s) 1 (heads s 1) (tails s 1) (sizes s 1) [64]"
    using cache_invD(2) [OF s(1), unfolded lru_rel_def, rule_format, of 1]
    by (simp add: LARGEST_ID_def POWER_LARGEST_def)
  then have "it_slabs_clsid (heap s 64) = 1" by (simp add: lru_list_def)
  moreover have "it_exptime (heap s 64) = 0" "same_contents fresh_item (heap s 160)"
    using link_contents(1) [OF s(4), of 160] link_contents(2) [OF s(4)] by (simp_all add: fresh_item_key)
  ultimately show ?thesis using s by (intro exI [of _ s]) simp
qed

text \<open>C17: Unlinking a cached item makes exactly its key unknown, takes the item out of its LRU list
  and drops one reference; the item's memory goes to the free list of its class exactly when that
  was the last reference.\<close>

theorem unlink_item:
  assumes "cache_inv s M L F" "M k = Some p" "\<not> cache_lock s"
    and "it_refcount (heap s p) = 1 \<Longrightarrow> \<not> slabs_lock s \<and> Suc (length (F (unat (it_slabs_clsid (heap s p))))) < 2 ^ 32"
  shows "\<exists>s'. do_item_unlink p (hash_fn s k) s = Some s' \<and>
    cache_inv s' (M(k := None))
      (lru_without L (unat (it_slabs_clsid (heap s p))) p) (after_unref (heap s p) p F) \<and>
    (\<forall>j. assoc_find j (length j) (hash_fn s j) s' =
       (if j = k then Some NULL else assoc_find j (length j) (hash_fn s j) s)) \<and>
    (it_refcount (heap s p) \<noteq> 1 \<longrightarrow> it_refcount (heap s' p) = it_refcount (heap s p) - 1 \<and>
       item_key (heap s' p) = k \<and> \<not> is_linked (heap s' p)) \<and> \<not> cache_lock s'"
proof -
  from do_item_unlink_inv [OF assms(1,2) refl assms(3,4)] obtain s' where
    s': "do_item_unlink p (hash_fn s k) s = Some s'"
      "cache_inv s' (M(k := None)) (lru_without L (unat (it_slabs_clsid (heap s p))) p) (after_unref (heap s p) p F)"
      "env_same s s'" and r: "it_refcount (heap s p) \<noteq> 1 \<longrightarrow>
        (\<exists>j. unlinked_from (heap s p) j \<and> heap s' p = j\<lparr>it_refcount := it_refcount j - 1\<rparr>)" by blast
  have h: "hash_fn s' = hash_fn s" "\<not> cache_lock s'" using s'(3) assms(3) by (simp_all add: env_same_def)
  have "assoc_find j (length j) (hash_fn s j) s' =
       (if j = k then Some NULL else assoc_find j (length j) (hash_fn s j) s)" for j
    using hashtab.find_rel [OF cache_invD(1) [OF s'(2)], of j] hashtab.find_rel [OF cache_invD(1) [OF assms(1)], of j]
    by (simp add: h)
  moreover have "it_refcount (heap s' p) = it_refcount (heap s p) - 1 \<and> item_key (heap s' p) = k \<and>
      \<not> is_linked (heap s' p)" if ne: "it_refcount (heap s p) \<noteq> 1"
  proof -
    from r ne obtain j where j: "unlinked_from (heap s p) j" "heap s' p = j\<lparr>it_refcount := it_refcount j - 1\<rparr>"
      by blast
    have "item_key (heap s p) = k" by (rule cached_item(7) [OF assms(1,2)])
    with j unlinked_flags(1) [OF j(1)] show ?thesis
      by (simp add: unlinked_from_def item_key_def is_linked_def)
  qed
  ultimately show ?thesis using s' h by blast
qed

theorem unlink_item_witness:
  "\<exists>(s :: items_state) s'. assoc_find [102, 111, 111] 3 7 s = Some 64 \<and> do_item_unlink 64 7 s = Some s' \<and>
     assoc_find [102, 111, 111] 3 7 s' = Some NULL \<and> it_refcount (heap s' 64) = 1"
proof -
  obtain s where s: "cache_inv s [[102, 111, 111] \<mapsto> 64] ((\<lambda>_. [])(1 := [64])) (\<lambda>_. [])"
    "env_same example_cache s" "it_refcount (heap s 64) = 2" using example_linked by blast
  have e: "hash_fn s = (\<lambda>_. 7)" "\<not> cache_lock s" using s(2) by (simp_all add: env_same_def)
  from unlink_item [OF s(1), of "[102, 111, 111]" 64] s(3) e obtain s' where s': "do_item_unlink 64 7 s = Some s'"
    "\<forall>j. assoc_find j (length j) 7 s' = (if j = [102, 111, 111] then Some NULL else assoc_find j (length j) 7 s)"
    "it_refcount (heap s' 64) = 1" by auto
  from hashtab.find_rel [OF cache_invD(1) [OF s(1)], of "[102, 111, 111]"] s'(2) [rule_format, of "[102, 111, 111]"]
  show ?thesis using s' e by - (rule exI [of _ s], rule exI [of _ s'], simp add: numeral_3_eq_3)
qed


text \<open>C18: Replacing a cached item by another one with the same key makes the lookup of the key
  return the new item and changes no other lookup; the consistency of the cache is kept, with the
  old item out of its LRU list and the new one at the head of its own.\<close>

theorem replace_item:
  assumes "cache_inv s M L F" "M k = Some p" "linkable s L F q" "item_key (heap s q) = k"
    "it_refcount (heap s q) + 1 \<noteq> 0" "q \<noteq> p" "\<not> cache_lock s"
    and "it_refcount (heap s p) = 1 \<Longrightarrow> \<not> slabs_lock s \<and> Suc (length (F (unat (it_slabs_clsid (heap s p))))) < 2 ^ 32"
  shows "\<exists>s' L' F'. do_item_replace p q (hash_fn s k) s = Some s' \<and> cache_inv s' (M(k \<mapsto> q)) L' F' \<and>
    L' (unat (it_slabs_clsid (heap s q))) = q # remove1 p (L (unat (it_slabs_clsid (heap s q)))) \<and>
    (\<forall>c<LARGEST_ID. p \<notin> set (L' c)) \<and>
    (\<forall>j. assoc_find j (length j) (hash_fn s j) s' =
       (if j = k then Some q else assoc_find j (length j) (hash_fn s j) s))"
proof -
  let ?c = "unat (it_slabs_clsid (heap s p))" and ?d = "unat (it_slabs_clsid (heap s q))"
  let ?L' = "(lru_without L ?c p)(?d := q # lru_without L ?c p ?d)"
  from do_item_replace_inv [OF assms(1,2) refl assms(3-8)] obtain s' where
    s': "do_item_replace p q (hash_fn s k) s = Some s'" "cache_inv s' (M(k \<mapsto> q)) ?L' (after_unref (heap s p) p F)"
      "env_same s s'" by blast
  have h: "hash_fn s' = hash_fn s" using s'(3) by (simp add: env_same_def)
  have f: "assoc_find j (length j) (hash_fn s j) s' =
       (if j = k then Some q else assoc_find j (length j) (hash_fn s j) s)" for j
    using hashtab.find_rel [OF cache_invD(1) [OF s'(2)], of j] hashtab.find_rel [OF cache_invD(1) [OF assms(1)], of j]
    by (simp add: h)
  have out: "p \<notin> set (?L' c)" if "c < LARGEST_ID" for c
    using not_in_lists [OF assms(1,2) that] assms(6) by (auto split: if_splits)
  have "p \<notin> set (L ?d)" if "?d \<noteq> ?c"
    using out [of ?d] that assms(3) by (auto simp: linkable_def)
  then have "?L' ?d = q # remove1 p (L ?d)" by (auto simp: remove1_idem)
  with s'(1,2) f out show ?thesis by blast
qed

theorem replace_item_witness:
  "\<exists>(s :: items_state) s'. cache_inv s [[102, 111, 111] \<mapsto> 64] ((\<lambda>_. [])(1 := [64])) (\<lambda>_. []) \<and>
     do_item_replace 64 160 7 s = Some s' \<and> assoc_find [102, 111, 111] 3 7 s' = Some 160"
proof -
  obtain s where s: "cache_inv s [[102, 111, 111] \<mapsto> 64] ((\<lambda>_. [])(1 := [64])) (\<lambda>_. [])"
    "env_same example_cache s" "it_refcount (heap s 64) = 2" "unat (it_slabs_clsid (heap s 64)) = 1"
    "same_contents fresh_item (heap s 160)" using example_linked by blast
  have e: "hash_fn s = (\<lambda>_. 7)" "\<not> cache_lock s" "power_largest s = 3" using s(2) by (simp_all add: env_same_def)
  note c = same_contentsD [OF s(5)] same_contents_facts [OF s(5)]
  have l: "linkable s ((\<lambda>_. [])(1 := [64])) (\<lambda>_. []) 160"
    by (simp add: linkable_def c fresh_item_key classes_def e POWER_SMALLEST_def LARGEST_ID_def POWER_LARGEST_def)
  have kq: "item_key (heap s 160) = [102, 111, 111]" "it_refcount (heap s 160) + 1 \<noteq> 0"
    by (simp_all add: c fresh_item_key)
  from replace_item [OF s(1) _ l kq _ e(2), of 64] s(3) e(1) obtain s' where
    s': "do_item_replace 64 160 7 s = Some s'"
    "\<forall>j. assoc_find j (length j) 7 s' = (if j = [102, 111, 111] then Some 160 else assoc_find j (length j) 7 s)"
    by auto
  from s'(2) [rule_format, of "[102, 111, 111]"] s'(1) s(1)
  show ?thesis by - (rule exI [of _ s], rule exI [of _ s'], simp add: numeral_3_eq_3)
qed

text \<open>C5: A lookup of a key that is not cached returns NULL and changes nothing; of a cached item that
  has expired, or been flushed, or lies in a page that is being moved, returns NULL and unlinks it;
  of any other cached item returns it with one more reference and marked as fetched.\<close>

theorem get_item:
  assumes "cache_inv s M L F" "\<not> cache_lock s"
    and "\<And>p. M k = Some p \<Longrightarrow> it_refcount (heap s p) + 1 \<noteq> 0 \<and>
        (it_refcount (heap s p) = 1 \<longrightarrow> \<not> slabs_lock s \<and>
           Suc (length (F (unat (it_slabs_clsid (heap s p))))) < 2 ^ 32)"
  shows "\<exists>it s'. do_item_get k (length k) (hash_fn s k) s = Some (it, s') \<and>
    (case M k of None \<Rightarrow> it = NULL \<and> s' = s
     | Some p \<Rightarrow>
       if in_moving_page s p \<or> item_dead s (heap s p)
       then it = NULL \<and> assoc_find k (length k) (hash_fn s k) s' = Some NULL \<and>
         cache_inv s' (M(k := None)) (lru_without L (unat (it_slabs_clsid (heap s p))) p) (after_unref (heap s p) p F)
       else it = p \<and> cache_inv s' M L F \<and>
         heap s' = (heap s)(p := (heap s p)\<lparr>it_refcount := it_refcount (heap s p) + 1,
                                           it_flags := it_flags (heap s p) OR ITEM_FETCHED\<rparr>))"
proof -
  have k: "k = take (length k) k" "length k \<le> length k" by simp_all
  from do_item_get_inv [OF assms(1) k refl assms(2,3)] obtain it s' where
    g: "do_item_get k (length k) (hash_fn s k) s = Some (it, s')" "env_same s s'"
    "case M k of None \<Rightarrow> it = NULL \<and> s' = s
      | Some p \<Rightarrow>
        if in_moving_page s p \<or> item_dead s (heap s p)
        then it = NULL \<and> cache_inv s' (M(k := None))
               (lru_without L (unat (it_slabs_clsid (heap s p))) p) (after_unref (heap s p) p F)
        else it = p \<and> cache_inv s' M L F \<and>
             heap s' = (heap s)(p := (heap s p)\<lparr>it_refcount := it_refcount (heap s p) + 1,
                                            it_flags := it_flags (heap s p) OR ITEM_FETCHED\<rparr>)" by blast
  have h: "hash_fn s' = hash_fn s" using g(2) by (simp add: env_same_def)
  have "assoc_find k (length k) (hash_fn s k) s' = Some NULL"
    if "cache_inv s' (M(k := None)) L' F'" for L' F'
    using hashtab.find_rel [OF cache_invD(1) [OF that], of k] by (simp add: h)
  with g(1,3) show ?thesis
    by (intro exI [of _ it] exI [of _ s']) (auto split: option.splits if_splits)
qed

theorem get_item_witness:
  "\<exists>(s :: items_state) s'. do_item_get [102, 111, 111] 3 7 s = Some (64, s') \<and> it_refcount (heap s' 64) = 3"
proof -
  obtain s where s: "cache_inv s [[102, 111, 111] \<mapsto> 64] ((\<lambda>_. [])(1 := [64])) (\<lambda>_. [])"
    "env_same example_cache s" "it_refcount (heap s 64) = 2" "it_exptime (heap s 64) = 0" using example_linked by blast
  have e: "hash_fn s = (\<lambda>_. 7)" "\<not> cache_lock s" "slab_rebalance_signal s = 0" "settings s = settings_init"
    using s(2) by (simp_all add: env_same_def)
  have "\<not> in_moving_page s 64" "\<not> item_dead s (heap s 64)"
    by (simp_all add: in_moving_page_def item_dead_def e s(4) settings_init_def)
  with get_item [OF s(1) e(2), of "[102, 111, 111]"] s(3) obtain s' where
    "do_item_get [102, 111, 111] (length [102, 111, 111 :: u8]) 7 s = Some (64, s')"
    "heap s' = (heap s)(64 := (heap s 64)\<lparr>it_refcount := it_refcount (heap s 64) + 1,
       it_flags := it_flags (heap s 64) OR ITEM_FETCHED\<rparr>)" by (auto simp: e)
  then show ?thesis using s(3)
    by - (rule exI [of _ s], rule exI [of _ s'], simp add: numeral_3_eq_3)
qed

text \<open>C34: \<open>do_item_update\<close> moves an item that has not been touched for \<open>ITEM_UPDATE_INTERVAL\<close> seconds to
  the head of its LRU list and stamps it with the current time, and otherwise changes nothing of
  the lists; the contents of the cache stay the same.\<close>

theorem update_item:
  assumes "cache_inv s M L F" "M k = Some p" "\<not> cache_lock s"
    and "old = (it_time (heap s p) < current_time s - ITEM_UPDATE_INTERVAL)"
    and "c = unat (it_slabs_clsid (heap s p))"
  shows "\<exists>s'. do_item_update p s = Some s' \<and>
    cache_inv s' M (if old then L(c := p # remove1 p (L c)) else L) F \<and>
    it_time (heap s' p) = (if old then current_time s else it_time (heap s p)) \<and>
    (\<forall>j. assoc_find j (length j) (hash_fn s j) s' = assoc_find j (length j) (hash_fn s j) s)"
proof -
  from do_item_update_inv [OF assms(1-3)] obtain s' where
    s': "do_item_update p s = Some s'" "env_same s s'"
     "cache_inv s' M (if old then L(c := p # remove1 p (L c)) else L) F"
     "it_time (heap s' p) = (if old then current_time s else it_time (heap s p))"
    unfolding assms(4,5) by blast
  have h: "hash_fn s' = hash_fn s" using s'(2) by (simp add: env_same_def)
  have "assoc_find j (length j) (hash_fn s j) s' = assoc_find j (length j) (hash_fn s j) s" for j
    using hashtab.find_rel [OF cache_invD(1) [OF s'(3)], of j] hashtab.find_rel [OF cache_invD(1) [OF assms(1)], of j]
    by (simp add: h)
  with s' show ?thesis by blast
qed

theorem update_item_witness:
  "\<exists>(s :: items_state) s'. cache_inv s [[102, 111, 111] \<mapsto> 64] ((\<lambda>_. [])(1 := [64])) (\<lambda>_. []) \<and> do_item_update 64 s = Some s'"
proof -
  obtain s where s: "cache_inv s [[102, 111, 111] \<mapsto> 64] ((\<lambda>_. [])(1 := [64])) (\<lambda>_. [])"
    "env_same example_cache s" using example_linked by blast
  have e: "\<not> cache_lock s" using s(2) by (simp add: env_same_def)
  from update_item [OF s(1) _ e refl refl, of "[102, 111, 111]" 64] s(1) show ?thesis by auto
qed

end
