(* ===== verification/MC_Alloc.thy ===== *)
theory MC_Alloc
  imports MC_Lru
begin

text \<open>
  Allocating an item (\<open>do_item_alloc\<close> of \<open>items.c\<close>): the search from the tail of the LRU list for an
  expired item, the allocation of a chunk, the eviction of an unused item, and what all of them keep
  of the cache: the items that others hold, the contents of all other items, and the invariant.
\<close>

unbundle bit_operations_syntax

section \<open>Changes outside the cache\<close>

lemma assoc_rel_local:
  assumes "assoc_rel s M"
    and same: "\<And>p. p \<in> ran M \<Longrightarrow> it_h_next (heap s' p) = it_h_next (heap s p) \<and>
        item_key (heap s' p) = item_key (heap s p) \<and> key_ok (heap s' p) = key_ok (heap s p)"
    and tab: "hashpower s' = hashpower s" "primary_hashtable s' = primary_hashtable s"
      "old_hashtable s' = old_hashtable s" "hash_items s' = hash_items s"
      "expanding s' = expanding s" "expand_bucket s' = expand_bucket s" "hash_fn s' = hash_fn s"
  shows "assoc_rel s' M"
proof -
  from assms(1) obtain C where r: "assoc_wf s" "finite (dom M)" "hash_items s = of_nat (card (dom M))"
    and t: "tab_ok (heap s) (read_pos s) (active s) (bucket_of s) C M" by (rule assoc_relE)
  have act: "active s' = active s" by (simp add: active_def tab)
  have bk: "bucket_of s' = bucket_of s" by (simp add: fun_eq_iff bucket_of_def assoc_bucket_def tab cong: if_cong)
  have rd: "read_pos s' b = read_pos s b" if "b \<in> active s" for b
    using that by (cases b) (simp_all add: tab active_no_next)
  have m: "p \<in> ran M" if "b \<in> active s" "p \<in> set (C b)" for b p
    using tab_ok_mem [OF t that] by (rule ranI)
  have "tab_ok (heap s') (read_pos s') (active s') (bucket_of s') C M"
    unfolding act bk
  proof (rule tab_okI)
    fix b assume b: "b \<in> active s"
    show "chain (\<lambda>p. it_h_next (heap s' p)) (read_pos s' b) (C b)"
      using tab_okD(1) [OF t b] same m [OF b] unfolding rd [OF b]
      by (subst chain_cong [where g = "\<lambda>p. it_h_next (heap s p)"]) auto
  next
    fix b p assume b: "b \<in> active s" "p \<in> set (C b)"
    then show "key_ok (heap s' p) \<and> bucket_of s (item_key (heap s' p)) = b"
      using tab_okD(2,3) [OF t b] same [OF m [OF b]] by simp
  next
    fix k p
    have "(\<exists>b\<in>active s. p \<in> set (C b) \<and> item_key (heap s' p) = k) \<longleftrightarrow>
          (\<exists>b\<in>active s. p \<in> set (C b) \<and> item_key (heap s p) = k)"
      using same m by (intro bex_cong refl) auto
    then show "M k = Some p \<longleftrightarrow> (\<exists>b\<in>active s. p \<in> set (C b) \<and> item_key (heap s' p) = k)"
      using tab_okD(4) [OF t] by simp
  qed
  then show ?thesis using r by (intro assoc_relI) (simp_all add: assoc_wf_def tab)
qed

text \<open>Steps that leave the nodes of the LRU lists alone.\<close>

lemma cache_inv_local:
  assumes i: "cache_inv s M L F"
    and same: "\<And>d q. d < LARGEST_ID \<Longrightarrow> q \<in> set (L d) \<Longrightarrow> heap s' q = heap s q"
    and free: "freelists s' F'"
    and tab: "hashpower s' = hashpower s" "primary_hashtable s' = primary_hashtable s"
      "old_hashtable s' = old_hashtable s" "hash_items s' = hash_items s"
      "expanding s' = expanding s" "expand_bucket s' = expand_bucket s" "hash_fn s' = hash_fn s"
    and lists: "heads s' = heads s" "tails s' = tails s" "sizes s' = sizes s"
    and rest: "power_largest s' = power_largest s" "stats s' = stats s"
  shows "cache_inv s' M L F'"
proof (rule cache_invI)
  note I = cache_invD [OF i]
  have m: "heap s' p = heap s p" if "p \<in> ran M" for p
    using that same unfolding I(6) lru_items_def by blast
  show "assoc_rel s' M" by (rule assoc_rel_local [OF I(1)]) (simp_all add: m tab)
  show "lru_rel s' L"
    unfolding lru_rel_def lists
  proof (intro allI impI)
    fix c assume c: "c < LARGEST_ID"
    from lru_relD [OF I(2) this] show "lru_list (heap s') c (heads s c) (tails s c) (sizes s c) (L c)"
      by (subst lru_list_cong [where h = "heap s"]) (simp_all add: same [OF c])
  qed
  show "freelists s' F'" by (rule free)
  show "power_largest s' \<le> POWER_LARGEST" "L 0 = []" using I(4,5) rest(1) by simp_all
  have "lru_items s' L = lru_items s L" using same by (auto simp: lru_items_def)
  with I(6) show "ran M = lru_items s' L" by simp
  show "item_ok s' (heap s' p)" if "p \<in> ran M" for p
    using I(7) [OF that] classes_cong [OF rest(1)] by (simp add: item_ok_def m [OF that])
  show "curr_items (stats s') = of_nat (card (dom M))" using I(8) rest by simp
  have "total_bytes (heap s') M = total_bytes (heap s) M" by (rule total_bytes_cong) (simp add: m)
  then show "curr_bytes (stats s') = total_bytes (heap s') M" using I(9) rest by simp
qed

text \<open>A chunk that is in none of the lists.\<close>

definition outside :: "'a slabs_state_scheme \<Rightarrow> (nat \<Rightarrow> ptr list) \<Rightarrow> (nat \<Rightarrow> ptr list) \<Rightarrow> ptr \<Rightarrow> bool" where
  "outside s L F p \<longleftrightarrow> p \<noteq> NULL \<and> (\<forall>d<LARGEST_ID. p \<notin> set (L d)) \<and> (\<forall>d\<in>classes s. p \<notin> set (F d))"

lemma cache_inv_outside:
  assumes i: "cache_inv s M L F" and p: "outside s L F p"
  shows "cache_inv (upd_item p f s) M L F"
proof (rule cache_inv_local [OF i])
  show "heap (upd_item p f s) q = heap s q" if "d < LARGEST_ID" "q \<in> set (L d)" for d q
    using that p by (auto simp: outside_def)
  show "freelists (upd_item p f s) F"
    by (rule freelists_frame [OF cache_invD(3) [OF i]]) (use p in \<open>auto simp: outside_def\<close>)
qed simp_all

section \<open>Taking a chunk from the allocator\<close>

lemma newslab_heap:
  assumes f: "freelists s F" and c: "c \<in> classes s" and mb: "mem_base s = NULL" and e: "F c = []"
    and fresh: "malloc_page env = NULL \<or> page_fresh s F (malloc_page env) (unat (page_len c s))"
    and fit: "chunks_fit s c (unat (page_len c s))"
    and run: "do_slabs_newslab env c s = Some (b, s')"
  shows "\<exists>h cl m. s' = s\<lparr>heap := h, slabclass := cl, mem_malloced := m\<rparr> \<and>
     (\<forall>q. (malloc_page env = NULL \<or> q < malloc_page env \<or> malloc_page env + unat (page_len c s) \<le> q) \<longrightarrow>
        (\<forall>d\<in>classes s. q \<notin> set (F d)) \<longrightarrow> h q = heap s q)"
proof -
  let ?p = "malloc_page env" and ?len = "page_len c s"
  obtain g s1 where g: "grow_slab_list (realloc_ok env) c s = (g, s1)" by force
  obtain n where s1: "s1 = upd_class c (\<lambda>p. p\<lparr>sc_list_size := n\<rparr>) s"
    using grow_slab_list_frame [OF g] by blast
  have s1': "s1 = s\<lparr>heap := heap s, slabclass := slabclass s1, mem_malloced := mem_malloced s\<rparr>"
    by (simp add: s1 upd_class_def)
  have m: "memory_allocate ?p ?len s1 = (?p, s1)" using mb by (simp add: memory_allocate_def s1)
  have triv: ?thesis if e: "s' = s \<or> s' = s1"
  proof -
    have "s' = s\<lparr>heap := heap s, slabclass := slabclass s', mem_malloced := mem_malloced s\<rparr>"
      using e s1' by auto
    then show ?thesis by blast
  qed
  show ?thesis
  proof (cases "s' = s \<or> s' = s1")
    case True then show ?thesis by (rule triv)
  next
    case False
    with run have p: "?p \<noteq> NULL" and "do_slabs_newslab env c s = Some (b, s')"
      by (auto simp: do_slabs_newslab_def Let_def g m split: if_splits bool.splits)
    from this(2) False g m obtain s3 where s3: "split_slab_page_into_freelist ?p c (zero_mem ?p (unat ?len) s1) = Some s3"
      "s' = (upd_class c (\<lambda>c. c\<lparr>sc_slab_list := (sc_slab_list c)(unat (sc_slabs c) := ?p),
                        sc_slabs := sc_slabs c + 1\<rparr>) s3)\<lparr>mem_malloced := mem_malloced s3 + ?len\<rparr>"
      by (auto simp: do_slabs_newslab_def Let_def split: if_splits bool.splits option.splits Option.bind_splits)
    let ?z = "zero_mem ?p (unat ?len) s1"
    have f1: "freelists s1 F" by (rule freelists_frame [OF f]) (auto simp: s1)
    have cl1: "classes s1 = classes s" by (simp add: s1 classes_def)
    have pf: "page_fresh s1 F ?p (unat ?len)" using fresh p by (simp add: page_fresh_def cl1)
    have fz: "freelists ?z F" by (rule freelists_zero_mem [OF f1 pf])
    have sz: "sc_size (slabclass ?z c) = sc_size (slabclass s c)"
      "sc_perslab (slabclass ?z c) = sc_perslab (slabclass s c)" "classes ?z = classes s"
      by (simp_all add: cl1) (simp_all add: s1)
    have "page_fresh ?z F ?p (unat ?len)" "chunks_fit ?z c (unat ?len)"
      "\<forall>q. ?p \<le> q \<and> q < ?p + unat ?len \<longrightarrow> it_slabs_clsid (heap ?z q) = 0"
      "unat (sc_perslab (slabclass ?z c)) + length (F c) < 2 ^ 32" "c \<in> classes ?z"
      using pf fit c e sz unsigned_less [of "sc_perslab (slabclass s c)"]
      by (simp_all add: page_fresh_def chunks_fit_def zero_item_def cl1)
    from split_page_freelists [OF fz this(5,1,2,3,4)] s3(1) obtain h sl where h:
      "s3 = ?z\<lparr>heap := h, slabclass := (slabclass ?z)(c := (slabclass ?z c)\<lparr>sc_slots := sl,
         sc_sl_curr := of_nat (unat (sc_perslab (slabclass ?z c)) + length (F c))\<rparr>)\<rparr>"
      "\<forall>q. q < ?p \<or> ?p + unat ?len \<le> q \<longrightarrow> (\<forall>d\<in>classes ?z. q \<notin> set (F d)) \<longrightarrow> h q = heap ?z q" by auto
    have "s' = s\<lparr>heap := h, slabclass := slabclass s', mem_malloced := mem_malloced s'\<rparr>"
      by (simp add: s3(2) h(1) zero_mem_def upd_class_def s1)
    moreover have "h q = heap s q" if "q < ?p \<or> ?p + unat ?len \<le> q" "\<forall>d\<in>classes s. q \<notin> set (F d)" for q
      using h(2) [rule_format, OF that(1)] that sz(3) by (auto simp: s1)
    ultimately show ?thesis using p
      by (intro exI [of _ h] exI [of _ "slabclass s'"] exI [of _ "mem_malloced s'"]) auto
  qed
qed

text \<open>The addresses \<open>Q\<close> in use: the new page lies apart from them, and none is free.\<close>

definition room_apart ::
  "alloc_env \<Rightarrow> nat \<Rightarrow> ptr set \<Rightarrow> (nat \<Rightarrow> ptr list) \<Rightarrow> 'a slabs_state_scheme \<Rightarrow> bool" where
  "room_apart env c Q F s \<longleftrightarrow>
     (malloc_page env = NULL \<or>
       page_fresh s F (malloc_page env) (unat (page_len c s)) \<and>
       (\<forall>q\<in>Q. q < malloc_page env \<or> malloc_page env + unat (page_len c s) \<le> q)) \<and>
     (\<forall>q\<in>Q. \<forall>d\<in>classes s. q \<notin> set (F d))"

lemma slabs_alloc_frame:
  assumes f: "freelists s F" and c: "c \<in> classes s" and nl: "\<not> slabs_lock s" and mb: "mem_base s = NULL"
    and fit: "chunks_fit s c (unat (page_len c s))" "0 < sc_perslab (slabclass s c)"
    and Q: "room_apart env c Q F s"
  shows "\<exists>p s' F' h cl m. slabs_alloc env sz c s = Some (p, s') \<and> freelists s' F' \<and>
     s' = s\<lparr>heap := h, slabclass := cl, mem_malloced := m\<rparr> \<and> (\<forall>q\<in>Q. h q = heap s q) \<and>
     (\<forall>q\<in>Q. \<forall>d\<in>classes s. q \<notin> set (F' d)) \<and>
     (p \<noteq> NULL \<longrightarrow> it_slabs_clsid (h p) = 0 \<and> p \<notin> Q \<and> (\<forall>d\<in>classes s. p \<notin> set (F' d)))"
proof -
  let ?s1 = "s\<lparr>slabs_lock := True\<rparr>"
  have f1: "freelists ?s1 F" by (rule freelists_frame [OF f]) auto
  have c1: "classes ?s1 = classes s" "page_len c ?s1 = page_len c s" by (simp_all add: classes_def page_len_def)
  have take: "\<exists>p s' F' h cl. do_slabs_alloc env sz c t = Some (p, s') \<and> freelists s' F' \<and>
     s' = t\<lparr>heap := h, slabclass := cl\<rparr> \<and> (\<forall>q\<in>Q. h q = heap t q) \<and>
     (\<forall>q\<in>Q. \<forall>d\<in>classes s. q \<notin> set (F' d)) \<and>
     it_slabs_clsid (h p) = 0 \<and> p \<in> set (G c) \<and> (\<forall>d\<in>classes s. p \<notin> set (F' d))"
    if ft: "freelists t G" and Gc: "G c = p # ps" and ct: "classes t = classes s"
      and QG: "\<And>q d. q \<in> Q \<Longrightarrow> d \<in> classes s \<Longrightarrow> q \<notin> set (G d)" for t G p ps
  proof -
    have cc: "c \<in> classes t" using c ct by simp
    from do_slabs_alloc_freelists [OF ft cc Gc, of env sz] obtain s' h cl where
      s': "do_slabs_alloc env sz c t = Some (p, s')" "freelists s' (G(c := ps))"
        "s' = t\<lparr>heap := h, slabclass := cl\<rparr>" "h p = heap t p"
        "\<forall>q. (\<forall>d\<in>classes t. q \<notin> set (G d)) \<longrightarrow> h q = heap t q" by blast
    have fr: "freelist (heap t) (slabclass t c) (p # ps)" using freelistsD(1) [OF ft cc] Gc by simp
    then have cf: "chunk_free (heap t p)" by (simp add: freelist_def)
    have ni: "p \<notin> set ((G(c := ps)) d)" if "d \<in> classes s" for d
      using freelist_distinct [OF fr] freelistsD(2) [OF ft cc, of d] that ct Gc by auto
    have nq: "q \<notin> set ((G(c := ps)) d)" if "q \<in> Q" "d \<in> classes s" for q d
      using QG [OF that] Gc by auto
    have hq: "h q = heap t q" if "q \<in> Q" for q using s'(5) QG [OF that] ct by simp
    have "it_slabs_clsid (h p) = 0" "p \<in> set (G c)" using s'(4) cf Gc by (simp_all add: chunk_free_def)
    then show ?thesis using s'(1,2,3) ni nq hq by blast
  qed
  have rel: "slabs_lock_release (?s1\<lparr>heap := h, slabclass := cl, mem_malloced := m\<rparr>) =
      s\<lparr>heap := h, slabclass := cl, mem_malloced := m\<rparr>" for h cl m
    using nl by (cases s) (simp add: slabs_lock_release_def)
  have fin: ?thesis if al: "do_slabs_alloc env sz c ?s1 = Some (p, s2)" "freelists s2 F'"
      "s2 = ?s1\<lparr>heap := h, slabclass := cl, mem_malloced := m\<rparr>" "\<forall>q\<in>Q. h q = heap s q"
      "\<forall>q\<in>Q. \<forall>d\<in>classes s. q \<notin> set (F' d)"
      "p \<noteq> NULL \<longrightarrow> it_slabs_clsid (h p) = 0 \<and> p \<notin> Q \<and> (\<forall>d\<in>classes s. p \<notin> set (F' d))" for p s2 F' h cl m
  proof -
    let ?r = "s\<lparr>heap := h, slabclass := cl, mem_malloced := m\<rparr>"
    have "slabs_alloc env sz c s = Some (p, ?r)"
      using nl al(1) rel by (simp add: slabs_alloc_def lock_simps al(3))
    moreover have "freelists ?r F'" using al(2) by (rule freelists_frame) (simp_all add: al(3))
    ultimately show ?thesis using al(4,5,6) by blast
  qed
  have QF: "q \<notin> set (F d)" if "q \<in> Q" "d \<in> classes s" for q d using Q that unfolding room_apart_def by blast
  show ?thesis
  proof (cases "F c")
    case (Cons p ps)
    from take [OF f1 Cons c1(1) QF] obtain p' s' F' h cl where a: "do_slabs_alloc env sz c ?s1 = Some (p', s')"
      "freelists s' F'" "s' = ?s1\<lparr>heap := h, slabclass := cl\<rparr>" "\<forall>q\<in>Q. h q = heap ?s1 q"
      "\<forall>q\<in>Q. \<forall>d\<in>classes s. q \<notin> set (F' d)" "it_slabs_clsid (h p') = 0" "p' \<in> set (F c)" "\<forall>d\<in>classes s. p' \<notin> set (F' d)" by blast
    have e: "s' = ?s1\<lparr>heap := h, slabclass := cl, mem_malloced := mem_malloced s\<rparr>" by (simp add: a(3))
    show ?thesis by (rule fin [OF a(1,2) e]) (use a QF c in auto)
  next
    case Nil
    let ?pg = "malloc_page env" and ?len = "unat (page_len c s)"
    have fresh: "?pg = NULL \<or> page_fresh ?s1 F ?pg (unat (page_len c ?s1))"
      using Q by (auto simp: room_apart_def page_fresh_def c1)
    have fit1: "chunks_fit ?s1 c (unat (page_len c ?s1))" using fit(1) by (simp add: chunks_fit_def c1)
    have cs1: "c \<in> classes ?s1" and mb1: "mem_base ?s1 = NULL" using c c1 mb by simp_all
    note nh = newslab_heap [OF f1 cs1 mb1 Nil fresh fit1]
    have out: "?pg = NULL \<or> q < ?pg \<or> ?pg + unat (page_len c ?s1) \<le> q" if "q \<in> Q" for q
      using Q that by (auto simp: room_apart_def c1)
    show ?thesis
    proof (rule newslab_cases [OF f1 cs1 mb1 Nil fresh fit1])
      fix s2 assume s2: "do_slabs_newslab env c ?s1 = Some (False, s2)" "freelists s2 F"
      from nh [OF s2(1)] obtain h cl m where h: "s2 = ?s1\<lparr>heap := h, slabclass := cl, mem_malloced := m\<rparr>"
        "\<forall>q. (?pg = NULL \<or> q < ?pg \<or> ?pg + unat (page_len c ?s1) \<le> q) \<longrightarrow>
          (\<forall>d\<in>classes ?s1. q \<notin> set (F d)) \<longrightarrow> h q = heap ?s1 q" by blast
      have "h q = heap s q" if q: "q \<in> Q" for q using h(2) [rule_format, of q] out [OF q] QF [OF q] by (simp add: c1)
      then show ?thesis
        using QF by (intro fin [OF do_slabs_alloc_fails [OF f1 cs1 Nil s2(1)] s2(2) h(1)]) simp_all
    next
      fix s2 assume s2: "do_slabs_newslab env c ?s1 = Some (True, s2)" "?pg \<noteq> NULL"
        "freelists s2 (F(c := rev (page_chunks ?s1 c ?pg)))"
      let ?G = "F(c := rev (page_chunks ?s1 c ?pg))"
      from nh [OF s2(1)] obtain h cl m where h: "s2 = ?s1\<lparr>heap := h, slabclass := cl, mem_malloced := m\<rparr>"
        "\<forall>q. (?pg = NULL \<or> q < ?pg \<or> ?pg + unat (page_len c ?s1) \<le> q) \<longrightarrow>
          (\<forall>d\<in>classes ?s1. q \<notin> set (F d)) \<longrightarrow> h q = heap ?s1 q" by blast
      have hQ: "h q = heap s q" if q: "q \<in> Q" for q using h(2) [rule_format, of q] out [OF q] QF [OF q] by (simp add: c1)
      have cl2: "classes s2 = classes ?s1" by (simp add: h(1) classes_def)
      have inpg: "?pg \<le> q \<and> q < ?pg + ?len" if "q \<in> set (?G c)" for q
      proof -
        have "unat (sc_perslab (slabclass s c)) * unat (sc_size (slabclass s c)) \<le> ?len" "0 < unat (sc_size (slabclass s c))"
          using fit(1) by (simp_all add: chunks_fit_def word_less_nat_alt)
        moreover have "q \<in> set (chunks ?pg (unat (sc_size (slabclass s c))) (unat (sc_perslab (slabclass s c))))"
          using that by simp
        ultimately show ?thesis using chunks_bounds by fastforce
      qed
      have "unat (sc_perslab (slabclass s c)) \<noteq> 0" using fit(2) by (simp add: word_less_nat_alt)
      then have "length (?G c) \<noteq> 0" by simp
      then have "?G c \<noteq> []" by (metis list.size(3))
      then obtain p ps where Gc: "?G c = p # ps" by (meson neq_Nil_conv)
      have QG: "q \<notin> set (?G d)" if "q \<in> Q" "d \<in> classes s" for q d
      proof (cases "d = c")
        case True
        show ?thesis
        proof
          assume "q \<in> set (?G d)"
          with inpg True have "?pg \<le> q \<and> q < ?pg + ?len" by blast
          with out [OF that(1)] s2(2) show False by (auto simp: c1)
        qed
      qed (use QF that in simp)
      from take [OF s2(3) Gc _ QG] cl2 obtain p' s' F' h' cl' where a: "do_slabs_alloc env sz c s2 = Some (p', s')"
        "freelists s' F'" "s' = s2\<lparr>heap := h', slabclass := cl'\<rparr>" "\<forall>q\<in>Q. h' q = heap s2 q"
        "\<forall>q\<in>Q. \<forall>d\<in>classes s. q \<notin> set (F' d)" "it_slabs_clsid (h' p') = 0" "p' \<in> set (?G c)" "\<forall>d\<in>classes s. p' \<notin> set (F' d)"
        unfolding c1 by blast
      have run: "do_slabs_alloc env sz c ?s1 = Some (p', s')"
        using do_slabs_alloc_newslab [OF f1 cs1 Nil s2(1,3) cl2 Gc, of sz] a(1) by simp
      have "p' \<notin> Q" using QG [OF _ c, of p'] a(7) by blast
      moreover have e: "s' = ?s1\<lparr>heap := h', slabclass := cl', mem_malloced := m\<rparr>" by (simp add: a(3) h(1))
      moreover have "\<forall>q\<in>Q. h' q = heap s q" using hQ a(4) by (simp add: h(1))
      ultimately show ?thesis using a(5,6,8) by (intro fin [OF run a(2) e]) simp_all
    qed
  qed
qed

section \<open>Parts of the state the invariant does not look at\<close>

lemma cache_inv_cong:
  assumes "heap s' = heap s" "hashpower s' = hashpower s" "primary_hashtable s' = primary_hashtable s"
      "old_hashtable s' = old_hashtable s" "hash_items s' = hash_items s"
      "expanding s' = expanding s" "expand_bucket s' = expand_bucket s" "hash_fn s' = hash_fn s"
      "heads s' = heads s" "tails s' = tails s" "sizes s' = sizes s" "power_largest s' = power_largest s"
      "stats s' = stats s" "\<And>c. sc_slots (slabclass s' c) = sc_slots (slabclass s c) \<and>
            sc_sl_curr (slabclass s' c) = sc_sl_curr (slabclass s c)"
  shows "cache_inv s' M L F = cache_inv s M L F"
proof
  assume i: "cache_inv s' M L F"
  show "cache_inv s M L F"
    by (rule cache_inv_frame [OF i]) (use cache_invD(7) [OF i] in \<open>simp_all add: assms item_ok_def\<close>)
next
  assume i: "cache_inv s M L F"
  show "cache_inv s' M L F"
    by (rule cache_inv_frame [OF i]) (use cache_invD(7) [OF i] in \<open>simp_all add: assms item_ok_def\<close>)
qed

lemma cache_inv_simps [simp]:
  "cache_inv (s\<lparr>item_locks := a\<rparr>) M L F = cache_inv s M L F"
  "cache_inv (s\<lparr>item_global_lock := a1\<rparr>) M L F = cache_inv s M L F"
  "cache_inv (s\<lparr>slabs_lock := b\<rparr>) M L F = cache_inv s M L F"
  "cache_inv (s\<lparr>slabs_rebalance_lock := b\<rparr>) M L F = cache_inv s M L F"
  "cache_inv (s\<lparr>slab_rebal := r\<rparr>) M L F = cache_inv s M L F"
  "cache_inv (s\<lparr>slab_rebalance_signal := n\<rparr>) M L F = cache_inv s M L F"
  "cache_inv (s\<lparr>pick_any_cur := m\<rparr>) M L F = cache_inv s M L F"
  "cache_inv (s\<lparr>itemstats := t\<rparr>) M L F = cache_inv s M L F"
  "cache_inv (s\<lparr>cas_id := i\<rparr>) M L F = cache_inv s M L F"
  "cache_inv (s\<lparr>settings := e\<rparr>) M L F = cache_inv s M L F"
  by (rule cache_inv_cong; simp)+

lemma cache_inv_upd_itemstats [simp]: "cache_inv (upd_itemstats c f s) M L F = cache_inv s M L F"
  by (simp add: upd_itemstats_def)

text \<open>What an allocation leaves alone.\<close>

definition alloc_same :: "'a items_state_scheme \<Rightarrow> 'a items_state_scheme \<Rightarrow> bool" where
  "alloc_same s s' \<longleftrightarrow> settings s' = settings s \<and> current_time s' = current_time s \<and>
     hash_fn s' = hash_fn s \<and> cache_lock s' = cache_lock s \<and> slabs_lock s' = slabs_lock s \<and>
     slabs_rebalance_lock s' = slabs_rebalance_lock s \<and> item_locks s' = item_locks s \<and>
     item_lock_hashpower s' = item_lock_hashpower s \<and> power_largest s' = power_largest s \<and>
     item_lock_type s' = item_lock_type s \<and> item_global_lock s' = item_global_lock s \<and>
     items_state.more s' = items_state.more s"

lemma alloc_same_refl [simp]: "alloc_same s s"
  by (simp add: alloc_same_def)

lemma alloc_same_trans: "alloc_same s s' \<Longrightarrow> alloc_same s' s'' \<Longrightarrow> alloc_same s s''"
  by (simp add: alloc_same_def)

lemma env_same_alloc: "env_same s s' \<Longrightarrow> alloc_same s s'"
  by (simp add: alloc_same_def env_same_def)

text \<open>Items that differ in their links and in the time of their last use only.\<close>

definition kept :: "item \<Rightarrow> item \<Rightarrow> bool" where
  "kept i j \<longleftrightarrow> j\<lparr>it_next := NULL, it_prev := NULL, it_h_next := NULL, it_time := 0\<rparr> =
                i\<lparr>it_next := NULL, it_prev := NULL, it_h_next := NULL, it_time := 0\<rparr>"

lemma kept_refl [simp]: "kept i i"
  by (simp add: kept_def)

lemma kept_trans: "kept i j \<Longrightarrow> kept j l \<Longrightarrow> kept i l"
  by (simp add: kept_def)

lemma kept_contents: "same_contents i j \<Longrightarrow> kept i j"
  unfolding same_contents_def kept_def by (drule arg_cong [where f = "\<lambda>i. i\<lparr>it_time := 0\<rparr>"]) simp

lemma keptD:
  assumes "kept i j"
  shows "it_exptime j = it_exptime i" "it_nbytes j = it_nbytes i"
    "it_refcount j = it_refcount i" "it_nsuffix j = it_nsuffix i" "it_flags j = it_flags i"
    "it_slabs_clsid j = it_slabs_clsid i" "it_nkey j = it_nkey i" "it_cas j = it_cas i"
    "it_key j = it_key i" "it_suffix j = it_suffix i" "it_data j = it_data i"
proof -
  note e = assms [unfolded kept_def]
  show "it_exptime j = it_exptime i" "it_nbytes j = it_nbytes i"
    "it_refcount j = it_refcount i" "it_nsuffix j = it_nsuffix i" "it_flags j = it_flags i"
    "it_slabs_clsid j = it_slabs_clsid i" "it_nkey j = it_nkey i" "it_cas j = it_cas i"
    "it_key j = it_key i" "it_suffix j = it_suffix i" "it_data j = it_data i"
    using arg_cong [OF e, of it_exptime] arg_cong [OF e, of it_nbytes]
      arg_cong [OF e, of it_refcount] arg_cong [OF e, of it_nsuffix] arg_cong [OF e, of it_flags]
      arg_cong [OF e, of it_slabs_clsid] arg_cong [OF e, of it_nkey] arg_cong [OF e, of it_cas]
      arg_cong [OF e, of it_key] arg_cong [OF e, of it_suffix] arg_cong [OF e, of it_data]
    by simp_all
qed

lemma kept_facts:
  assumes "kept i j"
  shows "item_key j = item_key i" "key_ok j = key_ok i" "is_item j = is_item i" "is_linked j = is_linked i"
    "is_slabbed j = is_slabbed i" "is_crawler j = is_crawler i"
  using keptD [OF assms] by (simp_all add: item_key_def key_ok_def is_item_def flag_bits is_crawler_def)

section \<open>Moving an item to the front\<close>

lemma item_bump_kept:
  assumes "item_bump p s = Some s'"
  shows "kept (heap s q) (heap s' q)" "slabclass s' = slabclass s" "mem_base s' = mem_base s"
    "it_refcount (heap s' q) = it_refcount (heap s q)"
proof -
  have "kept (heap s q) (heap s' q) \<and> slabclass s' = slabclass s \<and> mem_base s' = mem_base s"
  proof (cases "is_linked (heap s p)")
    case True
    with assms obtain s1 where s1: "item_unlink_q p s = Some s1"
      "item_link_q p (upd_item p (\<lambda>i. i\<lparr>it_time := current_time s1\<rparr>) s1) = Some s'"
      by (auto simp: item_bump_def is_linked_def split: Option.bind_splits if_splits)
    let ?s2 = "upd_item p (\<lambda>i. i\<lparr>it_time := current_time s1\<rparr>) s1"
    have "kept (heap s q) (heap s1 q)"
      by (rule kept_contents) (rule links_only_contents [OF item_unlink_q_links [OF s1(1)]])
    moreover have "kept (heap s1 q) (heap ?s2 q)" by (simp add: kept_def)
    moreover have "kept (heap ?s2 q) (heap s' q)"
      by (rule kept_contents) (rule links_only_contents [OF item_link_q_links [OF s1(2)]])
    moreover have "slabclass s1 = slabclass s" "mem_base s1 = mem_base s"
      using s1(1) by (auto simp: item_unlink_q_def unlink_from_list_def Let_def upd_item_if_def
          split: Option.bind_splits if_splits)
    moreover have "slabclass s' = slabclass s1" "mem_base s' = mem_base s1"
      using s1(2) by (auto simp: item_link_q_def Let_def upd_item_if_def split: Option.bind_splits if_splits)
    ultimately show ?thesis using kept_trans by metis
  qed (use assms in \<open>simp add: item_bump_def is_linked_def split: if_splits\<close>)
  then show "kept (heap s q) (heap s' q)" "slabclass s' = slabclass s" "mem_base s' = mem_base s"
    "it_refcount (heap s' q) = it_refcount (heap s q)" using keptD(3) by blast+
qed

lemma update_nolock_inv:
  assumes i: "cache_inv s M L F" and k: "M k = Some p"
  defines "d \<equiv> unat (it_slabs_clsid (heap s p))"
  shows "\<exists>s' L'. do_item_update_nolock p s = Some s' \<and> cache_inv s' M L' F \<and> env_same s s' \<and>
     slabclass s' = slabclass s \<and> mem_base s' = mem_base s \<and>
     (L' = L \<or> L' = L(d := p # remove1 p (L d))) \<and> (\<forall>q. kept (heap s q) (heap s' q))"
proof (cases "it_time (heap s p) < current_time s - ITEM_UPDATE_INTERVAL")
  case False
  then show ?thesis using i by (intro exI [of _ s] exI [of _ L]) (simp add: do_item_update_nolock_def)
next
  case True
  from cache_inv_relink [OF i k] obtain s' where s': "item_bump p s = Some s'"
    "cache_inv s' M (L(d := p # remove1 p (L d))) F" "env_same s s'" unfolding d_def by blast
  have "do_item_update_nolock p s = Some s'"
    using True s'(1) cached_item(10) [OF i k]
    by (simp add: do_item_update_nolock_def is_slabbed_def c_assert_True_bind)
  then show ?thesis using s' item_bump_kept [OF s'(1)] by blast
qed

section \<open>Reusing an item's memory\<close>

lemma reuse_item_inv:
  assumes i: "cache_inv s M L F" and k: "M k = Some p" and hv: "hv = hash_fn s k"
    and rc: "it_refcount (heap s p) \<noteq> 1" and nl: "\<not> slabs_lock s"
  defines "d \<equiv> unat (it_slabs_clsid (heap s p))"
  shows "\<exists>s'. reuse_item p hv n s = Some s' \<and> cache_inv s' (M(k := None)) (lru_without L d p) F \<and>
     env_same s s' \<and> outside s' (lru_without L d p) F p \<and> it_slabs_clsid (heap s' p) = 0 \<and>
     (\<forall>q. q \<noteq> p \<longrightarrow> kept (heap s q) (heap s' q))"
proof -
  note P = cached_item [OF i k, folded d_def]
  have dc: "\<not> d < POWER_SMALLEST" "\<not> power_largest s < d" using P(3) by (simp_all add: classes_def)
  define s1 where "s1 = upd_class d (\<lambda>c. c\<lparr>sc_requested := sc_requested c - ITEM_ntotal (heap s p) + n\<rparr>) s"
  have a: "slabs_adjust_mem_requested d (ITEM_ntotal (heap s p)) n s = Some s1"
    using nl dc by (cases s) (simp add: slabs_adjust_mem_requested_def lock_simps slabs_lock_release_def s1_def upd_class_def)
  have i1: "cache_inv s1 M L F"
    using i by (subst cache_inv_cong [where s = s]) (simp_all add: s1_def upd_class_def)
  have h1: "heap s1 = heap s" "hash_fn s1 = hash_fn s" "slabs_lock s1 = slabs_lock s" "env_same s s1"
    by (simp_all add: s1_def env_same_def upd_class_def)
  have "\<exists>s'. do_item_unlink_nolock p hv s1 = Some s' \<and>
     cache_inv s' (M(k := None)) (lru_without L (unat (it_slabs_clsid (heap s1 p))) p) (after_unref (heap s1 p) p F) \<and>
     env_same s1 s' \<and> (it_refcount (heap s1 p) \<noteq> 1 \<longrightarrow>
        (\<exists>j. unlinked_from (heap s1 p) j \<and> heap s' p = j\<lparr>it_refcount := it_refcount j - 1\<rparr>))"
    by (rule do_item_unlink_nolock_inv [OF i1 k]) (use rc hv h1 in simp_all)
  then obtain s2 where s2: "do_item_unlink_nolock p hv s1 = Some s2"
    "cache_inv s2 (M(k := None)) (lru_without L d p) F" "env_same s1 s2"
    using rc by (auto simp: h1 d_def after_unref_def)
  have cl: "classes s2 = classes s" using s2(3) h1(4) by (intro classes_cong) (simp add: env_same_def)
  have o: "outside s2 (lru_without L d p) F p"
    unfolding outside_def cl using P(6) not_in_lists [OF i k, folded d_def] lru_not_free [OF i P(2,4)] by blast
  let ?s3 = "upd_item p (\<lambda>i. i\<lparr>it_slabs_clsid := 0\<rparr>) s2"
  have "reuse_item p hv n s = Some ?s3"
    using a s2(1) by (simp add: reuse_item_def d_def)
  moreover have "cache_inv ?s3 (M(k := None)) (lru_without L d p) F"
    by (rule cache_inv_outside [OF s2(2) o])
  moreover have "env_same s ?s3"
    using h1(4) s2(3) by (simp add: env_same_def)
  moreover have "outside ?s3 (lru_without L d p) F p" using o by (simp add: outside_def)
  moreover have "kept (heap s q) (heap ?s3 q)" if "q \<noteq> p" for q
    using kept_contents [OF unlink_nolock_contents [OF s2(1) that]] that by (simp add: h1)
  ultimately show ?thesis by (intro exI [of _ ?s3]) simp
qed

section \<open>The search from the tail\<close>

lemma slabs_alloc_cache:
  assumes i: "cache_inv s M L F" and c: "c \<in> classes s" and nl: "\<not> slabs_lock s" and mb: "mem_base s = NULL"
    and fit: "chunks_fit s c (unat (page_len c s))" "0 < sc_perslab (slabclass s c)"
    and Q: "room_apart env c Q F s" "\<And>d. d < LARGEST_ID \<Longrightarrow> set (L d) \<subseteq> Q"
  shows "\<exists>p s' F'. slabs_alloc env n c s = Some (p, s') \<and> cache_inv s' M L F' \<and> env_same s s' \<and>
     (\<forall>q\<in>Q. heap s' q = heap s q) \<and> (\<forall>q\<in>Q. \<forall>d\<in>classes s. q \<notin> set (F' d)) \<and>
     (p \<noteq> NULL \<longrightarrow> it_slabs_clsid (heap s' p) = 0 \<and> p \<notin> Q \<and> outside s' L F' p)"
proof -
  from slabs_alloc_frame [OF cache_invD(3) [OF i] c nl mb fit Q(1), of n] obtain p s' F' h cl m where
    a: "slabs_alloc env n c s = Some (p, s')" "freelists s' F'"
     "s' = s\<lparr>heap := h, slabclass := cl, mem_malloced := m\<rparr>" "\<forall>q\<in>Q. h q = heap s q"
     "\<forall>q\<in>Q. \<forall>d\<in>classes s. q \<notin> set (F' d)"
     "p \<noteq> NULL \<longrightarrow> it_slabs_clsid (h p) = 0 \<and> p \<notin> Q \<and> (\<forall>d\<in>classes s. p \<notin> set (F' d))" by blast
  have "cache_inv s' M L F'"
  proof (rule cache_inv_local [OF i _ a(2)])
    show "heap s' q = heap s q" if "d < LARGEST_ID" "q \<in> set (L d)" for d q
      using that Q(2) [OF that(1)] a(4) by (auto simp: a(3))
  qed (simp_all add: a(3))
  moreover have "env_same s s'" by (simp add: a(3) env_same_def)
  moreover have "classes s' = classes s" by (simp add: a(3) classes_def)
  moreover have "outside s' L F' p" if "p \<noteq> NULL"
    using a(6) that Q(2) unfolding outside_def \<open>classes s' = classes s\<close> by blast
  moreover have "heap s' = h" by (simp add: a(3))
  ultimately show ?thesis using a(1,4,5,6) by blast
qed

definition alloc_pre ::
  "alloc_env \<Rightarrow> nat \<Rightarrow> ptr set \<Rightarrow> ptr set \<Rightarrow> 'a items_state_scheme \<Rightarrow> (bytes \<rightharpoonup> ptr) \<Rightarrow> (nat \<Rightarrow> ptr list) \<Rightarrow> (nat \<Rightarrow> ptr list) \<Rightarrow> bool"
  where
  "alloc_pre env c X Q s M L F \<longleftrightarrow> cache_inv s M L F \<and> NULL \<notin> Q \<and> c \<in> classes s \<and> c < LARGEST_ID \<and> \<not> slabs_lock s \<and>
     mem_base s = NULL \<and> chunks_fit s c (unat (page_len c s)) \<and> 0 < sc_perslab (slabclass s c) \<and>
     room_apart env c Q F s \<and> (\<forall>d<LARGEST_ID. set (L d) \<subseteq> Q) \<and> tail_repair_time (settings s) = 0 \<and>
     (\<forall>q\<in>set (L c). q \<notin> ran M \<longrightarrow> is_crawler (heap s q)) \<and> (\<forall>p\<in>ran M. it_refcount (heap s p) + 1 \<noteq> 0) \<and>
     (\<forall>q\<in>X. it_refcount (heap s q) \<noteq> 1)"

lemma alloc_preD:
  assumes "alloc_pre env c X Q s M L F"
  shows "cache_inv s M L F" "c \<in> classes s" "c < LARGEST_ID" "\<not> slabs_lock s"
     "mem_base s = NULL" "chunks_fit s c (unat (page_len c s))" "0 < sc_perslab (slabclass s c)"
     "room_apart env c Q F s" "\<And>d. d < LARGEST_ID \<Longrightarrow> set (L d) \<subseteq> Q" "tail_repair_time (settings s) = 0"
     "\<And>q. q \<in> set (L c) \<Longrightarrow> q \<notin> ran M \<Longrightarrow> is_crawler (heap s q)" "\<And>p. p \<in> ran M \<Longrightarrow> it_refcount (heap s p) + 1 \<noteq> 0" "NULL \<notin> Q"
     "\<And>q. q \<in> X \<Longrightarrow> it_refcount (heap s q) \<noteq> 1"
  using assms unfolding alloc_pre_def by blast+

lemma alloc_pre_step:
  assumes a: "alloc_pre env c X Q s M L F" and i: "cache_inv s' M L' F" and e: "alloc_same s s'"
    and sl: "slabclass s' = slabclass s" "mem_base s' = mem_base s" and k: "\<And>q. kept (heap s q) (heap s' q)"
    and L: "\<And>d. d < LARGEST_ID \<Longrightarrow> set (L' d) = set (L d)"
  shows "alloc_pre env c X Q s' M L' F"
proof -
  note A = alloc_preD [OF a]
  have cl: "classes s' = classes s" "page_len c s' = page_len c s"
    using e sl by (simp_all add: classes_def alloc_same_def page_len_def)
  have "room_apart env c Q F s'"
    using A(8) by (simp add: room_apart_def page_fresh_def cl)
  moreover have "chunks_fit s' c (unat (page_len c s'))" using A(6) by (simp add: chunks_fit_def cl sl)
  ultimately show ?thesis
    using A i e by (simp add: alloc_pre_def cl sl L keptD [OF k] kept_facts [OF k] alloc_same_def)
qed

text \<open>What a search or an allocation from \<open>s\<close> has got: \<open>it\<close>, which is no longer in the cache.\<close>

definition alloc_result ::
  "ptr set \<Rightarrow> ptr set \<Rightarrow> 'a items_state_scheme \<Rightarrow> (bytes \<rightharpoonup> ptr) \<Rightarrow> (nat \<Rightarrow> ptr list) \<Rightarrow> 'a items_state_scheme \<Rightarrow>
   (bytes \<rightharpoonup> ptr) \<Rightarrow> (nat \<Rightarrow> ptr list) \<Rightarrow> (nat \<Rightarrow> ptr list) \<Rightarrow> ptr \<Rightarrow> bool" where
  "alloc_result X Q s M L s' M' L' F' it \<longleftrightarrow> cache_inv s' M' L' F' \<and> alloc_same s s' \<and>
     (\<forall>q\<in>Q. q \<noteq> it \<longrightarrow> kept (heap s q) (heap s' q)) \<and> (\<forall>q\<in>Q. \<forall>d\<in>classes s. q \<notin> set (F' d)) \<and>
     (\<forall>d<LARGEST_ID. set (L' d) \<subseteq> set (L d)) \<and>
     (if it = NULL then M' = M
      else outside s' L' F' it \<and> it_slabs_clsid (heap s' it) = 0 \<and>
        (M' = M \<and> it \<notin> Q \<or> (\<exists>k. M k = Some it \<and> it \<notin> X \<and> M' = M(k := None))))"

lemma alloc_result_trans:
  assumes "alloc_same s s1" "\<And>q. kept (heap s q) (heap s1 q)" "\<And>d. d < LARGEST_ID \<Longrightarrow> set (L1 d) = set (L d)"
    and "alloc_result X Q s1 M L1 s' M' L' F' it"
  shows "alloc_result X Q s M L s' M' L' F' it"
proof -
  have cl: "classes s1 = classes s" using assms(1) by (simp add: classes_def alloc_same_def)
  show ?thesis
    using assms(3,4) alloc_same_trans [OF assms(1)] kept_trans [OF assms(2)]
    unfolding alloc_result_def cl by simp
qed

lemma lru_prev:
  assumes "lru_rel s L" "c < LARGEST_ID" "L c = xs @ p # ys"
  shows "it_prev (heap s p) = (if xs = [] then NULL else last xs)"
proof -
  have "dll (\<lambda>p. it_next (heap s p)) (\<lambda>p. it_prev (heap s p)) (heads s c) (xs @ p # ys) (tails s c)"
    using lru_relD [OF assms(1,2)] assms(3) by (simp add: lru_list_def)
  then obtain m q where m: "dseg (\<lambda>p. it_next (heap s p)) (\<lambda>p. it_prev (heap s p)) NULL (heads s c) xs m q"
    "it_prev (heap s p) = m" by (auto simp: dseg_append)
  from dseg_last [OF m(1)] m(2) show ?thesis by simp
qed

lemma kept_refcount: "kept (i\<lparr>it_refcount := r\<rparr>) j \<Longrightarrow> kept i (j\<lparr>it_refcount := it_refcount i\<rparr>)"
  by (cases i, cases j) (simp add: kept_def)

text \<open>The step past an item that somebody else holds.\<close>

lemma skip_referenced:
  assumes a: "alloc_pre env c X Q s M L F" and p: "M k = Some p" and Lc: "L c = xs @ p # ys"
    and lk: "\<not> item_locks s lock"
  defines "s2 \<equiv> held p (s\<lparr>item_locks := (item_locks s)(lock := True)\<rparr>)"
  shows "\<exists>s3 L1 s7. do_item_update_nolock p s2 = Some s3 \<and>
     s7 = item_trylock_unlock lock (upd_itemstats c f (snd (refcount_decr p s3))) \<and>
     alloc_pre env c X Q s7 M L1 F \<and> alloc_same s s7 \<and> (\<forall>q. kept (heap s q) (heap s7 q)) \<and>
     (\<forall>d<LARGEST_ID. set (L1 d) = set (L d)) \<and> 
     (xs \<noteq> [] \<longrightarrow> (\<exists>us vs. L1 c = us @ last xs # vs \<and> length us \<le> length xs))"
proof -
  note A = alloc_preD [OF a]
  note I = cache_invD [OF A(1)] and P = cached_item [OF A(1) p]
  let ?s1 = "s\<lparr>item_locks := (item_locks s)(lock := True)\<rparr>"
  have i1: "cache_inv ?s1 M L F" using A(1) by simp
  have r1: "it_refcount (heap ?s1 p) + 1 \<noteq> 0" using A(12) [OF P(1)] by simp
  note H = held_inv [OF i1 r1, folded s2_def]
  have pc: "unat (it_slabs_clsid (heap s2 p)) = c"
    using lru_class(2) [OF I(2) A(3), of p] Lc by (simp add: H(3))
  from update_nolock_inv [OF H(1) p, unfolded pc] obtain s3 L1 where
    s3: "do_item_update_nolock p s2 = Some s3" "cache_inv s3 M L1 F" "env_same s2 s3"
      "slabclass s3 = slabclass s2" "mem_base s3 = mem_base s2"
      "L1 = L \<or> L1 = L(c := p # remove1 p (L c))" "\<And>q. kept (heap s2 q) (heap s3 q)" by blast
  let ?s4 = "snd (refcount_decr p s3)"
  define s7 where "s7 = item_trylock_unlock lock (upd_itemstats c f ?s4)"
  have dist: "distinct (L c)" by (rule lru_distinct [OF I(2) A(3)])
  have r3: "it_refcount (heap s3 p) = it_refcount (heap s p) + 1"
    using keptD(3) [OF s3(7), of p] by (simp add: H(3))
  have i4: "cache_inv ?s4 M L1 F"
    by (rule cache_inv_frame [OF s3(2)])
      (use cache_invD(7) [OF s3(2)] r3 P(11) in \<open>auto simp: refcount_decr_def item_ok_def\<close>)
  have i7: "cache_inv s7 M L1 F" using i4 by (simp add: s7_def item_trylock_unlock_def)
  have h7: "heap s7 = (heap s3)(p := (heap s3 p)\<lparr>it_refcount := it_refcount (heap s p)\<rparr>)"
    by (simp add: s7_def item_trylock_unlock_def upd_itemstats_def refcount_decr_def r3)
  have k7: "kept (heap s q) (heap s7 q)" for q
  proof (cases "q = p")
    case True
    have "kept ((heap s p)\<lparr>it_refcount := it_refcount (heap s p) + 1\<rparr>) (heap s3 p)"
      using s3(7) [of p] by (simp add: H(3))
    from kept_refcount [OF this] show ?thesis by (simp add: True h7)
  qed (use s3(7) [of q] in \<open>simp add: h7 H(3)\<close>)
  have e7: "alloc_same s s7"
    using env_same_trans [OF H(2) s3(3)] lk
    by (auto simp: s7_def env_same_def alloc_same_def item_trylock_unlock_def upd_itemstats_def refcount_decr_def
        fun_eq_iff)
  have sl7: "slabclass s7 = slabclass s" "mem_base s7 = mem_base s"
    using s3(4,5) by (simp_all add: s7_def item_trylock_unlock_def upd_itemstats_def refcount_decr_def s2_def held_def)
  have L7: "set (L1 d) = set (L d)" if "d < LARGEST_ID" for d
    using s3(6) set_remove1_eq [OF dist] Lc by (auto split: if_splits)
  have "alloc_pre env c X Q s7 M L1 F" by (rule alloc_pre_step [OF a i7 e7 sl7 k7 L7])
  moreover have "\<exists>us vs. L1 c = us @ last xs # vs \<and> length us \<le> length xs" if "xs \<noteq> []"
  proof -
    from that obtain ws w where w: "xs = ws @ [w]" by (meson rev_exhaust)
    show ?thesis
    proof (cases "L1 = L")
      case True then show ?thesis using Lc w by (intro exI [of _ ws] exI [of _ "p # ys"]) simp
    next
      case False
      with s3(6) have "L1 c = p # remove1 p (L c)" by auto
      also have "\<dots> = (p # ws) @ w # ys" using Lc w dist by (simp add: remove1_append)
      finally show ?thesis using w by (intro exI [of _ "p # ws"] exI [of _ ys]) simp
    qed
  qed
  ultimately show ?thesis using s3(1) e7 k7 L7 s7_def by blast
qed

lemma upd_itemstats_simps [simp]:
  "heap (upd_itemstats c f s) = heap s" "settings (upd_itemstats c f s) = settings s"
  "slabs_lock (upd_itemstats c f s) = slabs_lock s" "hash_fn (upd_itemstats c f s) = hash_fn s"
  "current_time (upd_itemstats c f s) = current_time s" "alloc_same s (upd_itemstats c f s)"
  "classes (upd_itemstats c f s) = classes s"
  by (simp_all add: upd_itemstats_def alloc_same_def classes_def)

text \<open>Giving the search's own reference and the lock back.\<close>

lemma close_take:
  assumes i: "cache_inv s M L F" and k: "M k = Some p" and rc: "it_refcount (heap s p) = 1"
    and lk: "\<not> item_locks s lock" and Q: "p \<in> Q"
    and res: "alloc_result X Q (held p (s\<lparr>item_locks := (item_locks s)(lock := True)\<rparr>)) M L s8 M' L' F' it"
  shows "alloc_result X Q s M L (item_trylock_unlock lock (snd (refcount_decr p s8))) M' L' F' it"
proof -
  let ?s2 = "held p (s\<lparr>item_locks := (item_locks s)(lock := True)\<rparr>)"
  let ?t = "snd (refcount_decr p s8)"
  note P = cached_item [OF i k]
  have h2: "heap ?s2 = (heap s)(p := (heap s p)\<lparr>it_refcount := 2\<rparr>)" by (simp add: held_def rc)
  have cl2: "classes ?s2 = classes s" by (simp add: held_def classes_def)
  have R: "cache_inv s8 M' L' F'" "alloc_same ?s2 s8" "\<And>q. q \<in> Q \<Longrightarrow> q \<noteq> it \<Longrightarrow> kept (heap ?s2 q) (heap s8 q)"
    "\<And>q d. q \<in> Q \<Longrightarrow> d \<in> classes s \<Longrightarrow> q \<notin> set (F' d)" "\<And>d. d < LARGEST_ID \<Longrightarrow> set (L' d) \<subseteq> set (L d)"
    using res unfolding alloc_result_def cl2 by blast+
  have N: "it = NULL \<Longrightarrow> M' = M" "it \<noteq> NULL \<Longrightarrow> outside s8 L' F' it" "it \<noteq> NULL \<Longrightarrow> it_slabs_clsid (heap s8 it) = 0"
    "it \<noteq> NULL \<Longrightarrow> M' = M \<and> it \<notin> Q \<or> (\<exists>k. M k = Some it \<and> it \<notin> X \<and> M' = M(k := None))"
    using res unfolding alloc_result_def by (simp_all split: if_splits)
  have ht: "heap ?t = (heap s8)(p := (heap s8 p)\<lparr>it_refcount := it_refcount (heap s8 p) - 1\<rparr>)"
    by (simp add: refcount_decr_def)
  have ct: "cache_inv ?t M' L' F'"
  proof (cases "it = p")
    case True
    then show ?thesis using cache_inv_outside [OF R(1) N(2)] P(6) by (simp add: refcount_decr_def)
  next
    case False
    have "it_refcount (heap s8 p) = 2" using keptD(3) [OF R(3) [OF Q]] False by (simp add: h2)
    then show ?thesis
      by (intro cache_inv_frame [OF R(1)])
        (use cache_invD(7) [OF R(1)] in \<open>auto simp: refcount_decr_def item_ok_def\<close>)
  qed
  have kt: "kept (heap s q) (heap ?t q)" if "q \<in> Q" "q \<noteq> it" for q
  proof (cases "q = p")
    case True
    have kp: "kept ((heap s p)\<lparr>it_refcount := 2\<rparr>) (heap s8 p)" using R(3) [OF that] True by (simp add: h2)
    have "it_refcount (heap s8 p) - 1 = it_refcount (heap s p)" using keptD(3) [OF kp] rc by simp
    with kept_refcount [OF kp] show ?thesis by (simp add: True ht)
  qed (use R(3) [OF that] in \<open>simp add: ht h2\<close>)
  have e: "alloc_same s (item_trylock_unlock lock ?t)"
    using R(2) lk by (auto simp: alloc_same_def held_def item_trylock_unlock_def refcount_decr_def fun_eq_iff)
  have cu: "cache_inv (item_trylock_unlock lock ?t) M' L' F'" using ct by (simp add: item_trylock_unlock_def)
  have hu: "heap (item_trylock_unlock lock ?t) = heap ?t" by (simp add: item_trylock_unlock_def)
  have o: "outside (item_trylock_unlock lock ?t) L' F' it" "it_slabs_clsid (heap ?t it) = 0" if "it \<noteq> NULL"
    using N(2,3) [OF that] by (auto simp: outside_def item_trylock_unlock_def refcount_decr_def classes_def)
  show ?thesis
    unfolding alloc_result_def hu
  proof (intro conjI ballI impI allI)
    show "if it = NULL then M' = M
      else outside (item_trylock_unlock lock ?t) L' F' it \<and> it_slabs_clsid (heap ?t it) = 0 \<and>
        (M' = M \<and> it \<notin> Q \<or> (\<exists>k. M k = Some it \<and> it \<notin> X \<and> M' = M(k := None)))"
      using N(1,4) o by simp
  qed (use cu e kt R(4,5) in blast)+
qed

lemma reuse_result:
  assumes i: "cache_inv s M L F" and k: "M k = Some p" and hv: "hv = hash_fn s k"
    and rc: "it_refcount (heap s p) \<noteq> 1" and nl: "\<not> slabs_lock s"
    and pc: "unat (it_slabs_clsid (heap s p)) = c"
    and Q: "\<And>q d. q \<in> Q \<Longrightarrow> d \<in> classes s \<Longrightarrow> q \<notin> set (F d)" and X: "p \<notin> X"
  shows "\<exists>s'. reuse_item p hv n s = Some s' \<and> alloc_result X Q s M L s' (M(k := None)) (lru_without L c p) F p"
proof -
  from reuse_item_inv [OF i k hv rc nl, of n, unfolded pc] obtain s' where s': "reuse_item p hv n s = Some s'"
    "cache_inv s' (M(k := None)) (lru_without L c p) F" "env_same s s'" "outside s' (lru_without L c p) F p"
    "it_slabs_clsid (heap s' p) = 0" "\<forall>q. q \<noteq> p \<longrightarrow> kept (heap s q) (heap s' q)" by blast
  have "set ((lru_without L c p) d) \<subseteq> set (L d)" for d using set_remove1_subset [of p "L c"] by auto
  then have "alloc_result X Q s M L s' (M(k := None)) (lru_without L c p) F p"
    using s' Q k X env_same_alloc [OF s'(3)] unfolding alloc_result_def outside_def by auto
  with s'(1) show ?thesis by blast
qed

lemma alloc_result_mono:
  assumes "alloc_same s s1" "\<And>q. q \<in> Q \<Longrightarrow> heap s1 q = heap s q" "alloc_result X Q s1 M L s' M' L' F' it"
  shows "alloc_result X Q s M L s' M' L' F' it"
proof -
  have cl: "classes s1 = classes s" using assms(1) by (simp add: classes_def alloc_same_def)
  show ?thesis
    using assms(2,3) alloc_same_trans [OF assms(1)] unfolding alloc_result_def cl by simp
qed

lemma alloc_result_after:
  assumes "alloc_result X Q s M L s1 M' L' F' it" "alloc_same s1 s'" "heap s' = heap s1" "cache_inv s' M' L' F'"
  shows "alloc_result X Q s M L s' M' L' F' it"
proof -
  have cl: "classes s' = classes s1" using assms(2) by (simp add: classes_def alloc_same_def)
  show ?thesis
    using assms(1,3,4) alloc_same_trans [OF _ assms(2)] unfolding alloc_result_def outside_def cl by simp
qed

lemma pick_any_loop_cur: "\<exists>a. snd (pick_any_loop n dst s) = s\<lparr>pick_any_cur := a\<rparr>"
proof (induction n arbitrary: s)
  case 0
  show ?case by (intro exI [of _ "pick_any_cur s"]) simp
next
  case (Suc n)
  have e: "\<exists>a. snd (pick_any_loop n dst (s\<lparr>pick_any_cur := b\<rparr>)) = s\<lparr>pick_any_cur := a\<rparr>" for b
    using Suc [of "s\<lparr>pick_any_cur := b\<rparr>"] by simp
  show ?case using e by (auto simp: Let_def)
qed

lemma slabs_reassign_same:
  "alloc_same s (snd (slabs_reassign src dst s)) \<and> heap (snd (slabs_reassign src dst s)) = heap s \<and>
   (cache_inv s M L F \<longrightarrow> cache_inv (snd (slabs_reassign src dst s)) M L F)"
proof (cases "slabs_rebalance_lock s")
  case True
  then show ?thesis by (simp add: slabs_reassign_def)
next
  case False
  let ?s = "s\<lparr>slabs_rebalance_lock := True\<rparr>"
  obtain a where a: "snd (slabs_reassign_pick_any dst ?s) = ?s\<lparr>pick_any_cur := a\<rparr>"
    using pick_any_loop_cur unfolding slabs_reassign_pick_any_def by blast
  define Q where "Q t \<longleftrightarrow> alloc_same ?s t \<and> heap t = heap s \<and> (cache_inv s M L F \<longrightarrow> cache_inv t M L F)" for t
  have Q0: "Q ?s" "Q (?s\<lparr>pick_any_cur := a\<rparr>)" by (simp_all add: Q_def alloc_same_def)
  have Qn: "Q (t\<lparr>slab_rebal := r, slab_rebalance_signal := b\<rparr>)" if "Q t" for t r b
    using that by (simp add: Q_def alloc_same_def)
  obtain x s' where x: "(if src = -1 then slabs_reassign_pick_any dst ?s else (src, ?s)) = (x, s')"
    by (metis surj_pair)
  then have "Q s'" using Q0 a by (auto split: if_splits)
  then have "Q (snd (do_slabs_reassign src dst ?s))"
    using Q0(1) Qn by (simp add: do_slabs_reassign_def x)
  moreover have "Q t \<Longrightarrow> alloc_same s (t\<lparr>slabs_rebalance_lock := False\<rparr>)" for t
    using False by (simp add: Q_def alloc_same_def)
  ultimately show ?thesis
    using False by (cases "do_slabs_reassign src dst ?s") (simp add: slabs_reassign_def Q_def)
qed

lemma alloc_take_inv:
  assumes a: "alloc_pre env c X Q s M L F" and p: "M k = Some p" "p \<in> set (L c)" and hv: "hv = hash_fn s k"
    and rc: "it_refcount (heap s p) = 2" and X: "p \<notin> X"
  shows "\<exists>it tried s' M' L' F'. alloc_take env n c hv oldest p s = Some (it, tried, s') \<and>
     alloc_result X Q s M L s' M' L' F' it \<and> (it = NULL \<longrightarrow> tried)"
proof -
  note A = alloc_preD [OF a]
  note P = cached_item [OF A(1) p(1)]
  have pc: "unat (it_slabs_clsid (heap s p)) = c" by (rule lru_class(2) [OF cache_invD(2) [OF A(1)] A(3) p(2)])
  have pQ: "p \<in> Q" using A(9) [OF A(3)] p(2) by blast
  have QF: "q \<notin> set (F d)" if "q \<in> Q" "d \<in> classes s" for q d
    using A(8) that unfolding room_apart_def by blast
  have reuse: "\<exists>s'. reuse_item p hv n t = Some s' \<and> alloc_result X Q s M L s' (M(k := None)) (lru_without L c p) G p"
    if t: "cache_inv t M L G" "alloc_same s t" "\<And>q. q \<in> Q \<Longrightarrow> heap t q = heap s q"
      "\<And>q d. q \<in> Q \<Longrightarrow> d \<in> classes s \<Longrightarrow> q \<notin> set (G d)" for t G
  proof -
    have cl: "classes t = classes s" using t(2) by (simp add: classes_def alloc_same_def)
    have "\<exists>s'. reuse_item p hv n t = Some s' \<and> alloc_result X Q t M L s' (M(k := None)) (lru_without L c p) G p"
      by (rule reuse_result [OF t(1) p(1)])
        (use t pQ rc hv pc A(4) cl X in \<open>simp_all add: alloc_same_def\<close>)
    then show ?thesis using alloc_result_mono [OF t(2,3)] by blast
  qed
  show ?thesis
  proof (cases "item_expired (heap s p) oldest (current_time s)")
    case True
    define s4 where "s4 = (let s3 = upd_itemstats c (\<lambda>t. t\<lparr>reclaimed := reclaimed t + 1\<rparr>) s in
      if it_flags (heap s3 p) AND ITEM_FETCHED = 0
      then upd_itemstats c (\<lambda>t. t\<lparr>expired_unfetched := expired_unfetched t + 1\<rparr>) s3 else s3)"
    have s4: "cache_inv s4 M L F" "alloc_same s s4" "heap s4 = heap s"
      using A(1) by (simp_all add: s4_def Let_def) (simp add: alloc_same_def upd_itemstats_def)
    from reuse [OF s4(1,2)] s4(3) QF obtain s' where s': "reuse_item p hv n s4 = Some s'"
      "alloc_result X Q s M L s' (M(k := None)) (lru_without L c p) F p" by auto
    have "alloc_take env n c hv oldest p s = Some (p, False, s')"
      using True s'(1) by (simp add: alloc_take_def s4_def Let_def)
    then show ?thesis using s'(2) P(6) by blast
  next
    case False
    from slabs_alloc_cache [OF A(1,2,4-9), of n] obtain q s3 F3 where s3: "slabs_alloc env n c s = Some (q, s3)"
      "cache_inv s3 M L F3" "env_same s s3" "\<forall>q\<in>Q. heap s3 q = heap s q" "\<forall>q\<in>Q. \<forall>d\<in>classes s. q \<notin> set (F3 d)"
      "q \<noteq> NULL \<longrightarrow> it_slabs_clsid (heap s3 q) = 0 \<and> q \<notin> Q \<and> outside s3 L F3 q" by blast
    have e3: "alloc_same s s3" by (rule env_same_alloc [OF s3(3)])
    have st3: "settings s3 = settings s" using s3(3) by (simp add: env_same_def)
    have base: "alloc_result X Q s M L s3 M L F3 it" if "it = q" for it
      using s3 e3 that by (auto simp: alloc_result_def)
    consider (got) "q \<noteq> NULL" | (keep) "q = NULL" "\<not> evict_to_free (settings s)"
      | (evict) "q = NULL" "evict_to_free (settings s)" by blast
    then show ?thesis
    proof cases
      case got
      then have "alloc_take env n c hv oldest p s = Some (q, False, s3)"
        using False s3(1) by (simp add: alloc_take_def)
      then show ?thesis using base [OF refl] got by blast
    next
      case keep
      let ?s' = "upd_itemstats c (\<lambda>t. t\<lparr>outofmemory := outofmemory t + 1\<rparr>) s3"
      have "alloc_take env n c hv oldest p s = Some (NULL, True, ?s')"
        using False s3(1) keep by (simp add: alloc_take_def st3)
      moreover have "alloc_result X Q s M L ?s' M L F3 NULL"
        by (rule alloc_result_after [OF base]) (use keep s3(2) in simp_all)
      ultimately show ?thesis by blast
    next
      case evict
      define s6 where "s6 = (let j = heap s3 p;
          s4 = upd_itemstats c (\<lambda>t. t\<lparr>evicted := evicted t + 1, evicted_time := current_time s3 - it_time j\<rparr>) s3;
          s5 = (if it_exptime j \<noteq> 0
                then upd_itemstats c (\<lambda>t. t\<lparr>evicted_nonzero := evicted_nonzero t + 1\<rparr>) s4 else s4)
        in if it_flags j AND ITEM_FETCHED = 0
           then upd_itemstats c (\<lambda>t. t\<lparr>evicted_unfetched := evicted_unfetched t + 1\<rparr>) s5 else s5)"
      have s6: "cache_inv s6 M L F3" "heap s6 = heap s3" using s3(2) by (simp_all add: s6_def Let_def)
      have e6: "alloc_same s s6"
        using e3 by (simp add: s6_def Let_def alloc_same_def upd_itemstats_def)
      from reuse [OF s6(1) e6] s6(2) s3(4,5) obtain s7 where s7: "reuse_item p hv n s6 = Some s7"
        "alloc_result X Q s M L s7 (M(k := None)) (lru_without L c p) F3 p" by auto
      define s8 where "s8 = (if slab_automove (settings s7) = 2 then snd (slabs_reassign (- 1) (int c) s7) else s7)"
      have "alloc_take env n c hv oldest p s = Some (p, True, s8)"
        using False s3(1) evict s7(1) by (simp add: alloc_take_def st3 s6_def s8_def Let_def)
      moreover have "alloc_result X Q s M L s8 (M(k := None)) (lru_without L c p) F3 p"
        by (rule alloc_result_after [OF s7(2)])
          (use slabs_reassign_same [of s7] s7(2) in \<open>auto simp: s8_def alloc_result_def\<close>)
      ultimately show ?thesis by blast
    qed
  qed
qed

text \<open>The search as a whole.\<close>

lemma alloc_search_inv:
  assumes "m = nat rl + length xs" and "alloc_pre env c X Q s M L F" and "L c = xs @ p # ys"
  shows "\<exists>it q tries' tried s' M' L' F'.
     alloc_search env n c cur_hv oldest tries rl p s = Some (it, q, tries', tried, s') \<and>
     alloc_result X Q s M L s' M' L' F' it \<and> (it \<noteq> NULL \<longrightarrow> tried \<or> tries' > 0 \<and> q \<noteq> NULL) \<and>
     (it = NULL \<and> \<not> tried \<longrightarrow> F' = F \<and> alloc_pre env c X Q s' M' L' F)"
  using assms
proof (induction m arbitrary: rl xs s L p ys tries rule: less_induct)
  case (less m)
  note a = less.prems(2) and Lc = less.prems(3)
  note A = alloc_preD [OF a]
  note I = cache_invD [OF A(1)]
  have pL: "p \<in> set (L c)" using Lc by simp
  have pN: "p \<noteq> NULL" using lru_NULL [OF I(2) A(3)] pL by metis
  have prev: "it_prev (heap s p) = (if xs = [] then NULL else last xs)" by (rule lru_prev [OF I(2) A(3) Lc])
  have QF: "\<forall>q\<in>Q. \<forall>d\<in>classes s. q \<notin> set (F d)" using A(8) unfolding room_apart_def by blast
  have stop: "\<exists>it q' tries' tried s' M' L' F'.
     alloc_search env n c cur_hv oldest t r q s1 = Some (it, q', tries', tried, s') \<and>
     alloc_result X Q s1 M L1 s' M' L' F' it \<and> (it \<noteq> NULL \<longrightarrow> tried \<or> tries' > 0 \<and> q' \<noteq> NULL) \<and>
     (it = NULL \<and> \<not> tried \<longrightarrow> F' = F \<and> alloc_pre env c X Q s' M' L' F)"
    if a1: "alloc_pre env c X Q s1 M L1 F" and e: "t \<le> 0 \<or> q = NULL" for t r q s1 L1
  proof -
    note A1 = alloc_preD [OF a1]
    have "alloc_search env n c cur_hv oldest t r q s1 = Some (NULL, q, t, False, s1)"
      using e by (subst alloc_search.simps) auto
    moreover have "alloc_result X Q s1 M L1 s1 M L1 F NULL"
      using A1(1,8) by (auto simp: alloc_result_def room_apart_def)
    ultimately show ?thesis using a1 by blast
  qed
  have next_one: "\<exists>it q tries' tried s' M' L' F'.
     alloc_search env n c cur_hv oldest t r (if xs = [] then NULL else last xs) s1 = Some (it, q, tries', tried, s') \<and>
     alloc_result X Q s M L s' M' L' F' it \<and> (it \<noteq> NULL \<longrightarrow> tried \<or> tries' > 0 \<and> q \<noteq> NULL) \<and>
     (it = NULL \<and> \<not> tried \<longrightarrow> F' = F \<and> alloc_pre env c X Q s' M' L' F)"
    if a1: "alloc_pre env c X Q s1 M L1 F" and e1: "alloc_same s s1" "\<And>q. kept (heap s q) (heap s1 q)"
      "\<And>d. d < LARGEST_ID \<Longrightarrow> set (L1 d) = set (L d)"
      and pos: "xs \<noteq> [] \<Longrightarrow> \<exists>us vs. L1 c = us @ last xs # vs \<and> nat r + length us < nat rl + length xs" for t r s1 L1
  proof -
    have "\<exists>it q tries' tried s' M' L' F'.
       alloc_search env n c cur_hv oldest t r (if xs = [] then NULL else last xs) s1 = Some (it, q, tries', tried, s') \<and>
       alloc_result X Q s1 M L1 s' M' L' F' it \<and> (it \<noteq> NULL \<longrightarrow> tried \<or> tries' > 0 \<and> q \<noteq> NULL) \<and>
       (it = NULL \<and> \<not> tried \<longrightarrow> F' = F \<and> alloc_pre env c X Q s' M' L' F)"
    proof (cases "xs = []")
      case True
      then show ?thesis using stop [OF a1, of t NULL r] by simp
    next
      case False
      from pos [OF this] obtain us vs where us: "L1 c = us @ last xs # vs" "nat r + length us < nat rl + length xs" by blast
      show ?thesis using less.IH [of "nat r + length us" r us s1 L1 "last xs" vs t] us less.prems(1) a1 False by simp
    qed
    moreover have "alloc_result X Q s1 M L1 s' M' L' F' it \<Longrightarrow> alloc_result X Q s M L s' M' L' F' it" for s' M' L' F' it
      using alloc_result_trans [OF e1(1,2) _, of L1 L X Q M s' M' L' F' it] e1(3) by blast
    ultimately show ?thesis by blast
  qed
  have same: "nat r + length us < nat rl + length xs \<Longrightarrow> True" for us :: "ptr list" and r by simp
  have here: "\<exists>us vs. L c = us @ last xs # vs \<and> nat rl + length us < nat rl + length xs" if "xs \<noteq> []"
  proof -
    from that obtain ws w where "xs = ws @ [w]" by (meson rev_exhaust)
    then show ?thesis using Lc by (intro exI [of _ ws] exI [of _ "p # ys"]) simp
  qed
  note skip = next_one [OF a alloc_same_refl kept_refl refl here]
  show ?case
  proof (cases "tries > 0")
    case False
    then show ?thesis using stop [OF a, of tries p rl] by simp
  next
    case tr: True
    show ?thesis
    proof (cases "is_crawler (heap s p)")
      case True
      have "alloc_search env n c cur_hv oldest tries rl p s =
          alloc_search env n c cur_hv oldest tries rl (if xs = [] then NULL else last xs) s"
        by (subst alloc_search.simps) (simp add: tr pN True prev)
      then show ?thesis using skip [of tries] by simp
    next
      case False
      have "p \<in> ran M" using A(11) [OF pL] False by blast
      then obtain k where k: "M k = Some p" by (auto simp: ran_def)
      note P = cached_item [OF A(1) k]
      let ?hv = "hash_fn s k" and ?lock = "hash_index (hash_fn s k) (item_lock_hashpower s)"
      show ?thesis
      proof (cases "?hv = cur_hv \<or> item_locks s ?lock")
        case True
        have "alloc_search env n c cur_hv oldest tries rl p s =
            alloc_search env n c cur_hv oldest (tries - 1) rl (if xs = [] then NULL else last xs) s"
          using True by (subst alloc_search.simps) (auto simp: tr pN False prev P(7) Let_def item_trylock_def)
        then show ?thesis using skip [of "tries - 1"] by simp
      next
        case free: False
        let ?s1 = "s\<lparr>item_locks := (item_locks s)(?lock := True)\<rparr>"
        let ?s2 = "held p ?s1"
        have lk: "item_trylock ?hv s = (Some ?lock, ?s1)" using free by (simp add: item_trylock_def Let_def)
        have inc: "refcount_incr p ?s1 = (it_refcount (heap s p) + 1, ?s2)" by (simp add: refcount_incr_def held_def)
        show ?thesis
        proof (cases "it_refcount (heap s p) + 1 = 2")
          case False
          from skip_referenced [OF a k Lc, of ?lock "\<lambda>t. t\<lparr>lrutail_reflocked := lrutail_reflocked t + 1\<rparr>"] free
          obtain s3 L1 s7 where s7: "do_item_update_nolock p ?s2 = Some s3"
            "s7 = item_trylock_unlock ?lock (upd_itemstats c (\<lambda>t. t\<lparr>lrutail_reflocked := lrutail_reflocked t + 1\<rparr>)
               (snd (refcount_decr p s3)))"
            "alloc_pre env c X Q s7 M L1 F" "alloc_same s s7" "\<forall>q. kept (heap s q) (heap s7 q)"
            "\<forall>d<LARGEST_ID. set (L1 d) = set (L d)"
            "xs \<noteq> [] \<longrightarrow> (\<exists>us vs. L1 c = us @ last xs # vs \<and> length us \<le> length xs)" by blast
          note s7' = s7(5) [rule_format] s7(6) [rule_format]
          have nt: "tail_repair_time (settings s7) = 0" using alloc_preD(10) [OF s7(3)] .
          have nt3: "tail_repair_time (settings s3) = 0"
            using nt by (simp add: s7(2) item_trylock_unlock_def refcount_decr_def)
          have run: "alloc_search env n c cur_hv oldest tries rl p s =
              (if rl - 1 < 1 then Some (NULL, p, tries + 1, False, s7)
               else alloc_search env n c cur_hv oldest tries (rl - 1) (if xs = [] then NULL else last xs) s7)"
            using free False \<open>\<not> is_crawler (heap s p)\<close>
            by (subst alloc_search.simps)
              (simp add: tr pN prev P(7) Let_def lk inc s7(1,2) nt3 refcount_decr_def)
          show ?thesis
          proof (cases "rl - 1 < 1")
            case True
            note A7 = alloc_preD [OF s7(3)]
            have "alloc_result X Q s7 M L1 s7 M L1 F NULL"
              using A7(1,8) by (auto simp: alloc_result_def room_apart_def)
            then have "alloc_result X Q s M L s7 M L1 F NULL"
              using alloc_result_trans [OF s7(4) s7'(1) _, of L1 L X Q M s7 M L1 F NULL] s7'(2) by blast
            then show ?thesis using run True s7(3) by auto
          next
            case False
            then have "nat (rl - 1) < nat rl" by simp
            then have "\<exists>us vs. L1 c = us @ last xs # vs \<and> nat (rl - 1) + length us < nat rl + length xs" if "xs \<noteq> []"
              using s7(7) [rule_format, OF that] by fastforce
            from next_one [OF s7(3,4) s7' this] show ?thesis using run False by simp
          qed
        next
          case two: True
          then have one: "it_refcount (heap s p) = 1" by (metis add_diff_cancel_right' one_add_one)
          have h2: "heap ?s2 = (heap s)(p := (heap s p)\<lparr>it_refcount := 2\<rparr>)" by (simp add: held_def one)
          have i2: "cache_inv ?s2 M L F" by (rule held_inv(1)) (use A(1) one in simp_all)
          have pX: "p \<notin> X" using A(14) [of p] one by blast
          have a2: "alloc_pre env c X Q ?s2 M L F"
          proof -
            have "classes ?s2 = classes s" "slabclass ?s2 = slabclass s" "page_len c ?s2 = page_len c s"
              by (simp_all add: held_def classes_def page_len_def)
            then show ?thesis using A i2 pX
              by (auto simp: alloc_pre_def room_apart_def page_fresh_def chunks_fit_def h2 is_crawler_def)
                (simp_all add: held_def)
          qed
          from alloc_take_inv [OF a2 k pL _ _ pX, of ?hv n oldest] obtain it tried s8 M' L' F' where
            t: "alloc_take env n c ?hv oldest p ?s2 = Some (it, tried, s8)" "alloc_result X Q ?s2 M L s8 M' L' F' it"
              "it = NULL \<longrightarrow> tried" by (auto simp: h2) (auto simp: held_def)
          have "p \<in> Q" using A(9) [OF A(3)] pL by blast
          from close_take [OF A(1) k one _ this t(2)] free
          have r: "alloc_result X Q s M L (item_trylock_unlock ?lock (snd (refcount_decr p s8))) M' L' F' it" by blast
          have "alloc_search env n c cur_hv oldest tries rl p s =
              Some (it, p, tries, tried, item_trylock_unlock ?lock (snd (refcount_decr p s8)))"
            using free two \<open>\<not> is_crawler (heap s p)\<close>
            by (subst alloc_search.simps) (simp add: tr pN P(7) Let_def lk inc t(1))
          then show ?thesis using r t(3) tr pN by blast
        qed
      qed
    qed
  qed
qed

section \<open>\<open>do_item_alloc\<close>\<close>

lemma alloc_search_from_tail:
  assumes a: "alloc_pre env c X Q s M L F"
  shows "\<exists>it q tries tried s' M' L' F'.
     alloc_search env n c cur_hv oldest 5 1000 (tails s c) s = Some (it, q, tries, tried, s') \<and>
     alloc_result X Q s M L s' M' L' F' it \<and> (it \<noteq> NULL \<longrightarrow> tried \<or> tries > 0 \<and> q \<noteq> NULL) \<and>
     (it = NULL \<and> \<not> tried \<longrightarrow> F' = F \<and> alloc_pre env c X Q s' M' L' F)"
proof -
  note A = alloc_preD [OF a]
  have d: "dll (\<lambda>p. it_next (heap s p)) (\<lambda>p. it_prev (heap s p)) (heads s c) (L c) (tails s c)"
    using lru_relD [OF cache_invD(2) [OF A(1)] A(3)] by (simp add: lru_list_def)
  show ?thesis
  proof (cases "L c = []")
    case True
    then have "tails s c = NULL" using d by (simp add: dll_tail_NULL)
    then have "alloc_search env n c cur_hv oldest 5 1000 (tails s c) s = Some (NULL, NULL, 5, False, s)"
      by (subst alloc_search.simps) simp
    moreover have "alloc_result X Q s M L s M L F NULL"
      using A(1,8) by (auto simp: alloc_result_def room_apart_def)
    ultimately show ?thesis using a by blast
  next
    case False
    then have "L c = butlast (L c) @ tails s c # []" using dseg_last [OF d] by simp
    from alloc_search_inv [OF refl a this] show ?thesis .
  qed
qed

theorem do_item_alloc_inv:
  assumes a: "alloc_pre env c X Q s M L F" and cl: "slabs_clsid (item_ntotal_for nkey flags nbytes s) s = Some c"
    and nl: "\<not> cache_lock s" and key: "nkey \<le> length key" "nkey < 256" "0 < nkey"
  shows "\<exists>it s' M' L' F'. do_item_alloc env key nkey flags exptime nbytes cur_hv s = Some (it, s') \<and>
     cache_inv s' M' L' F' \<and> alloc_same s s' \<and> (\<forall>q\<in>Q. q \<noteq> it \<longrightarrow> kept (heap s q) (heap s' q)) \<and>
     (\<forall>q\<in>Q. \<forall>d\<in>classes s. q \<notin> set (F' d)) \<and> (\<forall>d<LARGEST_ID. set (L' d) \<subseteq> set (L d)) \<and>
     (if it = NULL then M' = M
      else linkable s' L' F' it \<and> (M' = M \<and> it \<notin> Q \<or> (\<exists>k. M k = Some it \<and> it \<notin> X \<and> M' = M(k := None))) \<and>
        item_key (heap s' it) = take nkey key \<and> it_nkey (heap s' it) = of_nat nkey \<and>
        it_nbytes (heap s' it) = of_int nbytes \<and> it_refcount (heap s' it) = 1 \<and>
        it_exptime (heap s' it) = exptime \<and> unat (it_slabs_clsid (heap s' it)) = c \<and>
        it_flags (heap s' it) = (if use_cas (settings s) then ITEM_CAS else 0) \<and>
        it_suffix (heap s' it) = fst (item_make_header (of_nat nkey + 1) flags nbytes))"
proof -
  let ?s1 = "s\<lparr>cache_lock := True\<rparr>"
  let ?nt = "item_ntotal_for nkey flags nbytes s"
  note A = alloc_preD [OF a]
  have s1: "classes ?s1 = classes s" "page_len c ?s1 = page_len c s" by (simp_all add: classes_def page_len_def)
  have "room_apart env c Q F ?s1" "chunks_fit ?s1 c (unat (page_len c ?s1))"
    using A(6,8) by (simp_all add: room_apart_def page_fresh_def chunks_fit_def s1)
  then have a1: "alloc_pre env c X Q ?s1 M L F"
    using A by (simp add: alloc_pre_def cache_lock_irrelevant s1)
  have c0: "c \<noteq> 0" using A(2) by (auto simp: classes_def POWER_SMALLEST_def)
  obtain suffix nsuffix n' where mh: "item_make_header (of_nat nkey + 1) flags nbytes = (suffix, nsuffix, n')"
    by (metis surj_pair)
  have ts: "tails ?s1 c = tails s c" by simp
  from alloc_search_from_tail [OF a1, of ?nt cur_hv "oldest_live (settings s)", unfolded ts] obtain it q tries tried s2 M2 L2 F2 where
    s2: "alloc_search env ?nt c cur_hv (oldest_live (settings s)) 5 1000 (tails s c) ?s1 = Some (it, q, tries, tried, s2)"
      "alloc_result X Q ?s1 M L s2 M2 L2 F2 it" "it \<noteq> NULL \<longrightarrow> tried \<or> tries > 0 \<and> q \<noteq> NULL"
      "it = NULL \<and> \<not> tried \<longrightarrow> F2 = F \<and> alloc_pre env c X Q s2 M2 L2 F" by blast
  have "\<exists>p s3 F3. (if \<not> tried \<and> (tries = 0 \<or> q = NULL) then slabs_alloc env ?nt c s2 else Some (it, s2)) = Some (p, s3) \<and>
      alloc_result X Q ?s1 M L s3 M2 L2 F3 p"
  proof (cases "\<not> tried \<and> (tries = 0 \<or> q = NULL)")
    case False
    then show ?thesis using s2(2) by auto
  next
    case True
    then have itN: "it = NULL" using s2(3) by auto
    have a2: "alloc_pre env c X Q s2 M2 L2 F" using s2(4) itN True by simp
    note A2 = alloc_preD [OF a2]
    from slabs_alloc_cache [OF A2(1,2,4-9), of ?nt] obtain p s3 F3 where s3: "slabs_alloc env ?nt c s2 = Some (p, s3)"
      "cache_inv s3 M2 L2 F3" "env_same s2 s3" "\<forall>q\<in>Q. heap s3 q = heap s2 q" "\<forall>q\<in>Q. \<forall>d\<in>classes s2. q \<notin> set (F3 d)"
      "p \<noteq> NULL \<longrightarrow> it_slabs_clsid (heap s3 p) = 0 \<and> p \<notin> Q \<and> outside s3 L2 F3 p" by blast
    note R = s2(2) [unfolded alloc_result_def itN, simplified]
    have M2: "M2 = M" using R by simp
    have e: "alloc_same ?s1 s2" using R by simp
    have cls: "classes s2 = classes s" using e by (simp add: alloc_same_def classes_def)
    have kq: "kept (heap s q) (heap s3 q)" if "q \<in> Q" for q
    proof -
      have "q \<noteq> NULL" using that A(13) by metis
      then show ?thesis using R s3(4) that by simp
    qed
    have "alloc_result X Q ?s1 M L s3 M2 L2 F3 p"
      using R s3(2) s3(5,6) [unfolded cls] alloc_same_trans [OF e env_same_alloc [OF s3(3)]] kq
      by (simp add: alloc_result_def M2 s1)
    then show ?thesis using True s3(1) by auto
  qed
  then obtain p s3 F3 where s3: "(if \<not> tried \<and> (tries = 0 \<or> q = NULL) then slabs_alloc env ?nt c s2 else Some (it, s2)) = Some (p, s3)"
      "alloc_result X Q ?s1 M L s3 M2 L2 F3 p" by blast
  have R: "cache_inv s3 M2 L2 F3" "alloc_same ?s1 s3" "\<And>q. q \<in> Q \<Longrightarrow> q \<noteq> p \<Longrightarrow> kept (heap s q) (heap s3 q)"
    "\<And>q d. q \<in> Q \<Longrightarrow> d \<in> classes s \<Longrightarrow> q \<notin> set (F3 d)" "\<And>d. d < LARGEST_ID \<Longrightarrow> set (L2 d) \<subseteq> set (L d)"
    using s3(2) unfolding alloc_result_def s1 by simp_all
  have N: "p = NULL \<Longrightarrow> M2 = M" "p \<noteq> NULL \<Longrightarrow> outside s3 L2 F3 p" "p \<noteq> NULL \<Longrightarrow> it_slabs_clsid (heap s3 p) = 0"
    "p \<noteq> NULL \<Longrightarrow> M2 = M \<and> p \<notin> Q \<or> (\<exists>k. M k = Some p \<and> p \<notin> X \<and> M2 = M(k := None))"
    using s3(2) unfolding alloc_result_def by (simp_all split: if_splits)
  show ?thesis
  proof (cases "p = NULL")
    case True
    let ?s' = "cache_lock_release (upd_itemstats c (\<lambda>t. t\<lparr>outofmemory := outofmemory t + 1\<rparr>) s3)"
    have "do_item_alloc env key nkey flags exptime nbytes cur_hv s = Some (NULL, ?s')"
      using s2(1) s3(1) True c0 A(3) nl cl mh
      by (simp add: do_item_alloc_def lock_simps c_assert_True_bind)
    moreover have "cache_inv ?s' M L2 F3" using R(1) N(1) True by (simp add: cache_lock_release_def cache_lock_irrelevant)
    moreover have "alloc_same s ?s'" using R(2) nl by (simp add: alloc_same_def cache_lock_release_def upd_itemstats_def)
    moreover have "heap ?s' = heap s3" by (simp add: cache_lock_release_def)
    moreover have "kept (heap s q) (heap s3 q)" if "q \<in> Q" for q
      using R(3) [OF that] that A(13) True by metis
    ultimately show ?thesis using R(4,5)
      by - (rule exI [of _ NULL], rule exI [of _ ?s'], rule exI [of _ M], rule exI [of _ L2],
          rule exI [of _ F3], simp)
  next
    case False
    note N' = N(2-4) [OF False]
    let ?s4 = "cache_lock_release (upd_item p (\<lambda>i. i\<lparr>it_refcount := 1\<rparr>) s3)"
    define hdr where "hdr = (\<lambda>i::item. i\<lparr>it_next := NULL, it_prev := NULL, it_h_next := NULL,
              it_slabs_clsid := of_nat c, it_flags := (if use_cas (settings ?s4) then ITEM_CAS else 0),
              it_nkey := of_nat nkey, it_nbytes := of_int nbytes, it_key := take nkey key,
              it_exptime := exptime, it_suffix := suffix, it_nsuffix := nsuffix\<rparr>)"
    let ?s' = "upd_item p hdr ?s4"
    have hd: "p \<noteq> heads s3 c"
    proof -
      have d: "dll (nxt s3) (prv s3) (heads s3 c) (L2 c) (tails s3 c)"
        using lru_relD [OF cache_invD(2) [OF R(1)] A(3)] by (simp add: lru_list_def)
      show ?thesis using dseg_first [OF d] N'(1) A(3) False by (auto simp: outside_def split: if_splits)
    qed
    have run: "do_item_alloc env key nkey flags exptime nbytes cur_hv s = Some (p, ?s')"
      using s2(1) s3(1) False c0 A(3) nl cl mh N'(2) hd
      by (simp add: do_item_alloc_def lock_simps c_assert_True_bind Let_def hdr_def)
    have st: "settings ?s4 = settings s" using R(2) by (simp add: alloc_same_def cache_lock_release_def)
    have i4: "cache_inv ?s4 M2 L2 F3"
      using cache_inv_outside [OF R(1) N'(1)] by (simp add: cache_lock_release_def cache_lock_irrelevant)
    have o4: "outside ?s4 L2 F3 p" using N'(1) by (simp add: outside_def cache_lock_release_def classes_def)
    have i': "cache_inv ?s' M2 L2 F3" by (rule cache_inv_outside [OF i4 o4])
    have o': "outside ?s' L2 F3 p" using o4 by (simp add: outside_def)
    have cls: "classes ?s' = classes s"
      using R(2) by (simp add: alloc_same_def cache_lock_release_def classes_def)
    have nk: "unat (of_nat nkey :: u8) = nkey" using key(2) by (simp add: unat_of_nat)
    then have nk0: "(of_nat nkey :: u8) \<noteq> 0" using key(3) by (metis less_irrefl unat_0)
    have h': "heap ?s' p = hdr ((heap s3 p)\<lparr>it_refcount := 1\<rparr>)" by (simp add: cache_lock_release_def)
    have l': "linkable ?s' L2 F3 p"
      using o' A(2,3) cls nk nk0 unat_of_nat_class [OF A(3)] key(1)
      by (simp add: linkable_def outside_def h' hdr_def is_item_def key_ok_def flag_bits bit_simps)
    moreover have "item_key (heap ?s' p) = take nkey key"
      by (simp add: h' hdr_def item_key_def nk)
    moreover have "alloc_same s ?s'" using R(2) nl by (simp add: alloc_same_def cache_lock_release_def)
    moreover have "kept (heap s q) (heap ?s' q)" if "q \<in> Q" "q \<noteq> p" for q
      using R(3) [OF that] that by (simp add: cache_lock_release_def)
    moreover have "it_nkey (heap ?s' p) = of_nat nkey" "it_nbytes (heap ?s' p) = of_int nbytes"
      "it_refcount (heap ?s' p) = 1" "it_exptime (heap ?s' p) = exptime" "unat (it_slabs_clsid (heap ?s' p)) = c"
      "it_flags (heap ?s' p) = (if use_cas (settings s) then ITEM_CAS else 0)"
      "it_suffix (heap ?s' p) = fst (item_make_header (of_nat nkey + 1) flags nbytes)"
      using st unat_of_nat_class [OF A(3)] mh by (simp_all add: h' hdr_def cache_lock_release_def)
    ultimately show ?thesis
      using run i' R(4,5) N'(3) False by (intro exI conjI) (assumption | simp)+
  qed
qed

section \<open>Which memory the new item gets\<close>

text \<open>The chunk that the slab allocator of class \<open>c\<close> hands out: the first one of the free list, or the
  last one of a new page when the memory limit, the page table and \<open>malloc\<close> allow one.\<close>

definition page_granted :: "alloc_env \<Rightarrow> nat \<Rightarrow> 'a slabs_state_scheme \<Rightarrow> bool" where
  "page_granted env c s \<longleftrightarrow> malloc_page env \<noteq> NULL \<and>
     (mem_limit s = 0 \<or> mem_malloced s + page_len c s \<le> mem_limit s \<or> sc_slabs (slabclass s c) = 0) \<and>
     (sc_slabs (slabclass s c) \<noteq> sc_list_size (slabclass s c) \<or> realloc_ok env)"

definition free_chunk :: "alloc_env \<Rightarrow> nat \<Rightarrow> (nat \<Rightarrow> ptr list) \<Rightarrow> 'a slabs_state_scheme \<Rightarrow> ptr" where
  "free_chunk env c F s =
     (if F c \<noteq> [] then hd (F c)
      else if page_granted env c s then last (page_chunks s c (malloc_page env)) else NULL)"

lemma newslab_granted:
  assumes "do_slabs_newslab env c s = Some (b, s')" "mem_base s = NULL"
  shows "b \<longleftrightarrow> page_granted env c s"
  using assms
  by (auto simp: do_slabs_newslab_def page_granted_def grow_slab_list_def memory_allocate_def Let_def not_le
      word_gt_0 bind_eq_Some_conv split: if_splits)

lemma do_slabs_alloc_slots:
  assumes "do_slabs_alloc env sz c s = Some (p, s')" "freelists s F" "c \<in> classes s" "F c \<noteq> []"
  shows "p = hd (F c)"
proof -
  from assms(4) obtain q ps where "F c = q # ps" by (cases "F c") auto
  from do_slabs_alloc_freelists [OF assms(2,3) this, of env sz] assms(1) this show ?thesis by auto
qed

lemma slabs_alloc_chunk:
  assumes al: "slabs_alloc env sz c s = Some (p, s')" and f: "freelists s F" and c: "c \<in> classes s"
    and nl: "\<not> slabs_lock s" and mb: "mem_base s = NULL"
    and fit: "chunks_fit s c (unat (page_len c s))" "0 < sc_perslab (slabclass s c)"
    and fresh: "malloc_page env = NULL \<or> page_fresh s F (malloc_page env) (unat (page_len c s))"
  shows "p = free_chunk env c F s"
proof -
  let ?s1 = "s\<lparr>slabs_lock := True\<rparr>"
  have f1: "freelists ?s1 F" by (rule freelists_frame [OF f]) auto
  have c1: "classes ?s1 = classes s" "page_len c ?s1 = page_len c s" by (simp_all add: classes_def page_len_def)
  then have g1: "page_granted env c ?s1 = page_granted env c s" by (simp add: page_granted_def)
  obtain s2 where a: "do_slabs_alloc env sz c ?s1 = Some (p, s2)"
    using al nl by (auto simp: slabs_alloc_def lock_simps bind_eq_Some_conv)
  show ?thesis
  proof (cases "F c")
    case (Cons q ps)
    then show ?thesis using do_slabs_alloc_slots [OF a f1] c by (simp add: c1 free_chunk_def)
  next
    case Nil
    have fresh1: "malloc_page env = NULL \<or> page_fresh ?s1 F (malloc_page env) (unat (page_len c ?s1))"
      using fresh by (auto simp: page_fresh_def c1)
    have fit1: "chunks_fit ?s1 c (unat (page_len c ?s1))" using fit(1) by (simp add: chunks_fit_def c1)
    have cs1: "c \<in> classes ?s1" and mb1: "mem_base ?s1 = NULL" using c c1 mb by simp_all
    have z: "sc_sl_curr (slabclass ?s1 c) = 0" using freelist_sl_curr_0 [OF freelistsD(1) [OF f1 cs1]] Nil by simp
    have rng: "\<not> c < POWER_SMALLEST" "\<not> power_largest s < c" using c by (simp_all add: classes_def not_less)
    show ?thesis
    proof (rule newslab_cases [OF f1 cs1 mb1 Nil fresh1 fit1])
      fix t assume t: "do_slabs_newslab env c ?s1 = Some (False, t)"
      from newslab_granted [OF t mb1] do_slabs_alloc_fails [OF f1 cs1 Nil t] a Nil
      show ?thesis by (simp add: free_chunk_def g1)
    next
      fix t assume t: "do_slabs_newslab env c ?s1 = Some (True, t)"
        "freelists t (F(c := rev (page_chunks ?s1 c (malloc_page env))))"
        "same_pages (add_page c (malloc_page env) ?s1) t"
      let ?G = "F(c := rev (page_chunks ?s1 c (malloc_page env)))"
      have ct: "c \<in> classes t" using t(3) cs1 by (simp add: same_pages_def classes_def add_page_def)
      have ne: "page_chunks s c (malloc_page env) \<noteq> []"
        using fit(2) by (simp add: chunks_def word_gt_0 unat_eq_0)
      then obtain x xs where Gc: "?G c = x # xs" by (cases "?G c") auto
      have cl: "classes t = classes ?s1" using t(3) by (simp add: same_pages_def classes_def add_page_def)
      have "do_slabs_alloc env sz c ?s1 = do_slabs_alloc env sz c t"
        by (rule do_slabs_alloc_newslab [OF f1 cs1 Nil t(1,2) cl Gc])
      with do_slabs_alloc_slots [of env sz c t p s2 ?G] a t(2) ct ne have "p = last (page_chunks s c (malloc_page env))"
        by (simp add: hd_rev)
      with newslab_granted [OF t(1) mb1] Nil show ?thesis by (simp add: free_chunk_def g1)
    qed
  qed
qed

text \<open>After an allocation from a new page, one chunk of the page is missing from the free list.\<close>

lemma slabs_alloc_new_page:
  assumes al: "slabs_alloc env sz c s = Some (p, s')" and f: "freelists s F" and c: "c \<in> classes s"
    and nl: "\<not> slabs_lock s" and mb: "mem_base s = NULL"
    and fit: "chunks_fit s c (unat (page_len c s))" "0 < sc_perslab (slabclass s c)"
    and fresh: "malloc_page env = NULL \<or> page_fresh s F (malloc_page env) (unat (page_len c s))"
    and F: "F c = []" and g: "page_granted env c s"
  shows "sc_sl_curr (slabclass s' c) + 1 = sc_perslab (slabclass s c)"
proof -
  let ?s1 = "s\<lparr>slabs_lock := True\<rparr>"
  have f1: "freelists ?s1 F" by (rule freelists_frame [OF f]) auto
  have c1: "classes ?s1 = classes s" "page_len c ?s1 = page_len c s" by (simp_all add: classes_def page_len_def)
  then have g1: "page_granted env c ?s1" using g by (simp add: page_granted_def)
  obtain s2 where a: "do_slabs_alloc env sz c ?s1 = Some (p, s2)" and s': "slabclass s' = slabclass s2"
    using al nl by (auto simp: slabs_alloc_def lock_simps bind_eq_Some_conv slabs_lock_release_def)
  have fresh1: "malloc_page env = NULL \<or> page_fresh ?s1 F (malloc_page env) (unat (page_len c ?s1))"
    using fresh by (auto simp: page_fresh_def c1)
  have fit1: "chunks_fit ?s1 c (unat (page_len c ?s1))" using fit(1) by (simp add: chunks_fit_def c1)
  have cs1: "c \<in> classes ?s1" and mb1: "mem_base ?s1 = NULL" using c c1 mb by simp_all
  show ?thesis
  proof (rule newslab_cases [OF f1 cs1 mb1 F fresh1 fit1])
    fix t assume "do_slabs_newslab env c ?s1 = Some (False, t)"
    from newslab_granted [OF this mb1] g1 show ?thesis by simp
  next
    fix t assume t: "do_slabs_newslab env c ?s1 = Some (True, t)"
      "freelists t (F(c := rev (page_chunks ?s1 c (malloc_page env))))"
      "same_pages (add_page c (malloc_page env) ?s1) t"
    let ?G = "F(c := rev (page_chunks ?s1 c (malloc_page env)))"
    have cl: "classes t = classes ?s1" using t(3) by (simp add: same_pages_def classes_def add_page_def)
    have len: "length (?G c) = unat (sc_perslab (slabclass s c))" by (simp add: chunks_def)
    then have "?G c \<noteq> []" using fit(2) by (metis length_0_conv unat_gt_0 less_irrefl)
    then obtain x xs where Gc: "?G c = x # xs" by (cases "?G c") auto
    have "do_slabs_alloc env sz c t = Some (p, s2)"
      using do_slabs_alloc_newslab [OF f1 cs1 F t(1,2) cl Gc] a by simp
    with do_slabs_alloc_freelists [OF t(2) _ Gc, of env sz] cl cs1
    have "sc_sl_curr (slabclass s2 c) = sc_sl_curr (slabclass t c) - 1" by auto
    moreover have "freelist (heap t) (slabclass t c) (?G c)"
      by (rule freelistsD(1) [OF t(2)]) (use cl cs1 in simp)
    then have "sc_sl_curr (slabclass t c) = of_nat (length (?G c))" by (simp add: freelist_def)
    ultimately show ?thesis unfolding len by (simp add: s')
  qed
qed

text \<open>The item at the tail of an LRU list that the search would take: crawlers are passed over, an item of
  the bucket that the caller has locked or whose lock is held costs one of the tries.\<close>

fun lru_victim :: "int \<Rightarrow> u32 \<Rightarrow> 'a items_state_scheme \<Rightarrow> ptr list \<Rightarrow> ptr" where
  "lru_victim tries cur_hv s [] = NULL"
| "lru_victim tries cur_hv s (p # ps) =
     (let hv = hash_fn s (item_key (heap s p))
      in if tries \<le> 0 then NULL
         else if is_crawler (heap s p) then lru_victim tries cur_hv s ps
         else if hv = cur_hv \<or> item_locks s (hash_index hv (item_lock_hashpower s))
         then lru_victim (tries - 1) cur_hv s ps
         else p)"

text \<open>No item that the search may meet is in use by somebody else.\<close>

definition tail_unused :: "u32 \<Rightarrow> 'a items_state_scheme \<Rightarrow> ptr list \<Rightarrow> bool" where
  "tail_unused cur_hv s ps \<longleftrightarrow> (\<forall>p\<in>set ps. let hv = hash_fn s (item_key (heap s p)) in
     is_crawler (heap s p) \<or> hv = cur_hv \<or> item_locks s (hash_index hv (item_lock_hashpower s)) \<or>
     it_refcount (heap s p) = 1)"

definition locked_for :: "ptr \<Rightarrow> 'a items_state_scheme \<Rightarrow> 'a items_state_scheme" where
  "locked_for p s = held p (s\<lparr>item_locks := (item_locks s)
     (hash_index (hash_fn s (item_key (heap s p))) (item_lock_hashpower s) := True)\<rparr>)"

lemma alloc_search_victim:
  assumes a: "alloc_pre env c X Q s M L F" and "L c = rev ps @ ys" and "tail_unused cur_hv s ps" and "0 \<le> tries"
    and "alloc_search env n c cur_hv oldest tries rl (if ps = [] then NULL else hd ps) s = Some (it, q, t, tried, s')"
  shows "if lru_victim tries cur_hv s ps = NULL then it = NULL \<and> \<not> tried \<and> s' = s \<and> (t = 0 \<or> q = NULL)
    else q = lru_victim tries cur_hv s ps \<and> 0 < t \<and> q \<in> set ps \<and> q \<in> ran M \<and> it_refcount (heap s q) = 1 \<and>
      (\<exists>s8. alloc_take env n c (hash_fn s (item_key (heap s q))) oldest q (locked_for q s) = Some (it, tried, s8))"
  using assms(2-)
proof (induction ps arbitrary: tries ys)
  case Nil
  then show ?case by (auto simp: alloc_search.simps)
next
  case (Cons p ps)
  note A = alloc_preD [OF a]
  note I = cache_invD [OF A(1)]
  have pL: "p \<in> set (L c)" using Cons.prems(1) by simp
  have pN: "p \<noteq> NULL" using lru_NULL [OF I(2) A(3)] pL by metis
  have Lc: "L c = rev ps @ p # ys" using Cons.prems(1) by simp
  have prev: "it_prev (heap s p) = (if ps = [] then NULL else hd ps)"
    using lru_prev [OF I(2) A(3) Lc] by (simp add: last_rev)
  have un: "tail_unused cur_hv s ps" using Cons.prems(2) by (simp add: tail_unused_def)
  let ?hv = "hash_fn s (item_key (heap s p))"
  let ?lock = "hash_index ?hv (item_lock_hashpower s)"
  note IH = Cons.IH [OF Lc un]
  note run = Cons.prems(4) [simplified, unfolded alloc_search.simps [of env n c cur_hv oldest tries rl p s]]
  show ?case
  proof (cases "tries = 0")
    case True
    then show ?thesis using run by (auto simp: Let_def)
  next
    case False
    then have tr: "0 < tries" using Cons.prems(3) by simp
    consider (crawl) "is_crawler (heap s p)"
      | (skip) "\<not> is_crawler (heap s p)" "?hv = cur_hv \<or> item_locks s ?lock"
      | (take) "\<not> is_crawler (heap s p)" "?hv \<noteq> cur_hv" "\<not> item_locks s ?lock" by blast
    then show ?thesis
    proof cases
      case crawl
      with run IH [of tries] tr show ?thesis by (auto simp: pN prev Let_def)
    next
      case skip
      with run IH [of "tries - 1"] tr show ?thesis
        by (auto simp: pN prev Let_def item_trylock_def split: if_splits)
    next
      case take
      have one: "it_refcount (heap s p) = 1" using Cons.prems(2) take by (simp add: tail_unused_def Let_def)
      have ran: "p \<in> ran M" using A(11) [OF pL] take(1) by blast
      from run take tr one ran show ?thesis
        by (auto simp: pN Let_def item_trylock_def refcount_incr_def locked_for_def held_def bind_eq_Some_conv)
    qed
  qed
qed

text \<open>What the new item is: the victim when it has expired (its own expiry time has passed, or it is not
  younger than a flush that has come), else a free chunk, else the victim when eviction is on, else
  nothing.\<close>

definition item_choice :: "alloc_env \<Rightarrow> nat \<Rightarrow> (nat \<Rightarrow> ptr list) \<Rightarrow> 'a items_state_scheme \<Rightarrow> ptr \<Rightarrow> ptr" where
  "item_choice env c F s v =
     (if v \<noteq> NULL \<and> (it_exptime (heap s v) \<noteq> 0 \<and> it_exptime (heap s v) < current_time s \<or>
          it_time (heap s v) \<le> oldest_live (settings s) \<and> oldest_live (settings s) \<le> current_time s) then v
      else if free_chunk env c F s \<noteq> NULL then free_chunk env c F s
      else if v \<noteq> NULL \<and> evict_to_free (settings s) then v else NULL)"

lemma alloc_take_choice:
  assumes t: "alloc_take env n c hv oldest p s = Some (it, tried, s')" and f: "freelists s F" "c \<in> classes s"
    "\<not> slabs_lock s" "mem_base s = NULL" "chunks_fit s c (unat (page_len c s))" "0 < sc_perslab (slabclass s c)"
    "malloc_page env = NULL \<or> page_fresh s F (malloc_page env) (unat (page_len c s))"
  shows "it = (if item_expired (heap s p) oldest (current_time s) then p
     else if free_chunk env c F s \<noteq> NULL then free_chunk env c F s
     else if evict_to_free (settings s) then p else NULL)"
proof (cases "item_expired (heap s p) oldest (current_time s)")
  case True
  then show ?thesis using t by (auto simp: alloc_take_def bind_eq_Some_conv Let_def)
next
  case False
  with t obtain q s3 where q: "slabs_alloc env n c s = Some (q, s3)"
    by (auto simp: alloc_take_def bind_eq_Some_conv)
  have "room_apart env c {} F s" using f(7) by (simp add: room_apart_def)
  from slabs_alloc_frame [OF f(1-6) this, of n] q have same: "settings s3 = settings s" by auto
  from slabs_alloc_chunk [OF q f] same False t q show ?thesis
    by (auto simp: alloc_take_def bind_eq_Some_conv Let_def split: if_splits)
qed

lemma locked_for_fields:
  assumes "it_refcount (heap s p) = 1"
  shows "heap (locked_for p s) = (heap s)(p := (heap s p)\<lparr>it_refcount := 2\<rparr>)"
    "settings (locked_for p s) = settings s" "current_time (locked_for p s) = current_time s"
    "classes (locked_for p s) = classes s" "page_len c (locked_for p s) = page_len c s"
    "slabclass (locked_for p s) = slabclass s" "slabs_lock (locked_for p s) = slabs_lock s"
    "mem_base (locked_for p s) = mem_base s" "free_chunk env c F (locked_for p s) = free_chunk env c F s"
    "cache_inv s M L F \<Longrightarrow> cache_inv (locked_for p s) M L F"
  using assms held_inv(1) [of "s\<lparr>item_locks := l\<rparr>" M L F p for l]
  by (auto simp: locked_for_def held_def classes_def page_len_def free_chunk_def page_granted_def)

text \<open>The search and the allocation that a call of \<open>do_item_alloc\<close> consists of.\<close>

lemma do_item_alloc_parts:
  assumes cl: "slabs_clsid (item_ntotal_for nkey flags nbytes s) s = Some c" and c0: "c \<noteq> 0" and cL: "c < LARGEST_ID"
    and run: "do_item_alloc env key nkey flags exptime nbytes cur_hv s = Some (it, s')"
  obtains r q t tried s2 s3 where
    "alloc_search env (item_ntotal_for nkey flags nbytes s) c cur_hv (oldest_live (settings s)) 5 1000 (tails s c)
       (s\<lparr>cache_lock := True\<rparr>) = Some (r, q, t, tried, s2)"
    "(if \<not> tried \<and> (t = 0 \<or> q = NULL) then slabs_alloc env (item_ntotal_for nkey flags nbytes s) c s2 else Some (r, s2)) =
       Some (it, s3)" "slabclass s' = slabclass s3"
proof -
  let ?nt = "item_ntotal_for nkey flags nbytes s"
  obtain suffix nsuffix n' where mh: "item_make_header (of_nat nkey + 1) flags nbytes = (suffix, nsuffix, n')"
    by (metis surj_pair)
  have nl: "\<not> cache_lock s" using run cl c0 mh by (auto simp: do_item_alloc_def cache_lock_acquire_def split: if_splits)
  let ?search = "alloc_search env ?nt c cur_hv (oldest_live (settings s)) 5 1000 (tails s c) (s\<lparr>cache_lock := True\<rparr>)"
  have "?search \<noteq> None"
  proof
    assume "?search = None"
    then have "do_item_alloc env key nkey flags exptime nbytes cur_hv s = None"
      using c0 cL nl cl mh by (simp add: do_item_alloc_def lock_simps c_assert_True_bind)
    with run show False by simp
  qed
  then obtain r q t tried s2 where se: "?search = Some (r, q, t, tried, s2)" by auto
  let ?al = "if \<not> tried \<and> (t = 0 \<or> q = NULL) then slabs_alloc env ?nt c s2 else Some (r, s2)"
  have "?al \<noteq> None"
  proof
    assume "?al = None"
    then have "do_item_alloc env key nkey flags exptime nbytes cur_hv s = None"
      using se c0 cL nl cl mh by (simp add: do_item_alloc_def lock_simps c_assert_True_bind)
    with run show False by simp
  qed
  then obtain p s3 where al: "?al = Some (p, s3)" by auto
  have "it = p \<and> slabclass s' = slabclass s3"
  proof (cases "p = NULL")
    case True
    then show ?thesis
      using run se al c0 cL nl cl mh by (auto simp: do_item_alloc_def lock_simps c_assert_True_bind cache_lock_release_def upd_itemstats_def)
  next
    case False
    then show ?thesis
      using run se al c0 cL nl cl mh
      by (auto simp: do_item_alloc_def lock_simps c_assert_True_bind Let_def bind_eq_Some_conv cache_lock_release_def)
  qed
  with se al that show thesis by blast
qed

lemma do_item_alloc_choice:
  assumes a: "alloc_pre env c X Q s M L F" and cl: "slabs_clsid (item_ntotal_for nkey flags nbytes s) s = Some c"
    and run: "do_item_alloc env key nkey flags exptime nbytes cur_hv s = Some (it, s')"
    and un: "tail_unused cur_hv s (rev (L c))"
  shows "it = item_choice env c F s (lru_victim 5 cur_hv s (rev (L c)))"
    and "lru_victim 5 cur_hv s (rev (L c)) = NULL \<Longrightarrow>
      \<exists>s3. slabs_alloc env (item_ntotal_for nkey flags nbytes s) c (s\<lparr>cache_lock := True\<rparr>) = Some (it, s3) \<and>
        slabclass s' = slabclass s3"
proof -
  let ?s1 = "s\<lparr>cache_lock := True\<rparr>"
  let ?nt = "item_ntotal_for nkey flags nbytes s"
  let ?o = "oldest_live (settings s)"
  note A = alloc_preD [OF a]
  have s1: "classes ?s1 = classes s" "page_len c ?s1 = page_len c s" by (simp_all add: classes_def page_len_def)
  have "room_apart env c Q F ?s1" "chunks_fit ?s1 c (unat (page_len c ?s1))"
    using A(6,8) by (simp_all add: room_apart_def page_fresh_def chunks_fit_def s1)
  then have a1: "alloc_pre env c X Q ?s1 M L F"
    using A by (simp add: alloc_pre_def cache_lock_irrelevant s1)
  have c0: "c \<noteq> 0" using A(2) by (auto simp: classes_def POWER_SMALLEST_def)
  have d: "dll (\<lambda>p. it_next (heap s p)) (\<lambda>p. it_prev (heap s p)) (heads s c) (L c) (tails s c)"
    using lru_relD [OF cache_invD(2) [OF A(1)] A(3)] by (simp add: lru_list_def)
  have tl: "tails s c = (if rev (L c) = [] then NULL else hd (rev (L c)))"
    using dseg_last [OF d] dll_tail_NULL [OF d] by (simp add: hd_rev)
  obtain r q t tried s2 s3 where se: "alloc_search env ?nt c cur_hv ?o 5 1000 (tails s c) ?s1 = Some (r, q, t, tried, s2)"
    and al: "(if \<not> tried \<and> (t = 0 \<or> q = NULL) then slabs_alloc env ?nt c s2 else Some (r, s2)) = Some (it, s3)"
    and sc: "slabclass s' = slabclass s3"
    by (rule do_item_alloc_parts [OF cl c0 A(3) run])
  define v where "v = lru_victim 5 cur_hv s (rev (L c))"
  have v1: "lru_victim 5 cur_hv ?s1 (rev (L c)) = v"
  proof -
    have "lru_victim k cur_hv ?s1 ps = lru_victim k cur_hv s ps" for k ps
      by (induction ps arbitrary: k) (simp_all add: Let_def)
    then show ?thesis by (simp add: v_def)
  qed
  have un1: "tail_unused cur_hv ?s1 (rev (L c))" using un by (simp add: tail_unused_def)
  have fc1: "free_chunk env c F ?s1 = free_chunk env c F s" by (simp add: free_chunk_def page_granted_def s1)
  have "L c = rev (rev (L c)) @ []" by simp
  note V = alloc_search_victim [OF a1 this un1 _ se [unfolded tl], unfolded v1, simplified]
  have al0: "slabs_alloc env ?nt c ?s1 = Some (it, s3)" if "v = NULL"
    using V that al by (auto split: if_splits)
  then show "lru_victim 5 cur_hv s (rev (L c)) = NULL \<Longrightarrow>
      \<exists>s3. slabs_alloc env ?nt c ?s1 = Some (it, s3) \<and> slabclass s' = slabclass s3"
    using sc by (auto simp: v_def)
  show "it = item_choice env c F s (lru_victim 5 cur_hv s (rev (L c)))"
  proof (cases "v = NULL")
    case True
    note C = slabs_alloc_chunk [OF al0 [OF True]]
    have "it = free_chunk env c F ?s1"
      by (rule C) (use alloc_preD [OF a1] cache_invD(3) [of ?s1 M L F] in \<open>auto simp: room_apart_def\<close>)
    then show ?thesis using True by (simp add: item_choice_def v_def [symmetric] fc1)
  next
    case False
    with V have q: "q = v" "0 < t" "it_refcount (heap ?s1 v) = 1" and "it = r"
      using al by (auto split: if_splits)
    from V False obtain s8 where
      "alloc_take env ?nt c (hash_fn ?s1 (item_key (heap ?s1 v))) ?o v (locked_for v ?s1) = Some (r, tried, s8)"
      using q by (auto split: if_splits)
    note T = alloc_take_choice [OF this, of F]
    note B = alloc_preD [OF a1] and G = locked_for_fields [OF q(3)]
    have "r = (if item_expired (heap (locked_for v ?s1) v) ?o (current_time (locked_for v ?s1)) then v
       else if free_chunk env c F (locked_for v ?s1) \<noteq> NULL then free_chunk env c F (locked_for v ?s1)
       else if evict_to_free (settings (locked_for v ?s1)) then v else NULL)"
    proof (rule T)
      show "freelists (locked_for v ?s1) F" using G(10) [OF B(1)] by (rule cache_invD(3))
    qed (use B in \<open>auto simp: G chunks_fit_def room_apart_def page_fresh_def alloc_same_def\<close>)
    then show ?thesis using \<open>it = r\<close> False
      by (simp add: item_choice_def v_def [symmetric] G fc1 item_expired_def)
  qed
qed

section \<open>Properties\<close>

text \<open>A cache whose class 1 has chunks of 1000 bytes, two to a page, and no page yet.\<close>

definition example_sized :: items_state where
  "example_sized = example_cache
     \<lparr>slabclass := (slabclass example_cache)(1 := (slabclass example_cache 1)\<lparr>sc_size := 1000, sc_perslab := 2\<rparr>)\<rparr>"

text \<open>C99: \<open>do_item_alloc\<close>, asked for an item of class \<open>c\<close>, returns whatever the outcome of \<open>malloc\<close>,
  the state of the LRU list and the locks that others hold are, when tail repair is off
  (\<open>tail_repair_time = 0\<close>, the default) and memory is not preallocated (\<open>mem_base = NULL\<close>). It gives NULL
  and no cached item is gone, or an item outside the cache that can be linked and carries the whole
  header: key, key length, data length, flags, suffix, expiry time, class and one reference; at most one
  cached item was given up for it, the one returned. When no item that the search may meet is in use
  by somebody else, the outcome is determined: it is the victim at the tail if that has expired,
  else the next free chunk (of the free list or of a new page), else the victim if eviction is on, else
  NULL. The table, the lists and the free lists stay consistent, and every other item in use
  (the set \<open>Q\<close>) keeps its contents and does not become free; an item that somebody else holds (the
  set \<open>X\<close>) is never the one that is given up.\<close>

theorem alloc_item:
  assumes "alloc_pre env c X Q s M L F" "slabs_clsid (item_ntotal_for nkey flags nbytes s) s = Some c"
    and "\<not> cache_lock s" "nkey \<le> length key" "nkey < 256" "0 < nkey"
  shows "\<exists>it s' M' L' F'. do_item_alloc env key nkey flags exptime nbytes cur_hv s = Some (it, s') \<and>
     cache_inv s' M' L' F' \<and> (\<forall>q\<in>Q. q \<noteq> it \<longrightarrow> kept (heap s q) (heap s' q)) \<and>
     (\<forall>q\<in>Q. \<forall>d\<in>classes s. q \<notin> set (F' d)) \<and>
     (tail_unused cur_hv s (rev (L c)) \<longrightarrow> it = item_choice env c F s (lru_victim 5 cur_hv s (rev (L c)))) \<and>
     (if it = NULL then M' = M
      else linkable s' L' F' it \<and> (M' = M \<and> it \<notin> Q \<or> (\<exists>k. M k = Some it \<and> it \<notin> X \<and> M' = M(k := None))) \<and>
        item_key (heap s' it) = take nkey key \<and> it_nkey (heap s' it) = of_nat nkey \<and>
        it_nbytes (heap s' it) = of_int nbytes \<and> it_refcount (heap s' it) = 1 \<and>
        it_exptime (heap s' it) = exptime \<and> unat (it_slabs_clsid (heap s' it)) = c \<and>
        it_flags (heap s' it) = (if use_cas (settings s) then ITEM_CAS else 0) \<and>
        it_suffix (heap s' it) = fst (item_make_header (of_nat nkey + 1) flags nbytes))"
  using do_item_alloc_inv [OF assms, of exptime cur_hv] do_item_alloc_choice [OF assms(1,2)] by blast

lemma example_sized_pre:
  "alloc_pre \<lparr>realloc_ok = True, malloc_page = 4096\<rparr> 1 {} {160} example_sized Map.empty (\<lambda>_. []) (\<lambda>_. [])"
proof -
  have "cache_inv example_sized Map.empty (\<lambda>_. []) (\<lambda>_. [])"
  proof (rule cache_invI)
    have r: "assoc_rel example_cache Map.empty" "lru_rel example_cache (\<lambda>_. [])"
      by (rule cache_invD [OF example_cache_inv])+
    show "assoc_rel example_sized Map.empty" using r(1) by (rule assoc_rel_local) (simp_all add: example_sized_def)
    show "lru_rel example_sized (\<lambda>_. [])" using r(2) by (simp add: lru_rel_def example_sized_def)
    show "freelists example_sized (\<lambda>_. [])"
      by (simp add: freelists_def freelist_def example_sized_def example_cache_def boot_fields zero_class_def)
  qed (simp_all add: example_sized_def lru_items_def total_bytes_def stats_init_def POWER_LARGEST_def)
  then show ?thesis
    by (simp add: alloc_pre_def classes_def example_sized_def LARGEST_ID_def POWER_LARGEST_def POWER_SMALLEST_def
        chunks_fit_def page_len_def room_apart_def page_fresh_def example_cache_def boot_fields settings_init_def)
qed

theorem alloc_item_witness:
  "\<exists>s'. do_item_alloc \<lparr>realloc_ok = True, malloc_page = 4096\<rparr> [102, 111, 111] 3 0 0 5 7 example_sized = Some (5096, s') \<and>
     item_key (heap s' 5096) = [102, 111, 111] \<and> it_nbytes (heap s' 5096) = 5 \<and> it_refcount (heap s' 5096) = 1 \<and>
     it_suffix (heap s' 5096) = [32, 48, 32, 51, 13, 10]"
proof -
  let ?env = "\<lparr>realloc_ok = True, malloc_page = 4096\<rparr>"
  have h: "item_make_header 4 0 5 = ([32, 48, 32, 51, 13, 10], 6, 63)" by code_simp
  have "slabs_clsid (item_ntotal_for 3 0 5 example_sized) example_sized = Some 1"
    by (simp add: item_ntotal_for_def h slabs_clsid_def POWER_SMALLEST_def slabs_clsid_loop.simps
        example_sized_def settings_init_def)
  moreover have "\<not> cache_lock example_sized" by (simp add: example_sized_def)
  moreover have "page_granted ?env 1 example_sized"
    by (simp add: page_granted_def example_sized_def example_cache_def boot_fields zero_class_def)
  then have "item_choice ?env 1 (\<lambda>_. []) example_sized NULL = 5096"
    by (simp add: item_choice_def free_chunk_def example_sized_def chunks_def upt_rec)
  moreover have "tail_unused 7 example_sized []" by (simp add: tail_unused_def)
  ultimately obtain s' where "do_item_alloc ?env [102, 111, 111] 3 0 0 5 7 example_sized = Some (5096, s')"
    "item_key (heap s' 5096) = take 3 [102, 111, 111]" "it_nbytes (heap s' 5096) = 5" "it_refcount (heap s' 5096) = 1"
    "it_suffix (heap s' 5096) = [32, 48, 32, 51, 13, 10]"
    using alloc_item [OF example_sized_pre, of 3 0 5 "[102, 111, 111]" 0 7] by (auto simp: h)
  then show ?thesis by (auto simp: numeral_3_eq_3)
qed

end
