(* ===== verification/MC_Crawler.thy ===== *)
theory MC_Crawler
  imports MC_Lru
begin

text \<open>
  The LRU crawler (the end of \<open>items.c\<close>): a pseudo-item per slab class that is put at the tail of
  the LRU list and swings itself past one item after the other, so that a background thread can
  free expired items in the middle of the lists.  The crawlers are the elements of a static
  array; they are items of size 0 at the addresses \<open>crawler_ptr s i\<close>, with the extra field
  \<open>remaining\<close> kept in \<open>crawler_remaining\<close>.  The thread's loop is split at its condition wait.
\<close>

unbundle bit_operations_syntax

section \<open>State and operations\<close>

record crawler_state = items_state +
  crawlers_base :: ptr
  crawler_remaining :: "nat \<Rightarrow> u32"
  crawler_count :: int
  do_run_lru_crawler_thread :: bool
  lru_crawler_initialized :: bool
  lru_crawler_lock :: bool
  lru_crawler_cond :: bool

datatype crawler_result_type = CRAWLER_OK | CRAWLER_RUNNING | CRAWLER_BADCLASS

text \<open>\<open>&crawlers[i]\<close>, with \<open>sizeof(crawler)\<close> 48.\<close>

definition crawler_ptr :: "'a crawler_state_scheme \<Rightarrow> nat \<Rightarrow> ptr" where
  "crawler_ptr s i = crawlers_base s + 48 * i"

definition crawler_link_q :: "ptr \<Rightarrow> 'a items_state_scheme \<Rightarrow> 'a items_state_scheme option" where
  "crawler_link_q it s = do {
     let c = unat (it_slabs_clsid (heap s it));
     c_assert (c < LARGEST_ID);
     c_assert (it_flags (heap s it) = 1);
     c_assert (it_nbytes (heap s it) = 0);
     c_assert (tails s c \<noteq> NULL);
     c_assert (it \<noteq> tails s c);
     c_assert ((heads s c \<noteq> NULL \<and> tails s c \<noteq> NULL) \<or> (heads s c = NULL \<and> tails s c = NULL));
     let s1 = upd_item it (\<lambda>i. i\<lparr>it_prev := tails s c\<rparr>) s;
     let s2 = upd_item it (\<lambda>i. i\<lparr>it_next := NULL\<rparr>) s1;
     c_assert (it_prev (heap s2 it) \<noteq> NULL \<longrightarrow> it_next (heap s2 (it_prev (heap s2 it))) = NULL);
     let s3 = upd_item_if (it_prev (heap s2 it)) (\<lambda>i. i\<lparr>it_next := it\<rparr>) s2;
     let s4 = s3\<lparr>tails := (tails s3)(c := it)\<rparr>;
     Some (if heads s4 c = NULL then s4\<lparr>heads := (heads s4)(c := it)\<rparr> else s4)
   }"

definition crawler_unlink_q :: "ptr \<Rightarrow> 'a items_state_scheme \<Rightarrow> 'a items_state_scheme option" where
  "crawler_unlink_q it s = unlink_from_list it (unat (it_slabs_clsid (heap s it))) s"

text \<open>The result is the item the crawler has moved past, NULL at the end.\<close>

definition crawler_crawl_q :: "ptr \<Rightarrow> 'a items_state_scheme \<Rightarrow> (ptr \<times> 'a items_state_scheme) option" where
  "crawler_crawl_q it s = do {
     let c = unat (it_slabs_clsid (heap s it));
     c_assert (it_flags (heap s it) = 1);
     c_assert (it_nbytes (heap s it) = 0);
     c_assert (c < LARGEST_ID);
     if it_prev (heap s it) = NULL
     then do {
       c_assert (heads s c = it);
       let n = it_next (heap s it);
       if n \<noteq> NULL
       then do {
         let s1 = s\<lparr>heads := (heads s)(c := n)\<rparr>;
         c_assert (it_prev (heap s1 n) = it);
         Some (NULL, upd_item n (\<lambda>i. i\<lparr>it_prev := NULL\<rparr>) s1)
       }
       else Some (NULL, s)
     }
     else do {
       let y = it_prev (heap s it);
       c_assert (y \<noteq> it);
       let s1 = (if heads s c = y then s\<lparr>heads := (heads s)(c := it)\<rparr> else s);
       let s2 = (if tails s1 c = it then s1\<lparr>tails := (tails s1)(c := y)\<rparr> else s1);
       let n = it_next (heap s2 it);
       c_assert (n \<noteq> it);
       c_assert (n \<noteq> NULL \<longrightarrow> it_next (heap s2 y) = it);
       let s3 = upd_item y (\<lambda>i. i\<lparr>it_next := n\<rparr>) s2;
       let s4 = upd_item_if n (\<lambda>i. i\<lparr>it_prev := y\<rparr>) s3;
       let s5 = upd_item it (\<lambda>i. i\<lparr>it_next := y\<rparr>) s4;
       let s6 = upd_item it (\<lambda>i. i\<lparr>it_prev := it_prev (heap s5 y)\<rparr>) s5;
       let s7 = upd_item y (\<lambda>i. i\<lparr>it_prev := it\<rparr>) s6;
       let s8 = upd_item_if (it_prev (heap s7 it)) (\<lambda>i. i\<lparr>it_next := it\<rparr>) s7;
       c_assert (it_next (heap s8 it) \<noteq> it);
       c_assert (it_prev (heap s8 it) \<noteq> it);
       Some (it_next (heap s8 it), s8)
     }
   }"

definition item_crawler_evaluate ::
  "ptr \<Rightarrow> u32 \<Rightarrow> nat \<Rightarrow> 'a items_state_scheme \<Rightarrow> 'a items_state_scheme option" where
  "item_crawler_evaluate search hv i s =
     (if item_expired (heap s search) (oldest_live (settings s)) (current_time s)
      then do {
        let s1 = upd_itemstats i (\<lambda>t. t\<lparr>crawler_reclaimed := crawler_reclaimed t + 1\<rparr>) s;
        let s2 = (if it_flags (heap s1 search) AND ITEM_FETCHED = 0
                  then upd_itemstats i (\<lambda>t. t\<lparr>expired_unfetched := expired_unfetched t + 1\<rparr>) s1 else s1);
        s3 \<leftarrow> do_item_unlink_nolock search hv s2;
        s4 \<leftarrow> do_item_remove search s3;
        c_assert (it_slabs_clsid (heap s4 search) = 0);
        Some s4
      }
      else Some (snd (refcount_decr search s)))"

text \<open>One round of the thread's loop over the classes.\<close>

definition crawl_class :: "nat \<Rightarrow> 'a crawler_state_scheme \<Rightarrow> 'a crawler_state_scheme option" where
  "crawl_class i s =
     (if it_flags (heap s (crawler_ptr s i)) \<noteq> 1 then Some s
      else do {
        s1 \<leftarrow> cache_lock_acquire s;
        (search, s2) \<leftarrow> crawler_crawl_q (crawler_ptr s1 i) s1;
        let r = crawler_remaining s2 i;
        let (stop, s3) = (if search = NULL then (True, s2)
                          else if r \<noteq> 0 then (r - 1 < 1, s2\<lparr>crawler_remaining := (crawler_remaining s2)(i := r - 1)\<rparr>)
                          else (False, s2));
        if stop
        then do {
          let s4 = upd_item (crawler_ptr s3 i) (\<lambda>j. j\<lparr>it_flags := 0\<rparr>) s3;
          let s5 = s4\<lparr>crawler_count := crawler_count s4 - 1\<rparr>;
          s6 \<leftarrow> crawler_unlink_q (crawler_ptr s5 i) s5;
          Some (cache_lock_release s6)
        }
        else
          let hv = hash_fn s3 (item_key (heap s3 search))
          in case item_trylock hv s3 of
            (None, s4) \<Rightarrow> Some (cache_lock_release s4)
          | (Some lock, s4) \<Rightarrow>
              (case refcount_incr search s4 of (rc, s5) \<Rightarrow>
                if rc \<noteq> 2
                then Some (cache_lock_release (item_trylock_unlock lock (snd (refcount_decr search s5))))
                else do {
                  s6 \<leftarrow> item_crawler_evaluate search hv i s5;
                  Some (cache_lock_release (item_trylock_unlock lock s6))
                })
      })"

fun crawl_classes :: "nat \<Rightarrow> nat \<Rightarrow> 'a crawler_state_scheme \<Rightarrow> 'a crawler_state_scheme option" where
  "crawl_classes 0 i s = Some s"
| "crawl_classes (Suc n) i s = do { s1 \<leftarrow> crawl_class i s; crawl_classes n (i + 1) s1 }"

partial_function (option) crawl_loop :: "'a crawler_state_scheme \<Rightarrow> 'a crawler_state_scheme option" where
  "crawl_loop s =
     (if crawler_count s \<noteq> 0 then do { s1 \<leftarrow> crawl_classes LARGEST_ID 0 s; crawl_loop s1 } else Some s)"

text \<open>From the wake-up of the condition wait to the next one (or the end of the thread); the wait
  gives \<open>lru_crawler_lock\<close> back.\<close>

definition item_crawler_wake :: "'a crawler_state_scheme \<Rightarrow> 'a crawler_state_scheme option" where
  "item_crawler_wake s =
     (if lru_crawler_lock s then None
      else do {
        s1 \<leftarrow> crawl_loop (s\<lparr>lru_crawler_lock := True, lru_crawler_cond := False\<rparr>);
        let s2 = s1\<lparr>stats := (stats s1)\<lparr>lru_crawler_running := False\<rparr>\<rparr>;
        Some (s2\<lparr>lru_crawler_lock := False\<rparr>)
      })"

definition stop_item_crawler_thread ::
  "bool \<Rightarrow> 'a crawler_state_scheme \<Rightarrow> (int \<times> 'a crawler_state_scheme) option" where
  "stop_item_crawler_thread join_ok s =
     (if lru_crawler_lock s then None
      else let s1 = s\<lparr>do_run_lru_crawler_thread := False, lru_crawler_cond := True\<rparr>
           in if \<not> join_ok then Some (-1, s1)
              else Some (0, s1\<lparr>settings := (settings s1)\<lparr>lru_crawler := False\<rparr>\<rparr>))"

definition start_item_crawler_thread ::
  "bool \<Rightarrow> 'a crawler_state_scheme \<Rightarrow> (int \<times> 'a crawler_state_scheme) option" where
  "start_item_crawler_thread create_ok s =
     (if lru_crawler (settings s) then Some (-1, s)
      else if lru_crawler_lock s then None
      else let s1 = s\<lparr>do_run_lru_crawler_thread := True,
                      settings := (settings s)\<lparr>lru_crawler := True\<rparr>\<rparr>
           in Some (if create_ok then 0 else -1, s1))"

text \<open>\<open>strtok_r\<close> with the delimiter \<open>,\<close>: the maximal non-empty pieces.\<close>

fun split_commas :: "bytes \<Rightarrow> bytes \<Rightarrow> bytes list" where
  "split_commas acc [] = (if acc = [] then [] else [rev acc])"
| "split_commas acc (c # cs) =
     (if c = 44 then (if acc = [] then split_commas [] cs else rev acc # split_commas [] cs)
      else split_commas (c # acc) cs)"

text \<open>The loop over the tokens.  The local array \<open>tocrawl\<close> has \<open>POWER_LARGEST\<close> entries and is not
  initialised: its contents at the start are an argument, and a write beyond it is \<open>None\<close>.\<close>

fun parse_classes :: "bytes list \<Rightarrow> (nat \<Rightarrow> u8) \<Rightarrow> (nat \<Rightarrow> u8) option option" where
  "parse_classes [] t = Some (Some t)"
| "parse_classes (p # ps) t =
     (case safe_strtoul p of
        (ok, sid) \<Rightarrow>
          if \<not> ok \<or> unat sid < POWER_SMALLEST \<or> unat sid > POWER_LARGEST then Some None
          else if unat sid < POWER_LARGEST then parse_classes ps (t(unat sid := 1))
          else None)"

definition kick_class :: "nat \<Rightarrow> (nat \<Rightarrow> u8) \<Rightarrow> 'a crawler_state_scheme \<Rightarrow> 'a crawler_state_scheme option" where
  "kick_class sid t s =
     (if t sid \<noteq> 0 \<and> tails s sid \<noteq> NULL
      then do {
        let p = crawler_ptr s sid;
        let s1 = upd_item p (\<lambda>i. i\<lparr>it_nbytes := 0, it_nkey := 0, it_flags := 1, it_next := NULL,
                     it_prev := NULL, it_time := 0, it_slabs_clsid := of_nat sid\<rparr>) s;
        let s2 = s1\<lparr>crawler_remaining := (crawler_remaining s1)(sid := lru_crawler_tocrawl (settings s1))\<rparr>;
        s3 \<leftarrow> crawler_link_q p s2;
        Some (s3\<lparr>crawler_count := crawler_count s3 + 1\<rparr>)
      }
      else Some s)"

fun kick_classes :: "nat \<Rightarrow> nat \<Rightarrow> (nat \<Rightarrow> u8) \<Rightarrow> 'a crawler_state_scheme \<Rightarrow> 'a crawler_state_scheme option" where
  "kick_classes 0 sid t s = Some s"
| "kick_classes (Suc n) sid t s = do { s1 \<leftarrow> kick_class sid t s; kick_classes n (sid + 1) t s1 }"

definition lru_crawler_crawl ::
  "(nat \<Rightarrow> u8) \<Rightarrow> bytes \<Rightarrow> 'a crawler_state_scheme \<Rightarrow> (crawler_result_type \<times> 'a crawler_state_scheme) option" where
  "lru_crawler_crawl tocrawl0 slabs s =
     (if lru_crawler_lock s then Some (CRAWLER_RUNNING, s)
      else do {
        s1 \<leftarrow> cache_lock_acquire (s\<lparr>lru_crawler_lock := True\<rparr>);
        r \<leftarrow> (if slabs = ascii ''all'' then Some (Some (\<lambda>i. if i < LARGEST_ID then 1 else tocrawl0 i))
              else parse_classes (split_commas [] slabs) tocrawl0);
        case r of
          None \<Rightarrow> Some (CRAWLER_BADCLASS, (cache_lock_release s1)\<lparr>lru_crawler_lock := False\<rparr>)
        | Some t \<Rightarrow> do {
            s2 \<leftarrow> kick_classes LARGEST_ID 0 t s1;
            let s3 = (cache_lock_release s2)\<lparr>lru_crawler_cond := True\<rparr>;
            let s4 = s3\<lparr>stats := (stats s3)\<lparr>lru_crawler_running := True\<rparr>\<rparr>;
            Some (CRAWLER_OK, s4\<lparr>lru_crawler_lock := False\<rparr>)
          }
      })"

definition init_lru_crawler :: "bool \<Rightarrow> 'a crawler_state_scheme \<Rightarrow> int \<times> 'a crawler_state_scheme" where
  "init_lru_crawler cond_ok s =
     (if \<not> lru_crawler_initialized s
      then if cond_ok then (0, s\<lparr>lru_crawler_lock := False, lru_crawler_initialized := True\<rparr>) else (-1, s)
      else (0, s))"

section \<open>Moving a crawler\<close>

text \<open>Exchanging two neighbours in a doubly linked list.\<close>

lemma dll_swap:
  assumes d: "dll nx pv p (xs @ y # x # ys) l"
  defines "nx1 \<equiv> nx(y := nx x, x := y)" and "pv1 \<equiv> (if nx x = NULL then pv else pv(nx x := y))(x := pv y, y := x)"
  shows "dll (if pv y = NULL then nx1 else nx1(pv y := x)) pv1
      (if p = y then x else p) (xs @ x # y # ys) (if l = x then y else l)"
    "pv x = y" "nx y = x" "x \<noteq> y" "x \<noteq> NULL" "y \<noteq> NULL" "nx x \<noteq> x" "nx x \<noteq> y" "pv y \<noteq> x" "pv y \<noteq> y"
    "pv y = NULL \<or> pv y \<in> set xs" "nx x = NULL \<or> nx x \<in> set ys"
proof -
  from d have dist: "distinct (xs @ y # x # ys)" and nn: "NULL \<notin> set (xs @ y # x # ys)"
    by (blast dest: dll_distinct dll_NULL_notin)+
  from d obtain a: "dseg nx pv NULL p xs (pv y) y" and yx: "nx y = x" "pv x = y" and b: "dseg nx pv x (nx x) ys l NULL"
    by (auto simp: dseg_append)
  show "pv x = y" "nx y = x" "x \<noteq> y" "x \<noteq> NULL" "y \<noteq> NULL" using yx dist nn by auto
  have pvy: "xs \<noteq> [] \<Longrightarrow> pv y \<in> set xs" using a by (metis dseg_last last_in_set)
  have nxx: "ys \<noteq> [] \<Longrightarrow> nx x \<in> set ys" using b by (metis dseg_first hd_in_set)
  have pvy0: "xs = [] \<Longrightarrow> pv y = NULL" and nxx0: "ys = [] \<Longrightarrow> nx x = NULL" using a b by auto
  show mem: "pv y = NULL \<or> pv y \<in> set xs" "nx x = NULL \<or> nx x \<in> set ys"
    using pvy pvy0 nxx nxx0 by blast+
  then show ne: "nx x \<noteq> x" "nx x \<noteq> y" "pv y \<noteq> x" "pv y \<noteq> y" using dist nn by auto
  let ?nx = "if pv y = NULL then nx1 else nx1(pv y := x)"
  have "dseg (if pv y = NULL then nx else nx(pv y := x)) pv NULL (if xs = [] then x else p) xs (pv y) x"
    by (rule dseg_set_end_if [OF a]) (use dist in simp)
  then have a1: "dseg ?nx pv1 NULL (if xs = [] then x else p) xs (pv y) x"
    by (rule dseg_cong [THEN iffD1, rotated 2]) (use dist mem(2) nn in \<open>auto simp: nx1_def pv1_def\<close>)
  have "dseg nx (if nx x = NULL then pv else pv(nx x := y)) y (nx x) ys (if ys = [] then y else l) NULL"
    by (rule dseg_set_begin_if [OF b]) (use dist in simp)
  then have b1: "dseg ?nx pv1 y (nx x) ys (if ys = [] then y else l) NULL"
    by (rule dseg_cong [THEN iffD1, rotated 2]) (use dist mem(1) nn in \<open>auto simp: nx1_def pv1_def\<close>)
  have e: "?nx x = y" "?nx y = nx x" "pv1 x = pv y" "pv1 y = x"
    using ne yx dist nn mem by (auto simp: nx1_def pv1_def)
  have "dll ?nx pv1 (if xs = [] then x else p) (xs @ x # y # ys) (if ys = [] then y else l)"
    using a1 b1 e dist nn by (auto simp: dseg_append)
  moreover have "(if xs = [] then x else p) = (if p = y then x else p)"
    using a dist by (auto dest!: dseg_first split: if_splits)
  moreover have "(if ys = [] then y else l) = (if l = x then y else l)"
    using b dist by (auto dest!: dseg_last split: if_splits)
  ultimately show "dll ?nx pv1 (if p = y then x else p) (xs @ x # y # ys) (if l = x then y else l)" by simp
qed

lemma cache_inv_lists:
  assumes i: "cache_inv s M L F" and f: "list_frame s s'" and l: "lru_rel s' L'"
    and items: "\<And>p. (\<exists>c<LARGEST_ID. p \<in> set (L' c) \<and> is_item (heap s p)) \<longleftrightarrow> p \<in> lru_items s L"
    and L0: "L' 0 = []" and free: "\<And>d p. d \<in> classes s \<Longrightarrow> p \<in> set (F d) \<Longrightarrow> heap s' p = heap s p"
  shows "cache_inv s' M L' F"
proof -
  note I = cache_invD [OF i] and E = list_frameD [OF f]
  note h = links_onlyD [OF E(1)]
  have k: "item_key (heap s' p) = item_key (heap s p)" "key_ok (heap s' p) = key_ok (heap s p)"
    "is_item (heap s' p) = is_item (heap s p)" "ITEM_ntotal (heap s' p) = ITEM_ntotal (heap s p)"
    "is_linked (heap s' p) = is_linked (heap s p)" "is_slabbed (heap s' p) = is_slabbed (heap s p)" for p
    by (simp_all add: item_key_def key_ok_def is_item_def is_linked_def is_slabbed_def ITEM_ntotal_def cas_size_def h)
  show ?thesis
  proof (rule cache_invI [OF _ l])
    show "assoc_rel s' M" by (rule assoc_rel_frame [OF I(1)]) (simp_all add: h k E)
    show "freelists s' F" by (rule freelists_frame [OF I(3)]) (simp_all add: E free)
    show "power_largest s' \<le> POWER_LARGEST" using I(4) E by simp
    show "ran M = lru_items s' L'" using I(6) items by (auto simp: lru_items_def k)
    show "item_ok s' (heap s' p)" if "p \<in> ran M" for p
      using I(7) [OF that] by (simp add: item_ok_def k h E)
    show "curr_items (stats s') = of_nat (card (dom M))" using I(8) E by simp
    have "total_bytes (heap s') M = total_bytes (heap s) M" by (rule total_bytes_cong) (simp add: k)
    then show "curr_bytes (stats s') = total_bytes (heap s') M" using I(9) E by simp
  qed (rule L0)
qed

text \<open>A crawler that is in a list.\<close>

definition crawler_at :: "(ptr \<Rightarrow> item) \<Rightarrow> nat \<Rightarrow> ptr \<Rightarrow> bool" where
  "crawler_at h c p \<longleftrightarrow> it_flags (h p) = 1 \<and> it_nbytes (h p) = 0 \<and> it_nkey (h p) = 0 \<and>
     it_slabs_clsid (h p) = of_nat c \<and> p \<noteq> NULL"

lemma crawler_not_item: "crawler_at h c p \<Longrightarrow> \<not> is_item (h p)"
  by (simp add: crawler_at_def is_item_def)

lemma crawler_at_links: "links_only h h' \<Longrightarrow> crawler_at h' c p = crawler_at h c p"
  by (simp add: crawler_at_def links_onlyD)

lemma crawler_class: "crawler_at h c p \<Longrightarrow> c < LARGEST_ID \<Longrightarrow> unat (it_slabs_clsid (h p)) = c"
  by (simp add: crawler_at_def unat_of_nat_class)

lemma lru_list_swap:
  assumes l: "lru_list h c hp tp sz (xs @ y # x # ys)"
    and h1: "h1 = h(y := (h y)\<lparr>it_next := it_next (h x), it_prev := x\<rparr>,
                    x := (h x)\<lparr>it_next := y, it_prev := it_prev (h y)\<rparr>)"
    and h2: "h2 = (if it_next (h x) \<noteq> NULL
                   then h1(it_next (h x) := (h1 (it_next (h x)))\<lparr>it_prev := y\<rparr>) else h1)"
    and h3: "h3 = (if it_prev (h y) \<noteq> NULL
                   then h2(it_prev (h y) := (h2 (it_prev (h y)))\<lparr>it_next := x\<rparr>) else h2)"
  shows "lru_list h3 c (if hp = y then x else hp) (if tp = x then y else tp) sz (xs @ x # y # ys)"
    "links_only h h3" "\<And>p. p \<notin> set (xs @ y # x # ys) \<Longrightarrow> h3 p = h p"
proof -
  let ?nx = "\<lambda>p. it_next (h p)" and ?pv = "\<lambda>p. it_prev (h p)"
  from l have d: "dll ?nx ?pv hp (xs @ y # x # ys) tp" by (simp add: lru_list_def)
  note dist = dll_distinct [OF d] and nn = dll_NULL_notin [OF d]
  note sw = dll_swap [OF d]
  have "links_only h h1" unfolding h1 by (simp add: links_only_def)
  moreover have "links_only h1 h2" unfolding h2 by (simp add: links_only_def)
  moreover have "links_only h2 h3" unfolding h3 by (simp add: links_only_def)
  ultimately show lo: "links_only h h3" by (blast intro: links_only_trans)
  show "h3 p = h p" if "p \<notin> set (xs @ y # x # ys)" for p
    using that sw(11,12) unfolding h3 h2 h1 by auto
  have ne: "?nx x \<noteq> NULL \<Longrightarrow> ?nx x \<noteq> ?pv y" using sw(11,12) dist nn by auto
  have "(\<lambda>p. it_next (h3 p)) = (if ?pv y = NULL then ?nx(y := ?nx x, x := y) else ?nx(y := ?nx x, x := y, ?pv y := x))"
    using ne sw(4-10) unfolding h3 h2 h1 by (auto simp: fun_eq_iff)
  moreover have "(\<lambda>p. it_prev (h3 p)) = (if ?nx x = NULL then ?pv else ?pv(?nx x := y))(x := ?pv y, y := x)"
    using ne sw(4-10) unfolding h3 h2 h1 by (auto simp: fun_eq_iff)
  ultimately have "dll (\<lambda>p. it_next (h3 p)) (\<lambda>p. it_prev (h3 p)) (if hp = y then x else hp) (xs @ x # y # ys)
      (if tp = x then y else tp)" using sw(1) by simp
  moreover have it: "is_item (h3 p) = is_item (h p)" "it_slabs_clsid (h3 p) = it_slabs_clsid (h p)" for p
    using links_onlyD [OF lo, of p] by (simp_all add: is_item_def)
  moreover have "sz = of_nat (length (filter (\<lambda>p. is_item (h p)) (xs @ x # y # ys)))"
    using l by (simp add: lru_list_def)
  ultimately show "lru_list h3 c (if hp = y then x else hp) (if tp = x then y else tp) sz (xs @ x # y # ys)"
    using l by (auto simp: lru_list_def)
qed

text \<open>One step of a crawler past the item in front of it.\<close>

lemma crawler_crawl_q_step:
  assumes l: "lru_rel s L" and c: "c < LARGEST_ID" and p: "crawler_at (heap s) c p"
    and L: "L c = xs @ y # p # ys"
  shows "\<exists>s'. crawler_crawl_q p s = Some (y, s') \<and> lru_rel s' (L(c := xs @ p # y # ys)) \<and> list_frame s s' \<and>
     (\<forall>q. q \<notin> set (L c) \<longrightarrow> heap s' q = heap s q)"
proof -
  note lc = lru_relD [OF l c, unfolded L]
  from lc have d: "dll (nxt s) (prv s) (heads s c) (xs @ y # p # ys) (tails s c)" by (simp add: lru_list_def)
  note sw = dll_swap [OF d]
  let ?n = "it_next (heap s p)" and ?m = "it_prev (heap s y)"
  define h1 where "h1 = (heap s)(y := (heap s y)\<lparr>it_next := ?n, it_prev := p\<rparr>,
                    p := (heap s p)\<lparr>it_next := y, it_prev := ?m\<rparr>)"
  define h2 where "h2 = (if ?n \<noteq> NULL then h1(?n := (h1 ?n)\<lparr>it_prev := y\<rparr>) else h1)"
  define h3 where "h3 = (if ?m \<noteq> NULL then h2(?m := (h2 ?m)\<lparr>it_next := p\<rparr>) else h2)"
  note ls = lru_list_swap [OF lc h1_def h2_def h3_def]
  let ?s' = "s\<lparr>heap := h3, heads := (if heads s c = y then (heads s)(c := p) else heads s),
               tails := (if tails s c = p then (tails s)(c := y) else tails s)\<rparr>"
  have cl: "unat (it_slabs_clsid (heap s p)) = c" by (rule crawler_class [OF p c])
  have fl: "it_flags (heap s p) = 1" "it_nbytes (heap s p) = 0" using p by (simp_all add: crawler_at_def)
  have nm: "?n \<noteq> NULL \<Longrightarrow> ?n \<noteq> ?m"
    using sw(11,12) dll_distinct [OF d] dll_NULL_notin [OF d] by auto
  define sh where "sh = s\<lparr>heads := (if heads s c = y then (heads s)(c := p) else heads s),
               tails := (if tails s c = p then (tails s)(c := y) else tails s)\<rparr>"
  have sh: "heap sh = heap s" "?s' = sh\<lparr>heap := h3\<rparr>" by (simp_all add: sh_def)
  have head: "(if tails (if heads s c = y then s\<lparr>heads := (heads s)(c := p)\<rparr> else s) c = p
      then (if heads s c = y then s\<lparr>heads := (heads s)(c := p)\<rparr> else s)
        \<lparr>tails := (tails (if heads s c = y then s\<lparr>heads := (heads s)(c := p)\<rparr> else s))(c := y)\<rparr>
      else (if heads s c = y then s\<lparr>heads := (heads s)(c := p)\<rparr> else s)) = sh"
    by (simp add: sh_def)
  have links: "it_prev (heap s p) = y" "it_next (heap s y) = p" using sw(2,3) by simp_all
  have ne: "y \<noteq> p" "p \<noteq> y" "p \<noteq> NULL" "y \<noteq> NULL" "?n \<noteq> p" "?n \<noteq> y" "?m \<noteq> p" "?m \<noteq> y"
    using sw(4-10) by auto
  have "crawler_crawl_q p s = Some (y, sh\<lparr>heap := h3\<rparr>)"
    unfolding crawler_crawl_q_def cl fl links Let_def head sh(1) h3_def h2_def h1_def
    using ne nm c by (simp add: sh(1) links upd_item_def upd_item_if_def fun_upd_twist)
  then have "crawler_crawl_q p s = Some (y, ?s')" by (simp only: sh(2))
  moreover have "lru_rel ?s' (L(c := xs @ p # y # ys))"
  proof (rule lru_rel_update [OF l c, where x = p])
    show "lru_list (heap ?s') c (heads ?s' c) (tails ?s' c) (sizes ?s' c) (xs @ p # y # ys)"
      using ls(1) by (cases "heads s c = y"; cases "tails s c = p") simp_all
    show "heap ?s' q = heap s q" if "q \<notin> insert p (set (L c))" for q using ls(3) [of q] that L by simp
    show "p \<notin> set (L d)" if "d < LARGEST_ID" "d \<noteq> c" for d
      using lru_class(2) [OF l that(1)] that(2) cl by blast
  qed simp_all
  moreover have "list_frame s ?s'"
    unfolding list_frame_def
    by (rule conjI, simp add: ls(2), rule exI [of _ h3], rule exI [of _ "heads ?s'"],
        rule exI [of _ "tails ?s'"], rule exI [of _ "sizes s"], simp)
  moreover have "\<forall>q. q \<notin> set (L c) \<longrightarrow> heap ?s' q = heap s q" using ls(3) L by auto
  ultimately show ?thesis by blast
qed

lemma list_frameI:
  "links_only (heap s) h \<Longrightarrow> list_frame s (s\<lparr>heap := h, heads := a, tails := b\<rparr>)"
  unfolding list_frame_def
  by (rule conjI, simp, rule exI [of _ h], rule exI [of _ a], rule exI [of _ b], rule exI [of _ "sizes s"], simp)

text \<open>A crawler becomes the new tail.\<close>

lemma crawler_link_q_rel:
  assumes l: "lru_rel s L" and c: "c < LARGEST_ID" and p: "crawler_at (heap s) c p"
    and new: "\<And>d. d < LARGEST_ID \<Longrightarrow> p \<notin> set (L d)" and ne: "L c \<noteq> []"
  shows "\<exists>s'. crawler_link_q p s = Some s' \<and> lru_rel s' (L(c := L c @ [p])) \<and> list_frame s s' \<and>
     (\<forall>q. q \<notin> insert p (set (L c)) \<longrightarrow> heap s' q = heap s q)"
proof -
  note lc = lru_relD [OF l c]
  let ?h = "heads s c" and ?t = "tails s c"
  from lc have d: "dll (nxt s) (prv s) ?h (L c) ?t" by (simp add: lru_list_def)
  have cl: "unat (it_slabs_clsid (heap s p)) = c" by (rule crawler_class [OF p c])
  have fl: "it_flags (heap s p) = 1" "it_nbytes (heap s p) = 0" "p \<noteq> NULL" using p by (simp_all add: crawler_at_def)
  have t: "?t \<noteq> NULL" "?h \<noteq> NULL" "?t \<in> set (L c)" "it_next (heap s ?t) = NULL"
    using dll_head_NULL [OF d] dll_tail_NULL [OF d] dseg_last [OF d] dseg_last_nx [OF d ne] ne by auto
  then have tp: "?t \<noteq> p" using new [OF c] by blast
  define h' where "h' = (heap s)(p := (heap s p)\<lparr>it_prev := ?t, it_next := NULL\<rparr>,
      ?t := (heap s ?t)\<lparr>it_next := p\<rparr>)"
  let ?s' = "s\<lparr>heap := h', heads := heads s, tails := (tails s)(c := p)\<rparr>"
  have "crawler_link_q p s = Some ?s'"
    unfolding crawler_link_q_def cl fl(1,2) Let_def using c t tp tp [symmetric]
    by (simp add: fl upd_item_def upd_item_if_def h'_def)
  moreover have lo: "links_only (heap s) h'" by (simp add: links_only_def h'_def)
  moreover have "lru_rel ?s' (L(c := L c @ [p]))"
  proof (rule lru_rel_update [OF l c, where x = p])
    have "dll (\<lambda>q. it_next (h' q)) (\<lambda>q. it_prev (h' q)) ?h (L c @ [p]) p"
    proof -
      have "(\<lambda>q. it_next (h' q)) = (nxt s)(p := NULL, ?t := p)" "(\<lambda>q. it_prev (h' q)) = (prv s)(p := ?t)"
        using tp by (auto simp: h'_def fun_eq_iff)
      with dll_snoc [OF d new [OF c] fl(3)] t show ?thesis by simp
    qed
    moreover have "is_item (h' q) = is_item (heap s q)" "it_slabs_clsid (h' q) = it_slabs_clsid (heap s q)" for q
      using links_onlyD [OF lo, of q] by (simp_all add: is_item_def)
    ultimately show "lru_list (heap ?s') c (heads ?s' c) (tails ?s' c) (sizes ?s' c) (L c @ [p])"
      using lc crawler_not_item [OF p] p by (simp add: lru_list_def crawler_at_def)
    show "heap ?s' q = heap s q" if "q \<notin> insert p (set (L c))" for q using that t(3) by (auto simp: h'_def)
    show "p \<notin> set (L e)" if "e < LARGEST_ID" for e using new [OF that] .
  qed simp_all
  moreover have "\<forall>q. q \<notin> insert p (set (L c)) \<longrightarrow> heap ?s' q = heap s q" using t(3) by (auto simp: h'_def)
  ultimately show ?thesis using list_frameI by blast
qed

text \<open>A crawler leaves its list.\<close>

lemma crawler_unlink_q_rel:
  assumes l: "lru_rel s L" and c: "c < LARGEST_ID" and p: "p \<in> set (L c)" "\<not> is_item (heap s p)"
  shows "\<exists>s'. crawler_unlink_q p s = Some s' \<and> lru_rel s' (L(c := remove1 p (L c))) \<and> list_frame s s' \<and>
     (\<forall>q. q \<notin> set (L c) - {p} \<longrightarrow> heap s' q = heap s q)"
proof -
  note lc = lru_relD [OF l c]
  have dist: "distinct (L c)" using l c by (rule lru_distinct)
  obtain xs ys where L: "L c = xs @ p # ys" "p \<notin> set xs" "p \<notin> set ys"
    using p(1) dist by (rule split_list_distinct)
  have cl: "unat (it_slabs_clsid (heap s p)) = c" using lru_class(2) [OF l c p(1)] .
  let ?n = "it_next (heap s p)" and ?v = "it_prev (heap s p)"
  let ?h1 = "if ?n \<noteq> NULL then (heap s)(?n := (heap s ?n)\<lparr>it_prev := ?v\<rparr>) else heap s"
  define h2 where "h2 = (if ?v \<noteq> NULL then ?h1(?v := (?h1 ?v)\<lparr>it_next := ?n\<rparr>) else ?h1)"
  note rem = lru_list_remove [OF lc [unfolded L(1)] refl h2_def]
  let ?s' = "s\<lparr>heap := h2, heads := (if heads s c = p then (heads s)(c := ?n) else heads s),
               tails := (if tails s c = p then (tails s)(c := ?v) else tails s)\<rparr>"
  have "crawler_unlink_q p s = Some ?s'"
    using rem(4-7) c
    by (cases "heads s c = p"; cases "tails s c = p"; cases "?n = NULL"; cases "?v = NULL")
      (simp_all add: h2_def crawler_unlink_q_def unlink_from_list_def cl upd_item_def upd_item_if_def Let_def)
  moreover have "lru_rel ?s' (L(c := remove1 p (L c)))"
  proof (rule lru_rel_update [OF l c, where x = p])
    show "lru_list (heap ?s') c (heads ?s' c) (tails ?s' c) (sizes ?s' c) (remove1 p (L c))"
      using rem(1) p(2) unfolding L(1) remove1_mid [OF L(2)]
      by (cases "heads s c = p"; cases "tails s c = p") simp_all
    show "heap ?s' q = heap s q" if "q \<notin> insert p (set (L c))" for q
      using rem(3) [of q] that L(1) by simp
    show "p \<notin> set (L d)" if "d < LARGEST_ID" "d \<noteq> c" for d
      using lru_class(2) [OF l that(1)] that(2) cl by blast
  qed simp_all
  moreover have "list_frame s ?s'" using rem(2) by (rule list_frameI)
  moreover have "\<forall>q. q \<notin> set (L c) - {p} \<longrightarrow> heap ?s' q = heap s q"
    using rem(3) L by auto
  ultimately show ?thesis by blast
qed

end
