(* ===== verification/MC_Rebalance.thy ===== *)
theory MC_Rebalance
  imports MC_Crawler
begin

text \<open>
  The slab rebalancer (\<open>slabs.c\<close>): the thread that empties a page chunk by chunk and hands it
  to another class, and the thread that decides which page to move.  The static variables of
  \<open>slab_automove_decision\<close> are fields of the state.  Both threads are split where they wait:
  the rebalancer runs from one wake-up of its condition to the next wait.
\<close>

unbundle bit_operations_syntax

section \<open>State and operations\<close>

definition crawler_boot :: "ptr \<Rightarrow> (bytes \<Rightarrow> u32) \<Rightarrow> (ptr \<Rightarrow> item) \<Rightarrow> crawler_state" where
  "crawler_boot base hash mem = items_state.extend (items_boot hash mem)
     (crawler_state.fields base (\<lambda>_. 0) 0 False False False False)"

record rebal_state = crawler_state +
  slab_bulk_check :: int
  do_run_slab_thread :: bool
  do_run_slab_rebalance_thread :: bool
  evicted_old :: "nat \<Rightarrow> u64"
  slab_zeroes :: "nat \<Rightarrow> u32"
  slab_winner :: nat
  slab_wins :: u32
  automove_next_run :: u32

datatype move_status = MOVE_PASS | MOVE_DONE | MOVE_BUSY | MOVE_LOCKED

definition upd_rebal :: "(slab_rebalance \<Rightarrow> slab_rebalance) \<Rightarrow> 'a slabs_state_scheme \<Rightarrow> 'a slabs_state_scheme" where
  "upd_rebal f s = s\<lparr>slab_rebal := f (slab_rebal s)\<rparr>"

text \<open>Taking a chunk out of the free list of class \<open>c\<close>.\<close>

definition freelist_remove :: "ptr \<Rightarrow> nat \<Rightarrow> 'a slabs_state_scheme \<Rightarrow> 'a slabs_state_scheme" where
  "freelist_remove it c s =
     (let s1 = (if sc_slots (slabclass s c) = it
                then upd_class c (\<lambda>p. p\<lparr>sc_slots := it_next (heap s it)\<rparr>) s else s);
          s2 = upd_item_if (it_next (heap s1 it)) (\<lambda>i. i\<lparr>it_prev := it_prev (heap s1 it)\<rparr>) s1;
          s3 = upd_item_if (it_prev (heap s2 it)) (\<lambda>i. i\<lparr>it_next := it_next (heap s2 it)\<rparr>) s2
      in upd_class c (\<lambda>p. p\<lparr>sc_sl_curr := sc_sl_curr p - 1\<rparr>) s3)"

definition move_status_of ::
  "ptr \<Rightarrow> nat \<Rightarrow> 'a items_state_scheme \<Rightarrow> (move_status \<times> 'a items_state_scheme) option" where
  "move_status_of it c s =
     (if it_slabs_clsid (heap s it) = 255 then Some (MOVE_PASS, s)
      else let hv = hash_fn s (item_key (heap s it)) in
        case item_trylock hv s of
          (None, s1) \<Rightarrow> Some (MOVE_LOCKED, s1)
        | (Some lock, s1) \<Rightarrow>
            (case refcount_incr it s1 of (rc, s2) \<Rightarrow> do {
               (st, s3) \<leftarrow>
                 (if rc = 1
                  then if it_flags (heap s2 it) AND ITEM_SLABBED \<noteq> 0
                       then Some (MOVE_DONE, freelist_remove it c s2)
                       else Some (MOVE_BUSY, s2)
                  else if rc = 2
                  then if it_flags (heap s2 it) AND ITEM_LINKED \<noteq> 0
                       then do { s3 \<leftarrow> do_item_unlink_nolock it hv s2; Some (MOVE_DONE, s3) }
                       else Some (MOVE_BUSY, s2)
                  else Some (MOVE_BUSY, s2));
               Some (st, item_trylock_unlock lock s3)
             }))"

text \<open>The \<open>switch\<close> on the status; the result tells whether the chunk was busy.\<close>

definition move_finish_chunk ::
  "ptr \<Rightarrow> move_status \<Rightarrow> 'a items_state_scheme \<Rightarrow> bool \<times> 'a items_state_scheme" where
  "move_finish_chunk it st s =
     (case st of
        MOVE_DONE \<Rightarrow>
          (False, upd_item it (\<lambda>i. i\<lparr>it_refcount := 0, it_flags := 0, it_slabs_clsid := 255\<rparr>) s)
      | MOVE_BUSY \<Rightarrow> (True, upd_rebal (\<lambda>r. r\<lparr>busy_items := busy_items r + 1\<rparr>) (snd (refcount_decr it s)))
      | MOVE_LOCKED \<Rightarrow> (True, upd_rebal (\<lambda>r. r\<lparr>busy_items := busy_items r + 1\<rparr>) s)
      | MOVE_PASS \<Rightarrow> (False, s))"

definition move_chunk :: "nat \<Rightarrow> 'a items_state_scheme \<Rightarrow> (bool \<times> 'a items_state_scheme) option" where
  "move_chunk c s = do {
     let it = slab_pos (slab_rebal s);
     (st, s1) \<leftarrow> move_status_of it c s;
     let (busy, s2) = move_finish_chunk it st s1;
     Some (busy, upd_rebal (\<lambda>r. r\<lparr>slab_pos := slab_pos r + unat (sc_size (slabclass s2 c))\<rparr>) s2)
   }"

text \<open>The \<open>for\<close> loop over at most \<open>slab_bulk_check\<close> chunks; it counts the busy ones.\<close>

fun move_chunks ::
  "nat \<Rightarrow> nat \<Rightarrow> int \<Rightarrow> 'a items_state_scheme \<Rightarrow> (int \<times> 'a items_state_scheme) option" where
  "move_chunks 0 c was_busy s = Some (was_busy, s)"
| "move_chunks (Suc n) c was_busy s = do {
     (busy, s1) \<leftarrow> move_chunk c s;
     let was_busy1 = (if busy then was_busy + 1 else was_busy);
     if slab_pos (slab_rebal s1) \<ge> slab_end (slab_rebal s1) then Some (was_busy1, s1)
     else move_chunks n c was_busy1 s1
   }"

text \<open>At the end of the page: again from the top if some chunk was busy, otherwise done.\<close>

definition move_pass_end :: "'a slabs_state_scheme \<Rightarrow> 'a slabs_state_scheme" where
  "move_pass_end s =
     (let r = slab_rebal s
      in if slab_pos r \<ge> slab_end r
         then if busy_items r \<noteq> 0 then s\<lparr>slab_rebal := r\<lparr>slab_pos := slab_start r, busy_items := 0\<rparr>\<rparr>
              else s\<lparr>slab_rebal := r\<lparr>rebal_done := rebal_done r + 1\<rparr>\<rparr>
         else s)"

definition slab_rebalance_move :: "'a rebal_state_scheme \<Rightarrow> (int \<times> 'a rebal_state_scheme) option" where
  "slab_rebalance_move s = do {
     s1 \<leftarrow> cache_lock_acquire s;
     s2 \<leftarrow> slabs_lock_acquire s1;
     c \<leftarrow> class_index (s_clsid (slab_rebal s2));
     (was_busy, s3) \<leftarrow> move_chunks (nat (slab_bulk_check s2)) c 0 s2;
     Some (was_busy, cache_lock_release (slabs_lock_release (move_pass_end s3)))
   }"

text \<open>One round of the rebalancer's loop, with \<open>slabs_rebalance_lock\<close> held; \<open>ok\<close> tells whether
  \<open>realloc\<close> succeeds.\<close>

definition slab_rebalance_round ::
  "bool \<Rightarrow> int \<Rightarrow> 'a rebal_state_scheme \<Rightarrow> (int \<times> 'a rebal_state_scheme) option" where
  "slab_rebalance_round ok was_busy s = do {
     (was_busy1, s1) \<leftarrow>
       (if slab_rebalance_signal s = 1
        then do {
          (r, s1) \<leftarrow> slab_rebalance_start ok s;
          Some (0, if r < 0 then s1\<lparr>slab_rebalance_signal := 0\<rparr> else s1)
        }
        else if slab_rebalance_signal s \<noteq> 0 \<and> slab_start (slab_rebal s) \<noteq> NULL
        then slab_rebalance_move s
        else Some (was_busy, s));
     s2 \<leftarrow> (if rebal_done (slab_rebal s1) \<noteq> 0 then slab_rebalance_finish s1 else Some s1);
     Some (was_busy1, s2)
   }"

text \<open>The rounds from one wake-up to the next wait, which gives the lock back.\<close>

partial_function (option) slab_rebalance_rounds ::
  "bool \<Rightarrow> int \<Rightarrow> 'a rebal_state_scheme \<Rightarrow> (int \<times> 'a rebal_state_scheme) option" where
  "slab_rebalance_rounds ok was_busy s =
     (if do_run_slab_rebalance_thread s
      then do {
        (was_busy1, s1) \<leftarrow> slab_rebalance_round ok was_busy s;
        if slab_rebalance_signal s1 = 0
        then Some (was_busy1, s1\<lparr>slabs_rebalance_lock := False\<rparr>)
        else slab_rebalance_rounds ok was_busy1 s1
      }
      else Some (was_busy, s))"

definition slab_rebalance_wake ::
  "bool \<Rightarrow> int \<Rightarrow> 'a rebal_state_scheme \<Rightarrow> (int \<times> 'a rebal_state_scheme) option" where
  "slab_rebalance_wake ok was_busy s =
     (if slabs_rebalance_lock s then None
      else slab_rebalance_rounds ok was_busy (s\<lparr>slabs_rebalance_lock := True\<rparr>))"

section \<open>The automover\<close>

text \<open>The loop that looks for a source; \<open>n\<close> classes are left, from \<open>i\<close> on.  The results are
  \<open>source\<close>, \<open>evicted_max\<close> and \<open>highest_slab\<close>.\<close>

fun automove_scan ::
  "(nat \<Rightarrow> u64) \<Rightarrow> (nat \<Rightarrow> u32) \<Rightarrow> nat \<Rightarrow> nat \<Rightarrow> nat \<Rightarrow> u64 \<Rightarrow> nat \<Rightarrow> 'a rebal_state_scheme \<Rightarrow>
   nat \<times> u64 \<times> nat \<times> 'a rebal_state_scheme" where
  "automove_scan new pages 0 i source emax highest s = (source, emax, highest, s)"
| "automove_scan new pages (Suc n) i source emax highest s =
     (let diff = new i - evicted_old s i;
          s' = s\<lparr>evicted_old := (evicted_old s)(i := new i)\<rparr>
      in if diff = 0 \<and> pages i > 2
         then let z = slab_zeroes s i + 1
              in automove_scan new pages n (i + 1) (if source = 0 \<and> z \<ge> 3 then i else source) emax highest
                   (s'\<lparr>slab_zeroes := (slab_zeroes s')(i := z)\<rparr>)
         else automove_scan new pages n (i + 1) source (if diff > emax then diff else emax)
                (if diff > emax then i else highest)
                (s'\<lparr>slab_zeroes := (slab_zeroes s')(i := 0)\<rparr>))"

definition pick_destination :: "nat \<Rightarrow> 'a rebal_state_scheme \<Rightarrow> nat \<times> 'a rebal_state_scheme" where
  "pick_destination highest s =
     (if slab_winner s \<noteq> 0 \<and> slab_winner s = highest
      then let s' = s\<lparr>slab_wins := slab_wins s + 1\<rparr>
           in (if slab_wins s' \<ge> 3 then slab_winner s' else 0, s')
      else (0, s\<lparr>slab_wins := 1, slab_winner := highest\<rparr>))"

text \<open>The result is the pair (source, destination), if a decision was reached.\<close>

definition slab_automove_decision ::
  "'a rebal_state_scheme \<Rightarrow> ((nat \<times> nat) option \<times> 'a rebal_state_scheme) option" where
  "slab_automove_decision s =
     (if current_time s \<ge> automove_next_run s
      then do {
        (new, s1) \<leftarrow> item_stats_evictions (s\<lparr>automove_next_run := current_time s + 10\<rparr>);
        s2 \<leftarrow> cache_lock_acquire s1;
        let pages = (\<lambda>i. sc_slabs (slabclass s2 i));
        let (source, _, highest, s3) =
          automove_scan new pages (power_largest s2 - POWER_SMALLEST) POWER_SMALLEST 0 0 0
            (cache_lock_release s2);
        let (dest, s4) = pick_destination highest s3;
        Some (if source \<noteq> 0 \<and> dest \<noteq> 0 then Some (source, dest) else None, s4)
      }
      else Some (None, s))"

text \<open>One round of the maintenance thread; it sleeps for one or five seconds in between.\<close>

definition slab_maintenance_round :: "'a rebal_state_scheme \<Rightarrow> 'a rebal_state_scheme option" where
  "slab_maintenance_round s =
     (if slab_automove (settings s) = 1
      then do {
        (d, s1) \<leftarrow> slab_automove_decision s;
        Some (case d of None \<Rightarrow> s1 | Some (src, dst) \<Rightarrow> snd (slabs_reassign (int src) (int dst) s1))
      }
      else Some s)"

text \<open>Starting and stopping the threads: \<open>env\<close> is \<open>atoi\<close> of \<open>MEMCACHED_SLAB_BULK_CHECK\<close>, if set;
  the flags tell which library calls succeed.\<close>

definition start_slab_maintenance_thread ::
  "int option \<Rightarrow> bool \<Rightarrow> bool \<Rightarrow> bool \<Rightarrow> 'a rebal_state_scheme \<Rightarrow> int \<times> 'a rebal_state_scheme" where
  "start_slab_maintenance_thread env cond_ok create1_ok create2_ok s =
     (let s1 = upd_rebal (\<lambda>r. r\<lparr>slab_start := NULL\<rparr>) (s\<lparr>slab_rebalance_signal := 0\<rparr>);
          s2 = (case env of None \<Rightarrow> s1 | Some v \<Rightarrow> s1\<lparr>slab_bulk_check := (if v = 0 then 1 else v)\<rparr>)
      in if \<not> cond_ok then (-1, s2)
         else let s3 = s2\<lparr>slabs_rebalance_lock := False\<rparr>
              in (if \<not> create1_ok then -1 else if \<not> create2_ok then -1 else 0, s3))"

definition stop_slab_maintenance_thread :: "'a rebal_state_scheme \<Rightarrow> 'a rebal_state_scheme option" where
  "stop_slab_maintenance_thread s = do {
     s1 \<leftarrow> cache_lock_acquire s;
     Some (cache_lock_release (s1\<lparr>do_run_slab_thread := False, do_run_slab_rebalance_thread := False\<rparr>))
   }"

section \<open>The automover's decisions\<close>

lemma automove_scan_frame:
  "automove_scan new pages n i src emax hi s = (src', emax', hi', s') \<Longrightarrow>
   \<exists>e z. s' = s\<lparr>evicted_old := e, slab_zeroes := z\<rparr>"
proof (induction n arbitrary: i src emax hi s)
  case 0
  then show ?case by (intro exI [of _ "evicted_old s"] exI [of _ "slab_zeroes s"]) simp
next
  case (Suc n)
  from Suc.prems show ?case
    by (auto simp: Let_def split: if_splits dest!: Suc.IH) (rule exI, rule exI, rule refl)+
qed

lemma automove_scan_candidates:
  "automove_scan new pages n i src emax hi s = (src', emax', hi', s') \<Longrightarrow>
   (src' = src \<or> (i \<le> src' \<and> src' < i + n \<and> new src' = evicted_old s src' \<and> pages src' > 2)) \<and>
   (hi' = hi \<or> (i \<le> hi' \<and> hi' < i + n \<and> new hi' \<noteq> evicted_old s hi'))"
proof (induction n arbitrary: i src emax hi s)
  case 0
  then show ?case by simp
next
  case (Suc n)
  define s1 where "s1 = s\<lparr>evicted_old := (evicted_old s)(i := new i)\<rparr>"
  have old: "evicted_old (s1\<lparr>slab_zeroes := z\<rparr>) j = evicted_old s j" if "i + 1 \<le> j" for j z
    using that by (simp add: s1_def)
  show ?case
  proof (cases "new i - evicted_old s i = 0 \<and> pages i > 2")
    case True
    let ?z = "slab_zeroes s i + 1"
    from Suc.prems True have run: "automove_scan new pages n (i + 1)
        (if src = 0 \<and> ?z \<ge> 3 then i else src) emax hi
        (s1\<lparr>slab_zeroes := (slab_zeroes s1)(i := ?z)\<rparr>) = (src', emax', hi', s')"
      by (simp add: Let_def s1_def)
    from Suc.IH [OF run] True show ?thesis using old by (auto split: if_splits)
  next
    case False
    define d where "d = new i - evicted_old s i"
    have d: "d > emax \<Longrightarrow> new i \<noteq> evicted_old s i" by (auto simp: d_def)
    from Suc.prems False have run: "automove_scan new pages n (i + 1) src
        (if d > emax then d else emax) (if d > emax then i else hi)
        (s1\<lparr>slab_zeroes := (slab_zeroes s1)(i := 0)\<rparr>) = (src', emax', hi', s')"
      unfolding automove_scan.simps Let_def d_def [symmetric] s1_def [symmetric]
      by (simp only: if_False False [unfolded d_def [symmetric]])
    from Suc.IH [OF run] show ?thesis using old d by (auto split: if_splits)
  qed
qed

text \<open>A decision names two different classes in the range; the source has more than two pages.\<close>

lemma automove_decision_valid:
  assumes "slab_automove_decision s = Some (Some (src, dst), s')"
  shows "POWER_SMALLEST \<le> src" "src < power_largest s" "POWER_SMALLEST \<le> dst" "dst < power_largest s"
    "src \<noteq> dst" "sc_slabs (slabclass s src) > 2" "evicted (itemstats s src) = evicted_old s src"
    "slabclass s' = slabclass s" "power_largest s' = power_largest s"
    "slab_rebalance_signal s' = slab_rebalance_signal s" "slabs_rebalance_lock s' = slabs_rebalance_lock s"
proof -
  let ?s0 = "s\<lparr>automove_next_run := current_time s + 10\<rparr>"
  let ?new = "\<lambda>i. evicted (itemstats s i)" and ?pages = "\<lambda>i. sc_slabs (slabclass s i)"
  let ?s1 = "?s0\<lparr>cache_lock := False\<rparr>"
  obtain source emax highest s3 where
    scan: "automove_scan ?new ?pages (power_largest s - POWER_SMALLEST) POWER_SMALLEST 0 0 0 ?s1 =
      (source, emax, highest, s3)"
    by (metis prod_cases4)
  obtain dest s4 where dest: "pick_destination highest s3 = (dest, s4)" by (cases "pick_destination highest s3") auto
  have lk: "\<not> cache_lock s"
    using assms by (auto simp: slab_automove_decision_def item_stats_evictions_def cache_lock_acquire_def split: if_splits)
  have e: "current_time s \<ge> automove_next_run s" using assms by (auto simp: slab_automove_decision_def split: if_splits)
  have "slab_automove_decision s = Some (if source \<noteq> 0 \<and> dest \<noteq> 0 then Some (source, dest) else None, s4)"
    using lk e scan dest
    by (simp add: slab_automove_decision_def item_stats_evictions_def cache_lock_acquire_def cache_lock_release_def)
  with assms have r: "source = src" "dest = dst" "s' = s4" "src \<noteq> 0" "dst \<noteq> 0" by (auto split: if_splits)
  have d: "dest = highest" using dest r by (auto simp: pick_destination_def Let_def split: if_splits)
  from automove_scan_candidates [OF scan] r d
  show "POWER_SMALLEST \<le> src" "src < power_largest s" "POWER_SMALLEST \<le> dst" "dst < power_largest s"
    "src \<noteq> dst" "sc_slabs (slabclass s src) > 2" "evicted (itemstats s src) = evicted_old s src"
    by (auto simp: POWER_SMALLEST_def)
  from automove_scan_frame [OF scan] obtain a z where s3: "s3 = ?s1\<lparr>evicted_old := a, slab_zeroes := z\<rparr>" by blast
  have "slabclass s4 = slabclass s3" "power_largest s4 = power_largest s3"
    "slab_rebalance_signal s4 = slab_rebalance_signal s3" "slabs_rebalance_lock s4 = slabs_rebalance_lock s3"
    using dest by (auto simp: pick_destination_def Let_def split: if_splits)
  then show "slabclass s' = slabclass s" "power_largest s' = power_largest s"
    "slab_rebalance_signal s' = slab_rebalance_signal s" "slabs_rebalance_lock s' = slabs_rebalance_lock s"
    by (simp_all add: r(3) s3)
qed

section \<open>Clearing a page\<close>

text \<open>What a chunk step leaves alone: the class numbers of the other chunks, the chunk sizes and
  the rebalancer's position.\<close>

definition same_page :: "ptr \<Rightarrow> 'a items_state_scheme \<Rightarrow> 'a items_state_scheme \<Rightarrow> bool" where
  "same_page p s s' \<longleftrightarrow> slab_rebal s' = slab_rebal s \<and>
     (\<forall>c. sc_size (slabclass s' c) = sc_size (slabclass s c)) \<and>
     (\<forall>q. q \<noteq> p \<longrightarrow> it_slabs_clsid (heap s' q) = it_slabs_clsid (heap s q))"

lemma same_page_refl [simp]: "same_page p s s"
  by (simp add: same_page_def)

lemma same_page_trans: "same_page p s s' \<Longrightarrow> same_page p s' s'' \<Longrightarrow> same_page p s s''"
  by (simp add: same_page_def)

lemma same_page_upd [simp]: "same_page p s (upd_item p f s)"
  by (simp add: same_page_def upd_item_def)

lemma same_page_stats [simp]: "same_page p s (upd_stats f s)"
  by (simp add: same_page_def)

lemma same_page_table: "table_frame s s' \<Longrightarrow> same_page p s s'"
  using table_frame_more [of s s'] hnext_onlyD [OF table_frame_items(1) [of s s']]
  by (simp add: same_page_def)

lemma same_page_if: "same_page p s s1 \<Longrightarrow> same_page p s s2 \<Longrightarrow> same_page p s (if b then s1 else s2)"
  by simp

lemma same_page_link: "(\<And>i. it_slabs_clsid (f i) = it_slabs_clsid i) \<Longrightarrow> same_page p s (upd_item_if q f s)"
  by (simp add: same_page_def upd_item_if_def upd_item_def)

lemma same_page_lists: "same_page p s (s\<lparr>heads := a\<rparr>)" "same_page p s (s\<lparr>tails := a\<rparr>)" "same_page p s (s\<lparr>sizes := z\<rparr>)"
  by (simp_all add: same_page_def)

lemma same_page_unlink_q:
  assumes "item_unlink_q it s = Some s'"
  shows "same_page p s s'"
proof -
  let ?c = "unat (it_slabs_clsid (heap s it))"
  define s1 where "s1 = (if heads s ?c = it then s\<lparr>heads := (heads s)(?c := it_next (heap s it))\<rparr> else s)"
  define s2 where "s2 = (if tails s1 ?c = it then s1\<lparr>tails := (tails s1)(?c := it_prev (heap s1 it))\<rparr> else s1)"
  define s3 where "s3 = upd_item_if (it_next (heap s2 it)) (\<lambda>i. i\<lparr>it_prev := it_prev (heap s2 it)\<rparr>) s2"
  define s4 where "s4 = upd_item_if (it_prev (heap s3 it)) (\<lambda>i. i\<lparr>it_next := it_next (heap s3 it)\<rparr>) s3"
  have "same_page p s s1" unfolding s1_def by (intro same_page_if same_page_lists same_page_refl)
  moreover have "same_page p s1 s2" unfolding s2_def by (intro same_page_if same_page_lists same_page_refl)
  moreover have "same_page p s2 s3" "same_page p s3 s4" unfolding s3_def s4_def by (rule same_page_link; simp)+
  ultimately have "same_page p s s4" by (meson same_page_trans)
  moreover have "s' = s4\<lparr>sizes := (sizes s4)(?c := sizes s4 ?c - 1)\<rparr>"
    using assms unfolding item_unlink_q_def unlink_from_list_def Let_def s1_def [symmetric] s2_def [symmetric]
      s3_def [symmetric] s4_def [symmetric] by simp
  ultimately show ?thesis using same_page_lists(3) same_page_trans by blast
qed

lemma same_page_slabs_free:
  assumes "slabs_free q sz c s = Some s'"
  shows "same_page p s s'"
  using assms
  by (auto simp: slabs_free_def do_slabs_free_def slabs_lock_acquire_def slabs_lock_release_def same_page_def
      Let_def upd_item_if_def upd_item_def upd_class_def split: if_splits)

lemma same_page_remove:
  assumes "do_item_remove p s = Some s'"
  shows "same_page p s s'"
proof -
  let ?s1 = "snd (refcount_decr p s)"
  have s1: "same_page p s ?s1" by (simp add: refcount_decr_def)
  show ?thesis
  proof (cases "it_refcount (heap s p) - 1 = 0")
    case True
    with assms have "item_free p ?s1 = Some s'"
      by (simp add: do_item_remove_def refcount_decr_def)
    then obtain n c where "slabs_free p n c (upd_item p (\<lambda>i. i\<lparr>it_slabs_clsid := 0\<rparr>) ?s1) = Some s'"
      by (auto simp: item_free_def Let_def)
    from same_page_slabs_free [OF this] s1 show ?thesis
      by (meson same_page_trans same_page_upd)
  next
    case False
    with assms s1 show ?thesis by (auto simp: do_item_remove_def refcount_decr_def)
  qed
qed

lemma same_page_unlink_nolock:
  assumes "do_item_unlink_nolock p hv s = Some s'"
  shows "same_page p s s'"
proof (cases "it_flags (heap s p) AND ITEM_LINKED = 0")
  case True
  with assms show ?thesis by (simp add: do_item_unlink_nolock_def)
next
  case False
  let ?s1 = "upd_item p (\<lambda>i. i\<lparr>it_flags := it_flags i AND NOT ITEM_LINKED\<rparr>) s"
  define s2 where "s2 = upd_stats (\<lambda>st. st\<lparr>curr_bytes := curr_bytes st - ITEM_ntotal (heap ?s1 p),
      curr_items := curr_items st - 1\<rparr>) ?s1"
  have s2: "same_page p s s2" unfolding s2_def by (meson same_page_trans same_page_upd same_page_stats)
  from assms False obtain s3 s4 where
    "assoc_delete (it_key (heap s2 p)) (unat (it_nkey (heap s2 p))) hv s2 = Some s3"
    "item_unlink_q p s3 = Some s4" "do_item_remove p s4 = Some s'"
    unfolding do_item_unlink_nolock_def Let_def s2_def [symmetric]
    by (auto split: Option.bind_splits)
  then show ?thesis
    using s2 same_page_table [OF assoc_delete_frame] same_page_unlink_q same_page_remove
    by (meson same_page_trans)
qed

lemma same_page_locks [simp]:
  "same_page p s (item_trylock_unlock l s)" "same_page p s (snd (item_trylock hv s))"
  "same_page p s (snd (refcount_incr p s))" "same_page p s (snd (refcount_decr p s))"
  by (simp_all add: same_page_def item_trylock_unlock_def item_trylock_def Let_def refcount_incr_def
      refcount_decr_def)

lemma same_page_freelist_remove: "same_page p s (freelist_remove q c s)"
  by (auto simp: freelist_remove_def same_page_def Let_def upd_item_if_def upd_item_def upd_class_def)

lemma move_status_of_page:
  assumes "move_status_of p c s = Some (st, s')"
  shows "same_page p s s'" "st = MOVE_PASS \<Longrightarrow> it_slabs_clsid (heap s' p) = 255"
proof -
  have "same_page p s s' \<and> (st = MOVE_PASS \<longrightarrow> it_slabs_clsid (heap s' p) = 255)"
  proof (cases "it_slabs_clsid (heap s p) = 255")
    case True
    with assms show ?thesis by (auto simp: move_status_of_def)
  next
    case False
    let ?hv = "hash_fn s (item_key (heap s p))"
    obtain l s1 where l: "item_trylock ?hv s = (l, s1)" by (cases "item_trylock ?hv s") auto
    have s1: "same_page p s s1" using same_page_locks(2) [of p s ?hv] by (simp add: l)
    show ?thesis
    proof (cases l)
      case None
      with assms False l s1 show ?thesis by (auto simp: move_status_of_def)
    next
      case (Some k)
      obtain rc s2 where rc: "refcount_incr p s1 = (rc, s2)" by (cases "refcount_incr p s1") auto
      have "same_page p s1 s2" using same_page_locks(3) [of p s1] by (simp add: rc)
      with s1 have s2: "same_page p s s2" by (rule same_page_trans)
      from assms False l Some rc obtain s3 where
        s3: "same_page p s2 s3" "st \<noteq> MOVE_PASS" "s' = item_trylock_unlock k s3"
        by (auto simp: move_status_of_def Let_def dest: same_page_unlink_nolock
            intro: same_page_freelist_remove same_page_refl split: if_splits Option.bind_splits)
      with s2 show ?thesis by (meson same_page_trans same_page_locks(1))
    qed
  qed
  then show "same_page p s s'" "st = MOVE_PASS \<Longrightarrow> it_slabs_clsid (heap s' p) = 255" by auto
qed

text \<open>What the chunk looks like after the \<open>switch\<close>.\<close>

lemma move_finish_chunk_page:
  assumes "(b, s') = move_finish_chunk p st s"
  shows "\<And>q. q \<noteq> p \<Longrightarrow> it_slabs_clsid (heap s' q) = it_slabs_clsid (heap s q)"
    "slabclass s' = slabclass s"
    "slab_rebal s' = (slab_rebal s)\<lparr>busy_items := busy_items (slab_rebal s) + (if b then 1 else 0)\<rparr>"
    "b = (st \<in> {MOVE_BUSY, MOVE_LOCKED})"
    "\<not> b \<Longrightarrow> st = MOVE_PASS \<and> heap s' = heap s \<or> it_slabs_clsid (heap s' p) = 255"
  using assms
  by (cases st; simp add: move_finish_chunk_def upd_rebal_def refcount_decr_def upd_item_def)+

text \<open>The position is a whole number of chunks into the page, and the chunks before it are
  cleared unless one of them was found busy in this pass.\<close>

definition cleared_up_to :: "nat \<Rightarrow> 'a items_state_scheme \<Rightarrow> nat \<Rightarrow> bool" where
  "cleared_up_to z s k \<longleftrightarrow> (\<forall>j<k. it_slabs_clsid (heap s (slab_start (slab_rebal s) + j * z)) = 255)"

definition move_inv :: "'a items_state_scheme \<Rightarrow> bool" where
  "move_inv s \<longleftrightarrow>
     (let r = slab_rebal s; z = unat (sc_size (slabclass s (nat (s_clsid r))))
      in z > 0 \<and> busy_items r \<ge> 0 \<and> (\<exists>k. slab_pos r = slab_start r + k * z \<and>
           (busy_items r = 0 \<longrightarrow> cleared_up_to z s k) \<and> (rebal_done r \<noteq> 0 \<longrightarrow>
             slab_end r \<le> slab_pos r \<and> busy_items r = 0)))"

lemma move_inv_cong:
  assumes "move_inv s" "slab_rebal s' = slab_rebal s" "\<And>c. sc_size (slabclass s' c) = sc_size (slabclass s c)"
    "\<And>k. slab_pos (slab_rebal s) = slab_start (slab_rebal s) + k * unat (sc_size (slabclass s (nat (s_clsid (slab_rebal s))))) \<Longrightarrow>
       cleared_up_to (unat (sc_size (slabclass s (nat (s_clsid (slab_rebal s)))))) s k \<Longrightarrow>
       cleared_up_to (unat (sc_size (slabclass s (nat (s_clsid (slab_rebal s)))))) s' k"
  shows "move_inv s'"
  using assms unfolding move_inv_def Let_def by metis

lemma move_chunk_inv:
  assumes i: "move_inv s" and d: "rebal_done (slab_rebal s) = 0" and c: "c = nat (s_clsid (slab_rebal s))"
    and run: "move_chunk c s = Some (b, s')"
  shows "move_inv s'" "rebal_done (slab_rebal s') = 0" "s_clsid (slab_rebal s') = s_clsid (slab_rebal s)"
proof -
  let ?r = "slab_rebal s" and ?p = "slab_pos (slab_rebal s)"
  let ?z = "unat (sc_size (slabclass s c))"
  from i c obtain k where z: "?z > 0" "busy_items ?r \<ge> 0" and k: "?p = slab_start ?r + k * ?z"
    and cl: "busy_items ?r = 0 \<Longrightarrow> cleared_up_to ?z s k" by (auto simp: move_inv_def Let_def)
  from run obtain st s1 s2 where st: "move_status_of ?p c s = Some (st, s1)" "(b, s2) = move_finish_chunk ?p st s1"
    and s': "s' = upd_rebal (\<lambda>r. r\<lparr>slab_pos := slab_pos r + unat (sc_size (slabclass s2 c))\<rparr>) s2"
    by (auto simp: move_chunk_def Let_def split: prod.splits Option.bind_splits)
  note f = move_status_of_page [OF st(1)]
  note g = move_finish_chunk_page [OF st(2)]
  have rs1: "slab_rebal s1 = ?r" using f(1) by (simp add: same_page_def)
  define m where "m = busy_items ?r + (if b then 1 else 0)"
  have r2: "slab_rebal s2 = ?r\<lparr>busy_items := m\<rparr>" using g(3) by (simp add: rs1 m_def)
  have clr: "it_slabs_clsid (heap s2 ?p) = 255" if "\<not> b" using g(5) [OF that] f(2) by auto
  have sz: "sc_size (slabclass s2 e) = sc_size (slabclass s e)" for e
    using f(1) g(2) by (simp add: same_page_def)
  have oth: "it_slabs_clsid (heap s2 q) = it_slabs_clsid (heap s q)" if "q \<noteq> ?p" for q
    using f(1) g(1) that by (simp add: same_page_def)
  have r': "slab_rebal s' = ?r\<lparr>busy_items := m, slab_pos := ?p + ?z\<rparr>"
    and h': "heap s' = heap s2" "slabclass s' = slabclass s2"
    using r2 by (simp_all add: s' upd_rebal_def sz)
  have "cleared_up_to ?z s' (Suc k)" if "m = 0"
  proof -
    from that z have "\<not> b" "busy_items ?r = 0" by (auto simp: m_def split: if_splits)
    with clr cl have a: "it_slabs_clsid (heap s2 ?p) = 255" "cleared_up_to ?z s k" by auto
    have "it_slabs_clsid (heap s2 (slab_start ?r + j * ?z)) = 255" if "j < Suc k" for j
    proof (cases "j = k")
      case True
      with a(1) k show ?thesis by simp
    next
      case False
      with that have j: "j < k" by simp
      then have "slab_start ?r + j * ?z \<noteq> ?p" using z by (simp add: k)
      then show ?thesis using oth a(2) j by (simp add: cleared_up_to_def)
    qed
    then show ?thesis by (simp add: cleared_up_to_def h' r')
  qed
  moreover have "?p + ?z = slab_start ?r + Suc k * ?z" using k by simp
  ultimately show "move_inv s'"
    using z d unfolding move_inv_def Let_def r' h' by (auto simp: sz c m_def intro!: exI [of _ "Suc k"])
  show "rebal_done (slab_rebal s') = 0" "s_clsid (slab_rebal s') = s_clsid (slab_rebal s)"
    using d by (simp_all add: r')
qed

lemma move_chunks_inv:
  assumes "move_chunks n c w s = Some (w', s')" "move_inv s" "rebal_done (slab_rebal s) = 0"
    "c = nat (s_clsid (slab_rebal s))"
  shows "move_inv s' \<and> rebal_done (slab_rebal s') = 0 \<and> s_clsid (slab_rebal s') = s_clsid (slab_rebal s)"
  using assms
proof (induction n arbitrary: w s)
  case 0
  then show ?case by simp
next
  case (Suc n)
  from Suc.prems(1) obtain b s1 where s1: "move_chunk c s = Some (b, s1)"
    by (auto split: Option.bind_splits)
  note m = move_chunk_inv [OF Suc.prems(2,3,4) s1]
  show ?case
  proof (cases "slab_pos (slab_rebal s1) \<ge> slab_end (slab_rebal s1)")
    case True
    with Suc.prems(1) s1 m show ?thesis by auto
  next
    case False
    with Suc.prems(1) s1 have "move_chunks n c (if b then w + 1 else w) s1 = Some (w', s')"
      by (simp add: Let_def)
    from Suc.IH [OF this m(1,2)] m(3) Suc.prems(4) show ?thesis by simp
  qed
qed


lemma move_pass_end_inv:
  assumes i: "move_inv s" and d: "rebal_done (slab_rebal s) = 0"
  shows "move_inv (move_pass_end s)" "s_clsid (slab_rebal (move_pass_end s)) = s_clsid (slab_rebal s)"
    "slab_start (slab_rebal (move_pass_end s)) = slab_start (slab_rebal s)"
    "slab_end (slab_rebal (move_pass_end s)) = slab_end (slab_rebal s)"
    "slabclass (move_pass_end s) = slabclass s" "heap (move_pass_end s) = heap s"
proof -
  let ?r = "slab_rebal s" and ?c = "nat (s_clsid (slab_rebal s))"
  let ?z = "unat (sc_size (slabclass s ?c))"
  from i obtain k where k: "?z > 0" "busy_items ?r \<ge> 0" "slab_pos ?r = slab_start ?r + k * ?z"
    "busy_items ?r = 0 \<longrightarrow> cleared_up_to ?z s k" by (auto simp: move_inv_def Let_def)
  show "move_inv (move_pass_end s)"
  proof (cases "slab_pos ?r \<ge> slab_end ?r \<and> busy_items ?r \<noteq> 0")
    case True
    then show ?thesis using k d
      by (auto simp: move_pass_end_def move_inv_def Let_def cleared_up_to_def intro!: exI [of _ 0])
  next
    case False
    then show ?thesis using k d
      by (auto simp: move_pass_end_def move_inv_def Let_def cleared_up_to_def intro!: exI [of _ k])
  qed
qed (simp_all add: move_pass_end_def Let_def)

lemma move_inv_locks:
  "move_inv (s\<lparr>cache_lock := a\<rparr>) = move_inv s" "move_inv (s\<lparr>slabs_lock := a\<rparr>) = move_inv s"
  by (simp_all add: move_inv_def cleared_up_to_def Let_def)

lemma slab_rebalance_move_inv:
  assumes "slab_rebalance_move s = Some (b, s')" "move_inv s" "rebal_done (slab_rebal s) = 0"
  shows "move_inv s'"
proof -
  let ?s2 = "s\<lparr>cache_lock := True, slabs_lock := True\<rparr>"
  from assms(1) obtain c s3 where c: "class_index (s_clsid (slab_rebal s)) = Some c"
    "move_chunks (nat (slab_bulk_check s)) c 0 ?s2 = Some (b, s3)"
    "s' = cache_lock_release (slabs_lock_release (move_pass_end s3))"
    by (auto simp: slab_rebalance_move_def cache_lock_acquire_def slabs_lock_acquire_def Let_def
        split: if_splits Option.bind_splits)
  have "c = nat (s_clsid (slab_rebal ?s2))" using c(1) by (auto simp: class_index_def split: if_splits)
  moreover have "move_inv ?s2" using assms(2) by (simp add: move_inv_locks)
  ultimately have "move_inv s3" "rebal_done (slab_rebal s3) = 0"
    using move_chunks_inv [OF c(2)] assms(3) by auto
  from move_pass_end_inv(1) [OF this] show ?thesis
    by (simp add: c(3) cache_lock_release_def slabs_lock_release_def move_inv_locks)
qed

text \<open>The steps between the start of a move and its end: moves of the rebalancer, and whatever the
  other threads do in between as long as they leave the rebalancer's variables, the chunk sizes and
  the mark 255 of a cleared chunk alone.\<close>

definition others_ok :: "'a items_state_scheme \<Rightarrow> 'a items_state_scheme \<Rightarrow> bool" where
  "others_ok s s' \<longleftrightarrow> slab_rebal s' = slab_rebal s \<and>
     (\<forall>c. sc_size (slabclass s' c) = sc_size (slabclass s c)) \<and>
     (\<forall>p. it_slabs_clsid (heap s p) = 255 \<longrightarrow> it_slabs_clsid (heap s' p) = 255)"

inductive moving :: "'a rebal_state_scheme \<Rightarrow> 'a rebal_state_scheme \<Rightarrow> bool" for s0 where
  started: "moving s0 s0"
| moved: "moving s0 s \<Longrightarrow> rebal_done (slab_rebal s) = 0 \<Longrightarrow> slab_rebalance_move s = Some (b, s') \<Longrightarrow> moving s0 s'"
| others: "moving s0 s \<Longrightarrow> others_ok s s' \<Longrightarrow> moving s0 s'"

lemma moving_inv:
  "moving s0 s \<Longrightarrow> move_inv s0 \<Longrightarrow> move_inv s"
proof (induction rule: moving.induct)
  case (others s s')
  from others.hyps(2) show ?case
    by (intro move_inv_cong [OF others.IH [OF others.prems]]) (simp_all add: others_ok_def cleared_up_to_def)
qed (simp_all add: slab_rebalance_move_inv)

lemma move_inv_start:
  assumes "slab_rebalance_start ok s = Some (0, s0)" "busy_items (slab_rebal s) = 0"
    and z: "sc_size (slabclass s (nat (s_clsid (slab_rebal s)))) \<noteq> 0"
  shows "move_inv s0"
proof -
  from z have "0 < unat (sc_size (slabclass s (nat (s_clsid (slab_rebal s)))))"
    by (simp add: word_neq_0_conv unat_gt_0)
  with assms(1,2) show ?thesis
    by (auto simp: slab_rebalance_start_def cache_lock_acquire_def slabs_lock_acquire_def Let_def
      cache_lock_release_def slabs_lock_release_def move_inv_def cleared_up_to_def grow_slab_list_def
      upd_class_def class_index_def split: if_splits prod.splits Option.bind_splits)
qed

lemma automove_decision_winner:
  assumes "slab_automove_decision s = Some (Some (src, dst), s')"
  shows "slab_winner s' = dst" "slab_wins s' \<ge> 3"
  using assms
  by (auto simp: slab_automove_decision_def item_stats_evictions_def cache_lock_acquire_def
      pick_destination_def Let_def split: if_splits prod.splits)

section \<open>Example states\<close>

definition rebal_boot :: "(bytes \<Rightarrow> u32) \<Rightarrow> (ptr \<Rightarrow> item) \<Rightarrow> rebal_state" where
  "rebal_boot hash mem = crawler_state.extend (crawler_boot 8 hash mem)
     (rebal_state.fields 1 True True (\<lambda>_. 0) (\<lambda>_. 0) 0 0 0)"

text \<open>Class 1 has three pages of one free chunk each, class 2 has one; class 2 evicts, class 1
  does not, and this is the third round of it.\<close>

definition example_rebal :: rebal_state where
  "example_rebal = (rebal_boot (\<lambda>_. 7) (\<lambda>_. zero_item\<lparr>it_flags := 4\<rparr>))\<lparr>
     power_largest := 3, current_time := 100,
     slabclass := (\<lambda>c. zero_class\<lparr>sc_size := 96, sc_perslab := 1, sc_slabs := (if c = 1 then 3 else 1),
        sc_slab_list := (\<lambda>i. 1000 * c + 100 * i), sc_list_size := 16\<rparr>),
     itemstats := (\<lambda>i. zero_itemstats\<lparr>evicted := (if i = 2 then 5 else 0)\<rparr>),
     slab_zeroes := (\<lambda>_. 2), slab_winner := 2, slab_wins := 2\<rparr>"

lemmas rebal_boot_fields = rebal_boot_def crawler_boot_def crawler_state.extend_def items_state.extend_def
  crawler_state.fields_def rebal_state.fields_def boot_fields

lemma example_rebal_fields [simp]:
  "heap example_rebal = (\<lambda>_. zero_item\<lparr>it_flags := 4\<rparr>)" "hash_fn example_rebal = (\<lambda>_. 7)"
  "current_time example_rebal = 100" "cache_lock example_rebal = False" "slabs_lock example_rebal = False"
  "slabs_rebalance_lock example_rebal = False" "power_largest example_rebal = 3"
  "slab_rebalance_signal example_rebal = 0" "slab_winner example_rebal = 2" "slab_wins example_rebal = 2"
  "slab_zeroes example_rebal = (\<lambda>_. 2)" "evicted_old example_rebal = (\<lambda>_. 0)"
  "automove_next_run example_rebal = 0"
  "slabclass example_rebal = (\<lambda>c. zero_class\<lparr>sc_size := 96, sc_perslab := 1,
      sc_slabs := (if c = 1 then 3 else 1), sc_slab_list := (\<lambda>i. 1000 * c + 100 * i), sc_list_size := 16\<rparr>)"
  "itemstats example_rebal = (\<lambda>i. zero_itemstats\<lparr>evicted := (if i = 2 then 5 else 0)\<rparr>)"
  "item_locks example_rebal = (\<lambda>_. False)" "slab_bulk_check example_rebal = 1"
  "slab_rebal example_rebal = \<lparr>slab_start = NULL, slab_end = NULL, slab_pos = NULL, s_clsid = 0, d_clsid = 0,
         busy_items = 0, rebal_done = 0\<rparr>"
  by (simp_all add: example_rebal_def rebal_boot_fields)

lemma automove_scan_2:
  "automove_scan new pages 2 i src emax hi s = automove_scan new pages (Suc (Suc 0)) i src emax hi s"
  by (simp only: numeral_2_eq_2)

lemma example_decision: "map_option fst (slab_automove_decision example_rebal) = Some (Some (1, 2))"
  by (simp add: slab_automove_decision_def item_stats_evictions_def cache_lock_acquire_def
      cache_lock_release_def POWER_SMALLEST_def automove_scan_2 Let_def pick_destination_def zero_itemstats_def)

text \<open>The same state after the request to move a page from class 1 to class 2.\<close>

definition example_move :: rebal_state where
  "example_move = example_rebal\<lparr>slab_rebalance_signal := 1,
     slab_rebal := (slab_rebal example_rebal)\<lparr>s_clsid := 1, d_clsid := 2\<rparr>\<rparr>"

definition example_moving :: rebal_state where
  "example_moving = snd (the (slab_rebalance_start True example_move))"

definition example_moved :: rebal_state where
  "example_moved = snd (the (slab_rebalance_move example_moving))"

lemma example_start:
  "slab_rebalance_start True example_move = Some (0, example_moving)"
  unfolding example_moving_def example_move_def
  by (simp add: slab_rebalance_start_def cache_lock_acquire_def slabs_lock_acquire_def
      cache_lock_release_def slabs_lock_release_def POWER_SMALLEST_def class_index_def
      MAX_NUMBER_OF_SLAB_CLASSES_def POWER_LARGEST_def grow_slab_list_def upd_class_def zero_class_def)


lemma example_moving_fields:
  "slab_rebal example_moving = \<lparr>slab_start = 1000, slab_end = 1096, slab_pos = 1000, s_clsid = 1, d_clsid = 2,
         busy_items = 0, rebal_done = 0\<rparr>"
  using example_start unfolding example_moving_def example_move_def
  by (simp add: slab_rebalance_start_def cache_lock_acquire_def slabs_lock_acquire_def
      cache_lock_release_def slabs_lock_release_def POWER_SMALLEST_def class_index_def
      MAX_NUMBER_OF_SLAB_CLASSES_def POWER_LARGEST_def grow_slab_list_def upd_class_def zero_class_def)

lemma example_moving_move: "slab_rebalance_move example_moving = Some (0, example_moved)"
  "slab_rebal example_moved = \<lparr>slab_start = 1000, slab_end = 1096, slab_pos = 1096, s_clsid = 1, d_clsid = 2,
         busy_items = 0, rebal_done = 1\<rparr>"
proof -
  have "\<exists>s. slab_rebalance_move example_moving = Some (0, s) \<and> slab_rebal s = \<lparr>slab_start = 1000, slab_end = 1096, slab_pos = 1096, s_clsid = 1, d_clsid = 2,
         busy_items = 0, rebal_done = 1\<rparr>"
    using example_start
    unfolding example_moved_def example_moving_def example_move_def
    by (simp add: slab_rebalance_start_def cache_lock_acquire_def slabs_lock_acquire_def
      cache_lock_release_def slabs_lock_release_def POWER_SMALLEST_def class_index_def
      MAX_NUMBER_OF_SLAB_CLASSES_def POWER_LARGEST_def grow_slab_list_def upd_class_def zero_class_def
      slab_rebalance_move_def move_chunk_def move_status_of_def zero_item_def item_trylock_def Let_def
      refcount_incr_def item_key_def freelist_remove_def item_trylock_unlock_def move_finish_chunk_def
      upd_rebal_def upd_item_if_def upd_item_def ITEM_SLABBED_def move_pass_end_def)
  then show "slab_rebalance_move example_moving = Some (0, example_moved)"
    "slab_rebal example_moved = \<lparr>slab_start = 1000, slab_end = 1096, slab_pos = 1096, s_clsid = 1, d_clsid = 2,
         busy_items = 0, rebal_done = 1\<rparr>" by (auto simp: example_moved_def)
qed

section \<open>Properties\<close>

text \<open>C37: A decision of the automover names a destination that has just won for the third time in a
  row and another class as the source, which has more than two pages and has evicted nothing since
  the last round; the rebalancer accepts such a move whenever it is idle.\<close>

theorem automove_decision_accepted:
  assumes "slab_automove_decision s = Some (Some (src, dst), s')"
    and "slab_rebalance_signal s = 0" "\<not> slabs_rebalance_lock s"
  shows "src \<noteq> dst \<and> sc_slabs (slabclass s src) > 2 \<and> evicted (itemstats s src) = evicted_old s src \<and>
    POWER_SMALLEST \<le> src \<and> src < power_largest s \<and> POWER_SMALLEST \<le> dst \<and> dst < power_largest s \<and>
    slab_winner s' = dst \<and> slab_wins s' \<ge> 3 \<and>
    fst (slabs_reassign (int src) (int dst) s') = REASSIGN_OK \<and>
    slab_rebalance_signal (snd (slabs_reassign (int src) (int dst) s')) = 1"
proof -
  note v = automove_decision_valid [OF assms(1)]
  have "\<not> sc_slabs (slabclass s src) < 2" using v(6) by (simp add: word_less_nat_alt)
  with v assms(2,3) have "fst (slabs_reassign (int src) (int dst) s') = REASSIGN_OK"
    "slab_rebalance_signal (snd (slabs_reassign (int src) (int dst) s')) = 1"
    by (simp_all add: slabs_reassign_def do_slabs_reassign_def)
  with v automove_decision_winner [OF assms(1)] show ?thesis by simp
qed

theorem automove_decision_accepted_witness:
  "\<exists>s'. slab_automove_decision example_rebal = Some (Some (1, 2), s') \<and>
     fst (slabs_reassign 1 2 s') = REASSIGN_OK"
proof -
  from example_decision obtain s' where s': "slab_automove_decision example_rebal = Some (Some (1, 2), s')"
    by (cases "slab_automove_decision example_rebal") auto
  from automove_decision_accepted [OF this] have "fst (slabs_reassign 1 2 s') = REASSIGN_OK" by simp
  with s' show ?thesis by blast
qed

text \<open>C28: When the rebalancer declares a page done, every chunk that starts in the page carries the
  mark of a cleared chunk, whatever the other threads did between its moves as long as they leave
  cleared chunks, the chunk sizes and the rebalancer's variables alone: no live item is wiped when
  the page is handed over.\<close>

theorem done_page_is_clear:
  assumes "slab_rebalance_start ok s = Some (0, s0)" and "busy_items (slab_rebal s) = 0"
    and "sc_size (slabclass s (nat (s_clsid (slab_rebal s)))) \<noteq> 0"
    and "moving s0 s'" and "rebal_done (slab_rebal s') \<noteq> 0"
    and "p = slab_start (slab_rebal s') + j * unat (sc_size (slabclass s' (nat (s_clsid (slab_rebal s')))))"
    and "p < slab_end (slab_rebal s')"
  shows "it_slabs_clsid (heap s' p) = 255"
proof -
  have "move_inv s'" using moving_inv [OF assms(4)] move_inv_start [OF assms(1-3)] by blast
  then obtain k where k: "slab_pos (slab_rebal s') = slab_start (slab_rebal s') +
      k * unat (sc_size (slabclass s' (nat (s_clsid (slab_rebal s')))))"
    "cleared_up_to (unat (sc_size (slabclass s' (nat (s_clsid (slab_rebal s')))))) s' k"
    "slab_end (slab_rebal s') \<le> slab_pos (slab_rebal s')"
    using assms(5) by (auto simp: move_inv_def Let_def)
  with assms(6,7) have "j * unat (sc_size (slabclass s' (nat (s_clsid (slab_rebal s'))))) <
      k * unat (sc_size (slabclass s' (nat (s_clsid (slab_rebal s')))))" by linarith
  then have "j < k" by simp
  with k(2) assms(6) show ?thesis by (simp add: cleared_up_to_def)
qed

theorem done_page_is_clear_witness: "it_slabs_clsid (heap example_moved 1000) = 255"
proof -
  have m: "moving example_moving example_moved"
    by (rule moving.moved [OF moving.started _ example_moving_move(1)])
      (simp add: example_moving_fields)
  show ?thesis
    by (rule done_page_is_clear [OF example_start _ _ m, where j = 0])
      (simp_all add: example_moving_move(2) example_move_def zero_class_def)
qed

end
