(* ===== verification/MC_Access.thy ===== *)
theory MC_Access
  imports MC_Alloc MC_Rebalance
begin

text \<open>
  The item operations the commands call (\<open>thread.c\<close>): each takes the lock of the key's hash value
  or the cache lock around an operation of \<open>items.c\<close>.
\<close>

section \<open>Operations under a lock\<close>

definition with_item_lock ::
  "u32 \<Rightarrow> ('a items_state_scheme \<Rightarrow> ('r \<times> 'a items_state_scheme) option) \<Rightarrow>
   'a items_state_scheme \<Rightarrow> ('r \<times> 'a items_state_scheme) option" where
  "with_item_lock hv f s = do {
     s1 \<leftarrow> item_lock hv s;
     (r, s2) \<leftarrow> f s1;
     Some (r, item_unlock hv s2)
   }"

definition with_cache_lock ::
  "('a items_state_scheme \<Rightarrow> ('r \<times> 'a items_state_scheme) option) \<Rightarrow>
   'a items_state_scheme \<Rightarrow> ('r \<times> 'a items_state_scheme) option" where
  "with_cache_lock f s = do {
     s1 \<leftarrow> cache_lock_acquire s;
     (r, s2) \<leftarrow> f s1;
     Some (r, cache_lock_release s2)
   }"

text \<open>An operation that only changes the state.\<close>

definition proc :: "('s \<Rightarrow> 's option) \<Rightarrow> 's \<Rightarrow> (unit \<times> 's) option" where
  "proc f s = map_option (Pair ()) (f s)"

definition item_alloc ::
  "alloc_env \<Rightarrow> bytes \<Rightarrow> nat \<Rightarrow> int \<Rightarrow> u32 \<Rightarrow> int \<Rightarrow> 'a items_state_scheme \<Rightarrow>
   (ptr \<times> 'a items_state_scheme) option" where
  "item_alloc env key nkey flags exptime nbytes s = do_item_alloc env key nkey flags exptime nbytes 0 s"

definition item_get :: "bytes \<Rightarrow> nat \<Rightarrow> 'a items_state_scheme \<Rightarrow> (ptr \<times> 'a items_state_scheme) option" where
  "item_get key nkey s =
     (let hv = hash_fn s (take nkey key) in with_item_lock hv (do_item_get key nkey hv) s)"

definition item_touch ::
  "bytes \<Rightarrow> nat \<Rightarrow> u32 \<Rightarrow> 'a items_state_scheme \<Rightarrow> (ptr \<times> 'a items_state_scheme) option" where
  "item_touch key nkey exptime s =
     (let hv = hash_fn s (take nkey key) in with_item_lock hv (do_item_touch key nkey exptime hv) s)"

definition item_link :: "ptr \<Rightarrow> 'a items_state_scheme \<Rightarrow> 'a items_state_scheme option" where
  "item_link it s =
     (let hv = hash_fn s (item_key (heap s it))
      in map_option snd (with_item_lock hv (proc (do_item_link it hv)) s))"

definition item_remove :: "ptr \<Rightarrow> 'a items_state_scheme \<Rightarrow> 'a items_state_scheme option" where
  "item_remove it s =
     (let hv = hash_fn s (item_key (heap s it))
      in map_option snd (with_item_lock hv (proc (do_item_remove it)) s))"

definition item_replace ::
  "ptr \<Rightarrow> ptr \<Rightarrow> u32 \<Rightarrow> 'a items_state_scheme \<Rightarrow> 'a items_state_scheme option" where
  "item_replace old_it new_it hv s = do_item_replace old_it new_it hv s"

definition item_unlink :: "ptr \<Rightarrow> 'a items_state_scheme \<Rightarrow> 'a items_state_scheme option" where
  "item_unlink it s =
     (let hv = hash_fn s (item_key (heap s it))
      in map_option snd (with_item_lock hv (proc (do_item_unlink it hv)) s))"

definition item_update :: "ptr \<Rightarrow> 'a items_state_scheme \<Rightarrow> 'a items_state_scheme option" where
  "item_update it s =
     (let hv = hash_fn s (item_key (heap s it))
      in map_option snd (with_item_lock hv (proc (do_item_update it)) s))"

definition item_flush_expired :: "'a items_state_scheme \<Rightarrow> 'a items_state_scheme option" where
  "item_flush_expired s = map_option snd (with_cache_lock (proc do_item_flush_expired) s)"

definition item_cachedump ::
  "bool \<Rightarrow> u64 \<Rightarrow> nat \<Rightarrow> nat \<Rightarrow> 'a items_state_scheme \<Rightarrow> (bytes option \<times> 'a items_state_scheme) option" where
  "item_cachedump malloc_ok started clsid limit s =
     with_cache_lock (\<lambda>s1. map_option (\<lambda>r. (r, s1)) (do_item_cachedump malloc_ok started clsid limit s1)) s"

text \<open>The statistics are returned, and formatted by the caller.\<close>

definition item_stats :: "'a items_state_scheme \<Rightarrow> ((nat \<times> nat list) list \<times> 'a items_state_scheme) option" where
  "item_stats s = with_cache_lock (\<lambda>s1. Some (do_item_stats s1, s1)) s"

definition item_stats_totals :: "'a items_state_scheme \<Rightarrow> (u64 list \<times> 'a items_state_scheme) option" where
  "item_stats_totals s = with_cache_lock (\<lambda>s1. Some (do_item_stats_totals s1, s1)) s"

definition item_stats_sizes ::
  "bool \<Rightarrow> 'a items_state_scheme \<Rightarrow> ((nat \<times> u32) list \<times> 'a items_state_scheme) option" where
  "item_stats_sizes calloc_ok s =
     with_cache_lock (\<lambda>s1. map_option (\<lambda>r. (r, s1)) (do_item_stats_sizes calloc_ok s1)) s"

section \<open>What the locks change\<close>

text \<open>Nobody holds the lock of a hash value, or the global one.\<close>

definition lock_free :: "u32 \<Rightarrow> 'a mc_base_scheme \<Rightarrow> bool" where
  "lock_free hv s \<longleftrightarrow>
     (if item_lock_type s = None \<or> item_lock_type s = Some ITEM_LOCK_GRANULAR
      then \<not> item_locks s (hash_index hv (item_lock_hashpower s)) else \<not> item_global_lock s)"

definition item_locked :: "u32 \<Rightarrow> 'a mc_base_scheme \<Rightarrow> 'a mc_base_scheme" where
  "item_locked hv s =
     (if item_lock_type s = None \<or> item_lock_type s = Some ITEM_LOCK_GRANULAR
      then s\<lparr>item_locks := (item_locks s)(hash_index hv (item_lock_hashpower s) := True)\<rparr>
      else s\<lparr>item_global_lock := True\<rparr>)"

lemma item_lock_free: "lock_free hv s \<Longrightarrow> item_lock hv s = Some (item_locked hv s)"
  by (simp add: lock_free_def item_lock_def item_locked_def Let_def)

lemma item_locked_simps [simp]:
  "heap (item_locked hv s) = heap s" "settings (item_locked hv s) = settings s"
  "current_time (item_locked hv s) = current_time s" "hash_fn (item_locked hv s) = hash_fn s"
  "cache_lock (item_locked hv s) = cache_lock s" "slabs_lock (item_locked hv s) = slabs_lock s"
  "stats (item_locked hv s) = stats s" "item_lock_type (item_locked hv s) = item_lock_type s"
  "item_lock_hashpower (item_locked hv s) = item_lock_hashpower s"
  by (simp_all add: item_locked_def)

lemma item_locked_items [simp]:
  "classes (item_locked hv s) = classes s" "in_moving_page (item_locked hv s) p = in_moving_page s p"
  "item_dead (item_locked hv s) i = item_dead s i" "power_largest (item_locked hv s) = power_largest s"
  "cache_inv (item_locked hv s) M L F = cache_inv s M L F"
  "items_state.more (item_locked hv s) = items_state.more s" "cas_id (item_locked hv s) = cas_id s"
  by (simp_all add: item_locked_def in_moving_page_def item_dead_def classes_def)

lemma item_unlock_simps [simp]:
  "heap (item_unlock hv s) = heap s" "settings (item_unlock hv s) = settings s"
  "current_time (item_unlock hv s) = current_time s" "hash_fn (item_unlock hv s) = hash_fn s"
  "cache_lock (item_unlock hv s) = cache_lock s" "slabs_lock (item_unlock hv s) = slabs_lock s"
  "stats (item_unlock hv s) = stats s"
  by (simp_all add: item_unlock_def)

lemma item_unlock_items [simp]:
  "classes (item_unlock hv s) = classes s" "in_moving_page (item_unlock hv s) p = in_moving_page s p"
  "item_dead (item_unlock hv s) i = item_dead s i" "power_largest (item_unlock hv s) = power_largest s"
  "cache_inv (item_unlock hv s) M L F = cache_inv s M L F"
  "items_state.more (item_unlock hv s) = items_state.more s" "cas_id (item_unlock hv s) = cas_id s"
  by (simp_all add: item_unlock_def in_moving_page_def item_dead_def classes_def)

text \<open>Taking the lock, an operation that leaves the locks alone, and releasing the lock.\<close>

lemma env_same_unlock:
  assumes "lock_free hv s" "env_same (item_locked hv s) s'"
  shows "env_same s (item_unlock hv s')"
  using assms by (auto simp: env_same_def lock_free_def item_locked_def item_unlock_def fun_eq_iff split: if_splits)

lemma alloc_same_unlock:
  assumes "lock_free hv s" "alloc_same (item_locked hv s) s'"
  shows "alloc_same s (item_unlock hv s')"
  using assms by (auto simp: alloc_same_def lock_free_def item_locked_def item_unlock_def fun_eq_iff split: if_splits)

lemma with_item_lock_Some:
  assumes "lock_free hv s" "f (item_locked hv s) = Some (r, s')"
  shows "with_item_lock hv f s = Some (r, item_unlock hv s')"
  using assms by (simp add: with_item_lock_def item_lock_free)

lemma proc_Some: "f s = Some s' \<Longrightarrow> proc f s = Some ((), s')"
  by (simp add: proc_def)

end
