(* ===== verification/MC_ItemOps.thy ===== *)
theory MC_ItemOps
  imports MC_Access
begin

text \<open>
  What the item operations of \<open>items.c\<close> keep of the items they do not touch, and their combined effect as
  the commands use them: a lookup with its reference, the release of a reference, and the replacement
  of a linked item by a new one.
\<close>

section \<open>What the operations on one item keep of the others\<close>

lemma same_contents_refcount: "same_contents (heap s q) (heap s' q) \<Longrightarrow> q \<noteq> p \<Longrightarrow>
  same_contents (heap s q) (heap (snd (refcount_incr p s')) q)"
  by (simp add: refcount_incr_def)

lemma unlink_remove_contents:
  "do_item_unlink_nolock p hv s1 = Some s2 \<Longrightarrow> do_item_remove p s2 = Some s3 \<Longrightarrow> q \<noteq> p \<Longrightarrow>
     same_contents (heap s1 q) (heap s3 q)"
  "do_item_unlink p hv s1 = Some s2 \<Longrightarrow> do_item_remove p s2 = Some s3 \<Longrightarrow> q \<noteq> p \<Longrightarrow>
     same_contents (heap s1 q) (heap s3 q)"
  by (blast intro: same_contents_trans do_item_remove_contents unlink_nolock_contents unlink_contents)+

lemma get_find_contents:
  assumes "item_get_find key nkey hv s = Some (it, s')" "assoc_find key nkey hv s = Some p" "q \<noteq> p"
  shows "same_contents (heap s q) (heap s' q) \<and> (it = NULL \<or> it = p)"
proof -
  have h: "heap (snd (refcount_incr p s)) q = heap s q" using assms(3) by (simp add: refcount_incr_def)
  show ?thesis
    using assms h unlink_remove_contents(1) [of p hv "snd (refcount_incr p s)" _ s' q]
    by (auto simp: item_get_find_def Let_def split: if_splits Option.bind_splits)
qed

lemma do_item_get_contents:
  assumes "do_item_get key nkey hv s = Some (it, s')" "assoc_find key nkey hv s = Some p" "q \<noteq> p"
  shows "same_contents (heap s q) (heap s' q)"
proof -
  from assms(1) obtain x s1 where x: "item_get_find key nkey hv s = Some (x, s1)"
    by (auto simp: do_item_get_def split: Option.bind_splits)
  note g = get_find_contents [OF x assms(2,3)]
  show ?thesis
  proof (cases "x = NULL")
    case True
    then show ?thesis using assms(1) x g by (simp add: do_item_get_def)
  next
    case False
    then have xp: "x = p" using g by simp
    have "same_contents (heap s1 q) (heap s' q)"
      using assms(1,3) x False unlink_remove_contents(2) [of p hv s1 _ s' q]
      by (auto simp: do_item_get_def Let_def xp split: if_splits Option.bind_splits)
    with g show ?thesis using same_contents_trans by blast
  qed
qed

text \<open>What linking does to the item itself.\<close>

lemma link_self:
  assumes "do_item_link p hv s = Some s'"
  shows "it_data (heap s' p) = it_data (heap s p)" "it_suffix (heap s' p) = it_suffix (heap s p)"
    "it_nbytes (heap s' p) = it_nbytes (heap s p)" "it_exptime (heap s' p) = it_exptime (heap s p)"
    "item_key (heap s' p) = item_key (heap s p)" "it_slabs_clsid (heap s' p) = it_slabs_clsid (heap s p)"
    "it_time (heap s' p) = current_time s" "it_refcount (heap s' p) = it_refcount (heap s p) + 1"
    "is_slabbed (heap s' p) = is_slabbed (heap s p)" "it_nsuffix (heap s' p) = it_nsuffix (heap s p)"
proof -
  define s3 where "s3 = upd_item p (\<lambda>i. i\<lparr>it_time := current_time s\<rparr>)
     (upd_item p (\<lambda>i. i\<lparr>it_flags := it_flags i OR ITEM_LINKED\<rparr>) (s\<lparr>cache_lock := True\<rparr>))"
  define s4 where "s4 = upd_stats (\<lambda>st. st\<lparr>curr_bytes := curr_bytes st + ITEM_ntotal (heap s3 p),
                               curr_items := curr_items st + 1, total_items := total_items st + 1\<rparr>) s3"
  define cs where "cs = (if use_cas (settings s4) then get_cas_id s4 else (0, s4))"
  define s6 where "s6 = upd_item p (ITEM_set_cas (fst cs)) (snd cs)"
  have h: "heap (snd cs) = heap s3" by (simp add: cs_def get_cas_id_def s4_def)
  have h6: "it_data (heap s6 p) = it_data (heap s p)" "it_suffix (heap s6 p) = it_suffix (heap s p)"
    "it_nbytes (heap s6 p) = it_nbytes (heap s p)" "it_exptime (heap s6 p) = it_exptime (heap s p)"
    "item_key (heap s6 p) = item_key (heap s p)" "it_slabs_clsid (heap s6 p) = it_slabs_clsid (heap s p)"
    "it_time (heap s6 p) = current_time s" "it_refcount (heap s6 p) = it_refcount (heap s p)"
    "is_slabbed (heap s6 p) = is_slabbed (heap s p)" "it_nsuffix (heap s6 p) = it_nsuffix (heap s p)"
    by (simp_all add: s6_def h s3_def ITEM_set_cas_def item_key_def flag_bits bit_simps)
  from assms obtain s8 where s8: "item_link_q p (assoc_insert p hv s6) = Some s8"
    "s' = cache_lock_release (snd (refcount_incr p s8))"
    unfolding do_item_link_def lock_simps
    by (auto simp: Let_def s3_def s4_def cs_def s6_def case_prod_beta' split: Option.bind_splits if_splits)
  have c: "same_contents (heap s6 p) (heap s8 p)"
    by (rule same_contents_trans [OF hnext_only_contents [OF table_frame_items(1) [OF assoc_insert_frame]]
          links_only_contents [OF item_link_q_links [OF s8(1)]]])
  have h': "heap s' p = (heap s8 p)\<lparr>it_refcount := it_refcount (heap s8 p) + 1\<rparr>"
    by (simp add: s8(2) cache_lock_release_def refcount_incr_def)
  note D = same_contentsD [OF c] same_contents_facts [OF c]
  show "it_data (heap s' p) = it_data (heap s p)" "it_suffix (heap s' p) = it_suffix (heap s p)"
    "it_nbytes (heap s' p) = it_nbytes (heap s p)" "it_exptime (heap s' p) = it_exptime (heap s p)"
    "item_key (heap s' p) = item_key (heap s p)" "it_slabs_clsid (heap s' p) = it_slabs_clsid (heap s p)"
    "it_time (heap s' p) = current_time s" "it_refcount (heap s' p) = it_refcount (heap s p) + 1"
    "is_slabbed (heap s' p) = is_slabbed (heap s p)" "it_nsuffix (heap s' p) = it_nsuffix (heap s p)"
    using D h6 by (simp_all add: h' item_key_def flag_bits)
qed

section \<open>Dropping a reference\<close>

text \<open>\<open>p\<close> is held by somebody, and may be freed when it is the last reference.\<close>

definition droppable :: "'a items_state_scheme \<Rightarrow> (nat \<Rightarrow> ptr list) \<Rightarrow> (nat \<Rightarrow> ptr list) \<Rightarrow> ptr \<Rightarrow> bool" where
  "droppable s L F p \<longleftrightarrow> \<not> is_slabbed (heap s p) \<and> 0 < it_refcount (heap s p) \<and>
     (it_refcount (heap s p) = 1 \<longrightarrow> \<not> is_linked (heap s p) \<and> outside s L F p \<and> \<not> slabs_lock s \<and>
        unat (it_slabs_clsid (heap s p)) \<in> classes s \<and> unat (it_slabs_clsid (heap s p)) < LARGEST_ID \<and>
        Suc (length (F (unat (it_slabs_clsid (heap s p))))) < 2 ^ 32)"

lemma drop_ref:
  assumes i: "cache_inv s M L F" and d: "droppable s L F p"
  shows "\<exists>s'. do_item_remove p s = Some s' \<and> cache_inv s' M L (after_unref (heap s p) p F) \<and> env_same s s' \<and>
     (\<forall>q. q \<noteq> p \<longrightarrow> same_contents (heap s q) (heap s' q)) \<and>
     (it_refcount (heap s p) \<noteq> 1 \<longrightarrow> heap s' p = (heap s p)\<lparr>it_refcount := it_refcount (heap s p) - 1\<rparr>)"
proof (cases "it_refcount (heap s p) = 1")
  case True
  let ?c = "unat (it_slabs_clsid (heap s p))"
  have D: "\<not> is_slabbed (heap s p)" "\<not> is_linked (heap s p)" "outside s L F p" "\<not> slabs_lock s" "?c \<in> classes s"
    "?c < LARGEST_ID" "Suc (length (F ?c)) < 2 ^ 32"
    using d True by (simp_all add: droppable_def)
  have "\<exists>s'. do_item_remove p s = Some s' \<and> cache_inv s' M L (F(?c := p # F ?c)) \<and> env_same s s'"
    by (rule do_item_remove_free [OF i D(1,2) True _ refl D(5,6) _ _ D(7,4)])
      (use D(3) in \<open>simp_all add: outside_def\<close>)
  then obtain s' where s': "do_item_remove p s = Some s'" "cache_inv s' M L (F(?c := p # F ?c))" "env_same s s'" by blast
  then show ?thesis using True do_item_remove_contents [OF s'(1)] by (auto simp: after_unref_def)
next
  case False
  from do_item_remove_keep [OF i, of p] d False obtain s' where
    s': "do_item_remove p s = Some s'" "cache_inv s' M L F" "env_same s s'"
      "heap s' = (heap s)(p := (heap s p)\<lparr>it_refcount := it_refcount (heap s p) - 1\<rparr>)"
    by (auto simp: droppable_def)
  then show ?thesis using False by (simp add: after_unref_def)
qed

section \<open>Lookup and replacement, with what they keep\<close>

lemma word_gt_one_plus: "0 < x \<Longrightarrow> x + 1 \<noteq> 0 \<Longrightarrow> 1 < x + 1" for x :: u16
proof -
  assume a: "0 < x" "x + 1 \<noteq> 0"
  from a(2) have "unat (x + 1) = unat x + 1" by (metis add.commute unatSuc Suc_eq_plus1)
  moreover have "0 < unat x" using a(1) by (simp add: word_less_nat_alt)
  ultimately show ?thesis by (simp add: word_less_nat_alt)
qed

text \<open>The item a lookup of the key finds: an expired or flushed one, or one in a page that is being moved,
  is not found.\<close>

definition live_item :: "'a items_state_scheme \<Rightarrow> (bytes \<rightharpoonup> ptr) \<Rightarrow> bytes \<rightharpoonup> ptr" where
  "live_item s M k = (case M k of None \<Rightarrow> None
     | Some p \<Rightarrow> if in_moving_page s p \<or> item_dead s (heap s p) then None else Some p)"

text \<open>Room for one more reference to a cached item, and for its chunk in the free list.\<close>

definition ref_room :: "'a items_state_scheme \<Rightarrow> (nat \<Rightarrow> ptr list) \<Rightarrow> ptr \<Rightarrow> bool" where
  "ref_room s F p \<longleftrightarrow> it_refcount (heap s p) + 1 \<noteq> 0 \<and> \<not> slabs_lock s \<and>
     Suc (length (F (unat (it_slabs_clsid (heap s p))))) < 2 ^ 32"

lemma get_result:
  assumes i: "cache_inv s M L F" and k: "k = take nkey key" "nkey \<le> length key" and hv: "hv = hash_fn s k"
    and nl: "\<not> cache_lock s" and room: "\<And>p. M k = Some p \<Longrightarrow> ref_room s F p"
  shows "\<exists>old s1 M1 L1 F1. do_item_get key nkey hv s = Some (old, s1) \<and> env_same s s1 \<and> cache_inv s1 M1 L1 F1 \<and>
     (\<forall>q. M k \<noteq> Some q \<longrightarrow> same_contents (heap s q) (heap s1 q)) \<and> (\<forall>d. set (L1 d) \<subseteq> set (L d)) \<and>
     (\<forall>q d. q \<in> set (F1 d) \<longrightarrow> q \<in> set (F d) \<or> M k = Some q) \<and>
     (case live_item s M k of None \<Rightarrow> old = NULL \<and> M1 = M(k := None)
      | Some p \<Rightarrow> old = p \<and> M1 = M \<and> L1 = L \<and> F1 = F \<and>
          heap s1 = (heap s)(p := (heap s p)\<lparr>it_refcount := it_refcount (heap s p) + 1,
                                           it_flags := it_flags (heap s p) OR ITEM_FETCHED\<rparr>))"
proof -
  have "\<exists>it s'. do_item_get key nkey hv s = Some (it, s') \<and> env_same s s' \<and>
     (case M k of None \<Rightarrow> it = NULL \<and> s' = s
      | Some p \<Rightarrow>
        if in_moving_page s p \<or> item_dead s (heap s p)
        then it = NULL \<and> cache_inv s' (M(k := None))
               (lru_without L (unat (it_slabs_clsid (heap s p))) p) (after_unref (heap s p) p F)
        else it = p \<and> cache_inv s' M L F \<and>
             heap s' = (heap s)(p := (heap s p)\<lparr>it_refcount := it_refcount (heap s p) + 1,
                                            it_flags := it_flags (heap s p) OR ITEM_FETCHED\<rparr>))"
    by (rule do_item_get_inv [OF i k hv nl]) (use room in \<open>simp add: ref_room_def\<close>)
  then obtain it s' where g: "do_item_get key nkey hv s = Some (it, s')" "env_same s s'"
    and c: "case M k of None \<Rightarrow> it = NULL \<and> s' = s
      | Some p \<Rightarrow>
        if in_moving_page s p \<or> item_dead s (heap s p)
        then it = NULL \<and> cache_inv s' (M(k := None))
               (lru_without L (unat (it_slabs_clsid (heap s p))) p) (after_unref (heap s p) p F)
        else it = p \<and> cache_inv s' M L F \<and>
             heap s' = (heap s)(p := (heap s p)\<lparr>it_refcount := it_refcount (heap s p) + 1,
                                            it_flags := it_flags (heap s p) OR ITEM_FETCHED\<rparr>)" by blast
  have f: "assoc_find key nkey hv s = Some (case M k of None \<Rightarrow> NULL | Some p \<Rightarrow> p)"
    using assoc_find_correct [OF cache_invD(1) [OF i] k hv] by simp
  show ?thesis
  proof (cases "M k")
    case None
    then have "M(k := None) = M" by auto
    then show ?thesis using None g c i by (auto simp: live_item_def)
  next
    case (Some p)
    have same: "\<forall>q. M k \<noteq> Some q \<longrightarrow> same_contents (heap s q) (heap s' q)"
      using do_item_get_contents [OF g(1), of p] f Some by simp
    show ?thesis
    proof (cases "in_moving_page s p \<or> item_dead s (heap s p)")
      case True
      let ?L = "lru_without L (unat (it_slabs_clsid (heap s p))) p" and ?F = "after_unref (heap s p) p F"
      have "it = NULL" "cache_inv s' (M(k := None)) ?L ?F" using c Some True by simp_all
      moreover have "set (?L d) \<subseteq> set (L d)" for d using set_remove1_subset [of p "L d"] by auto
      moreover have "\<forall>q d. q \<in> set (?F d) \<longrightarrow> q \<in> set (F d) \<or> M k = Some q" using Some by (simp add: after_unref_def)
      moreover have "live_item s M k = None" using Some True by (simp add: live_item_def)
      ultimately show ?thesis using g same
        by (intro exI [of _ it] exI [of _ s'] exI [of _ "M(k := None)"] exI [of _ ?L] exI [of _ ?F]) simp
    next
      case False
      have "live_item s M k = Some p" using Some False by (simp add: live_item_def)
      then show ?thesis using g same c Some False
        by (intro exI [of _ it] exI [of _ s'] exI [of _ M] exI [of _ L] exI [of _ F]) simp
    qed
  qed
qed

lemma linkable_mono:
  assumes "linkable s L F p" "same_contents (heap s p) (heap s1 p)" "env_same s s1"
    and "\<And>d. set (L1 d) \<subseteq> set (L d)" "\<And>d. p \<in> set (F1 d) \<Longrightarrow> p \<in> set (F d)"
  shows "linkable s1 L1 F1 p"
proof -
  have "classes s1 = classes s" using assms(3) by (intro classes_cong) (simp add: env_same_def)
  then show ?thesis
    using assms(1,4,5) unfolding linkable_def same_contents_facts [OF assms(2)] same_contentsD [OF assms(2)] by blast
qed

lemma cached_not_linkable: "cache_inv s M L F \<Longrightarrow> linkable s L F it \<Longrightarrow> M k \<noteq> Some it"
  using cached_item(9) by (metis linkable_def)

text \<open>The item \<open>q\<close> takes the place of \<open>p\<close>, which somebody still holds.\<close>

lemma replace_held:
  assumes i: "cache_inv s M L F" and k: "M k = Some p" and hv: "hv = hash_fn s k"
    and q: "linkable s L F q" "item_key (heap s q) = k" "it_refcount (heap s q) + 1 \<noteq> 0"
    and nl: "\<not> cache_lock s" and held: "it_refcount (heap s p) \<noteq> 1"
  shows "\<exists>s1 s' L'. do_item_replace p q hv s = Some s' \<and> cache_inv s' (M(k \<mapsto> q)) L' F \<and> env_same s s' \<and>
     do_item_link q hv s1 = Some s' \<and> same_contents (heap s q) (heap s1 q) \<and> env_same s s1 \<and>
     (\<forall>r. r \<noteq> p \<longrightarrow> r \<noteq> q \<longrightarrow> same_contents (heap s r) (heap s' r)) \<and> outside s' L' F p \<and>
     \<not> is_linked (heap s' p) \<and> \<not> is_slabbed (heap s' p) \<and>
     it_refcount (heap s' p) = it_refcount (heap s p) - 1 \<and>
     it_slabs_clsid (heap s' p) = it_slabs_clsid (heap s p) \<and> item_key (heap s' p) = k \<and>
     (\<forall>d. set (L' d) \<subseteq> insert q (set (L d)))"
proof -
  let ?c = "unat (it_slabs_clsid (heap s p))" and ?d = "unat (it_slabs_clsid (heap s q))"
  note P = cached_item [OF i k]
  have qp: "q \<noteq> p" using cached_not_linkable [OF i q(1), of k] k by blast
  have au: "after_unref (heap s p) p F = F" using held by (simp add: after_unref_def)
  from do_item_unlink_inv [OF i k hv nl] held obtain s1 j where s1: "do_item_unlink p hv s = Some s1"
    "cache_inv s1 (M(k := None)) (lru_without L ?c p) F" "env_same s s1"
    "unlinked_from (heap s p) j" "heap s1 p = j\<lparr>it_refcount := it_refcount j - 1\<rparr>"
    unfolding au by blast
  note C = unlink_contents [OF s1(1) qp]
  have l: "linkable s1 (lru_without L ?c p) F q"
    by (rule linkable_mono [OF q(1) C s1(3)]) (use set_remove1_subset [of p "L ?c"] in auto)
  note U = s1(4) [unfolded unlinked_from_def] unlinked_flags [OF s1(4)]
  let ?L = "(lru_without L ?c p)(?d := q # lru_without L ?c p ?d)"
  have q1: "it_slabs_clsid (heap s1 q) = it_slabs_clsid (heap s q)" "item_key (heap s1 q) = k"
    "it_refcount (heap s1 q) + 1 \<noteq> 0"
    using q(2,3) by (simp_all add: same_contentsD [OF C] same_contents_facts [OF C])
  from do_item_link_inv [OF s1(2) l, of k hv] q1 hv nl s1(3) obtain s' where s': "do_item_link q hv s1 = Some s'"
    "cache_inv s' (M(k \<mapsto> q)) ?L F" "env_same s1 s'" by (auto simp: env_same_def)
  have run: "do_item_replace p q hv s = Some s'"
    using P(10) s1(1) s'(1) by (simp add: do_item_replace_def is_slabbed_def c_assert_True_bind)
  have e: "env_same s s'" by (rule env_same_trans [OF s1(3) s'(3)])
  have cl: "classes s' = classes s" using e by (intro classes_cong) (simp add: env_same_def)
  note Cp = link_contents(1) [OF s'(1), of p]
  have p': "\<not> is_linked (heap s' p)" "\<not> is_slabbed (heap s' p)" "it_refcount (heap s' p) = it_refcount (heap s p) - 1"
    "it_slabs_clsid (heap s' p) = it_slabs_clsid (heap s p)" "item_key (heap s' p) = k"
    using U P(7,10) qp same_contentsD [OF Cp] same_contents_facts [OF Cp]
    by (simp_all add: s1(5) flag_bits item_key_def)
  have o: "outside s' ?L F p"
    unfolding outside_def cl
  proof (intro conjI allI ballI impI)
    show "p \<noteq> NULL" by (rule P(6))
    show "p \<notin> set (?L d)" if "d < LARGEST_ID" for d using not_in_lists [OF i k that] not_in_lists [OF i k, of ?d] qp q(1)
      by (auto simp: linkable_def)
    show "p \<notin> set (F d)" if "d \<in> classes s" for d by (rule lru_not_free [OF i P(2,4) that])
  qed
  have "same_contents (heap s r) (heap s' r)" if "r \<noteq> p" "r \<noteq> q" for r
    using same_contents_trans [OF unlink_contents [OF s1(1) that(1)] link_contents(1) [OF s'(1) that(2)]] .
  moreover have "set (?L d) \<subseteq> insert q (set (L d))" for d
    using set_remove1_subset [of p "L ?c"] by auto
  ultimately show ?thesis using run s'(1,2) e C s1(3) o p'
    by (intro exI [of _ s1] exI [of _ s'] exI [of _ ?L]) simp
qed

end
