(* ===== verification/MC_Stats.thy ===== *)
theory MC_Stats
  imports MC_Slabs
begin

text \<open>
  The statistics each worker thread keeps for itself (\<open>thread.c\<close>, \<open>memcached.h\<close>): resetting
  them, and adding up the counters of all threads and of all slab classes for the \<open>stats\<close>
  commands; and the slab statistics of \<open>slabs.c\<close> that are computed from them.  The threads'
  mutexes protect one struct at a time and are not modelled.
\<close>

section \<open>State and operations\<close>

record slab_stats =
  set_cmds :: u64
  get_hits :: u64
  touch_hits :: u64
  delete_hits :: u64
  cas_hits :: u64
  cas_badval :: u64
  incr_hits :: u64
  decr_hits :: u64

record thread_stats =
  get_cmds :: u64
  get_misses :: u64
  touch_cmds :: u64
  touch_misses :: u64
  delete_misses :: u64
  incr_misses :: u64
  decr_misses :: u64
  cas_misses :: u64
  bytes_read :: u64
  bytes_written :: u64
  flush_cmds :: u64
  conn_yields :: u64
  auth_cmds :: u64
  auth_errors :: u64
  slab_stats_of :: "nat \<Rightarrow> slab_stats"

definition zero_slab_stats :: slab_stats where
  "zero_slab_stats = \<lparr>
     set_cmds = 0, get_hits = 0, touch_hits = 0, delete_hits = 0, cas_hits = 0, cas_badval = 0,
     incr_hits = 0, decr_hits = 0\<rparr>"

definition zero_thread_stats :: thread_stats where
  "zero_thread_stats = \<lparr>
     get_cmds = 0, get_misses = 0, touch_cmds = 0, touch_misses = 0, delete_misses = 0,
     incr_misses = 0, decr_misses = 0, cas_misses = 0, bytes_read = 0, bytes_written = 0,
     flush_cmds = 0, conn_yields = 0, auth_cmds = 0, auth_errors = 0,
     slab_stats_of = (\<lambda>_. zero_slab_stats)\<rparr>"

text \<open>The body of the loop over the classes.\<close>

definition add_slab_stats :: "slab_stats \<Rightarrow> slab_stats \<Rightarrow> slab_stats" where
  "add_slab_stats a b = b\<lparr>
     set_cmds := set_cmds b + set_cmds a, get_hits := get_hits b + get_hits a,
     touch_hits := touch_hits b + touch_hits a, delete_hits := delete_hits b + delete_hits a,
     cas_hits := cas_hits b + cas_hits a, cas_badval := cas_badval b + cas_badval a,
     incr_hits := incr_hits b + incr_hits a, decr_hits := decr_hits b + decr_hits a\<rparr>"

primrec add_classes :: "nat \<Rightarrow> thread_stats \<Rightarrow> thread_stats \<Rightarrow> thread_stats" where
  "add_classes 0 t st = st"
| "add_classes (Suc n) t st =
     (let st' = add_classes n t st
      in st'\<lparr>slab_stats_of := (slab_stats_of st')(n := add_slab_stats (slab_stats_of t n) (slab_stats_of st' n))\<rparr>)"

text \<open>One thread's counters are added.\<close>

definition add_thread_stats :: "thread_stats \<Rightarrow> thread_stats \<Rightarrow> thread_stats" where
  "add_thread_stats t st = add_classes MAX_NUMBER_OF_SLAB_CLASSES t (st\<lparr>
     get_cmds := get_cmds st + get_cmds t, get_misses := get_misses st + get_misses t,
     touch_cmds := touch_cmds st + touch_cmds t,
     touch_misses := touch_misses st + touch_misses t,
     delete_misses := delete_misses st + delete_misses t,
     incr_misses := incr_misses st + incr_misses t,
     decr_misses := decr_misses st + decr_misses t, cas_misses := cas_misses st + cas_misses t,
     bytes_read := bytes_read st + bytes_read t,
     bytes_written := bytes_written st + bytes_written t,
     flush_cmds := flush_cmds st + flush_cmds t, conn_yields := conn_yields st + conn_yields t,
     auth_cmds := auth_cmds st + auth_cmds t, auth_errors := auth_errors st + auth_errors t\<rparr>)"

primrec aggregate_threads :: "nat \<Rightarrow> (nat \<Rightarrow> thread_stats) \<Rightarrow> thread_stats \<Rightarrow> thread_stats" where
  "aggregate_threads 0 threads st = st"
| "aggregate_threads (Suc n) threads st = add_thread_stats (threads n) (aggregate_threads n threads st)"

definition threadlocal_stats_aggregate :: "nat \<Rightarrow> (nat \<Rightarrow> thread_stats) \<Rightarrow> thread_stats" where
  "threadlocal_stats_aggregate num_threads threads =
     aggregate_threads num_threads threads zero_thread_stats"

primrec reset_classes :: "nat \<Rightarrow> thread_stats \<Rightarrow> thread_stats" where
  "reset_classes 0 t = t"
| "reset_classes (Suc n) t =
     (let t' = reset_classes n t
      in t'\<lparr>slab_stats_of := (slab_stats_of t')(n := (slab_stats_of t' n)\<lparr>
           set_cmds := 0, get_hits := 0, touch_hits := 0, delete_hits := 0, cas_hits := 0,
           cas_badval := 0, incr_hits := 0, decr_hits := 0\<rparr>)\<rparr>)"

definition reset_thread_stats :: "thread_stats \<Rightarrow> thread_stats" where
  "reset_thread_stats t = reset_classes MAX_NUMBER_OF_SLAB_CLASSES (t\<lparr>
     get_cmds := 0, get_misses := 0, touch_cmds := 0, touch_misses := 0, delete_misses := 0,
     incr_misses := 0, decr_misses := 0, cas_misses := 0, bytes_read := 0, bytes_written := 0,
     flush_cmds := 0, conn_yields := 0, auth_cmds := 0, auth_errors := 0\<rparr>)"

definition threadlocal_stats_reset :: "nat \<Rightarrow> (nat \<Rightarrow> thread_stats) \<Rightarrow> nat \<Rightarrow> thread_stats" where
  "threadlocal_stats_reset num_threads threads =
     (\<lambda>ii. if ii < num_threads then reset_thread_stats (threads ii) else threads ii)"

primrec slab_stats_sum :: "nat \<Rightarrow> thread_stats \<Rightarrow> slab_stats \<Rightarrow> slab_stats" where
  "slab_stats_sum 0 st out = out"
| "slab_stats_sum (Suc n) st out = add_slab_stats (slab_stats_of st n) (slab_stats_sum n st out)"

definition slab_stats_aggregate :: "thread_stats \<Rightarrow> slab_stats" where
  "slab_stats_aggregate st = slab_stats_sum MAX_NUMBER_OF_SLAB_CLASSES st zero_slab_stats"

text \<open>The lines \<open>do_slabs_stats\<close> prints for a class that has pages, in their order; the products
  are those of \<open>uint32_t\<close>.\<close>

definition slab_class_lines :: "nat \<Rightarrow> thread_stats \<Rightarrow> 'a slabs_state_scheme \<Rightarrow> (nat \<times> string \<times> nat) list" where
  "slab_class_lines i ts s =
     (let p = slabclass s i; slabs = sc_slabs p; perslab = sc_perslab p; t = slab_stats_of ts i
      in map (\<lambda>(name, v). (i, name, v))
        [(''chunk_size'', unat (sc_size p)), (''chunks_per_page'', unat perslab),
         (''total_pages'', unat slabs), (''total_chunks'', unat (slabs * perslab)),
         (''used_chunks'', unat (slabs * perslab - sc_sl_curr p)), (''free_chunks'', unat (sc_sl_curr p)),
         (''free_chunks_end'', 0), (''mem_requested'', unat (sc_requested p)),
         (''get_hits'', unat (get_hits t)), (''cmd_set'', unat (set_cmds t)),
         (''delete_hits'', unat (delete_hits t)), (''incr_hits'', unat (incr_hits t)),
         (''decr_hits'', unat (decr_hits t)), (''cas_hits'', unat (cas_hits t)),
         (''cas_badval'', unat (cas_badval t)), (''touch_hits'', unat (touch_hits t))])"

text \<open>The lines per class, \<open>active_slabs\<close> and \<open>total_malloced\<close>.\<close>

definition do_slabs_stats ::
  "nat \<Rightarrow> (nat \<Rightarrow> thread_stats) \<Rightarrow> 'a slabs_state_scheme \<Rightarrow> (nat \<times> string \<times> nat) list \<times> nat \<times> nat" where
  "do_slabs_stats num_threads threads s =
     (let ts = threadlocal_stats_aggregate num_threads threads;
          active = filter (\<lambda>i. sc_slabs (slabclass s i) \<noteq> 0) [POWER_SMALLEST..<Suc (power_largest s)]
      in (concat (map (\<lambda>i. slab_class_lines i ts s) active), length active, unat (mem_malloced s)))"

section \<open>Sums\<close>

lemma add_slab_stats_fields [simp]:
  "set_cmds (add_slab_stats a b) = set_cmds b + set_cmds a"
  "get_hits (add_slab_stats a b) = get_hits b + get_hits a"
  "touch_hits (add_slab_stats a b) = touch_hits b + touch_hits a"
  "delete_hits (add_slab_stats a b) = delete_hits b + delete_hits a"
  "cas_hits (add_slab_stats a b) = cas_hits b + cas_hits a"
  "cas_badval (add_slab_stats a b) = cas_badval b + cas_badval a"
  "incr_hits (add_slab_stats a b) = incr_hits b + incr_hits a"
  "decr_hits (add_slab_stats a b) = decr_hits b + decr_hits a"
  by (simp_all add: add_slab_stats_def)

lemma add_classes_other [simp]:
  "get_cmds (add_classes n t st) = get_cmds st" "get_misses (add_classes n t st) = get_misses st"
  "touch_cmds (add_classes n t st) = touch_cmds st"
  "touch_misses (add_classes n t st) = touch_misses st"
  "delete_misses (add_classes n t st) = delete_misses st"
  "incr_misses (add_classes n t st) = incr_misses st"
  "decr_misses (add_classes n t st) = decr_misses st"
  "cas_misses (add_classes n t st) = cas_misses st"
  "bytes_read (add_classes n t st) = bytes_read st"
  "bytes_written (add_classes n t st) = bytes_written st"
  "flush_cmds (add_classes n t st) = flush_cmds st"
  "conn_yields (add_classes n t st) = conn_yields st"
  "auth_cmds (add_classes n t st) = auth_cmds st"
  "auth_errors (add_classes n t st) = auth_errors st"
  by (induction n) (simp_all add: Let_def)

lemma slab_stats_add_classes [simp]:
  "slab_stats_of (add_classes n t st) =
     (\<lambda>i. if i < n then add_slab_stats (slab_stats_of t i) (slab_stats_of st i) else slab_stats_of st i)"
  by (induction n) (auto simp: Let_def fun_eq_iff less_Suc_eq)

lemma sum_Suc_last: "(\<Sum>ii<Suc n. f ii) = (\<Sum>ii<n. f ii) + (f n :: u64)"
  by simp

lemma aggregate_threads_fields:
  "get_cmds (aggregate_threads n threads st) = get_cmds st + (\<Sum>ii<n. get_cmds (threads ii))"
  "get_misses (aggregate_threads n threads st) = get_misses st + (\<Sum>ii<n. get_misses (threads ii))"
  "touch_cmds (aggregate_threads n threads st) = touch_cmds st + (\<Sum>ii<n. touch_cmds (threads ii))"
  "touch_misses (aggregate_threads n threads st) = touch_misses st + (\<Sum>ii<n. touch_misses (threads ii))"
  "delete_misses (aggregate_threads n threads st) = delete_misses st + (\<Sum>ii<n. delete_misses (threads ii))"
  "incr_misses (aggregate_threads n threads st) = incr_misses st + (\<Sum>ii<n. incr_misses (threads ii))"
  "decr_misses (aggregate_threads n threads st) = decr_misses st + (\<Sum>ii<n. decr_misses (threads ii))"
  "cas_misses (aggregate_threads n threads st) = cas_misses st + (\<Sum>ii<n. cas_misses (threads ii))"
  "bytes_read (aggregate_threads n threads st) = bytes_read st + (\<Sum>ii<n. bytes_read (threads ii))"
  "bytes_written (aggregate_threads n threads st) = bytes_written st + (\<Sum>ii<n. bytes_written (threads ii))"
  "flush_cmds (aggregate_threads n threads st) = flush_cmds st + (\<Sum>ii<n. flush_cmds (threads ii))"
  "conn_yields (aggregate_threads n threads st) = conn_yields st + (\<Sum>ii<n. conn_yields (threads ii))"
  "auth_cmds (aggregate_threads n threads st) = auth_cmds st + (\<Sum>ii<n. auth_cmds (threads ii))"
  "auth_errors (aggregate_threads n threads st) = auth_errors st + (\<Sum>ii<n. auth_errors (threads ii))"
  by (induction n) (simp_all add: add_thread_stats_def)

lemma aggregate_threads_slabs:
  assumes "c < MAX_NUMBER_OF_SLAB_CLASSES"
  shows
  "set_cmds (slab_stats_of (aggregate_threads n threads st) c) =
     set_cmds (slab_stats_of st c) + (\<Sum>ii<n. set_cmds (slab_stats_of (threads ii) c))"
  "get_hits (slab_stats_of (aggregate_threads n threads st) c) =
     get_hits (slab_stats_of st c) + (\<Sum>ii<n. get_hits (slab_stats_of (threads ii) c))"
  "touch_hits (slab_stats_of (aggregate_threads n threads st) c) =
     touch_hits (slab_stats_of st c) + (\<Sum>ii<n. touch_hits (slab_stats_of (threads ii) c))"
  "delete_hits (slab_stats_of (aggregate_threads n threads st) c) =
     delete_hits (slab_stats_of st c) + (\<Sum>ii<n. delete_hits (slab_stats_of (threads ii) c))"
  "cas_hits (slab_stats_of (aggregate_threads n threads st) c) =
     cas_hits (slab_stats_of st c) + (\<Sum>ii<n. cas_hits (slab_stats_of (threads ii) c))"
  "cas_badval (slab_stats_of (aggregate_threads n threads st) c) =
     cas_badval (slab_stats_of st c) + (\<Sum>ii<n. cas_badval (slab_stats_of (threads ii) c))"
  "incr_hits (slab_stats_of (aggregate_threads n threads st) c) =
     incr_hits (slab_stats_of st c) + (\<Sum>ii<n. incr_hits (slab_stats_of (threads ii) c))"
  "decr_hits (slab_stats_of (aggregate_threads n threads st) c) =
     decr_hits (slab_stats_of st c) + (\<Sum>ii<n. decr_hits (slab_stats_of (threads ii) c))"
  using assms by (induction n) (simp_all add: add_thread_stats_def)

lemma slab_stats_sum_fields:
  "set_cmds (slab_stats_sum n st out) = set_cmds out + (\<Sum>c<n. set_cmds (slab_stats_of st c))"
  "get_hits (slab_stats_sum n st out) = get_hits out + (\<Sum>c<n. get_hits (slab_stats_of st c))"
  "touch_hits (slab_stats_sum n st out) = touch_hits out + (\<Sum>c<n. touch_hits (slab_stats_of st c))"
  "delete_hits (slab_stats_sum n st out) = delete_hits out + (\<Sum>c<n. delete_hits (slab_stats_of st c))"
  "cas_hits (slab_stats_sum n st out) = cas_hits out + (\<Sum>c<n. cas_hits (slab_stats_of st c))"
  "cas_badval (slab_stats_sum n st out) = cas_badval out + (\<Sum>c<n. cas_badval (slab_stats_of st c))"
  "incr_hits (slab_stats_sum n st out) = incr_hits out + (\<Sum>c<n. incr_hits (slab_stats_of st c))"
  "decr_hits (slab_stats_sum n st out) = decr_hits out + (\<Sum>c<n. decr_hits (slab_stats_of st c))"
  by (induction n) simp_all

lemma zero_stats_fields [simp]:
  "set_cmds zero_slab_stats = 0" "get_hits zero_slab_stats = 0" "touch_hits zero_slab_stats = 0"
  "delete_hits zero_slab_stats = 0" "cas_hits zero_slab_stats = 0"
  "cas_badval zero_slab_stats = 0" "incr_hits zero_slab_stats = 0"
  "decr_hits zero_slab_stats = 0"
  "get_cmds zero_thread_stats = 0" "get_misses zero_thread_stats = 0"
  "touch_cmds zero_thread_stats = 0" "touch_misses zero_thread_stats = 0"
  "delete_misses zero_thread_stats = 0" "incr_misses zero_thread_stats = 0"
  "decr_misses zero_thread_stats = 0" "cas_misses zero_thread_stats = 0"
  "bytes_read zero_thread_stats = 0" "bytes_written zero_thread_stats = 0"
  "flush_cmds zero_thread_stats = 0" "conn_yields zero_thread_stats = 0"
  "auth_cmds zero_thread_stats = 0" "auth_errors zero_thread_stats = 0"
  "slab_stats_of zero_thread_stats c = zero_slab_stats"
  by (simp_all add: zero_slab_stats_def zero_thread_stats_def)

lemma reset_classes_slabs [simp]:
  "slab_stats_of (reset_classes n t) = (\<lambda>i. if i < n then zero_slab_stats else slab_stats_of t i)"
  by (induction n) (auto simp: Let_def fun_eq_iff less_Suc_eq zero_slab_stats_def)

lemma reset_classes_other [simp]:
  "get_cmds (reset_classes n t) = get_cmds t" "get_misses (reset_classes n t) = get_misses t"
  "touch_cmds (reset_classes n t) = touch_cmds t"
  "touch_misses (reset_classes n t) = touch_misses t"
  "delete_misses (reset_classes n t) = delete_misses t"
  "incr_misses (reset_classes n t) = incr_misses t"
  "decr_misses (reset_classes n t) = decr_misses t"
  "cas_misses (reset_classes n t) = cas_misses t" "bytes_read (reset_classes n t) = bytes_read t"
  "bytes_written (reset_classes n t) = bytes_written t"
  "flush_cmds (reset_classes n t) = flush_cmds t"
  "conn_yields (reset_classes n t) = conn_yields t" "auth_cmds (reset_classes n t) = auth_cmds t"
  "auth_errors (reset_classes n t) = auth_errors t"
  by (induction n) (simp_all add: Let_def)

lemma reset_thread_stats_fields [simp]:
  "get_cmds (reset_thread_stats t) = 0" "get_misses (reset_thread_stats t) = 0"
  "touch_cmds (reset_thread_stats t) = 0" "touch_misses (reset_thread_stats t) = 0"
  "delete_misses (reset_thread_stats t) = 0" "incr_misses (reset_thread_stats t) = 0"
  "decr_misses (reset_thread_stats t) = 0" "cas_misses (reset_thread_stats t) = 0"
  "bytes_read (reset_thread_stats t) = 0" "bytes_written (reset_thread_stats t) = 0"
  "flush_cmds (reset_thread_stats t) = 0" "conn_yields (reset_thread_stats t) = 0"
  "auth_cmds (reset_thread_stats t) = 0" "auth_errors (reset_thread_stats t) = 0"
  "slab_stats_of (reset_thread_stats t) c = (if c < MAX_NUMBER_OF_SLAB_CLASSES then zero_slab_stats else slab_stats_of t c)"
  by (simp_all add: reset_thread_stats_def)

section \<open>Properties\<close>

text \<open>The counters of a thread, and those it keeps per slab class.\<close>

definition thread_counters :: "(thread_stats \<Rightarrow> u64) list" where
  "thread_counters =
     [get_cmds, get_misses, touch_cmds, touch_misses, delete_misses, incr_misses, decr_misses,
      cas_misses, bytes_read, bytes_written, flush_cmds, conn_yields, auth_cmds, auth_errors]"

definition class_counters :: "(slab_stats \<Rightarrow> u64) list" where
  "class_counters =
     [set_cmds, get_hits, touch_hits, delete_hits, cas_hits, cas_badval, incr_hits, decr_hits]"

lemma thread_counter_sum:
  assumes "f \<in> set thread_counters"
  shows "f (threadlocal_stats_aggregate n threads) = (\<Sum>ii<n. f (threads ii))"
  using assms unfolding thread_counters_def
  by (auto simp: threadlocal_stats_aggregate_def aggregate_threads_fields)

lemma class_counter_sum:
  assumes "f \<in> set class_counters" "c < MAX_NUMBER_OF_SLAB_CLASSES"
  shows "f (slab_stats_of (threadlocal_stats_aggregate n threads) c) = (\<Sum>ii<n. f (slab_stats_of (threads ii) c))"
  using assms unfolding class_counters_def
  by (auto simp: threadlocal_stats_aggregate_def aggregate_threads_slabs)

lemma class_total_sum:
  assumes "f \<in> set class_counters"
  shows "f (slab_stats_aggregate ts) = (\<Sum>c<MAX_NUMBER_OF_SLAB_CLASSES. f (slab_stats_of ts c))"
  using assms unfolding class_counters_def by (auto simp: slab_stats_aggregate_def slab_stats_sum_fields)

text \<open>C40: What the \<open>stats\<close> commands report is the sum (of \<open>uint64_t\<close>, with its wrap-around) of the
  counters of all worker threads: for each of the 14 counters of a thread, for each of the 8 it
  keeps for every slab class, and for the 8 totals over all classes, which add up the counters of
  every thread and every class.\<close>

theorem stats_aggregate_sums:
  assumes "ts = threadlocal_stats_aggregate n threads"
  shows "(\<forall>f\<in>set [get_cmds, get_misses, touch_cmds, touch_misses, delete_misses, incr_misses, decr_misses,
             cas_misses, bytes_read, bytes_written, flush_cmds, conn_yields, auth_cmds, auth_errors].
           f ts = (\<Sum>ii<n. f (threads ii))) \<and>
    (\<forall>f\<in>set [set_cmds, get_hits, touch_hits, delete_hits, cas_hits, cas_badval, incr_hits, decr_hits].
       (\<forall>c<MAX_NUMBER_OF_SLAB_CLASSES. f (slab_stats_of ts c) = (\<Sum>ii<n. f (slab_stats_of (threads ii) c))) \<and>
       f (slab_stats_aggregate ts) =
         (\<Sum>c<MAX_NUMBER_OF_SLAB_CLASSES. \<Sum>ii<n. f (slab_stats_of (threads ii) c)))"
  unfolding assms thread_counters_def [symmetric] class_counters_def [symmetric]
  by (simp add: thread_counter_sum class_counter_sum class_total_sum cong: sum.cong_simp)

definition two_threads :: "nat \<Rightarrow> thread_stats" where
  "two_threads = (\<lambda>ii. zero_thread_stats\<lparr>touch_cmds := 7, touch_misses := of_nat ii + 1,
     slab_stats_of := (\<lambda>c. zero_slab_stats)(3 := zero_slab_stats\<lparr>incr_hits := 5, decr_hits := of_nat ii\<rparr>)\<rparr>)"

theorem stats_aggregate_sums_witness:
  "let ts = threadlocal_stats_aggregate 2 two_threads
   in touch_cmds ts = 14 \<and> touch_misses ts = 3 \<and> incr_hits (slab_stats_of ts 3) = 10 \<and>
      decr_hits (slab_stats_of ts 3) = 1 \<and> incr_hits (slab_stats_of ts 4) = 0"
proof -
  note T = stats_aggregate_sums [of "threadlocal_stats_aggregate 2 two_threads" 2 two_threads, OF refl]
  have "3 < MAX_NUMBER_OF_SLAB_CLASSES" "4 < MAX_NUMBER_OF_SLAB_CLASSES"
    by (simp_all add: MAX_NUMBER_OF_SLAB_CLASSES_def POWER_LARGEST_def)
  with T show ?thesis by (simp add: Let_def two_threads_def numeral_2_eq_2)
qed

text \<open>After a reset of the statistics every aggregated counter is zero, whatever the threads
  had counted.\<close>

theorem stats_reset_aggregates_zero:
  "threadlocal_stats_aggregate n (threadlocal_stats_reset n threads) = zero_thread_stats"
proof -
  have "add_thread_stats (reset_thread_stats t) zero_thread_stats = zero_thread_stats" for t
    by (rule thread_stats.equality) (auto simp: add_thread_stats_def fun_eq_iff intro!: slab_stats.equality)
  then have "aggregate_threads k (threadlocal_stats_reset n threads) zero_thread_stats = zero_thread_stats"
    if "k \<le> n" for k
    using that by (induction k) (simp_all add: threadlocal_stats_reset_def)
  then show ?thesis by (simp add: threadlocal_stats_aggregate_def)
qed

end
