(* ===== verification/MC_Thread.thy ===== *)
theory MC_Thread
  imports Prelude
begin

text \<open>
  Handing connections to the worker threads (\<open>thread.c\<close>): a free list of connection queue items
  that are allocated in blocks and never given back, one queue per worker with a notification
  pipe, and the round-robin dispatcher; and the switch of the item lock type, which every worker
  acknowledges.  A pipe is the list of bytes written and not yet read.  What libevent and
  \<open>conn_new\<close> do with a descriptor is not part of this file: whether \<open>conn_new\<close> succeeds is an
  argument, and the connections a worker has taken over are recorded in order.
\<close>

section \<open>State\<close>

datatype conn_states =
  conn_listening | conn_new_cmd | conn_waiting | conn_read | conn_parse_cmd | conn_write | conn_nread |
  conn_swallow | conn_closing | conn_mwrite | conn_closed | conn_max_state

datatype network_transport = local_transport | tcp_transport | udp_transport

datatype item_lock_kind = GRANULAR | GLOBAL

record conn_queue_item =
  cqi_sfd :: int
  cqi_init_state :: conn_states
  cqi_event_flags :: int
  cqi_read_buffer_size :: int
  cqi_transport :: network_transport
  cqi_next :: ptr

record conn_queue =
  cq_head :: ptr
  cq_tail :: ptr

record thread_state =
  cqi_mem :: "ptr \<Rightarrow> conn_queue_item"
  cqi_freelist :: ptr
  queues :: "nat \<Rightarrow> conn_queue"
  pipes :: "nat \<Rightarrow> u8 list"
  lock_types :: "nat \<Rightarrow> item_lock_kind"
  last_thread :: int
  num_threads :: int
  init_count :: int
  cqi_malloc_fails :: u64
  taken :: "(nat \<times> conn_queue_item) list"
  closed_fds :: "int list"

definition ITEMS_PER_ALLOC :: nat where "ITEMS_PER_ALLOC = 64"

text \<open>\<open>sizeof(CQ_ITEM)\<close>: five 4 byte fields, 4 bytes of padding and a pointer.\<close>

definition sizeof_cqi :: nat where "sizeof_cqi = 32"

definition set_next :: "ptr \<Rightarrow> ptr \<Rightarrow> thread_state \<Rightarrow> thread_state" where
  "set_next p q s = s\<lparr>cqi_mem := (cqi_mem s)(p := (cqi_mem s p)\<lparr>cqi_next := q\<rparr>)\<rparr>"

section \<open>Connection queues\<close>

definition cq_init :: conn_queue where
  "cq_init = \<lparr>cq_head = NULL, cq_tail = NULL\<rparr>"

definition cq_pop :: "nat \<Rightarrow> thread_state \<Rightarrow> ptr \<times> thread_state" where
  "cq_pop t s =
     (let q = queues s t; it = cq_head q
      in if it \<noteq> NULL
         then let q1 = q\<lparr>cq_head := cqi_next (cqi_mem s it)\<rparr>;
                  q2 = (if cq_head q1 = NULL then q1\<lparr>cq_tail := NULL\<rparr> else q1)
              in (it, s\<lparr>queues := (queues s)(t := q2)\<rparr>)
         else (it, s))"

definition cq_push :: "nat \<Rightarrow> ptr \<Rightarrow> thread_state \<Rightarrow> thread_state" where
  "cq_push t it s =
     (let s1 = set_next it NULL s;
          q = queues s1 t;
          s2 = (if cq_tail q = NULL then s1\<lparr>queues := (queues s1)(t := q\<lparr>cq_head := it\<rparr>)\<rparr>
                else set_next (cq_tail q) it s1)
      in s2\<lparr>queues := (queues s2)(t := (queues s2 t)\<lparr>cq_tail := it\<rparr>)\<rparr>)"

text \<open>The loop that links the items of a new block, from the second to the last.\<close>

definition link_items :: "ptr \<Rightarrow> nat \<Rightarrow> thread_state \<Rightarrow> thread_state" where
  "link_items mem n s =
     foldl (\<lambda>s i. set_next (mem + (i - 1) * sizeof_cqi) (mem + i * sizeof_cqi) s) s [2..<n]"

text \<open>\<open>mem\<close> is what \<open>malloc\<close> returns for a new block, if one is needed.\<close>

definition cqi_new :: "ptr \<Rightarrow> thread_state \<Rightarrow> ptr \<times> thread_state" where
  "cqi_new mem s =
     (if cqi_freelist s \<noteq> NULL
      then (cqi_freelist s, s\<lparr>cqi_freelist := cqi_next (cqi_mem s (cqi_freelist s))\<rparr>)
      else if mem = NULL
      then (NULL, s\<lparr>cqi_malloc_fails := cqi_malloc_fails s + 1\<rparr>)
      else let s1 = link_items mem ITEMS_PER_ALLOC s;
               s2 = set_next (mem + (ITEMS_PER_ALLOC - 1) * sizeof_cqi) (cqi_freelist s1) s1
           in (mem, s2\<lparr>cqi_freelist := mem + sizeof_cqi\<rparr>))"

definition cqi_free :: "ptr \<Rightarrow> thread_state \<Rightarrow> thread_state" where
  "cqi_free it s = (set_next it (cqi_freelist s) s)\<lparr>cqi_freelist := it\<rparr>"

section \<open>Dispatching\<close>

text \<open>\<open>write_ok\<close>: the byte could be written to the notification pipe.  The remainder of a division by
  zero is undefined.\<close>

definition dispatch_conn_new ::
  "ptr \<Rightarrow> bool \<Rightarrow> int \<Rightarrow> conn_states \<Rightarrow> int \<Rightarrow> int \<Rightarrow> network_transport \<Rightarrow> thread_state \<Rightarrow> thread_state option" where
  "dispatch_conn_new mem write_ok sfd init_state event_flags read_buffer_size transport s =
     (case cqi_new mem s of (it, s1) \<Rightarrow>
        if it = NULL then Some (s1\<lparr>closed_fds := closed_fds s1 @ [sfd]\<rparr>)
        else do {
          c_assert (num_threads s1 \<noteq> 0);
          let tid = (last_thread s1 + 1) mod num_threads s1;
          c_assert (0 \<le> tid);
          let s2 = s1\<lparr>last_thread := tid\<rparr>;
          let s3 = s2\<lparr>cqi_mem := (cqi_mem s2)(it := (cqi_mem s2 it)\<lparr>cqi_sfd := sfd, cqi_init_state := init_state,
                  cqi_event_flags := event_flags, cqi_read_buffer_size := read_buffer_size,
                  cqi_transport := transport\<rparr>)\<rparr>;
          let s4 = cq_push (nat tid) it s3;
          Some (if write_ok then s4\<lparr>pipes := (pipes s4)(nat tid := pipes s4 (nat tid) @ [99])\<rparr> else s4)
        })"

definition register_thread_initialized :: "thread_state \<Rightarrow> thread_state" where
  "register_thread_initialized s = s\<lparr>init_count := init_count s + 1\<rparr>"

text \<open>The callback for input on the pipe of worker \<open>t\<close>; \<open>conn_ok\<close> tells whether \<open>conn_new\<close> returns a
  connection.  The buffer is not initialised, so that a read that fails leaves any byte in it.\<close>

definition thread_libevent_process ::
  "bool \<Rightarrow> u8 \<Rightarrow> nat \<Rightarrow> thread_state \<Rightarrow> thread_state option" where
  "thread_libevent_process conn_ok junk t s =
     (case (case pipes s t of [] \<Rightarrow> (junk, s) | b # bs \<Rightarrow> (b, s\<lparr>pipes := (pipes s)(t := bs)\<rparr>)) of (buf, s1) \<Rightarrow>
        if buf = 99 then
          (case cq_pop t s1 of (it, s2) \<Rightarrow>
             if it \<noteq> NULL
             then do {
               let i = cqi_mem s2 it;
               s3 \<leftarrow> (if \<not> conn_ok
                      then if cqi_transport i = udp_transport then None
                           else Some (s2\<lparr>closed_fds := closed_fds s2 @ [cqi_sfd i]\<rparr>)
                      else Some (s2\<lparr>taken := taken s2 @ [(t, i)]\<rparr>));
               Some (cqi_free it s3)
             }
             else Some s2)
        else if buf = 108 then
          Some (register_thread_initialized (s1\<lparr>lock_types := (lock_types s1)(t := GRANULAR)\<rparr>))
        else if buf = 103 then
          Some (register_thread_initialized (s1\<lparr>lock_types := (lock_types s1)(t := GLOBAL)\<rparr>))
        else Some s1)"

text \<open>\<open>switch_item_lock_type\<close> up to the wait for the threads' registration, and the condition of
  that wait.\<close>

definition switch_item_lock_type :: "(nat \<Rightarrow> bool) \<Rightarrow> item_lock_kind \<Rightarrow> thread_state \<Rightarrow> thread_state" where
  "switch_item_lock_type write_ok ty s =
     (let buf = (case ty of GRANULAR \<Rightarrow> 108 | GLOBAL \<Rightarrow> 103);
          s1 = s\<lparr>init_count := 0\<rparr>
      in foldl (\<lambda>s i. if write_ok i then s\<lparr>pipes := (pipes s)(i := pipes s i @ [buf])\<rparr> else s)
           s1 [0..<nat (num_threads s1)])"

definition wait_for_thread_registration :: "int \<Rightarrow> thread_state \<Rightarrow> bool" where
  "wait_for_thread_registration nthreads s \<longleftrightarrow> \<not> init_count s < nthreads"

text \<open>The state after \<open>thread_init\<close> with \<open>n\<close> workers.\<close>

definition thread_boot :: "int \<Rightarrow> (ptr \<Rightarrow> conn_queue_item) \<Rightarrow> thread_state" where
  "thread_boot n mem = \<lparr>cqi_mem = mem, cqi_freelist = NULL, queues = (\<lambda>_. cq_init), pipes = (\<lambda>_. []),
     lock_types = (\<lambda>_. GRANULAR), last_thread = -1, num_threads = n, init_count = n, cqi_malloc_fails = 0,
     taken = [], closed_fds = []\<rparr>"

section \<open>Handing over, abstractly\<close>

text \<open>A run of a producer and several consumers: a list of puts (\<open>Inl\<close>) and gets (\<open>Inr\<close>), the states
  it goes through, and what was put for whom.  \<open>may e s\<close> is what the producer needs for \<open>put e\<close>, and
  \<open>target s\<close> is the consumer that the next \<open>put\<close> serves.\<close>

inductive handoff_run ::
  "('e \<Rightarrow> 's \<Rightarrow> bool) \<Rightarrow> ('e \<Rightarrow> 's \<Rightarrow> 's option) \<Rightarrow> (nat \<Rightarrow> 's \<Rightarrow> 's option) \<Rightarrow> ('s \<Rightarrow> nat) \<Rightarrow> ('e \<Rightarrow> 'c) \<Rightarrow>
   's \<Rightarrow> ('e + nat) list \<Rightarrow> 's \<Rightarrow> (nat \<times> 'c) list \<Rightarrow> bool"
  for may put get target content where
  stop: "handoff_run may put get target content s [] s []"
| puts: "may e s \<Longrightarrow> put e s = Some s1 \<Longrightarrow> handoff_run may put get target content s1 es s' cs \<Longrightarrow>
     handoff_run may put get target content s (Inl e # es) s' ((target s, content e) # cs)"
| gets: "get t s = Some s1 \<Longrightarrow> handoff_run may put get target content s1 es s' cs \<Longrightarrow>
     handoff_run may put get target content s (Inr t # es) s' cs"

definition for_consumer :: "nat \<Rightarrow> (nat \<times> 'c) list \<Rightarrow> 'c list" where
  "for_consumer t cs = map snd (filter (\<lambda>c. fst c = t) cs)"

lemma for_consumer_simps [simp]:
  "for_consumer t [] = []"
  "for_consumer t (c # cs) = (if fst c = t then [snd c] else []) @ for_consumer t cs"
  "for_consumer t (cs @ ds) = for_consumer t cs @ for_consumer t ds"
  by (simp_all add: for_consumer_def)

text \<open>The contract: \<open>holds s W\<close> says that \<open>W t\<close> is waiting for consumer \<open>t\<close>, \<open>got s\<close> lists what has
  been taken and by whom.\<close>

locale handoff =
  fixes holds :: "'s \<Rightarrow> (nat \<Rightarrow> 'c list) \<Rightarrow> bool" and got :: "'s \<Rightarrow> (nat \<times> 'c) list"
    and may :: "'e \<Rightarrow> 's \<Rightarrow> bool" and put :: "'e \<Rightarrow> 's \<Rightarrow> 's option" and get :: "nat \<Rightarrow> 's \<Rightarrow> 's option"
    and target :: "'s \<Rightarrow> nat" and content :: "'e \<Rightarrow> 'c"
  assumes put_law: "holds s W \<Longrightarrow> may e s \<Longrightarrow> put e s = Some s' \<Longrightarrow>
      holds s' (W(target s := W (target s) @ [content e])) \<and> got s' = got s"
    and get_law: "holds s W \<Longrightarrow> get t s = Some s' \<Longrightarrow> got s' = got s \<and> holds s' W \<or>
      (\<exists>c cs. W t = c # cs \<and> got s' = got s @ [(t, c)] \<and> holds s' (W(t := cs)))"
begin

text \<open>Nothing is lost, doubled or reordered: what a consumer has taken, followed by what waits for
  it, is what it had and what was put for it, in order.\<close>

lemma run_conserves:
  "handoff_run may put get target content s es s' cs \<Longrightarrow> holds s W \<Longrightarrow>
   \<exists>W'. holds s' W' \<and> (\<forall>t. for_consumer t (got s') @ W' t = for_consumer t (got s) @ W t @ for_consumer t cs)"
proof (induction arbitrary: W rule: handoff_run.induct)
  case (stop s)
  then show ?case by auto
next
  case (puts e s s1 es s' cs)
  from put_law [OF puts.prems puts.hyps(1,2)]
  have "holds s1 (W(target s := W (target s) @ [content e]))" "got s1 = got s" by auto
  from puts.IH [OF this(1)] this(2) obtain W' where "holds s' W'"
    "\<forall>t. for_consumer t (got s') @ W' t =
      for_consumer t (got s) @ (W(target s := W (target s) @ [content e])) t @ for_consumer t cs" by auto
  then show ?case by (intro exI [of _ W']) auto
next
  case (gets t s s1 es s' cs)
  from get_law [OF gets.prems gets.hyps(1)] show ?case
  proof
    assume "got s1 = got s \<and> holds s1 W"
    with gets.IH show ?thesis by metis
  next
    assume "\<exists>c cs. W t = c # cs \<and> got s1 = got s @ [(t, c)] \<and> holds s1 (W(t := cs))"
    then obtain c ds where c: "W t = c # ds" "got s1 = got s @ [(t, c)]" "holds s1 (W(t := ds))" by blast
    from gets.IH [OF c(3)] obtain W' where "holds s' W'"
      "\<forall>u. for_consumer u (got s') @ W' u = for_consumer u (got s1) @ (W(t := ds)) u @ for_consumer u cs" by auto
    then show ?thesis by (intro exI [of _ W']) (auto simp: c(1,2))
  qed
qed

end

section \<open>The queues as lists\<close>

abbreviation cnext :: "thread_state \<Rightarrow> ptr \<Rightarrow> ptr" where
  "cnext s \<equiv> \<lambda>p. cqi_next (cqi_mem s p)"

definition queue_is :: "(ptr \<Rightarrow> ptr) \<Rightarrow> conn_queue \<Rightarrow> ptr list \<Rightarrow> bool" where
  "queue_is nx q xs \<longleftrightarrow> chain nx (cq_head q) xs \<and> cq_tail q = (if xs = [] then NULL else last xs)"

definition lists_ok :: "thread_state \<Rightarrow> (nat \<Rightarrow> ptr list) \<Rightarrow> ptr list \<Rightarrow> bool" where
  "lists_ok s Q fr \<longleftrightarrow> chain (cnext s) (cqi_freelist s) fr \<and> (\<forall>t. queue_is (cnext s) (queues s t) (Q t)) \<and>
     (\<forall>t p. p \<in> set (Q t) \<longrightarrow> p \<notin> set fr \<and> (\<forall>u. u \<noteq> t \<longrightarrow> p \<notin> set (Q u)))"

lemma lists_okI:
  assumes "chain (cnext s) (cqi_freelist s) fr" "\<And>t. queue_is (cnext s) (queues s t) (Q t)"
    "\<And>t p. p \<in> set (Q t) \<Longrightarrow> p \<notin> set fr" "\<And>t u p. p \<in> set (Q t) \<Longrightarrow> u \<noteq> t \<Longrightarrow> p \<notin> set (Q u)"
  shows "lists_ok s Q fr"
  using assms unfolding lists_ok_def by blast

lemma lists_okD:
  assumes "lists_ok s Q fr"
  shows "chain (cnext s) (cqi_freelist s) fr" "queue_is (cnext s) (queues s t) (Q t)"
    "p \<in> set (Q t) \<Longrightarrow> p \<notin> set fr" "p \<in> set (Q t) \<Longrightarrow> u \<noteq> t \<Longrightarrow> p \<notin> set (Q u)"
  using assms unfolding lists_ok_def by blast+

lemma queue_is_cong:
  "(\<And>p. p \<in> set xs \<Longrightarrow> nx p = nx' p) \<Longrightarrow> queue_is nx q xs = queue_is nx' q xs"
  unfolding queue_is_def by (simp cong: chain_cong)

lemma queue_is_distinct: "queue_is nx q xs \<Longrightarrow> distinct xs \<and> NULL \<notin> set xs"
  by (auto simp: queue_is_def dest: chain_distinct chain_NULL_notin)

lemma set_next_simps [simp]:
  "cnext (set_next p q s) = (cnext s)(p := q)" "queues (set_next p q s) = queues s"
  "cqi_freelist (set_next p q s) = cqi_freelist s" "pipes (set_next p q s) = pipes s"
  "taken (set_next p q s) = taken s" "last_thread (set_next p q s) = last_thread s"
  "num_threads (set_next p q s) = num_threads s"
  "(cqi_mem (set_next p q s) r)\<lparr>cqi_next := x\<rparr> = (cqi_mem s r)\<lparr>cqi_next := x\<rparr>"
  by (simp_all add: set_next_def fun_eq_iff)

text \<open>Freeing puts an item that is in no list on the free list.\<close>

lemma cqi_free_lists:
  assumes l: "lists_ok s Q fr" and p: "p \<noteq> NULL" "p \<notin> set fr" "\<And>t. p \<notin> set (Q t)"
  shows "lists_ok (cqi_free p s) Q (p # fr)"
proof -
  have "chain ((cnext s)(p := cqi_freelist s)) (cqi_freelist s) fr"
    using lists_okD(1) [OF l] p(2) by (simp add: chain_upd_notin)
  moreover have "queue_is ((cnext s)(p := cqi_freelist s)) (queues s t) (Q t)" for t
    using lists_okD(2) [OF l, of t] p(3) [of t] by (subst queue_is_cong [where nx' = "cnext s"]) auto
  ultimately show ?thesis
    using lists_okD(3,4) [OF l] p(3) p(1) by (intro lists_okI) (auto simp: cqi_free_def)
qed

lemma cq_pop_lists:
  assumes l: "lists_ok s Q fr" and pop: "cq_pop t s = (p, s')"
  shows "if Q t = [] then p = NULL \<and> s' = s
         else p = hd (Q t) \<and> p \<noteq> NULL \<and> lists_ok s' (Q(t := tl (Q t))) fr \<and> cqi_mem s' = cqi_mem s \<and>
           p \<notin> set fr \<and> (\<forall>u. p \<notin> set ((Q(t := tl (Q t))) u)) \<and>
           pipes s' = pipes s \<and> taken s' = taken s \<and> last_thread s' = last_thread s \<and>
           num_threads s' = num_threads s"
proof (cases "Q t")
  case Nil
  with lists_okD(2) [OF l, of t] pop show ?thesis by (auto simp: queue_is_def cq_pop_def Let_def)
next
  case (Cons x xs)
  note q = lists_okD(2) [OF l, of t, unfolded Cons]
  then have x: "cq_head (queues s t) = x" "x \<noteq> NULL" "chain (cnext s) (cnext s x) xs" by (auto simp: queue_is_def)
  from queue_is_distinct [OF q] have d: "x \<notin> set xs" by simp
  have nul: "(cnext s x = NULL) = (xs = [])" using x(3) by (cases xs) auto
  let ?q = "(queues s t)\<lparr>cq_head := cnext s x\<rparr>"
  let ?q' = "if cnext s x = NULL then ?q\<lparr>cq_tail := NULL\<rparr> else ?q"
  have s': "p = x" "s' = s\<lparr>queues := (queues s)(t := ?q')\<rparr>"
    using pop x by (auto simp: cq_pop_def Let_def)
  have "queue_is (cnext s) ?q' xs" using x(3) nul q by (auto simp: queue_is_def)
  moreover have sub: "r \<in> set ((Q(t := xs)) u) \<Longrightarrow> r \<in> set (Q u)" for r u using Cons by (auto split: if_splits)
  ultimately have "lists_ok s' (Q(t := xs)) fr"
  proof (intro lists_okI)
    show "r \<notin> set ((Q(t := xs)) v)" if "r \<in> set ((Q(t := xs)) u)" "v \<noteq> u" for r u v
      using lists_okD(4) [OF l sub [OF that(1)] that(2)] sub [of r v] by blast
  qed (use lists_okD(1,2) [OF l] lists_okD(3) [OF l sub] in \<open>simp_all add: s'\<close>)
  moreover have "x \<notin> set fr" "\<forall>u. x \<notin> set ((Q(t := xs)) u)"
    using lists_okD(3,4) [OF l, of x t] d Cons by auto
  ultimately show ?thesis using Cons x(2) by (simp add: s')
qed

lemma cq_push_lists:
  assumes l: "lists_ok s Q fr" and p: "p \<noteq> NULL" "p \<notin> set fr" "\<And>t. p \<notin> set (Q t)"
  shows "lists_ok (cq_push t p s) (Q(t := Q t @ [p])) fr"
    "(cqi_mem (cq_push t p s) r)\<lparr>cqi_next := x\<rparr> = (cqi_mem s r)\<lparr>cqi_next := x\<rparr>"
    "pipes (cq_push t p s) = pipes s" "taken (cq_push t p s) = taken s"
    "last_thread (cq_push t p s) = last_thread s" "num_threads (cq_push t p s) = num_threads s"
    "cqi_freelist (cq_push t p s) = cqi_freelist s"
proof -
  let ?q = "queues s t"
  note q = lists_okD(2) [OF l, of t] and d = queue_is_distinct [OF lists_okD(2) [OF l, of t]]
  have tl: "(cq_tail ?q = NULL) = (Q t = [])" using q d by (cases "Q t" rule: rev_cases) (auto simp: queue_is_def)
  let ?nx = "if Q t = [] then (cnext s)(p := NULL) else (cnext s)(p := NULL, last (Q t) := p)"
  let ?q' = "if Q t = [] then \<lparr>cq_head = p, cq_tail = p\<rparr> else ?q\<lparr>cq_tail := p\<rparr>"
  have s': "cnext (cq_push t p s) = ?nx" "queues (cq_push t p s) = (queues s)(t := ?q')"
    "cqi_freelist (cq_push t p s) = cqi_freelist s"
    using tl q by (auto simp: cq_push_def Let_def queue_is_def)
  have lastp: "Q t \<noteq> [] \<Longrightarrow> last (Q t) \<in> set (Q t)" by simp
  have "chain ?nx (cqi_freelist s) fr"
    using lists_okD(1) [OF l] p(2) lists_okD(3) [OF l lastp] by (simp add: chain_upd_notin)
  moreover have "queue_is ?nx (queues s u) (Q u)" if "u \<noteq> t" for u
  proof (subst queue_is_cong [where nx' = "cnext s"])
    fix r assume "r \<in> set (Q u)"
    then have "r \<noteq> p" "Q t \<noteq> [] \<Longrightarrow> r \<noteq> last (Q t)"
      using p(3) [of u] lists_okD(4) [OF l lastp that] by auto
    then show "?nx r = cnext s r" by simp
  qed (rule lists_okD(2) [OF l])
  moreover have "queue_is ?nx ?q' (Q t @ [p])"
  proof (cases "Q t" rule: rev_cases)
    case Nil
    then show ?thesis using p by (auto simp: queue_is_def)
  next
    case (snoc ys y)
    from q snoc have "seg (cnext s) (cq_head ?q) (ys @ [y]) NULL"
      by (simp add: queue_is_def seg_NULL_chain)
    moreover have "p \<notin> set (ys @ [y])" using p(3) [of t] by (simp add: snoc)
    ultimately have "seg ((cnext s)(p := NULL)) (cq_head ?q) (ys @ [y]) NULL" by (subst seg_upd_notin)
    then have "seg ((cnext s)(p := NULL, y := p)) (cq_head ?q) (ys @ [y]) p"
      by (rule seg_relink) (use d snoc in simp)
    moreover have "y \<noteq> p" using p(3) [of t] snoc by auto
    ultimately show ?thesis
      using p(1) snoc by (auto simp: queue_is_def simp flip: seg_NULL_chain simp: seg_append)
  qed
  ultimately show "lists_ok (cq_push t p s) (Q(t := Q t @ [p])) fr"
  proof (intro lists_okI)
    have sub: "r \<in> set ((Q(t := Q t @ [p])) u) \<Longrightarrow> r \<in> set (Q u) \<or> u = t \<and> r = p" for r u
      by (auto split: if_splits)
    show "r \<notin> set ((Q(t := Q t @ [p])) v)" if "r \<in> set ((Q(t := Q t @ [p])) u)" "v \<noteq> u" for r u v
      using sub [OF that(1)] sub [of r v] lists_okD(4) [OF l _ that(2), of r] p(3) that(2) by blast
    show "r \<notin> set fr" if "r \<in> set ((Q(t := Q t @ [p])) u)" for r u
      using sub [OF that] lists_okD(3) [OF l, of r] p(2) by blast
  qed (simp_all add: s')
  show "(cqi_mem (cq_push t p s) r)\<lparr>cqi_next := x\<rparr> = (cqi_mem s r)\<lparr>cqi_next := x\<rparr>"
    "pipes (cq_push t p s) = pipes s" "taken (cq_push t p s) = taken s"
    "last_thread (cq_push t p s) = last_thread s" "num_threads (cq_push t p s) = num_threads s"
    "cqi_freelist (cq_push t p s) = cqi_freelist s"
    by (simp_all add: cq_push_def Let_def)
qed

section \<open>Allocating queue items\<close>

definition block :: "ptr \<Rightarrow> ptr set" where
  "block mem = (\<lambda>i. mem + i * sizeof_cqi) ` {..<ITEMS_PER_ALLOC}"

lemma link_items_simps [simp]:
  "cqi_freelist (link_items mem n s) = cqi_freelist s" "queues (link_items mem n s) = queues s"
  "pipes (link_items mem n s) = pipes s" "taken (link_items mem n s) = taken s"
  "last_thread (link_items mem n s) = last_thread s" "num_threads (link_items mem n s) = num_threads s"
  "(cqi_mem (link_items mem n s) p)\<lparr>cqi_next := x\<rparr> = (cqi_mem s p)\<lparr>cqi_next := x\<rparr>"
  by (induction n) (auto simp: link_items_def)

lemma link_items_Suc:
  "link_items mem (Suc n) s = (if 2 \<le> n then set_next (mem + (n - 1) * sizeof_cqi) (mem + n * sizeof_cqi)
     (link_items mem n s) else s)"
  by (simp add: link_items_def)

lemma cnext_link_items:
  "cnext (link_items mem n s) p =
     (if p \<in> (\<lambda>i. mem + i * sizeof_cqi) ` {1..<n - 1} then p + sizeof_cqi else cnext s p)"
proof (induction n)
  case 0
  then show ?case by (simp add: link_items_def)
next
  case (Suc n)
  show ?case
  proof (cases "2 \<le> n")
    case True
    then obtain k where k: "n = Suc k" by (cases n) auto
    have "cnext (link_items mem (Suc n) s) p =
        (if p = mem + k * sizeof_cqi then mem + n * sizeof_cqi else cnext (link_items mem n s) p)"
      using True by (simp add: link_items_Suc set_next_def k)
    moreover have "mem + n * sizeof_cqi = mem + k * sizeof_cqi + sizeof_cqi" by (simp add: k)
    moreover have "{1..<Suc n - 1} = insert k {1..<n - 1}" using True k by auto
    ultimately show ?thesis using Suc.IH by auto
  next
    case False
    then have "{1..<Suc n - 1} = {}" by auto
    with False show ?thesis by (simp add: link_items_Suc)
  qed
qed

lemma chain_steps:
  assumes "\<And>i. a \<le> i \<Longrightarrow> Suc i < n \<Longrightarrow> f (mem + i * z) = mem + Suc i * z" "f (mem + (n - 1) * z) = NULL"
    "mem > 0" "a < n"
  shows "chain f (mem + a * z) (map (\<lambda>i. mem + i * z) [a..<n])"
  using assms
proof (induction "n - a" arbitrary: a)
  case 0
  then show ?case by simp
next
  case (Suc k)
  show ?case
  proof (cases "Suc a < n")
    case True
    with Suc.hyps(1) [of "Suc a"] Suc.prems Suc.hyps(2)
    have "chain f (mem + Suc a * z) (map (\<lambda>i. mem + i * z) [Suc a..<n])" by simp
    moreover have "f (mem + a * z) = mem + Suc a * z" using Suc.prems True by blast
    moreover have "[a..<n] = a # [Suc a..<n]" using Suc.prems(4) by (rule upt_conv_Cons)
    ultimately show ?thesis using Suc.prems(3) by simp
  next
    case False
    with Suc.prems(4) have "n = Suc a" by simp
    with Suc.prems show ?thesis by simp
  qed
qed

lemma cqi_new_lists:
  assumes l: "lists_ok s Q fr" and mem: "mem \<noteq> NULL" "block mem \<inter> set fr = {}" "\<And>t. block mem \<inter> set (Q t) = {}"
    and run: "cqi_new mem s = (p, s')"
  shows "\<exists>fr'. lists_ok s' Q fr' \<and> p \<noteq> NULL \<and> p \<notin> set fr' \<and> (\<forall>t. p \<notin> set (Q t)) \<and>
      insert p (set fr') \<subseteq> set fr \<union> block mem \<and>
      (\<forall>r x. (cqi_mem s' r)\<lparr>cqi_next := x\<rparr> = (cqi_mem s r)\<lparr>cqi_next := x\<rparr>) \<and>
      pipes s' = pipes s \<and> taken s' = taken s \<and> last_thread s' = last_thread s \<and> num_threads s' = num_threads s"
proof (cases fr)
  case (Cons q fr1)
  with lists_okD(1) [OF l] have f: "cqi_freelist s = q" "q \<noteq> NULL" "chain (cnext s) (cnext s q) fr1" by auto
  have "q \<notin> set fr1" using chain_distinct [OF lists_okD(1) [OF l]] Cons by simp
  moreover have s': "p = q" "s' = s\<lparr>cqi_freelist := cnext s q\<rparr>" using run f by (auto simp: cqi_new_def)
  moreover have "q \<notin> set (Q t)" for t using lists_okD(3) [OF l, of q t] Cons by auto
  moreover have "lists_ok s' Q fr1"
    using lists_okD [OF l] f(3) Cons by (intro lists_okI) (auto simp: s')
  ultimately show ?thesis using f Cons by (intro exI [of _ fr1]) auto
next
  case Nil
  with lists_okD(1) [OF l] have f: "cqi_freelist s = NULL" by simp
  let ?last = "mem + (ITEMS_PER_ALLOC - 1) * sizeof_cqi"
  define fr' where "fr' = map (\<lambda>i. mem + i * sizeof_cqi) [1..<ITEMS_PER_ALLOC]"
  have s': "p = mem" "s' = (set_next ?last NULL (link_items mem ITEMS_PER_ALLOC s))\<lparr>cqi_freelist := mem + sizeof_cqi\<rparr>"
    using run f mem(1) by (auto simp: cqi_new_def Let_def)
  have nx: "cnext s' r = (if r = ?last then NULL else
      if r \<in> (\<lambda>i. mem + i * sizeof_cqi) ` {1..<ITEMS_PER_ALLOC - 1} then r + sizeof_cqi else cnext s r)" for r
    using cnext_link_items [of mem ITEMS_PER_ALLOC s r] by (simp add: s' set_next_def)
  have sub: "set fr' \<subseteq> block mem" by (auto simp: fr'_def block_def)
  have "chain (cnext s') (mem + 1 * sizeof_cqi) fr'"
    unfolding fr'_def
  proof (rule chain_steps)
    fix i assume "1 \<le> i" "Suc i < ITEMS_PER_ALLOC"
    then show "cnext s' (mem + i * sizeof_cqi) = mem + Suc i * sizeof_cqi"
      by (auto simp: nx sizeof_cqi_def ITEMS_PER_ALLOC_def)
  qed (use mem(1) in \<open>simp_all add: nx ITEMS_PER_ALLOC_def\<close>)
  moreover have "queue_is (cnext s') (queues s' t) (Q t)" for t
  proof (subst queue_is_cong [where nx' = "cnext s"])
    fix r assume "r \<in> set (Q t)"
    then have "r \<notin> block mem" using mem(3) [of t] by blast
    then have "r \<noteq> ?last" "r \<notin> (\<lambda>i. mem + i * sizeof_cqi) ` {1..<ITEMS_PER_ALLOC - 1}"
      by (auto simp: block_def ITEMS_PER_ALLOC_def)
    then show "cnext s' r = cnext s r" by (simp add: nx)
  next
    show "queue_is (cnext s) (queues s' t) (Q t)"
      using lists_okD(2) [OF l] by (simp add: s')
  qed
  ultimately have "lists_ok s' Q fr'"
  proof (intro lists_okI)
    show "r \<notin> set fr'" if "r \<in> set (Q t)" for r t using mem(3) [of t] sub that by blast
  qed (use lists_okD(4) [OF l] in \<open>simp_all add: s'\<close>)
  moreover have "mem \<in> block mem" by (force simp: block_def ITEMS_PER_ALLOC_def)
  moreover have "mem \<notin> set fr'" by (auto simp: fr'_def sizeof_cqi_def)
  ultimately show ?thesis
    using mem sub Nil by (intro exI [of _ fr']) (auto simp: s')
qed

section \<open>The handoff of connections\<close>

type_synonym dispatch_args = "ptr \<times> bool \<times> int \<times> conn_states \<times> int \<times> int \<times> network_transport"

definition conn_put :: "dispatch_args \<Rightarrow> thread_state \<Rightarrow> thread_state option" where
  "conn_put = (\<lambda>(mem, write_ok, sfd, st, ev, sz, tr). dispatch_conn_new mem write_ok sfd st ev sz tr)"

definition conn_get :: "nat \<Rightarrow> thread_state \<Rightarrow> thread_state option" where
  "conn_get t s = thread_libevent_process True 0 t s"

definition conn_target :: "thread_state \<Rightarrow> nat" where
  "conn_target s = nat ((last_thread s + 1) mod num_threads s)"

definition conn_content :: "dispatch_args \<Rightarrow> conn_queue_item" where
  "conn_content = (\<lambda>(mem, write_ok, sfd, st, ev, sz, tr).
     \<lparr>cqi_sfd = sfd, cqi_init_state = st, cqi_event_flags = ev, cqi_read_buffer_size = sz,
      cqi_transport = tr, cqi_next = NULL\<rparr>)"

abbreviation info :: "conn_queue_item \<Rightarrow> conn_queue_item" where
  "info i \<equiv> i\<lparr>cqi_next := NULL\<rparr>"

definition conn_got :: "thread_state \<Rightarrow> (nat \<times> conn_queue_item) list" where
  "conn_got s = map (\<lambda>(t, i). (t, info i)) (taken s)"

definition conn_holds :: "thread_state \<Rightarrow> (nat \<Rightarrow> conn_queue_item list) \<Rightarrow> bool" where
  "conn_holds s W \<longleftrightarrow> (\<exists>Q fr. lists_ok s Q fr \<and> W = (\<lambda>t. map (\<lambda>p. info (cqi_mem s p)) (Q t)))"

text \<open>There are workers, and \<open>malloc\<close> succeeds and returns memory that no list uses.\<close>

definition in_lists :: "thread_state \<Rightarrow> ptr \<Rightarrow> bool" where
  "in_lists s p \<longleftrightarrow> (\<exists>Q fr. lists_ok s Q fr \<and> (p \<in> set fr \<or> (\<exists>t. p \<in> set (Q t))))"

definition conn_may :: "dispatch_args \<Rightarrow> thread_state \<Rightarrow> bool" where
  "conn_may = (\<lambda>(mem, _) s. num_threads s > 0 \<and> last_thread s \<ge> -1 \<and> mem \<noteq> NULL \<and>
     (\<forall>p\<in>block mem. \<not> in_lists s p))"

lemma conn_put_law:
  assumes h: "conn_holds s W" and may: "conn_may e s" and run: "conn_put e s = Some s'"
  shows "conn_holds s' (W(conn_target s := W (conn_target s) @ [conn_content e])) \<and> conn_got s' = conn_got s"
    "last_thread s' = (last_thread s + 1) mod num_threads s" "num_threads s' = num_threads s"
proof -
  obtain mem w sfd st ev sz tr where e: "e = (mem, w, sfd, st, ev, sz, tr)" by (cases e) auto
  from h obtain Q fr where l: "lists_ok s Q fr" and W: "W = (\<lambda>t. map (\<lambda>p. info (cqi_mem s p)) (Q t))"
    by (auto simp: conn_holds_def)
  obtain p s1 where p: "cqi_new mem s = (p, s1)" by (cases "cqi_new mem s") auto
  have "mem \<noteq> NULL" "block mem \<inter> set fr = {}" "block mem \<inter> set (Q t) = {}" for t
    using may l by (auto simp: conn_may_def e in_lists_def)
  from cqi_new_lists [OF l this p] obtain fr' where
    l1: "lists_ok s1 Q fr'" and p1: "p \<noteq> NULL" "p \<notin> set fr'" "\<And>t. p \<notin> set (Q t)"
    and m1: "\<And>r. info (cqi_mem s1 r) = info (cqi_mem s r)"
    and s1: "pipes s1 = pipes s" "taken s1 = taken s" "last_thread s1 = last_thread s" "num_threads s1 = num_threads s"
    by auto
  let ?t = "(last_thread s + 1) mod num_threads s"
  have nt: "num_threads s > 0" using may by (simp add: conn_may_def e)
  then have "0 \<le> ?t" by simp
  note nt = nt this
  define s3 where "s3 = s1\<lparr>last_thread := ?t, cqi_mem := (cqi_mem s1)(p := (cqi_mem s1 p)\<lparr>cqi_sfd := sfd,
      cqi_init_state := st, cqi_event_flags := ev, cqi_read_buffer_size := sz, cqi_transport := tr\<rparr>)\<rparr>"
  have "lists_ok s3 Q fr'"
  proof -
    have "cnext s3 = cnext s1" by (auto simp: s3_def fun_eq_iff)
    with l1 show ?thesis by (simp add: lists_ok_def s3_def)
  qed
  note push = cq_push_lists [OF this p1, where t = "nat ?t"]
  let ?s4 = "cq_push (nat ?t) p s3"
  have s': "s' = (if w then ?s4\<lparr>pipes := (pipes ?s4)(nat ?t := pipes ?s4 (nat ?t) @ [99])\<rparr> else ?s4)"
    using run p p1(1) s1 nt by (auto simp: conn_put_def e dispatch_conn_new_def Let_def s3_def)
  have cm: "cqi_mem s' = cqi_mem ?s4" "taken s' = taken s" "last_thread s' = ?t" "num_threads s' = num_threads s"
    using s1 push by (simp_all add: s' s3_def)
  have "lists_ok s' (Q(nat ?t := Q (nat ?t) @ [p])) fr'"
    using push(1) by (auto simp: s' lists_ok_def)
  moreover have "info (cqi_mem s' r) = (if r = p then conn_content e else info (cqi_mem s r))" for r
  proof -
    have "info (cqi_mem s' r) = info (cqi_mem s3 r)" by (simp only: cm push(2))
    also have "\<dots> = (if r = p then conn_content e else info (cqi_mem s r))"
      using m1 [of r] by (simp add: s3_def conn_content_def e)
    finally show ?thesis .
  qed
  then have "W(conn_target s := W (conn_target s) @ [conn_content e]) =
      (\<lambda>t. map (\<lambda>p. info (cqi_mem s' p)) ((Q(nat ?t := Q (nat ?t) @ [p])) t))"
    using p1(3) by (auto simp: W conn_target_def fun_eq_iff)
  ultimately show "conn_holds s' (W(conn_target s := W (conn_target s) @ [conn_content e])) \<and> conn_got s' = conn_got s"
    unfolding conn_holds_def conn_got_def by (auto simp: cm)
  show "last_thread s' = ?t" "num_threads s' = num_threads s" by (simp_all add: cm)
qed

lemma conn_get_law:
  assumes h: "conn_holds s W" and run: "conn_get t s = Some s'"
  shows "conn_got s' = conn_got s \<and> conn_holds s' W \<or>
      (\<exists>c cs. W t = c # cs \<and> conn_got s' = conn_got s @ [(t, c)] \<and> conn_holds s' (W(t := cs)))"
    "last_thread s' = last_thread s" "num_threads s' = num_threads s"
proof -
  from h obtain Q fr where l: "lists_ok s Q fr" and W: "W = (\<lambda>t. map (\<lambda>p. info (cqi_mem s p)) (Q t))"
    by (auto simp: conn_holds_def)
  define s1 where "s1 = s\<lparr>pipes := (pipes s)(t := tl (pipes s t))\<rparr>"
  have l1: "lists_ok s1 Q fr" using l by (simp add: s1_def lists_ok_def)
  have same: "conn_got u = conn_got s \<and> conn_holds u W \<and> last_thread u = last_thread s \<and> num_threads u = num_threads s"
    if "cqi_mem u = cqi_mem s" "queues u = queues s" "cqi_freelist u = cqi_freelist s" "taken u = taken s"
      "last_thread u = last_thread s" "num_threads u = num_threads s" for u
    using l that unfolding conn_holds_def conn_got_def W
    by (auto simp: lists_ok_def intro!: exI [of _ Q] exI [of _ fr])
  have "(conn_got s' = conn_got s \<and> conn_holds s' W \<or>
      (\<exists>c cs. W t = c # cs \<and> conn_got s' = conn_got s @ [(t, c)] \<and> conn_holds s' (W(t := cs)))) \<and>
    last_thread s' = last_thread s \<and> num_threads s' = num_threads s"
  proof (cases "pipes s t \<noteq> [] \<and> hd (pipes s t) = 99 \<and> Q t \<noteq> []")
    case True
    obtain p s2 where pop: "cq_pop t s1 = (p, s2)" by (cases "cq_pop t s1") auto
    from True have "\<not> Q t = []" by simp
    note c = cq_pop_lists [OF l1 pop, unfolded if_not_P [OF this]]
    then have p: "p = hd (Q t)" "p \<noteq> NULL" "p \<notin> set fr" "\<forall>u. p \<notin> set ((Q(t := tl (Q t))) u)"
      and l2: "lists_ok s2 (Q(t := tl (Q t))) fr" by blast+
    have s2: "cqi_mem s2 = cqi_mem s" "taken s2 = taken s" "last_thread s2 = last_thread s" "num_threads s2 = num_threads s"
      using c by (simp_all add: s1_def)
    let ?s3 = "s2\<lparr>taken := taken s2 @ [(t, cqi_mem s p)]\<rparr>"
    obtain bs where b: "pipes s t = 99 # bs" using True by (cases "pipes s t") auto
    have s': "s' = cqi_free p ?s3"
      using run b pop p(2) by (simp add: conn_get_def thread_libevent_process_def Let_def s1_def s2)
    have "lists_ok ?s3 (Q(t := tl (Q t))) fr" using l2 by (simp add: lists_ok_def)
    from cqi_free_lists [OF this p(2,3)] p(4) have "lists_ok s' (Q(t := tl (Q t))) (p # fr)" by (simp add: s')
    moreover have "info (cqi_mem s' r) = info (cqi_mem s r)" for r by (simp add: s' cqi_free_def s2)
    ultimately have "conn_holds s' (W(t := map (\<lambda>p. info (cqi_mem s p)) (tl (Q t))))"
      unfolding conn_holds_def W by (auto simp: fun_eq_iff intro!: exI [of _ "Q(t := tl (Q t))"])
    moreover have "W t = info (cqi_mem s p) # map (\<lambda>p. info (cqi_mem s p)) (tl (Q t))"
      using True p(1) by (cases "Q t") (auto simp: W)
    moreover have "conn_got s' = conn_got s @ [(t, info (cqi_mem s p))]"
      by (simp add: conn_got_def s' cqi_free_def s2)
    ultimately show ?thesis by (auto simp: s' cqi_free_def s2)
  next
    case False
    have "cq_pop t s1 = (NULL, s1)" if "Q t = []"
      using cq_pop_lists [OF l1, of t "fst (cq_pop t s1)" "snd (cq_pop t s1)"] that by (simp add: prod_eq_iff)
    then have "cqi_mem s' = cqi_mem s \<and> queues s' = queues s \<and> cqi_freelist s' = cqi_freelist s \<and>
        taken s' = taken s \<and> last_thread s' = last_thread s \<and> num_threads s' = num_threads s"
      using False run
      by (auto simp: conn_get_def thread_libevent_process_def s1_def register_thread_initialized_def
          split: list.splits if_splits)
    then show ?thesis using same [of s'] by blast
  qed
  then show "conn_got s' = conn_got s \<and> conn_holds s' W \<or>
      (\<exists>c cs. W t = c # cs \<and> conn_got s' = conn_got s @ [(t, c)] \<and> conn_holds s' (W(t := cs)))"
    "last_thread s' = last_thread s" "num_threads s' = num_threads s" by blast+
qed

interpretation hand: handoff conn_holds conn_got conn_may conn_put conn_get conn_target conn_content
  by unfold_locales (rule conn_put_law, assumption+, rule conn_get_law, assumption+)

text \<open>Round robin: the \<open>j\<close>-th connection goes to worker \<open>j mod n\<close>.\<close>

lemma run_targets:
  "handoff_run conn_may conn_put conn_get conn_target conn_content s es s' cs \<Longrightarrow> conn_holds s W \<Longrightarrow>
   last_thread s + 1 = k \<Longrightarrow> num_threads s = int n \<Longrightarrow> 0 < n \<Longrightarrow> 0 \<le> k \<Longrightarrow>
   map fst cs = map (\<lambda>j. nat ((k + int j) mod int n)) [0..<length cs]"
proof (induction arbitrary: W k rule: handoff_run.induct)
  case (stop s)
  then show ?case by simp
next
  case (puts e s s1 es s' cs)
  note law = conn_put_law [OF puts.prems(1) puts.hyps(1,2)]
  have l1: "last_thread s1 + 1 = k mod int n + 1" "num_threads s1 = int n"
    using law(2,3) puts.prems(2,3) by simp_all
  have "0 \<le> k mod int n + 1" using puts.prems(4) by (simp add: add_nonneg_nonneg)
  from puts.IH [OF conjunct1 [OF law(1)] l1 puts.prems(4) this]
  have "map fst cs = map (\<lambda>j. nat ((k mod int n + 1 + int j) mod int n)) [0..<length cs]" .
  also have "\<dots> = map (\<lambda>j. nat ((k + int (Suc j)) mod int n)) [0..<length cs]"
  proof (rule map_cong [OF refl])
    fix j
    have "(k mod int n + (1 + int j)) mod int n = (k + (1 + int j)) mod int n" by (rule mod_add_left_eq)
    then show "nat ((k mod int n + 1 + int j) mod int n) = nat ((k + int (Suc j)) mod int n)"
      by (simp add: add.assoc)
  qed
  finally show ?case
    using puts.prems(2,3) by (simp add: conn_target_def upt_conv_Cons map_Suc_upt [symmetric] del: upt_Suc)
next
  case (gets t s s1 es s' cs)
  note law = conn_get_law [OF gets.prems(1) gets.hyps(1)]
  obtain W1 where "conn_holds s1 W1" using law(1) by blast
  from gets.IH [OF this _ _ gets.prems(4,5)] law(2,3) gets.prems(2,3) show ?case by simp
qed

lemma boot_lists: "lists_ok (thread_boot n mem) (\<lambda>_. []) []"
  by (rule lists_okI) (simp_all add: thread_boot_def queue_is_def cq_init_def)

lemma boot_holds: "conn_holds (thread_boot n mem) (\<lambda>_. [])"
  unfolding conn_holds_def using boot_lists by fastforce

lemma boot_in_lists: "\<not> in_lists (thread_boot n mem) p"
proof
  assume "in_lists (thread_boot n mem) p"
  then obtain Q fr where l: "lists_ok (thread_boot n mem) Q fr" and p: "p \<in> set fr \<or> (\<exists>t. p \<in> set (Q t))"
    by (auto simp: in_lists_def)
  have "fr = []" using lists_okD(1) [OF l] by (simp add: thread_boot_def)
  moreover have "Q t = []" for t using lists_okD(2) [OF l, of t] by (simp add: thread_boot_def queue_is_def cq_init_def)
  ultimately show False using p by simp
qed

section \<open>Properties\<close>

text \<open>C20: Connections are handed over in order: after any sequence of dispatches and of callbacks of
  the workers, worker \<open>t\<close> has taken over a prefix of the connections whose number is \<open>t\<close> modulo the
  number of workers, in the order in which they were dispatched, each once and with the arguments
  it was dispatched with, and exactly the others of these are waiting in its queue.\<close>

theorem connections_in_order:
  assumes "handoff_run conn_may conn_put conn_get conn_target conn_content (thread_boot (int n) mem) es s' cs"
    and "0 < n"
  shows "map fst cs = map (\<lambda>j. j mod n) [0..<length cs] \<and>
    (\<exists>W. conn_holds s' W \<and> (\<forall>t. for_consumer t (conn_got s') @ W t = for_consumer t cs))"
proof
  have "map fst cs = map (\<lambda>j. nat ((0 + int j) mod int n)) [0..<length cs]"
    by (rule run_targets [OF assms(1) boot_holds]) (use assms(2) in \<open>simp_all add: thread_boot_def\<close>)
  then show "map fst cs = map (\<lambda>j. j mod n) [0..<length cs]" by (simp add: nat_mod_as_int)
  from hand.run_conserves [OF assms(1) boot_holds]
  show "\<exists>W. conn_holds s' W \<and> (\<forall>t. for_consumer t (conn_got s') @ W t = for_consumer t cs)"
    by (simp add: conn_got_def thread_boot_def)
qed

text \<open>A connection dispatched to one of two workers, which takes it over.\<close>

definition example_dispatch :: dispatch_args where
  "example_dispatch = (4096, True, 7, conn_new_cmd, 2, 2048, tcp_transport)"

definition example_threads :: thread_state where
  "example_threads = thread_boot 2 (\<lambda>_. conn_content example_dispatch)"

definition example_queued :: thread_state where
  "example_queued = the (conn_put example_dispatch example_threads)"

definition example_taken :: thread_state where
  "example_taken = the (conn_get 0 example_queued)"

lemma example_put: "conn_put example_dispatch example_threads = Some example_queued"
  by (simp add: example_queued_def conn_put_def example_dispatch_def dispatch_conn_new_def cqi_new_def Let_def
      example_threads_def thread_boot_def)

lemma example_queued_fields:
  "pipes example_queued 0 = [99]" "cq_head (queues example_queued 0) = 4096"
  by (simp_all add: example_queued_def conn_put_def example_dispatch_def dispatch_conn_new_def cqi_new_def Let_def
      example_threads_def thread_boot_def cq_push_def cq_init_def)

lemma example_get: "conn_get 0 example_queued = Some example_taken"
  using example_queued_fields
  by (simp add: example_taken_def conn_get_def thread_libevent_process_def cq_pop_def Let_def)

theorem connections_in_order_witness:
  "\<exists>W. conn_holds example_taken W \<and>
     (\<forall>t. for_consumer t (conn_got example_taken) @ W t =
          for_consumer t [(0, conn_content example_dispatch)])"
proof -
  have may: "conn_may example_dispatch example_threads"
    using boot_in_lists
    by (simp add: conn_may_def example_dispatch_def example_threads_def) (simp add: thread_boot_def)
  have "conn_target example_threads = 0" by (simp add: conn_target_def example_threads_def thread_boot_def)
  then have "handoff_run conn_may conn_put conn_get conn_target conn_content example_threads
      [Inl example_dispatch, Inr 0] example_taken [(0, conn_content example_dispatch)]"
    by (metis may example_put example_get handoff_run.intros)
  then
  have "handoff_run conn_may conn_put conn_get conn_target conn_content (thread_boot (int 2) (\<lambda>_. conn_content example_dispatch))
      [Inl example_dispatch, Inr 0] example_taken [(0, conn_content example_dispatch)]"
    by (simp add: example_threads_def)
  from connections_in_order [OF this] show ?thesis by auto
qed

lemma switch_pipes:
  "foldl (\<lambda>s i. if True then s\<lparr>pipes := (pipes s)(i := pipes s i @ [buf])\<rparr> else s) s [0..<k] =
   s\<lparr>pipes := (\<lambda>i. if i < k then pipes s i @ [buf] else pipes s i)\<rparr>"
  by (induction k) (auto simp: fun_eq_iff less_Suc_eq)

definition lock_byte :: "item_lock_kind \<Rightarrow> u8" where
  "lock_byte ty = (case ty of GRANULAR \<Rightarrow> 108 | GLOBAL \<Rightarrow> 103)"

lemma process_lock_byte:
  "pipes s t = lock_byte ty # bs \<Longrightarrow> thread_libevent_process c j t s =
     Some (s\<lparr>pipes := (pipes s)(t := bs), lock_types := (lock_types s)(t := ty), init_count := init_count s + 1\<rparr>)"
  by (cases ty) (simp_all add: lock_byte_def thread_libevent_process_def register_thread_initialized_def)

fun process_all :: "nat list \<Rightarrow> thread_state \<Rightarrow> thread_state option" where
  "process_all [] s = Some s"
| "process_all (t # ts) s = do { s1 \<leftarrow> thread_libevent_process True 0 t s; process_all ts s1 }"

lemma process_all_lock_bytes:
  "distinct ts \<Longrightarrow> (\<And>t. t \<in> set ts \<Longrightarrow> pipes s t = [lock_byte ty]) \<Longrightarrow>
   \<exists>s'. process_all ts s = Some s' \<and> (\<forall>t\<in>set ts. lock_types s' t = ty) \<and>
     init_count s' = init_count s + int (length ts) \<and> num_threads s' = num_threads s \<and>
     (\<forall>t. t \<notin> set ts \<longrightarrow> lock_types s' t = lock_types s t)"
proof (induction ts arbitrary: s)
  case Nil
  then show ?case by simp
next
  case (Cons t ts)
  let ?s1 = "s\<lparr>pipes := (pipes s)(t := []), lock_types := (lock_types s)(t := ty), init_count := init_count s + 1\<rparr>"
  have "thread_libevent_process True 0 t s = Some ?s1" by (rule process_lock_byte) (simp add: Cons.prems)
  moreover obtain s' where "process_all ts ?s1 = Some s'" "\<forall>t\<in>set ts. lock_types s' t = ty"
    "init_count s' = init_count ?s1 + int (length ts)" "num_threads s' = num_threads ?s1"
    "\<forall>u. u \<notin> set ts \<longrightarrow> lock_types s' u = lock_types ?s1 u"
  proof -
    have "distinct ts" "pipes ?s1 u = [lock_byte ty]" if "u \<in> set ts" for u
      using Cons.prems that by auto
    with Cons.IH [of ?s1] Cons.prems(1) that show thesis by (metis distinct.simps(2))
  qed
  ultimately show ?case using Cons.prems(1) by auto
qed

text \<open>C38: Switching the item lock type reaches every worker under three conditions: the notification
  pipes are empty before, every write to a pipe succeeds, and then each worker handles exactly one
  byte of its pipe, in any order. After that every worker uses the new type and the wait for their registration
  is over. When a write fails the worker is never told and the wait does not end (the TODO in the
  code).\<close>

theorem lock_switch_reaches_workers:
  assumes "\<And>t. pipes s t = []" and "distinct ts" and "set ts = {..<nat (num_threads s)}"
  shows "\<exists>s'. process_all ts (switch_item_lock_type (\<lambda>_. True) ty s) = Some s' \<and>
    (\<forall>t<nat (num_threads s). lock_types s' t = ty) \<and> wait_for_thread_registration (num_threads s) s'"
proof -
  let ?s1 = "(s\<lparr>init_count := 0\<rparr>)\<lparr>pipes := (\<lambda>i. if i < nat (num_threads s) then [lock_byte ty] else [])\<rparr>"
  have "switch_item_lock_type (\<lambda>_. True) ty s = ?s1"
    unfolding switch_item_lock_type_def Let_def lock_byte_def [symmetric] switch_pipes
    using assms(1) by (simp add: fun_eq_iff)
  moreover obtain s' where "process_all ts ?s1 = Some s'" "\<forall>t\<in>set ts. lock_types s' t = ty"
    "init_count s' = int (length ts)"
    using process_all_lock_bytes [OF assms(2), of ?s1 ty] assms(3) by auto
  moreover have "length ts = nat (num_threads s)" using assms(2,3) by (metis card_lessThan distinct_card)
  ultimately show ?thesis using assms(3) by (auto simp: wait_for_thread_registration_def)
qed

theorem lock_switch_reaches_workers_witness:
  "\<exists>s'. process_all [1, 0] (switch_item_lock_type (\<lambda>_. True) GLOBAL example_threads) = Some s' \<and>
    (\<forall>t<2. lock_types s' t = GLOBAL)"
proof -
  have "{1, 0} = {..<nat (num_threads example_threads)}" by (auto simp: example_threads_def thread_boot_def)
  moreover have "pipes example_threads t = []" "nat (num_threads example_threads) = 2" for t
    by (simp_all add: example_threads_def thread_boot_def)
  ultimately show ?thesis using lock_switch_reaches_workers [of example_threads "[1, 0]" GLOBAL] by auto
qed

end
