(* ===== verification/MC_Iov.thy ===== *)
theory MC_Iov
  imports MC_Base MC_Thread
begin

text \<open>
  The output side of a connection (\<open>memcached.c\<close>): replies are lists of memory fragments
  (\<open>struct iovec\<close>) that are grouped into messages (\<open>struct msghdr\<close>), so that a UDP datagram and
  the first part of a TCP reply stay below \<open>UDP_MAX_PAYLOAD_SIZE\<close> bytes.  A fragment is the address
  and the length of memory that is read when the reply is sent.  \<open>msg_iov\<close> points into the array
  \<open>iov\<close> and is kept as an index.  The outcomes of the following calls of \<open>realloc\<close> are the list
  \<open>reallocs\<close> (they succeed when it is empty); \<open>stats.malloc_fails\<close> is counted in \<open>malloc_failed\<close>.
\<close>

section \<open>State\<close>

definition UDP_MAX_PAYLOAD_SIZE :: int where "UDP_MAX_PAYLOAD_SIZE = 1400"
definition UDP_HEADER_SIZE :: int where "UDP_HEADER_SIZE = 8"
definition IOV_MAX :: nat where "IOV_MAX = 1024"

record iovec =
  iov_base :: ptr
  iov_len :: u64

record msghdr =
  msg_iov :: nat
  msg_iovlen :: nat
  msg_named :: bool

record msg_buf =
  iov :: "nat \<Rightarrow> iovec"
  iovsize :: nat
  iovused :: nat
  msglist :: "nat \<Rightarrow> msghdr"
  msgsize :: nat
  msgused :: nat
  msgcurr :: nat
  msgbytes :: int
  transport :: network_transport
  request_addr_size :: nat
  request_id :: int
  hdrbuf :: "nat \<Rightarrow> u8"
  hdrbuf_addr :: ptr
  hdrsize :: nat
  reallocs :: "bool list"
  malloc_failed :: u64

definition is_udp :: "'a msg_buf_scheme \<Rightarrow> bool" where
  "is_udp c \<longleftrightarrow> transport c = udp_transport"

definition realloc_result :: "'a msg_buf_scheme \<Rightarrow> bool \<times> 'a msg_buf_scheme" where
  "realloc_result c = (case reallocs c of
       [] \<Rightarrow> (True, c)
     | ok # oks \<Rightarrow> (ok, if ok then c\<lparr>reallocs := oks\<rparr>
                         else c\<lparr>reallocs := oks, malloc_failed := malloc_failed c + 1\<rparr>))"

section \<open>Operations\<close>

text \<open>\<open>add_msghdr\<close> without the UDP header: whether there was memory, and the connection.\<close>

definition start_msghdr :: "'a msg_buf_scheme \<Rightarrow> bool \<times> 'a msg_buf_scheme" where
  "start_msghdr c =
     (case (if msgsize c = msgused c
            then (case realloc_result c of (ok, c1) \<Rightarrow>
                    (ok, if ok then c1\<lparr>msgsize := msgsize c1 * 2\<rparr> else c1))
            else (True, c)) of (ok, c1) \<Rightarrow>
        if \<not> ok then (False, c1)
        else (True, c1\<lparr>msglist := (msglist c1)(msgused c1 :=
                 \<lparr>msg_iov = iovused c1, msg_iovlen = 0,
                  msg_named = (is_udp c1 \<and> request_addr_size c1 > 0)\<rparr>),
               msgbytes := 0, msgused := msgused c1 + 1\<rparr>))"

text \<open>The loop that points the messages into the moved array, from message \<open>i\<close> on.\<close>

fun repoint :: "nat \<Rightarrow> nat \<Rightarrow> nat \<Rightarrow> (nat \<Rightarrow> msghdr) \<Rightarrow> nat \<Rightarrow> msghdr" where
  "repoint 0 i iovnum ml = ml"
| "repoint (Suc n) i iovnum ml =
     (let ml' = ml(i := (ml i)\<lparr>msg_iov := iovnum\<rparr>)
      in repoint n (i + 1) (iovnum + msg_iovlen (ml' i)) ml')"

definition ensure_iov_space :: "'a msg_buf_scheme \<Rightarrow> bool \<times> 'a msg_buf_scheme" where
  "ensure_iov_space c =
     (if iovused c \<ge> iovsize c
      then (case realloc_result c of (ok, c1) \<Rightarrow>
              if \<not> ok then (False, c1)
              else (True, c1\<lparr>iovsize := iovsize c1 * 2, msglist := repoint (msgused c1) 0 0 (msglist c1)\<rparr>))
      else (True, c))"

text \<open>The second half of a round of \<open>add_iov\<close>'s loop: the fragment, or what fits of it, becomes the
  last one of the last message.  The result is \<open>None\<close> when memory is short, and the number of bytes
  left over otherwise.\<close>

definition iov_put ::
  "bool \<Rightarrow> ptr \<Rightarrow> int \<Rightarrow> 'a msg_buf_scheme \<Rightarrow> (int option \<times> 'a msg_buf_scheme) option" where
  "iov_put limit_to_mtu buf len c =
     (case ensure_iov_space c of (ok, c2) \<Rightarrow>
       if \<not> ok then Some (None, c2)
       else do {
         let leftover = (if limit_to_mtu \<and> len + msgbytes c2 > UDP_MAX_PAYLOAD_SIZE
                         then len + msgbytes c2 - UDP_MAX_PAYLOAD_SIZE else 0);
         let len' = len - leftover;
         let i = msgused c2 - 1;
         let m = msglist c2 i;
         let k = msg_iov m + msg_iovlen m;
         c_assert (k < iovsize c2);
         Some (Some leftover,
           c2\<lparr>iov := (iov c2)(k := \<lparr>iov_base = buf, iov_len = of_int len'\<rparr>),
              msgbytes := msgbytes c2 + len', iovused := iovused c2 + 1,
              msglist := (msglist c2)(i := m\<lparr>msg_iovlen := msg_iovlen m + 1\<rparr>)\<rparr>)
       })"

text \<open>A round: \<open>addhdr\<close> is the call of \<open>add_msghdr\<close>, whose result the code ignores.\<close>

definition iov_step ::
  "('a msg_buf_scheme \<Rightarrow> 'a msg_buf_scheme option) \<Rightarrow> ptr \<Rightarrow> int \<Rightarrow> 'a msg_buf_scheme \<Rightarrow>
   (int option \<times> 'a msg_buf_scheme) option" where
  "iov_step addhdr buf len c = do {
     c_assert (msgused c > 0);
     let m = msglist c (msgused c - 1);
     let limit_to_mtu = (is_udp c \<or> msgused c = 1);
     c1 \<leftarrow> (if msg_iovlen m = IOV_MAX \<or> (limit_to_mtu \<and> msgbytes c \<ge> UDP_MAX_PAYLOAD_SIZE)
           then addhdr c else Some c);
     iov_put limit_to_mtu buf len c1
   }"

partial_function (option) iov_loop ::
  "('a msg_buf_scheme \<Rightarrow> 'a msg_buf_scheme option) \<Rightarrow> ptr \<Rightarrow> int \<Rightarrow> 'a msg_buf_scheme \<Rightarrow>
   (int \<times> 'a msg_buf_scheme) option" where
  "iov_loop addhdr buf len c = do {
     (r, c1) \<leftarrow> iov_step addhdr buf len c;
     case r of
       None \<Rightarrow> Some (-1, c1)
     | Some leftover \<Rightarrow>
         if leftover > 0 then iov_loop addhdr (buf + nat (len - leftover)) leftover c1 else Some (0, c1)
   }"

text \<open>\<open>add_msghdr\<close> calls \<open>add_iov\<close> for the header of a datagram, in a message that is empty: then
  \<open>add_iov\<close> does not call \<open>add_msghdr\<close>.\<close>

definition add_msghdr :: "'a msg_buf_scheme \<Rightarrow> (int \<times> 'a msg_buf_scheme) option" where
  "add_msghdr c =
     (case start_msghdr c of (ok, c1) \<Rightarrow>
        if \<not> ok then Some (-1, c1)
        else if is_udp c1 then iov_loop (\<lambda>_. None) NULL UDP_HEADER_SIZE c1 else Some (0, c1))"

definition add_iov :: "ptr \<Rightarrow> int \<Rightarrow> 'a msg_buf_scheme \<Rightarrow> (int \<times> 'a msg_buf_scheme) option" where
  "add_iov buf len c = iov_loop (\<lambda>c. map_option snd (add_msghdr c)) buf len c"

text \<open>The header of datagram \<open>i\<close> of \<open>n\<close>.\<close>

definition udp_header :: "int \<Rightarrow> nat \<Rightarrow> nat \<Rightarrow> bytes" where
  "udp_header req i n =
     [of_int (req div 256), of_int (req mod 256), of_nat (i div 256), of_nat (i mod 256),
      of_nat (n div 256), of_nat (n mod 256), 0, 0]"

fun fill_headers :: "nat \<Rightarrow> nat \<Rightarrow> 'a msg_buf_scheme \<Rightarrow> 'a msg_buf_scheme" where
  "fill_headers 0 i c = c"
| "fill_headers (Suc n) i c =
     (let h = udp_header (request_id c) i (msgused c)
      in fill_headers n (i + 1)
           (c\<lparr>iov := (iov c)(msg_iov (msglist c i) := \<lparr>iov_base = hdrbuf_addr c + 8 * i, iov_len = 8\<rparr>),
              hdrbuf := (\<lambda>k. if 8 * i \<le> k \<and> k < 8 * i + 8 then h ! (k - 8 * i) else hdrbuf c k)\<rparr>))"

text \<open>\<open>mem\<close> is the address \<open>malloc\<close> or \<open>realloc\<close> returns for a larger header buffer.\<close>

definition build_udp_headers :: "ptr \<Rightarrow> 'a msg_buf_scheme \<Rightarrow> int \<times> 'a msg_buf_scheme" where
  "build_udp_headers mem c =
     (case (if msgused c > hdrsize c
            then (case realloc_result c of (ok, c1) \<Rightarrow>
                    (ok, if ok then c1\<lparr>hdrbuf_addr := mem, hdrsize := msgused c1 * 2\<rparr> else c1))
            else (True, c)) of (ok, c1) \<Rightarrow>
        if \<not> ok then (-1, c1) else (0, fill_headers (msgused c1) 0 c1))"


section \<open>The message lists\<close>

definition msg_total :: "'a msg_buf_scheme \<Rightarrow> nat \<Rightarrow> int" where
  "msg_total c i = (\<Sum>k<msg_iovlen (msglist c i). uint (iov_len (iov c (msg_iov (msglist c i) + k))))"

text \<open>The messages divide the used part of \<open>iov\<close>, and respect the limits.\<close>

definition msg_ok :: "'a msg_buf_scheme \<Rightarrow> bool" where
  "msg_ok c \<longleftrightarrow> 0 < msgsize c \<and> msgused c \<le> msgsize c \<and> 0 < iovsize c \<and> iovused c \<le> iovsize c \<and>
     (\<forall>i<msgused c. msg_iov (msglist c i) = (\<Sum>j<i. msg_iovlen (msglist c j)) \<and>
        msg_iovlen (msglist c i) \<le> IOV_MAX \<and>
        (is_udp c \<or> i = 0 \<longrightarrow> msg_total c i \<le> UDP_MAX_PAYLOAD_SIZE)) \<and>
     iovused c = (\<Sum>j<msgused c. msg_iovlen (msglist c j)) \<and>
     (0 < msgused c \<longrightarrow> msgbytes c = msg_total c (msgused c - 1))"

text \<open>The memory the reply consists of, byte by byte; the headers of datagrams are not part of it.\<close>

definition frag :: "iovec \<Rightarrow> ptr list" where
  "frag v = (if iov_base v = NULL then [] else [iov_base v..<iov_base v + unat (iov_len v)])"

definition payload :: "'a msg_buf_scheme \<Rightarrow> ptr list" where
  "payload c = concat (map (\<lambda>k. frag (iov c k)) [0..<iovused c])"

lemma repoint_same:
  "(\<And>j. i \<le> j \<Longrightarrow> j < i + n \<Longrightarrow> msg_iov (ml j) = (\<Sum>l<j. msg_iovlen (ml l))) \<Longrightarrow>
   iovnum = (\<Sum>l<i. msg_iovlen (ml l)) \<Longrightarrow> repoint n i iovnum ml = ml"
proof (induction n arbitrary: i iovnum)
  case 0
  then show ?case by simp
next
  case (Suc n)
  have "(ml i)\<lparr>msg_iov := iovnum\<rparr> = ml i" using Suc.prems(1) [of i] Suc.prems(2) by (cases "ml i") simp
  then have "ml(i := (ml i)\<lparr>msg_iov := iovnum\<rparr>) = ml" by simp
  with Suc.IH [of "i + 1" "iovnum + msg_iovlen (ml i)"] Suc.prems show ?case by (simp add: Let_def)
qed

lemma ensure_iov_space_ok:
  assumes "msg_ok c" "reallocs c = []"
  shows "\<exists>z. ensure_iov_space c = (True, c\<lparr>iovsize := z\<rparr>) \<and> iovused c < z"
proof -
  have "repoint (msgused c) 0 0 (msglist c) = msglist c"
    using assms(1) by (intro repoint_same) (auto simp: msg_ok_def)
  then have "ensure_iov_space c = (True, c\<lparr>iovsize := if iovused c \<ge> iovsize c then iovsize c * 2 else iovsize c\<rparr>)"
    using assms by (simp add: ensure_iov_space_def realloc_result_def)
  moreover have "0 < iovsize c" "iovused c \<le> iovsize c" using assms(1) by (simp_all add: msg_ok_def)
  then have "iovused c < (if iovused c \<ge> iovsize c then iovsize c * 2 else iovsize c)" by simp
  ultimately show ?thesis by blast
qed

lemma msg_total_cong:
  assumes "msg_iovlen (msglist c' i) = msg_iovlen (msglist c i)" "msg_iov (msglist c' i) = msg_iov (msglist c i)"
    "\<And>k. k < msg_iovlen (msglist c i) \<Longrightarrow> iov c' (msg_iov (msglist c i) + k) = iov c (msg_iov (msglist c i) + k)"
  shows "msg_total c' i = msg_total c i"
  using assms by (simp add: msg_total_def)

text \<open>Messages lie before the end of the used part.\<close>

lemma msg_end:
  assumes "msg_ok c" "i < msgused c"
  shows "msg_iov (msglist c i) + msg_iovlen (msglist c i) \<le> iovused c"
    "Suc i = msgused c \<Longrightarrow> msg_iov (msglist c i) + msg_iovlen (msglist c i) = iovused c"
proof -
  let ?f = "\<lambda>j. msg_iovlen (msglist c j)"
  have e: "msg_iov (msglist c i) + ?f i = sum ?f {..<Suc i}" using assms by (simp add: msg_ok_def)
  also have "\<dots> \<le> sum ?f {..<msgused c}" using assms(2) by (intro sum_mono2) auto
  finally show "msg_iov (msglist c i) + ?f i \<le> iovused c" using assms(1) by (simp add: msg_ok_def)
  show "Suc i = msgused c \<Longrightarrow> msg_iov (msglist c i) + ?f i = iovused c"
    using e assms(1) by (simp add: msg_ok_def)
qed

lemma iov_put_ok:
  assumes ok: "msg_ok c" and used: "0 < msgused c" and mem: "reallocs c = []" and len: "0 \<le> len" "len < 2 ^ 31"
    and room: "msg_iovlen (msglist c (msgused c - 1)) < IOV_MAX" and limited: "limited \<Longrightarrow> msgbytes c < UDP_MAX_PAYLOAD_SIZE"
    "is_udp c \<or> msgused c = 1 \<Longrightarrow> limited"
  shows "\<exists>c' l. iov_put limited buf len c = Some (Some l, c') \<and> msg_ok c' \<and> reallocs c' = [] \<and>
     msgused c' = msgused c \<and> transport c' = transport c \<and> 0 \<le> l \<and> l < max 1 len \<and> (\<not> limited \<longrightarrow> l = 0) \<and>
     payload c' = payload c @ frag \<lparr>iov_base = buf, iov_len = of_int (len - l)\<rparr>"
proof -
  let ?i = "msgused c - 1"
  let ?m = "msglist c ?i"
  define l where "l = (if limited \<and> len + msgbytes c > UDP_MAX_PAYLOAD_SIZE then len + msgbytes c - UDP_MAX_PAYLOAD_SIZE else 0)"
  obtain z where z: "ensure_iov_space c = (True, c\<lparr>iovsize := z\<rparr>)" "iovused c < z"
    using ensure_iov_space_ok [OF ok mem] by blast
  have i: "?i < msgused c" "Suc ?i = msgused c" using used by simp_all
  have k: "msg_iov ?m + msg_iovlen ?m = iovused c" using msg_end(2) [OF ok i] .
  have mb: "msgbytes c = msg_total c ?i" using ok used by (simp add: msg_ok_def)
  have mb0: "0 \<le> msgbytes c" by (simp add: mb msg_total_def sum_nonneg)
  have l: "0 \<le> l" "l < max 1 len" "\<not> limited \<Longrightarrow> l = 0" "l \<le> len" "limited \<Longrightarrow> msgbytes c + (len - l) \<le> UDP_MAX_PAYLOAD_SIZE"
    using limited(1) len(1) by (auto simp: l_def)
  define w where "w = (of_int (len - l) :: u64)"
  have wl: "uint w = len - l"
    unfolding w_def uint_word_of_int_eq using l len by (intro take_bit_int_eq_self) auto
  define c' where "c' = c\<lparr>iovsize := z, iov := (iov c)(iovused c := \<lparr>iov_base = buf, iov_len = w\<rparr>),
      msgbytes := msgbytes c + (len - l), iovused := iovused c + 1,
      msglist := (msglist c)(?i := ?m\<lparr>msg_iovlen := msg_iovlen ?m + 1\<rparr>)\<rparr>"
  have run: "iov_put limited buf len c = Some (Some l, c')"
    using z k by (simp add: iov_put_def Let_def l_def c'_def w_def)
  have tot: "msg_total c' j = msg_total c j" if "j < msgused c" "j \<noteq> ?i" for j
  proof (rule msg_total_cong)
    fix k assume "k < msg_iovlen (msglist c j)"
    then show "iov c' (msg_iov (msglist c j) + k) = iov c (msg_iov (msglist c j) + k)"
      using msg_end(1) [OF ok that(1)] by (simp add: c'_def)
  qed (use that in \<open>simp_all add: c'_def\<close>)
  have last: "msg_total c' ?i = msgbytes c + (len - l)"
  proof -
    have "msg_total c' ?i = (\<Sum>q<msg_iovlen ?m. uint (iov_len (iov c (msg_iov ?m + q)))) + (len - l)"
      unfolding msg_total_def using k by (simp add: c'_def wl)
    then show ?thesis by (simp add: mb msg_total_def)
  qed
  have sums: "(\<Sum>j<n. msg_iovlen (msglist c' j)) = (\<Sum>j<n. msg_iovlen (msglist c j))" if "n \<le> ?i" for n
    by (rule sum.cong) (use that in \<open>auto simp: c'_def\<close>)
  have "msg_ok c'"
    unfolding msg_ok_def
  proof (intro conjI allI impI)
    fix j assume j: "j < msgused c'"
    then have j': "j < msgused c" by (simp add: c'_def)
    then have "msg_iov (msglist c j) = (\<Sum>q<j. msg_iovlen (msglist c q))" using ok by (simp add: msg_ok_def)
    moreover have "msg_iov (msglist c' j) = msg_iov (msglist c j)" by (simp add: c'_def)
    moreover have "j \<le> ?i" using j' by simp
    ultimately show "msg_iov (msglist c' j) = (\<Sum>q<j. msg_iovlen (msglist c' q))" using sums by simp
    show "msg_iovlen (msglist c' j) \<le> IOV_MAX" using ok j' room by (auto simp: c'_def msg_ok_def)
    assume lj: "is_udp c' \<or> j = 0"
    show "msg_total c' j \<le> UDP_MAX_PAYLOAD_SIZE"
    proof (cases "j = ?i")
      case True
      with lj limited(2) used have limited by (auto simp: c'_def is_udp_def)
      with l(5) last True show ?thesis by simp
    next
      case False
      with tot [OF j'] ok j' lj show ?thesis by (auto simp: msg_ok_def c'_def is_udp_def)
    qed
  next
    have "{..<msgused c} = insert ?i {..<?i}" using used by auto
    then show "iovused c' = (\<Sum>j<msgused c'. msg_iovlen (msglist c' j))"
      using ok sums [of ?i] by (simp add: c'_def msg_ok_def)
    show "msgbytes c' = msg_total c' (msgused c' - 1)" using last by (simp add: c'_def)
  qed (use ok z in \<open>auto simp: c'_def msg_ok_def\<close>)
  moreover have "payload c' = payload c @ frag \<lparr>iov_base = buf, iov_len = w\<rparr>"
  proof -
    have eq: "map (\<lambda>k. frag (iov c' k)) [0..<iovused c] = map (\<lambda>k. frag (iov c k)) [0..<iovused c]"
      by (rule map_cong) (auto simp: c'_def)
    have "iovused c' = Suc (iovused c)" "iov c' (iovused c) = \<lparr>iov_base = buf, iov_len = w\<rparr>"
      by (simp_all add: c'_def)
    then show ?thesis unfolding payload_def by (simp add: eq del: map_eq_conv)
  qed
  ultimately show ?thesis
    using run l mem by (intro exI [of _ c'] exI [of _ l]) (simp add: c'_def w_def)
qed


text \<open>A new message starts behind the others.\<close>

lemma start_msghdr_ok:
  assumes ok: "msg_ok c" and mem: "reallocs c = []"
  shows "\<exists>c'. start_msghdr c = (True, c') \<and> msg_ok c' \<and> reallocs c' = [] \<and> msgused c' = Suc (msgused c) \<and>
     transport c' = transport c \<and> msgbytes c' = 0 \<and> msg_iovlen (msglist c' (msgused c)) = 0 \<and>
     payload c' = payload c"
proof -
  let ?m = "\<lparr>msg_iov = iovused c, msg_iovlen = 0, msg_named = (is_udp c \<and> request_addr_size c > 0)\<rparr>"
  define c' where "c' = c\<lparr>msgsize := (if msgsize c = msgused c then msgsize c * 2 else msgsize c),
      msglist := (msglist c)(msgused c := ?m), msgbytes := 0, msgused := msgused c + 1\<rparr>"
  have run: "start_msghdr c = (True, c')"
    using mem by (simp add: start_msghdr_def realloc_result_def c'_def is_udp_def)
  have tot: "msg_total c' j = (if j < msgused c then msg_total c j else 0)" if "j < msgused c'" for j
    using that by (auto simp: msg_total_def c'_def)
  have sums: "(\<Sum>j<n. msg_iovlen (msglist c' j)) = (\<Sum>j<n. msg_iovlen (msglist c j))" if "n \<le> msgused c" for n
    by (rule sum.cong) (use that in \<open>auto simp: c'_def\<close>)
  have "msg_ok c'"
    unfolding msg_ok_def
  proof (intro conjI allI impI)
    fix j assume j: "j < msgused c'"
    then show "msg_iov (msglist c' j) = (\<Sum>q<j. msg_iovlen (msglist c' q))"
      using ok sums [of j] by (auto simp: c'_def msg_ok_def less_Suc_eq)
    show "msg_iovlen (msglist c' j) \<le> IOV_MAX" using ok j by (auto simp: c'_def msg_ok_def less_Suc_eq)
    assume "is_udp c' \<or> j = 0"
    then show "msg_total c' j \<le> UDP_MAX_PAYLOAD_SIZE"
      using tot [OF j] ok by (auto simp: UDP_MAX_PAYLOAD_SIZE_def msg_ok_def c'_def is_udp_def)
  next
    show "iovused c' = (\<Sum>j<msgused c'. msg_iovlen (msglist c' j))"
      using ok sums [of "msgused c"] by (simp add: c'_def msg_ok_def)
    show "msgbytes c' = msg_total c' (msgused c' - 1)" using tot [of "msgused c"] by (simp add: c'_def)
  qed (use ok in \<open>auto simp: c'_def msg_ok_def\<close>)
  moreover have "payload c' = payload c" by (simp add: payload_def c'_def)
  ultimately show ?thesis using run mem by (intro exI [of _ c']) (simp add: c'_def)
qed

lemma add_msghdr_ok:
  assumes ok: "msg_ok c" and mem: "reallocs c = []"
  shows "\<exists>c'. add_msghdr c = Some (0, c') \<and> msg_ok c' \<and> reallocs c' = [] \<and> msgused c' = Suc (msgused c) \<and>
     transport c' = transport c \<and> msgbytes c' < UDP_MAX_PAYLOAD_SIZE \<and>
     msg_iovlen (msglist c' (msgused c)) < IOV_MAX \<and> payload c' = payload c"
proof -
  from start_msghdr_ok [OF assms] obtain c1 where c1: "start_msghdr c = (True, c1)" "msg_ok c1" "reallocs c1 = []"
    "msgused c1 = Suc (msgused c)" "transport c1 = transport c" "msgbytes c1 = 0"
    "msg_iovlen (msglist c1 (msgused c)) = 0" "payload c1 = payload c" by auto
  show ?thesis
  proof (cases "is_udp c1")
    case False
    then show ?thesis using c1 by (auto simp: add_msghdr_def UDP_MAX_PAYLOAD_SIZE_def IOV_MAX_def)
  next
    case True
    from iov_put_ok [of c1 UDP_HEADER_SIZE True NULL] c1 obtain c' l where
      c': "iov_put True NULL UDP_HEADER_SIZE c1 = Some (Some l, c')" "msg_ok c'" "reallocs c' = []"
      "msgused c' = msgused c1" "transport c' = transport c1" "payload c' = payload c1"
      by (auto simp: UDP_HEADER_SIZE_def UDP_MAX_PAYLOAD_SIZE_def IOV_MAX_def frag_def)
    obtain z where z: "ensure_iov_space c1 = (True, c1\<lparr>iovsize := z\<rparr>)"
      using ensure_iov_space_ok [OF c1(2,3)] by blast
    have l: "l = 0" "msgbytes c' = 8" "msg_iovlen (msglist c' (msgused c)) = 1"
      using c'(1) z c1(4,6,7)
      by (auto simp: iov_put_def Let_def UDP_HEADER_SIZE_def UDP_MAX_PAYLOAD_SIZE_def split: if_splits)
    have "iov_loop (\<lambda>_. None) NULL UDP_HEADER_SIZE c1 = Some (0, c')"
      using c1 True c'(1) l(1)
      by (subst iov_loop.simps)
        (simp add: iov_step_def Let_def IOV_MAX_def UDP_MAX_PAYLOAD_SIZE_def c_assert_True_bind)
    with c1 c' l True show ?thesis by (simp add: add_msghdr_def UDP_MAX_PAYLOAD_SIZE_def IOV_MAX_def)
  qed
qed

lemma iov_step_ok:
  assumes ok: "msg_ok c" and used: "0 < msgused c" and mem: "reallocs c = []" and len: "0 \<le> len" "len < 2 ^ 31"
  shows "\<exists>c' l. iov_step (\<lambda>c. map_option snd (add_msghdr c)) buf len c = Some (Some l, c') \<and> msg_ok c' \<and>
     reallocs c' = [] \<and> 0 < msgused c' \<and> transport c' = transport c \<and> 0 \<le> l \<and> l < max 1 len \<and>
     payload c' = payload c @ frag \<lparr>iov_base = buf, iov_len = of_int (len - l)\<rparr>"
proof -
  let ?lim = "is_udp c \<or> msgused c = 1"
  let ?new = "msg_iovlen (msglist c (msgused c - 1)) = IOV_MAX \<or> (?lim \<and> msgbytes c \<ge> UDP_MAX_PAYLOAD_SIZE)"
  obtain c1 where c1: "(if ?new then map_option snd (add_msghdr c) else Some c) = Some c1" "msg_ok c1" "reallocs c1 = []"
    "0 < msgused c1" "transport c1 = transport c" "?lim \<Longrightarrow> msgbytes c1 < UDP_MAX_PAYLOAD_SIZE"
    "msg_iovlen (msglist c1 (msgused c1 - 1)) < IOV_MAX" "payload c1 = payload c" "is_udp c1 \<or> msgused c1 = 1 \<Longrightarrow> ?lim"
  proof (cases ?new)
    case True
    from add_msghdr_ok [OF ok mem] obtain c1 where "add_msghdr c = Some (0, c1)" "msg_ok c1" "reallocs c1 = []"
      "msgused c1 = Suc (msgused c)" "transport c1 = transport c" "msgbytes c1 < UDP_MAX_PAYLOAD_SIZE"
      "msg_iovlen (msglist c1 (msgused c)) < IOV_MAX" "payload c1 = payload c" by blast
    with True used show thesis by (intro that [of c1]) (auto simp: is_udp_def)
  next
    case False
    moreover have "msg_iovlen (msglist c (msgused c - 1)) \<le> IOV_MAX" using ok used by (simp add: msg_ok_def)
    ultimately show thesis using ok used mem by (intro that [of c]) auto
  qed
  from iov_put_ok [OF c1(2,4,3) len c1(7), of ?lim buf] c1(6,9) obtain c' l where
    "iov_put ?lim buf len c1 = Some (Some l, c')" "msg_ok c'" "reallocs c' = []" "msgused c' = msgused c1"
    "transport c' = transport c1" "0 \<le> l" "l < max 1 len"
    "payload c' = payload c1 @ frag \<lparr>iov_base = buf, iov_len = of_int (len - l)\<rparr>" by blast
  with c1 used show ?thesis by (auto simp: iov_step_def Let_def c_assert_True_bind)
qed

lemma frag_range:
  "0 < buf \<Longrightarrow> 0 \<le> n \<Longrightarrow> n < 2 ^ 31 \<Longrightarrow> frag \<lparr>iov_base = buf, iov_len = of_int n\<rparr> = [buf..<buf + nat n]"
proof -
  assume n: "0 \<le> n" "n < 2 ^ 31" and "0 < buf"
  have "uint (of_int n :: u64) = n" unfolding uint_word_of_int_eq using n by (intro take_bit_int_eq_self) auto
  then have "unat (of_int n :: u64) = nat n" by (simp only: unat_eq_nat_uint)
  with \<open>0 < buf\<close> show ?thesis by (simp add: frag_def)
qed

lemma add_iov_loop_ok:
  assumes "msg_ok c" "0 < msgused c" "reallocs c = []" "0 \<le> len" "len < 2 ^ 31" "0 < buf"
  shows "\<exists>c'. iov_loop (\<lambda>c. map_option snd (add_msghdr c)) buf len c = Some (0, c') \<and> msg_ok c' \<and>
     reallocs c' = [] \<and> 0 < msgused c' \<and> transport c' = transport c \<and> payload c' = payload c @ [buf..<buf + nat len]"
  using assms
proof (induction "nat len" arbitrary: len buf c rule: less_induct)
  case less
  from iov_step_ok [OF less.prems(1-5), of buf] obtain c1 l where
    s: "iov_step (\<lambda>c. map_option snd (add_msghdr c)) buf len c = Some (Some l, c1)" "msg_ok c1" "reallocs c1 = []"
    "0 < msgused c1" "transport c1 = transport c" "0 \<le> l" "l < max 1 len"
    "payload c1 = payload c @ frag \<lparr>iov_base = buf, iov_len = of_int (len - l)\<rparr>" by blast
  have fr: "frag \<lparr>iov_base = buf, iov_len = of_int (len - l)\<rparr> = [buf..<buf + nat (len - l)]"
    using s(6,7) less.prems(4-6) by (intro frag_range) auto
  show ?case
  proof (cases "l > 0")
    case True
    with s(7) have l: "l < len" "nat l < nat len" by auto
    let ?buf = "buf + nat (len - l)"
    from less.hyps [OF l(2) s(2,4,3), of ?buf] s(6) l(1) less.prems(5,6) obtain c' where
      c': "iov_loop (\<lambda>c. map_option snd (add_msghdr c)) ?buf l c1 = Some (0, c')" "msg_ok c'" "reallocs c' = []"
      "0 < msgused c'" "transport c' = transport c1" "payload c' = payload c1 @ [?buf..<?buf + nat l]" by auto
    have e1: "?buf + nat l = buf + nat len" using l(1) s(6) by simp
    have e2: "[buf..<buf + nat (len - l)] @ [?buf..<buf + nat len] = [buf..<buf + nat len]"
    proof -
      have "buf + nat len = ?buf + nat l" using l(1) s(6) by simp
      then show ?thesis using upt_add_eq_append [of buf ?buf "nat l"] by (simp only: le_add1)
    qed
    have "payload c' = payload c @ [buf..<buf + nat len]"
      by (simp only: c'(6) s(8) fr e1 append_assoc e2)
    moreover have "iov_loop (\<lambda>c. map_option snd (add_msghdr c)) buf len c = Some (0, c')"
      using s(1) True c'(1) by (subst iov_loop.simps) simp
    ultimately show ?thesis using c' s(5) by auto
  next
    case False
    with s(6) have "l = 0" by simp
    with s fr show ?thesis by (subst iov_loop.simps) simp
  qed
qed


section \<open>Properties\<close>

text \<open>A fresh connection, and the same with its first message started.\<close>

definition fresh_msg_buf :: "network_transport \<Rightarrow> msg_buf" where
  "fresh_msg_buf tr = \<lparr>iov = (\<lambda>_. \<lparr>iov_base = NULL, iov_len = 0\<rparr>), iovsize = 400, iovused = 0,
     msglist = (\<lambda>_. \<lparr>msg_iov = 0, msg_iovlen = 0, msg_named = False\<rparr>), msgsize = 10, msgused = 0, msgcurr = 0,
     msgbytes = 0, transport = tr, request_addr_size = 28, request_id = 1, hdrbuf = (\<lambda>_. 0), hdrbuf_addr = NULL,
     hdrsize = 0, reallocs = [], malloc_failed = 0\<rparr>"

lemma fresh_msg_buf_ok: "msg_ok (fresh_msg_buf tr)" "reallocs (fresh_msg_buf tr) = []" "payload (fresh_msg_buf tr) = []"
  by (simp_all add: msg_ok_def fresh_msg_buf_def payload_def)

text \<open>C22: Queueing memory for output, when memory is never short (every \<open>realloc\<close> succeeds,
  \<open>reallocs c = []\<close>), always ends and succeeds; without that condition the claim is false, since
  \<open>add_iov\<close> ignores a failing \<open>add_msghdr\<close> and goes on with the full message. What is
  queued afterwards is what was queued before followed by exactly the given bytes, in order, and the
  fragments stay divided into messages of which each respects the system's limit of fragments and
  each UDP datagram, and the first message of a TCP reply, has at most \<open>UDP_MAX_PAYLOAD_SIZE\<close> bytes
  with its header.\<close>

theorem add_iov_queues:
  assumes "msg_ok c" and "0 < msgused c" and "reallocs c = []" and "0 \<le> len" and "len < 2 ^ 31" and "0 < buf"
  shows "\<exists>c'. add_iov buf len c = Some (0, c') \<and> payload c' = payload c @ [buf..<buf + nat len] \<and> msg_ok c' \<and>
    (\<forall>i<msgused c'. msg_iovlen (msglist c' i) \<le> IOV_MAX \<and>
       (is_udp c \<or> i = 0 \<longrightarrow> msg_total c' i \<le> UDP_MAX_PAYLOAD_SIZE))"
proof -
  from add_iov_loop_ok [OF assms] obtain c' where "add_iov buf len c = Some (0, c')" "msg_ok c'"
    "transport c' = transport c" "payload c' = payload c @ [buf..<buf + nat len]"
    by (auto simp: add_iov_def)
  then show ?thesis by (auto simp: msg_ok_def is_udp_def)
qed

theorem add_iov_queues_witness:
  "\<exists>c c'. add_msghdr (fresh_msg_buf udp_transport) = Some (0, c) \<and>
     add_iov 4096 3000 c = Some (0, c') \<and> payload c' = [4096..<7096]"
proof -
  from add_msghdr_ok [OF fresh_msg_buf_ok(1,2), of udp_transport] obtain c where
    c: "add_msghdr (fresh_msg_buf udp_transport) = Some (0, c)" "msg_ok c" "reallocs c = []"
      "msgused c = Suc (msgused (fresh_msg_buf udp_transport))" "payload c = []"
    using fresh_msg_buf_ok(3) by auto
  from add_iov_queues [OF c(2) _ c(3), of 3000 4096] c(4,5)
  obtain c' where "add_iov 4096 3000 c = Some (0, c')" "payload c' = [4096..<4096 + nat 3000]"
    by (auto simp del: upt_rec_numeral)
  moreover have "(4096::nat) + nat 3000 = 7096" by simp
  ultimately show ?thesis using c(1) by metis
qed

end
