(* ===== verification/MC_Prefix.thy ===== *)
theory MC_Prefix
  imports MC_Util
begin

text \<open>
  Statistics per key prefix (\<open>stats.c\<close>): a hash table of chains of counters, one for each string
  before the first delimiter of a key, and the text \<open>stats detail dump\<close> sends.  The memory of the
  structs is a map from addresses; \<open>mem\<close> is what \<open>calloc\<close> returns and \<open>str_ok\<close> whether the
  \<open>malloc\<close> for the copy of the prefix succeeds.  The totals and the position in the dump are \<open>int\<close>:
  an increment beyond its range is undefined (None), and a \<open>size_t\<close> sum that is stored in one wraps.
\<close>

section \<open>State and operations\<close>

record prefix_stats =
  pf_prefix :: bytes
  pf_len :: u64
  num_gets :: u64
  num_sets :: u64
  num_deletes :: u64
  num_hits :: u64
  pf_next :: ptr

record prefix_state =
  pf_mem :: "ptr \<Rightarrow> prefix_stats"
  prefix_table :: "nat \<Rightarrow> ptr"
  num_prefixes :: int
  total_prefix_size :: int
  prefix_delimiter :: u8

definition PREFIX_HASH_SIZE :: nat where "PREFIX_HASH_SIZE = 256"

text \<open>A sum computed in \<open>size_t\<close> that is stored in an \<open>int\<close>, and the largest \<open>int\<close>.\<close>

definition int_of_sum :: "int \<Rightarrow> int" where
  "int_of_sum x = sint (word_of_int x :: 32 word)"

definition INT_MAX :: int where "INT_MAX = 2147483647"

definition stats_prefix_init :: "prefix_state \<Rightarrow> prefix_state" where
  "stats_prefix_init s = s\<lparr>prefix_table := (\<lambda>_. NULL)\<rparr>"

definition stats_prefix_clear :: "prefix_state \<Rightarrow> prefix_state" where
  "stats_prefix_clear s = s\<lparr>prefix_table := (\<lambda>_. NULL), num_prefixes := 0, total_prefix_size := 0\<rparr>"

text \<open>The loop that looks for the delimiter; the result is the length of the prefix.\<close>

fun prefix_scan :: "u8 \<Rightarrow> nat \<Rightarrow> bytes \<Rightarrow> nat \<Rightarrow> nat option" where
  "prefix_scan d nkey [] len = None"
| "prefix_scan d nkey (c # cs) len =
     (if len < nkey \<and> c \<noteq> 0 then if c = d then Some len else prefix_scan d nkey cs (len + 1) else None)"

text \<open>\<open>strncmp(a, b, n) == 0\<close> on strings without NUL.\<close>

definition strncmp_eq :: "bytes \<Rightarrow> bytes \<Rightarrow> nat \<Rightarrow> bool" where
  "strncmp_eq a b n \<longleftrightarrow> take n a = take n b"

partial_function (option) prefix_lookup ::
  "(ptr \<Rightarrow> prefix_stats) \<Rightarrow> bytes \<Rightarrow> nat \<Rightarrow> ptr \<Rightarrow> ptr option" where
  "prefix_lookup m key len pfs =
     (if pfs \<noteq> NULL
      then if strncmp_eq (pf_prefix (m pfs)) key len then Some pfs else prefix_lookup m key len (pf_next (m pfs))
      else Some NULL)"

definition prefix_bucket :: "(bytes \<Rightarrow> u32) \<Rightarrow> bytes \<Rightarrow> nat" where
  "prefix_bucket hash p = unat (hash p) mod PREFIX_HASH_SIZE"

definition stats_prefix_find ::
  "ptr \<Rightarrow> bool \<Rightarrow> (bytes \<Rightarrow> u32) \<Rightarrow> bytes \<Rightarrow> nat \<Rightarrow> prefix_state \<Rightarrow> (ptr \<times> prefix_state) option" where
  "stats_prefix_find mem str_ok hash key nkey s =
     (case prefix_scan (prefix_delimiter s) nkey key 0 of
        None \<Rightarrow> Some (NULL, s)
      | Some len \<Rightarrow> do {
          let b = prefix_bucket hash (take len key);
          pfs \<leftarrow> prefix_lookup (pf_mem s) key len (prefix_table s b);
          if pfs \<noteq> NULL then Some (pfs, s)
          else if mem = NULL \<or> \<not> str_ok then Some (NULL, s)
          else if num_prefixes s = INT_MAX then None
          else
            let new = \<lparr>pf_prefix = take len key, pf_len = of_nat len, num_gets = 0, num_sets = 0,
                       num_deletes = 0, num_hits = 0, pf_next = prefix_table s b\<rparr>
            in Some (mem, s\<lparr>pf_mem := (pf_mem s)(mem := new), prefix_table := (prefix_table s)(b := mem),
                            num_prefixes := num_prefixes s + 1,
                            total_prefix_size := int_of_sum (total_prefix_size s + int len)\<rparr>)
        })"

definition upd_prefix :: "ptr \<Rightarrow> (prefix_stats \<Rightarrow> prefix_stats) \<Rightarrow> prefix_state \<Rightarrow> prefix_state" where
  "upd_prefix p f s = s\<lparr>pf_mem := (pf_mem s)(p := f (pf_mem s p))\<rparr>"

definition stats_prefix_record_get ::
  "ptr \<Rightarrow> bool \<Rightarrow> (bytes \<Rightarrow> u32) \<Rightarrow> bytes \<Rightarrow> nat \<Rightarrow> bool \<Rightarrow> prefix_state \<Rightarrow> prefix_state option" where
  "stats_prefix_record_get mem str_ok hash key nkey is_hit s = do {
     (pfs, s1) \<leftarrow> stats_prefix_find mem str_ok hash key nkey s;
     Some (if pfs \<noteq> NULL
           then let s2 = upd_prefix pfs (\<lambda>p. p\<lparr>num_gets := num_gets p + 1\<rparr>) s1
                in if is_hit then upd_prefix pfs (\<lambda>p. p\<lparr>num_hits := num_hits p + 1\<rparr>) s2 else s2
           else s1)
   }"

definition stats_prefix_record_delete ::
  "ptr \<Rightarrow> bool \<Rightarrow> (bytes \<Rightarrow> u32) \<Rightarrow> bytes \<Rightarrow> nat \<Rightarrow> prefix_state \<Rightarrow> prefix_state option" where
  "stats_prefix_record_delete mem str_ok hash key nkey s = do {
     (pfs, s1) \<leftarrow> stats_prefix_find mem str_ok hash key nkey s;
     Some (if pfs \<noteq> NULL then upd_prefix pfs (\<lambda>p. p\<lparr>num_deletes := num_deletes p + 1\<rparr>) s1 else s1)
   }"

definition stats_prefix_record_set ::
  "ptr \<Rightarrow> bool \<Rightarrow> (bytes \<Rightarrow> u32) \<Rightarrow> bytes \<Rightarrow> nat \<Rightarrow> prefix_state \<Rightarrow> prefix_state option" where
  "stats_prefix_record_set mem str_ok hash key nkey s = do {
     (pfs, s1) \<leftarrow> stats_prefix_find mem str_ok hash key nkey s;
     Some (if pfs \<noteq> NULL then upd_prefix pfs (\<lambda>p. p\<lparr>num_sets := num_sets p + 1\<rparr>) s1 else s1)
   }"

text \<open>The text of one entry: \<open>PREFIX %s get %llu hit %llu set %llu del %llu\\r\\n\<close>.\<close>

definition chars :: "string \<Rightarrow> bytes" where
  "chars str = map of_char str"

definition prefix_line :: "prefix_stats \<Rightarrow> bytes" where
  "prefix_line p = chars ''PREFIX '' @ pf_prefix p @ chars '' get '' @ show_nat (unat (num_gets p)) @
     chars '' hit '' @ show_nat (unat (num_hits p)) @ chars '' set '' @ show_nat (unat (num_sets p)) @
     chars '' del '' @ show_nat (unat (num_deletes p)) @ [13, 10]"

text \<open>The size of the buffer: \<open>strlen(format)\<close> is 47, and the products are those of \<open>size_t\<close>.\<close>

definition dump_size :: "prefix_state \<Rightarrow> u64" where
  "dump_size s = 47 + of_int (total_prefix_size s) + of_int (num_prefixes s) * (47 - 2 + 4 * (20 - 4)) + 6"

text \<open>The entries of one bucket.  The position is the number of bytes written so far, an \<open>int\<close>: when it
  wraps, the next write is before the buffer.\<close>

partial_function (option) dump_chain ::
  "u64 \<Rightarrow> (ptr \<Rightarrow> prefix_stats) \<Rightarrow> ptr \<Rightarrow> bytes \<Rightarrow> bytes option" where
  "dump_chain bsize m pfs buf =
     (if pfs \<noteq> NULL
      then let buf' = buf @ prefix_line (m pfs)
           in if of_nat (length buf') < bsize \<and> int (length buf') \<le> INT_MAX
              then dump_chain bsize m (pf_next (m pfs)) buf' else None
      else Some buf)"

fun dump_buckets :: "nat \<Rightarrow> nat \<Rightarrow> u64 \<Rightarrow> prefix_state \<Rightarrow> bytes \<Rightarrow> bytes option" where
  "dump_buckets 0 i bsize s buf = Some buf"
| "dump_buckets (Suc n) i bsize s buf = do {
     buf1 \<leftarrow> dump_chain bsize (pf_mem s) (prefix_table s i) buf;
     dump_buckets n (i + 1) bsize s buf1
   }"

text \<open>\<open>malloc_ok\<close>: the buffer could be allocated.  \<open>*length\<close>, an \<open>int\<close>, is the length of the result.\<close>

definition stats_prefix_dump :: "bool \<Rightarrow> prefix_state \<Rightarrow> bytes option option" where
  "stats_prefix_dump malloc_ok s =
     (if \<not> malloc_ok then Some None
      else do {
        buf \<leftarrow> dump_buckets PREFIX_HASH_SIZE 0 (dump_size s) s [];
        if int (length buf) + 5 \<le> INT_MAX then Some (Some (buf @ chars ''END'' @ [13, 10])) else None
      })"

section \<open>The table\<close>

abbreviation pnext :: "prefix_state \<Rightarrow> ptr \<Rightarrow> ptr" where
  "pnext s \<equiv> \<lambda>p. pf_next (pf_mem s p)"

text \<open>The chains \<open>B b\<close> of the buckets, in which every entry occurs once, and the totals.\<close>

definition prefix_ok :: "prefix_state \<Rightarrow> (nat \<Rightarrow> ptr list) \<Rightarrow> bool" where
  "prefix_ok s B \<longleftrightarrow> (\<forall>b<PREFIX_HASH_SIZE. chain (pnext s) (prefix_table s b) (B b)) \<and>
     (\<forall>b<PREFIX_HASH_SIZE. \<forall>c<PREFIX_HASH_SIZE. b \<noteq> c \<longrightarrow> set (B b) \<inter> set (B c) = {}) \<and>
     num_prefixes s = int (\<Sum>b<PREFIX_HASH_SIZE. length (B b)) \<and>
     total_prefix_size s = int (\<Sum>b<PREFIX_HASH_SIZE. \<Sum>p\<leftarrow>B b. length (pf_prefix (pf_mem s p)))"

lemma int_of_sum_id: "0 \<le> x \<Longrightarrow> x \<le> INT_MAX \<Longrightarrow> int_of_sum x = x"
  by (simp add: int_of_sum_def INT_MAX_def signed_of_int signed_take_bit_int_eq_self)

lemma prefix_lookup_chain:
  "chain (\<lambda>p. pf_next (m p)) p xs \<Longrightarrow> prefix_lookup m key len p =
     Some (case find (\<lambda>p. strncmp_eq (pf_prefix (m p)) key len) xs of None \<Rightarrow> NULL | Some q \<Rightarrow> q)"
  by (induction xs arbitrary: p) (subst prefix_lookup.simps, auto)+

lemma prefix_scan_length:
  "prefix_scan d nkey cs len = Some l \<Longrightarrow> len \<le> l \<and> l - len < length cs \<and> l < nkey"
proof (induction cs arbitrary: len)
  case Nil
  then show ?case by simp
next
  case (Cons c cs)
  show ?case
  proof (cases "c = d \<or> \<not> (len < nkey \<and> c \<noteq> 0)")
    case True
    with Cons.prems show ?thesis by (auto split: if_splits)
  next
    case False
    with Cons.prems have "prefix_scan d nkey cs (len + 1) = Some l" by (simp split: if_splits)
    from Cons.IH [OF this] show ?thesis by auto
  qed
qed

lemma find_SomeD: "find P xs = Some x \<Longrightarrow> x \<in> set xs \<and> P x"
  by (induction xs) (auto split: if_splits)

text \<open>Counting on an entry changes neither the chains nor the prefixes.\<close>

lemma upd_prefix_ok:
  assumes "prefix_ok s B" "\<And>p. pf_next (f p) = pf_next p" "\<And>p. pf_prefix (f p) = pf_prefix p"
  shows "prefix_ok (upd_prefix q f s) B"
proof -
  have "pnext (upd_prefix q f s) = pnext s"
    "pf_prefix (pf_mem (upd_prefix q f s) p) = pf_prefix (pf_mem s p)" for p
    using assms(2,3) by (simp_all add: upd_prefix_def fun_eq_iff)
  with assms(1) show ?thesis unfolding prefix_ok_def by (simp add: upd_prefix_def)
qed

text \<open>Finding the entry of a prefix, or making one in unused memory.\<close>

lemma stats_prefix_find_ok:
  assumes ok: "prefix_ok s B" and mem: "\<And>b. b < PREFIX_HASH_SIZE \<Longrightarrow> mem \<notin> set (B b)"
    and room: "num_prefixes s < INT_MAX" "total_prefix_size s + int nkey \<le> INT_MAX"
  shows "\<exists>p s' B'. stats_prefix_find mem str_ok hash key nkey s = Some (p, s') \<and> prefix_ok s' B' \<and>
     (p \<noteq> NULL \<longrightarrow> (\<exists>len. prefix_scan (prefix_delimiter s) nkey key 0 = Some len \<and>
        strncmp_eq (pf_prefix (pf_mem s' p)) key len \<and> p \<in> set (B' (prefix_bucket hash (take len key))))) \<and>
     (\<forall>q. q \<noteq> mem \<longrightarrow> pf_mem s' q = pf_mem s q) \<and> prefix_delimiter s' = prefix_delimiter s"
proof (cases "prefix_scan (prefix_delimiter s) nkey key 0")
  case None
  with ok show ?thesis by (auto simp: stats_prefix_find_def)
next
  case (Some len)
  let ?b = "prefix_bucket hash (take len key)"
  have b: "?b < PREFIX_HASH_SIZE" by (simp add: prefix_bucket_def PREFIX_HASH_SIZE_def)
  from ok b have ch: "chain (pnext s) (prefix_table s ?b) (B ?b)" by (simp add: prefix_ok_def)
  let ?P = "\<lambda>p. strncmp_eq (pf_prefix (pf_mem s p)) key len"
  note look = prefix_lookup_chain [OF ch, of key len]
  show ?thesis
  proof (cases "find ?P (B ?b)")
    case (Some p)
    then have p: "p \<in> set (B ?b)" "?P p" by (auto dest: find_SomeD)
    then have "p \<noteq> NULL" by (metis chain_NULL_notin ch)
    then have "stats_prefix_find mem str_ok hash key nkey s = Some (p, s)"
      using \<open>prefix_scan _ _ _ _ = _\<close> look Some by (simp add: stats_prefix_find_def Let_def)
    with p ok \<open>prefix_scan _ _ _ _ = _\<close> show ?thesis by (intro exI [of _ p] exI [of _ s] exI [of _ B]) auto
  next
    case None
    show ?thesis
    proof (cases "mem = NULL \<or> \<not> str_ok")
      case True
      with None look ok \<open>prefix_scan _ _ _ _ = _\<close> show ?thesis by (auto simp: stats_prefix_find_def Let_def)
    next
      case False
      define new where "new = \<lparr>pf_prefix = take len key, pf_len = of_nat len, num_gets = 0, num_sets = 0,
                       num_deletes = 0, num_hits = 0, pf_next = prefix_table s ?b\<rparr>"
      let ?s' = "s\<lparr>pf_mem := (pf_mem s)(mem := new), prefix_table := (prefix_table s)(?b := mem),
                   num_prefixes := num_prefixes s + 1, total_prefix_size := total_prefix_size s + int len\<rparr>"
      have "0 \<le> total_prefix_size s" using ok by (simp add: prefix_ok_def sum_nonneg)
      then have tot: "int_of_sum (total_prefix_size s + int len) = total_prefix_size s + int len"
        using room prefix_scan_length [OF Some] by (intro int_of_sum_id) auto
      let ?B = "B(?b := mem # B ?b)"
      have run: "stats_prefix_find mem str_ok hash key nkey s = Some (mem, ?s')"
        using False None look \<open>prefix_scan _ _ _ _ = _\<close> room(1) by (simp add: stats_prefix_find_def Let_def new_def tot)
      have len: "length (take len key) = len" using prefix_scan_length [OF Some] by simp
      have fr: "pf_mem ?s' q = pf_mem s q" if "q \<in> set (B c)" "c < PREFIX_HASH_SIZE" for q c
        using mem [OF that(2)] that(1) by auto
      have chains: "chain (pnext ?s') (prefix_table s c) (B c)" if "c < PREFIX_HASH_SIZE" for c
      proof -
        have "chain (pnext ?s') (prefix_table s c) (B c) = chain (pnext s) (prefix_table s c) (B c)"
          by (rule chain_cong) (use mem [OF that] in auto)
        with ok that show ?thesis by (simp add: prefix_ok_def)
      qed
      have sums: "(\<Sum>c<PREFIX_HASH_SIZE. f (?B c)) = (\<Sum>c<PREFIX_HASH_SIZE. f (B c)) - f (B ?b) + f (mem # B ?b)"
        for f :: "ptr list \<Rightarrow> int"
        using b by (subst (1 2) sum.remove [of _ ?b]) auto
      have "prefix_ok ?s' ?B"
        unfolding prefix_ok_def
      proof (intro conjI allI impI)
        fix c assume "c < PREFIX_HASH_SIZE"
        with chains [of c] chains [OF b] False show "chain (pnext ?s') (prefix_table ?s' c) (?B c)"
          by (auto simp: new_def)
      next
        fix c d assume "c < PREFIX_HASH_SIZE" "d < PREFIX_HASH_SIZE" "c \<noteq> d"
        with ok mem show "set (?B c) \<inter> set (?B d) = {}" by (auto simp: prefix_ok_def)
      next
        show "num_prefixes ?s' = int (\<Sum>b<PREFIX_HASH_SIZE. length (?B b))"
          using ok sums [of "\<lambda>xs. int (length xs)"] by (simp add: prefix_ok_def)
      next
        have e: "(\<Sum>c<PREFIX_HASH_SIZE. int (\<Sum>p\<leftarrow>B c. length (pf_prefix (pf_mem ?s' p)))) =
            (\<Sum>c<PREFIX_HASH_SIZE. int (\<Sum>p\<leftarrow>B c. length (pf_prefix (pf_mem s p))))"
        proof (rule sum.cong [OF refl])
          fix c assume "c \<in> {..<PREFIX_HASH_SIZE}"
          then have "map (\<lambda>p. length (pf_prefix (pf_mem ?s' p))) (B c) = map (\<lambda>p. length (pf_prefix (pf_mem s p))) (B c)"
            using fr [of _ c] by (intro map_cong) auto
          then show "int (\<Sum>p\<leftarrow>B c. length (pf_prefix (pf_mem ?s' p))) = int (\<Sum>p\<leftarrow>B c. length (pf_prefix (pf_mem s p)))"
            by (simp only:)
        qed
        have "pf_prefix (pf_mem ?s' mem) = take len key" by (simp add: new_def)
        then show "total_prefix_size ?s' = int (\<Sum>b<PREFIX_HASH_SIZE. \<Sum>p\<leftarrow>?B b. length (pf_prefix (pf_mem ?s' p)))"
          using ok len sums [of "\<lambda>xs. int (\<Sum>p\<leftarrow>xs. length (pf_prefix (pf_mem ?s' p)))"] e
          by (simp add: prefix_ok_def)
      qed
      moreover have "strncmp_eq (pf_prefix (pf_mem ?s' mem)) key len" by (simp add: strncmp_eq_def new_def)
      ultimately show ?thesis
        using run Some by (intro exI [of _ mem] exI [of _ ?s'] exI [of _ ?B]) auto
    qed
  qed
qed

section \<open>The dump\<close>

lemma show_nat_length: "n < 10 ^ Suc k \<Longrightarrow> length (show_nat n) \<le> Suc k"
proof (induction k arbitrary: n)
  case 0
  then show ?case by (subst show_nat.simps) simp
next
  case (Suc k)
  show ?case
  proof (cases "n < 10")
    case False
    have "n div 10 < 10 ^ Suc k" using Suc.prems by simp
    from Suc.IH [OF this] False show ?thesis by (subst show_nat.simps) simp
  qed (subst show_nat.simps, simp)
qed

lemma show_u64_length: "length (show_nat (unat (w :: u64))) \<le> 20"
proof -
  have "unat w < 2 ^ 64" using unsigned_less [of w] by simp
  also have "(2::nat) ^ 64 \<le> 10 ^ Suc 19" by simp
  finally show ?thesis using show_nat_length by fastforce
qed

lemma prefix_line_length: "length (prefix_line p) \<le> 109 + length (pf_prefix p)"
  using show_u64_length [of "num_gets p"] show_u64_length [of "num_hits p"]
    show_u64_length [of "num_sets p"] show_u64_length [of "num_deletes p"]
  by (simp add: prefix_line_def chars_def)

definition chain_lines :: "prefix_state \<Rightarrow> ptr list \<Rightarrow> bytes" where
  "chain_lines s xs = concat (map (\<lambda>p. prefix_line (pf_mem s p)) xs)"

lemma chain_lines_length:
  "length (chain_lines s xs) \<le> 109 * length xs + (\<Sum>p\<leftarrow>xs. length (pf_prefix (pf_mem s p)))"
proof (induction xs)
  case (Cons x xs)
  then show ?case using prefix_line_length [of "pf_mem s x"] by (simp add: chain_lines_def)
qed (simp add: chain_lines_def)

lemma unat_of_nat_u64: "n < 2 ^ 64 \<Longrightarrow> unat (of_nat n :: u64) = n"
  by (simp add: unat_of_nat)

lemma dump_chain_lines:
  assumes "chain (pnext s) p xs" "length buf + length (chain_lines s xs) < unat bsize"
    "int (length buf + length (chain_lines s xs)) \<le> INT_MAX"
  shows "dump_chain bsize (pf_mem s) p buf = Some (buf @ chain_lines s xs)"
  using assms
proof (induction xs arbitrary: p buf)
  case Nil
  then show ?case by (subst dump_chain.simps) (simp add: chain_lines_def)
next
  case (Cons x xs)
  let ?l = "prefix_line (pf_mem s x)"
  have p: "p = x" "p \<noteq> NULL" "chain (pnext s) (pf_next (pf_mem s x)) xs" using Cons.prems(1) by auto
  have len: "length (buf @ ?l) + length (chain_lines s xs) < unat bsize"
    and imax: "int (length (buf @ ?l) + length (chain_lines s xs)) \<le> INT_MAX"
    using Cons.prems(2,3) by (simp_all add: chain_lines_def)
  then have "unat (of_nat (length (buf @ ?l)) :: u64) = length (buf @ ?l)"
    using unsigned_less [of bsize, where ?'a = nat] by (intro unat_of_nat_u64) simp
  then have "(of_nat (length (buf @ ?l)) :: u64) < bsize" using len by (simp add: word_less_nat_alt)
  moreover have "int (length (buf @ ?l)) \<le> INT_MAX" using imax by simp
  ultimately show ?case using Cons.IH [OF p(3) len imax] p(1,2)
    by (subst dump_chain.simps) (simp add: Let_def chain_lines_def)
qed

lemma dump_buckets_lines:
  assumes "\<And>b. i \<le> b \<Longrightarrow> b < i + n \<Longrightarrow> chain (pnext s) (prefix_table s b) (B b)"
    "length buf + length (concat (map (\<lambda>b. chain_lines s (B b)) [i..<i + n])) < unat bsize"
    "int (length buf + length (concat (map (\<lambda>b. chain_lines s (B b)) [i..<i + n]))) \<le> INT_MAX"
  shows "dump_buckets n i bsize s buf = Some (buf @ concat (map (\<lambda>b. chain_lines s (B b)) [i..<i + n]))"
  using assms
proof (induction n arbitrary: i buf)
  case 0
  then show ?case by simp
next
  case (Suc n)
  have u: "[i..<i + Suc n] = i # [i + 1..<i + 1 + n]" by (simp add: upt_conv_Cons del: upt_Suc)
  have "dump_chain bsize (pf_mem s) (prefix_table s i) buf = Some (buf @ chain_lines s (B i))"
    using Suc.prems unfolding u by (intro dump_chain_lines) simp_all
  moreover have "dump_buckets n (i + 1) bsize s (buf @ chain_lines s (B i)) =
      Some ((buf @ chain_lines s (B i)) @ concat (map (\<lambda>b. chain_lines s (B b)) [i + 1..<i + 1 + n]))"
    using Suc.prems unfolding u by (intro Suc.IH) simp_all
  ultimately show ?case unfolding u by simp
qed


text \<open>An example: one hash value for all prefixes.\<close>

definition example_prefixes :: prefix_state where
  "example_prefixes = \<lparr>pf_mem = (\<lambda>_. \<lparr>pf_prefix = [], pf_len = 0, num_gets = 0, num_sets = 0, num_deletes = 0,
     num_hits = 0, pf_next = NULL\<rparr>), prefix_table = (\<lambda>_. NULL), num_prefixes = 0, total_prefix_size = 0,
     prefix_delimiter = 58\<rparr>"

lemma example_prefixes_ok: "prefix_ok example_prefixes (\<lambda>_. [])"
  by (simp add: prefix_ok_def example_prefixes_def)

section \<open>Properties\<close>

text \<open>Recording a set, a get or a delete keeps the table of prefixes consistent: every entry is
  in one chain, once, and the number of entries and the total length of the prefixes are the ones
  the size of a dump is computed from.\<close>

theorem prefix_record_keeps_table:
  assumes "prefix_ok s B" and "\<And>b. b < PREFIX_HASH_SIZE \<Longrightarrow> mem \<notin> set (B b)"
    and "num_prefixes s < INT_MAX" and "total_prefix_size s + int nkey \<le> INT_MAX"
  shows "(\<exists>s' B'. stats_prefix_record_get mem str_ok hash key nkey hit s = Some s' \<and> prefix_ok s' B') \<and>
    (\<exists>s' B'. stats_prefix_record_set mem str_ok hash key nkey s = Some s' \<and> prefix_ok s' B') \<and>
    (\<exists>s' B'. stats_prefix_record_delete mem str_ok hash key nkey s = Some s' \<and> prefix_ok s' B')"
proof -
  from stats_prefix_find_ok [OF assms, of str_ok hash key] obtain p s1 B1 where
    f: "stats_prefix_find mem str_ok hash key nkey s = Some (p, s1)" "prefix_ok s1 B1" by blast
  have u: "prefix_ok (upd_prefix p f t) B1" if "prefix_ok t B1" "\<And>p. pf_next (f p) = pf_next p"
    "\<And>p. pf_prefix (f p) = pf_prefix p" for f t by (rule upd_prefix_ok [OF that])
  from f show ?thesis
    by (auto simp: stats_prefix_record_get_def stats_prefix_record_set_def stats_prefix_record_delete_def Let_def
        intro!: exI [of _ B1] u)
qed

theorem prefix_record_keeps_table_witness:
  "\<exists>s' B'. stats_prefix_record_set 64 True (\<lambda>_. 7) (chars ''ab:1'') 4 example_prefixes = Some s' \<and> prefix_ok s' B'"
  using prefix_record_keeps_table [OF example_prefixes_ok, of 64 4 True "\<lambda>_. 7" "chars ''ab:1''"]
  by (simp add: example_prefixes_def INT_MAX_def)

text \<open>C39: As long as the size computed for it, 53 bytes, 109 for each entry and the lengths of the
  prefixes, fits an \<open>int\<close>, a dump of the prefix statistics is never cut off and never fails its
  assertion: the buffer has room for one line per entry, of every bucket in turn, for the final line
  and its NUL, whatever the values of the counters.\<close>

theorem prefix_dump_complete:
  assumes ok: "prefix_ok s B" and size: "53 + total_prefix_size s + 109 * num_prefixes s \<le> INT_MAX"
  shows "\<exists>buf. stats_prefix_dump True s = Some (Some buf) \<and>
    buf = concat (map (\<lambda>b. chain_lines s (B b)) [0..<PREFIX_HASH_SIZE]) @ chars ''END'' @ [13, 10] \<and>
    length buf + 1 \<le> unat (dump_size s)"
proof -
  let ?N = "\<Sum>b<PREFIX_HASH_SIZE. length (B b)"
  let ?T = "\<Sum>b<PREFIX_HASH_SIZE. \<Sum>p\<leftarrow>B b. length (pf_prefix (pf_mem s p))"
  let ?L = "concat (map (\<lambda>b. chain_lines s (B b)) [0..<PREFIX_HASH_SIZE])"
  have NT: "num_prefixes s = int ?N" "total_prefix_size s = int ?T" using ok by (simp_all add: prefix_ok_def)
  have imax: "53 + int ?T + 109 * int ?N \<le> INT_MAX" using size unfolding NT .
  then have fit: "53 + ?T + 109 * ?N < 2 ^ 64" by (simp add: INT_MAX_def del: of_nat_sum)
  have "dump_size s = of_nat (53 + ?T + 109 * ?N)" by (simp add: dump_size_def NT)
  then have ds: "unat (dump_size s) = 53 + ?T + 109 * ?N" using fit by (simp only: unat_of_nat) simp
  have "length ?L = (\<Sum>b<PREFIX_HASH_SIZE. length (chain_lines s (B b)))"
    by (simp add: length_concat comp_def interv_sum_list_conv_sum_set_nat atLeast0LessThan)
  also have "\<dots> \<le> (\<Sum>b<PREFIX_HASH_SIZE. 109 * length (B b) + (\<Sum>p\<leftarrow>B b. length (pf_prefix (pf_mem s p))))"
    by (rule sum_mono) (rule chain_lines_length)
  also have "\<dots> = 109 * ?N + ?T" by (simp add: sum.distrib sum_distrib_left)
  finally have L: "length ?L \<le> 109 * ?N + ?T" .
  have "dump_buckets PREFIX_HASH_SIZE 0 (dump_size s) s [] = Some ([] @ concat (map (\<lambda>b. chain_lines s (B b)) [0..<0 + PREFIX_HASH_SIZE]))"
    by (rule dump_buckets_lines) (use ok L ds imax in \<open>simp_all add: prefix_ok_def del: of_nat_sum\<close>)
  then show ?thesis using L ds imax by (simp del: of_nat_sum add: stats_prefix_dump_def chars_def)
qed

lemma show_nat_cases:
  "n < 10 \<Longrightarrow> show_nat n = [48 + of_nat n]"
  "10 \<le> n \<Longrightarrow> show_nat n = show_nat (n div 10) @ [48 + of_nat (n mod 10)]"
  by (subst show_nat.simps, simp)+

text \<open>Two prefixes in bucket 7, one of them with the largest value of a counter.\<close>

definition two_prefixes :: prefix_state where
  "two_prefixes = \<lparr>pf_mem = (\<lambda>_. \<lparr>pf_prefix = chars ''ab'', pf_len = 2, num_gets = 12, num_sets = 3, num_deletes = 0,
       num_hits = 7, pf_next = NULL\<rparr>)(64 := \<lparr>pf_prefix = chars ''c'', pf_len = 1, num_gets = 18446744073709551615, num_sets = 0,
       num_deletes = 0, num_hits = 0, pf_next = 128\<rparr>), prefix_table = (\<lambda>_. NULL)(7 := 64), num_prefixes = 2,
     total_prefix_size = 3, prefix_delimiter = 58\<rparr>"

lemma two_prefixes_ok: "prefix_ok two_prefixes ((\<lambda>_. [])(7 := [64, 128]))"
proof -
  have "(\<Sum>b<PREFIX_HASH_SIZE. f (if b = 7 then x else [])) = f x"
    if "f [] = 0" for f :: "ptr list \<Rightarrow> nat" and x
  proof -
    have "(\<Sum>b<PREFIX_HASH_SIZE. f (if b = 7 then x else [])) = (\<Sum>b<PREFIX_HASH_SIZE. if b = 7 then f x else 0)"
      by (rule sum.cong) (simp_all add: that)
    then show ?thesis by (simp add: PREFIX_HASH_SIZE_def)
  qed
  note S = this [of "\<lambda>xs. length xs"] this [of "\<lambda>xs. (\<Sum>p\<leftarrow>xs. length (pf_prefix (pf_mem two_prefixes p)))"]
  have "num_prefixes two_prefixes = 2" "total_prefix_size two_prefixes = 3"
    "(\<Sum>p\<leftarrow>[64, 128]. length (pf_prefix (pf_mem two_prefixes p))) = 3"
    by (simp_all add: two_prefixes_def chars_def)
  with S show ?thesis
    unfolding prefix_ok_def by (auto simp del: of_nat_sum simp add: two_prefixes_def fun_upd_def)
qed

theorem prefix_dump_complete_witness:
  "stats_prefix_dump True two_prefixes = Some (Some (
     chars ''PREFIX c get 18446744073709551615 hit 0 set 0 del 0'' @ [13, 10] @
     chars ''PREFIX ab get 12 hit 7 set 3 del 0'' @ [13, 10] @ chars ''END'' @ [13, 10]))"
proof -
  let ?B = "(\<lambda>_. [])(7 := [64, 128])"
  let ?L = "concat (map (\<lambda>b. chain_lines two_prefixes (?B b)) [0..<PREFIX_HASH_SIZE])"
  have e: "[0..<PREFIX_HASH_SIZE] = [0..<7] @ 7 # [8..<PREFIX_HASH_SIZE]"
    unfolding PREFIX_HASH_SIZE_def using upt_add_eq_append [of 0 7 249] by (simp add: upt_conv_Cons)
  have z: "concat (map (\<lambda>b. chain_lines two_prefixes (?B b)) xs) = []" if "7 \<notin> set xs" for xs
    using that by (induction xs) (auto simp: chain_lines_def)
  have L: "?L = chain_lines two_prefixes [64, 128]"
    unfolding e map_append concat_append list.map concat.simps by (subst z, simp, subst z, simp) simp
  have "53 + total_prefix_size two_prefixes + 109 * num_prefixes two_prefixes \<le> INT_MAX"
    by (simp add: two_prefixes_def INT_MAX_def)
  from prefix_dump_complete [OF two_prefixes_ok this]
  have "stats_prefix_dump True two_prefixes = Some (Some (chain_lines two_prefixes [64, 128] @ chars ''END'' @ [13, 10]))"
    unfolding L by blast
  then show ?thesis
    by (simp add: two_prefixes_def chain_lines_def prefix_line_def chars_def show_nat_cases)
qed

text \<open>The comparison in the lookup looks at no more characters than the prefix of the key has, so
  that a key whose prefix is the beginning of a longer prefix in the same bucket is counted there:
  after a set under \<open>abc:\<close> and a get under \<open>ab:\<close> there is one entry, \<open>abc\<close>, with both.\<close>

theorem prefix_beginning_counted_as_longer:
  "stats_prefix_record_set 64 True (\<lambda>_. 7) (chars ''abc:1'') 5 example_prefixes \<bind>
     stats_prefix_record_get 128 True (\<lambda>_. 7) (chars ''ab:1'') 4 True \<bind>
     (\<lambda>s. Some (num_prefixes s, pf_prefix (pf_mem s 64), num_sets (pf_mem s 64), num_gets (pf_mem s 64))) =
   Some (1, chars ''abc'', 1, 1)"
  by (simp add: stats_prefix_record_set_def stats_prefix_record_get_def stats_prefix_find_def example_prefixes_def
      chars_def prefix_lookup.simps strncmp_eq_def prefix_bucket_def PREFIX_HASH_SIZE_def upd_prefix_def of_char_def INT_MAX_def int_of_sum_def)

end
