(* ===== verification/MC_Cache.thy ===== *)
theory MC_Cache
  imports Prelude
begin

text \<open>
  The object cache (\<open>cache.c\<close>), which keeps the freed buffers of one size for the next allocation,
  in the variant that is compiled without \<open>NDEBUG\<close>: every buffer has a word before and a word
  after the object (the red zones), which are checked when it is given back.  The array \<open>ptr\<close> of free
  buffers is a map from its indices; \<open>cells\<close> is the memory of the red zones.  The results of \<open>malloc\<close>
  (an address), \<open>realloc\<close> and the constructor are arguments.  Releasing memory to the system is not
  modelled; \<open>raise(SIGABRT)\<close> is taken to return, as it does when a handler is installed.
\<close>

section \<open>State and operations\<close>

record cache_t =
  c_ptr :: "nat \<Rightarrow> ptr"
  c_bufsize :: nat
  c_freetotal :: nat
  c_freecurr :: nat
  c_has_constructor :: bool
  c_has_destructor :: bool
  cells :: "ptr \<Rightarrow> u64"
  cache_error :: int
  c_destroyed :: "ptr list"

definition redzone_pattern :: u64 where "redzone_pattern = 0xdeadbeefcafebabe"
definition initial_pool_size :: nat where "initial_pool_size = 64"

text \<open>\<open>ok\<close>: the three allocations and the initialisation of the mutex succeed.\<close>

definition cache_create :: "bool \<Rightarrow> nat \<Rightarrow> bool \<Rightarrow> bool \<Rightarrow> (ptr \<Rightarrow> u64) \<Rightarrow> cache_t option" where
  "cache_create ok bufsize ctor dtor mem =
     (if \<not> ok then None
      else Some \<lparr>c_ptr = (\<lambda>_. NULL), c_bufsize = bufsize + 2 * 8, c_freetotal = initial_pool_size,
                 c_freecurr = 0, c_has_constructor = ctor, c_has_destructor = dtor, cells = mem,
                 cache_error = 0, c_destroyed = []\<rparr>)"

definition get_object :: "ptr \<Rightarrow> ptr" where
  "get_object p = p + 8"

text \<open>Where the red zones of the buffer at \<open>p\<close> are.\<close>

definition after_zone :: "cache_t \<Rightarrow> ptr \<Rightarrow> ptr" where
  "after_zone c obj = obj + c_bufsize c - 2 * 8"

definition cache_destroy :: "cache_t \<Rightarrow> ptr list" where
  "cache_destroy c = (if c_has_destructor c
     then map (\<lambda>k. get_object (c_ptr c (c_freecurr c - 1 - k))) [0..<c_freecurr c] else [])"

definition cache_alloc :: "ptr \<Rightarrow> bool \<Rightarrow> cache_t \<Rightarrow> ptr \<times> cache_t" where
  "cache_alloc mem ctor_ok c =
     (case (if c_freecurr c > 0
            then let c1 = c\<lparr>c_freecurr := c_freecurr c - 1\<rparr>; ret = c_ptr c1 (c_freecurr c1)
                 in (ret, get_object ret, c1)
            else if mem \<noteq> NULL
            then (mem, if c_has_constructor c \<and> \<not> ctor_ok then NULL else get_object mem, c)
            else (NULL, NULL, c)) of (ret, object, c1) \<Rightarrow>
        if object \<noteq> NULL
        then let m1 = (cells c1)(ret := redzone_pattern);
                 m2 = m1(after_zone c1 (ret + 8) := redzone_pattern)
             in (object, c1\<lparr>cells := m2\<rparr>)
        else (object, c1))"

definition cache_free :: "bool \<Rightarrow> ptr \<Rightarrow> cache_t \<Rightarrow> cache_t" where
  "cache_free realloc_ok p c =
     (if cells c (after_zone c p) \<noteq> redzone_pattern then c\<lparr>cache_error := 1\<rparr>
      else let pre = p - 8 in
        if cells c pre \<noteq> redzone_pattern then c\<lparr>cache_error := -1\<rparr>
        else if c_freecurr c < c_freetotal c
        then c\<lparr>c_ptr := (c_ptr c)(c_freecurr c := pre), c_freecurr := c_freecurr c + 1\<rparr>
        else if realloc_ok
        then c\<lparr>c_freetotal := c_freetotal c * 2, c_ptr := (c_ptr c)(c_freecurr c := pre),
               c_freecurr := c_freecurr c + 1\<rparr>
        else if c_has_destructor c then c\<lparr>c_destroyed := c_destroyed c @ [pre]\<rparr> else c)"

section \<open>The pool\<close>

text \<open>The free buffers, the last one freed first.\<close>

definition pool :: "cache_t \<Rightarrow> ptr list" where
  "pool c = rev (map (c_ptr c) [0..<c_freecurr c])"

text \<open>The objects \<open>U\<close> in use and the free buffers are all different, and the red zones of the objects
  in use are intact.\<close>

definition zones_ok :: "cache_t \<Rightarrow> ptr set \<Rightarrow> bool" where
  "zones_ok c U \<longleftrightarrow> (\<forall>p\<in>U. cells c (p - 8) = redzone_pattern \<and> cells c (after_zone c p) = redzone_pattern)"

definition cache_ok :: "cache_t \<Rightarrow> ptr set \<Rightarrow> bool" where
  "cache_ok c U \<longleftrightarrow> 0 < c_freetotal c \<and> c_freecurr c \<le> c_freetotal c \<and> 16 \<le> c_bufsize c \<and>
     distinct (pool c) \<and> NULL \<notin> set (pool c) \<and> (\<forall>p\<in>U. 8 < p \<and> p - 8 \<notin> set (pool c)) \<and> zones_ok c U"

text \<open>Two buffers do not overlap.\<close>

definition buf_apart :: "cache_t \<Rightarrow> ptr \<Rightarrow> ptr \<Rightarrow> bool" where
  "buf_apart c p q \<longleftrightarrow> p + c_bufsize c \<le> q \<or> q + c_bufsize c \<le> p"

lemma pool_Cons: "0 < c_freecurr c \<Longrightarrow>
  pool c = c_ptr c (c_freecurr c - 1) # pool (c\<lparr>c_freecurr := c_freecurr c - 1\<rparr>)"
  by (cases "c_freecurr c") (simp_all add: pool_def)

lemma pool_push: "pool (c\<lparr>c_ptr := (c_ptr c)(c_freecurr c := p), c_freecurr := c_freecurr c + 1\<rparr>) = p # pool c"
  by (simp add: pool_def)

lemma pool_cong: "c_freecurr c' = c_freecurr c \<Longrightarrow> c_ptr c' = c_ptr c \<Longrightarrow> pool c' = pool c"
  by (simp add: pool_def)

text \<open>Marking a buffer that overlaps none in use leaves the red zones of those alone.\<close>

lemma zones_mark:
  assumes "zones_ok c U" "16 \<le> c_bufsize c" "\<And>p. p \<in> U \<Longrightarrow> 8 < p \<and> buf_apart c (p - 8) q" "c_bufsize c' = c_bufsize c"
    "cells c' = (cells c)(q := redzone_pattern, after_zone c (q + 8) := redzone_pattern)"
  shows "zones_ok c' (insert (q + 8) U)"
  using assms by (auto simp: zones_ok_def after_zone_def)

lemma cache_alloc_ok:
  assumes ok: "cache_ok c U" and mem: "c_freecurr c = 0 \<Longrightarrow> mem \<noteq> NULL \<Longrightarrow> \<forall>p\<in>U. buf_apart c (p - 8) mem"
    and old: "\<And>p q. p \<in> U \<Longrightarrow> q \<in> set (pool c) \<Longrightarrow> buf_apart c (p - 8) q"
    and a: "cache_alloc mem ctor_ok c = (obj, c')"
  shows "if obj = NULL then c_freecurr c = 0 \<and> c' = c \<and> (mem = NULL \<or> c_has_constructor c \<and> \<not> ctor_ok)
    else obj \<notin> U \<and> cache_ok c' (insert obj U) \<and> pool c' = tl (pool c) \<and> c_bufsize c' = c_bufsize c \<and>
      (if c_freecurr c > 0 then obj = hd (pool c) + 8 else obj = mem + 8)"
proof (cases "c_freecurr c > 0")
  case True
  define c1 where "c1 = c\<lparr>c_freecurr := c_freecurr c - 1\<rparr>"
  let ?q = "c_ptr c (c_freecurr c - 1)"
  have pl: "pool c = ?q # pool c1" using pool_Cons [OF True] by (simp add: c1_def)
  have r: "obj = ?q + 8"
    "c' = c1\<lparr>cells := (cells c)(?q := redzone_pattern, after_zone c (?q + 8) := redzone_pattern)\<rparr>"
    using a True by (auto simp: cache_alloc_def Let_def get_object_def after_zone_def c1_def)
  have U: "8 < p \<and> buf_apart c (p - 8) ?q" if "p \<in> U" for p
    using ok that old [OF that, of ?q] by (simp add: cache_ok_def pl)
  have "zones_ok c' (insert obj U)" unfolding r(1)
    by (rule zones_mark [of c]) (use ok U in \<open>auto simp: cache_ok_def r(2) c1_def\<close>)
  moreover have "pool c' = pool c1" by (simp add: r(2) pool_def)
  moreover have "obj \<notin> U" using ok r(1) by (auto simp: cache_ok_def pl)
  ultimately show ?thesis
    using ok True r by (auto simp: cache_ok_def pl c1_def)
next
  case False
  then have pl: "pool c = []" by (simp add: pool_def)
  show ?thesis
  proof (cases "obj = NULL")
    case True
    with a False show ?thesis by (auto simp: cache_alloc_def get_object_def split: if_splits)
  next
    case nz: False
    have m: "mem \<noteq> NULL" and r: "obj = mem + 8"
      "c' = c\<lparr>cells := (cells c)(mem := redzone_pattern, after_zone c (mem + 8) := redzone_pattern)\<rparr>"
      using a False nz by (auto simp: cache_alloc_def Let_def get_object_def after_zone_def split: if_splits)
    have U: "8 < p \<and> buf_apart c (p - 8) mem" if "p \<in> U" for p
      using ok mem False m that by (auto simp: cache_ok_def)
    have "zones_ok c' (insert obj U)" unfolding r(1)
      by (rule zones_mark [of c]) (use ok U in \<open>auto simp: cache_ok_def r(2)\<close>)
    moreover have "pool c' = []" using False by (simp add: r(2) pool_def)
    moreover have "obj \<notin> U"
    proof
      assume "obj \<in> U"
      from U [OF this] have "buf_apart c mem mem" by (simp add: r(1))
      with ok show False by (auto simp: buf_apart_def cache_ok_def)
    qed
    ultimately show ?thesis using ok False r m by (auto simp: cache_ok_def pl)
  qed
qed

lemma cache_free_ok:
  assumes ok: "cache_ok c U" and p: "p \<in> U"
  shows "cache_ok (cache_free realloc_ok p c) (U - {p})"
    "pool (cache_free realloc_ok p c) =
       (if c_freecurr c < c_freetotal c \<or> realloc_ok then (p - 8) # pool c else pool c)"
    "cache_error (cache_free realloc_ok p c) = cache_error c"
proof -
  let ?c' = "cache_free realloc_ok p c"
  have z: "cells c (after_zone c p) = redzone_pattern" "cells c (p - 8) = redzone_pattern"
    using ok p by (auto simp: cache_ok_def zones_ok_def)
  have f: "cells ?c' = cells c" "c_bufsize ?c' = c_bufsize c" "0 < c_freetotal ?c'" "c_freecurr ?c' \<le> c_freetotal ?c'"
    using ok by (auto simp: cache_free_def Let_def cache_ok_def)
  show pl: "pool ?c' = (if c_freecurr c < c_freetotal c \<or> realloc_ok then (p - 8) # pool c else pool c)"
    using z by (auto simp: cache_free_def Let_def pool_def)
  have "zones_ok ?c' (U - {p})" using ok f by (auto simp: zones_ok_def cache_ok_def after_zone_def)
  moreover have "p - 8 \<notin> set (pool c)" "8 < p" using ok p by (auto simp: cache_ok_def)
  moreover have "q - 8 \<noteq> p - 8" if "q \<in> U - {p}" for q using ok p that by (auto simp: cache_ok_def)
  ultimately show "cache_ok ?c' (U - {p})" using ok f by (auto simp: cache_ok_def pl)
  show "cache_error ?c' = cache_error c" using z by (auto simp: cache_free_def Let_def)
qed

section \<open>Properties\<close>

text \<open>C35: An allocation returns an object that is not in use, the one that was freed last if there is a
  free buffer and new memory otherwise, and fails only when the pool is empty and the system or the
  constructor fails; free buffers and objects in use stay different and the red zones intact.\<close>

theorem cache_alloc_fresh:
  assumes "cache_ok c U" and "\<And>p q. p \<in> U \<Longrightarrow> q \<in> insert mem (set (pool c)) \<Longrightarrow> buf_apart c (p - 8) q"
    and "cache_alloc mem ctor_ok c = (obj, c')"
  shows "if obj = NULL then pool c = [] \<and> c' = c \<and> (mem = NULL \<or> c_has_constructor c \<and> \<not> ctor_ok)
    else obj \<notin> U \<and> cache_ok c' (insert obj U) \<and> pool c' = tl (pool c) \<and>
      (if pool c \<noteq> [] then obj = hd (pool c) + 8 else obj = mem + 8)"
proof -
  have "(c_freecurr c > 0) = (pool c \<noteq> [])" by (simp add: pool_def)
  then show ?thesis
    using cache_alloc_ok [OF assms(1) _ _ assms(3)] assms(2) by (auto split: if_splits)
qed

definition example_pool :: cache_t where
  "example_pool = the (cache_create True 24 False False (\<lambda>_. 0))"

lemma example_pool_ok: "cache_ok example_pool {}" "pool example_pool = []"
  by (simp_all add: example_pool_def cache_create_def cache_ok_def initial_pool_size_def pool_def zones_ok_def)

theorem cache_alloc_fresh_witness:
  "fst (cache_alloc 64 True example_pool) = 72 \<and> cache_ok (snd (cache_alloc 64 True example_pool)) {72}"
proof -
  obtain obj c' where a: "cache_alloc 64 True example_pool = (obj, c')" by (cases "cache_alloc 64 True example_pool") auto
  have "obj \<noteq> NULL"
    using a by (auto simp: cache_alloc_def example_pool_def cache_create_def get_object_def Let_def)
  with cache_alloc_fresh [OF example_pool_ok(1) _ a] example_pool_ok(2) a show ?thesis by auto
qed

text \<open>C36: Giving an intact object back makes it the first of the pool, and the next allocation returns
  it; a full pool is first enlarged to twice its size, and only when that fails is the buffer
  released instead (after the destructor, if there is one) and the pool left as it was.  If the word
  behind the object or before it has been overwritten, the error is reported and nothing else
  changes: the buffer is not put back into the pool.\<close>

theorem cache_free_checks:
  assumes "cache_ok c U" and "p \<in> U" and "c' = cache_free r p c" and "w \<noteq> redzone_pattern"
  shows "cache_ok c' (U - {p}) \<and> cache_error c' = cache_error c \<and>
    (if c_freecurr c < c_freetotal c \<or> r
     then pool c' = (p - 8) # pool c \<and> fst (cache_alloc mem ctor_ok c') = p \<and>
       c_freetotal c' = (if c_freecurr c < c_freetotal c then c_freetotal c else 2 * c_freetotal c) \<and>
       c_destroyed c' = c_destroyed c
     else pool c' = pool c \<and> c_freetotal c' = c_freetotal c \<and>
       c_destroyed c' = c_destroyed c @ (if c_has_destructor c then [p - 8] else [])) \<and>
    cache_free r p (c\<lparr>cells := (cells c)(after_zone c p := w)\<rparr>) =
      c\<lparr>cells := (cells c)(after_zone c p := w), cache_error := 1\<rparr> \<and>
    cache_free r p (c\<lparr>cells := (cells c)(p - 8 := w)\<rparr>) = c\<lparr>cells := (cells c)(p - 8 := w), cache_error := -1\<rparr>"
proof -
  note f = cache_free_ok [OF assms(1,2), of r]
  have p: "8 < p" and z: "cells c (after_zone c p) = redzone_pattern" "cells c (p - 8) = redzone_pattern"
    and b: "16 \<le> c_bufsize c"
    using assms(1,2) by (auto simp: cache_ok_def zones_ok_def)
  have put: "fst (cache_alloc mem ctor_ok c') = p" if "pool c' = (p - 8) # pool c"
  proof -
    have n: "c_freecurr c' \<noteq> 0" using that by (cases "c_freecurr c'") (simp_all add: pool_def)
    then have "c_ptr c' (c_freecurr c' - 1) = p - 8" using that pool_Cons [of c'] by simp
    then show ?thesis using n p by (simp add: cache_alloc_def Let_def get_object_def)
  qed
  have t: "c_freetotal c' = (if c_freecurr c < c_freetotal c \<or> \<not> r then c_freetotal c else 2 * c_freetotal c)"
    "c_destroyed c' = (if c_freecurr c < c_freetotal c \<or> r \<or> \<not> c_has_destructor c then c_destroyed c
                       else c_destroyed c @ [p - 8])"
    using z by (auto simp: assms(3) cache_free_def Let_def)
  have "after_zone c p \<noteq> p - 8" using p b by (simp add: after_zone_def)
  then show ?thesis
    using f put t assms(4) z unfolding assms(3) by (auto simp: cache_free_def Let_def after_zone_def)
qed

text \<open>One object in use and a pool that is full after one more is given back.\<close>

definition used_pool :: cache_t where
  "used_pool = (snd (cache_alloc 64 True example_pool))\<lparr>c_freetotal := 1\<rparr>"

lemma used_pool_ok: "cache_ok used_pool {72}"
  by (simp add: used_pool_def cache_ok_def cache_alloc_def example_pool_def cache_create_def get_object_def Let_def
      zones_ok_def pool_def initial_pool_size_def after_zone_def)

theorem cache_free_checks_witness:
  "fst (cache_alloc NULL True (cache_free True 72 used_pool)) = 72 \<and>
   pool (cache_free True 72 (used_pool\<lparr>c_freetotal := 1, c_freecurr := 1, c_ptr := (\<lambda>_. 200)\<rparr>)) = [64, 200] \<and>
   pool (cache_free False 72 (used_pool\<lparr>c_freetotal := 1, c_freecurr := 1, c_ptr := (\<lambda>_. 200)\<rparr>)) = [200] \<and>
   cache_error (cache_free True 72 (used_pool\<lparr>cells := (cells used_pool)(after_zone used_pool 72 := 0)\<rparr>)) = 1"
proof -
  let ?full = "used_pool\<lparr>c_freetotal := 1, c_freecurr := 1, c_ptr := (\<lambda>_. 200)\<rparr>"
  have u: "c_freecurr used_pool = 0" "c_freetotal used_pool = 1"
    by (simp_all add: used_pool_def cache_alloc_def example_pool_def cache_create_def get_object_def Let_def)
  have full: "cache_ok ?full {72}" using used_pool_ok by (simp add: cache_ok_def pool_def zones_ok_def after_zone_def)
  note T = cache_free_checks [where w = 0 and mem = NULL and ctor_ok = True, OF _ _ refl]
  show ?thesis
    using T [OF used_pool_ok, of 72 True] T [OF full, of 72 True] T [OF full, of 72 False] u
    by (simp add: redzone_pattern_def) (simp add: pool_def)
qed

end
