(* ===== verification/MC_Conn.thy ===== *)
theory MC_Conn
  imports MC_Access MC_Stats MC_Iov MC_Prefix MC_Cache MC_Util
begin

text \<open>
  Connections (\<open>memcached.c\<close>): the state of a connection and of the worker thread that serves it,
  opening, closing and shrinking a connection, and writing replies of both protocols.

  The buffers \<open>rbuf\<close> and \<open>wbuf\<close> are maps from offsets to bytes, \<open>rcurr\<close> is an offset into \<open>rbuf\<close>;
  \<open>wcurr\<close>, the suffixes and the items that a reply refers to are addresses, since the reply is a list
  of fragments of memory.  The place where the next input bytes go (\<open>ritem\<close>) is an offset into
  \<open>rbuf\<close> or into the value of an item.  \<open>texts\<close> holds the strings that were written to memory the
  connection owns (the suffixes of \<open>gets\<close> and the buffers of \<open>stats\<close>) by their addresses.  Every \<open>realloc\<close> of a connection's arrays takes its outcome from \<open>reallocs\<close>.
\<close>

section \<open>Buffers\<close>

definition put_bytes :: "nat \<Rightarrow> bytes \<Rightarrow> (nat \<Rightarrow> u8) \<Rightarrow> nat \<Rightarrow> u8" where
  "put_bytes off bs f = (\<lambda>i. if off \<le> i \<and> i < off + length bs then bs ! (i - off) else f i)"

definition get_bytes :: "(nat \<Rightarrow> u8) \<Rightarrow> nat \<Rightarrow> nat \<Rightarrow> bytes" where
  "get_bytes f off n = map f [off..<off + n]"

text \<open>Numbers in network byte order, and back.\<close>

definition be16 :: "u16 \<Rightarrow> bytes" where
  "be16 w = [ucast (drop_bit 8 w), ucast w]"

definition be32 :: "u32 \<Rightarrow> bytes" where
  "be32 w = [ucast (drop_bit 24 w), ucast (drop_bit 16 w), ucast (drop_bit 8 w), ucast w]"

definition be64 :: "u64 \<Rightarrow> bytes" where
  "be64 w = be32 (ucast (drop_bit 32 w)) @ be32 (ucast w)"

definition of_be :: "bytes \<Rightarrow> 'a::len word" where
  "of_be bs = foldl (\<lambda>a b. push_bit 8 a OR ucast b) 0 bs"

section \<open>State\<close>

datatype bin_substates =
  bin_no_state | bin_reading_set_header | bin_reading_cas_header | bin_read_set_value |
  bin_reading_get_key | bin_reading_stat | bin_reading_del_header | bin_reading_incr_header |
  bin_read_flush_exptime | bin_reading_sasl_auth | bin_reading_sasl_auth_data | bin_reading_touch_key

definition NREAD_ADD :: int where "NREAD_ADD = 1"
definition NREAD_SET :: int where "NREAD_SET = 2"
definition NREAD_REPLACE :: int where "NREAD_REPLACE = 3"
definition NREAD_APPEND :: int where "NREAD_APPEND = 4"
definition NREAD_PREPEND :: int where "NREAD_PREPEND = 5"
definition NREAD_CAS :: int where "NREAD_CAS = 6"

lemmas nread_defs = NREAD_ADD_def NREAD_SET_def NREAD_REPLACE_def NREAD_APPEND_def
  NREAD_PREPEND_def NREAD_CAS_def

definition INCR_MAX_STORAGE_LEN :: nat where "INCR_MAX_STORAGE_LEN = 24"
definition DATA_BUFFER_SIZE :: nat where "DATA_BUFFER_SIZE = 2048"
definition SUFFIX_SIZE :: nat where "SUFFIX_SIZE = 24"
definition ITEM_LIST_INITIAL :: nat where "ITEM_LIST_INITIAL = 200"
definition SUFFIX_LIST_INITIAL :: nat where "SUFFIX_LIST_INITIAL = 20"
definition IOV_LIST_INITIAL :: nat where "IOV_LIST_INITIAL = 400"
definition MSG_LIST_INITIAL :: nat where "MSG_LIST_INITIAL = 10"
definition READ_BUFFER_HIGHWAT :: nat where "READ_BUFFER_HIGHWAT = 8192"
definition ITEM_LIST_HIGHWAT :: nat where "ITEM_LIST_HIGHWAT = 400"
definition IOV_LIST_HIGHWAT :: nat where "IOV_LIST_HIGHWAT = 600"
definition MSG_LIST_HIGHWAT :: nat where "MSG_LIST_HIGHWAT = 100"

text \<open>The header of a binary request; \<open>opaque\<close> is given back as it came.\<close>

record binary_header =
  bh_magic :: u8
  bh_opcode :: u8
  bh_keylen :: u16
  bh_extlen :: u8
  bh_bodylen :: u32
  bh_opaque :: bytes
  bh_cas :: u64

datatype read_place = in_rbuf nat | in_item ptr nat

record conn = msg_buf +
  sfd :: int
  sasl_conn :: bool
  authenticated_flag :: bool
  cstate :: conn_states
  substate :: bin_substates
  last_cmd_time :: u32
  ev_flags :: int
  rbuf :: "nat \<Rightarrow> u8"
  rcurr :: nat
  rsize :: nat
  rbytes :: nat
  wbuf :: "nat \<Rightarrow> u8"
  wbuf_addr :: ptr
  wcurr :: ptr
  wsize :: nat
  wbytes :: nat
  write_and_go :: conn_states
  write_and_free_buf :: ptr
  ritem :: read_place
  rlbytes :: int
  c_item :: ptr
  sbytes :: int
  ilist :: "nat \<Rightarrow> ptr"
  isize :: nat
  icurr :: nat
  ileft :: nat
  suffixlist :: "nat \<Rightarrow> ptr"
  suffixsize :: nat
  suffixcurr :: nat
  suffixleft :: nat
  c_protocol :: protocol
  noreply :: bool
  stats_buffer :: "bytes option"
  stats_size :: nat
  header :: binary_header
  c_cas :: u64
  c_cmd :: int
  c_opaque :: bytes
  c_keylen :: int
  texts :: "ptr \<Rightarrow> bytes"

text \<open>The state a worker thread works on: the caches, its own statistics and those of the other workers, its
  suffix cache and the prefix statistics.  \<open>erange\<close>: \<open>errno\<close> is \<open>ERANGE\<close> when a command starts;
  \<open>literal\<close> gives the addresses of string constants.\<close>

record worker_state = rebal_state +
  my_stats :: thread_stats
  suffix_cache :: cache_t
  prefixes :: prefix_state
  process_started :: int
  erange :: bool
  literal :: "bytes \<Rightarrow> ptr"
  allow_new_conns :: bool
  other_threads :: "thread_stats list"

section \<open>States of a connection\<close>

text \<open>\<open>enum conn_states\<close> in the order of its constants.\<close>

definition state_text :: "conn_states \<Rightarrow> string" where
  "state_text st = (case st of
       conn_listening \<Rightarrow> ''conn_listening'' | conn_new_cmd \<Rightarrow> ''conn_new_cmd''
     | conn_waiting \<Rightarrow> ''conn_waiting'' | conn_read \<Rightarrow> ''conn_read''
     | conn_parse_cmd \<Rightarrow> ''conn_parse_cmd'' | conn_write \<Rightarrow> ''conn_write''
     | conn_nread \<Rightarrow> ''conn_nread'' | conn_swallow \<Rightarrow> ''conn_swallow''
     | conn_closing \<Rightarrow> ''conn_closing'' | conn_mwrite \<Rightarrow> ''conn_mwrite''
     | conn_closed \<Rightarrow> ''conn_closed'' | conn_max_state \<Rightarrow> ''?'')"

definition prot_text :: "protocol \<Rightarrow> string" where
  "prot_text prot = (case prot of
       ascii_prot \<Rightarrow> ''ascii'' | binary_prot \<Rightarrow> ''binary'' | negotiating_prot \<Rightarrow> ''auto-negotiate'')"

definition conn_set_state :: "conn_states \<Rightarrow> conn \<Rightarrow> conn option" where
  "conn_set_state st c = do {
     c_assert (st \<noteq> conn_max_state);
     Some (if st \<noteq> cstate c then c\<lparr>cstate := st\<rparr> else c)
   }"

lemma conn_set_state_Some: "st \<noteq> conn_max_state \<Longrightarrow> conn_set_state st c = Some (c\<lparr>cstate := st\<rparr>)"
  by (cases c) (simp add: conn_set_state_def)

text \<open>The outcome of a \<open>realloc\<close> whose failure is not counted.\<close>

definition realloc_outcome :: "conn \<Rightarrow> bool \<times> conn" where
  "realloc_outcome c = (case reallocs c of [] \<Rightarrow> (True, c) | ok # oks \<Rightarrow> (ok, c\<lparr>reallocs := oks\<rparr>))"

section \<open>Opening and closing\<close>

definition count_stats :: "(stats_t \<Rightarrow> stats_t) \<Rightarrow> 'a mc_base_scheme \<Rightarrow> 'a mc_base_scheme" where
  "count_stats f w = w\<lparr>stats := f (stats w)\<rparr>"

text \<open>A new \<open>conn\<close> structure (\<open>calloc\<close>) with its arrays.\<close>

definition fresh_conn :: "nat \<Rightarrow> ptr \<Rightarrow> conn" where
  "fresh_conn read_buffer_size wbuf_mem =
     \<lparr>iov = (\<lambda>_. \<lparr>iov_base = NULL, iov_len = 0\<rparr>), iovsize = IOV_LIST_INITIAL, iovused = 0,
      msglist = (\<lambda>_. \<lparr>msg_iov = 0, msg_iovlen = 0, msg_named = False\<rparr>), msgsize = MSG_LIST_INITIAL,
      msgused = 0, msgcurr = 0, msgbytes = 0, transport = local_transport, request_addr_size = 0,
      request_id = 0, hdrbuf = (\<lambda>_. 0), hdrbuf_addr = NULL, hdrsize = 0, reallocs = [], malloc_failed = 0,
      sfd = 0, sasl_conn = False, authenticated_flag = False, cstate = conn_listening,
      substate = bin_no_state, last_cmd_time = 0, ev_flags = 0, rbuf = (\<lambda>_. 0), rcurr = 0,
      rsize = read_buffer_size, rbytes = 0, wbuf = (\<lambda>_. 0), wbuf_addr = wbuf_mem, wcurr = wbuf_mem,
      wsize = DATA_BUFFER_SIZE, wbytes = 0, write_and_go = conn_listening, write_and_free_buf = NULL,
      ritem = in_rbuf 0, rlbytes = 0, c_item = NULL, sbytes = 0, ilist = (\<lambda>_. NULL),
      isize = ITEM_LIST_INITIAL, icurr = 0, ileft = 0, suffixlist = (\<lambda>_. NULL),
      suffixsize = SUFFIX_LIST_INITIAL, suffixcurr = 0, suffixleft = 0, c_protocol = ascii_prot,
      noreply = False, stats_buffer = None, stats_size = 0,
      header = \<lparr>bh_magic = 0, bh_opcode = 0, bh_keylen = 0, bh_extlen = 0, bh_bodylen = 0,
                bh_opaque = [], bh_cas = 0\<rparr>, c_cas = 0, c_cmd = 0, c_opaque = [], c_keylen = 0,
      texts = (\<lambda>_. [])\<rparr>"

text \<open>\<open>conns\<close> is the table of connections by descriptor.  \<open>alloc_ok\<close>, \<open>bufs_ok\<close> and \<open>event_ok\<close> are the
  outcomes of \<open>calloc\<close>, of the allocation of the arrays and of \<open>event_add\<close>; \<open>addr_size\<close> is what
  \<open>sizeof(c->request_addr)\<close> is.  \<open>None\<close> as the connection stands for a NULL result.\<close>

definition conn_free :: "conn \<Rightarrow> (int \<Rightarrow> conn option) \<Rightarrow> int \<Rightarrow> conn option" where
  "conn_free c conns = conns(sfd c := None)"

definition conn_new ::
  "nat \<Rightarrow> bool \<Rightarrow> bool \<Rightarrow> bool \<Rightarrow> nat \<Rightarrow> ptr \<Rightarrow> (int \<Rightarrow> conn option) \<Rightarrow> int \<Rightarrow> conn_states \<Rightarrow> int \<Rightarrow> nat \<Rightarrow>
   network_transport \<Rightarrow> 'a mc_base_scheme \<Rightarrow>
   (conn option \<times> (int \<Rightarrow> conn option) \<times> 'a mc_base_scheme) option" where
  "conn_new max_fds alloc_ok bufs_ok event_ok addr_size wbuf_mem conns fd init_state event_flags
      read_buffer_size tr w = do {
     c_assert (0 \<le> fd \<and> fd < int max_fds);
     let (r, conns1, w1) = (case conns fd of
         Some c \<Rightarrow> (Some c, conns, w)
       | None \<Rightarrow>
           if \<not> alloc_ok
           then (None, conns, count_stats (\<lambda>st. st\<lparr>malloc_fails := malloc_fails st + 1\<rparr>) w)
           else let c = fresh_conn read_buffer_size wbuf_mem in
             if \<not> bufs_ok
             then (None, conn_free c conns, count_stats (\<lambda>st. st\<lparr>malloc_fails := malloc_fails st + 1\<rparr>) w)
             else let c' = c\<lparr>sfd := fd\<rparr>
               in (Some c', conns(fd := Some c'), count_stats (\<lambda>st. st\<lparr>conn_structs := conn_structs st + 1\<rparr>) w));
     (case r of
        None \<Rightarrow> Some (None, conns1, w1)
      | Some c \<Rightarrow>
          let c1 = c\<lparr>transport := tr, c_protocol := binding_protocol (settings w1),
             request_addr_size := (if socketpath (settings w1) = None then addr_size else 0),
             cstate := init_state, rlbytes := 0, c_cmd := -1, rbytes := 0, wbytes := 0,
             wcurr := wbuf_addr c, rcurr := 0, ritem := in_rbuf 0, icurr := 0, suffixcurr := 0,
             ileft := 0, suffixleft := 0, iovused := 0, msgcurr := 0, msgused := 0,
             authenticated_flag := False, write_and_go := init_state, write_and_free_buf := NULL,
             c_item := NULL, noreply := False, ev_flags := event_flags\<rparr>;
              conns2 = conns1(fd := Some c1)
          in if \<not> event_ok then Some (None, conns2, w1)
             else Some (Some c1, conns2, count_stats (\<lambda>st. st\<lparr>curr_conns := curr_conns st + 1,
                                                     total_conns := total_conns st + 1\<rparr>) w1))
   }"

text \<open>The items and suffixes a reply referred to are released, from \<open>icurr\<close> and \<open>suffixcurr\<close> on.\<close>

fun release_items :: "nat \<Rightarrow> conn \<Rightarrow> worker_state \<Rightarrow> (conn \<times> worker_state) option" where
  "release_items 0 c w = Some (c, w)"
| "release_items (Suc n) c w = do {
     let it = ilist c (icurr c);
     c_assert (it_flags (heap w it) AND ITEM_SLABBED = 0);
     w1 \<leftarrow> item_remove it w;
     release_items n (c\<lparr>icurr := icurr c + 1, ileft := ileft c - 1\<rparr>) w1
   }"

fun release_suffixes :: "nat \<Rightarrow> conn \<Rightarrow> worker_state \<Rightarrow> conn \<times> worker_state" where
  "release_suffixes 0 c w = (c, w)"
| "release_suffixes (Suc n) c w =
     (case realloc_outcome c of (ok, c1) \<Rightarrow>
        release_suffixes n (c1\<lparr>suffixleft := suffixleft c1 - 1, suffixcurr := suffixcurr c1 + 1\<rparr>)
          (w\<lparr>suffix_cache := cache_free ok (suffixlist c1 (suffixcurr c1)) (suffix_cache w)\<rparr>))"

definition conn_release_items :: "conn \<Rightarrow> worker_state \<Rightarrow> (conn \<times> worker_state) option" where
  "conn_release_items c w = do {
     w1 \<leftarrow> (if c_item c \<noteq> NULL then item_remove (c_item c) w else Some w);
     (c1, w2) \<leftarrow> release_items (ileft c) (c\<lparr>c_item := NULL\<rparr>) w1;
     let (c2, w3) = release_suffixes (suffixleft c1) c1 w2;
     Some (c2\<lparr>icurr := 0, suffixcurr := 0\<rparr>, w3)
   }"

definition conn_cleanup :: "conn \<Rightarrow> worker_state \<Rightarrow> (conn \<times> worker_state) option" where
  "conn_cleanup c w = do {
     (c1, w1) \<leftarrow> conn_release_items c w;
     let c2 = c1\<lparr>write_and_free_buf := NULL\<rparr>;
     c_assert (sasl_conn c2 \<longrightarrow> sasl (settings w1));
     let c3 = c2\<lparr>sasl_conn := False\<rparr>;
     c4 \<leftarrow> (if is_udp c3 then conn_set_state conn_read c3 else Some c3);
     Some (c4, w1)
   }"

definition conn_close :: "conn \<Rightarrow> worker_state \<Rightarrow> (conn \<times> worker_state) option" where
  "conn_close c w = do {
     (c1, w1) \<leftarrow> conn_cleanup c w;
     c2 \<leftarrow> conn_set_state conn_closed c1;
     Some (c2, count_stats (\<lambda>st. st\<lparr>curr_conns := curr_conns st - 1\<rparr>) (w1\<lparr>allow_new_conns := True\<rparr>))
   }"

text \<open>The four buffers of \<open>conn_shrink\<close>, one after the other.\<close>

definition shrink_rbuf :: "conn \<Rightarrow> conn" where
  "shrink_rbuf c =
     (if rsize c > READ_BUFFER_HIGHWAT \<and> rbytes c < DATA_BUFFER_SIZE
      then let c1 = (if rcurr c \<noteq> 0
                     then c\<lparr>rbuf := put_bytes 0 (get_bytes (rbuf c) (rcurr c) (rbytes c)) (rbuf c)\<rparr> else c)
           in case realloc_outcome c1 of (ok, c2) \<Rightarrow>
                (if ok then c2\<lparr>rsize := DATA_BUFFER_SIZE\<rparr> else c2)\<lparr>rcurr := 0\<rparr>
      else c)"

definition shrink_ilist :: "conn \<Rightarrow> conn" where
  "shrink_ilist c =
     (if isize c > ITEM_LIST_HIGHWAT
      then case realloc_outcome c of (ok, c1) \<Rightarrow> if ok then c1\<lparr>isize := ITEM_LIST_INITIAL\<rparr> else c1
      else c)"

definition shrink_msglist :: "conn \<Rightarrow> conn" where
  "shrink_msglist c =
     (if msgsize c > MSG_LIST_HIGHWAT
      then case realloc_outcome c of (ok, c1) \<Rightarrow> if ok then c1\<lparr>msgsize := MSG_LIST_INITIAL\<rparr> else c1
      else c)"

definition shrink_iov :: "conn \<Rightarrow> conn" where
  "shrink_iov c =
     (if iovsize c > IOV_LIST_HIGHWAT
      then case realloc_outcome c of (ok, c1) \<Rightarrow> if ok then c1\<lparr>iovsize := IOV_LIST_INITIAL\<rparr> else c1
      else c)"

definition conn_shrink :: "conn \<Rightarrow> conn" where
  "conn_shrink c = (if is_udp c then c else shrink_iov (shrink_msglist (shrink_ilist (shrink_rbuf c))))"

definition reset_cmd_handler :: "conn \<Rightarrow> worker_state \<Rightarrow> (conn \<times> worker_state) option" where
  "reset_cmd_handler c w = do {
     let c1 = c\<lparr>c_cmd := -1, substate := bin_no_state\<rparr>;
     w1 \<leftarrow> (if c_item c1 \<noteq> NULL then item_remove (c_item c1) w else Some w);
     let c2 = conn_shrink (c1\<lparr>c_item := NULL\<rparr>);
     c3 \<leftarrow> conn_set_state (if rbytes c2 > 0 then conn_parse_cmd else conn_waiting) c2;
     Some (c3, w1)
   }"

section \<open>Replies\<close>

definition PROTOCOL_BINARY_REQ :: u8 where "PROTOCOL_BINARY_REQ = 0x80"
definition PROTOCOL_BINARY_RES :: u8 where "PROTOCOL_BINARY_RES = 0x81"

text \<open>The size of a binary header, and the status codes of responses.\<close>

definition BIN_HEADER_SIZE :: nat where "BIN_HEADER_SIZE = 24"

datatype response_status =
  KEY_ENOENT | KEY_EEXISTS | E2BIG | EINVAL | NOT_STORED_STATUS | DELTA_BADVAL | AUTH_ERROR |
  AUTH_CONTINUE | UNKNOWN_COMMAND | ENOMEM | SUCCESS

definition status_code :: "response_status \<Rightarrow> u16" where
  "status_code st = (case st of
       SUCCESS \<Rightarrow> 0 | KEY_ENOENT \<Rightarrow> 1 | KEY_EEXISTS \<Rightarrow> 2 | E2BIG \<Rightarrow> 3 | EINVAL \<Rightarrow> 4
     | NOT_STORED_STATUS \<Rightarrow> 5 | DELTA_BADVAL \<Rightarrow> 6 | AUTH_ERROR \<Rightarrow> 0x20 | AUTH_CONTINUE \<Rightarrow> 0x21
     | UNKNOWN_COMMAND \<Rightarrow> 0x81 | ENOMEM \<Rightarrow> 0x82)"

definition crlf :: bytes where "crlf = [13, 10]"

text \<open>The reply is started anew: the messages and fragments are dropped.\<close>

definition clear_reply :: "conn \<Rightarrow> conn" where
  "clear_reply c = c\<lparr>msgcurr := 0, msgused := 0, iovused := 0\<rparr>"

definition out_string :: "bytes \<Rightarrow> conn \<Rightarrow> conn option" where
  "out_string text c =
     (if noreply c then conn_set_state conn_new_cmd (c\<lparr>noreply := False\<rparr>)
      else do {
        (_, c1) \<leftarrow> add_msghdr (clear_reply c);
        let t = (if length text + 2 > wsize c1 then ascii ''SERVER_ERROR output line too long'' else text);
        let c2 = c1\<lparr>wbuf := put_bytes 0 (t @ crlf) (wbuf c1), wbytes := length t + 2, wcurr := wbuf_addr c1\<rparr>;
        c3 \<leftarrow> conn_set_state conn_write c2;
        Some (c3\<lparr>write_and_go := conn_new_cmd\<rparr>)
      })"

text \<open>The binary header of a response.  The lists of messages and fragments are empty here and never shorter
  than at the start, so that \<open>add_msghdr\<close> has room; should it fail all the same, the code
  calls \<open>out_of_memory\<close>, which comes back here: that is \<open>None\<close>.\<close>

definition bin_response_header :: "conn \<Rightarrow> u16 \<Rightarrow> u8 \<Rightarrow> u16 \<Rightarrow> u32 \<Rightarrow> bytes" where
  "bin_response_header c err hdr_len key_len body_len =
     [PROTOCOL_BINARY_RES, bh_opcode (header c)] @ be16 key_len @ [hdr_len, 0] @ be16 err @
     be32 body_len @ c_opaque c @ be64 (c_cas c)"

definition add_bin_header :: "u16 \<Rightarrow> u8 \<Rightarrow> u16 \<Rightarrow> u32 \<Rightarrow> conn \<Rightarrow> conn option" where
  "add_bin_header err hdr_len key_len body_len c = do {
     (r, c1) \<leftarrow> add_msghdr (clear_reply c);
     c_assert (r = 0);
     let c2 = c1\<lparr>wbuf := put_bytes 0 (bin_response_header c1 err hdr_len key_len body_len) (wbuf c1)\<rparr>;
     (_, c3) \<leftarrow> add_iov (wbuf_addr c2) (int BIN_HEADER_SIZE) c2;
     Some c3
   }"

definition bin_error_text :: "response_status \<Rightarrow> bytes option" where
  "bin_error_text err = map_option ascii (case err of
       ENOMEM \<Rightarrow> Some ''Out of memory''
     | UNKNOWN_COMMAND \<Rightarrow> Some ''Unknown command''
     | KEY_ENOENT \<Rightarrow> Some ''Not found''
     | EINVAL \<Rightarrow> Some ''Invalid arguments''
     | KEY_EEXISTS \<Rightarrow> Some ''Data exists for key.''
     | E2BIG \<Rightarrow> Some ''Too large.''
     | DELTA_BADVAL \<Rightarrow> Some ''Non-numeric server-side value for incr or decr''
     | NOT_STORED_STATUS \<Rightarrow> Some ''Not stored.''
     | AUTH_ERROR \<Rightarrow> Some ''Auth failure.''
     | _ \<Rightarrow> None)"

definition write_bin_error ::
  "(bytes \<Rightarrow> ptr) \<Rightarrow> response_status \<Rightarrow> bytes option \<Rightarrow> int \<Rightarrow> conn \<Rightarrow> conn option" where
  "write_bin_error lit err errstr swallow c = do {
     text \<leftarrow> (case errstr of None \<Rightarrow> bin_error_text err | Some t \<Rightarrow> Some t);
     c1 \<leftarrow> add_bin_header (status_code err) 0 0 (of_nat (length text)) c;
     (_, c2) \<leftarrow> (if length text > 0 then add_iov (lit text) (int (length text)) c1 else Some (0, c1));
     c3 \<leftarrow> conn_set_state conn_mwrite c2;
     Some (if swallow > 0 then c3\<lparr>sbytes := swallow, write_and_go := conn_swallow\<rparr>
           else c3\<lparr>write_and_go := conn_new_cmd\<rparr>)
   }"

definition CMD_GET :: int where "CMD_GET = 0x00"
definition CMD_GETK :: int where "CMD_GETK = 0x0c"

definition write_bin_response :: "ptr \<Rightarrow> u8 \<Rightarrow> u16 \<Rightarrow> int \<Rightarrow> conn \<Rightarrow> conn option" where
  "write_bin_response d hlen keylen dlen c =
     (if \<not> noreply c \<or> c_cmd c = CMD_GET \<or> c_cmd c = CMD_GETK
      then do {
        c1 \<leftarrow> add_bin_header 0 hlen keylen (of_int dlen) c;
        (_, c2) \<leftarrow> (if dlen > 0 then add_iov d dlen c1 else Some (0, c1));
        c3 \<leftarrow> conn_set_state conn_mwrite c2;
        Some (c3\<lparr>write_and_go := conn_new_cmd\<rparr>)
      }
      else conn_set_state conn_new_cmd c)"

definition out_of_memory :: "(bytes \<Rightarrow> ptr) \<Rightarrow> bytes \<Rightarrow> conn \<Rightarrow> conn option" where
  "out_of_memory lit ascii_error c =
     (if c_protocol c = binary_prot
      then write_bin_error lit ENOMEM
             (Some (if take 13 ascii_error = ascii ''SERVER_ERROR '' then drop 13 ascii_error else ascii_error)) 0 c
      else out_string ascii_error c)"

text \<open>\<open>buf\<close> is the address of the text, or NULL.\<close>

definition write_and_free :: "(bytes \<Rightarrow> ptr) \<Rightarrow> ptr \<Rightarrow> bytes \<Rightarrow> conn \<Rightarrow> conn option" where
  "write_and_free lit buf text c =
     (if buf \<noteq> NULL
      then do {
        let c1 = c\<lparr>write_and_free_buf := buf, wcurr := buf, wbytes := length text, texts := (texts c)(buf := text)\<rparr>;
        c2 \<leftarrow> conn_set_state conn_write c1;
        Some (c2\<lparr>write_and_go := conn_new_cmd\<rparr>)
      }
      else out_of_memory lit (ascii ''SERVER_ERROR out of memory writing stats'') c)"

section \<open>The statistics buffer\<close>

text \<open>Doubling \<open>nsize\<close> until \<open>needed\<close> bytes are available after \<open>offset\<close>.\<close>

fun double_size :: "nat \<Rightarrow> nat \<Rightarrow> nat \<Rightarrow> nat \<Rightarrow> nat" where
  "double_size 0 needed offset nsize = nsize"
| "double_size (Suc n) needed offset nsize =
     (if needed > nsize - offset then double_size n needed offset (2 * nsize) else nsize)"

definition grow_stats_buf :: "nat \<Rightarrow> conn \<Rightarrow> bool \<times> conn" where
  "grow_stats_buf needed c =
     (let (nsize, available, offset, c1) =
            (case stats_buffer c of
               None \<Rightarrow> (1024, 0, 0, c\<lparr>stats_size := 0\<rparr>)
             | Some b \<Rightarrow> (stats_size c, stats_size c - length b, length b, c));
          nsize' = (if needed > available then double_size (needed + offset) needed offset (2 * nsize) else nsize)
      in if nsize' \<noteq> stats_size c1
         then (case realloc_result c1 of (ok, c2) \<Rightarrow>
                 if ok then (True, c2\<lparr>stats_buffer := Some (case stats_buffer c2 of None \<Rightarrow> [] | Some b \<Rightarrow> b),
                                      stats_size := nsize'\<rparr>)
                 else (False, c2))
         else (True, c1))"

definition append_bin_stats :: "bytes \<Rightarrow> bytes \<Rightarrow> conn \<Rightarrow> bytes" where
  "append_bin_stats key val c =
     [PROTOCOL_BINARY_RES, 0x10] @ be16 (of_nat (length key)) @ [0, 0] @ be16 0 @
     be32 (of_nat (length key + length val)) @ c_opaque c @ be64 0 @ key @ (if key = [] then [] else val)"

definition append_ascii_stats :: "bytes \<Rightarrow> bytes \<Rightarrow> bytes" where
  "append_ascii_stats key val =
     (if key = [] \<and> val = [] then ascii ''END'' @ crlf
      else if val = [] then ascii ''STAT '' @ key @ crlf
      else ascii ''STAT '' @ key @ [32] @ val @ crlf)"

definition append_stats :: "bytes \<Rightarrow> bytes \<Rightarrow> conn \<Rightarrow> conn option" where
  "append_stats key val c =
     (if key = [] \<and> val \<noteq> [] then Some c
      else
        let needed = length val + length key + (if c_protocol c = binary_prot then BIN_HEADER_SIZE else 10)
        in case grow_stats_buf needed c of (ok, c1) \<Rightarrow>
             if \<not> ok then Some c1
             else do {
               let b = (case stats_buffer c1 of None \<Rightarrow> [] | Some b \<Rightarrow> b) @
                       (if c_protocol c = binary_prot then append_bin_stats key val c1 else append_ascii_stats key val);
               c_assert (length b \<le> stats_size c1);
               Some (c1\<lparr>stats_buffer := Some b\<rparr>)
             })"

fun append_all :: "(bytes \<times> bytes) list \<Rightarrow> conn \<Rightarrow> conn option" where
  "append_all [] c = Some c"
| "append_all ((key, val) # kvs) c = do { c1 \<leftarrow> append_stats key val c; append_all kvs c1 }"

definition stat_lines :: "(string \<times> bytes) list \<Rightarrow> (bytes \<times> bytes) list" where
  "stat_lines = map (\<lambda>(key, val). (ascii key, take 126 val))"

end
