(* ===== verification/MC_Store.thy ===== *)
theory MC_Store
  imports MC_ItemOps MC_Conn
begin

text \<open>
  Storing and arithmetic (\<open>memcached.c\<close>): \<open>do_store_item\<close>, which decides what \<open>set\<close>, \<open>add\<close>,
  \<open>replace\<close>, \<open>append\<close>, \<open>prepend\<close> and \<open>cas\<close> do with a complete item, \<open>do_add_delta\<close> (\<open>incr\<close> and
  \<open>decr\<close>), and the end of a storage command.  The value of an item is the list \<open>it_data\<close>; bytes
  beyond its end read as 0; copying a value of negative length, or before the start of the value, is
  \<open>None\<close>.
\<close>

section \<open>The value of an item\<close>

definition data_write :: "nat \<Rightarrow> bytes \<Rightarrow> bytes \<Rightarrow> bytes" where
  "data_write off bs d = take off (d @ replicate off 0) @ bs @ drop (off + length bs) d"

definition data_read :: "nat \<Rightarrow> nat \<Rightarrow> bytes \<Rightarrow> bytes" where
  "data_read off n d = take n (drop off (d @ replicate (off + n) 0))"

text \<open>The string that starts at an address, up to its NUL.\<close>

definition c_string :: "bytes \<Rightarrow> bytes" where
  "c_string d = takeWhile (\<lambda>b. b \<noteq> 0) d"

text \<open>\<open>(int) strtol(s, NULL, 10)\<close> and \<open>atoi(s)\<close>.\<close>

definition strtol_int :: "bytes \<Rightarrow> int" where
  "strtol_int s = (case strtoll (c_string s) of (v, _, _) \<Rightarrow> sint (of_int v :: u32))"

definition it_len :: "item \<Rightarrow> int" where
  "it_len i = sint (it_nbytes i)"

section \<open>Statistics of the thread\<close>

definition my_count :: "(thread_stats \<Rightarrow> thread_stats) \<Rightarrow> worker_state \<Rightarrow> worker_state" where
  "my_count f w = w\<lparr>my_stats := f (my_stats w)\<rparr>"

definition my_slab_count :: "u8 \<Rightarrow> (slab_stats \<Rightarrow> slab_stats) \<Rightarrow> worker_state \<Rightarrow> worker_state" where
  "my_slab_count c f =
     my_count (\<lambda>t. t\<lparr>slab_stats_of := (slab_stats_of t)(unat c := f (slab_stats_of t (unat c)))\<rparr>)"

section \<open>Times\<close>

definition REALTIME_MAXDELTA :: int where "REALTIME_MAXDELTA = 60 * 60 * 24 * 30"

definition realtime :: "int \<Rightarrow> worker_state \<Rightarrow> u32" where
  "realtime exptime w =
     (if exptime = 0 then 0
      else if exptime > REALTIME_MAXDELTA
      then if exptime \<le> process_started w then 1 else of_int (exptime - process_started w)
      else of_int (exptime + int (unat (current_time w))))"

section \<open>Storing\<close>

datatype store_item_type = NOT_STORED | STORED | EXISTS | NOT_FOUND

text \<open>The end of \<open>do_store_item\<close>: the references to the old and to the combined item are released.\<close>

definition store_finish ::
  "store_item_type \<Rightarrow> ptr \<Rightarrow> ptr \<Rightarrow> ptr \<Rightarrow> conn \<Rightarrow> worker_state \<Rightarrow>
   (store_item_type \<times> conn \<times> worker_state) option" where
  "store_finish stored it old_it new_it c w = do {
     w1 \<leftarrow> (if old_it \<noteq> NULL then do_item_remove old_it w else Some w);
     w2 \<leftarrow> (if new_it \<noteq> NULL then do_item_remove new_it w1 else Some w1);
     Some (stored, if stored = STORED then c\<lparr>c_cas := ITEM_get_cas (heap w2 it)\<rparr> else c, w2)
   }"

text \<open>Linking the new item, in the place of the old one when there is one.\<close>

definition store_link ::
  "ptr \<Rightarrow> ptr \<Rightarrow> ptr \<Rightarrow> u32 \<Rightarrow> conn \<Rightarrow> worker_state \<Rightarrow> (store_item_type \<times> conn \<times> worker_state) option" where
  "store_link it old_it new_it hv c w = do {
     w1 \<leftarrow> (if old_it \<noteq> NULL then item_replace old_it it hv w else do_item_link it hv w);
     store_finish STORED it old_it new_it (c\<lparr>c_cas := ITEM_get_cas (heap w1 it)\<rparr>) w1
   }"

text \<open>The combined item of \<open>append\<close> and \<open>prepend\<close> gets the flags and the expiry time of the old item,
  and both values without the line end between them.\<close>

definition combine_values :: "int \<Rightarrow> item \<Rightarrow> item \<Rightarrow> bytes \<Rightarrow> bytes" where
  "combine_values comm old i d =
     (let rd = (\<lambda>j. data_read 0 (nat (it_len j)) (it_data j))
      in if comm = NREAD_APPEND
         then data_write (nat (it_len old - 2)) (rd i) (data_write 0 (rd old) d)
         else data_write (nat (it_len i - 2)) (rd old) (data_write 0 (rd i) d))"

definition store_combined ::
  "alloc_env \<Rightarrow> ptr \<Rightarrow> ptr \<Rightarrow> int \<Rightarrow> u32 \<Rightarrow> conn \<Rightarrow> worker_state \<Rightarrow>
   (store_item_type \<times> conn \<times> worker_state) option" where
  "store_combined env it old_it comm hv c w = do {
     let i = heap w it;
     let old = heap w old_it;
     (new_it, w1) \<leftarrow> do_item_alloc env (it_key i) (unat (it_nkey i)) (strtol_int (it_suffix old))
                       (it_exptime old) (it_len i + it_len old - 2) hv w;
     if new_it = NULL
     then do {
       w2 \<leftarrow> (if old_it \<noteq> NULL then do_item_remove old_it w1 else Some w1);
       Some (NOT_STORED, c, w2)
     }
     else do {
       c_assert (2 \<le> it_len (heap w1 it) \<and> 2 \<le> it_len (heap w1 old_it));
       let w2 = upd_item new_it (\<lambda>j. j\<lparr>it_data := combine_values comm (heap w1 old_it) (heap w1 it) (it_data j)\<rparr>) w1;
       store_link new_it old_it new_it hv c w2
     }
   }"

definition do_store_item ::
  "alloc_env \<Rightarrow> ptr \<Rightarrow> int \<Rightarrow> conn \<Rightarrow> u32 \<Rightarrow> worker_state \<Rightarrow>
   (store_item_type \<times> conn \<times> worker_state) option" where
  "do_store_item env it comm c hv w = do {
     (old_it, w1) \<leftarrow> do_item_get (it_key (heap w it)) (unat (it_nkey (heap w it))) hv w;
     let cas = ITEM_get_cas (heap w1 it);
     let old_cas = ITEM_get_cas (heap w1 old_it);
     let old_class = it_slabs_clsid (heap w1 old_it);
     if old_it \<noteq> NULL \<and> comm = NREAD_ADD
     then do {
       w2 \<leftarrow> do_item_update old_it w1;
       store_finish NOT_STORED it old_it NULL c w2
     }
     else if old_it = NULL \<and> (comm = NREAD_REPLACE \<or> comm = NREAD_APPEND \<or> comm = NREAD_PREPEND)
     then store_finish NOT_STORED it old_it NULL c w1
     else if comm = NREAD_CAS
     then
       if old_it = NULL
       then store_finish NOT_FOUND it old_it NULL c (my_count (\<lambda>t. t\<lparr>cas_misses := cas_misses t + 1\<rparr>) w1)
       else if cas = old_cas
       then do {
         let w2 = my_slab_count old_class (\<lambda>t. t\<lparr>cas_hits := cas_hits t + 1\<rparr>) w1;
         w3 \<leftarrow> item_replace old_it it hv w2;
         store_finish STORED it old_it NULL c w3
       }
       else store_finish EXISTS it old_it NULL c
              (my_slab_count old_class (\<lambda>t. t\<lparr>cas_badval := cas_badval t + 1\<rparr>) w1)
     else if comm = NREAD_APPEND \<or> comm = NREAD_PREPEND
     then
       if cas \<noteq> 0 \<and> cas \<noteq> old_cas then store_finish EXISTS it old_it NULL c w1
       else store_combined env it old_it comm hv c w1
     else store_link it old_it NULL hv c w1
   }"

definition store_item ::
  "alloc_env \<Rightarrow> ptr \<Rightarrow> int \<Rightarrow> conn \<Rightarrow> worker_state \<Rightarrow> (store_item_type \<times> conn \<times> worker_state) option" where
  "store_item env it comm c w = do {
     let hv = hash_fn w (item_key (heap w it));
     w1 \<leftarrow> item_lock hv w;
     (ret, c1, w2) \<leftarrow> do_store_item env it comm c hv w1;
     Some (ret, c1, item_unlock hv w2)
   }"

text \<open>The end of a storage command of the text protocol.\<close>

definition store_reply :: "store_item_type \<Rightarrow> bytes" where
  "store_reply ret = ascii (case ret of
       STORED \<Rightarrow> ''STORED'' | EXISTS \<Rightarrow> ''EXISTS'' | NOT_FOUND \<Rightarrow> ''NOT_FOUND'' | NOT_STORED \<Rightarrow> ''NOT_STORED'')"

definition complete_nread_ascii ::
  "alloc_env \<Rightarrow> conn \<Rightarrow> worker_state \<Rightarrow> (conn \<times> worker_state) option" where
  "complete_nread_ascii env c w = do {
     let it = c_item c;
     let w1 = my_slab_count (it_slabs_clsid (heap w it)) (\<lambda>t. t\<lparr>set_cmds := set_cmds t + 1\<rparr>) w;
     c_assert (2 \<le> it_len (heap w1 it));
     (c2, w2) \<leftarrow> (if data_read (nat (it_len (heap w1 it) - 2)) 2 (it_data (heap w1 it)) \<noteq> crlf
       then do {
         c1 \<leftarrow> out_string (ascii ''CLIENT_ERROR bad data chunk'') c;
         Some (c1, w1)
       }
       else do {
         (ret, c1, w2) \<leftarrow> store_item env it (c_cmd c) c w1;
         c2 \<leftarrow> out_string (store_reply ret) c1;
         Some (c2, w2)
       });
     w3 \<leftarrow> item_remove (c_item c2) w2;
     Some (c2\<lparr>c_item := NULL\<rparr>, w3)
   }"

section \<open>Arithmetic\<close>

datatype delta_result_type = OK | NON_NUMERIC | EOM | DELTA_ITEM_NOT_FOUND | DELTA_ITEM_CAS_MISMATCH

text \<open>\<open>delta\<close> is compared with \<open>value\<close> as an unsigned number.\<close>

definition delta_value :: "bool \<Rightarrow> u64 \<Rightarrow> u64 \<Rightarrow> u64" where
  "delta_value incr delta v = (if incr then v + delta else if delta > v then 0 else v - delta)"

text \<open>The new value is written over the old one, or into a new item.\<close>

definition delta_in_place :: "ptr \<Rightarrow> bytes \<Rightarrow> worker_state \<Rightarrow> worker_state option" where
  "delta_in_place it buf w = do {
     w1 \<leftarrow> cache_lock_acquire w;
     let (cas, w2) = (if use_cas (settings w1) then get_cas_id w1 else (0, w1));
     let w3 = cache_lock_release (upd_item it (ITEM_set_cas cas) w2);
     let w4 = upd_item it (\<lambda>i. i\<lparr>it_data := data_write (length buf)
                 (replicate (nat (it_len i) - length buf - 2) 32) (data_write 0 buf (it_data i))\<rparr>) w3;
     do_item_update it w4
   }"

definition delta_new_item :: "alloc_env \<Rightarrow> ptr \<Rightarrow> bytes \<Rightarrow> u32 \<Rightarrow> worker_state \<Rightarrow> (bool \<times> worker_state) option" where
  "delta_new_item env it buf hv w = do {
     let i = heap w it;
     (new_it, w1) \<leftarrow> do_item_alloc env (it_key i) (unat (it_nkey i)) (strtol_int (drop 1 (it_suffix i)))
                       (it_exptime i) (int (length buf) + 2) hv w;
     if new_it = NULL then do { w2 \<leftarrow> do_item_remove it w1; Some (False, w2) }
     else do {
       let w2 = upd_item new_it (\<lambda>j. j\<lparr>it_data := data_write (length buf) crlf (data_write 0 buf (it_data j))\<rparr>) w1;
       w3 \<leftarrow> item_replace it new_it hv w2;
       let w4 = upd_item it (ITEM_set_cas (if use_cas (settings w3) then ITEM_get_cas (heap w3 new_it) else 0)) w3;
       w5 \<leftarrow> do_item_remove new_it w4;
       Some (True, w5)
     }
   }"

text \<open>\<open>cas\<close> is what the pointer of the same name points to, \<open>None\<close> for NULL.\<close>

definition do_add_delta ::
  "alloc_env \<Rightarrow> bytes \<Rightarrow> nat \<Rightarrow> bool \<Rightarrow> u64 \<Rightarrow> u64 option \<Rightarrow> u32 \<Rightarrow> worker_state \<Rightarrow>
   (delta_result_type \<times> bytes \<times> u64 option \<times> worker_state) option" where
  "do_add_delta env key nkey incr delta cas hv w = do {
     (it, w1) \<leftarrow> do_item_get key nkey hv w;
     if it = NULL then Some (DELTA_ITEM_NOT_FOUND, [], cas, w1)
     else if cas \<noteq> None \<and> cas \<noteq> Some 0 \<and> Some (ITEM_get_cas (heap w1 it)) \<noteq> cas
     then do { w2 \<leftarrow> do_item_remove it w1; Some (DELTA_ITEM_CAS_MISMATCH, [], cas, w2) }
     else (case safe_strtoull (c_string (it_data (heap w1 it))) of (ok, v) \<Rightarrow>
       if \<not> ok then do { w2 \<leftarrow> do_item_remove it w1; Some (NON_NUMERIC, [], cas, w2) }
       else do {
         let w2 = my_slab_count (it_slabs_clsid (heap w1 it))
                    (if incr then (\<lambda>t. t\<lparr>incr_hits := incr_hits t + 1\<rparr>) else (\<lambda>t. t\<lparr>decr_hits := decr_hits t + 1\<rparr>)) w1;
         let buf = show_nat (unat (delta_value incr delta v));
         let fin = (\<lambda>w3. do {
               let cas' = map_option (\<lambda>_. ITEM_get_cas (heap w3 it)) cas;
               w4 \<leftarrow> do_item_remove it w3;
               Some (OK, buf, cas', w4)
             });
         if int (length buf) + 2 \<le> it_len (heap w2 it) \<and> it_refcount (heap w2 it) = 2
         then do { w3 \<leftarrow> delta_in_place it buf w2; fin w3 }
         else if it_refcount (heap w2 it) > 1
         then do {
           (ok, w3) \<leftarrow> delta_new_item env it buf hv w2;
           if ok then fin w3 else Some (EOM, buf, cas, w3)
         }
         else do {
           w3 \<leftarrow> (if it_refcount (heap w2 it) = 1 then do_item_remove it w2 else Some w2);
           Some (DELTA_ITEM_NOT_FOUND, buf, cas, w3)
         }
       })
   }"

definition add_delta ::
  "alloc_env \<Rightarrow> bytes \<Rightarrow> nat \<Rightarrow> bool \<Rightarrow> u64 \<Rightarrow> u64 option \<Rightarrow> worker_state \<Rightarrow>
   (delta_result_type \<times> bytes \<times> u64 option \<times> worker_state) option" where
  "add_delta env key nkey incr delta cas w = do {
     let hv = hash_fn w (take nkey key);
     w1 \<leftarrow> item_lock hv w;
     (ret, buf, cas', w2) \<leftarrow> do_add_delta env key nkey incr delta cas hv w1;
     Some (ret, buf, cas', item_unlock hv w2)
   }"

section \<open>What is stored under a key\<close>

text \<open>The value with its line end, the flags and the expiry time of an item.\<close>

type_synonym entry = "bytes \<times> int \<times> u32"

definition entry_of :: "item \<Rightarrow> entry" where
  "entry_of i = (data_read 0 (nat (it_len i)) (it_data i), strtol_int (it_suffix i), it_exptime i)"

text \<open>What the storage commands mean: the answer and the new entry, from the entry \<open>e\<close> that is to be
  stored, the \<open>cas\<close> value of the request and the entry the key has now with its \<open>cas\<close> value.\<close>

definition store_spec ::
  "int \<Rightarrow> u64 \<Rightarrow> entry \<Rightarrow> (entry \<times> u64) option \<Rightarrow> store_item_type \<times> entry option" where
  "store_spec comm cas e old = (case old of
       None \<Rightarrow> if comm = NREAD_REPLACE \<or> comm = NREAD_APPEND \<or> comm = NREAD_PREPEND then (NOT_STORED, None)
               else if comm = NREAD_CAS then (NOT_FOUND, None)
               else (STORED, Some e)
     | Some (o', old_cas) \<Rightarrow>
         if comm = NREAD_ADD then (NOT_STORED, Some o')
         else if comm = NREAD_CAS then (if cas = old_cas then (STORED, Some e) else (EXISTS, Some o'))
         else if comm = NREAD_APPEND \<or> comm = NREAD_PREPEND
         then if cas \<noteq> 0 \<and> cas \<noteq> old_cas then (EXISTS, Some o')
              else (STORED, Some (if comm = NREAD_APPEND then take (length (fst o') - 2) (fst o') @ fst e
                                  else take (length (fst e) - 2) (fst e) @ fst o', snd o'))
         else (STORED, Some e))"

definition entry_at :: "'a mc_base_scheme \<Rightarrow> (bytes \<rightharpoonup> ptr) \<Rightarrow> bytes \<rightharpoonup> entry" where
  "entry_at w M k = map_option (\<lambda>p. entry_of (heap w p)) (M k)"

lemma entry_of_kept: "kept i j \<Longrightarrow> entry_of j = entry_of i"
  by (simp add: entry_of_def it_len_def keptD)

lemma entry_of_contents: "same_contents i j \<Longrightarrow> entry_of j = entry_of i"
  by (rule entry_of_kept [OF kept_contents])

lemma cas_contents: "same_contents i j \<Longrightarrow> ITEM_get_cas j = ITEM_get_cas i"
  by (simp add: ITEM_get_cas_def same_contentsD)

lemma link_entry: "do_item_link p hv s = Some s' \<Longrightarrow> entry_of (heap s' p) = entry_of (heap s p)"
  by (simp add: entry_of_def it_len_def link_self)

section \<open>Bookkeeping\<close>

lemma my_count_simps [simp]:
  "heap (my_count f w) = heap w" "settings (my_count f w) = settings w" "hash_fn (my_count f w) = hash_fn w"
  "cache_lock (my_count f w) = cache_lock w" "slabs_lock (my_count f w) = slabs_lock w"
  "current_time (my_count f w) = current_time w" "classes (my_count f w) = classes w"
  by (simp_all add: my_count_def classes_def)

lemma cache_inv_my_count [simp]: "cache_inv (my_count f w) M L F = cache_inv w M L F"
  by (rule cache_inv_cong) (simp_all add: my_count_def)

lemma my_slab_count_simps [simp]:
  "heap (my_slab_count c f w) = heap w" "settings (my_slab_count c f w) = settings w"
  "hash_fn (my_slab_count c f w) = hash_fn w" "cache_lock (my_slab_count c f w) = cache_lock w"
  "slabs_lock (my_slab_count c f w) = slabs_lock w" "current_time (my_slab_count c f w) = current_time w"
  "classes (my_slab_count c f w) = classes w" "cache_inv (my_slab_count c f w) M L F = cache_inv w M L F"
  by (simp_all add: my_slab_count_def)

lemma linkable_counts [simp]:
  "linkable (my_count f w) L F p = linkable w L F p" "linkable (my_slab_count c g w) L F p = linkable w L F p"
  by (simp_all add: linkable_def)

lemma droppable_counts [simp]:
  "droppable (my_count f w) L F p = droppable w L F p" "droppable (my_slab_count c g w) L F p = droppable w L F p"
  by (simp_all add: droppable_def outside_def)

section \<open>The steps of storing\<close>

lemma do_item_update_kept:
  assumes "do_item_update p s = Some s'"
  shows "kept (heap s q) (heap s' q)"
proof (cases "it_time (heap s p) < current_time s - ITEM_UPDATE_INTERVAL")
  case True
  with assms obtain s2 where s2: "item_bump p (s\<lparr>cache_lock := True\<rparr>) = Some s2" "s' = cache_lock_release s2"
    by (auto simp: do_item_update_def lock_simps split: Option.bind_splits if_splits)
  from item_bump_kept(1) [OF s2(1), of q] s2(2) show ?thesis by (simp add: cache_lock_release_def)
next
  case False
  with assms show ?thesis by (simp add: do_item_update_def)
qed

lemma store_finish_no_old:
  "store_finish ret it NULL NULL c w = Some (ret, if ret = STORED then c\<lparr>c_cas := ITEM_get_cas (heap w it)\<rparr> else c, w)"
  by (simp add: store_finish_def)

lemma store_finish_old:
  assumes i: "cache_inv w M L F" and d: "droppable w L F p" and p: "p \<noteq> NULL"
  shows "\<exists>w'. store_finish ret it p NULL c w =
       Some (ret, if ret = STORED then c\<lparr>c_cas := ITEM_get_cas (heap w' it)\<rparr> else c, w') \<and>
     cache_inv w' M L (after_unref (heap w p) p F) \<and> env_same w w' \<and>
     (\<forall>q. q \<noteq> p \<longrightarrow> same_contents (heap w q) (heap w' q)) \<and>
     (it_refcount (heap w p) \<noteq> 1 \<longrightarrow> heap w' p = (heap w p)\<lparr>it_refcount := it_refcount (heap w p) - 1\<rparr>)"
  using drop_ref [OF i d] p by (auto simp: store_finish_def)

text \<open>The new item is linked, in the place of the old one when the key has one.\<close>

lemma store_link_result:
  assumes i: "cache_inv w M L F" and q: "linkable w L F q" "item_key (heap w q) = k" "it_refcount (heap w q) = 1"
    and hv: "hv = hash_fn w k" and nl: "\<not> cache_lock w"
    and old: "old = NULL \<and> M k = None \<or> M k = Some old \<and> 1 < it_refcount (heap w old) \<and> \<not> slabs_lock w \<and>
       Suc (length (F (unat (it_slabs_clsid (heap w old))))) < 2 ^ 32"
    and new: "new = NULL \<or> new = q"
  shows "\<exists>w' L' F'. store_link q old new hv c w = Some (STORED, c\<lparr>c_cas := ITEM_get_cas (heap w' q)\<rparr>, w') \<and>
     cache_inv w' (M(k \<mapsto> q)) L' F' \<and> (\<forall>r. r \<noteq> q \<longrightarrow> M k \<noteq> Some r \<longrightarrow> same_contents (heap w r) (heap w' r)) \<and>
     entry_of (heap w' q) = entry_of (heap w q) \<and> it_refcount (heap w' q) = (if new = NULL then 2 else 1) \<and>
     env_same w w' \<and> (\<forall>d. set (L' d) \<subseteq> insert q (set (L d))) \<and>
     (\<forall>r d. r \<in> set (F' d) \<longrightarrow> r \<in> set (F d) \<or> M k = Some r)"
proof -
  have q0: "q \<noteq> NULL" "\<not> is_slabbed (heap w q)" using q(1) by (simp_all add: linkable_def)
  have rc: "it_refcount (heap w q) + 1 \<noteq> 0" using q(3) by simp
  have fin: "\<exists>w'. (if new \<noteq> NULL then do_item_remove new w1 else Some w1) = Some w' \<and> cache_inv w' (M(k \<mapsto> q)) L1 F1 \<and>
      env_same w1 w' \<and> (\<forall>r. r \<noteq> q \<longrightarrow> same_contents (heap w1 r) (heap w' r)) \<and>
      entry_of (heap w' q) = entry_of (heap w1 q) \<and> it_refcount (heap w' q) = (if new = NULL then 2 else 1)"
    if w1: "cache_inv w1 (M(k \<mapsto> q)) L1 F1" "it_refcount (heap w1 q) = 2" "\<not> is_slabbed (heap w1 q)" for w1 :: worker_state and L1 F1
  proof (cases "new = NULL")
    case True
    then show ?thesis using w1 by simp
  next
    case False
    then have nq: "new = q" using new by simp
    from drop_ref [OF w1(1), of q] w1(2,3) obtain w' where w': "do_item_remove q w1 = Some w'"
      "cache_inv w' (M(k \<mapsto> q)) L1 F1" "env_same w1 w'" "\<forall>r. r \<noteq> q \<longrightarrow> same_contents (heap w1 r) (heap w' r)"
      "heap w' q = (heap w1 q)\<lparr>it_refcount := 1\<rparr>" by (auto simp: droppable_def after_unref_def)
    then show ?thesis using False nq by (simp add: entry_of_def it_len_def)
  qed
  from old show ?thesis
  proof (elim disjE conjE)
    assume o: "old = NULL" "M k = None"
    from do_item_link_inv [OF i q(1) q(2) [symmetric] o(2) hv nl rc] obtain w1 L1 where
      w1: "do_item_link q hv w = Some w1" "cache_inv w1 (M(k \<mapsto> q)) L1 F" "env_same w w1"
        "L1 = L(unat (it_slabs_clsid (heap w q)) := q # L (unat (it_slabs_clsid (heap w q))))" by blast
    have L1: "\<forall>d. set (L1 d) \<subseteq> insert q (set (L d))" by (auto simp: w1(4))
    note S = link_self [OF w1(1)]
    from fin [OF w1(2)] S(8,9) q(3) q0 obtain w' where
      w': "(if new \<noteq> NULL then do_item_remove new w1 else Some w1) = Some w'" "cache_inv w' (M(k \<mapsto> q)) L1 F"
      "env_same w1 w'" "\<forall>r. r \<noteq> q \<longrightarrow> same_contents (heap w1 r) (heap w' r)"
      "entry_of (heap w' q) = entry_of (heap w1 q)" "it_refcount (heap w' q) = (if new = NULL then 2 else 1)" by auto
    have "store_link q old new hv c w = Some (STORED, c\<lparr>c_cas := ITEM_get_cas (heap w' q)\<rparr>, w')"
      using o w1(1) w'(1) by (simp add: store_link_def store_finish_def)
    moreover have "\<forall>r. r \<noteq> q \<longrightarrow> same_contents (heap w r) (heap w' r)"
      using w'(4) link_contents(1) [OF w1(1)] same_contents_trans by blast
    moreover have "env_same w w'" using w1(3) w'(3) env_same_trans by blast
    moreover have "entry_of (heap w' q) = entry_of (heap w q)" using w'(5) link_entry [OF w1(1)] by simp
    ultimately show ?thesis using w'(2,6) L1 by blast
  next
    assume o: "M k = Some old" "1 < it_refcount (heap w old)" "\<not> slabs_lock w"
      "Suc (length (F (unat (it_slabs_clsid (heap w old))))) < 2 ^ 32"
    note P = cached_item [OF i o(1)]
    have ne: "it_refcount (heap w old) \<noteq> 1" "it_refcount (heap w old) - 1 \<noteq> 0" using o(2) by auto
    have qo: "q \<noteq> old" using cached_not_linkable [OF i q(1), of k] o(1) by blast
    from replace_held [OF i o(1) hv q(1,2) rc nl ne(1)] obtain s1 w1 L1 where
      w1: "do_item_replace old q hv w = Some w1" "cache_inv w1 (M(k \<mapsto> q)) L1 F" "env_same w w1"
        "do_item_link q hv s1 = Some w1" "same_contents (heap w q) (heap s1 q)"
        "\<forall>r. r \<noteq> old \<longrightarrow> r \<noteq> q \<longrightarrow> same_contents (heap w r) (heap w1 r)" "outside w1 L1 F old"
        "\<not> is_linked (heap w1 old)" "\<not> is_slabbed (heap w1 old)" "it_refcount (heap w1 old) = it_refcount (heap w old) - 1"
        "it_slabs_clsid (heap w1 old) = it_slabs_clsid (heap w old)" "\<forall>d. set (L1 d) \<subseteq> insert q (set (L d))" by blast
    note S = link_self [OF w1(4)]
    have cl: "classes w1 = classes w" "slabs_lock w1 = slabs_lock w" using w1(3) by (auto simp: env_same_def classes_def)
    have "droppable w1 L1 F old"
      using w1(7-11) o(3,4) P(2,3) ne(2) by (simp add: droppable_def cl word_gt_0)
    from drop_ref [OF w1(2) this] obtain w2 F2 where w2: "do_item_remove old w1 = Some w2"
      "cache_inv w2 (M(k \<mapsto> q)) L1 F2" "env_same w1 w2" "\<forall>r. r \<noteq> old \<longrightarrow> same_contents (heap w1 r) (heap w2 r)"
      "F2 = after_unref (heap w1 old) old F" by blast
    have F2: "\<forall>r d. r \<in> set (F2 d) \<longrightarrow> r \<in> set (F d) \<or> M k = Some r" using o(1) by (simp add: w2(5) after_unref_def)
    have C2: "same_contents (heap w1 q) (heap w2 q)" using w2(4) qo by blast
    have "it_refcount (heap w2 q) = 2" "\<not> is_slabbed (heap w2 q)"
      using S(8,9) q(3) q0 same_contentsD [OF C2] same_contents_facts [OF C2] same_contentsD [OF w1(5)]
        same_contents_facts [OF w1(5)] by simp_all
    from fin [OF w2(2) this] obtain w' where
      w': "(if new \<noteq> NULL then do_item_remove new w2 else Some w2) = Some w'" "cache_inv w' (M(k \<mapsto> q)) L1 F2"
      "env_same w2 w'" "\<forall>r. r \<noteq> q \<longrightarrow> same_contents (heap w2 r) (heap w' r)"
      "entry_of (heap w' q) = entry_of (heap w2 q)" "it_refcount (heap w' q) = (if new = NULL then 2 else 1)" by blast
    have "store_link q old new hv c w = Some (STORED, c\<lparr>c_cas := ITEM_get_cas (heap w' q)\<rparr>, w')"
      using o P(6) w1(1) w2(1) w'(1) by (simp add: store_link_def store_finish_def item_replace_def)
    moreover have "same_contents (heap w r) (heap w' r)" if "r \<noteq> q" "M k \<noteq> Some r" for r
    proof -
      have r: "r \<noteq> old" using that(2) o(1) by auto
      have "same_contents (heap w r) (heap w1 r)" "same_contents (heap w1 r) (heap w2 r)" "same_contents (heap w2 r) (heap w' r)"
        using w1(6) w2(4) w'(4) that(1) r by blast+
      then show ?thesis by (blast intro: same_contents_trans)
    qed
    moreover have "entry_of (heap w' q) = entry_of (heap w q)"
      using w'(5) entry_of_contents [OF C2] link_entry [OF w1(4)] entry_of_contents [OF w1(5)] by simp
    moreover have "env_same w w'" using w1(3) w2(3) w'(3) env_same_trans by blast
    ultimately show ?thesis using w'(2,6) w1(12) F2 by blast
  qed
qed

end
