(* ===== verification/MC_Command.thy ===== *)
theory MC_Command
  imports MC_Store
begin

text \<open>
  The text protocol (\<open>memcached.c\<close>): the tokenizer, and the commands that look up, store, touch, change
  and delete items.  A command gets its tokens and returns the connection and the state of the worker.
  The outcomes of the system calls a command makes are in \<open>cmd_env\<close>.
\<close>

section \<open>Tokens\<close>

text \<open>A token is the string at its address, as later readers see it, and the length; the terminal token has
  length 0 and the rest of the command, or NULL.\<close>

record token =
  tok_value :: "bytes option"
  tok_length :: nat

definition COMMAND_TOKEN :: nat where "COMMAND_TOKEN = 0"
definition SUBCOMMAND_TOKEN :: nat where "SUBCOMMAND_TOKEN = 1"
definition KEY_TOKEN :: nat where "KEY_TOKEN = 1"
definition MAX_TOKENS :: nat where "MAX_TOKENS = 8"

definition token_at :: "bytes \<Rightarrow> nat \<Rightarrow> nat \<Rightarrow> token" where
  "token_at cmd s e = \<lparr>tok_value = Some (take (e - s) (drop s cmd)), tok_length = e - s\<rparr>"

text \<open>The loop over the characters; \<open>s\<close> and \<open>e\<close> are the offsets of the pointers of these names.\<close>

fun tokenize_loop :: "nat \<Rightarrow> bytes \<Rightarrow> nat \<Rightarrow> nat \<Rightarrow> nat \<Rightarrow> token list \<Rightarrow> nat \<times> nat \<times> token list" where
  "tokenize_loop max_tokens cmd 0 s e toks = (s, e, toks)"
| "tokenize_loop max_tokens cmd (Suc n) s e toks =
     (if cmd ! e = 32
      then if s \<noteq> e
           then let toks' = toks @ [token_at cmd s e]
                in if length toks' = max_tokens - 1 then (e + 1, e + 1, toks')
                   else tokenize_loop max_tokens cmd n (e + 1) (e + 1) toks'
           else tokenize_loop max_tokens cmd n (e + 1) (e + 1) toks
      else tokenize_loop max_tokens cmd n s (e + 1) toks)"

definition tokenize_command :: "bytes \<Rightarrow> nat \<Rightarrow> token list" where
  "tokenize_command cmd max_tokens =
     (case tokenize_loop max_tokens cmd (length cmd) 0 0 [] of (s, e, toks) \<Rightarrow>
        (if s \<noteq> e then toks @ [token_at cmd s e] else toks) @
        [\<lparr>tok_value = (if e = length cmd then None else Some (drop e cmd)), tok_length = 0\<rparr>])"

text \<open>\<open>strcmp(tokens[i].value, text) == 0\<close>.\<close>

definition tok_is :: "token list \<Rightarrow> nat \<Rightarrow> string \<Rightarrow> bool" where
  "tok_is toks i text = (tok_value (toks ! i) = Some (ascii text))"

definition tok_text :: "token list \<Rightarrow> nat \<Rightarrow> bytes" where
  "tok_text toks i = the (tok_value (toks ! i))"

definition set_noreply_maybe :: "token list \<Rightarrow> conn \<Rightarrow> bool \<times> conn" where
  "set_noreply_maybe toks c =
     (let c1 = (if tok_is toks (length toks - 2) ''noreply'' then c\<lparr>noreply := True\<rparr> else c)
      in (noreply c1, c1))"

section \<open>Calls of the system\<close>

text \<open>What the SASL library answers: \<open>SASL_OK\<close>, \<open>SASL_CONTINUE\<close> with the next challenge (its address and
  length), or another code.\<close>

datatype sasl_reply = Sasl_ok | Sasl_continue ptr nat | Sasl_error

record cmd_env =
  ce_alloc :: alloc_env
  ce_suffix :: "nat \<Rightarrow> ptr"
  ce_prefix :: "int \<Rightarrow> ptr \<times> bool"
  ce_udp_mem :: ptr
  ce_dump :: ptr
  ce_thread_ok :: bool
  ce_tocrawl :: "nat \<Rightarrow> u8"
  ce_max_fds :: nat
  ce_conns :: "nat \<Rightarrow> conn option"
  ce_conn_name :: "conn \<Rightarrow> bytes"
  ce_pid :: nat
  ce_version :: bytes
  ce_event_version :: bytes
  ce_rusage :: "(nat \<times> nat) \<times> (nat \<times> nat)"
  ce_sasl_new :: bool
  ce_sasl_mechs :: "(ptr \<times> nat) option"
  ce_sasl_auth :: "bool \<Rightarrow> bytes \<Rightarrow> bytes option \<Rightarrow> sasl_reply"

text \<open>The statistics of the key's prefix; \<open>f\<close> is one of the \<open>stats_prefix_record\<close> functions.\<close>

definition count_prefix ::
  "(ptr \<Rightarrow> bool \<Rightarrow> (bytes \<Rightarrow> u32) \<Rightarrow> prefix_state \<Rightarrow> prefix_state option) \<Rightarrow>
   cmd_env \<Rightarrow> worker_state \<Rightarrow> worker_state option" where
  "count_prefix f ce w =
     (if detail_enabled (settings w)
      then (case ce_prefix ce (num_prefixes (prefixes w)) of (mem, str_ok) \<Rightarrow>
              map_option (\<lambda>p. w\<lparr>prefixes := p\<rparr>) (f mem str_ok (hash_fn w) (prefixes w)))
      else Some w)"

definition fail_malloc :: "worker_state \<Rightarrow> worker_state" where
  "fail_malloc w = count_stats (\<lambda>st. st\<lparr>malloc_fails := malloc_fails st + 1\<rparr>) w"

section \<open>\<open>get\<close> and \<open>gets\<close>\<close>

text \<open>Addresses inside an item.\<close>

definition key_addr :: "worker_state \<Rightarrow> ptr \<Rightarrow> ptr" where
  "key_addr w it = it + unat (sizeof_item + ITEM_key_off (heap w it))"

definition suffix_addr :: "worker_state \<Rightarrow> ptr \<Rightarrow> ptr" where
  "suffix_addr w it = it + unat (sizeof_item + ITEM_suffix_off (heap w it))"

definition data_addr :: "worker_state \<Rightarrow> ptr \<Rightarrow> ptr" where
  "data_addr w it = it + unat (sizeof_item + ITEM_data_off (heap w it))"

text \<open>Fragments are added one after the other until one fails.\<close>

fun add_iovs :: "(ptr \<times> int) list \<Rightarrow> conn \<Rightarrow> (bool \<times> conn) option" where
  "add_iovs [] c = Some (True, c)"
| "add_iovs ((buf, len) # fs) c = do {
     (r, c1) \<leftarrow> add_iov buf len c;
     if r \<noteq> 0 then Some (False, c1) else add_iovs fs c1
   }"

text \<open>The references to the items found so far are released, the last one first.\<close>

fun remove_found :: "nat \<Rightarrow> conn \<Rightarrow> worker_state \<Rightarrow> worker_state option" where
  "remove_found 0 c w = Some w"
| "remove_found (Suc i) c w = do { w1 \<leftarrow> item_remove (ilist c i) w; remove_found i c w1 }"

text \<open>The outcome for one key: the next key, \<open>break\<close> out of the loop over the tokens, or \<open>return\<close>.\<close>

datatype key_result = Key_next nat conn worker_state | Key_break conn worker_state | Key_return conn worker_state

definition key_break :: "ptr \<Rightarrow> conn \<Rightarrow> worker_state \<Rightarrow> key_result option" where
  "key_break it c w = map_option (Key_break c) (item_remove it w)"

definition get_hit :: "cmd_env \<Rightarrow> bool \<Rightarrow> ptr \<Rightarrow> nat \<Rightarrow> conn \<Rightarrow> worker_state \<Rightarrow> key_result option" where
  "get_hit ce return_cas it i c w = (
     case (if i \<ge> isize c
           then (case realloc_result c of (ok, c1) \<Rightarrow> (ok, if ok then c1\<lparr>isize := isize c1 * 2\<rparr> else c1))
           else (True, c)) of (ok, c1) \<Rightarrow>
     if \<not> ok then key_break it c1 w
     else
       let hit = (\<lambda>c3 w3. do {
             w4 \<leftarrow> item_update it (my_slab_count (it_slabs_clsid (heap w3 it))
                                   (\<lambda>t. t\<lparr>get_hits := get_hits t + 1\<rparr>)
                                   (my_count (\<lambda>t. t\<lparr>get_cmds := get_cmds t + 1\<rparr>) w3));
             Some (Key_next (i + 1) (c3\<lparr>ilist := (ilist c3)(i := it)\<rparr>) w4)
           });
           j = heap w it;
           start = [(literal w (ascii ''VALUE ''), 6), (key_addr w it, int (unat (it_nkey j)))]
       in if return_cas
          then (case (if i \<ge> suffixsize c1
                      then (case realloc_result c1 of (ok, c2) \<Rightarrow>
                              (ok, if ok then c2\<lparr>suffixsize := suffixsize c2 * 2\<rparr> else c2))
                      else (True, c1)) of (ok, c2) \<Rightarrow>
            if \<not> ok then key_break it c2 w
            else (case cache_alloc (ce_suffix ce i) True (suffix_cache w) of (suffix, cache') \<Rightarrow>
              let w2 = w\<lparr>suffix_cache := cache'\<rparr> in
              if suffix = NULL
              then do {
                c3 \<leftarrow> out_of_memory (literal w) (ascii ''SERVER_ERROR out of memory making CAS suffix'') c2;
                w3 \<leftarrow> item_remove it (fail_malloc w2);
                w4 \<leftarrow> remove_found i c3 w3;
                Some (Key_return c3 w4)
              }
              else do {
                let text = [32] @ show_nat (unat (ITEM_get_cas j)) @ crlf;
                let c3 = c2\<lparr>suffixlist := (suffixlist c2)(i := suffix), texts := (texts c2)(suffix := text)\<rparr>;
                (ok, c4) \<leftarrow> add_iovs (start @ [(suffix_addr w it, int (unat (it_nsuffix j)) - 2),
                              (suffix, int (length text)), (data_addr w it, it_len j)]) c3;
                if ok then hit c4 w2 else key_break it c4 w2
              }))
          else do {
            (ok, c4) \<leftarrow> add_iovs (start @ [(suffix_addr w it, int (unat (it_nsuffix j)) + it_len j)]) c1;
            if ok then hit c4 w else key_break it c4 w
          })"

definition get_key ::
  "cmd_env \<Rightarrow> bool \<Rightarrow> bytes \<Rightarrow> nat \<Rightarrow> nat \<Rightarrow> conn \<Rightarrow> worker_state \<Rightarrow> key_result option" where
  "get_key ce return_cas key nkey i c w =
     (if nkey > KEY_MAX_LENGTH
      then do {
        c1 \<leftarrow> out_string (ascii ''CLIENT_ERROR bad command line format'') c;
        w1 \<leftarrow> remove_found i c1 w;
        Some (Key_return c1 w1)
      }
      else do {
        (it, w1) \<leftarrow> item_get key nkey w;
        w2 \<leftarrow> count_prefix (\<lambda>mem ok h. stats_prefix_record_get mem ok h key nkey (it \<noteq> NULL)) ce w1;
        if it \<noteq> NULL then get_hit ce return_cas it i c w2
        else Some (Key_next i c (my_count (\<lambda>t. t\<lparr>get_misses := get_misses t + 1, get_cmds := get_cmds t + 1\<rparr>) w2))
      })"

text \<open>The loop over the tokens; the result has the value of the token where it stopped, \<open>Inr\<close>, or is that of a
  \<open>return\<close>, \<open>Inl\<close>.\<close>

fun get_keys ::
  "cmd_env \<Rightarrow> bool \<Rightarrow> token list \<Rightarrow> nat \<Rightarrow> conn \<Rightarrow> worker_state \<Rightarrow>
   ((conn \<times> worker_state) + (bytes option \<times> nat \<times> conn \<times> worker_state)) option" where
  "get_keys ce return_cas [] i c w = None"
| "get_keys ce return_cas (t # toks) i c w =
     (if tok_length t = 0 then Some (Inr (tok_value t, i, c, w))
      else do {
        r \<leftarrow> get_key ce return_cas (the (tok_value t)) (tok_length t) i c w;
        (case r of
           Key_next i' c' w' \<Rightarrow> get_keys ce return_cas toks i' c' w'
         | Key_break c' w' \<Rightarrow> Some (Inr (tok_value t, i, c', w'))
         | Key_return c' w' \<Rightarrow> Some (Inl (c', w')))
      })"

text \<open>The outer loop goes on with the part of the command that is not tokenized yet; after a \<open>break\<close>
  that is the key itself.\<close>

partial_function (option) get_loop ::
  "cmd_env \<Rightarrow> bool \<Rightarrow> token list \<Rightarrow> nat \<Rightarrow> conn \<Rightarrow> worker_state \<Rightarrow>
   ((conn \<times> worker_state) + (nat \<times> conn \<times> worker_state)) option" where
  "get_loop ce return_cas toks i c w = do {
     r \<leftarrow> get_keys ce return_cas toks i c w;
     (case r of
        Inl (c', w') \<Rightarrow> Some (Inl (c', w'))
      | Inr (None, i', c', w') \<Rightarrow> Some (Inr (i', c', w'))
      | Inr (Some cmd, i', c', w') \<Rightarrow>
          let toks' = tokenize_command cmd MAX_TOKENS
          in if tok_value (hd toks') \<noteq> None then get_loop ce return_cas toks' i' c' w'
             else Some (Inr (i', c', w')))
   }"

definition process_get_command ::
  "cmd_env \<Rightarrow> token list \<Rightarrow> bool \<Rightarrow> conn \<Rightarrow> worker_state \<Rightarrow> (conn \<times> worker_state) option" where
  "process_get_command ce toks return_cas c w = do {
     r \<leftarrow> get_loop ce return_cas (drop KEY_TOKEN toks) 0 c w;
     (case r of
        Inl (c1, w1) \<Rightarrow> Some (c1, w1)
      | Inr (i, c1, w1) \<Rightarrow> do {
          let c2 = c1\<lparr>icurr := 0, ileft := i\<rparr>;
          let c3 = (if return_cas then c2\<lparr>suffixcurr := 0, suffixleft := i\<rparr> else c2);
          (r1, c4) \<leftarrow> add_iov (literal w1 (ascii ''END'' @ crlf)) 5 c3;
          let (r2, c5) = (if r1 = 0 \<and> is_udp c4 then build_udp_headers (ce_udp_mem ce) c4 else (r1, c4));
          if r2 \<noteq> 0
          then do {
            c6 \<leftarrow> out_of_memory (literal w1) (ascii ''SERVER_ERROR out of memory writing get response'') c5;
            Some (c6, w1)
          }
          else do {
            c6 \<leftarrow> conn_set_state conn_mwrite c5;
            Some (c6\<lparr>msgcurr := 0\<rparr>, w1)
          }
        })
   }"

section \<open>Commands that change an item\<close>

text \<open>An answer that is the last thing a command does.\<close>

definition answer :: "string \<Rightarrow> conn \<Rightarrow> worker_state \<Rightarrow> (conn \<times> worker_state) option" where
  "answer text c w = map_option (\<lambda>c1. (c1, w)) (out_string (ascii text) c)"

definition bad_format :: "conn \<Rightarrow> worker_state \<Rightarrow> (conn \<times> worker_state) option" where
  "bad_format = answer ''CLIENT_ERROR bad command line format''"

text \<open>When no item is allocated for \<open>set\<close>, the old one is dropped.\<close>

definition drop_stale :: "bytes \<Rightarrow> nat \<Rightarrow> worker_state \<Rightarrow> worker_state option" where
  "drop_stale key nkey w = do {
     (it, w1) \<leftarrow> item_get key nkey w;
     if it \<noteq> NULL then do { w2 \<leftarrow> item_unlink it w1; item_remove it w2 } else Some w1
   }"

text \<open>\<open>vlen + 2\<close> is taken to wrap around, which is what the test that follows it looks for.\<close>

definition process_update_command ::
  "cmd_env \<Rightarrow> token list \<Rightarrow> int \<Rightarrow> bool \<Rightarrow> conn \<Rightarrow> worker_state \<Rightarrow> (conn \<times> worker_state) option" where
  "process_update_command ce toks comm handle_cas c0 w =
     (case set_noreply_maybe toks c0 of (_, c) \<Rightarrow>
      if tok_length (toks ! KEY_TOKEN) > KEY_MAX_LENGTH then bad_format c w
      else
        let key = tok_text toks KEY_TOKEN; nkey = tok_length (toks ! KEY_TOKEN) in
        case (safe_strtoul (tok_text toks 2), safe_strtol (tok_text toks 3), safe_strtol (tok_text toks 4)) of
          ((ok1, flags), (ok2, xt), (ok3, vlen0)) \<Rightarrow>
        if \<not> (ok1 \<and> ok2 \<and> ok3) then bad_format c w
        else
          let exptime = (if sint xt < 0 then REALTIME_MAXDELTA + 1 else sint xt);
              (ok4, cas) = (if handle_cas then safe_strtoull (tok_text toks 5) else (True, 0));
              vlen = sint (vlen0 + 2)
          in if \<not> ok4 then bad_format c w
             else if vlen < 0 \<or> vlen - 2 < 0 then bad_format c w
             else do {
               w1 \<leftarrow> count_prefix (\<lambda>mem ok h. stats_prefix_record_set mem ok h key nkey) ce w;
               (it, w2) \<leftarrow> item_alloc (ce_alloc ce) key nkey (sint flags) (realtime exptime w1) vlen w1;
               if it = NULL
               then do {
                 ok \<leftarrow> item_size_ok nkey (sint flags) vlen w2;
                 c1 \<leftarrow> (if \<not> ok then out_string (ascii ''SERVER_ERROR object too large for cache'') c
                        else out_of_memory (literal w2) (ascii ''SERVER_ERROR out of memory storing object'') c);
                 w3 \<leftarrow> (if comm = NREAD_SET then drop_stale key nkey w2 else Some w2);
                 Some (c1\<lparr>write_and_go := conn_swallow, sbytes := vlen\<rparr>, w3)
               }
               else do {
                 let w3 = upd_item it (ITEM_set_cas cas) w2;
                 c1 \<leftarrow> conn_set_state conn_nread (c\<lparr>c_item := it, ritem := in_item it 0,
                          rlbytes := it_len (heap w3 it), c_cmd := comm\<rparr>);
                 Some (c1, w3)
               }
             })"

definition process_touch_command ::
  "token list \<Rightarrow> conn \<Rightarrow> worker_state \<Rightarrow> (conn \<times> worker_state) option" where
  "process_touch_command toks c0 w =
     (case set_noreply_maybe toks c0 of (_, c) \<Rightarrow>
      if tok_length (toks ! KEY_TOKEN) > KEY_MAX_LENGTH then bad_format c w
      else
        let key = tok_text toks KEY_TOKEN; nkey = tok_length (toks ! KEY_TOKEN) in
        case safe_strtol (tok_text toks 2) of (ok, xt) \<Rightarrow>
        if \<not> ok then answer ''CLIENT_ERROR invalid exptime argument'' c w
        else do {
          (it, w1) \<leftarrow> item_touch key nkey (realtime (sint xt) w) w;
          if it \<noteq> NULL
          then do {
            w2 \<leftarrow> item_update it w1;
            let w3 = my_slab_count (it_slabs_clsid (heap w2 it)) (\<lambda>t. t\<lparr>touch_hits := touch_hits t + 1\<rparr>)
                       (my_count (\<lambda>t. t\<lparr>touch_cmds := touch_cmds t + 1\<rparr>) w2);
            (c1, w4) \<leftarrow> answer ''TOUCHED'' c w3;
            w5 \<leftarrow> item_remove it w4;
            Some (c1, w5)
          }
          else answer ''NOT_FOUND'' c
                 (my_count (\<lambda>t. t\<lparr>touch_cmds := touch_cmds t + 1, touch_misses := touch_misses t + 1\<rparr>) w1)
        })"

definition process_arithmetic_command ::
  "cmd_env \<Rightarrow> token list \<Rightarrow> bool \<Rightarrow> conn \<Rightarrow> worker_state \<Rightarrow> (conn \<times> worker_state) option" where
  "process_arithmetic_command ce toks incr c0 w =
     (case set_noreply_maybe toks c0 of (_, c) \<Rightarrow>
      if tok_length (toks ! KEY_TOKEN) > KEY_MAX_LENGTH then bad_format c w
      else
        let key = tok_text toks KEY_TOKEN; nkey = tok_length (toks ! KEY_TOKEN) in
        case safe_strtoull (tok_text toks 2) of (ok, delta) \<Rightarrow>
        if \<not> ok then answer ''CLIENT_ERROR invalid numeric delta argument'' c w
        else do {
          (ret, temp, _, w1) \<leftarrow> add_delta (ce_alloc ce) key nkey incr delta None w;
          (case ret of
             OK \<Rightarrow> map_option (\<lambda>c1. (c1, w1)) (out_string temp c)
           | NON_NUMERIC \<Rightarrow> answer ''CLIENT_ERROR cannot increment or decrement non-numeric value'' c w1
           | EOM \<Rightarrow> map_option (\<lambda>c1. (c1, w1)) (out_of_memory (literal w1) (ascii ''SERVER_ERROR out of memory'') c)
           | DELTA_ITEM_NOT_FOUND \<Rightarrow> answer ''NOT_FOUND'' c
               (my_count (if incr then (\<lambda>t. t\<lparr>incr_misses := incr_misses t + 1\<rparr>)
                          else (\<lambda>t. t\<lparr>decr_misses := decr_misses t + 1\<rparr>)) w1)
           | DELTA_ITEM_CAS_MISMATCH \<Rightarrow> Some (c, w1))
        })"

definition process_delete_command ::
  "cmd_env \<Rightarrow> token list \<Rightarrow> conn \<Rightarrow> worker_state \<Rightarrow> (conn \<times> worker_state) option" where
  "process_delete_command ce toks c0 w =
     (let ntokens = length toks;
          hold_is_zero = tok_is toks (KEY_TOKEN + 1) ''0'';
          (sets_noreply, c) = (if ntokens > 3 then set_noreply_maybe toks c0 else (noreply c0, c0));
          valid = ntokens = 4 \<and> (hold_is_zero \<or> sets_noreply) \<or> ntokens = 5 \<and> hold_is_zero \<and> sets_noreply
      in if ntokens > 3 \<and> \<not> valid
         then answer ''CLIENT_ERROR bad command line format.  Usage: delete <key> [noreply]'' c w
         else
           let key = tok_text toks KEY_TOKEN; nkey = tok_length (toks ! KEY_TOKEN) in
           if nkey > KEY_MAX_LENGTH then bad_format c w
           else do {
             w1 \<leftarrow> count_prefix (\<lambda>mem ok h. stats_prefix_record_delete mem ok h key nkey) ce w;
             (it, w2) \<leftarrow> item_get key nkey w1;
             if it \<noteq> NULL
             then do {
               let w3 = my_slab_count (it_slabs_clsid (heap w2 it)) (\<lambda>t. t\<lparr>delete_hits := delete_hits t + 1\<rparr>) w2;
               w4 \<leftarrow> item_unlink it w3;
               w5 \<leftarrow> item_remove it w4;
               answer ''DELETED'' c w5
             }
             else answer ''NOT_FOUND'' c (my_count (\<lambda>t. t\<lparr>delete_misses := delete_misses t + 1\<rparr>) w2)
           })"

section \<open>\<open>stats\<close>\<close>

definition stat_num :: "string \<Rightarrow> nat \<Rightarrow> string \<times> bytes" where
  "stat_num name v = (name, show_nat v)"

definition stat_flag :: "string \<Rightarrow> string \<Rightarrow> string \<Rightarrow> bool \<Rightarrow> string \<times> bytes" where
  "stat_flag yes no name b = (name, ascii (if b then yes else no))"

definition b2n :: "bool \<Rightarrow> nat" where "b2n b = (if b then 1 else 0)"

text \<open>\<open>%06ld\<close>, \<open>%o\<close> and \<open>%.2f\<close>.\<close>

definition show_micro :: "nat \<Rightarrow> bytes" where
  "show_micro n = (let ds = show_nat n in replicate (6 - length ds) 48 @ ds)"

fun show_oct :: "nat \<Rightarrow> bytes" where
  "show_oct n = (if n < 8 then [48 + of_nat n] else show_oct (n div 8) @ [48 + of_nat (n mod 8)])"

declare show_oct.simps [simp del]

definition show_fixed2 :: "rat \<Rightarrow> bytes" where
  "show_fixed2 q = (let n = nat (round (q * 100)); m = n mod 100
     in show_nat (n div 100) @ [46, 48 + of_nat (m div 10), 48 + of_nat (m mod 10)])"

text \<open>The statistics of all workers.\<close>

definition all_threads :: "worker_state \<Rightarrow> thread_stats" where
  "all_threads w = (let ts = my_stats w # other_threads w in threadlocal_stats_aggregate (length ts) (\<lambda>i. ts ! i))"

definition server_stat_lines :: "cmd_env \<Rightarrow> worker_state \<Rightarrow> (string \<times> bytes) list" where
  "server_stat_lines ce w =
     (let now = current_time w; t = all_threads w; sl = slab_stats_aggregate t; st = stats w; se = settings w;
          ((us, uu), (ss, su)) = ce_rusage ce
      in [stat_num ''pid'' (ce_pid ce),
          stat_num ''uptime'' (unat (now - ITEM_UPDATE_INTERVAL)),
          (''time'', show_int (int (unat now) + process_started w)),
          (''version'', ce_version ce),
          (''libevent'', ce_event_version ce),
          stat_num ''pointer_size'' 64,
          (''rusage_user'', show_nat us @ [46] @ show_micro uu),
          (''rusage_system'', show_nat ss @ [46] @ show_micro su),
          stat_num ''curr_connections'' (unat (curr_conns st - 1)),
          stat_num ''total_connections'' (unat (total_conns st))] @
         (if maxconns_fast se then [stat_num ''rejected_connections'' (unat (rejected_conns st))] else []) @
         [stat_num ''connection_structures'' (unat (conn_structs st)),
          stat_num ''reserved_fds'' (unat (reserved_fds st)),
          stat_num ''cmd_get'' (unat (get_cmds t)), stat_num ''cmd_set'' (unat (set_cmds sl)),
          stat_num ''cmd_flush'' (unat (flush_cmds t)), stat_num ''cmd_touch'' (unat (touch_cmds t)),
          stat_num ''get_hits'' (unat (get_hits sl)), stat_num ''get_misses'' (unat (get_misses t)),
          stat_num ''delete_misses'' (unat (delete_misses t)), stat_num ''delete_hits'' (unat (delete_hits sl)),
          stat_num ''incr_misses'' (unat (incr_misses t)), stat_num ''incr_hits'' (unat (incr_hits sl)),
          stat_num ''decr_misses'' (unat (decr_misses t)), stat_num ''decr_hits'' (unat (decr_hits sl)),
          stat_num ''cas_misses'' (unat (cas_misses t)), stat_num ''cas_hits'' (unat (cas_hits sl)),
          stat_num ''cas_badval'' (unat (cas_badval sl)), stat_num ''touch_hits'' (unat (touch_hits sl)),
          stat_num ''touch_misses'' (unat (touch_misses t)), stat_num ''auth_cmds'' (unat (auth_cmds t)),
          stat_num ''auth_errors'' (unat (auth_errors t)), stat_num ''bytes_read'' (unat (bytes_read t)),
          stat_num ''bytes_written'' (unat (bytes_written t)), stat_num ''limit_maxbytes'' (unat (maxbytes se)),
          stat_num ''accepting_conns'' (b2n (accepting_conns st)),
          stat_num ''listen_disabled_num'' (unat (listen_disabled_num st)),
          (''threads'', show_int (settings_num_threads se)),
          stat_num ''conn_yields'' (unat (conn_yields t)),
          stat_num ''hash_power_level'' (hash_power_level st), stat_num ''hash_bytes'' (unat (hash_bytes st)),
          stat_num ''hash_is_expanding'' (b2n (hash_is_expanding st))] @
         (if slab_reassign se
          then [stat_num ''slab_reassign_running'' (b2n (slab_reassign_running st)),
                stat_num ''slabs_moved'' (unat (slabs_moved st))] else []) @
         (if lru_crawler se then [stat_num ''lru_crawler_running'' (b2n (lru_crawler_running st))] else []) @
         [stat_num ''malloc_fails'' (unat (malloc_fails st))])"

definition server_stats :: "cmd_env \<Rightarrow> worker_state \<Rightarrow> conn \<Rightarrow> conn option" where
  "server_stats ce w c = append_all (stat_lines (server_stat_lines ce w)) c"

definition setting_lines :: "worker_state \<Rightarrow> (string \<times> bytes) list" where
  "setting_lines w =
     (let se = settings w; text = (\<lambda>v. case v of None \<Rightarrow> ascii ''NULL'' | Some t \<Rightarrow> t); yes = stat_flag ''yes'' ''no''
      in [stat_num ''maxbytes'' (unat (maxbytes se)), (''maxconns'', show_int (maxconns se)),
          (''tcpport'', show_int (tcp_port se)), (''udpport'', show_int (udpport se)),
          (''inter'', text (inter se)), (''verbosity'', show_int (verbose se)),
          stat_num ''oldest'' (unat (oldest_live se)), stat_flag ''on'' ''off'' ''evictions'' (evict_to_free se),
          (''domain_socket'', text (socketpath se)), (''umask'', show_oct (access_mask se)),
          (''growth_factor'', show_fixed2 (growth_factor se)), stat_num ''chunk_size'' (chunk_size se),
          (''num_threads'', show_int (settings_num_threads se)),
          (''num_threads_per_udp'', show_int (num_threads_per_udp se)),
          (''stat_key_prefix'', [settings_prefix_delimiter se]), yes ''detail_enabled'' (detail_enabled se),
          (''reqs_per_event'', show_int (reqs_per_event se)), yes ''cas_enabled'' (use_cas se),
          (''tcp_backlog'', show_int (backlog se)),
          (''binding_protocol'', ascii (prot_text (binding_protocol se))), yes ''auth_enabled_sasl'' (sasl se),
          stat_num ''item_size_max'' (item_size_max se), yes ''maxconns_fast'' (maxconns_fast se),
          (''hashpower_init'', show_int (hashpower_init se)), yes ''slab_reassign'' (slab_reassign se),
          (''slab_automove'', show_int (slab_automove se)), yes ''lru_crawler'' (lru_crawler se),
          (''lru_crawler_sleep'', show_int (lru_crawler_sleep se)),
          stat_num ''lru_crawler_tocrawl'' (unat (lru_crawler_tocrawl se)),
          (''tail_repair_time'', show_int (sint (tail_repair_time se))), yes ''flush_enabled'' (flush_enabled se),
          (''hash_algorithm'', hash_algorithm se)])"

definition process_stat_settings :: "worker_state \<Rightarrow> conn \<Rightarrow> conn option" where
  "process_stat_settings w c = append_all (stat_lines (setting_lines w)) c"

text \<open>The engine's statistics (\<open>get_stats\<close> of \<open>slabs.c\<close>): the general ones, or those of a kind; \<open>None\<close> in the
  result for a kind that does not exist.\<close>

definition numbered :: "string \<Rightarrow> nat \<Rightarrow> string \<Rightarrow> nat \<Rightarrow> bytes \<times> bytes" where
  "numbered start i name v = (ascii start @ show_nat i @ [58] @ ascii name, show_nat v)"

definition general_lines :: "worker_state \<Rightarrow> ((bytes \<times> bytes) list \<times> worker_state) option" where
  "general_lines w = do {
     (tot, w1) \<leftarrow> item_stats_totals w;
     let st = stats w;
     Some (stat_lines ([stat_num ''bytes'' (unat (curr_bytes st)), stat_num ''curr_items'' (unat (curr_items st)),
             stat_num ''total_items'' (unat (total_items st))] @
             map (\<lambda>(n, v). stat_num n (unat v))
               (zip [''expired_unfetched'', ''evicted_unfetched'', ''evictions'', ''reclaimed'', ''crawler_reclaimed'',
                     ''lrutail_reflocked''] tot)), w1)
   }"

definition item_class_lines :: "nat \<times> nat list \<Rightarrow> (bytes \<times> bytes) list" where
  "item_class_lines iv = (case iv of (i, vs) \<Rightarrow>
     map (\<lambda>(n, v). numbered ''items:'' i n v)
       (zip [''number'', ''age'', ''evicted'', ''evicted_nonzero'', ''evicted_time'', ''outofmemory'', ''tailrepairs'',
             ''reclaimed'', ''expired_unfetched'', ''evicted_unfetched'', ''crawler_reclaimed'', ''lrutail_reflocked''] vs))"

definition engine_lines ::
  "bool \<Rightarrow> bytes option \<Rightarrow> worker_state \<Rightarrow> ((bytes \<times> bytes) list \<times> worker_state) option option" where
  "engine_lines calloc_ok kind w =
     (case kind of
        None \<Rightarrow> map_option Some (general_lines w)
      | Some k \<Rightarrow>
          if k = ascii ''items'' then do {
            (ls, w1) \<leftarrow> item_stats w;
            Some (Some (concat (map item_class_lines ls) @ [([], [])], w1))
          }
          else if k = ascii ''slabs'' then
            (if slabs_lock w then None
             else case (let ts = my_stats w # other_threads w in do_slabs_stats (length ts) (\<lambda>i. ts ! i) w) of
               (ls, n, tm) \<Rightarrow>
                 Some (Some (map (\<lambda>(i, name, v). numbered '''' i name v) ls @
                         stat_lines [stat_num ''active_slabs'' n, stat_num ''total_malloced'' tm] @ [([], [])], w)))
          else if k = ascii ''sizes'' then do {
            (ls, w1) \<leftarrow> item_stats_sizes calloc_ok w;
            Some (Some (map (\<lambda>(n, v). (take 7 (show_nat n), show_nat (unat v))) ls @ [([], [])], w1))
          }
          else Some None)"

definition get_stats ::
  "bool \<Rightarrow> bytes option \<Rightarrow> conn \<Rightarrow> worker_state \<Rightarrow> (bool \<times> conn \<times> worker_state) option" where
  "get_stats calloc_ok kind c w = do {
     r \<leftarrow> engine_lines calloc_ok kind w;
     (case r of
        None \<Rightarrow> Some (False, c, w)
      | Some (ls, w1) \<Rightarrow> map_option (\<lambda>c1. (True, c1, w1)) (append_all ls c))
   }"

definition stats_reset :: "worker_state \<Rightarrow> worker_state option" where
  "stats_reset w =
     item_stats_reset (w\<lparr>
       stats := (stats w)\<lparr>total_items := 0, total_conns := 0, rejected_conns := 0, malloc_fails := 0,
                          st_evictions := 0, st_reclaimed := 0, listen_disabled_num := 0\<rparr>,
       prefixes := stats_prefix_clear (prefixes w),
       my_stats := reset_thread_stats (my_stats w),
       other_threads := map reset_thread_stats (other_threads w)\<rparr>)"

definition process_stats_detail ::
  "cmd_env \<Rightarrow> bytes \<Rightarrow> conn \<Rightarrow> worker_state \<Rightarrow> (conn \<times> worker_state) option" where
  "process_stats_detail ce cmd c w =
     (if cmd = ascii ''on'' then answer ''OK'' c (w\<lparr>settings := (settings w)\<lparr>detail_enabled := True\<rparr>\<rparr>)
      else if cmd = ascii ''off'' then answer ''OK'' c (w\<lparr>settings := (settings w)\<lparr>detail_enabled := False\<rparr>\<rparr>)
      else if cmd = ascii ''dump''
      then do {
        d \<leftarrow> stats_prefix_dump (ce_dump ce \<noteq> NULL) (prefixes w);
        c1 \<leftarrow> (case d of None \<Rightarrow> write_and_free (literal w) NULL [] c
               | Some text \<Rightarrow> write_and_free (literal w) (ce_dump ce) text c);
        Some (c1, w)
      }
      else answer ''CLIENT_ERROR usage: stats detail on|off|dump'' c w)"

definition conn_to_str :: "cmd_env \<Rightarrow> conn option \<Rightarrow> bytes" where
  "conn_to_str ce r = (case r of None \<Rightarrow> ascii ''<null>''
     | Some c \<Rightarrow> if cstate c = conn_closed then ascii ''<closed>'' else ce_conn_name ce c)"

definition conn_lines :: "cmd_env \<Rightarrow> worker_state \<Rightarrow> nat \<Rightarrow> (bytes \<times> bytes) list" where
  "conn_lines ce w i = (case ce_conns ce i of None \<Rightarrow> []
     | Some d \<Rightarrow> if cstate d = conn_closed then []
        else map (\<lambda>(n, v). (show_nat i @ [58] @ ascii n, v))
          [(''addr'', take 127 (conn_to_str ce (Some d))), (''state'', ascii (state_text (cstate d))),
           (''secs_since_last_cmd'', show_int (sint (current_time w - last_cmd_time d)))])"

definition process_stats_conns :: "cmd_env \<Rightarrow> worker_state \<Rightarrow> conn \<Rightarrow> conn option" where
  "process_stats_conns ce w c = append_all (concat (map (conn_lines ce w) [0..<ce_max_fds ce])) c"

text \<open>The buffer with the statistics is sent; it starts at \<open>ce_dump\<close>.\<close>

definition send_stats_buffer :: "cmd_env \<Rightarrow> conn \<Rightarrow> worker_state \<Rightarrow> (conn \<times> worker_state) option" where
  "send_stats_buffer ce c w =
     (case stats_buffer c of
        None \<Rightarrow> map_option (\<lambda>c1. (c1, w)) (out_of_memory (literal w) (ascii ''SERVER_ERROR out of memory writing stats'') c)
      | Some b \<Rightarrow> do {
          c1 \<leftarrow> write_and_free (literal w) (ce_dump ce) b c;
          Some (c1\<lparr>stats_buffer := None\<rparr>, w)
        })"

definition process_stat ::
  "cmd_env \<Rightarrow> token list \<Rightarrow> conn \<Rightarrow> worker_state \<Rightarrow> (conn \<times> worker_state) option" where
  "process_stat ce toks c w =
     (let ntokens = length toks;
          finish = (\<lambda>c1 w1. do { c2 \<leftarrow> append_stats [] [] c1; send_stats_buffer ce c2 w1 })
      in if ntokens < 2 then answer ''CLIENT_ERROR bad command line'' c w
         else if ntokens = 2
         then do {
           c1 \<leftarrow> server_stats ce w c;
           (_, c2, w1) \<leftarrow> get_stats True None c1 w;
           finish c2 w1
         }
         else if tok_is toks SUBCOMMAND_TOKEN ''reset''
         then do { w1 \<leftarrow> stats_reset w; answer ''RESET'' c w1 }
         else if tok_is toks SUBCOMMAND_TOKEN ''detail''
         then process_stats_detail ce (if ntokens < 4 then [] else tok_text toks 2) c w
         else if tok_is toks SUBCOMMAND_TOKEN ''settings''
         then do { c1 \<leftarrow> process_stat_settings w c; finish c1 w }
         else if tok_is toks SUBCOMMAND_TOKEN ''cachedump''
         then
           if ntokens < 5 then answer ''CLIENT_ERROR bad command line'' c w
           else (case (safe_strtoul (tok_text toks 2), safe_strtoul (tok_text toks 3)) of ((ok1, clsid), (ok2, limt)) \<Rightarrow>
             if \<not> (ok1 \<and> ok2) then bad_format c w
             else if unat clsid \<ge> POWER_LARGEST then answer ''CLIENT_ERROR Illegal slab id'' c w
             else do {
               (d, w1) \<leftarrow> item_cachedump (ce_dump ce \<noteq> NULL) (of_int (process_started w)) (unat clsid) (unat limt) w;
               c1 \<leftarrow> (case d of None \<Rightarrow> write_and_free (literal w) NULL [] c
                      | Some text \<Rightarrow> write_and_free (literal w) (ce_dump ce) text c);
               Some (c1, w1)
             })
         else if tok_is toks SUBCOMMAND_TOKEN ''conns''
         then do { c1 \<leftarrow> process_stats_conns ce w c; finish c1 w }
         else do {
           (found, c1, w1) \<leftarrow> get_stats (ce_dump ce \<noteq> NULL) (tok_value (toks ! SUBCOMMAND_TOKEN)) c w;
           if found then send_stats_buffer ce c1 w1 else answer ''ERROR'' c1 w1
         })"

section \<open>Commands to the server\<close>

definition MAX_VERBOSITY_LEVEL :: nat where "MAX_VERBOSITY_LEVEL = 2"

definition upd_settings :: "(settings_t \<Rightarrow> settings_t) \<Rightarrow> worker_state \<Rightarrow> worker_state" where
  "upd_settings f w = w\<lparr>settings := f (settings w)\<rparr>"

text \<open>\<open>(unsigned) strtoul(s, NULL, 10)\<close> and \<open>(int) strtol(s, NULL, 10)\<close>, and whether \<open>errno\<close> is
  \<open>ERANGE\<close> after \<open>strtol\<close>.\<close>

definition strtoul_uint :: "bytes \<Rightarrow> u32" where
  "strtoul_uint s = (case strtoull s of (v, _, _) \<Rightarrow> ucast v)"

definition strtol_erange :: "bytes \<Rightarrow> worker_state \<Rightarrow> int \<times> worker_state" where
  "strtol_erange s w = (case strtoll s of (v, _, e) \<Rightarrow> (v, if e then w\<lparr>erange := True\<rparr> else w))"

definition process_verbosity_command ::
  "token list \<Rightarrow> conn \<Rightarrow> worker_state \<Rightarrow> (conn \<times> worker_state) option" where
  "process_verbosity_command toks c0 w =
     (let c = snd (set_noreply_maybe toks c0);
          level = unat (strtoul_uint (tok_text toks 1))
      in answer ''OK'' c (upd_settings (\<lambda>s. s\<lparr>verbose :=
           int (if level > MAX_VERBOSITY_LEVEL then MAX_VERBOSITY_LEVEL else level)\<rparr>) w))"

definition process_slabs_automove_command ::
  "token list \<Rightarrow> conn \<Rightarrow> worker_state \<Rightarrow> (conn \<times> worker_state) option" where
  "process_slabs_automove_command toks c0 w =
     (let c = snd (set_noreply_maybe toks c0);
          level = unat (strtoul_uint (tok_text toks 2))
      in if level = 0 then answer ''OK'' c (upd_settings (\<lambda>s. s\<lparr>slab_automove := 0\<rparr>) w)
         else if level = 1 \<or> level = 2
         then answer ''OK'' c (upd_settings (\<lambda>s. s\<lparr>slab_automove := int level\<rparr>) w)
         else answer ''ERROR'' c w)"

definition flush_now :: "u32 \<Rightarrow> conn \<Rightarrow> worker_state \<Rightarrow> (conn \<times> worker_state) option" where
  "flush_now t c w = do {
     w1 \<leftarrow> item_flush_expired (upd_settings (\<lambda>s. s\<lparr>oldest_live := t\<rparr>) w);
     answer ''OK'' c w1
   }"

definition process_flush_all_command ::
  "token list \<Rightarrow> conn \<Rightarrow> worker_state \<Rightarrow> (conn \<times> worker_state) option" where
  "process_flush_all_command toks c0 w0 =
     (let c = snd (set_noreply_maybe toks c0);
          w = my_count (\<lambda>t. t\<lparr>flush_cmds := flush_cmds t + 1\<rparr>) w0
      in if \<not> flush_enabled (settings w) then answer ''CLIENT_ERROR flush_all not allowed'' c w
         else if length toks = (if noreply c then 3 else 2) then flush_now (current_time w - 1) c w
         else (case strtol_erange (tok_text toks 1) w of (exptime, w1) \<Rightarrow>
           if erange w1 then bad_format c w1
           else if exptime > 0 then flush_now (realtime exptime w1 - 1) c w1
           else flush_now (current_time w1 - 1) c w1))"

definition reassign_reply :: "reassign_result_type \<Rightarrow> string" where
  "reassign_reply r = (case r of
       REASSIGN_OK \<Rightarrow> ''OK''
     | REASSIGN_RUNNING \<Rightarrow> ''BUSY currently processing reassign request''
     | REASSIGN_BADCLASS \<Rightarrow> ''BADCLASS invalid src or dst class id''
     | REASSIGN_NOSPARE \<Rightarrow> ''NOSPARE source class has no spare pages''
     | REASSIGN_SRC_DST_SAME \<Rightarrow> ''SAME src and dst class are identical'')"

definition process_slabs_command ::
  "token list \<Rightarrow> conn \<Rightarrow> worker_state \<Rightarrow> (conn \<times> worker_state) option" where
  "process_slabs_command toks c w =
     (if length toks = 5 \<and> tok_is toks (COMMAND_TOKEN + 1) ''reassign''
      then
        if \<not> slab_reassign (settings w) then answer ''CLIENT_ERROR slab reassignment disabled'' c w
        else (case strtol_erange (tok_text toks 2) w of (src, w1) \<Rightarrow>
              case strtol_erange (tok_text toks 3) w1 of (dst, w2) \<Rightarrow>
           if erange w2 then bad_format c w2
           else case slabs_reassign (sint (of_int src :: u32)) (sint (of_int dst :: u32)) w2 of (rv, w3) \<Rightarrow>
             answer (reassign_reply rv) c w3)
      else if length toks = 4 \<and> tok_is toks (COMMAND_TOKEN + 1) ''automove''
      then process_slabs_automove_command toks c w
      else answer ''ERROR'' c w)"

definition crawler_reply :: "crawler_result_type \<Rightarrow> string" where
  "crawler_reply r = (case r of
       CRAWLER_OK \<Rightarrow> ''OK''
     | CRAWLER_RUNNING \<Rightarrow> ''BUSY currently processing crawler request''
     | CRAWLER_BADCLASS \<Rightarrow> ''BADCLASS invalid class id'')"

definition process_crawler_command ::
  "cmd_env \<Rightarrow> token list \<Rightarrow> conn \<Rightarrow> worker_state \<Rightarrow> (conn \<times> worker_state) option" where
  "process_crawler_command ce toks c w =
     (let sub = tok_is toks (COMMAND_TOKEN + 1) in
      if length toks = 4 \<and> sub ''crawl''
      then
        if \<not> lru_crawler (settings w) then answer ''CLIENT_ERROR lru crawler disabled'' c w
        else do {
          (rv, w1) \<leftarrow> lru_crawler_crawl (ce_tocrawl ce) (tok_text toks 2) w;
          answer (crawler_reply rv) c w1
        }
      else if length toks = 4 \<and> sub ''tocrawl''
      then (case safe_strtoul (tok_text toks 2) of (ok, v) \<Rightarrow>
        if \<not> ok then bad_format c w
        else answer ''OK'' c (upd_settings (\<lambda>s. s\<lparr>lru_crawler_tocrawl := v\<rparr>) w))
      else if length toks = 4 \<and> sub ''sleep''
      then (case safe_strtoul (tok_text toks 2) of (ok, v) \<Rightarrow>
        if \<not> ok then bad_format c w
        else if unat v > 1000000 then answer ''CLIENT_ERROR sleep must be one second or less'' c w
        else answer ''OK'' c (upd_settings (\<lambda>s. s\<lparr>lru_crawler_sleep := int (unat v)\<rparr>) w))
      else if length toks = 3
      then
        if sub ''enable''
        then do {
          (r, w1) \<leftarrow> start_item_crawler_thread (ce_thread_ok ce) w;
          answer (if r = 0 then ''OK'' else ''ERROR failed to start lru crawler thread'') c w1
        }
        else if sub ''disable''
        then do {
          (r, w1) \<leftarrow> stop_item_crawler_thread (ce_thread_ok ce) w;
          answer (if r = 0 then ''OK'' else ''ERROR failed to stop lru crawler thread'') c w1
        }
        else answer ''ERROR'' c w
      else answer ''ERROR'' c w)"

text \<open>The commands that store: their names and numbers.\<close>

definition store_command :: "token list \<Rightarrow> int option" where
  "store_command toks =
     (if tok_is toks COMMAND_TOKEN ''add'' then Some NREAD_ADD
      else if tok_is toks COMMAND_TOKEN ''set'' then Some NREAD_SET
      else if tok_is toks COMMAND_TOKEN ''replace'' then Some NREAD_REPLACE
      else if tok_is toks COMMAND_TOKEN ''prepend'' then Some NREAD_PREPEND
      else if tok_is toks COMMAND_TOKEN ''append'' then Some NREAD_APPEND
      else None)"

text \<open>The dispatch on the first token; \<open>raise(SIGINT)\<close> ends the server, after the reply state was set.\<close>

definition dispatch_command ::
  "cmd_env \<Rightarrow> token list \<Rightarrow> conn \<Rightarrow> worker_state \<Rightarrow> (conn \<times> worker_state) option" where
  "dispatch_command ce toks c w =
     (let n = length toks; cmd = tok_is toks COMMAND_TOKEN in
      if n \<ge> 3 \<and> (cmd ''get'' \<or> cmd ''bget'') then process_get_command ce toks False c w
      else if (n = 6 \<or> n = 7) \<and> store_command toks \<noteq> None
      then process_update_command ce toks (the (store_command toks)) False c w
      else if (n = 7 \<or> n = 8) \<and> cmd ''cas'' then process_update_command ce toks NREAD_CAS True c w
      else if (n = 4 \<or> n = 5) \<and> cmd ''incr'' then process_arithmetic_command ce toks True c w
      else if n \<ge> 3 \<and> cmd ''gets'' then process_get_command ce toks True c w
      else if (n = 4 \<or> n = 5) \<and> cmd ''decr'' then process_arithmetic_command ce toks False c w
      else if n \<ge> 3 \<and> n \<le> 5 \<and> cmd ''delete'' then process_delete_command ce toks c w
      else if (n = 4 \<or> n = 5) \<and> cmd ''touch'' then process_touch_command toks c w
      else if n \<ge> 2 \<and> cmd ''stats'' then process_stat ce toks c w
      else if n \<ge> 2 \<and> n \<le> 4 \<and> cmd ''flush_all'' then process_flush_all_command toks c w
      else if n = 2 \<and> cmd ''version''
      then map_option (\<lambda>c1. (c1, w)) (out_string (ascii ''VERSION '' @ ce_version ce) c)
      else if n = 2 \<and> cmd ''quit'' then map_option (\<lambda>c1. (c1, w)) (conn_set_state conn_closing c)
      else if n = 2 \<and> cmd ''shutdown''
      then
        if shutdown_command (settings w) then map_option (\<lambda>c1. (c1, w)) (conn_set_state conn_closing c)
        else answer ''ERROR: shutdown not enabled'' c w
      else if n > 1 \<and> cmd ''slabs'' then process_slabs_command toks c w
      else if n > 1 \<and> cmd ''lru_crawler'' then process_crawler_command ce toks c w
      else if (n = 3 \<or> n = 4) \<and> cmd ''verbosity'' then process_verbosity_command toks c w
      else answer ''ERROR'' c w)"

definition process_command ::
  "cmd_env \<Rightarrow> bytes \<Rightarrow> conn \<Rightarrow> worker_state \<Rightarrow> (conn \<times> worker_state) option" where
  "process_command ce cmd c w = do {
     (r, c1) \<leftarrow> add_msghdr (clear_reply c);
     if r \<noteq> 0
     then map_option (\<lambda>c2. (c2, w)) (out_of_memory (literal w) (ascii ''SERVER_ERROR out of memory preparing response'') c1)
     else dispatch_command ce (tokenize_command cmd MAX_TOKENS) c1 w
   }"

end
