(* ===== verification/MC_Binary.thy ===== *)
theory MC_Binary
  imports MC_Command
begin

text \<open>
  The binary protocol (\<open>memcached.c\<close>): the dispatch of a request by its header, reading extras and key,
  and the completion of each command.  Multi-byte fields of the request are read from \<open>rbuf\<close> in
  network byte order.
\<close>

section \<open>The request\<close>

text \<open>The bytes of the key, which ends at \<open>rcurr\<close>, and where the extras before it start.\<close>

definition bin_keylen :: "conn \<Rightarrow> nat" where "bin_keylen c = unat (bh_keylen (header c))"
definition bin_extlen :: "conn \<Rightarrow> nat" where "bin_extlen c = unat (bh_extlen (header c))"

definition binary_get_key :: "conn \<Rightarrow> bytes option" where
  "binary_get_key c = do {
     c_assert (bin_keylen c \<le> rcurr c);
     Some (get_bytes (rbuf c) (rcurr c - bin_keylen c) (bin_keylen c))
   }"

text \<open>The offset of the request.\<close>

definition binary_get_request :: "conn \<Rightarrow> nat option" where
  "binary_get_request c = do {
     c_assert (BIN_HEADER_SIZE + bin_keylen c + bin_extlen c \<le> rcurr c);
     Some (rcurr c - (BIN_HEADER_SIZE + bin_keylen c + bin_extlen c))
   }"

text \<open>A field of the body of the request at \<open>req\<close>.\<close>

definition body_field :: "nat \<Rightarrow> nat \<Rightarrow> nat \<Rightarrow> conn \<Rightarrow> 'a::len word" where
  "body_field req off n c = of_be (get_bytes (rbuf c) (req + BIN_HEADER_SIZE + off) n)"

text \<open>The address of the body of the response in \<open>wbuf\<close>, and writing to it.\<close>

definition rsp_body :: "conn \<Rightarrow> ptr" where "rsp_body c = wbuf_addr c + BIN_HEADER_SIZE"

definition set_rsp_body :: "bytes \<Rightarrow> conn \<Rightarrow> conn" where
  "set_rsp_body bs c = c\<lparr>wbuf := put_bytes BIN_HEADER_SIZE bs (wbuf c)\<rparr>"

definition bin_error ::
  "response_status \<Rightarrow> int \<Rightarrow> conn \<Rightarrow> worker_state \<Rightarrow> (conn \<times> worker_state) option" where
  "bin_error err swallow c w = map_option (\<lambda>c1. (c1, w)) (write_bin_error (literal w) err None swallow c)"

definition bin_oom :: "string \<Rightarrow> conn \<Rightarrow> worker_state \<Rightarrow> (conn \<times> worker_state) option" where
  "bin_oom text c w = map_option (\<lambda>c1. (c1, w)) (out_of_memory (literal w) (ascii text) c)"

definition CMD_SET :: int where "CMD_SET = 0x01"
definition CMD_ADD :: int where "CMD_ADD = 0x02"
definition CMD_REPLACE :: int where "CMD_REPLACE = 0x03"
definition CMD_DELETE :: int where "CMD_DELETE = 0x04"
definition CMD_INCREMENT :: int where "CMD_INCREMENT = 0x05"
definition CMD_DECREMENT :: int where "CMD_DECREMENT = 0x06"
definition CMD_QUIT :: int where "CMD_QUIT = 0x07"
definition CMD_FLUSH :: int where "CMD_FLUSH = 0x08"
definition CMD_GETQ :: int where "CMD_GETQ = 0x09"
definition CMD_NOOP :: int where "CMD_NOOP = 0x0a"
definition CMD_VERSION :: int where "CMD_VERSION = 0x0b"
definition CMD_GETKQ :: int where "CMD_GETKQ = 0x0d"
definition CMD_APPEND :: int where "CMD_APPEND = 0x0e"
definition CMD_PREPEND :: int where "CMD_PREPEND = 0x0f"
definition CMD_STAT :: int where "CMD_STAT = 0x10"
definition CMD_SETQ :: int where "CMD_SETQ = 0x11"
definition CMD_ADDQ :: int where "CMD_ADDQ = 0x12"
definition CMD_REPLACEQ :: int where "CMD_REPLACEQ = 0x13"
definition CMD_DELETEQ :: int where "CMD_DELETEQ = 0x14"
definition CMD_INCREMENTQ :: int where "CMD_INCREMENTQ = 0x15"
definition CMD_DECREMENTQ :: int where "CMD_DECREMENTQ = 0x16"
definition CMD_QUITQ :: int where "CMD_QUITQ = 0x17"
definition CMD_FLUSHQ :: int where "CMD_FLUSHQ = 0x18"
definition CMD_APPENDQ :: int where "CMD_APPENDQ = 0x19"
definition CMD_PREPENDQ :: int where "CMD_PREPENDQ = 0x1a"
definition CMD_TOUCH :: int where "CMD_TOUCH = 0x1c"
definition CMD_GAT :: int where "CMD_GAT = 0x1d"
definition CMD_GATQ :: int where "CMD_GATQ = 0x1e"
definition CMD_GATK :: int where "CMD_GATK = 0x23"
definition CMD_GATKQ :: int where "CMD_GATKQ = 0x24"
definition CMD_SASL_LIST_MECHS :: int where "CMD_SASL_LIST_MECHS = 0x20"
definition CMD_SASL_AUTH :: int where "CMD_SASL_AUTH = 0x21"
definition CMD_SASL_STEP :: int where "CMD_SASL_STEP = 0x22"

lemmas cmd_defs = CMD_GET_def CMD_SET_def CMD_ADD_def CMD_REPLACE_def CMD_DELETE_def CMD_INCREMENT_def
  CMD_DECREMENT_def CMD_QUIT_def CMD_FLUSH_def CMD_GETQ_def CMD_NOOP_def CMD_VERSION_def CMD_GETK_def
  CMD_GETKQ_def CMD_APPEND_def CMD_PREPEND_def CMD_STAT_def CMD_SETQ_def CMD_ADDQ_def CMD_REPLACEQ_def
  CMD_DELETEQ_def CMD_INCREMENTQ_def CMD_DECREMENTQ_def CMD_QUITQ_def CMD_FLUSHQ_def CMD_APPENDQ_def
  CMD_PREPENDQ_def CMD_TOUCH_def CMD_GAT_def CMD_GATQ_def CMD_GATK_def CMD_GATKQ_def
  CMD_SASL_LIST_MECHS_def CMD_SASL_AUTH_def CMD_SASL_STEP_def

section \<open>Arithmetic and storing\<close>

text \<open>The item that \<open>incr\<close> creates: the text of the initial value and the line end.\<close>

definition incr_create ::
  "cmd_env \<Rightarrow> bytes \<Rightarrow> u64 \<Rightarrow> u32 \<Rightarrow> conn \<Rightarrow> worker_state \<Rightarrow> (conn \<times> worker_state) option" where
  "incr_create ce key initial expiration c w = do {
     let c1 = set_rsp_body (be64 initial) c;
     let tmpbuf = show_nat (unat initial);
     (it, w1) \<leftarrow> item_alloc (ce_alloc ce) key (length key) 0 (realtime (int (unat expiration)) w)
                   (int (length tmpbuf) + 2) w;
     if it \<noteq> NULL
     then do {
       let w2 = upd_item it (\<lambda>i. i\<lparr>it_data := data_write (length tmpbuf) crlf (data_write 0 tmpbuf (it_data i))\<rparr>) w1;
       (ret, c2, w3) \<leftarrow> store_item (ce_alloc ce) it NREAD_ADD c1 w2;
       (c3, w4) \<leftarrow> (if ret \<noteq> NOT_STORED
          then do {
            c3 \<leftarrow> write_bin_response (rsp_body c2) 0 0 8 (c2\<lparr>c_cas := ITEM_get_cas (heap w3 it)\<rparr>);
            Some (c3, w3)
          }
          else bin_error NOT_STORED_STATUS 0 c2 w3);
       w5 \<leftarrow> item_remove it w4;
       Some (c3, w5)
     }
     else bin_oom ''SERVER_ERROR Out of memory allocating new item'' c1 w1
   }"

definition complete_incr_bin ::
  "cmd_env \<Rightarrow> conn \<Rightarrow> worker_state \<Rightarrow> (conn \<times> worker_state) option" where
  "complete_incr_bin ce c w = do {
     req \<leftarrow> binary_get_request c;
     c_assert (wsize c \<ge> BIN_HEADER_SIZE + 8);
     let delta = body_field req 0 8 c;
     let initial = body_field req 8 8 c;
     let expiration = body_field req 16 4 c;
     key \<leftarrow> binary_get_key c;
     (ret, tmpbuf, cas, w1) \<leftarrow> add_delta (ce_alloc ce) key (bin_keylen c) (c_cmd c = CMD_INCREMENT) delta
                                 (Some (bh_cas (header c))) w;
     (case ret of
        OK \<Rightarrow> do {
          let c1 = set_rsp_body (be64 (fst (strtoull tmpbuf))) c;
          let c2 = (if the cas \<noteq> 0 then c1\<lparr>c_cas := the cas\<rparr> else c1);
          c3 \<leftarrow> write_bin_response (rsp_body c2) 0 0 8 c2;
          Some (c3, w1)
        }
      | NON_NUMERIC \<Rightarrow> bin_error DELTA_BADVAL 0 c w1
      | EOM \<Rightarrow> bin_oom ''SERVER_ERROR Out of memory incrementing value'' c w1
      | DELTA_ITEM_NOT_FOUND \<Rightarrow>
          if expiration \<noteq> 0xffffffff then incr_create ce key initial expiration c w1
          else bin_error KEY_ENOENT 0 c
                 (my_count (if c_cmd c = CMD_INCREMENT then (\<lambda>t. t\<lparr>incr_misses := incr_misses t + 1\<rparr>)
                            else (\<lambda>t. t\<lparr>decr_misses := decr_misses t + 1\<rparr>)) w1)
      | DELTA_ITEM_CAS_MISMATCH \<Rightarrow> bin_error KEY_EEXISTS 0 c w1)
   }"

definition not_stored_status :: "int \<Rightarrow> response_status" where
  "not_stored_status cmd =
     (if cmd = NREAD_ADD then KEY_EEXISTS else if cmd = NREAD_REPLACE then KEY_ENOENT else NOT_STORED_STATUS)"

definition complete_update_bin ::
  "cmd_env \<Rightarrow> conn \<Rightarrow> worker_state \<Rightarrow> (conn \<times> worker_state) option" where
  "complete_update_bin ce c w = do {
     let it = c_item c;
     let w1 = my_slab_count (it_slabs_clsid (heap w it)) (\<lambda>t. t\<lparr>set_cmds := set_cmds t + 1\<rparr>) w;
     c_assert (2 \<le> it_len (heap w1 it));
     let w2 = upd_item it (\<lambda>i. i\<lparr>it_data := data_write (nat (it_len i - 2)) crlf (it_data i)\<rparr>) w1;
     (ret, c1, w3) \<leftarrow> store_item (ce_alloc ce) it (c_cmd c) c w2;
     (c2, w4) \<leftarrow> (case ret of
         STORED \<Rightarrow> map_option (\<lambda>c2. (c2, w3)) (write_bin_response NULL 0 0 0 c1)
       | EXISTS \<Rightarrow> bin_error KEY_EEXISTS 0 c1 w3
       | NOT_FOUND \<Rightarrow> bin_error KEY_ENOENT 0 c1 w3
       | NOT_STORED \<Rightarrow> bin_error (not_stored_status (c_cmd c1)) 0 c1 w3);
     w5 \<leftarrow> item_remove (c_item c2) w4;
     Some (c2\<lparr>c_item := NULL\<rparr>, w5)
   }"

text \<open>The end of reading the extras and the key of a storage command: the item is allocated and its value read
  next. A failed allocation for \<open>set\<close> drops the old item.\<close>

definition bin_alloc_failed ::
  "bytes \<Rightarrow> int \<Rightarrow> int \<Rightarrow> bool \<Rightarrow> conn \<Rightarrow> worker_state \<Rightarrow> (conn \<times> worker_state) option" where
  "bin_alloc_failed key flags vlen drop_old c w = do {
     ok \<leftarrow> item_size_ok (length key) flags (sint (of_int (vlen + 2) :: u32)) w;
     (c1, w1) \<leftarrow> (if \<not> ok then bin_error E2BIG vlen c w
                  else bin_oom ''SERVER_ERROR Out of memory allocating item'' c w);
     w2 \<leftarrow> (if drop_old then drop_stale key (length key) w1 else Some w1);
     Some (c1\<lparr>write_and_go := conn_swallow\<rparr>, w2)
   }"

definition bin_read_value :: "ptr \<Rightarrow> int \<Rightarrow> int \<Rightarrow> conn \<Rightarrow> worker_state \<Rightarrow> (conn \<times> worker_state) option" where
  "bin_read_value it cmd vlen c w = do {
     c1 \<leftarrow> conn_set_state conn_nread (c\<lparr>c_cmd := cmd, c_item := it, ritem := in_item it 0, rlbytes := vlen\<rparr>);
     Some (c1\<lparr>substate := bin_read_set_value\<rparr>, w)
   }"

definition process_bin_update ::
  "cmd_env \<Rightarrow> conn \<Rightarrow> worker_state \<Rightarrow> (conn \<times> worker_state) option" where
  "process_bin_update ce c w = do {
     req \<leftarrow> binary_get_request c;
     key \<leftarrow> binary_get_key c;
     let flags = sint (body_field req 0 4 c :: u32);
     let expiration = (body_field req 4 4 c :: u32);
     let vlen = sint (bh_bodylen (header c) - (of_nat (bin_keylen c + bin_extlen c)));
     w1 \<leftarrow> count_prefix (\<lambda>mem ok h. stats_prefix_record_set mem ok h key (bin_keylen c)) ce w;
     (it, w2) \<leftarrow> item_alloc (ce_alloc ce) key (bin_keylen c) flags (realtime (int (unat expiration)) w1)
                   (sint (of_int (vlen + 2) :: u32)) w1;
     if it = NULL then bin_alloc_failed key flags vlen (c_cmd c = CMD_SET) c w2
     else do {
       let w3 = upd_item it (ITEM_set_cas (bh_cas (header c))) w2;
       cmd \<leftarrow> (if c_cmd c = CMD_ADD then Some NREAD_ADD
               else if c_cmd c = CMD_SET then Some NREAD_SET
               else if c_cmd c = CMD_REPLACE then Some NREAD_REPLACE else None);
       bin_read_value it (if ITEM_get_cas (heap w3 it) \<noteq> 0 then NREAD_CAS else cmd) vlen c w3
     }
   }"

definition process_bin_append_prepend ::
  "cmd_env \<Rightarrow> conn \<Rightarrow> worker_state \<Rightarrow> (conn \<times> worker_state) option" where
  "process_bin_append_prepend ce c w = do {
     key \<leftarrow> binary_get_key c;
     let vlen = sint (bh_bodylen (header c) - of_nat (bin_keylen c));
     w1 \<leftarrow> count_prefix (\<lambda>mem ok h. stats_prefix_record_set mem ok h key (bin_keylen c)) ce w;
     (it, w2) \<leftarrow> item_alloc (ce_alloc ce) key (bin_keylen c) 0 0 (sint (of_int (vlen + 2) :: u32)) w1;
     if it = NULL then bin_alloc_failed key 0 vlen False c w2
     else do {
       let w3 = upd_item it (ITEM_set_cas (bh_cas (header c))) w2;
       cmd \<leftarrow> (if c_cmd c = CMD_APPEND then Some NREAD_APPEND
               else if c_cmd c = CMD_PREPEND then Some NREAD_PREPEND else None);
       bin_read_value it cmd vlen c w3
     }
   }"

section \<open>Lookups, flush and delete\<close>

definition bin_hit ::
  "bool \<Rightarrow> bool \<Rightarrow> bool \<Rightarrow> ptr \<Rightarrow> conn \<Rightarrow> worker_state \<Rightarrow> (conn \<times> worker_state) option" where
  "bin_hit should_touch should_return_key should_return_value it c w = do {
     w1 \<leftarrow> item_update it w;
     let j = heap w1 it;
     let w2 = (if should_touch
               then my_slab_count (it_slabs_clsid j) (\<lambda>t. t\<lparr>touch_hits := touch_hits t + 1\<rparr>)
                      (my_count (\<lambda>t. t\<lparr>touch_cmds := touch_cmds t + 1\<rparr>) w1)
               else my_slab_count (it_slabs_clsid j) (\<lambda>t. t\<lparr>get_hits := get_hits t + 1\<rparr>)
                      (my_count (\<lambda>t. t\<lparr>get_cmds := get_cmds t + 1\<rparr>) w1));
     let nkey = bin_keylen c;
     let vlen = it_len j - 2;
     let bodylen = (if c_cmd c = CMD_TOUCH then 4 else if should_return_key then 4 + vlen + int nkey else 4 + vlen);
     let keylen = (if c_cmd c \<noteq> CMD_TOUCH \<and> should_return_key then nkey else 0);
     c1 \<leftarrow> add_bin_header 0 4 (of_nat keylen) (of_int bodylen) c;
     let c2 = c1\<lparr>wbuf := put_bytes 16 (be64 (ITEM_get_cas j) @ be32 (ucast (fst (strtoull (c_string (it_suffix j))))))
                           (wbuf c1)\<rparr>;
     (_, c3) \<leftarrow> add_iov (rsp_body c2) 4 c2;
     (_, c4) \<leftarrow> (if should_return_key then add_iov (key_addr w2 it) (int nkey) c3 else Some (0, c3));
     (_, c5) \<leftarrow> (if should_return_value then add_iov (data_addr w2 it) vlen c4 else Some (0, c4));
     c6 \<leftarrow> conn_set_state conn_mwrite c5;
     Some (c6\<lparr>write_and_go := conn_new_cmd, c_item := it\<rparr>, w2)
   }"

definition bin_miss :: "bool \<Rightarrow> bool \<Rightarrow> bytes \<Rightarrow> conn \<Rightarrow> worker_state \<Rightarrow> (conn \<times> worker_state) option" where
  "bin_miss should_touch should_return_key key c w =
     (let w1 = my_count (if should_touch
                 then (\<lambda>t. t\<lparr>touch_cmds := touch_cmds t + 1, touch_misses := touch_misses t + 1\<rparr>)
                 else (\<lambda>t. t\<lparr>get_cmds := get_cmds t + 1, get_misses := get_misses t + 1\<rparr>)) w
      in if noreply c then map_option (\<lambda>c1. (c1, w1)) (conn_set_state conn_new_cmd c)
         else if should_return_key
         then do {
           let nkey = length key;
           c1 \<leftarrow> add_bin_header (status_code KEY_ENOENT) 0 (of_nat nkey) (of_nat nkey) c;
           let c2 = set_rsp_body key c1;
           (_, c3) \<leftarrow> add_iov (rsp_body c2) (int nkey) c2;
           c4 \<leftarrow> conn_set_state conn_mwrite c3;
           Some (c4\<lparr>write_and_go := conn_new_cmd\<rparr>, w1)
         }
         else bin_error KEY_ENOENT 0 c w1)"

definition process_bin_get_or_touch ::
  "cmd_env \<Rightarrow> conn \<Rightarrow> worker_state \<Rightarrow> (conn \<times> worker_state) option" where
  "process_bin_get_or_touch ce c w = do {
     key \<leftarrow> binary_get_key c;
     let nkey = bin_keylen c;
     let should_touch = c_cmd c \<in> {CMD_TOUCH, CMD_GAT, CMD_GATK};
     let should_return_key = c_cmd c \<in> {CMD_GETK, CMD_GATK};
     let should_return_value = c_cmd c \<noteq> CMD_TOUCH;
     (it, w1) \<leftarrow> (if should_touch
       then do {
         req \<leftarrow> binary_get_request c;
         item_touch key nkey (realtime (int (unat (body_field req 0 4 c :: u32))) w) w
       }
       else item_get key nkey w);
     (c1, w2) \<leftarrow> (if it \<noteq> NULL then bin_hit should_touch should_return_key should_return_value it c w1
                  else bin_miss should_touch should_return_key key c w1);
     w3 \<leftarrow> count_prefix (\<lambda>mem ok h. stats_prefix_record_get mem ok h key nkey (it \<noteq> NULL)) ce w2;
     Some (c1, w3)
   }"

definition process_bin_flush :: "conn \<Rightarrow> worker_state \<Rightarrow> (conn \<times> worker_state) option" where
  "process_bin_flush c w = do {
     req \<leftarrow> binary_get_request c;
     if \<not> flush_enabled (settings w) then bin_error AUTH_ERROR 0 c w
     else do {
       let exptime = (if bin_extlen c = 4 then int (unat (body_field req 0 4 c :: u32)) else 0);
       let t = (if exptime > 0 then realtime exptime w - 1 else current_time w - 1);
       w1 \<leftarrow> item_flush_expired (upd_settings (\<lambda>s. s\<lparr>oldest_live := t\<rparr>) w);
       c1 \<leftarrow> write_bin_response NULL 0 0 0 c;
       Some (c1, my_count (\<lambda>t. t\<lparr>flush_cmds := flush_cmds t + 1\<rparr>) w1)
     }
   }"

definition process_bin_delete ::
  "cmd_env \<Rightarrow> conn \<Rightarrow> worker_state \<Rightarrow> (conn \<times> worker_state) option" where
  "process_bin_delete ce c w = do {
     req \<leftarrow> binary_get_request c;
     key \<leftarrow> binary_get_key c;
     w1 \<leftarrow> count_prefix (\<lambda>mem ok h. stats_prefix_record_delete mem ok h key (bin_keylen c)) ce w;
     (it, w2) \<leftarrow> item_get key (bin_keylen c) w1;
     if it \<noteq> NULL
     then do {
       let cas = (of_be (get_bytes (rbuf c) (req + 16) 8) :: u64);
       (c1, w3) \<leftarrow> (if cas = 0 \<or> cas = ITEM_get_cas (heap w2 it)
         then do {
           w3 \<leftarrow> item_unlink it (my_slab_count (it_slabs_clsid (heap w2 it)) (\<lambda>t. t\<lparr>delete_hits := delete_hits t + 1\<rparr>) w2);
           c1 \<leftarrow> write_bin_response NULL 0 0 0 c;
           Some (c1, w3)
         }
         else bin_error KEY_EEXISTS 0 c w2);
       w4 \<leftarrow> item_remove it w3;
       Some (c1, w4)
     }
     else bin_error KEY_ENOENT 0 c (my_count (\<lambda>t. t\<lparr>delete_misses := delete_misses t + 1\<rparr>) w2)
   }"

section \<open>Statistics over the binary protocol\<close>

text \<open>\<open>strncmp(subcommand + off, text, strlen(text)) == 0\<close>; the comparison may read beyond the key.\<close>

definition sub_is :: "conn \<Rightarrow> nat \<Rightarrow> string \<Rightarrow> bool" where
  "sub_is c off text = (get_bytes (rbuf c) (rcurr c - bin_keylen c + off) (length text) = ascii text)"

definition bin_send_stats :: "cmd_env \<Rightarrow> string \<Rightarrow> conn \<Rightarrow> worker_state \<Rightarrow> (conn \<times> worker_state) option" where
  "bin_send_stats ce oom c w =
     (case stats_buffer c of
        None \<Rightarrow> bin_oom oom c w
      | Some b \<Rightarrow> do {
          c1 \<leftarrow> write_and_free (literal w) (ce_dump ce) b c;
          Some (c1\<lparr>stats_buffer := None\<rparr>, w)
        })"

definition process_bin_stat ::
  "cmd_env \<Rightarrow> conn \<Rightarrow> worker_state \<Rightarrow> (conn \<times> worker_state) option" where
  "process_bin_stat ce c w = do {
     sub \<leftarrow> binary_get_key c;
     let finish = (\<lambda>c1 w1. do {
           c2 \<leftarrow> append_stats [] [] c1;
           bin_send_stats ce ''SERVER_ERROR Out of memory preparing to send stats'' c2 w1
         });
     if bin_keylen c = 0
     then do {
       c1 \<leftarrow> server_stats ce w c;
       (_, c2, w1) \<leftarrow> get_stats True None c1 w;
       finish c2 w1
     }
     else if sub_is c 0 ''reset'' then do { w1 \<leftarrow> stats_reset w; finish c w1 }
     else if sub_is c 0 ''settings'' then do { c1 \<leftarrow> process_stat_settings w c; finish c1 w }
     else if sub_is c 0 ''detail''
     then
       if sub_is c 6 '' dump''
       then do {
         d \<leftarrow> stats_prefix_dump (ce_dump ce \<noteq> NULL) (prefixes w);
         (case d of
            None \<Rightarrow> bin_oom ''SERVER_ERROR Out of memory generating stats'' c w
          | Some text \<Rightarrow> do { c1 \<leftarrow> append_stats (ascii ''detailed'') text c; finish c1 w })
       }
       else if sub_is c 6 '' on'' then finish c (upd_settings (\<lambda>s. s\<lparr>detail_enabled := True\<rparr>) w)
       else if sub_is c 6 '' off'' then finish c (upd_settings (\<lambda>s. s\<lparr>detail_enabled := False\<rparr>) w)
       else bin_error KEY_ENOENT 0 c w
     else do {
       (found, c1, w1) \<leftarrow> get_stats (ce_dump ce \<noteq> NULL) (Some sub) c w;
       if found then bin_send_stats ce ''SERVER_ERROR Out of memory generating stats'' c1 w1
       else bin_error KEY_ENOENT 0 c1 w1
     }
   }"

section \<open>Reading extras and key\<close>

text \<open>Doubling the size of the input buffer until the request fits.\<close>

fun grow_rsize :: "nat \<Rightarrow> nat \<Rightarrow> nat \<Rightarrow> nat" where
  "grow_rsize 0 sz nsize = nsize"
| "grow_rsize (Suc n) sz nsize = (if sz > nsize then grow_rsize n sz (2 * nsize) else nsize)"

definition repack_rbuf :: "conn \<Rightarrow> conn" where
  "repack_rbuf c =
     (if rcurr c \<noteq> 0 then c\<lparr>rbuf := put_bytes 0 (get_bytes (rbuf c) (rcurr c) (rbytes c)) (rbuf c), rcurr := 0\<rparr> else c)"

text \<open>The loop does not end for a buffer of size 0.\<close>

definition bin_read_key :: "bin_substates \<Rightarrow> nat \<Rightarrow> conn \<Rightarrow> conn option" where
  "bin_read_key next_substate extra c =
     (let need = nat (c_keylen c) + extra;
          c1 = c\<lparr>substate := next_substate, rlbytes := int need\<rparr>;
          offset = rcurr c1 + BIN_HEADER_SIZE;
          ready = (\<lambda>c2. conn_set_state conn_nread (c2\<lparr>ritem := in_rbuf (rcurr c2 + BIN_HEADER_SIZE)\<rparr>))
      in if int need > int (rsize c1) - int offset
         then do {
           let sz = need + BIN_HEADER_SIZE;
           c_assert (0 < rsize c1);
           let nsize = grow_rsize sz sz (rsize c1);
           if nsize \<noteq> rsize c1
           then (case realloc_result c1 of (ok, c2) \<Rightarrow>
             if \<not> ok then conn_set_state conn_closing c2 else ready (repack_rbuf (c2\<lparr>rsize := nsize\<rparr>)))
           else ready (repack_rbuf c1)
         }
         else ready c1)"

definition handle_binary_protocol_error :: "conn \<Rightarrow> worker_state \<Rightarrow> (conn \<times> worker_state) option" where
  "handle_binary_protocol_error c w =
     map_option (\<lambda>(c1, w1). (c1\<lparr>write_and_go := conn_closing\<rparr>, w1)) (bin_error EINVAL 0 c w)"

section \<open>Authentication\<close>

definition MAX_SASL_MECH_LEN :: nat where "MAX_SASL_MECH_LEN = 32"

definition init_sasl_conn :: "cmd_env \<Rightarrow> conn \<Rightarrow> worker_state \<Rightarrow> conn" where
  "init_sasl_conn ce c w =
     (if \<not> sasl (settings w) then c
      else let c1 = c\<lparr>authenticated_flag := False\<rparr>
           in if \<not> sasl_conn c1 then c1\<lparr>sasl_conn := ce_sasl_new ce\<rparr> else c1)"

text \<open>\<open>bodylen - keylen\<close> as an \<open>int\<close>.\<close>

definition bin_vlen :: "conn \<Rightarrow> int" where
  "bin_vlen c = sint (bh_bodylen (header c) - of_nat (bin_keylen c))"

definition bin_list_sasl_mechs :: "cmd_env \<Rightarrow> conn \<Rightarrow> worker_state \<Rightarrow> (conn \<times> worker_state) option" where
  "bin_list_sasl_mechs ce c w =
     (if \<not> sasl (settings w) then bin_error UNKNOWN_COMMAND (bin_vlen c) c w
      else let c1 = init_sasl_conn ce c w
           in case ce_sasl_mechs ce of
                None \<Rightarrow> bin_error AUTH_ERROR 0 c1 w
              | Some (text, len) \<Rightarrow> map_option (\<lambda>c2. (c2, w)) (write_bin_response text 0 0 (int len) c1))"

definition process_bin_sasl_auth :: "cmd_env \<Rightarrow> conn \<Rightarrow> worker_state \<Rightarrow> (conn \<times> worker_state) option" where
  "process_bin_sasl_auth ce c w =
     (if \<not> sasl (settings w) then bin_error UNKNOWN_COMMAND (bin_vlen c) c w
      else do {
        c_assert (bin_extlen c = 0);
        let vlen = bin_vlen c;
        let swallow = map_option (\<lambda>(c1, w1). (c1\<lparr>write_and_go := conn_swallow\<rparr>, w1));
        if bin_keylen c > MAX_SASL_MECH_LEN then swallow (bin_error EINVAL vlen c w)
        else do {
          key \<leftarrow> binary_get_key c;
          (it, w1) \<leftarrow> item_alloc (ce_alloc ce) key (bin_keylen c) 0 0 vlen w;
          if it = NULL then swallow (bin_error ENOMEM vlen c w1)
          else do {
            c1 \<leftarrow> conn_set_state conn_nread (c\<lparr>c_item := it, ritem := in_item it 0, rlbytes := vlen\<rparr>);
            Some (c1\<lparr>substate := bin_reading_sasl_auth_data\<rparr>, w1)
          }
        }
      })"

definition process_bin_complete_sasl_auth ::
  "cmd_env \<Rightarrow> conn \<Rightarrow> worker_state \<Rightarrow> (conn \<times> worker_state) option" where
  "process_bin_complete_sasl_auth ce c0 w = do {
     c_assert (sasl (settings w) \<and> c_item c0 \<noteq> NULL);
     let c = init_sasl_conn ce c0 w;
     let it = heap w (c_item c);
     let mech = c_string (take (bin_keylen c) (it_key it));
     let vlen = bin_vlen c;
     let challenge = (if vlen = 0 then None else Some (data_read 0 (nat vlen) (it_data it)));
     c_assert (c_cmd c = CMD_SASL_AUTH \<or> c_cmd c = CMD_SASL_STEP);
     let result = ce_sasl_auth ce (c_cmd c = CMD_SASL_AUTH) mech challenge;
     w1 \<leftarrow> item_unlink (c_item c) w;
     let auth = my_count (\<lambda>t. t\<lparr>auth_cmds := auth_cmds t + 1\<rparr>);
     (case result of
        Sasl_ok \<Rightarrow> do {
          let text = ascii ''Authenticated'';
          c1 \<leftarrow> write_bin_response (literal w1 text) 0 0 (int (length text)) (c\<lparr>authenticated_flag := True\<rparr>);
          Some (c1, auth w1)
        }
      | Sasl_continue out outlen \<Rightarrow> do {
          c1 \<leftarrow> add_bin_header (status_code AUTH_CONTINUE) 0 0 (of_nat outlen) c;
          (_, c2) \<leftarrow> (if outlen > 0 then add_iov out (int outlen) c1 else Some (0, c1));
          c3 \<leftarrow> conn_set_state conn_mwrite c2;
          Some (c3\<lparr>write_and_go := conn_new_cmd\<rparr>, w1)
        }
      | Sasl_error \<Rightarrow> do {
          (c1, w2) \<leftarrow> bin_error AUTH_ERROR 0 c w1;
          Some (c1, my_count (\<lambda>t. t\<lparr>auth_errors := auth_errors t + 1\<rparr>) (auth w2))
        })
   }"

definition authenticated :: "conn \<Rightarrow> worker_state \<Rightarrow> bool option" where
  "authenticated c w = do {
     c_assert (sasl (settings w));
     Some (c_cmd c \<in> {CMD_SASL_LIST_MECHS, CMD_SASL_AUTH, CMD_SASL_STEP, CMD_VERSION} \<or> authenticated_flag c)
   }"

section \<open>Dispatch\<close>

text \<open>The quiet commands and the commands they stand for.\<close>

definition quiet_command :: "int \<Rightarrow> int option" where
  "quiet_command cmd = map_of
     [(CMD_SETQ, CMD_SET), (CMD_ADDQ, CMD_ADD), (CMD_REPLACEQ, CMD_REPLACE), (CMD_DELETEQ, CMD_DELETE),
      (CMD_INCREMENTQ, CMD_INCREMENT), (CMD_DECREMENTQ, CMD_DECREMENT), (CMD_QUITQ, CMD_QUIT),
      (CMD_FLUSHQ, CMD_FLUSH), (CMD_APPENDQ, CMD_APPEND), (CMD_PREPENDQ, CMD_PREPEND), (CMD_GETQ, CMD_GET),
      (CMD_GETKQ, CMD_GETK), (CMD_GATQ, CMD_GAT), (CMD_GATKQ, CMD_GAT)] cmd"

text \<open>The commands that are followed by extras and a key: what the header must say, the next state, and the
  length of the extras.\<close>

definition key_request :: "int \<Rightarrow> nat \<Rightarrow> nat \<Rightarrow> nat \<Rightarrow> (bool \<times> bin_substates \<times> nat) option" where
  "key_request cmd extlen keylen bodylen =
     (if cmd = CMD_FLUSH
      then Some (keylen = 0 \<and> bodylen = extlen \<and> (extlen = 0 \<or> extlen = 4), bin_read_flush_exptime, extlen)
      else if cmd \<in> {CMD_SET, CMD_ADD, CMD_REPLACE}
      then Some (extlen = 8 \<and> keylen \<noteq> 0 \<and> bodylen \<ge> keylen + 8, bin_reading_set_header, 8)
      else if cmd \<in> {CMD_GETQ, CMD_GET, CMD_GETKQ, CMD_GETK}
      then Some (extlen = 0 \<and> bodylen = keylen \<and> keylen > 0, bin_reading_get_key, 0)
      else if cmd = CMD_DELETE
      then Some (keylen > 0 \<and> extlen = 0 \<and> bodylen = keylen, bin_reading_del_header, extlen)
      else if cmd \<in> {CMD_INCREMENT, CMD_DECREMENT}
      then Some (keylen > 0 \<and> extlen = 20 \<and> bodylen = keylen + extlen, bin_reading_incr_header, 20)
      else if cmd \<in> {CMD_APPEND, CMD_PREPEND}
      then Some (keylen > 0 \<and> extlen = 0, bin_reading_set_header, 0)
      else if cmd = CMD_STAT then Some (extlen = 0, bin_reading_stat, 0)
      else if cmd \<in> {CMD_SASL_AUTH, CMD_SASL_STEP}
      then Some (extlen = 0 \<and> keylen \<noteq> 0, bin_reading_sasl_auth, 0)
      else if cmd \<in> {CMD_TOUCH, CMD_GAT, CMD_GATQ, CMD_GATK, CMD_GATKQ}
      then Some (extlen = 4 \<and> keylen \<noteq> 0, bin_reading_touch_key, 4)
      else None)"

text \<open>The commands that are complete with the header.\<close>

definition header_command ::
  "cmd_env \<Rightarrow> bool \<Rightarrow> conn \<Rightarrow> worker_state \<Rightarrow> (conn \<times> worker_state) option" where
  "header_command ce bare c w =
     (let say = (\<lambda>text c1. map_option (\<lambda>c2. (c2, w)) (write_bin_response (literal w text) 0 0 (int (length text)) c1));
          empty_reply = map_option (\<lambda>c2. (c2, w)) (write_bin_response NULL 0 0 0 c)
      in if c_cmd c \<in> {CMD_VERSION, CMD_NOOP, CMD_QUIT, CMD_SASL_LIST_MECHS} \<and> \<not> bare
         then handle_binary_protocol_error c w
         else if c_cmd c = CMD_VERSION then say (ce_version ce) c
         else if c_cmd c = CMD_NOOP then empty_reply
         else if c_cmd c = CMD_QUIT
         then do {
           (c1, w1) \<leftarrow> empty_reply;
           let c2 = c1\<lparr>write_and_go := conn_closing\<rparr>;
           c3 \<leftarrow> (if noreply c2 then conn_set_state conn_closing c2 else Some c2);
           Some (c3, w1)
         }
         else if c_cmd c = CMD_SASL_LIST_MECHS then bin_list_sasl_mechs ce c w
         else bin_error UNKNOWN_COMMAND (sint (bh_bodylen (header c))) c w)"

definition dispatch_bin_command :: "cmd_env \<Rightarrow> conn \<Rightarrow> worker_state \<Rightarrow> (conn \<times> worker_state) option" where
  "dispatch_bin_command ce c w = do {
     let extlen = bin_extlen c;
     let keylen = bin_keylen c;
     let bodylen = unat (bh_bodylen (header c));
     ok \<leftarrow> (if sasl (settings w) then authenticated c w else Some True);
     if \<not> ok
     then map_option (\<lambda>(c1, w1). (c1\<lparr>write_and_go := conn_closing\<rparr>, w1)) (bin_error AUTH_ERROR 0 c w)
     else if keylen > KEY_MAX_LENGTH then handle_binary_protocol_error (c\<lparr>noreply := True\<rparr>) w
     else
       let c1 = (case quiet_command (c_cmd c) of
           Some cmd \<Rightarrow> c\<lparr>noreply := True, c_cmd := cmd\<rparr> | None \<Rightarrow> c\<lparr>noreply := False\<rparr>)
       in case key_request (c_cmd c1) extlen keylen bodylen of
            Some (valid, next_substate, extra) \<Rightarrow>
              if valid then map_option (\<lambda>c2. (c2, w)) (bin_read_key next_substate extra c1)
              else handle_binary_protocol_error c1 w
          | None \<Rightarrow> header_command ce (extlen = 0 \<and> keylen = 0 \<and> bodylen = 0) c1 w
   }"

definition complete_nread_binary :: "cmd_env \<Rightarrow> conn \<Rightarrow> worker_state \<Rightarrow> (conn \<times> worker_state) option" where
  "complete_nread_binary ce c w = do {
     c_assert (c_cmd c \<ge> 0);
     (case substate c of
        bin_reading_set_header \<Rightarrow>
          if c_cmd c = CMD_APPEND \<or> c_cmd c = CMD_PREPEND then process_bin_append_prepend ce c w
          else process_bin_update ce c w
      | bin_read_set_value \<Rightarrow> complete_update_bin ce c w
      | bin_reading_get_key \<Rightarrow> process_bin_get_or_touch ce c w
      | bin_reading_touch_key \<Rightarrow> process_bin_get_or_touch ce c w
      | bin_reading_stat \<Rightarrow> process_bin_stat ce c w
      | bin_reading_del_header \<Rightarrow> process_bin_delete ce c w
      | bin_reading_incr_header \<Rightarrow> complete_incr_bin ce c w
      | bin_read_flush_exptime \<Rightarrow> process_bin_flush c w
      | bin_reading_sasl_auth \<Rightarrow> process_bin_sasl_auth ce c w
      | bin_reading_sasl_auth_data \<Rightarrow> process_bin_complete_sasl_auth ce c w
      | _ \<Rightarrow> None)
   }"

definition complete_nread :: "cmd_env \<Rightarrow> conn \<Rightarrow> worker_state \<Rightarrow> (conn \<times> worker_state) option" where
  "complete_nread ce c w =
     (case c_protocol c of
        ascii_prot \<Rightarrow> complete_nread_ascii (ce_alloc ce) c w
      | binary_prot \<Rightarrow> complete_nread_binary ce c w
      | negotiating_prot \<Rightarrow> None)"

end
