(* ===== verification/MC_Machine.thy ===== *)
theory MC_Machine
  imports MC_Binary
begin

text \<open>
  The state machine of a connection (\<open>memcached.c\<close>): reading requests from the network, the parsing of a
  command, sending the reply, and \<open>drive_machine\<close>, one step for each state.  What the system calls
  return is a stream of outcomes in \<open>net\<close>.
\<close>

section \<open>The network\<close>

text \<open>\<open>reads\<close>: what the next calls of \<open>read\<close> and \<open>recvfrom\<close> find; bytes beyond the size of the buffer wait for
  the next \<open>read\<close>. \<open>sends\<close>: how many bytes \<open>sendmsg\<close> takes. \<open>calls\<close>: whether the next calls of \<open>event_del\<close>,
  \<open>event_add\<close> and \<open>fcntl\<close> succeed. \<open>sent\<close> is what was sent, byte by byte, by address.\<close>

datatype read_result = Rd_data bytes | Rd_eof | Rd_again | Rd_error
datatype send_result = Snd nat | Snd_again | Snd_error
datatype accept_result = Acc int | Acc_nosys | Acc_again | Acc_emfile | Acc_error

record net =
  reads :: "read_result list"
  sends :: "send_result list"
  accepts :: "accept_result list"
  calls :: "bool list"
  sent :: "ptr list"
  use_accept4 :: bool
  dispatched :: "int list"
  turned_away :: "int list"
  listeners :: "conn list"
  maxconns_timer :: bool

definition next_call :: "net \<Rightarrow> bool \<times> net" where
  "next_call n = (case calls n of [] \<Rightarrow> (True, n) | ok # oks \<Rightarrow> (ok, n\<lparr>calls := oks\<rparr>))"

text \<open>\<open>read(fd, buf, len)\<close> from a stream; a \<open>len\<close> of 0 or less is not modelled.\<close>

definition net_read :: "int \<Rightarrow> net \<Rightarrow> (read_result \<times> net) option" where
  "net_read len n = do {
     c_assert (0 < len);
     (case reads n of
        [] \<Rightarrow> Some (Rd_again, n)
      | Rd_data bs # rs \<Rightarrow> do {
          c_assert (bs \<noteq> []);
          let rest = drop (nat len) bs;
          Some (Rd_data (take (nat len) bs), n\<lparr>reads := (if rest = [] then rs else Rd_data rest # rs)\<rparr>)
        }
      | r # rs \<Rightarrow> Some (r, n\<lparr>reads := rs\<rparr>))
   }"

section \<open>Commands in the input buffer\<close>

definition parse_header :: "bytes \<Rightarrow> binary_header" where
  "parse_header bs =
     \<lparr>bh_magic = bs ! 0, bh_opcode = bs ! 1, bh_keylen = of_be (take 2 (drop 2 bs)), bh_extlen = bs ! 4,
      bh_bodylen = of_be (take 4 (drop 8 bs)), bh_opaque = take 4 (drop 12 bs), bh_cas = of_be (take 8 (drop 16 bs))\<rparr>"

definition try_read_binary :: "cmd_env \<Rightarrow> conn \<Rightarrow> worker_state \<Rightarrow> (int \<times> conn \<times> worker_state) option" where
  "try_read_binary ce c w =
     (if rbytes c < BIN_HEADER_SIZE then Some (0, c, w)
      else
        let h = parse_header (get_bytes (rbuf c) (rcurr c) BIN_HEADER_SIZE);
            c1 = c\<lparr>header := h\<rparr>
        in if bh_magic h \<noteq> PROTOCOL_BINARY_REQ
           then map_option (\<lambda>c2. (-1, c2, w)) (conn_set_state conn_closing c1)
           else do {
             (r, c2) \<leftarrow> add_msghdr (clear_reply c1);
             if r \<noteq> 0
             then map_option (\<lambda>(c3, w1). (0, c3, w1)) (bin_oom ''SERVER_ERROR Out of memory allocating headers'' c2 w)
             else do {
               (c3, w1) \<leftarrow> dispatch_bin_command ce
                  (c2\<lparr>c_cmd := int (unat (bh_opcode h)), c_keylen := int (unat (bh_keylen h)), c_opaque := bh_opaque h, c_cas := 0\<rparr>) w;
               Some (1, c3\<lparr>rbytes := rbytes c3 - BIN_HEADER_SIZE, rcurr := rcurr c3 + BIN_HEADER_SIZE\<rparr>, w1)
             }
           })"

text \<open>A line of the text protocol; the command is the string up to the line end or to a NUL in it. A line that is
  longer than 1024 bytes must be a \<open>get\<close>.\<close>

definition long_line_ok :: "conn \<Rightarrow> bool" where
  "long_line_ok c =
     (let buf = get_bytes (rbuf c) (rcurr c) (rbytes c + 5);
          spaces = length (takeWhile (\<lambda>b. b = 32) buf);
          text = drop spaces buf
      in spaces \<le> 100 \<and> (take 4 text = ascii ''get '' \<or> take 5 text = ascii ''gets ''))"

definition try_read_text :: "cmd_env \<Rightarrow> conn \<Rightarrow> worker_state \<Rightarrow> (int \<times> conn \<times> worker_state) option" where
  "try_read_text ce c w =
     (let buf = get_bytes (rbuf c) (rcurr c) (rbytes c);
          el = length (takeWhile (\<lambda>b. b \<noteq> 10) buf)
      in if rbytes c = 0 then Some (0, c, w)
         else if el = length buf
         then
           if rbytes c > 1024 \<and> \<not> long_line_ok c then map_option (\<lambda>c1. (1, c1, w)) (conn_set_state conn_closing c)
           else Some (0, c, w)
         else do {
           let el' = (if el > 1 \<and> buf ! (el - 1) = 13 then el - 1 else el);
           (c1, w1) \<leftarrow> process_command ce (c_string (take el' buf)) (c\<lparr>last_cmd_time := current_time w\<rparr>) w;
           Some (1, c1\<lparr>rbytes := rbytes c1 - (el + 1), rcurr := rcurr c1 + (el + 1)\<rparr>, w1)
         })"

definition try_read_command :: "cmd_env \<Rightarrow> conn \<Rightarrow> worker_state \<Rightarrow> (int \<times> conn \<times> worker_state) option" where
  "try_read_command ce c w = do {
     c_assert (rcurr c \<le> rsize c \<and> 0 < rbytes c);
     let c1 = (if c_protocol c = negotiating_prot \<or> is_udp c
               then c\<lparr>c_protocol := (if rbuf c 0 = PROTOCOL_BINARY_REQ then binary_prot else ascii_prot)\<rparr> else c);
     if c_protocol c1 = binary_prot then try_read_binary ce c1 w else try_read_text ce c1 w
   }"

section \<open>Reading\<close>

datatype try_read_result = READ_DATA_RECEIVED | READ_NO_DATA_RECEIVED | READ_ERROR | READ_MEMORY_ERROR

definition SIZEOF_REQUEST_ADDR :: nat where "SIZEOF_REQUEST_ADDR = 28"

definition count_read :: "nat \<Rightarrow> worker_state \<Rightarrow> worker_state" where
  "count_read k = my_count (\<lambda>t. t\<lparr>bytes_read := bytes_read t + of_nat k\<rparr>)"

text \<open>A datagram; what does not fit into the buffer is lost.\<close>

definition try_read_udp ::
  "conn \<Rightarrow> worker_state \<Rightarrow> net \<Rightarrow> (try_read_result \<times> conn \<times> worker_state \<times> net) option" where
  "try_read_udp c w n =
     (let c1 = c\<lparr>request_addr_size := SIZEOF_REQUEST_ADDR\<rparr> in
      case reads n of
        Rd_data bs # rs \<Rightarrow>
          let n1 = n\<lparr>reads := rs\<rparr>; buf = take (rsize c) bs; res = length buf; c2 = c1\<lparr>rbuf := put_bytes 0 buf (rbuf c1)\<rparr> in
          if res > 8
          then
            let w1 = count_read res w;
                c3 = c2\<lparr>request_id := int (unat (buf ! 0)) * 256 + int (unat (buf ! 1))\<rparr>
            in if buf ! 4 \<noteq> 0 \<or> buf ! 5 \<noteq> 1
               then do {
                 c4 \<leftarrow> out_string (ascii ''SERVER_ERROR multi-packet request not supported'') c3;
                 Some (READ_NO_DATA_RECEIVED, c4, w1, n1)
               }
               else Some (READ_DATA_RECEIVED,
                      c3\<lparr>rbuf := put_bytes 0 (drop 8 buf) (rbuf c3), rbytes := res - 8, rcurr := 0\<rparr>, w1, n1)
          else Some (READ_NO_DATA_RECEIVED, c2, w, n1)
      | rs \<Rightarrow> Some (READ_NO_DATA_RECEIVED, c1, w, n\<lparr>reads := drop 1 rs\<rparr>))"

text \<open>One \<open>read\<close> behind the bytes that are already there; \<open>cont\<close> is what follows when it fills the buffer.\<close>

definition read_once ::
  "(conn \<Rightarrow> worker_state \<Rightarrow> net \<Rightarrow> (try_read_result \<times> conn \<times> worker_state \<times> net) option) \<Rightarrow> try_read_result \<Rightarrow>
   conn \<Rightarrow> worker_state \<Rightarrow> net \<Rightarrow> (try_read_result \<times> conn \<times> worker_state \<times> net) option" where
  "read_once cont gotdata c w n = do {
     let avail = int (rsize c) - int (rbytes c);
     (r, n1) \<leftarrow> net_read avail n;
     (case r of
        Rd_data bs \<Rightarrow>
          let c1 = c\<lparr>rbuf := put_bytes (rbytes c) bs (rbuf c), rbytes := rbytes c + length bs\<rparr>;
              w1 = count_read (length bs) w
          in if int (length bs) = avail then cont c1 w1 n1 else Some (READ_DATA_RECEIVED, c1, w1, n1)
      | Rd_eof \<Rightarrow> Some (READ_ERROR, c, w, n1)
      | Rd_again \<Rightarrow> Some (gotdata, c, w, n1)
      | Rd_error \<Rightarrow> Some (READ_ERROR, c, w, n1))
   }"

text \<open>The buffer is full: it is enlarged, at most four times in one call.\<close>

primrec read_full ::
  "nat \<Rightarrow> try_read_result \<Rightarrow> conn \<Rightarrow> worker_state \<Rightarrow> net \<Rightarrow> (try_read_result \<times> conn \<times> worker_state \<times> net) option" where
  "read_full 0 gotdata c w n = Some (gotdata, c, w, n)"
| "read_full (Suc k) gotdata c w n =
     (case realloc_result c of (ok, c1) \<Rightarrow>
        if \<not> ok
        then do {
          c2 \<leftarrow> out_of_memory (literal w) (ascii ''SERVER_ERROR out of memory reading request'') (c1\<lparr>rbytes := 0\<rparr>);
          Some (READ_MEMORY_ERROR, c2\<lparr>write_and_go := conn_closing\<rparr>, w, n)
        }
        else read_once (read_full k READ_DATA_RECEIVED) gotdata (c1\<lparr>rcurr := 0, rsize := rsize c1 * 2\<rparr>) w n)"

definition try_read_network ::
  "conn \<Rightarrow> worker_state \<Rightarrow> net \<Rightarrow> (try_read_result \<times> conn \<times> worker_state \<times> net) option" where
  "try_read_network c w n =
     (let c1 = repack_rbuf c
      in if rbytes c1 \<ge> rsize c1 then read_full 4 READ_NO_DATA_RECEIVED c1 w n
         else read_once (read_full 4 READ_DATA_RECEIVED) READ_NO_DATA_RECEIVED c1 w n)"

section \<open>Events\<close>

definition EV_READ :: int where "EV_READ = 2"
definition EV_WRITE :: int where "EV_WRITE = 4"
definition EV_PERSIST :: int where "EV_PERSIST = 16"

definition update_event :: "int \<Rightarrow> conn \<Rightarrow> net \<Rightarrow> bool \<times> conn \<times> net" where
  "update_event new_flags c n =
     (if ev_flags c = new_flags then (True, c, n)
      else case next_call n of (del_ok, n1) \<Rightarrow>
        if \<not> del_ok then (False, c, n1)
        else case next_call n1 of (add_ok, n2) \<Rightarrow> (add_ok, c\<lparr>ev_flags := new_flags\<rparr>, n2))"

text \<open>\<open>update_event\<close>, and the connection is closed when it fails.\<close>

definition wait_for :: "int \<Rightarrow> conn \<Rightarrow> net \<Rightarrow> (bool \<times> conn \<times> net) option" where
  "wait_for new_flags c n =
     (case update_event new_flags c n of (ok, c1, n1) \<Rightarrow>
        if ok then Some (True, c1, n1)
        else map_option (\<lambda>c2. (False, c2, n1)) (conn_set_state conn_closing c1))"

fun update_listeners :: "int \<Rightarrow> conn list \<Rightarrow> net \<Rightarrow> conn list \<times> net" where
  "update_listeners new_flags [] n = ([], n)"
| "update_listeners new_flags (c # cs) n =
     (case update_event new_flags c n of (_, c1, n1) \<Rightarrow>
      case update_listeners new_flags cs n1 of (cs1, n2) \<Rightarrow> (c1 # cs1, n2))"

definition do_accept_new_conns :: "bool \<Rightarrow> worker_state \<Rightarrow> net \<Rightarrow> worker_state \<times> net" where
  "do_accept_new_conns do_accept w n =
     (case update_listeners (if do_accept then EV_READ + EV_PERSIST else 0) (listeners n) n of (cs, n1) \<Rightarrow>
      let n2 = n1\<lparr>listeners := cs\<rparr> in
      if do_accept then (count_stats (\<lambda>st. st\<lparr>accepting_conns := True\<rparr>) w, n2)
      else (count_stats (\<lambda>st. st\<lparr>accepting_conns := False, listen_disabled_num := listen_disabled_num st + 1\<rparr>)
              (w\<lparr>allow_new_conns := False\<rparr>), n2\<lparr>maxconns_timer := True\<rparr>))"

definition maxconns_handler :: "int \<Rightarrow> worker_state \<Rightarrow> net \<Rightarrow> worker_state \<times> net" where
  "maxconns_handler fd w n =
     (if fd = -42 \<or> \<not> allow_new_conns w then (w, n\<lparr>maxconns_timer := True\<rparr>)
      else do_accept_new_conns True w (n\<lparr>maxconns_timer := False\<rparr>))"

section \<open>Sending\<close>

datatype transmit_result = TRANSMIT_COMPLETE | TRANSMIT_INCOMPLETE | TRANSMIT_SOFT_ERROR | TRANSMIT_HARD_ERROR

text \<open>The fragments of a message that were sent completely are skipped, and the next one is shortened.\<close>

fun skip_sent :: "nat \<Rightarrow> nat \<Rightarrow> nat \<Rightarrow> (nat \<Rightarrow> iovec) \<Rightarrow> nat \<times> nat \<times> nat" where
  "skip_sent 0 i res v = (0, i, res)"
| "skip_sent (Suc m) i res v =
     (if res \<ge> unat (iov_len (v i)) then skip_sent m (i + 1) (res - unat (iov_len (v i))) v else (Suc m, i, res))"

definition advance_iov :: "nat \<Rightarrow> conn \<Rightarrow> conn" where
  "advance_iov res c =
     (let i = msgcurr c; m = msglist c i in
      case skip_sent (msg_iovlen m) (msg_iov m) res (iov c) of (len', k, res') \<Rightarrow>
        let c1 = c\<lparr>msglist := (msglist c)(i := m\<lparr>msg_iovlen := len', msg_iov := k\<rparr>)\<rparr>
        in if res' > 0
           then c1\<lparr>iov := (iov c1)(k := (iov c1 k)\<lparr>iov_base := iov_base (iov c1 k) + res',
                                                   iov_len := iov_len (iov c1 k) - of_nat res'\<rparr>)\<rparr>
           else c1)"

text \<open>The bytes of the message that is being sent; \<open>sendmsg\<close> never takes more than these.\<close>

definition msg_bytes :: "conn \<Rightarrow> ptr list" where
  "msg_bytes c = (let m = msglist c (msgcurr c)
     in concat (map (\<lambda>k. [iov_base (iov c k)..<iov_base (iov c k) + unat (iov_len (iov c k))])
          [msg_iov m..<msg_iov m + msg_iovlen m]))"

definition transmit :: "conn \<Rightarrow> worker_state \<Rightarrow> net \<Rightarrow> (transmit_result \<times> conn \<times> worker_state \<times> net) option" where
  "transmit c0 w n =
     (let c = (if msgcurr c0 < msgused c0 \<and> msg_iovlen (msglist c0 (msgcurr c0)) = 0
               then c0\<lparr>msgcurr := msgcurr c0 + 1\<rparr> else c0)
      in if msgcurr c < msgused c
         then
           let n1 = n\<lparr>sends := drop 1 (sends n)\<rparr>;
               hard = map_option (\<lambda>c1. (TRANSMIT_HARD_ERROR, c1, w, n1))
                        (conn_set_state (if is_udp c then conn_read else conn_closing) c)
           in case sends n of
                Snd k # _ \<Rightarrow>
                  let bs = take k (msg_bytes c); res = length bs in
                  if res > 0
                  then Some (TRANSMIT_INCOMPLETE, advance_iov res c,
                         my_count (\<lambda>t. t\<lparr>bytes_written := bytes_written t + of_nat res\<rparr>) w, n1\<lparr>sent := sent n1 @ bs\<rparr>)
                  else hard
              | Snd_error # _ \<Rightarrow> hard
              | _ \<Rightarrow> do {
                  (ok, c1, n2) \<leftarrow> wait_for (EV_WRITE + EV_PERSIST) c n1;
                  Some (if ok then TRANSMIT_SOFT_ERROR else TRANSMIT_HARD_ERROR, c1, w, n2)
                }
         else Some (TRANSMIT_COMPLETE, c, w, n))"

section \<open>The state machine\<close>

text \<open>One step of \<open>drive_machine\<close>: whether it stops after the step, the requests this event may still
  process, and the states.  The closing of a descriptor is not modelled, apart from the entry in \<open>turned_away\<close>.\<close>

type_synonym machine = "int \<times> conn \<times> worker_state \<times> net"

definition go_on :: "int \<Rightarrow> worker_state \<Rightarrow> net \<Rightarrow> conn option \<Rightarrow> (bool \<times> machine) option" where
  "go_on nreqs w n = map_option (\<lambda>c. (False, nreqs, c, w, n))"

text \<open>\<open>update_event\<close>; the machine stops when it succeeds, otherwise the connection is closed.\<close>

definition stop_waiting :: "int \<Rightarrow> int \<Rightarrow> conn \<Rightarrow> worker_state \<Rightarrow> net \<Rightarrow> (bool \<times> machine) option" where
  "stop_waiting new_flags nreqs c w n =
     map_option (\<lambda>(ok, c1, n1). (ok, nreqs, c1, w, n1)) (wait_for new_flags c n)"

text \<open>The connection is one of the listeners, whose events may have been changed.\<close>

definition listener_now :: "conn \<Rightarrow> net \<Rightarrow> conn" where
  "listener_now c n = (case find (\<lambda>d. sfd d = sfd c) (listeners n) of None \<Rightarrow> c | Some d \<Rightarrow> d)"

definition step_listening :: "int \<Rightarrow> conn \<Rightarrow> worker_state \<Rightarrow> net \<Rightarrow> bool \<times> machine" where
  "step_listening nreqs c w n =
     (let n1 = n\<lparr>accepts := drop 1 (accepts n)\<rparr> in
      case accepts n of
        Acc fd # _ \<Rightarrow>
          (case (if use_accept4 n1 then (True, n1) else next_call n1) of (ok, n2) \<Rightarrow>
             if \<not> ok then (False, nreqs, c, w, n2)
             else if maxconns_fast (settings w) \<and>
                     curr_conns (stats w) + reserved_fds (stats w) \<ge> of_int (maxconns (settings w) - 1)
             then (True, nreqs, c, count_stats (\<lambda>st. st\<lparr>rejected_conns := rejected_conns st + 1\<rparr>) w,
                   n2\<lparr>turned_away := turned_away n2 @ [fd]\<rparr>)
             else (True, nreqs, c, w, n2\<lparr>dispatched := dispatched n2 @ [fd]\<rparr>))
      | Acc_nosys # _ \<Rightarrow>
          if use_accept4 n1 then (False, nreqs, c, w, n1\<lparr>use_accept4 := False\<rparr>) else (True, nreqs, c, w, n1)
      | Acc_emfile # _ \<Rightarrow>
          (case do_accept_new_conns False w n1 of (w1, n2) \<Rightarrow> (True, nreqs, listener_now c n2, w1, n2))
      | _ \<Rightarrow> (True, nreqs, c, w, n1))"

definition step_waiting :: "int \<Rightarrow> conn \<Rightarrow> worker_state \<Rightarrow> net \<Rightarrow> (bool \<times> machine) option" where
  "step_waiting nreqs c w n = do {
     (stop, nr, c1, w1, n1) \<leftarrow> stop_waiting (EV_READ + EV_PERSIST) nreqs c w n;
     c2 \<leftarrow> (if stop then conn_set_state conn_read c1 else Some c1);
     Some (stop, nr, c2, w1, n1)
   }"

definition step_read :: "int \<Rightarrow> conn \<Rightarrow> worker_state \<Rightarrow> net \<Rightarrow> (bool \<times> machine) option" where
  "step_read nreqs c w n = do {
     (r, c1, w1, n1) \<leftarrow> (if is_udp c then try_read_udp c w n else try_read_network c w n);
     go_on nreqs w1 n1
       (case r of
          READ_NO_DATA_RECEIVED \<Rightarrow> conn_set_state conn_waiting c1
        | READ_DATA_RECEIVED \<Rightarrow> conn_set_state conn_parse_cmd c1
        | READ_ERROR \<Rightarrow> conn_set_state conn_closing c1
        | READ_MEMORY_ERROR \<Rightarrow> Some c1)
   }"

definition step_parse_cmd :: "cmd_env \<Rightarrow> int \<Rightarrow> conn \<Rightarrow> worker_state \<Rightarrow> net \<Rightarrow> (bool \<times> machine) option" where
  "step_parse_cmd ce nreqs c w n = do {
     (r, c1, w1) \<leftarrow> try_read_command ce c w;
     go_on nreqs w1 n (if r = 0 then conn_set_state conn_waiting c1 else Some c1)
   }"

definition step_new_cmd :: "int \<Rightarrow> conn \<Rightarrow> worker_state \<Rightarrow> net \<Rightarrow> (bool \<times> machine) option" where
  "step_new_cmd nreqs c w n =
     (let nr = nreqs - 1 in
      if nr \<ge> 0 then map_option (\<lambda>(c1, w1). (False, nr, c1, w1, n)) (reset_cmd_handler c w)
      else
        let w1 = my_count (\<lambda>t. t\<lparr>conn_yields := conn_yields t + 1\<rparr>) w
        in if rbytes c > 0 then stop_waiting (EV_WRITE + EV_PERSIST) nr c w1 n
           else Some (True, nr, c, w1, n))"

text \<open>Bytes are stored where \<open>ritem\<close> points to.  Writing beyond the buffer or the item is \<open>None\<close>.\<close>

definition store_bytes :: "bytes \<Rightarrow> conn \<Rightarrow> worker_state \<Rightarrow> (conn \<times> worker_state) option" where
  "store_bytes bs c w =
     (case ritem c of
        in_rbuf k \<Rightarrow> do {
          c_assert (k + length bs \<le> rsize c);
          Some (c\<lparr>rbuf := put_bytes k bs (rbuf c), ritem := in_rbuf (k + length bs), rlbytes := rlbytes c - int (length bs)\<rparr>, w)
        }
      | in_item it k \<Rightarrow> do {
          c_assert (int (k + length bs) \<le> it_len (heap w it));
          Some (c\<lparr>ritem := in_item it (k + length bs), rlbytes := rlbytes c - int (length bs)\<rparr>,
                upd_item it (\<lambda>i. i\<lparr>it_data := data_write k bs (it_data i)\<rparr>) w)
        })"

text \<open>The bytes that were read behind the command come first, then one \<open>read\<close>.\<close>

definition nread_leftover :: "conn \<Rightarrow> worker_state \<Rightarrow> (conn \<times> worker_state) option" where
  "nread_leftover c w =
     (if rbytes c > 0
      then let tocopy = min (rbytes c) (nat (rlbytes c)) in do {
        (c1, w1) \<leftarrow> store_bytes (get_bytes (rbuf c) (rcurr c) tocopy) c w;
        Some (c1\<lparr>rcurr := rcurr c1 + tocopy, rbytes := rbytes c1 - tocopy\<rparr>, w1)
      }
      else Some (c, w))"

text \<open>What \<open>conn_nread\<close> and \<open>conn_swallow\<close> do when \<open>read\<close> returns no data.\<close>

definition read_failed :: "read_result \<Rightarrow> int \<Rightarrow> conn \<Rightarrow> worker_state \<Rightarrow> net \<Rightarrow> (bool \<times> machine) option" where
  "read_failed r nreqs c w n =
     (if r = Rd_again then stop_waiting (EV_READ + EV_PERSIST) nreqs c w n
      else go_on nreqs w n (conn_set_state conn_closing c))"

definition step_nread :: "cmd_env \<Rightarrow> int \<Rightarrow> conn \<Rightarrow> worker_state \<Rightarrow> net \<Rightarrow> (bool \<times> machine) option" where
  "step_nread ce nreqs c w n =
     (if rlbytes c = 0 then map_option (\<lambda>(c1, w1). (False, nreqs, c1, w1, n)) (complete_nread ce c w)
      else if rlbytes c < 0 then go_on nreqs w n (conn_set_state conn_closing c)
      else do {
        (c1, w1) \<leftarrow> nread_leftover c w;
        if rlbytes c1 = 0 then Some (False, nreqs, c1, w1, n)
        else do {
          (r, n1) \<leftarrow> net_read (rlbytes c1) n;
          (case r of
             Rd_data bs \<Rightarrow> do {
               (c2, w2) \<leftarrow> store_bytes bs c1 (count_read (length bs) w1);
               Some (False, nreqs, if ritem c1 = in_rbuf (rcurr c1) then c2\<lparr>rcurr := rcurr c2 + length bs\<rparr> else c2, w2, n1)
             }
           | _ \<Rightarrow> read_failed r nreqs c1 w1 n1)
        }
      })"

definition step_swallow :: "int \<Rightarrow> conn \<Rightarrow> worker_state \<Rightarrow> net \<Rightarrow> (bool \<times> machine) option" where
  "step_swallow nreqs c w n =
     (if sbytes c = 0 then go_on nreqs w n (conn_set_state conn_new_cmd c)
      else if rbytes c > 0
      then let tocopy = min (int (rbytes c)) (sbytes c) in do {
        c_assert (0 \<le> int (rcurr c) + tocopy);
        Some (False, nreqs, c\<lparr>sbytes := sbytes c - tocopy, rcurr := nat (int (rcurr c) + tocopy),
                              rbytes := nat (int (rbytes c) - tocopy)\<rparr>, w, n)
      }
      else do {
        (r, n1) \<leftarrow> net_read (min (sbytes c) (int (rsize c))) n;
        (case r of
           Rd_data bs \<Rightarrow> Some (False, nreqs, c\<lparr>rbuf := put_bytes 0 bs (rbuf c), sbytes := sbytes c - int (length bs)\<rparr>,
                               count_read (length bs) w, n1)
         | _ \<Rightarrow> read_failed r nreqs c w n1)
      })"

text \<open>A reply that is not in the message list yet is put there first.\<close>

definition transmitted :: "conn \<Rightarrow> worker_state \<Rightarrow> (conn \<times> worker_state) option" where
  "transmitted c w =
     (if cstate c = conn_mwrite
      then do {
        (c1, w1) \<leftarrow> conn_release_items c w;
        c2 \<leftarrow> conn_set_state (if c_protocol c1 = binary_prot then write_and_go c1 else conn_new_cmd) c1;
        Some (c2, w1)
      }
      else if cstate c = conn_write
      then map_option (\<lambda>c1. (c1, w)) (conn_set_state (write_and_go c) (c\<lparr>write_and_free_buf := NULL\<rparr>))
      else map_option (\<lambda>c1. (c1, w)) (conn_set_state conn_closing c))"

definition step_mwrite :: "cmd_env \<Rightarrow> int \<Rightarrow> conn \<Rightarrow> worker_state \<Rightarrow> net \<Rightarrow> (bool \<times> machine) option" where
  "step_mwrite ce nreqs c w n =
     (case (if is_udp c \<and> msgcurr c = 0 then build_udp_headers (ce_udp_mem ce) c else (0, c)) of (r, c1) \<Rightarrow>
        if r \<noteq> 0 then go_on nreqs w n (conn_set_state conn_closing c1)
        else do {
          (t, c2, w2, n2) \<leftarrow> transmit c1 w n;
          (case t of
             TRANSMIT_COMPLETE \<Rightarrow> map_option (\<lambda>(c3, w3). (False, nreqs, c3, w3, n2)) (transmitted c2 w2)
           | TRANSMIT_SOFT_ERROR \<Rightarrow> Some (True, nreqs, c2, w2, n2)
           | _ \<Rightarrow> Some (False, nreqs, c2, w2, n2))
        })"

definition step_write :: "cmd_env \<Rightarrow> int \<Rightarrow> conn \<Rightarrow> worker_state \<Rightarrow> net \<Rightarrow> (bool \<times> machine) option" where
  "step_write ce nreqs c w n =
     (if iovused c = 0 \<or> (is_udp c \<and> iovused c = 1)
      then do {
        (r, c1) \<leftarrow> add_iov (wcurr c) (int (wbytes c)) c;
        if r \<noteq> 0 then go_on nreqs w n (conn_set_state conn_closing c1) else step_mwrite ce nreqs c1 w n
      }
      else step_mwrite ce nreqs c w n)"

definition step_closing :: "int \<Rightarrow> conn \<Rightarrow> worker_state \<Rightarrow> net \<Rightarrow> (bool \<times> machine) option" where
  "step_closing nreqs c w n =
     map_option (\<lambda>(c1, w1). (True, nreqs, c1, w1, n)) (if is_udp c then conn_cleanup c w else conn_close c w)"

definition drive_step :: "cmd_env \<Rightarrow> machine \<Rightarrow> (bool \<times> machine) option" where
  "drive_step ce = (\<lambda>(nreqs, c, w, n). case cstate c of
       conn_listening \<Rightarrow> Some (step_listening nreqs c w n)
     | conn_waiting \<Rightarrow> step_waiting nreqs c w n
     | conn_read \<Rightarrow> step_read nreqs c w n
     | conn_parse_cmd \<Rightarrow> step_parse_cmd ce nreqs c w n
     | conn_new_cmd \<Rightarrow> step_new_cmd nreqs c w n
     | conn_nread \<Rightarrow> step_nread ce nreqs c w n
     | conn_swallow \<Rightarrow> step_swallow nreqs c w n
     | conn_write \<Rightarrow> step_write ce nreqs c w n
     | conn_mwrite \<Rightarrow> step_mwrite ce nreqs c w n
     | conn_closing \<Rightarrow> step_closing nreqs c w n
     | conn_closed \<Rightarrow> None
     | conn_max_state \<Rightarrow> None)"

text \<open>The loop; the \<open>k\<close>-th step has the environment \<open>env k\<close>.\<close>

partial_function (option) drive_loop :: "(nat \<Rightarrow> cmd_env) \<Rightarrow> machine \<Rightarrow> machine option" where
  "drive_loop env m = do {
     (stop, m1) \<leftarrow> drive_step (env 0) m;
     if stop then Some m1 else drive_loop (\<lambda>k. env (k + 1)) m1
   }"

definition drive_machine :: "(nat \<Rightarrow> cmd_env) \<Rightarrow> conn \<Rightarrow> worker_state \<Rightarrow> net \<Rightarrow> (conn \<times> worker_state \<times> net) option" where
  "drive_machine env c w n = map_option snd (drive_loop env (reqs_per_event (settings w), c, w, n))"

definition event_handler ::
  "(nat \<Rightarrow> cmd_env) \<Rightarrow> int \<Rightarrow> conn \<Rightarrow> worker_state \<Rightarrow> net \<Rightarrow> (conn \<times> worker_state \<times> net) option" where
  "event_handler env fd c w n =
     (if fd \<noteq> sfd c then map_option (\<lambda>(c1, w1). (c1, w1, n)) (conn_close c w) else drive_machine env c w n)"

section \<open>The clock\<close>

text \<open>\<open>mtime\<close>: the monotonic clock when it can be read, \<open>wall\<close>: the time of day.\<close>

record clock_state =
  clock_initialized :: bool
  clock_monotonic :: bool
  monotonic_start :: int

definition clock_handler ::
  "int option \<Rightarrow> int option \<Rightarrow> int \<Rightarrow> clock_state \<Rightarrow> worker_state \<Rightarrow> clock_state \<times> worker_state" where
  "clock_handler mono0 mtime wall k w =
     (let k1 = (if clock_initialized k then k
                else case mono0 of
                       None \<Rightarrow> k\<lparr>clock_initialized := True\<rparr>
                     | Some t \<Rightarrow> \<lparr>clock_initialized = True, clock_monotonic = True,
                                  monotonic_start = t - uint ITEM_UPDATE_INTERVAL - 2\<rparr>)
      in (k1, if clock_monotonic k1
              then (case mtime of None \<Rightarrow> w | Some t \<Rightarrow> w\<lparr>current_time := of_int (t - monotonic_start k1)\<rparr>)
              else w\<lparr>current_time := of_int (wall - process_started w)\<rparr>))"

end
