(* ===== verification/MC_StoreInv.thy ===== *)
theory MC_StoreInv
  imports MC_Store
begin

text \<open>
  The storage commands refine their specification \<open>store_spec\<close>: \<open>set\<close>, \<open>add\<close>, \<open>replace\<close>
  and \<open>cas\<close> first, then \<open>append\<close> and \<open>prepend\<close>, which allocate a combined item on the way and may
  evict other entries for it.
\<close>

section \<open>\<open>do_store_item\<close> without \<open>append\<close> and \<open>prepend\<close>\<close>

text \<open>The item a storage command brings: complete, not yet linked, held by its connection alone.\<close>

definition storable :: "worker_state \<Rightarrow> (bytes \<rightharpoonup> ptr) \<Rightarrow> (nat \<Rightarrow> ptr list) \<Rightarrow> (nat \<Rightarrow> ptr list) \<Rightarrow> ptr \<Rightarrow> bool" where
  "storable w M L F it \<longleftrightarrow> cache_inv w M L F \<and> linkable w L F it \<and> it_refcount (heap w it) = 1 \<and> \<not> cache_lock w \<and>
     (\<forall>p. M (item_key (heap w it)) = Some p \<longrightarrow> ref_room w F p)"

lemma storableD:
  assumes "storable w M L F it"
  shows "cache_inv w M L F" "linkable w L F it" "it_refcount (heap w it) = 1" "\<not> cache_lock w"
    "\<And>p. M (item_key (heap w it)) = Some p \<Longrightarrow> ref_room w F p"
  using assms by (auto simp: storable_def)

text \<open>What the commands find under the key of the item.\<close>

definition old_entry :: "worker_state \<Rightarrow> (bytes \<rightharpoonup> ptr) \<Rightarrow> bytes \<Rightarrow> (entry \<times> u64) option" where
  "old_entry w M k = map_option (\<lambda>p. (entry_of (heap w p), ITEM_get_cas (heap w p))) (live_item w M k)"

text \<open>The state after the lookup, up to the statistics of the thread.\<close>

definition looked_up ::
  "worker_state \<Rightarrow> (bytes \<rightharpoonup> ptr) \<Rightarrow> (nat \<Rightarrow> ptr list) \<Rightarrow> (nat \<Rightarrow> ptr list) \<Rightarrow> ptr \<Rightarrow> ptr \<Rightarrow>
   worker_state \<Rightarrow> (bytes \<rightharpoonup> ptr) \<Rightarrow> (nat \<Rightarrow> ptr list) \<Rightarrow> (nat \<Rightarrow> ptr list) \<Rightarrow> bool" where
  "looked_up w M L F it old w1 M1 L1 F1 \<longleftrightarrow>
     (let k = item_key (heap w it) in
      cache_inv w1 M1 L1 F1 \<and> linkable w1 L1 F1 it \<and> same_contents (heap w it) (heap w1 it) \<and>
      hash_fn w1 = hash_fn w \<and> \<not> cache_lock w1 \<and> slabs_lock w1 = slabs_lock w \<and>
      (\<forall>q. M k \<noteq> Some q \<longrightarrow> same_contents (heap w q) (heap w1 q)) \<and>
      (case live_item w M k of None \<Rightarrow> old = NULL \<and> M1 = M(k := None)
       | Some p \<Rightarrow> old = p \<and> M k = Some p \<and> M1 = M \<and> L1 = L \<and> F1 = F \<and>
          heap w1 = (heap w)(p := (heap w p)\<lparr>it_refcount := it_refcount (heap w p) + 1,
                                           it_flags := it_flags (heap w p) OR ITEM_FETCHED\<rparr>)))"

lemma storable_get:
  assumes st: "storable w M L F it"
  defines "k \<equiv> item_key (heap w it)"
  shows "\<exists>old w1 M1 L1 F1. do_item_get (it_key (heap w it)) (unat (it_nkey (heap w it))) (hash_fn w k) w = Some (old, w1) \<and>
     env_same w w1 \<and> looked_up w M L F it old w1 M1 L1 F1"
proof -
  note S = storableD [OF st, folded k_def]
  have key: "k = take (unat (it_nkey (heap w it))) (it_key (heap w it))"
    "unat (it_nkey (heap w it)) \<le> length (it_key (heap w it))"
    using S(2) by (simp_all add: k_def item_key_def linkable_def key_ok_def)
  from get_result [OF S(1) key refl S(4,5)] obtain old w1 M1 L1 F1 where
    g: "do_item_get (it_key (heap w it)) (unat (it_nkey (heap w it))) (hash_fn w k) w = Some (old, w1)" "env_same w w1"
      "cache_inv w1 M1 L1 F1" "\<forall>q. M k \<noteq> Some q \<longrightarrow> same_contents (heap w q) (heap w1 q)"
      "\<forall>d. set (L1 d) \<subseteq> set (L d)" "\<forall>q d. q \<in> set (F1 d) \<longrightarrow> q \<in> set (F d) \<or> M k = Some q"
    and v: "case live_item w M k of None \<Rightarrow> old = NULL \<and> M1 = M(k := None)
      | Some p \<Rightarrow> old = p \<and> M1 = M \<and> L1 = L \<and> F1 = F \<and>
          heap w1 = (heap w)(p := (heap w p)\<lparr>it_refcount := it_refcount (heap w p) + 1,
                                           it_flags := it_flags (heap w p) OR ITEM_FETCHED\<rparr>)" by blast
  have ne: "M k \<noteq> Some it" by (rule cached_not_linkable [OF S(1,2)])
  have c: "same_contents (heap w it) (heap w1 it)" using g(4) ne by blast
  have "linkable w1 L1 F1 it" by (rule linkable_mono [OF S(2) c g(2)]) (use g(5,6) ne in blast)+
  moreover have "M k = Some p" if "live_item w M k = Some p" for p
    using that by (auto simp: live_item_def split: option.splits if_splits)
  ultimately have "looked_up w M L F it old w1 M1 L1 F1"
    using g(2,3,4) c v S(4) by (simp add: looked_up_def k_def [symmetric] env_same_def split: option.splits)
  then show ?thesis using g(1,2) by blast
qed

lemma looked_upD:
  assumes "looked_up w M L F it old w1 M1 L1 F1"
  defines "k \<equiv> item_key (heap w it)"
  shows "cache_inv w1 M1 L1 F1" "linkable w1 L1 F1 it" "same_contents (heap w it) (heap w1 it)"
    "hash_fn w1 = hash_fn w" "\<not> cache_lock w1" "slabs_lock w1 = slabs_lock w"
    "\<And>q. M k \<noteq> Some q \<Longrightarrow> kept (heap w q) (heap w1 q)"
    "live_item w M k = None \<Longrightarrow> old = NULL \<and> M1 = M(k := None)"
    "live_item w M k = Some p \<Longrightarrow> old = p \<and> M k = Some p \<and> M1 = M \<and> L1 = L \<and> F1 = F"
    "live_item w M k = Some p \<Longrightarrow> heap w1 = (heap w)(p := (heap w p)\<lparr>it_refcount := it_refcount (heap w p) + 1,
          it_flags := it_flags (heap w p) OR ITEM_FETCHED\<rparr>)"
    "\<And>j. j \<noteq> k \<Longrightarrow> M1 j = M j" "\<And>q. M k \<noteq> Some q \<Longrightarrow> M1 k \<noteq> Some q"
  using assms kept_contents by (auto simp: looked_up_def Let_def split: option.splits)

lemma looked_up_item:
  assumes st: "storable w M L F it" and l: "looked_up w M L F it old w1 M1 L1 F1"
  shows "item_key (heap w1 it) = item_key (heap w it)" "it_refcount (heap w1 it) = 1"
    "entry_of (heap w1 it) = entry_of (heap w it)" "ITEM_get_cas (heap w1 it) = ITEM_get_cas (heap w it)"
  using same_contents_facts [OF looked_upD(3) [OF l]] same_contentsD [OF looked_upD(3) [OF l]] storableD(3) [OF st]
    entry_of_contents [OF looked_upD(3) [OF l]] cas_contents [OF looked_upD(3) [OF l]] by simp_all

text \<open>The item that was found.\<close>

lemma looked_up_old:
  assumes st: "storable w M L F it" and l: "looked_up w M L F it old w1 M1 L1 F1"
    and p: "live_item w M (item_key (heap w it)) = Some p"
  shows "entry_of (heap w1 p) = entry_of (heap w p)" "ITEM_get_cas (heap w1 p) = ITEM_get_cas (heap w p)"
    "it_slabs_clsid (heap w1 p) = it_slabs_clsid (heap w p)" "1 < it_refcount (heap w1 p)"
    "\<not> is_slabbed (heap w1 p)" "p \<noteq> NULL" "it \<noteq> p"
    "old_entry w M (item_key (heap w it)) = Some (entry_of (heap w p), ITEM_get_cas (heap w p))"
proof -
  note S = storableD [OF st] and o = looked_upD(9,10) [OF l p]
  have Mp: "M (item_key (heap w it)) = Some p" using o(1) by blast
  note P = cached_item [OF S(1) Mp]
  show "entry_of (heap w1 p) = entry_of (heap w p)" "ITEM_get_cas (heap w1 p) = ITEM_get_cas (heap w p)"
    "it_slabs_clsid (heap w1 p) = it_slabs_clsid (heap w p)"
    by (simp_all add: o(2) entry_of_def it_len_def ITEM_get_cas_def ITEM_FETCHED_def ITEM_CAS_def and_flag_bit bit_simps)
  show "1 < it_refcount (heap w1 p)" "\<not> is_slabbed (heap w1 p)"
    using P(10,11) S(5) [OF Mp] by (simp_all add: o(2) ref_room_def word_gt_one_plus flag_bits bit_simps)
  show "p \<noteq> NULL" by (rule P(6))
  show "it \<noteq> p" using cached_not_linkable [OF S(1,2)] Mp by metis
  show "old_entry w M (item_key (heap w it)) = Some (entry_of (heap w p), ITEM_get_cas (heap w p))"
    using p by (simp add: old_entry_def)
qed

text \<open>What a storage command leaves behind.\<close>

definition store_done ::
  "worker_state \<Rightarrow> (bytes \<rightharpoonup> ptr) \<Rightarrow> ptr \<Rightarrow> store_item_type \<times> entry option \<Rightarrow>
   worker_state \<Rightarrow> (bytes \<rightharpoonup> ptr) \<Rightarrow> (nat \<Rightarrow> ptr list) \<Rightarrow> (nat \<Rightarrow> ptr list) \<Rightarrow> bool" where
  "store_done w M it r w' M' L' F' \<longleftrightarrow>
     (let k = item_key (heap w it) in
      cache_inv w' M' L' F' \<and> entry_at w' M' k = snd r \<and> (\<forall>j. j \<noteq> k \<longrightarrow> M' j = M j) \<and>
      (\<forall>q. q \<noteq> it \<longrightarrow> M k \<noteq> Some q \<longrightarrow> kept (heap w q) (heap w' q)) \<and>
      (if fst r = STORED then M' k = Some it \<and> it_refcount (heap w' it) = 2
       else M' k \<noteq> Some it \<and> linkable w' L' F' it \<and> it_refcount (heap w' it) = 1))"

lemma looked_up_link:
  assumes st: "storable w M L F it" and l: "looked_up w M L F it old w1 M1 L1 F1"
    and hv: "hv = hash_fn w (item_key (heap w it))"
  shows "\<exists>w' M' L' F'. store_link it old NULL hv c w1 = Some (STORED, c\<lparr>c_cas := ITEM_get_cas (heap w' it)\<rparr>, w') \<and>
     store_done w M it (STORED, Some (entry_of (heap w it))) w' M' L' F'"
proof -
  let ?k = "item_key (heap w it)"
  note S = storableD [OF st] and D = looked_upD [OF l] and I = looked_up_item [OF st l]
  have old: "old = NULL \<and> M1 ?k = None \<or> M1 ?k = Some old \<and> 1 < it_refcount (heap w1 old) \<and> \<not> slabs_lock w1 \<and>
      Suc (length (F1 (unat (it_slabs_clsid (heap w1 old))))) < 2 ^ 32"
  proof (cases "live_item w M ?k")
    case (Some p)
    then have p: "old = p" "M ?k = Some p" "M1 = M" "F1 = F" using D(9) by blast+
    then show ?thesis using looked_up_old [OF st l Some] S(5) [OF p(2)] by (simp add: D(6) ref_room_def)
  qed (use D(8) in simp)
  have hv1: "hv = hash_fn w1 ?k" using hv D(4) by simp
  have nw: "NULL = NULL \<or> NULL = it" by simp
  from store_link_result [OF D(1,2) I(1,2) hv1 D(5) old nw, of c] obtain w' L' F' where
    s: "store_link it old NULL hv c w1 = Some (STORED, c\<lparr>c_cas := ITEM_get_cas (heap w' it)\<rparr>, w')"
      "cache_inv w' (M1(?k \<mapsto> it)) L' F'" "\<forall>r. r \<noteq> it \<longrightarrow> M1 ?k \<noteq> Some r \<longrightarrow> same_contents (heap w1 r) (heap w' r)"
      "entry_of (heap w' it) = entry_of (heap w1 it)" "it_refcount (heap w' it) = 2" by auto
  have "kept (heap w q) (heap w' q)" if "q \<noteq> it" "M ?k \<noteq> Some q" for q
    using kept_trans [OF D(7) [OF that(2)] kept_contents] s(3) D(12) [OF that(2)] that(1) by blast
  then have "store_done w M it (STORED, Some (entry_of (heap w it))) w' (M1(?k \<mapsto> it)) L' F'"
    using s(2,4,5) D(11) I(3) by (simp add: store_done_def entry_at_def)
  then show ?thesis using s(1) by blast
qed

text \<open>Nothing is stored: no entry was found, or the entry that was found stays.\<close>

lemma looked_up_none:
  assumes st: "storable w M L F it" and l: "looked_up w M L F it old w1 M1 L1 F1"
    and n: "live_item w M (item_key (heap w it)) = None" and r: "ret \<noteq> STORED"
  shows "store_finish ret it old NULL c w1 = Some (ret, c, w1)" "store_done w M it (ret, None) w1 M1 L1 F1"
  using looked_upD(1,2,7,8,11) [OF l] looked_up_item(2) [OF st l] n r
  by (simp_all add: store_finish_no_old store_done_def entry_at_def)

lemma looked_up_keep:
  assumes st: "storable w M L F it" and l: "looked_up w M L F it old w1 M1 L1 F1"
    and p: "live_item w M (item_key (heap w it)) = Some p" and r: "ret \<noteq> STORED"
    and w2: "cache_inv w2 M L2 F" "linkable w2 L2 F it" "\<And>q. kept (heap w1 q) (heap w2 q)"
  shows "\<exists>w'. store_finish ret it old NULL c w2 = Some (ret, c, w') \<and>
     store_done w M it (ret, Some (entry_of (heap w p))) w' M L2 F"
proof -
  let ?k = "item_key (heap w it)"
  note D = looked_upD [OF l] and I = looked_up_item [OF st l] and O = looked_up_old [OF st l p]
  note K = keptD [OF w2(3)] kept_facts [OF w2(3)]
  have o: "old = p" "M ?k = Some p" using D(9) [OF p] by blast+
  have ne: "it_refcount (heap w2 p) \<noteq> 1" using O(4) by (auto simp: K)
  then have au: "after_unref (heap w2 p) p F = F" by (simp add: after_unref_def)
  have "droppable w2 L2 F p" using O(4,5) order.strict_trans1 [OF word_zero_le O(4)] by (auto simp: droppable_def K)
  from store_finish_old [OF w2(1) this O(6), of ret it c] obtain w' where
    w': "store_finish ret it p NULL c w2 = Some (ret, c, w')" "cache_inv w' M L2 F" "env_same w2 w'"
      "\<forall>q. q \<noteq> p \<longrightarrow> same_contents (heap w2 q) (heap w' q)"
      "heap w' p = (heap w2 p)\<lparr>it_refcount := it_refcount (heap w2 p) - 1\<rparr>"
    using O(4) r ne by (auto simp: au)
  have C: "same_contents (heap w2 it) (heap w' it)" using w'(4) O(7) by blast
  have "linkable w' L2 F it" by (rule linkable_mono [OF w2(2) C w'(3)]) auto
  moreover have "entry_of (heap w' p) = entry_of (heap w p)"
    using w'(5) entry_of_kept [OF w2(3), of p] O(1) by (simp add: entry_of_def it_len_def)
  moreover have "kept (heap w q) (heap w' q)" if "M ?k \<noteq> Some q" for q
  proof -
    have "same_contents (heap w2 q) (heap w' q)" using w'(4) that o(2) by auto
    then show ?thesis using D(7) [OF that] w2(3) [of q] kept_trans kept_contents by blast
  qed
  ultimately have "store_done w M it (ret, Some (entry_of (heap w p))) w' M L2 F"
    using w'(2) o(2) r I(2) O(7) by (auto simp: store_done_def entry_at_def same_contentsD [OF C] K)
  then show ?thesis using w'(1) o(1) by blast
qed

lemma looked_up_counts:
  assumes "looked_up w M L F it old w1 M1 L1 F1"
  shows "looked_up w M L F it old (my_count f w1) M1 L1 F1" "looked_up w M L F it old (my_slab_count d g w1) M1 L1 F1"
  using assms by (simp_all add: looked_up_def Let_def cong: option.case_cong)

text \<open>\<open>add\<close> of a key that exists moves its item to the front.\<close>

lemma looked_up_update:
  assumes st: "storable w M L F it" and l: "looked_up w M L F it old w1 M1 L1 F1"
    and p: "live_item w M (item_key (heap w it)) = Some p"
  shows "\<exists>w2 L2. do_item_update p w1 = Some w2 \<and> cache_inv w2 M L2 F \<and> linkable w2 L2 F it"
proof -
  let ?d = "unat (it_slabs_clsid (heap w1 p))"
  note D = looked_upD [OF l] and O = looked_up_old [OF st l p]
  have o: "M (item_key (heap w it)) = Some p" "M1 = M" "L1 = L" "F1 = F" using D(9) [OF p] by blast+
  have i1: "cache_inv w1 M L F" using D(1) by (simp add: o)
  define L2 where "L2 = (if it_time (heap w1 p) < current_time w1 - ITEM_UPDATE_INTERVAL
     then L(?d := p # remove1 p (L ?d)) else L)"
  from do_item_update_inv [OF i1 o(1) D(5)] obtain w2 where w2: "do_item_update p w1 = Some w2" "env_same w1 w2"
    "cache_inv w2 M L2 F" unfolding L2_def by blast
  note K = do_item_update_kept [OF w2(1)]
  have pL: "p \<in> set (L ?d)" by (rule cached_item(4) [OF i1 o(1)])
  have "set (L2 d) \<subseteq> set (L d)" for d using pL set_remove1_subset [of p "L d"] by (auto simp: L2_def)
  moreover have "classes w2 = classes w1" using w2(2) by (intro classes_cong) (simp add: env_same_def)
  ultimately have "linkable w2 L2 F it"
    using D(2) unfolding linkable_def keptD [OF K] kept_facts [OF K] o by blast
  then show ?thesis using w2(1,3) by blast
qed

theorem do_store_item_inv:
  assumes st: "storable w M L F it" and comm: "comm \<noteq> NREAD_APPEND" "comm \<noteq> NREAD_PREPEND"
  defines "k \<equiv> item_key (heap w it)"
  defines "sp \<equiv> store_spec comm (ITEM_get_cas (heap w it)) (entry_of (heap w it)) (old_entry w M k)"
  shows "\<exists>w' M' L' F'. do_store_item env it comm c (hash_fn w k) w =
       Some (fst sp, if fst sp = STORED then c\<lparr>c_cas := ITEM_get_cas (heap w' it)\<rparr> else c, w') \<and>
     store_done w M it sp w' M' L' F'"
proof -
  have nr: "NREAD_ADD \<noteq> NREAD_CAS" "NREAD_ADD \<noteq> NREAD_REPLACE" "NREAD_CAS \<noteq> NREAD_REPLACE" by (simp_all add: nread_defs)
  from storable_get [OF st, folded k_def] obtain old w1 M1 L1 F1 where
    g: "do_item_get (it_key (heap w it)) (unat (it_nkey (heap w it))) (hash_fn w k) w = Some (old, w1)"
    and l: "looked_up w M L F it old w1 M1 L1 F1" by blast
  note D = looked_upD [OF l, folded k_def] and I = looked_up_item [OF st l]
  show ?thesis
  proof (cases "live_item w M k")
    case None
    then have o: "old = NULL" "old_entry w M k = None" using D(8) by (simp_all add: old_entry_def)
    note none = looked_up_none [OF st _ None [unfolded k_def]]
    consider (rep) "comm = NREAD_REPLACE" | (cas) "comm = NREAD_CAS" | (link) "comm \<noteq> NREAD_REPLACE" "comm \<noteq> NREAD_CAS" by blast
    then show ?thesis
    proof cases
      case rep
      have "do_store_item env it comm c (hash_fn w k) w = store_finish NOT_STORED it old NULL c w1"
        using g o(1) rep nr by (simp add: do_store_item_def Let_def)
      then show ?thesis using none(1) [OF l, of NOT_STORED c] none(2) [OF l, of NOT_STORED] rep by (auto simp: sp_def store_spec_def o(2))
    next
      case cas
      have "do_store_item env it comm c (hash_fn w k) w =
          store_finish NOT_FOUND it old NULL c (my_count (\<lambda>t. t\<lparr>cas_misses := cas_misses t + 1\<rparr>) w1)"
        using g o(1) cas comm nr by (simp add: do_store_item_def Let_def)
      then show ?thesis using none(1) [OF looked_up_counts(1) [OF l], of NOT_FOUND c] none(2) [OF looked_up_counts(1) [OF l], of NOT_FOUND] cas comm nr
        by (simp add: sp_def store_spec_def o(2)) blast
    next
      case link
      have "do_store_item env it comm c (hash_fn w k) w = store_link it old NULL (hash_fn w k) c w1"
        using g o(1) link comm by (simp add: do_store_item_def Let_def)
      moreover have "sp = (STORED, Some (entry_of (heap w it)))" using link comm by (simp add: sp_def store_spec_def o(2))
      ultimately show ?thesis using looked_up_link [OF st l, folded k_def, OF refl, of c] by auto
    qed
  next
    case (Some p)
    note O = looked_up_old [OF st l Some [unfolded k_def], folded k_def]
    have o: "old = p" "M1 = M" "L1 = L" "F1 = F" using D(9) [OF Some] by blast+
    note keep = looked_up_keep [OF st _ Some [unfolded k_def]]
    have i1: "cache_inv w1 M L F" "linkable w1 L F it" using D(1,2) by (simp_all add: o)
    consider (add) "comm = NREAD_ADD" | (hit) "comm = NREAD_CAS" "ITEM_get_cas (heap w it) = ITEM_get_cas (heap w p)"
      | (bad) "comm = NREAD_CAS" "ITEM_get_cas (heap w it) \<noteq> ITEM_get_cas (heap w p)"
      | (link) "comm \<noteq> NREAD_ADD" "comm \<noteq> NREAD_CAS" by blast
    then show ?thesis
    proof cases
      case add
      from looked_up_update [OF st l Some [unfolded k_def]] obtain w2 L2 where w2: "do_item_update p w1 = Some w2"
        "cache_inv w2 M L2 F" "linkable w2 L2 F it" by blast
      have "do_store_item env it comm c (hash_fn w k) w = store_finish NOT_STORED it old NULL c w2"
        using g o(1) add O(6) w2(1) by (simp add: do_store_item_def Let_def)
      then show ?thesis using keep [OF l _ w2(2,3) do_item_update_kept [OF w2(1)], of NOT_STORED c] add
        by (auto simp: sp_def store_spec_def O(8))
    next
      case hit
      let ?w2 = "my_slab_count (it_slabs_clsid (heap w1 p)) (\<lambda>t. t\<lparr>cas_hits := cas_hits t + 1\<rparr>) w1"
      have "do_store_item env it comm c (hash_fn w k) w = (do {
          w3 \<leftarrow> item_replace p it (hash_fn w k) ?w2; store_finish STORED it p NULL c w3 })"
        using g o(1) hit O(6) nr comm by (simp add: do_store_item_def Let_def I(4) O(2))
      then have "do_store_item env it comm c (hash_fn w k) w = store_link it old NULL (hash_fn w k) c ?w2"
        using O(6) by (simp add: store_link_def o(1) store_finish_def split: Option.bind_splits)
      moreover have "sp = (STORED, Some (entry_of (heap w it)))" using hit nr by (simp add: sp_def store_spec_def O(8))
      ultimately show ?thesis using looked_up_link [OF st looked_up_counts(2) [OF l], folded k_def, OF refl, of c] by auto
    next
      case bad
      let ?w2 = "my_slab_count (it_slabs_clsid (heap w1 p)) (\<lambda>t. t\<lparr>cas_badval := cas_badval t + 1\<rparr>) w1"
      have "do_store_item env it comm c (hash_fn w k) w = store_finish EXISTS it old NULL c ?w2"
        using g o(1) bad O(6) nr comm by (simp add: do_store_item_def Let_def I(4) O(2))
      then show ?thesis using keep [OF l, of EXISTS ?w2 L c] i1 bad nr
        by (auto simp: sp_def store_spec_def O(8))
    next
      case link
      have "do_store_item env it comm c (hash_fn w k) w = store_link it old NULL (hash_fn w k) c w1"
        using g o(1) link comm O(6) by (simp add: do_store_item_def Let_def)
      moreover have "sp = (STORED, Some (entry_of (heap w it)))" using link comm by (simp add: sp_def store_spec_def O(8))
      ultimately show ?thesis using looked_up_link [OF st l, folded k_def, OF refl, of c] by auto
    qed
  qed
qed

section \<open>Flags\<close>

text \<open>The flags are kept as text in the suffix, from which \<open>append\<close> and \<open>incr\<close> read them back.\<close>

lemma length_show_nat: "n < 10 ^ Suc k \<Longrightarrow> length (show_nat n) \<le> Suc k"
proof (induction k arbitrary: n)
  case 0
  then show ?case by (subst show_nat.simps) simp
next
  case (Suc k)
  then have "n div 10 < 10 ^ Suc k" by (simp add: less_mult_imp_div_less mult.commute)
  from Suc.IH [OF this] show ?case by (subst show_nat.simps) simp
qed

lemma length_show_int:
  assumes "- (2 ^ 31) \<le> i" "i < 2 ^ 32"
  shows "length (show_int i) \<le> 11"
proof -
  have "nat i < 10 ^ Suc 9" "nat (- i) < 10 ^ Suc 9" using assms by auto
  from this [THEN length_show_nat] show ?thesis by (simp add: show_int_def)
qed

lemma show_int_bytes: "b \<in> set (show_int i) \<Longrightarrow> b \<noteq> 0"
  using show_nat_digits isdigit_not by (auto simp: show_int_def split: if_splits)

lemma strto_scan_space:
  assumes "strto_scan s = Some (neg, v, n)"
  shows "strto_scan (32 # s) = Some (neg, v, Suc n)"
proof -
  have "isspace 32" by (simp add: isspace_def)
  then show ?thesis using assms by (auto simp: strto_scan_def Let_def split: if_splits)
qed

lemma strtoll_show:
  assumes "- (2 ^ 63) \<le> i" "i < 2 ^ 63" "rest = [] \<or> \<not> isdigit (hd rest)"
  shows "fst (strtoll (32 # show_int i @ rest)) = i"
proof (cases "i < 0")
  case True
  then show ?thesis using assms strto_scan_space [OF scan_show_nat(2) [OF assms(3), of "nat (- i)"]]
    by (auto simp: strtoll_def show_int_def)
next
  case False
  then show ?thesis using assms strto_scan_space [OF scan_show_nat(1) [OF assms(3), of "nat i"]]
    by (auto simp: strtoll_def show_int_def)
qed

lemma strtol_int_show:
  assumes "- (2 ^ 31) \<le> i" "i < 2 ^ 31"
  shows "strtol_int (32 # show_int i @ 32 # rest) = i"
proof -
  have "c_string (32 # show_int i @ 32 # rest) = 32 # show_int i @ 32 # c_string rest"
    using show_int_bytes [of _ i] by (simp add: c_string_def takeWhile_append)
  moreover have "\<not> isdigit 32" by (simp add: isdigit_def word_le_nat_alt)
  then have "fst (strtoll (32 # show_int i @ 32 # c_string rest)) = i"
    using assms by (intro strtoll_show) simp_all
  moreover have "sint (of_int i :: u32) = i" using assms by (simp add: signed_of_int signed_take_bit_int_eq_self)
  ultimately show ?thesis by (simp add: strtol_int_def case_prod_beta')
qed

lemma strtol_suffix:
  assumes "- (2 ^ 31) \<le> i" "i < 2 ^ 31"
  shows "strtol_int (fst (item_make_header nk i nb)) = i"
proof -
  let ?x = "show_int (nb - 2) @ [13, 10]"
  have "length (show_int i) \<le> 11" by (rule length_show_int) (use assms in simp_all)
  then have "take 39 (32 # show_int i @ 32 # ?x) = 32 # show_int i @ 32 # take (37 - length (show_int i)) ?x"
    by (simp add: take_Cons')
  then show ?thesis using strtol_int_show [OF assms] by (simp add: item_make_header_def Let_def)
qed

lemma strtol_int_range: "- (2 ^ 31) \<le> strtol_int s" "strtol_int s < 2 ^ 31"
  using sint_greater_eq [of "of_int (fst (strtoll (c_string s))) :: u32"]
    sint_less [of "of_int (fst (strtoll (c_string s))) :: u32"]
  by (simp_all add: strtol_int_def case_prod_beta')

section \<open>Values\<close>

lemma data_read_length: "length (data_read off n d) = n"
  by (simp add: data_read_def)

lemma data_write_read:
  assumes "n \<le> length bs"
  shows "data_read 0 n (data_write 0 bs d) = take n bs"
  using assms by (simp add: data_read_def data_write_def)

text \<open>Two writes, the second over the end of the first.\<close>

lemma data_write_append:
  assumes "k \<le> length a"
  shows "data_read 0 (k + length b) (data_write k b (data_write 0 a d)) = take k a @ b"
proof -
  have "data_write k b (data_write 0 a d) = take k a @ b @ drop (k + length b) (a @ drop (length a) d)"
    using assms by (simp add: data_write_def)
  then show ?thesis using assms by (simp add: data_read_def)
qed

lemma combine_append:
  assumes "2 \<le> it_len old" "0 \<le> it_len i"
  shows "data_read 0 (nat (it_len i + it_len old - 2)) (combine_values NREAD_APPEND old i d) =
    take (nat (it_len old) - 2) (data_read 0 (nat (it_len old)) (it_data old)) @ data_read 0 (nat (it_len i)) (it_data i)"
proof -
  have n: "nat (it_len i + it_len old - 2) = nat (it_len old - 2) + nat (it_len i)" "nat (it_len old - 2) = nat (it_len old) - 2"
    using assms by simp_all
  show ?thesis
    using data_write_append [of "nat (it_len old - 2)" "data_read 0 (nat (it_len old)) (it_data old)"
        "data_read 0 (nat (it_len i)) (it_data i)" d] assms
    by (simp add: combine_values_def Let_def data_read_length n)
qed

lemma combine_prepend:
  assumes "0 \<le> it_len old" "2 \<le> it_len i"
  shows "data_read 0 (nat (it_len i + it_len old - 2)) (combine_values NREAD_PREPEND old i d) =
    take (nat (it_len i) - 2) (data_read 0 (nat (it_len i)) (it_data i)) @ data_read 0 (nat (it_len old)) (it_data old)"
proof -
  have n: "nat (it_len i + it_len old - 2) = nat (it_len i - 2) + nat (it_len old)" "nat (it_len i - 2) = nat (it_len i) - 2"
    using assms by simp_all
  show ?thesis
    using data_write_append [of "nat (it_len i - 2)" "data_read 0 (nat (it_len i)) (it_data i)"
        "data_read 0 (nat (it_len old)) (it_data old)" d] assms
    by (simp add: combine_values_def Let_def data_read_length n nread_defs)
qed

section \<open>The classes do not depend on the items\<close>

lemma slabs_clsid_loop_heap:
  assumes "res \<le> power_largest s"
  shows "slabs_clsid_loop sz res (s\<lparr>heap := h\<rparr>) = slabs_clsid_loop sz res s"
  using assms
proof (induction "power_largest s - res" arbitrary: res)
  case 0
  then show ?case by (subst (1 2) slabs_clsid_loop.simps) simp
next
  case (Suc n)
  then show ?case by (subst (1 2) slabs_clsid_loop.simps) simp
qed

lemma slabs_clsid_heap: "c \<in> classes s \<Longrightarrow> slabs_clsid sz (s\<lparr>heap := h\<rparr>) = slabs_clsid sz s"
  using slabs_clsid_loop_heap [of POWER_SMALLEST s sz h] by (simp add: slabs_clsid_def classes_def)

lemma item_ntotal_heap: "item_ntotal_for nkey flags nbytes (s\<lparr>heap := h\<rparr>) = item_ntotal_for nkey flags nbytes s"
  by (simp add: item_ntotal_for_def)

lemma get_found_heap:
  assumes "do_item_get key nkey hv s = Some (it, s')" "it \<noteq> NULL"
  shows "s' = s\<lparr>heap := heap s'\<rparr>"
  using assms
  by (auto simp: do_item_get_def item_get_find_def Let_def refcount_incr_def upd_item_def split: Option.bind_splits if_splits)

section \<open>\<open>append\<close> and \<open>prepend\<close>\<close>

text \<open>The combined item: its length, its flags, and the class of the chunk it needs.\<close>

definition combined_len :: "item \<Rightarrow> item \<Rightarrow> int" where
  "combined_len i old = it_len i + it_len old - 2"

definition combined_size :: "worker_state \<Rightarrow> item \<Rightarrow> item \<Rightarrow> u64" where
  "combined_size w i old = item_ntotal_for (unat (it_nkey i)) (strtol_int (it_suffix old)) (combined_len i old) w"

text \<open>The old item may be combined with the item \<open>it\<close>: both are complete, and a size class holds the result
  or no class does.\<close>

definition combinable ::
  "alloc_env \<Rightarrow> ptr set \<Rightarrow> worker_state \<Rightarrow> (bytes \<rightharpoonup> ptr) \<Rightarrow> (nat \<Rightarrow> ptr list) \<Rightarrow> (nat \<Rightarrow> ptr list) \<Rightarrow> ptr \<Rightarrow> ptr \<Rightarrow> bool" where
  "combinable env Q w M L F it p \<longleftrightarrow> it_nkey (heap w it) \<noteq> 0 \<and> 2 \<le> it_len (heap w it) \<and> 2 \<le> it_len (heap w p) \<and>
     combined_len (heap w it) (heap w p) < 2 ^ 31 \<and> it \<in> Q \<and> p \<in> Q \<and> (\<forall>q\<in>ran M. it_refcount (heap w q) + 2 \<noteq> 0) \<and>
     (\<exists>cl. slabs_clsid (combined_size w (heap w it) (heap w p)) w = Some cl \<and>
        (cl = 0 \<and> 0 < power_largest w \<or> alloc_pre env cl {} Q w M L F))"

lemma item_alloc_too_large:
  assumes "slabs_clsid (item_ntotal_for nkey flags nbytes s) s = Some 0"
  shows "do_item_alloc env key nkey flags exptime nbytes hv s = Some (NULL, s)"
  using assms by (simp add: do_item_alloc_def case_prod_beta')

text \<open>A lookup that found an item leaves everything an allocation needs as it was.\<close>

lemma alloc_pre_found:
  assumes st: "storable w M L F it" and l: "looked_up w M L F it p w1 M1 L1 F1"
    and p: "live_item w M (item_key (heap w it)) = Some p" and h: "w1 = w\<lparr>heap := heap w1\<rparr>"
    and a: "alloc_pre env cl {} Q w M L F" and r: "\<forall>q\<in>ran M. it_refcount (heap w q) + 2 \<noteq> 0"
  shows "alloc_pre env cl {p} Q w1 M L F"
proof -
  note A = alloc_preD [OF a] and D = looked_upD [OF l] and O = looked_up_old [OF st l p]
  have o: "M (item_key (heap w it)) = Some p" "M1 = M" "L1 = L" "F1 = F" using D(9) [OF p] by blast+
  note hp = D(10) [OF p]
  have s1: "classes w1 = classes w" "slabclass w1 = slabclass w" "page_len cl w1 = page_len cl w" "settings w1 = settings w"
    "slabs_lock w1 = slabs_lock w" "mem_base w1 = mem_base w"
    by (subst h; simp add: classes_def page_len_def)+
  have i: "cache_inv w1 M L F" using D(1) o by simp
  have room: "room_apart env cl Q F w1" "chunks_fit w1 cl (unat (page_len cl w1))"
    using A(6,8) by (simp_all add: room_apart_def page_fresh_def chunks_fit_def s1)
  have ran: "p \<in> ran M" using o(1) by (rule ranI)
  have cr: "is_crawler (heap w1 q)" if "q \<in> set (L cl)" "q \<notin> ran M" for q
    using A(11) [OF that] that(2) ran by (auto simp: hp)
  have rc: "it_refcount (heap w1 q) + 1 \<noteq> 0" if "q \<in> ran M" for q
    using A(12) [OF that] r that by (auto simp: hp add.commute add.assoc)
  have ne: "it_refcount (heap w1 p) \<noteq> 1" using O(4) by auto
  show ?thesis
    unfolding alloc_pre_def s1
    using i A(2-5,7,9,10,13) room [unfolded s1] cr rc ne by simp
qed

text \<open>The combined item takes the place of the old one.\<close>

lemma store_combined_new:
  assumes i: "cache_inv w2 M2 L2 F2" and n: "linkable w2 L2 F2 n" "item_key (heap w2 n) = k" "it_refcount (heap w2 n) = 1"
    and p: "M2 k = Some p" "1 < it_refcount (heap w2 p)" "\<not> slabs_lock w2" "\<not> cache_lock w2"
      "Suc (length (F2 (unat (it_slabs_clsid (heap w2 p))))) < 2 ^ 32"
    and hv: "hv = hash_fn w2 k"
  shows "\<exists>w' L' F'. store_link n p n hv c (upd_item n (\<lambda>j. j\<lparr>it_data := d j\<rparr>) w2) =
       Some (STORED, c\<lparr>c_cas := ITEM_get_cas (heap w' n)\<rparr>, w') \<and>
     cache_inv w' (M2(k \<mapsto> n)) L' F' \<and> (\<forall>r. r \<noteq> n \<longrightarrow> r \<noteq> p \<longrightarrow> same_contents (heap w2 r) (heap w' r)) \<and>
     entry_of (heap w' n) = entry_of ((heap w2 n)\<lparr>it_data := d (heap w2 n)\<rparr>) \<and> env_same w2 w' \<and>
     (\<forall>d. set (L' d) \<subseteq> insert n (set (L2 d))) \<and> (\<forall>r d. r \<in> set (F' d) \<longrightarrow> r \<in> set (F2 d) \<or> r = p)"
proof -
  let ?w = "upd_item n (\<lambda>j. j\<lparr>it_data := d j\<rparr>) w2"
  have pn: "n \<noteq> p" using cached_not_linkable [OF i n(1), of k] p(1) by blast
  have o: "outside w2 L2 F2 n" using n(1) by (simp add: linkable_def outside_def)
  have i': "cache_inv ?w M2 L2 F2" by (rule cache_inv_outside [OF i o])
  have l': "linkable ?w L2 F2 n" using n(1) by (simp add: linkable_def is_item_def key_ok_def flag_bits classes_def upd_item_def)
  have old: "p = NULL \<and> M2 k = None \<or> M2 k = Some p \<and> 1 < it_refcount (heap ?w p) \<and> \<not> slabs_lock ?w \<and>
       Suc (length (F2 (unat (it_slabs_clsid (heap ?w p))))) < 2 ^ 32"
    using p pn by simp
  have k': "item_key (heap ?w n) = k" "it_refcount (heap ?w n) = 1" "hv = hash_fn ?w k" "\<not> cache_lock ?w" "n = NULL \<or> n = n"
    using n(2,3) hv p(4) by (simp_all add: item_key_def)
  from store_link_result [OF i' l' k'(1-4) old k'(5), of c] obtain w' L' F' where
    s: "store_link n p n hv c ?w = Some (STORED, c\<lparr>c_cas := ITEM_get_cas (heap w' n)\<rparr>, w')"
      "cache_inv w' (M2(k \<mapsto> n)) L' F'" "\<forall>r. r \<noteq> n \<longrightarrow> M2 k \<noteq> Some r \<longrightarrow> same_contents (heap ?w r) (heap w' r)"
      "entry_of (heap w' n) = entry_of (heap ?w n)" "env_same ?w w'" "\<forall>d. set (L' d) \<subseteq> insert n (set (L2 d))"
      "\<forall>r d. r \<in> set (F' d) \<longrightarrow> r \<in> set (F2 d) \<or> M2 k = Some r" by blast
  have "env_same w2 w'" using s(5) by (simp add: env_same_def upd_item_def)
  then show ?thesis using s p(1) by (intro exI [of _ w'] exI [of _ L'] exI [of _ F']) auto
qed

text \<open>What \<open>append\<close> and \<open>prepend\<close> leave behind: the answer and the entry of the key, everything else as it
  was or evicted, and the item they came with still held by its connection.\<close>

definition append_done ::
  "worker_state \<Rightarrow> (bytes \<rightharpoonup> ptr) \<Rightarrow> ptr \<Rightarrow> entry option \<Rightarrow>
   worker_state \<Rightarrow> (bytes \<rightharpoonup> ptr) \<Rightarrow> (nat \<Rightarrow> ptr list) \<Rightarrow> (nat \<Rightarrow> ptr list) \<Rightarrow> bool" where
  "append_done w M it e w' M' L' F' \<longleftrightarrow>
     (let k = item_key (heap w it) in
      cache_inv w' M' L' F' \<and> entry_at w' M' k = e \<and>
      (\<forall>j q. j \<noteq> k \<longrightarrow> M' j = Some q \<longrightarrow> M j = Some q \<and> entry_of (heap w' q) = entry_of (heap w q)) \<and>
      M' k \<noteq> Some it \<and> linkable w' L' F' it \<and> it_refcount (heap w' it) = 1)"

lemma append_done_other:
  assumes "store_done w M it (ret, e) w' M' L' F'" "ret \<noteq> STORED" "storable w M L F it"
  shows "append_done w M it e w' M' L' F'"
proof -
  note S = storableD [OF assms(3)]
  have "entry_of (heap w' q) = entry_of (heap w q)" if "j \<noteq> item_key (heap w it)" "M j = Some q" for j q
  proof -
    have "q \<noteq> it" using cached_not_linkable [OF S(1,2)] that(2) by blast
    moreover have "M (item_key (heap w it)) \<noteq> Some q" using cached_item(7) [OF S(1)] that by metis
    ultimately show ?thesis using assms(1) entry_of_kept by (simp add: store_done_def Let_def)
  qed
  then show ?thesis using assms(1,2) by (simp add: append_done_def store_done_def Let_def)
qed

lemma combined_header:
  "it_len j = n \<Longrightarrow> it_suffix j = fst (item_make_header a fl b) \<Longrightarrow> - (2 ^ 31) \<le> fl \<Longrightarrow> fl < 2 ^ 31 \<Longrightarrow>
     entry_of (j\<lparr>it_data := d\<rparr>) = (data_read 0 (nat n) d, fl, it_exptime j)"
  by (simp add: entry_of_def it_len_def strtol_suffix)

lemma sint_of_int_small: "- (2 ^ 31) \<le> x \<Longrightarrow> x < 2 ^ 31 \<Longrightarrow> sint (of_int x :: u32) = x"
  by (simp add: signed_of_int signed_take_bit_int_eq_self)

text \<open>The memory for the combined item was found.\<close>

lemma store_combined_got:
  assumes st: "storable w M L F it" and l: "looked_up w M L F it p w1 M1 L1 F1"
    and p: "live_item w M (item_key (heap w it)) = Some p" and len: "2 \<le> it_len (heap w it)" "2 \<le> it_len (heap w p)"
      "combined_len (heap w it) (heap w p) < 2 ^ 31" and Q: "it \<in> Q" "p \<in> Q"
    and comm: "comm = NREAD_APPEND \<or> comm = NREAD_PREPEND"
    and a: "cache_inv w2 M2 L2 F2" "alloc_same w1 w2" "\<And>q. q \<in> Q \<Longrightarrow> q \<noteq> n \<Longrightarrow> kept (heap w1 q) (heap w2 q)"
      "\<And>q d. q \<in> Q \<Longrightarrow> d \<in> classes w1 \<Longrightarrow> q \<notin> set (F2 d)" "\<And>d. d < LARGEST_ID \<Longrightarrow> set (L2 d) \<subseteq> set (L d)"
    and n: "linkable w2 L2 F2 n" "M2 = M \<and> n \<notin> Q \<or> (\<exists>j. M j = Some n \<and> n \<noteq> p \<and> M2 = M(j := None))"
      "item_key (heap w2 n) = item_key (heap w it)" "it_nbytes (heap w2 n) = of_int (combined_len (heap w it) (heap w p))"
      "it_refcount (heap w2 n) = 1" "it_exptime (heap w2 n) = it_exptime (heap w p)"
      "it_suffix (heap w2 n) = fst (item_make_header nk (strtol_int (it_suffix (heap w p))) (combined_len (heap w it) (heap w p)))"
    and LQ: "\<And>d. d < LARGEST_ID \<Longrightarrow> set (L d) \<subseteq> Q" and r2: "Suc (length (F2 (unat (it_slabs_clsid (heap w p))))) < 2 ^ 32"
  defines "e \<equiv> snd (store_spec comm 0 (entry_of (heap w it)) (old_entry w M (item_key (heap w it))))"
  shows "\<exists>w' M' L' F'. store_link n p n (hash_fn w (item_key (heap w it))) c
       (upd_item n (\<lambda>j. j\<lparr>it_data := combine_values comm (heap w2 p) (heap w2 it) (it_data j)\<rparr>) w2) =
       Some (STORED, c\<lparr>c_cas := ITEM_get_cas (heap w' n)\<rparr>, w') \<and> append_done w M it e w' M' L' F'"
proof -
  let ?k = "item_key (heap w it)" and ?n = "combined_len (heap w it) (heap w p)"
  note S = storableD [OF st] and D = looked_upD [OF l] and I = looked_up_item [OF st l] and O = looked_up_old [OF st l p]
  have o: "M ?k = Some p" "M1 = M" "L1 = L" "F1 = F" using D(9) [OF p] by blast+
  have itc: "\<And>j. M j \<noteq> Some it" using cached_not_linkable [OF S(1,2)] by blast
  have np: "n \<noteq> p" "n \<noteq> it" using n(2) Q itc by auto
  have kp: "kept (heap w1 p) (heap w2 p)" "kept (heap w1 it) (heap w2 it)" using a(3) Q np by auto
  note Kp = keptD [OF kp(1)] kept_facts [OF kp(1)] and Ki = keptD [OF kp(2)] kept_facts [OF kp(2)]
  have ki: "kept (heap w it) (heap w1 it)" using D(7) itc by blast
  have "M2 ?k = Some p" using n(2) o(1) by auto
  moreover have "1 < it_refcount (heap w2 p)" "\<not> slabs_lock w2" "\<not> cache_lock w2" "hash_fn w ?k = hash_fn w2 ?k"
    using O(4) D(4-6) S(5) [OF o(1)] a(2) by (auto simp: Kp alloc_same_def ref_room_def)
  moreover have "Suc (length (F2 (unat (it_slabs_clsid (heap w2 p))))) < 2 ^ 32" using r2 by (simp add: Kp O(3))
  ultimately obtain w' L' F' where s: "store_link n p n (hash_fn w ?k) c
       (upd_item n (\<lambda>j. j\<lparr>it_data := combine_values comm (heap w2 p) (heap w2 it) (it_data j)\<rparr>) w2) =
       Some (STORED, c\<lparr>c_cas := ITEM_get_cas (heap w' n)\<rparr>, w')"
     "cache_inv w' (M2(?k \<mapsto> n)) L' F'" "\<forall>r. r \<noteq> n \<longrightarrow> r \<noteq> p \<longrightarrow> same_contents (heap w2 r) (heap w' r)"
     "entry_of (heap w' n) = entry_of ((heap w2 n)\<lparr>it_data := combine_values comm (heap w2 p) (heap w2 it) (it_data (heap w2 n))\<rparr>)"
     "env_same w2 w'" "\<forall>d. set (L' d) \<subseteq> insert n (set (L2 d))" "\<forall>r d. r \<in> set (F' d) \<longrightarrow> r \<in> set (F2 d) \<or> r = p"
    using store_combined_new [OF a(1) n(1,3,5), of p "hash_fn w ?k" c "\<lambda>j. combine_values comm (heap w2 p) (heap w2 it) (it_data j)"]
    by (auto simp: that)
  have le: "it_len (heap w2 p) = it_len (heap w p)" "it_len (heap w2 it) = it_len (heap w it)"
    "it_data (heap w2 p) = it_data (heap w p)" "it_data (heap w2 it) = it_data (heap w it)"
    using O(1) by (simp_all add: it_len_def Kp Ki keptD [OF ki] D(10) [OF p])
  have ln: "it_len (heap w2 n) = ?n"
  proof -
    have "- (2 ^ 31) \<le> ?n" using len(1,2) by (simp add: combined_len_def)
    then show ?thesis unfolding it_len_def n(4) by (rule sint_of_int_small [OF _ len(3)])
  qed
  have en: "entry_of (heap w' n) = (data_read 0 (nat ?n) (combine_values comm (heap w2 p) (heap w2 it) (it_data (heap w2 n))),
      strtol_int (it_suffix (heap w p)), it_exptime (heap w p))"
    unfolding s(4) using combined_header [OF ln n(7) strtol_int_range] n(6) by simp
  have "e = Some (entry_of (heap w' n))"
    using comm
  proof
    assume c: "comm = NREAD_APPEND"
    have "data_read 0 (nat ?n) (combine_values comm (heap w2 p) (heap w2 it) (it_data (heap w2 n))) =
        take (nat (it_len (heap w p)) - 2) (data_read 0 (nat (it_len (heap w p))) (it_data (heap w p))) @
        data_read 0 (nat (it_len (heap w it))) (it_data (heap w it))"
      using combine_append [of "heap w2 p" "heap w2 it"] len by (simp add: c le combined_len_def)
    then show ?thesis
      by (simp add: e_def en O(8) c) (simp add: store_spec_def nread_defs entry_of_def data_read_length)
  next
    assume c: "comm = NREAD_PREPEND"
    have "data_read 0 (nat ?n) (combine_values comm (heap w2 p) (heap w2 it) (it_data (heap w2 n))) =
        take (nat (it_len (heap w it)) - 2) (data_read 0 (nat (it_len (heap w it))) (it_data (heap w it))) @
        data_read 0 (nat (it_len (heap w p))) (it_data (heap w p))"
      using combine_prepend [of "heap w2 p" "heap w2 it"] len by (simp add: c le combined_len_def)
    then show ?thesis
      by (simp add: e_def en O(8) c) (simp add: store_spec_def nread_defs entry_of_def data_read_length)
  qed
  moreover have "M j = Some q \<and> entry_of (heap w' q) = entry_of (heap w q)" if j: "j \<noteq> ?k" "(M2(?k \<mapsto> n)) j = Some q" for j q
  proof -
    have m: "M j = Some q" using j n(2) by (auto split: if_splits)
    have qp: "q \<noteq> p" using cached_item(7) [OF S(1)] o(1) m j(1) by metis
    have qn: "q \<noteq> n"
    proof
      assume qn: "q = n"
      then obtain i where i: "M i = Some n" "M2 = M(i := None)"
        using n(2) cached_item(2,4) [OF S(1) m] LQ m by blast
      then have "i = j" using cached_item(7) [OF S(1)] m qn by metis
      then show False using i j by simp
    qed
    have qQ: "q \<in> Q" using cached_item(2,4) [OF S(1) m] LQ by blast
    have "kept (heap w q) (heap w1 q)" using D(7) o(1) qp by auto
    moreover have "kept (heap w1 q) (heap w2 q)" by (rule a(3) [OF qQ qn])
    moreover have "kept (heap w2 q) (heap w' q)" using s(3) qn qp kept_contents by blast
    ultimately show ?thesis using m entry_of_kept kept_trans by blast
  qed
  moreover have Cit: "same_contents (heap w2 it) (heap w' it)" using s(3) np O(7) by metis
  moreover have "linkable w' L' F' it"
  proof -
    have cl: "classes w' = classes w1" "classes w2 = classes w1" using a(2) s(5) by (auto simp: alloc_same_def env_same_def classes_def)
    have "it \<notin> set (L' d)" if "d < LARGEST_ID" for d using s(6) np(2) a(5) [OF that] D(2) that o(3) by (auto simp: linkable_def)
    moreover have "it \<notin> set (F' d)" if "d \<in> classes w1" for d using s(7) a(4) [OF Q(1) that] O(7) by blast
    ultimately show ?thesis
      using D(2) unfolding linkable_def same_contents_facts [OF Cit] same_contentsD [OF Cit] Ki cl by blast
  qed
  moreover have "it_refcount (heap w' it) = 1" using I(2) same_contentsD [OF Cit] by (simp add: Ki)
  ultimately have "append_done w M it e w' (M2(?k \<mapsto> n)) L' F'"
    using s(2) np(2) by (simp add: append_done_def Let_def entry_at_def)
  then show ?thesis using s(1) by blast
qed

section \<open>\<open>append\<close> and \<open>prepend\<close>\<close>

text \<open>Neither store ends when the memory for the combined item is missing: the entry stays.\<close>

lemma store_combined_none:
  assumes st: "storable w M L F it" and l: "looked_up w M L F it p w1 M1 L1 F1"
    and p: "live_item w M (item_key (heap w it)) = Some p" and Q: "it \<in> Q" "p \<in> Q"
    and a: "cache_inv w2 M L2 F2" "alloc_same w1 w2" "\<And>q. q \<in> Q \<Longrightarrow> kept (heap w1 q) (heap w2 q)"
      "\<And>q d. q \<in> Q \<Longrightarrow> d \<in> classes w1 \<Longrightarrow> q \<notin> set (F2 d)" "\<And>d. d < LARGEST_ID \<Longrightarrow> set (L2 d) \<subseteq> set (L d)"
    and LQ: "\<And>d. d < LARGEST_ID \<Longrightarrow> set (L d) \<subseteq> Q"
  shows "\<exists>w'. store_finish NOT_STORED it p NULL c w2 = Some (NOT_STORED, c, w') \<and>
    append_done w M it (Some (entry_of (heap w p))) w' M L2 F2"
proof -
  let ?k = "item_key (heap w it)"
  note S = storableD [OF st] and D = looked_upD [OF l] and I = looked_up_item [OF st l] and O = looked_up_old [OF st l p]
  have o: "M ?k = Some p" "M1 = M" "L1 = L" "F1 = F" using D(9) [OF p] by blast+
  note Kp = keptD [OF a(3) [OF Q(2)]] kept_facts [OF a(3) [OF Q(2)]]
  note Ki = keptD [OF a(3) [OF Q(1)]] kept_facts [OF a(3) [OF Q(1)]]
  have ne: "it_refcount (heap w2 p) \<noteq> 1" using O(4) by (auto simp: Kp)
  then have au: "after_unref (heap w2 p) p F2 = F2" by (simp add: after_unref_def)
  have "droppable w2 L2 F2 p" using O(4,5) order.strict_trans1 [OF word_zero_le O(4)] by (auto simp: droppable_def Kp)
  from store_finish_old [OF a(1) this O(6), of NOT_STORED it c] obtain w' where
    w': "store_finish NOT_STORED it p NULL c w2 = Some (NOT_STORED, c, w')" "cache_inv w' M L2 F2" "env_same w2 w'"
      "\<forall>q. q \<noteq> p \<longrightarrow> same_contents (heap w2 q) (heap w' q)"
      "heap w' p = (heap w2 p)\<lparr>it_refcount := it_refcount (heap w2 p) - 1\<rparr>"
    using ne by (auto simp: au)
  have C: "same_contents (heap w2 it) (heap w' it)" using w'(4) O(7) by blast
  have "classes w2 = classes w1" using a(2) by (simp add: alloc_same_def classes_def)
  then have "linkable w2 L2 F2 it" using D(2) a(4,5) Q(1) unfolding linkable_def Ki o by blast
  then have "linkable w' L2 F2 it" by (rule linkable_mono [OF _ C w'(3)]) auto
  moreover have ep: "entry_of (heap w' p) = entry_of (heap w p)"
    using w'(5) entry_of_kept [OF a(3) [OF Q(2)]] O(1) by (simp add: entry_of_def it_len_def)
  moreover have "entry_of (heap w' q) = entry_of (heap w q)" if j: "j \<noteq> ?k" "M j = Some q" for j q
  proof -
    have qp: "q \<noteq> p" using cached_item(7) [OF S(1)] o(1) j by metis
    have qQ: "q \<in> Q" using cached_item(2,4) [OF S(1) j(2)] LQ by blast
    have "kept (heap w q) (heap w1 q)" using D(7) o(1) qp by auto
    moreover have "kept (heap w2 q) (heap w' q)" using w'(4) qp kept_contents by blast
    ultimately show ?thesis using a(3) [OF qQ] entry_of_kept kept_trans by blast
  qed
  ultimately have "append_done w M it (Some (entry_of (heap w p))) w' M L2 F2"
    using w'(2) o(1) I(2) O(7) by (auto simp: append_done_def Let_def entry_at_def same_contentsD [OF C] Ki)
  then show ?thesis using w'(1) by blast
qed

text \<open>The counter of free chunks of a class does not wrap when the old item is freed after the allocation of
  the combined one.\<close>

definition free_room :: "alloc_env \<Rightarrow> worker_state \<Rightarrow> ptr \<Rightarrow> ptr \<Rightarrow> bool" where
  "free_room env w it p =
     (let i = heap w it; hv = hash_fn w (item_key i) in
      case do_item_get (it_key i) (unat (it_nkey i)) hv w of
        None \<Rightarrow> True
      | Some (_, w1) \<Rightarrow>
         (case do_item_alloc env (it_key i) (unat (it_nkey i)) (strtol_int (it_suffix (heap w p)))
                 (it_exptime (heap w p)) (combined_len i (heap w p)) hv w1 of
            None \<Rightarrow> True
          | Some (_, w2) \<Rightarrow> sc_sl_curr (slabclass w2 (unat (it_slabs_clsid (heap w p)))) + 1 \<noteq> 0))"

lemma freelist_room:
  assumes "cache_inv s M L F" "d \<in> classes s" "sc_sl_curr (slabclass s d) + 1 \<noteq> 0"
  shows "Suc (length (F d)) < 2 ^ 32"
proof -
  have "sc_sl_curr (slabclass s d) = of_nat (length (F d))" "length (F d) < 2 ^ 32"
    using cache_invD(3) [OF assms(1)] assms(2) by (auto simp: freelists_def freelist_def)
  then have "(of_nat (Suc (length (F d))) :: u32) \<noteq> 0" using assms(3) by (simp add: add.commute)
  then show ?thesis using \<open>length (F d) < 2 ^ 32\<close> by (cases "Suc (length (F d)) = 2 ^ 32") auto
qed

lemma combinableD:
  assumes "combinable env Q w M L F it p"
  shows "it_nkey (heap w it) \<noteq> 0" "2 \<le> it_len (heap w it)" "2 \<le> it_len (heap w p)"
    "combined_len (heap w it) (heap w p) < 2 ^ 31" "it \<in> Q" "p \<in> Q" "\<forall>q\<in>ran M. it_refcount (heap w q) + 2 \<noteq> 0"
    "\<exists>cl. slabs_clsid (combined_size w (heap w it) (heap w p)) w = Some cl \<and>
        (cl = 0 \<and> 0 < power_largest w \<or> alloc_pre env cl {} Q w M L F)"
  using assms unfolding combinable_def by blast+

text \<open>The call of the allocator.\<close>

definition combined_alloc ::
  "alloc_env \<Rightarrow> worker_state \<Rightarrow> ptr \<Rightarrow> ptr \<Rightarrow> worker_state \<Rightarrow> (ptr \<times> worker_state) option" where
  "combined_alloc env w it p w1 =
     (let i = heap w it in
      do_item_alloc env (it_key i) (unat (it_nkey i)) (strtol_int (it_suffix (heap w p)))
        (it_exptime (heap w p)) (combined_len i (heap w p)) (hash_fn w (item_key i)) w1)"

text \<open>No memory is found for the combined item: the allocator, called after the lookup of the old item,
  answers NULL.\<close>

definition memory_short :: "alloc_env \<Rightarrow> worker_state \<Rightarrow> ptr \<Rightarrow> ptr \<Rightarrow> bool" where
  "memory_short env w it p \<longleftrightarrow>
     (let i = heap w it in
      case do_item_get (it_key i) (unat (it_nkey i)) (hash_fn w (item_key i)) w of
        None \<Rightarrow> False
      | Some (_, w1) \<Rightarrow> (case combined_alloc env w it p w1 of None \<Rightarrow> False | Some (n, _) \<Rightarrow> n = NULL))"

lemma store_combined_alloc:
  assumes st: "storable w M L F it" and l: "looked_up w M L F it p w1 M1 L1 F1"
    and p: "live_item w M (item_key (heap w it)) = Some p"
  shows "store_combined env it p comm (hash_fn w (item_key (heap w it))) c w1 = (do {
     (n, w2) \<leftarrow> combined_alloc env w it p w1;
     if n = NULL then store_finish NOT_STORED it p NULL c w2
     else do {
       c_assert (2 \<le> it_len (heap w2 it) \<and> 2 \<le> it_len (heap w2 p));
       store_link n p n (hash_fn w (item_key (heap w it))) c
         (upd_item n (\<lambda>j. j\<lparr>it_data := combine_values comm (heap w2 p) (heap w2 it) (it_data j)\<rparr>) w2)
     }
   })"
proof -
  note D = looked_upD [OF l] and O = looked_up_old [OF st l p]
  note C = same_contentsD [OF D(3)]
  have h: "it_suffix (heap w1 p) = it_suffix (heap w p)" "it_exptime (heap w1 p) = it_exptime (heap w p)"
    "it_len (heap w1 p) = it_len (heap w p)" "it_len (heap w1 it) = it_len (heap w it)"
    using D(10) [OF p] by (simp_all add: it_len_def C)
  have "(if p \<noteq> NULL then do_item_remove p w2 else Some w2) = do_item_remove p w2" for w2 :: worker_state
    using O(6) by simp
  then show ?thesis
    by (simp add: store_combined_def combined_alloc_def Let_def h C combined_len_def store_finish_def
        split_def cong: if_cong)
qed

lemma combined_alloc_result:
  assumes st: "storable w M L F it" and l: "looked_up w M L F it p w1 M1 L1 F1"
    and p: "live_item w M (item_key (heap w it)) = Some p" and h: "w1 = w\<lparr>heap := heap w1\<rparr>"
    and cb: "combinable env Q w M L F it p" and a: "alloc_pre env cl {} Q w M L F"
    and cl: "slabs_clsid (item_ntotal_for (unat (it_nkey (heap w it))) (strtol_int (it_suffix (heap w p)))
      (combined_len (heap w it) (heap w p)) w1) w1 = Some cl"
  shows "\<exists>n w2 M2 L2 F2. combined_alloc env w it p w1 = Some (n, w2) \<and> cache_inv w2 M2 L2 F2 \<and> alloc_same w1 w2 \<and>
     (\<forall>q\<in>Q. q \<noteq> n \<longrightarrow> kept (heap w1 q) (heap w2 q)) \<and> (\<forall>q\<in>Q. \<forall>d\<in>classes w1. q \<notin> set (F2 d)) \<and>
     (\<forall>d<LARGEST_ID. set (L2 d) \<subseteq> set (L d)) \<and>
     (if n = NULL then M2 = M
      else linkable w2 L2 F2 n \<and> (M2 = M \<and> n \<notin> Q \<or> (\<exists>j. M j = Some n \<and> n \<noteq> p \<and> M2 = M(j := None))) \<and>
       item_key (heap w2 n) = item_key (heap w it) \<and> it_nbytes (heap w2 n) = of_int (combined_len (heap w it) (heap w p)) \<and>
       it_refcount (heap w2 n) = 1 \<and> it_exptime (heap w2 n) = it_exptime (heap w p) \<and>
       it_suffix (heap w2 n) = fst (item_make_header (of_nat (unat (it_nkey (heap w it))) + 1)
          (strtol_int (it_suffix (heap w p))) (combined_len (heap w it) (heap w p))))"
proof -
  note S = storableD [OF st] and D = looked_upD [OF l] and C = combinableD [OF cb]
  have key: "unat (it_nkey (heap w it)) \<le> length (it_key (heap w it))" "unat (it_nkey (heap w it)) < 256"
    "0 < unat (it_nkey (heap w it))"
    using S(2) C(1) unsigned_less [of "it_nkey (heap w it)"]
    by (simp_all add: linkable_def key_ok_def unsigned_eq_0_iff flip: neq0_conv)
  have kk: "take (unat (it_nkey (heap w it))) (it_key (heap w it)) = item_key (heap w it)" by (simp add: item_key_def)
  from do_item_alloc_inv [OF alloc_pre_found [OF st l p h a C(7)] cl D(5) key, of "it_exptime (heap w p)"
      "hash_fn w (item_key (heap w it))", unfolded kk singleton_iff]
  obtain n w2 M2 L2 F2 where r: "combined_alloc env w it p w1 = Some (n, w2)" "cache_inv w2 M2 L2 F2" "alloc_same w1 w2"
      "\<forall>q\<in>Q. q \<noteq> n \<longrightarrow> kept (heap w1 q) (heap w2 q)" "\<forall>q\<in>Q. \<forall>d\<in>classes w1. q \<notin> set (F2 d)"
      "\<forall>d<LARGEST_ID. set (L2 d) \<subseteq> set (L d)"
    and n: "if n = NULL then M2 = M
      else linkable w2 L2 F2 n \<and> (M2 = M \<and> n \<notin> Q \<or> (\<exists>j. M j = Some n \<and> n \<noteq> p \<and> M2 = M(j := None))) \<and>
       item_key (heap w2 n) = item_key (heap w it) \<and> it_nkey (heap w2 n) = of_nat (unat (it_nkey (heap w it))) \<and>
       it_nbytes (heap w2 n) = of_int (combined_len (heap w it) (heap w p)) \<and>
       it_refcount (heap w2 n) = 1 \<and> it_exptime (heap w2 n) = it_exptime (heap w p) \<and>
       unat (it_slabs_clsid (heap w2 n)) = cl \<and>
       it_flags (heap w2 n) = (if use_cas (settings w1) then ITEM_CAS else 0) \<and>
       it_suffix (heap w2 n) = fst (item_make_header (of_nat (unat (it_nkey (heap w it))) + 1)
          (strtol_int (it_suffix (heap w p))) (combined_len (heap w it) (heap w p)))"
    unfolding combined_alloc_def Let_def by blast
  show ?thesis
    by (rule exI [of _ n], rule exI [of _ w2], rule exI [of _ M2], rule exI [of _ L2], rule exI [of _ F2],
      intro conjI, (rule r)+, use n in \<open>simp split: if_splits\<close>)
qed

text \<open>The combined item was allocated.\<close>

lemma append_allocated:
  assumes st: "storable w M L F it" and comm: "comm = NREAD_APPEND \<or> comm = NREAD_PREPEND"
    and l: "looked_up w M L F it p w1 M1 L1 F1"
    and p: "live_item w M (item_key (heap w it)) = Some p" and cb: "combinable env Q w M L F it p"
    and LQ: "\<And>d. d < LARGEST_ID \<Longrightarrow> set (L d) \<subseteq> Q"
    and r: "combined_alloc env w it p w1 = Some (n, w2)" "cache_inv w2 M2 L2 F2" "alloc_same w1 w2"
      "\<And>q. q \<in> Q \<Longrightarrow> q \<noteq> n \<Longrightarrow> kept (heap w1 q) (heap w2 q)" "\<And>q d. q \<in> Q \<Longrightarrow> d \<in> classes w1 \<Longrightarrow> q \<notin> set (F2 d)"
      "\<And>d. d < LARGEST_ID \<Longrightarrow> set (L2 d) \<subseteq> set (L d)" and nN: "n \<noteq> NULL"
    and N: "linkable w2 L2 F2 n" "M2 = M \<and> n \<notin> Q \<or> (\<exists>j. M j = Some n \<and> n \<noteq> p \<and> M2 = M(j := None))"
      "item_key (heap w2 n) = item_key (heap w it)" "it_nbytes (heap w2 n) = of_int (combined_len (heap w it) (heap w p))"
      "it_refcount (heap w2 n) = 1" "it_exptime (heap w2 n) = it_exptime (heap w p)"
      "it_suffix (heap w2 n) = fst (item_make_header nk (strtol_int (it_suffix (heap w p))) (combined_len (heap w it) (heap w p)))"
    and room: "sc_sl_curr (slabclass w2 (unat (it_slabs_clsid (heap w p)))) + 1 \<noteq> 0" and cls: "classes w1 = classes w"
  defines "k \<equiv> item_key (heap w it)"
  defines "e \<equiv> snd (store_spec comm 0 (entry_of (heap w it)) (old_entry w M k))"
  shows "\<exists>x w' M' L' F'. store_combined env it p comm (hash_fn w k) c w1 = Some (STORED, c\<lparr>c_cas := x\<rparr>, w') \<and>
    append_done w M it e w' M' L' F'"
proof -
  note S = storableD [OF st] and D = looked_upD [OF l] and C = combinableD [OF cb]
  have "M k = Some p" using D(9) [OF p] by (simp add: k_def)
  moreover have "classes w2 = classes w1" using r(3) by (simp add: alloc_same_def classes_def)
  ultimately have "unat (it_slabs_clsid (heap w p)) \<in> classes w2" using cached_item(3) [OF S(1)] cls by simp
  then have room': "Suc (length (F2 (unat (it_slabs_clsid (heap w p))))) < 2 ^ 32" by (rule freelist_room [OF r(2) _ room])
  have "it \<noteq> n" "p \<noteq> n" using N(2) C(5,6) cached_not_linkable [OF S(1,2)] by metis+
  then have kip: "kept (heap w1 it) (heap w2 it)" "kept (heap w1 p) (heap w2 p)" using r(4) C(5,6) by simp_all
  have "it_len (heap w1 p) = it_len (heap w p)" using D(10) [OF p] by (simp add: it_len_def)
  then have len: "2 \<le> it_len (heap w2 it)" "2 \<le> it_len (heap w2 p)"
    using C(2,3) by (simp_all add: it_len_def same_contentsD [OF D(3)] keptD [OF kip(1)] keptD [OF kip(2)])
  from store_combined_got [OF st l p C(2-6) comm r(2-6) N LQ room', of c, folded k_def, folded e_def] obtain w' M' L' F' where
    s: "store_link n p n (hash_fn w k) c
       (upd_item n (\<lambda>j. j\<lparr>it_data := combine_values comm (heap w2 p) (heap w2 it) (it_data j)\<rparr>) w2) =
       Some (STORED, c\<lparr>c_cas := ITEM_get_cas (heap w' n)\<rparr>, w')" "append_done w M it e w' M' L' F'" by blast
  have "store_combined env it p comm (hash_fn w k) c w1 = Some (STORED, c\<lparr>c_cas := ITEM_get_cas (heap w' n)\<rparr>, w')"
    using r(1) nN len s(1) by (simp add: store_combined_alloc [OF st l p, folded k_def])
  then show ?thesis using s(2) by blast
qed

lemma append_store:
  assumes st: "storable w M L F it" and comm: "comm = NREAD_APPEND \<or> comm = NREAD_PREPEND"
    and l: "looked_up w M L F it p w1 M1 L1 F1" and h: "w1 = w\<lparr>heap := heap w1\<rparr>"
    and g: "do_item_get (it_key (heap w it)) (unat (it_nkey (heap w it))) (hash_fn w (item_key (heap w it))) w = Some (p, w1)"
    and p: "live_item w M (item_key (heap w it)) = Some p"
    and cb: "combinable env Q w M L F it p" and fr: "free_room env w it p"
  defines "k \<equiv> item_key (heap w it)"
  defines "e \<equiv> snd (store_spec comm 0 (entry_of (heap w it)) (old_entry w M k))"
  shows "\<not> memory_short env w it p \<and>
      (\<exists>x w' M' L' F'. store_combined env it p comm (hash_fn w k) c w1 = Some (STORED, c\<lparr>c_cas := x\<rparr>, w') \<and>
      append_done w M it e w' M' L' F') \<or>
    memory_short env w it p \<and>
    (\<exists>w' M' L' F'. store_combined env it p comm (hash_fn w k) c w1 = Some (NOT_STORED, c, w') \<and>
      append_done w M it (Some (entry_of (heap w p))) w' M' L' F')"
proof -
  note S = storableD [OF st] and D = looked_upD [OF l] and C = combinableD [OF cb]
  note sc = store_combined_alloc [OF st l p, of env comm c, folded k_def]
  have short: "memory_short env w it p \<longleftrightarrow> n = NULL" if "combined_alloc env w it p w1 = Some (n, w2)" for n w2
    using g that by (simp add: memory_short_def Let_def)
  have o: "M1 = M" "L1 = L" "F1 = F" using D(9) [OF p] by simp_all
  from C(8) obtain cl where cl: "slabs_clsid (combined_size w (heap w it) (heap w p)) w = Some cl"
    "cl = 0 \<and> 0 < power_largest w \<or> alloc_pre env cl {} Q w M L F" by blast
  have ne: "classes w \<noteq> {}" using cl(2) by (auto simp: classes_def POWER_SMALLEST_def dest: alloc_preD(2))
  have cl1: "slabs_clsid (item_ntotal_for (unat (it_nkey (heap w it))) (strtol_int (it_suffix (heap w p)))
      (combined_len (heap w it) (heap w p)) w1) w1 = Some cl"
    using cl(1) ne slabs_clsid_heap [of _ w _ "heap w1"] by (subst (1 2) h) (auto simp: item_ntotal_heap combined_size_def)
  show ?thesis
  proof (cases "cl = 0")
    case True
    have ca: "combined_alloc env w it p w1 = Some (NULL, w1)"
      using item_alloc_too_large cl1 True by (simp add: combined_alloc_def Let_def)
    moreover from looked_up_keep [OF st l p, of NOT_STORED w1 L c] D(1,2) obtain w' where
      "store_finish NOT_STORED it p NULL c w1 = Some (NOT_STORED, c, w')"
      "store_done w M it (NOT_STORED, Some (entry_of (heap w p))) w' M L F" unfolding o by auto
    ultimately show ?thesis using append_done_other [OF _ _ st] by (simp add: sc short) blast
  next
    case False
    then have a: "alloc_pre env cl {} Q w M L F" using cl(2) by blast
    note LQ = alloc_preD(9) [OF a]
    from combined_alloc_result [OF st l p h cb a cl1] obtain n w2 M2 L2 F2 where
      r: "combined_alloc env w it p w1 = Some (n, w2)" "cache_inv w2 M2 L2 F2" "alloc_same w1 w2"
      "\<forall>q\<in>Q. q \<noteq> n \<longrightarrow> kept (heap w1 q) (heap w2 q)" "\<forall>q\<in>Q. \<forall>d\<in>classes w1. q \<notin> set (F2 d)"
      "\<forall>d<LARGEST_ID. set (L2 d) \<subseteq> set (L d)" and
      n: "if n = NULL then M2 = M
      else linkable w2 L2 F2 n \<and> (M2 = M \<and> n \<notin> Q \<or> (\<exists>j. M j = Some n \<and> n \<noteq> p \<and> M2 = M(j := None))) \<and>
       item_key (heap w2 n) = item_key (heap w it) \<and> it_nbytes (heap w2 n) = of_int (combined_len (heap w it) (heap w p)) \<and>
       it_refcount (heap w2 n) = 1 \<and> it_exptime (heap w2 n) = it_exptime (heap w p) \<and>
       it_suffix (heap w2 n) = fst (item_make_header (of_nat (unat (it_nkey (heap w it))) + 1)
          (strtol_int (it_suffix (heap w p))) (combined_len (heap w it) (heap w p)))" by blast
    have fl: "\<And>q d. q \<in> Q \<Longrightarrow> d \<in> classes w1 \<Longrightarrow> q \<notin> set (F2 d)" using r(5) by blast
    have ll: "\<And>d. d < LARGEST_ID \<Longrightarrow> set (L2 d) \<subseteq> set (L d)" using r(6) by blast
    show ?thesis
    proof (cases "n = NULL")
      case True
      have nQ: "n \<notin> Q" using True alloc_preD(13) [OF a] by simp
      have i2: "cache_inv w2 M L2 F2" using r(2) n True by simp
      have "\<And>q. q \<in> Q \<Longrightarrow> kept (heap w1 q) (heap w2 q)"
        by (rule r(4) [rule_format]) (use nQ in auto)
      from store_combined_none [OF st l p C(5,6) i2 r(3) this fl ll LQ, of c] obtain w' where
        "store_finish NOT_STORED it p NULL c w2 = Some (NOT_STORED, c, w')"
        "append_done w M it (Some (entry_of (heap w p))) w' M L2 F2" by blast
      moreover have "store_combined env it p comm (hash_fn w k) c w1 = store_finish NOT_STORED it p NULL c w2"
        using r(1) True by (simp add: sc)
      ultimately show ?thesis using short [OF r(1)] True by metis
    next
      case False
      have room: "sc_sl_curr (slabclass w2 (unat (it_slabs_clsid (heap w p)))) + 1 \<noteq> 0"
        using fr g r(1) by (simp add: free_room_def combined_alloc_def Let_def)
      have "classes w1 = classes w" by (subst h) (simp add: classes_def)
      from append_allocated [OF st comm l p cb LQ r(1-3) r(4) [rule_format] fl ll False _ _ _ _ _ _ _ room this]
        n False show ?thesis using short [OF r(1)] unfolding k_def e_def by (simp del: ex_simps)
    qed
  qed
qed

text \<open>The whole command.\<close>

definition append_result ::
  "alloc_env \<Rightarrow> worker_state \<Rightarrow> (bytes \<rightharpoonup> ptr) \<Rightarrow> ptr \<Rightarrow> int \<Rightarrow> conn \<Rightarrow> (store_item_type \<times> conn \<times> worker_state) option \<Rightarrow> bool" where
  "append_result env w M it comm c r \<longleftrightarrow>
     (let old = old_entry w M (item_key (heap w it));
          sp = store_spec comm (ITEM_get_cas (heap w it)) (entry_of (heap w it)) old;
          short = (\<exists>p. live_item w M (item_key (heap w it)) = Some p \<and> memory_short env w it p)
      in \<exists>ret x w' M' L' F' e. r = Some (ret, c\<lparr>c_cas := x\<rparr>, w') \<and> append_done w M it e w' M' L' F' \<and>
           (ret, e) = (if fst sp = STORED \<and> short then (NOT_STORED, map_option fst old) else sp))"

lemma append_resultI:
  assumes "append_done w M it e w' M' L' F'"
    and "sp = store_spec comm (ITEM_get_cas (heap w it)) (entry_of (heap w it)) (old_entry w M (item_key (heap w it)))"
    and "(ret, e) = (if fst sp = STORED \<and> (\<exists>p. live_item w M (item_key (heap w it)) = Some p \<and> memory_short env w it p)
      then (NOT_STORED, map_option fst (old_entry w M (item_key (heap w it)))) else sp)"
  shows "append_result env w M it comm c (Some (ret, c\<lparr>c_cas := x\<rparr>, w'))"
  using assms unfolding append_result_def Let_def by blast

theorem do_store_item_append:
  assumes st: "storable w M L F it" and comm: "comm = NREAD_APPEND \<or> comm = NREAD_PREPEND"
    and cb: "\<And>p. live_item w M (item_key (heap w it)) = Some p \<Longrightarrow> combinable env Q w M L F it p \<and> free_room env w it p"
  shows "append_result env w M it comm c (do_store_item env it comm c (hash_fn w (item_key (heap w it))) w)"
proof -
  define k where "k = item_key (heap w it)"
  define sp where "sp = store_spec comm (ITEM_get_cas (heap w it)) (entry_of (heap w it)) (old_entry w M k)"
  have cx: "c\<lparr>c_cas := c_cas c\<rparr> = c" by simp
  have res: "append_result env w M it comm c (Some (ret, c, w'))"
    if "append_done w M it e w' M' L' F'" "(ret, e) = (if fst sp = STORED \<and> (\<exists>p. live_item w M k = Some p \<and> memory_short env w it p)
      then (NOT_STORED, map_option fst (old_entry w M k)) else sp)"
    for ret w' e M' L' F'
    using append_resultI [OF that(1) sp_def [unfolded k_def] that(2) [unfolded k_def], of c "c_cas c"] by simp
  from storable_get [OF st, folded k_def] obtain old w1 M1 L1 F1 where
    g: "do_item_get (it_key (heap w it)) (unat (it_nkey (heap w it))) (hash_fn w k) w = Some (old, w1)"
    and l: "looked_up w M L F it old w1 M1 L1 F1" by blast
  note D = looked_upD [OF l, folded k_def] and I = looked_up_item [OF st l]
  have nc: "comm \<noteq> NREAD_ADD" "comm \<noteq> NREAD_CAS" "comm \<noteq> NREAD_REPLACE" using comm by (auto simp: nread_defs)
  show ?thesis
  proof (cases "live_item w M k")
    case None
    then have o: "old = NULL" "old_entry w M k = None" using D(8) by (simp_all add: old_entry_def)
    have "do_store_item env it comm c (hash_fn w k) w = store_finish NOT_STORED it old NULL c w1"
      using g o(1) comm nc by (auto simp: do_store_item_def Let_def)
    also have "\<dots> = Some (NOT_STORED, c, w1)" by (rule looked_up_none(1) [OF st l None [unfolded k_def]]) simp
    finally have d: "do_store_item env it comm c (hash_fn w k) w = Some (NOT_STORED, c, w1)" .
    have "store_done w M it (NOT_STORED, None) w1 M1 L1 F1" by (rule looked_up_none(2) [OF st l None [unfolded k_def]]) simp
    moreover have "sp = (NOT_STORED, None)" using comm by (auto simp: sp_def o(2) store_spec_def)
    ultimately show ?thesis using res [OF append_done_other [OF _ _ st]] by (simp add: d flip: k_def)
  next
    case (Some p)
    note O = looked_up_old [OF st l Some [unfolded k_def], folded k_def]
    have o: "old = p" "M1 = M" "L1 = L" "F1 = F" using D(9) [OF Some] by blast+
    show ?thesis
    proof (cases "ITEM_get_cas (heap w it) \<noteq> 0 \<and> ITEM_get_cas (heap w it) \<noteq> ITEM_get_cas (heap w p)")
      case True
      have "do_store_item env it comm c (hash_fn w k) w = store_finish EXISTS it old NULL c w1"
        using g o(1) True comm nc O(6) I(4) O(2) by (auto simp: do_store_item_def Let_def)
      moreover from looked_up_keep [OF st l Some [unfolded k_def], of EXISTS w1 L c] D(1,2) obtain w' where
        "store_finish EXISTS it old NULL c w1 = Some (EXISTS, c, w')"
        "store_done w M it (EXISTS, Some (entry_of (heap w p))) w' M L F" unfolding o by auto
      moreover have "sp = (EXISTS, Some (entry_of (heap w p)))" using comm nc True by (auto simp: sp_def O(8) store_spec_def)
      ultimately show ?thesis using res [OF append_done_other [OF _ _ st]] o(1) by (simp flip: k_def)
    next
      case False
      have "store_spec comm 0 (entry_of (heap w it)) (old_entry w M k) = sp" "fst sp = STORED"
        using comm nc False by (auto simp: sp_def O(8) store_spec_def)
      then have sp: "(STORED, snd (store_spec comm 0 (entry_of (heap w it)) (old_entry w M k))) = sp" "fst sp = STORED"
        by (simp_all add: prod_eq_iff)
      have h: "w1 = w\<lparr>heap := heap w1\<rparr>" by (rule get_found_heap [OF g]) (use o(1) O(6) in simp)
      have d: "do_store_item env it comm c (hash_fn w k) w = store_combined env it p comm (hash_fn w k) c w1"
        using g o(1) False comm nc O(6) I(4) O(2) by (auto simp: do_store_item_def Let_def)
      have "combinable env Q w M L F it p" "free_room env w it p" using cb Some by (simp_all add: k_def)
      from append_store [OF st comm l [unfolded o(1)] h g [unfolded o(1) k_def] Some [unfolded k_def] this, of c, folded k_def]
      consider (yes) x w' M' L' F' where "\<not> memory_short env w it p"
          "store_combined env it p comm (hash_fn w k) c w1 = Some (STORED, c\<lparr>c_cas := x\<rparr>, w')"
          "append_done w M it (snd (store_spec comm 0 (entry_of (heap w it)) (old_entry w M k))) w' M' L' F'"
        | (no) w' M' L' F' where "memory_short env w it p"
          "store_combined env it p comm (hash_fn w k) c w1 = Some (NOT_STORED, c, w')"
          "append_done w M it (Some (entry_of (heap w p))) w' M' L' F'" by blast
      then have "append_result env w M it comm c (store_combined env it p comm (hash_fn w k) c w1)"
      proof cases
        case yes
        then show ?thesis
          using append_resultI [OF yes(3) sp_def [unfolded k_def], of STORED env c] sp Some by (simp add: k_def)
      next
        case no
        then show ?thesis using res [OF no(3), of NOT_STORED] sp(2) O(8) Some by simp
      qed
      then show ?thesis by (simp add: d flip: k_def)
    qed
  qed
qed

end
