(* ===== verification/MC_StoreProps.thy ===== *)
theory MC_StoreProps
  imports MC_StoreInv
begin

text \<open>
  The storage commands as the connection calls them, under the lock of the key: \<open>store_semantics\<close> and
  \<open>append_semantics\<close>, with an example worker.
\<close>

section \<open>The commands under the lock of the key\<close>

lemma storable_locked:
  assumes "storable w M L F it" "lock_free hv w"
  shows "storable (item_locked hv w) M L F it"
  using assms(1) by (simp add: storable_def linkable_def ref_room_def)

lemma lock_irrelevant_spec:
  "old_entry (item_locked hv w) M k = old_entry w M k" "live_item (item_locked hv w) M k = live_item w M k"
  by (simp_all add: old_entry_def live_item_def cong: option.case_cong)

lemma entry_at_unlock [simp]: "entry_at (item_unlock hv w) M k = entry_at w M k"
  by (simp add: entry_at_def)

text \<open>What the cache holds after the command: the answer is \<open>fst sp\<close>, the entry of the key \<open>snd sp\<close>, and
  all other entries are what they were.\<close>

lemma store_done_entries:
  assumes "store_done w M it sp w' M' L' F'" "storable w M L F it"
  shows "cache_inv w' M' L' F'" "entry_at w' M' (item_key (heap w it)) = snd sp"
    "j \<noteq> item_key (heap w it) \<Longrightarrow> entry_at w' M' j = entry_at w M j"
    "fst sp \<noteq> STORED \<Longrightarrow> linkable w' L' F' it \<and> it_refcount (heap w' it) = 1"
    "fst sp = STORED \<Longrightarrow> M' (item_key (heap w it)) = Some it \<and> it_refcount (heap w' it) = 2"
proof -
  let ?k = "item_key (heap w it)"
  note S = storableD [OF assms(2)] and d = assms(1) [unfolded store_done_def Let_def]
  show "cache_inv w' M' L' F'" "entry_at w' M' ?k = snd sp" using d by blast+
  show "fst sp \<noteq> STORED \<Longrightarrow> linkable w' L' F' it \<and> it_refcount (heap w' it) = 1"
    "fst sp = STORED \<Longrightarrow> M' ?k = Some it \<and> it_refcount (heap w' it) = 2" using d by simp_all
  assume j: "j \<noteq> ?k"
  have "entry_of (heap w' q) = entry_of (heap w q)" if "M j = Some q" for q
  proof -
    have "q \<noteq> it" using cached_not_linkable [OF S(1,2)] that by blast
    moreover have "M ?k \<noteq> Some q" using cached_item(7) [OF S(1)] that j by metis
    ultimately show ?thesis using d entry_of_kept by blast
  qed
  moreover have "M' j = M j" using d j by blast
  ultimately show "entry_at w' M' j = entry_at w M j" by (cases "M j") (simp_all add: entry_at_def)
qed

section \<open>An example worker\<close>

definition worker_boot :: "(bytes \<Rightarrow> u32) \<Rightarrow> (ptr \<Rightarrow> item) \<Rightarrow> worker_state" where
  "worker_boot hash mem = rebal_state.extend (rebal_boot hash mem)
     (worker_state.fields zero_thread_stats (the (cache_create True SUFFIX_SIZE False False (\<lambda>_. 0)))
        example_prefixes 2 False (\<lambda>_. 8) True [])"

lemmas worker_boot_fields = worker_boot_def rebal_state.extend_def worker_state.fields_def rebal_boot_fields

definition value_item :: "bytes \<Rightarrow> item" where
  "value_item v = fresh_item\<lparr>it_nbytes := of_nat (length v), it_data := v, it_suffix := [32, 53, 32, 50, 13, 10]\<rparr>"

text \<open>Two allocated items, both for the key \<open>foo\<close>, with the values 12 and 99.\<close>

definition example_worker :: worker_state where
  "example_worker = (worker_boot (\<lambda>_. 7) (\<lambda>p. if p = 64 then value_item [49, 50, 13, 10]
      else if p = 160 then value_item [57, 57, 13, 10] else zero_item))
     \<lparr>power_largest := 3, current_time := 100\<rparr>"

lemma example_worker_fields [simp]:
  "heap example_worker = (\<lambda>p. if p = 64 then value_item [49, 50, 13, 10]
      else if p = 160 then value_item [57, 57, 13, 10] else zero_item)"
  "hash_fn example_worker = (\<lambda>_. 7)" "current_time example_worker = 100"
  "settings example_worker = settings_init" "cache_lock example_worker = False"
  "slabs_lock example_worker = False" "power_largest example_worker = 3"
  "stats example_worker = stats_init" "lock_free 7 example_worker"
  "slabclass example_worker = (\<lambda>_. zero_class)"
  by (simp_all add: example_worker_def worker_boot_fields lock_free_def)

lemma example_worker_inv: "cache_inv example_worker Map.empty (\<lambda>_. []) (\<lambda>_. [])"
proof (rule cache_invI)
  have "tab_ok (heap example_worker) (read_pos example_worker) (active example_worker)
      (bucket_of example_worker) (\<lambda>_. []) Map.empty"
    by (rule tab_okI) (auto simp: active_def example_worker_def worker_boot_fields)
  then show "assoc_rel example_worker Map.empty"
    by (intro assoc_relI) (auto simp: assoc_wf_def example_worker_def worker_boot_fields HASHPOWER_DEFAULT_def)
  show "lru_rel example_worker (\<lambda>_. [])"
    by (simp add: lru_rel_def lru_list_def example_worker_def worker_boot_fields)
  show "freelists example_worker (\<lambda>_. [])"
    by (simp add: freelists_def freelist_def zero_class_def)
qed (simp_all add: lru_items_def total_bytes_def stats_init_def POWER_LARGEST_def)

lemma value_item_facts:
  "item_key (value_item v) = [102, 111, 111]" "key_ok (value_item v)" "is_item (value_item v)"
  "it_slabs_clsid (value_item v) = 1" "it_refcount (value_item v) = 1" "\<not> is_linked (value_item v)"
  "\<not> is_slabbed (value_item v)" "it_exptime (value_item v) = 0" "it_flags (value_item v) = 0"
  "it_data (value_item v) = v" "it_suffix (value_item v) = [32, 53, 32, 50, 13, 10]" "it_nkey (value_item v) = 3"
  by (simp_all add: value_item_def item_key_def key_ok_def is_item_def is_linked_def is_slabbed_def fresh_item_def
      zero_item_def)

lemma value_item_len: "length v < 2 ^ 31 \<Longrightarrow> it_len (value_item v) = int (length v)"
  by (simp add: value_item_def it_len_def signed_of_nat signed_take_bit_int_eq_self)

lemma example_worker_linkable: "p \<in> {64, 160} \<Longrightarrow> linkable example_worker (\<lambda>_. []) (\<lambda>_. []) p"
  by (auto simp: linkable_def value_item_facts classes_def POWER_SMALLEST_def LARGEST_ID_def POWER_LARGEST_def)

lemma example_worker_storable: "p \<in> {64, 160} \<Longrightarrow> storable example_worker Map.empty (\<lambda>_. []) (\<lambda>_. []) p"
  using example_worker_inv example_worker_linkable by (auto simp: storable_def value_item_facts)

lemma example_suffix: "strtol_int [32, 53, 32, 50, 13, 10] = 5"
proof -
  have "item_make_header 4 5 4 = ([32, 53, 32, 50, 13, 10], 6, 62)" by code_simp
  then show ?thesis using strtol_suffix [of 5 4 4] by simp
qed

lemma example_entry:
  "entry_of (value_item [49, 50, 13, 10]) = ([49, 50, 13, 10], 5, 0)"
  "entry_of (value_item [57, 57, 13, 10]) = ([57, 57, 13, 10], 5, 0)"
  by (simp_all add: entry_of_def value_item_facts value_item_len example_suffix data_read_def)

text \<open>The example worker after \<open>foo\<close> was stored with the item at 64.\<close>

lemma link_slabclass:
  assumes "do_item_link p hv s = Some s'"
  shows "slabclass s' = slabclass s"
proof -
  have q: "item_link_q p t = Some t' \<Longrightarrow> slabclass t' = slabclass t" for t t' :: "'a items_state_scheme"
    by (auto simp: item_link_q_def Let_def upd_item_if_def)
  have a: "slabclass (assoc_insert p hv t) = slabclass t" for t :: "'a items_state_scheme"
    by (rule table_frame_more(1) [OF assoc_insert_frame])
  show ?thesis using assms unfolding do_item_link_def
    by (auto simp: Let_def a get_cas_id_def cache_lock_acquire_def cache_lock_release_def refcount_incr_def case_prod_beta'
        dest!: q split: Option.bind_splits if_splits)
qed

lemma example_worker_linked:
  "\<exists>w. storable w [[102, 111, 111] \<mapsto> 64] ((\<lambda>_. [])(1 := [64])) (\<lambda>_. []) 160 \<and> env_same example_worker w \<and>
     live_item w [[102, 111, 111] \<mapsto> 64] [102, 111, 111] = Some 64 \<and> slabclass w = (\<lambda>_. zero_class) \<and>
     same_contents (value_item [57, 57, 13, 10]) (heap w 160) \<and>
     entry_of (heap w 64) = ([49, 50, 13, 10], 5, 0) \<and>
     it_len (heap w 64) = 4 \<and> strtol_int (it_suffix (heap w 64)) = 5 \<and> it_refcount (heap w 64) = 2"
proof -
  from do_item_link_inv [OF example_worker_inv example_worker_linkable, of 64 "[102, 111, 111]" 7]
  obtain w where w: "cache_inv w [[102, 111, 111] \<mapsto> 64] ((\<lambda>_. [])(1 := [64])) (\<lambda>_. [])"
    "env_same example_worker w" "it_refcount (heap w 64) = 2" "do_item_link 64 7 example_worker = Some w"
    by (auto simp: value_item_facts)
  have c: "same_contents (value_item [57, 57, 13, 10]) (heap w 160)" and x: "it_exptime (heap w 64) = 0"
    using link_contents(1) [OF w(4), of 160] link_contents(2) [OF w(4)] by (simp_all add: value_item_facts)
  note C = same_contentsD [OF c] same_contents_facts [OF c]
  have "entry_of (heap w 64) = ([49, 50, 13, 10], 5, 0)" using link_entry [OF w(4)] by (simp add: example_entry)
  moreover have "it_len (heap w 64) = 4" "strtol_int (it_suffix (heap w 64)) = 5"
    using value_item_len [of "[49, 50, 13, 10]"] by (simp_all add: it_len_def link_self [OF w(4)] value_item_facts example_suffix)
  moreover have "slabclass w = (\<lambda>_. zero_class)" using link_slabclass [OF w(4)] by simp
  moreover have e: "classes w = {1..3}" "settings w = settings_init" "current_time w = 100" "\<not> cache_lock w" "\<not> slabs_lock w"
    "slab_rebalance_signal w = 0"
    using w(2) by (auto simp: env_same_def classes_def POWER_SMALLEST_def example_worker_def worker_boot_fields)
  moreover have "storable w [[102, 111, 111] \<mapsto> 64] ((\<lambda>_. [])(1 := [64])) (\<lambda>_. []) 160"
    using w(1,3) e by (simp add: storable_def linkable_def ref_room_def C value_item_facts LARGEST_ID_def POWER_LARGEST_def)
  moreover have "live_item w [[102, 111, 111] \<mapsto> 64] [102, 111, 111] = Some 64"
    using e x by (simp add: live_item_def in_moving_page_def item_dead_def settings_init_def)
  ultimately show ?thesis using w(2,3) c by blast
qed

definition example_env :: alloc_env where
  "example_env = \<lparr>realloc_ok = True, malloc_page = 4096\<rparr>"

section \<open>Properties\<close>

text \<open>C99: \<open>store_item\<close>, called for \<open>set\<close>, \<open>add\<close>, \<open>replace\<close> or \<open>cas\<close> with an item that is complete and
  not yet in the cache, returns with the answer of \<open>store_spec\<close>: for \<open>add\<close> that the key was free, for
  \<open>replace\<close> that it was taken, for \<open>cas\<close> that it was taken by the version the client had seen, and
  always for \<open>set\<close>. If the answer is STORED the key has the value, flags and expiry time of the item;
  otherwise it has what it had, without an entry that was expired or flushed. No other key changes,
  the lock of the key is free again, and the table, the lists and the free lists are consistent.\<close>

theorem store_semantics:
  assumes "storable w M L F it" "lock_free (hash_fn w (item_key (heap w it))) w"
    and "comm \<noteq> NREAD_APPEND" "comm \<noteq> NREAD_PREPEND"
  shows "\<exists>c' w' M' L' F'. store_item env it comm c w =
       Some (fst (store_spec comm (ITEM_get_cas (heap w it)) (entry_of (heap w it)) (old_entry w M (item_key (heap w it)))), c', w') \<and>
     cache_inv w' M' L' F' \<and>
     entry_at w' M' (item_key (heap w it)) =
       snd (store_spec comm (ITEM_get_cas (heap w it)) (entry_of (heap w it)) (old_entry w M (item_key (heap w it)))) \<and>
     (\<forall>j. j \<noteq> item_key (heap w it) \<longrightarrow> entry_at w' M' j = entry_at w M j)"
proof -
  let ?k = "item_key (heap w it)"
  let ?hv = "hash_fn w ?k"
  from do_store_item_inv [OF storable_locked [OF assms(1,2)] assms(3,4), of env c, simplified lock_irrelevant_spec]
  obtain c' w' M' L' F' where r: "do_store_item env it comm c ?hv (item_locked ?hv w) =
       Some (fst (store_spec comm (ITEM_get_cas (heap w it)) (entry_of (heap w it)) (old_entry w M ?k)), c', w')"
    and d: "store_done (item_locked ?hv w) M it
       (store_spec comm (ITEM_get_cas (heap w it)) (entry_of (heap w it)) (old_entry w M ?k)) w' M' L' F'"
    by (auto simp: lock_irrelevant_spec)
  have "entry_at (item_locked ?hv w) M j = entry_at w M j" for j by (simp add: entry_at_def)
  with store_done_entries(1-3) [OF d storable_locked [OF assms(1,2)]]
  have "cache_inv w' M' L' F'" "entry_at w' M' ?k = snd (store_spec comm (ITEM_get_cas (heap w it)) (entry_of (heap w it)) (old_entry w M ?k))"
    "\<forall>j. j \<noteq> ?k \<longrightarrow> entry_at w' M' j = entry_at w M j" by simp_all
  then show ?thesis using r
    by (intro exI [of _ c'] exI [of _ "item_unlock ?hv w'"] exI [of _ M'] exI [of _ L'] exI [of _ F'])
      (simp add: store_item_def item_lock_free [OF assms(2)])
qed

theorem store_semantics_witness:
  "\<exists>c' w' M'. store_item example_env 64 NREAD_ADD (fresh_conn 2048 8) example_worker = Some (STORED, c', w') \<and>
     entry_at w' M' [102, 111, 111] = Some ([49, 50, 13, 10], 5, 0)"
  using store_semantics [OF example_worker_storable, of 64 NREAD_ADD example_env "fresh_conn 2048 8"]
  by (auto simp: value_item_facts store_spec_def old_entry_def live_item_def example_entry nread_defs)

lemma append_done_entries:
  assumes "append_done w M it e w' M' L' F'"
  shows "cache_inv w' M' L' F'" "entry_at w' M' (item_key (heap w it)) = e"
    "j \<noteq> item_key (heap w it) \<Longrightarrow> entry_at w' M' j \<in> {None, entry_at w M j}"
  using assms by (auto simp: append_done_def Let_def entry_at_def split: option.splits) (cases "M' j"; auto)+

text \<open>C99: \<open>store_item\<close>, called for \<open>append\<close> or \<open>prepend\<close> with an item that is complete and not yet in
  the cache, returns with the answer of \<open>store_spec\<close> and leaves its entry under the key: the old value
  without its line end followed by the new one, or the new one followed by the old one, with the flags
  and the expiry time of the old item, when there is an old item and the request names no other version
  of it. Only when the allocator, called after the lookup of the old item, gives NULL for the combined
  item (\<open>memory_short\<close>) is the answer NOT_STORED instead, and then the old entry stays. Other keys
  keep their entries or, evicted to make room, lose them. Conditions (\<open>combinable\<close>): memory is not
  preallocated (\<open>mem_base = NULL\<close>), tail repair is off (\<open>tail_repair_time = 0\<close>), the combined length is
  below \<open>2 ^ 31\<close>; and the counter of free chunks of the old item's class does not wrap when that item
  is freed (\<open>free_room\<close>).\<close>

theorem append_semantics:
  assumes "storable w M L F it" "lock_free (hash_fn w (item_key (heap w it))) w"
    and "comm = NREAD_APPEND \<or> comm = NREAD_PREPEND"
    and "\<And>p. live_item w M (item_key (heap w it)) = Some p \<Longrightarrow>
       combinable env Q (item_locked (hash_fn w (item_key (heap w it))) w) M L F it p \<and>
       free_room env (item_locked (hash_fn w (item_key (heap w it))) w) it p"
  defines "sp \<equiv> store_spec comm (ITEM_get_cas (heap w it)) (entry_of (heap w it)) (old_entry w M (item_key (heap w it)))"
  defines "short \<equiv> \<exists>p. live_item w M (item_key (heap w it)) = Some p \<and>
     memory_short env (item_locked (hash_fn w (item_key (heap w it))) w) it p"
  shows "\<exists>ret c' w' M' L' F'. store_item env it comm c w = Some (ret, c', w') \<and> cache_inv w' M' L' F' \<and>
     (ret, entry_at w' M' (item_key (heap w it))) =
       (if fst sp = STORED \<and> short then (NOT_STORED, map_option fst (old_entry w M (item_key (heap w it)))) else sp) \<and>
     (\<forall>j. j \<noteq> item_key (heap w it) \<longrightarrow> entry_at w' M' j \<in> {None, entry_at w M j})"
proof -
  let ?k = "item_key (heap w it)"
  let ?hv = "hash_fn w ?k"
  let ?w = "item_locked ?hv w"
  have ar: "append_result env ?w M it comm c (do_store_item env it comm c (hash_fn ?w (item_key (heap ?w it))) ?w)"
    by (rule do_store_item_append [OF storable_locked [OF assms(1,2)] assms(3), of env Q])
      (use assms(4) in \<open>simp add: lock_irrelevant_spec\<close>)
  obtain ret x w' M' L' F' e where r: "do_store_item env it comm c ?hv ?w = Some (ret, c\<lparr>c_cas := x\<rparr>, w')"
    and d: "append_done ?w M it e w' M' L' F'"
    and e: "(ret, e) = (if fst sp = STORED \<and> short then (NOT_STORED, map_option fst (old_entry w M ?k)) else sp)"
    using ar [unfolded append_result_def Let_def lock_irrelevant_spec]
    by (simp add: sp_def short_def cong: if_cong) blast
  have "entry_at ?w M j = entry_at w M j" for j by (simp add: entry_at_def)
  with append_done_entries [OF d]
  have "cache_inv w' M' L' F'" "entry_at w' M' ?k = e" "\<forall>j. j \<noteq> ?k \<longrightarrow> entry_at w' M' j \<in> {None, entry_at w M j}" by simp_all
  then show ?thesis using r e
    by (intro exI [of _ ret] exI [of _ "c\<lparr>c_cas := x\<rparr>"] exI [of _ "item_unlock ?hv w'"] exI [of _ M'] exI [of _ L']
          exI [of _ F']) (simp add: store_item_def item_lock_free [OF assms(2)])
qed

text \<open>When the class of both items is empty and a page can be had, the allocation succeeds.\<close>

lemma new_page_enough:
  assumes st: "storable w M L F it" and p: "live_item w M (item_key (heap w it)) = Some p"
    and cb: "combinable env Q w M L F it p" and a: "alloc_pre env cl {} Q w M L F"
    and cl: "slabs_clsid (combined_size w (heap w it) (heap w p)) w = Some cl"
    and F: "F cl = []" and L: "L cl = [p]" and g: "page_granted env cl w"
    and pc: "unat (it_slabs_clsid (heap w p)) = cl"
  shows "free_room env w it p" and "\<not> memory_short env w it p"
proof -
  let ?k = "item_key (heap w it)" and ?n = "unat (it_nkey (heap w it))"
  let ?sz = "item_ntotal_for ?n (strtol_int (it_suffix (heap w p))) (combined_len (heap w it) (heap w p))"
  from storable_get [OF st] obtain old w1 M1 L1 F1 where
    g0: "do_item_get (it_key (heap w it)) ?n (hash_fn w ?k) w = Some (old, w1)"
    and l0: "looked_up w M L F it old w1 M1 L1 F1" by blast
  have old: "old = p" using looked_upD(9) [OF l0 p] by blast
  note gt = g0 [unfolded old] and l = l0 [unfolded old]
  note D = looked_upD [OF l] and O = looked_up_old [OF st l p] and C = combinableD [OF cb]
  have h: "w1 = w\<lparr>heap := heap w1\<rparr>" using get_found_heap [OF gt] O(6) by blast
  have s1: "slabclass w1 = slabclass w" "classes w1 = classes w" "page_len cl w1 = page_len cl w"
    "page_granted env cl w1 = page_granted env cl w"
    by (subst h; simp add: classes_def page_len_def page_granted_def)+
  have ne: "classes w \<noteq> {}" using alloc_preD(2) [OF a] by auto
  have cl1: "slabs_clsid (?sz w1) w1 = Some cl"
    using cl ne slabs_clsid_heap [of _ w _ "heap w1"] by (subst (1 2) h) (auto simp: item_ntotal_heap combined_size_def)
  note a1 = alloc_pre_found [OF st l p h a C(7)]
  from combined_alloc_result [OF st l p h cb a cl1] obtain n w2 where
    n: "combined_alloc env w it p w1 = Some (n, w2)" by blast
  then have run: "do_item_alloc env (it_key (heap w it)) ?n (strtol_int (it_suffix (heap w p)))
      (it_exptime (heap w p)) (combined_len (heap w it) (heap w p)) (hash_fn w ?k) w1 = Some (n, w2)"
    by (simp add: combined_alloc_def Let_def)
  have key: "item_key (heap w1 p) = ?k" using cached_item(7) [OF D(1), of ?k p] D(9) [OF p] by simp
  have un: "tail_unused (hash_fn w ?k) w1 (rev (L cl))" by (simp add: L tail_unused_def Let_def key D(4))
  have v: "lru_victim 5 (hash_fn w ?k) w1 (rev (L cl)) = NULL" by (simp add: L Let_def key D(4))
  note A = alloc_preD [OF a1]
  have pl: "unat (sc_perslab (slabclass w cl)) \<noteq> 0" using A(7) by (simp add: s1 word_less_nat_alt)
  have "n = free_chunk env cl F w1"
    using do_item_alloc_choice(1) [OF a1 cl1 run un] by (simp add: v item_choice_def)
  also have "\<dots> = last (page_chunks w1 cl (malloc_page env))" using g by (simp add: free_chunk_def F s1)
  also have "\<dots> \<noteq> NULL" using pl g by (simp add: chunks_def last_map page_granted_def s1)
  finally have nN: "n \<noteq> NULL" .
  then show "\<not> memory_short env w it p" using gt n by (simp add: memory_short_def Let_def)
  let ?l = "w1\<lparr>cache_lock := True\<rparr>"
  from do_item_alloc_choice(2) [OF a1 cl1 run un v] obtain s3 where
    s3: "slabs_alloc env (?sz w1) cl ?l = Some (n, s3)" "slabclass w2 = slabclass s3" by blast
  have c1: "classes ?l = classes w1" "page_len cl ?l = page_len cl w1" by (simp_all add: classes_def page_len_def)
  have "sc_sl_curr (slabclass s3 cl) + 1 = sc_perslab (slabclass ?l cl)"
  proof (rule slabs_alloc_new_page [OF s3(1), where F = F])
    show "freelists ?l F" using cache_invD(3) [OF A(1)] by (rule freelists_frame) simp_all
    have "page_granted env cl ?l = page_granted env cl w1" by (simp add: page_granted_def c1)
    then show "page_granted env cl ?l" using g by (simp add: s1(4))
    show "malloc_page env = NULL \<or> page_fresh ?l F (malloc_page env) (unat (page_len cl ?l))"
      using A(8) by (auto simp: room_apart_def page_fresh_def c1)
  qed (use A F in \<open>simp_all add: c1 chunks_fit_def\<close>)
  then have "sc_sl_curr (slabclass w2 cl) + 1 \<noteq> 0" using pl by (simp add: s3(2) s1 unat_eq_0)
  then show "free_room env w it p" using gt run by (simp add: free_room_def Let_def pc)
qed

text \<open>The example worker with \<open>foo\<close> stored, when class 1 has chunks of 1000 bytes, two to a page.\<close>

definition sized_class :: "nat \<Rightarrow> slabclass_t" where
  "sized_class = (\<lambda>_. zero_class)(1 := zero_class\<lparr>sc_size := 1000, sc_perslab := 2\<rparr>)"

lemma example_worker_sized:
  "\<exists>w. storable w [[102, 111, 111] \<mapsto> 64] ((\<lambda>_. [])(1 := [64])) (\<lambda>_. []) 160 \<and> env_same example_worker w \<and>
     live_item w [[102, 111, 111] \<mapsto> 64] [102, 111, 111] = Some 64 \<and> slabclass w = sized_class \<and>
     mem_base w = NULL \<and> mem_limit w = 0 \<and> same_contents (value_item [57, 57, 13, 10]) (heap w 160) \<and>
     entry_of (heap w 64) = ([49, 50, 13, 10], 5, 0) \<and>
     it_len (heap w 64) = 4 \<and> strtol_int (it_suffix (heap w 64)) = 5 \<and> it_refcount (heap w 64) = 2"
proof -
  obtain w where w: "storable w [[102, 111, 111] \<mapsto> 64] ((\<lambda>_. [])(1 := [64])) (\<lambda>_. []) 160" "env_same example_worker w"
     "live_item w [[102, 111, 111] \<mapsto> 64] [102, 111, 111] = Some 64" "slabclass w = (\<lambda>_. zero_class)"
     "same_contents (value_item [57, 57, 13, 10]) (heap w 160)" "entry_of (heap w 64) = ([49, 50, 13, 10], 5, 0)"
     "it_len (heap w 64) = 4" "strtol_int (it_suffix (heap w 64)) = 5" "it_refcount (heap w 64) = 2"
    using example_worker_linked by blast
  let ?w = "w\<lparr>slabclass := sized_class, mem_base := NULL, mem_limit := 0\<rparr>"
  note S = storableD [OF w(1)]
  have "cache_inv ?w [[102, 111, 111] \<mapsto> 64] ((\<lambda>_. [])(1 := [64])) (\<lambda>_. []) =
      cache_inv w [[102, 111, 111] \<mapsto> 64] ((\<lambda>_. [])(1 := [64])) (\<lambda>_. [])"
    by (rule cache_inv_cong) (simp_all add: w(4) sized_class_def)
  moreover have "env_same w ?w" by (simp add: env_same_def)
  then have "linkable ?w ((\<lambda>_. [])(1 := [64])) (\<lambda>_. []) 160" "env_same example_worker ?w"
    by (auto intro: linkable_mono [OF S(2)] env_same_trans [OF w(2)])
  moreover have "live_item ?w [[102, 111, 111] \<mapsto> 64] [102, 111, 111] = Some 64"
    using w(3) by (simp add: live_item_def in_moving_page_def item_dead_def)
  ultimately show ?thesis using w(5-) S
    by (intro exI [of _ ?w]) (simp add: storable_def ref_room_def)
qed

lemma example_worker_room:
  assumes "storable w [[102, 111, 111] \<mapsto> 64] ((\<lambda>_. [])(1 := [64])) (\<lambda>_. []) 160" "env_same example_worker w"
    "slabclass w = sized_class" "mem_base w = NULL" "it_refcount (heap w 64) = 2"
  shows "alloc_pre example_env 1 {} {64, 160} (item_locked 7 w) [[102, 111, 111] \<mapsto> 64] ((\<lambda>_. [])(1 := [64])) (\<lambda>_. [])"
proof -
  let ?w = "item_locked 7 w"
  have e: "settings w = settings_init" "classes w = {1..3}" "\<not> slabs_lock w"
    using assms(2) by (auto simp: env_same_def classes_def POWER_SMALLEST_def example_worker_def worker_boot_fields)
  have f: "heap ?w = heap w" "slabclass ?w = slabclass w" "mem_base ?w = mem_base w" "settings ?w = settings w"
    "slabs_lock ?w = slabs_lock w" "classes ?w = classes w" "page_len 1 ?w = page_len 1 w"
    by (simp_all add: item_locked_def classes_def page_len_def)
  have i: "cache_inv ?w [[102, 111, 111] \<mapsto> 64] ((\<lambda>_. [])(1 := [64])) (\<lambda>_. [])"
    using storableD(1) [OF assms(1)] by (simp add: item_locked_def)
  have L: "\<forall>d<LARGEST_ID. set (((\<lambda>_. [])(1 := [64])) d) \<subseteq> {64, 160 :: ptr}" by auto
  have "page_len 1 w = 2000" using e(1) assms(3) by (simp add: page_len_def settings_init_def sized_class_def)
  with i L e assms(3-5) show ?thesis
    by (simp add: alloc_pre_def f LARGEST_ID_def POWER_LARGEST_def settings_init_def chunks_fit_def sized_class_def
        room_apart_def page_fresh_def example_env_def del: One_nat_def)
qed

theorem append_semantics_witness:
  "\<exists>w c' w' M'. live_item w [[102, 111, 111] \<mapsto> 64] [102, 111, 111] = Some 64 \<and>
     store_item example_env 160 NREAD_APPEND (fresh_conn 2048 8) w = Some (STORED, c', w') \<and>
     entry_at w' M' [102, 111, 111] = Some ([49, 50, 57, 57, 13, 10], 5, 0)"
proof -
  let ?M = "[[102, 111, 111] \<mapsto> 64] :: bytes \<rightharpoonup> ptr" and ?L = "(\<lambda>_. [])(1 := [64]) :: nat \<Rightarrow> ptr list"
  obtain w where w: "storable w ?M ?L (\<lambda>_. []) 160" "env_same example_worker w"
     "live_item w ?M [102, 111, 111] = Some 64" "slabclass w = sized_class" "mem_base w = NULL" "mem_limit w = 0"
     "same_contents (value_item [57, 57, 13, 10]) (heap w 160)" "entry_of (heap w 64) = ([49, 50, 13, 10], 5, 0)"
     "it_len (heap w 64) = 4" "strtol_int (it_suffix (heap w 64)) = 5" "it_refcount (heap w 64) = 2"
    using example_worker_sized by blast
  note C = same_contentsD [OF w(7)] same_contents_facts [OF w(7)]
  have k: "item_key (heap w 160) = [102, 111, 111]" by (simp add: C value_item_facts)
  have e: "hash_fn w = (\<lambda>_. 7)" "power_largest w = 3" "lock_free 7 w" "settings w = settings_init"
    using w(2) by (auto simp: env_same_def lock_free_def example_worker_def worker_boot_fields)
  have l: "it_len (heap w 160) = 4" "it_nkey (heap w 160) = 3" "unat (it_nkey (heap w 160)) = 3"
    using value_item_len [of "[57, 57, 13, 10]"] by (simp_all add: it_len_def C value_item_facts)
  let ?w = "item_locked 7 w"
  have st: "storable ?w ?M ?L (\<lambda>_. []) 160" by (rule storable_locked [OF w(1) e(3)])
  note pre = example_worker_room [OF w(1,2,4,5,11)]
  have sl: "slabclass ?w = sized_class" using w(4) by (simp add: item_locked_def)
  have h: "item_make_header 4 5 6 = ([32, 53, 32, 52, 13, 10], 6, 64)" by code_simp
  have cl: "slabs_clsid (combined_size ?w (heap ?w 160) (heap ?w 64)) ?w = Some 1"
    by (simp add: combined_size_def item_ntotal_for_def combined_len_def l sl w(9,10) h e(2,4) settings_init_def
        slabs_clsid_def POWER_SMALLEST_def slabs_clsid_loop.simps sized_class_def zero_class_def)
  have cb: "combinable example_env {64, 160} ?w ?M ?L (\<lambda>_. []) 160 64"
    using cl pre by (auto simp: combinable_def l w(9,11) combined_len_def)
  have pc: "unat (it_slabs_clsid (heap ?w 64)) = 1"
    using lru_class(2) [OF cache_invD(2) [OF storableD(1) [OF w(1)]], of 1 64] by (simp add: LARGEST_ID_def POWER_LARGEST_def)
  have g: "page_granted example_env 1 ?w"
    by (simp add: page_granted_def example_env_def w(4,6) sized_class_def zero_class_def item_locked_def)
  have lv: "live_item ?w ?M (item_key (heap ?w 160)) = Some 64" using w(3) by (simp add: lock_irrelevant_spec k)
  have room: "free_room example_env ?w 160 64" "\<not> memory_short example_env ?w 160 64"
    by (rule new_page_enough [OF st lv cb pre cl _ _ g pc]; simp)+
  have lv0: "live_item w ?M [102, 111, 111] = Some p \<longleftrightarrow> p = 64" for p using w(3) by auto
  have "entry_of (heap w 160) = ([57, 57, 13, 10], 5, 0)" "ITEM_get_cas (heap w 160) = 0"
    using entry_of_contents [OF w(7)] cas_contents [OF w(7)]
    by (simp_all add: example_entry ITEM_get_cas_def value_item_facts)
  then have sp: "store_spec NREAD_APPEND (ITEM_get_cas (heap w 160)) (entry_of (heap w 160))
      (old_entry w ?M [102, 111, 111]) = (STORED, Some ([49, 50, 57, 57, 13, 10], 5, 0))"
    using w(3,8) by (simp add: old_entry_def store_spec_def nread_defs)
  from append_semantics [OF w(1), of NREAD_APPEND example_env "{64, 160}" "fresh_conn 2048 8",
      unfolded k e(1) lv0 sp] cb room e(3)
  obtain c' w' M' where "store_item example_env 160 NREAD_APPEND (fresh_conn 2048 8) w = Some (STORED, c', w')"
    "entry_at w' M' [102, 111, 111] = Some ([49, 50, 57, 57, 13, 10], 5, 0)" by auto
  then show ?thesis using w(3) by blast
qed

end
