(* ===== verification/MC_CommandProps.thy ===== *)
theory MC_CommandProps
  imports MC_Machine MC_StoreProps
begin

text \<open>
  What the tokenizer of the text protocol computes: the words of a command, and the rest of the command
  when there are more words than fit.
\<close>

section \<open>Words\<close>

text \<open>The words of a line, separated by one or more blanks; \<open>cur\<close> is the word that is being read.\<close>

fun words_from :: "bytes \<Rightarrow> bytes \<Rightarrow> bytes list" where
  "words_from cur [] = (if cur = [] then [] else [cur])"
| "words_from cur (b # bs) =
     (if b = 32 then (if cur = [] then words_from [] bs else cur # words_from [] bs) else words_from (cur @ [b]) bs)"

definition words :: "bytes \<Rightarrow> bytes list" where
  "words = words_from []"

definition word_token :: "bytes \<Rightarrow> token" where
  "word_token t = \<lparr>tok_value = Some t, tok_length = length t\<rparr>"

lemma token_at_word: "s \<le> e \<Longrightarrow> e \<le> length cmd \<Longrightarrow> token_at cmd s e = word_token (take (e - s) (drop s cmd))"
  by (simp add: token_at_def word_token_def)

text \<open>The tokens and the rest that the loop leaves.\<close>

definition loop_tokens :: "bytes \<Rightarrow> nat \<times> nat \<times> token list \<Rightarrow> token list" where
  "loop_tokens cmd r = (case r of (s, e, toks) \<Rightarrow> if s \<noteq> e then toks @ [token_at cmd s e] else toks)"

lemma next_char:
  assumes "s \<le> e" "e < length cmd"
  shows "take (Suc e - s) (drop s cmd) = take (e - s) (drop s cmd) @ [cmd ! e]"
  using assms by (simp add: Suc_diff_le take_Suc_conv_app_nth)

lemma tokenize_loop_words:
  "n = length cmd - e \<Longrightarrow> s \<le> e \<Longrightarrow> e \<le> length cmd \<Longrightarrow> length toks < k \<Longrightarrow>
   cur = take (e - s) (drop s cmd) \<Longrightarrow> r = tokenize_loop (Suc k) cmd n s e toks \<Longrightarrow>
   loop_tokens cmd r = toks @ map word_token (take (k - length toks) (words_from cur (drop e cmd))) \<and>
   fst (snd r) \<le> length cmd \<and> 
   words_from [] (drop (fst (snd r)) cmd) = drop (k - length toks) (words_from cur (drop e cmd))"
proof (induction n arbitrary: s e toks cur)
  case 0
  then have e: "e = length cmd" by simp
  obtain j where j: "k - length toks = Suc j" using 0(4) by (metis Suc_diff_Suc)
  show ?case using 0 e j by (auto simp: loop_tokens_def token_at_word)
next
  case (Suc n)
  have lt: "e < length cmd" using Suc.prems(1) by simp
  have d: "drop e cmd = cmd ! e # drop (Suc e) cmd" using lt by (simp add: Cons_nth_drop_Suc)
  have n: "n = length cmd - Suc e" using Suc.prems(1) by simp
  obtain j where j: "k - length toks = Suc j" using Suc.prems(4) by (metis Suc_diff_Suc)
  have empty: "cur = [] \<longleftrightarrow> s = e" using Suc.prems lt by auto
  show ?case
  proof (cases "cmd ! e = 32")
    case False
    have "cur @ [cmd ! e] = take (Suc e - s) (drop s cmd)" using next_char [OF Suc.prems(2) lt] Suc.prems(5) by simp
    then show ?thesis
      using Suc.IH [OF n, of s toks "cur @ [cmd ! e]"] Suc.prems(2,4,6) lt d False by simp
  next
    case blank: True
    show ?thesis
    proof (cases "s = e")
      case True
      show ?thesis
        using Suc.IH [OF n, of "Suc e" toks "[]"] Suc.prems(4,6) lt d blank True empty by simp
    next
      case False
      let ?toks = "toks @ [token_at cmd s e]"
      have tok: "token_at cmd s e = word_token cur" using token_at_word Suc.prems(2,5) lt by simp
      show ?thesis
      proof (cases "length ?toks = k")
        case True
        then have "k - length toks = 1" by simp
        then show ?thesis
          using Suc.prems(6) lt d blank False empty True tok by (simp add: loop_tokens_def)
      next
        case more: False
        then have l: "length ?toks < k" and j': "k - length ?toks = j" using Suc.prems(4) j by auto
        show ?thesis
          using Suc.IH [OF n, of "Suc e" ?toks "[]"] Suc.prems(6) l lt d blank False empty more tok j j' by simp
      qed
    qed
  qed
qed

text \<open>C99: \<open>tokenize_command\<close> computes the first \<open>max_tokens - 1\<close> words of the command with their lengths; a terminal
  token of length 0 follows, which holds NULL when the command was read to its end, and otherwise the rest of the
  command, whose words are exactly the remaining ones.\<close>

theorem tokenize_words:
  assumes "1 < m"
  shows "\<exists>rest. tokenize_command cmd m =
           map (\<lambda>t. \<lparr>tok_value = Some t, tok_length = length t\<rparr>) (take (m - 1) (words cmd)) @
           [\<lparr>tok_value = (if rest = [] then None else Some rest), tok_length = 0\<rparr>] \<and>
         words rest = drop (m - 1) (words cmd) \<and> (\<exists>front. cmd = front @ rest)"
proof -
  obtain k where m: "m = Suc k" "0 < k" using assms by (cases m) auto
  obtain s e toks where r: "tokenize_loop m cmd (length cmd) 0 0 [] = (s, e, toks)" by (cases "tokenize_loop m cmd (length cmd) 0 0 []") auto
  have l: "loop_tokens cmd (s, e, toks) = map word_token (take k (words cmd))" "e \<le> length cmd"
    "words (drop e cmd) = drop k (words cmd)"
    using tokenize_loop_words [of "length cmd" cmd 0 0 "[]" k "[]" "(s, e, toks)"] r m by (simp_all add: words_def)
  have "word_token = (\<lambda>t. \<lparr>tok_value = Some t, tok_length = length t\<rparr>)" by (simp add: word_token_def fun_eq_iff)
  then show ?thesis
    using r l m by (intro exI [of _ "drop e cmd"]) (auto simp: tokenize_command_def loop_tokens_def intro: exI [of _ "take e cmd"])
qed

theorem tokenize_words_witness:
  "\<exists>rest. tokenize_command (ascii ''get  a bc d'') 3 =
     map (\<lambda>t. \<lparr>tok_value = Some t, tok_length = length t\<rparr>) (take 2 (words (ascii ''get  a bc d''))) @
     [\<lparr>tok_value = (if rest = [] then None else Some rest), tok_length = 0\<rparr>] \<and>
   words rest = drop 2 (words (ascii ''get  a bc d'')) \<and> (\<exists>front. ascii ''get  a bc d'' = front @ rest)"
  using tokenize_words [of 3 "ascii ''get  a bc d''"] by simp

end
