(* ===== verification/MC_MachineProps.thy ===== *)
theory MC_MachineProps
  imports MC_CommandProps
begin

text \<open>
  What the state machine of a connection guarantees: replies are sent completely and in order, values are read and
  skipped byte for byte, and reading keeps the input, however the network splits both; the binary header survives the wire.
\<close>

section \<open>What is still to be sent\<close>

definition frag_bytes :: "iovec \<Rightarrow> ptr list" where
  "frag_bytes v = [iov_base v..<iov_base v + unat (iov_len v)]"

definition iov_bytes :: "(nat \<Rightarrow> iovec) \<Rightarrow> nat \<Rightarrow> nat \<Rightarrow> ptr list" where
  "iov_bytes v i m = concat (map (\<lambda>k. frag_bytes (v k)) [i..<i + m])"

definition msg_data :: "conn \<Rightarrow> nat \<Rightarrow> ptr list" where
  "msg_data c i = iov_bytes (iov c) (msg_iov (msglist c i)) (msg_iovlen (msglist c i))"

definition pending :: "conn \<Rightarrow> ptr list" where
  "pending c = concat (map (msg_data c) [msgcurr c..<msgused c])"

text \<open>The messages use disjoint parts of the array of fragments, in order.\<close>

definition send_ok :: "conn \<Rightarrow> bool" where
  "send_ok c \<longleftrightarrow> (\<forall>i j. msgcurr c \<le> i \<and> i < j \<and> j < msgused c \<longrightarrow>
     msg_iov (msglist c i) + msg_iovlen (msglist c i) \<le> msg_iov (msglist c j))"

lemma send_okI:
  "(\<And>i j. msgcurr c \<le> i \<Longrightarrow> i < j \<Longrightarrow> j < msgused c \<Longrightarrow>
     msg_iov (msglist c i) + msg_iovlen (msglist c i) \<le> msg_iov (msglist c j)) \<Longrightarrow> send_ok c"
  by (simp add: send_ok_def)

lemma msg_bytes_data: "msg_bytes c = msg_data c (msgcurr c)"
  by (simp add: msg_bytes_def msg_data_def iov_bytes_def frag_bytes_def Let_def)

lemma iov_bytes_0 [simp]: "iov_bytes v i 0 = []"
  by (simp add: iov_bytes_def)

lemma iov_bytes_Suc: "iov_bytes v i (Suc m) = frag_bytes (v i) @ iov_bytes v (Suc i) m"
  by (simp add: iov_bytes_def upt_conv_Cons del: upt_Suc)

lemma iov_bytes_cong: "(\<And>k. i \<le> k \<Longrightarrow> k < i + m \<Longrightarrow> v k = v' k) \<Longrightarrow> iov_bytes v i m = iov_bytes v' i m"
  unfolding iov_bytes_def by (intro arg_cong [of _ _ concat] map_cong) auto

lemma length_frag_bytes [simp]: "length (frag_bytes v) = unat (iov_len v)"
  by (simp add: frag_bytes_def)

lemma pending_first:
  assumes "msgcurr c < msgused c"
  shows "pending c = msg_data c (msgcurr c) @ concat (map (msg_data c) [Suc (msgcurr c)..<msgused c])"
  using assms by (simp add: pending_def upt_conv_Cons del: upt_Suc)

lemma skip_sent_bytes:
  "skip_sent m i res v = (m', i', res') \<Longrightarrow> res \<le> length (iov_bytes v i m) \<Longrightarrow>
   i' + m' = i + m \<and> i \<le> i' \<and> drop res (iov_bytes v i m) = drop res' (iov_bytes v i' m') \<and>
   (if m' = 0 then res' = 0 else res' < unat (iov_len (v i')))"
proof (induction m arbitrary: i res)
  case (Suc m)
  show ?case
  proof (cases "unat (iov_len (v i)) \<le> res")
    case True
    then show ?thesis using Suc.IH [of "i + 1" "res - unat (iov_len (v i))"] Suc.prems
      by (force simp: iov_bytes_Suc split: if_splits)
  next
    case False
    then show ?thesis using Suc.prems by auto
  qed
qed simp

lemma shorter_frag:
  assumes "r < unat (iov_len v)"
  shows "frag_bytes (v\<lparr>iov_base := iov_base v + r, iov_len := iov_len v - of_nat r\<rparr>) = drop r (frag_bytes v)"
proof -
  have "r < 2 ^ 64" using assms unsigned_less [of "iov_len v", where ?'a = nat] by simp
  then have "unat (of_nat r :: u64) = r" by (rule unat_of_nat_u64)
  then have "of_nat r \<le> iov_len v" "unat (iov_len v - of_nat r) = unat (iov_len v) - r"
    using assms by (simp_all add: word_le_nat_alt unat_sub_if_size)
  then show ?thesis using assms by (simp add: frag_bytes_def)
qed

lemma advance_iov_pending:
  assumes ok: "send_ok c" and lt: "msgcurr c < msgused c" and res: "res \<le> length (msg_bytes c)"
  shows "pending (advance_iov res c) = drop res (pending c)" "send_ok (advance_iov res c)"
    "msgcurr (advance_iov res c) = msgcurr c" "msgused (advance_iov res c) = msgused c"
proof -
  let ?i = "msgcurr c"
  let ?m = "msglist c ?i"
  obtain m' k r where s: "skip_sent (msg_iovlen ?m) (msg_iov ?m) res (iov c) = (m', k, r)"
    by (cases "skip_sent (msg_iovlen ?m) (msg_iov ?m) res (iov c)") auto
  have *: "k + m' = msg_iov ?m + msg_iovlen ?m" "msg_iov ?m \<le> k"
    "drop res (msg_data c ?i) = drop r (iov_bytes (iov c) k m')" "if m' = 0 then r = 0 else r < unat (iov_len (iov c k))"
    using skip_sent_bytes [OF s] res by (simp_all add: msg_data_def msg_bytes_data)
  define v where "v = (if r > 0 then (iov c)(k := (iov c k)\<lparr>iov_base := iov_base (iov c k) + r, iov_len := iov_len (iov c k) - of_nat r\<rparr>)
    else iov c)"
  have c': "iov (advance_iov res c) = v" "msglist (advance_iov res c) = (msglist c)(?i := ?m\<lparr>msg_iovlen := m', msg_iov := k\<rparr>)"
    and cu: "msgcurr (advance_iov res c) = ?i" "msgused (advance_iov res c) = msgused c"
    using s by (simp_all add: advance_iov_def v_def Let_def)
  have first: "iov_bytes v k m' = drop r (iov_bytes (iov c) k m')"
  proof (cases m')
    case (Suc n)
    have "iov_bytes v (Suc k) n = iov_bytes (iov c) (Suc k) n" by (rule iov_bytes_cong) (simp add: v_def)
    then show ?thesis using *(4) Suc by (simp add: iov_bytes_Suc v_def shorter_frag)
  qed simp
  have d: "msg_data (advance_iov res c) ?i = drop res (msg_data c ?i)"
    using first *(3) c' by (simp add: msg_data_def)
  have rest: "msg_data (advance_iov res c) j = msg_data c j" if "?i < j" "j < msgused c" for j
  proof -
    have le: "msg_iov ?m + msg_iovlen ?m \<le> msg_iov (msglist c j)" using ok that by (simp add: send_ok_def)
    have "r = 0 \<or> k < msg_iov (msglist c j)" using *(1,4) le by (cases m') auto
    then have "iov_bytes v (msg_iov (msglist c j)) n = iov_bytes (iov c) (msg_iov (msglist c j)) n" for n
      by (intro iov_bytes_cong) (auto simp: v_def)
    then show ?thesis using c' that by (simp add: msg_data_def)
  qed
  have "concat (map (msg_data (advance_iov res c)) [Suc ?i..<msgused c]) = concat (map (msg_data c) [Suc ?i..<msgused c])"
    by (intro arg_cong [of _ _ concat] map_cong) (simp_all add: rest)
  then show "pending (advance_iov res c) = drop res (pending c)"
    using pending_first [of "advance_iov res c"] pending_first [OF lt] cu lt d res by (simp add: msg_bytes_data)
  show "send_ok (advance_iov res c)"
    using ok *(1) c' cu by (auto simp: send_ok_def)
  show "msgcurr (advance_iov res c) = ?i" "msgused (advance_iov res c) = msgused c" by (rule cu)+
qed


lemma pending_cong:
  assumes "iov c' = iov c" "msglist c' = msglist c" "msgcurr c' = msgcurr c" "msgused c' = msgused c"
  shows "pending c' = pending c" "send_ok c' = send_ok c" "msg_data c' = msg_data c"
proof -
  show m: "msg_data c' = msg_data c" by (rule ext) (simp add: msg_data_def assms)
  show "pending c' = pending c" "send_ok c' = send_ok c" using assms m by (simp_all add: pending_def send_ok_def)
qed

lemma next_message:
  assumes "msg_iovlen (msglist c (msgcurr c)) = 0" "msgcurr c < msgused c" "send_ok c"
  shows "pending (c\<lparr>msgcurr := msgcurr c + 1\<rparr>) = pending c" "send_ok (c\<lparr>msgcurr := msgcurr c + 1\<rparr>)"
proof -
  have m: "msg_data (c\<lparr>msgcurr := k\<rparr>) = msg_data c" for k by (simp add: msg_data_def fun_eq_iff)
  show "pending (c\<lparr>msgcurr := msgcurr c + 1\<rparr>) = pending c"
    using pending_first [OF assms(2)] assms(1) by (simp add: m pending_def) (simp add: msg_data_def)
  show "send_ok (c\<lparr>msgcurr := msgcurr c + 1\<rparr>)" using assms(3) by (auto simp: send_ok_def)
qed

text \<open>The connection \<open>transmit\<close> sends from: the next message, when the current one is finished.\<close>

definition send_from :: "conn \<Rightarrow> conn" where
  "send_from c = (if msgcurr c < msgused c \<and> msg_iovlen (msglist c (msgcurr c)) = 0 then c\<lparr>msgcurr := msgcurr c + 1\<rparr> else c)"

lemma send_from_same:
  assumes "send_ok c"
  shows "pending (send_from c) = pending c" "send_ok (send_from c)" "msgused (send_from c) = msgused c"
    "\<exists>i. send_from c = c\<lparr>msgcurr := i\<rparr>"
proof -
  show "\<exists>i. send_from c = c\<lparr>msgcurr := i\<rparr>"
    by (cases "msgcurr c < msgused c \<and> msg_iovlen (msglist c (msgcurr c)) = 0")
      (auto simp: send_from_def intro: exI [of _ "msgcurr c"])
qed (use next_message [OF _ _ assms] assms in \<open>auto simp: send_from_def\<close>)

lemma conn_set_state_fields:
  "conn_set_state st c = Some c' \<Longrightarrow> c' = c\<lparr>cstate := st\<rparr>"
  by (cases c) (auto simp: conn_set_state_def c_assert_def split: if_splits)

lemma wait_for_fields:
  "wait_for fl c n = Some (ok, c', n') \<Longrightarrow>
   sent n' = sent n \<and> reads n' = reads n \<and> (\<exists>st e. c' = c\<lparr>cstate := st, ev_flags := e\<rparr>) \<and>
   (if ok then cstate c' = cstate c \<and> ev_flags c' = fl else cstate c' = conn_closing)"
  by (cases c; cases n)
    (auto simp: wait_for_def update_event_def next_call_def dest!: conn_set_state_fields
      split: if_splits list.splits prod.splits)

lemma state_pending:
  "conn_set_state st c = Some c' \<Longrightarrow> pending c' = pending c \<and> send_ok c' = send_ok c \<and> cstate c' = st"
  using pending_cong [of c' c] by (auto dest!: conn_set_state_fields)

lemma wait_for_pending:
  "wait_for fl c n = Some (ok, c', n') \<Longrightarrow>
   pending c' = pending c \<and> send_ok c' = send_ok c \<and> sent n' = sent n \<and> reads n' = reads n \<and>
   (if ok then cstate c' = cstate c \<and> ev_flags c' = fl else cstate c' = conn_closing)"
  using pending_cong [of c' c] by (auto dest!: wait_for_fields)

text \<open>C99: \<open>transmit\<close> sends a prefix of what is still to be sent and keeps the rest: what was sent followed by what is
  pending never changes, in every outcome.  It is complete only when nothing is pending, makes progress when it is
  incomplete, and in the error cases sends nothing and either waits for the socket or gives the message up.\<close>

theorem transmit_sends:
  assumes ok: "send_ok c" and t: "transmit c w n = Some (t, c', w', n')"
  shows "sent n' @ pending c' = sent n @ pending c \<and> send_ok c' \<and> reads n' = reads n \<and>
    (t = TRANSMIT_COMPLETE \<longrightarrow> pending c' = [] \<and> cstate c' = cstate c) \<and>
    (t = TRANSMIT_INCOMPLETE \<longrightarrow> length (pending c') < length (pending c) \<and> cstate c' = cstate c) \<and>
    (t = TRANSMIT_SOFT_ERROR \<longrightarrow> sent n' = sent n \<and> cstate c' = cstate c \<and> ev_flags c' = EV_WRITE + EV_PERSIST) \<and>
    (t = TRANSMIT_HARD_ERROR \<longrightarrow> sent n' = sent n \<and> cstate c' = (if is_udp c \<and> cstate c' \<noteq> conn_closing then conn_read else conn_closing))"
proof -
  let ?d = "send_from c"
  note s = send_from_same [OF ok]
  obtain i where d: "?d = c\<lparr>msgcurr := i\<rparr>" using s(4) by blast
  show ?thesis
  proof (cases "msgcurr ?d < msgused ?d")
    case False
    then have "pending ?d = []" by (simp add: pending_def)
    then show ?thesis using t False s d by (auto simp: transmit_def send_from_def [symmetric])
  next
    case lt: True
    have first: "pending c = msg_bytes ?d @ concat (map (msg_data ?d) [Suc (msgcurr ?d)..<msgused ?d])"
      using pending_first [OF lt] s(1) by (simp add: msg_bytes_data)
    have st: "cstate ?d = cstate c" "is_udp ?d = is_udp c" using d by (simp_all add: is_udp_def)
    note tr = t [unfolded transmit_def send_from_def [symmetric] Let_def, unfolded if_P [OF lt]]
    have hard: ?thesis if "map_option (\<lambda>c1. (TRANSMIT_HARD_ERROR, c1, w, n\<lparr>sends := drop 1 (sends n)\<rparr>))
        (conn_set_state (if is_udp ?d then conn_read else conn_closing) ?d) = Some (t, c', w', n')"
      using that st s(1,2) by (auto dest!: state_pending)
    have soft: ?thesis if "do { (ok, c1, n2) \<leftarrow> wait_for (EV_WRITE + EV_PERSIST) ?d (n\<lparr>sends := drop 1 (sends n)\<rparr>);
        Some (if ok then TRANSMIT_SOFT_ERROR else TRANSMIT_HARD_ERROR, c1, w, n2) } = Some (t, c', w', n')"
      using that st s(1,2) by (auto simp: bind_eq_Some_conv dest!: wait_for_pending split: if_splits)
    show ?thesis
    proof (cases "\<exists>k ks. sends n = Snd k # ks \<and> take k (msg_bytes ?d) \<noteq> []")
      case True
      then obtain k ks where k: "sends n = Snd k # ks" "take k (msg_bytes ?d) \<noteq> []" by blast
      let ?r = "length (take k (msg_bytes ?d))"
      have r: "?r \<le> length (msg_bytes ?d)" "0 < ?r" using k by simp_all
      have res: "t = TRANSMIT_INCOMPLETE" "c' = advance_iov ?r ?d" "sent n' = sent n @ take k (msg_bytes ?d)" "reads n' = reads n"
        using tr k by auto
      have "cstate c' = cstate c" using res st by (simp add: advance_iov_def Let_def split: prod.splits)
      moreover have "take k (msg_bytes ?d) @ drop ?r (pending c) = pending c" using first by (simp add: min_def)
      ultimately show ?thesis
        using advance_iov_pending [OF s(2) lt r(1)] s(1) res r first by simp
    next
      case none: False
      show ?thesis
      proof (cases "sends n")
        case Nil
        show ?thesis by (rule soft) (use tr Nil in simp)
      next
        case (Cons r rs)
        show ?thesis
        proof (cases r)
          case (Snd k)
          then have "take k (msg_bytes ?d) = []" using none Cons by blast
          then show ?thesis by (intro hard) (use tr Cons Snd in \<open>simp split: if_splits\<close>)
        next
          case Snd_again
          show ?thesis by (rule soft) (use tr Cons Snd_again in simp)
        next
          case Snd_error
          show ?thesis by (rule hard) (use tr Cons Snd_error in simp)
        qed
      qed
    qed
  qed
qed

section \<open>Sending a whole reply\<close>

text \<open>No message is empty, except that the current one may be finished.\<close>

definition msgs_full :: "conn \<Rightarrow> bool" where
  "msgs_full c \<longleftrightarrow> (\<forall>i. msgcurr c \<le> i \<and> i < msgused c \<longrightarrow>
     msg_data c i \<noteq> [] \<or> i = msgcurr c \<and> msg_iovlen (msglist c i) = 0)"

lemma send_from_full:
  assumes "msgs_full c"
  shows "\<And>i. msgcurr (send_from c) \<le> i \<Longrightarrow> i < msgused (send_from c) \<Longrightarrow> msg_data (send_from c) i \<noteq> []"
proof -
  have m: "msg_data (c\<lparr>msgcurr := k\<rparr>) = msg_data c" for k by (simp add: msg_data_def fun_eq_iff)
  fix i assume i: "msgcurr (send_from c) \<le> i" "i < msgused (send_from c)"
  show "msg_data (send_from c) i \<noteq> []"
  proof (cases "msgcurr c < msgused c \<and> msg_iovlen (msglist c (msgcurr c)) = 0")
    case True
    then have s: "send_from c = c\<lparr>msgcurr := Suc (msgcurr c)\<rparr>" by (simp add: send_from_def)
    have "msgcurr c \<le> i" "i < msgused c" "i \<noteq> msgcurr c" using i by (simp_all add: s)
    then show ?thesis using assms unfolding msgs_full_def s m by blast
  next
    case False
    then have s: "send_from c = c" by (simp add: send_from_def)
    show ?thesis using assms i False unfolding msgs_full_def s by force
  qed
qed

lemma send_from_pending:
  assumes "msgs_full c" "send_ok c"
  shows "pending c = [] \<longleftrightarrow> \<not> msgcurr (send_from c) < msgused (send_from c)"
proof
  show "pending c = [] \<Longrightarrow> \<not> msgcurr (send_from c) < msgused (send_from c)"
    using send_from_full [OF assms(1), of "msgcurr (send_from c)"] pending_first [of "send_from c"] send_from_same(1) [OF assms(2)]
    by auto
qed (use send_from_same(1) [OF assms(2)] in \<open>simp add: pending_def\<close>)

lemma advance_iov_full:
  assumes full: "\<And>i. msgcurr c \<le> i \<Longrightarrow> i < msgused c \<Longrightarrow> msg_data c i \<noteq> []" and ok: "send_ok c"
    and lt: "msgcurr c < msgused c" and res: "res \<le> length (msg_bytes c)"
  shows "msgs_full (advance_iov res c)"
proof -
  let ?m = "msglist c (msgcurr c)"
  obtain m' k r where s: "skip_sent (msg_iovlen ?m) (msg_iov ?m) res (iov c) = (m', k, r)"
    by (cases "skip_sent (msg_iovlen ?m) (msg_iov ?m) res (iov c)") auto
  have s': "k + m' = msg_iov ?m + msg_iovlen ?m" "if m' = 0 then r = 0 else r < unat (iov_len (iov c k))"
    using skip_sent_bytes [OF s] res by (simp_all add: msg_data_def msg_bytes_data)
  have same: "length (msg_data (advance_iov res c) i) \<ge> 1" if "msgcurr c < i" "i < msgused c" for i
  proof -
    have "msg_iov ?m + msg_iovlen ?m \<le> msg_iov (msglist c i)" using ok that by (simp add: send_ok_def)
    then have "r = 0 \<or> k < msg_iov (msglist c i)" using s' by (cases m') auto
    then have "msg_data (advance_iov res c) i = msg_data c i"
      using s that unfolding msg_data_def advance_iov_def Let_def by (auto intro!: iov_bytes_cong)
    then show ?thesis using full [of i] that by (simp add: Suc_le_eq)
  qed
  have first: "msg_data (advance_iov res c) (msgcurr c) \<noteq> [] \<or> m' = 0"
  proof (cases m')
    case (Suc n)
    have "frag_bytes ((iov (advance_iov res c)) k) = drop r (frag_bytes (iov c k))"
      using s s'(2) Suc shorter_frag by (simp add: advance_iov_def Let_def)
    then have "frag_bytes ((iov (advance_iov res c)) k) \<noteq> []" using s'(2) Suc by simp
    moreover have "msg_data (advance_iov res c) (msgcurr c) = iov_bytes (iov (advance_iov res c)) k (Suc n)"
      using s Suc by (simp add: msg_data_def advance_iov_def Let_def)
    ultimately show ?thesis by (simp only: iov_bytes_Suc) simp
  qed simp
  have m0: "msg_iovlen (msglist (advance_iov res c) (msgcurr c)) = m'" using s by (simp add: advance_iov_def Let_def)
  show ?thesis
    unfolding msgs_full_def advance_iov_pending(3,4) [OF ok lt res] using same first m0 by (force simp: le_eq_less_or_eq)
qed

text \<open>What stays: everything but the message list.\<close>

definition same_but_msgs :: "conn \<Rightarrow> conn \<Rightarrow> bool" where
  "same_but_msgs c c' \<longleftrightarrow> c' = c\<lparr>msgcurr := msgcurr c', msglist := msglist c', iov := iov c'\<rparr>"

lemma same_but_msgsI: "c' = c\<lparr>msgcurr := i, msglist := ml, iov := io\<rparr> \<Longrightarrow> same_but_msgs c c'"
  by (simp add: same_but_msgs_def)

lemma same_but_msgs_trans: "same_but_msgs a b \<Longrightarrow> same_but_msgs b c \<Longrightarrow> same_but_msgs a c"
  unfolding same_but_msgs_def by (cases a; cases b; cases c) simp

lemma same_but_msgs_fields: "same_but_msgs c c' \<Longrightarrow> cstate c' = cstate c \<and> is_udp c' = is_udp c"
proof -
  assume "same_but_msgs c c'"
  then have e: "c' = c\<lparr>msgcurr := msgcurr c', msglist := msglist c', iov := iov c'\<rparr>" by (simp add: same_but_msgs_def)
  show ?thesis using arg_cong [OF e, of cstate] arg_cong [OF e, of transport] by (simp add: is_udp_def)
qed

lemma transmit_progress:
  assumes ok: "send_ok c" "msgs_full c" and p: "pending c \<noteq> []" and k: "sends n = Snd k # ks" "0 < k"
  shows "\<exists>c' j. transmit c w n = Some (TRANSMIT_INCOMPLETE, c',
      my_count (\<lambda>t. t\<lparr>bytes_written := bytes_written t + of_nat j\<rparr>) w, n\<lparr>sends := ks, sent := sent n @ take j (pending c)\<rparr>) \<and>
    0 < j \<and> j \<le> length (pending c) \<and> pending c' = drop j (pending c) \<and> send_ok c' \<and> msgs_full c' \<and> same_but_msgs c c'"
proof -
  let ?d = "send_from c"
  note s = send_from_same [OF ok(1)]
  have lt: "msgcurr ?d < msgused ?d" using send_from_pending [OF ok(2,1)] p by blast
  let ?j = "length (take k (msg_bytes ?d))"
  have full: "msg_data ?d i \<noteq> []" if "msgcurr ?d \<le> i" "i < msgused ?d" for i using send_from_full [OF ok(2)] that .
  have first: "pending c = msg_bytes ?d @ concat (map (msg_data ?d) [Suc (msgcurr ?d)..<msgused ?d])"
    using pending_first [OF lt] s(1) by (simp add: msg_bytes_data)
  have ne: "msg_bytes ?d \<noteq> []" using full [OF order_refl lt] by (simp add: msg_bytes_data)
  have j: "0 < ?j" "?j \<le> length (msg_bytes ?d)" "?j \<le> length (pending c)" "take k (msg_bytes ?d) = take ?j (pending c)"
    using ne k(2) first by (simp_all add: min_def)
  obtain i where d: "?d = c\<lparr>msgcurr := i\<rparr>" using s(4) by blast
  have "same_but_msgs c (advance_iov ?j ?d)"
    unfolding d by (cases c) (simp add: same_but_msgs_def advance_iov_def Let_def split: prod.splits)
  moreover have "transmit c w n = Some (TRANSMIT_INCOMPLETE, advance_iov ?j ?d,
      my_count (\<lambda>t. t\<lparr>bytes_written := bytes_written t + of_nat ?j\<rparr>) w, n\<lparr>sends := ks, sent := sent n @ take ?j (pending c)\<rparr>)"
    unfolding transmit_def send_from_def [symmetric] Let_def if_P [OF lt] using k j by simp
  moreover have "msgs_full (advance_iov ?j ?d)" by (rule advance_iov_full [OF _ s(2) lt j(2)]) (rule full)
  ultimately show ?thesis
    using advance_iov_pending(1,2) [OF s(2) lt j(2)] j(1,3) s(1)
    by (intro exI [of _ "advance_iov ?j ?d"] exI [of _ ?j] conjI) simp_all
qed

lemma transmit_complete:
  assumes "send_ok c" "msgs_full c" "pending c = []"
  shows "transmit c w n = Some (TRANSMIT_COMPLETE, send_from c, w, n)" "same_but_msgs c (send_from c)"
proof -
  have nlt: "\<not> msgcurr (send_from c) < msgused (send_from c)" using send_from_pending [OF assms(2,1)] assms(3) by blast
  show "transmit c w n = Some (TRANSMIT_COMPLETE, send_from c, w, n)"
    unfolding transmit_def send_from_def [symmetric] Let_def if_not_P [OF nlt] ..
  show "same_but_msgs c (send_from c)"
    by (cases c) (simp add: same_but_msgs_def send_from_def)
qed

lemma reply_loop:
  "length (pending c) \<le> m \<Longrightarrow> cstate c = conn_mwrite \<Longrightarrow> \<not> is_udp c \<Longrightarrow> send_ok c \<Longrightarrow> msgs_full c \<Longrightarrow>
   sends n = map Snd ks \<Longrightarrow> \<forall>k\<in>set ks. 0 < k \<Longrightarrow> length (pending c) \<le> length ks \<Longrightarrow>
   \<exists>j c2 w2 n2. drive_loop env (nr, c, w, n) =
       do { (c3, w3) \<leftarrow> transmitted c2 w2; drive_loop (\<lambda>i. env (i + Suc j)) (nr, c3, w3, n2) } \<and>
     same_but_msgs c c2 \<and> sent n2 = sent n @ pending c \<and> reads n2 = reads n \<and>
     w2 = my_count (\<lambda>t. t\<lparr>bytes_written := bytes_written t + of_nat (length (pending c))\<rparr>) w"
proof (induction m arbitrary: c w n ks env)
  case 0
  then have p: "pending c = []" by simp
  note t = transmit_complete [OF 0(4,5) p]
  have "drive_loop env (nr, c, w, n) =
      do { (c3, w3) \<leftarrow> transmitted (send_from c) w; drive_loop (\<lambda>i. env (i + Suc 0)) (nr, c3, w3, n) }"
    using t(1) 0(2,3) by (subst drive_loop.simps)
      (cases "transmitted (send_from c) w"; auto simp: drive_step_def step_mwrite_def)
  moreover have "my_count (\<lambda>t. t\<lparr>bytes_written := bytes_written t + of_nat (length (pending c))\<rparr>) w = w"
    using p by (simp add: my_count_def)
  ultimately show ?case
    using t(2) p by (intro exI [of _ 0] exI [of _ "send_from c"] exI [of _ w] exI [of _ n] conjI) simp_all
next
  case (Suc m)
  show ?case
  proof (cases "pending c = []")
    case True
    show ?thesis using Suc.IH [OF _ Suc.prems(2-8)] True by simp
  next
    case False
    then obtain k ks' where k: "sends n = Snd k # map Snd ks'" "0 < k" "ks = k # ks'" "\<forall>k\<in>set ks'. 0 < k"
      using Suc.prems(6-8) by (cases ks) auto
    obtain c' j where t: "transmit c w n = Some (TRANSMIT_INCOMPLETE, c',
        my_count (\<lambda>t. t\<lparr>bytes_written := bytes_written t + of_nat j\<rparr>) w, n\<lparr>sends := map Snd ks', sent := sent n @ take j (pending c)\<rparr>)"
      and j: "0 < j" "j \<le> length (pending c)" "pending c' = drop j (pending c)" "send_ok c'" "msgs_full c'" "same_but_msgs c c'"
      using transmit_progress [OF Suc.prems(4,5) False k(1,2)] by blast
    let ?w = "my_count (\<lambda>t. t\<lparr>bytes_written := bytes_written t + of_nat j\<rparr>) w"
    let ?n = "n\<lparr>sends := map Snd ks', sent := sent n @ take j (pending c)\<rparr>"
    have step: "drive_loop env (nr, c, w, n) = drive_loop (\<lambda>i. env (i + 1)) (nr, c', ?w, ?n)"
      using t Suc.prems(2,3) by (subst drive_loop.simps) (simp add: drive_step_def step_mwrite_def cong: option.case_cong)
    have f: "cstate c' = conn_mwrite" "\<not> is_udp c'" using same_but_msgs_fields [OF j(6)] Suc.prems(2,3) by simp_all
    have l: "length (pending c') \<le> m" "length (pending c') \<le> length ks'" using j(1-3) Suc.prems(1,8) k(3) by auto
    obtain i c2 w2 n2 where r: "drive_loop (\<lambda>i. env (i + 1)) (nr, c', ?w, ?n) =
          do { (c3, w3) \<leftarrow> transmitted c2 w2; drive_loop (\<lambda>i'. env (i' + Suc i + 1)) (nr, c3, w3, n2) }"
      and q: "same_but_msgs c' c2" "sent n2 = sent ?n @ pending c'" "reads n2 = reads ?n"
        "w2 = my_count (\<lambda>t. t\<lparr>bytes_written := bytes_written t + of_nat (length (pending c'))\<rparr>) ?w"
      using Suc.IH [OF l(1) f j(4,5) _ k(4) l(2), of ?n "\<lambda>i. env (i + 1)" ?w] by auto
    have "w2 = my_count (\<lambda>t. t\<lparr>bytes_written := bytes_written t + of_nat (length (pending c))\<rparr>) w"
      using q(4) j(2,3) by (simp add: my_count_def of_nat_diff)
    then show ?thesis
      using step r q(1-3) j(3) same_but_msgs_trans [OF j(6) q(1)]
      by (intro exI [of _ "Suc i"] exI [of _ c2] exI [of _ w2] exI [of _ n2]) simp
  qed
qed


text \<open>A reply that was queued from the start: what is pending is the payload.\<close>

lemma iov_bytes_append: "iov_bytes v i (m + k) = iov_bytes v i m @ iov_bytes v (i + m) k"
  using upt_add_eq_append [of i "i + m" k] by (simp add: iov_bytes_def add.assoc)

lemma length_iov_bytes: "int (length (iov_bytes v i m)) = (\<Sum>k<m. uint (iov_len (v (i + k))))"
proof (induction m)
  case (Suc m)
  have "iov_bytes v i (Suc m) = iov_bytes v i m @ frag_bytes (v (i + m))"
    using iov_bytes_append [of v i m 1] iov_bytes_Suc [of v "i + m" 0] by simp
  then show ?case using Suc by simp
qed simp

lemma iov_bytes_split:
  "iov_bytes v 0 (\<Sum>j<n. l j) = concat (map (\<lambda>i. iov_bytes v (\<Sum>j<i. l j) (l i)) [0..<n])"
  for l :: "nat \<Rightarrow> nat"
  by (induction n) (simp_all add: iov_bytes_append)

lemma queued_reply:
  assumes ok: "msg_ok c" and first: "msgcurr c = 0" and base: "\<And>k. k < iovused c \<Longrightarrow> iov_base (iov c k) \<noteq> NULL"
    and full: "\<And>i. i < msgused c \<Longrightarrow> 0 < msg_total c i"
  shows "send_ok c" "msgs_full c" "pending c = payload c"
proof -
  let ?l = "\<lambda>j. msg_iovlen (msglist c j)"
  have iov: "msg_iov (msglist c i) = (\<Sum>j<i. ?l j)" if "i < msgused c" for i using ok that by (simp add: msg_ok_def)
  have used: "iovused c = (\<Sum>j<msgused c. ?l j)" using ok by (simp add: msg_ok_def)
  show "send_ok c"
  proof (rule send_okI)
    fix i j assume "i < j" "j < msgused c"
    moreover have "(\<Sum>j<Suc i. ?l j) \<le> (\<Sum>k<j. ?l k)" using \<open>i < j\<close> by (intro sum_mono2) auto
    ultimately show "msg_iov (msglist c i) + ?l i \<le> msg_iov (msglist c j)" by (simp add: iov)
  qed
  have len: "int (length (msg_data c i)) = msg_total c i" for i
    by (simp add: msg_data_def length_iov_bytes msg_total_def)
  have "msg_data c i \<noteq> []" if "i < msgused c" for i using full [OF that] len [of i] by auto
  then show "msgs_full c" by (simp add: msgs_full_def)
  have "pending c = concat (map (\<lambda>i. iov_bytes (iov c) (\<Sum>j<i. ?l j) (?l i)) [0..<msgused c])"
    unfolding pending_def first by (intro arg_cong [of _ _ concat] map_cong) (simp_all add: msg_data_def iov)
  also have "\<dots> = iov_bytes (iov c) 0 (iovused c)" using iov_bytes_split [of "iov c" ?l "msgused c"] used by simp
  also have "\<dots> = payload c"
    unfolding iov_bytes_def payload_def by (intro arg_cong [of _ _ concat] map_cong) (simp_all add: frag_bytes_def frag_def base)
  finally show "pending c = payload c" .
qed

text \<open>Giving the references of a reply to its items back, one after the other.\<close>

primrec remove_all :: "ptr list \<Rightarrow> worker_state \<Rightarrow> worker_state option" where
  "remove_all [] w = Some w"
| "remove_all (p # ps) w = do { w1 \<leftarrow> item_remove p w; remove_all ps w1 }"

definition reply_items :: "conn \<Rightarrow> ptr list" where
  "reply_items c = (if c_item c \<noteq> NULL then [c_item c] else []) @ map (ilist c) [icurr c..<icurr c + ileft c]"

lemma release_items_removes:
  "release_items n c w = Some (c', w') \<Longrightarrow>
   c' = c\<lparr>icurr := icurr c + n, ileft := ileft c - n\<rparr> \<and> remove_all (map (ilist c) [icurr c..<icurr c + n]) w = Some w'"
proof (induction n arbitrary: c w)
  case (Suc n)
  from Suc.prems obtain w1 where w1: "item_remove (ilist c (icurr c)) w = Some w1"
    "release_items n (c\<lparr>icurr := icurr c + 1, ileft := ileft c - 1\<rparr>) w1 = Some (c', w')"
    by (auto simp: Let_def c_assert_def split: if_splits bind_splits)
  have u: "[icurr c..<icurr c + Suc n] = icurr c # [icurr c + 1..<icurr c + 1 + n]" by (simp add: upt_conv_Cons del: upt_Suc)
  show ?case using Suc.IH [OF w1(2)] w1(1) unfolding u by simp
qed simp

lemma release_suffixes_frame:
  "release_suffixes n c w = (c', w') \<Longrightarrow>
   \<exists>r f. c' = c\<lparr>reallocs := r, suffixleft := suffixleft c - n, suffixcurr := suffixcurr c + n\<rparr> \<and> w' = w\<lparr>suffix_cache := f\<rparr>"
proof (induction n arbitrary: c w)
  case 0
  then show ?case by (intro exI [of _ "reallocs c"] exI [of _ "suffix_cache w"]) simp
next
  case (Suc n)
  have "snd (realloc_outcome c) = c\<lparr>reallocs := reallocs (snd (realloc_outcome c))\<rparr>"
    by (simp add: realloc_outcome_def split: list.split)
  then obtain ok r where r: "realloc_outcome c = (ok, c\<lparr>reallocs := r\<rparr>)" by (metis prod.collapse)
  show ?case using Suc.IH [OF Suc.prems [unfolded release_suffixes.simps r prod.case]] by auto
qed

lemma conn_release_items_done:
  assumes "conn_release_items c w = Some (c', w')"
  shows "(\<exists>r. c' = c\<lparr>c_item := NULL, ileft := 0, reallocs := r, suffixleft := 0, icurr := 0, suffixcurr := 0\<rparr>) \<and>
    (\<exists>w1 f. remove_all (reply_items c) w = Some w1 \<and> w' = w1\<lparr>suffix_cache := f\<rparr>)"
proof -
  obtain w1 c1 w2 where q: "(if c_item c \<noteq> NULL then item_remove (c_item c) w else Some w) = Some w1"
    "release_items (ileft c) (c\<lparr>c_item := NULL\<rparr>) w1 = Some (c1, w2)"
    using assms unfolding conn_release_items_def by (auto simp only: bind_eq_Some_conv)
  obtain c2 w3 where "release_suffixes (suffixleft c1) c1 w2 = (c2, w3)" by (cases "release_suffixes (suffixleft c1) c1 w2")
  then have r: "(if c_item c \<noteq> NULL then item_remove (c_item c) w else Some w) = Some w1"
    "release_items (ileft c) (c\<lparr>c_item := NULL\<rparr>) w1 = Some (c1, w2)" "release_suffixes (suffixleft c1) c1 w2 = (c2, w')"
    "c' = c2\<lparr>icurr := 0, suffixcurr := 0\<rparr>"
    using q assms by (simp_all add: conn_release_items_def)
  note i = release_items_removes [OF r(2)] and s = release_suffixes_frame [OF r(3)]
  have "remove_all (reply_items c) w = Some w2" using i r(1) by (auto simp: reply_items_def split: if_splits)
  then show ?thesis using i s r(4) by auto
qed

lemma transmitted_mwrite:
  assumes "cstate c = conn_mwrite" "c_protocol c = binary_prot \<Longrightarrow> write_and_go c \<noteq> conn_max_state"
  shows "transmitted c w = do { (c3, w3) \<leftarrow> conn_release_items c w;
      Some (c3\<lparr>cstate := if c_protocol c = binary_prot then write_and_go c else conn_new_cmd\<rparr>, w3) }"
proof (cases "conn_release_items c w")
  case (Some r)
  obtain c3 w3 where r: "r = (c3, w3)" by (cases r)
  have "c_protocol c3 = c_protocol c" "write_and_go c3 = write_and_go c"
    using conn_release_items_done [of c w c3 w3] Some r by auto
  then show ?thesis using assms Some r by (auto simp: transmitted_def conn_set_state_Some)
qed (simp add: transmitted_def assms(1))

text \<open>C99: A reply that was queued on a TCP connection is sent completely and in order, however the socket splits it: in
  state \<open>conn_mwrite\<close> the state machine sends exactly the payload of the message list and counts its bytes,
  whenever every \<open>sendmsg\<close> takes at least one byte.  Only then it gives the reference to each item of the reply back,
  once, and goes on in state \<open>conn_new_cmd\<close>, or in \<open>write_and_go\<close> for the binary protocol, with no item or suffix
  left to release.\<close>

theorem reply_is_sent:
  assumes st: "cstate c = conn_mwrite" "\<not> is_udp c" "msgcurr c = 0" and ok: "msg_ok c"
    and base: "\<And>k. k < iovused c \<Longrightarrow> iov_base (iov c k) \<noteq> NULL" and full: "\<And>i. i < msgused c \<Longrightarrow> 0 < msg_total c i"
    and net: "sends n = map Snd ks" "\<forall>k\<in>set ks. 0 < k" "length (payload c) \<le> length ks"
    and go: "after = (if c_protocol c = binary_prot then write_and_go c else conn_new_cmd)" "after \<noteq> conn_max_state"
  shows "\<exists>j c2 w2 n2. drive_loop env (nreqs, c, w, n) =
       do { (c3, w3) \<leftarrow> conn_release_items c2 w2; drive_loop (\<lambda>i. env (i + Suc j)) (nreqs, c3\<lparr>cstate := after\<rparr>, w3, n2) } \<and>
     (\<forall>c3 w3. conn_release_items c2 w2 = Some (c3, w3) \<longrightarrow> c_item c3 = NULL \<and> ileft c3 = 0 \<and> suffixleft c3 = 0 \<and>
        (\<exists>w1 f. remove_all (reply_items c) w2 = Some w1 \<and> w3 = w1\<lparr>suffix_cache := f\<rparr>)) \<and>
     c2 = c\<lparr>msgcurr := msgcurr c2, msglist := msglist c2, iov := iov c2\<rparr> \<and>
     sent n2 = sent n @ payload c \<and> reads n2 = reads n \<and>
     w2 = my_count (\<lambda>t. t\<lparr>bytes_written := bytes_written t + of_nat (length (payload c))\<rparr>) w"
proof -
  have q: "send_ok c" "msgs_full c" "pending c = payload c"
    by (simp_all add: queued_reply ok st(3) base full)
  obtain j c2 w2 n2 where r: "drive_loop env (nreqs, c, w, n) =
       do { (c3, w3) \<leftarrow> transmitted c2 w2; drive_loop (\<lambda>i. env (i + Suc j)) (nreqs, c3, w3, n2) }"
     "c2 = c\<lparr>msgcurr := msgcurr c2, msglist := msglist c2, iov := iov c2\<rparr>"
     "sent n2 = sent n @ payload c" "reads n2 = reads n"
     "w2 = my_count (\<lambda>t. t\<lparr>bytes_written := bytes_written t + of_nat (length (payload c))\<rparr>) w"
    using reply_loop [OF order_refl st(1,2) q(1,2) net(1,2), of env nreqs w] net(3)
    unfolding same_but_msgs_def q(3) by blast
  have f: "cstate c2 = conn_mwrite" "c_protocol c2 = c_protocol c" "write_and_go c2 = write_and_go c"
    "reply_items c2 = reply_items c"
    using arg_cong [OF r(2), of cstate] arg_cong [OF r(2), of c_protocol] arg_cong [OF r(2), of write_and_go]
      arg_cong [OF r(2), of reply_items] st(1) by (simp_all add: reply_items_def)
  have t: "transmitted c2 w2 = do { (c3, w3) \<leftarrow> conn_release_items c2 w2; Some (c3\<lparr>cstate := after\<rparr>, w3) }"
    using go transmitted_mwrite [OF f(1), of w2] unfolding f(2,3) by presburger
  have loop: "drive_loop env (nreqs, c, w, n) =
       do { (c3, w3) \<leftarrow> conn_release_items c2 w2; drive_loop (\<lambda>i. env (i + Suc j)) (nreqs, c3\<lparr>cstate := after\<rparr>, w3, n2) }"
    unfolding r(1) t by (cases "conn_release_items c2 w2") auto
  have rel: "c_item c3 = NULL \<and> ileft c3 = 0 \<and> suffixleft c3 = 0 \<and>
        (\<exists>w1 f. remove_all (reply_items c) w2 = Some w1 \<and> w3 = w1\<lparr>suffix_cache := f\<rparr>)"
    if "conn_release_items c2 w2 = Some (c3, w3)" for c3 w3
    using conn_release_items_done [OF that] unfolding f(4) by auto
  show ?thesis using loop rel r(2-5) by (intro exI [of _ j] exI [of _ c2] exI [of _ w2] exI [of _ n2]) blast
qed

text \<open>A connection with a queued reply of five bytes, and a network that takes two of them first.\<close>

definition example_reply :: conn where
  "example_reply = (fresh_conn 2048 8)\<lparr>transport := tcp_transport, cstate := conn_mwrite,
     iov := (\<lambda>_. \<lparr>iov_base = NULL, iov_len = 0\<rparr>)(0 := \<lparr>iov_base = 100, iov_len = 5\<rparr>), iovused := 1,
     msglist := (\<lambda>_. \<lparr>msg_iov = 0, msg_iovlen = 0, msg_named = False\<rparr>)(0 := \<lparr>msg_iov = 0, msg_iovlen = 1, msg_named = False\<rparr>),
     msgused := 1, msgbytes := 5\<rparr>"

definition example_net :: net where
  "example_net = \<lparr>reads = [], sends = map Snd [2, 9, 1, 1, 1], accepts = [], calls = [], sent = [], use_accept4 = True,
     dispatched = [], turned_away = [], listeners = [], maxconns_timer = False\<rparr>"

lemma example_reply_ok:
  "msg_ok example_reply" "payload example_reply = [100, 101, 102, 103, 104]" "cstate example_reply = conn_mwrite"
  "\<not> is_udp example_reply" "msgcurr example_reply = 0" "iovused example_reply = 1" "msgused example_reply = 1"
  "iov_base (iov example_reply 0) \<noteq> NULL" "msg_total example_reply 0 = 5"
  by (simp_all add: example_reply_def fresh_conn_def msg_ok_def payload_def frag_def msg_total_def is_udp_def IOV_MAX_def
      UDP_MAX_PAYLOAD_SIZE_def IOV_LIST_INITIAL_def MSG_LIST_INITIAL_def upt_rec)

theorem reply_is_sent_witness:
  "\<forall>env nreqs. \<exists>j c3 w3 n3. drive_loop env (nreqs, example_reply, example_worker, example_net) =
       drive_loop (\<lambda>i. env (i + Suc j)) (nreqs, c3, w3, n3) \<and>
     cstate c3 = conn_new_cmd \<and> sent n3 = sent example_net @ [100, 101, 102, 103, 104]"
proof (intro allI)
  fix env nreqs
  have after: "conn_new_cmd = (if c_protocol example_reply = binary_prot then write_and_go example_reply else conn_new_cmd)"
    by (simp add: example_reply_def fresh_conn_def)
  have "\<exists>j c2 w2 n2. drive_loop env (nreqs, example_reply, example_worker, example_net) =
       do { (c3, w3) \<leftarrow> conn_release_items c2 w2; drive_loop (\<lambda>i. env (i + Suc j)) (nreqs, c3\<lparr>cstate := conn_new_cmd\<rparr>, w3, n2) } \<and>
     (\<forall>c3 w3. conn_release_items c2 w2 = Some (c3, w3) \<longrightarrow> c_item c3 = NULL \<and> ileft c3 = 0 \<and> suffixleft c3 = 0 \<and>
        (\<exists>w1 f. remove_all (reply_items example_reply) w2 = Some w1 \<and> w3 = w1\<lparr>suffix_cache := f\<rparr>)) \<and>
     c2 = example_reply\<lparr>msgcurr := msgcurr c2, msglist := msglist c2, iov := iov c2\<rparr> \<and>
     sent n2 = sent example_net @ payload example_reply \<and> reads n2 = reads example_net \<and>
     w2 = my_count (\<lambda>t. t\<lparr>bytes_written := bytes_written t + of_nat (length (payload example_reply))\<rparr>) example_worker"
    by (rule reply_is_sent [where ks = "[2, 9, 1, 1, 1]"]) (use example_reply_ok after in \<open>simp_all add: example_net_def\<close>)
  then obtain j c2 w2 n2 where r: "drive_loop env (nreqs, example_reply, example_worker, example_net) =
       do { (c3, w3) \<leftarrow> conn_release_items c2 w2; drive_loop (\<lambda>i. env (i + Suc j)) (nreqs, c3\<lparr>cstate := conn_new_cmd\<rparr>, w3, n2) }"
    "c2 = example_reply\<lparr>msgcurr := msgcurr c2, msglist := msglist c2, iov := iov c2\<rparr>"
    "sent n2 = sent example_net @ payload example_reply" by blast
  have "c_item c2 = NULL" "ileft c2 = 0" "suffixleft c2 = 0"
    using arg_cong [OF r(2), of c_item] arg_cong [OF r(2), of ileft] arg_cong [OF r(2), of suffixleft]
    by (simp_all add: example_reply_def fresh_conn_def)
  then have "conn_release_items c2 w2 = Some (c2\<lparr>c_item := NULL, icurr := 0, suffixcurr := 0\<rparr>, w2)"
    by (simp add: conn_release_items_def)
  then show "\<exists>j c3 w3 n3. drive_loop env (nreqs, example_reply, example_worker, example_net) =
       drive_loop (\<lambda>i. env (i + Suc j)) (nreqs, c3, w3, n3) \<and>
     cstate c3 = conn_new_cmd \<and> sent n3 = sent example_net @ [100, 101, 102, 103, 104]"
    using r(1,3) example_reply_ok(2)
    by (intro exI [of _ j] exI [of _ "c2\<lparr>c_item := NULL, icurr := 0, suffixcurr := 0, cstate := conn_new_cmd\<rparr>"]
        exI [of _ w2] exI [of _ n2]) simp
qed

theorem transmit_sends_witness:
  "send_ok example_reply \<and> (\<exists>c' w' n'. transmit example_reply example_worker example_net = Some (TRANSMIT_INCOMPLETE, c', w', n') \<and>
     sent n' @ pending c' = sent example_net @ pending example_reply)"
proof -
  have q: "send_ok example_reply" "msgs_full example_reply" "pending example_reply \<noteq> []"
    using queued_reply [of example_reply] example_reply_ok by simp_all
  have s: "sends example_net = Snd 2 # map Snd [9, 1, 1, 1]" by (simp add: example_net_def)
  obtain c' w' n' where t: "transmit example_reply example_worker example_net = Some (TRANSMIT_INCOMPLETE, c', w', n')"
    using transmit_progress [OF q s, of example_worker] by auto
  then show ?thesis using transmit_sends [OF q(1) t] q(1) by blast
qed

text \<open>
  Reading: the input of a connection is what waits in its buffer followed by what the network will deliver. No
  byte of it is lost or read twice.
\<close>

section \<open>The input of a connection\<close>

definition net_bytes :: "read_result list \<Rightarrow> bytes" where
  "net_bytes rs = concat (map (\<lambda>r. case r of Rd_data b \<Rightarrow> b | _ \<Rightarrow> []) rs)"

definition input :: "conn \<Rightarrow> net \<Rightarrow> bytes" where
  "input c n = get_bytes (rbuf c) (rcurr c) (rbytes c) @ net_bytes (reads n)"

lemma net_bytes_simps [simp]:
  "net_bytes [] = []" "net_bytes (Rd_data b # rs) = b @ net_bytes rs" "net_bytes (Rd_eof # rs) = net_bytes rs"
  "net_bytes (Rd_again # rs) = net_bytes rs" "net_bytes (Rd_error # rs) = net_bytes rs"
  by (simp_all add: net_bytes_def)

lemma net_bytes_data [simp]: "net_bytes (map Rd_data ds) = concat ds"
  by (induction ds) simp_all

lemma length_get_bytes [simp]: "length (get_bytes f off k) = k"
  by (simp add: get_bytes_def)

lemma get_bytes_0 [simp]: "get_bytes f off 0 = []"
  by (simp add: get_bytes_def)

lemma take_get_bytes: "take j (get_bytes f off k) = get_bytes f off (min j k)"
  by (simp add: get_bytes_def take_map min_def)

lemma drop_get_bytes: "drop j (get_bytes f off k) = get_bytes f (off + j) (k - j)"
  by (cases "j \<le> k") (simp_all add: get_bytes_def drop_map)

lemma get_bytes_append: "get_bytes f off (j + k) = get_bytes f off j @ get_bytes f (off + j) k"
  using upt_add_eq_append [of off "off + j" k] by (simp add: get_bytes_def add.assoc)

lemma get_put_bytes: "get_bytes (put_bytes off bs f) off (length bs) = bs"
  by (rule nth_equalityI) (simp_all add: get_bytes_def put_bytes_def)

lemma get_put_other:
  "off + k \<le> off' \<Longrightarrow> get_bytes (put_bytes off' bs f) off k = get_bytes f off k"
  by (simp add: get_bytes_def put_bytes_def)

lemma data_read_write: "data_read 0 (k + length bs) (data_write k bs d) = data_read 0 k d @ bs"
proof -
  have "take k (d @ replicate k 0) = data_read 0 k d" by (simp add: data_read_def)
  then show ?thesis
    by (simp add: data_write_def data_read_def [of 0 "k + length bs"] data_read_length)
qed

section \<open>The body of a request\<close>

text \<open>A read from a network that delivers data.\<close>

lemma net_read_data:
  assumes "reads n = map Rd_data ds" "[] \<notin> set ds" "concat ds \<noteq> []" "0 < q"
  shows "\<exists>bs ds'. net_read (int q) n = Some (Rd_data bs, n\<lparr>reads := map Rd_data ds'\<rparr>) \<and> bs \<noteq> [] \<and> length bs \<le> q \<and>
    bs @ concat ds' = concat ds \<and> [] \<notin> set ds'"
proof -
  obtain d rest where ds: "ds = d # rest" using assms(3) by (cases ds) auto
  let ?ds' = "if drop q d = [] then rest else drop q d # rest"
  have "net_read (int q) n = Some (Rd_data (take q d), n\<lparr>reads := map Rd_data ?ds'\<rparr>)"
    using assms ds by (auto simp: net_read_def Let_def)
  moreover have "take q d @ concat ?ds' = concat ds" using ds by auto
  ultimately show ?thesis using assms(2,4) ds by (intro exI [of _ "take q d"] exI [of _ ?ds']) auto
qed

text \<open>\<open>j\<close> bytes of the input are stored from offset \<open>k\<close> on in the value of the item \<open>it\<close>; nothing else changes.\<close>

definition bytes_moved ::
  "ptr \<Rightarrow> nat \<Rightarrow> nat \<Rightarrow> conn \<Rightarrow> worker_state \<Rightarrow> net \<Rightarrow> conn \<Rightarrow> worker_state \<Rightarrow> net \<Rightarrow> bool" where
  "bytes_moved it k j c w n c' w' n' \<longleftrightarrow>
     c' = c\<lparr>rcurr := rcurr c', rbytes := rbytes c', ritem := in_item it (k + j), rlbytes := rlbytes c - int j\<rparr> \<and>
     w' = w\<lparr>heap := (heap w)(it := (heap w it)\<lparr>it_data := it_data (heap w' it)\<rparr>), my_stats := my_stats w'\<rparr> \<and>
     n' = n\<lparr>reads := reads n'\<rparr> \<and>
     data_read 0 (k + j) (it_data (heap w' it)) = data_read 0 k (it_data (heap w it)) @ take j (input c n) \<and>
     input c' n' = drop j (input c n)"

lemma bytes_movedD:
  assumes "bytes_moved it k j c w n c' w' n'"
  shows "ritem c' = in_item it (k + j)" "rlbytes c' = rlbytes c - int j" "cstate c' = cstate c"
    "it_len (heap w' it) = it_len (heap w it)" "input c' n' = drop j (input c n)"
    "data_read 0 (k + j) (it_data (heap w' it)) = data_read 0 k (it_data (heap w it)) @ take j (input c n)"
proof -
  have c: "c' = c\<lparr>rcurr := rcurr c', rbytes := rbytes c', ritem := in_item it (k + j), rlbytes := rlbytes c - int j\<rparr>"
    and w: "w' = w\<lparr>heap := (heap w)(it := (heap w it)\<lparr>it_data := it_data (heap w' it)\<rparr>), my_stats := my_stats w'\<rparr>"
    using assms by (simp_all add: bytes_moved_def)
  show "ritem c' = in_item it (k + j)" "rlbytes c' = rlbytes c - int j" "cstate c' = cstate c"
    by (subst c, simp)+
  have "it_nbytes (heap w' it) = it_nbytes (heap w it)" using arg_cong [OF w, of "\<lambda>s. it_nbytes (heap s it)"] by simp
  then show "it_len (heap w' it) = it_len (heap w it)" by (simp add: it_len_def)
qed (use assms in \<open>simp_all add: bytes_moved_def\<close>)


lemma bytes_moved_refl:
  "ritem c = in_item it k \<Longrightarrow> bytes_moved it k 0 c w n c w n"
  by (cases c; cases w; cases n) (simp add: bytes_moved_def)

lemma bytes_moved_trans:
  assumes a: "bytes_moved it k j c w n c1 w1 n1" and b: "bytes_moved it (k + j) i c1 w1 n1 c2 w2 n2"
  shows "bytes_moved it k (j + i) c w n c2 w2 n2"
proof -
  have "data_read 0 (k + (j + i)) (it_data (heap w2 it)) = data_read 0 k (it_data (heap w it)) @ take (j + i) (input c n)"
    using bytes_movedD(5,6) [OF a] bytes_movedD(6) [OF b] by (simp add: take_add add.assoc)
  moreover have "input c2 n2 = drop (j + i) (input c n)" using bytes_movedD(5) [OF a] bytes_movedD(5) [OF b] by (simp add: add.commute)
  moreover have "c2 = c\<lparr>rcurr := rcurr c2, rbytes := rbytes c2, ritem := in_item it (k + (j + i)), rlbytes := rlbytes c - int (j + i)\<rparr>"
    using a b unfolding bytes_moved_def by (cases c; cases c1; cases c2) (simp add: add.assoc)
  moreover have "w2 = w\<lparr>heap := (heap w)(it := (heap w it)\<lparr>it_data := it_data (heap w2 it)\<rparr>), my_stats := my_stats w2\<rparr>"
  proof -
    have w1: "w1 = w\<lparr>heap := (heap w)(it := (heap w it)\<lparr>it_data := it_data (heap w1 it)\<rparr>), my_stats := my_stats w1\<rparr>"
      and w2: "w2 = w1\<lparr>heap := (heap w1)(it := (heap w1 it)\<lparr>it_data := it_data (heap w2 it)\<rparr>), my_stats := my_stats w2\<rparr>"
      using a b by (simp_all add: bytes_moved_def)
    have "(heap w1)(it := (heap w1 it)\<lparr>it_data := d\<rparr>) = (heap w)(it := (heap w it)\<lparr>it_data := d\<rparr>)" for d
      by (subst (1 2) w1) simp
    moreover have "w1\<lparr>heap := h, my_stats := t\<rparr> = w\<lparr>heap := h, my_stats := t\<rparr>" for h t by (subst w1) simp
    ultimately show ?thesis using w2 by simp
  qed
  moreover have "n2 = n\<lparr>reads := reads n2\<rparr>" using a b unfolding bytes_moved_def by (cases n; cases n1; cases n2) simp
  ultimately show ?thesis unfolding bytes_moved_def by blast
qed

lemma store_bytes_item:
  assumes "ritem c = in_item it k" "int (k + length bs) \<le> it_len (heap w it)"
  shows "store_bytes bs c w = Some (c\<lparr>ritem := in_item it (k + length bs), rlbytes := rlbytes c - int (length bs)\<rparr>,
    upd_item it (\<lambda>i. i\<lparr>it_data := data_write k bs (it_data i)\<rparr>) w)"
  using assms by (simp add: store_bytes_def)


lemma nread_leftover_moves:
  assumes r: "ritem c = in_item it k" "rlbytes c = int m" and len: "int (k + m) \<le> it_len (heap w it)"
  shows "\<exists>c1 w1. nread_leftover c w = Some (c1, w1) \<and> bytes_moved it k (min (rbytes c) m) c w n c1 w1 n \<and>
    rbytes c1 = rbytes c - min (rbytes c) m"
proof (cases "rbytes c = 0")
  case True
  then show ?thesis using bytes_moved_refl [OF r(1)] by (simp add: nread_leftover_def)
next
  case False
  let ?j = "min (rbytes c) m" and ?bs = "get_bytes (rbuf c) (rcurr c) (min (rbytes c) m)"
  have s: "store_bytes ?bs c w = Some (c\<lparr>ritem := in_item it (k + ?j), rlbytes := rlbytes c - int ?j\<rparr>,
      upd_item it (\<lambda>i. i\<lparr>it_data := data_write k ?bs (it_data i)\<rparr>) w)"
    using store_bytes_item [OF r(1), of ?bs w] len by simp
  have i: "take ?j (input c n) = ?bs" "drop ?j (input c n) = get_bytes (rbuf c) (rcurr c + ?j) (rbytes c - ?j) @ net_bytes (reads n)"
    by (simp_all add: input_def take_get_bytes drop_get_bytes)
  let ?c = "c\<lparr>ritem := in_item it (k + ?j), rlbytes := rlbytes c - int ?j, rcurr := rcurr c + ?j, rbytes := rbytes c - ?j\<rparr>"
  let ?w = "upd_item it (\<lambda>i. i\<lparr>it_data := data_write k ?bs (it_data i)\<rparr>) w"
  have "nread_leftover c w = Some (?c, ?w)" using False s r(2) by (simp add: nread_leftover_def Let_def)
  moreover have "bytes_moved it k ?j c w n ?c ?w n"
    using data_read_write [of k ?bs] i by (simp add: bytes_moved_def upd_item_def input_def)
  ultimately show ?thesis by (intro exI [of _ ?c] exI [of _ ?w]) simp
qed

lemma nread_read_moves:
  assumes r: "ritem c = in_item it k" "rlbytes c = int m" "0 < m" and len: "int (k + m) \<le> it_len (heap w it)"
    and empty: "rbytes c = 0" and net: "reads n = map Rd_data ds" "[] \<notin> set ds" "concat ds \<noteq> []"
  shows "\<exists>bs c2 w2 n2 ds'. net_read (rlbytes c) n = Some (Rd_data bs, n2) \<and>
    store_bytes bs c (count_read (length bs) w) = Some (c2, w2) \<and>
    bytes_moved it k (length bs) c w n c2 w2 n2 \<and> 0 < length bs \<and> length bs \<le> m \<and> reads n2 = map Rd_data ds' \<and> [] \<notin> set ds'"
proof -
  obtain bs ds' where b: "net_read (int m) n = Some (Rd_data bs, n\<lparr>reads := map Rd_data ds'\<rparr>)" "bs \<noteq> []" "length bs \<le> m"
      "bs @ concat ds' = concat ds" "[] \<notin> set ds'"
    using net_read_data [OF net r(3)] by blast
  have l: "int (k + length bs) \<le> it_len (heap (count_read (length bs) w) it)" using len b(3) by (simp add: count_read_def)
  have i: "take (length bs) (input c n) = bs" "drop (length bs) (input c n) = concat ds'"
    using b(4) empty net(1) by (simp_all add: input_def flip: b(4))
  note s = store_bytes_item [OF r(1) l]
  have "bytes_moved it k (length bs) c w n (c\<lparr>ritem := in_item it (k + length bs), rlbytes := rlbytes c - int (length bs)\<rparr>)
      (upd_item it (\<lambda>i. i\<lparr>it_data := data_write k bs (it_data i)\<rparr>) (count_read (length bs) w)) (n\<lparr>reads := map Rd_data ds'\<rparr>)"
    using i data_read_write [of k bs] empty
    by (simp add: bytes_moved_def upd_item_def count_read_def my_count_def input_def)
  then show ?thesis using b s r(2) by force
qed

lemma nread_step:
  assumes c: "cstate c = conn_nread" "ritem c = in_item it k" "rlbytes c = int m" "0 < m"
    and len: "int (k + m) \<le> it_len (heap w it)"
    and net: "reads n = map Rd_data ds" "[] \<notin> set ds" "m \<le> length (input c n)"
  shows "\<exists>j c' w' n' ds'. drive_step ce (nr, c, w, n) = Some (False, nr, c', w', n') \<and> 0 < j \<and> j \<le> m \<and>
    bytes_moved it k j c w n c' w' n' \<and> reads n' = map Rd_data ds' \<and> [] \<notin> set ds'"
proof -
  let ?j = "min (rbytes c) m"
  obtain c1 w1 where l: "nread_leftover c w = Some (c1, w1)" "bytes_moved it k ?j c w n c1 w1 n" "rbytes c1 = rbytes c - ?j"
    using nread_leftover_moves [OF c(2,3) len] by blast
  note f = bytes_movedD [OF l(2)]
  show ?thesis
  proof (cases "m \<le> rbytes c")
    case True
    then have j: "?j = m" by simp
    show ?thesis
      using l(1) l(2) [unfolded j] f(2) [unfolded j] c net(1,2) by (intro exI [of _ m]) (auto simp: drive_step_def step_nread_def)
  next
    case False
    then have m': "rlbytes c1 = int (m - ?j)" "0 < m - ?j" "rbytes c1 = 0" using f(2) c(3) l(3) by (simp_all add: of_nat_diff)
    have len': "int (k + ?j + (m - ?j)) \<le> it_len (heap w1 it)" using len f(4) by simp
    have "length (input c n) = rbytes c + length (concat ds)" using net(1) by (simp add: input_def)
    then have "0 < length (concat ds)" using net(3) False by linarith
    then have "concat ds \<noteq> []" by (rule length_greater_0_conv [THEN iffD1])
    then obtain bs c2 w2 n2 ds' where b: "net_read (rlbytes c1) n = Some (Rd_data bs, n2)"
        "store_bytes bs c1 (count_read (length bs) w1) = Some (c2, w2)" "bytes_moved it (k + ?j) (length bs) c1 w1 n c2 w2 n2"
        "0 < length bs" "length bs \<le> m - ?j" "reads n2 = map Rd_data ds'" "[] \<notin> set ds'"
      using nread_read_moves [OF f(1) m'(1,2) len' m'(3) net(1,2)] by blast
    have "drive_step ce (nr, c, w, n) = Some (False, nr, c2, w2, n2)"
      using c l b m' f(1) by (simp add: drive_step_def step_nread_def)
    then show ?thesis
      using bytes_moved_trans [OF l(2) b(3)] b(4-7) m'(2) by (intro exI [of _ "?j + length bs"]) auto
  qed
qed

lemma nread_loop:
  "m \<le> b \<Longrightarrow> cstate c = conn_nread \<Longrightarrow> ritem c = in_item it k \<Longrightarrow> rlbytes c = int m \<Longrightarrow>
   int (k + m) \<le> it_len (heap w it) \<Longrightarrow> reads n = map Rd_data ds \<Longrightarrow> [] \<notin> set ds \<Longrightarrow> m \<le> length (input c n) \<Longrightarrow>
   \<exists>j c' w' n'. drive_loop env (nr, c, w, n) = drive_loop (\<lambda>i. env (i + j)) (nr, c', w', n') \<and> bytes_moved it k m c w n c' w' n'"
proof (induction b arbitrary: m k c w n ds env)
  case 0
  then show ?case
    using bytes_moved_refl [OF 0(3)] by (intro exI [of _ 0] exI [of _ c] exI [of _ w] exI [of _ n]) simp
next
  case (Suc b)
  show ?case
  proof (cases "m = 0")
    case True
    then show ?thesis
      using bytes_moved_refl [OF Suc.prems(3)] by (intro exI [of _ 0] exI [of _ c] exI [of _ w] exI [of _ n]) simp
  next
    case False
    then obtain j c1 w1 n1 ds' where s: "drive_step (env 0) (nr, c, w, n) = Some (False, nr, c1, w1, n1)" "0 < j" "j \<le> m"
        "bytes_moved it k j c w n c1 w1 n1" "reads n1 = map Rd_data ds'" "[] \<notin> set ds'"
      using nread_step [OF Suc.prems(2-4) _ Suc.prems(5-8)] by blast
    note f = bytes_movedD [OF s(4)]
    have p: "m - j \<le> b" "cstate c1 = conn_nread" "rlbytes c1 = int (m - j)" "int (k + j + (m - j)) \<le> it_len (heap w1 it)"
        "m - j \<le> length (input c1 n1)"
      using s(2,3) f Suc.prems by (simp_all add: of_nat_diff)
    obtain i c2 w2 n2 where r: "drive_loop (\<lambda>i. env (i + 1)) (nr, c1, w1, n1) = drive_loop (\<lambda>i'. env (i' + i + 1)) (nr, c2, w2, n2)"
        "bytes_moved it (k + j) (m - j) c1 w1 n1 c2 w2 n2"
      using Suc.IH [OF p(1,2) f(1) p(3,4) s(5,6) p(5), of "\<lambda>i. env (i + 1)"] by auto
    have "drive_loop env (nr, c, w, n) = drive_loop (\<lambda>i'. env (i' + (i + 1))) (nr, c2, w2, n2)"
      using s(1) r(1) by (subst drive_loop.simps) (simp add: add.assoc)
    moreover have "bytes_moved it k m c w n c2 w2 n2" using bytes_moved_trans [OF s(4) r(2)] s(3) by simp
    ultimately show ?thesis by blast
  qed
qed


text \<open>C99: The value of a stored item is read from the input byte for byte, however the network splits it: in state
  \<open>conn_nread\<close> the state machine stores exactly the next \<open>rlbytes\<close> bytes of the input behind what is there, in as
  many reads as it takes, changes nothing else in memory, and leaves the rest of the input to the next command.\<close>

theorem value_is_read:
  assumes "cstate c = conn_nread" "ritem c = in_item it k" "rlbytes c = int m" "int (k + m) \<le> it_len (heap w it)"
    and "reads n = map Rd_data ds" "[] \<notin> set ds" "m \<le> length (input c n)"
  shows "\<exists>j c' w' n'. drive_loop env (nreqs, c, w, n) = drive_loop (\<lambda>i. env (i + j)) (nreqs, c', w', n') \<and>
    cstate c' = conn_nread \<and> rlbytes c' = 0 \<and> input c' n' = drop m (input c n) \<and>
    data_read 0 (k + m) (it_data (heap w' it)) = data_read 0 k (it_data (heap w it)) @ take m (input c n) \<and>
    w' = w\<lparr>heap := (heap w)(it := (heap w it)\<lparr>it_data := it_data (heap w' it)\<rparr>), my_stats := my_stats w'\<rparr>"
proof -
  obtain j c' w' n' where l: "drive_loop env (nreqs, c, w, n) = drive_loop (\<lambda>i. env (i + j)) (nreqs, c', w', n')"
      "bytes_moved it k m c w n c' w' n'"
    using nread_loop [OF order_refl assms, of env nreqs] by blast
  then show ?thesis using bytes_movedD [OF l(2)] assms(1,3) unfolding bytes_moved_def by (intro exI conjI) (assumption | simp)+
qed

text \<open>A connection that has the first two of five bytes in its buffer.\<close>

definition example_reading :: conn where
  "example_reading = (fresh_conn 2048 8)\<lparr>cstate := conn_nread, ritem := in_item 64 0, rlbytes := 4,
     rbuf := put_bytes 0 [55, 56] (\<lambda>_. 0), rbytes := 2\<rparr>"

definition example_input :: net where
  "example_input = example_net\<lparr>reads := [Rd_data [13], Rd_data [10, 113]]\<rparr>"

theorem value_is_read_witness:
  "\<forall>env nreqs. \<exists>j c' w' n'. drive_loop env (nreqs, example_reading, example_worker, example_input) =
      drive_loop (\<lambda>i. env (i + j)) (nreqs, c', w', n') \<and>
    rlbytes c' = 0 \<and> input c' n' = [113] \<and> data_read 0 4 (it_data (heap w' 64)) = [55, 56, 13, 10]"
proof (intro allI)
  fix env nreqs
  have i: "input example_reading example_input = [55, 56, 13, 10, 113]"
    by (simp add: input_def example_reading_def example_input_def fresh_conn_def get_bytes_def put_bytes_def upt_rec)
  have "it_len (heap example_worker 64) = 4"
    by (simp add: example_worker_def worker_boot_fields value_item_len)
  then show "\<exists>j c' w' n'. drive_loop env (nreqs, example_reading, example_worker, example_input) =
      drive_loop (\<lambda>i. env (i + j)) (nreqs, c', w', n') \<and>
    rlbytes c' = 0 \<and> input c' n' = [113] \<and> data_read 0 4 (it_data (heap w' 64)) = [55, 56, 13, 10]"
    using value_is_read [of example_reading 64 0 4 example_worker example_input "[[13], [10, 113]]" env nreqs] i
    by (auto simp: example_reading_def example_input_def data_read_def)
qed

section \<open>Reading from the network\<close>

text \<open>Queueing output leaves the input side of a connection alone.\<close>

lemma more_rbytes: "msg_buf.more c' = msg_buf.more c \<Longrightarrow> rbytes c' = rbytes c"
  by (cases c; cases c') simp

lemma realloc_result_more: "realloc_result c = (ok, c1) \<Longrightarrow> msg_buf.more c1 = msg_buf.more c"
  by (auto simp: realloc_result_def split: list.splits if_splits)

lemma start_msghdr_more: "start_msghdr c = (ok, c1) \<Longrightarrow> msg_buf.more c1 = msg_buf.more c"
  by (auto simp: start_msghdr_def split: if_splits prod.splits dest!: realloc_result_more)

lemma iov_put_more: "iov_put limit buf len c = Some (r, c1) \<Longrightarrow> msg_buf.more c1 = msg_buf.more c"
  by (auto simp: iov_put_def ensure_iov_space_def Let_def bind_eq_Some_conv split: if_splits prod.splits dest!: realloc_result_more)

definition keeps_more :: "('a msg_buf_scheme \<Rightarrow> 'a msg_buf_scheme option) \<Rightarrow> bool" where
  "keeps_more f \<longleftrightarrow> (\<forall>c c1. f c = Some c1 \<longrightarrow> msg_buf.more c1 = msg_buf.more c)"

lemma iov_step_more: "iov_step addhdr buf len c = Some (r, c1) \<Longrightarrow> keeps_more addhdr \<Longrightarrow> msg_buf.more c1 = msg_buf.more c"
  by (auto simp: iov_step_def keeps_more_def Let_def bind_eq_Some_conv split: if_splits dest!: iov_put_more)

lemma iov_loop_more: "iov_loop addhdr buf len c = Some y \<Longrightarrow> keeps_more addhdr \<longrightarrow> msg_buf.more (snd y) = msg_buf.more c"
proof (rule iov_loop.raw_induct
    [of "\<lambda>addhdr buf len c y. keeps_more addhdr \<longrightarrow> msg_buf.more (snd y) = msg_buf.more c", rotated])
  fix rec addhdr buf len and c :: "'a msg_buf_scheme" and y
  assume IH: "\<And>addhdr buf len (c :: 'a msg_buf_scheme) y. rec addhdr buf len c = Some y \<Longrightarrow>
      keeps_more addhdr \<longrightarrow> msg_buf.more (snd y) = msg_buf.more c"
    and body: "iov_step addhdr buf len c \<bind> (\<lambda>(r, c1). case r of None \<Rightarrow> Some (- 1, c1)
        | Some leftover \<Rightarrow> if 0 < leftover then rec addhdr (buf + nat (len - leftover)) leftover c1 else Some (0, c1)) = Some y"
  show "keeps_more addhdr \<longrightarrow> msg_buf.more (snd y) = msg_buf.more c"
  proof
    assume h: "keeps_more addhdr"
    from body obtain r c1 where s: "iov_step addhdr buf len c = Some (r, c1)"
      and t: "(case r of None \<Rightarrow> Some (- 1, c1) | Some leftover \<Rightarrow>
         if 0 < leftover then rec addhdr (buf + nat (len - leftover)) leftover c1 else Some (0, c1)) = Some y"
      by (auto simp: bind_eq_Some_conv)
    note m = iov_step_more [OF s h]
    show "msg_buf.more (snd y) = msg_buf.more c"
    proof (cases "\<exists>left. r = Some left \<and> 0 < left")
      case True
      then obtain left where "rec addhdr (buf + nat (len - left)) left c1 = Some y" using t by auto
      then show ?thesis using IH h m by metis
    next
      case False
      then have "snd y = c1" using t by (cases r) auto
      then show ?thesis using m by simp
    qed
  qed
qed

lemma add_msghdr_more: "add_msghdr c = Some (r, c1) \<Longrightarrow> msg_buf.more c1 = msg_buf.more c"
  using iov_loop_more [of "\<lambda>_. None" NULL UDP_HEADER_SIZE "snd (start_msghdr c)" "(r, c1)"]
  by (auto simp: add_msghdr_def keeps_more_def split: if_splits prod.splits dest: start_msghdr_more)

lemma add_iov_more: "add_iov buf len c = Some (r, c1) \<Longrightarrow> msg_buf.more c1 = msg_buf.more c"
  using iov_loop_more [of "\<lambda>c. map_option snd (add_msghdr c)" buf len c "(r, c1)"] add_msghdr_more
  by (auto simp: add_iov_def keeps_more_def)

lemma clear_reply_rbytes: "rbytes (clear_reply c) = rbytes c"
  by (simp add: clear_reply_def)

lemma out_string_rbytes:
  assumes "out_string t c = Some c'"
  shows "rbytes c' = rbytes c"
proof (cases "noreply c")
  case True
  then show ?thesis using assms by (auto simp: out_string_def conn_set_state_Some)
next
  case False
  then obtain r c1 where h: "add_msghdr (clear_reply c) = Some (r, c1)"
    using assms by (cases "add_msghdr (clear_reply c)") (auto simp: out_string_def)
  then have "rbytes c' = rbytes c1" using assms False by (auto simp: out_string_def Let_def conn_set_state_Some)
  then show ?thesis using more_rbytes [OF add_msghdr_more [OF h]] by (simp add: clear_reply_rbytes)
qed

lemma add_bin_header_rbytes:
  assumes "add_bin_header e hl kl bl c = Some c'"
  shows "rbytes c' = rbytes c"
proof -
  obtain r c1 where h: "add_msghdr (clear_reply c) = Some (r, c1)"
    using assms unfolding add_bin_header_def by (auto simp only: bind_eq_Some_conv)
  let ?c = "c1\<lparr>wbuf := put_bytes 0 (bin_response_header c1 e hl kl bl) (wbuf c1)\<rparr>"
  obtain q where i: "add_iov (wbuf_addr ?c) (int BIN_HEADER_SIZE) ?c = Some (q, c')"
    using assms h by (auto simp: add_bin_header_def Let_def bind_eq_Some_conv)
  show ?thesis
    using more_rbytes [OF add_msghdr_more [OF h]] more_rbytes [OF add_iov_more [OF i]] by (simp add: clear_reply_rbytes)
qed

lemma write_bin_error_rbytes:
  assumes "write_bin_error lit err errstr swallow c = Some c'"
  shows "rbytes c' = rbytes c"
proof -
  obtain t where t: "(case errstr of None \<Rightarrow> bin_error_text err | Some t \<Rightarrow> Some t) = Some t"
    using assms unfolding write_bin_error_def by (auto simp only: bind_eq_Some_conv)
  obtain c1 where h: "add_bin_header (status_code err) 0 0 (of_nat (length t)) c = Some c1"
    using assms unfolding write_bin_error_def t bind.bind_lunit by (auto simp only: bind_eq_Some_conv)
  obtain q c2 where i: "(if length t > 0 then add_iov (lit t) (int (length t)) c1 else Some (0, c1)) = Some (q, c2)"
    using assms unfolding write_bin_error_def t h bind.bind_lunit by (auto simp only: bind_eq_Some_conv)
  have "rbytes c' = rbytes c2"
    using assms unfolding write_bin_error_def t h i bind.bind_lunit prod.case by (auto simp: conn_set_state_Some split: if_splits)
  moreover have "rbytes c2 = rbytes c1"
    using i more_rbytes [OF add_iov_more, of "lit t" "int (length t)" c1 q c2] by (cases t) auto
  ultimately show ?thesis using add_bin_header_rbytes [OF h] by simp
qed

lemma out_of_memory_rbytes: "out_of_memory lit t c = Some c' \<Longrightarrow> rbytes c' = rbytes c"
  using out_string_rbytes write_bin_error_rbytes unfolding out_of_memory_def by (metis (no_types))

text \<open>What a call of \<open>try_read_network\<close> does with a buffer that starts with its input and is enlarged at most \<open>k\<close> times.\<close>

definition packed :: "conn \<Rightarrow> bool" where
  "packed c \<longleftrightarrow> rcurr c = 0 \<and> rbytes c \<le> rsize c \<and> 0 < rsize c"

definition read_done :: "nat \<Rightarrow> try_read_result \<Rightarrow> conn \<Rightarrow> net \<Rightarrow> try_read_result \<Rightarrow> conn \<Rightarrow> net \<Rightarrow> bool" where
  "read_done k gotdata c n r c' n' \<longleftrightarrow> (\<exists>j. net_bytes (reads n') = drop j (net_bytes (reads n))) \<and>
    (if r = READ_MEMORY_ERROR then rbytes c' = 0 \<and> write_and_go c' = conn_closing
     else input c' n' = input c n \<and> packed c' \<and> rsize c' \<le> 2 ^ k * rsize c \<and> rbytes c \<le> rbytes c' \<and>
          (r = READ_DATA_RECEIVED \<longrightarrow> gotdata = READ_DATA_RECEIVED \<or> rbytes c < rbytes c') \<and>
          (r = READ_NO_DATA_RECEIVED \<longrightarrow> rbytes c' = rbytes c))"

lemma read_done_trans:
  assumes "read_done k READ_DATA_RECEIVED c1 n1 r c' n'" "input c1 n1 = input c n" "rsize c1 \<le> 2 ^ j * rsize c" "rbytes c < rbytes c1"
    "r \<noteq> READ_NO_DATA_RECEIVED" "net_bytes (reads n1) = drop i (net_bytes (reads n))"
  shows "read_done (j + k) g c n r c' n'"
proof -
  have "\<exists>j. net_bytes (reads n') = drop j (net_bytes (reads n))"
    using assms(1,6) by (auto simp: read_done_def)
  moreover
  have "2 ^ k * rsize c1 \<le> 2 ^ (j + k) * rsize c" using mult_le_mono2 [OF assms(3), of "2 ^ k"] by (simp add: power_add mult_ac)
  ultimately show ?thesis using assms(1,2,4,5) by (auto simp: read_done_def)
qed

lemma net_read_input:
  assumes "net_read len n = Some (r, n1)"
  shows "(case r of Rd_data bs \<Rightarrow> bs \<noteq> [] \<and> int (length bs) \<le> len \<and> bs @ net_bytes (reads n1) = net_bytes (reads n)
     | _ \<Rightarrow> net_bytes (reads n1) = net_bytes (reads n))"
proof (cases "reads n")
  case Nil
  then show ?thesis using assms by (auto simp: net_read_def c_assert_def bind_eq_Some_conv split: if_splits)
next
  case (Cons a rs)
  show ?thesis
  proof (cases a)
    case (Rd_data bs)
    then have "0 < len" "bs \<noteq> []" "r = Rd_data (take (nat len) bs)"
      "n1 = n\<lparr>reads := if drop (nat len) bs = [] then rs else Rd_data (drop (nat len) bs) # rs\<rparr>"
      using assms Cons by (auto simp: net_read_def c_assert_def bind_eq_Some_conv Let_def split: if_splits)
    then show ?thesis using Cons Rd_data by auto
  qed (use assms Cons in \<open>auto simp: net_read_def c_assert_def bind_eq_Some_conv split: if_splits\<close>)
qed


lemma put_behind:
  assumes "packed c" "int (length bs) \<le> int (rsize c) - int (rbytes c)" "bs @ net_bytes (reads n1) = net_bytes (reads n)"
  shows "input (c\<lparr>rbuf := put_bytes (rbytes c) bs (rbuf c), rbytes := rbytes c + length bs\<rparr>) n1 = input c n"
    "packed (c\<lparr>rbuf := put_bytes (rbytes c) bs (rbuf c), rbytes := rbytes c + length bs\<rparr>)"
proof -
  have "get_bytes (put_bytes (rbytes c) bs (rbuf c)) 0 (rbytes c + length bs) = get_bytes (rbuf c) 0 (rbytes c) @ bs"
    using get_bytes_append [of _ 0 "rbytes c" "length bs"] get_put_bytes by (simp add: get_put_other)
  then show "input (c\<lparr>rbuf := put_bytes (rbytes c) bs (rbuf c), rbytes := rbytes c + length bs\<rparr>) n1 = input c n"
    using assms by (simp add: input_def packed_def)
  show "packed (c\<lparr>rbuf := put_bytes (rbytes c) bs (rbuf c), rbytes := rbytes c + length bs\<rparr>)"
    using assms by (simp add: packed_def)
qed

lemma read_once_done:
  assumes cont: "\<And>c1 w1 n1. cont c1 w1 n1 = Some (r, c', w', n') \<Longrightarrow> packed c1 \<Longrightarrow>
      read_done k READ_DATA_RECEIVED c1 n1 r c' n' \<and> r \<noteq> READ_NO_DATA_RECEIVED"
    and ok: "packed c" and g: "gotdata \<noteq> READ_MEMORY_ERROR" and r: "read_once cont gotdata c w n = Some (r, c', w', n')"
  shows "read_done k gotdata c n r c' n' \<and> (gotdata = READ_DATA_RECEIVED \<longrightarrow> r \<noteq> READ_NO_DATA_RECEIVED)"
proof -
  obtain x n1 where x: "net_read (int (rsize c) - int (rbytes c)) n = Some (x, n1)"
    using r by (fastforce simp: read_once_def Let_def bind_eq_Some_conv)
  note nb = net_read_input [OF x]
  note r' = r [unfolded read_once_def Let_def x bind.bind_lunit prod.case]
  show ?thesis
  proof (cases x)
    case (Rd_data bs)
    let ?c = "c\<lparr>rbuf := put_bytes (rbytes c) bs (rbuf c), rbytes := rbytes c + length bs\<rparr>"
    have p: "input ?c n1 = input c n" "packed ?c" using put_behind [OF ok, of bs n1 n] nb Rd_data by simp_all
    have l: "0 < length bs" using nb Rd_data by simp
    have dr: "net_bytes (reads n1) = drop (length bs) (net_bytes (reads n))"
    proof -
      have "net_bytes (reads n) = bs @ net_bytes (reads n1)" using nb Rd_data by simp
      then show ?thesis by simp
    qed
    show ?thesis
    proof (cases "int (length bs) = int (rsize c) - int (rbytes c)")
      case True
      then have "cont ?c (count_read (length bs) w) n1 = Some (r, c', w', n')" using r' Rd_data by simp
      then show ?thesis using cont [OF _ p(2)] read_done_trans [of k ?c n1 r c' n' c n 0 "length bs" gotdata] p(1) l dr by simp
    next
      case False
      then have e: "r = READ_DATA_RECEIVED" "c' = ?c" "n' = n1" using r' Rd_data by auto
      have "rsize c \<le> 2 ^ k * rsize c" by simp
      then show ?thesis using e p l dr by (auto simp: read_done_def)
    qed
  next
    case Rd_again
    then show ?thesis using r' nb ok g
      by (cases gotdata) (auto simp: read_done_def input_def intro: exI [of _ 0])
  qed (use r' nb ok in \<open>auto simp: read_done_def input_def intro: exI [of _ 0]\<close>)
qed

lemma read_full_done:
  "read_full k gotdata c w n = Some (r, c', w', n') \<Longrightarrow> packed c \<Longrightarrow> gotdata \<noteq> READ_MEMORY_ERROR \<Longrightarrow>
   read_done k gotdata c n r c' n' \<and> (gotdata = READ_DATA_RECEIVED \<longrightarrow> r \<noteq> READ_NO_DATA_RECEIVED)"
proof (induction k arbitrary: gotdata c w n)
  case 0
  then show ?case by (cases gotdata) (auto simp: read_done_def intro: exI [of _ 0])
next
  case (Suc k)
  obtain ok c1 where c1: "realloc_result c = (ok, c1)" by (cases "realloc_result c") auto
  have f: "rbuf c1 = rbuf c" "rbytes c1 = rbytes c" "rsize c1 = rsize c" "rcurr c1 = rcurr c"
    using c1 by (auto simp: realloc_result_def split: list.splits if_splits)
  show ?case
  proof (cases ok)
    case False
    then show ?thesis using Suc.prems c1
      by (auto simp: read_done_def bind_eq_Some_conv dest!: out_of_memory_rbytes intro: exI [of _ 0])
  next
    case True
    let ?c = "c1\<lparr>rcurr := 0, rsize := rsize c1 * 2\<rparr>"
    have r: "read_once (read_full k READ_DATA_RECEIVED) gotdata ?c w n = Some (r, c', w', n')" using Suc.prems(1) c1 True by simp
    have p: "packed ?c" "input ?c n = input c n" "rsize ?c = 2 * rsize c" "rbytes ?c = rbytes c"
      using Suc.prems(2) f by (auto simp: packed_def input_def)
    have "read_done k gotdata ?c n r c' n' \<and> (gotdata = READ_DATA_RECEIVED \<longrightarrow> r \<noteq> READ_NO_DATA_RECEIVED)"
      by (rule read_once_done [OF _ p(1) Suc.prems(3) r]) (use Suc.IH [of READ_DATA_RECEIVED] in simp)
    then show ?thesis using p(2-4) by (auto simp: read_done_def mult_ac)
  qed
qed

lemma repack_input:
  assumes "rcurr c + rbytes c \<le> rsize c" "0 < rsize c"
  shows "packed (repack_rbuf c)" "input (repack_rbuf c) n = input c n" "rbytes (repack_rbuf c) = rbytes c" "rsize (repack_rbuf c) = rsize c"
  using assms get_put_bytes [of 0 "get_bytes (rbuf c) (rcurr c) (rbytes c)" "rbuf c"]
  by (auto simp: repack_rbuf_def packed_def input_def)

text \<open>C99: Reading from a TCP connection loses and reorders nothing as long as the buffer can be enlarged: after
  \<open>try_read_network\<close> the buffer followed by what the network still has is the input as it was before. The buffer then
  starts with the input, holds it, and grew at most by a factor of 16; \<open>READ_DATA_RECEIVED\<close> means that there is something
  to parse. When memory is short (\<open>READ_MEMORY_ERROR\<close>) the input in the buffer is dropped, with what this call had read,
  and the connection is to be closed after the error message.\<close>

theorem input_is_kept:
  assumes "rcurr c + rbytes c \<le> rsize c" "0 < rsize c" and r: "try_read_network c w n = Some (r, c', w', n')"
  shows "(\<exists>j. net_bytes (reads n') = drop j (net_bytes (reads n))) \<and>
    (if r = READ_MEMORY_ERROR then rbytes c' = 0 \<and> write_and_go c' = conn_closing
     else input c' n' = input c n \<and> rcurr c' = 0 \<and> rbytes c' \<le> rsize c' \<and> rsize c' \<le> 16 * rsize c \<and>
      (r = READ_DATA_RECEIVED \<longrightarrow> rbytes c < rbytes c') \<and> (r = READ_NO_DATA_RECEIVED \<longrightarrow> rbytes c' = rbytes c))"
proof -
  note p = repack_input [OF assms(1,2)]
  have "read_done 4 READ_NO_DATA_RECEIVED (repack_rbuf c) n r c' n'"
  proof (cases "rbytes (repack_rbuf c) \<ge> rsize (repack_rbuf c)")
    case True
    then show ?thesis using read_full_done [OF _ p(1)] r by (simp add: try_read_network_def Let_def)
  next
    case False
    then have "read_once (read_full 4 READ_DATA_RECEIVED) READ_NO_DATA_RECEIVED (repack_rbuf c) w n = Some (r, c', w', n')"
      using r by (simp add: try_read_network_def Let_def)
    then show ?thesis using read_once_done [OF _ p(1)] read_full_done [of 4 READ_DATA_RECEIVED] by blast
  qed
  then show ?thesis using p by (auto simp: read_done_def packed_def)
qed

theorem input_is_kept_witness:
  "\<exists>c' w' n'. try_read_network example_reading example_worker example_input = Some (READ_DATA_RECEIVED, c', w', n') \<and>
     input c' n' = [55, 56, 13, 10, 113] \<and> rbytes c' = 3"
proof -
  obtain c' w' n' where t: "try_read_network example_reading example_worker example_input = Some (READ_DATA_RECEIVED, c', w', n')"
    and b: "rbytes c' = 3"
    by (simp add: try_read_network_def repack_rbuf_def read_once_def net_read_def example_reading_def example_input_def
        fresh_conn_def c_assert_def Let_def)
  have "input example_reading example_input = [55, 56, 13, 10, 113]"
    by (simp add: input_def example_reading_def example_input_def fresh_conn_def get_bytes_def put_bytes_def upt_rec)
  then show ?thesis
    using input_is_kept [OF _ _ t] t b by (simp add: example_reading_def fresh_conn_def)
qed

section \<open>Swallowing\<close>

lemma swallow_step:
  assumes c: "cstate c = conn_swallow" "sbytes c = int m" "0 < m" "0 < rsize c"
    and net: "reads n = map Rd_data ds" "[] \<notin> set ds" "m \<le> length (input c n)"
  shows "\<exists>j c' w' n' ds'. drive_step ce (nr, c, w, n) = Some (False, nr, c', w', n') \<and> 0 < j \<and> j \<le> m \<and>
    cstate c' = conn_swallow \<and> sbytes c' = int (m - j) \<and> rsize c' = rsize c \<and> input c' n' = drop j (input c n) \<and>
    w' = w\<lparr>my_stats := my_stats w'\<rparr> \<and> reads n' = map Rd_data ds' \<and> [] \<notin> set ds'"
proof (cases "rbytes c = 0")
  case False
  let ?j = "min (rbytes c) m"
  have j: "min (int (rbytes c)) (sbytes c) = int ?j" "nat (int (rcurr c) + int ?j) = rcurr c + ?j" "nat (int (rbytes c) - int ?j) = rbytes c - ?j"
    using c(2) by auto
  let ?c = "c\<lparr>sbytes := int m - int ?j, rcurr := rcurr c + ?j, rbytes := rbytes c - ?j\<rparr>"
  have "drive_step ce (nr, c, w, n) = Some (False, nr, ?c, w, n)"
    using c j False by (simp add: drive_step_def step_swallow_def Let_def)
  moreover have "input ?c n = drop ?j (input c n)" by (simp add: input_def drop_get_bytes)
  ultimately show ?thesis
    using c net(1,2) False by (intro exI [of _ ?j] exI [of _ ?c] exI [of _ w] exI [of _ n] exI [of _ ds]) (simp add: of_nat_diff)
next
  case True
  have "length (input c n) = length (concat ds)" using net(1) True by (simp add: input_def)
  then have "0 < length (concat ds)" using net(3) c(3) by linarith
  then have ne: "concat ds \<noteq> []" by (rule length_greater_0_conv [THEN iffD1])
  have q: "min (sbytes c) (int (rsize c)) = int (min m (rsize c))" "0 < min m (rsize c)" using c by auto
  obtain bs ds' where b: "net_read (int (min m (rsize c))) n = Some (Rd_data bs, n\<lparr>reads := map Rd_data ds'\<rparr>)" "bs \<noteq> []"
      "length bs \<le> min m (rsize c)" "bs @ concat ds' = concat ds" "[] \<notin> set ds'"
    using net_read_data [OF net(1,2) ne q(2)] by blast
  let ?c = "c\<lparr>rbuf := put_bytes 0 bs (rbuf c), sbytes := int m - int (length bs)\<rparr>"
  let ?n = "n\<lparr>reads := map Rd_data ds'\<rparr>"
  have "drive_step ce (nr, c, w, n) = Some (False, nr, ?c, count_read (length bs) w, ?n)"
    using c b(1) q True by (simp add: drive_step_def step_swallow_def)
  moreover have "input ?c ?n = drop (length bs) (input c n)" using net(1) True by (simp add: input_def flip: b(4))
  ultimately show ?thesis
    using c b
    by (intro exI [of _ "length bs"] exI [of _ ?c] exI [of _ "count_read (length bs) w"] exI [of _ ?n] exI [of _ ds'])
      (simp add: of_nat_diff count_read_def my_count_def)
qed

lemma swallow_loop:
  "m \<le> b \<Longrightarrow> cstate c = conn_swallow \<Longrightarrow> sbytes c = int m \<Longrightarrow> 0 < rsize c \<Longrightarrow> reads n = map Rd_data ds \<Longrightarrow> [] \<notin> set ds \<Longrightarrow>
   m \<le> length (input c n) \<Longrightarrow>
   \<exists>j c' w' n'. drive_loop env (nr, c, w, n) = drive_loop (\<lambda>i. env (i + j)) (nr, c', w', n') \<and> cstate c' = conn_new_cmd \<and>
     sbytes c' = 0 \<and> input c' n' = drop m (input c n) \<and> w' = w\<lparr>my_stats := my_stats w'\<rparr>"
proof (induction b arbitrary: m c w n ds env)
  case 0
  have "drive_loop env (nr, c, w, n) = drive_loop (\<lambda>i. env (i + 1)) (nr, c\<lparr>cstate := conn_new_cmd\<rparr>, w, n)"
    using 0 by (subst drive_loop.simps) (simp add: drive_step_def step_swallow_def go_on_def conn_set_state_Some)
  then show ?case
    using 0 by (intro exI [of _ 1] exI [of _ "c\<lparr>cstate := conn_new_cmd\<rparr>"] exI [of _ w] exI [of _ n]) (simp add: input_def)
next
  case (Suc b)
  show ?case
  proof (cases "m \<le> b")
    case True
    show ?thesis by (rule Suc.IH [OF True Suc.prems(2-7)])
  next
    case False
    then obtain j c1 w1 n1 ds' where s: "drive_step (env 0) (nr, c, w, n) = Some (False, nr, c1, w1, n1)" "0 < j" "j \<le> m"
        "cstate c1 = conn_swallow" "sbytes c1 = int (m - j)" "rsize c1 = rsize c" "input c1 n1 = drop j (input c n)"
        "w1 = w\<lparr>my_stats := my_stats w1\<rparr>" "reads n1 = map Rd_data ds'" "[] \<notin> set ds'"
      using swallow_step [OF Suc.prems(2,3) _ Suc.prems(4-7), of "env 0" nr w] by auto
    have p: "m - j \<le> b" "0 < rsize c1" "m - j \<le> length (input c1 n1)" using s Suc.prems by simp_all
    obtain i c2 w2 n2 where r: "drive_loop (\<lambda>i. env (i + 1)) (nr, c1, w1, n1) = drive_loop (\<lambda>i'. env (i' + i + 1)) (nr, c2, w2, n2)"
        "cstate c2 = conn_new_cmd" "sbytes c2 = 0" "input c2 n2 = drop (m - j) (input c1 n1)" "w2 = w1\<lparr>my_stats := my_stats w2\<rparr>"
      using Suc.IH [OF p(1) s(4,5) p(2) s(9,10) p(3), of "\<lambda>i. env (i + 1)" w1] by auto
    have "drive_loop env (nr, c, w, n) = drive_loop (\<lambda>i'. env (i' + (i + 1))) (nr, c2, w2, n2)"
      using s(1) r(1) by (subst drive_loop.simps) (simp add: add.assoc)
    moreover have "w2 = w\<lparr>my_stats := my_stats w2\<rparr>" using r(5) s(8) by (cases w; cases w1; cases w2) simp
    moreover have "input c2 n2 = drop m (input c n)" using r(4) s(3,7) by simp
    ultimately show ?thesis using r(2,3) by blast
  qed
qed

text \<open>C99: A value that is not stored is skipped exactly: in state \<open>conn_swallow\<close> the state machine drops the next
  \<open>sbytes\<close> bytes of the input, however they are split between the buffer and the network, and then waits for a command;
  the rest of the input and the cache stay as they are.\<close>

theorem value_is_skipped:
  assumes "cstate c = conn_swallow" "sbytes c = int m" "0 < rsize c"
    and "reads n = map Rd_data ds" "[] \<notin> set ds" "m \<le> length (input c n)"
  shows "\<exists>j c' w' n'. drive_loop env (nreqs, c, w, n) = drive_loop (\<lambda>i. env (i + j)) (nreqs, c', w', n') \<and>
    cstate c' = conn_new_cmd \<and> sbytes c' = 0 \<and> input c' n' = drop m (input c n) \<and> w' = w\<lparr>my_stats := my_stats w'\<rparr>"
  using swallow_loop [OF order_refl assms] .

theorem value_is_skipped_witness:
  "\<forall>env nreqs. \<exists>j c' w' n'. drive_loop env (nreqs, example_reading\<lparr>cstate := conn_swallow, sbytes := 4\<rparr>, example_worker, example_input) =
      drive_loop (\<lambda>i. env (i + j)) (nreqs, c', w', n') \<and> cstate c' = conn_new_cmd \<and> input c' n' = [113]"
proof (intro allI)
  fix env nreqs
  let ?c = "example_reading\<lparr>cstate := conn_swallow, sbytes := 4\<rparr>"
  have "input ?c example_input = [55, 56, 13, 10, 113]"
    by (simp add: input_def example_reading_def example_input_def fresh_conn_def get_bytes_def put_bytes_def upt_rec)
  then show "\<exists>j c' w' n'. drive_loop env (nreqs, ?c, example_worker, example_input) =
      drive_loop (\<lambda>i. env (i + j)) (nreqs, c', w', n') \<and> cstate c' = conn_new_cmd \<and> input c' n' = [113]"
    using value_is_skipped [of ?c 4 example_input "[[13], [10, 113]]" env nreqs example_worker]
    by (force simp: example_input_def example_reading_def fresh_conn_def)
qed

section \<open>Headers of the binary protocol\<close>

lemma of_be_simps:
  "of_be [] = 0" "of_be (bs @ [b]) = push_bit 8 (of_be bs) OR ucast b"
  by (simp_all add: of_be_def)

lemma of_be_bit:
  "bit (of_be bs :: 'a::len word) n \<longleftrightarrow> n < LENGTH('a) \<and> n div 8 < length bs \<and> bit (rev bs ! (n div 8)) (n mod 8)"
proof (induction bs arbitrary: n rule: rev_induct)
  case (snoc b bs)
  show ?case
  proof (cases "n < 8")
    case True
    then show ?thesis by (auto simp: of_be_simps bit_simps)
  next
    case False
    then have q: "n div 8 = Suc ((n - 8) div 8)" "n mod 8 = (n - 8) mod 8" by (simp_all add: le_div_geq le_mod_geq)
    have "\<not> bit b n" using False bit_imp_le_length [of b n] by auto
    then have "bit (of_be (bs @ [b]) :: 'a word) n \<longleftrightarrow> n < LENGTH('a) \<and> bit (of_be bs :: 'a word) (n - 8)"
      using False by (simp add: of_be_simps bit_or_iff bit_push_bit_iff bit_ucast_iff not_less)
    then show ?thesis using snoc.IH [of "n - 8"] unfolding q by auto
  qed
qed (simp add: of_be_simps)

lemma length_be: "length (be16 a) = 2" "length (be32 b) = 4" "length (be64 d) = 8"
  by (simp_all add: be16_def be32_def be64_def)

lemma be_bits:
  "i < 2 \<Longrightarrow> bit (rev (be16 a) ! i) k \<longleftrightarrow> k < 8 \<and> bit a (8 * i + k)"
  "i < 4 \<Longrightarrow> bit (rev (be32 b) ! i) k \<longleftrightarrow> k < 8 \<and> bit b (8 * i + k)"
  "i < 8 \<Longrightarrow> bit (rev (be64 d) ! i) k \<longleftrightarrow> k < 8 \<and> bit d (8 * i + k)"
proof -
  assume "i < 2"
  then have "i = 0 \<or> i = 1" by arith
  then show "bit (rev (be16 a) ! i) k \<longleftrightarrow> k < 8 \<and> bit a (8 * i + k)" by (auto simp: be16_def bit_simps)
next
  assume "i < 4"
  then have "i = 0 \<or> i = 1 \<or> i = 2 \<or> i = 3" by arith
  then show "bit (rev (be32 b) ! i) k \<longleftrightarrow> k < 8 \<and> bit b (8 * i + k)" by (auto simp: be32_def bit_simps)
next
  assume "i < 8"
  then have "i = 0 \<or> i = 1 \<or> i = 2 \<or> i = 3 \<or> i = 4 \<or> i = 5 \<or> i = 6 \<or> i = 7" by arith
  then show "bit (rev (be64 d) ! i) k \<longleftrightarrow> k < 8 \<and> bit d (8 * i + k)" by (auto simp: be64_def be32_def bit_simps)
qed

lemma of_be_eqI:
  fixes a :: "'a::len word"
  assumes "LENGTH('a) = 8 * length bs" "\<And>i k. i < length bs \<Longrightarrow> bit (rev bs ! i) k \<longleftrightarrow> k < 8 \<and> bit a (8 * i + k)"
  shows "of_be bs = a"
proof (rule bit_word_eqI)
  fix n assume n: "n < LENGTH('a)"
  then have "n div 8 < length bs" using assms(1) by (simp add: div_less_iff_less_mult)
  then show "bit (of_be bs :: 'a word) n = bit a n" using assms(2) [of "n div 8" "n mod 8"] n by (simp add: of_be_bit)
qed

lemma of_be_round_trip:
  "of_be (be16 a) = a" "of_be (be32 b) = b" "of_be (be64 d) = d"
  by (rule of_be_eqI; simp add: be_bits length_be)+


lemma response_header_fields:
  assumes "length (c_opaque c) = 4"
  shows "length (bin_response_header c err hl kl bl) = BIN_HEADER_SIZE"
    "parse_header (bin_response_header c err hl kl bl) =
       \<lparr>bh_magic = PROTOCOL_BINARY_RES, bh_opcode = bh_opcode (header c), bh_keylen = kl, bh_extlen = hl, bh_bodylen = bl,
        bh_opaque = c_opaque c, bh_cas = c_cas c\<rparr>"
    "of_be (take 2 (drop 6 (bin_response_header c err hl kl bl))) = err"
proof -
  obtain o0 o1 o2 o3 where o: "c_opaque c = [o0, o1, o2, o3]"
    using assms by (auto simp: length_Suc_conv numeral_eq_Suc)
  obtain k0 k1 where k: "be16 kl = [k0, k1]" by (simp add: be16_def)
  obtain e0 e1 where e: "be16 err = [e0, e1]" by (simp add: be16_def)
  obtain b0 b1 b2 b3 where b: "be32 bl = [b0, b1, b2, b3]" by (simp add: be32_def)
  have h: "bin_response_header c err hl kl bl =
      [PROTOCOL_BINARY_RES, bh_opcode (header c), k0, k1, hl, 0, e0, e1, b0, b1, b2, b3, o0, o1, o2, o3] @ be64 (c_cas c)"
    by (simp add: bin_response_header_def k e b o)
  show "length (bin_response_header c err hl kl bl) = BIN_HEADER_SIZE"
    by (simp add: h length_be BIN_HEADER_SIZE_def)
  show "parse_header (bin_response_header c err hl kl bl) =
       \<lparr>bh_magic = PROTOCOL_BINARY_RES, bh_opcode = bh_opcode (header c), bh_keylen = kl, bh_extlen = hl, bh_bodylen = bl,
        bh_opaque = c_opaque c, bh_cas = c_cas c\<rparr>"
    using of_be_round_trip(1) [of kl] of_be_round_trip(2) [of bl] of_be_round_trip(3) [of "c_cas c"] by (simp add: parse_header_def h k [symmetric] b [symmetric] o length_be) 
  show "of_be (take 2 (drop 6 (bin_response_header c err hl kl bl))) = err"
    using of_be_round_trip(1) [of err] by (simp add: h e)
qed

text \<open>C99: A binary header survives the wire: reading back the 24 bytes \<open>add_bin_header\<close> writes gives the magic byte, the
  opcode and the opaque field of the request, and the lengths of key, extras and body and the CAS value the response was
  built with; its status field holds the given code.\<close>

theorem header_round_trip:
  assumes "length (c_opaque c) = 4"
  shows "length (bin_response_header c err hl kl bl) = BIN_HEADER_SIZE \<and>
    parse_header (bin_response_header c err hl kl bl) =
       \<lparr>bh_magic = PROTOCOL_BINARY_RES, bh_opcode = bh_opcode (header c), bh_keylen = kl, bh_extlen = hl, bh_bodylen = bl,
        bh_opaque = c_opaque c, bh_cas = c_cas c\<rparr> \<and>
    of_be (take 2 (drop 6 (bin_response_header c err hl kl bl))) = err"
  using response_header_fields [OF assms] by (intro conjI)

theorem header_round_trip_witness:
  "parse_header (bin_response_header ((fresh_conn 2048 8)\<lparr>c_opaque := [1, 2, 3, 4], c_cas := 77\<rparr>) 1 4 3 1000) =
     \<lparr>bh_magic = PROTOCOL_BINARY_RES, bh_opcode = 0, bh_keylen = 3, bh_extlen = 4, bh_bodylen = 1000,
      bh_opaque = [1, 2, 3, 4], bh_cas = 77\<rparr>"
  using header_round_trip [of "(fresh_conn 2048 8)\<lparr>c_opaque := [1, 2, 3, 4], c_cas := 77\<rparr>" 1 4 3 1000]
  by (simp add: fresh_conn_def)

section \<open>A value that cannot be stored\<close>

lemma conn_shrink_input:
  "input (conn_shrink c) n = input c n" "rbytes (conn_shrink c) = rbytes c"
proof -
  have r: "input (shrink_rbuf c) n = input c n \<and> rbytes (shrink_rbuf c) = rbytes c"
    using get_put_bytes [of 0 "get_bytes (rbuf c) (rcurr c) (rbytes c)" "rbuf c"]
    by (auto simp: shrink_rbuf_def input_def realloc_outcome_def Let_def split: list.splits)
  have o: "input (shrink_iov (shrink_msglist (shrink_ilist d))) n = input d n \<and>
      rbytes (shrink_iov (shrink_msglist (shrink_ilist d))) = rbytes d" for d
    by (auto simp: shrink_iov_def shrink_msglist_def shrink_ilist_def input_def realloc_outcome_def Let_def split: list.splits)
  show "input (conn_shrink c) n = input c n" "rbytes (conn_shrink c) = rbytes c"
    using r o by (simp_all add: conn_shrink_def)
qed

text \<open>The next command starts where the input is.\<close>

lemma new_cmd_step:
  assumes "cstate c = conn_new_cmd" "c_item c = NULL" "0 < rbytes c" "0 < nr"
  shows "\<exists>c'. drive_step ce (nr, c, w, n) = Some (False, nr - 1, c', w, n) \<and> cstate c' = conn_parse_cmd \<and> input c' n = input c n"
proof -
  let ?c = "conn_shrink (c\<lparr>c_cmd := -1, substate := bin_no_state, c_item := NULL\<rparr>)"
  have "input ?c n = input (c\<lparr>c_cmd := -1, substate := bin_no_state, c_item := NULL\<rparr>) n" "rbytes ?c = rbytes c"
    by (simp_all add: conn_shrink_input)
  then have "input (?c\<lparr>cstate := conn_parse_cmd\<rparr>) n = input c n" by (simp add: input_def)
  then show ?thesis
    using assms conn_shrink_input(2) [of "c\<lparr>c_cmd := -1, substate := bin_no_state, c_item := NULL\<rparr>"]
    by (simp add: drive_step_def step_new_cmd_def reset_cmd_handler_def conn_set_state_Some Let_def)
qed

lemma tcp_add_msghdr:
  assumes "\<not> is_udp c"
  shows "\<exists>r c'. add_msghdr c = Some (r, c')"
proof -
  obtain ok c1 where s: "start_msghdr c = (ok, c1)" by (cases "start_msghdr c") auto
  have "is_udp c1 = is_udp c" using s
    by (auto simp: start_msghdr_def realloc_result_def is_udp_def Let_def split: if_splits list.splits)
  then show ?thesis using s assms by (simp add: add_msghdr_def)
qed

text \<open>C99: An \<open>add\<close>, \<open>replace\<close>, \<open>append\<close> or \<open>prepend\<close> on a TCP connection with well-formed numbers, for an item that is too
  large (detailed statistics off): with \<open>noreply\<close>, the value is parsed as commands. The answer is suppressed by setting the
  state to \<open>conn_new_cmd\<close>, so that \<open>write_and_go = conn_swallow\<close>, which is set then, has no effect, and the next step of
  the state machine parses the input right behind the command line. Without \<open>noreply\<close> the answer is written in state
  \<open>conn_write\<close> with \<open>write_and_go = conn_swallow\<close> and the length of the value in \<open>sbytes\<close>.\<close>

theorem rejected_value_with_noreply:
  assumes key: "tok_length (toks ! KEY_TOKEN) \<le> KEY_MAX_LENGTH"
    and num: "safe_strtoul (tok_text toks 2) = (True, flags)" "safe_strtol (tok_text toks 3) = (True, xt)"
      "safe_strtol (tok_text toks 4) = (True, v)" "0 \<le> sint v" "sint (v + 2) = sint v + 2"
    and large: "slabs_clsid (item_ntotal_for (tok_length (toks ! KEY_TOKEN)) (sint flags) (sint v + 2) w) w = Some 0"
    and w: "\<not> detail_enabled (settings w)" "comm \<noteq> NREAD_SET"
    and c: "\<not> noreply c" "\<not> is_udp c" "c_item c = NULL" "0 < rbytes c" "0 < nreqs"
  shows "\<exists>c'. process_update_command ce toks comm False c w = Some (c', w) \<and>
    write_and_go c' = conn_swallow \<and> sbytes c' = sint v + 2 \<and>
    (if tok_is toks (length toks - 2) ''noreply''
     then cstate c' = conn_new_cmd \<and>
       (\<exists>c2. drive_loop env (nreqs, c', w, n) = drive_loop (\<lambda>i. env (i + 1)) (nreqs - 1, c2, w, n) \<and>
          cstate c2 = conn_parse_cmd \<and> input c2 n = input c n)
     else cstate c' = conn_write)"
proof -
  let ?t = "ascii ''SERVER_ERROR object too large for cache''"
  let ?nr = "tok_is toks (length toks - 2) ''noreply''"
  let ?c = "if ?nr then c\<lparr>noreply := True\<rparr> else c"
  have alloc: "item_alloc (ce_alloc ce) key nkey (sint flags) x (sint v + 2) w = Some (NULL, w)" 
    if "nkey = tok_length (toks ! KEY_TOKEN)" for key nkey x
    using item_alloc_too_large large that by (simp add: item_alloc_def)
  have big: "item_size_ok (tok_length (toks ! KEY_TOKEN)) (sint flags) (sint v + 2) w = Some False"
    using large by (simp add: item_size_ok_def)
  have p: "process_update_command ce toks comm False c w =
      map_option (\<lambda>c1. (c1\<lparr>write_and_go := conn_swallow, sbytes := sint v + 2\<rparr>, w)) (out_string ?t ?c)"
    using key num alloc big w
    by (auto simp: process_update_command_def set_noreply_maybe_def Let_def count_prefix_def bind_map_option comp_def
        split: option.splits bind_splits)
  show ?thesis
  proof (cases ?nr)
    case True
    let ?d = "c\<lparr>noreply := False, cstate := conn_new_cmd, write_and_go := conn_swallow, sbytes := sint v + 2\<rparr>"
    have o: "process_update_command ce toks comm False c w = Some (?d, w)"
      using p True by (simp add: out_string_def conn_set_state_Some)
    have "\<exists>c2. drive_step (env 0) (nreqs, ?d, w, n) = Some (False, nreqs - 1, c2, w, n) \<and> cstate c2 = conn_parse_cmd \<and>
        input c2 n = input ?d n"
      by (rule new_cmd_step) (use c in simp_all)
    then obtain c2 where s: "drive_step (env 0) (nreqs, ?d, w, n) = Some (False, nreqs - 1, c2, w, n)" "cstate c2 = conn_parse_cmd"
      "input c2 n = input ?d n" by blast
    then have "drive_loop env (nreqs, ?d, w, n) = drive_loop (\<lambda>i. env (i + 1)) (nreqs - 1, c2, w, n)"
      by (subst drive_loop.simps) simp
    moreover have "input ?d n = input c n" by (simp add: input_def)
    ultimately have "\<exists>c2. drive_loop env (nreqs, ?d, w, n) = drive_loop (\<lambda>i. env (i + 1)) (nreqs - 1, c2, w, n) \<and>
        cstate c2 = conn_parse_cmd \<and> input c2 n = input c n" using s(2,3) by (intro exI [of _ c2]) simp
    then show ?thesis using o True by (intro exI [of _ ?d]) simp
  next
    case False
    obtain r c1 where "add_msghdr (clear_reply c) = Some (r, c1)"
      using tcp_add_msghdr [of "clear_reply c"] c(2) by (auto simp: clear_reply_def is_udp_def)
    then show ?thesis using p False c(1) by (simp add: out_string_def Let_def conn_set_state_Some)
  qed
qed


text \<open>\<open>add foo 0 0 9 noreply\<close> for a cache in which nothing fits.\<close>

definition example_tokens :: "token list" where
  "example_tokens = map word_token [ascii ''add'', ascii ''foo'', show_nat 0, show_nat 0, show_nat 9, ascii ''noreply''] @
     [\<lparr>tok_value = None, tok_length = 0\<rparr>]"

theorem rejected_value_with_noreply_witness:
  "\<forall>ce env n. \<exists>c' c2. process_update_command ce example_tokens NREAD_ADD False example_reading example_worker = Some (c', example_worker) \<and>
     drive_loop env (20, c', example_worker, n) = drive_loop (\<lambda>i. env (i + 1)) (19, c2, example_worker, n) \<and>
     cstate c2 = conn_parse_cmd \<and> input c2 n = [55, 56] @ net_bytes (reads n)"
proof (intro allI)
  fix ce env n
  have t: "tok_text example_tokens 2 = show_nat 0" "tok_text example_tokens 3 = show_nat 0" "tok_text example_tokens 4 = show_nat 9"
    "tok_length (example_tokens ! KEY_TOKEN) = 3" "tok_is example_tokens (length example_tokens - 2) ''noreply''"
    by (simp_all add: example_tokens_def tok_text_def word_token_def KEY_TOKEN_def tok_is_def ascii_def)
  have u: "safe_strtoul (show_nat 0) = (True, 0)" using safe_strtoul_show [of 0 "[]"] by (simp add: number_ends_def)
  have l: "safe_strtol (show_nat 0) = (True, 0)" "safe_strtol (show_nat 9) = (True, 9)"
    by (simp_all add: safe_strtol_def strtoll_def strto_scan_def show_nat.simps isspace_def isdigit_def digits_value_def char_at_def)
  have h: "item_make_header 4 0 11 = ([32, 48, 32, 57, 13, 10], 6, 69)" by code_simp
  have cl: "slabs_clsid (item_ntotal_for 3 0 11 example_worker) example_worker = Some 0"
    by (simp add: item_ntotal_for_def h settings_init_def slabs_clsid_def POWER_SMALLEST_def slabs_clsid_loop.simps zero_class_def)
  have i: "input example_reading n = [55, 56] @ net_bytes (reads n)"
    by (simp add: input_def example_reading_def fresh_conn_def get_bytes_def put_bytes_def upt_rec)
  show "\<exists>c' c2. process_update_command ce example_tokens NREAD_ADD False example_reading example_worker = Some (c', example_worker) \<and>
     drive_loop env (20, c', example_worker, n) = drive_loop (\<lambda>i. env (i + 1)) (19, c2, example_worker, n) \<and>
     cstate c2 = conn_parse_cmd \<and> input c2 n = [55, 56] @ net_bytes (reads n)"
    using rejected_value_with_noreply [of example_tokens 0 0 9 example_worker NREAD_ADD example_reading 20 ce env n] t u l cl i
    by (auto simp: KEY_MAX_LENGTH_def settings_init_def nread_defs example_reading_def fresh_conn_def is_udp_def)
qed

end
