(* ===== verification/MT_Base.thy ===== *)
theory MT_Base
  imports Prelude
begin

text \<open>
  Metis, the MapReduce library (\<open>src/hermit/apps/metis/lib\<close>): the types of \<open>mr-types.h\<close>, binary search
  (\<open>bsearch.c\<close>) and the values of a key (\<open>value_helper.c\<close>).  The types of keys and values are parameters, since the
  library only passes pointers to them on; the functions of the application (comparison, combiner, value modifier,
  reduce function) are arguments.  Lengths are natural numbers, allocation succeeds.
\<close>

section \<open>Keys\<close>

text \<open>Keys in strictly ascending order.\<close>

definition asc :: "('k \<Rightarrow> 'k \<Rightarrow> int) \<Rightarrow> 'k list \<Rightarrow> bool" where
  "asc cmp = sorted_wrt (\<lambda>a b. cmp a b < 0)"

text \<open>What the library expects of the comparison function of the application: the sign of \<open>cmp a b\<close> is that of a total
  preorder.\<close>

locale key_order =
  fixes cmp :: "'k \<Rightarrow> 'k \<Rightarrow> int"
  assumes cmp_refl: "cmp a a = 0"
    and cmp_swap: "0 < cmp a b \<longleftrightarrow> cmp b a < 0"
    and cmp_trans: "cmp a b \<le> 0 \<Longrightarrow> cmp b c \<le> 0 \<Longrightarrow> cmp a c \<le> 0"
begin

lemma eq_sym: "cmp a b = 0 \<Longrightarrow> cmp b a = 0"
  using cmp_swap [of a b] cmp_swap [of b a] by linarith

lemma le_swap: "0 \<le> cmp a b \<longleftrightarrow> cmp b a \<le> 0"
  using cmp_swap [of a b] cmp_swap [of b a] by linarith

lemma less_trans1: "cmp a b < 0 \<Longrightarrow> cmp b c \<le> 0 \<Longrightarrow> cmp a c < 0"
  using cmp_trans [of b c a] cmp_trans [of a b c] le_swap [of c a] le_swap [of b a] le_swap [of a c] cmp_swap [of b a] by linarith

lemma less_trans2: "cmp a b \<le> 0 \<Longrightarrow> cmp b c < 0 \<Longrightarrow> cmp a c < 0"
  using cmp_trans [of c a b] cmp_trans [of a b c] le_swap [of c a] le_swap [of c b] le_swap [of a c] cmp_swap [of c b] by linarith

lemma eq_left: "cmp a b = 0 \<Longrightarrow> (cmp a c < 0 \<longleftrightarrow> cmp b c < 0) \<and> (cmp a c = 0 \<longleftrightarrow> cmp b c = 0)"
  using less_trans2 [of a b c] less_trans2 [of b a c] eq_sym [of a b] cmp_trans [of a b c] cmp_trans [of b a c]
    less_trans1 [of c a b] less_trans1 [of c b a] cmp_swap [of a c] cmp_swap [of b c]
  by linarith

lemma eq_right: "cmp a b = 0 \<Longrightarrow> (cmp c a < 0 \<longleftrightarrow> cmp c b < 0) \<and> (cmp c a = 0 \<longleftrightarrow> cmp c b = 0)"
  using less_trans1 [of c a b] less_trans1 [of c b a] eq_sym [of a b] cmp_trans [of c a b] cmp_trans [of c b a]
    eq_left [of a b c] eq_sym [of a c] eq_sym [of c a] eq_sym [of b c] eq_sym [of c b]
  by linarith

lemma asc_append: "asc cmp (xs @ ys) \<longleftrightarrow> asc cmp xs \<and> asc cmp ys \<and> (\<forall>x\<in>set xs. \<forall>y\<in>set ys. cmp x y < 0)"
  by (simp add: asc_def sorted_wrt_append)

lemma asc_Cons: "asc cmp (x # xs) \<longleftrightarrow> (\<forall>y\<in>set xs. cmp x y < 0) \<and> asc cmp xs"
  by (simp add: asc_def)

lemma asc_simps [simp]: "asc cmp []" "asc cmp [x]"
  by (simp_all add: asc_def)

lemma asc_nth: "asc cmp xs \<Longrightarrow> i < j \<Longrightarrow> j < length xs \<Longrightarrow> cmp (xs ! i) (xs ! j) < 0"
  unfolding asc_def by (rule sorted_wrt_nth_less)

end

section \<open>Binary search (bsearch.c)\<close>

text \<open>\<open>ELEM(idx)\<close> for an array that holds the elements of \<open>xs\<close>: undefined outside.\<close>

definition elem_at :: "'e list \<Rightarrow> int \<Rightarrow> 'e option" where
  "elem_at xs i = (if 0 \<le> i \<and> i < int (length xs) then Some (xs ! nat i) else None)"

text \<open>The loop of \<open>bsearch_lar\<close>; \<open>f e\<close> is \<open>keycmp(key, e)\<close>.\<close>

function lar_loop :: "('e \<Rightarrow> int) \<Rightarrow> (int \<Rightarrow> 'e option) \<Rightarrow> int \<Rightarrow> int \<Rightarrow> int option" where
  "lar_loop f base left right =
     (if left < right
      then do {
        e \<leftarrow> base ((left + right) div 2);
        if f e \<ge> 0 then lar_loop f base ((left + right) div 2 + 1) right
        else lar_loop f base left ((left + right) div 2 - 1)
      }
      else Some left)"
  by auto
termination by (relation "measure (\<lambda>(f, base, left, right). nat (right - left))") auto

declare lar_loop.simps [simp del]

definition bsearch_lar :: "('e \<Rightarrow> int) \<Rightarrow> (int \<Rightarrow> 'e option) \<Rightarrow> int \<Rightarrow> int option" where
  "bsearch_lar f base nelems =
     (if nelems = 0 then Some 0
      else do {
        e \<leftarrow> base (nelems - 1);
        if f e \<ge> 0 then Some nelems
        else if nelems = 1 then Some 0
        else if nelems = 2 then do { e0 \<leftarrow> base 0; Some (if f e0 < 0 then 0 else 1) }
        else do {
          left \<leftarrow> lar_loop f base 0 (nelems - 2);
          el \<leftarrow> base left;
          Some (if f el \<ge> 0 then left + 1 else left)
        }
      })"

text \<open>The loop of \<open>bsearch_eq\<close>: \<open>Inl mid\<close> when it returns with a match.\<close>

function eq_loop :: "('e \<Rightarrow> int) \<Rightarrow> (int \<Rightarrow> 'e option) \<Rightarrow> int \<Rightarrow> int \<Rightarrow> (int + int) option" where
  "eq_loop f base left right =
     (if left < right
      then do {
        e \<leftarrow> base ((left + right) div 2);
        if f e = 0 then Some (Inl ((left + right) div 2))
        else if f e < 0 then eq_loop f base left ((left + right) div 2 - 1)
        else eq_loop f base ((left + right) div 2 + 1) right
      }
      else Some (Inr left))"
  by auto
termination by (relation "measure (\<lambda>(f, base, left, right). nat (right - left))") auto

declare eq_loop.simps [simp del]

text \<open>The position and \<open>*bfound\<close>.\<close>

definition bsearch_eq :: "('e \<Rightarrow> int) \<Rightarrow> (int \<Rightarrow> 'e option) \<Rightarrow> int \<Rightarrow> (int \<times> bool) option" where
  "bsearch_eq f base nelems =
     (if nelems = 0 then Some (0, False)
      else do {
        e \<leftarrow> base (nelems - 1);
        if f e = 0 then Some (nelems - 1, True)
        else if f e > 0 then Some (nelems, False)
        else if nelems = 1 then Some (0, False)
        else if nelems = 2
          then do {
            e0 \<leftarrow> base 0;
            Some (if f e0 = 0 then (0, True) else if f e0 < 0 then (0, False) else (1, False))
          }
        else do {
          r \<leftarrow> eq_loop f base 0 (nelems - 2);
          (case r of
             Inl mid \<Rightarrow> Some (mid, True)
           | Inr left \<Rightarrow> do {
               el \<leftarrow> base left;
               Some (if f el = 0 then (left, True) else if f el > 0 then (left + 1, False) else (left, False))
             })
        }
      })"

lemma elem_at_nth [simp]: "i < length xs \<Longrightarrow> elem_at xs (int i) = Some (xs ! i)"
  by (simp add: elem_at_def)

lemma elem_at_first: "0 < length xs \<Longrightarrow> elem_at xs 0 = Some (xs ! 0)"
  by (simp add: elem_at_def)

lemma nat_pred: "0 < n \<Longrightarrow> nat (int n - 1) = n - 1"
  by linarith

lemma elem_at_last: "0 < length xs \<Longrightarrow> elem_at xs (int (length xs) - 1) = Some (xs ! (length xs - 1))"
  by (simp add: elem_at_def nat_pred)

lemma elem_at_int: "0 \<le> i \<Longrightarrow> i < int (length xs) \<Longrightarrow> elem_at xs i = Some (xs ! nat i)"
  by (simp add: elem_at_def)

text \<open>Both searches need that the comparison turns from positive to negative once along the array.\<close>

definition descends :: "('e \<Rightarrow> int) \<Rightarrow> 'e list \<Rightarrow> bool" where
  "descends f = sorted_wrt (\<lambda>a b. (0 \<le> f b \<longrightarrow> 0 \<le> f a) \<and> (f a \<le> 0 \<longrightarrow> f b \<le> 0))"

lemma descends_nth:
  assumes "descends f xs" "i \<le> j" "j < length xs"
  shows "0 \<le> f (xs ! j) \<Longrightarrow> 0 \<le> f (xs ! i)" "f (xs ! i) \<le> 0 \<Longrightarrow> f (xs ! j) \<le> 0"
proof -
  have "i = j \<or> (0 \<le> f (xs ! j) \<longrightarrow> 0 \<le> f (xs ! i)) \<and> (f (xs ! i) \<le> 0 \<longrightarrow> f (xs ! j) \<le> 0)"
    using sorted_wrt_nth_less [OF assms(1) [unfolded descends_def], of i j] assms(2,3) by linarith
  then show "0 \<le> f (xs ! j) \<Longrightarrow> 0 \<le> f (xs ! i)" "f (xs ! i) \<le> 0 \<Longrightarrow> f (xs ! j) \<le> 0" by blast+
qed

lemma takeWhile_length:
  assumes "n \<le> length xs" "\<forall>i<n. P (xs ! i)" "n < length xs \<Longrightarrow> \<not> P (xs ! n)"
  shows "length (takeWhile P xs) = n"
proof -
  have "takeWhile P xs = take n xs"
    using assms by (intro takeWhile_eq_take_P_nth) auto
  then show ?thesis using assms(1) by simp
qed

lemma lar_loop_correct:
  assumes d: "descends f xs" and n: "0 \<le> left" "left \<le> right + 1" "right + 1 < int (length xs)"
    and lo: "\<forall>i<nat left. 0 \<le> f (xs ! i)" and hi: "\<forall>i. right < int i \<and> i < length xs \<longrightarrow> f (xs ! i) < 0"
  shows "\<exists>l. lar_loop f (elem_at xs) left right = Some l \<and> 0 \<le> l \<and> l < int (length xs) \<and>
    (\<forall>i<nat l. 0 \<le> f (xs ! i)) \<and> (\<forall>i. l < int i \<and> i < length xs \<longrightarrow> f (xs ! i) < 0)"
  using n lo hi
proof (induction "nat (right - left)" arbitrary: left right rule: less_induct)
  case less
  show ?case
  proof (cases "left < right")
    case False
    then show ?thesis using less.prems by (simp add: lar_loop.simps [of f "elem_at xs" left right])
  next
    case True
    define m where "m = (left + right) div 2"
    have m: "left \<le> m" "m < right" using True by (simp_all add: m_def) 
    have el: "elem_at xs m = Some (xs ! nat m)" using m less.prems by (simp add: elem_at_def)
    show ?thesis
    proof (cases "f (xs ! nat m) \<ge> 0")
      case ge: True
      have "\<forall>i<nat (m + 1). 0 \<le> f (xs ! i)"
      proof (intro allI impI)
        fix i assume "i < nat (m + 1)"
        then show "0 \<le> f (xs ! i)" using descends_nth(1) [OF d, of i "nat m"] ge m less.prems(1-3) by linarith
      qed
      then have "\<exists>l. lar_loop f (elem_at xs) (m + 1) right = Some l \<and> 0 \<le> l \<and> l < int (length xs) \<and>
          (\<forall>i<nat l. 0 \<le> f (xs ! i)) \<and> (\<forall>i. l < int i \<and> i < length xs \<longrightarrow> f (xs ! i) < 0)"
        using less.hyps [of right "m + 1"] m less.prems by simp
      then show ?thesis using True el ge by (simp add: lar_loop.simps [of f "elem_at xs" left right] m_def [symmetric])
    next
      case lt: False
      have "f (xs ! i) < 0" if "m \<le> int i" "i < length xs" for i
        using descends_nth(1) [OF d, of "nat m" i] that lt m less.prems(1-3) by linarith
      then have "\<exists>l. lar_loop f (elem_at xs) left (m - 1) = Some l \<and> 0 \<le> l \<and> l < int (length xs) \<and>
          (\<forall>i<nat l. 0 \<le> f (xs ! i)) \<and> (\<forall>i. l < int i \<and> i < length xs \<longrightarrow> f (xs ! i) < 0)"
        using less.hyps [of "m - 1" left] m less.prems True by simp
      then show ?thesis using True el lt by (simp add: lar_loop.simps [of f "elem_at xs" left right] m_def [symmetric])
    qed
  qed
qed

lemma bsearch_lar_correct:
  assumes d: "descends f xs"
  shows "bsearch_lar f (elem_at xs) (int (length xs)) = Some (int (length (takeWhile (\<lambda>e. 0 \<le> f e) xs)))"
proof -
  let ?n = "length xs"
  have count: "length (takeWhile (\<lambda>e. 0 \<le> f e) xs) = n"
    if "n \<le> ?n" "\<forall>i<n. 0 \<le> f (xs ! i)" "n < ?n \<Longrightarrow> f (xs ! n) < 0" for n
    using takeWhile_length [of n xs "\<lambda>e. 0 \<le> f e"] that by fastforce
  consider "?n = 0" | "0 < ?n" "0 \<le> f (xs ! (?n - 1))" | "?n = 1" "f (xs ! 0) < 0" | "?n = 2" "f (xs ! 1) < 0"
    | "2 < ?n" "f (xs ! (?n - 1)) < 0"
  proof -
    have "?n = 0 \<or> ?n = 1 \<or> ?n = 2 \<or> 2 < ?n" "0 \<le> f (xs ! (?n - 1)) \<or> f (xs ! (?n - 1)) < 0" by linarith+
    then show thesis using that by (cases "xs = []"; elim disjE; simp)
  qed
  then show ?thesis
  proof cases
    case 1
    then show ?thesis by (simp add: bsearch_lar_def)
  next
    case 2
    then have "\<forall>i<?n. 0 \<le> f (xs ! i)" using descends_nth(1) [OF d, of _ "?n - 1"] by simp
    then show ?thesis using 2 count [of ?n] by (simp add: bsearch_lar_def elem_at_last)
  next
    case 3
    then show ?thesis using count [of 0] by (simp add: bsearch_lar_def elem_at_def)
  next
    case 4
    then show ?thesis using count [of 0] count [of 1] by (cases "f (xs ! 0) < 0") (simp_all add: bsearch_lar_def elem_at_def)
  next
    case 5
    have "\<exists>l. lar_loop f (elem_at xs) 0 (int ?n - 2) = Some l \<and> 0 \<le> l \<and> l < int ?n \<and>
        (\<forall>i<nat l. 0 \<le> f (xs ! i)) \<and> (\<forall>i. l < int i \<and> i < ?n \<longrightarrow> f (xs ! i) < 0)"
    proof (rule lar_loop_correct [OF d])
      show "\<forall>i. int ?n - 2 < int i \<and> i < ?n \<longrightarrow> f (xs ! i) < 0"
      proof (intro allI impI)
        fix i assume "int ?n - 2 < int i \<and> i < ?n"
        then have "i = ?n - 1" by linarith
        then show "f (xs ! i) < 0" using 5(2) by simp
      qed
    qed (use 5 in auto)
    then obtain l where l: "lar_loop f (elem_at xs) 0 (int ?n - 2) = Some l" "0 \<le> l" "l < int ?n"
      "\<forall>i<nat l. 0 \<le> f (xs ! i)" "\<And>i. l < int i \<Longrightarrow> i < ?n \<Longrightarrow> f (xs ! i) < 0" by blast
    obtain k where k: "l = int k" using l(2) nonneg_int_cases by blast
    show ?thesis
    proof (cases "0 \<le> f (xs ! k)")
      case True
      have "\<forall>i<Suc k. 0 \<le> f (xs ! i)" using l(4) True by (simp add: k less_Suc_eq)
      moreover have "xs \<noteq> []" using 5 by auto
      ultimately show ?thesis using True 5 l(1,3) l(5) [of "Suc k"] count [of "Suc k"]
        by (simp add: bsearch_lar_def elem_at_last elem_at_first k)
    next
      case False
      moreover have "xs \<noteq> []" using 5 by auto
      ultimately show ?thesis using 5 l(1,3,4) count [of k]
        by (simp add: bsearch_lar_def elem_at_last elem_at_first k)
    qed
  qed
qed

text \<open>What \<open>bsearch_eq\<close> promises about its result.\<close>

definition found_at :: "('e \<Rightarrow> int) \<Rightarrow> 'e list \<Rightarrow> int \<times> bool \<Rightarrow> bool" where
  "found_at f xs r = (case r of (pos, found) \<Rightarrow>
     0 \<le> pos \<and> (if found then pos < int (length xs) \<and> f (xs ! nat pos) = 0
       else pos = int (length (takeWhile (\<lambda>e. 0 < f e) xs)) \<and> (\<forall>e\<in>set xs. f e \<noteq> 0)))"

lemma not_found_at:
  assumes "n \<le> length xs" "\<forall>i<n. 0 < f (xs ! i)" "\<And>i. n \<le> i \<Longrightarrow> i < length xs \<Longrightarrow> f (xs ! i) < 0"
  shows "found_at f xs (int n, False)"
proof -
  have "length (takeWhile (\<lambda>e. 0 < f e) xs) = n"
    using takeWhile_length [of n xs "\<lambda>e. 0 < f e"] assms by fastforce
  moreover have "f (xs ! i) \<noteq> 0" if "i < length xs" for i
    using that assms(2) assms(3) [of i] by (metis less_irrefl not_le)
  ultimately show ?thesis by (auto simp: found_at_def in_set_conv_nth)
qed

lemma eq_loop_correct:
  assumes d: "descends f xs" and n: "0 \<le> left" "left \<le> right + 1" "right + 1 < int (length xs)"
    and lo: "\<forall>i<nat left. 0 < f (xs ! i)" and hi: "\<forall>i. right < int i \<and> i < length xs \<longrightarrow> f (xs ! i) < 0"
  shows "(\<exists>mid. eq_loop f (elem_at xs) left right = Some (Inl mid) \<and> found_at f xs (mid, True)) \<or>
    (\<exists>l. eq_loop f (elem_at xs) left right = Some (Inr l) \<and> 0 \<le> l \<and> l < int (length xs) \<and>
      (\<forall>i<nat l. 0 < f (xs ! i)) \<and> (\<forall>i. l < int i \<and> i < length xs \<longrightarrow> f (xs ! i) < 0))"
  using n lo hi
proof (induction "nat (right - left)" arbitrary: left right rule: less_induct)
  case less
  show ?case
  proof (cases "left < right")
    case False
    then show ?thesis using less.prems by (simp add: eq_loop.simps [of f "elem_at xs" left right])
  next
    case True
    define m where "m = (left + right) div 2"
    have m: "left \<le> m" "m < right" using True by (simp_all add: m_def)
    have el: "elem_at xs m = Some (xs ! nat m)" using m less.prems by (simp add: elem_at_def)
    note step = eq_loop.simps [of f "elem_at xs" left right]
    consider "f (xs ! nat m) = 0" | "f (xs ! nat m) < 0" | "f (xs ! nat m) > 0" by linarith
    then show ?thesis
    proof cases
      case 1
      then show ?thesis using True el m less.prems by (simp add: step m_def [symmetric] found_at_def)
    next
      case 2
      have "f (xs ! i) < 0" if "m - 1 < int i" "i < length xs" for i
        using descends_nth(1) [OF d, of "nat m" i] that 2 m less.prems(1-3) by linarith
      then have "eq_loop f (elem_at xs) left right = eq_loop f (elem_at xs) left (m - 1)"
        "\<forall>i. m - 1 < int i \<and> i < length xs \<longrightarrow> f (xs ! i) < 0" "f (xs ! nat m) \<noteq> 0"
        using True el 2 by (simp_all add: step m_def [symmetric])
      then show ?thesis using less.hyps [of "m - 1" left] m less.prems by simp
    next
      case 3
      have "0 < f (xs ! i)" if "i < nat (m + 1)" for i
        using descends_nth(2) [OF d, of i "nat m"] that 3 m less.prems(1-3) by linarith
      then have "eq_loop f (elem_at xs) left right = eq_loop f (elem_at xs) (m + 1) right"
        "\<forall>i<nat (m + 1). 0 < f (xs ! i)"
        using True el 3 by (simp_all add: step m_def [symmetric])
      then show ?thesis using less.hyps [of right "m + 1"] m less.prems by simp
    qed
  qed
qed

lemma bsearch_eq_correct:
  assumes d: "descends f xs"
  shows "\<exists>r. bsearch_eq f (elem_at xs) (int (length xs)) = Some r \<and> found_at f xs r"
proof -
  let ?n = "length xs"
  have last: "f (xs ! i) < 0" if "f (xs ! (?n - 1)) < 0" "int ?n - 2 < int i \<and> i < ?n" for i
  proof -
    have "i = ?n - 1" using that(2) by linarith
    then show ?thesis using that(1) by simp
  qed
  consider "?n = 0" | "0 < ?n" "f (xs ! (?n - 1)) = 0" | "0 < ?n" "0 < f (xs ! (?n - 1))" | "?n = 1" "f (xs ! 0) < 0"
    | "?n = 2" "f (xs ! 1) < 0" | "2 < ?n" "f (xs ! (?n - 1)) < 0"
  proof -
    have "?n = 0 \<or> ?n = 1 \<or> ?n = 2 \<or> 2 < ?n" "f (xs ! (?n - 1)) = 0 \<or> f (xs ! (?n - 1)) > 0 \<or> f (xs ! (?n - 1)) < 0" by linarith+
    then show thesis using that by (cases "xs = []"; elim disjE; simp)
  qed
  then show ?thesis
  proof cases
    case 1
    then show ?thesis by (simp add: bsearch_eq_def found_at_def)
  next
    case 2
    then show ?thesis by (simp add: bsearch_eq_def elem_at_last found_at_def nat_pred)
  next
    case 3
    have "0 < f (xs ! i)" if "i < ?n" for i
      using descends_nth(2) [OF d, of i "?n - 1"] 3 that by linarith
    then have "found_at f xs (int ?n, False)" by (intro not_found_at) auto
    then show ?thesis using 3 by (simp add: bsearch_eq_def elem_at_last)
  next
    case 4
    then show ?thesis using not_found_at [of 0 xs f] by (simp add: bsearch_eq_def elem_at_def)
  next
    case 5
    have i1: "i = 1" if "1 \<le> i" "i < ?n" for i :: nat using that 5 by linarith
    have i0: "i = 0 \<or> i = 1" if "i < ?n" for i :: nat using that 5 by linarith
    consider "f (xs ! 0) = 0" | "f (xs ! 0) < 0" | "f (xs ! 0) > 0" by linarith
    then show ?thesis
    proof cases
      case 1
      then show ?thesis using 5 by (simp add: bsearch_eq_def elem_at_def found_at_def)
    next
      case 2
      then show ?thesis using 5 not_found_at [of 0 xs f] i0 by (fastforce simp: bsearch_eq_def elem_at_def)
    next
      case 3
      have "found_at f xs (int 1, False)"
      proof (rule not_found_at)
        fix i assume "1 \<le> i" "i < ?n"
        then show "f (xs ! i) < 0" using i1 5 by blast
      qed (use 3 5 in auto)
      then show ?thesis using 3 5 by (simp add: bsearch_eq_def elem_at_def)
    qed
  next
    case 6
    have ne: "xs \<noteq> []" using 6 by auto
    have e0: "elem_at xs (int ?n - 1) = Some (xs ! (?n - 1))" using 6(1) by (intro elem_at_last) linarith
    consider mid where "eq_loop f (elem_at xs) 0 (int ?n - 2) = Some (Inl mid)" "found_at f xs (mid, True)"
      | l where "eq_loop f (elem_at xs) 0 (int ?n - 2) = Some (Inr l)" "0 \<le> l" "l < int ?n"
        "\<forall>i<nat l. 0 < f (xs ! i)" "\<And>i. l < int i \<Longrightarrow> i < ?n \<Longrightarrow> f (xs ! i) < 0"
      using eq_loop_correct [OF d, of 0 "int ?n - 2"] last [OF 6(2)] ne 6(1) by auto
    then show ?thesis
    proof cases
      case 1
      then show ?thesis using 6 e0 ne by (simp add: bsearch_eq_def)
    next
      case 2
      obtain k where k: "l = int k" using 2(2) nonneg_int_cases by blast
      have e: "elem_at xs l = Some (xs ! k)" using 2(3) by (simp add: k)
      have S: "found_at f xs (int k + 1, False)" if "0 < f (xs ! k)"
        using not_found_at [of "Suc k" xs f] 2(3-5) that by (simp add: k less_Suc_eq add.commute)
      have K: "found_at f xs (int k, False)" if "f (xs ! k) < 0"
      proof (rule not_found_at)
        fix i assume "k \<le> i" "i < ?n"
        then show "f (xs ! i) < 0" using 2(5) [of i] that by (cases "i = k") (auto simp: k)
      qed (use 2 k in auto)
      have Z: "found_at f xs (int k, True)" if "f (xs ! k) = 0" using 2(3) that by (simp add: found_at_def k)
      show ?thesis using 6 e0 ne 2(1) e S K Z by (simp add: bsearch_eq_def k)
    qed
  qed
qed

section \<open>Pairs and the application (mr-types.h)\<close>

datatype app_type = atype_maponly | atype_mapgroup | atype_mapreduce

record ('k, 'v) keyval =
  kv_key :: 'k
  kv_val :: 'v
  kv_hash :: u32

text \<open>The field \<open>len\<close> of \<open>keyvals_t\<close> is the length of the list of values; with a value modifier \<open>vals\<close> is not an array
  but the modified value itself, which is then the only element of the list.\<close>

record ('k, 'v) keyvals =
  kvs_key :: 'k
  kvs_vals :: "'v list"
  kvs_alloc :: nat
  kvs_hash :: u32

record ('k, 'v) keyvals_len =
  kvl_key :: 'k
  kvl_vals :: "'v list"

text \<open>The argument of the application.  The combiner works on the array of values in place; the model takes the values it
  leaves.  The reduce function is given by the pairs it emits, the value modifier by the new value (its old value is
  NULL, here \<open>None\<close>, when \<open>isnew\<close> is set).\<close>

record ('k, 'v) app_arg =
  atype :: app_type
  kv_outcmp :: "(('k, 'v) keyval \<Rightarrow> ('k, 'v) keyval \<Rightarrow> int) option"
  kvl_outcmp :: "(('k, 'v) keyvals_len \<Rightarrow> ('k, 'v) keyvals_len \<Rightarrow> int) option"
  tasks :: nat
  reduce_func :: "'k \<Rightarrow> 'v list \<Rightarrow> ('k \<times> 'v) list"
  combiner :: "('k \<Rightarrow> 'v list \<Rightarrow> 'v list) option"
  vm :: "('v option \<Rightarrow> 'v \<Rightarrow> 'v) option"

definition app_vm :: "('k, 'v) app_arg \<Rightarrow> ('v option \<Rightarrow> 'v \<Rightarrow> 'v) option" where
  "app_vm app = (if atype app = atype_mapreduce then vm app else None)"

definition app_combiner :: "('k, 'v) app_arg \<Rightarrow> ('k \<Rightarrow> 'v list \<Rightarrow> 'v list) option" where
  "app_combiner app = (if atype app = atype_mapreduce then combiner app else None)"

section \<open>Values of a key (value\_helper.c)\<close>

definition combiner_threshold :: nat where "combiner_threshold = 8"

definition values_insert :: "('k, 'v) app_arg \<Rightarrow> ('k, 'v) keyvals \<Rightarrow> 'v \<Rightarrow> ('k, 'v) keyvals" where
  "values_insert app kvs val =
     (case app_vm app of
        Some f \<Rightarrow> if kvs_vals kvs = [] then kvs\<lparr>kvs_vals := [f None val]\<rparr>
          else kvs\<lparr>kvs_vals := [f (Some (hd (kvs_vals kvs))) val]\<rparr>
      | None \<Rightarrow>
          let alloc = (if kvs_alloc kvs = 0 then combiner_threshold
                       else if kvs_alloc kvs = length (kvs_vals kvs) then kvs_alloc kvs * 2 else kvs_alloc kvs);
              vals = kvs_vals kvs @ [val];
              vals' = (case app_combiner app of
                  Some comb \<Rightarrow> if length vals \<ge> combiner_threshold then comb (kvs_key kvs) vals else vals
                | None \<Rightarrow> vals)
          in kvs\<lparr>kvs_alloc := alloc, kvs_vals := vals'\<rparr>)"

definition values_deep_free :: "('k, 'v) keyvals \<Rightarrow> ('k, 'v) keyvals" where
  "values_deep_free kvs = kvs\<lparr>kvs_vals := [], kvs_alloc := 0\<rparr>"

text \<open>The loop that doubles \<open>alloc_len\<close>; it is only entered with a positive one.\<close>

function double_until :: "nat \<Rightarrow> nat \<Rightarrow> nat" where
  "double_until alloc need = (if alloc = 0 \<or> need \<le> alloc then alloc else double_until (alloc * 2) need)"
  by auto
termination by (relation "measure (\<lambda>(alloc, need). need - alloc)") auto

declare double_until.simps [simp del]

definition values_mv ::
    "('k, 'v) app_arg \<Rightarrow> ('k, 'v) keyvals \<Rightarrow> ('k, 'v) keyvals \<Rightarrow> (('k, 'v) keyvals \<times> ('k, 'v) keyvals) option" where
  "values_mv app dst src =
     (case app_vm app of
        Some f \<Rightarrow> do {
          c_assert (length (kvs_vals src) = 1);
          let dst' = (if kvs_vals dst = [] then dst\<lparr>kvs_vals := kvs_vals src, kvs_alloc := kvs_alloc src\<rparr>
                      else dst\<lparr>kvs_vals := [f (Some (hd (kvs_vals dst))) (hd (kvs_vals src))]\<rparr>);
          Some (dst', src\<lparr>kvs_vals := [], kvs_alloc := 0\<rparr>)
        }
      | None \<Rightarrow>
          let need = length (kvs_vals dst) + length (kvs_vals src);
              alloc = (if kvs_alloc dst = 0 then length (kvs_vals src)
                       else if kvs_alloc dst < need then double_until (kvs_alloc dst) need else kvs_alloc dst)
          in Some (dst\<lparr>kvs_alloc := alloc, kvs_vals := kvs_vals dst @ kvs_vals src\<rparr>, src))"

text \<open>The values of a key after one more was inserted.\<close>

definition add_value :: "('k, 'v) app_arg \<Rightarrow> 'k \<Rightarrow> 'v list \<Rightarrow> 'v \<Rightarrow> 'v list" where
  "add_value app k vs v =
     (case app_vm app of
        Some f \<Rightarrow> [f (if vs = [] then None else Some (hd vs)) v]
      | None \<Rightarrow> (case app_combiner app of
          Some comb \<Rightarrow> if length vs + 1 \<ge> combiner_threshold then comb k (vs @ [v]) else vs @ [v]
        | None \<Rightarrow> vs @ [v]))"

lemma values_insert_fields [simp]:
  "kvs_key (values_insert app kvs v) = kvs_key kvs"
  "kvs_hash (values_insert app kvs v) = kvs_hash kvs"
  "kvs_vals (values_insert app kvs v) = add_value app (kvs_key kvs) (kvs_vals kvs) v"
  by (simp_all add: values_insert_def add_value_def Let_def split: option.split)

section \<open>Arrays of pairs (keyval\_array.c, keyvals\_array.c, keyvals\_len\_array.c)\<close>

text \<open>The three handlers keep the same kind of array: \<open>len\<close> is the length of \<open>c_elems\<close>, and \<open>arr\<close> is NULL when
  \<open>c_null\<close> is set.\<close>

record 'p coll =
  c_elems :: "'p list"
  c_alloc :: nat
  c_null :: bool

definition init_array_size :: nat where "init_array_size = 8"

definition coll_init :: "'p coll" where
  "coll_init = \<lparr>c_elems = [], c_alloc = 0, c_null = True\<rparr>"

text \<open>\<open>checkfull\<close>, and the same lines in the two other files; without room and with \<open>arr = NULL\<close> the next store fails.\<close>

definition checkfull :: "'p coll \<Rightarrow> 'p coll option" where
  "checkfull c =
     (if c_alloc c = 0 then Some (c\<lparr>c_alloc := init_array_size, c_null := False\<rparr>)
      else if length (c_elems c) = c_alloc c then Some (c\<lparr>c_alloc := c_alloc c * 2, c_null := False\<rparr>)
      else if c_null c then None else Some c)"

definition pch_get_len :: "'p coll \<Rightarrow> nat" where
  "pch_get_len c = length (c_elems c)"

definition pch_set_elems :: "'p list \<Rightarrow> 'p coll \<Rightarrow> 'p coll" where
  "pch_set_elems elems c = c\<lparr>c_elems := elems, c_alloc := length elems, c_null := False\<rparr>"

definition pch_shallow_free :: "'p coll \<Rightarrow> 'p coll" where
  "pch_shallow_free c = (if c_null c then c else c\<lparr>c_elems := [], c_null := True\<rparr>)"

definition insert_at :: "nat \<Rightarrow> 'p \<Rightarrow> 'p list \<Rightarrow> 'p list" where
  "insert_at n x xs = take n xs @ x # drop n xs"

definition copied_key :: "('k \<Rightarrow> nat \<Rightarrow> 'k) option \<Rightarrow> 'k \<Rightarrow> nat \<Rightarrow> 'k" where
  "copied_key keycopy key keylen = (case keycopy of Some f \<Rightarrow> if keylen \<noteq> 0 then f key keylen else key | None \<Rightarrow> key)"

text \<open>keyval\_array.c\<close>

definition kvarr_insert_kv ::
    "('k \<Rightarrow> nat \<Rightarrow> 'k) option \<Rightarrow> ('k, 'v) keyval coll \<Rightarrow> 'k \<Rightarrow> 'v \<Rightarrow> nat \<Rightarrow> u32 \<Rightarrow> (bool \<times> ('k, 'v) keyval coll) option" where
  "kvarr_insert_kv keycopy c key val keylen hash = do {
     c1 \<leftarrow> checkfull c;
     Some (True, c1\<lparr>c_elems := c_elems c1 @
       [\<lparr>kv_key = copied_key keycopy key keylen, kv_val = val, kv_hash = hash\<rparr>]\<rparr>)
   }"

definition kvarr_iter_next_kv :: "('k, 'v) keyval coll \<Rightarrow> nat \<Rightarrow> (('k, 'v) keyval \<times> nat) option" where
  "kvarr_iter_next_kv c nxt = (if nxt = length (c_elems c) then None else Some (c_elems c ! nxt, nxt + 1))"

definition kvarr_copy_kv :: "('k, 'v) keyval coll \<Rightarrow> ('k, 'v) keyval list" where
  "kvarr_copy_kv c = c_elems c"

text \<open>keyvals\_array.c\<close>

definition keyvals_cmp :: "('k \<Rightarrow> 'k \<Rightarrow> int) \<Rightarrow> 'k \<Rightarrow> ('k, 'v) keyvals \<Rightarrow> int" where
  "keyvals_cmp keycmp key p = keycmp key (kvs_key p)"

definition kvsarr_append_kvs :: "('k, 'v) keyvals coll \<Rightarrow> ('k, 'v) keyvals \<Rightarrow> ('k, 'v) keyvals coll option" where
  "kvsarr_append_kvs c kvs = do {
     c1 \<leftarrow> checkfull c;
     Some (c1\<lparr>c_elems := c_elems c1 @ [kvs]\<rparr>)
   }"

definition kvsarr_insert_kvs ::
    "('k \<Rightarrow> 'k \<Rightarrow> int) \<Rightarrow> ('k, 'v) keyvals coll \<Rightarrow> ('k, 'v) keyvals \<Rightarrow> ('k, 'v) keyvals coll option" where
  "kvsarr_insert_kvs keycmp c kvs = do {
     c1 \<leftarrow> checkfull c;
     (dst, bfound) \<leftarrow> bsearch_eq (keyvals_cmp keycmp (kvs_key kvs)) (elem_at (c_elems c1)) (int (length (c_elems c1)));
     c_assert (\<not> bfound);
     Some (c1\<lparr>c_elems := insert_at (nat dst) kvs (c_elems c1)\<rparr>)
   }"

definition kvsarr_insert_kv ::
    "('k, 'v) app_arg \<Rightarrow> ('k \<Rightarrow> 'k \<Rightarrow> int) \<Rightarrow> ('k \<Rightarrow> nat \<Rightarrow> 'k) option \<Rightarrow>
     ('k, 'v) keyvals coll \<Rightarrow> 'k \<Rightarrow> 'v \<Rightarrow> nat \<Rightarrow> u32 \<Rightarrow> (bool \<times> ('k, 'v) keyvals coll) option" where
  "kvsarr_insert_kv app keycmp keycopy c key val keylen hash = do {
     (dst, bfound) \<leftarrow> bsearch_eq (keyvals_cmp keycmp key) (elem_at (c_elems c)) (int (length (c_elems c)));
     if bfound
     then Some (False, c\<lparr>c_elems := (c_elems c)[nat dst := values_insert app (c_elems c ! nat dst) val]\<rparr>)
     else do {
       c1 \<leftarrow> checkfull c;
       let kvs = \<lparr>kvs_key = copied_key keycopy key keylen, kvs_vals = [], kvs_alloc = 0, kvs_hash = hash\<rparr>;
       Some (True, c1\<lparr>c_elems := insert_at (nat dst) (values_insert app kvs val) (c_elems c1)\<rparr>)
     }
   }"

text \<open>The iterator is the index of the next pair; \<open>None\<close> where the function returns 1.  With \<open>bclear\<close> the pair is zeroed
  behind it, so that its values are not owned by the collection any more; the key of such a pair is not read again, and
  the model keeps it.\<close>

definition zeroed :: "('k, 'v) keyvals \<Rightarrow> ('k, 'v) keyvals" where
  "zeroed kvs = kvs\<lparr>kvs_vals := [], kvs_alloc := 0, kvs_hash := 0\<rparr>"

definition kvsarr_iter_begin :: "('k, 'v) keyvals coll \<Rightarrow> nat option" where
  "kvsarr_iter_begin c = Some 0"

definition kvsarr_iter_next_kvs ::
    "('k, 'v) keyvals coll \<Rightarrow> nat \<Rightarrow> bool \<Rightarrow> (('k, 'v) keyvals \<times> nat \<times> ('k, 'v) keyvals coll) option" where
  "kvsarr_iter_next_kvs c nxt bclear =
     (if nxt = length (c_elems c) then None
      else Some (c_elems c ! nxt, nxt + 1,
        if bclear then c\<lparr>c_elems := (c_elems c)[nxt := zeroed (c_elems c ! nxt)]\<rparr> else c))"

text \<open>keyvals\_len\_array.c\<close>

definition lenarr_insert_kvslen ::
    "('k, 'v) keyvals_len coll \<Rightarrow> 'k \<Rightarrow> 'v list \<Rightarrow> ('k, 'v) keyvals_len coll option" where
  "lenarr_insert_kvslen c key vals = do {
     c1 \<leftarrow> checkfull c;
     Some (c1\<lparr>c_elems := c_elems c1 @ [\<lparr>kvl_key = key, kvl_vals = vals\<rparr>]\<rparr>)
   }"

end
