(* ===== verification/MT_Coll.thy ===== *)
theory MT_Coll
  imports MT_Base
begin

text \<open>
  Collections of pairs sorted by key (\<open>pchandler.h\<close>): what the rest of the library relies on, as locales over a sorted
  association list, and the array of pairs (\<open>keyvals_array.c\<close>), the first collection that keeps it.
\<close>

section \<open>What a sorted collection of pairs promises (pchandler.h)\<close>

text \<open>The contents of a collection as its entries: key, values and hash.\<close>

type_synonym ('k, 'v) entry_t = "'k \<times> 'v list \<times> u32"

definition pair_entry :: "('k, 'v) keyvals \<Rightarrow> ('k, 'v) entry_t" where
  "pair_entry p = (kvs_key p, kvs_vals p, kvs_hash p)"

text \<open>The contents after \<open>key\<close> was put: \<open>add\<close> adds the value; \<open>new\<close> is the copy of the key that is stored with a new
  entry.\<close>

primrec put_entry ::
    "('k \<Rightarrow> 'k \<Rightarrow> int) \<Rightarrow> ('k \<Rightarrow> 'v list \<Rightarrow> 'v list) \<Rightarrow> 'k \<Rightarrow> 'k \<Rightarrow> u32 \<Rightarrow> ('k, 'v) entry_t list \<Rightarrow> ('k, 'v) entry_t list" where
  "put_entry cmp add key new hash [] = [(new, add new [], hash)]"
| "put_entry cmp add key new hash (e # es) =
     (if cmp key (fst e) = 0 then (fst e, add (fst e) (fst (snd e)), snd (snd e)) # es
      else if cmp key (fst e) < 0 then (new, add new [], hash) # e # es
      else e # put_entry cmp add key new hash es)"

text \<open>The values of a key.\<close>

definition lookup_values :: "('k \<Rightarrow> 'k \<Rightarrow> int) \<Rightarrow> ('k, 'v) entry_t list \<Rightarrow> 'k \<Rightarrow> 'v list option" where
  "lookup_values cmp es key = map_option (\<lambda>e. fst (snd e)) (find (\<lambda>e. cmp key (fst e) = 0) es)"

lemma insert_at_simps [simp]: "insert_at 0 x xs = x # xs" "insert_at (Suc n) x (y # ys) = y # insert_at n x ys"
  by (simp_all add: insert_at_def)

lemma map_insert_at: "map g (insert_at n x xs) = insert_at n (g x) (map g xs)"
  by (simp add: insert_at_def take_map drop_map)

lemma put_entry_absent:
  assumes "\<forall>e\<in>set es. cmp key (fst e) \<noteq> 0"
  shows "put_entry cmp add key new hash es =
    insert_at (length (takeWhile (\<lambda>e. 0 < cmp key (fst e)) es)) (new, add new [], hash) es"
  using assms by (induction es) auto

context key_order
begin

lemma asc_descends: "asc cmp (map g xs) \<Longrightarrow> descends (\<lambda>p. cmp key (g p)) xs"
  unfolding asc_def descends_def sorted_wrt_map
proof (erule sorted_wrt_mono_rel [rotated])
  fix a b assume "cmp (g a) (g b) < 0"
  then show "(0 \<le> cmp key (g b) \<longrightarrow> 0 \<le> cmp key (g a)) \<and> (cmp key (g a) \<le> 0 \<longrightarrow> cmp key (g b) \<le> 0)"
    using less_trans1 [of "g a" "g b" key] less_trans2 [of key "g a" "g b"] le_swap [of key "g b"] le_swap [of key "g a"]
    by linarith
qed

lemma put_entry_present:
  assumes "asc cmp (map fst es)" "i < length es" "cmp key (fst (es ! i)) = 0"
  shows "put_entry cmp add key new hash es =
    es[i := (fst (es ! i), add (fst (es ! i)) (fst (snd (es ! i))), snd (snd (es ! i)))]"
  using assms
proof (induction es arbitrary: i)
  case (Cons e es)
  show ?case
  proof (cases i)
    case 0
    then show ?thesis using Cons.prems by simp
  next
    case (Suc j)
    have "cmp (fst e) (fst (es ! j)) < 0" "cmp (fst (es ! j)) key = 0"
      using Cons.prems Suc eq_sym [of key "fst (es ! j)"] by (auto simp: asc_Cons)
    then have "0 < cmp key (fst e)" using less_trans1 [of "fst e" "fst (es ! j)" key] cmp_swap [of key "fst e"] by simp
    then show ?thesis using Cons.IH [of j] Cons.prems Suc by (simp add: asc_Cons)
  qed
qed simp

lemma put_entry_keys:
  "fst ` set (put_entry cmp add key new hash es) \<subseteq> insert new (fst ` set es)"
  by (induction es) auto

lemma put_entry_asc:
  assumes "cmp new key = 0"
  shows "asc cmp (map fst es) \<Longrightarrow> asc cmp (map fst (put_entry cmp add key new hash es))"
proof (induction es)
  case (Cons e es)
  consider "cmp key (fst e) = 0" | "cmp key (fst e) < 0" | "0 < cmp key (fst e)" by linarith
  then show ?case
  proof cases
    case 1
    then show ?thesis using Cons.prems by (simp add: asc_Cons)
  next
    case 2
    then have "cmp new (fst e) < 0" using eq_left [OF assms] by simp
    then show ?thesis using 2 Cons.prems less_trans1 [of new "fst e"] by (fastforce simp: asc_Cons)
  next
    case 3
    then have "cmp (fst e) new < 0" using eq_right [OF assms] cmp_swap [of key "fst e"] by simp
    then have "cmp (fst e) y < 0" if "y \<in> fst ` set (put_entry cmp add key new hash es)" for y
      using subsetD [OF put_entry_keys that] Cons.prems by (auto simp: asc_Cons)
    then show ?thesis using 3 Cons by (simp add: asc_Cons)
  qed
qed simp

lemma lookup_put_same:
  assumes "cmp new key = 0" "cmp k key = 0" "\<And>a b vs. cmp a b = 0 \<Longrightarrow> add a vs = add b vs" "asc cmp (map fst es)"
  shows "lookup_values cmp (put_entry cmp add key new hash es) k =
    Some (add key (case lookup_values cmp es k of None \<Rightarrow> [] | Some vs \<Rightarrow> vs))"
  using assms(4)
proof (induction es)
  case Nil
  have "cmp k new = 0" using eq_right [OF assms(1), of k] assms(2) by simp
  then show ?case using assms(3) [OF assms(1)] by (simp add: lookup_values_def)
next
  case (Cons e es)
  have kn: "cmp k new = 0" using eq_right [OF assms(1), of k] assms(2) by simp
  consider "cmp key (fst e) = 0" | "cmp key (fst e) < 0" | "0 < cmp key (fst e)" by linarith
  then show ?case
  proof cases
    case 1
    then have "cmp k (fst e) = 0" "cmp (fst e) key = 0" using eq_left [OF assms(2)] eq_sym by simp_all
    then show ?thesis using 1 assms(3) [of "fst e" key] by (simp add: lookup_values_def)
  next
    case 2
    have "cmp k (fst x) \<noteq> 0" if "x \<in> set (e # es)" for x
      using that 2 Cons.prems less_trans1 [of key "fst e" "fst x"] eq_left [OF assms(2), of "fst x"] by (auto simp: asc_Cons)
    then have "find (\<lambda>e. cmp k (fst e) = 0) (e # es) = None" unfolding find_None_iff by blast
    then show ?thesis using 2 kn assms(3) [OF assms(1)] by (simp add: lookup_values_def)
  next
    case 3
    then have "cmp k (fst e) \<noteq> 0" using eq_left [OF assms(2), of "fst e"] by simp
    then show ?thesis using 3 Cons by (simp add: lookup_values_def asc_Cons)
  qed
qed

lemma lookup_put_other:
  assumes "cmp new key = 0" "cmp k key \<noteq> 0"
  shows "lookup_values cmp (put_entry cmp add key new hash es) k = lookup_values cmp es k"
proof -
  have "cmp k new \<noteq> 0" using eq_right [OF assms(1), of k] assms(2) by simp
  moreover have "cmp k x \<noteq> 0" if "cmp key x = 0" for x using eq_right [OF that, of k] assms(2) by simp
  ultimately show ?thesis by (induction es) (auto simp: lookup_values_def)
qed

end

section \<open>The interface of the handlers\<close>

text \<open>The pairs that were put, in order: key, value, length of the key and hash.\<close>

definition put_all ::
    "('k, 'v) app_arg \<Rightarrow> ('k \<Rightarrow> 'k \<Rightarrow> int) \<Rightarrow> ('k \<Rightarrow> nat \<Rightarrow> 'k) option \<Rightarrow>
     ('k \<times> 'v \<times> nat \<times> u32) list \<Rightarrow> ('k, 'v) entry_t list \<Rightarrow> ('k, 'v) entry_t list" where
  "put_all app cmp keycopy = fold (\<lambda>(key, val, keylen, hash).
     put_entry cmp (\<lambda>k vs. add_value app k vs val) key (copied_key keycopy key keylen) hash)"

text \<open>A copy of a key is an equal key.\<close>

definition copies_ok :: "('k \<Rightarrow> 'k \<Rightarrow> int) \<Rightarrow> ('k \<Rightarrow> nat \<Rightarrow> 'k) option \<Rightarrow> 'k \<Rightarrow> nat \<Rightarrow> bool" where
  "copies_ok cmp keycopy key keylen = (cmp (copied_key keycopy key keylen) key = 0)"

text \<open>A collection of pairs sorted by key, with \<open>pch_insert_kv\<close> and \<open>pch_insert_kvs\<close>.\<close>

locale pair_collection =
  fixes app :: "('k, 'v) app_arg" and cmp :: "'k \<Rightarrow> 'k \<Rightarrow> int" and keycopy :: "('k \<Rightarrow> nat \<Rightarrow> 'k) option"
    and insert_kv :: "'c \<Rightarrow> 'k \<Rightarrow> 'v \<Rightarrow> nat \<Rightarrow> u32 \<Rightarrow> (bool \<times> 'c) option"
    and insert_kvs :: "'c \<Rightarrow> ('k, 'v) keyvals \<Rightarrow> 'c option"
    and fresh_coll :: 'c
    and coll_ok :: "'c \<Rightarrow> bool"
    and entries :: "'c \<Rightarrow> ('k, 'v) entry_t list"
  assumes coll_init: "coll_ok fresh_coll" "entries fresh_coll = []"
    and ok_asc: "key_order cmp \<Longrightarrow> coll_ok c \<Longrightarrow> asc cmp (map fst (entries c))"
    and insert_kv: "key_order cmp \<Longrightarrow> coll_ok c \<Longrightarrow> copies_ok cmp keycopy key keylen \<Longrightarrow>
      \<exists>c'. insert_kv c key val keylen hash = Some ((\<forall>e\<in>set (entries c). cmp key (fst e) \<noteq> 0), c') \<and> coll_ok c' \<and>
        entries c' = put_entry cmp (\<lambda>k vs. add_value app k vs val) key (copied_key keycopy key keylen) hash (entries c)"
    and insert_kvs: "key_order cmp \<Longrightarrow> coll_ok c \<Longrightarrow> \<forall>e\<in>set (entries c). cmp (kvs_key kvs) (fst e) \<noteq> 0 \<Longrightarrow>
      \<exists>c'. insert_kvs c kvs = Some c' \<and> coll_ok c' \<and>
        entries c' = put_entry cmp (\<lambda>k vs. kvs_vals kvs) (kvs_key kvs) (kvs_key kvs) (kvs_hash kvs) (entries c)"
begin

primrec insert_list :: "'c \<Rightarrow> ('k \<times> 'v \<times> nat \<times> u32) list \<Rightarrow> 'c option" where
  "insert_list c [] = Some c"
| "insert_list c (x # xs) =
     (case x of (key, val, keylen, hash) \<Rightarrow> do { (fresh, c1) \<leftarrow> insert_kv c key val keylen hash; insert_list c1 xs })"

lemma insert_list_entries:
  assumes "key_order cmp"
  shows "coll_ok c \<Longrightarrow> \<forall>(key, val, keylen, hash)\<in>set xs. copies_ok cmp keycopy key keylen \<Longrightarrow>
    \<exists>c'. insert_list c xs = Some c' \<and> coll_ok c' \<and> entries c' = put_all app cmp keycopy xs (entries c)"
proof (induction xs arbitrary: c)
  case (Cons x xs)
  obtain key val keylen hash where x: "x = (key, val, keylen, hash)" by (cases x)
  obtain c1 where "insert_kv c key val keylen hash = Some ((\<forall>e\<in>set (entries c). cmp key (fst e) \<noteq> 0), c1)" "coll_ok c1"
    "entries c1 = put_entry cmp (\<lambda>k vs. add_value app k vs val) key (copied_key keycopy key keylen) hash (entries c)"
    using insert_kv [OF assms Cons.prems(1), of key keylen val hash] Cons.prems(2) x by auto
  then show ?case using Cons.IH [of c1] Cons.prems(2) by (simp add: x put_all_def)
qed (simp add: put_all_def)

end

text \<open>A collection that can be walked through once, from its first pair to its last, clearing what is behind.\<close>

locale pair_iterator =
  fixes iter_begin :: "'c \<Rightarrow> 'i option"
    and iter_next_kvs :: "'c \<Rightarrow> 'i \<Rightarrow> bool \<Rightarrow> (('k, 'v) keyvals \<times> 'i \<times> 'c) option"
    and coll_ok :: "'c \<Rightarrow> bool"
    and entries :: "'c \<Rightarrow> ('k, 'v) entry_t list"
    and iter_at :: "'c \<Rightarrow> 'i \<Rightarrow> ('k, 'v) entry_t list \<Rightarrow> bool"
  assumes iter_begin: "coll_ok c \<Longrightarrow> (case iter_begin c of None \<Rightarrow> entries c = [] | Some i \<Rightarrow> iter_at c i (entries c))"
    and iter_end: "iter_at c i [] \<Longrightarrow> iter_next_kvs c i True = None"
    and iter_next: "iter_at c i (e # es) \<Longrightarrow>
      \<exists>kvs i' c'. iter_next_kvs c i True = Some (kvs, i', c') \<and> pair_entry kvs = e \<and> iter_at c' i' es"

section \<open>The array of pairs keeps the promise\<close>

definition room_ok :: "'p coll \<Rightarrow> bool" where
  "room_ok c = (length (c_elems c) \<le> c_alloc c \<and> (c_null c \<longrightarrow> c_alloc c = 0))"

definition kvsarr_ok :: "('k \<Rightarrow> 'k \<Rightarrow> int) \<Rightarrow> ('k, 'v) keyvals coll \<Rightarrow> bool" where
  "kvsarr_ok cmp c = (room_ok c \<and> asc cmp (map kvs_key (c_elems c)))"

definition kvsarr_entries :: "('k, 'v) keyvals coll \<Rightarrow> ('k, 'v) entry_t list" where
  "kvsarr_entries c = map pair_entry (c_elems c)"

definition kvsarr_at :: "('k, 'v) keyvals coll \<Rightarrow> nat \<Rightarrow> ('k, 'v) entry_t list \<Rightarrow> bool" where
  "kvsarr_at c i es = (i \<le> length (c_elems c) \<and> drop i (kvsarr_entries c) = es)"

lemma checkfull_ok:
  assumes "room_ok c"
  shows "\<exists>c1. checkfull c = Some c1 \<and> c_elems c1 = c_elems c \<and> length (c_elems c) < c_alloc c1 \<and> \<not> c_null c1"
  using assms by (auto simp: room_ok_def checkfull_def init_array_size_def)

lemma map_fst_entries [simp]: "map fst (kvsarr_entries c) = map kvs_key (c_elems c)"
  by (simp add: kvsarr_entries_def pair_entry_def)

lemma fst_pair_entry [simp]: "fst (pair_entry p) = kvs_key p"
  by (simp add: pair_entry_def)

lemma length_takeWhile_map: "length (takeWhile P (map g xs)) = length (takeWhile (\<lambda>x. P (g x)) xs)"
  by (simp add: takeWhile_map comp_def)

lemma kvsarr_search:
  assumes "key_order cmp" "asc cmp (map kvs_key ps)"
  obtains pos found where "bsearch_eq (keyvals_cmp cmp key) (elem_at ps) (int (length ps)) = Some (pos, found)"
    "found_at (keyvals_cmp cmp key) ps (pos, found)"
  using bsearch_eq_correct [OF key_order.asc_descends [OF assms, of key]] that unfolding keyvals_cmp_def by auto

lemma put_entry_insert_at:
  assumes "found_at (keyvals_cmp cmp key) ps (pos, False)" "pair_entry new = (k, add k [], hash)"
  shows "put_entry cmp add key k hash (map pair_entry ps) = map pair_entry (insert_at (nat pos) new ps)"
    "\<forall>e\<in>set (map pair_entry ps). cmp key (fst e) \<noteq> 0"
proof -
  show *: "\<forall>e\<in>set (map pair_entry ps). cmp key (fst e) \<noteq> 0" using assms(1) by (auto simp: found_at_def keyvals_cmp_def)
  show "put_entry cmp add key k hash (map pair_entry ps) = map pair_entry (insert_at (nat pos) new ps)"
    using put_entry_absent [of "map pair_entry ps" cmp key add k hash] * assms
    by (simp add: found_at_def keyvals_cmp_def map_insert_at length_takeWhile_map)
qed

lemma kvsarr_insert_kv_ok:
  assumes o: "key_order cmp" and ok: "kvsarr_ok cmp c" and cp: "copies_ok cmp keycopy key keylen"
  shows "\<exists>c'. kvsarr_insert_kv app cmp keycopy c key val keylen hash =
      Some ((\<forall>e\<in>set (kvsarr_entries c). cmp key (fst e) \<noteq> 0), c') \<and> kvsarr_ok cmp c' \<and>
    kvsarr_entries c' = put_entry cmp (\<lambda>k vs. add_value app k vs val) key (copied_key keycopy key keylen) hash (kvsarr_entries c)"
proof -
  let ?add = "\<lambda>k vs. add_value app k vs val" and ?ck = "copied_key keycopy key keylen"
  have asc: "asc cmp (map kvs_key (c_elems c))" using ok by (simp add: kvsarr_ok_def)
  have put_asc: "asc cmp (map fst (put_entry cmp ?add key ?ck hash (kvsarr_entries c)))"
    using key_order.put_entry_asc [OF o, of ?ck key "kvsarr_entries c"] cp asc by (simp add: copies_ok_def)
  obtain pos found where r: "bsearch_eq (keyvals_cmp cmp key) (elem_at (c_elems c)) (int (length (c_elems c))) = Some (pos, found)"
    "found_at (keyvals_cmp cmp key) (c_elems c) (pos, found)" using kvsarr_search [OF o asc] .
  have frame: "kvsarr_ok cmp c'" if "kvsarr_entries c' = put_entry cmp ?add key ?ck hash (kvsarr_entries c)" "room_ok c'" for c'
    using put_asc that by (metis kvsarr_ok_def map_fst_entries)
  show ?thesis
  proof (cases found)
    case True
    let ?c = "c\<lparr>c_elems := (c_elems c)[nat pos := values_insert app (c_elems c ! nat pos) val]\<rparr>"
    have i: "nat pos < length (c_elems c)" "cmp key (kvs_key (c_elems c ! nat pos)) = 0"
      using r(2) True by (auto simp: found_at_def keyvals_cmp_def)
    have e: "kvsarr_entries ?c = put_entry cmp ?add key ?ck hash (kvsarr_entries c)"
      using key_order.put_entry_present [OF o, of "kvsarr_entries c" "nat pos" key ?add ?ck hash] i asc
      by (simp add: kvsarr_entries_def map_update pair_entry_def comp_def)
    have ne: "\<not> (\<forall>e\<in>set (kvsarr_entries c). cmp key (fst e) \<noteq> 0)"
      using i by (auto simp: kvsarr_entries_def intro!: bexI [of _ "c_elems c ! nat pos"])
    have "room_ok ?c" using ok by (simp add: kvsarr_ok_def room_ok_def)
    then show ?thesis using r(1) True e ne frame [OF e] by (simp add: kvsarr_insert_kv_def)
  next
    case False
    let ?new = "values_insert app \<lparr>kvs_key = ?ck, kvs_vals = [], kvs_alloc = 0, kvs_hash = hash\<rparr> val"
    obtain c1 where c1: "checkfull c = Some c1" "c_elems c1 = c_elems c" "length (c_elems c) < c_alloc c1" "\<not> c_null c1"
      using checkfull_ok ok by (auto simp: kvsarr_ok_def)
    let ?c = "c1\<lparr>c_elems := insert_at (nat pos) ?new (c_elems c1)\<rparr>"
    have p: "found_at (keyvals_cmp cmp key) (c_elems c) (pos, False)" "pair_entry ?new = (?ck, ?add ?ck [], hash)"
      using r(2) False by (simp_all add: pair_entry_def)
    have e: "kvsarr_entries ?c = put_entry cmp ?add key ?ck hash (kvsarr_entries c)"
      using put_entry_insert_at(1) [where add = ?add, OF p] c1 by (simp add: kvsarr_entries_def)
    have "room_ok ?c" using c1 by (simp add: room_ok_def insert_at_def)
    then show ?thesis
      using r(1) False c1(1) e frame [OF e] put_entry_insert_at(2) [where add = ?add, OF p]
      by (simp add: kvsarr_insert_kv_def kvsarr_entries_def)
  qed
qed

lemma kvsarr_insert_kvs_ok:
  assumes o: "key_order cmp" and ok: "kvsarr_ok cmp c" and new: "\<forall>e\<in>set (kvsarr_entries c). cmp (kvs_key kvs) (fst e) \<noteq> 0"
  shows "\<exists>c'. kvsarr_insert_kvs cmp c kvs = Some c' \<and> kvsarr_ok cmp c' \<and>
    kvsarr_entries c' = put_entry cmp (\<lambda>k vs. kvs_vals kvs) (kvs_key kvs) (kvs_key kvs) (kvs_hash kvs) (kvsarr_entries c)"
proof -
  let ?k = "kvs_key kvs" and ?add = "\<lambda>k vs. kvs_vals kvs"
  have asc: "asc cmp (map kvs_key (c_elems c))" using ok by (simp add: kvsarr_ok_def)
  obtain c1 where c1: "checkfull c = Some c1" "c_elems c1 = c_elems c" "length (c_elems c) < c_alloc c1" "\<not> c_null c1"
    using checkfull_ok ok by (auto simp: kvsarr_ok_def)
  obtain pos found where r: "bsearch_eq (keyvals_cmp cmp ?k) (elem_at (c_elems c)) (int (length (c_elems c))) = Some (pos, found)"
    "found_at (keyvals_cmp cmp ?k) (c_elems c) (pos, found)" using kvsarr_search [OF o asc] .
  have nf: "\<not> found"
    using r(2) new by (auto simp: found_at_def keyvals_cmp_def kvsarr_entries_def split: if_splits)
  let ?c = "c1\<lparr>c_elems := insert_at (nat pos) kvs (c_elems c1)\<rparr>"
  have p: "found_at (keyvals_cmp cmp ?k) (c_elems c) (pos, False)" "pair_entry kvs = (?k, ?add ?k [], kvs_hash kvs)"
    using r(2) nf by (simp_all add: pair_entry_def)
  have e: "kvsarr_entries ?c = put_entry cmp ?add ?k ?k (kvs_hash kvs) (kvsarr_entries c)"
    using put_entry_insert_at(1) [where add = ?add, OF p] c1 by (simp add: kvsarr_entries_def)
  have "asc cmp (map fst (kvsarr_entries ?c))"
    unfolding e using key_order.put_entry_asc [OF o, of ?k ?k "kvsarr_entries c"] asc key_order.cmp_refl [OF o] by simp
  then have "kvsarr_ok cmp ?c" using c1 by (simp add: kvsarr_ok_def room_ok_def insert_at_def)
  then show ?thesis using c1 r(1) nf e by (simp add: kvsarr_insert_kvs_def)
qed

interpretation kvsarr: pair_collection app cmp keycopy "kvsarr_insert_kv app cmp keycopy" "kvsarr_insert_kvs cmp"
    coll_init "kvsarr_ok cmp" kvsarr_entries
  for app :: "('k, 'v) app_arg" and cmp keycopy
proof
  show "kvsarr_ok cmp coll_init" "kvsarr_entries (coll_init :: ('k, 'v) keyvals coll) = []"
    by (simp_all add: kvsarr_ok_def coll_init_def room_ok_def kvsarr_entries_def asc_def)
  show "asc cmp (map fst (kvsarr_entries c))" if "kvsarr_ok cmp c" for c :: "('k, 'v) keyvals coll"
    using that by (simp add: kvsarr_ok_def)
qed (rule kvsarr_insert_kv_ok kvsarr_insert_kvs_ok; assumption)+

interpretation kvsarr_walk: pair_iterator "kvsarr_iter_begin :: ('k, 'v) keyvals coll \<Rightarrow> nat option" kvsarr_iter_next_kvs "kvsarr_ok cmp" kvsarr_entries kvsarr_at
  for cmp :: "'k \<Rightarrow> 'k \<Rightarrow> int"
proof
  fix c :: "('k, 'v) keyvals coll" and i e es
  show "case kvsarr_iter_begin c of None \<Rightarrow> kvsarr_entries c = [] | Some i \<Rightarrow> kvsarr_at c i (kvsarr_entries c)"
    by (simp add: kvsarr_iter_begin_def kvsarr_at_def)
  show "kvsarr_iter_next_kvs c i True = None" if "kvsarr_at c i []"
    using that by (simp add: kvsarr_iter_next_kvs_def kvsarr_at_def kvsarr_entries_def)
  assume a: "kvsarr_at c i (e # es)"
  then have l: "i < length (c_elems c)" by (cases "i = length (c_elems c)") (simp_all add: kvsarr_at_def kvsarr_entries_def)
  then have "drop i (kvsarr_entries c) = pair_entry (c_elems c ! i) # drop (Suc i) (kvsarr_entries c)"
    by (simp add: kvsarr_entries_def Cons_nth_drop_Suc [symmetric])
  then show "\<exists>kvs i' c'. kvsarr_iter_next_kvs c i True = Some (kvs, i', c') \<and> pair_entry kvs = e \<and> kvsarr_at c' i' es"
    using a l by (simp add: kvsarr_iter_next_kvs_def kvsarr_at_def kvsarr_entries_def drop_map)
qed

end
