(* ===== verification/MT_Btree.thy ===== *)
theory MT_Btree
  imports MT_Coll
begin

text \<open>
  The B+tree of Metis (\<open>keyvals_btree.c\<close>), the collection each bucket of a mapper is by default.  Nodes live in a store
  indexed by pointers.  The array \<open>arr\<close> of a leaf holds its pairs; the same array of an internal node holds
  \<open>nkeys\<close> keys and, in the fields \<open>vals\<close>, \<open>nkeys + 1\<close> children, which the model keeps as two lists.  Levels are
  numbered from the leaves; the invariant describes each level as a list of nodes with the keys that separate them.
\<close>

section \<open>Nodes and trees\<close>

definition bt_order :: nat where "bt_order = 3"

record ('k, 'v) btnode =
  bn_parent :: ptr
  bn_pairs :: "('k, 'v) keyvals list"
  bn_keys :: "'k list"
  bn_children :: "ptr list"
  bn_next :: ptr

text \<open>\<open>bt_fresh\<close> is the next address \<open>calloc\<close> returns.\<close>

record ('k, 'v) btree =
  bt_nkeys :: nat
  bt_nlevel :: nat
  bt_root :: ptr
  bt_nodes :: "ptr \<Rightarrow> ('k, 'v) btnode"
  bt_fresh :: ptr

definition blank_node :: "('k, 'v) btnode" where
  "blank_node = \<lparr>bn_parent = NULL, bn_pairs = [], bn_keys = [], bn_children = [], bn_next = NULL\<rparr>"

definition bt_init :: "('k, 'v) btree" where
  "bt_init = \<lparr>bt_nkeys = 0, bt_nlevel = 0, bt_root = NULL, bt_nodes = \<lambda>_. blank_node, bt_fresh = 1\<rparr>"

definition upd_node :: "ptr \<Rightarrow> (('k, 'v) btnode \<Rightarrow> ('k, 'v) btnode) \<Rightarrow> ('k, 'v) btree \<Rightarrow> ('k, 'v) btree" where
  "upd_node p f t = t\<lparr>bt_nodes := (bt_nodes t)(p := f (bt_nodes t p))\<rparr>"

definition create_node :: "('k, 'v) btree \<Rightarrow> ptr \<times> ('k, 'v) btree" where
  "create_node t = (bt_fresh t, t\<lparr>bt_nodes := (bt_nodes t)(bt_fresh t := blank_node), bt_fresh := bt_fresh t + 1\<rparr>)"

section \<open>Insertion\<close>

definition btree_split_internal :: "ptr \<Rightarrow> ('k, 'v) btree \<Rightarrow> ptr \<times> ('k, 'v) btree" where
  "btree_split_internal node t =
     (case create_node t of (newsib, t1) \<Rightarrow>
        let n = bt_nodes t1 node;
            t2 = upd_node newsib (\<lambda>b. b\<lparr>bn_keys := take bt_order (drop (bt_order + 1) (bn_keys n)),
                                        bn_children := drop (bt_order + 1) (bn_children n)\<rparr>) t1
        in (newsib, upd_node node (\<lambda>b. b\<lparr>bn_keys := take bt_order (bn_keys n),
                                          bn_children := take (bt_order + 1) (bn_children n)\<rparr>) t2))"

definition set_parent :: "ptr \<Rightarrow> ptr \<Rightarrow> ('k, 'v) btree \<Rightarrow> ('k, 'v) btree" where
  "set_parent p c = upd_node c (\<lambda>b. b\<lparr>bn_parent := p\<rparr>)"

definition new_root :: "'k \<Rightarrow> ptr \<Rightarrow> ptr \<Rightarrow> ('k, 'v) btree \<Rightarrow> ('k, 'v) btree" where
  "new_root key left right t =
     (case create_node t of (r, t1) \<Rightarrow>
        set_parent r right (set_parent r left
          (upd_node r (\<lambda>b. b\<lparr>bn_keys := [key], bn_children := [left, right]\<rparr>) t1\<lparr>bt_root := r, bt_nlevel := bt_nlevel t + 1\<rparr>)))"

partial_function (option) btree_insert_index ::
    "('k \<Rightarrow> 'k \<Rightarrow> int) \<Rightarrow> 'k \<Rightarrow> ptr \<Rightarrow> ptr \<Rightarrow> ('k, 'v) btree \<Rightarrow> ('k, 'v) btree option" where
  "btree_insert_index keycmp key left right t =
     (let parent = bn_parent (bt_nodes t left) in
      if parent = NULL then Some (new_root key left right t)
      else do {
        let n = bt_nodes t parent;
        ikey \<leftarrow> bsearch_lar (keycmp key) (elem_at (bn_keys n)) (int (length (bn_keys n)));
        let t1 = set_parent parent right (upd_node parent (\<lambda>b. b\<lparr>bn_keys := insert_at (nat ikey) key (bn_keys b),
                   bn_children := insert_at (nat ikey + 1) right (bn_children b)\<rparr>) t);
        let keys = bn_keys (bt_nodes t1 parent);
        if length keys = 2 * bt_order + 1
        then do {
          let newkey = keys ! bt_order;
          let (newparent, t2) = btree_split_internal parent t1;
          t3 \<leftarrow> btree_insert_index keycmp newkey parent newparent t2;
          Some (fold (set_parent newparent) (bn_children (bt_nodes t3 newparent)) t3)
        }
        else Some t1
      })"

primrec descend :: "('k \<Rightarrow> 'k \<Rightarrow> int) \<Rightarrow> 'k \<Rightarrow> ('k, 'v) btree \<Rightarrow> nat \<Rightarrow> ptr \<Rightarrow> ptr option" where
  "descend keycmp key t 0 node = Some node"
| "descend keycmp key t (Suc n) node = do {
     let b = bt_nodes t node;
     ipt \<leftarrow> bsearch_lar (keycmp key) (elem_at (bn_keys b)) (int (length (bn_keys b)));
     child \<leftarrow> elem_at (bn_children b) ipt;
     descend keycmp key t n child
   }"

definition get_leaf :: "('k \<Rightarrow> 'k \<Rightarrow> int) \<Rightarrow> 'k \<Rightarrow> ('k, 'v) btree \<Rightarrow> (ptr \<times> ('k, 'v) btree) option" where
  "get_leaf keycmp key t =
     (if bt_nlevel t = 0
      then (case create_node t of (p, t1) \<Rightarrow> Some (p, t1\<lparr>bt_root := p, bt_nlevel := 1, bt_nkeys := 0\<rparr>))
      else do { leaf \<leftarrow> descend keycmp key t (bt_nlevel t - 1) (bt_root t); Some (leaf, t) })"

text \<open>The array of a leaf has \<open>2 * order + 2\<close> cells; a store behind them is undefined.\<close>

definition insert_key :: "ptr \<Rightarrow> ('k, 'v) keyvals \<Rightarrow> nat \<Rightarrow> ('k, 'v) btree \<Rightarrow> ('k, 'v) btree option" where
  "insert_key leaf kvs pos t =
     (if length (bn_pairs (bt_nodes t leaf)) < 2 * bt_order + 2
      then Some ((upd_node leaf (\<lambda>b. b\<lparr>bn_pairs := insert_at pos kvs (bn_pairs b)\<rparr>) t)\<lparr>bt_nkeys := bt_nkeys t + 1\<rparr>)
      else None)"

definition split_leaf :: "('k \<Rightarrow> 'k \<Rightarrow> int) \<Rightarrow> ptr \<Rightarrow> ('k, 'v) btree \<Rightarrow> ('k, 'v) btree option" where
  "split_leaf keycmp leaf t =
     (case create_node t of (right, t1) \<Rightarrow> do {
        let ps = bn_pairs (bt_nodes t1 leaf);
        let t2 = upd_node leaf (\<lambda>b. b\<lparr>bn_pairs := take (bt_order + 1) ps\<rparr>)
                   (upd_node right (\<lambda>b. b\<lparr>bn_pairs := drop (bt_order + 1) ps\<rparr>) t1);
        t3 \<leftarrow> btree_insert_index keycmp (kvs_key (hd (bn_pairs (bt_nodes t2 right)))) leaf right t2;
        let nxt = bn_next (bt_nodes t3 leaf);
        Some (upd_node right (\<lambda>b. b\<lparr>bn_next := nxt\<rparr>) (upd_node leaf (\<lambda>b. b\<lparr>bn_next := right\<rparr>) t3))
      })"

definition split_if_full :: "('k \<Rightarrow> 'k \<Rightarrow> int) \<Rightarrow> ptr \<Rightarrow> ('k, 'v) btree \<Rightarrow> ('k, 'v) btree option" where
  "split_if_full keycmp leaf t =
     (if length (bn_pairs (bt_nodes t leaf)) = bt_order * 2 + 2 then split_leaf keycmp leaf t else Some t)"

definition bt_insert_kv ::
    "('k, 'v) app_arg \<Rightarrow> ('k \<Rightarrow> 'k \<Rightarrow> int) \<Rightarrow> ('k \<Rightarrow> nat \<Rightarrow> 'k) option \<Rightarrow>
     ('k, 'v) btree \<Rightarrow> 'k \<Rightarrow> 'v \<Rightarrow> nat \<Rightarrow> u32 \<Rightarrow> (bool \<times> ('k, 'v) btree) option" where
  "bt_insert_kv app keycmp keycopy t key val keylen hash = do {
     (leaf, t1) \<leftarrow> get_leaf keycmp key t;
     let ps = bn_pairs (bt_nodes t1 leaf);
     (pos, bfound) \<leftarrow> bsearch_eq (keyvals_cmp keycmp key) (elem_at ps) (int (length ps));
     t2 \<leftarrow> (if bfound then Some t1
        else insert_key leaf
          \<lparr>kvs_key = copied_key keycopy key keylen, kvs_vals = [], kvs_alloc = 0, kvs_hash = hash\<rparr> (nat pos) t1);
     let t3 = upd_node leaf (\<lambda>b. b\<lparr>bn_pairs := (bn_pairs b)[nat pos := values_insert app (bn_pairs b ! nat pos) val]\<rparr>) t2;
     t4 \<leftarrow> split_if_full keycmp leaf t3;
     Some (\<not> bfound, t4)
   }"

definition bt_insert_kvs ::
    "('k \<Rightarrow> 'k \<Rightarrow> int) \<Rightarrow> ('k, 'v) btree \<Rightarrow> ('k, 'v) keyvals \<Rightarrow> ('k, 'v) btree option" where
  "bt_insert_kvs keycmp t kvs = do {
     (leaf, t1) \<leftarrow> get_leaf keycmp (kvs_key kvs) t;
     let ps = bn_pairs (bt_nodes t1 leaf);
     (pos, bfound) \<leftarrow> bsearch_eq (keyvals_cmp keycmp (kvs_key kvs)) (elem_at ps) (int (length ps));
     c_assert (\<not> bfound);
     t2 \<leftarrow> insert_key leaf kvs (nat pos) t1;
     split_if_full keycmp leaf t2
   }"

section \<open>Walking through the leaves\<close>

primrec leftmost :: "('k, 'v) btree \<Rightarrow> nat \<Rightarrow> ptr \<Rightarrow> ptr option" where
  "leftmost t 0 node = Some node"
| "leftmost t (Suc n) node = do { child \<leftarrow> elem_at (bn_children (bt_nodes t node)) 0; leftmost t n child }"

text \<open>The iterator: \<open>next\<close> and \<open>node\<close>.  A tree whose levels are missing a child is not walked.\<close>

definition bt_iter_begin :: "('k, 'v) btree \<Rightarrow> (nat \<times> ptr) option" where
  "bt_iter_begin t =
     (if bt_nlevel t = 0 then None
      else map_option (Pair 0) (leftmost t (bt_nlevel t - 1) (bt_root t)))"

definition bt_iter_next_kvs ::
    "('k, 'v) btree \<Rightarrow> nat \<times> ptr \<Rightarrow> bool \<Rightarrow> (('k, 'v) keyvals \<times> (nat \<times> ptr) \<times> ('k, 'v) btree) option" where
  "bt_iter_next_kvs t it bclear =
     (case it of (nxt, node) \<Rightarrow>
        let at_end = (nxt = length (bn_pairs (bt_nodes t node))) in
        if at_end \<and> bn_next (bt_nodes t node) = NULL then None
        else
          let (nxt', node') = (if at_end then (0, bn_next (bt_nodes t node)) else (nxt, node));
              src = bn_pairs (bt_nodes t node') ! nxt'
          in Some (src, (nxt' + 1, node'),
               if bclear then upd_node node' (\<lambda>b. b\<lparr>bn_pairs := (bn_pairs b)[nxt' := zeroed src]\<rparr>) t else t))"

partial_function (option) copy_leaves :: "('k, 'v) btree \<Rightarrow> ptr \<Rightarrow> ('k, 'v) keyvals list option" where
  "copy_leaves t node =
     (if node = NULL then Some []
      else do { rest \<leftarrow> copy_leaves t (bn_next (bt_nodes t node)); Some (bn_pairs (bt_nodes t node) @ rest) })"

definition bt_copy_kvs :: "('k, 'v) btree \<Rightarrow> ('k, 'v) keyvals list option" where
  "bt_copy_kvs t =
     (if bt_nlevel t = 0 then Some []
      else do {
        node \<leftarrow> leftmost t (bt_nlevel t - 1) (bt_root t);
        kvs \<leftarrow> copy_leaves t node;
        c_assert (length kvs = bt_nkeys t);
        Some kvs
      })"

text \<open>The nodes \<open>btree_delete_level\<close> frees: it visits the first \<open>nkeys\<close> children of an internal node, which has
  \<open>nkeys + 1\<close>.\<close>

primrec btree_delete_level :: "('k, 'v) btree \<Rightarrow> nat \<Rightarrow> ptr \<Rightarrow> ptr list" where
  "btree_delete_level t 0 node = []"
| "btree_delete_level t (Suc n) node =
     (if Suc n \<noteq> 1
      then concat (map (btree_delete_level t n) (take (length (bn_keys (bt_nodes t node))) (bn_children (bt_nodes t node))))
      else []) @ [node]"

text \<open>The nodes that are freed, and the tree, which keeps its number of keys.\<close>

definition bt_shallow_free :: "('k, 'v) btree \<Rightarrow> ptr list \<times> ('k, 'v) btree" where
  "bt_shallow_free t =
     (if bt_nlevel t \<noteq> 0 then (btree_delete_level t (bt_nlevel t) (bt_root t), t\<lparr>bt_nlevel := 0\<rparr>) else ([], t))"

section \<open>The levels of a tree\<close>

text \<open>The keys of a level: those in its nodes and, between two nodes, the key that separates them further up.\<close>

fun interleave :: "'k list list \<Rightarrow> 'k list \<Rightarrow> 'k list" where
  "interleave [] ss = []"
| "interleave (ks # kss) [] = ks"
| "interleave (ks # kss) (s # ss) = ks @ s # interleave kss ss"

text \<open>\<open>upper nodes D S Us\<close>: the nodes \<open>D\<close> of a level, separated by the keys \<open>S\<close>, have the levels \<open>Us\<close> above them.\<close>

primrec upper :: "(ptr \<Rightarrow> ('k, 'v) btnode) \<Rightarrow> ptr list \<Rightarrow> 'k list \<Rightarrow> ptr list list \<Rightarrow> bool" where
  "upper nodes D S [] \<longleftrightarrow> (\<exists>r. D = [r] \<and> S = [] \<and> bn_parent (nodes r) = NULL)"
| "upper nodes D S (U # Us) \<longleftrightarrow> (\<exists>SU. concat (map (bn_children \<circ> nodes) U) = D \<and>
     interleave (map (bn_keys \<circ> nodes) U) SU = S \<and> length U = length SU + 1 \<and>
     (\<forall>u\<in>set U. u \<noteq> NULL \<and> length (bn_children (nodes u)) = length (bn_keys (nodes u)) + 1 \<and>
        length (bn_keys (nodes u)) \<le> 2 * bt_order \<and> (\<forall>c\<in>set (bn_children (nodes u)). bn_parent (nodes c) = u)) \<and>
     upper nodes U SU Us)"

definition kids :: "(ptr \<Rightarrow> ('k, 'v) btnode) \<Rightarrow> ptr \<Rightarrow> 'k list \<times> ptr list" where
  "kids nodes p = (bn_keys (nodes p), bn_children (nodes p))"

lemma upper_cong:
  assumes "\<And>p. p \<in> set (concat Us) \<Longrightarrow> kids n1 p = kids n2 p"
    and "\<And>p. p \<in> set D \<union> set (concat Us) \<Longrightarrow> bn_parent (n1 p) = bn_parent (n2 p)"
  shows "upper n1 D S Us \<longleftrightarrow> upper n2 D S Us"
  using assms
proof (induction Us arbitrary: D S)
  case (Cons U Us)
  have k: "bn_keys (n1 u) = bn_keys (n2 u)" "bn_children (n1 u) = bn_children (n2 u)" if "u \<in> set U" for u
    using Cons.prems(1) [of u] that by (simp_all add: kids_def)
  have m: "map (bn_children \<circ> n1) U = map (bn_children \<circ> n2) U" "map (bn_keys \<circ> n1) U = map (bn_keys \<circ> n2) U"
    using k by simp_all
  have IH: "upper n1 U SU Us \<longleftrightarrow> upper n2 U SU Us" for SU
    using Cons.IH [of U SU] Cons.prems by simp
  have "(u \<noteq> NULL \<and> length (bn_children (n1 u)) = length (bn_keys (n1 u)) + 1 \<and> length (bn_keys (n1 u)) \<le> 2 * bt_order \<and>
        (\<forall>c\<in>set (bn_children (n1 u)). bn_parent (n1 c) = u)) \<longleftrightarrow>
      (u \<noteq> NULL \<and> length (bn_children (n2 u)) = length (bn_keys (n2 u)) + 1 \<and> length (bn_keys (n2 u)) \<le> 2 * bt_order \<and>
        (\<forall>c\<in>set (bn_children (n2 u)). bn_parent (n2 c) = u))"
    if "concat (map (bn_children \<circ> n2) U) = D" "u \<in> set U" for u
  proof -
    have "bn_parent (n1 c) = bn_parent (n2 c)" if "c \<in> set (bn_children (n2 u))" for c
      using Cons.prems(2) [of c] that \<open>concat (map (bn_children \<circ> n2) U) = D\<close> [symmetric] \<open>u \<in> set U\<close> by fastforce
    then show ?thesis using k [OF that(2)] by simp
  qed
  then show ?case unfolding upper.simps m IH by (intro ex_cong1) (auto simp del: set_concat)
qed fastforce

lemma upper_length: "upper nodes D S Us \<Longrightarrow> length D = length S + 1"
proof (induction Us arbitrary: D S)
  case (Cons U Us)
  then obtain SU where u: "concat (map (bn_children \<circ> nodes) U) = D" "interleave (map (bn_keys \<circ> nodes) U) SU = S"
    "length U = length SU + 1" "\<forall>u\<in>set U. length (bn_children (nodes u)) = length (bn_keys (nodes u)) + 1" by auto
  have "length (concat (map (bn_children \<circ> nodes) V)) = length (interleave (map (bn_keys \<circ> nodes) V) ss) + 1"
    if "length V = length ss + 1" "\<forall>u\<in>set V. length (bn_children (nodes u)) = length (bn_keys (nodes u)) + 1" for V ss
    using that
  proof (induction ss arbitrary: V)
    case Nil
    then show ?case by (cases V) auto
  next
    case (Cons s ss)
    then show ?case by (cases V) auto
  qed
  then show ?case using u by blast
qed auto

text \<open>The part of the sequence before and behind one node of the level.\<close>

primrec keys_before :: "'k list list \<Rightarrow> 'k list \<Rightarrow> 'k list" where
  "keys_before [] ss = []"
| "keys_before (ks # kss) ss = ks @ hd ss # keys_before kss (tl ss)"

primrec keys_behind :: "'k list list \<Rightarrow> 'k list \<Rightarrow> 'k list" where
  "keys_behind [] ss = []"
| "keys_behind (ks # kss) ss = hd ss # ks @ keys_behind kss (tl ss)"

lemma interleave_Cons: "length kss = length ss \<Longrightarrow> interleave (ks # kss) ss = ks @ keys_behind kss ss"
  by (induction kss ss arbitrary: ks rule: list_induct2) simp_all

lemma interleave_split:
  "length A = length sa \<Longrightarrow> length B = length sb \<Longrightarrow>
   interleave (A @ ks # B) (sa @ sb) = keys_before A sa @ ks @ keys_behind B sb"
proof (induction A arbitrary: sa)
  case Nil
  then show ?case using interleave_Cons [of B sb ks] by simp
next
  case (Cons a A)
  then show ?case by (cases sa) auto
qed

lemma keys_before_seps: "length A = length sa \<Longrightarrow> set sa \<subseteq> set (keys_before A sa)"
  by (induction A sa rule: list_induct2) auto

lemma keys_behind_seps: "length B = length sb \<Longrightarrow> set sb \<subseteq> set (keys_behind B sb)"
  by (induction B sb rule: list_induct2) auto

lemma asc_keys_before: "key_order cmp \<Longrightarrow> length A = length sa \<Longrightarrow> asc cmp (keys_before A sa) \<Longrightarrow> asc cmp sa"
proof (induction A arbitrary: sa)
  case (Cons a A)
  then obtain s ss where "sa = s # ss" by (cases sa) auto
  then show ?case using Cons keys_before_seps [of A ss]
    by (auto simp: key_order.asc_append [OF Cons.prems(1)] key_order.asc_Cons [OF Cons.prems(1)])
qed (simp add: asc_def)

lemma asc_keys_behind: "key_order cmp \<Longrightarrow> length B = length sb \<Longrightarrow> asc cmp (keys_behind B sb) \<Longrightarrow> asc cmp sb"
proof (induction B arbitrary: sb)
  case (Cons b B)
  then obtain s ss where "sb = s # ss" by (cases sb) auto
  then show ?case using Cons keys_behind_seps [of B ss]
    by (auto simp: key_order.asc_append [OF Cons.prems(1)] key_order.asc_Cons [OF Cons.prems(1)])
qed (simp add: asc_def)

text \<open>The node of a level above a given child, with the children and keys around it.\<close>

lemma split_concat:
  assumes "concat (map f U) = D1 @ x # D2"
  obtains U1 u U2 C1 C2 where "U = U1 @ u # U2" "f u = C1 @ x # C2" "D1 = concat (map f U1) @ C1" "D2 = C2 @ concat (map f U2)"
  using assms
proof (induction U arbitrary: D1 thesis)
  case (Cons a U)
  consider zs where "f a = D1 @ x # zs" "zs @ concat (map f U) = D2"
    | ys where "D1 = f a @ ys" "concat (map f U) = ys @ x # D2"
    using Cons.prems(2) by (fastforce simp: append_eq_append_conv2 append_eq_Cons_conv Cons_eq_append_conv)
  then show ?case
  proof cases
    case 1
    then show ?thesis using Cons.prems(1) [of "[]" a U D1 zs] by simp
  next
    case 2
    obtain U1 u U2 C1 C2 where "U = U1 @ u # U2" "f u = C1 @ x # C2" "ys = concat (map f U1) @ C1" "D2 = C2 @ concat (map f U2)"
      using Cons.IH [OF _ 2(2)] by blast
    then show ?thesis using Cons.prems(1) [of "a # U1" u U2 C1 C2] 2(1) by simp
  qed
qed simp

lemma keys_before_length: "length A = length sa \<Longrightarrow> length (keys_before A sa) = length (concat A) + length A"
  by (induction A arbitrary: sa) auto

lemma kids_length:
  assumes "\<forall>u\<in>set U. length (g u) = length (f u) + 1" "length U = length sa"
  shows "length (concat (map g U)) = length (keys_before (map f U) sa)"
proof -
  have "length (concat (map g U)) = length (concat (map f U)) + length U" using assms(1) by (induction U) auto
  then show ?thesis using keys_before_length [of "map f U" sa] assms(2) by simp
qed

section \<open>Descending to a leaf\<close>

definition root_of :: "ptr list \<Rightarrow> ptr list list \<Rightarrow> ptr" where
  "root_of D Us = hd (if Us = [] then D else last Us)"

lemma root_of_Cons: "root_of D (U # Us) = root_of U Us"
  by (simp add: root_of_def)

lemma descend_step:
  "descend cmp key t (Suc n) p = do {
     q \<leftarrow> descend cmp key t n p;
     ipt \<leftarrow> bsearch_lar (cmp key) (elem_at (bn_keys (bt_nodes t q))) (int (length (bn_keys (bt_nodes t q))));
     elem_at (bn_children (bt_nodes t q)) ipt
   }"
proof (induction n arbitrary: p)
  case (Suc n)
  let ?step = "\<lambda>q. do {
     ipt \<leftarrow> bsearch_lar (cmp key) (elem_at (bn_keys (bt_nodes t q))) (int (length (bn_keys (bt_nodes t q))));
     elem_at (bn_children (bt_nodes t q)) ipt
   }"
  have "descend cmp key t (Suc (Suc n)) p = do {
      ipt \<leftarrow> bsearch_lar (cmp key) (elem_at (bn_keys (bt_nodes t p))) (int (length (bn_keys (bt_nodes t p))));
      child \<leftarrow> elem_at (bn_children (bt_nodes t p)) ipt;
      descend cmp key t (Suc n) child }"
    by (simp only: descend.simps(2) [of cmp key t "Suc n" p] Let_def)
  also have "\<dots> = do {
      ipt \<leftarrow> bsearch_lar (cmp key) (elem_at (bn_keys (bt_nodes t p))) (int (length (bn_keys (bt_nodes t p))));
      child \<leftarrow> elem_at (bn_children (bt_nodes t p)) ipt;
      (descend cmp key t n child \<bind> ?step) }"
    by (simp only: Suc)
  also have "\<dots> = do { q \<leftarrow> descend cmp key t (Suc n) p; ?step q }"
    by (simp add: Let_def)
  finally show ?case .
qed (simp add: Let_def)

text \<open>The keys up to the search key.\<close>

abbreviation upto_key :: "('k \<Rightarrow> 'k \<Rightarrow> int) \<Rightarrow> 'k \<Rightarrow> 'k list \<Rightarrow> 'k list" where
  "upto_key cmp key \<equiv> takeWhile (\<lambda>s. 0 \<le> cmp key s)"

lemma bsearch_keys:
  assumes "key_order cmp" "asc cmp ks"
  shows "bsearch_lar (cmp key) (elem_at ks) (int (length ks)) = Some (int (length (upto_key cmp key ks)))"
  using bsearch_lar_correct [of "cmp key" ks] key_order.asc_descends [OF assms(1), of "\<lambda>x. x" ks key] assms(2) by simp

lemma keys_before_upto:
  assumes o: "key_order cmp" and l: "length A = length sa" and a: "asc cmp (keys_before A sa)"
    and s: "\<forall>s\<in>set sa. 0 \<le> cmp key s"
  shows "\<forall>x\<in>set (keys_before A sa). 0 \<le> cmp key x"
  using l a s
proof (induction A sa rule: list_induct2)
  case (Cons k A s sa)
  have "0 \<le> cmp key x" if "x \<in> set k" for x
  proof -
    have "cmp x s < 0" "0 \<le> cmp key s" using that Cons.prems by (auto simp: key_order.asc_append [OF o])
    then show ?thesis
      using key_order.less_trans1 [OF o, of x s key] key_order.le_swap [OF o, of key s] key_order.le_swap [OF o, of key x] by simp
  qed
  then show ?case using Cons by (auto simp: key_order.asc_append [OF o] key_order.asc_Cons [OF o])
qed simp

lemma upto_split:
  assumes "\<forall>x\<in>set A. 0 \<le> cmp key x" "B = [] \<or> cmp key (hd B) < 0"
  shows "upto_key cmp key (A @ M @ B) = A @ upto_key cmp key M"
proof -
  have "upto_key cmp key (M @ B) = upto_key cmp key M"
    using assms(2)
    by (cases "\<forall>x\<in>set M. 0 \<le> cmp key x"; cases B) (simp_all add: takeWhile_append takeWhile_eq_all_conv [THEN iffD2])
  then show ?thesis using assms(1) by (simp add: takeWhile_append)
qed

lemma hd_keys_behind: "length B = length sb \<Longrightarrow> keys_behind B sb = [] \<and> sb = [] \<or> hd (keys_behind B sb) = hd sb \<and> sb \<noteq> []"
  by (cases B; cases sb) auto

text \<open>The place of the search key in a level and in the one below it.\<close>

lemma level_split:
  assumes o: "key_order cmp" and l: "length U = length SU + 1" and a: "asc cmp (interleave (map f U) SU)"
  obtains U1 u U2 SU1 SU2 where "U = U1 @ u # U2" "SU = SU1 @ SU2" "length U1 = length SU1" "length U2 = length SU2"
    "length SU1 = length (upto_key cmp key SU)" "u = U ! length SU1"
    "interleave (map f U) SU = keys_before (map f U1) SU1 @ f u @ keys_behind (map f U2) SU2"
    "upto_key cmp key (interleave (map f U) SU) = keys_before (map f U1) SU1 @ upto_key cmp key (f u)"
    "asc cmp (f u)" "asc cmp SU"
proof -
  define SU1 where "SU1 = upto_key cmp key SU"
  define SU2 where "SU2 = dropWhile (\<lambda>s. 0 \<le> cmp key s) SU"
  have SU: "SU = SU1 @ SU2" by (simp add: SU1_def SU2_def)
  define n where "n = length SU1"
  have n: "n < length U" using l SU by (simp add: n_def)
  have U: "U = take n U @ U ! n # drop (Suc n) U" using n by (simp add: id_take_nth_drop)
  have ln: "length (take n U) = length SU1" "length (drop (Suc n) U) = length SU2"
    using n l SU by (simp_all add: n_def)
  have i: "interleave (map f U) SU = keys_before (map f (take n U)) SU1 @ f (U ! n) @ keys_behind (map f (drop (Suc n) U)) SU2"
    using interleave_split [of "map f (take n U)" SU1 "map f (drop (Suc n) U)" SU2 "f (U ! n)"] ln U SU
    by (metis length_map list.simps(9) map_append)
  have before: "\<forall>x\<in>set (keys_before (map f (take n U)) SU1). 0 \<le> cmp key x"
    by (rule keys_before_upto [OF o]) (use ln a i key_order.asc_append [OF o] in \<open>auto simp: SU1_def dest: set_takeWhileD\<close>)
  have "SU2 = [] \<or> cmp key (hd SU2) < 0" using hd_dropWhile [of "\<lambda>s. 0 \<le> cmp key s" SU] by (force simp: SU2_def)
  then have "upto_key cmp key (interleave (map f U) SU) = keys_before (map f (take n U)) SU1 @ upto_key cmp key (f (U ! n))"
    unfolding i using upto_split [of "keys_before (map f (take n U)) SU1" cmp key] before hd_keys_behind [of "map f (drop (Suc n) U)" SU2] ln by auto
  moreover have "asc cmp (f (U ! n))" using a i by (auto simp: key_order.asc_append [OF o])
  moreover have "asc cmp SU"
  proof -
    have b: "asc cmp (keys_before (map f (take n U)) SU1)" "asc cmp (keys_behind (map f (drop (Suc n) U)) SU2)"
      "\<forall>x\<in>set (keys_before (map f (take n U)) SU1). \<forall>y\<in>set (keys_behind (map f (drop (Suc n) U)) SU2). cmp x y < 0"
      using a i by (auto simp: key_order.asc_append [OF o])
    show ?thesis
      using asc_keys_before [OF o _ b(1)] asc_keys_behind [OF o _ b(2)] b(3) ln
        keys_before_seps [of "map f (take n U)" SU1] keys_behind_seps [of "map f (drop (Suc n) U)" SU2]
      by (auto simp: SU key_order.asc_append [OF o])
  qed
  ultimately show thesis using that [OF U SU ln _ _ i] by (simp add: SU1_def n_def)
qed

lemma descend_ok:
  assumes o: "key_order cmp"
  shows "upper (bt_nodes t) D S Us \<Longrightarrow> asc cmp S \<Longrightarrow>
    descend cmp key t (length Us) (root_of D Us) = Some (D ! length (upto_key cmp key S))"
proof (induction Us arbitrary: D S)
  case Nil
  then show ?case by (auto simp: root_of_def)
next
  case (Cons U Us)
  let ?n = "bt_nodes t"
  obtain SU where u: "concat (map (bn_children \<circ> ?n) U) = D" "interleave (map (bn_keys \<circ> ?n) U) SU = S" "length U = length SU + 1"
    "\<forall>u\<in>set U. length ((bn_children \<circ> ?n) u) = length ((bn_keys \<circ> ?n) u) + 1" "upper ?n U SU Us"
    using Cons.prems(1) by auto
  have a: "asc cmp (interleave (map (bn_keys \<circ> ?n) U) SU)" using Cons.prems(2) u(2) by simp
  obtain U1 q U2 SU1 SU2 where s: "U = U1 @ q # U2" "SU = SU1 @ SU2" "length U1 = length SU1" "length U2 = length SU2"
    "length SU1 = length (upto_key cmp key SU)" "q = U ! length SU1"
    "interleave (map (bn_keys \<circ> ?n) U) SU =
       keys_before (map (bn_keys \<circ> ?n) U1) SU1 @ (bn_keys \<circ> ?n) q @ keys_behind (map (bn_keys \<circ> ?n) U2) SU2"
    "upto_key cmp key (interleave (map (bn_keys \<circ> ?n) U) SU) =
       keys_before (map (bn_keys \<circ> ?n) U1) SU1 @ upto_key cmp key ((bn_keys \<circ> ?n) q)"
    "asc cmp ((bn_keys \<circ> ?n) q)" "asc cmp SU"
    using level_split [OF o u(3) a, where key = key] by blast
  have d: "descend cmp key t (length Us) (root_of U Us) = Some q" using Cons.IH [OF u(5) s(10)] s(5,6) by simp
  let ?k = "bn_keys (?n q)" and ?c = "bn_children (?n q)"
  have i: "length (upto_key cmp key ?k) < length ?c" using u(4) s(1) length_takeWhile_le [of _ ?k] by (auto simp: le_imp_less_Suc)
  have c: "length (concat (map (bn_children \<circ> ?n) U1)) = length (keys_before (map (bn_keys \<circ> ?n) U1) SU1)"
    by (rule kids_length) (use u(4) s(1,3) in auto)
  have "D ! length (upto_key cmp key S) = ?c ! length (upto_key cmp key ?k)"
    using u(1,2) s(1,8) c i by (auto simp: nth_append)
  then show ?case using d bsearch_keys [OF o, of ?k key] s(9) i by (simp add: descend_step root_of_Cons del: descend.simps)
qed

section \<open>Inserting a separator\<close>

definition level_ok :: "(ptr \<Rightarrow> ('k, 'v) btnode) \<Rightarrow> ptr list \<Rightarrow> 'k list \<Rightarrow> ptr list \<Rightarrow> 'k list \<Rightarrow> bool" where
  "level_ok nodes U SU D S \<longleftrightarrow> concat (map (bn_children \<circ> nodes) U) = D \<and>
     interleave (map (bn_keys \<circ> nodes) U) SU = S \<and> length U = length SU + 1 \<and>
     (\<forall>u\<in>set U. u \<noteq> NULL \<and> length (bn_children (nodes u)) = length (bn_keys (nodes u)) + 1 \<and>
        (\<forall>c\<in>set (bn_children (nodes u)). bn_parent (nodes c) = u))"

lemma level_okD:
  assumes "level_ok nodes U SU D S"
  shows "concat (map (bn_children \<circ> nodes) U) = D" "interleave (map (bn_keys \<circ> nodes) U) SU = S" "length U = length SU + 1"
    "u \<in> set U \<Longrightarrow> u \<noteq> NULL \<and> length (bn_children (nodes u)) = length (bn_keys (nodes u)) + 1 \<and>
        (\<forall>c\<in>set (bn_children (nodes u)). bn_parent (nodes c) = u)"
  using assms unfolding level_ok_def by blast+

definition keys_fit :: "(ptr \<Rightarrow> ('k, 'v) btnode) \<Rightarrow> ptr list \<Rightarrow> bool" where
  "keys_fit nodes U \<longleftrightarrow> (\<forall>u\<in>set U. length (bn_keys (nodes u)) \<le> 2 * bt_order)"

lemma upper_Cons:
  "upper nodes D S (U # Us) \<longleftrightarrow> (\<exists>SU. level_ok nodes U SU D S \<and> keys_fit nodes U \<and> upper nodes U SU Us)"
  by (auto simp: level_ok_def keys_fit_def)

lemma level_at:
  assumes l: "level_ok nodes U SU (D1 @ x # D2) (S1 @ S2)" "length S1 = length D1"
  obtains U1 u U2 SU1 SU2 C1 C2 K1 K2 where "U = U1 @ u # U2" "SU = SU1 @ SU2" "length U1 = length SU1" "length U2 = length SU2"
    "u = bn_parent (nodes x)" "u \<noteq> NULL"
    "bn_children (nodes u) = C1 @ x # C2" "D1 = concat (map (bn_children \<circ> nodes) U1) @ C1"
    "D2 = C2 @ concat (map (bn_children \<circ> nodes) U2)"
    "bn_keys (nodes u) = K1 @ K2" "length K1 = length C1" "length K2 = length C2"
    "S1 = keys_before (map (bn_keys \<circ> nodes) U1) SU1 @ K1" "S2 = K2 @ keys_behind (map (bn_keys \<circ> nodes) U2) SU2"
proof -
  have cc: "concat (map (bn_children \<circ> nodes) U) = D1 @ x # D2" using level_okD(1) [OF l(1)] .
  obtain U1 u U2 C1 C2 where u: "U = U1 @ u # U2" "(bn_children \<circ> nodes) u = C1 @ x # C2"
    "D1 = concat (map (bn_children \<circ> nodes) U1) @ C1" "D2 = C2 @ concat (map (bn_children \<circ> nodes) U2)"
    using split_concat [OF cc] by metis
  define SU1 where "SU1 = take (length U1) SU"
  define SU2 where "SU2 = drop (length U1) SU"
  have sl: "SU = SU1 @ SU2" "length U1 = length SU1" "length U2 = length SU2"
    using level_okD(3) [OF l(1)] u(1) by (simp_all add: SU1_def SU2_def)
  have per: "length (bn_children (nodes v)) = length (bn_keys (nodes v)) + 1" if "v \<in> set U" for v
    using level_okD(4) [OF l(1) that] by blast
  define K1 where "K1 = take (length C1) (bn_keys (nodes u))"
  define K2 where "K2 = drop (length C1) (bn_keys (nodes u))"
  have k: "bn_keys (nodes u) = K1 @ K2" "length K1 = length C1" "length K2 = length C2"
    using per [of u] u(1,2) by (simp_all add: K1_def K2_def)
  have i: "interleave (map (bn_keys \<circ> nodes) U) SU =
      keys_before (map (bn_keys \<circ> nodes) U1) SU1 @ (K1 @ K2) @ keys_behind (map (bn_keys \<circ> nodes) U2) SU2"
    using interleave_split [of "map (bn_keys \<circ> nodes) U1" SU1 "map (bn_keys \<circ> nodes) U2" SU2 "K1 @ K2"] sl u(1) k(1)
    by simp
  have "length (concat (map (bn_children \<circ> nodes) U1)) = length (keys_before (map (bn_keys \<circ> nodes) U1) SU1)"
    by (rule kids_length) (use per u(1) sl(2) in auto)
  then have "length S1 = length (keys_before (map (bn_keys \<circ> nodes) U1) SU1 @ K1)" using l(2) u(3) k(2) by simp
  moreover have "S1 @ S2 = (keys_before (map (bn_keys \<circ> nodes) U1) SU1 @ K1) @ K2 @ keys_behind (map (bn_keys \<circ> nodes) U2) SU2"
    using level_okD(2) [OF l(1)] i by simp
  ultimately have S: "S1 = keys_before (map (bn_keys \<circ> nodes) U1) SU1 @ K1" "S2 = K2 @ keys_behind (map (bn_keys \<circ> nodes) U2) SU2"
    by (metis append_eq_append_conv)+
  have p: "u = bn_parent (nodes x)" "u \<noteq> NULL" using level_okD(4) [OF l(1), of u] u(1,2) by auto
  show thesis by (rule that [OF u(1) sl p _ u(3,4) k S]) (use u(2) in simp)
qed

lemma map_other: "u \<notin> set U \<Longrightarrow> (\<And>v. v \<noteq> u \<Longrightarrow> f' v = f v) \<Longrightarrow> map f' U = map f U"
  by (induction U) auto

text \<open>A child and a key more in one node of a level.\<close>

lemma level_insert:
  assumes l: "level_ok nodes (U1 @ u # U2) (SU1 @ SU2) D S" and len: "length U1 = length SU1" "length U2 = length SU2"
    and kids: "bn_children (nodes u) = C1 @ x # C2" "bn_keys (nodes u) = K1 @ K2"
    and d: "distinct (U1 @ u # U2)" "distinct D" "right \<notin> set D"
    and new: "\<And>v. v \<in> set (U1 @ U2) \<Longrightarrow> kids n' v = kids nodes v" "bn_children (n' u) = C1 @ x # right # C2"
      "bn_keys (n' u) = K1 @ key # K2" "\<And>c. c \<in> set D \<Longrightarrow> bn_parent (n' c) = bn_parent (nodes c)" "bn_parent (n' right) = u"
  shows "level_ok n' (U1 @ u # U2) (SU1 @ SU2)
    (concat (map (bn_children \<circ> nodes) U1) @ C1 @ x # right # C2 @ concat (map (bn_children \<circ> nodes) U2))
    (keys_before (map (bn_keys \<circ> nodes) U1) SU1 @ K1 @ key # K2 @ keys_behind (map (bn_keys \<circ> nodes) U2) SU2)"
proof -
  have k: "bn_children (n' v) = bn_children (nodes v)" "bn_keys (n' v) = bn_keys (nodes v)" if "v \<in> set (U1 @ U2)" for v
    using new(1) [OF that] by (simp_all add: kids_def)
  have m: "map (bn_children \<circ> n') U1 = map (bn_children \<circ> nodes) U1" "map (bn_children \<circ> n') U2 = map (bn_children \<circ> nodes) U2"
    "map (bn_keys \<circ> n') U1 = map (bn_keys \<circ> nodes) U1" "map (bn_keys \<circ> n') U2 = map (bn_keys \<circ> nodes) U2"
    using k by simp_all
  have D: "D = concat (map (bn_children \<circ> nodes) U1) @ (C1 @ x # C2) @ concat (map (bn_children \<circ> nodes) U2)"
    using level_okD(1) [OF l] kids(1) by simp
  have old: "v \<noteq> NULL \<and> length (bn_children (nodes v)) = length (bn_keys (nodes v)) + 1 \<and>
      (\<forall>c\<in>set (bn_children (nodes v)). bn_parent (nodes c) = v)" if "v \<in> set (U1 @ u # U2)" for v
    using level_okD(4) [OF l] that by blast
  have sub: "c \<in> set D" if "v \<in> set (U1 @ U2)" "c \<in> set (bn_children (nodes v))" for c v
    using that D by auto
  have "v \<noteq> NULL \<and> length (bn_children (n' v)) = length (bn_keys (n' v)) + 1 \<and>
      (\<forall>c\<in>set (bn_children (n' v)). bn_parent (n' c) = v)" if "v \<in> set (U1 @ U2)" for v
    using old [of v] k [OF that] that sub [OF that] new(4) by auto
  moreover have "u \<noteq> NULL \<and> length (bn_children (n' u)) = length (bn_keys (n' u)) + 1 \<and>
      (\<forall>c\<in>set (bn_children (n' u)). bn_parent (n' c) = u)"
    using old [of u] kids new(2,3,5) new(4) D by auto
  moreover have "interleave (map (bn_keys \<circ> n') (U1 @ u # U2)) (SU1 @ SU2) =
      keys_before (map (bn_keys \<circ> nodes) U1) SU1 @ K1 @ key # K2 @ keys_behind (map (bn_keys \<circ> nodes) U2) SU2"
  proof -
    have A: "map (bn_keys \<circ> n') (U1 @ u # U2) = map (bn_keys \<circ> nodes) U1 @ (K1 @ key # K2) # map (bn_keys \<circ> nodes) U2"
      unfolding map_append list.map m comp_apply new(3) ..
    show ?thesis unfolding A
      using interleave_split [of "map (bn_keys \<circ> nodes) U1" SU1 "map (bn_keys \<circ> nodes) U2" SU2 "K1 @ key # K2"] len by simp
  qed
  moreover have "concat (map (bn_children \<circ> n') (U1 @ u # U2)) =
      concat (map (bn_children \<circ> nodes) U1) @ C1 @ x # right # C2 @ concat (map (bn_children \<circ> nodes) U2)"
    unfolding map_append list.map m comp_apply new(2) by simp
  ultimately show ?thesis unfolding level_ok_def using len by auto
qed

text \<open>A node of a level is split in two, and its middle key goes up.\<close>

lemma level_divide:
  assumes l: "level_ok nodes (U1 @ u # U2) (SU1 @ SU2) D S" and len: "length U1 = length SU1" "length U2 = length SU2"
    and kids: "bn_children (nodes u) = CA @ CB" "bn_keys (nodes u) = KA @ nk # KB" "length CA = length KA + 1"
    and d: "distinct D" "np \<noteq> NULL"
    and new: "\<And>v. v \<in> set (U1 @ U2) \<Longrightarrow> kids n' v = kids nodes v" "kids n' u = (KA, CA)" "kids n' np = (KB, CB)"
      "\<And>c. c \<in> set D \<Longrightarrow> bn_parent (n' c) = (if c \<in> set CB then np else bn_parent (nodes c))"
  shows "level_ok n' (U1 @ u # np # U2) (SU1 @ nk # SU2) D S"
proof -
  have k: "bn_children (n' v) = bn_children (nodes v)" "bn_keys (n' v) = bn_keys (nodes v)" if "v \<in> set (U1 @ U2)" for v
    using new(1) [OF that] by (simp_all add: kids_def)
  have m: "map (bn_children \<circ> n') U1 = map (bn_children \<circ> nodes) U1" "map (bn_children \<circ> n') U2 = map (bn_children \<circ> nodes) U2"
    "map (bn_keys \<circ> n') U1 = map (bn_keys \<circ> nodes) U1" "map (bn_keys \<circ> n') U2 = map (bn_keys \<circ> nodes) U2"
    using k by simp_all
  have q: "bn_children (n' u) = CA" "bn_keys (n' u) = KA" "bn_children (n' np) = CB" "bn_keys (n' np) = KB"
    using new(2,3) by (simp_all add: kids_def)
  have D: "D = concat (map (bn_children \<circ> nodes) U1) @ (CA @ CB) @ concat (map (bn_children \<circ> nodes) U2)"
    using level_okD(1) [OF l] kids(1) by simp
  have old: "v \<noteq> NULL \<and> length (bn_children (nodes v)) = length (bn_keys (nodes v)) + 1 \<and>
      (\<forall>c\<in>set (bn_children (nodes v)). bn_parent (nodes c) = v)" if "v \<in> set (U1 @ u # U2)" for v
    using level_okD(4) [OF l] that by blast
  have sub: "c \<in> set D \<and> c \<notin> set CB" if "v \<in> set (U1 @ U2)" "c \<in> set (bn_children (nodes v))" for c v
    using that D d(1) by auto
  have "v \<noteq> NULL \<and> length (bn_children (n' v)) = length (bn_keys (n' v)) + 1 \<and>
      (\<forall>c\<in>set (bn_children (n' v)). bn_parent (n' c) = v)" if "v \<in> set (U1 @ U2)" for v
    using old [of v] k [OF that] that sub [OF that] new(4) by auto
  moreover have "u \<noteq> NULL \<and> length (bn_children (n' u)) = length (bn_keys (n' u)) + 1 \<and>
      (\<forall>c\<in>set (bn_children (n' u)). bn_parent (n' c) = u)"
    using old [of u] kids q new(4) D d(1) by auto
  moreover have "length (bn_children (n' np)) = length (bn_keys (n' np)) + 1 \<and>
      (\<forall>c\<in>set (bn_children (n' np)). bn_parent (n' c) = np)"
    using old [of u] kids q new(4) D by auto
  moreover have "interleave (map (bn_keys \<circ> n') (U1 @ u # np # U2)) (SU1 @ nk # SU2) = S"
  proof -
    have A: "map (bn_keys \<circ> n') (U1 @ u # np # U2) = map (bn_keys \<circ> nodes) U1 @ KA # KB # map (bn_keys \<circ> nodes) U2"
      unfolding map_append list.map m comp_apply q ..
    moreover have "map (bn_keys \<circ> nodes) (U1 @ u # U2) = map (bn_keys \<circ> nodes) U1 @ (KA @ nk # KB) # map (bn_keys \<circ> nodes) U2"
      unfolding map_append list.map comp_apply kids(2) ..
    ultimately show ?thesis unfolding A
      using interleave_split [of "map (bn_keys \<circ> nodes) U1" SU1 "KB # map (bn_keys \<circ> nodes) U2" "nk # SU2" KA]
        interleave_split [of "map (bn_keys \<circ> nodes) U1" SU1 "map (bn_keys \<circ> nodes) U2" SU2 "KA @ nk # KB"]
        len level_okD(2) [OF l] by (simp del: map_map)
  qed
  moreover have "concat (map (bn_children \<circ> n') (U1 @ u # np # U2)) = D"
    unfolding map_append list.map m comp_apply q D by simp
  ultimately show ?thesis unfolding level_ok_def using len d(2) by auto
qed

text \<open>What an insertion into the upper levels leaves alone: pairs and links of all nodes, the keys and children of the
  nodes outside \<open>K\<close>, and the parents of those outside \<open>P\<close>.\<close>

definition grown :: "ptr set \<Rightarrow> ptr set \<Rightarrow> ('k, 'v) btree \<Rightarrow> ('k, 'v) btree \<Rightarrow> bool" where
  "grown P K t t' \<longleftrightarrow> bt_fresh t \<le> bt_fresh t' \<and> bt_nkeys t' = bt_nkeys t \<and>
     (\<forall>p<bt_fresh t. bn_pairs (bt_nodes t' p) = bn_pairs (bt_nodes t p) \<and> bn_next (bt_nodes t' p) = bn_next (bt_nodes t p) \<and>
        (p \<notin> K \<longrightarrow> kids (bt_nodes t' ) p = kids (bt_nodes t) p) \<and>
        (p \<notin> P \<longrightarrow> bn_parent (bt_nodes t' p) = bn_parent (bt_nodes t p)))"

definition new_levels :: "('k, 'v) btree \<Rightarrow> ('k, 'v) btree \<Rightarrow> ptr list list \<Rightarrow> ptr list list \<Rightarrow> bool" where
  "new_levels t t' Us Us' \<longleftrightarrow> distinct (concat Us') \<and>
     (\<forall>p\<in>set (concat Us'). p \<in> set (concat Us) \<or> bt_fresh t \<le> p \<and> p < bt_fresh t') \<and>
     bt_nlevel t' + length Us = bt_nlevel t + length Us'"

lemma insert_at_app: "length A = n \<Longrightarrow> insert_at n x (A @ B) = A @ x # B"
  by (simp add: insert_at_def)

lemma set_parent_fields [simp]:
  "bt_nodes (set_parent q c t) = (bt_nodes t)(c := (bt_nodes t c)\<lparr>bn_parent := q\<rparr>)"
  "bt_fresh (set_parent q c t) = bt_fresh t" "bt_nkeys (set_parent q c t) = bt_nkeys t"
  "bt_nlevel (set_parent q c t) = bt_nlevel t" "bt_root (set_parent q c t) = bt_root t"
  by (simp_all add: set_parent_def upd_node_def)

lemma fold_set_parent:
  "bt_nodes (fold (set_parent q) cs t) = (\<lambda>p. if p \<in> set cs then (bt_nodes t p)\<lparr>bn_parent := q\<rparr> else bt_nodes t p) \<and>
   bt_fresh (fold (set_parent q) cs t) = bt_fresh t \<and> bt_nkeys (fold (set_parent q) cs t) = bt_nkeys t \<and>
   bt_nlevel (fold (set_parent q) cs t) = bt_nlevel t \<and> bt_root (fold (set_parent q) cs t) = bt_root t"
  by (induction cs arbitrary: t) (auto simp: fun_eq_iff)

lemma asc_split_position:
  assumes o: "key_order cmp" and a: "asc cmp (K1 @ key # K2)"
  shows "bsearch_lar (cmp key) (elem_at (K1 @ K2)) (int (length (K1 @ K2))) = Some (int (length K1))"
proof -
  have a': "asc cmp (K1 @ K2)" "\<forall>x\<in>set K1. 0 \<le> cmp key x" "K2 = [] \<or> cmp key (hd K2) < 0"
    using a key_order.cmp_swap [OF o, of key]
    by (cases K2; auto simp: key_order.asc_append [OF o] key_order.asc_Cons [OF o] intro: less_imp_le)+
  have "upto_key cmp key (K1 @ [] @ K2) = K1 @ upto_key cmp key []" using a'(2,3) by (rule upto_split)
  then show ?thesis using bsearch_keys [OF o a'(1), of key] by simp
qed

text \<open>The new root.\<close>

lemma new_root_ok:
  assumes "left \<noteq> right" "\<forall>p\<in>{left, right}. p \<noteq> NULL \<and> p < bt_fresh t"
  shows "upper (bt_nodes (new_root key left right t)) [left, right] [key] [[bt_fresh t]]"
    "grown {left, right} {} t (new_root key left right t)" "new_levels t (new_root key left right t) [] [[bt_fresh t]]"
    "bt_root (new_root key left right t) = bt_fresh t"
  using assms
  by (auto simp: new_root_def create_node_def set_parent_def upd_node_def Let_def blank_node_def grown_def kids_def bt_order_def
      new_levels_def)

text \<open>A node with one child and one key more.\<close>

definition with_child :: "ptr \<Rightarrow> nat \<Rightarrow> 'k \<Rightarrow> ptr \<Rightarrow> ('k, 'v) btree \<Rightarrow> ('k, 'v) btree" where
  "with_child u i key right t = set_parent u right (upd_node u (\<lambda>b. b\<lparr>bn_keys := insert_at i key (bn_keys b),
     bn_children := insert_at (i + 1) right (bn_children b)\<rparr>) t)"

lemma with_child_fields [simp]:
  "bt_fresh (with_child u i key right t) = bt_fresh t" "bt_nkeys (with_child u i key right t) = bt_nkeys t"
  "bt_nlevel (with_child u i key right t) = bt_nlevel t" "bt_root (with_child u i key right t) = bt_root t"
  "bn_pairs (bt_nodes (with_child u i key right t) p) = bn_pairs (bt_nodes t p)"
  "bn_next (bt_nodes (with_child u i key right t) p) = bn_next (bt_nodes t p)"
  "bn_parent (bt_nodes (with_child u i key right t) p) = (if p = right then u else bn_parent (bt_nodes t p))"
  "bn_keys (bt_nodes (with_child u i key right t) p) =
     (if p = u then insert_at i key (bn_keys (bt_nodes t p)) else bn_keys (bt_nodes t p))"
  "bn_children (bt_nodes (with_child u i key right t) p) =
     (if p = u then insert_at (i + 1) right (bn_children (bt_nodes t p)) else bn_children (bt_nodes t p))"
  by (simp_all add: with_child_def set_parent_def upd_node_def)

lemma split_internal_fields:
  assumes "btree_split_internal u t = (np, t2)" "u \<noteq> bt_fresh t"
  shows "np = bt_fresh t" "bt_fresh t2 = bt_fresh t + 1" "bt_nkeys t2 = bt_nkeys t" "bt_nlevel t2 = bt_nlevel t" "bt_root t2 = bt_root t"
    "p \<noteq> np \<Longrightarrow> bn_pairs (bt_nodes t2 p) = bn_pairs (bt_nodes t p) \<and> bn_next (bt_nodes t2 p) = bn_next (bt_nodes t p) \<and>
      bn_parent (bt_nodes t2 p) = bn_parent (bt_nodes t p)"
    "p \<noteq> np \<Longrightarrow> p \<noteq> u \<Longrightarrow> kids (bt_nodes t2) p = kids (bt_nodes t) p"
    "kids (bt_nodes t2) u = (take bt_order (bn_keys (bt_nodes t u)), take (bt_order + 1) (bn_children (bt_nodes t u)))"
    "kids (bt_nodes t2) np = (take bt_order (drop (bt_order + 1) (bn_keys (bt_nodes t u))), drop (bt_order + 1) (bn_children (bt_nodes t u)))"
  using assms by (auto simp: btree_split_internal_def create_node_def upd_node_def Let_def kids_def)

text \<open>The situation in which a separator is sep_inserted: node \<open>left\<close> of a level was divided, \<open>right\<close> is its new sibling.\<close>

definition sep_pending where
  "sep_pending cmp t D1 left D2 right S1 key S2 Us \<longleftrightarrow> upper (bt_nodes t) (D1 @ left # D2) (S1 @ S2) Us \<and> length S1 = length D1 \<and>
     asc cmp (S1 @ key # S2) \<and> distinct (D1 @ left # D2 @ right # concat Us) \<and>
     (\<forall>p\<in>set (D1 @ left # D2 @ right # concat Us). p \<noteq> NULL \<and> p < bt_fresh t)"

definition sep_inserted where
  "sep_inserted t D1 left D2 right S1 key S2 Us t' Us' \<longleftrightarrow> upper (bt_nodes t') (D1 @ left # right # D2) (S1 @ key # S2) Us' \<and>
     grown (set (D1 @ left # right # D2 @ concat Us)) (set (concat Us)) t t' \<and> new_levels t t' Us Us' \<and>
     (bt_root t = root_of (D1 @ left # D2) Us \<longrightarrow> bt_root t' = root_of (D1 @ left # right # D2) Us')"

lemma asc_seps:
  assumes o: "key_order cmp" and l: "length A = length sa" "length B = length sb"
    and a: "asc cmp (keys_before A sa @ (M1 @ nk # M2) @ keys_behind B sb)"
  shows "asc cmp (sa @ nk # sb)"
proof -
  note ap = key_order.asc_append [OF o] key_order.asc_Cons [OF o]
  have b: "asc cmp (keys_before A sa)" "asc cmp (keys_behind B sb)"
    "\<forall>x\<in>set (keys_before A sa). cmp x nk < 0 \<and> (\<forall>y\<in>set (keys_behind B sb). cmp x y < 0)"
    "\<forall>y\<in>set (keys_behind B sb). cmp nk y < 0"
    using a by (auto simp: ap)
  show ?thesis
    using asc_keys_before [OF o l(1) b(1)] asc_keys_behind [OF o l(2) b(2)] b(3,4) keys_before_seps [OF l(1)] keys_behind_seps [OF l(2)]
    by (simp add: ap) blast
qed

text \<open>The node that gets the separator.\<close>

lemma sep_pending_step:
  assumes o: "key_order cmp" and p: "sep_pending cmp t D1 left D2 right S1 key S2 (U # Us)"
  obtains U1 u U2 SU1 SU2 i where "U = U1 @ u # U2" "length U1 = length SU1" "length U2 = length SU2"
    "u = bn_parent (bt_nodes t left)" "u \<noteq> NULL" "i \<le> length (bn_keys (bt_nodes t u))"
    "length (bn_children (bt_nodes t u)) = length (bn_keys (bt_nodes t u)) + 1"
    "bsearch_lar (cmp key) (elem_at (bn_keys (bt_nodes t u))) (int (length (bn_keys (bt_nodes t u)))) = Some (int i)"
    "level_ok (bt_nodes (with_child u i key right t)) U (SU1 @ SU2) (D1 @ left # right # D2) (S1 @ key # S2)"
    "keys_fit (bt_nodes t) U" "upper (bt_nodes t) U (SU1 @ SU2) Us"
proof -
  let ?n = "bt_nodes t"
  have len: "length S1 = length D1" and a: "asc cmp (S1 @ key # S2)" and d: "distinct (D1 @ left # D2 @ right # concat (U # Us))"
    using p by (simp_all add: sep_pending_def)
  obtain SU where l: "level_ok ?n U SU (D1 @ left # D2) (S1 @ S2)" and fit: "keys_fit ?n U" and up: "upper ?n U SU Us"
    using p unfolding sep_pending_def upper_Cons by blast
  obtain U1 u U2 SU1 SU2 C1 C2 K1 K2 where s: "U = U1 @ u # U2" "SU = SU1 @ SU2" "length U1 = length SU1" "length U2 = length SU2"
    "u = bn_parent (?n left)" "u \<noteq> NULL"
    "bn_children (?n u) = C1 @ left # C2" "D1 = concat (map (bn_children \<circ> ?n) U1) @ C1"
    "D2 = C2 @ concat (map (bn_children \<circ> ?n) U2)"
    "bn_keys (?n u) = K1 @ K2" "length K1 = length C1" "length K2 = length C2"
    "S1 = keys_before (map (bn_keys \<circ> ?n) U1) SU1 @ K1" "S2 = K2 @ keys_behind (map (bn_keys \<circ> ?n) U2) SU2"
    using level_at [OF l len] .
  have "asc cmp (K1 @ key # K2)"
    using a unfolding s(13,14) by (auto simp: key_order.asc_append [OF o] key_order.asc_Cons [OF o])
  then have bs: "bsearch_lar (cmp key) (elem_at (bn_keys (?n u))) (int (length (bn_keys (?n u)))) = Some (int (length C1))"
    using asc_split_position [OF o, of K1 key K2] s(10,11) by simp
  let ?n1 = "bt_nodes (with_child u (length C1) key right t)"
  have dU: "distinct (U1 @ u # U2)" "right \<notin> set (U1 @ u # U2)" "right \<notin> set (D1 @ left # D2)" "distinct (D1 @ left # D2)"
    using d s(1) by auto
  have "level_ok ?n1 (U1 @ u # U2) (SU1 @ SU2)
      (concat (map (bn_children \<circ> ?n) U1) @ C1 @ left # right # C2 @ concat (map (bn_children \<circ> ?n) U2))
      (keys_before (map (bn_keys \<circ> ?n) U1) SU1 @ K1 @ key # K2 @ keys_behind (map (bn_keys \<circ> ?n) U2) SU2)"
  proof (rule level_insert [where n' = ?n1, OF l [unfolded s(1,2)] s(3,4,7,10) dU(1,4,3)])
    show "kids ?n1 v = kids ?n v" if "v \<in> set (U1 @ U2)" for v using that dU(1) by (auto simp: kids_def)
    show "bn_children (?n1 u) = C1 @ left # right # C2" "bn_keys (?n1 u) = K1 @ key # K2"
      using insert_at_app [of "C1 @ [left]" "length C1 + 1" right C2] insert_at_app [of K1 "length C1" key K2] s(7,10,11)
      by simp_all
    show "bn_parent (?n1 c) = bn_parent (?n c)" if "c \<in> set (D1 @ left # D2)" for c using that dU(3) by auto
  qed simp
  then have "level_ok ?n1 U (SU1 @ SU2) (D1 @ left # right # D2) (S1 @ key # S2)"
    unfolding s(1,8,9,13,14) by simp
  then show thesis using that [OF s(1,3,4,5,6) _ _ bs _ fit] up s(2,7,10,11,12) by simp
qed

lemma insert_index_unfold:
  assumes "u = bn_parent (bt_nodes t left)" "u \<noteq> NULL"
    "bsearch_lar (cmp key) (elem_at (bn_keys (bt_nodes t u))) (int (length (bn_keys (bt_nodes t u)))) = Some (int i)"
  shows "btree_insert_index cmp key left right t =
    (let t1 = with_child u i key right t; keys = bn_keys (bt_nodes t1 u) in
     if length keys = 2 * bt_order + 1
     then do {
       let (newparent, t2) = btree_split_internal u t1;
       t3 \<leftarrow> btree_insert_index cmp (keys ! bt_order) u newparent t2;
       Some (fold (set_parent newparent) (bn_children (bt_nodes t3 newparent)) t3)
     }
     else Some t1)"
  using assms by (subst btree_insert_index.simps) (simp add: Let_def with_child_def)

lemma sep_pendingD:
  assumes "sep_pending cmp t D1 left D2 right S1 key S2 Us"
  shows "distinct (D1 @ left # D2 @ right # concat Us)" "\<And>p. p \<in> set (D1 @ left # D2 @ right # concat Us) \<Longrightarrow> p \<noteq> NULL \<and> p < bt_fresh t"
    "asc cmp (S1 @ key # S2)"
  using assms unfolding sep_pending_def by blast+

text \<open>Without overflow the insertion ends here.\<close>

lemma sep_inserted_here:
  assumes p: "sep_pending cmp t D1 left D2 right S1 key S2 (U # Us)" and u: "u \<in> set U" and fit: "keys_fit (bt_nodes t) U"
    and room: "length (bn_keys (bt_nodes t u)) < 2 * bt_order" "i \<le> length (bn_keys (bt_nodes t u))"
    and l: "level_ok (bt_nodes (with_child u i key right t)) U SU (D1 @ left # right # D2) (S1 @ key # S2)"
    and up: "upper (bt_nodes t) U SU Us"
  shows "sep_inserted t D1 left D2 right S1 key S2 (U # Us) (with_child u i key right t) (U # Us)"
proof -
  let ?t = "with_child u i key right t"
  note d = sep_pendingD [OF p]
  have out: "u \<notin> set (concat Us)" "right \<notin> set U \<union> set (concat Us)" using d(1) u by auto
  have "upper (bt_nodes ?t) U SU Us \<longleftrightarrow> upper (bt_nodes t) U SU Us"
  proof (rule upper_cong)
    show "kids (bt_nodes ?t) p = kids (bt_nodes t) p" if "p \<in> set (concat Us)" for p
      using that out(1) by (auto simp: kids_def)
    show "bn_parent (bt_nodes ?t p) = bn_parent (bt_nodes t p)" if "p \<in> set U \<union> set (concat Us)" for p
      using that out(2) by auto
  qed
  moreover have "keys_fit (bt_nodes ?t) U" using fit room by (auto simp: keys_fit_def insert_at_def)
  ultimately have "upper (bt_nodes ?t) (D1 @ left # right # D2) (S1 @ key # S2) (U # Us)" using l up unfolding upper_Cons by blast
  moreover have "grown (set (D1 @ left # right # D2 @ concat (U # Us))) (set (concat (U # Us))) t ?t"
    using u by (auto simp: grown_def kids_def)
  moreover have "new_levels t ?t (U # Us) (U # Us)" using d(1) by (simp add: new_levels_def)
  ultimately show ?thesis by (simp add: sep_inserted_def root_of_Cons)
qed

text \<open>With overflow the node is divided and its middle key is to be inserted one level up.\<close>

lemma sep_pending_above:
  assumes o: "key_order cmp" and p: "sep_pending cmp t D1 left D2 right S1 key S2 (U # Us)"
    and s: "U = U1 @ u # U2" "length U1 = length SU1" "length U2 = length SU2"
    and full: "bn_keys (bt_nodes t1 u) = KA @ nk # KB" and t1: "t1 = with_child u i key right t"
    and l: "level_ok (bt_nodes t1) U (SU1 @ SU2) (D1 @ left # right # D2) (S1 @ key # S2)"
    and up: "upper (bt_nodes t) U (SU1 @ SU2) Us"
    and sp: "btree_split_internal u t1 = (np, t2)"
  shows "sep_pending cmp t2 U1 u U2 np SU1 nk SU2 Us" "np = bt_fresh t"
proof -
  note d = sep_pendingD [OF p]
  have u: "u \<noteq> bt_fresh t1" using d(2) [of u] s(1) by (auto simp: t1)
  note sf = split_internal_fields [OF sp u]
  show np: "np = bt_fresh t" using sf(1) by (simp add: t1)
  have below: "q \<noteq> np" if "q \<in> set (D1 @ left # D2 @ right # concat (U # Us))" for q using d(2) [OF that] np by simp
  have out: "q \<noteq> u \<and> q \<noteq> np \<and> q \<noteq> right" if "q \<in> set (concat Us)" for q using that d(1) s(1) below [of q] by auto
  have "upper (bt_nodes t2) U (SU1 @ SU2) Us \<longleftrightarrow> upper (bt_nodes t) U (SU1 @ SU2) Us"
  proof (rule upper_cong)
    show "kids (bt_nodes t2) q = kids (bt_nodes t) q" if "q \<in> set (concat Us)" for q
      using sf(7) [of q] out [OF that] by (simp add: t1 kids_def)
    show "bn_parent (bt_nodes t2 q) = bn_parent (bt_nodes t q)" if "q \<in> set U \<union> set (concat Us)" for q
    proof -
      have "q \<noteq> np" "q \<noteq> right" using that d(1) below [of q] by auto
      then show ?thesis using sf(6) [of q] by (simp add: t1)
    qed
  qed
  then have 1: "upper (bt_nodes t2) (U1 @ u # U2) (SU1 @ SU2) Us" using up s(1) by simp
  have "S1 @ key # S2 = keys_before (map (bn_keys \<circ> bt_nodes t1) U1) SU1 @ (KA @ nk # KB) @ keys_behind (map (bn_keys \<circ> bt_nodes t1) U2) SU2"
    using level_okD(2) [OF l] interleave_split [of "map (bn_keys \<circ> bt_nodes t1) U1" SU1 "map (bn_keys \<circ> bt_nodes t1) U2" SU2 "KA @ nk # KB"]
      s full by simp
  then have 2: "asc cmp (SU1 @ nk # SU2)" using d(3) asc_seps [OF o] s(2,3) by (metis length_map)
  have 3: "distinct (U1 @ u # U2 @ np # concat Us)" using d(1) s(1) below by auto
  have "q \<noteq> NULL \<and> q < bt_fresh t2" if "q \<in> set (U1 @ u # U2 @ np # concat Us)" for q
  proof (cases "q = np")
    case True
    then show ?thesis using np sf(2) d(2) [of left] by (simp add: t1)
  next
    case False
    then have "q \<in> set (D1 @ left # D2 @ right # concat (U # Us))" using that s(1) by auto
    then show ?thesis using d(2) [of q] sf(2) by (simp add: t1 less_SucI)
  qed
  then show "sep_pending cmp t2 U1 u U2 np SU1 nk SU2 Us" unfolding sep_pending_def using 1 2 3 s(2) by simp
qed

lemma sep_insertedD:
  assumes "sep_inserted t D1 left D2 right S1 key S2 Us t' Us'"
  shows "upper (bt_nodes t') (D1 @ left # right # D2) (S1 @ key # S2) Us'"
    "grown (set (D1 @ left # right # D2 @ concat Us)) (set (concat Us)) t t'" "new_levels t t' Us Us'"
    "bt_root t = root_of (D1 @ left # D2) Us \<Longrightarrow> bt_root t' = root_of (D1 @ left # right # D2) Us'"
  using assms by (simp_all add: sep_inserted_def)

lemma sep_inserted_above:
  assumes p: "sep_pending cmp t D1 left D2 right S1 key S2 (U # Us)"
    and s: "U = U1 @ u # U2" "length U1 = length SU1" "length U2 = length SU2" and fit: "keys_fit (bt_nodes t) U"
    and full: "bn_keys (bt_nodes t1 u) = KA @ nk # KB" "length KA = bt_order" "length KB = bt_order"
    and t1: "t1 = with_child u i key right t"
    and l: "level_ok (bt_nodes t1) U (SU1 @ SU2) (D1 @ left # right # D2) (S1 @ key # S2)"
    and sp: "btree_split_internal u t1 = (np, t2)" and np: "np = bt_fresh t"
    and above: "sep_inserted t2 U1 u U2 np SU1 nk SU2 Us t3 Us'"
  shows "sep_inserted t D1 left D2 right S1 key S2 (U # Us)
    (fold (set_parent np) (bn_children (bt_nodes t3 np)) t3) ((U1 @ u # np # U2) # Us')"
proof -
  let ?U = "U1 @ u # np # U2" and ?D = "D1 @ left # right # D2"
  let ?cs = "bn_children (bt_nodes t3 np)"
  let ?t = "fold (set_parent np) ?cs t3"
  note d = sep_pendingD [OF p] and ab = sep_insertedD [OF above] and fs = fold_set_parent [of np ?cs t3]
  have u: "u \<noteq> bt_fresh t1" using d(2) [of u] s(1) by (auto simp: t1)
  note sf = split_internal_fields [OF sp u]
  have npn: "np \<noteq> NULL" using np d(2) [of left] by auto
  have inU: "u \<in> set U" using s(1) by simp
  have below: "q < np" if "q \<in> set (D1 @ left # D2 @ right # concat (U # Us))" for q using d(2) [OF that] np by simp
  have g: "bt_fresh t2 \<le> bt_fresh t3" "bt_nkeys t3 = bt_nkeys t"
    "\<And>q. q < bt_fresh t2 \<Longrightarrow> bn_pairs (bt_nodes t3 q) = bn_pairs (bt_nodes t2 q) \<and> bn_next (bt_nodes t3 q) = bn_next (bt_nodes t2 q) \<and>
        (q \<notin> set (concat Us) \<longrightarrow> kids (bt_nodes t3) q = kids (bt_nodes t2) q) \<and>
        (q \<notin> set (?U @ concat Us) \<longrightarrow> bn_parent (bt_nodes t3 q) = bn_parent (bt_nodes t2 q))"
    using ab(2) sf(3) by (auto simp: grown_def t1)
  have kidsU: "kids (bt_nodes t3) q = kids (bt_nodes t2) q" if "q \<in> set ?U" for q
    using that g(3) [of q] d(1) s(1) below [of q] sf(2) by (auto simp: t1 np)
  have cu: "length (bn_children (bt_nodes t1 u)) = 2 * bt_order + 2"
    using level_okD(4) [OF l inU] full by simp
  define CA where "CA = take (bt_order + 1) (bn_children (bt_nodes t1 u))"
  define CB where "CB = drop (bt_order + 1) (bn_children (bt_nodes t1 u))"
  have kk: "kids (bt_nodes t2) u = (KA, CA)" "kids (bt_nodes t2) np = (KB, CB)"
    using sf(8,9) full by (simp_all add: CA_def CB_def)
  have cs: "?cs = CB" using kidsU [of np] kk(2) by (simp add: kids_def)
  have kids4: "kids (bt_nodes ?t) q = kids (bt_nodes t3) q" for q using fs by (auto simp: kids_def)
  have par4: "bn_parent (bt_nodes ?t q) = (if q \<in> set CB then np else bn_parent (bt_nodes t3 q))" for q using fs by (auto simp: cs)
  have D3: "bn_parent (bt_nodes t3 c) = bn_parent (bt_nodes t1 c)" if "c \<in> set ?D" for c
  proof -
    have "c \<noteq> np" "c < bt_fresh t2" "c \<notin> set (?U @ concat Us)" using that below [of c] d(1) s(1) sf(2) np by (auto simp: t1)
    then show ?thesis using g(3) [of c] sf(6) [of c] by simp
  qed
  have lev: "level_ok (bt_nodes ?t) ?U (SU1 @ nk # SU2) ?D (S1 @ key # S2)"
  proof (rule level_divide [OF l [unfolded s(1)] s(2,3), of CA CB KA nk KB np "bt_nodes ?t"])
    show "bn_children (bt_nodes t1 u) = CA @ CB" by (simp add: CA_def CB_def)
    show "length CA = length KA + 1" using cu full by (simp add: CA_def)
    show "distinct ?D" using d(1) by auto
    show "kids (bt_nodes ?t) v = kids (bt_nodes t1) v" if "v \<in> set (U1 @ U2)" for v
      using kids4 [of v] kidsU [of v] sf(7) [of v] that d(1) s(1) below [of v] by auto
    show "kids (bt_nodes ?t) u = (KA, CA)" "kids (bt_nodes ?t) np = (KB, CB)"
      using kids4 kidsU [of u] kidsU [of np] kk by simp_all
    show "bn_parent (bt_nodes ?t c) = (if c \<in> set CB then np else bn_parent (bt_nodes t1 c))" if "c \<in> set ?D" for c
      using par4 D3 [OF that] by simp
  qed (use full npn in auto)
  have old: "q \<in> set (concat Us) \<or> bt_fresh t2 \<le> q \<and> q < bt_fresh t3" if "q \<in> set (concat Us')" for q
    using ab(3) that unfolding new_levels_def by blast
  have "set (bn_children (bt_nodes t1 u)) \<subseteq> set ?D" unfolding level_okD(1) [OF l, symmetric] s(1) by auto
  then have CBD: "set CB \<subseteq> set ?D" using set_drop_subset unfolding CB_def by fast
  have "upper (bt_nodes ?t) ?U (SU1 @ nk # SU2) Us' \<longleftrightarrow> upper (bt_nodes t3) ?U (SU1 @ nk # SU2) Us'"
  proof (rule upper_cong)
    show "bn_parent (bt_nodes ?t q) = bn_parent (bt_nodes t3 q)" if "q \<in> set ?U \<union> set (concat Us')" for q
    proof -
      have "q \<notin> set ?D"
      proof
        assume q: "q \<in> set ?D"
        then have "q \<notin> set ?U \<union> set (concat Us)" using d(1) s(1) below [of q] by auto
        then have "bt_fresh t2 \<le> q" using that old [of q] by auto
        then show False using q below [of q] sf(2) by (auto simp: t1 np)
      qed
      then show ?thesis using par4 CBD by auto
    qed
  qed (rule kids4)
  then have up: "upper (bt_nodes ?t) ?U (SU1 @ nk # SU2) Us'" using ab(1) by simp
  have "length (bn_keys (bt_nodes ?t q)) \<le> 2 * bt_order" if qU: "q \<in> set ?U" for q
  proof -
    have k: "kids (bt_nodes ?t) q = kids (bt_nodes t2) q" using kids4 kidsU [OF qU] by simp
    consider "q = u" | "q = np" | "q \<in> set (U1 @ U2)" "q \<noteq> u" "q \<noteq> np" using qU by (cases "q = u"; cases "q = np") auto
    then show ?thesis
    proof cases
      case 3
      then have "kids (bt_nodes ?t) q = kids (bt_nodes t) q" using k sf(7) [of q] by (simp add: t1 kids_def)
      then show ?thesis using fit 3(1) s(1) by (auto simp: kids_def keys_fit_def)
    qed (use k kk full in \<open>auto simp: kids_def\<close>)
  qed
  then have 1: "upper (bt_nodes ?t) ?D (S1 @ key # S2) (?U # Us')" using lev up unfolding upper_Cons keys_fit_def by blast
  have 2: "grown (set (?D @ concat (U # Us))) (set (concat (U # Us))) t ?t"
    unfolding grown_def
  proof (intro conjI allI impI)
    show "bt_fresh t \<le> bt_fresh ?t" "bt_nkeys ?t = bt_nkeys t" using fs g(1,2) sf(2) by (simp_all add: t1)
    fix q assume q: "q < bt_fresh t"
    then have q': "q \<noteq> np" "q < bt_fresh t2" using np sf(2) by (simp_all add: t1)
    have "bn_pairs (bt_nodes ?t q) = bn_pairs (bt_nodes t3 q) \<and> bn_next (bt_nodes ?t q) = bn_next (bt_nodes t3 q)" using fs by simp
    then show "bn_pairs (bt_nodes ?t q) = bn_pairs (bt_nodes t q)" "bn_next (bt_nodes ?t q) = bn_next (bt_nodes t q)"
      using g(3) [OF q'(2)] sf(6) [OF q'(1)] by (simp_all add: t1)
    show "kids (bt_nodes ?t) q = kids (bt_nodes t) q" if "q \<notin> set (concat (U # Us))"
      using that kids4 [of q] g(3) [OF q'(2)] sf(7) [OF q'(1)] inU by (auto simp: t1 kids_def)
    show "bn_parent (bt_nodes ?t q) = bn_parent (bt_nodes t q)" if "q \<notin> set (?D @ concat (U # Us))"
      using that par4 [of q] CBD g(3) [OF q'(2)] sf(6) [OF q'(1)] q' s(1) by (auto simp: t1)
  qed
  have "distinct ?U \<and> set ?U \<inter> set (concat Us') = {}"
  proof
    have "np \<notin> set U" using below [of np] by auto
    moreover have "distinct U" using d(1) by simp
    ultimately show "distinct ?U" using s(1) by simp
    have "q \<notin> set (concat Us')" if "q \<in> set ?U" for q
    proof
      assume a: "q \<in> set (concat Us')"
      show False using old [OF a] that d(1) s(1) below [of q] sf(2) np by (auto simp: t1)
    qed
    then show "set ?U \<inter> set (concat Us') = {}" by blast
  qed
  then have 3: "new_levels t ?t (U # Us) (?U # Us')"
    unfolding new_levels_def
  proof (intro conjI ballI)
    fix p assume "p \<in> set (concat (?U # Us'))"
    then consider "p \<in> set U" | "p = np" | "p \<in> set (concat Us')" using s(1) by auto
    then show "p \<in> set (concat (U # Us)) \<or> bt_fresh t \<le> p \<and> p < bt_fresh ?t"
    proof cases
      case 3
      then show ?thesis using old [of p] fs sf(2) by (auto simp: t1)
    qed (use fs sf(2) g(1) np in \<open>auto simp: t1\<close>)
  next
    have "distinct (concat Us')" "bt_nlevel t3 + length Us = bt_nlevel t2 + length Us'"
      using ab(3) unfolding new_levels_def by blast+
    then show "distinct (concat (?U # Us'))" "bt_nlevel ?t + length (U # Us) = bt_nlevel t + length (?U # Us')"
      using \<open>distinct ?U \<and> set ?U \<inter> set (concat Us') = {}\<close> fs sf(4) by (auto simp: t1)
  qed
  show ?thesis unfolding sep_inserted_def root_of_Cons using 1 2 3 ab(4) fs sf(5) s(1) by (simp add: t1)
qed

lemma btree_insert_index_ok:
  assumes o: "key_order cmp"
  shows "sep_pending cmp t D1 left D2 right S1 key S2 Us \<Longrightarrow>
    \<exists>t' Us'. btree_insert_index cmp key left right t = Some t' \<and> sep_inserted t D1 left D2 right S1 key S2 Us t' Us'"
proof (induction Us arbitrary: t D1 left D2 right S1 key S2)
  case Nil
  then have p: "D1 = []" "D2 = []" "S1 = []" "S2 = []" "bn_parent (bt_nodes t left) = NULL" "left \<noteq> right"
    "\<forall>p\<in>{left, right}. p \<noteq> NULL \<and> p < bt_fresh t"
    by (auto simp: sep_pending_def Cons_eq_append_conv append_eq_Cons_conv)
  then have "btree_insert_index cmp key left right t = Some (new_root key left right t)"
    by (subst btree_insert_index.simps) simp
  then show ?case using new_root_ok [OF p(6,7), of key] p
    by (intro exI [of _ "new_root key left right t"] exI [of _ "[[bt_fresh t]]"])
      (simp add: sep_inserted_def root_of_def grown_def bt_order_def)
next
  case (Cons U Us)
  note p = Cons.prems
  obtain U1 u U2 SU1 SU2 i where s: "U = U1 @ u # U2" "length U1 = length SU1" "length U2 = length SU2"
    "u = bn_parent (bt_nodes t left)" "u \<noteq> NULL" "i \<le> length (bn_keys (bt_nodes t u))"
    "length (bn_children (bt_nodes t u)) = length (bn_keys (bt_nodes t u)) + 1"
    "bsearch_lar (cmp key) (elem_at (bn_keys (bt_nodes t u))) (int (length (bn_keys (bt_nodes t u)))) = Some (int i)"
    "level_ok (bt_nodes (with_child u i key right t)) U (SU1 @ SU2) (D1 @ left # right # D2) (S1 @ key # S2)"
    "keys_fit (bt_nodes t) U" "upper (bt_nodes t) U (SU1 @ SU2) Us"
    using sep_pending_step [OF o p] .
  have u: "u \<in> set U" using s(1) by simp
  define t1 where "t1 = with_child u i key right t"
  note step = insert_index_unfold [of u t left cmp key i right, OF s(4,5,8), folded t1_def]
  have lk: "length (bn_keys (bt_nodes t1 u)) = length (bn_keys (bt_nodes t u)) + 1" using s(6) by (simp add: t1_def insert_at_def)
  show ?case
  proof (cases "length (bn_keys (bt_nodes t u)) = 2 * bt_order")
    case False
    then have "length (bn_keys (bt_nodes t u)) < 2 * bt_order" using s(10) u by (auto simp: keys_fit_def)
    then have "sep_inserted t D1 left D2 right S1 key S2 (U # Us) t1 (U # Us)"
      unfolding t1_def using sep_inserted_here [OF p u s(10) _ s(6,9,11)] by blast
    then show ?thesis using step lk False by (auto simp: Let_def)
  next
    case True
    let ?k = "bn_keys (bt_nodes t1 u)"
    have k: "?k = take bt_order ?k @ ?k ! bt_order # drop (Suc bt_order) ?k"
      using lk True by (intro id_take_nth_drop) simp
    have kl: "length (take bt_order ?k) = bt_order" "length (drop (Suc bt_order) ?k) = bt_order" using lk True by simp_all
    obtain np t2 where sp: "btree_split_internal u t1 = (np, t2)" by (cases "btree_split_internal u t1")
    note pa = sep_pending_above [OF o p s(1,2,3) k t1_def s(9,11) [folded t1_def] sp]
    obtain t3 Us' where r: "btree_insert_index cmp (?k ! bt_order) u np t2 = Some t3"
      "sep_inserted t2 U1 u U2 np SU1 (?k ! bt_order) SU2 Us t3 Us'"
      using Cons.IH [OF pa(1)] by blast
    note ia = sep_inserted_above [OF p s(1,2,3,10) k kl t1_def s(9) [folded t1_def] sp pa(2) r(2)]
    then show ?thesis using step lk True sp r(1) by (auto simp: Let_def)
  qed
qed

section \<open>The invariant of the tree\<close>

definition leaf_pairs :: "(ptr \<Rightarrow> ('k, 'v) btnode) \<Rightarrow> ptr list \<Rightarrow> ('k, 'v) keyvals list" where
  "leaf_pairs nodes L = concat (map (bn_pairs \<circ> nodes) L)"

definition leaf_head :: "(ptr \<Rightarrow> ('k, 'v) btnode) \<Rightarrow> ptr \<Rightarrow> 'k" where
  "leaf_head nodes p = kvs_key (hd (bn_pairs (nodes p)))"

text \<open>\<open>L\<close> are the leaves from left to right, \<open>Us\<close> the levels above them.  A leaf is separated from the one before it
  by its first key.\<close>

definition bt_shape :: "('k \<Rightarrow> 'k \<Rightarrow> int) \<Rightarrow> ('k, 'v) btree \<Rightarrow> ptr list \<Rightarrow> ptr list list \<Rightarrow> bool" where
  "bt_shape cmp t L Us \<longleftrightarrow> bt_nlevel t = length Us + 1 \<and> bt_root t = root_of L Us \<and>
     upper (bt_nodes t) L (map (leaf_head (bt_nodes t)) (tl L)) Us \<and> distinct (L @ concat Us) \<and>
     (\<forall>p\<in>set (L @ concat Us). p \<noteq> NULL \<and> p < bt_fresh t) \<and> chain (bn_next \<circ> bt_nodes t) (hd L) L \<and>
     (\<forall>p\<in>set L. length (bn_pairs (bt_nodes t p)) < 2 * bt_order + 2) \<and>
     (tl L \<noteq> [] \<longrightarrow> (\<forall>p\<in>set L. bn_pairs (bt_nodes t p) \<noteq> [])) \<and>
     asc cmp (map kvs_key (leaf_pairs (bt_nodes t) L)) \<and> bt_nkeys t = length (leaf_pairs (bt_nodes t) L)"

definition bt_ok :: "('k \<Rightarrow> 'k \<Rightarrow> int) \<Rightarrow> ('k, 'v) btree \<Rightarrow> bool" where
  "bt_ok cmp t \<longleftrightarrow> bt_fresh t \<noteq> NULL \<and> (bt_nlevel t = 0 \<or> (\<exists>L Us. bt_shape cmp t L Us))"

text \<open>The contents: what a walk along the leaves finds.\<close>

definition bt_entries :: "('k, 'v) btree \<Rightarrow> ('k, 'v) entry_t list" where
  "bt_entries t =
     (if bt_nlevel t = 0 then []
      else case do { node \<leftarrow> leftmost t (bt_nlevel t - 1) (bt_root t); copy_leaves t node } of
          None \<Rightarrow> [] | Some kvs \<Rightarrow> map pair_entry kvs)"

lemma leaf_pairs_simps [simp]:
  "leaf_pairs nodes [] = []" "leaf_pairs nodes (p # L) = bn_pairs (nodes p) @ leaf_pairs nodes L"
  "leaf_pairs nodes (A @ B) = leaf_pairs nodes A @ leaf_pairs nodes B"
  by (simp_all add: leaf_pairs_def)

lemma leaf_pairs_cong: "(\<And>p. p \<in> set L \<Longrightarrow> bn_pairs (n1 p) = bn_pairs (n2 p)) \<Longrightarrow> leaf_pairs n1 L = leaf_pairs n2 L"
  by (induction L) simp_all

lemma leftmost_step:
  "leftmost t (Suc n) p = do { q \<leftarrow> leftmost t n p; elem_at (bn_children (bt_nodes t q)) 0 }"
proof (induction n arbitrary: p)
  case (Suc n)
  have "leftmost t (Suc (Suc n)) p = do { child \<leftarrow> elem_at (bn_children (bt_nodes t p)) 0; leftmost t (Suc n) child }"
    by (simp only: leftmost.simps(2) [of t "Suc n" p])
  also have "\<dots> = do { child \<leftarrow> elem_at (bn_children (bt_nodes t p)) 0;
      (leftmost t n child \<bind> (\<lambda>q. elem_at (bn_children (bt_nodes t q)) 0)) }"
    by (simp only: Suc)
  also have "\<dots> = do { q \<leftarrow> leftmost t (Suc n) p; elem_at (bn_children (bt_nodes t q)) 0 }" by simp
  finally show ?case .
qed simp

lemma leftmost_ok: "upper (bt_nodes t) D S Us \<Longrightarrow> leftmost t (length Us) (root_of D Us) = Some (hd D)"
proof (induction Us arbitrary: D S)
  case Nil
  then show ?case by (auto simp: root_of_def)
next
  case (Cons U Us)
  then obtain SU where u: "level_ok (bt_nodes t) U SU D S" "upper (bt_nodes t) U SU Us" unfolding upper_Cons by blast
  then obtain u U' where U: "U = u # U'" using level_okD(3) [OF u(1)] by (cases U) auto
  have ne: "bn_children (bt_nodes t u) \<noteq> []" using level_okD(4) [OF u(1), of u] U by auto
  have "hd D = bn_children (bt_nodes t u) ! 0" using level_okD(1) [OF u(1)] U ne by (auto simp: hd_conv_nth nth_append)
  then show ?case using Cons.IH [OF u(2)] ne U by (simp add: leftmost_step root_of_Cons elem_at_def del: leftmost.simps)
qed

lemma copy_leaves_chain: "chain (bn_next \<circ> bt_nodes t) p L \<Longrightarrow> copy_leaves t p = Some (leaf_pairs (bt_nodes t) L)"
  by (induction L arbitrary: p) (subst copy_leaves.simps; simp)+

lemma bt_shapeD:
  assumes "bt_shape cmp t L Us"
  shows "bt_nlevel t = length Us + 1" "bt_root t = root_of L Us" "upper (bt_nodes t) L (map (leaf_head (bt_nodes t)) (tl L)) Us"
    "distinct (L @ concat Us)" "\<And>p. p \<in> set (L @ concat Us) \<Longrightarrow> p \<noteq> NULL \<and> p < bt_fresh t"
    "chain (bn_next \<circ> bt_nodes t) (hd L) L" "\<And>p. p \<in> set L \<Longrightarrow> length (bn_pairs (bt_nodes t p)) < 2 * bt_order + 2"
    "tl L \<noteq> [] \<Longrightarrow> p \<in> set L \<Longrightarrow> bn_pairs (bt_nodes t p) \<noteq> []"
    "asc cmp (map kvs_key (leaf_pairs (bt_nodes t) L))" "bt_nkeys t = length (leaf_pairs (bt_nodes t) L)"
  using assms unfolding bt_shape_def by blast+

lemma bt_shape_nonempty: "bt_shape cmp t L Us \<Longrightarrow> L \<noteq> []"
  using upper_length [of "bt_nodes t" L "map (leaf_head (bt_nodes t)) (tl L)" Us] bt_shapeD(3) [of cmp t L Us] by auto

lemma bt_shape_entries:
  assumes "bt_shape cmp t L Us"
  shows "bt_entries t = map pair_entry (leaf_pairs (bt_nodes t) L)"
  using leftmost_ok [OF bt_shapeD(3) [OF assms]] copy_leaves_chain [OF bt_shapeD(6) [OF assms]]
  by (simp add: bt_entries_def bt_shapeD(1,2) [OF assms])

lemma bt_shape_ok: "bt_shape cmp t L Us \<Longrightarrow> bt_ok cmp t"
  using bt_shapeD(5) [of cmp t L Us "hd L"] bt_shape_nonempty [of cmp t L Us] unfolding bt_ok_def by (cases L) auto

lemma leaf_heads_asc:
  assumes o: "key_order cmp"
  shows "asc cmp (map kvs_key (leaf_pairs nodes L)) \<Longrightarrow> \<forall>p\<in>set L. bn_pairs (nodes p) \<noteq> [] \<Longrightarrow> asc cmp (map (leaf_head nodes) L)"
proof (induction L)
  case (Cons p L)
  have "cmp (leaf_head nodes p) (leaf_head nodes q) < 0" if "q \<in> set L" for q
  proof -
    have "hd (bn_pairs (nodes p)) \<in> set (bn_pairs (nodes p))" "hd (bn_pairs (nodes q)) \<in> set (leaf_pairs nodes L)"
      using Cons.prems(2) that by (auto simp: leaf_pairs_def intro!: bexI [of _ q])
    then show ?thesis using Cons.prems(1) by (auto simp: key_order.asc_append [OF o] leaf_head_def)
  qed
  then show ?case using Cons by (auto simp: key_order.asc_append [OF o] key_order.asc_Cons [OF o])
qed (simp add: asc_def)

text \<open>The leaf a key belongs to.\<close>

definition leaf_for :: "('k \<Rightarrow> 'k \<Rightarrow> int) \<Rightarrow> 'k \<Rightarrow> ('k, 'v) btree \<Rightarrow> ptr list \<Rightarrow> ptr list \<Rightarrow> bool" where
  "leaf_for cmp key t L1 L2 \<longleftrightarrow> (\<forall>p\<in>set (leaf_pairs (bt_nodes t) L1). 0 < cmp key (kvs_key p)) \<and>
     (\<forall>p\<in>set (leaf_pairs (bt_nodes t) L2). cmp key (kvs_key p) < 0)"

lemma leaf_at_position:
  assumes o: "key_order cmp" and s: "bt_shape cmp t L Us"
  shows "\<exists>L1 leaf L2. L = L1 @ leaf # L2 \<and> descend cmp key t (length Us) (bt_root t) = Some leaf \<and> leaf_for cmp key t L1 L2 \<and>
    (L1 \<noteq> [] \<longrightarrow> 0 \<le> cmp key (leaf_head (bt_nodes t) leaf))"
proof -
  let ?n = "bt_nodes t" and ?h = "leaf_head (bt_nodes t)"
  have ap: "asc cmp (xs @ ys) \<longleftrightarrow> asc cmp xs \<and> asc cmp ys \<and> (\<forall>x\<in>set xs. \<forall>y\<in>set ys. cmp x y < 0)" for xs ys
    by (rule key_order.asc_append [OF o])
  have nel: "L \<noteq> []" using upper_length [OF bt_shapeD(3) [OF s]] by auto
  have heads: "asc cmp (map ?h (tl L))"
  proof (cases "tl L = []")
    case False
    have "asc cmp (map kvs_key (leaf_pairs ?n (tl L)))"
      using bt_shapeD(9) [OF s] nel by (cases L) (auto simp: ap)
    then show ?thesis using leaf_heads_asc [OF o, of ?n "tl L"] bt_shapeD(8) [OF s False] nel by (auto dest: list.set_sel(2))
  qed (simp add: asc_def)
  define j where "j = length (upto_key cmp key (map ?h (tl L)))"
  have j: "j < length L" using length_takeWhile_le [of _ "map ?h (tl L)"] nel by (cases L) (auto simp: j_def le_imp_less_Suc)
  have L: "L = take j L @ L ! j # drop (Suc j) L" using j by (simp add: id_take_nth_drop)
  have d: "descend cmp key t (length Us) (bt_root t) = Some (L ! j)"
    using descend_ok [OF o bt_shapeD(3) [OF s] heads] bt_shapeD(2) [OF s] by (simp add: j_def)
  have pairs: "asc cmp (map kvs_key (leaf_pairs ?n (take j L) @ bn_pairs (?n (L ! j)) @ leaf_pairs ?n (drop (Suc j) L)))"
    using bt_shapeD(9) [OF s] by (subst (asm) L) simp
  have lo: "0 \<le> cmp key (?h (L ! j))" if "take j L \<noteq> []"
  proof -
    have "j \<noteq> 0" using that by auto
    then have lt: "j - 1 < length (upto_key cmp key (map ?h (tl L)))" by (simp add: j_def)
    have "map ?h (tl L) ! (j - 1) \<in> set (upto_key cmp key (map ?h (tl L)))"
      using nth_mem [OF lt] unfolding takeWhile_nth [OF lt] .
    then have "0 \<le> cmp key (map ?h (tl L) ! (j - 1))" by (auto dest: set_takeWhileD)
    moreover have "map ?h (tl L) ! (j - 1) = ?h (L ! j)" using \<open>j \<noteq> 0\<close> j nel by (cases L) (auto simp: nth_Cons' nth_tl)
    ultimately show ?thesis by simp
  qed
  have 1: "0 < cmp key (kvs_key p)" if "p \<in> set (leaf_pairs ?n (take j L))" for p
  proof -
    have ne: "take j L \<noteq> []" using that by (metis leaf_pairs_simps(1) list.set(1) empty_iff)
    then have "tl L \<noteq> []" using j nel by (cases L; cases "tl L") auto
    then have h: "hd (bn_pairs (?n (L ! j))) \<in> set (bn_pairs (?n (L ! j)))" using bt_shapeD(8) [OF s _ nth_mem [OF j]] by simp
    then have "cmp (kvs_key p) (?h (L ! j)) < 0" using pairs that by (auto simp: ap leaf_head_def)
    then show ?thesis
      using lo [OF ne] key_order.less_trans1 [OF o, of "kvs_key p" "?h (L ! j)" key] key_order.le_swap [OF o, of key "?h (L ! j)"]
        key_order.cmp_swap [OF o, of key "kvs_key p"] by simp
  qed
  have 2: "cmp key (kvs_key p) < 0" if "p \<in> set (leaf_pairs ?n (drop (Suc j) L))" for p
  proof -
    have "drop (Suc j) L \<noteq> []" using that by (metis leaf_pairs_simps(1) list.set(1) empty_iff)
    then obtain q Q where Q: "drop (Suc j) L = q # Q" by (meson neq_Nil_conv)
    have jl: "j < length (map ?h (tl L))" using Q by (metis drop_eq_Nil length_map length_tl less_diff_conv list.simps(3) not_less Suc_eq_plus1)
    have q: "q = L ! Suc j" "Suc j < length L" using Q jl by (auto simp: nth_via_drop)
    have "\<not> 0 \<le> cmp key (map ?h (tl L) ! j)" using nth_length_takeWhile [of "\<lambda>s. 0 \<le> cmp key s" "map ?h (tl L)"] jl by (simp add: j_def)
    then have kq: "cmp key (?h q) < 0" using q jl by (simp add: nth_tl)
    have "cmp (?h q) (kvs_key p) \<le> 0"
    proof -
      have "tl L \<noteq> []" using q(2) by (cases L; cases "tl L") auto
      then have "bn_pairs (?n q) \<noteq> []" using bt_shapeD(8) [OF s, of q] nth_mem [OF q(2)] q(1) by simp
      then have "leaf_pairs ?n (q # Q) = hd (bn_pairs (?n q)) # tl (bn_pairs (?n q)) @ leaf_pairs ?n Q" by simp
      then have a: "asc cmp (?h q # map kvs_key (tl (bn_pairs (?n q)) @ leaf_pairs ?n Q))"
        and p: "p = hd (bn_pairs (?n q)) \<or> p \<in> set (tl (bn_pairs (?n q)) @ leaf_pairs ?n Q)"
        using pairs that unfolding Q by (auto simp: ap leaf_head_def simp del: leaf_pairs_simps(2))
      from p show ?thesis
      proof
        assume "p = hd (bn_pairs (?n q))"
        then show ?thesis using key_order.cmp_refl [OF o] by (simp add: leaf_head_def)
      next
        assume "p \<in> set (tl (bn_pairs (?n q)) @ leaf_pairs ?n Q)"
        then show ?thesis using a by (auto simp: key_order.asc_Cons [OF o] intro: less_imp_le)
      qed
    qed
    then show ?thesis using kq key_order.less_trans1 [OF o] by blast
  qed
  show ?thesis using L d lo 1 2 unfolding leaf_for_def by blast
qed

section \<open>Insertion keeps the invariant\<close>

lemma put_entry_append:
  assumes "\<forall>e\<in>set A. 0 < cmp key (fst e)" "\<forall>e\<in>set B. cmp key (fst e) < 0"
  shows "put_entry cmp add key new hash (A @ M @ B) = A @ put_entry cmp add key new hash M @ B"
proof -
  have "put_entry cmp add key new hash (M @ B) = put_entry cmp add key new hash M @ B"
    using assms(2) by (induction M) (cases B; auto)+
  then show ?thesis using assms(1) by (induction A) auto
qed

text \<open>The links after a leaf was divided.\<close>

lemma chain_insert:
  assumes "chain f p (L1 @ x # L2)" "y \<notin> set (L1 @ x # L2)" "y \<noteq> NULL"
  shows "chain (f(x := y, y := f x)) p (L1 @ x # y # L2)"
proof -
  have d: "distinct (L1 @ x # L2)" using chain_distinct [OF assms(1)] .
  have xn: "x \<noteq> NULL" using chain_NULL_notin [OF assms(1)] by auto
  have "seg f p L1 x" "chain f (f x) L2" using assms(1) by (auto simp: chain_append)
  moreover have "seg (f(x := y, y := f x)) p L1 x \<longleftrightarrow> seg f p L1 x" by (rule seg_cong) (use d assms(2) in auto)
  moreover have "chain (f(x := y, y := f x)) (f x) L2 \<longleftrightarrow> chain f (f x) L2" by (rule chain_cong) (use d assms(2) in auto)
  ultimately show ?thesis using assms(2,3) xn by (auto simp: chain_append)
qed

text \<open>New contents of one leaf, with room to spare.\<close>

definition with_pairs :: "ptr \<Rightarrow> ('k, 'v) keyvals list \<Rightarrow> nat \<Rightarrow> ('k, 'v) btree \<Rightarrow> ('k, 'v) btree" where
  "with_pairs leaf ps n t = (upd_node leaf (\<lambda>b. b\<lparr>bn_pairs := ps\<rparr>) t)\<lparr>bt_nkeys := n\<rparr>"

lemma with_pairs_fields [simp]:
  "bt_fresh (with_pairs leaf ps n t) = bt_fresh t" "bt_nkeys (with_pairs leaf ps n t) = n"
  "bt_nlevel (with_pairs leaf ps n t) = bt_nlevel t" "bt_root (with_pairs leaf ps n t) = bt_root t"
  "bn_pairs (bt_nodes (with_pairs leaf ps n t) p) = (if p = leaf then ps else bn_pairs (bt_nodes t p))"
  "bn_next (bt_nodes (with_pairs leaf ps n t) p) = bn_next (bt_nodes t p)"
  "bn_parent (bt_nodes (with_pairs leaf ps n t) p) = bn_parent (bt_nodes t p)"
  "kids (bt_nodes (with_pairs leaf ps n t)) p = kids (bt_nodes t) p"
  by (simp_all add: with_pairs_def upd_node_def kids_def)

text \<open>What the new pairs of a leaf must satisfy.\<close>

definition pairs_fit :: "('k \<Rightarrow> 'k \<Rightarrow> int) \<Rightarrow> ('k, 'v) btree \<Rightarrow> ptr list \<Rightarrow> ptr \<Rightarrow> ptr list \<Rightarrow> ('k, 'v) keyvals list \<Rightarrow> bool" where
  "pairs_fit cmp t L1 leaf L2 ps \<longleftrightarrow> ps \<noteq> [] \<and> length ps \<le> 2 * bt_order + 2 \<and>
     asc cmp (map kvs_key (leaf_pairs (bt_nodes t) L1 @ ps @ leaf_pairs (bt_nodes t) L2)) \<and>
     (L1 \<noteq> [] \<longrightarrow> kvs_key (hd ps) = leaf_head (bt_nodes t) leaf)"

lemma with_pairs_leaf:
  assumes "distinct (L1 @ leaf # L2)"
  shows "leaf_pairs (bt_nodes (with_pairs leaf ps n t)) (L1 @ leaf # L2) = leaf_pairs (bt_nodes t) L1 @ ps @ leaf_pairs (bt_nodes t) L2"
proof -
  have "leaf_pairs (bt_nodes (with_pairs leaf ps n t)) L = leaf_pairs (bt_nodes t) L" if "leaf \<notin> set L" for L
    using that by (intro leaf_pairs_cong) auto
  then show ?thesis using assms by simp
qed

lemma with_pairs_upper:
  assumes s: "bt_shape cmp t (L1 @ leaf # L2) Us" and f: "pairs_fit cmp t L1 leaf L2 ps"
  shows "upper (bt_nodes (with_pairs leaf ps n t)) (L1 @ leaf # L2)
    (map (leaf_head (bt_nodes (with_pairs leaf ps n t))) (tl (L1 @ leaf # L2))) Us"
proof -
  let ?t = "with_pairs leaf ps n t"
  have "leaf_head (bt_nodes ?t) q = leaf_head (bt_nodes t) q" if "q \<in> set (tl (L1 @ leaf # L2))" for q
  proof (cases "q = leaf")
    case True
    then have "L1 \<noteq> []" using that bt_shapeD(4) [OF s] by (cases L1) auto
    then show ?thesis using True f by (simp add: leaf_head_def pairs_fit_def)
  qed (simp add: leaf_head_def)
  then have "map (leaf_head (bt_nodes ?t)) (tl (L1 @ leaf # L2)) = map (leaf_head (bt_nodes t)) (tl (L1 @ leaf # L2))" by simp
  then show ?thesis
    using bt_shapeD(3) [OF s] upper_cong [of Us "bt_nodes ?t" "bt_nodes t" "L1 @ leaf # L2"] by (simp del: map_eq_conv)
qed

lemma with_pairs_shape:
  assumes s: "bt_shape cmp t (L1 @ leaf # L2) Us" and f: "pairs_fit cmp t L1 leaf L2 ps" and l: "length ps < 2 * bt_order + 2"
    and n: "n = length (leaf_pairs (bt_nodes t) L1 @ ps @ leaf_pairs (bt_nodes t) L2)"
  shows "bt_shape cmp (with_pairs leaf ps n t) (L1 @ leaf # L2) Us"
  unfolding bt_shape_def
proof (intro conjI ballI impI)
  let ?L = "L1 @ leaf # L2" and ?t = "with_pairs leaf ps n t"
  note d = bt_shapeD [OF s]
  have dl: "distinct ?L" using d(4) unfolding distinct_append by blast
  show "upper (bt_nodes ?t) ?L (map (leaf_head (bt_nodes ?t)) (tl ?L)) Us" by (rule with_pairs_upper [OF s f])
  show "chain (bn_next \<circ> bt_nodes ?t) (hd ?L) ?L" using d(6) by (simp add: comp_def)
  show "length (bn_pairs (bt_nodes ?t q)) < 2 * bt_order + 2" if "q \<in> set ?L" for q using d(7) [OF that] l by simp
  show "bn_pairs (bt_nodes ?t q) \<noteq> []" if "tl ?L \<noteq> []" "q \<in> set ?L" for q using d(8) [OF that] f by (simp add: pairs_fit_def)
  show "asc cmp (map kvs_key (leaf_pairs (bt_nodes ?t) ?L))" "bt_nkeys ?t = length (leaf_pairs (bt_nodes ?t) ?L)"
    using with_pairs_leaf [OF dl, of ps n t] f n by (simp_all add: pairs_fit_def)
qed (use bt_shapeD(1,2,4,5) [OF s] in auto)

text \<open>A full leaf after its upper half went to a new leaf.\<close>

definition halved :: "ptr \<Rightarrow> ('k, 'v) keyvals list \<Rightarrow> ('k, 'v) btree \<Rightarrow> ('k, 'v) btree" where
  "halved leaf ps t = (case create_node t of (right, t1) \<Rightarrow>
     upd_node leaf (\<lambda>b. b\<lparr>bn_pairs := take (bt_order + 1) ps\<rparr>) (upd_node right (\<lambda>b. b\<lparr>bn_pairs := drop (bt_order + 1) ps\<rparr>) t1))"

lemma halved_fields:
  assumes "leaf \<noteq> bt_fresh t"
  shows "bt_fresh (halved leaf ps t) = bt_fresh t + 1" "bt_nkeys (halved leaf ps t) = bt_nkeys t"
    "bt_nlevel (halved leaf ps t) = bt_nlevel t" "bt_root (halved leaf ps t) = bt_root t"
    "bn_pairs (bt_nodes (halved leaf ps t) p) = (if p = leaf then take (bt_order + 1) ps
       else if p = bt_fresh t then drop (bt_order + 1) ps else bn_pairs (bt_nodes t p))"
    "p \<noteq> bt_fresh t \<Longrightarrow> bn_next (bt_nodes (halved leaf ps t) p) = bn_next (bt_nodes t p)"
    "p \<noteq> bt_fresh t \<Longrightarrow> bn_parent (bt_nodes (halved leaf ps t) p) = bn_parent (bt_nodes t p)"
    "p \<noteq> bt_fresh t \<Longrightarrow> kids (bt_nodes (halved leaf ps t)) p = kids (bt_nodes t) p"
  using assms by (auto simp: halved_def create_node_def upd_node_def kids_def blank_node_def)

text \<open>The links set at the end of the division.\<close>

definition relinked :: "ptr \<Rightarrow> ptr \<Rightarrow> ('k, 'v) btree \<Rightarrow> ('k, 'v) btree" where
  "relinked leaf right t = upd_node right (\<lambda>b. b\<lparr>bn_next := bn_next (bt_nodes t leaf)\<rparr>)
     (upd_node leaf (\<lambda>b. b\<lparr>bn_next := right\<rparr>) t)"

lemma relinked_fields:
  assumes "leaf \<noteq> right"
  shows "bt_fresh (relinked leaf right t) = bt_fresh t" "bt_nkeys (relinked leaf right t) = bt_nkeys t"
    "bt_nlevel (relinked leaf right t) = bt_nlevel t" "bt_root (relinked leaf right t) = bt_root t"
    "bn_pairs (bt_nodes (relinked leaf right t) p) = bn_pairs (bt_nodes t p)"
    "bn_parent (bt_nodes (relinked leaf right t) p) = bn_parent (bt_nodes t p)"
    "kids (bt_nodes (relinked leaf right t)) p = kids (bt_nodes t) p"
    "bn_next \<circ> bt_nodes (relinked leaf right t) =
       (bn_next \<circ> bt_nodes t)(leaf := right, right := (bn_next \<circ> bt_nodes t) leaf)"
  using assms by (auto simp: relinked_def upd_node_def kids_def)

lemma split_leaf_unfold:
  assumes "leaf \<noteq> bt_fresh t"
  shows "split_leaf cmp leaf t = do {
     t3 \<leftarrow> btree_insert_index cmp (kvs_key (hd (drop (bt_order + 1) (bn_pairs (bt_nodes t leaf))))) leaf (bt_fresh t)
        (halved leaf (bn_pairs (bt_nodes t leaf)) t);
     Some (relinked leaf (bt_fresh t) t3) }"
  using assms by (simp add: split_leaf_def create_node_def halved_def relinked_def Let_def upd_node_def)

lemma halved_leaf_pairs:
  assumes "distinct (L1 @ leaf # L2)" "bt_fresh t \<notin> set (L1 @ leaf # L2)"
  shows "leaf_pairs (bt_nodes (halved leaf ps t)) (L1 @ leaf # bt_fresh t # L2) =
    leaf_pairs (bt_nodes t) L1 @ ps @ leaf_pairs (bt_nodes t) L2"
proof -
  have n: "leaf \<noteq> bt_fresh t" using assms(2) by auto
  have "leaf_pairs (bt_nodes (halved leaf ps t)) L = leaf_pairs (bt_nodes t) L" if "leaf \<notin> set L" "bt_fresh t \<notin> set L" for L
    using that halved_fields(5) [OF n] by (intro leaf_pairs_cong) auto
  then show ?thesis using assms halved_fields(5) [OF n] by auto
qed

lemma halved_each:
  assumes s: "bt_shape cmp t (L1 @ leaf # L2) Us" and l: "length ps = 2 * bt_order + 2"
    and t3: "t3 = with_pairs leaf ps n t" and q: "q \<in> set (L1 @ leaf # bt_fresh t # L2)"
  shows "bn_pairs (bt_nodes (halved leaf ps t3) q) \<noteq> [] \<and> length (bn_pairs (bt_nodes (halved leaf ps t3) q)) < 2 * bt_order + 2"
proof -
  note d = bt_shapeD [OF s]
  have nr: "leaf \<noteq> bt_fresh t3" using d(5) [of leaf] by (auto simp: t3)
  note hf = halved_fields(5) [where ps = ps, OF nr]
  consider "q = leaf" | "q = bt_fresh t" "q \<noteq> leaf" | "q \<in> set (L1 @ L2)" "q \<noteq> leaf" "q \<noteq> bt_fresh t" using q by auto
  then show ?thesis
  proof cases
    case 3
    then have "tl (L1 @ leaf # L2) \<noteq> []" by (cases L1) auto
    then show ?thesis using d(7) [of q] d(8) [of q] 3 hf [of q] by (auto simp: t3)
  qed (use hf [of q] l in \<open>auto simp: t3 bt_order_def\<close>)
qed

lemma halved_pending:
  assumes o: "key_order cmp" and s: "bt_shape cmp t (L1 @ leaf # L2) Us" and f: "pairs_fit cmp t L1 leaf L2 ps"
    and l: "length ps = 2 * bt_order + 2" and t3: "t3 = with_pairs leaf ps n t" and t2: "t2 = halved leaf ps t3"
  shows "sep_pending cmp t2 L1 leaf L2 (bt_fresh t) (map (leaf_head (bt_nodes t2)) (tl (L1 @ [leaf])))
    (kvs_key (hd (drop (bt_order + 1) ps))) (map (leaf_head (bt_nodes t2)) L2) Us"
proof -
  let ?L = "L1 @ leaf # L2" and ?r = "bt_fresh t" and ?h = "leaf_head (bt_nodes t2)"
  note d = bt_shapeD [OF s]
  have below: "q \<noteq> NULL \<and> q < ?r" if "q \<in> set (?L @ concat Us)" for q using d(5) [OF that] .
  have out: "?r \<notin> set (?L @ concat Us)" using below [of ?r] by blast
  have nr: "leaf \<noteq> bt_fresh t3" using out by (auto simp: t3)
  note hf = halved_fields [where ps = ps, OF nr, folded t2]
  have fr: "bt_fresh t3 = ?r" by (simp add: t3)
  have dl: "distinct ?L" using d(4) unfolding distinct_append by blast
  have ne: "take (bt_order + 1) ps \<noteq> []" "drop (bt_order + 1) ps \<noteq> []" using l by (auto simp: bt_order_def)
  have heads: "?h q = leaf_head (bt_nodes t3) q" if "q \<in> set ?L" for q
    using hf(5) [of q] that out l by (auto simp: leaf_head_def fr t3 hd_take bt_order_def)
  have tlL: "tl ?L = tl (L1 @ [leaf]) @ L2" by (cases L1) simp_all
  have "map ?h (tl (L1 @ [leaf])) @ map ?h L2 = map (leaf_head (bt_nodes t3)) (tl ?L)"
    unfolding tlL map_append using heads by (cases L1) auto
  moreover have "upper (bt_nodes t2) ?L S Us \<longleftrightarrow> upper (bt_nodes t3) ?L S Us" for S
  proof (rule upper_cong)
    show "kids (bt_nodes t2) q = kids (bt_nodes t3) q" if "q \<in> set (concat Us)" for q
      using hf(8) [of q] that out fr by (cases "q = ?r") auto
    show "bn_parent (bt_nodes t2 q) = bn_parent (bt_nodes t3 q)" if "q \<in> set ?L \<union> set (concat Us)" for q
      using hf(7) [of q] that out fr by (cases "q = ?r") auto
  qed
  ultimately have 1: "upper (bt_nodes t2) ?L (map ?h (tl (L1 @ [leaf])) @ map ?h L2) Us"
    using with_pairs_upper [OF s f, of n] by (simp add: t3)
  have pairs: "leaf_pairs (bt_nodes t2) (L1 @ leaf # ?r # L2) = leaf_pairs (bt_nodes t) L1 @ ps @ leaf_pairs (bt_nodes t) L2"
  proof -
    have "leaf_pairs (bt_nodes t3) L = leaf_pairs (bt_nodes t) L" if "leaf \<notin> set L" for L
      using that by (intro leaf_pairs_cong) (auto simp: t3)
    then show ?thesis using halved_leaf_pairs [where t = t3 and ps = ps, OF dl, folded t2] out dl by (simp add: fr)
  qed
  have nonempty: "bn_pairs (bt_nodes t2 q) \<noteq> []" if "q \<in> set (L1 @ leaf # ?r # L2)" for q
    using halved_each [OF s l t3 that] by (simp add: t2)
  have "asc cmp (map ?h (L1 @ leaf # ?r # L2))"
    by (rule leaf_heads_asc [OF o]) (use pairs f nonempty in \<open>auto simp: pairs_fit_def\<close>)
  then have "asc cmp (map ?h (tl (L1 @ leaf # ?r # L2)))" by (cases L1) (auto simp: key_order.asc_Cons [OF o])
  moreover have "?h ?r = kvs_key (hd (drop (bt_order + 1) ps))" using hf(5) [of ?r] nr by (simp add: leaf_head_def fr)
  moreover have "tl (L1 @ leaf # ?r # L2) = tl (L1 @ [leaf]) @ ?r # L2" by (cases L1) simp_all
  ultimately have 2: "asc cmp (map ?h (tl (L1 @ [leaf])) @ kvs_key (hd (drop (bt_order + 1) ps)) # map ?h L2)" by simp
  have 3: "distinct (L1 @ leaf # L2 @ ?r # concat Us)" using d(4) out by auto
  have 4: "p \<noteq> NULL \<and> p < bt_fresh t2" if "p \<in> set (L1 @ leaf # L2 @ ?r # concat Us)" for p
    using that below [of p] below [of leaf] hf(1) by (cases "p = ?r") (auto simp: fr less_SucI)
  show ?thesis unfolding sep_pending_def using 1 2 3 4 by simp
qed

lemma split_if_full_ok:
  assumes o: "key_order cmp" and s: "bt_shape cmp t (L1 @ leaf # L2) Us" and f: "pairs_fit cmp t L1 leaf L2 ps"
    and n: "n = length (leaf_pairs (bt_nodes t) L1 @ ps @ leaf_pairs (bt_nodes t) L2)"
  shows "\<exists>t' L' Us'. split_if_full cmp leaf (with_pairs leaf ps n t) = Some t' \<and> bt_shape cmp t' L' Us' \<and>
    leaf_pairs (bt_nodes t') L' = leaf_pairs (bt_nodes t) L1 @ ps @ leaf_pairs (bt_nodes t) L2"
proof (cases "length ps = 2 * bt_order + 2")
  case False
  then have l: "length ps < 2 * bt_order + 2" using f by (simp add: pairs_fit_def)
  have "distinct (L1 @ leaf # L2)" using bt_shapeD(4) [OF s] unfolding distinct_append by blast
  then show ?thesis using with_pairs_shape [OF s f l n] with_pairs_leaf [of L1 leaf L2 ps n t] False
    by (auto simp: split_if_full_def)
next
  case True
  let ?L = "L1 @ leaf # L2" and ?r = "bt_fresh t" and ?L' = "L1 @ leaf # bt_fresh t # L2"
  define t3 where "t3 = with_pairs leaf ps n t"
  define t2 where "t2 = halved leaf ps t3"
  note d = bt_shapeD [OF s]
  have below: "q \<noteq> NULL \<and> q < ?r" if "q \<in> set (?L @ concat Us)" for q using d(5) [OF that] .
  have out: "?r \<notin> set (?L @ concat Us)" using below [of ?r] by blast
  have fr: "bt_fresh t3 = ?r" "leaf \<noteq> bt_fresh t3" using out by (auto simp: t3_def)
  note hf = halved_fields [where ps = ps, OF fr(2), folded t2_def]
  have dl: "distinct ?L" using d(4) unfolding distinct_append by blast
  let ?S1 = "map (leaf_head (bt_nodes t2)) (tl (L1 @ [leaf]))" and ?S2 = "map (leaf_head (bt_nodes t2)) L2"
  let ?k = "kvs_key (hd (drop (bt_order + 1) ps))"
  have p: "sep_pending cmp t2 L1 leaf L2 ?r ?S1 ?k ?S2 Us" by (rule halved_pending [OF o s f True t3_def t2_def])
  obtain t5 Us' where r: "btree_insert_index cmp ?k leaf ?r t2 = Some t5" "sep_inserted t2 L1 leaf L2 ?r ?S1 ?k ?S2 Us t5 Us'"
    using btree_insert_index_ok [OF o p] by blast
  note ins = sep_insertedD [OF r(2)]
  define t4 where "t4 = relinked leaf ?r t5"
  have run: "split_if_full cmp leaf t3 = Some t4"
    using split_leaf_unfold [OF fr(2), of cmp] r(1) True
    by (simp add: split_if_full_def t3_def [symmetric] t2_def [symmetric] t4_def fr) (simp add: t3_def t2_def)
  have nr: "leaf \<noteq> ?r" using fr by simp
  note rf = relinked_fields [where t = t5, OF nr, folded t4_def]
  have g: "bt_fresh t2 \<le> bt_fresh t5" "bt_nkeys t5 = bt_nkeys t2"
    "\<And>q. q < bt_fresh t2 \<Longrightarrow> bn_pairs (bt_nodes t5 q) = bn_pairs (bt_nodes t2 q) \<and> bn_next (bt_nodes t5 q) = bn_next (bt_nodes t2 q)"
    using ins(2) unfolding grown_def by blast+
  have old: "q < bt_fresh t2" if "q \<in> set ?L'" for q using that below [of q] hf(1) fr(1) by (auto simp: less_SucI)
  have pairs: "leaf_pairs (bt_nodes t4) ?L' = leaf_pairs (bt_nodes t) L1 @ ps @ leaf_pairs (bt_nodes t) L2"
  proof -
    have "leaf_pairs (bt_nodes t4) ?L' = leaf_pairs (bt_nodes t2) ?L'" using g(3) old rf(5) by (intro leaf_pairs_cong) simp
    also have "\<dots> = leaf_pairs (bt_nodes t3) L1 @ ps @ leaf_pairs (bt_nodes t3) L2"
      using halved_leaf_pairs [where t = t3 and ps = ps, OF dl, folded t2_def] out by (simp add: fr)
    also have "\<dots> = leaf_pairs (bt_nodes t) L1 @ ps @ leaf_pairs (bt_nodes t) L2"
    proof -
      have "leaf_pairs (bt_nodes t3) L = leaf_pairs (bt_nodes t) L" if "leaf \<notin> set L" for L
        using that by (intro leaf_pairs_cong) (auto simp: t3_def)
      then show ?thesis using dl by simp
    qed
    finally show ?thesis .
  qed
  have heads: "leaf_head (bt_nodes t4) q = leaf_head (bt_nodes t2) q" if "q \<in> set ?L'" for q
    using g(3) [OF old [OF that]] rf(5) by (simp add: leaf_head_def)
  have hr: "leaf_head (bt_nodes t2) ?r = ?k" using hf(5) [of ?r] nr fr by (simp add: leaf_head_def)
  have "bt_shape cmp t4 ?L' Us'"
    unfolding bt_shape_def
  proof (intro conjI ballI impI)
    show "bt_nlevel t4 = length Us' + 1"
      using ins(3) rf(3) hf(3) d(1) by (auto simp: new_levels_def t3_def)
    show "bt_root t4 = root_of ?L' Us'" using ins(4) rf(4) hf(4) d(2) by (simp add: t3_def)
    have "map (leaf_head (bt_nodes t4)) (tl ?L') = ?S1 @ ?k # ?S2"
      using heads hr by (cases L1) (auto simp del: list.sel(2))
    moreover have "upper (bt_nodes t4) ?L' S Us' \<longleftrightarrow> upper (bt_nodes t5) ?L' S Us'" for S
      by (rule upper_cong) (simp_all add: rf)
    ultimately show "upper (bt_nodes t4) ?L' (map (leaf_head (bt_nodes t4)) (tl ?L')) Us'" using ins(1) by simp
    have new: "q \<in> set (concat Us) \<or> bt_fresh t2 \<le> q \<and> q < bt_fresh t5" if "q \<in> set (concat Us')" for q
      using ins(3) that unfolding new_levels_def by blast
    have "distinct ?L'" using dl out by auto
    moreover have "distinct (concat Us')" using ins(3) unfolding new_levels_def by blast
    moreover have "set ?L' \<inter> set (concat Us') = {}"
    proof -
      have "q \<notin> set (concat Us')" if q: "q \<in> set ?L'" for q
      proof
        assume "q \<in> set (concat Us')"
        then have "q \<in> set (concat Us)" using new [of q] old [OF q] by (auto simp: not_le [symmetric])
        then show False using q d(4) out by auto
      qed
      then show ?thesis by blast
    qed
    ultimately show "distinct (?L' @ concat Us')" unfolding distinct_append by blast
    show "q \<noteq> NULL" "q < bt_fresh t4" if "q \<in> set (?L' @ concat Us')" for q
    proof -
      consider "q \<in> set (?L @ concat Us)" | "q = ?r" | "bt_fresh t2 \<le> q" "q < bt_fresh t5"
        using \<open>q \<in> set (?L' @ concat Us')\<close> new [of q] by auto
      then have "q \<noteq> NULL \<and> q < bt_fresh t4"
      proof cases
        case 1
        then show ?thesis using below [of q] hf(1) fr g(1) rf(1) by auto
      next
        case 2
        then show ?thesis using below [of leaf] hf(1) fr g(1) rf(1) by auto
      next
        case 3
        then show ?thesis using hf(1) rf(1) by auto
      qed
      then show "q \<noteq> NULL" "q < bt_fresh t4" by blast+
    qed
    have nx: "(bn_next \<circ> bt_nodes t5) q = (bn_next \<circ> bt_nodes t) q" if "q \<in> set ?L" for q
    proof -
      have "q \<noteq> ?r" "q < bt_fresh t2" using that out old [of q] by auto
      then show ?thesis using g(3) [of q] hf(6) [of q] fr(1) by (simp add: t3_def)
    qed
    have "chain (bn_next \<circ> bt_nodes t5) (hd ?L) ?L" using d(6) chain_cong [of ?L "bn_next \<circ> bt_nodes t5" "bn_next \<circ> bt_nodes t", OF nx] by blast
    then have "chain (bn_next \<circ> bt_nodes t4) (hd ?L) ?L'"
      unfolding rf(8) using chain_insert [of "bn_next \<circ> bt_nodes t5" "hd ?L" L1 leaf L2 ?r] out below [of leaf] by auto
    then show "chain (bn_next \<circ> bt_nodes t4) (hd ?L') ?L'" by (cases L1) simp_all
    have each: "bn_pairs (bt_nodes t4 q) \<noteq> [] \<and> length (bn_pairs (bt_nodes t4 q)) < 2 * bt_order + 2" if "q \<in> set ?L'" for q
      using halved_each [OF s True t3_def that] g(3) [OF old [OF that]] rf(5) by (simp add: t2_def)
    then show "length (bn_pairs (bt_nodes t4 q)) < 2 * bt_order + 2" "bn_pairs (bt_nodes t4 q) \<noteq> []" if "q \<in> set ?L'" for q
      using that by blast+
    show "asc cmp (map kvs_key (leaf_pairs (bt_nodes t4) ?L'))" using pairs f by (simp add: pairs_fit_def)
    show "bt_nkeys t4 = length (leaf_pairs (bt_nodes t4) ?L')" unfolding pairs using rf(2) g(2) hf(2) n by (simp add: t3_def)
  qed
  then show ?thesis using run pairs by (auto simp: t3_def)
qed

lemma get_leaf_ok:
  assumes o: "key_order cmp" and ok: "bt_ok cmp t"
  shows "\<exists>leaf t1 L1 L2 Us. get_leaf cmp key t = Some (leaf, t1) \<and> bt_shape cmp t1 (L1 @ leaf # L2) Us \<and>
    bt_entries t1 = bt_entries t \<and> leaf_for cmp key t1 L1 L2 \<and>
    (L1 \<noteq> [] \<longrightarrow> 0 \<le> cmp key (leaf_head (bt_nodes t1) leaf)) \<and> bt_nkeys t1 = length (bt_entries t)"
proof (cases "bt_nlevel t = 0")
  case True
  let ?p = "bt_fresh t"
  let ?t = "t\<lparr>bt_nodes := (bt_nodes t)(?p := blank_node), bt_fresh := ?p + 1, bt_root := ?p, bt_nlevel := 1, bt_nkeys := 0\<rparr>"
  have g: "get_leaf cmp key t = Some (?p, ?t)" using True by (simp add: get_leaf_def create_node_def)
  have s: "bt_shape cmp ?t [?p] []"
    using ok by (simp add: bt_shape_def bt_ok_def root_of_def blank_node_def asc_def bt_order_def leaf_pairs_def)
  have "bt_entries ?t = []" using bt_shape_entries [OF s] by (simp add: leaf_pairs_def blank_node_def)
  moreover have "bt_entries t = []" using True by (simp add: bt_entries_def)
  ultimately show ?thesis using g s
    by (intro exI [of _ ?p] exI [of _ ?t] exI [of _ "[]"]) (auto simp: leaf_for_def)
next
  case False
  then obtain L Us where s: "bt_shape cmp t L Us" using ok by (auto simp: bt_ok_def)
  obtain L1 leaf L2 where p: "L = L1 @ leaf # L2" "descend cmp key t (length Us) (bt_root t) = Some leaf"
    "leaf_for cmp key t L1 L2" "L1 \<noteq> [] \<longrightarrow> 0 \<le> cmp key (leaf_head (bt_nodes t) leaf)"
    using leaf_at_position [OF o s, of key] by blast
  have "get_leaf cmp key t = Some (leaf, t)" using p(2) False bt_shapeD(1) [OF s] by (simp add: get_leaf_def)
  then show ?thesis using s p bt_shape_entries [OF s] bt_shapeD(10) [OF s] by auto
qed

text \<open>The pairs of the leaf after an insertion fit in their place.\<close>

lemma put_fits:
  assumes o: "key_order cmp" and s: "bt_shape cmp t (L1 @ leaf # L2) Us" and lf: "leaf_for cmp key t L1 L2"
    and hd: "L1 \<noteq> [] \<longrightarrow> 0 \<le> cmp key (leaf_head (bt_nodes t) leaf)"
    and new: "cmp new key = 0"
    and ps: "map pair_entry ps' = put_entry cmp add key new hash (map pair_entry (bn_pairs (bt_nodes t leaf)))"
    and l: "length ps' \<le> 2 * bt_order + 2"
  shows "pairs_fit cmp t L1 leaf L2 ps'"
    "map pair_entry (leaf_pairs (bt_nodes t) L1 @ ps' @ leaf_pairs (bt_nodes t) L2) =
      put_entry cmp add key new hash (map pair_entry (leaf_pairs (bt_nodes t) (L1 @ leaf # L2)))"
proof -
  let ?P1 = "leaf_pairs (bt_nodes t) L1" and ?P2 = "leaf_pairs (bt_nodes t) L2" and ?ps = "bn_pairs (bt_nodes t leaf)"
  show e: "map pair_entry (?P1 @ ps' @ ?P2) = put_entry cmp add key new hash (map pair_entry (leaf_pairs (bt_nodes t) (L1 @ leaf # L2)))"
    using put_entry_append [of "map pair_entry ?P1" cmp key "map pair_entry ?P2" add new hash "map pair_entry ?ps"] lf ps
    by (simp add: leaf_for_def)
  have keys: "map fst (map pair_entry xs) = map kvs_key xs" for xs :: "('a, 'b) keyvals list" by simp
  have "asc cmp (map fst (map pair_entry (leaf_pairs (bt_nodes t) (L1 @ leaf # L2))))"
    unfolding keys using bt_shapeD(9) [OF s] .
  then have asc: "asc cmp (map kvs_key (?P1 @ ps' @ ?P2))"
    using key_order.put_entry_asc [OF o new] e keys [of "?P1 @ ps' @ ?P2"] by metis
  have "put_entry cmp add key new hash es \<noteq> []" for es by (cases es) simp_all
  then have ne: "ps' \<noteq> []" using ps by (metis list.map_disc_iff)
  have "kvs_key (hd ps') = leaf_head (bt_nodes t) leaf" if "L1 \<noteq> []"
  proof -
    have "tl (L1 @ leaf # L2) \<noteq> []" using that by (cases L1) auto
    then obtain p qs where q: "?ps = p # qs" using bt_shapeD(8) [OF s, of leaf] by (cases ?ps) auto
    have "0 \<le> cmp key (kvs_key p)" using hd that q by (simp add: leaf_head_def)
    then have "fst (hd (map pair_entry ps')) = kvs_key p" using ps q by auto
    then show ?thesis using ne q by (simp add: leaf_head_def hd_map)
  qed
  then show "pairs_fit cmp t L1 leaf L2 ps'" using ne l asc by (simp add: pairs_fit_def)
qed

lemma split_put_ok:
  assumes o: "key_order cmp" and s: "bt_shape cmp t (L1 @ leaf # L2) Us" and lf: "leaf_for cmp key t L1 L2"
    and hd: "L1 \<noteq> [] \<longrightarrow> 0 \<le> cmp key (leaf_head (bt_nodes t) leaf)"
    and new: "cmp new key = 0"
    and ps: "map pair_entry ps' = put_entry cmp add key new hash (map pair_entry (bn_pairs (bt_nodes t leaf)))"
    and l: "length ps' \<le> 2 * bt_order + 2"
    and n: "n + length (bn_pairs (bt_nodes t leaf)) = bt_nkeys t + length ps'"
  shows "\<exists>t'. split_if_full cmp leaf (with_pairs leaf ps' n t) = Some t' \<and> bt_ok cmp t' \<and>
    bt_entries t' = put_entry cmp add key new hash (bt_entries t)"
proof -
  note pf = put_fits [OF o s lf hd new ps l]
  have "n = length (leaf_pairs (bt_nodes t) L1 @ ps' @ leaf_pairs (bt_nodes t) L2)" using n bt_shapeD(10) [OF s] by simp
  then obtain t' L' Us' where r: "split_if_full cmp leaf (with_pairs leaf ps' n t) = Some t'" "bt_shape cmp t' L' Us'"
    "leaf_pairs (bt_nodes t') L' = leaf_pairs (bt_nodes t) L1 @ ps' @ leaf_pairs (bt_nodes t) L2"
    using split_if_full_ok [OF o s pf(1)] by blast
  then show ?thesis using bt_shape_ok [OF r(2)] bt_shape_entries [OF r(2)] bt_shape_entries [OF s] pf(2) by auto
qed

lemma leaf_search:
  assumes o: "key_order cmp" and s: "bt_shape cmp t (L1 @ leaf # L2) Us"
  obtains pos found where
    "bsearch_eq (keyvals_cmp cmp key) (elem_at (bn_pairs (bt_nodes t leaf))) (int (length (bn_pairs (bt_nodes t leaf)))) = Some (pos, found)"
    "found_at (keyvals_cmp cmp key) (bn_pairs (bt_nodes t leaf)) (pos, found)"
proof -
  have "asc cmp (map kvs_key (bn_pairs (bt_nodes t leaf)))"
    using bt_shapeD(9) [OF s] by (auto simp: key_order.asc_append [OF o])
  then show thesis using kvsarr_search [OF o] that by blast
qed

lemma no_match_iff:
  assumes "leaf_for cmp key t L1 L2" "found_at (keyvals_cmp cmp key) (bn_pairs (bt_nodes t leaf)) (pos, found)"
    "bt_shape cmp t (L1 @ leaf # L2) Us"
  shows "(\<forall>e\<in>set (bt_entries t). cmp key (fst e) \<noteq> 0) = (\<not> found)"
proof -
  have "(\<forall>p\<in>set (bn_pairs (bt_nodes t leaf)). cmp key (kvs_key p) \<noteq> 0) = (\<not> found)"
    using assms(2) by (auto simp: found_at_def keyvals_cmp_def intro!: bexI [of _ "bn_pairs (bt_nodes t leaf) ! nat pos"])
  moreover have "\<forall>p\<in>set (leaf_pairs (bt_nodes t) L1). cmp key (kvs_key p) \<noteq> 0"
    "\<forall>p\<in>set (leaf_pairs (bt_nodes t) L2). cmp key (kvs_key p) \<noteq> 0"
    using assms(1) by (fastforce simp: leaf_for_def)+
  ultimately show ?thesis by (simp add: bt_shape_entries [OF assms(3)] ball_Un)
qed

lemma insert_at_nth: "n \<le> length xs \<Longrightarrow> insert_at n x xs ! n = x"
  by (simp add: insert_at_def nth_append)

lemma insert_at_update: "n \<le> length xs \<Longrightarrow> (insert_at n x xs)[n := y] = insert_at n y xs"
  by (simp add: insert_at_def list_update_append)

lemma length_insert_at [simp]: "length (insert_at n x xs) = length xs + 1"
  by (simp add: insert_at_def)

lemma upd_pairs_with: "upd_node leaf (\<lambda>b. b\<lparr>bn_pairs := f (bn_pairs b)\<rparr>) t = with_pairs leaf (f (bn_pairs (bt_nodes t leaf))) (bt_nkeys t) t"
  by (cases t) (simp add: upd_node_def with_pairs_def)

lemma insert_key_with:
  "length (bn_pairs (bt_nodes t leaf)) < 2 * bt_order + 2 \<Longrightarrow>
   insert_key leaf kvs pos t = Some (with_pairs leaf (insert_at pos kvs (bn_pairs (bt_nodes t leaf))) (bt_nkeys t + 1) t)"
  by (simp add: insert_key_def with_pairs_def upd_node_def)

lemma with_pairs_again: "with_pairs leaf ps' n' (with_pairs leaf ps n t) = with_pairs leaf ps' n' t"
  by (simp add: with_pairs_def upd_node_def)

lemma bt_insert_kv_ok:
  assumes o: "key_order cmp" and ok: "bt_ok cmp t" and cp: "copies_ok cmp keycopy key keylen"
  shows "\<exists>t'. bt_insert_kv app cmp keycopy t key val keylen hash = Some ((\<forall>e\<in>set (bt_entries t). cmp key (fst e) \<noteq> 0), t') \<and>
    bt_ok cmp t' \<and>
    bt_entries t' = put_entry cmp (\<lambda>k vs. add_value app k vs val) key (copied_key keycopy key keylen) hash (bt_entries t)"
proof -
  let ?add = "\<lambda>k vs. add_value app k vs val" and ?ck = "copied_key keycopy key keylen"
  obtain leaf t1 L1 L2 Us where g: "get_leaf cmp key t = Some (leaf, t1)" "bt_shape cmp t1 (L1 @ leaf # L2) Us"
    "bt_entries t1 = bt_entries t" "leaf_for cmp key t1 L1 L2" "L1 \<noteq> [] \<longrightarrow> 0 \<le> cmp key (leaf_head (bt_nodes t1) leaf)"
    using get_leaf_ok [OF o ok] by blast
  let ?ps = "bn_pairs (bt_nodes t1 leaf)"
  obtain pos found where r: "bsearch_eq (keyvals_cmp cmp key) (elem_at ?ps) (int (length ?ps)) = Some (pos, found)"
    "found_at (keyvals_cmp cmp key) ?ps (pos, found)" using leaf_search [OF o g(2)] .
  have small: "length ?ps < 2 * bt_order + 2" using bt_shapeD(7) [OF g(2), of leaf] by simp
  have new: "cmp ?ck key = 0" using cp by (simp add: copies_ok_def)
  define ps' where "ps' = (if found then ?ps[nat pos := values_insert app (?ps ! nat pos) val]
    else insert_at (nat pos) (values_insert app \<lparr>kvs_key = ?ck, kvs_vals = [], kvs_alloc = 0, kvs_hash = hash\<rparr> val) ?ps)"
  define n where "n = (if found then bt_nkeys t1 else bt_nkeys t1 + 1)"
  have ps: "map pair_entry ps' = put_entry cmp ?add key ?ck hash (map pair_entry ?ps)"
  proof (cases found)
    case True
    have asc: "asc cmp (map fst (map pair_entry ?ps))"
      using bt_shapeD(9) [OF g(2)] by (auto simp: key_order.asc_append [OF o] comp_def)
    have i: "nat pos < length ?ps" "cmp key (kvs_key (?ps ! nat pos)) = 0" using r(2) True by (auto simp: found_at_def keyvals_cmp_def)
    then show ?thesis using key_order.put_entry_present [OF o asc, of "nat pos" key ?add ?ck hash] True
      by (simp add: ps'_def map_update pair_entry_def)
  next
    case False
    then show ?thesis
      using put_entry_insert_at(1) [where add = ?add, of cmp key ?ps pos "values_insert app \<lparr>kvs_key = ?ck, kvs_vals = [], kvs_alloc = 0, kvs_hash = hash\<rparr> val" ?ck hash] r(2)
      by (simp add: ps'_def pair_entry_def)
  qed
  have len: "length ps' \<le> 2 * bt_order + 2" "n + length ?ps = bt_nkeys t1 + length ps'" using small by (simp_all add: ps'_def n_def)
  obtain t' where t': "split_if_full cmp leaf (with_pairs leaf ps' n t1) = Some t'" "bt_ok cmp t'"
    "bt_entries t' = put_entry cmp ?add key ?ck hash (bt_entries t1)"
    using split_put_ok [OF o g(2,4,5) new ps len] by blast
  have le: "nat pos \<le> length ?ps" using r(2) length_takeWhile_le [of _ ?ps] by (auto simp: found_at_def split: if_splits)
  have "bt_insert_kv app cmp keycopy t key val keylen hash = Some (\<not> found, t')"
    using g(1) r(1) t'(1) le
    by (cases found) (simp_all add: bt_insert_kv_def Let_def insert_key_with [OF small] with_pairs_again
        upd_pairs_with [of leaf "\<lambda>ps. ps[nat pos := values_insert app (ps ! nat pos) val]"]
        insert_at_nth insert_at_update ps'_def n_def)
  then show ?thesis using t'(2,3) g(3) no_match_iff [OF g(4) r(2) g(2)] by simp
qed

lemma bt_insert_kvs_ok:
  assumes o: "key_order cmp" and ok: "bt_ok cmp t" and new: "\<forall>e\<in>set (bt_entries t). cmp (kvs_key kvs) (fst e) \<noteq> 0"
  shows "\<exists>t'. bt_insert_kvs cmp t kvs = Some t' \<and> bt_ok cmp t' \<and>
    bt_entries t' = put_entry cmp (\<lambda>k vs. kvs_vals kvs) (kvs_key kvs) (kvs_key kvs) (kvs_hash kvs) (bt_entries t)"
proof -
  let ?k = "kvs_key kvs" and ?add = "\<lambda>k vs. kvs_vals kvs"
  obtain leaf t1 L1 L2 Us where g: "get_leaf cmp ?k t = Some (leaf, t1)" "bt_shape cmp t1 (L1 @ leaf # L2) Us"
    "bt_entries t1 = bt_entries t" "leaf_for cmp ?k t1 L1 L2" "L1 \<noteq> [] \<longrightarrow> 0 \<le> cmp ?k (leaf_head (bt_nodes t1) leaf)"
    using get_leaf_ok [OF o ok] by blast
  let ?ps = "bn_pairs (bt_nodes t1 leaf)"
  obtain pos found where r: "bsearch_eq (keyvals_cmp cmp ?k) (elem_at ?ps) (int (length ?ps)) = Some (pos, found)"
    "found_at (keyvals_cmp cmp ?k) ?ps (pos, found)" using leaf_search [OF o g(2)] .
  have nf: "\<not> found" using no_match_iff [OF g(4) r(2) g(2)] new g(3) by simp
  have small: "length ?ps < 2 * bt_order + 2" using bt_shapeD(7) [OF g(2), of leaf] by simp
  have ps: "map pair_entry (insert_at (nat pos) kvs ?ps) = put_entry cmp ?add ?k ?k (kvs_hash kvs) (map pair_entry ?ps)"
    using put_entry_insert_at(1) [where add = ?add, of cmp ?k ?ps pos kvs ?k "kvs_hash kvs"] r(2) nf by (simp add: pair_entry_def)
  obtain t' where t': "split_if_full cmp leaf (with_pairs leaf (insert_at (nat pos) kvs ?ps) (bt_nkeys t1 + 1) t1) = Some t'" "bt_ok cmp t'"
    "bt_entries t' = put_entry cmp ?add ?k ?k (kvs_hash kvs) (bt_entries t1)"
    using split_put_ok [OF o g(2,4,5) key_order.cmp_refl [OF o] ps] small by auto
  have "bt_insert_kvs cmp t kvs = Some t'"
    using g(1) r(1) t'(1) nf by (simp add: bt_insert_kvs_def Let_def insert_key_with [OF small])
  then show ?thesis using t'(2,3) g(3) by simp
qed

interpretation btree: pair_collection app cmp keycopy "bt_insert_kv app cmp keycopy" "bt_insert_kvs cmp" bt_init "bt_ok cmp" bt_entries
  for app :: "('k, 'v) app_arg" and cmp keycopy
proof
  show "bt_ok cmp bt_init" "bt_entries (bt_init :: ('k, 'v) btree) = []"
    by (simp_all add: bt_ok_def bt_init_def bt_entries_def)
  show "asc cmp (map fst (bt_entries t))" if tok: "bt_ok cmp t" for t :: "('k, 'v) btree"
  proof (cases "bt_nlevel t = 0")
    case True
    then show ?thesis by (simp add: bt_entries_def asc_def)
  next
    case False
    then obtain L Us where s: "bt_shape cmp t L Us" using tok by (auto simp: bt_ok_def)
    then show ?thesis using bt_shapeD(9) [OF s] by (simp add: bt_shape_entries [OF s] comp_def)
  qed
qed (rule bt_insert_kv_ok bt_insert_kvs_ok; assumption)+

section \<open>Reading a tree\<close>

lemma bt_copy_kvs_ok:
  assumes "bt_ok cmp t"
  shows "\<exists>kvs. bt_copy_kvs t = Some kvs \<and> map pair_entry kvs = bt_entries t"
proof (cases "bt_nlevel t = 0")
  case True
  then show ?thesis by (simp add: bt_copy_kvs_def bt_entries_def)
next
  case False
  then obtain L Us where s: "bt_shape cmp t L Us" using assms by (auto simp: bt_ok_def)
  show ?thesis
    using leftmost_ok [OF bt_shapeD(3) [OF s]] copy_leaves_chain [OF bt_shapeD(6) [OF s]] bt_shapeD(1,2,10) [OF s]
    by (simp add: bt_copy_kvs_def bt_shape_entries [OF s])
qed

text \<open>The iterator stands in the leaf \<open>node\<close>, the leaves \<open>L\<close> follow.\<close>

definition bt_at :: "('k, 'v) btree \<Rightarrow> nat \<times> ptr \<Rightarrow> ('k, 'v) entry_t list \<Rightarrow> bool" where
  "bt_at t it es = (case it of (nxt, node) \<Rightarrow> \<exists>L. chain (bn_next \<circ> bt_nodes t) node (node # L) \<and> distinct (node # L) \<and>
     (\<forall>p\<in>set L. bn_pairs (bt_nodes t p) \<noteq> []) \<and> nxt \<le> length (bn_pairs (bt_nodes t node)) \<and>
     es = map pair_entry (drop nxt (bn_pairs (bt_nodes t node)) @ leaf_pairs (bt_nodes t) L))"

lemma bt_at_next:
  assumes "bt_at t it (e # es)"
  shows "\<exists>kvs it' t'. bt_iter_next_kvs t it True = Some (kvs, it', t') \<and> pair_entry kvs = e \<and> bt_at t' it' es"
proof -
  obtain nxt node where it: "it = (nxt, node)" by (cases it)
  obtain L where l: "chain (bn_next \<circ> bt_nodes t) node (node # L)" "distinct (node # L)" "\<forall>p\<in>set L. bn_pairs (bt_nodes t p) \<noteq> []"
    "nxt \<le> length (bn_pairs (bt_nodes t node))"
    "e # es = map pair_entry (drop nxt (bn_pairs (bt_nodes t node)) @ leaf_pairs (bt_nodes t) L)"
    using assms by (auto simp: bt_at_def it)
  have read: "\<exists>kvs t'. pair_entry kvs = e \<and> kvs = bn_pairs (bt_nodes t q) ! i \<and>
      t' = upd_node q (\<lambda>b. b\<lparr>bn_pairs := (bn_pairs b)[i := zeroed kvs]\<rparr>) t \<and> bt_at t' (i + 1, q) es"
    if q: "chain (bn_next \<circ> bt_nodes t) q (q # Q)" "distinct (q # Q)" "\<forall>p\<in>set Q. bn_pairs (bt_nodes t p) \<noteq> []"
      "i < length (bn_pairs (bt_nodes t q))" "e # es = map pair_entry (drop i (bn_pairs (bt_nodes t q)) @ leaf_pairs (bt_nodes t) Q)" for q Q i
  proof -
    let ?src = "bn_pairs (bt_nodes t q) ! i"
    let ?t = "upd_node q (\<lambda>b. b\<lparr>bn_pairs := (bn_pairs b)[i := zeroed ?src]\<rparr>) t"
    have n: "bn_next \<circ> bt_nodes ?t = bn_next \<circ> bt_nodes t" by (auto simp: upd_node_def)
    have p: "bn_pairs (bt_nodes ?t p) = (if p = q then (bn_pairs (bt_nodes t q))[i := zeroed ?src] else bn_pairs (bt_nodes t p))" for p
      by (simp add: upd_node_def)
    have lp: "leaf_pairs (bt_nodes ?t) Q = leaf_pairs (bt_nodes t) Q" using q(2) p by (intro leaf_pairs_cong) auto
    have d: "drop i (bn_pairs (bt_nodes t q)) = ?src # drop (Suc i) (bn_pairs (bt_nodes t q))" using q(4) by (simp add: Cons_nth_drop_Suc)
    have "bt_at ?t (i + 1, q) es"
      unfolding bt_at_def prod.case n using q d lp p by (intro exI [of _ Q]) auto
    then show ?thesis using q(5) d by auto
  qed
  show ?thesis
  proof (cases "nxt < length (bn_pairs (bt_nodes t node))")
    case True
    then show ?thesis using read [OF l(1,2,3) True l(5)] by (auto simp: it bt_iter_next_kvs_def Let_def)
  next
    case False
    then have e: "nxt = length (bn_pairs (bt_nodes t node))" "e # es = map pair_entry (leaf_pairs (bt_nodes t) L)" using l(4,5) by auto
    then obtain q Q where L: "L = q # Q" by (cases L) auto
    have q: "chain (bn_next \<circ> bt_nodes t) q (q # Q)" "bn_next (bt_nodes t node) = q" "q \<noteq> NULL" using l(1) L by auto
    then show ?thesis using read [of q Q 0] l(2,3) e L by (auto simp: it bt_iter_next_kvs_def Let_def)
  qed
qed

interpretation btree_walk: pair_iterator "bt_iter_begin :: ('k, 'v) btree \<Rightarrow> _" bt_iter_next_kvs "bt_ok cmp" bt_entries bt_at
  for cmp :: "'k \<Rightarrow> 'k \<Rightarrow> int"
proof
  fix t :: "('k, 'v) btree" and i e es
  show "case bt_iter_begin t of None \<Rightarrow> bt_entries t = [] | Some i \<Rightarrow> bt_at t i (bt_entries t)" if tok: "bt_ok cmp t"
  proof (cases "bt_nlevel t = 0")
    case True
    then show ?thesis by (simp add: bt_iter_begin_def bt_entries_def)
  next
    case False
    then obtain L Us where s: "bt_shape cmp t L Us" using tok by (auto simp: bt_ok_def)
    obtain p Q where L: "L = p # Q" using bt_shape_nonempty [OF s] by (cases L) auto
    have "bt_iter_begin t = Some (0, p)"
      using leftmost_ok [OF bt_shapeD(3) [OF s]] bt_shapeD(1,2) [OF s] L by (simp add: bt_iter_begin_def)
    moreover have "bt_at t (0, p) (bt_entries t)"
      unfolding bt_at_def prod.case
    proof (intro exI [of _ Q] conjI ballI)
      show "bn_pairs (bt_nodes t q) \<noteq> []" if "q \<in> set Q" for q
        using bt_shapeD(8) [OF s, of q] that L by (cases Q) auto
    qed (use bt_shapeD(4,6) [OF s] L in \<open>auto simp: bt_shape_entries [OF s]\<close>)
    ultimately show ?thesis by simp
  qed
  show "bt_iter_next_kvs t i True = None" if "bt_at t i []"
  proof -
    obtain nxt node L where "i = (nxt, node)" "chain (bn_next \<circ> bt_nodes t) node (node # L)" "\<forall>p\<in>set L. bn_pairs (bt_nodes t p) \<noteq> []"
      "nxt \<le> length (bn_pairs (bt_nodes t node))" "drop nxt (bn_pairs (bt_nodes t node)) @ leaf_pairs (bt_nodes t) L = []"
      using \<open>bt_at t i []\<close> by (cases i) (auto simp: bt_at_def)
    then show ?thesis by (cases L) (auto simp: bt_iter_next_kvs_def)
  qed
  show "bt_at t i (e # es) \<Longrightarrow> \<exists>kvs i' c'. bt_iter_next_kvs t i True = Some (kvs, i', c') \<and> pair_entry kvs = e \<and> bt_at c' i' es"
    by (rule bt_at_next)
qed

end
