(* ===== verification/MT_Reduce.thy ===== *)
theory MT_Reduce
  imports MT_Btree
begin

text \<open>
  The reduce phase of Metis: the reduce buckets (\<open>rbktsmgr.c\<close>) and grouping the pairs of several collections by key
  (\<open>reduce.c\<close>).
\<close>

section \<open>Reduce buckets (rbktsmgr.c)\<close>

text \<open>The buckets are arrays of pairs or, for \<open>atype_mapgroup\<close>, arrays of keys with their values; the model has a list of
  arrays for each of the two kinds, of which \<open>rbkt_pch\<close> names the one in use.  The task of the calling thread,
  \<open>cur_task\<close>, is an argument.\<close>

record ('k, 'v) rbkts =
  rb_kv :: "('k, 'v) keyval coll list"
  rb_kvl :: "('k, 'v) keyvals_len coll list"

definition rbkts_init :: "nat \<Rightarrow> ('k, 'v) rbkts" where
  "rbkts_init n = \<lparr>rb_kv = replicate n coll_init, rb_kvl = replicate n coll_init\<rparr>"

definition rbkts_emit_kv :: "nat \<Rightarrow> 'k \<Rightarrow> 'v \<Rightarrow> ('k, 'v) rbkts \<Rightarrow> ('k, 'v) rbkts option" where
  "rbkts_emit_kv task key val R =
     (if task < length (rb_kv R)
      then do {
        (_, c) \<leftarrow> kvarr_insert_kv None (rb_kv R ! task) key val 0 0;
        Some (R\<lparr>rb_kv := (rb_kv R)[task := c]\<rparr>)
      }
      else None)"

definition rbkts_emit_kvs_len :: "nat \<Rightarrow> 'k \<Rightarrow> 'v list \<Rightarrow> ('k, 'v) rbkts \<Rightarrow> ('k, 'v) rbkts option" where
  "rbkts_emit_kvs_len task key vals R =
     (if task < length (rb_kvl R)
      then do {
        c \<leftarrow> lenarr_insert_kvslen (rb_kvl R ! task) key vals;
        Some (R\<lparr>rb_kvl := (rb_kvl R)[task := c]\<rparr>)
      }
      else None)"

section \<open>Emitting a group (reduce.c)\<close>

text \<open>The reduce function emits its pairs one after the other with \<open>mr_reduce_emit\<close>.\<close>

primrec emit_all :: "nat \<Rightarrow> ('k \<times> 'v) list \<Rightarrow> ('k, 'v) rbkts \<Rightarrow> ('k, 'v) rbkts option" where
  "emit_all task [] R = Some R"
| "emit_all task (p # ps) R = do { R1 \<leftarrow> rbkts_emit_kv task (fst p) (snd p) R; emit_all task ps R1 }"

text \<open>The end of the loops of \<open>reduce_or_groupkvs\<close> and \<open>reduce_or_groupkv\<close>; the array of values is reused only after a call
  of the reduce function, and its length is 0 in any case, so that only \<open>alloc_len\<close> is carried on.\<close>

definition emit_group ::
    "('k, 'v) app_arg \<Rightarrow> nat \<Rightarrow> ('k, 'v) keyvals \<Rightarrow> ('k, 'v) rbkts \<Rightarrow> (nat \<times> ('k, 'v) rbkts) option" where
  "emit_group app task kvs R =
     (if atype app = atype_mapreduce
      then if vm app \<noteq> None
        then (case kvs_vals kvs of v # _ \<Rightarrow> map_option (Pair 0) (rbkts_emit_kv task (kvs_key kvs) v R) | [] \<Rightarrow> None)
        else map_option (Pair (kvs_alloc kvs)) (emit_all task (reduce_func app (kvs_key kvs) (kvs_vals kvs)) R)
      else map_option (Pair 0) (rbkts_emit_kvs_len task (kvs_key kvs) (kvs_vals kvs) R))"

section \<open>Grouping sorted collections (reduce\_or\_groupkvs)\<close>

text \<open>The functions of a handler that the loop uses.\<close>

record ('c, 'i, 'k, 'v) pch_iter =
  pch_iter_begin :: "'c \<Rightarrow> 'i option"
  pch_iter_next_kvs :: "'c \<Rightarrow> 'i \<Rightarrow> bool \<Rightarrow> (('k, 'v) keyvals \<times> 'i \<times> 'c) option"

definition hkvsarr :: "(('k, 'v) keyvals coll, nat, 'k, 'v) pch_iter" where
  "hkvsarr = \<lparr>pch_iter_begin = kvsarr_iter_begin, pch_iter_next_kvs = kvsarr_iter_next_kvs\<rparr>"

definition hkvsbtree :: "(('k, 'v) btree, nat \<times> ptr, 'k, 'v) pch_iter" where
  "hkvsbtree = \<lparr>pch_iter_begin = bt_iter_begin, pch_iter_next_kvs = bt_iter_next_kvs\<rparr>"

text \<open>Entry \<open>i\<close> of the arrays \<open>nodes\<close>, \<open>iters\<close> and \<open>kvs\<close>; \<open>src_kvs\<close> is \<open>None\<close> when \<open>ended[i]\<close> is set.\<close>

record ('c, 'i, 'k, 'v) source =
  src_coll :: 'c
  src_iter :: "'i option"
  src_kvs :: "('k, 'v) keyvals option"

definition advance :: "('c, 'i, 'k, 'v) pch_iter \<Rightarrow> ('c, 'i, 'k, 'v) source \<Rightarrow> ('c, 'i, 'k, 'v) source" where
  "advance pch s =
     (case src_iter s of
        None \<Rightarrow> s
      | Some it \<Rightarrow>
          (case pch_iter_next_kvs pch (src_coll s) it True of
             None \<Rightarrow> s\<lparr>src_kvs := None\<rparr>
           | Some (kvs, it', coll) \<Rightarrow> \<lparr>src_coll = coll, src_iter = Some it', src_kvs = Some kvs\<rparr>))"

definition open_source :: "('c, 'i, 'k, 'v) pch_iter \<Rightarrow> 'c \<Rightarrow> ('c, 'i, 'k, 'v) source" where
  "open_source pch coll = advance pch \<lparr>src_coll = coll, src_iter = pch_iter_begin pch coll, src_kvs = None\<rparr>"

text \<open>The search for the minimum: the pair of \<open>min_idx\<close>, \<open>m\<close> and the marks from here on.\<close>

fun find_min ::
    "('k \<Rightarrow> 'k \<Rightarrow> int) \<Rightarrow> ('k, 'v) keyvals option list \<Rightarrow> ('k, 'v) keyvals option \<Rightarrow> nat \<Rightarrow>
     ('k, 'v) keyvals option \<times> nat \<times> nat list" where
  "find_min keycmp [] mn m = (mn, m, [])"
| "find_min keycmp (None # xs) mn m = (case find_min keycmp xs mn m of (mn', m', marks) \<Rightarrow> (mn', m', 0 # marks))"
| "find_min keycmp (Some kvs # xs) mn m =
     (let res = (case mn of None \<Rightarrow> 0 | Some q \<Rightarrow> keycmp (kvs_key q) (kvs_key kvs)) in
      if mn = None \<or> res > 0
      then case find_min keycmp xs (Some kvs) (m + 1) of (mn', m', marks) \<Rightarrow> (mn', m', (m + 1) # marks)
      else case find_min keycmp xs mn m of (mn', m', marks) \<Rightarrow> (mn', m', (if res = 0 then m else 0) # marks))"

definition needed_len :: "nat \<Rightarrow> nat list \<Rightarrow> ('c, 'i, 'k, 'v) source list \<Rightarrow> nat" where
  "needed_len m marks srcs = sum_list (map (\<lambda>(k, s). if k = m then (case src_kvs s of Some kvs \<Rightarrow> length (kvs_vals kvs) | None \<Rightarrow> 0) else 0)
     (zip marks srcs))"

text \<open>\<open>values_mv\<close> and the next pair of every marked source.\<close>

fun eat ::
    "('k, 'v) app_arg \<Rightarrow> ('c, 'i, 'k, 'v) pch_iter \<Rightarrow> nat \<Rightarrow> nat list \<Rightarrow> ('c, 'i, 'k, 'v) source list \<Rightarrow> ('k, 'v) keyvals \<Rightarrow>
     (('c, 'i, 'k, 'v) source list \<times> ('k, 'v) keyvals) option" where
  "eat app pch m (k # marks) (s # srcs) dst =
     (if k = m
      then (case src_kvs s of
          None \<Rightarrow> None
        | Some kvs \<Rightarrow> do {
            (dst1, _) \<leftarrow> values_mv app dst kvs;
            (srcs', dst') \<leftarrow> eat app pch m marks srcs dst1;
            Some (advance pch s # srcs', dst')
          })
      else do { (srcs', dst') \<leftarrow> eat app pch m marks srcs dst; Some (s # srcs', dst') })"
| "eat app pch m marks srcs dst = Some (srcs, dst)"

partial_function (option) group_loop ::
    "('k, 'v) app_arg \<Rightarrow> ('k \<Rightarrow> 'k \<Rightarrow> int) \<Rightarrow> ('c, 'i, 'k, 'v) pch_iter \<Rightarrow> nat \<Rightarrow> ('c, 'i, 'k, 'v) source list \<Rightarrow> nat \<Rightarrow>
     ('k, 'v) rbkts \<Rightarrow> (('c, 'i, 'k, 'v) source list \<times> ('k, 'v) rbkts) option" where
  "group_loop app keycmp pch task srcs alloc R =
     (case find_min keycmp (map src_kvs srcs) None 0 of
        (None, _, _) \<Rightarrow> Some (srcs, R)
      | (Some mn, m, marks) \<Rightarrow> do {
          let need = needed_len m marks srcs;
          let alloc1 = (if alloc < need then need else alloc);
          (srcs1, dst) \<leftarrow> eat app pch m marks srcs
            \<lparr>kvs_key = kvs_key mn, kvs_vals = [], kvs_alloc = alloc1, kvs_hash = 0\<rparr>;
          (alloc2, R1) \<leftarrow> emit_group app task dst R;
          group_loop app keycmp pch task srcs1 alloc2 R1
        })"

text \<open>The collections afterwards and the buckets.\<close>

definition reduce_or_groupkvs ::
    "('k, 'v) app_arg \<Rightarrow> ('k \<Rightarrow> 'k \<Rightarrow> int) \<Rightarrow> ('c, 'i, 'k, 'v) pch_iter \<Rightarrow> nat \<Rightarrow> 'c list \<Rightarrow> ('k, 'v) rbkts \<Rightarrow>
     ('c list \<times> ('k, 'v) rbkts) option" where
  "reduce_or_groupkvs app keycmp pch task nodes R = do {
     (srcs, R') \<leftarrow> group_loop app keycmp pch task (map (open_source pch) nodes) 0 R;
     Some (map src_coll srcs, R')
   }"

section \<open>Grouping unsorted arrays (reduce\_or\_groupkv)\<close>

text \<open>\<open>qsort\<close> of the C library is the argument \<open>qs\<close>.  The loop over the sorted array: a run of equal keys, its
  values, and what happens with them; \<open>meth\<close> and \<open>arg\<close> are the arguments of these names.\<close>

definition run_kvs ::
    "('k, 'v) app_arg \<Rightarrow> 'k \<Rightarrow> nat \<Rightarrow> 'v list \<Rightarrow> ('k, 'v) keyvals" where
  "run_kvs app key alloc vals = foldl (values_insert app) \<lparr>kvs_key = key, kvs_vals = [], kvs_alloc = alloc, kvs_hash = 0\<rparr> vals"

function group_runs ::
    "('k, 'v) app_arg \<Rightarrow> ('k \<Rightarrow> 'k \<Rightarrow> int) \<Rightarrow> nat \<Rightarrow> (('k, 'v) keyvals \<Rightarrow> 'a \<Rightarrow> 'a option) option \<Rightarrow> ('k, 'v) keyval list \<Rightarrow> nat \<Rightarrow>
     'a \<times> ('k, 'v) rbkts \<Rightarrow> ('a \<times> ('k, 'v) rbkts) option" where
  "group_runs app keycmp task meth [] alloc st = Some st"
| "group_runs app keycmp task meth (p # ps) alloc st =
     (case st of (arg, R) \<Rightarrow>
        let same = takeWhile (\<lambda>q. keycmp (kv_key p) (kv_key q) = 0) ps;
            rest = dropWhile (\<lambda>q. keycmp (kv_key p) (kv_key q) = 0) ps;
            kvs = run_kvs app (kv_key p) alloc (map kv_val (p # same))
        in case meth of
             Some f \<Rightarrow> do { arg1 \<leftarrow> f kvs arg; group_runs app keycmp task meth rest 0 (arg1, R) }
           | None \<Rightarrow> do {
               c_assert (atype app = atype_mapreduce \<and> vm app \<noteq> None \<longrightarrow> length (kvs_vals kvs) = 1);
               (alloc1, R1) \<leftarrow> emit_group app task kvs R;
               group_runs app keycmp task meth rest alloc1 (arg, R1)
             })"
  by pat_completeness auto
termination
  by (relation "measure (\<lambda>(app, keycmp, task, meth, ps, alloc, st). length ps)") (auto simp: le_imp_less_Suc length_dropWhile_le)

definition keyval_cmp :: "('k \<Rightarrow> 'k \<Rightarrow> int) \<Rightarrow> ('k, 'v) keyval \<Rightarrow> ('k, 'v) keyval \<Rightarrow> int" where
  "keyval_cmp keycmp p q = keycmp (kv_key p) (kv_key q)"

definition reduce_or_groupkv ::
    "('k, 'v) app_arg \<Rightarrow> ('k \<Rightarrow> 'k \<Rightarrow> int) \<Rightarrow>
     ((('k, 'v) keyval \<Rightarrow> ('k, 'v) keyval \<Rightarrow> int) \<Rightarrow> ('k, 'v) keyval list \<Rightarrow> ('k, 'v) keyval list) \<Rightarrow> nat \<Rightarrow>
     ('k, 'v) keyval coll list \<Rightarrow> (('k, 'v) keyvals \<Rightarrow> 'a \<Rightarrow> 'a option) option \<Rightarrow> 'a \<times> ('k, 'v) rbkts \<Rightarrow> ('a \<times> ('k, 'v) rbkts) option" where
  "reduce_or_groupkv app keycmp qs task nodes meth st =
     group_runs app keycmp task meth (qs (keyval_cmp keycmp) (concat (map kvarr_copy_kv nodes))) 0 st"

section \<open>What grouping computes\<close>

definition merge_vals :: "('k, 'v) app_arg \<Rightarrow> 'v list \<Rightarrow> 'v list \<Rightarrow> 'v list" where
  "merge_vals app acc vs =
     (case app_vm app of Some f \<Rightarrow> if acc = [] then vs else [f (Some (hd acc)) (hd vs)] | None \<Rightarrow> acc @ vs)"

definition vals_ok :: "('k, 'v) app_arg \<Rightarrow> ('k, 'v) entry_t list \<Rightarrow> bool" where
  "vals_ok app es \<longleftrightarrow> (\<forall>e\<in>set es. app_vm app \<noteq> None \<longrightarrow> length (fst (snd e)) = 1)"

text \<open>The values of a key in several collections, in the order of the collections.\<close>

definition group_values :: "('k, 'v) app_arg \<Rightarrow> ('k \<Rightarrow> 'k \<Rightarrow> int) \<Rightarrow> ('k, 'v) entry_t list list \<Rightarrow> 'k \<Rightarrow> 'v list" where
  "group_values app cmp ess k = foldl (merge_vals app) [] (List.map_filter (\<lambda>es. lookup_values cmp es k) ess)"

text \<open>The groups of several sorted collections: every key once, in order, with its values.\<close>

definition groups_of ::
    "('k, 'v) app_arg \<Rightarrow> ('k \<Rightarrow> 'k \<Rightarrow> int) \<Rightarrow> ('k, 'v) entry_t list list \<Rightarrow> ('k \<times> 'v list) list \<Rightarrow> bool" where
  "groups_of app cmp ess gs \<longleftrightarrow> asc cmp (map fst gs) \<and> (\<forall>g\<in>set gs. snd g = group_values app cmp ess (fst g)) \<and>
     (\<forall>k. (\<exists>g\<in>set gs. cmp k (fst g) = 0) \<longleftrightarrow> (\<exists>es\<in>set ess. \<exists>e\<in>set es. cmp k (fst e) = 0))"

primrec emit_groups :: "('k, 'v) app_arg \<Rightarrow> nat \<Rightarrow> ('k \<times> 'v list) list \<Rightarrow> ('k, 'v) rbkts \<Rightarrow> ('k, 'v) rbkts option" where
  "emit_groups app task [] R = Some R"
| "emit_groups app task (g # gs) R = do {
     (_, R1) \<leftarrow> emit_group app task \<lparr>kvs_key = fst g, kvs_vals = snd g, kvs_alloc = 0, kvs_hash = 0\<rparr> R;
     emit_groups app task gs R1
   }"

lemma emit_group_result:
  "map_option snd (emit_group app task kvs R) =
   map_option snd (emit_group app task \<lparr>kvs_key = kvs_key kvs, kvs_vals = kvs_vals kvs, kvs_alloc = 0, kvs_hash = 0\<rparr> R)"
  by (simp add: emit_group_def option.map_comp comp_def split: list.split)

lemma values_mv_vals:
  assumes "app_vm app \<noteq> None \<longrightarrow> length (kvs_vals src) = 1"
  shows "\<exists>dst' src'. values_mv app dst src = Some (dst', src') \<and> kvs_key dst' = kvs_key dst \<and>
    kvs_vals dst' = merge_vals app (kvs_vals dst) (kvs_vals src)"
  using assms by (cases "app_vm app") (simp_all add: values_mv_def merge_vals_def Let_def)

text \<open>The search for the minimum.\<close>

definition marked :: "('k \<Rightarrow> 'k \<Rightarrow> int) \<Rightarrow> ('k, 'v) keyvals \<Rightarrow> nat \<Rightarrow> ('k, 'v) keyvals option \<Rightarrow> nat \<Rightarrow> bool" where
  "marked cmp q m x k = (case x of None \<Rightarrow> k \<noteq> m
     | Some kvs \<Rightarrow> cmp (kvs_key q) (kvs_key kvs) \<le> 0 \<and> (k = m \<longleftrightarrow> cmp (kvs_key q) (kvs_key kvs) = 0))"

lemma marked_simps [simp]:
  "marked cmp q m None k \<longleftrightarrow> k \<noteq> m"
  "marked cmp q m (Some kvs) k \<longleftrightarrow>
     cmp (kvs_key q) (kvs_key kvs) \<le> 0 \<and> (k = m \<longleftrightarrow> cmp (kvs_key q) (kvs_key kvs) = 0)"
  by (simp_all add: marked_def)

lemma find_min_spec:
  assumes o: "key_order cmp"
  shows "find_min cmp xs mn m = (mn', m', ms) \<Longrightarrow> (mn \<noteq> None \<longrightarrow> 0 < m) \<Longrightarrow>
    m \<le> m' \<and> (mn' = None \<longleftrightarrow> mn = None \<and> set xs \<subseteq> {None}) \<and> (mn' \<noteq> None \<longrightarrow> 0 < m') \<and>
    (\<forall>q. mn' = Some q \<longrightarrow> (mn' = mn \<and> m' = m \<or> Some q \<in> set xs \<and> m < m' \<and> (\<forall>p. mn = Some p \<longrightarrow> cmp (kvs_key q) (kvs_key p) < 0)) \<and>
      list_all2 (marked cmp q m') xs ms)"
proof (induction xs arbitrary: mn m mn' m' ms)
  case (Cons x xs)
  note refl = key_order.cmp_refl [OF o]
  show ?case
  proof (cases x)
    case None
    obtain ms' where r: "find_min cmp xs mn m = (mn', m', ms')" "ms = 0 # ms'"
      using Cons.prems(1) None by (auto split: prod.splits)
    show ?thesis using Cons.IH [OF r(1) Cons.prems(2)] r(2) None by auto
  next
    case (Some kvs)
    define res where "res = (case mn of None \<Rightarrow> 0 | Some q \<Rightarrow> cmp (kvs_key q) (kvs_key kvs))"
    show ?thesis
    proof (cases "mn = None \<or> res > 0")
      case True
      obtain ms' where r: "find_min cmp xs (Some kvs) (m + 1) = (mn', m', ms')" "ms = (m + 1) # ms'"
        using Cons.prems(1) True Some by (auto simp: Let_def res_def split: prod.splits)
      note IH = Cons.IH [OF r(1), simplified]
      have lt: "cmp (kvs_key kvs) (kvs_key p) < 0" if "mn = Some p" for p
        using that True key_order.cmp_swap [OF o] by (auto simp: res_def)
      have "\<forall>p. mn = Some p \<longrightarrow> cmp (kvs_key q) (kvs_key p) < 0" if "q = kvs \<or> cmp (kvs_key q) (kvs_key kvs) < 0" for q
        using that lt key_order.less_trans1 [OF o] by (auto intro: less_imp_le)
      then show ?thesis using IH r(2) Some refl by auto
    next
      case False
      then obtain p where p: "mn = Some p" "cmp (kvs_key p) (kvs_key kvs) \<le> 0" by (auto simp: res_def)
      obtain ms' where r: "find_min cmp xs mn m = (mn', m', ms')" "ms = (if res = 0 then m else 0) # ms'"
        using Cons.prems(1) False Some by (auto simp: Let_def res_def split: prod.splits)
      note IH = Cons.IH [OF r(1) Cons.prems(2)]
      have "0 < m" using Cons.prems(2) p(1) by simp
      have "marked cmp q m' (Some kvs) (if res = 0 then m else 0)" if q: "mn' = Some q" for q
      proof (cases "q = p \<and> m' = m")
        case True
        then show ?thesis using p \<open>0 < m\<close> by (simp add: res_def)
      next
        case False
        then have "m < m'" "cmp (kvs_key q) (kvs_key p) < 0" using IH q p(1) by auto
        then show ?thesis using key_order.less_trans1 [OF o _ p(2), of "kvs_key q"] by auto
      qed
      then show ?thesis using IH r(2) Some p(1) by auto
    qed
  qed
qed auto

text \<open>A collection that is being walked through: its current pair and the entries behind it.\<close>

definition head_is :: "('k \<Rightarrow> 'k \<Rightarrow> int) \<Rightarrow> 'k \<Rightarrow> ('k, 'v) entry_t list \<Rightarrow> bool" where
  "head_is cmp k es = (case es of [] \<Rightarrow> False | e # _ \<Rightarrow> cmp k (fst e) = 0)"

definition behind :: "('k \<Rightarrow> 'k \<Rightarrow> int) \<Rightarrow> 'k \<Rightarrow> ('k, 'v) entry_t list \<Rightarrow> ('k, 'v) entry_t list" where
  "behind cmp k es = (if head_is cmp k es then tl es else es)"

definition heads :: "('k \<Rightarrow> 'k \<Rightarrow> int) \<Rightarrow> 'k \<Rightarrow> ('k, 'v) entry_t list list \<Rightarrow> 'v list list" where
  "heads cmp k ess = map (\<lambda>es. fst (snd (hd es))) (filter (head_is cmp k) ess)"

context key_order
begin

text \<open>The minimal key and what remains behind it.\<close>

lemma lookup_head:
  assumes "asc cmp (map fst es)" "\<forall>e\<in>set es. cmp k (fst e) \<le> 0"
  shows "lookup_values cmp es k = (if head_is cmp k es then Some (fst (snd (hd es))) else None)"
proof (cases es)
  case (Cons e es')
  have "cmp k (fst x) < 0" if "x \<in> set es'" for x
    using assms that less_trans2 [of k "fst e" "fst x"] by (auto simp: Cons asc_Cons)
  then have "find (\<lambda>e. cmp k (fst e) = 0) es' = None" unfolding find_None_iff by force
  then show ?thesis by (simp add: Cons lookup_values_def head_is_def)
qed (simp add: lookup_values_def head_is_def)

lemma group_values_min:
  assumes "\<forall>es\<in>set ess. asc cmp (map fst es) \<and> (\<forall>e\<in>set es. cmp k (fst e) \<le> 0)"
  shows "group_values app cmp ess k = foldl (merge_vals app) [] (heads cmp k ess)"
proof -
  have "List.map_filter (\<lambda>es. lookup_values cmp es k) ess = heads cmp k ess"
    using assms by (induction ess) (auto simp: heads_def map_filter_simps lookup_head)
  then show ?thesis by (simp add: group_values_def)
qed

lemma behind_keys:
  assumes "asc cmp (map fst es)" "\<forall>e\<in>set es. cmp k (fst e) \<le> 0" "e \<in> set (behind cmp k es)"
  shows "cmp k (fst e) < 0"
proof (cases es)
  case (Cons x es')
  show ?thesis
  proof (cases "e \<in> set es'")
    case True
    then show ?thesis using assms(1,2) less_trans2 [of k "fst x" "fst e"] by (auto simp: Cons asc_Cons)
  next
    case False
    then have "e = x" "cmp k (fst x) \<noteq> 0" using assms(3) by (auto simp: Cons behind_def head_is_def split: if_splits)
    then show ?thesis using assms(2) Cons by force
  qed
qed (use assms(3) in \<open>simp add: behind_def\<close>)

lemma lookup_behind:
  assumes "cmp k k' < 0"
  shows "lookup_values cmp (behind cmp k es) k' = lookup_values cmp es k'"
proof (cases es)
  case (Cons e es')
  have "cmp k' (fst e) \<noteq> 0" if "cmp k (fst e) = 0"
    using assms eq_right [OF that, of k'] cmp_swap [of k' k] by auto
  then show ?thesis by (cases "cmp k (fst e) = 0") (simp_all add: Cons behind_def head_is_def lookup_values_def)
qed (simp add: behind_def head_is_def)

lemma group_values_behind:
  assumes "cmp k k' < 0"
  shows "group_values app cmp (map (behind cmp k) ess) k' = group_values app cmp ess k'"
proof -
  have "List.map_filter (\<lambda>es. lookup_values cmp es k') (map (behind cmp k) ess) = List.map_filter (\<lambda>es. lookup_values cmp es k') ess"
    by (induction ess) (simp_all add: map_filter_simps lookup_behind [OF assms] split: option.split)
  then show ?thesis by (simp add: group_values_def)
qed

lemma groups_of_Cons:
  assumes a: "\<forall>es\<in>set ess. asc cmp (map fst es) \<and> (\<forall>e\<in>set es. cmp k (fst e) \<le> 0)"
    and ex: "\<exists>es\<in>set ess. head_is cmp k es"
    and g: "groups_of app cmp (map (behind cmp k) ess) gs"
  shows "groups_of app cmp ess ((k, foldl (merge_vals app) [] (heads cmp k ess)) # gs)"
proof -
  have later: "cmp k (fst x) < 0" if "x \<in> set gs" for x
  proof -
    have "\<exists>es\<in>set ess. \<exists>e\<in>set (behind cmp k es). cmp (fst x) (fst e) = 0"
      using g that cmp_refl [of "fst x"] unfolding groups_of_def by fastforce
    then obtain es e where e: "es \<in> set ess" "e \<in> set (behind cmp k es)" "cmp (fst x) (fst e) = 0" by blast
    then have "cmp k (fst e) < 0" using a behind_keys by blast
    then show ?thesis using eq_right [OF e(3), of k] by simp
  qed
  have keys: "(\<exists>es\<in>set ess. \<exists>e\<in>set es. cmp q (fst e) = 0) \<longleftrightarrow>
      cmp q k = 0 \<or> (\<exists>es\<in>set ess. \<exists>e\<in>set (behind cmp k es). cmp q (fst e) = 0)" for q
  proof
    assume "\<exists>es\<in>set ess. \<exists>e\<in>set es. cmp q (fst e) = 0"
    then obtain es e where e: "es \<in> set ess" "e \<in> set es" "cmp q (fst e) = 0" by blast
    show "cmp q k = 0 \<or> (\<exists>es\<in>set ess. \<exists>e\<in>set (behind cmp k es). cmp q (fst e) = 0)"
    proof (cases "e \<in> set (behind cmp k es)")
      case False
      then have "cmp k (fst e) = 0" using e(2) by (cases es) (auto simp: behind_def head_is_def split: if_splits)
      then show ?thesis using eq_right [of k "fst e" q] e(3) by simp
    qed (use e in blast)
  next
    assume "cmp q k = 0 \<or> (\<exists>es\<in>set ess. \<exists>e\<in>set (behind cmp k es). cmp q (fst e) = 0)"
    then show "\<exists>es\<in>set ess. \<exists>e\<in>set es. cmp q (fst e) = 0"
    proof
      assume q: "cmp q k = 0"
      obtain es where es: "es \<in> set ess" "head_is cmp k es" using ex by blast
      have "es \<noteq> []" using es(2) by (auto simp: head_is_def)
      then obtain e es' where ee: "es = e # es'" by (meson neq_Nil_conv)
      then have "cmp k (fst e) = 0" using es(2) by (simp add: head_is_def)
      then have "cmp q (fst e) = 0" using eq_right [of k "fst e" q] q by simp
      then show ?thesis using es(1) ee by (metis list.set_intros(1))
    next
      assume "\<exists>es\<in>set ess. \<exists>e\<in>set (behind cmp k es). cmp q (fst e) = 0"
      moreover have "set (behind cmp k es) \<subseteq> set es" for es by (cases es) (auto simp: behind_def)
      ultimately show ?thesis by blast
    qed
  qed
  show ?thesis
    using g later keys group_values_min [OF a, of app] group_values_behind [of k _ app ess]
    unfolding groups_of_def by (auto simp: asc_Cons)
qed

end

section \<open>The loop over several collections\<close>

definition src_at :: "('c \<Rightarrow> 'i \<Rightarrow> ('k, 'v) entry_t list \<Rightarrow> bool) \<Rightarrow> ('c, 'i, 'k, 'v) source \<Rightarrow> ('k, 'v) entry_t list \<Rightarrow> bool" where
  "src_at iter_at s es \<longleftrightarrow> (case src_kvs s of None \<Rightarrow> es = []
     | Some kvs \<Rightarrow> \<exists>i rest. src_iter s = Some i \<and> es = pair_entry kvs # rest \<and> iter_at (src_coll s) i rest)"

lemma vals_ok_behind: "vals_ok app es \<Longrightarrow> vals_ok app (behind cmp k es)"
  by (cases es) (auto simp: vals_ok_def behind_def)

lemma length_behind: "length (behind cmp k es) \<le> length es" "head_is cmp k es \<Longrightarrow> length (behind cmp k es) < length es"
  by (cases es; simp add: behind_def head_is_def)+

lemma sum_behind:
  assumes "es \<in> set ess" "head_is cmp k es"
  shows "sum_list (map length (map (behind cmp k) ess)) < sum_list (map length ess)"
  using assms
proof (induction ess)
  case (Cons x ess)
  have "sum_list (map length (map (behind cmp k) ess)) \<le> sum_list (map length ess)"
    unfolding map_map comp_def by (rule sum_list_mono) (rule length_behind(1))
  then show ?case using Cons length_behind(1) [of cmp k x] length_behind(2) [of cmp k x] by (auto intro: add_less_le_mono add_le_less_mono)
qed simp

lemma asc_behind: "asc cmp (map fst es) \<Longrightarrow> asc cmp (map fst (behind cmp k es))"
  by (cases es) (auto simp: behind_def asc_def)

context pair_iterator
begin

lemma advance_at:
  assumes "src_at iter_at s (e # es)"
  shows "src_at iter_at (advance \<lparr>pch_iter_begin = iter_begin, pch_iter_next_kvs = iter_next_kvs\<rparr> s) es"
proof -
  obtain kvs i where s: "src_kvs s = Some kvs" "src_iter s = Some i" "iter_at (src_coll s) i es"
    using assms by (auto simp: src_at_def split: option.splits)
  show ?thesis
  proof (cases es)
    case Nil
    then show ?thesis using s iter_end [of "src_coll s" i] by (simp add: advance_def src_at_def)
  next
    case (Cons x xs)
    then obtain kvs' i' c' where "iter_next_kvs (src_coll s) i True = Some (kvs', i', c')" "pair_entry kvs' = x" "iter_at c' i' xs"
      using s(3) iter_next [of "src_coll s" i x xs] by blast
    then show ?thesis using s Cons by (simp add: advance_def src_at_def)
  qed
qed

lemma open_at:
  assumes "coll_ok c"
  shows "src_at iter_at (open_source \<lparr>pch_iter_begin = iter_begin, pch_iter_next_kvs = iter_next_kvs\<rparr> c) (entries c)"
proof (cases "iter_begin c")
  case None
  then show ?thesis using iter_begin [OF assms] by (simp add: open_source_def advance_def src_at_def)
next
  case (Some i)
  then have i: "iter_at c i (entries c)" using iter_begin [OF assms] by simp
  show ?thesis
  proof (cases "entries c")
    case Nil
    then show ?thesis using i Some iter_end [of c i] by (simp add: open_source_def advance_def src_at_def)
  next
    case (Cons x xs)
    then obtain kvs' i' c' where "iter_next_kvs c i True = Some (kvs', i', c')" "pair_entry kvs' = x" "iter_at c' i' xs"
      using i iter_next [of c i x xs] by auto
    then show ?thesis using Some Cons by (simp add: open_source_def advance_def src_at_def)
  qed
qed

lemma eat_ok:
  assumes "list_all2 (src_at iter_at) srcs ess" "list_all2 (marked cmp mn m) (map src_kvs srcs) ms" "\<forall>es\<in>set ess. vals_ok app es"
  shows "\<exists>srcs' dst'. eat app \<lparr>pch_iter_begin = iter_begin, pch_iter_next_kvs = iter_next_kvs\<rparr> m ms srcs dst = Some (srcs', dst') \<and>
    list_all2 (src_at iter_at) srcs' (map (behind cmp (kvs_key mn)) ess) \<and> kvs_key dst' = kvs_key dst \<and>
    kvs_vals dst' = foldl (merge_vals app) (kvs_vals dst) (heads cmp (kvs_key mn) ess)"
  using assms
proof (induction srcs arbitrary: ess ms dst)
  case Nil
  then show ?case by (simp add: heads_def)
next
  case (Cons s srcs)
  let ?pch = "\<lparr>pch_iter_begin = iter_begin, pch_iter_next_kvs = iter_next_kvs\<rparr>" and ?k = "kvs_key mn"
  obtain es ess' where e: "ess = es # ess'" "src_at iter_at s es" "list_all2 (src_at iter_at) srcs ess'"
    using Cons.prems(1) by (auto simp: list_all2_Cons1)
  obtain k ms' where ms: "ms = k # ms'" "marked cmp mn m (src_kvs s) k" "list_all2 (marked cmp mn m) (map src_kvs srcs) ms'"
    using Cons.prems(2) by (auto simp: list_all2_Cons1)
  have v: "\<forall>es\<in>set ess'. vals_ok app es" "vals_ok app es" using Cons.prems(3) e(1) by auto
  show ?case
  proof (cases "src_kvs s")
    case None
    then have "es = []" "k \<noteq> m" using e(2) ms(2) by (auto simp: src_at_def)
    then show ?thesis using Cons.IH [OF e(3) ms(3) v(1), of dst] e ms by (auto simp: heads_def behind_def head_is_def)
  next
    case (Some kvs)
    then obtain rest where r: "es = pair_entry kvs # rest" using e(2) by (auto simp: src_at_def)
    show ?thesis
    proof (cases "k = m")
      case True
      then have h: "head_is cmp ?k es" "behind cmp ?k es = rest" using ms(2) Some r by (simp_all add: head_is_def behind_def)
      have "app_vm app \<noteq> None \<longrightarrow> length (kvs_vals kvs) = 1" using v(2) r by (simp add: vals_ok_def pair_entry_def)
      then obtain dst1 kvs1 where mv: "values_mv app dst kvs = Some (dst1, kvs1)" "kvs_key dst1 = kvs_key dst"
        "kvs_vals dst1 = merge_vals app (kvs_vals dst) (kvs_vals kvs)" using values_mv_vals by blast
      obtain srcs' dst' where IH: "eat app ?pch m ms' srcs dst1 = Some (srcs', dst')"
        "list_all2 (src_at iter_at) srcs' (map (behind cmp ?k) ess')" "kvs_key dst' = kvs_key dst1"
        "kvs_vals dst' = foldl (merge_vals app) (kvs_vals dst1) (heads cmp ?k ess')"
        using Cons.IH [OF e(3) ms(3) v(1), of dst1] by blast
      have "src_at iter_at (advance ?pch s) rest" using advance_at e(2) r by blast
      then show ?thesis using IH mv True Some h e(1) ms(1) r by (simp add: heads_def pair_entry_def)
    next
      case False
      then have h: "\<not> head_is cmp ?k es" "behind cmp ?k es = es" using ms(2) Some r by (simp_all add: head_is_def behind_def)
      obtain srcs' dst' where IH: "eat app ?pch m ms' srcs dst = Some (srcs', dst')"
        "list_all2 (src_at iter_at) srcs' (map (behind cmp ?k) ess')" "kvs_key dst' = kvs_key dst"
        "kvs_vals dst' = foldl (merge_vals app) (kvs_vals dst) (heads cmp ?k ess')"
        using Cons.IH [OF e(3) ms(3) v(1), of dst] by blast
      then show ?thesis using False h e ms(1) by (simp add: heads_def)
    qed
  qed
qed

lemma group_loop_ok:
  assumes o: "key_order cmp"
  shows "list_all2 (src_at iter_at) srcs ess \<Longrightarrow> \<forall>es\<in>set ess. asc cmp (map fst es) \<and> vals_ok app es \<Longrightarrow>
    \<exists>gs. groups_of app cmp ess gs \<and>
      map_option snd (group_loop app cmp \<lparr>pch_iter_begin = iter_begin, pch_iter_next_kvs = iter_next_kvs\<rparr> task srcs alloc R) =
      emit_groups app task gs R"
proof (induction "sum_list (map length ess)" arbitrary: srcs ess alloc R rule: less_induct)
  case less
  let ?pch = "\<lparr>pch_iter_begin = iter_begin, pch_iter_next_kvs = iter_next_kvs\<rparr>"
  have empty_iff: "src_kvs s = None \<longleftrightarrow> es = []" if "src_at iter_at s es" for s es
    using that by (auto simp: src_at_def split: option.splits)
  have all: "\<forall>i<length srcs. src_at iter_at (srcs ! i) (ess ! i)" "length srcs = length ess"
    using less.prems(1) by (auto simp: list_all2_conv_all_nth)
  obtain mn m ms where f: "find_min cmp (map src_kvs srcs) None 0 = (mn, m, ms)" by (cases "find_min cmp (map src_kvs srcs) None 0")
  note spec = find_min_spec [OF o f, simplified]
  show ?case
  proof (cases mn)
    case None
    then have "es = []" if "es \<in> set ess" for es
      using spec all that empty_iff by (fastforce simp: in_set_conv_nth subset_iff)
    then have "groups_of app cmp ess []" by (force simp: groups_of_def asc_def)
    moreover have "group_loop app cmp ?pch task srcs alloc R = Some (srcs, R)" using f None by (subst group_loop.simps) simp
    ultimately show ?thesis by (intro exI [of _ "[]"]) simp
  next
    case (Some q)
    let ?k = "kvs_key q"
    have mk: "list_all2 (marked cmp q m) (map src_kvs srcs) ms" and qi: "Some q \<in> src_kvs ` set srcs" using spec Some by auto
    define alloc1 where "alloc1 = (if alloc < needed_len m ms srcs then needed_len m ms srcs else alloc)"
    obtain srcs1 dst where e: "eat app ?pch m ms srcs \<lparr>kvs_key = ?k, kvs_vals = [], kvs_alloc = alloc1, kvs_hash = 0\<rparr> = Some (srcs1, dst)"
      "list_all2 (src_at iter_at) srcs1 (map (behind cmp ?k) ess)" "kvs_key dst = ?k"
      "kvs_vals dst = foldl (merge_vals app) [] (heads cmp ?k ess)"
      using eat_ok [OF less.prems(1) mk, of app "\<lparr>kvs_key = ?k, kvs_vals = [], kvs_alloc = alloc1, kvs_hash = 0\<rparr>"] less.prems(2) by auto
    have head: "\<exists>rest. ess ! i = pair_entry kvs # rest" if "i < length srcs" "src_kvs (srcs ! i) = Some kvs" for i kvs
      using all(1) that by (fastforce simp: src_at_def)
    have le: "cmp ?k (fst x) \<le> 0" if es: "es \<in> set ess" "x \<in> set es" for es x
    proof -
      obtain i where i: "i < length ess" "es = ess ! i" using es(1) by (auto simp: in_set_conv_nth)
      obtain kvs where kvs: "src_kvs (srcs ! i) = Some kvs" using empty_iff [of "srcs ! i" es] all i es(2) by fastforce
      obtain rest where r: "es = pair_entry kvs # rest" using head [OF _ kvs] i all(2) by auto
      have "marked cmp q m (src_kvs (srcs ! i)) (ms ! i)" using mk i all(2) by (simp add: list_all2_conv_all_nth)
      then have "cmp ?k (kvs_key kvs) \<le> 0" using kvs by simp
      moreover have "x = pair_entry kvs \<or> cmp (kvs_key kvs) (fst x) < 0"
        using less.prems(2) es r by (auto simp: key_order.asc_Cons [OF o])
      ultimately show ?thesis using key_order.cmp_trans [OF o, of ?k "kvs_key kvs" "fst x"] by auto
    qed
    then have a: "\<forall>es\<in>set ess. asc cmp (map fst es) \<and> (\<forall>x\<in>set es. cmp ?k (fst x) \<le> 0)" using less.prems(2) by blast
    obtain i where i: "i < length srcs" "src_kvs (srcs ! i) = Some q" using qi by (auto simp: in_set_conv_nth)
    have ex: "ess ! i \<in> set ess" "head_is cmp ?k (ess ! i)"
      using i all(2) head [OF i] key_order.cmp_refl [OF o] by (auto simp: head_is_def)
    have a2: "\<forall>es\<in>set (map (behind cmp ?k) ess). asc cmp (map fst es) \<and> vals_ok app es"
      using less.prems(2) by (auto intro!: asc_behind vals_ok_behind)
    note IH = less.hyps [OF sum_behind [OF ex] e(2) a2]
    have step: "group_loop app cmp ?pch task srcs alloc R =
        emit_group app task dst R \<bind> (\<lambda>(alloc2, R1). group_loop app cmp ?pch task srcs1 alloc2 R1)"
      using f Some e(1) by (subst group_loop.simps) (simp add: Let_def alloc1_def)
    have same: "map_option snd (emit_group app task dst R) =
        map_option snd (emit_group app task \<lparr>kvs_key = ?k, kvs_vals = kvs_vals dst, kvs_alloc = 0, kvs_hash = 0\<rparr> R)"
      using emit_group_result [of app task dst R] e(3) by simp
    show ?thesis
    proof (cases "emit_group app task dst R")
      case None
      obtain gs where gs: "groups_of app cmp (map (behind cmp ?k) ess) gs" using IH [of 0 R] by blast
      have "emit_group app task \<lparr>kvs_key = ?k, kvs_vals = kvs_vals dst, kvs_alloc = 0, kvs_hash = 0\<rparr> R = None" using same None by simp
      then show ?thesis
        using key_order.groups_of_Cons [OF o a _ gs] ex step None e(4)
        by (intro exI [of _ "(?k, kvs_vals dst) # gs"]) auto
    next
      case (Some r)
      obtain alloc2 R1 where r: "r = (alloc2, R1)" by (cases r)
      obtain gs where gs: "groups_of app cmp (map (behind cmp ?k) ess) gs"
        "map_option snd (group_loop app cmp ?pch task srcs1 alloc2 R1) = emit_groups app task gs R1" using IH by blast
      obtain alloc3 where "emit_group app task \<lparr>kvs_key = ?k, kvs_vals = kvs_vals dst, kvs_alloc = 0, kvs_hash = 0\<rparr> R = Some (alloc3, R1)"
        using same Some r by (cases "emit_group app task \<lparr>kvs_key = ?k, kvs_vals = kvs_vals dst, kvs_alloc = 0, kvs_hash = 0\<rparr> R") auto
      then show ?thesis
        using key_order.groups_of_Cons [OF o a _ gs(1)] gs(2) ex step Some r e(4)
        by (intro exI [of _ "(?k, kvs_vals dst) # gs"]) auto
    qed
  qed
qed

lemma reduce_or_groupkvs_ok:
  assumes o: "key_order cmp" and ok: "\<forall>c\<in>set nodes. coll_ok c \<and> asc cmp (map fst (entries c)) \<and> vals_ok app (entries c)"
  shows "\<exists>gs. groups_of app cmp (map entries nodes) gs \<and>
    map_option snd (reduce_or_groupkvs app cmp \<lparr>pch_iter_begin = iter_begin, pch_iter_next_kvs = iter_next_kvs\<rparr> task nodes R) =
    emit_groups app task gs R"
proof -
  let ?pch = "\<lparr>pch_iter_begin = iter_begin, pch_iter_next_kvs = iter_next_kvs\<rparr>"
  have l: "list_all2 (src_at iter_at) (map (open_source ?pch) nodes) (map entries nodes)"
    using ok open_at by (simp add: list_all2_conv_all_nth)
  have "\<forall>es\<in>set (map entries nodes). asc cmp (map fst es) \<and> vals_ok app es" using ok by simp
  then obtain gs where "groups_of app cmp (map entries nodes) gs"
    "map_option snd (group_loop app cmp ?pch task (map (open_source ?pch) nodes) 0 R) = emit_groups app task gs R"
    using group_loop_ok [OF o l, of app task 0 R] by blast
  then show ?thesis
    by (cases "group_loop app cmp ?pch task (map (open_source ?pch) nodes) 0 R") (auto simp: reduce_or_groupkvs_def)
qed

end

end
