(* ===== verification/MT_Sort.thy ===== *)
theory MT_Sort
  imports MT_Reduce "HOL-Library.Multiset"
begin

text \<open>
  The merge phase of Metis: merging sorted collections (\<open>mergesort.c\<close>), parallel sorting by regular sampling
  (\<open>psrs.c\<close>) and the functions of \<open>rbktsmgr.c\<close> that use them.  \<open>qsort\<close> of the C library is the argument \<open>qs\<close>.
\<close>

section \<open>Merging sorted collections (mergesort.c)\<close>

text \<open>The search for the smallest pair at the positions \<open>task_pos\<close>: the pair and its index, from the collection \<open>i\<close> on.\<close>

fun scan_min :: "('p \<Rightarrow> 'p \<Rightarrow> int) \<Rightarrow> ('p list \<times> nat) list \<Rightarrow> nat \<Rightarrow> 'p option \<Rightarrow> nat \<Rightarrow> 'p option \<times> nat" where
  "scan_min pcmp [] i min_pair min_idx = (min_pair, min_idx)"
| "scan_min pcmp ((elems, pos) # xs) i min_pair min_idx =
     (if pos = length elems then scan_min pcmp xs (i + 1) min_pair min_idx
      else let e = elems ! pos in
        if (case min_pair of None \<Rightarrow> True | Some p \<Rightarrow> pcmp p e > 0) then scan_min pcmp xs (i + 1) (Some e) i
        else scan_min pcmp xs (i + 1) min_pair min_idx)"

text \<open>\<open>n\<close> rounds of the loop: the pairs copied to \<open>out\<close>.\<close>

primrec merge_rounds :: "('p \<Rightarrow> 'p \<Rightarrow> int) \<Rightarrow> 'p list list \<Rightarrow> nat \<Rightarrow> nat list \<Rightarrow> 'p list option" where
  "merge_rounds pcmp parrs 0 task_pos = Some []"
| "merge_rounds pcmp parrs (Suc n) task_pos =
     (case scan_min pcmp (zip parrs task_pos) 0 None 0 of
        (None, _) \<Rightarrow> None
      | (Some p, i) \<Rightarrow> map_option (Cons p) (merge_rounds pcmp parrs n (task_pos[i := task_pos ! i + 1])))"

definition mycolls :: "nat \<Rightarrow> nat \<Rightarrow> nat \<Rightarrow> nat" where
  "mycolls ncolls ncpus lcpu = ncolls div ncpus + (if lcpu < ncolls mod ncpus then 1 else 0)"

definition my_indices :: "nat \<Rightarrow> nat \<Rightarrow> nat \<Rightarrow> nat list" where
  "my_indices ncolls ncpus lcpu = map (\<lambda>i. lcpu + i * ncpus) [0..<mycolls ncolls ncpus lcpu]"

definition shallow_free_at :: "nat list \<Rightarrow> 'p coll list \<Rightarrow> 'p coll list" where
  "shallow_free_at is acolls = foldl (\<lambda>cs i. cs[i := pch_shallow_free (cs ! i)]) acolls is"

definition mergesort :: "('p \<Rightarrow> 'p \<Rightarrow> int) \<Rightarrow> nat \<Rightarrow> nat \<Rightarrow> 'p coll list \<Rightarrow> 'p coll list option" where
  "mergesort pcmp ncpus lcpu acolls =
     (let is = my_indices (length acolls) ncpus lcpu;
          npairs = sum_list (map (\<lambda>i. pch_get_len (acolls ! i)) is)
      in if npairs = 0 then Some acolls
         else do {
           out \<leftarrow> merge_rounds pcmp (map (\<lambda>i. c_elems (acolls ! i)) is) npairs (replicate (length is) 0);
           let freed = shallow_free_at is acolls;
           Some (freed[lcpu := pch_set_elems out (freed ! lcpu)])
         })"

section \<open>Parallel sorting by regular sampling (psrs.c)\<close>

text \<open>\<open>copy_elems\<close>: the loop from a collection on, whose first element has the global index \<open>glb_start\<close>.\<close>

fun copy_range :: "'p coll list \<Rightarrow> int \<Rightarrow> int \<Rightarrow> int \<Rightarrow> 'p list" where
  "copy_range [] glb_start dst_start dst_end = []"
| "copy_range (c # cs) glb_start dst_start dst_end =
     (let len = int (pch_get_len c); glb_end = glb_start + len - 1 in
      if len = 0 then copy_range cs glb_start dst_start dst_end
      else (if glb_start \<le> dst_end \<and> glb_end \<ge> dst_start
            then let loc_start = max dst_start glb_start - glb_start; loc_end = min dst_end glb_end - glb_start
                 in take (nat (loc_end - loc_start + 1)) (drop (nat loc_start) (c_elems c))
            else []) @ copy_range cs (glb_end + 1) dst_start dst_end)"

definition copy_elems :: "'p coll list \<Rightarrow> int \<Rightarrow> int \<Rightarrow> 'p list option" where
  "copy_elems acolls dst_start dst_end = do {
     let dest = copy_range acolls 0 dst_start dst_end;
     c_assert (int (length dest) = dst_end - dst_start + 1);
     Some dest
   }"

definition nth_opt :: "'e list \<Rightarrow> nat \<Rightarrow> 'e option" where
  "nth_opt xs i = (if i < length xs then Some (xs ! i) else None)"

text \<open>\<open>sublists\<close>: \<open>row\<close> is the part of \<open>subsize\<close> of the calling CPU; the search starts at the element \<open>start\<close> of the array.\<close>

function sublists ::
    "('p \<Rightarrow> 'p \<Rightarrow> int) \<Rightarrow> 'p list \<Rightarrow> 'p list \<Rightarrow> int \<Rightarrow> int \<Rightarrow> nat \<Rightarrow> nat \<Rightarrow> int list \<Rightarrow> int list option" where
  "sublists pcmp base pivots start end fp lp row = do {
     let mid = (fp + lp) div 2;
     pv \<leftarrow> nth_opt pivots mid;
     found \<leftarrow> bsearch_lar (pcmp pv) (\<lambda>i. elem_at base (start + i)) (end - start - 1);
     let pos = found + start;
     let row1 = row[mid := pos];
     row2 \<leftarrow>
       (if fp < mid
        then if start < pos then sublists pcmp base pivots start (pos - 1) fp (mid - 1) row1
             else Some (foldl (\<lambda>r i. r[i := start]) row1 [fp..<mid])
        else Some row1);
     (if mid < lp
      then if pos \<le> end then sublists pcmp base pivots pos end (mid + 1) lp row2
           else Some (foldl (\<lambda>r i. r[i := end + 1]) row2 [mid + 1..<lp + 1])
      else Some row2)
   }"
  by auto
termination by (relation "measure (\<lambda>(pcmp, base, pivots, start, end, fp, lp, row). lp - fp)") auto

declare sublists.simps [simp del]

text \<open>The merge of the \<open>lcpu\<close>-th parts of the arrays of all CPUs: \<open>(array, position, limit)\<close>.\<close>

fun part_min :: "('p \<Rightarrow> 'p \<Rightarrow> int) \<Rightarrow> ('p list \<times> nat \<times> nat) list \<Rightarrow> nat \<Rightarrow> 'p option \<Rightarrow> nat \<Rightarrow> ('p option \<times> nat) option" where
  "part_min pcmp [] i min_pair min_idx = Some (min_pair, min_idx)"
| "part_min pcmp ((elems, pos, limit) # xs) i min_pair min_idx =
     (if pos \<ge> limit then part_min pcmp xs (i + 1) min_pair min_idx
      else do {
        e \<leftarrow> nth_opt elems pos;
        if (case min_pair of None \<Rightarrow> True | Some p \<Rightarrow> pcmp p e > 0) then part_min pcmp xs (i + 1) (Some e) i
        else part_min pcmp xs (i + 1) min_pair min_idx
      })"

primrec merge_parts :: "('p \<Rightarrow> 'p \<Rightarrow> int) \<Rightarrow> nat \<Rightarrow> ('p list \<times> nat \<times> nat) list \<Rightarrow> 'p list option" where
  "merge_parts pcmp 0 parts = Some []"
| "merge_parts pcmp (Suc n) parts = do {
     (mn, i) \<leftarrow> part_min pcmp parts 0 None 0;
     p \<leftarrow> mn;
     map_option (Cons p) (merge_parts pcmp n (parts[i := (case parts ! i of (elems, pos, limit) \<Rightarrow> (elems, pos + 1, limit))]))
   }"

text \<open>The phases between the barriers.  Within a phase a CPU writes only its own entries of the shared arrays, so that the
  order of the CPUs in it does not matter.\<close>

definition local_range :: "nat \<Rightarrow> nat \<Rightarrow> nat \<Rightarrow> int \<times> int" where
  "local_range total_len ncpus lcpu =
     (let w = (int total_len + int ncpus - 1) div int ncpus;
          start = w * int lcpu;
          end = w * (int lcpu + 1) - 1
      in (start, if end \<ge> int total_len then int total_len - 1 else end))"

definition local_sorted ::
    "(('p \<Rightarrow> 'p \<Rightarrow> int) \<Rightarrow> 'p list \<Rightarrow> 'p list) \<Rightarrow> ('p \<Rightarrow> 'p \<Rightarrow> int) \<Rightarrow> 'p coll list \<Rightarrow> nat \<Rightarrow> nat \<Rightarrow> nat \<Rightarrow> 'p list option" where
  "local_sorted qs pcmp acolls total_len ncpus lcpu =
     (case local_range total_len ncpus lcpu of (start, end) \<Rightarrow> map_option (qs pcmp) (copy_elems acolls start end))"

definition local_pivots :: "nat \<Rightarrow> 'p list \<Rightarrow> 'p list option" where
  "local_pivots ncpus localpairs =
     (let copied = length localpairs; rsize = (copied + ncpus - 1) div ncpus
      in those (map (\<lambda>i. if (i + 1) * rsize < copied then nth_opt localpairs ((i + 1) * rsize)
                         else nth_opt localpairs (copied - 1)) [0..<ncpus - 1]))"

text \<open>The main CPU selects the pivots in place.\<close>

definition select_pivots :: "nat \<Rightarrow> 'p list \<Rightarrow> 'p list option" where
  "select_pivots ncpus pivots =
     foldl (\<lambda>ps i. do {
         ps' \<leftarrow> ps;
         p \<leftarrow> nth_opt ps' (i * ncpus + ncpus div 2);
         c_assert (i + 1 < length ps');
         Some (ps'[i + 1 := p])
       }) (Some pivots) [0..<ncpus - 1]"

text \<open>The sorted local arrays with the borders of their parts.\<close>

definition psrs_split ::
    "(('p \<Rightarrow> 'p \<Rightarrow> int) \<Rightarrow> 'p list \<Rightarrow> 'p list) \<Rightarrow> ('p \<Rightarrow> 'p \<Rightarrow> int) \<Rightarrow> nat \<Rightarrow> 'p coll list \<Rightarrow> ('p list \<times> int list) list option" where
  "psrs_split qs pcmp ncpus acolls = do {
     let total_len = sum_list (map pch_get_len acolls);
     lpairs \<leftarrow> those (map (local_sorted qs pcmp acolls total_len ncpus) [0..<ncpus]);
     sent \<leftarrow> those (map (local_pivots ncpus) lpairs);
     pivots \<leftarrow> select_pivots ncpus (qs pcmp (concat sent));
     those (map (\<lambda>localpairs.
       let copied = int (length localpairs);
           row = 0 # replicate (ncpus - 1) 0 @ [copied]
       in map_option (Pair localpairs) (sublists pcmp localpairs pivots 0 (copied - 1) 1 (ncpus - 1) row)) lpairs)
   }"

text \<open>The parts of the CPU \<open>lcpu\<close> as \<open>(array, first, end)\<close>; a negative border has no meaning in the array.\<close>

definition parts_of :: "nat \<Rightarrow> ('p list \<times> int list) list \<Rightarrow> ('p list \<times> nat \<times> nat) list option" where
  "parts_of lcpu split =
     those (map (\<lambda>(localpairs, row).
       if row ! lcpu \<ge> 0 \<and> row ! (lcpu + 1) \<ge> 0 then Some (localpairs, nat (row ! lcpu), nat (row ! (lcpu + 1))) else None) split)"

text \<open>\<open>partsize[lcpu]\<close> and the merge; with a negative size the loop runs beyond the last pair.\<close>

definition merge_partition :: "('p \<Rightarrow> 'p \<Rightarrow> int) \<Rightarrow> ('p list \<times> int list) list \<Rightarrow> nat \<Rightarrow> 'p list option" where
  "merge_partition pcmp split lcpu = do {
     let partsize = sum_list (map (\<lambda>(localpairs, row). row ! (lcpu + 1) - row ! lcpu) split);
     c_assert (partsize \<ge> 0);
     parts \<leftarrow> parts_of lcpu split;
     merge_parts pcmp (nat partsize) parts
   }"

definition free_arr_colls :: "'p coll list \<Rightarrow> 'p coll list" where
  "free_arr_colls acolls = map pch_shallow_free acolls"

definition few_pairs :: "nat \<Rightarrow> 'p coll list \<Rightarrow> bool" where
  "few_pairs ncpus acolls \<longleftrightarrow> ncpus = 1 \<or> sum_list (map pch_get_len acolls) < ncpus * ncpus * ncpus"

text \<open>\<open>psrs\<close> on all CPUs, without and with \<open>doreduce\<close>.\<close>

definition psrs_sort ::
    "(('p \<Rightarrow> 'p \<Rightarrow> int) \<Rightarrow> 'p list \<Rightarrow> 'p list) \<Rightarrow> ('p \<Rightarrow> 'p \<Rightarrow> int) \<Rightarrow> nat \<Rightarrow> 'p coll list \<Rightarrow> 'p coll list option" where
  "psrs_sort qs pcmp ncpus acolls =
     (case acolls of
        [] \<Rightarrow> None
      | c # cs \<Rightarrow> do {
          output \<leftarrow>
            (if few_pairs ncpus acolls
             then map_option (qs pcmp) (copy_elems acolls 0 (int (sum_list (map pch_get_len acolls)) - 1))
             else do {
               split \<leftarrow> psrs_split qs pcmp ncpus acolls;
               map_option concat (those (map (merge_partition pcmp split) [0..<ncpus]))
             });
          (let freed = free_arr_colls acolls in Some (freed[0 := pch_set_elems output (freed ! 0)]))
        })"

definition part_colls :: "('p list \<times> nat \<times> nat) list \<Rightarrow> 'p coll list option" where
  "part_colls parts = those (map (\<lambda>(elems, first, limit).
     if first \<le> limit \<and> limit \<le> length elems
     then Some \<lparr>c_elems = take (limit - first) (drop first elems), c_alloc = limit - first, c_null = False\<rparr> else None) parts)"

text \<open>\<open>grp task colls R\<close> is \<open>reduce_or_groupkvs\<close> or \<open>reduce_or_groupkv\<close> of the CPU \<open>task\<close> on its parts.\<close>

definition psrs_reduce ::
    "(('p \<Rightarrow> 'p \<Rightarrow> int) \<Rightarrow> 'p list \<Rightarrow> 'p list) \<Rightarrow> ('p \<Rightarrow> 'p \<Rightarrow> int) \<Rightarrow> (nat \<Rightarrow> 'p coll list \<Rightarrow> 'r \<Rightarrow> 'r option) \<Rightarrow> nat \<Rightarrow>
     'p coll list \<Rightarrow> 'r \<Rightarrow> ('p coll list \<times> 'r) option" where
  "psrs_reduce qs pcmp grp ncpus acolls R = do {
     R' \<leftarrow>
       (if few_pairs ncpus acolls
        then do {
          localpairs \<leftarrow> copy_elems acolls 0 (int (sum_list (map pch_get_len acolls)) - 1);
          colls \<leftarrow> part_colls [(qs pcmp localpairs, 0, length localpairs)];
          grp 0 colls R
        }
        else do {
          split \<leftarrow> psrs_split qs pcmp ncpus acolls;
          foldl (\<lambda>st lcpu. do { R1 \<leftarrow> st; parts \<leftarrow> parts_of lcpu split; colls \<leftarrow> part_colls parts; grp lcpu colls R1 })
            (Some R) [0..<ncpus]
        });
     Some (free_arr_colls acolls, R')
   }"

section \<open>Merging keeps order and pairs\<close>

definition ordered :: "('p \<Rightarrow> 'p \<Rightarrow> int) \<Rightarrow> 'p list \<Rightarrow> bool" where
  "ordered pcmp = sorted_wrt (\<lambda>a b. pcmp a b \<le> 0)"

text \<open>The pairs that are left at the positions.\<close>

definition rests :: "'p list list \<Rightarrow> nat list \<Rightarrow> 'p list list" where
  "rests parrs task_pos = map (\<lambda>(elems, pos). drop pos elems) (zip parrs task_pos)"

lemma scan_min_source:
  "scan_min pcmp xs i mn m = (r, j) \<Longrightarrow> (r, j) = (mn, m) \<or>
    (\<exists>k elems pos. k < length xs \<and> j = i + k \<and> xs ! k = (elems, pos) \<and> pos \<noteq> length elems \<and> r = Some (elems ! pos))"
proof (induction pcmp xs i mn m rule: scan_min.induct)
  case (2 pcmp elems pos xs i mn m)
  let ?P = "\<lambda>xs i. \<exists>k elems pos. k < length xs \<and> j = i + k \<and> xs ! k = (elems, pos) \<and> pos \<noteq> length elems \<and> r = Some (elems ! pos)"
  have shift: "?P xs (i + 1) \<Longrightarrow> ?P ((elems, pos) # xs) i"
    by (elim exE conjE, rule_tac x = "Suc k" in exI) auto
  have here: "pos \<noteq> length elems \<Longrightarrow> (r, j) = (Some (elems ! pos), i) \<Longrightarrow> ?P ((elems, pos) # xs) i"
    by (rule exI [of _ 0]) auto
  show ?case
  proof (cases "pos = length elems")
    case True
    have "(r, j) = (mn, m) \<or> ?P xs (i + 1)" using 2(1) [OF True] 2(4) True by simp
    then show ?thesis using shift by blast
  next
    case False
    show ?thesis
    proof (cases "case mn of None \<Rightarrow> True | Some p \<Rightarrow> pcmp p (elems ! pos) > 0")
      case True
      have "(r, j) = (Some (elems ! pos), i) \<or> ?P xs (i + 1)" using 2(2) [OF False refl True] 2(4) False True by (simp add: Let_def)
      then show ?thesis using shift here [OF False] by blast
    next
      case F: False
      have "(r, j) = (mn, m) \<or> ?P xs (i + 1)" using 2(3) [OF False refl F] 2(4) False F by (simp add: Let_def)
      then show ?thesis using shift by blast
    qed
  qed
qed simp

context key_order
begin

lemma scan_min_least:
  "scan_min cmp xs i mn m = (r, j) \<Longrightarrow>
    (case r of None \<Rightarrow> mn = None \<and> (\<forall>(elems, pos)\<in>set xs. pos = length elems)
     | Some p \<Rightarrow> (\<forall>q. mn = Some q \<longrightarrow> cmp p q \<le> 0) \<and> (\<forall>(elems, pos)\<in>set xs. pos \<noteq> length elems \<longrightarrow> cmp p (elems ! pos) \<le> 0))"
proof (induction xs arbitrary: i mn m)
  case Nil
  then show ?case by (auto simp: cmp_refl split: option.splits)
next
  case (Cons x xs)
  obtain elems pos where x: "x = (elems, pos)" by (cases x)
  let ?e = "elems ! pos"
  show ?case
  proof (cases "pos = length elems")
    case True
    then show ?thesis using Cons.IH [of "i + 1" mn m] Cons.prems x by (auto split: option.splits)
  next
    case False
    show ?thesis
    proof (cases "case mn of None \<Rightarrow> True | Some p \<Rightarrow> cmp p ?e > 0")
      case True
      then have "scan_min cmp xs (i + 1) (Some ?e) i = (r, j)" using Cons.prems x False by (simp add: Let_def)
      note IH = Cons.IH [OF this]
      then obtain p where p: "r = Some p" "cmp p ?e \<le> 0"
        "\<forall>(elems, pos)\<in>set xs. pos \<noteq> length elems \<longrightarrow> cmp p (elems ! pos) \<le> 0" by (cases r) auto
      have "cmp p q \<le> 0" if "mn = Some q" for q
        using True that cmp_trans [OF p(2), of q] cmp_swap [of q ?e] by simp
      then show ?thesis using p x by simp
    next
      case F: False
      then obtain q where q: "mn = Some q" "cmp q ?e \<le> 0" by (cases mn) auto
      then have "scan_min cmp xs (i + 1) mn m = (r, j)" using Cons.prems x False by (simp add: Let_def)
      note IH = Cons.IH [OF this]
      then obtain p where p: "r = Some p" "cmp p q \<le> 0"
        "\<forall>(elems, pos)\<in>set xs. pos \<noteq> length elems \<longrightarrow> cmp p (elems ! pos) \<le> 0" using q by (cases r) auto
      then show ?thesis using q x cmp_trans [OF p(2) q(2)] by simp
    qed
  qed
qed

end

lemma rests_step:
  assumes "length task_pos = length parrs" "i < length parrs" "task_pos ! i < length (parrs ! i)"
  shows "rests parrs task_pos ! i = (parrs ! i ! (task_pos ! i)) # drop (task_pos ! i + 1) (parrs ! i)"
    "rests parrs (task_pos[i := task_pos ! i + 1]) = (rests parrs task_pos)[i := drop (task_pos ! i + 1) (parrs ! i)]"
  using assms by (auto simp: rests_def Cons_nth_drop_Suc nth_list_update intro!: nth_equalityI)

lemma concat_update_hd:
  assumes "i < length xss" "xss ! i = x # ys"
  shows "mset (concat xss) = add_mset x (mset (concat (xss[i := ys])))" "length (concat xss) = Suc (length (concat (xss[i := ys])))"
    "set (concat (xss[i := ys])) \<subseteq> set (concat xss)"
proof -
  have e: "xss = take i xss @ (x # ys) # drop (Suc i) xss" using assms id_take_nth_drop [of i xss] by simp
  have u: "xss[i := ys] = take i xss @ ys # drop (Suc i) xss" using assms(1) by (simp add: upd_conv_take_nth_drop)
  have c: "concat xss = concat (take i xss) @ (x # ys) @ concat (drop (Suc i) xss)" by (subst e) simp
  show "mset (concat xss) = add_mset x (mset (concat (xss[i := ys])))" "length (concat xss) = Suc (length (concat (xss[i := ys])))"
    "set (concat (xss[i := ys])) \<subseteq> set (concat xss)" unfolding c u by auto
qed

context key_order
begin

lemma ordered_drop: "ordered cmp xs \<Longrightarrow> ordered cmp (drop n xs)"
  by (simp add: ordered_def sorted_wrt_drop)

lemma ordered_first: "ordered cmp (x # xs) \<Longrightarrow> y \<in> set (x # xs) \<Longrightarrow> cmp x y \<le> 0"
  by (auto simp: ordered_def cmp_refl)

lemma merge_rounds_ok:
  assumes "length task_pos = length parrs" "\<forall>p\<in>set parrs. ordered cmp p"
    "\<forall>i<length parrs. task_pos ! i \<le> length (parrs ! i)" "n = length (concat (rests parrs task_pos))"
  shows "\<exists>out. merge_rounds cmp parrs n task_pos = Some out \<and> ordered cmp out \<and> mset out = mset (concat (rests parrs task_pos))"
  using assms
proof (induction n arbitrary: task_pos)
  case 0
  then show ?case by (simp add: ordered_def)
next
  case (Suc n)
  let ?xs = "zip parrs task_pos"
  obtain r j where s: "scan_min cmp ?xs 0 None 0 = (r, j)" by fastforce
  have ex: "\<exists>i<length parrs. task_pos ! i \<noteq> length (parrs ! i)"
  proof (rule ccontr)
    assume "\<not> ?thesis"
    then have "\<forall>x\<in>set (rests parrs task_pos). x = []" using Suc.prems(1) by (auto simp: rests_def set_zip)
    then have "concat (rests parrs task_pos) = []" by simp
    then show False using Suc.prems(4) by (metis list.size(3) nat.distinct(1))
  qed
  have inz: "(parrs ! i, task_pos ! i) \<in> set ?xs" if "i < length parrs" for i
    using that Suc.prems(1) by (auto simp: set_zip)
  have "r \<noteq> None"
  proof
    assume "r = None"
    then have "\<forall>(elems, pos)\<in>set ?xs. pos = length elems" using scan_min_least [OF s] by simp
    then show False using ex inz by blast
  qed
  then obtain p where r: "r = Some p" by blast
  have j: "j < length parrs" "task_pos ! j \<noteq> length (parrs ! j)" "p = parrs ! j ! (task_pos ! j)"
    using scan_min_source [OF s] r Suc.prems(1) by auto
  have lt: "task_pos ! j < length (parrs ! j)" using j Suc.prems(3) by (simp add: le_neq_implies_less)
  let ?tp = "task_pos[j := task_pos ! j + 1]"
  note st = rests_step [OF Suc.prems(1) j(1) lt]
  have lr: "j < length (rests parrs task_pos)" using j(1) Suc.prems(1) by (simp add: rests_def)
  note c = concat_update_hd [OF lr, of p, unfolded j(3), OF st(1), folded j(3), folded st(2)]
  have "n = length (concat (rests parrs ?tp))" using Suc.prems(4) c(2) by simp
  moreover have "\<forall>i<length parrs. ?tp ! i \<le> length (parrs ! i)" using Suc.prems(1,3) j(1) lt by (auto simp: nth_list_update)
  ultimately obtain out where out: "merge_rounds cmp parrs n ?tp = Some out" "ordered cmp out"
    "mset out = mset (concat (rests parrs ?tp))" using Suc.IH [of ?tp] Suc.prems(1,2) by auto
  have least: "cmp p y \<le> 0" if y: "y \<in> set (concat (rests parrs task_pos))" for y
  proof -
    obtain i where i: "i < length parrs" "y \<in> set (drop (task_pos ! i) (parrs ! i))"
      using y Suc.prems(1) by (auto simp: rests_def set_zip)
    then have ne: "task_pos ! i < length (parrs ! i)" by (cases "task_pos ! i < length (parrs ! i)") auto
    have "cmp p (parrs ! i ! (task_pos ! i)) \<le> 0"
    proof -
      have "\<forall>(elems, pos)\<in>set ?xs. pos \<noteq> length elems \<longrightarrow> cmp p (elems ! pos) \<le> 0" using scan_min_least [OF s] r by simp
      then show ?thesis using inz [OF i(1)] ne by fastforce
    qed
    moreover have "cmp (parrs ! i ! (task_pos ! i)) y \<le> 0"
      using ordered_first [of "parrs ! i ! (task_pos ! i)" "drop (Suc (task_pos ! i)) (parrs ! i)" y]
        ordered_drop [of "parrs ! i" "task_pos ! i"] i Suc.prems(2) ne by (simp add: Cons_nth_drop_Suc)
    ultimately show ?thesis by (rule cmp_trans)
  qed
  have "set out \<subseteq> set (concat (rests parrs task_pos))" using c(3) out(3) by (metis set_mset_mset)
  then have "ordered cmp (p # out)" using out(2) least by (auto simp: ordered_def)
  moreover have "mset (p # out) = mset (concat (rests parrs task_pos))" using out(3) c(1) by simp
  ultimately show ?case using s r out(1) by simp
qed

end

section \<open>The collections of one CPU\<close>

definition free_ok :: "'p coll \<Rightarrow> bool" where
  "free_ok c \<longleftrightarrow> (c_null c \<longrightarrow> c_elems c = [])"

definition sorted_coll :: "('p \<Rightarrow> 'p \<Rightarrow> int) \<Rightarrow> 'p coll \<Rightarrow> bool" where
  "sorted_coll pcmp c \<longleftrightarrow> ordered pcmp (c_elems c) \<and> free_ok c"

lemma freed_empty: "free_ok c \<Longrightarrow> c_elems (pch_shallow_free c) = [] \<and> free_ok (pch_shallow_free c)"
  by (simp add: free_ok_def pch_shallow_free_def)

lemma set_elems_simps [simp]: "c_elems (pch_set_elems xs c) = xs" "free_ok (pch_set_elems xs c)"
  by (simp_all add: pch_set_elems_def free_ok_def)

lemma mycolls_less:
  assumes "lcpu < ncpus"
  shows "lcpu + q * ncpus < ncolls \<longleftrightarrow> q < mycolls ncolls ncpus lcpu"
proof -
  define d r where "d = ncolls div ncpus" "r = ncolls mod ncpus"
  have r: "r < ncpus" using assms by (simp add: d_r_def)
  have n: "ncolls = d * ncpus + r" by (simp add: d_r_def)
  have m: "mycolls ncolls ncpus lcpu = d + (if lcpu < r then 1 else 0)" by (simp add: d_r_def mycolls_def)
  consider "q < d" | "q = d" | "d < q" by linarith
  then show ?thesis
  proof cases
    case 1
    then have "(q + 1) * ncpus \<le> d * ncpus" by (intro mult_le_mono1) simp
    then have "lcpu + q * ncpus < ncolls" using n assms by (simp add: algebra_simps)
    then show ?thesis using 1 by (simp add: m)
  next
    case 2
    then show ?thesis unfolding m using n by simp
  next
    case 3
    then have "(d + 1) * ncpus \<le> q * ncpus" by (intro mult_le_mono1) simp
    then have "ncolls < lcpu + q * ncpus" using n r by (simp add: algebra_simps)
    then show ?thesis using 3 by (simp add: m)
  qed
qed

lemma my_indices_set:
  assumes "lcpu < ncpus"
  shows "set (my_indices ncolls ncpus lcpu) = {i. i < ncolls \<and> i mod ncpus = lcpu}"
proof (intro set_eqI iffI)
  fix i
  assume "i \<in> {i. i < ncolls \<and> i mod ncpus = lcpu}"
  then have i: "i < ncolls" "i mod ncpus = lcpu" by auto
  have "i = lcpu + (i div ncpus) * ncpus" using i(2) by (metis add.commute div_mult_mod_eq)
  then show "i \<in> set (my_indices ncolls ncpus lcpu)"
    using i(1) mycolls_less [OF assms, of "i div ncpus" ncolls] by (auto simp: my_indices_def)
qed (use assms mycolls_less [OF assms] in \<open>auto simp: my_indices_def\<close>)

lemma my_indices_distinct: "lcpu < ncpus \<Longrightarrow> distinct (my_indices ncolls ncpus lcpu)"
  by (auto simp: my_indices_def distinct_map inj_on_def)

lemma shallow_free_at_ok:
  "\<forall>c\<in>set cs. free_ok c \<Longrightarrow> \<forall>i\<in>set is. i < length cs \<Longrightarrow>
    length (shallow_free_at is cs) = length cs \<and> (\<forall>c\<in>set (shallow_free_at is cs). free_ok c) \<and>
    (\<forall>j<length cs. c_elems (shallow_free_at is cs ! j) = (if j \<in> set is then [] else c_elems (cs ! j)) \<and>
      (j \<notin> set is \<longrightarrow> shallow_free_at is cs ! j = cs ! j))"
proof (induction "is" arbitrary: cs)
  case Nil
  then show ?case by (simp add: shallow_free_at_def)
next
  case (Cons i "is")
  let ?cs = "cs[i := pch_shallow_free (cs ! i)]"
  have i: "i < length cs" "free_ok (cs ! i)" using Cons.prems by auto
  note f = freed_empty [OF i(2)]
  have ok: "\<forall>c\<in>set ?cs. free_ok c" using Cons.prems(1) f set_update_subset_insert [of cs i "pch_shallow_free (cs ! i)"] by blast
  have u: "shallow_free_at (i # is) cs = shallow_free_at is ?cs" by (simp add: shallow_free_at_def)
  have IH: "length (shallow_free_at is ?cs) = length ?cs \<and> (\<forall>c\<in>set (shallow_free_at is ?cs). free_ok c) \<and>
    (\<forall>j<length ?cs. c_elems (shallow_free_at is ?cs ! j) = (if j \<in> set is then [] else c_elems (?cs ! j)) \<and>
      (j \<notin> set is \<longrightarrow> shallow_free_at is ?cs ! j = ?cs ! j))"
    using Cons.prems(2) by (intro Cons.IH [OF ok]) simp
  show ?case unfolding u using IH f i(1) by (auto simp: nth_list_update)
qed

lemma replicate_zero_rests: "length parrs = n \<Longrightarrow> rests parrs (replicate n 0) = parrs"
  by (auto simp: rests_def intro!: nth_equalityI)

section \<open>Correctness of mergesort.c\<close>

text \<open>The effect of one CPU: its first collection holds the pairs of all its collections in order, the other ones are
  empty, and those of the other CPUs are as before.\<close>

definition merged :: "('p \<Rightarrow> 'p \<Rightarrow> int) \<Rightarrow> nat \<Rightarrow> nat \<Rightarrow> 'p coll list \<Rightarrow> 'p coll list \<Rightarrow> bool" where
  "merged pcmp ncpus lcpu cs cs' \<longleftrightarrow> length cs' = length cs \<and> (\<forall>c\<in>set cs'. sorted_coll pcmp c) \<and>
     mset (c_elems (cs' ! lcpu)) = (\<Sum>i\<leftarrow>my_indices (length cs) ncpus lcpu. mset (c_elems (cs ! i))) \<and>
     (\<forall>i<length cs. i \<noteq> lcpu \<longrightarrow> c_elems (cs' ! i) = (if i mod ncpus = lcpu then [] else c_elems (cs ! i)))"

lemma mset_concat_sum: "mset (concat (map g xs)) = (\<Sum>x\<leftarrow>xs. mset (g x))"
  by (induction xs) auto

lemma mergesort_merges:
  assumes o: "key_order pcmp" and l: "lcpu < ncpus" "lcpu < length cs" and s: "\<forall>c\<in>set cs. sorted_coll pcmp c"
  shows "\<exists>cs'. mergesort pcmp ncpus lcpu cs = Some cs' \<and> merged pcmp ncpus lcpu cs cs'"
proof -
  let ?is = "my_indices (length cs) ncpus lcpu"
  let ?parrs = "map (\<lambda>i. c_elems (cs ! i)) ?is"
  let ?n = "sum_list (map (\<lambda>i. pch_get_len (cs ! i)) ?is)"
  note iset = my_indices_set [OF l(1), of "length cs"]
  have n: "?n = length (concat ?parrs)" by (simp add: length_concat comp_def pch_get_len_def)
  have lin: "lcpu \<in> set ?is" using l by (simp add: iset)
  have emp: "c_elems (cs ! i) = []" if "?n = 0" "i \<in> set ?is" for i
    using that unfolding n by auto
  show ?thesis
  proof (cases "?n = 0")
    case True
    have "merged pcmp ncpus lcpu cs cs"
      unfolding merged_def using s emp [OF True] lin iset
      by (auto simp flip: mset_concat_sum)
    then show ?thesis using True by (simp add: mergesort_def Let_def)
  next
    case False
    let ?f = "shallow_free_at ?is cs"
    have r: "rests ?parrs (replicate (length ?is) 0) = ?parrs" by (rule replicate_zero_rests) simp
    obtain out where out: "merge_rounds pcmp ?parrs ?n (replicate (length ?is) 0) = Some out" "ordered pcmp out"
      "mset out = mset (concat ?parrs)"
      using key_order.merge_rounds_ok [OF o, of "replicate (length ?is) 0" ?parrs ?n] s n
      unfolding r by (auto simp: sorted_coll_def iset)
    let ?cs' = "?f[lcpu := pch_set_elems out (?f ! lcpu)]"
    have f: "length ?f = length cs" "\<forall>c\<in>set ?f. free_ok c"
      "\<And>j. j < length cs \<Longrightarrow> c_elems (?f ! j) = (if j \<in> set ?is then [] else c_elems (cs ! j))"
      using shallow_free_at_ok [of cs ?is] s by (auto simp: sorted_coll_def iset)
    have "sorted_coll pcmp (?cs' ! j)" if j: "j < length cs" for j
    proof (cases "j = lcpu")
      case True
      then show ?thesis using f(1) j out(2) by (simp add: sorted_coll_def)
    next
      case F: False
      have "ordered pcmp (c_elems (?f ! j))" using f(3) [OF j] s j by (simp add: sorted_coll_def ordered_def)
      then show ?thesis using F f(1,2) j by (simp add: sorted_coll_def)
    qed
    then have "\<forall>c\<in>set ?cs'. sorted_coll pcmp c" using f(1) by (auto simp: in_set_conv_nth)
    then have "merged pcmp ncpus lcpu cs ?cs'"
      unfolding merged_def using f out(3) l(2) by (auto simp: mset_concat_sum iset nth_list_update)
    moreover have "mergesort pcmp ncpus lcpu cs = Some ?cs'"
      unfolding mergesort_def Let_def if_not_P [OF False] length_map out(1) by simp
    ultimately show ?thesis by blast
  qed
qed

section \<open>The merge of the reduce buckets (rbktsmgr.c, mr-sched.c)\<close>

definition all_cpus :: "nat \<Rightarrow> (nat \<Rightarrow> 'a \<Rightarrow> 'a option) \<Rightarrow> 'a \<Rightarrow> 'a option" where
  "all_cpus ncpus f x = foldl (\<lambda>st lcpu. do { y \<leftarrow> st; f lcpu y }) (Some x) [0..<ncpus]"

definition rbkts_cat :: "'p coll list \<Rightarrow> 'p coll list" where
  "rbkts_cat rbkts =
     (if length rbkts = 1 then rbkts
      else let output = concat (map c_elems rbkts); freed = map pch_shallow_free rbkts
           in freed[0 := pch_set_elems output (freed ! 0)])"

definition rbkts_pair_cmp :: "('p \<Rightarrow> 'p \<Rightarrow> int) option \<Rightarrow> ('k \<Rightarrow> 'k \<Rightarrow> int) \<Rightarrow> ('p \<Rightarrow> 'k) \<Rightarrow> 'p \<Rightarrow> 'p \<Rightarrow> int" where
  "rbkts_pair_cmp outcmp keycmp pch_get_key p1 p2 =
     (case outcmp of Some f \<Rightarrow> f p1 p2 | None \<Rightarrow> keycmp (pch_get_key p1) (pch_get_key p2))"

definition rbkts_sort :: "(('p \<Rightarrow> 'p \<Rightarrow> int) \<Rightarrow> 'p list \<Rightarrow> 'p list) \<Rightarrow> ('p \<Rightarrow> 'p \<Rightarrow> int) \<Rightarrow> nat \<Rightarrow> 'p coll list \<Rightarrow> 'p coll list" where
  "rbkts_sort qs pcmp ibkt rbkts = rbkts[ibkt := (rbkts ! ibkt)\<lparr>c_elems := qs pcmp (c_elems (rbkts ! ibkt))\<rparr>]"

text \<open>\<open>rbkts_merge\<close> on all CPUs; \<open>use_psrs\<close> is the constant of \<open>mr-conf.h\<close>.\<close>

definition rbkts_merge ::
    "bool \<Rightarrow> (('p \<Rightarrow> 'p \<Rightarrow> int) \<Rightarrow> 'p list \<Rightarrow> 'p list) \<Rightarrow> ('p \<Rightarrow> 'p \<Rightarrow> int) \<Rightarrow> nat \<Rightarrow> 'p coll list \<Rightarrow> 'p coll list option" where
  "rbkts_merge use_psrs qs pcmp ncpus rbkts =
     (if use_psrs then psrs_sort qs pcmp ncpus rbkts else all_cpus ncpus (mergesort pcmp ncpus) rbkts)"

text \<open>\<open>rbkts_merge_reduce\<close>: \<open>elems_qs\<close>, \<open>kv_qs\<close> and \<open>kvl_qs\<close> are \<open>qsort\<close> on the types of pairs it is used with.\<close>

definition cat_buckets ::
    "(('p \<Rightarrow> 'p \<Rightarrow> int) \<Rightarrow> 'p list \<Rightarrow> 'p list) \<Rightarrow> ('p \<Rightarrow> 'p \<Rightarrow> int) option \<Rightarrow> nat \<Rightarrow> 'p coll list \<Rightarrow> 'p coll list option" where
  "cat_buckets qs outcmp ncpus rbkts =
     map_option rbkts_cat (case outcmp of Some f \<Rightarrow> psrs_sort qs f ncpus rbkts | None \<Rightarrow> Some rbkts)"

definition rbkts_merge_reduce ::
    "('k, 'v) app_arg \<Rightarrow> ((('k, 'v) keyval \<Rightarrow> ('k, 'v) keyval \<Rightarrow> int) \<Rightarrow> ('k, 'v) keyval list \<Rightarrow> ('k, 'v) keyval list) \<Rightarrow>
     ((('k, 'v) keyvals_len \<Rightarrow> ('k, 'v) keyvals_len \<Rightarrow> int) \<Rightarrow> ('k, 'v) keyvals_len list \<Rightarrow> ('k, 'v) keyvals_len list) \<Rightarrow>
     (('p \<Rightarrow> 'p \<Rightarrow> int) \<Rightarrow> 'p list \<Rightarrow> 'p list) \<Rightarrow> ('k \<Rightarrow> 'k \<Rightarrow> int) \<Rightarrow> ('p \<Rightarrow> 'k) \<Rightarrow>
     (nat \<Rightarrow> 'p coll list \<Rightarrow> ('k, 'v) rbkts \<Rightarrow> ('k, 'v) rbkts option) \<Rightarrow> nat \<Rightarrow> 'p coll list \<Rightarrow> ('k, 'v) rbkts \<Rightarrow>
     ('p coll list \<times> ('k, 'v) rbkts) option" where
  "rbkts_merge_reduce app kv_qs kvl_qs elems_qs keycmp pch_get_key grp ncpus acolls R = do {
     (acolls', R1) \<leftarrow> psrs_reduce elems_qs (\<lambda>p q. keycmp (pch_get_key p) (pch_get_key q)) grp ncpus acolls R;
     R2 \<leftarrow>
       (if atype app = atype_mapgroup
        then map_option (\<lambda>b. R1\<lparr>rb_kvl := b\<rparr>) (cat_buckets kvl_qs (kvl_outcmp app) ncpus (rb_kvl R1))
        else map_option (\<lambda>b. R1\<lparr>rb_kv := b\<rparr>) (cat_buckets kv_qs (kv_outcmp app) ncpus (rb_kv R1)));
     Some (acolls', R2)
   }"

definition rbkts_set_elems ::
    "bool \<Rightarrow> ('k, 'v) app_arg \<Rightarrow> ((('k, 'v) keyval \<Rightarrow> ('k, 'v) keyval \<Rightarrow> int) \<Rightarrow> ('k, 'v) keyval list \<Rightarrow> ('k, 'v) keyval list) \<Rightarrow>
     ('k \<Rightarrow> 'k \<Rightarrow> int) \<Rightarrow> nat \<Rightarrow> ('k, 'v) keyval list \<Rightarrow> bool \<Rightarrow> ('k, 'v) keyval coll list \<Rightarrow> ('k, 'v) keyval coll list option" where
  "rbkts_set_elems use_psrs app qs keycmp ibkt elems bsorted rbkts = do {
     c_assert (atype app = atype_maponly);
     let rbkts1 = rbkts[ibkt := pch_set_elems elems (rbkts ! ibkt)];
     Some (if \<not> use_psrs \<and> (\<not> bsorted \<or> kv_outcmp app \<noteq> None)
           then rbkts_sort qs (rbkts_pair_cmp (kv_outcmp app) keycmp kv_key) ibkt rbkts1 else rbkts1)
   }"

text \<open>The merge phase of \<open>mr_run_scheduler\<close>.\<close>

partial_function (option) merge_phase_loop :: "('p \<Rightarrow> 'p \<Rightarrow> int) \<Rightarrow> nat \<Rightarrow> nat \<Rightarrow> 'p coll list \<Rightarrow> 'p coll list option" where
  "merge_phase_loop pcmp merge_nsplits merge_ncpus rbkts =
     (if merge_nsplits > 1
      then do {
        rbkts1 \<leftarrow> all_cpus merge_ncpus (mergesort pcmp merge_ncpus) rbkts;
        merge_phase_loop pcmp merge_ncpus (merge_ncpus div 2) rbkts1
      }
      else Some rbkts)"

definition merge_phase ::
    "bool \<Rightarrow> (('p \<Rightarrow> 'p \<Rightarrow> int) \<Rightarrow> 'p list \<Rightarrow> 'p list) \<Rightarrow> ('p \<Rightarrow> 'p \<Rightarrow> int) \<Rightarrow> nat \<Rightarrow> nat \<Rightarrow> 'p coll list \<Rightarrow> 'p coll list option" where
  "merge_phase use_psrs qs pcmp nr_cpus merge_nsplits rbkts =
     (if use_psrs then rbkts_merge True qs pcmp nr_cpus rbkts
      else merge_phase_loop pcmp merge_nsplits
        (let n = merge_nsplits div 2 in if n > nr_cpus then nr_cpus else n) rbkts)"

section \<open>All pairs arrive in bucket 0\<close>

definition all_pairs :: "'p coll list \<Rightarrow> 'p multiset" where
  "all_pairs cs = (\<Sum>i<length cs. mset (c_elems (cs ! i)))"

lemma merged_keeps_pairs:
  assumes m: "merged pcmp ncpus lcpu cs cs'" and l: "lcpu < ncpus" "lcpu < length cs"
  shows "all_pairs cs' = all_pairs cs"
proof -
  let ?I = "{i. i < length cs \<and> i mod ncpus = lcpu}" and ?N = "{..<length cs}"
  let ?g = "\<lambda>cs i. mset (c_elems (cs ! i))"
  have I: "?I \<subseteq> ?N" "finite ?I" "lcpu \<in> ?I" using l by auto
  have "sum (?g cs') ?I = ?g cs' lcpu + sum (?g cs') (?I - {lcpu})" using I by (simp add: sum.remove)
  also have "sum (?g cs') (?I - {lcpu}) = 0" using m by (intro sum.neutral) (auto simp: merged_def)
  also have "?g cs' lcpu = sum (?g cs) ?I"
    using m my_indices_set [OF l(1), of "length cs"] my_indices_distinct [OF l(1), of "length cs"]
    by (simp add: merged_def sum_list_distinct_conv_sum_set)
  finally have a: "sum (?g cs') ?I = sum (?g cs) ?I" by simp
  have b: "sum (?g cs') (?N - ?I) = sum (?g cs) (?N - ?I)" using m l by (intro sum.cong) (auto simp: merged_def)
  have len: "length cs' = length cs" using m by (simp add: merged_def)
  have "sum (?g cs') ?N = sum (?g cs') (?N - ?I) + sum (?g cs') ?I" using I by (intro sum.subset_diff) auto
  also have "\<dots> = sum (?g cs) (?N - ?I) + sum (?g cs) ?I" using a b by simp
  also have "\<dots> = sum (?g cs) ?N" using I by (intro sum.subset_diff [symmetric]) auto
  finally show ?thesis by (simp add: all_pairs_def len)
qed

lemma all_cpus_Suc: "all_cpus (Suc n) f x = do { y \<leftarrow> all_cpus n f x; f n y }"
  by (simp add: all_cpus_def)

definition round_of :: "('p \<Rightarrow> 'p \<Rightarrow> int) \<Rightarrow> nat \<Rightarrow> 'p coll list \<Rightarrow> 'p coll list \<Rightarrow> bool" where
  "round_of pcmp ncpus cs cs' \<longleftrightarrow> length cs' = length cs \<and> (\<forall>c\<in>set cs'. sorted_coll pcmp c) \<and> all_pairs cs' = all_pairs cs \<and>
     (\<forall>i<length cs. ncpus \<le> i \<longrightarrow> c_elems (cs' ! i) = [])"

lemma merge_round_ok:
  assumes o: "key_order pcmp" and n: "0 < ncpus" "ncpus \<le> length cs" and s: "\<forall>c\<in>set cs. sorted_coll pcmp c"
  shows "\<exists>cs'. all_cpus ncpus (mergesort pcmp ncpus) cs = Some cs' \<and> round_of pcmp ncpus cs cs'"
proof -
  have "\<exists>cs'. all_cpus k (mergesort pcmp ncpus) cs = Some cs' \<and> length cs' = length cs \<and> (\<forall>c\<in>set cs'. sorted_coll pcmp c) \<and>
      all_pairs cs' = all_pairs cs \<and> (\<forall>i<length cs. ncpus \<le> i \<and> i mod ncpus < k \<longrightarrow> c_elems (cs' ! i) = [])" if "k \<le> ncpus" for k
    using that
  proof (induction k)
    case 0
    then show ?case using s by (simp add: all_cpus_def)
  next
    case (Suc k)
    then obtain c1 where c1: "all_cpus k (mergesort pcmp ncpus) cs = Some c1" "length c1 = length cs" "\<forall>c\<in>set c1. sorted_coll pcmp c"
      "all_pairs c1 = all_pairs cs" "\<forall>i<length cs. ncpus \<le> i \<and> i mod ncpus < k \<longrightarrow> c_elems (c1 ! i) = []" by auto
    have k: "k < ncpus" "k < length c1" using Suc.prems n c1(2) by auto
    obtain c2 where c2: "mergesort pcmp ncpus k c1 = Some c2" "merged pcmp ncpus k c1 c2"
      using mergesort_merges [OF o k c1(3)] by blast
    have "c_elems (c2 ! i) = []" if i: "i < length cs" "ncpus \<le> i" "i mod ncpus < Suc k" for i
    proof -
      have "i \<noteq> k" using i(2) k(1) by simp
      then have "c_elems (c2 ! i) = (if i mod ncpus = k then [] else c_elems (c1 ! i))"
        using c2(2) i(1) c1(2) by (simp add: merged_def)
      then show ?thesis using c1(5) i by (auto simp: less_Suc_eq)
    qed
    moreover have "length c2 = length cs" "\<forall>c\<in>set c2. sorted_coll pcmp c" using c2(2) c1(2) by (auto simp: merged_def)
    moreover have "all_pairs c2 = all_pairs cs" using merged_keeps_pairs [OF c2(2) k] c1(4) by simp
    ultimately show ?case using c1(1) c2(1) by (simp add: all_cpus_Suc)
  qed
  from this [OF order_refl] show ?thesis using n(1) by (auto simp: round_of_def)
qed

lemma merge_phase_loop_ok:
  assumes o: "key_order pcmp"
  shows "\<forall>c\<in>set cs. sorted_coll pcmp c \<Longrightarrow> 0 < ns \<Longrightarrow> (1 < ns \<Longrightarrow> 0 < nc \<and> nc < ns) \<Longrightarrow> ns \<le> length cs \<Longrightarrow>
    \<forall>i<length cs. ns \<le> i \<longrightarrow> c_elems (cs ! i) = [] \<Longrightarrow>
    \<exists>cs'. merge_phase_loop pcmp ns nc cs = Some cs' \<and> round_of pcmp 1 cs cs'"
proof (induction ns arbitrary: nc cs rule: less_induct)
  case (less ns)
  show ?case
  proof (cases "1 < ns")
    case False
    then have "ns = 1" using less.prems(2) by simp
    then show ?thesis using less.prems by (simp add: merge_phase_loop.simps round_of_def)
  next
    case True
    then have nc: "0 < nc" "nc < ns" using less.prems(3) by auto
    obtain c1 where c1: "all_cpus nc (mergesort pcmp nc) cs = Some c1" "round_of pcmp nc cs c1"
      using merge_round_ok [OF o nc(1) _ less.prems(1)] nc less.prems(4) by auto
    have "\<exists>cs'. merge_phase_loop pcmp nc (nc div 2) c1 = Some cs' \<and> round_of pcmp 1 c1 cs'"
      using c1(2) nc less.prems(4) by (intro less.IH) (auto simp: round_of_def)
    then show ?thesis using c1 True by (auto simp: merge_phase_loop.simps [of pcmp ns nc cs] round_of_def)
  qed
qed

lemma round_of_1:
  assumes "round_of pcmp 1 cs cs'" "0 < length cs"
  shows "mset (c_elems (cs' ! 0)) = all_pairs cs" "ordered pcmp (c_elems (cs' ! 0))"
proof -
  have e: "all_pairs cs' = all_pairs cs" "length cs' = length cs" "\<forall>i<length cs. 1 \<le> i \<longrightarrow> c_elems (cs' ! i) = []"
    using assms(1) by (auto simp: round_of_def)
  have "all_pairs cs' = mset (c_elems (cs' ! 0)) + (\<Sum>i\<in>{..<length cs'} - {0}. mset (c_elems (cs' ! i)))"
    unfolding all_pairs_def using assms(2) e(2) by (intro sum.remove) auto
  also have "(\<Sum>i\<in>{..<length cs'} - {0}. mset (c_elems (cs' ! i))) = 0" using e(2,3) by (intro sum.neutral) auto
  finally show "mset (c_elems (cs' ! 0)) = all_pairs cs" using e(1) by simp
  show "ordered pcmp (c_elems (cs' ! 0))" using assms by (auto simp: round_of_def sorted_coll_def)
qed

section \<open>Copying a range and sorting few pairs\<close>

lemma copy_range_eq:
  "0 \<le> s \<Longrightarrow> copy_range cs g s e = take (nat (e + 1 - max s g)) (drop (nat (s - g)) (concat (map c_elems cs)))"
proof (induction cs arbitrary: g)
  case (Cons c cs)
  let ?xs = "c_elems c" and ?ys = "concat (map c_elems cs)"
  define n where "n = length ?xs"
  have IH: "copy_range cs (g + int n) s e = take (nat (e + 1 - max s (g + int n))) (drop (nat (s - (g + int n))) ?ys)"
    by (rule Cons.IH [OF Cons.prems])
  have rest: "take (nat (e + 1 - max s g) - (n - nat (s - g))) (drop (nat (s - g) - n) ?ys) =
      take (nat (e + 1 - max s (g + int n))) (drop (nat (s - (g + int n))) ?ys)"
  proof -
    have "nat (s - g) - n = nat (s - (g + int n))" by linarith
    moreover have "nat (e + 1 - max s g) - (n - nat (s - g)) = nat (e + 1 - max s (g + int n))" by linarith
    ultimately show ?thesis by simp
  qed
  have split: "take (nat (e + 1 - max s g)) (drop (nat (s - g)) (?xs @ ?ys)) =
      take (nat (e + 1 - max s g)) (drop (nat (s - g)) ?xs) @ copy_range cs (g + int n) s e"
    unfolding IH rest [symmetric] by (simp add: n_def)
  show ?case
  proof (cases "n = 0")
    case True
    then show ?thesis using split Cons.IH [OF Cons.prems, of g] by (simp add: n_def pch_get_len_def)
  next
    case False
    have piece: "take (nat (e + 1 - max s g)) (drop (nat (s - g)) ?xs) =
      (if g \<le> e \<and> g + int n - 1 \<ge> s
       then take (nat (min e (g + int n - 1) - g - (max s g - g) + 1)) (drop (nat (max s g - g)) ?xs) else [])"
    proof (cases "g \<le> e \<and> g + int n - 1 \<ge> s")
      case True
      have d: "nat (max s g - g) = nat (s - g)" by linarith
      have "take (nat (e + 1 - max s g)) ws = take (nat (min e (g + int n - 1) - g - (max s g - g) + 1)) ws"
        if "length ws = n - nat (s - g)" for ws :: "'a list"
      proof (cases "e \<le> g + int n - 1")
        case True
        then have "nat (e + 1 - max s g) = nat (min e (g + int n - 1) - g - (max s g - g) + 1)" by linarith
        then show ?thesis by simp
      next
        case False
        then have "length ws \<le> nat (e + 1 - max s g)" "length ws \<le> nat (min e (g + int n - 1) - g - (max s g - g) + 1)"
          using that by linarith+
        then show ?thesis by simp
      qed
      then show ?thesis using True unfolding d by (simp add: n_def)
    next
      case F: False
      then have "nat (e + 1 - max s g) = 0 \<or> length ?xs \<le> nat (s - g)" unfolding n_def by linarith
      then show ?thesis using F by auto
    qed
    have "copy_range (c # cs) g s e = take (nat (e + 1 - max s g)) (drop (nat (s - g)) ?xs) @ copy_range cs (g + int n) s e"
      unfolding piece using False by (simp add: n_def pch_get_len_def Let_def)
    then show ?thesis using split by simp
  qed
qed simp

lemma copy_elems_all:
  "copy_elems cs 0 (int (sum_list (map pch_get_len cs)) - 1) = Some (concat (map c_elems cs))"
proof -
  have l: "sum_list (map pch_get_len cs) = length (concat (map c_elems cs))" 
    by (simp add: pch_get_len_def [abs_def] length_concat comp_def)
  show ?thesis unfolding copy_elems_def Let_def l by (simp add: copy_range_eq c_assert_def)
qed

lemma copy_elems_range:
  assumes "0 \<le> s" "s \<le> e + 1" "e < int (length (concat (map c_elems cs)))"
  shows "copy_elems cs s e = Some (take (nat (e + 1 - s)) (drop (nat s) (concat (map c_elems cs))))"
  using assms by (simp add: copy_elems_def Let_def copy_range_eq c_assert_def)

lemma psrs_few:
  assumes "few_pairs ncpus cs" "cs \<noteq> []" "\<forall>c\<in>set cs. free_ok c"
  shows "\<exists>cs'. psrs_sort qs pcmp ncpus cs = Some cs' \<and> length cs' = length cs \<and>
    c_elems (cs' ! 0) = qs pcmp (concat (map c_elems cs)) \<and> (\<forall>i<length cs. 0 < i \<longrightarrow> c_elems (cs' ! i) = [])"
proof -
  let ?f = "free_arr_colls cs"
  let ?cs' = "?f[0 := pch_set_elems (qs pcmp (concat (map c_elems cs))) (?f ! 0)]"
  have "psrs_sort qs pcmp ncpus cs = Some ?cs'"
    using assms(1,2) copy_elems_all [of cs] by (cases cs) (simp_all add: psrs_sort_def Let_def)
  moreover have "c_elems (?cs' ! i) = []" if "i < length cs" "0 < i" for i
    using freed_empty [of "cs ! i"] assms(3) that by (simp add: free_arr_colls_def)
  moreover have "length ?cs' = length cs" "c_elems (?cs' ! 0) = qs pcmp (concat (map c_elems cs))"
    using assms(2) by (simp_all add: free_arr_colls_def)
  ultimately show ?thesis by blast
qed

end
