(* ===== verification/MT_Map.thy ===== *)
theory MT_Map
  imports MT_Sort
begin

text \<open>
  The map phase of Metis: the estimation of the number of keys (\<open>estimation.c\<close>) and the three managers of the hash tables
  the mappers put their pairs into (\<open>btreebktmgr.c\<close>, \<open>arraybktmgr.c\<close>, \<open>appendbktmgr.c\<close>).
\<close>

section \<open>Estimation (estimation.c)\<close>

text \<open>The state of one mapper.\<close>

record mstate_t =
  cur_nkeys :: u64
  cur_npairs :: u64
  last_nkeys :: u64
  last_npairs :: u64
  key_rate :: u64
  pair_rate :: u64
  nsampled :: u64

definition mstate_zero :: mstate_t where
  "mstate_zero = \<lparr>cur_nkeys = 0, cur_npairs = 0, last_nkeys = 0, last_npairs = 0, key_rate = 0, pair_rate = 0, nsampled = 0\<rparr>"

definition est_interval :: u64 where "est_interval = 1000"

definition est_interval_passed :: "mstate_t \<Rightarrow> mstate_t" where
  "est_interval_passed m =
     (let m1 = (if last_nkeys m = 0 then m\<lparr>key_rate := cur_nkeys m\<rparr>
                else m\<lparr>key_rate := key_rate m div 2 + (cur_nkeys m - last_nkeys m) div 2\<rparr>)
      in m1\<lparr>last_nkeys := cur_nkeys m1\<rparr>)"

definition est_task_finished :: "mstate_t \<Rightarrow> mstate_t" where
  "est_task_finished m =
     (let m1 = (if last_npairs m = 0 then m\<lparr>pair_rate := cur_npairs m\<rparr>
                else m\<lparr>pair_rate := pair_rate m div 2 + (cur_npairs m - last_npairs m) div 2\<rparr>)
      in m1\<lparr>last_npairs := cur_npairs m1, nsampled := nsampled m1 + 1\<rparr>)"

text \<open>\<open>*nkeys\<close> and \<open>*npairs\<close>.\<close>

definition est_estimate :: "mstate_t \<Rightarrow> u64 \<Rightarrow> u64 \<times> u64" where
  "est_estimate m ntotal =
     (let npairs = pair_rate m * (ntotal - nsampled m) + cur_npairs m
      in (key_rate m * (npairs - cur_npairs m) div est_interval + cur_nkeys m, npairs))"

definition est_newpair :: "bool \<Rightarrow> mstate_t \<Rightarrow> mstate_t" where
  "est_newpair newkey m =
     (let m1 = (if newkey then m\<lparr>cur_nkeys := cur_nkeys m + 1\<rparr> else m);
          m2 = m1\<lparr>cur_npairs := cur_npairs m1 + 1\<rparr>
      in if cur_npairs m2 mod est_interval = 0 then est_interval_passed m2 else m2)"

section \<open>The tables of a manager\<close>

text \<open>\<open>mbks\<close> is NULL after \<open>mbm_mbks_bak\<close>, and a row of it after it was rehashed.\<close>

record 'c mapper_t =
  map_rows :: nat
  map_cols :: nat
  mbks :: "'c list option list option"

definition mapper_zero :: "'c mapper_t" where
  "mapper_zero = \<lparr>map_rows = 0, map_cols = 0, mbks = None\<rparr>"

definition mapper_new :: "nat \<Rightarrow> nat \<Rightarrow> 'c \<Rightarrow> 'c mapper_t" where
  "mapper_new rows cols c = \<lparr>map_rows = rows, map_cols = cols, mbks = Some (replicate rows (Some (replicate cols c)))\<rparr>"

definition bucket_at :: "'c mapper_t \<Rightarrow> nat \<Rightarrow> nat \<Rightarrow> 'c option" where
  "bucket_at m row col = do { bs \<leftarrow> mbks m; r \<leftarrow> nth_opt bs row; cs \<leftarrow> r; nth_opt cs col }"

definition set_bucket :: "nat \<Rightarrow> nat \<Rightarrow> 'c \<Rightarrow> 'c mapper_t \<Rightarrow> 'c mapper_t" where
  "set_bucket row col c m = m\<lparr>mbks := map_option (\<lambda>bs. bs[row := map_option (\<lambda>cs. cs[col := c]) (bs ! row)]) (mbks m)\<rparr>"

text \<open>The column of a hash; the remainder by zero traps.\<close>

definition hash_col :: "u32 \<Rightarrow> 'c mapper_t \<Rightarrow> nat option" where
  "hash_col hash m = (if map_cols m = 0 then None else Some (unat hash mod map_cols m))"

text \<open>The static variables of a manager's file, and the array of \<open>estimation.c\<close>.\<close>

record ('c, 'o) bktmgr =
  mapper :: "'c mapper_t"
  mapper_bak :: "'c mapper_t"
  map_out :: "'o list"
  mstates :: "mstate_t list"

definition est_at :: "nat \<Rightarrow> (mstate_t \<Rightarrow> mstate_t) \<Rightarrow> ('c, 'o) bktmgr \<Rightarrow> ('c, 'o) bktmgr option" where
  "est_at row f st =
     (if row < length (mstates st) then Some (st\<lparr>mstates := (mstates st)[row := f (mstates st ! row)]\<rparr>) else None)"

definition column :: "'c mapper_t \<Rightarrow> nat \<Rightarrow> 'c list option" where
  "column m col = those (map (\<lambda>i. bucket_at m i col) [0..<map_rows m])"

definition set_column :: "nat \<Rightarrow> 'c list \<Rightarrow> 'c mapper_t \<Rightarrow> 'c mapper_t" where
  "set_column col cs m = fold (\<lambda>i. set_bucket i col (cs ! i)) [0..<map_rows m] m"

definition mgr_bak :: "('c, 'o) bktmgr \<Rightarrow> ('c, 'o) bktmgr" where
  "mgr_bak st = st\<lparr>mapper_bak := mapper st, mapper := mapper_zero\<rparr>"

section \<open>Trees as buckets (btreebktmgr.c)\<close>

type_synonym ('k, 'v) btreemgr = "(('k, 'v) btree, ('k, 'v) keyvals coll) bktmgr"

definition btm_mbks_init :: "nat \<Rightarrow> nat \<Rightarrow> ('k, 'v) btreemgr \<Rightarrow> ('k, 'v) btreemgr" where
  "btm_mbks_init rows cols st = st\<lparr>mapper := mapper_new rows cols bt_init, map_out := replicate (rows * cols) coll_init\<rparr>"

definition btm_mapper_destroy :: "('k, 'v) btree mapper_t \<Rightarrow> ('k, 'v) btree mapper_t" where
  "btm_mapper_destroy m = (if mbks m = None then m else mapper_zero)"

definition btm_mbks_destroy :: "('k, 'v) btreemgr \<Rightarrow> ('k, 'v) btreemgr" where
  "btm_mbks_destroy st = st\<lparr>mapper := btm_mapper_destroy (mapper st), mapper_bak := btm_mapper_destroy (mapper_bak st)\<rparr>"

definition btm_map_put_kvs ::
    "('k \<Rightarrow> 'k \<Rightarrow> int) \<Rightarrow> nat \<Rightarrow> ('k, 'v) keyvals \<Rightarrow> ('k, 'v) btreemgr \<Rightarrow> ('k, 'v) btreemgr option" where
  "btm_map_put_kvs keycmp row kvs st = do {
     col \<leftarrow> hash_col (kvs_hash kvs) (mapper st);
     entry \<leftarrow> bucket_at (mapper st) row col;
     entry' \<leftarrow> bt_insert_kvs keycmp entry kvs;
     Some (st\<lparr>mapper := set_bucket row col entry' (mapper st)\<rparr>)
   }"

definition btm_map_put ::
    "('k, 'v) app_arg \<Rightarrow> ('k \<Rightarrow> 'k \<Rightarrow> int) \<Rightarrow> ('k \<Rightarrow> nat \<Rightarrow> 'k) option \<Rightarrow> nat \<Rightarrow> 'k \<Rightarrow> 'v \<Rightarrow> nat \<Rightarrow> u32 \<Rightarrow>
     ('k, 'v) btreemgr \<Rightarrow> ('k, 'v) btreemgr option" where
  "btm_map_put app keycmp keycopy row key val keylen hash st = do {
     c_assert (mbks (mapper st) \<noteq> None);
     col \<leftarrow> hash_col hash (mapper st);
     entry \<leftarrow> bucket_at (mapper st) row col;
     (newkey, entry') \<leftarrow> bt_insert_kv app keycmp keycopy entry key val keylen hash;
     est_at row (est_newpair newkey) (st\<lparr>mapper := set_bucket row col entry' (mapper st)\<rparr>)
   }"

definition btm_do_reduce_task ::
    "('k, 'v) app_arg \<Rightarrow> ('k \<Rightarrow> 'k \<Rightarrow> int) \<Rightarrow> nat \<Rightarrow> ('k, 'v) btreemgr \<times> ('k, 'v) rbkts \<Rightarrow>
     (('k, 'v) btreemgr \<times> ('k, 'v) rbkts) option" where
  "btm_do_reduce_task app keycmp col s = (case s of (st, R) \<Rightarrow> do {
     c_assert (mbks (mapper st) \<noteq> None);
     nodes \<leftarrow> column (mapper st) col;
     (nodes', R') \<leftarrow> reduce_or_groupkvs app keycmp hkvsbtree col nodes R;
     Some (st\<lparr>mapper := set_column col (map (snd \<circ> bt_shallow_free) nodes') (mapper st)\<rparr>, R')
   })"

text \<open>\<open>bkt_rehash\<close>: the loop over the pairs of a bucket of the backup.\<close>

partial_function (option) btm_rehash_loop ::
    "('k \<Rightarrow> 'k \<Rightarrow> int) \<Rightarrow> nat \<Rightarrow> nat \<times> ptr \<Rightarrow> ('k, 'v) btree \<Rightarrow> ('k, 'v) btreemgr \<Rightarrow>
     (('k, 'v) btree \<times> ('k, 'v) btreemgr) option" where
  "btm_rehash_loop keycmp row iter entry st =
     (case bt_iter_next_kvs entry iter True of
        None \<Rightarrow> Some (entry, st)
      | Some (kvs, iter', entry') \<Rightarrow> do {
          st1 \<leftarrow> btm_map_put_kvs keycmp row kvs st;
          btm_rehash_loop keycmp row iter' entry' st1
        })"

definition btm_bkt_rehash ::
    "('k \<Rightarrow> 'k \<Rightarrow> int) \<Rightarrow> nat \<Rightarrow> nat \<Rightarrow> ('k, 'v) btreemgr \<Rightarrow> ('k, 'v) btreemgr option" where
  "btm_bkt_rehash keycmp row col st = do {
     entry \<leftarrow> bucket_at (mapper_bak st) row col;
     (entry1, st1) \<leftarrow>
       (case bt_iter_begin entry of
          None \<Rightarrow> Some (entry, st)
        | Some iter \<Rightarrow> btm_rehash_loop keycmp row iter entry st);
     Some (st1\<lparr>mapper_bak := set_bucket row col (snd (bt_shallow_free entry1)) (mapper_bak st1)\<rparr>)
   }"

definition btm_rehash_bak :: "('k \<Rightarrow> 'k \<Rightarrow> int) \<Rightarrow> nat \<Rightarrow> ('k, 'v) btreemgr \<Rightarrow> ('k, 'v) btreemgr option" where
  "btm_rehash_bak keycmp row st =
     (case mbks (mapper_bak st) of
        None \<Rightarrow> Some st
      | Some bs \<Rightarrow> do {
          r \<leftarrow> nth_opt bs row;
          c_assert (r \<noteq> None);
          st1 \<leftarrow> all_cpus (map_cols (mapper_bak st)) (\<lambda>i. btm_bkt_rehash keycmp row i) st;
          Some (st1\<lparr>mapper_bak := (mapper_bak st1)\<lparr>mbks := map_option (\<lambda>bs. bs[row := None]) (mbks (mapper_bak st1))\<rparr>\<rparr>)
        })"

text \<open>\<open>mbm_map_get_output\<close>: the collections; their handler is \<open>hkvsarr\<close> in this manager.\<close>

definition btm_map_get_output :: "('k, 'v) btreemgr \<Rightarrow> ('k, 'v) keyvals coll list" where
  "btm_map_get_output st = take (map_rows (mapper st) * map_cols (mapper st)) (map_out st)"

definition btm_map_prepare_merge :: "nat \<Rightarrow> ('k, 'v) btreemgr \<Rightarrow> ('k, 'v) btreemgr option" where
  "btm_map_prepare_merge row st =
     all_cpus (map_cols (mapper st)) (\<lambda>i st. do {
       entry \<leftarrow> bucket_at (mapper st) row i;
       arr \<leftarrow> bt_copy_kvs entry;
       let out = \<lparr>c_elems = arr, c_alloc = length arr, c_null = False\<rparr>;
       let at = row * map_cols (mapper st) + i;
       c_assert (at < length (map_out st));
       Some (st\<lparr>map_out := (map_out st)[at := out]\<rparr>)
     }) st"

section \<open>Sorted arrays as buckets (arraybktmgr.c)\<close>

type_synonym ('k, 'v) arraymgr = "(('k, 'v) keyvals coll, ('k, 'v) keyvals coll) bktmgr"

definition arm_mbks_init :: "nat \<Rightarrow> nat \<Rightarrow> ('k, 'v) arraymgr \<Rightarrow> ('k, 'v) arraymgr" where
  "arm_mbks_init rows cols st = st\<lparr>mapper := mapper_new rows cols coll_init, map_out := replicate (rows * cols) coll_init\<rparr>"

text \<open>Unlike the other manager it does not test for NULL: without tables it reads through NULL unless there is no row.\<close>

definition arm_mbks_destroy :: "('k, 'v) arraymgr \<Rightarrow> ('k, 'v) arraymgr option" where
  "arm_mbks_destroy st = do {
     c_assert (map_rows (mapper st) = 0 \<or> mbks (mapper st) \<noteq> None);
     Some (st\<lparr>mapper := (mapper st)\<lparr>mbks := None\<rparr>\<rparr>)
   }"

definition arm_map_put ::
    "('k, 'v) app_arg \<Rightarrow> ('k \<Rightarrow> 'k \<Rightarrow> int) \<Rightarrow> ('k \<Rightarrow> nat \<Rightarrow> 'k) option \<Rightarrow> nat \<Rightarrow> 'k \<Rightarrow> 'v \<Rightarrow> nat \<Rightarrow> u32 \<Rightarrow>
     ('k, 'v) arraymgr \<Rightarrow> ('k, 'v) arraymgr option" where
  "arm_map_put app keycmp keycopy row key val keylen hash st = do {
     c_assert (mbks (mapper st) \<noteq> None);
     col \<leftarrow> hash_col hash (mapper st);
     bucket \<leftarrow> bucket_at (mapper st) row col;
     (newkey, bucket') \<leftarrow> kvsarr_insert_kv app keycmp keycopy bucket key val keylen hash;
     est_at row (est_newpair newkey) (st\<lparr>mapper := set_bucket row col bucket' (mapper st)\<rparr>)
   }"

definition arm_do_reduce_task ::
    "('k, 'v) app_arg \<Rightarrow> ('k \<Rightarrow> 'k \<Rightarrow> int) \<Rightarrow> nat \<Rightarrow> ('k, 'v) arraymgr \<times> ('k, 'v) rbkts \<Rightarrow>
     (('k, 'v) arraymgr \<times> ('k, 'v) rbkts) option" where
  "arm_do_reduce_task app keycmp col s = (case s of (st, R) \<Rightarrow>
     if mbks (mapper st) = None then Some (st, R)
     else do {
       nodes \<leftarrow> column (mapper st) col;
       (nodes', R') \<leftarrow> reduce_or_groupkvs app keycmp hkvsarr col nodes R;
       Some (st\<lparr>mapper := set_column col (map pch_shallow_free nodes') (mapper st)\<rparr>, R')
     })"

partial_function (option) arm_rehash_loop ::
    "('k \<Rightarrow> 'k \<Rightarrow> int) \<Rightarrow> nat \<Rightarrow> nat \<Rightarrow> ('k, 'v) keyvals coll \<Rightarrow> ('k, 'v) arraymgr \<Rightarrow>
     (('k, 'v) keyvals coll \<times> ('k, 'v) arraymgr) option" where
  "arm_rehash_loop keycmp row iter bucket st =
     (case kvsarr_iter_next_kvs bucket iter True of
        None \<Rightarrow> Some (bucket, st)
      | Some (kvs, iter', bucket') \<Rightarrow> do {
          col \<leftarrow> hash_col (kvs_hash kvs) (mapper st);
          dest \<leftarrow> bucket_at (mapper st) row col;
          dest' \<leftarrow> kvsarr_insert_kvs keycmp dest kvs;
          arm_rehash_loop keycmp row iter' bucket' (st\<lparr>mapper := set_bucket row col dest' (mapper st)\<rparr>)
        })"

definition arm_rehash_bak :: "('k \<Rightarrow> 'k \<Rightarrow> int) \<Rightarrow> nat \<Rightarrow> ('k, 'v) arraymgr \<Rightarrow> ('k, 'v) arraymgr option" where
  "arm_rehash_bak keycmp row st =
     (if mbks (mapper_bak st) = None then Some st
      else all_cpus (map_cols (mapper_bak st)) (\<lambda>i st. do {
        bucket \<leftarrow> bucket_at (mapper_bak st) row i;
        (bucket1, st1) \<leftarrow>
          (case kvsarr_iter_begin bucket of
             None \<Rightarrow> Some (bucket, st)
           | Some iter \<Rightarrow> arm_rehash_loop keycmp row iter bucket st);
        Some (st1\<lparr>mapper_bak := set_bucket row i (pch_shallow_free bucket1) (mapper_bak st1)\<rparr>)
      }) st)"

definition arm_map_get_output :: "('k, 'v) arraymgr \<Rightarrow> ('k, 'v) keyvals coll list" where
  "arm_map_get_output st = take (map_rows (mapper st) * map_cols (mapper st)) (map_out st)"

text \<open>The array moves to the output, a zeroed one stays.\<close>

definition arm_map_prepare_merge :: "nat \<Rightarrow> ('k, 'v) arraymgr \<Rightarrow> ('k, 'v) arraymgr option" where
  "arm_map_prepare_merge row st =
     all_cpus (map_cols (mapper st)) (\<lambda>i st. do {
       bucket \<leftarrow> bucket_at (mapper st) row i;
       let at = row * map_cols (mapper st) + i;
       c_assert (at < length (map_out st));
       Some (st\<lparr>map_out := (map_out st)[at := bucket], mapper := set_bucket row i coll_init (mapper st)\<rparr>)
     }) st"

section \<open>Unsorted arrays as buckets (appendbktmgr.c)\<close>

text \<open>\<open>map_out\<close> is an array of \<open>keyvals_arr_t\<close> when \<open>group_before_merge\<close> is set and of \<open>keyval_arr_t\<close> otherwise; the
  argument \<open>group_first\<close> is the configuration \<open>SINGLE_APPEND_GROUP_MERGE_FIRST\<close> that sets it.\<close>

type_synonym ('k, 'v) append_out = "('k, 'v) keyvals coll + ('k, 'v) keyval coll"
type_synonym ('k, 'v) appendmgr = "(('k, 'v) keyval coll, ('k, 'v) append_out) bktmgr"

definition apm_mbks_init :: "bool \<Rightarrow> nat \<Rightarrow> nat \<Rightarrow> ('k, 'v) appendmgr \<Rightarrow> ('k, 'v) appendmgr" where
  "apm_mbks_init group_first rows cols st =
     st\<lparr>mapper := mapper_new rows cols coll_init,
        map_out := replicate (rows * cols) (if group_first then Inl coll_init else Inr coll_init)\<rparr>"

definition apm_map_put ::
    "('k \<Rightarrow> nat \<Rightarrow> 'k) option \<Rightarrow> nat \<Rightarrow> 'k \<Rightarrow> 'v \<Rightarrow> nat \<Rightarrow> u32 \<Rightarrow> ('k, 'v) appendmgr \<Rightarrow> ('k, 'v) appendmgr option" where
  "apm_map_put keycopy row key val keylen hash st = do {
     c_assert (mbks (mapper st) \<noteq> None);
     col \<leftarrow> hash_col hash (mapper st);
     bucket \<leftarrow> bucket_at (mapper st) row col;
     (_, bucket') \<leftarrow> kvarr_insert_kv keycopy bucket key val keylen hash;
     est_at row (est_newpair True) (st\<lparr>mapper := set_bucket row col bucket' (mapper st)\<rparr>)
   }"

definition apm_do_reduce_task ::
    "('k, 'v) app_arg \<Rightarrow> ('k \<Rightarrow> 'k \<Rightarrow> int) \<Rightarrow>
     ((('k, 'v) keyval \<Rightarrow> ('k, 'v) keyval \<Rightarrow> int) \<Rightarrow> ('k, 'v) keyval list \<Rightarrow> ('k, 'v) keyval list) \<Rightarrow> nat \<Rightarrow>
     ('k, 'v) appendmgr \<times> ('k, 'v) rbkts \<Rightarrow> (('k, 'v) appendmgr \<times> ('k, 'v) rbkts) option" where
  "apm_do_reduce_task app keycmp qs col s = (case s of (st, R) \<Rightarrow>
     if mbks (mapper st) = None then Some (st, R)
     else do {
       c_assert (atype app \<noteq> atype_maponly);
       pnodes \<leftarrow> column (mapper st) col;
       (_, R') \<leftarrow> reduce_or_groupkv app keycmp qs col pnodes None ((), R);
       Some (st\<lparr>mapper := set_column col (map pch_shallow_free pnodes) (mapper st)\<rparr>, R')
     })"

text \<open>\<open>mbm_rehash_bak\<close>: the pairs of the buckets of the backup in turn.\<close>

primrec apm_put_pairs :: "nat \<Rightarrow> ('k, 'v) keyval list \<Rightarrow> ('k, 'v) appendmgr \<Rightarrow> ('k, 'v) appendmgr option" where
  "apm_put_pairs row [] st = Some st"
| "apm_put_pairs row (p # ps) st = do {
     st1 \<leftarrow> apm_map_put None row (kv_key p) (kv_val p) 0 (kv_hash p) st;
     apm_put_pairs row ps st1
   }"

definition apm_rehash_bak :: "nat \<Rightarrow> ('k, 'v) appendmgr \<Rightarrow> ('k, 'v) appendmgr option" where
  "apm_rehash_bak row st =
     (if mbks (mapper_bak st) = None then Some st
      else all_cpus (map_cols (mapper_bak st)) (\<lambda>i st. do {
        bucket \<leftarrow> bucket_at (mapper_bak st) row i;
        st1 \<leftarrow> apm_put_pairs row (c_elems bucket) st;
        Some (st1\<lparr>mapper_bak := set_bucket row i (pch_shallow_free bucket) (mapper_bak st1)\<rparr>)
      }) st)"

definition apm_map_get_output :: "('k, 'v) appendmgr \<Rightarrow> ('k, 'v) append_out list" where
  "apm_map_get_output st = take (map_rows (mapper st) * map_cols (mapper st)) (map_out st)"

definition apm_map_prepare_merge ::
    "('k, 'v) app_arg \<Rightarrow> ('k \<Rightarrow> 'k \<Rightarrow> int) \<Rightarrow>
     ((('k, 'v) keyval \<Rightarrow> ('k, 'v) keyval \<Rightarrow> int) \<Rightarrow> ('k, 'v) keyval list \<Rightarrow> ('k, 'v) keyval list) \<Rightarrow> nat \<Rightarrow>
     ('k, 'v) appendmgr \<times> ('k, 'v) rbkts \<Rightarrow> (('k, 'v) appendmgr \<times> ('k, 'v) rbkts) option" where
  "apm_map_prepare_merge app keycmp qs row s = (case s of (st, R) \<Rightarrow> do {
     c_assert (map_cols (mapper st) = 1);
     bucket \<leftarrow> bucket_at (mapper st) row 0;
     out \<leftarrow> nth_opt (map_out st) row;
     (case out of
        Inr _ \<Rightarrow> Some (st\<lparr>map_out := (map_out st)[row := Inr bucket], mapper := set_bucket row 0 coll_init (mapper st)\<rparr>, R)
      | Inl arr \<Rightarrow> do {
          (arr', R') \<leftarrow> reduce_or_groupkv app keycmp qs 0 [bucket] (Some (\<lambda>kvs c. kvsarr_append_kvs c kvs)) (arr, R);
          Some (st\<lparr>map_out := (map_out st)[row := Inl arr'],
                   mapper := set_bucket row 0 (pch_shallow_free bucket) (mapper st)\<rparr>, R')
        })
   })"

section \<open>Tables of buckets\<close>

text \<open>All buckets of the columns in \<open>C\<close> are there and satisfy \<open>P\<close>.\<close>

definition tables :: "('c \<Rightarrow> bool) \<Rightarrow> nat set \<Rightarrow> 'c mapper_t \<Rightarrow> bool" where
  "tables P C m \<longleftrightarrow> (\<exists>bs. mbks m = Some bs \<and> length bs = map_rows m \<and>
     (\<forall>r<map_rows m. \<exists>cs. bs ! r = Some cs \<and> length cs = map_cols m \<and> (\<forall>c<map_cols m. c \<in> C \<longrightarrow> P (cs ! c))))"

lemma tablesE:
  assumes "tables P C m" "row < map_rows m" "col < map_cols m"
  obtains c where "bucket_at m row col = Some c" "col \<in> C \<Longrightarrow> P c"
proof -
  obtain bs cs where "mbks m = Some bs" "length bs = map_rows m" "bs ! row = Some cs" "length cs = map_cols m"
    "\<forall>c<map_cols m. c \<in> C \<longrightarrow> P (cs ! c)" using assms(1,2) by (auto simp: tables_def)
  then have "bucket_at m row col = Some (cs ! col)" "col \<in> C \<Longrightarrow> P (cs ! col)"
    using assms(2,3) by (simp_all add: bucket_at_def nth_opt_def)
  then show thesis by (rule that)
qed

lemma tables_new: "P c \<Longrightarrow> tables P C (mapper_new rows cols c)"
  by (simp add: tables_def mapper_new_def)

lemma bucket_at_new: "bucket_at (mapper_new rows cols c) row col = (if row < rows \<and> col < cols then Some c else None)"
  by (simp add: bucket_at_def mapper_new_def nth_opt_def)

lemma mapper_new_simps [simp]: "map_rows (mapper_new rows cols c) = rows" "map_cols (mapper_new rows cols c) = cols"
  by (simp_all add: mapper_new_def)

lemma set_bucket_simps [simp]:
  "map_rows (set_bucket row col c m) = map_rows m" "map_cols (set_bucket row col c m) = map_cols m"
  by (simp_all add: set_bucket_def)

lemma tables_set:
  assumes "tables P C m" "row < map_rows m" "col < map_cols m" "col \<in> C \<Longrightarrow> P c"
  shows "tables P C (set_bucket row col c m)"
    "bucket_at (set_bucket row col c m) r k = (if r = row \<and> k = col then Some c else bucket_at m r k)"
proof -
  obtain bs where bs: "mbks m = Some bs" "length bs = map_rows m"
    "\<forall>r<map_rows m. \<exists>cs. bs ! r = Some cs \<and> length cs = map_cols m \<and> (\<forall>c<map_cols m. c \<in> C \<longrightarrow> P (cs ! c))"
    using assms(1) by (auto simp: tables_def)
  obtain cs where cs: "bs ! row = Some cs" "length cs = map_cols m" "\<forall>c<map_cols m. c \<in> C \<longrightarrow> P (cs ! c)"
    using bs(3) assms(2) by auto
  have m: "mbks (set_bucket row col c m) = Some (bs[row := Some (cs[col := c])])" using bs(1) cs(1) by (simp add: set_bucket_def)
  show "bucket_at (set_bucket row col c m) r k = (if r = row \<and> k = col then Some c else bucket_at m r k)"
    unfolding bucket_at_def m using bs(1,2) cs assms(2,3) by (auto simp: nth_opt_def nth_list_update)
  have "\<exists>xs. bs[row := Some (cs[col := c])] ! r = Some xs \<and> length xs = map_cols m \<and> (\<forall>k<map_cols m. k \<in> C \<longrightarrow> P (xs ! k))"
    if r: "r < map_rows m" for r
  proof (cases "r = row")
    case True
    have "P (cs[col := c] ! k)" if "k < map_cols m" "k \<in> C" for k
      using that cs(2,3) assms(4) by (cases "k = col") auto
    then show ?thesis using True bs(2) cs(2) assms(2) by auto
  next
    case False
    then show ?thesis using False bs(3) r by auto
  qed
  then show "tables P C (set_bucket row col c m)" unfolding tables_def m using bs(2) by auto
qed

lemma tables_mono: "tables P C m \<Longrightarrow> D \<subseteq> C \<Longrightarrow> tables P D m"
  unfolding tables_def by blast

lemma those_map_the: "\<forall>x\<in>set xs. f x \<noteq> None \<Longrightarrow> those (map f xs) = Some (map (\<lambda>x. the (f x)) xs)"
  by (induction xs) auto

lemma column_tables:
  assumes "tables P C m" "col < map_cols m" "col \<in> C"
  obtains cs where "column m col = Some cs" "length cs = map_rows m" "\<forall>c\<in>set cs. P c"
    "\<And>r. r < map_rows m \<Longrightarrow> bucket_at m r col = Some (cs ! r)"
proof -
  define cs where "cs = map (\<lambda>r. the (bucket_at m r col)) [0..<map_rows m]"
  have b: "bucket_at m r col = Some (cs ! r)" "P (cs ! r)" if r: "r < map_rows m" for r
  proof -
    obtain c where c: "bucket_at m r col = Some c" "P c" using tablesE [OF assms(1) r assms(2)] assms(3) by blast
    have "cs ! r = c" using r c(1) by (simp add: cs_def)
    then show "bucket_at m r col = Some (cs ! r)" "P (cs ! r)" using c by simp_all
  qed
  have "column m col = Some cs" unfolding column_def cs_def using b(1) by (intro those_map_the) simp
  moreover have l: "length cs = map_rows m" by (simp add: cs_def)
  moreover have "\<forall>c\<in>set cs. P c" using b(2) l by (simp add: all_set_conv_all_nth)
  ultimately show thesis using that b(1) by blast
qed

lemma set_column_tables:
  assumes "tables P C m" "col < map_cols m" "col \<notin> C"
  shows "tables P C (set_column col cs m) \<and> map_rows (set_column col cs m) = map_rows m \<and>
    map_cols (set_column col cs m) = map_cols m \<and> (\<forall>r k. k \<noteq> col \<longrightarrow> bucket_at (set_column col cs m) r k = bucket_at m r k)"
proof -
  have "tables P C (fold (\<lambda>i. set_bucket i col (cs ! i)) xs m) \<and>
      map_rows (fold (\<lambda>i. set_bucket i col (cs ! i)) xs m) = map_rows m \<and>
      map_cols (fold (\<lambda>i. set_bucket i col (cs ! i)) xs m) = map_cols m \<and>
      (\<forall>r k. k \<noteq> col \<longrightarrow> bucket_at (fold (\<lambda>i. set_bucket i col (cs ! i)) xs m) r k = bucket_at m r k)"
    if "\<forall>i\<in>set xs. i < map_rows m" for xs
    using that assms(1,2)
  proof (induction xs arbitrary: m)
    case (Cons i xs)
    have i: "i < map_rows m" using Cons.prems(1) by simp
    note d = tables_set [OF Cons.prems(2) i Cons.prems(3), of "cs ! i"]
    show ?case using Cons.IH [of "set_bucket i col (cs ! i) m"] Cons.prems d assms(3) by simp
  qed simp
  from this [of "[0..<map_rows m]"] show ?thesis by (simp add: set_column_def)
qed

section \<open>What a manager promises (mbktsmgr.h)\<close>

text \<open>\<open>contents s row col\<close> are the entries of a bucket; \<open>table_ok C s\<close>: the buckets of the columns in \<open>C\<close> are in use.\<close>

locale bucket_manager =
  fixes app :: "('k, 'v) app_arg" and cmp :: "'k \<Rightarrow> 'k \<Rightarrow> int" and keycopy :: "('k \<Rightarrow> nat \<Rightarrow> 'k) option"
    and mbks_init :: "nat \<Rightarrow> nat \<Rightarrow> 's \<Rightarrow> 's"
    and map_put :: "nat \<Rightarrow> 'k \<Rightarrow> 'v \<Rightarrow> nat \<Rightarrow> u32 \<Rightarrow> 's \<Rightarrow> 's option"
    and do_reduce_task :: "nat \<Rightarrow> 's \<times> ('k, 'v) rbkts \<Rightarrow> ('s \<times> ('k, 'v) rbkts) option"
    and table_ok :: "nat set \<Rightarrow> 's \<Rightarrow> bool"
    and mappers :: "'s \<Rightarrow> nat"
    and rows :: "'s \<Rightarrow> nat"
    and cols :: "'s \<Rightarrow> nat"
    and contents :: "'s \<Rightarrow> nat \<Rightarrow> nat \<Rightarrow> ('k, 'v) entry_t list"
  assumes init: "nrows \<le> mappers s \<Longrightarrow> table_ok C (mbks_init nrows ncols s) \<and> rows (mbks_init nrows ncols s) = nrows \<and>
      cols (mbks_init nrows ncols s) = ncols \<and> contents (mbks_init nrows ncols s) row col = []"
    and sorted: "key_order cmp \<Longrightarrow> table_ok C s \<Longrightarrow> row < rows s \<Longrightarrow> col < cols s \<Longrightarrow> col \<in> C \<Longrightarrow>
      asc cmp (map fst (contents s row col))"
    and put: "key_order cmp \<Longrightarrow> table_ok UNIV s \<Longrightarrow> row < rows s \<Longrightarrow> 0 < cols s \<Longrightarrow> copies_ok cmp keycopy key keylen \<Longrightarrow>
      \<exists>s'. map_put row key val keylen hash s = Some s' \<and> table_ok UNIV s' \<and> rows s' = rows s \<and> cols s' = cols s \<and>
        (\<forall>r k. contents s' r k = (if r = row \<and> k = unat hash mod cols s
          then put_entry cmp (\<lambda>k vs. add_value app k vs val) key (copied_key keycopy key keylen) hash (contents s r k)
          else contents s r k))"
    and reduce: "key_order cmp \<Longrightarrow> table_ok C s \<Longrightarrow> col < cols s \<Longrightarrow> col \<in> C \<Longrightarrow> \<forall>r<rows s. vals_ok app (contents s r col) \<Longrightarrow>
      \<exists>gs. groups_of app cmp (map (\<lambda>r. contents s r col) [0..<rows s]) gs \<and>
        (case emit_groups app col gs R of
           None \<Rightarrow> do_reduce_task col (s, R) = None
         | Some R' \<Rightarrow> \<exists>s'. do_reduce_task col (s, R) = Some (s', R') \<and> table_ok (C - {col}) s' \<and> rows s' = rows s \<and>
             cols s' = cols s \<and> (\<forall>r k. k \<noteq> col \<longrightarrow> contents s' r k = contents s r k))"

section \<open>Trees and arrays as buckets keep the promise\<close>

definition bucket_entries :: "('c \<Rightarrow> ('k, 'v) entry_t list) \<Rightarrow> 'c mapper_t \<Rightarrow> nat \<Rightarrow> nat \<Rightarrow> ('k, 'v) entry_t list" where
  "bucket_entries ent m row col = (case bucket_at m row col of None \<Rightarrow> [] | Some c \<Rightarrow> ent c)"

definition mgr_ok :: "('c \<Rightarrow> bool) \<Rightarrow> nat set \<Rightarrow> ('c, 'o) bktmgr \<Rightarrow> bool" where
  "mgr_ok P C st \<longleftrightarrow> tables P C (mapper st) \<and> map_rows (mapper st) \<le> length (mstates st)"

lemma reduce_column:
  assumes t: "tables P C m" "col < map_cols m" "col \<in> C"
    and v: "\<forall>r<map_rows m. vals_ok app (bucket_entries ent m r col)"
    and walk: "\<And>nodes. \<forall>c\<in>set nodes. P c \<and> vals_ok app (ent c) \<Longrightarrow>
      \<exists>gs. groups_of app cmp (map ent nodes) gs \<and> map_option snd (red nodes) = emit_groups app col gs R"
  obtains nodes gs where "column m col = Some nodes" "groups_of app cmp (map (\<lambda>r. bucket_entries ent m r col) [0..<map_rows m]) gs"
    "map_option snd (red nodes) = emit_groups app col gs R"
proof -
  obtain cs where cs: "column m col = Some cs" "length cs = map_rows m" "\<forall>c\<in>set cs. P c"
    "\<And>r. r < map_rows m \<Longrightarrow> bucket_at m r col = Some (cs ! r)" using column_tables [OF t] by blast
  have e: "map (\<lambda>r. bucket_entries ent m r col) [0..<map_rows m] = map ent cs"
    using cs(2,4) by (auto simp: bucket_entries_def intro!: nth_equalityI)
  have "vals_ok app (ent (cs ! r))" if "r < map_rows m" for r
    using v [rule_format, OF that] cs(4) [OF that] by (simp add: bucket_entries_def)
  then have "\<forall>c\<in>set cs. P c \<and> vals_ok app (ent c)" using cs(2,3) by (simp add: all_set_conv_all_nth)
  from walk [OF this] show thesis using that [OF cs(1)] unfolding e by blast
qed

text \<open>The step both managers share: an insertion into a bucket.\<close>

lemma put_bucket:
  assumes ok: "mgr_ok P UNIV st" and r: "row < map_rows (mapper st)" "0 < map_cols (mapper st)"
    and ins: "\<And>c. P c \<Longrightarrow> \<exists>new c'. ins c = Some (new, c') \<and> P c' \<and> ent c' = f (ent c)"
  shows "\<exists>st'. (do {
      c_assert (mbks (mapper st) \<noteq> None);
      col \<leftarrow> hash_col hash (mapper st);
      entry \<leftarrow> bucket_at (mapper st) row col;
      (newkey, entry') \<leftarrow> ins entry;
      est_at row (est_newpair newkey) (st\<lparr>mapper := set_bucket row col entry' (mapper st)\<rparr>)
    }) = Some st' \<and> mgr_ok P UNIV st' \<and> map_rows (mapper st') = map_rows (mapper st) \<and>
    map_cols (mapper st') = map_cols (mapper st) \<and>
    (\<forall>r k. bucket_entries ent (mapper st') r k = (if r = row \<and> k = unat hash mod map_cols (mapper st)
      then f (bucket_entries ent (mapper st) r k) else bucket_entries ent (mapper st) r k))"
proof -
  let ?m = "mapper st" and ?col = "unat hash mod map_cols (mapper st)"
  have t: "tables P UNIV ?m" "row < length (mstates st)" using ok r(1) by (auto simp: mgr_ok_def)
  have c: "?col < map_cols ?m" using r(2) by simp
  obtain b where b: "bucket_at ?m row ?col = Some b" "P b" using tablesE [OF t(1) r(1) c] by blast
  obtain new b' where i: "ins b = Some (new, b')" "P b'" "ent b' = f (ent b)" using ins [OF b(2)] by blast
  note s = tables_set [OF t(1) r(1) c, of b', OF i(2)]
  let ?st = "st\<lparr>mapper := set_bucket row ?col b' ?m, mstates := (mstates st)[row := est_newpair new (mstates st ! row)]\<rparr>"
  have "mbks ?m \<noteq> None" using t(1) by (auto simp: tables_def)
  then have "(do {
      c_assert (mbks (mapper st) \<noteq> None);
      col \<leftarrow> hash_col hash (mapper st);
      entry \<leftarrow> bucket_at (mapper st) row col;
      (newkey, entry') \<leftarrow> ins entry;
      est_at row (est_newpair newkey) (st\<lparr>mapper := set_bucket row col entry' (mapper st)\<rparr>)
    }) = Some ?st"
    using b(1) i(1) r(2) t(2) by (simp add: c_assert_def hash_col_def est_at_def)
  moreover have "mgr_ok P UNIV ?st" using s(1) ok by (simp add: mgr_ok_def)
  moreover have "bucket_entries ent (mapper ?st) r k = (if r = row \<and> k = ?col
      then f (bucket_entries ent ?m r k) else bucket_entries ent ?m r k)" for r k
    using s(2) b(1) i(3) by (simp add: bucket_entries_def)
  ultimately show ?thesis by (intro exI [of _ ?st]) simp
qed


text \<open>And the reduction of a column.\<close>

lemma mgr_ok_mbks: "mgr_ok P C st \<Longrightarrow> \<exists>bs. mbks (mapper st) = Some bs"
  by (auto simp: mgr_ok_def tables_def)

lemma reduce_task:
  assumes ok: "mgr_ok P C st" and c: "col < map_cols (mapper st)" "col \<in> C"
    and v: "\<forall>r<map_rows (mapper st). vals_ok app (bucket_entries ent (mapper st) r col)"
    and walk: "\<And>nodes. \<forall>c\<in>set nodes. P c \<and> vals_ok app (ent c) \<Longrightarrow>
      \<exists>gs. groups_of app cmp (map ent nodes) gs \<and> map_option snd (red nodes) = emit_groups app col gs R"
    and task: "task = (do {
         nodes \<leftarrow> column (mapper st) col;
         (nodes', R') \<leftarrow> red nodes;
         Some (st\<lparr>mapper := set_column col (map free nodes') (mapper st)\<rparr>, R')
       })"
  shows "\<exists>gs. groups_of app cmp (map (\<lambda>r. bucket_entries ent (mapper st) r col) [0..<map_rows (mapper st)]) gs \<and>
    (case emit_groups app col gs R of
       None \<Rightarrow> task = None
     | Some R' \<Rightarrow> \<exists>s'. task = Some (s', R') \<and> mgr_ok P (C - {col}) s' \<and>
         map_rows (mapper s') = map_rows (mapper st) \<and> map_cols (mapper s') = map_cols (mapper st) \<and>
         (\<forall>r k. k \<noteq> col \<longrightarrow> bucket_entries ent (mapper s') r k = bucket_entries ent (mapper st) r k))"
proof -
  have t: "tables P C (mapper st)" using ok by (simp add: mgr_ok_def)
  obtain nodes gs where g: "column (mapper st) col = Some nodes"
    "groups_of app cmp (map (\<lambda>r. bucket_entries ent (mapper st) r col) [0..<map_rows (mapper st)]) gs"
    "map_option snd (red nodes) = emit_groups app col gs R" by (rule reduce_column [OF t c v walk])
  have t': "tables P (C - {col}) (mapper st)" using tables_mono [OF t] by blast
  show ?thesis
  proof (cases "red nodes")
    case None
    then show ?thesis using g by (intro exI [of _ gs]) (auto simp: task)
  next
    case (Some p)
    obtain nodes' R' where p: "p = (nodes', R')" by (cases p)
    note sc = set_column_tables [OF t' c(1), of "map free nodes'"]
    show ?thesis
      using g Some p sc ok by (intro exI [of _ gs]) (auto simp: task mgr_ok_def bucket_entries_def simp flip: g(3))
  qed
qed

interpretation btreemgr: bucket_manager app cmp keycopy "btm_mbks_init :: nat \<Rightarrow> nat \<Rightarrow> ('k, 'v) btreemgr \<Rightarrow> _"
    "btm_map_put app cmp keycopy" "btm_do_reduce_task app cmp" "mgr_ok (bt_ok cmp)" "\<lambda>st. length (mstates st)"
    "\<lambda>st. map_rows (mapper st)" "\<lambda>st. map_cols (mapper st)" "\<lambda>st. bucket_entries bt_entries (mapper st)"
  for app :: "('k, 'v) app_arg" and cmp and keycopy
proof
  fix s :: "('k, 'v) btreemgr" and C nrows ncols row col key val keylen hash R
  show "mgr_ok (bt_ok cmp) C (btm_mbks_init nrows ncols s) \<and> map_rows (mapper (btm_mbks_init nrows ncols s)) = nrows \<and>
      map_cols (mapper (btm_mbks_init nrows ncols s)) = ncols \<and>
      bucket_entries bt_entries (mapper (btm_mbks_init nrows ncols s)) row col = []" if "nrows \<le> length (mstates s)"
    using that tables_new [of "bt_ok cmp" "bt_init :: ('k, 'v) btree", OF btree.coll_init(1)]
    by (simp add: mgr_ok_def btm_mbks_init_def bucket_entries_def bucket_at_new btree.coll_init(2))
  assume o: "key_order cmp"
  show "asc cmp (map fst (bucket_entries bt_entries (mapper s) row col))"
    if q: "mgr_ok (bt_ok cmp) C s" "row < map_rows (mapper s)" "col < map_cols (mapper s)" "col \<in> C"
  proof -
    obtain t where "bucket_at (mapper s) row col = Some t" "bt_ok cmp t"
      using tablesE [OF q(1) [unfolded mgr_ok_def, THEN conjunct1] q(2,3)] q(4) by blast
    then show ?thesis using btree.ok_asc [OF o] by (simp add: bucket_entries_def)
  qed
  show "\<exists>s'. btm_map_put app cmp keycopy row key val keylen hash s = Some s' \<and> mgr_ok (bt_ok cmp) UNIV s' \<and>
      map_rows (mapper s') = map_rows (mapper s) \<and> map_cols (mapper s') = map_cols (mapper s) \<and>
      (\<forall>r k. bucket_entries bt_entries (mapper s') r k = (if r = row \<and> k = unat hash mod map_cols (mapper s)
        then put_entry cmp (\<lambda>k vs. add_value app k vs val) key (copied_key keycopy key keylen) hash (bucket_entries bt_entries (mapper s) r k)
        else bucket_entries bt_entries (mapper s) r k))"
    if "mgr_ok (bt_ok cmp) UNIV s" "row < map_rows (mapper s)" "0 < map_cols (mapper s)" "copies_ok cmp keycopy key keylen"
    unfolding btm_map_put_def
  proof (rule put_bucket [OF that(1-3), where ent = bt_entries and ins = "\<lambda>c. bt_insert_kv app cmp keycopy c key val keylen hash"
        and f = "put_entry cmp (\<lambda>k vs. add_value app k vs val) key (copied_key keycopy key keylen) hash"])
    fix c :: "('k, 'v) btree"
    assume "bt_ok cmp c"
    from btree.insert_kv [OF o this that(4), where app = app and val = val and hash = hash]
    show "\<exists>new c'. bt_insert_kv app cmp keycopy c key val keylen hash = Some (new, c') \<and> bt_ok cmp c' \<and> bt_entries c' =
        put_entry cmp (\<lambda>k vs. add_value app k vs val) key (copied_key keycopy key keylen) hash (bt_entries c)" by blast
  qed
  show "\<exists>gs. groups_of app cmp (map (\<lambda>r. bucket_entries bt_entries (mapper s) r col) [0..<map_rows (mapper s)]) gs \<and>
      (case emit_groups app col gs R of
         None \<Rightarrow> btm_do_reduce_task app cmp col (s, R) = None
       | Some R' \<Rightarrow> \<exists>s'. btm_do_reduce_task app cmp col (s, R) = Some (s', R') \<and> mgr_ok (bt_ok cmp) (C - {col}) s' \<and>
           map_rows (mapper s') = map_rows (mapper s) \<and> map_cols (mapper s') = map_cols (mapper s) \<and>
           (\<forall>r k. k \<noteq> col \<longrightarrow> bucket_entries bt_entries (mapper s') r k = bucket_entries bt_entries (mapper s) r k))"
    if ok: "mgr_ok (bt_ok cmp) C s" and c: "col < map_cols (mapper s)" "col \<in> C"
      and v: "\<forall>r<map_rows (mapper s). vals_ok app (bucket_entries bt_entries (mapper s) r col)"
  proof -
    have "\<exists>gs. groups_of app cmp (map bt_entries nodes) gs \<and>
        map_option snd (reduce_or_groupkvs app cmp hkvsbtree col nodes R) = emit_groups app col gs R"
      if "\<forall>c\<in>set nodes. bt_ok cmp c \<and> vals_ok app (bt_entries c)" for nodes
      unfolding hkvsbtree_def using btree_walk.reduce_or_groupkvs_ok [OF o] btree.ok_asc [OF o] that by blast
    then show ?thesis
      by (rule reduce_task [OF ok c v, where free = "snd \<circ> bt_shallow_free"]) (use mgr_ok_mbks [OF ok] in \<open>auto simp: btm_do_reduce_task_def c_assert_def\<close>)
  qed
qed

interpretation arraymgr: bucket_manager app cmp keycopy "arm_mbks_init :: nat \<Rightarrow> nat \<Rightarrow> ('k, 'v) arraymgr \<Rightarrow> _"
    "arm_map_put app cmp keycopy" "arm_do_reduce_task app cmp" "mgr_ok (kvsarr_ok cmp)" "\<lambda>st. length (mstates st)"
    "\<lambda>st. map_rows (mapper st)" "\<lambda>st. map_cols (mapper st)" "\<lambda>st. bucket_entries kvsarr_entries (mapper st)"
  for app :: "('k, 'v) app_arg" and cmp and keycopy
proof
  fix s :: "('k, 'v) arraymgr" and C nrows ncols row col key val keylen hash R
  show "mgr_ok (kvsarr_ok cmp) C (arm_mbks_init nrows ncols s) \<and> map_rows (mapper (arm_mbks_init nrows ncols s)) = nrows \<and>
      map_cols (mapper (arm_mbks_init nrows ncols s)) = ncols \<and>
      bucket_entries kvsarr_entries (mapper (arm_mbks_init nrows ncols s)) row col = []" if "nrows \<le> length (mstates s)"
    using that tables_new [of "kvsarr_ok cmp" "coll_init :: ('k, 'v) keyvals coll", OF kvsarr.coll_init(1)]
    by (simp add: mgr_ok_def arm_mbks_init_def bucket_entries_def bucket_at_new kvsarr.coll_init(2))
  assume o: "key_order cmp"
  show "asc cmp (map fst (bucket_entries kvsarr_entries (mapper s) row col))"
    if q: "mgr_ok (kvsarr_ok cmp) C s" "row < map_rows (mapper s)" "col < map_cols (mapper s)" "col \<in> C"
  proof -
    obtain t where "bucket_at (mapper s) row col = Some t" "kvsarr_ok cmp t"
      using tablesE [OF q(1) [unfolded mgr_ok_def, THEN conjunct1] q(2,3)] q(4) by blast
    then show ?thesis using kvsarr.ok_asc [OF o] by (simp add: bucket_entries_def)
  qed
  show "\<exists>s'. arm_map_put app cmp keycopy row key val keylen hash s = Some s' \<and> mgr_ok (kvsarr_ok cmp) UNIV s' \<and>
      map_rows (mapper s') = map_rows (mapper s) \<and> map_cols (mapper s') = map_cols (mapper s) \<and>
      (\<forall>r k. bucket_entries kvsarr_entries (mapper s') r k = (if r = row \<and> k = unat hash mod map_cols (mapper s)
        then put_entry cmp (\<lambda>k vs. add_value app k vs val) key (copied_key keycopy key keylen) hash (bucket_entries kvsarr_entries (mapper s) r k)
        else bucket_entries kvsarr_entries (mapper s) r k))"
    if "mgr_ok (kvsarr_ok cmp) UNIV s" "row < map_rows (mapper s)" "0 < map_cols (mapper s)" "copies_ok cmp keycopy key keylen"
    unfolding arm_map_put_def
  proof (rule put_bucket [OF that(1-3), where ent = kvsarr_entries and ins = "\<lambda>c. kvsarr_insert_kv app cmp keycopy c key val keylen hash"
        and f = "put_entry cmp (\<lambda>k vs. add_value app k vs val) key (copied_key keycopy key keylen) hash"])
    fix c :: "('k, 'v) keyvals coll"
    assume "kvsarr_ok cmp c"
    from kvsarr.insert_kv [OF o this that(4), where app = app and val = val and hash = hash]
    show "\<exists>new c'. kvsarr_insert_kv app cmp keycopy c key val keylen hash = Some (new, c') \<and> kvsarr_ok cmp c' \<and> kvsarr_entries c' =
        put_entry cmp (\<lambda>k vs. add_value app k vs val) key (copied_key keycopy key keylen) hash (kvsarr_entries c)" by blast
  qed
  show "\<exists>gs. groups_of app cmp (map (\<lambda>r. bucket_entries kvsarr_entries (mapper s) r col) [0..<map_rows (mapper s)]) gs \<and>
      (case emit_groups app col gs R of
         None \<Rightarrow> arm_do_reduce_task app cmp col (s, R) = None
       | Some R' \<Rightarrow> \<exists>s'. arm_do_reduce_task app cmp col (s, R) = Some (s', R') \<and> mgr_ok (kvsarr_ok cmp) (C - {col}) s' \<and>
           map_rows (mapper s') = map_rows (mapper s) \<and> map_cols (mapper s') = map_cols (mapper s) \<and>
           (\<forall>r k. k \<noteq> col \<longrightarrow> bucket_entries kvsarr_entries (mapper s') r k = bucket_entries kvsarr_entries (mapper s) r k))"
    if ok: "mgr_ok (kvsarr_ok cmp) C s" and c: "col < map_cols (mapper s)" "col \<in> C"
      and v: "\<forall>r<map_rows (mapper s). vals_ok app (bucket_entries kvsarr_entries (mapper s) r col)"
  proof -
    have "\<exists>gs. groups_of app cmp (map kvsarr_entries nodes) gs \<and>
        map_option snd (reduce_or_groupkvs app cmp hkvsarr col nodes R) = emit_groups app col gs R"
      if "\<forall>c\<in>set nodes. kvsarr_ok cmp c \<and> vals_ok app (kvsarr_entries c)" for nodes
      unfolding hkvsarr_def using kvsarr_walk.reduce_or_groupkvs_ok [OF o] kvsarr.ok_asc [OF o] that by blast
    then show ?thesis
      by (rule reduce_task [OF ok c v, where free = "pch_shallow_free"]) (use mgr_ok_mbks [OF ok] in \<open>auto simp: arm_do_reduce_task_def c_assert_def\<close>)
  qed
qed

end
