(* ===== verification/MT_Job.thy ===== *)
theory MT_Job
  imports MT_Map "HOL-Library.Log_Nat"
begin

text \<open>
  The stages of a MapReduce job: the splits of the input (\<open>defsplitter.c\<close>, \<open>presplitter.c\<close>), the store between the
  stages (\<open>kvstore.c\<close>) and the scheduler that runs them (\<open>mr-sched.c\<close>).
\<close>

section \<open>Splitting the input (defsplitter.c)\<close>

text \<open>A split as the offset of its data and its length; sizes are 64 bits wide.\<close>

record split_t =
  sp_data :: u64
  sp_length :: u64

record defsplitter_state =
  split_pos :: u64
  data_size :: u64
  ds_nsplits :: u64
  ds_align :: u64

definition defsplitter_init :: "u64 \<Rightarrow> u64 \<Rightarrow> u64 \<Rightarrow> defsplitter_state option" where
  "defsplitter_init dsize nsplits align =
     (if align = 0 then None
      else do {
        c_assert (dsize mod align = 0);
        Some \<lparr>split_pos = 0, data_size = dsize, ds_nsplits = nsplits, ds_align = align\<rparr>
      })"

definition def_nsplits_per_core :: u64 where "def_nsplits_per_core = 16"

text \<open>The split, when there is one left, and the state; the division by zero traps.\<close>

definition defsplitter :: "u64 \<Rightarrow> defsplitter_state \<Rightarrow> (split_t option \<times> defsplitter_state) option" where
  "defsplitter ncores ds =
     (let pos = split_pos ds in
      if pos \<ge> data_size ds then Some (None, ds)
      else let ds1 = (if ds_nsplits ds = 0 then ds\<lparr>ds_nsplits := ncores * def_nsplits_per_core\<rparr> else ds) in
        if ds_nsplits ds1 = 0 then None
        else let quot = data_size ds1 div ds_nsplits ds1;
                 split_size = quot - quot mod ds_align ds1;
                 len = (if pos + split_size > data_size ds1 then data_size ds1 - pos else split_size)
          in Some (Some \<lparr>sp_data = pos, sp_length = len\<rparr>, ds1\<lparr>split_pos := split_pos ds1 + split_size\<rparr>))"

section \<open>Splits prepared in advance (presplitter.c)\<close>

record 'sp presplitter_state =
  ps_ma :: "'sp list"
  ps_idx :: nat
  ps_nsplits :: nat
  ps_nsplits_bak :: nat
  ps_ma_bak :: "'sp list"

text \<open>\<open>presplitter_init\<close> calls the splitter until there is nothing left, which need not happen.\<close>

partial_function (option) split_all :: "('s \<Rightarrow> ('sp option \<times> 's) option) \<Rightarrow> 's \<Rightarrow> ('sp list \<times> 's) option" where
  "split_all split s =
     (case split s of
        None \<Rightarrow> None
      | Some (None, s') \<Rightarrow> Some ([], s')
      | Some (Some x, s') \<Rightarrow> do { (xs, s'') \<leftarrow> split_all split s'; Some (x # xs, s'') })"

definition presplitter_init :: "('s \<Rightarrow> ('sp option \<times> 's) option) \<Rightarrow> 's \<Rightarrow> ('sp presplitter_state \<times> 's) option" where
  "presplitter_init split arg = do {
     (ma, arg') \<leftarrow> split_all split arg;
     c_assert (length ma > 0);
     Some (\<lparr>ps_ma = ma, ps_idx = 0, ps_nsplits = length ma, ps_nsplits_bak = 0, ps_ma_bak = []\<rparr>, arg')
   }"

definition presplitter :: "'sp presplitter_state \<Rightarrow> 'sp option \<times> 'sp presplitter_state" where
  "presplitter ps =
     (let i = ps_idx ps; ps1 = ps\<lparr>ps_idx := i + 1\<rparr>
      in if i \<ge> ps_nsplits ps then (None, ps1) else (Some (ps_ma ps ! i), ps1))"

definition presplitter_nsplits :: "'sp presplitter_state \<Rightarrow> nat" where
  "presplitter_nsplits ps = ps_nsplits ps"

definition presplitter_prep_sample :: "nat \<Rightarrow> 'sp presplitter_state \<Rightarrow> 'sp presplitter_state option" where
  "presplitter_prep_sample ntasks ps = do {
     c_assert (ntasks \<le> ps_nsplits ps);
     Some (ps\<lparr>ps_ma_bak := take (ps_nsplits ps) (ps_ma ps), ps_nsplits_bak := ps_nsplits ps, ps_nsplits := ntasks\<rparr>)
   }"

definition presplitter_done_sample :: "'sp presplitter_state \<Rightarrow> 'sp presplitter_state" where
  "presplitter_done_sample ps = ps\<lparr>ps_idx := ps_nsplits ps, ps_nsplits := ps_nsplits_bak ps\<rparr>"

definition presplitter_reset :: "'sp presplitter_state \<Rightarrow> 'sp presplitter_state" where
  "presplitter_reset ps = ps\<lparr>ps_idx := 0, ps_nsplits := ps_nsplits_bak ps, ps_ma := ps_ma_bak ps\<rparr>"

section \<open>The store (kvstore.c)\<close>

text \<open>The manager in use, \<open>mgrs[imgr]\<close>; the comparison and key copy functions are already supplied to its functions.\<close>

record ('c, 'o, 'k, 'v) mbkts_mgr =
  mbm_mbks_init :: "nat \<Rightarrow> nat \<Rightarrow> ('c, 'o) bktmgr \<Rightarrow> ('c, 'o) bktmgr"
  mbm_map_put :: "nat \<Rightarrow> 'k \<Rightarrow> 'v \<Rightarrow> nat \<Rightarrow> u32 \<Rightarrow> ('c, 'o) bktmgr \<Rightarrow> ('c, 'o) bktmgr option"
  mbm_do_reduce_task :: "nat \<Rightarrow> ('c, 'o) bktmgr \<times> ('k, 'v) rbkts \<Rightarrow> (('c, 'o) bktmgr \<times> ('k, 'v) rbkts) option"
  mbm_rehash_bak :: "nat \<Rightarrow> ('c, 'o) bktmgr \<Rightarrow> ('c, 'o) bktmgr option"

definition btreebktmgr :: "('k, 'v) app_arg \<Rightarrow> ('k \<Rightarrow> 'k \<Rightarrow> int) \<Rightarrow> ('k \<Rightarrow> nat \<Rightarrow> 'k) option \<Rightarrow>
    (('k, 'v) btree, ('k, 'v) keyvals coll, 'k, 'v) mbkts_mgr" where
  "btreebktmgr app keycmp keycopy = \<lparr>mbm_mbks_init = btm_mbks_init, mbm_map_put = btm_map_put app keycmp keycopy,
     mbm_do_reduce_task = btm_do_reduce_task app keycmp, mbm_rehash_bak = btm_rehash_bak keycmp\<rparr>"

definition arraybktmgr :: "('k, 'v) app_arg \<Rightarrow> ('k \<Rightarrow> 'k \<Rightarrow> int) \<Rightarrow> ('k \<Rightarrow> nat \<Rightarrow> 'k) option \<Rightarrow>
    (('k, 'v) keyvals coll, ('k, 'v) keyvals coll, 'k, 'v) mbkts_mgr" where
  "arraybktmgr app keycmp keycopy = \<lparr>mbm_mbks_init = arm_mbks_init, mbm_map_put = arm_map_put app keycmp keycopy,
     mbm_do_reduce_task = arm_do_reduce_task app keycmp, mbm_rehash_bak = arm_rehash_bak keycmp\<rparr>"

record ('c, 'o, 'k, 'v) kvst =
  kv_mgr :: "('c, 'o) bktmgr"
  kv_rbkts :: "('k, 'v) rbkts"
  kv_nrows :: nat
  has_backup :: bool
  bsampling :: bool
  nkeys_per_mapper :: u64
  npairs_per_mapper :: u64

definition kvst_sample_init :: "('c, 'o, 'k, 'v) mbkts_mgr \<Rightarrow> nat \<Rightarrow> nat \<Rightarrow> ('c, 'o, 'k, 'v) kvst \<Rightarrow> ('c, 'o, 'k, 'v) kvst" where
  "kvst_sample_init M rows cols s =
     (let m = mbm_mbks_init M rows cols (kv_mgr s)
      in s\<lparr>has_backup := False, kv_mgr := m\<lparr>mstates := map (\<lambda>_. mstate_zero) (mstates m)\<rparr>, kv_nrows := rows, bsampling := True\<rparr>)"

definition kvst_map_task_finished :: "nat \<Rightarrow> ('c, 'o, 'k, 'v) kvst \<Rightarrow> ('c, 'o, 'k, 'v) kvst option" where
  "kvst_map_task_finished row s =
     (if bsampling s then map_option (\<lambda>m. s\<lparr>kv_mgr := m\<rparr>) (est_at row est_task_finished (kv_mgr s)) else Some s)"

text \<open>The sums over the mappers that finished a task.  A \<open>uint64_t\<close> is read as an \<open>int\<close> by \<open>est_get_finished\<close>.\<close>

definition est_get_finished :: "mstate_t \<Rightarrow> bool" where
  "est_get_finished m \<longleftrightarrow> ucast (nsampled m) \<noteq> (0 :: u32)"

fun add_estimates :: "u64 \<Rightarrow> mstate_t list \<Rightarrow> u64 \<times> u64 \<times> u64 \<Rightarrow> u64 \<times> u64 \<times> u64" where
  "add_estimates ntotal [] acc = acc"
| "add_estimates ntotal (m # ms) (nvalid, nkeys, npairs) =
     add_estimates ntotal ms
       (if est_get_finished m
        then case est_estimate m ntotal of (k, p) \<Rightarrow> (nvalid + 1, nkeys + k, npairs + p)
        else (nvalid, nkeys, npairs))"

text \<open>The conversion of \<open>ntasks\<close> to \<open>double\<close>: 53 significant bits, ties to even.\<close>

definition dbl_of_u64 :: "u64 \<Rightarrow> nat" where
  "dbl_of_u64 w =
     (let n = unat w; e = floorlog 2 n - 53; m = n div 2 ^ e; r = n mod 2 ^ e
      in (if 2 * r > 2 ^ e \<or> 2 * r = 2 ^ e \<and> odd m then m + 1 else m) * 2 ^ e)"

text \<open>\<open>q < sqrt(d)\<close> for an \<open>int\<close> \<open>q\<close>: the rounded root is above \<open>q\<close> if the exact one is above the middle between \<open>q\<close> and
  the next \<open>double\<close>, which is \<open>(q * 2 ^ e + 1) / 2 ^ e\<close> (and never a root itself, as its square is not an integer).\<close>

definition below_sqrt :: "nat \<Rightarrow> nat \<Rightarrow> bool" where
  "below_sqrt q d \<longleftrightarrow> (let e = 54 - floorlog 2 q in (q * 2 ^ e + 1) * (q * 2 ^ e + 1) < d * 2 ^ (2 * e))"

text \<open>The loop over \<open>int q\<close>, which is undefined when \<open>q\<close> leaves the \<open>int\<close> range: the result is whether a divisor was found.\<close>

function find_divisor :: "u64 \<Rightarrow> nat \<Rightarrow> bool option" where
  "find_divisor n q =
     (if below_sqrt q (dbl_of_u64 n)
      then if n mod of_nat q = 0 then Some True
           else if q < 2 ^ 31 - 1 then find_divisor n (q + 1) else None
      else Some False)"
  by pat_completeness auto
termination by (relation "measure (\<lambda>(n, q). 2 ^ 31 - 1 - q)") auto

declare find_divisor.simps [simp del]

text \<open>\<open>ntasks++\<close> until no divisor is found; \<open>uint64_t\<close> wraps to 0, which has none below its root.\<close>

partial_function (option) next_task_number :: "u64 \<Rightarrow> u64 option" where
  "next_task_number n = do {
     found \<leftarrow> find_divisor n 2;
     if found then next_task_number (n + 1) else Some n
   }"

definition nkeys_per_bkt :: u64 where "nkeys_per_bkt = 10"

text \<open>The result is the number of reduce tasks; the last division is in the arguments of \<open>dprintf\<close>.\<close>

definition kvst_sample_finished :: "u64 \<Rightarrow> ('c, 'o, 'k, 'v) kvst \<Rightarrow> (nat \<times> ('c, 'o, 'k, 'v) kvst) option" where
  "kvst_sample_finished ntotal s =
     (case add_estimates ntotal (take (kv_nrows s) (mstates (kv_mgr s))) (0, nkeys_per_mapper s, npairs_per_mapper s) of
        (nvalid, nkeys, npairs) \<Rightarrow> do {
          c_assert (nvalid \<noteq> 0);
          let s1 = s\<lparr>nkeys_per_mapper := nkeys div nvalid, npairs_per_mapper := npairs div nvalid,
            kv_mgr := mgr_bak (kv_mgr s), has_backup := True\<rparr>;
          ntasks \<leftarrow> next_task_number (nkeys_per_mapper s1 div nkeys_per_bkt);
          c_assert (ntasks \<noteq> 0);
          Some (unat ntasks, s1\<lparr>bsampling := False\<rparr>)
        })"

definition kvst_map_worker_init ::
    "('c, 'o, 'k, 'v) mbkts_mgr \<Rightarrow> ('k, 'v) app_arg \<Rightarrow> nat \<Rightarrow> ('c, 'o, 'k, 'v) kvst \<Rightarrow> ('c, 'o, 'k, 'v) kvst option" where
  "kvst_map_worker_init M app row s =
     (if has_backup s
      then do {
        c_assert (atype app \<noteq> atype_maponly);
        m \<leftarrow> mbm_rehash_bak M row (kv_mgr s);
        Some (s\<lparr>kv_mgr := m\<rparr>)
      }
      else Some s)"

definition kvst_init :: "('c, 'o, 'k, 'v) mbkts_mgr \<Rightarrow> nat \<Rightarrow> nat \<Rightarrow> nat \<Rightarrow> ('c, 'o, 'k, 'v) kvst \<Rightarrow> ('c, 'o, 'k, 'v) kvst" where
  "kvst_init M rows cols nsplits s =
     s\<lparr>kv_nrows := rows, kv_mgr := mbm_mbks_init M rows cols (kv_mgr s), kv_rbkts := rbkts_init nsplits\<rparr>"

definition kvst_map_put ::
    "('c, 'o, 'k, 'v) mbkts_mgr \<Rightarrow> nat \<Rightarrow> 'k \<Rightarrow> 'v \<Rightarrow> nat \<Rightarrow> u32 \<Rightarrow> ('c, 'o, 'k, 'v) kvst \<Rightarrow> ('c, 'o, 'k, 'v) kvst option" where
  "kvst_map_put M row key val keylen hash s =
     map_option (\<lambda>m. s\<lparr>kv_mgr := m\<rparr>) (mbm_map_put M row key val keylen hash (kv_mgr s))"

definition kvst_reduce_do_task ::
    "('c, 'o, 'k, 'v) mbkts_mgr \<Rightarrow> ('k, 'v) app_arg \<Rightarrow> nat \<Rightarrow> ('c, 'o, 'k, 'v) kvst \<Rightarrow> ('c, 'o, 'k, 'v) kvst option" where
  "kvst_reduce_do_task M app col s = do {
     c_assert (atype app \<noteq> atype_maponly);
     (m, R) \<leftarrow> mbm_do_reduce_task M col (kv_mgr s, kv_rbkts s);
     Some (s\<lparr>kv_mgr := m, kv_rbkts := R\<rparr>)
   }"

section \<open>The scheduler (mr-sched.c)\<close>

text \<open>The parameters of a job.  The map function is given by the pairs it emits: key, value and length of the key.\<close>

record ('sp, 'k, 'v) mr_param =
  map_func :: "'sp \<Rightarrow> ('k \<times> 'v \<times> nat) list"
  part_func :: "('k \<Rightarrow> nat \<Rightarrow> u32)"
  nr_cpus :: nat
  app_args :: "('k, 'v) app_arg"

definition default_hasher :: "8 word list \<Rightarrow> nat \<Rightarrow> u32" where
  "default_hasher key key_size =
     ucast (foldl (\<lambda>hash c. (push_bit 5 hash + hash) + ucast (scast c :: u32)) (5381 :: u64) (take key_size key) mod 0xFFFFFFFF)"

definition mr_map_emit ::
    "('c, 'o, 'k, 'v) mbkts_mgr \<Rightarrow> ('sp, 'k, 'v) mr_param \<Rightarrow> nat \<Rightarrow> 'k \<times> 'v \<times> nat \<Rightarrow> ('c, 'o, 'k, 'v) kvst \<Rightarrow>
     ('c, 'o, 'k, 'v) kvst option" where
  "mr_map_emit M P lcpu e s = (case e of (key, val, keylen) \<Rightarrow> kvst_map_put M lcpu key val keylen (part_func P key keylen) s)"

primrec emit_pairs ::
    "('c, 'o, 'k, 'v) mbkts_mgr \<Rightarrow> ('sp, 'k, 'v) mr_param \<Rightarrow> nat \<Rightarrow> ('k \<times> 'v \<times> nat) list \<Rightarrow> ('c, 'o, 'k, 'v) kvst \<Rightarrow>
     ('c, 'o, 'k, 'v) kvst option" where
  "emit_pairs M P lcpu [] s = Some s"
| "emit_pairs M P lcpu (e # es) s = do { s1 \<leftarrow> mr_map_emit M P lcpu e s; emit_pairs M P lcpu es s1 }"

text \<open>One turn of the loop of \<open>mr_map_worker\<close> on the CPU \<open>lcpu\<close>.\<close>

definition map_turn ::
    "('c, 'o, 'k, 'v) mbkts_mgr \<Rightarrow> ('sp, 'k, 'v) mr_param \<Rightarrow> nat \<Rightarrow> 'sp presplitter_state \<times> ('c, 'o, 'k, 'v) kvst \<Rightarrow>
     ('sp presplitter_state \<times> ('c, 'o, 'k, 'v) kvst) option" where
  "map_turn M P lcpu st = (case st of (ps, s) \<Rightarrow>
     (case presplitter ps of
        (None, ps') \<Rightarrow> Some (ps', s)
      | (Some ma, ps') \<Rightarrow> do {
          s1 \<leftarrow> emit_pairs M P lcpu (map_func P ma) s;
          s2 \<leftarrow> kvst_map_task_finished lcpu s1;
          Some (ps', s2)
        }))"

primrec map_turns ::
    "('c, 'o, 'k, 'v) mbkts_mgr \<Rightarrow> ('sp, 'k, 'v) mr_param \<Rightarrow> nat list \<Rightarrow> 'sp presplitter_state \<times> ('c, 'o, 'k, 'v) kvst \<Rightarrow>
     ('sp presplitter_state \<times> ('c, 'o, 'k, 'v) kvst) option" where
  "map_turns M P [] st = Some st"
| "map_turns M P (lcpu # sched) st = do { st1 \<leftarrow> map_turn M P lcpu st; map_turns M P sched st1 }"

text \<open>The map phase: \<open>sched\<close> lists the CPUs in the order in which they take a split.  A CPU works on its own row only, so
  that the tasks of different CPUs may as well run one after the other.\<close>

definition map_phase ::
    "('c, 'o, 'k, 'v) mbkts_mgr \<Rightarrow> ('sp, 'k, 'v) mr_param \<Rightarrow> nat list \<Rightarrow> 'sp presplitter_state \<times> ('c, 'o, 'k, 'v) kvst \<Rightarrow>
     ('sp presplitter_state \<times> ('c, 'o, 'k, 'v) kvst) option" where
  "map_phase M P sched st = (case st of (ps, s) \<Rightarrow> do {
     s1 \<leftarrow> all_cpus (nr_cpus P) (kvst_map_worker_init M (app_args P)) s;
     map_turns M P sched (ps, s1)
   })"

text \<open>The reduce phase: the tasks in the order in which the CPUs take them.\<close>

definition reduce_phase ::
    "('c, 'o, 'k, 'v) mbkts_mgr \<Rightarrow> ('sp, 'k, 'v) mr_param \<Rightarrow> nat \<Rightarrow> ('c, 'o, 'k, 'v) kvst \<Rightarrow> ('c, 'o, 'k, 'v) kvst option" where
  "reduce_phase M P ntasks s = all_cpus ntasks (kvst_reduce_do_task M (app_args P)) s"

text \<open>\<open>mr_run_scheduler\<close> for an application with a reduce phase and a given number of tasks, up to the merge phase.\<close>

definition map_and_reduce ::
    "('c, 'o, 'k, 'v) mbkts_mgr \<Rightarrow> ('sp, 'k, 'v) mr_param \<Rightarrow> nat list \<Rightarrow> 'sp presplitter_state \<Rightarrow> ('c, 'o, 'k, 'v) kvst \<Rightarrow>
     ('sp presplitter_state \<times> ('c, 'o, 'k, 'v) kvst) option" where
  "map_and_reduce M P sched ps s = (let ntasks = tasks (app_args P) in do {
     (ps1, s1) \<leftarrow> map_phase M P sched (ps, kvst_init M (nr_cpus P) ntasks ntasks s);
     s2 \<leftarrow> reduce_phase M P ntasks s1;
     Some (ps1, s2)
   })"

text \<open>\<open>mr_sample\<close>: the number of tasks; \<open>sched\<close> is the schedule of the splits that are sampled.\<close>

definition sample_size :: "nat \<Rightarrow> nat \<Rightarrow> nat" where
  "sample_size ncpus ntotal =
     (let n = 5 * ntotal div 100; n1 = (if n < ncpus then min ncpus ntotal else n) in if n1 = 0 then 1 else n1)"

definition mr_sample ::
    "('c, 'o, 'k, 'v) mbkts_mgr \<Rightarrow> ('sp, 'k, 'v) mr_param \<Rightarrow> nat list \<Rightarrow> 'sp presplitter_state \<times> ('c, 'o, 'k, 'v) kvst \<Rightarrow>
     (nat \<times> 'sp presplitter_state \<times> ('c, 'o, 'k, 'v) kvst) option" where
  "mr_sample M P sched st = (case st of (ps, s) \<Rightarrow> do {
     let ntotal = presplitter_nsplits ps;
     ps1 \<leftarrow> presplitter_prep_sample (sample_size (nr_cpus P) ntotal) ps;
     (ps2, s1) \<leftarrow> map_phase M P sched (ps1, kvst_sample_init M (nr_cpus P) (tasks (app_args P)) s);
     (ntasks, s2) \<leftarrow> kvst_sample_finished (of_nat ntotal) s1;
     Some (ntasks, presplitter_done_sample ps2, s2)
   })"

definition def_sample_reduce_tasks :: nat where "def_sample_reduce_tasks = 10000"
definition def_gr_tasks_per_cpu :: nat where "def_gr_tasks_per_cpu = 16"

text \<open>The part of \<open>mr_setup\<close> that fixes the number of tasks.\<close>

definition fix_tasks ::
    "('c, 'o, 'k, 'v) mbkts_mgr \<Rightarrow> ('sp, 'k, 'v) mr_param \<Rightarrow> nat list \<Rightarrow> 'sp presplitter_state \<times> ('c, 'o, 'k, 'v) kvst \<Rightarrow>
     (('sp, 'k, 'v) mr_param \<times> 'sp presplitter_state \<times> ('c, 'o, 'k, 'v) kvst) option" where
  "fix_tasks M P sched st =
     (let set_tasks = (\<lambda>n. P\<lparr>app_args := (app_args P)\<lparr>tasks := n\<rparr>\<rparr>) in
      if tasks (app_args P) = 0
      then do {
        (ntasks, ps, s) \<leftarrow> mr_sample M (set_tasks def_sample_reduce_tasks) sched st;
        Some (set_tasks (max ntasks (nr_cpus P * def_gr_tasks_per_cpu)), ps, s)
      }
      else Some (P, st))"

section \<open>Running a job on a store\<close>

text \<open>The pairs the map tasks emit into the table: key, value, length of the key and hash.\<close>

definition hashed :: "('sp, 'k, 'v) mr_param \<Rightarrow> ('k \<times> 'v \<times> nat) list \<Rightarrow> ('k \<times> 'v \<times> nat \<times> u32) list" where
  "hashed P = map (\<lambda>(key, val, keylen). (key, val, keylen, part_func P key keylen))"

definition in_col :: "nat \<Rightarrow> nat \<Rightarrow> ('k \<times> 'v \<times> nat \<times> u32) list \<Rightarrow> ('k \<times> 'v \<times> nat \<times> u32) list" where
  "in_col ncols col = filter (\<lambda>(key, val, keylen, hash). unat hash mod ncols = col)"

text \<open>The pairs of the mapper \<open>row\<close>, when \<open>sched\<close> are the CPUs that take the splits.\<close>

definition row_pairs :: "('sp, 'k, 'v) mr_param \<Rightarrow> nat list \<Rightarrow> 'sp list \<Rightarrow> nat \<Rightarrow> ('k \<times> 'v \<times> nat \<times> u32) list" where
  "row_pairs P sched splits row = concat (map (\<lambda>(lcpu, sp). if lcpu = row then hashed P (map_func P sp) else []) (zip sched splits))"

text \<open>The entries of a column at the end of the map phase: for every mapper, its pairs put in order.\<close>

definition map_entries ::
    "('k, 'v) app_arg \<Rightarrow> ('k \<Rightarrow> 'k \<Rightarrow> int) \<Rightarrow> ('k \<Rightarrow> nat \<Rightarrow> 'k) option \<Rightarrow> ('sp, 'k, 'v) mr_param \<Rightarrow> nat list \<Rightarrow> 'sp list \<Rightarrow> nat \<Rightarrow>
     ('k, 'v) entry_t list list" where
  "map_entries app cmp keycopy P sched splits c =
     map (\<lambda>r. put_all app cmp keycopy (in_col (tasks app) c (row_pairs P sched splits r)) []) [0..<nr_cpus P]"

definition splits_left :: "'sp presplitter_state \<Rightarrow> 'sp list" where
  "splits_left ps = drop (ps_idx ps) (take (ps_nsplits ps) (ps_ma ps))"

definition emits_ok :: "('k \<Rightarrow> 'k \<Rightarrow> int) \<Rightarrow> ('k \<Rightarrow> nat \<Rightarrow> 'k) option \<Rightarrow> ('k \<times> 'v \<times> nat) list \<Rightarrow> bool" where
  "emits_ok cmp keycopy es \<longleftrightarrow> (\<forall>(key, val, keylen)\<in>set es. copies_ok cmp keycopy key keylen)"

lemma in_col_simps [simp]: "in_col n c [] = []" "in_col n c (xs @ ys) = in_col n c xs @ in_col n c ys"
  by (simp_all add: in_col_def)

lemma put_all_simps [simp]:
  "put_all app cmp keycopy [] es = es"
  "put_all app cmp keycopy (xs @ ys) es = put_all app cmp keycopy ys (put_all app cmp keycopy xs es)"
  by (simp_all add: put_all_def)

lemma presplitter_left:
  assumes "ps_nsplits ps \<le> length (ps_ma ps)"
  shows "presplitter ps = (case splits_left ps of [] \<Rightarrow> None | sp # _ \<Rightarrow> Some sp, ps\<lparr>ps_idx := ps_idx ps + 1\<rparr>)"
    "splits_left (ps\<lparr>ps_idx := ps_idx ps + 1\<rparr>) = tl (splits_left ps)"
proof -
  show "presplitter ps = (case splits_left ps of [] \<Rightarrow> None | sp # _ \<Rightarrow> Some sp, ps\<lparr>ps_idx := ps_idx ps + 1\<rparr>)"
  proof (cases "ps_idx ps < ps_nsplits ps")
    case True
    then have "splits_left ps = ps_ma ps ! ps_idx ps # drop (Suc (ps_idx ps)) (take (ps_nsplits ps) (ps_ma ps))"
      using assms by (simp add: splits_left_def flip: Cons_nth_drop_Suc)
    then show ?thesis using True by (simp add: presplitter_def Let_def)
  next
    case False
    then show ?thesis by (simp add: presplitter_def splits_left_def Let_def)
  qed
  show "splits_left (ps\<lparr>ps_idx := ps_idx ps + 1\<rparr>) = tl (splits_left ps)"
    by (simp add: splits_left_def drop_Suc tl_drop)
qed

locale job_store = bucket_manager app cmp keycopy "mbm_mbks_init M" "mbm_map_put M" "mbm_do_reduce_task M"
    table_ok mappers rows cols contents
  for M :: "('c, 'o, 'k, 'v) mbkts_mgr" and app cmp keycopy table_ok mappers rows cols contents
begin

definition usable :: "('c, 'o, 'k, 'v) kvst \<Rightarrow> bool" where
  "usable s \<longleftrightarrow> table_ok UNIV (kv_mgr s) \<and> 0 < cols (kv_mgr s)"

text \<open>What a stage that only puts pairs keeps.\<close>

definition same_store :: "('c, 'o, 'k, 'v) kvst \<Rightarrow> ('c, 'o, 'k, 'v) kvst \<Rightarrow> bool" where
  "same_store s s' \<longleftrightarrow> kv_rbkts s' = kv_rbkts s \<and> has_backup s' = has_backup s \<and> bsampling s' = bsampling s \<and>
     rows (kv_mgr s') = rows (kv_mgr s) \<and> cols (kv_mgr s') = cols (kv_mgr s)"

lemma emit_pairs_ok:
  assumes o: "key_order cmp"
  shows "usable s \<Longrightarrow> lcpu < rows (kv_mgr s) \<Longrightarrow> emits_ok cmp keycopy es \<Longrightarrow>
    \<exists>s'. emit_pairs M P lcpu es s = Some s' \<and> usable s' \<and> same_store s s' \<and>
      (\<forall>r k. contents (kv_mgr s') r k = (if r = lcpu
        then put_all app cmp keycopy (in_col (cols (kv_mgr s)) k (hashed P es)) (contents (kv_mgr s) r k)
        else contents (kv_mgr s) r k))"
proof (induction es arbitrary: s)
  case Nil
  then show ?case by (auto simp: hashed_def same_store_def)
next
  case (Cons e es)
  obtain key val keylen where e: "e = (key, val, keylen)" by (cases e)
  let ?h = "part_func P key keylen"
  have c: "copies_ok cmp keycopy key keylen" "emits_ok cmp keycopy es" using Cons.prems(3) by (auto simp: emits_ok_def e)
  have u0: "table_ok UNIV (kv_mgr s)" "0 < cols (kv_mgr s)" using Cons.prems(1) by (auto simp: usable_def)
  obtain m where m: "mbm_map_put M lcpu key val keylen ?h (kv_mgr s) = Some m" "table_ok UNIV m"
    "rows m = rows (kv_mgr s)" "cols m = cols (kv_mgr s)"
    "\<forall>r k. contents m r k = (if r = lcpu \<and> k = unat ?h mod cols (kv_mgr s)
      then put_entry cmp (\<lambda>k vs. add_value app k vs val) key (copied_key keycopy key keylen) ?h (contents (kv_mgr s) r k)
      else contents (kv_mgr s) r k)"
    using put [OF o u0(1) Cons.prems(2) u0(2) c(1), of val ?h] by (elim exE conjE) (rule that)
  let ?s = "s\<lparr>kv_mgr := m\<rparr>"
  have u: "usable ?s" "lcpu < rows (kv_mgr ?s)" using m(2-4) Cons.prems(1,2) by (auto simp: usable_def)
  obtain s' where s': "emit_pairs M P lcpu es ?s = Some s'" "usable s'" "same_store ?s s'"
    "\<forall>r k. contents (kv_mgr s') r k = (if r = lcpu
        then put_all app cmp keycopy (in_col (cols m) k (hashed P es)) (contents m r k) else contents m r k)"
    using Cons.IH [OF u c(2)] by auto
  have "emit_pairs M P lcpu (e # es) s = Some s'" using m(1) s'(1) by (simp add: e mr_map_emit_def kvst_map_put_def)
  moreover have "same_store s s'" using s'(3) m(3,4) by (simp add: same_store_def)
  moreover have "contents (kv_mgr s') r k = (if r = lcpu
        then put_all app cmp keycopy (in_col (cols (kv_mgr s)) k (hashed P (e # es))) (contents (kv_mgr s) r k)
        else contents (kv_mgr s) r k)" for r k
    using s'(4) m(4,5) by (simp add: e hashed_def in_col_def put_all_def)
  ultimately show ?case using s'(2) by blast
qed

lemma map_turns_ok:
  assumes o: "key_order cmp"
  shows "usable s \<Longrightarrow> \<not> bsampling s \<Longrightarrow> \<forall>c\<in>set sched. c < rows (kv_mgr s) \<Longrightarrow> ps_nsplits ps \<le> length (ps_ma ps) \<Longrightarrow>
    \<forall>sp\<in>set (splits_left ps). emits_ok cmp keycopy (map_func P sp) \<Longrightarrow>
    \<exists>ps' s'. map_turns M P sched (ps, s) = Some (ps', s') \<and> usable s' \<and> same_store s s' \<and>
      (\<forall>r k. contents (kv_mgr s') r k =
        put_all app cmp keycopy (in_col (cols (kv_mgr s)) k (row_pairs P sched (splits_left ps) r)) (contents (kv_mgr s) r k))"
proof (induction sched arbitrary: ps s)
  case Nil
  then show ?case by (simp add: row_pairs_def same_store_def)
next
  case (Cons lcpu sched)
  let ?ps = "ps\<lparr>ps_idx := ps_idx ps + 1\<rparr>"
  note left = presplitter_left [OF Cons.prems(4)]
  have sub: "set (tl (splits_left ps)) \<subseteq> set (splits_left ps)" by (cases "splits_left ps") auto
  show ?case
  proof (cases "splits_left ps")
    case Nil
    have "map_turn M P lcpu (ps, s) = Some (?ps, s)" using left(1) Nil by (simp add: map_turn_def)
    moreover have "splits_left ?ps = []" using left(2) Nil by simp
    ultimately show ?thesis using Cons.IH [of s ?ps] Cons.prems Nil by (simp add: row_pairs_def)
  next
    case L: (Cons sp sps)
    have l: "lcpu < rows (kv_mgr s)" "emits_ok cmp keycopy (map_func P sp)" using Cons.prems(3,5) L by auto
    obtain s1 where s1: "emit_pairs M P lcpu (map_func P sp) s = Some s1" "usable s1" "same_store s s1"
      "\<forall>r k. contents (kv_mgr s1) r k = (if r = lcpu
        then put_all app cmp keycopy (in_col (cols (kv_mgr s)) k (hashed P (map_func P sp))) (contents (kv_mgr s) r k)
        else contents (kv_mgr s) r k)"
      using emit_pairs_ok [OF o Cons.prems(1) l] by blast
    have t: "map_turn M P lcpu (ps, s) = Some (?ps, s1)"
      using left(1) L s1(1,3) Cons.prems(2) by (simp add: map_turn_def kvst_map_task_finished_def same_store_def)
    have p: "\<not> bsampling s1" "\<forall>c\<in>set sched. c < rows (kv_mgr s1)" using s1(3) Cons.prems(2,3) by (auto simp: same_store_def)
    have sps: "splits_left ?ps = sps" using left(2) L by simp
    obtain ps' s' where s': "map_turns M P sched (?ps, s1) = Some (ps', s')" "usable s'" "same_store s1 s'"
      "\<forall>r k. contents (kv_mgr s') r k =
        put_all app cmp keycopy (in_col (cols (kv_mgr s1)) k (row_pairs P sched sps r)) (contents (kv_mgr s1) r k)"
      using Cons.IH [OF s1(2) p, of ?ps] Cons.prems(4,5) L unfolding sps by auto
    have "contents (kv_mgr s') r k = put_all app cmp keycopy
        (in_col (cols (kv_mgr s)) k (row_pairs P (lcpu # sched) (splits_left ps) r)) (contents (kv_mgr s) r k)" for r k
      using s'(4) s1(3,4) by (simp add: L row_pairs_def same_store_def)
    moreover have "same_store s s'" using s1(3) s'(3) by (simp add: same_store_def)
    moreover have "map_turns M P (lcpu # sched) (ps, s) = Some (ps', s')" using t s'(1) by simp
    ultimately show ?thesis using s'(2) by blast
  qed
qed

end

section \<open>What a reduce task emits\<close>

definition kv_pair :: "('k, 'v) keyval \<Rightarrow> 'k \<times> 'v" where
  "kv_pair p = (kv_key p, kv_val p)"

definition emitted :: "('k, 'v) app_arg \<Rightarrow> 'k \<times> 'v list \<Rightarrow> ('k \<times> 'v) list" where
  "emitted app g = (if vm app \<noteq> None then [(fst g, hd (snd g))] else reduce_func app (fst g) (snd g))"

definition bucket_pairs :: "('k, 'v) rbkts \<Rightarrow> nat \<Rightarrow> ('k \<times> 'v) list" where
  "bucket_pairs R col = map kv_pair (c_elems (rb_kv R ! col))"

text \<open>The state of the buckets of the other tasks does not change.\<close>

definition appends :: "nat \<Rightarrow> ('k \<times> 'v) list \<Rightarrow> ('k, 'v) rbkts \<Rightarrow> ('k, 'v) rbkts \<Rightarrow> bool" where
  "appends col ps R R' \<longleftrightarrow> length (rb_kv R') = length (rb_kv R) \<and> (\<forall>i<length (rb_kv R). room_ok (rb_kv R' ! i)) \<and>
     bucket_pairs R' col = bucket_pairs R col @ ps \<and> (\<forall>i<length (rb_kv R). i \<noteq> col \<longrightarrow> bucket_pairs R' i = bucket_pairs R i)"

definition rb_ready :: "('k, 'v) rbkts \<Rightarrow> bool" where
  "rb_ready R \<longleftrightarrow> (\<forall>i<length (rb_kv R). room_ok (rb_kv R ! i))"

lemma appends_ready: "appends col ps R R' \<Longrightarrow> rb_ready R'"
  by (simp add: appends_def rb_ready_def)

lemma appends_trans: "appends col ps R R' \<Longrightarrow> appends col qs R' R'' \<Longrightarrow> appends col (ps @ qs) R R''"
  by (simp add: appends_def)

lemma rbkts_emit_kv_appends:
  assumes "rb_ready R" "col < length (rb_kv R)"
  shows "\<exists>R'. rbkts_emit_kv col k v R = Some R' \<and> appends col [(k, v)] R R'"
proof -
  have "room_ok (rb_kv R ! col)" using assms by (simp add: rb_ready_def)
  from checkfull_ok [OF this] obtain c1 where c1: "checkfull (rb_kv R ! col) = Some c1" "c_elems c1 = c_elems (rb_kv R ! col)"
    "length (c_elems (rb_kv R ! col)) < c_alloc c1" "\<not> c_null c1" by blast
  show ?thesis
    using assms c1 by (auto simp: rbkts_emit_kv_def kvarr_insert_kv_def copied_key_def appends_def bucket_pairs_def kv_pair_def
      room_ok_def rb_ready_def nth_list_update)
qed

lemma emit_all_appends:
  "rb_ready R \<Longrightarrow> col < length (rb_kv R) \<Longrightarrow> \<exists>R'. emit_all col ps R = Some R' \<and> appends col ps R R'"
proof (induction ps arbitrary: R)
  case Nil
  then show ?case by (simp add: appends_def rb_ready_def)
next
  case (Cons p ps)
  obtain R1 where R1: "rbkts_emit_kv col (fst p) (snd p) R = Some R1" "appends col [p] R R1"
    using rbkts_emit_kv_appends [OF Cons.prems, of "fst p" "snd p"] by auto
  have "col < length (rb_kv R1)" using R1(2) Cons.prems(2) by (simp add: appends_def)
  from Cons.IH [OF appends_ready [OF R1(2)] this] obtain R2 where "emit_all col ps R1 = Some R2" "appends col ps R1 R2" by blast
  then show ?case using R1 appends_trans [OF R1(2), of ps R2] by auto
qed

lemma emit_groups_appends:
  assumes t: "atype app = atype_mapreduce"
  shows "rb_ready R \<Longrightarrow> col < length (rb_kv R) \<Longrightarrow> vm app \<noteq> None \<longrightarrow> (\<forall>g\<in>set gs. snd g \<noteq> []) \<Longrightarrow>
    \<exists>R'. emit_groups app col gs R = Some R' \<and> appends col (concat (map (emitted app) gs)) R R'"
proof (induction gs arbitrary: R)
  case Nil
  then show ?case by (simp add: appends_def rb_ready_def)
next
  case (Cons g gs)
  have "\<exists>R1 a. emit_group app col \<lparr>kvs_key = fst g, kvs_vals = snd g, kvs_alloc = 0, kvs_hash = 0\<rparr> R = Some (a, R1) \<and>
    appends col (emitted app g) R R1"
  proof (cases "vm app")
    case None
    then show ?thesis using emit_all_appends [OF Cons.prems(1,2), of "reduce_func app (fst g) (snd g)"] t
      by (auto simp: emit_group_def emitted_def)
  next
    case (Some f)
    then obtain v vs where "snd g = v # vs" using Cons.prems(3) by (cases "snd g") auto
    then show ?thesis using rbkts_emit_kv_appends [OF Cons.prems(1,2), of "fst g" v] t Some
      by (auto simp: emit_group_def emitted_def)
  qed
  then obtain R1 a where R1: "emit_group app col \<lparr>kvs_key = fst g, kvs_vals = snd g, kvs_alloc = 0, kvs_hash = 0\<rparr> R = Some (a, R1)"
    "appends col (emitted app g) R R1" by blast
  have "col < length (rb_kv R1)" using R1(2) Cons.prems(2) by (simp add: appends_def)
  from Cons.IH [OF appends_ready [OF R1(2)] this] Cons.prems(3) obtain R2 where
    "emit_groups app col gs R1 = Some R2" "appends col (concat (map (emitted app) gs)) R1 R2" by auto
  then show ?case using R1(1) appends_trans [OF R1(2)] by auto
qed

section \<open>One value per key under a value modifier\<close>

lemma vals_ok_put_entry:
  assumes "\<And>k vs. app_vm app \<noteq> None \<Longrightarrow> length (add k vs) = 1"
  shows "vals_ok app es \<Longrightarrow> vals_ok app (put_entry cmp add key new hash es)"
  using assms by (induction es) (auto simp: vals_ok_def)

lemma vals_ok_put_all: "vals_ok app es \<Longrightarrow> vals_ok app (put_all app cmp keycopy xs es)"
proof (induction xs arbitrary: es)
  case (Cons x xs)
  obtain key val keylen hash where x: "x = (key, val, keylen, hash)" by (cases x)
  have "vals_ok app (put_entry cmp (\<lambda>k vs. add_value app k vs val) key (copied_key keycopy key keylen) hash es)"
    using Cons.prems by (intro vals_ok_put_entry) (auto simp: add_value_def)
  then show ?case using Cons.IH by (simp add: put_all_def x)
qed simp

lemma merge_vals_nonempty: "vs \<noteq> [] \<Longrightarrow> merge_vals app acc vs \<noteq> []"
  by (auto simp: merge_vals_def split: option.split)

lemma foldl_merge_nonempty: "acc \<noteq> [] \<or> (\<exists>vs\<in>set vss. vs \<noteq> []) \<Longrightarrow> foldl (merge_vals app) acc vss \<noteq> []"
proof (induction vss arbitrary: acc)
  case (Cons vs vss)
  have "merge_vals app acc vs \<noteq> []" if "acc \<noteq> []" using that by (auto simp: merge_vals_def split: option.split)
  then show ?case using Cons merge_vals_nonempty [of vs app acc] by auto
qed simp

lemma groups_nonempty:
  assumes o: "key_order cmp" and g: "groups_of app cmp ess gs" "g \<in> set gs"
    and v: "\<forall>es\<in>set ess. vals_ok app es" "app_vm app \<noteq> None"
  shows "snd g \<noteq> []"
proof -
  have "\<exists>g'\<in>set gs. cmp (fst g) (fst g') = 0" using g(2) key_order.cmp_refl [OF o] by blast
  then obtain es e where e: "es \<in> set ess" "e \<in> set es" "cmp (fst g) (fst e) = 0" using g(1) by (auto simp: groups_of_def)
  then obtain e' where e': "find (\<lambda>e. cmp (fst g) (fst e) = 0) es = Some e'" "e' \<in> set es"
    by (metis (mono_tags, lifting) find_None_iff find_Some_iff not_None_eq nth_mem)
  have "length (fst (snd e')) = 1" using v e(1) e'(2) by (auto simp: vals_ok_def)
  then have n: "lookup_values cmp es (fst g) = Some (fst (snd e'))" "fst (snd e') \<noteq> []"
    using e'(1) by (auto simp: lookup_values_def)
  have "fst (snd e') \<in> set (List.map_filter (\<lambda>es. lookup_values cmp es (fst g)) ess)"
    using n(1) e(1) by (force simp: List.map_filter_def)
  then have "group_values app cmp ess (fst g) \<noteq> []" unfolding group_values_def using n(2) by (intro foldl_merge_nonempty) blast
  then show ?thesis using g by (simp add: groups_of_def)
qed

section \<open>The reduce phase\<close>

context job_store
begin

definition col_entries :: "('c, 'o) bktmgr \<Rightarrow> nat \<Rightarrow> ('k, 'v) entry_t list list" where
  "col_entries m col = map (\<lambda>r. contents m r col) [0..<rows m]"

text \<open>After the first \<open>k\<close> of \<open>n\<close> tasks, which started in \<open>s\<close>.\<close>

definition reduced :: "('c, 'o, 'k, 'v) kvst \<Rightarrow> nat \<Rightarrow> nat \<Rightarrow> ('k \<times> 'v list) list list \<Rightarrow> ('c, 'o, 'k, 'v) kvst \<Rightarrow> bool" where
  "reduced s n k gss s' \<longleftrightarrow> table_ok {k..} (kv_mgr s') \<and> rows (kv_mgr s') = rows (kv_mgr s) \<and> cols (kv_mgr s') = n \<and>
     (\<forall>r c. k \<le> c \<longrightarrow> contents (kv_mgr s') r c = contents (kv_mgr s) r c) \<and>
     length gss = k \<and> (\<forall>c<k. groups_of app cmp (col_entries (kv_mgr s) c) (gss ! c)) \<and>
     length (rb_kv (kv_rbkts s')) = n \<and> rb_ready (kv_rbkts s') \<and>
     (\<forall>c<n. bucket_pairs (kv_rbkts s') c = (if c < k then concat (map (emitted app) (gss ! c)) else []))"

lemma reduce_tasks_ok:
  assumes o: "key_order cmp" and t: "atype app = atype_mapreduce" and start: "reduced s n 0 [] s"
    and v: "\<forall>r<rows (kv_mgr s). \<forall>c<n. vals_ok app (contents (kv_mgr s) r c)"
  shows "k \<le> n \<Longrightarrow> \<exists>s' gss. all_cpus k (kvst_reduce_do_task M app) s = Some s' \<and> reduced s n k gss s'"
proof (induction k)
  case 0
  then show ?case using start by (auto simp: all_cpus_def)
next
  case (Suc k)
  then obtain s1 gss where s1: "all_cpus k (kvst_reduce_do_task M app) s = Some s1" "reduced s n k gss s1" by auto
  note d = s1(2) [unfolded reduced_def]
  let ?m = "kv_mgr s1" and ?R = "kv_rbkts s1"
  have ok: "table_ok {k..} ?m" "k < cols ?m" "k \<in> {k..}" "k < length (rb_kv ?R)" "rb_ready ?R" using d Suc.prems by auto
  have ce: "map (\<lambda>r. contents ?m r k) [0..<rows ?m] = col_entries (kv_mgr s) k" using d by (simp add: col_entries_def)
  have vk: "\<forall>r<rows ?m. vals_ok app (contents ?m r k)" using v d Suc.prems by auto
  obtain gs where gs: "groups_of app cmp (col_entries (kv_mgr s) k) gs"
    "case emit_groups app k gs ?R of
       None \<Rightarrow> mbm_do_reduce_task M k (?m, ?R) = None
     | Some R' \<Rightarrow> \<exists>m'. mbm_do_reduce_task M k (?m, ?R) = Some (m', R') \<and> table_ok ({k..} - {k}) m' \<and> rows m' = rows ?m \<and>
         cols m' = cols ?m \<and> (\<forall>r c. c \<noteq> k \<longrightarrow> contents m' r c = contents ?m r c)"
    using reduce [OF o ok(1-3) vk, of ?R] unfolding ce by blast
  have "\<forall>es\<in>set (col_entries (kv_mgr s) k). vals_ok app es" using vk ce by (auto simp flip: ce)
  then have "vm app \<noteq> None \<longrightarrow> (\<forall>g\<in>set gs. snd g \<noteq> [])"
    using groups_nonempty [OF o gs(1)] t by (auto simp: app_vm_def)
  from emit_groups_appends [OF t ok(5,4) this] obtain R' where R': "emit_groups app k gs ?R = Some R'"
    "appends k (concat (map (emitted app) gs)) ?R R'" by blast
  obtain m' where m': "mbm_do_reduce_task M k (?m, ?R) = Some (m', R')" "table_ok ({k..} - {k}) m'" "rows m' = rows ?m"
    "cols m' = cols ?m" "\<forall>r c. c \<noteq> k \<longrightarrow> contents m' r c = contents ?m r c" using gs(2) R'(1) by auto
  let ?s = "s1\<lparr>kv_mgr := m', kv_rbkts := R'\<rparr>"
  have "{k..} - {k} = {Suc k..}" by auto
  then have "reduced s n (Suc k) (gss @ [gs]) ?s"
    unfolding reduced_def using d m'(2-5) gs(1) R'(2) appends_ready [OF R'(2)] ok(4)
    by (auto simp: nth_append less_Suc_eq appends_def)
  moreover have "all_cpus (Suc k) (kvst_reduce_do_task M app) s = Some ?s"
    using s1(1) m'(1) t by (simp add: all_cpus_Suc kvst_reduce_do_task_def c_assert_def)
  ultimately show ?case by blast
qed

section \<open>Map and reduce\<close>

lemma worker_init_idle:
  "\<not> has_backup s \<Longrightarrow> all_cpus n (kvst_map_worker_init M a) s = Some s"
  by (induction n) (simp_all add: all_cpus_def kvst_map_worker_init_def)

lemma map_and_reduce_ok:
  assumes o: "key_order cmp" and app: "app_args P = app" "atype app = atype_mapreduce" "0 < tasks app"
    and s: "nr_cpus P \<le> mappers (kv_mgr s)" "\<not> has_backup s" "\<not> bsampling s"
    and ps: "ps_nsplits ps \<le> length (ps_ma ps)" "\<forall>sp\<in>set (splits_left ps). emits_ok cmp keycopy (map_func P sp)"
    and sched: "\<forall>c\<in>set sched. c < nr_cpus P"
  shows "\<exists>ps' s' gss. map_and_reduce M P sched ps s = Some (ps', s') \<and> length gss = tasks app \<and>
    (\<forall>c<tasks app. groups_of app cmp (map_entries app cmp keycopy P sched (splits_left ps) c) (gss ! c)) \<and>
    length (rb_kv (kv_rbkts s')) = tasks app \<and> rb_ready (kv_rbkts s') \<and>
    (\<forall>c<tasks app. bucket_pairs (kv_rbkts s') c = concat (map (emitted app) (gss ! c)))"
proof -
  let ?n = "tasks app"
  let ?s0 = "kvst_init M (nr_cpus P) ?n ?n s"
  note i = init [OF s(1), of _ ?n]
  have u: "usable ?s0" using i app(3) by (simp add: usable_def kvst_init_def)
  have f: "\<not> has_backup ?s0" "\<not> bsampling ?s0" "rows (kv_mgr ?s0) = nr_cpus P" "cols (kv_mgr ?s0) = ?n"
    "\<And>r k. contents (kv_mgr ?s0) r k = []" "kv_rbkts ?s0 = rbkts_init ?n" using s(2,3) i by (simp_all add: kvst_init_def)
  have sc: "\<forall>c\<in>set sched. c < rows (kv_mgr ?s0)" using sched f(3) by simp
  obtain ps1 s1 where m: "map_turns M P sched (ps, ?s0) = Some (ps1, s1)" "usable s1" "same_store ?s0 s1"
    "\<forall>r k. contents (kv_mgr s1) r k = put_all app cmp keycopy (in_col ?n k (row_pairs P sched (splits_left ps) r)) []"
    using map_turns_ok [OF o u f(2) sc ps] unfolding f(4,5) by blast
  have ready: "rb_ready (rbkts_init ?n)" by (simp add: rb_ready_def rbkts_init_def room_ok_def coll_init_def)
  have "table_ok {0..} (kv_mgr s1)" using m(2) by (simp add: usable_def)
  then have start: "reduced s1 ?n 0 [] s1"
    using m(3) f ready by (auto simp: reduced_def same_store_def bucket_pairs_def rbkts_init_def coll_init_def)
  have "\<forall>r<rows (kv_mgr s1). \<forall>c<?n. vals_ok app (contents (kv_mgr s1) r c)"
    using m(4) vals_ok_put_all [of app "[]"] by (simp add: vals_ok_def)
  from reduce_tasks_ok [OF o app(2) start this order_refl] obtain s2 gss where r:
    "all_cpus ?n (kvst_reduce_do_task M app) s1 = Some s2" "reduced s1 ?n ?n gss s2" by blast
  have "map_and_reduce M P sched ps s = Some (ps1, s2)"
    using m(1) r(1) worker_init_idle [OF f(1)] app(1) by (simp add: map_and_reduce_def map_phase_def reduce_phase_def Let_def)
  moreover have "col_entries (kv_mgr s1) c = map_entries app cmp keycopy P sched (splits_left ps) c" for c
    using m(3,4) f(3) by (simp add: col_entries_def map_entries_def same_store_def)
  ultimately show ?thesis using r(2) by (intro exI [of _ ps1] exI [of _ s2] exI [of _ gss]) (auto simp: reduced_def)
qed

end

section \<open>The stores of the program\<close>

interpretation btree_store: job_store "btreebktmgr app cmp keycopy" app cmp keycopy "mgr_ok (bt_ok cmp)" "\<lambda>st. length (mstates st)"
    "\<lambda>st. map_rows (mapper st)" "\<lambda>st. map_cols (mapper st)" "\<lambda>st. bucket_entries bt_entries (mapper st)"
  for app :: "('k, 'v) app_arg" and cmp and keycopy
  unfolding job_store_def btreebktmgr_def by simp (rule btreemgr.bucket_manager_axioms)

interpretation array_store: job_store "arraybktmgr app cmp keycopy" app cmp keycopy "mgr_ok (kvsarr_ok cmp)" "\<lambda>st. length (mstates st)"
    "\<lambda>st. map_rows (mapper st)" "\<lambda>st. map_cols (mapper st)" "\<lambda>st. bucket_entries kvsarr_entries (mapper st)"
  for app :: "('k, 'v) app_arg" and cmp and keycopy
  unfolding job_store_def arraybktmgr_def by simp (rule arraymgr.bucket_manager_axioms)

section \<open>A whole job\<close>

text \<open>\<open>mr_run_scheduler\<close> for an application with a reduce function, with the result \<open>app_set_final_results\<close> hands over:
  the pairs of bucket 0.  \<open>sched0\<close> and \<open>sched\<close> are the schedules of sampling and of the map phase.\<close>

definition mr_run_scheduler ::
    "('c, 'o, 'k, 'v) mbkts_mgr \<Rightarrow>
     ((('k, 'v) keyval \<Rightarrow> ('k, 'v) keyval \<Rightarrow> int) \<Rightarrow> ('k, 'v) keyval list \<Rightarrow> ('k, 'v) keyval list) \<Rightarrow> ('k \<Rightarrow> 'k \<Rightarrow> int) \<Rightarrow>
     ('sp, 'k, 'v) mr_param \<Rightarrow> nat list \<Rightarrow> nat list \<Rightarrow> 'sp presplitter_state \<times> ('c, 'o, 'k, 'v) kvst \<Rightarrow> ('k, 'v) keyval list option" where
  "mr_run_scheduler M qs keycmp P sched0 sched st = do {
     (P1, ps, s) \<leftarrow> fix_tasks M P sched0 st;
     (ps1, s1) \<leftarrow> map_and_reduce M P1 sched ps s;
     let app = app_args P1;
     rbkts \<leftarrow> merge_phase True qs (rbkts_pair_cmp (kv_outcmp app) keycmp kv_key) (nr_cpus P1) (tasks app) (rb_kv (kv_rbkts s1));
     bucket \<leftarrow> nth_opt rbkts 0;
     Some (c_elems bucket)
   }"

text \<open>What \<open>qsort\<close> does with a comparison that is a total preorder.\<close>

definition sorts :: "(('p \<Rightarrow> 'p \<Rightarrow> int) \<Rightarrow> 'p list \<Rightarrow> 'p list) \<Rightarrow> ('p \<Rightarrow> 'p \<Rightarrow> int) \<Rightarrow> bool" where
  "sorts qs pcmp \<longleftrightarrow> (\<forall>ps. mset (qs pcmp ps) = mset ps \<and> ordered pcmp (qs pcmp ps))"

text \<open>A store before a job: no tables to be rehashed, no sampling, room for the mappers.\<close>

definition idle :: "nat \<Rightarrow> ('c, 'o, 'k, 'v) kvst \<Rightarrow> bool" where
  "idle ncpus s \<longleftrightarrow> ncpus \<le> length (mstates (kv_mgr s)) \<and> \<not> has_backup s \<and> \<not> bsampling s"

text \<open>The pairs the map tasks of a job emit are acceptable, and the schedule names its CPUs.\<close>

definition job_ok :: "('k \<Rightarrow> 'k \<Rightarrow> int) \<Rightarrow> ('k \<Rightarrow> nat \<Rightarrow> 'k) option \<Rightarrow> ('sp, 'k, 'v) mr_param \<Rightarrow> nat list \<Rightarrow> 'sp presplitter_state \<Rightarrow> bool" where
  "job_ok cmp keycopy P sched ps \<longleftrightarrow> atype (app_args P) = atype_mapreduce \<and> 0 < tasks (app_args P) \<and>
     ps_nsplits ps \<le> length (ps_ma ps) \<and> (\<forall>sp\<in>set (splits_left ps). emits_ok cmp keycopy (map_func P sp)) \<and>
     (\<forall>c\<in>set sched. c < nr_cpus P)"

text \<open>The groups of a job, column by column, and the pairs that are emitted for them.\<close>

definition job_groups ::
    "('k \<Rightarrow> 'k \<Rightarrow> int) \<Rightarrow> ('k \<Rightarrow> nat \<Rightarrow> 'k) option \<Rightarrow> ('sp, 'k, 'v) mr_param \<Rightarrow> nat list \<Rightarrow> 'sp list \<Rightarrow> ('k \<times> 'v list) list list \<Rightarrow> bool" where
  "job_groups cmp keycopy P sched splits gss \<longleftrightarrow> length gss = tasks (app_args P) \<and>
     (\<forall>c<tasks (app_args P). groups_of (app_args P) cmp (map_entries (app_args P) cmp keycopy P sched splits c) (gss ! c))"

definition job_pairs :: "('k, 'v) app_arg \<Rightarrow> ('k \<times> 'v list) list list \<Rightarrow> ('k \<times> 'v) list" where
  "job_pairs app gss = concat (map (\<lambda>gs. concat (map (emitted app) gs)) gss)"

lemma merge_few_buckets:
  assumes q: "sorts qs pcmp" and n: "few_pairs ncpus cs" "cs \<noteq> []" and r: "\<forall>c\<in>set cs. room_ok c"
  shows "\<exists>cs'. merge_phase True qs pcmp ncpus ns cs = Some cs' \<and> cs' \<noteq> [] \<and>
    mset (c_elems (cs' ! 0)) = mset (concat (map c_elems cs)) \<and> ordered pcmp (c_elems (cs' ! 0))"
proof -
  have "\<forall>c\<in>set cs. free_ok c" using r by (auto simp: room_ok_def free_ok_def)
  from psrs_few [OF n this, of qs pcmp] obtain cs' where "psrs_sort qs pcmp ncpus cs = Some cs'" "length cs' = length cs"
    "c_elems (cs' ! 0) = qs pcmp (concat (map c_elems cs))" by blast
  then show ?thesis using q n(2) by (auto simp: merge_phase_def rbkts_merge_def sorts_def)
qed

text \<open>The result from the buckets.\<close>

lemma job_result:
  assumes o: "key_order cmp" and app: "app_args P = app" and job: "job_ok cmp keycopy P sched ps"
    and m: "map_and_reduce M P sched ps s = Some (ps', s')" and g: "length gss = tasks app"
    and b: "length (rb_kv (kv_rbkts s')) = tasks app" "rb_ready (kv_rbkts s')"
      "\<forall>c<tasks app. bucket_pairs (kv_rbkts s') c = concat (map (emitted app) (gss ! c))"
    and q: "sorts qs (rbkts_pair_cmp (kv_outcmp app) cmp kv_key)"
    and n: "nr_cpus P = 1 \<or> length (job_pairs app gss) < nr_cpus P * nr_cpus P * nr_cpus P"
  shows "\<exists>out. mr_run_scheduler M qs cmp P sched0 sched (ps, s) = Some out \<and> mset (map kv_pair out) = mset (job_pairs app gss) \<and>
    ordered (rbkts_pair_cmp (kv_outcmp app) cmp kv_key) out"
proof -
  let ?cs = "rb_kv (kv_rbkts s')" and ?pcmp = "rbkts_pair_cmp (kv_outcmp app) cmp kv_key"
  have t: "0 < tasks app" using job app by (simp add: job_ok_def)
  have "map (\<lambda>c. map kv_pair (c_elems c)) ?cs = map (\<lambda>gs. concat (map (emitted app) gs)) gss"
    using g b(1,3) by (auto simp: bucket_pairs_def intro!: nth_equalityI)
  then have pairs: "map kv_pair (concat (map c_elems ?cs)) = job_pairs app gss"
    by (simp add: job_pairs_def map_concat comp_def del: map_eq_conv)
  have "sum_list (map pch_get_len ?cs) = length (map kv_pair (concat (map c_elems ?cs)))"
    by (simp add: pch_get_len_def [abs_def] length_concat comp_def)
  then have few: "few_pairs (nr_cpus P) ?cs" using n unfolding pairs by (simp add: few_pairs_def)
  have room: "?cs \<noteq> []" "\<forall>c\<in>set ?cs. room_ok c" using t b(1,2) by (auto simp: rb_ready_def in_set_conv_nth)
  obtain cs' where cs': "merge_phase True qs ?pcmp (nr_cpus P) (tasks app) ?cs = Some cs'" "cs' \<noteq> []"
    "mset (c_elems (cs' ! 0)) = mset (concat (map c_elems ?cs))" "ordered ?pcmp (c_elems (cs' ! 0))"
    using merge_few_buckets [OF q few room] by blast
  have "mr_run_scheduler M qs cmp P sched0 sched (ps, s) = Some (c_elems (cs' ! 0))"
    using t m cs'(1,2) app by (simp add: mr_run_scheduler_def fix_tasks_def Let_def nth_opt_def)
  moreover have "mset (map kv_pair (c_elems (cs' ! 0))) = mset (job_pairs app gss)"
    using arg_cong [OF cs'(3), of "image_mset kv_pair"] arg_cong [OF pairs, of mset] by simp
  ultimately show ?thesis using cs'(4) by blast
qed

context job_store
begin

lemma store_job:
  assumes o: "key_order cmp" and app: "app_args P = app" and job: "job_ok cmp keycopy P sched ps"
    and s: "nr_cpus P \<le> mappers (kv_mgr s)" "\<not> has_backup s" "\<not> bsampling s"
    and q: "sorts qs (rbkts_pair_cmp (kv_outcmp app) cmp kv_key)"
  shows "\<exists>ps' s' gss. map_and_reduce M P sched ps s = Some (ps', s') \<and>
    job_groups cmp keycopy P sched (splits_left ps) gss \<and>
    (\<forall>c<tasks app. bucket_pairs (kv_rbkts s') c = concat (map (emitted app) (gss ! c))) \<and>
    (nr_cpus P = 1 \<or> length (job_pairs app gss) < nr_cpus P * nr_cpus P * nr_cpus P \<longrightarrow>
      (\<exists>out. mr_run_scheduler M qs cmp P sched0 sched (ps, s) = Some out \<and> mset (map kv_pair out) = mset (job_pairs app gss) \<and>
        ordered (rbkts_pair_cmp (kv_outcmp app) cmp kv_key) out))"
proof -
  have j: "atype app = atype_mapreduce" "0 < tasks app" "ps_nsplits ps \<le> length (ps_ma ps)"
    "\<forall>sp\<in>set (splits_left ps). emits_ok cmp keycopy (map_func P sp)" "\<forall>c\<in>set sched. c < nr_cpus P"
    using job app by (auto simp: job_ok_def)
  obtain ps' s' gss where m: "map_and_reduce M P sched ps s = Some (ps', s')" "length gss = tasks app"
    "\<forall>c<tasks app. groups_of app cmp (map_entries app cmp keycopy P sched (splits_left ps) c) (gss ! c)"
    "length (rb_kv (kv_rbkts s')) = tasks app" "rb_ready (kv_rbkts s')"
    "\<forall>c<tasks app. bucket_pairs (kv_rbkts s') c = concat (map (emitted app) (gss ! c))"
    using map_and_reduce_ok [OF o app j(1,2) s j(3-5)] by (elim exE conjE) (rule that)
  show ?thesis
    using job_result [OF o app job m(1,2,4-6) q] m(1-3,6) app
    by (intro exI [of _ ps'] exI [of _ s'] exI [of _ gss]) (auto simp: job_groups_def)
qed

end

lemma btree_job:
  fixes s :: "(('k, 'v) btree, ('k, 'v) keyvals coll, 'k, 'v) kvst"
  assumes "key_order cmp" and "job_ok cmp keycopy P sched ps" and "idle (nr_cpus P) s"
    and "sorts qs (rbkts_pair_cmp (kv_outcmp (app_args P)) cmp kv_key)"
  shows "\<exists>gss. job_groups cmp keycopy P sched (splits_left ps) gss \<and>
    (nr_cpus P = 1 \<or> length (job_pairs (app_args P) gss) < nr_cpus P * nr_cpus P * nr_cpus P \<longrightarrow>
      (\<exists>out. mr_run_scheduler (btreebktmgr (app_args P) cmp keycopy) qs cmp P sched0 sched (ps, s) = Some out \<and>
        mset (map kv_pair out) = mset (job_pairs (app_args P) gss) \<and>
        ordered (rbkts_pair_cmp (kv_outcmp (app_args P)) cmp kv_key) out))"
proof -
  have "nr_cpus P \<le> length (mstates (kv_mgr s))" "\<not> has_backup s" "\<not> bsampling s" using assms(3) by (simp_all add: idle_def)
  from btree_store.store_job [OF assms(1) refl assms(2) this assms(4)] show ?thesis by blast
qed

end
