(* ===== verification/MT_Apps.thy ===== *)
theory MT_Apps
  imports MT_Base
begin

text \<open>
  The comparison functions of the applications of Metis (\<open>src/hermit/apps/metis/app\<close>), all of which meet what the
  library expects of them.  A key is what the pointer stands for: the number itself, the number it points to, or the
  bytes of the string before its terminating NUL.
\<close>

section \<open>Comparison functions of the applications\<close>

definition three_way :: "int \<Rightarrow> int \<Rightarrow> int" where
  "three_way a b = (if a < b then -1 else if a > b then 1 else 0)"

lemma three_way_sign:
  "three_way a b < 0 \<longleftrightarrow> a < b" "0 < three_way a b \<longleftrightarrow> b < a" "three_way a b = 0 \<longleftrightarrow> a = b" "three_way a b \<le> 0 \<longleftrightarrow> a \<le> b"
  by (auto simp: three_way_def)

text \<open>\<open>intkeycmp\<close> puts the larger number first.\<close>

definition intkeycmp :: "64 word \<Rightarrow> 64 word \<Rightarrow> int" where
  "intkeycmp v1 v2 = (let i1 = sint v1; i2 = sint v2 in if i1 < i2 then 1 else if i1 > i2 then -1 else 0)"

definition myshortcmp :: "16 word \<Rightarrow> 16 word \<Rightarrow> int" where
  "myshortcmp s1 s2 = (let val1 = sint s1; val2 = sint s2 in if val1 < val2 then -1 else if val1 > val2 then 1 else 0)"

definition mykeycmp :: "32 word \<Rightarrow> 32 word \<Rightarrow> int" where
  "mykeycmp s1 s2 = (if sint s1 < sint s2 then -1 else if sint s1 > sint s2 then 1 else 0)"

definition mymeancmp :: "32 word \<Rightarrow> 32 word \<Rightarrow> int" where
  "mymeancmp k1 k2 = (if sint k1 < sint k2 then -1 else if sint k1 > sint k2 then 1 else 0)"

record mm_key_t =
  x_loc :: "32 word"
  y_loc :: "32 word"

definition myintcmp :: "mm_key_t \<Rightarrow> mm_key_t \<Rightarrow> int" where
  "myintcmp key1 key2 =
     (if sint (x_loc key1) < sint (x_loc key2) then -1
      else if sint (x_loc key1) > sint (x_loc key2) then 1
      else if sint (y_loc key1) < sint (y_loc key2) then -1
      else if sint (y_loc key1) > sint (y_loc key2) then 1 else 0)"

record pca_cov_loc_t =
  start_row :: "32 word"
  cov_row :: "32 word"

definition mycovcmp :: "pca_cov_loc_t \<Rightarrow> pca_cov_loc_t \<Rightarrow> int" where
  "mycovcmp k1 k2 =
     (if sint (start_row k1) < sint (start_row k2) then -1
      else if sint (start_row k1) > sint (start_row k2) then 1
      else if sint (cov_row k1) < sint (cov_row k2) then -1
      else if sint (cov_row k1) > sint (cov_row k2) then 1 else 0)"

text \<open>\<open>strcmp\<close> compares unsigned characters; the library function only promises the sign of the result.\<close>

fun strcmp :: "8 word list \<Rightarrow> 8 word list \<Rightarrow> int" where
  "strcmp [] [] = 0"
| "strcmp [] (c # cs) = -1"
| "strcmp (c # cs) [] = 1"
| "strcmp (c # cs) (d # ds) = (if c = d then strcmp cs ds else if c < d then -1 else 1)"

text \<open>\<open>mystrcmp\<close> of \<open>wc.c\<close> and \<open>string\_match.c\<close>.\<close>

definition mystrcmp :: "8 word list \<Rightarrow> 8 word list \<Rightarrow> int" where
  "mystrcmp s1 s2 = strcmp s1 s2"

text \<open>The output order of word count: by descending number, then by word.\<close>

definition out_cmp :: "(8 word list, u64) keyval \<Rightarrow> (8 word list, u64) keyval \<Rightarrow> int" where
  "out_cmp kv1 kv2 =
     (let i1 = kv_val kv1; i2 = kv_val kv2 in if i1 < i2 then 1 else if i1 > i2 then -1 else strcmp (kv_key kv1) (kv_key kv2))"

section \<open>They are total preorders\<close>

lemma key_order_on:
  assumes "\<And>a b. cmp a b = three_way (f a) (f b)"
  shows "key_order cmp"
  by unfold_locales (auto simp: assms three_way_sign)

lemma key_order_lex:
  assumes o1: "key_order c1" and o2: "key_order c2"
    and e: "\<And>a b. cmp a b = (if c1 a b < 0 then -1 else if c1 a b > 0 then 1 else c2 a b)"
  shows "key_order cmp"
proof
  fix a b c
  show "cmp a a = 0" using key_order.cmp_refl [OF o1] key_order.cmp_refl [OF o2] by (simp add: e)
  show "0 < cmp a b \<longleftrightarrow> cmp b a < 0"
    using key_order.cmp_swap [OF o1, of a b] key_order.cmp_swap [OF o1, of b a] key_order.cmp_swap [OF o2, of a b] by (auto simp: e)
  assume ab: "cmp a b \<le> 0" and bc: "cmp b c \<le> 0"
  consider "c1 a b < 0" "c1 b c \<le> 0" | "c1 a b \<le> 0" "c1 b c < 0" | "c1 a b = 0" "c1 b c = 0" "c2 a b \<le> 0" "c2 b c \<le> 0"
    using ab bc by (fastforce simp: e split: if_splits)
  then show "cmp a c \<le> 0"
  proof cases
    case 1
    then show ?thesis using key_order.less_trans1 [OF o1, of a b c] by (simp add: e)
  next
    case 2
    then show ?thesis using key_order.less_trans2 [OF o1, of a b c] by (simp add: e)
  next
    case 3
    then show ?thesis using key_order.eq_left [OF o1, of a b c] key_order.cmp_trans [OF o2, of a b c] by (simp add: e)
  qed
qed

lemma strcmp_refl: "strcmp s s = 0"
  by (induction s) auto

lemma strcmp_swap: "0 < strcmp s t \<longleftrightarrow> strcmp t s < 0"
  by (induction s t rule: strcmp.induct) auto

lemma strcmp_trans: "strcmp s t \<le> 0 \<Longrightarrow> strcmp t u \<le> 0 \<Longrightarrow> strcmp s u \<le> 0"
proof (induction s t arbitrary: u rule: strcmp.induct)
  case (4 c cs d ds)
  show ?case
  proof (cases u)
    case (Cons x xs)
    show ?thesis
    proof (cases "c = d \<and> d = x")
      case True
      then show ?thesis using 4 Cons by simp
    next
      case False
      then have "c < x" using 4(2,3) Cons by (auto split: if_splits)
      then show ?thesis using Cons by auto
    qed
  qed (use 4 in simp)
next
  case (2 c cs)
  then show ?case by (cases u) auto
qed (use strcmp.elims in auto)

interpretation string_order: key_order mystrcmp
  by unfold_locales (auto simp: mystrcmp_def strcmp_refl strcmp_swap intro: strcmp_trans)

interpretation short_order: key_order myshortcmp
  by (rule key_order_on [where f = sint]) (simp add: myshortcmp_def three_way_def Let_def)

interpretation cluster_order: key_order mykeycmp
  by (rule key_order_on [where f = sint]) (simp add: mykeycmp_def three_way_def)

interpretation mean_order: key_order mymeancmp
  by (rule key_order_on [where f = sint]) (simp add: mymeancmp_def three_way_def)

interpretation sum_order: key_order intkeycmp
  by (rule key_order_on [where f = "\<lambda>v. - sint v"]) (simp add: intkeycmp_def three_way_def Let_def)

lemma key_order_field: "key_order (\<lambda>a b. three_way (f a) (f b))"
  by (rule key_order_on [where f = f]) simp

interpretation cell_order: key_order myintcmp
  by (rule key_order_lex [OF key_order_field [of "\<lambda>k. sint (x_loc k)"] key_order_field [of "\<lambda>k. sint (y_loc k)"]])
    (simp add: myintcmp_def three_way_def)

interpretation cov_order: key_order mycovcmp
  by (rule key_order_lex [OF key_order_field [of "\<lambda>k. sint (start_row k)"] key_order_field [of "\<lambda>k. sint (cov_row k)"]])
    (simp add: mycovcmp_def three_way_def)

lemma key_order_map: "key_order cmp \<Longrightarrow> key_order (\<lambda>a b. cmp (f a) (f b))"
  unfolding key_order_def by blast

interpretation output_order: key_order out_cmp
  by (rule key_order_lex [OF key_order_field [of "\<lambda>kv. - uint (kv_val kv)"] key_order_map [OF string_order.key_order_axioms, of kv_key]])
    (simp add: out_cmp_def mystrcmp_def three_way_def Let_def word_less_def)

end
