(* ===== verification/MT_Count.thy ===== *)
theory MT_Count
  imports MT_Job MT_Apps
begin

text \<open>
  Jobs that add up the values of each key, and word count (\<open>app/wc.c\<close>): a job with a summing value modifier returns each
  key once, with the sum of all values that were emitted for it.
\<close>

section \<open>The values of a key\<close>

definition values_for :: "('k \<Rightarrow> 'k \<Rightarrow> int) \<Rightarrow> 'k \<Rightarrow> ('k \<times> 'v \<times> nat \<times> u32) list \<Rightarrow> 'v list" where
  "values_for cmp k xs = map (\<lambda>x. fst (snd x)) (filter (\<lambda>x. cmp k (fst x) = 0) xs)"

lemma values_for_simps [simp]:
  "values_for cmp k [] = []" "values_for cmp k (xs @ ys) = values_for cmp k xs @ values_for cmp k ys"
  by (simp_all add: values_for_def)

definition adds :: "('v::comm_monoid_add option \<Rightarrow> 'v \<Rightarrow> 'v) \<Rightarrow> bool" where
  "adds f \<longleftrightarrow> (\<forall>v. f None v = v) \<and> (\<forall>u v. f (Some u) v = u + v)"

text \<open>An application whose value modifier adds.\<close>

definition summing :: "('k, 'v::comm_monoid_add) app_arg \<Rightarrow> bool" where
  "summing app \<longleftrightarrow> atype app = atype_mapreduce \<and> (\<exists>f. vm app = Some f \<and> adds f)"

lemma summing_add:
  assumes "summing app"
  shows "add_value app k vs v = [(if vs = [] then 0 else hd vs) + v]"
    "merge_vals app acc vs = (if acc = [] then vs else [hd acc + hd vs])"
    "app_vm app \<noteq> None"
  using assms by (auto simp: summing_def adds_def app_vm_def add_value_def merge_vals_def)

definition copies_all :: "('k \<Rightarrow> 'k \<Rightarrow> int) \<Rightarrow> ('k \<Rightarrow> nat \<Rightarrow> 'k) option \<Rightarrow> ('k \<times> 'v \<times> nat \<times> u32) list \<Rightarrow> bool" where
  "copies_all cmp keycopy xs \<longleftrightarrow> (\<forall>(key, val, keylen, hash)\<in>set xs. copies_ok cmp keycopy key keylen)"

lemma lookup_values_None: "lookup_values cmp es k = None \<longleftrightarrow> \<not> (\<exists>e\<in>set es. cmp k (fst e) = 0)"
  unfolding lookup_values_def option.map_disc_iff find_None_iff by blast

context key_order
begin

lemma lookup_put_all:
  assumes s: "summing app"
  shows "asc cmp (map fst es) \<Longrightarrow> copies_all cmp keycopy xs \<Longrightarrow>
    lookup_values cmp (put_all app cmp keycopy xs es) k =
      (if values_for cmp k xs = [] then lookup_values cmp es k
       else Some [(case lookup_values cmp es k of None \<Rightarrow> 0 | Some vs \<Rightarrow> if vs = [] then 0 else hd vs) + sum_list (values_for cmp k xs)])"
proof (induction xs arbitrary: es)
  case (Cons x xs)
  obtain key val keylen hash where x: "x = (key, val, keylen, hash)" by (cases x)
  let ?add = "\<lambda>k vs. add_value app k vs val" and ?new = "copied_key keycopy key keylen"
  let ?es = "put_entry cmp ?add key ?new hash es"
  have c: "cmp ?new key = 0" "copies_all cmp keycopy xs" using Cons.prems(2) by (auto simp: x copies_all_def copies_ok_def)
  have IH: "lookup_values cmp (put_all app cmp keycopy xs ?es) k =
      (if values_for cmp k xs = [] then lookup_values cmp ?es k
       else Some [(case lookup_values cmp ?es k of None \<Rightarrow> 0 | Some vs \<Rightarrow> if vs = [] then 0 else hd vs) + sum_list (values_for cmp k xs)])"
    by (rule Cons.IH [OF put_entry_asc [OF c(1) Cons.prems(1)] c(2)])
  have p: "put_all app cmp keycopy (x # xs) es = put_all app cmp keycopy xs ?es" by (simp add: put_all_def x)
  show ?case
  proof (cases "cmp k key = 0")
    case True
    have "lookup_values cmp ?es k = Some (?add key (case lookup_values cmp es k of None \<Rightarrow> [] | Some vs \<Rightarrow> vs))"
      by (rule lookup_put_same [OF c(1) True _ Cons.prems(1)]) (simp add: summing_add(1) [OF s])
    moreover have "values_for cmp k (x # xs) = val # values_for cmp k xs" using True by (simp add: values_for_def x)
    ultimately show ?thesis unfolding p IH by (simp add: summing_add(1) [OF s] add.assoc split: option.split)
  next
    case False
    have "lookup_values cmp ?es k = lookup_values cmp es k" by (rule lookup_put_other [OF c(1) False])
    moreover have "values_for cmp k (x # xs) = values_for cmp k xs" using False by (simp add: values_for_def x)
    ultimately show ?thesis unfolding p IH by simp
  qed
qed simp

lemma lookup_fresh_put_all:
  assumes "summing app" "copies_all cmp keycopy xs"
  shows "lookup_values cmp (put_all app cmp keycopy xs []) k =
    (if values_for cmp k xs = [] then None else Some [sum_list (values_for cmp k xs)])"
  using lookup_put_all [OF assms(1) _ assms(2), of "[]" k] by (simp add: lookup_values_def)

lemma has_key_put_all:
  assumes "summing app" "copies_all cmp keycopy xs"
  shows "(\<exists>e\<in>set (put_all app cmp keycopy xs []). cmp k (fst e) = 0) \<longleftrightarrow> values_for cmp k xs \<noteq> []"
  using lookup_fresh_put_all [OF assms, of k] lookup_values_None [of cmp "put_all app cmp keycopy xs []" k] by fastforce

lemma group_sum:
  assumes s: "summing app"
  shows "\<forall>xs\<in>set xss. copies_all cmp keycopy xs \<Longrightarrow> length acc \<le> 1 \<Longrightarrow>
    foldl (merge_vals app) acc (List.map_filter (\<lambda>es. lookup_values cmp es k) (map (\<lambda>xs. put_all app cmp keycopy xs []) xss)) =
      (if acc = [] \<and> (\<forall>xs\<in>set xss. values_for cmp k xs = []) then []
       else [(if acc = [] then 0 else hd acc) + (\<Sum>xs\<leftarrow>xss. sum_list (values_for cmp k xs))])"
proof (induction xss arbitrary: acc)
  case Nil
  then show ?case by (cases acc) auto
next
  case (Cons xs xss)
  have c: "copies_all cmp keycopy xs" "\<forall>xs\<in>set xss. copies_all cmp keycopy xs" using Cons.prems(1) by auto
  note l = lookup_fresh_put_all [OF s c(1), of k]
  show ?case
  proof (cases "values_for cmp k xs = []")
    case True
    then show ?thesis using Cons.IH [OF c(2) Cons.prems(2)] l by (simp add: List.map_filter_simps)
  next
    case False
    let ?acc = "merge_vals app acc [sum_list (values_for cmp k xs)]"
    have a: "?acc = [(if acc = [] then 0 else hd acc) + sum_list (values_for cmp k xs)]"
      by (simp add: summing_add(2) [OF s])
    then show ?thesis using Cons.IH [OF c(2), of ?acc] l False by (simp add: List.map_filter_simps a add.assoc)
  qed
qed

lemma asc_filter_key: "asc cmp (map fst gs) \<Longrightarrow> g \<in> set gs \<Longrightarrow> cmp k (fst g) = 0 \<Longrightarrow> filter (\<lambda>g. cmp k (fst g) = 0) gs = [g]"
proof (induction gs)
  case (Cons h gs)
  have a: "asc cmp (map fst gs)" "\<forall>y\<in>set gs. cmp (fst h) (fst y) < 0" using Cons.prems(1) by (auto simp: asc_Cons)
  show ?case
  proof (cases "cmp k (fst h) = 0")
    case True
    have n: "\<forall>y\<in>set gs. cmp k (fst y) \<noteq> 0" using eq_left [OF True] a(2) by fastforce
    then have "filter (\<lambda>g. cmp k (fst g) = 0) gs = []" by (simp add: filter_empty_conv)
    moreover have "g \<notin> set gs" using n Cons.prems(3) by blast
    ultimately show ?thesis using True Cons.prems(2) by auto
  next
    case False
    then show ?thesis using Cons.IH [OF a(1)] Cons.prems(2,3) by auto
  qed
qed simp

end

section \<open>The groups of a summing job\<close>

text \<open>The values of \<open>k\<close> in the groups of a column, when \<open>xss\<close> are the pairs of the mappers.\<close>

lemma column_sum:
  assumes o: "key_order cmp" and s: "summing app" and c: "\<forall>xs\<in>set xss. copies_all cmp keycopy xs"
    and g: "groups_of app cmp (map (\<lambda>xs. put_all app cmp keycopy xs []) xss) gs"
  shows "map snd (filter (\<lambda>p. cmp k (fst p) = 0) (concat (map (emitted app) gs))) =
    (if \<forall>xs\<in>set xss. values_for cmp k xs = [] then [] else [\<Sum>xs\<leftarrow>xss. sum_list (values_for cmp k xs)])"
proof -
  let ?ess = "map (\<lambda>xs. put_all app cmp keycopy xs []) xss"
  have e: "concat (map (emitted app) gs) = map (\<lambda>g. (fst g, hd (snd g))) gs"
    using s by (auto simp: summing_def emitted_def [abs_def] concat_map_singleton)
  have f: "map snd (filter (\<lambda>p. cmp k (fst p) = 0) (concat (map (emitted app) gs))) =
      map (\<lambda>g. hd (snd g)) (filter (\<lambda>g. cmp k (fst g) = 0) gs)"
    unfolding e by (simp add: filter_map comp_def)
  have ex: "(\<exists>g\<in>set gs. cmp k (fst g) = 0) \<longleftrightarrow> (\<exists>xs\<in>set xss. values_for cmp k xs \<noteq> [])"
    using g key_order.has_key_put_all [OF o s, of keycopy _ k] c by (simp add: groups_of_def)
  show ?thesis
  proof (cases "\<exists>g\<in>set gs. cmp k (fst g) = 0")
    case False
    then have "filter (\<lambda>g. cmp k (fst g) = 0) gs = []" by (auto simp: filter_empty_conv)
    then show ?thesis using False ex unfolding f by auto
  next
    case True
    then obtain h where h: "h \<in> set gs" "cmp k (fst h) = 0" by blast
    have one: "filter (\<lambda>g. cmp k (fst g) = 0) gs = [h]"
      using key_order.asc_filter_key [OF o _ h] g by (simp add: groups_of_def)
    have v: "values_for cmp (fst h) xs = values_for cmp k xs" for xs :: "('a \<times> 'b \<times> nat \<times> u32) list"
    proof -
      have "(cmp (fst h) x = 0) = (cmp k x = 0)" for x using key_order.eq_left [OF o h(2), of x] by simp
      then show ?thesis by (simp add: values_for_def)
    qed
    have "snd h = group_values app cmp ?ess (fst h)" using g h(1) by (simp add: groups_of_def)
    then have "snd h = [\<Sum>xs\<leftarrow>xss. sum_list (values_for cmp k xs)]"
      using key_order.group_sum [OF o s c, of "[]" "fst h"] True ex unfolding group_values_def v by auto
    then show ?thesis using True ex unfolding f one by auto
  qed
qed

section \<open>The pairs of all mappers\<close>

definition job_emits :: "('sp, 'k, 'v) mr_param \<Rightarrow> 'sp list \<Rightarrow> ('k \<times> 'v \<times> nat \<times> u32) list" where
  "job_emits P splits = concat (map (\<lambda>sp. hashed P (map_func P sp)) splits)"

text \<open>The partition function takes equal keys to the same hash.\<close>

definition same_hash :: "('k \<Rightarrow> 'k \<Rightarrow> int) \<Rightarrow> ('k \<times> 'v \<times> nat \<times> u32) list \<Rightarrow> bool" where
  "same_hash cmp xs \<longleftrightarrow> (\<forall>x\<in>set xs. \<forall>y\<in>set xs. cmp (fst x) (fst y) = 0 \<longrightarrow> snd (snd (snd x)) = snd (snd (snd y)))"

lemma values_for_nonempty: "values_for cmp k xs \<noteq> [] \<longleftrightarrow> (\<exists>x\<in>set xs. cmp k (fst x) = 0)"
  by (auto simp: values_for_def filter_empty_conv)

lemma sum_at: "c < n \<Longrightarrow> (\<Sum>r\<leftarrow>[0..<n]. if c = r then S else 0) = (S :: 'a::comm_monoid_add)"
  by (simp add: interv_sum_list_conv_sum_set_nat atLeast0LessThan)

lemma row_pairs_Cons:
  "row_pairs P (c # sched) (sp # sps) r = (if c = r then hashed P (map_func P sp) else []) @ row_pairs P sched sps r"
  by (simp add: row_pairs_def)

lemma row_pairs_Nil: "row_pairs P sched [] r = []"
  by (simp add: row_pairs_def)

text \<open>A quantity that adds up over lists adds up over the mappers.\<close>

lemma rows_sum:
  assumes add: "\<And>xs ys. F (xs @ ys) = F xs + F ys" and nil: "F [] = (0 :: 'a::comm_monoid_add)"
  shows "length splits \<le> length sched \<Longrightarrow> \<forall>c\<in>set sched. c < n \<Longrightarrow>
    (\<Sum>r\<leftarrow>[0..<n]. F (row_pairs P sched splits r)) = F (job_emits P splits)"
proof (induction splits arbitrary: sched)
  case Nil
  then show ?case by (simp add: row_pairs_Nil job_emits_def nil)
next
  case (Cons sp sps)
  obtain c sched' where sc: "sched = c # sched'" using Cons.prems(1) by (cases sched) auto
  let ?S = "F (hashed P (map_func P sp))"
  have "F (row_pairs P sched (sp # sps) r) = (if c = r then ?S else 0) + F (row_pairs P sched' sps r)" for r
    by (simp add: sc row_pairs_Cons add nil)
  then have "(\<Sum>r\<leftarrow>[0..<n]. F (row_pairs P sched (sp # sps) r)) =
      (\<Sum>r\<leftarrow>[0..<n]. if c = r then ?S else 0) + (\<Sum>r\<leftarrow>[0..<n]. F (row_pairs P sched' sps r))"
    by (simp add: sum_list_addf)
  also have "\<dots> = ?S + F (job_emits P sps)" using Cons.IH [of sched'] Cons.prems sum_at [of c n ?S] by (simp add: sc)
  also have "\<dots> = F (job_emits P (sp # sps))" by (simp add: job_emits_def add)
  finally show ?case .
qed

lemma row_pairs_subset: "set (row_pairs P sched splits r) \<subseteq> set (job_emits P splits)"
  by (auto simp: row_pairs_def job_emits_def set_zip in_set_conv_nth split: if_splits) (metis nth_mem)

lemma rows_cover:
  assumes "length splits \<le> length sched" "\<forall>c\<in>set sched. c < n" "x \<in> set (job_emits P splits)"
  shows "\<exists>r<n. x \<in> set (row_pairs P sched splits r)"
proof -
  have "(\<Sum>r\<leftarrow>[0..<n]. mset (row_pairs P sched splits r)) = mset (job_emits P splits)"
    by (rule rows_sum [OF _ _ assms(1,2)]) simp_all
  then have "x \<in># (\<Sum>r\<leftarrow>[0..<n]. mset (row_pairs P sched splits r))" using assms(3) by simp
  then show ?thesis unfolding mset_concat_sum [symmetric] by auto
qed

section \<open>The columns\<close>

lemma in_col_set: "set (in_col n c xs) = {x \<in> set xs. unat (snd (snd (snd x))) mod n = c}"
  by (auto simp: in_col_def)

lemma in_col_length: "0 < n \<Longrightarrow> (\<Sum>c\<leftarrow>[0..<n]. length (in_col n c xs)) = length xs"
proof (induction xs)
  case (Cons x xs)
  obtain key val keylen hash where x: "x = (key, val, keylen, hash)" by (cases x)
  have "length (in_col n c (x # xs)) = (if unat hash mod n = c then 1 else 0) + length (in_col n c xs)" for c
    by (simp add: in_col_def x)
  then have "(\<Sum>c\<leftarrow>[0..<n]. length (in_col n c (x # xs))) =
      (\<Sum>c\<leftarrow>[0..<n]. if unat hash mod n = c then 1 else 0) + (\<Sum>c\<leftarrow>[0..<n]. length (in_col n c xs))"
    by (simp add: sum_list_addf)
  then show ?case using Cons sum_at [of "unat hash mod n" n "1 :: nat"] by simp
qed (simp add: in_col_def)

text \<open>All pairs of a key are in the column of its hash.\<close>

lemma values_in_col:
  assumes o: "key_order cmp" and h: "same_hash cmp E" and x: "x \<in> set E" "cmp k (fst x) = 0" and xs: "set xs \<subseteq> set E"
  shows "values_for cmp k (in_col n c xs) = (if c = unat (snd (snd (snd x))) mod n then values_for cmp k xs else [])"
proof -
  have same: "snd (snd (snd y)) = snd (snd (snd x))" if "y \<in> set xs" "cmp k (fst y) = 0" for y
  proof -
    have "cmp (fst x) (fst y) = 0" using key_order.eq_left [OF o x(2), of "fst y"] that(2) by simp
    moreover have "y \<in> set E" using that(1) xs by blast
    ultimately show ?thesis using h [unfolded same_hash_def, rule_format, OF x(1)] by simp
  qed
  have "filter (\<lambda>y. cmp k (fst y) = 0) (in_col n c xs) = filter (\<lambda>y. unat (snd (snd (snd y))) mod n = c \<and> cmp k (fst y) = 0) xs"
    by (auto simp: in_col_def conj_commute case_prod_beta intro: filter_cong)
  also have "\<dots> = (if c = unat (snd (snd (snd x))) mod n then filter (\<lambda>y. cmp k (fst y) = 0) xs else [])"
    using same by (auto simp: filter_empty_conv intro: filter_cong)
  finally show ?thesis by (simp add: values_for_def)
qed

context key_order
begin

lemma asc_length: "asc cmp ks \<Longrightarrow> \<forall>k\<in>set ks. \<exists>x\<in>set xs. cmp k x = 0 \<Longrightarrow> length ks \<le> length xs"
proof (induction ks arbitrary: xs)
  case (Cons k ks)
  obtain x where x: "x \<in> set xs" "cmp k x = 0" using Cons.prems(2) by auto
  let ?xs = "filter (\<lambda>y. cmp k y \<noteq> 0) xs"
  have "\<exists>y\<in>set ?xs. cmp l y = 0" if l: "l \<in> set ks" for l
  proof -
    obtain y where y: "y \<in> set xs" "cmp l y = 0" using Cons.prems(2) l by auto
    have "cmp k l < 0" using Cons.prems(1) l by (simp add: asc_Cons)
    then have "cmp k y < 0" using less_trans1 [of k l y] y(2) by simp
    then show ?thesis using y by auto
  qed
  then have "length ks \<le> length ?xs" using Cons.IH [of ?xs] Cons.prems(1) by (simp add: asc_Cons)
  also have "length ?xs < length xs" using x by (intro length_filter_less) auto
  finally show ?case by simp
qed simp

end

section \<open>A summing job returns every key once, with its sum\<close>

lemma copies_all_emits:
  assumes "\<forall>sp\<in>set splits. emits_ok cmp keycopy (map_func P sp)"
  shows "copies_all cmp keycopy (job_emits P splits)"
  using assms by (fastforce simp: copies_all_def job_emits_def hashed_def emits_ok_def)

lemma copies_all_subset: "copies_all cmp keycopy ys \<Longrightarrow> set xs \<subseteq> set ys \<Longrightarrow> copies_all cmp keycopy xs"
  unfolding copies_all_def by blast

text \<open>The pairs of the mappers in a column.\<close>

definition col_pairs :: "('sp, 'k, 'v) mr_param \<Rightarrow> nat list \<Rightarrow> 'sp list \<Rightarrow> nat \<Rightarrow> ('k \<times> 'v \<times> nat \<times> u32) list list" where
  "col_pairs P sched splits c = map (\<lambda>r. in_col (tasks (app_args P)) c (row_pairs P sched splits r)) [0..<nr_cpus P]"

lemma map_entries_col:
  "map_entries (app_args P) cmp keycopy P sched splits c = map (\<lambda>xs. put_all (app_args P) cmp keycopy xs []) (col_pairs P sched splits c)"
  by (simp add: map_entries_def col_pairs_def)

lemma concat_at: "c0 < n \<Longrightarrow> concat (map (\<lambda>c. if c = c0 then [v] else []) [0..<n]) = [v]"
proof (induction n)
  case (Suc n)
  then show ?case by (cases "c0 = n") (auto intro!: concat_eq_Nil_conv [THEN iffD2])
qed simp

lemma job_sums:
  assumes o: "key_order cmp" and s: "summing (app_args P)" and job: "job_ok cmp keycopy P sched ps"
    and cover: "length (splits_left ps) \<le> length sched" and h: "same_hash cmp (job_emits P (splits_left ps))"
    and g: "job_groups cmp keycopy P sched (splits_left ps) gss"
  shows "map snd (filter (\<lambda>p. cmp k (fst p) = 0) (job_pairs (app_args P) gss)) =
    (if values_for cmp k (job_emits P (splits_left ps)) = [] then [] else [sum_list (values_for cmp k (job_emits P (splits_left ps)))])"
proof -
  let ?app = "app_args P" and ?n = "tasks (app_args P)" and ?E = "job_emits P (splits_left ps)"
  let ?row = "\<lambda>r. row_pairs P sched (splits_left ps) r" and ?col = "\<lambda>c. col_pairs P sched (splits_left ps) c"
  have n: "0 < ?n" "\<forall>c\<in>set sched. c < nr_cpus P" using job by (auto simp: job_ok_def)
  have sub: "set xs \<subseteq> set ?E" if q: "xs \<in> set (?col c)" for xs c
  proof -
    obtain r where "xs = in_col ?n c (?row r)" using q by (auto simp: col_pairs_def)
    then have "set xs \<subseteq> set (?row r)" by (auto simp: in_col_set)
    then show ?thesis using row_pairs_subset by (rule subset_trans)
  qed
  have copies: "copies_all cmp keycopy ?E" using job by (intro copies_all_emits) (simp add: job_ok_def)
  have col: "map snd (filter (\<lambda>p. cmp k (fst p) = 0) (concat (map (emitted ?app) (gss ! c)))) =
      (if \<forall>xs\<in>set (?col c). values_for cmp k xs = [] then [] else [\<Sum>xs\<leftarrow>?col c. sum_list (values_for cmp k xs)])" if "c < ?n" for c
  proof (rule column_sum [OF o s])
    show "\<forall>xs\<in>set (?col c). copies_all cmp keycopy xs" using copies_all_subset [OF copies] sub by blast
    show "groups_of ?app cmp (map (\<lambda>xs. put_all ?app cmp keycopy xs []) (?col c)) (gss ! c)"
      using g that by (simp add: job_groups_def map_entries_col)
  qed
  have "gss = map (\<lambda>c. gss ! c) [0..<?n]" using g by (auto simp: job_groups_def intro!: nth_equalityI)
  then have "job_pairs ?app gss = concat (map (\<lambda>c. concat (map (emitted ?app) (gss ! c))) [0..<?n])"
    unfolding job_pairs_def by (metis (no_types, lifting) comp_apply list.map_comp map_cong)
  then have all: "map snd (filter (\<lambda>p. cmp k (fst p) = 0) (job_pairs ?app gss)) =
      concat (map (\<lambda>c. map snd (filter (\<lambda>p. cmp k (fst p) = 0) (concat (map (emitted ?app) (gss ! c))))) [0..<?n])"
    by (simp add: filter_concat map_concat comp_def del: map_eq_conv)
  show ?thesis
  proof (cases "values_for cmp k ?E = []")
    case True
    then have "values_for cmp k xs = []" if "xs \<in> set (?col c)" for xs c
      using sub [OF that] values_for_nonempty [of cmp k] by blast
    then have "map snd (filter (\<lambda>p. cmp k (fst p) = 0) (concat (map (emitted ?app) (gss ! c)))) = []" if "c < ?n" for c
      using col [OF that] by simp
    then show ?thesis using True unfolding all by simp
  next
    case False
    then obtain x where x: "x \<in> set ?E" "cmp k (fst x) = 0" using values_for_nonempty [of cmp k ?E] by blast
    let ?c0 = "unat (snd (snd (snd x))) mod ?n"
    have v: "values_for cmp k (in_col ?n c (?row r)) = (if c = ?c0 then values_for cmp k (?row r) else [])" for r c
      by (rule values_in_col [OF o h x row_pairs_subset])
    have total: "(\<Sum>r\<leftarrow>[0..<nr_cpus P]. sum_list (values_for cmp k (?row r))) = sum_list (values_for cmp k ?E)"
      by (rule rows_sum [OF _ _ cover n(2)]) simp_all
    obtain r where r: "r < nr_cpus P" "x \<in> set (?row r)" using rows_cover [OF cover n(2) x(1)] by blast
    have ne: "values_for cmp k (?row r) \<noteq> []" unfolding values_for_nonempty using r(2) x(2) by (rule bexI [rotated])
    have one: "map snd (filter (\<lambda>p. cmp k (fst p) = 0) (concat (map (emitted ?app) (gss ! c)))) =
        (if c = ?c0 then [sum_list (values_for cmp k ?E)] else [])" if c: "c < ?n" for c
    proof (cases "c = ?c0")
      case True
      have "in_col ?n c (?row r) \<in> set (?col c)" using r(1) by (simp add: col_pairs_def)
      moreover have "values_for cmp k (in_col ?n c (?row r)) \<noteq> []" using ne v [of c r] True by simp
      ultimately have ex: "\<not> (\<forall>xs\<in>set (?col c). values_for cmp k xs = [])" by blast
      have "(\<Sum>xs\<leftarrow>?col c. sum_list (values_for cmp k xs)) = (\<Sum>r\<leftarrow>[0..<nr_cpus P]. sum_list (values_for cmp k (?row r)))"
        unfolding col_pairs_def map_map comp_def v using True by simp
      then show ?thesis unfolding col [OF c] if_not_P [OF ex] total if_P [OF True] by simp
    next
      case F: False
      have "\<forall>xs\<in>set (?col c). values_for cmp k xs = []"
      proof
        fix xs assume "xs \<in> set (?col c)"
        then obtain r where "xs = in_col ?n c (?row r)" by (auto simp: col_pairs_def)
        then show "values_for cmp k xs = []" using v [of c r] F by simp
      qed
      then show ?thesis unfolding col [OF c] if_not_P [OF F] by simp
    qed
    have "concat (map (\<lambda>c. map snd (filter (\<lambda>p. cmp k (fst p) = 0) (concat (map (emitted ?app) (gss ! c))))) [0..<?n]) =
        concat (map (\<lambda>c. if c = ?c0 then [sum_list (values_for cmp k ?E)] else []) [0..<?n])"
      by (intro arg_cong [of _ _ concat] map_cong refl one) simp
    also have "\<dots> = [sum_list (values_for cmp k ?E)]" using n(1) by (intro concat_at) simp
    finally show ?thesis using False unfolding all by simp
  qed
qed

section \<open>The result of a summing job\<close>

lemma in_col_concat: "in_col n c (concat xss) = concat (map (in_col n c) xss)"
  by (induction xss) auto

text \<open>There are at most as many groups as pairs were emitted.\<close>

lemma column_few:
  assumes o: "key_order cmp" and s: "summing app" and c: "\<forall>xs\<in>set xss. copies_all cmp keycopy xs"
    and g: "groups_of app cmp (map (\<lambda>xs. put_all app cmp keycopy xs []) xss) gs"
  shows "length (concat (map (emitted app) gs)) \<le> length (concat xss)"
proof -
  have "\<exists>x\<in>set (map fst (concat xss)). cmp k x = 0" if k: "k \<in> set (map fst gs)" for k
  proof -
    obtain h where h: "h \<in> set gs" "k = fst h" using k by auto
    then have "\<exists>g\<in>set gs. cmp k (fst g) = 0" using key_order.cmp_refl [OF o, of k] by blast
    then obtain xs where xs: "xs \<in> set xss" "\<exists>e\<in>set (put_all app cmp keycopy xs []). cmp k (fst e) = 0"
      using g by (auto simp: groups_of_def)
    then have "values_for cmp k xs \<noteq> []" using key_order.has_key_put_all [OF o s, of keycopy xs k] c by simp
    then obtain x where "x \<in> set xs" "cmp k (fst x) = 0" unfolding values_for_nonempty by blast
    then show ?thesis using xs(1) by auto
  qed
  then have "length (map fst gs) \<le> length (map fst (concat xss))"
    using g by (intro key_order.asc_length [OF o]) (auto simp: groups_of_def)
  moreover have "concat (map (emitted app) gs) = map (\<lambda>g. (fst g, hd (snd g))) gs"
    using s by (auto simp: summing_def emitted_def [abs_def] concat_map_singleton)
  ultimately show ?thesis by simp
qed

lemma job_pairs_few:
  assumes o: "key_order cmp" and s: "summing (app_args P)" and job: "job_ok cmp keycopy P sched ps"
    and cover: "length (splits_left ps) \<le> length sched" and g: "job_groups cmp keycopy P sched (splits_left ps) gss"
  shows "length (job_pairs (app_args P) gss) \<le> length (job_emits P (splits_left ps))"
proof -
  let ?n = "tasks (app_args P)" and ?rows = "map (row_pairs P sched (splits_left ps)) [0..<nr_cpus P]"
  have n: "0 < ?n" "\<forall>c\<in>set sched. c < nr_cpus P" using job by (auto simp: job_ok_def)
  have copies: "copies_all cmp keycopy (job_emits P (splits_left ps))" using job by (intro copies_all_emits) (simp add: job_ok_def)
  have col: "concat (col_pairs P sched (splits_left ps) c) = in_col ?n c (concat ?rows)" for c
    by (simp add: col_pairs_def in_col_concat comp_def)
  have "length (concat (map (emitted (app_args P)) (gss ! c))) \<le> length (in_col ?n c (concat ?rows))" if "c < ?n" for c
    unfolding col [symmetric]
  proof (rule column_few [OF o s])
    show "\<forall>xs\<in>set (col_pairs P sched (splits_left ps) c). copies_all cmp keycopy xs"
    proof
      fix xs assume "xs \<in> set (col_pairs P sched (splits_left ps) c)"
      then obtain r where "xs = in_col ?n c (row_pairs P sched (splits_left ps) r)" by (auto simp: col_pairs_def)
      then have "set xs \<subseteq> set (row_pairs P sched (splits_left ps) r)" by (auto simp: in_col_set)
      then show "copies_all cmp keycopy xs" 
        by (intro copies_all_subset [OF copies] subset_trans [OF _ row_pairs_subset])
    qed
    show "groups_of (app_args P) cmp (map (\<lambda>xs. put_all (app_args P) cmp keycopy xs []) (col_pairs P sched (splits_left ps) c)) (gss ! c)"
      using g that by (simp add: job_groups_def map_entries_col)
  qed
  then have "(\<Sum>c\<leftarrow>[0..<?n]. length (concat (map (emitted (app_args P)) (gss ! c)))) \<le> (\<Sum>c\<leftarrow>[0..<?n]. length (in_col ?n c (concat ?rows)))"
    by (intro sum_list_mono) simp
  also have "\<dots> = length (concat ?rows)" by (rule in_col_length [OF n(1)])
  also have "\<dots> = (\<Sum>r\<leftarrow>[0..<nr_cpus P]. length (row_pairs P sched (splits_left ps) r))" by (simp add: length_concat comp_def)
  also have "\<dots> = length (job_emits P (splits_left ps))" by (rule rows_sum [OF _ _ cover n(2)]) simp_all
  finally have le: "(\<Sum>c\<leftarrow>[0..<?n]. length (concat (map (emitted (app_args P)) (gss ! c)))) \<le> length (job_emits P (splits_left ps))" .
  have "length gss = ?n" using g by (simp add: job_groups_def)
  then have m: "map (\<lambda>c. length (concat (map (emitted (app_args P)) (gss ! c)))) [0..<?n] =
      map (\<lambda>gs. length (concat (map (emitted (app_args P)) gs))) gss"
    by (intro nth_equalityI) simp_all
  have "length (job_pairs (app_args P) gss) = (\<Sum>gs\<leftarrow>gss. length (concat (map (emitted (app_args P)) gs)))"
    by (simp add: job_pairs_def length_concat comp_def)
  then show ?thesis using le unfolding m by simp
qed

lemma mset_short: "mset xs = mset ys \<Longrightarrow> length ys \<le> 1 \<Longrightarrow> xs = ys"
  by (cases ys) auto

lemma summing_job:
  fixes s :: "(('k, 'v :: comm_monoid_add) btree, ('k, 'v) keyvals coll, 'k, 'v) kvst"
  assumes o: "key_order cmp" and a: "summing (app_args P)" and job: "job_ok cmp keycopy P sched ps" and s: "idle (nr_cpus P) s"
    and q: "sorts qs (rbkts_pair_cmp (kv_outcmp (app_args P)) cmp kv_key)"
    and cover: "length (splits_left ps) \<le> length sched" and h: "same_hash cmp (job_emits P (splits_left ps))"
    and n: "nr_cpus P = 1 \<or> length (job_emits P (splits_left ps)) < nr_cpus P * nr_cpus P * nr_cpus P"
  shows "\<exists>out. mr_run_scheduler (btreebktmgr (app_args P) cmp keycopy) qs cmp P sched0 sched (ps, s) = Some out \<and>
    (\<forall>k. map kv_val (filter (\<lambda>p. cmp k (kv_key p) = 0) out) =
      (let vs = values_for cmp k (job_emits P (splits_left ps)) in if vs = [] then [] else [sum_list vs])) \<and>
    ordered (rbkts_pair_cmp (kv_outcmp (app_args P)) cmp kv_key) out"
proof -
  obtain gss where g: "job_groups cmp keycopy P sched (splits_left ps) gss"
    and run: "nr_cpus P = 1 \<or> length (job_pairs (app_args P) gss) < nr_cpus P * nr_cpus P * nr_cpus P \<longrightarrow>
      (\<exists>out. mr_run_scheduler (btreebktmgr (app_args P) cmp keycopy) qs cmp P sched0 sched (ps, s) = Some out \<and>
        mset (map kv_pair out) = mset (job_pairs (app_args P) gss) \<and>
        ordered (rbkts_pair_cmp (kv_outcmp (app_args P)) cmp kv_key) out)"
    using btree_job [OF o job s q] by blast
  have "nr_cpus P = 1 \<or> length (job_pairs (app_args P) gss) < nr_cpus P * nr_cpus P * nr_cpus P"
    using n job_pairs_few [OF o a job cover g] by linarith
  then obtain out where out: "mr_run_scheduler (btreebktmgr (app_args P) cmp keycopy) qs cmp P sched0 sched (ps, s) = Some out"
    "mset (map kv_pair out) = mset (job_pairs (app_args P) gss)"
    "ordered (rbkts_pair_cmp (kv_outcmp (app_args P)) cmp kv_key) out" using run by blast
  have "map kv_val (filter (\<lambda>p. cmp k (kv_key p) = 0) out) =
      (let vs = values_for cmp k (job_emits P (splits_left ps)) in if vs = [] then [] else [sum_list vs])" for k
  proof -
    have "map kv_val (filter (\<lambda>p. cmp k (kv_key p) = 0) out) = map snd (filter (\<lambda>p. cmp k (fst p) = 0) (map kv_pair out))"
      by (simp add: filter_map comp_def kv_pair_def)
    moreover have "mset (map snd (filter (\<lambda>p. cmp k (fst p) = 0) (map kv_pair out))) =
        mset (map snd (filter (\<lambda>p. cmp k (fst p) = 0) (job_pairs (app_args P) gss)))"
      using out(2) by (simp only: mset_map mset_filter)
    ultimately have "mset (map kv_val (filter (\<lambda>p. cmp k (kv_key p) = 0) out)) =
        mset (let vs = values_for cmp k (job_emits P (splits_left ps)) in if vs = [] then [] else [sum_list vs])"
      unfolding job_sums [OF o a job cover h g] by (simp add: Let_def)
    then show ?thesis by (rule mset_short) (simp add: Let_def)
  qed
  then show ?thesis using out(1,3) by blast
qed

section \<open>Word count (app/wc.c)\<close>

type_synonym text_bytes = "8 word list"

definition max_key_len :: nat where "max_key_len = 256"

text \<open>The characters at which the splitter stops: blank, tab, CR, LF and NUL.\<close>

definition border :: "8 word \<Rightarrow> bool" where
  "border c \<longleftrightarrow> c = 32 \<or> c = 9 \<or> c = 13 \<or> c = 10 \<or> c = 0"

text \<open>The number of splits: the option \<open>-m\<close>, or a default for each core.\<close>

definition splits_asked :: "nat \<Rightarrow> nat \<Rightarrow> nat" where
  "splits_asked nsplits ncores = (if nsplits = 0 then ncores * unat def_nsplits_per_core else nsplits)"

text \<open>\<open>wordcount_splitter\<close> on the file \<open>fdata\<close>, with \<open>fpos\<close> as its state; a split is given by its bytes.\<close>

definition wordcount_splitter :: "text_bytes \<Rightarrow> nat \<Rightarrow> nat \<Rightarrow> nat \<Rightarrow> (text_bytes option \<times> nat) option" where
  "wordcount_splitter fdata nsplits ncores fpos =
     (let n = splits_asked nsplits ncores; flen = length fdata; split_size = flen div n in
      if n = 0 then None
      else if fpos \<ge> flen then Some (None, fpos)
      else let len = (if fpos + split_size > flen then flen - fpos else split_size);
               len' = len + length (takeWhile (\<lambda>c. \<not> border c) (drop (fpos + len) fdata))
        in Some (Some (take len' (drop fpos fdata)), fpos + len'))"

text \<open>\<open>toupper\<close> of the C locale.\<close>

definition c_toupper :: "8 word \<Rightarrow> 8 word" where
  "c_toupper c = (if 97 \<le> c \<and> c \<le> 122 then c - 32 else c)"

definition is_letter :: "8 word \<Rightarrow> bool" where
  "is_letter c \<longleftrightarrow> 65 \<le> c \<and> c \<le> 90"

text \<open>The loop of \<open>wordcount_map\<close>: \<open>None\<close> is the state \<open>NOT_IN_WORD\<close>, otherwise the argument is the first \<open>ilen\<close>
  characters of \<open>tmp_key\<close>; the words that are emitted.\<close>

fun wc_words :: "text_bytes \<Rightarrow> text_bytes option \<Rightarrow> text_bytes list option" where
  "wc_words [] None = Some []"
| "wc_words [] (Some key) = Some [key]"
| "wc_words (c # cs) (Some key) =
     (let curr = c_toupper c in
      if \<not> is_letter curr \<and> curr \<noteq> 39 then map_option (Cons key) (wc_words cs None)
      else do {
        c_assert (length key + 1 < max_key_len);
        wc_words cs (Some (key @ [curr]))
      })"
| "wc_words (c # cs) None = (let curr = c_toupper c in wc_words cs (if is_letter curr then Some [curr] else None))"

definition wordcount_map :: "text_bytes \<Rightarrow> (text_bytes \<times> u64 \<times> nat) list option" where
  "wordcount_map data = map_option (map (\<lambda>key. (key, 1, length key))) (wc_words data None)"

definition wordcount_vm :: "u64 option \<Rightarrow> u64 \<Rightarrow> u64" where
  "wordcount_vm oldv newv = (case oldv of None \<Rightarrow> newv | Some v \<Rightarrow> v + newv)"

definition wordcount_reduce :: "text_bytes \<Rightarrow> u64 list \<Rightarrow> (text_bytes \<times> u64) list" where
  "wordcount_reduce key vals = [(key, foldl (+) 0 vals)]"

definition wordcount_combine :: "text_bytes \<Rightarrow> u64 list \<Rightarrow> u64 list" where
  "wordcount_combine key vals = (case vals of [] \<Rightarrow> [] | v # vs \<Rightarrow> [foldl (+) v vs])"

definition wc_keycopy :: "text_bytes \<Rightarrow> nat \<Rightarrow> text_bytes" where
  "wc_keycopy src s = take s src"

text \<open>The application \<open>do_mapreduce\<close> runs; \<open>with_vm\<close> is set, so that neither reduce function nor combiner is given;
  the field \<open>reduce_func\<close> is not read then.  A split in which the assertion of \<open>wordcount_map\<close> fails has no result.\<close>

definition wc_app :: "bool \<Rightarrow> nat \<Rightarrow> (text_bytes, u64) app_arg" where
  "wc_app alphanumeric reduce_tasks =
     \<lparr>atype = atype_mapreduce, kv_outcmp = (if alphanumeric then None else Some out_cmp), kvl_outcmp = None,
      tasks = reduce_tasks, reduce_func = wordcount_reduce, combiner = None, vm = Some wordcount_vm\<rparr>"

definition wc_param :: "bool \<Rightarrow> nat \<Rightarrow> nat \<Rightarrow> (text_bytes, text_bytes, u64) mr_param" where
  "wc_param alphanumeric nprocs reduce_tasks =
     \<lparr>map_func = the \<circ> wordcount_map, part_func = default_hasher, nr_cpus = nprocs,
      app_args = wc_app alphanumeric reduce_tasks\<rparr>"

section \<open>Splitting keeps the words\<close>

lemma border_ends_word: "border c \<Longrightarrow> \<not> is_letter (c_toupper c) \<and> c_toupper c \<noteq> 39"
  by (auto simp: border_def is_letter_def c_toupper_def word_le_nat_alt)

lemma wc_words_append:
  assumes "ys = [] \<or> border (hd ys)"
  shows "wc_words (xs @ ys) st = do { a \<leftarrow> wc_words xs st; b \<leftarrow> wc_words ys None; Some (a @ b) }"
proof (induction xs st rule: wc_words.induct)
  case 1
  then show ?case by (cases "wc_words ys None") auto
next
  case (2 key)
  show ?case
  proof (cases ys)
    case (Cons y zs)
    then show ?thesis using assms border_ends_word [of y] by (cases "wc_words zs None") (auto simp: Let_def)
  qed simp
next
  case (3 c cs key)
  then show ?case by (auto simp: Let_def map_option_case split: bind_splits option.splits)
next
  case (4 c cs)
  then show ?case by (simp add: Let_def)
qed

lemma split_progress:
  assumes "0 < splits_asked nsplits ncores" "splits_asked nsplits ncores \<le> length fdata" "fpos < length fdata"
  obtains len where "wordcount_splitter fdata nsplits ncores fpos = Some (Some (take len (drop fpos fdata)), fpos + len)" "0 < len"
    "fpos + len \<le> length fdata" "drop (fpos + len) fdata = [] \<or> border (hd (drop (fpos + len) fdata))"
proof -
  let ?size = "length fdata div splits_asked nsplits ncores"
  let ?len = "if fpos + ?size > length fdata then length fdata - fpos else ?size"
  let ?rest = "drop (fpos + ?len) fdata"
  let ?w = "takeWhile (\<lambda>c. \<not> border c) ?rest"
  have size: "0 < ?size" using assms(1,2) by (simp add: div_greater_zero_iff)
  have w: "length ?w \<le> length ?rest" by (rule length_takeWhile_le)
  have "drop (length ?w) ?rest = dropWhile (\<lambda>c. \<not> border c) ?rest" by (simp add: dropWhile_eq_drop)
  then have d: "drop (fpos + (?len + length ?w)) fdata = dropWhile (\<lambda>c. \<not> border c) ?rest"
    by (simp add: add.assoc add.commute)
  have "dropWhile (\<lambda>c. \<not> border c) ?rest = [] \<or> border (hd (dropWhile (\<lambda>c. \<not> border c) ?rest))"
    using hd_dropWhile [of "\<lambda>c. \<not> border c" ?rest] by blast
  moreover have "wordcount_splitter fdata nsplits ncores fpos =
      Some (Some (take (?len + length ?w) (drop fpos fdata)), fpos + (?len + length ?w))"
    using assms(1,3) unfolding wordcount_splitter_def Let_def by simp
  moreover have "0 < ?len + length ?w" using size assms(3) by simp
  moreover have "fpos + (?len + length ?w) \<le> length fdata" using w assms(3) by (simp split: if_splits)
  ultimately show thesis using that d by metis
qed

lemma split_file:
  assumes n: "0 < splits_asked nsplits ncores" "splits_asked nsplits ncores \<le> length fdata"
  shows "fpos \<le> length fdata \<Longrightarrow> \<exists>splits. split_all (wordcount_splitter fdata nsplits ncores) fpos = Some (splits, length fdata) \<and>
    concat splits = drop fpos fdata \<and>
    (\<forall>ws. wc_words (drop fpos fdata) None = Some ws \<longrightarrow>
      (\<forall>sp\<in>set splits. wc_words sp None \<noteq> None) \<and> concat (map (\<lambda>sp. the (wc_words sp None)) splits) = ws)"
proof (induction "length fdata - fpos" arbitrary: fpos rule: less_induct)
  case less
  show ?case
  proof (cases "fpos < length fdata")
    case False
    then have e: "fpos = length fdata" using less.prems by simp
    have "split_all (wordcount_splitter fdata nsplits ncores) (length fdata) = Some ([], length fdata)"
      using n(1) by (subst split_all.simps) (simp add: wordcount_splitter_def)
    then show ?thesis by (auto simp: e)
  next
    case True
    obtain len where l: "wordcount_splitter fdata nsplits ncores fpos = Some (Some (take len (drop fpos fdata)), fpos + len)" "0 < len"
      "fpos + len \<le> length fdata" "drop (fpos + len) fdata = [] \<or> border (hd (drop (fpos + len) fdata))"
      by (rule split_progress [OF n True])
    let ?sp = "take len (drop fpos fdata)" and ?rest = "drop (fpos + len) fdata"
    have dec: "length fdata - (fpos + len) < length fdata - fpos" using l(2) True by simp
    obtain splits where sps: "split_all (wordcount_splitter fdata nsplits ncores) (fpos + len) = Some (splits, length fdata)"
      "concat splits = ?rest"
      "\<And>ws. wc_words ?rest None = Some ws \<Longrightarrow>
        (\<forall>sp\<in>set splits. wc_words sp None \<noteq> None) \<and> concat (map (\<lambda>sp. the (wc_words sp None)) splits) = ws"
      using less.hyps [OF dec l(3)] by blast
    have whole: "drop fpos fdata = ?sp @ ?rest" by (metis append_take_drop_id drop_drop add.commute)
    have "(\<forall>sp\<in>set (?sp # splits). wc_words sp None \<noteq> None) \<and>
        concat (map (\<lambda>sp. the (wc_words sp None)) (?sp # splits)) = ws" if ws: "wc_words (drop fpos fdata) None = Some ws" for ws
    proof -
      have "wc_words (?sp @ ?rest) None = Some ws" using ws by (simp only: whole [symmetric])
      then obtain a b where "wc_words ?sp None = Some a" "wc_words ?rest None = Some b" "ws = a @ b"
        unfolding wc_words_append [OF l(4)] by (auto split: bind_splits)
      then show ?thesis using sps(3) [of b] by simp
    qed
    moreover have "split_all (wordcount_splitter fdata nsplits ncores) fpos = Some (?sp # splits, length fdata)"
      using l(1) sps(1) by (subst split_all.simps) simp
    moreover have "concat (?sp # splits) = drop fpos fdata" using sps(2) by (simp only: concat.simps whole [symmetric])
    ultimately show ?thesis by blast
  qed
qed

section \<open>The word count job\<close>

lemma strcmp_eq: "strcmp s t = 0 \<longleftrightarrow> s = t"
  by (induction s t rule: strcmp.induct) auto

definition hashed_word :: "text_bytes \<Rightarrow> text_bytes \<times> u64 \<times> nat \<times> u32" where
  "hashed_word w = (w, 1, length w, default_hasher w (length w))"

lemma wc_emits:
  assumes "\<forall>sp\<in>set splits. wc_words sp None \<noteq> None"
  shows "job_emits (wc_param a n r) splits = map hashed_word (concat (map (\<lambda>sp. the (wc_words sp None)) splits))"
    "\<forall>sp\<in>set splits. emits_ok mystrcmp (Some wc_keycopy) (map_func (wc_param a n r) sp)"
proof -
  have "hashed (wc_param a n r) (map_func (wc_param a n r) sp) = map hashed_word (the (wc_words sp None))" if "sp \<in> set splits" for sp
    using assms that by (auto simp: hashed_def wc_param_def wordcount_map_def hashed_word_def comp_def)
  then have m: "map (\<lambda>sp. hashed (wc_param a n r) (map_func (wc_param a n r) sp)) splits =
      map (\<lambda>sp. map hashed_word (the (wc_words sp None))) splits" by (intro map_cong refl)
  then show "job_emits (wc_param a n r) splits = map hashed_word (concat (map (\<lambda>sp. the (wc_words sp None)) splits))"
    using arg_cong [OF m, of concat] by (simp only: job_emits_def map_concat map_map comp_def)
  show "\<forall>sp\<in>set splits. emits_ok mystrcmp (Some wc_keycopy) (map_func (wc_param a n r) sp)"
  proof
    fix sp assume "sp \<in> set splits"
    then obtain y where "wc_words sp None = Some y" using assms by blast
    then show "emits_ok mystrcmp (Some wc_keycopy) (map_func (wc_param a n r) sp)"
      by (auto simp: emits_ok_def wc_param_def wordcount_map_def copies_ok_def copied_key_def wc_keycopy_def mystrcmp_def strcmp_refl)
  qed
qed

lemma values_for_words:
  "values_for mystrcmp w (map hashed_word ws) = replicate (count_list ws w) 1"
  by (induction ws) (auto simp: values_for_def hashed_word_def mystrcmp_def strcmp_eq)

lemma sum_ones: "sum_list (replicate n (1 :: u64)) = of_nat n"
  by (induction n) auto

lemma same_hash_words: "same_hash mystrcmp (map hashed_word ws)"
  by (auto simp: same_hash_def hashed_word_def mystrcmp_def strcmp_eq)

lemma summing_wc: "summing (wc_app a r)"
  by (simp add: summing_def wc_app_def adds_def wordcount_vm_def)

definition wc_order :: "bool \<Rightarrow> (text_bytes, u64) keyval \<Rightarrow> (text_bytes, u64) keyval \<Rightarrow> int" where
  "wc_order alphanumeric = rbkts_pair_cmp (if alphanumeric then None else Some out_cmp) mystrcmp kv_key"

lemma presplit_file:
  assumes "presplitter_init split arg = Some (ps, arg')"
  shows "splits_left ps = ps_ma ps" "ps_nsplits ps = length (ps_ma ps)" "split_all split arg = Some (ps_ma ps, arg')"
  using assms by (auto simp: presplitter_init_def splits_left_def split: bind_splits)

text \<open>The file \<open>a bc a\<close>.\<close>

definition example_file :: text_bytes where "example_file = [97, 32, 98, 99, 32, 97]"

lemma example_words: "wc_words example_file None = Some [[65], [66, 67], [65]]"
  by (simp add: example_file_def c_toupper_def is_letter_def max_key_len_def c_assert_def Let_def)

lemma example_length: "length example_file = 6"
  by (simp add: example_file_def)

text \<open>C99: The splitter of word count divides a file with at least as many bytes as splits are asked for (at least one), and
  without a word that is too long for the map function's buffer, into consecutive pieces: it ends, the pieces put together are
  the file, and the words found in the pieces one after the other are the words of the file, so that no word is cut.\<close>

theorem file_is_split:
  assumes "0 < splits_asked nsplits ncores" "splits_asked nsplits ncores \<le> length fdata" "wc_words fdata None = Some ws"
  shows "\<exists>splits. split_all (wordcount_splitter fdata nsplits ncores) 0 = Some (splits, length fdata) \<and> concat splits = fdata \<and>
    (\<forall>sp\<in>set splits. wc_words sp None \<noteq> None) \<and> concat (map (\<lambda>sp. the (wc_words sp None)) splits) = ws"
  using split_file [OF assms(1,2), of 0] assms(3) by auto

theorem file_is_split_witness:
  "\<exists>splits. split_all (wordcount_splitter example_file 2 1) 0 = Some (splits, length example_file) \<and> concat splits = example_file \<and>
    (\<forall>sp\<in>set splits. wc_words sp None \<noteq> None) \<and> concat (map (\<lambda>sp. the (wc_words sp None)) splits) = [[65], [66, 67], [65]]"
  using file_is_split [of 2 1 example_file, OF _ _ example_words] by (simp add: example_length splits_asked_def)


text \<open>Insertion sort stands for \<open>qsort\<close> in the examples.\<close>

primrec ordered_insert :: "('p \<Rightarrow> 'p \<Rightarrow> int) \<Rightarrow> 'p \<Rightarrow> 'p list \<Rightarrow> 'p list" where
  "ordered_insert pcmp p [] = [p]"
| "ordered_insert pcmp p (q # qs) = (if pcmp p q \<le> 0 then p # q # qs else q # ordered_insert pcmp p qs)"

definition insertion_sort :: "('p \<Rightarrow> 'p \<Rightarrow> int) \<Rightarrow> 'p list \<Rightarrow> 'p list" where
  "insertion_sort pcmp ps = foldr (ordered_insert pcmp) ps []"

lemma mset_ordered_insert [simp]: "mset (ordered_insert pcmp p qs) = add_mset p (mset qs)"
  by (induction qs) auto

lemma set_ordered_insert [simp]: "set (ordered_insert pcmp p qs) = insert p (set qs)"
  by (induction qs) auto

lemma ordered_ordered_insert:
  assumes "key_order pcmp"
  shows "ordered pcmp qs \<Longrightarrow> ordered pcmp (ordered_insert pcmp p qs)"
proof (induction qs)
  case (Cons q qs)
  show ?case
  proof (cases "pcmp p q \<le> 0")
    case True
    then show ?thesis using Cons.prems key_order.cmp_trans [OF assms True] by (auto simp: ordered_def)
  next
    case False
    then have "pcmp q p \<le> 0" using key_order.le_swap [OF assms, of p q] by linarith
    then show ?thesis using Cons False by (auto simp: ordered_def)
  qed
qed (simp add: ordered_def)

lemma insertion_sort_sorts: "key_order pcmp \<Longrightarrow> sorts insertion_sort pcmp"
proof -
  assume o: "key_order pcmp"
  have "mset (insertion_sort pcmp ps) = mset ps \<and> ordered pcmp (insertion_sort pcmp ps)" for ps
    using ordered_ordered_insert [OF o] by (induction ps) (auto simp: insertion_sort_def ordered_def)
  then show ?thesis by (simp add: sorts_def)
qed

lemma wc_order_ok: "key_order (wc_order alphanumeric)"
proof (cases alphanumeric)
  case True
  then show ?thesis
    using key_order_map [OF string_order.key_order_axioms, of kv_key] by (simp add: wc_order_def rbkts_pair_cmp_def [abs_def])
next
  case False
  then show ?thesis using output_order.key_order_axioms by (simp add: wc_order_def rbkts_pair_cmp_def [abs_def])
qed

text \<open>A store for up to two mappers, and the splits of the example.\<close>

definition example_store :: "('c, 'o, text_bytes, u64) kvst" where
  "example_store = \<lparr>kv_mgr = \<lparr>mapper = mapper_zero, mapper_bak = mapper_zero, map_out = [], mstates = [mstate_zero, mstate_zero]\<rparr>,
     kv_rbkts = rbkts_init 0, kv_nrows = 0, has_backup = False, bsampling = False, nkeys_per_mapper = 0, npairs_per_mapper = 0\<rparr>"

definition example_splits :: "text_bytes presplitter_state" where
  "example_splits = \<lparr>ps_ma = [[97, 32, 98, 99], [32, 97]], ps_idx = 0, ps_nsplits = 2, ps_nsplits_bak = 0, ps_ma_bak = []\<rparr>"

lemma example_presplit: "presplitter_init (wordcount_splitter example_file 2 1) 0 = Some (example_splits, 6)"
proof -
  have s: "wordcount_splitter example_file 2 1 0 = Some (Some [97, 32, 98, 99], 4)"
    "wordcount_splitter example_file 2 1 4 = Some (Some [32, 97], 6)" "wordcount_splitter example_file 2 1 6 = Some (None, 6)"
    by (simp_all add: wordcount_splitter_def splits_asked_def example_file_def border_def)
  have "split_all (wordcount_splitter example_file 2 1) 6 = Some ([], 6)" by (subst split_all.simps) (simp only: s option.case prod.case bind.simps)
  then have "split_all (wordcount_splitter example_file 2 1) 4 = Some ([[32, 97]], 6)" by (subst split_all.simps) (simp only: s option.case prod.case bind.simps)
  then have "split_all (wordcount_splitter example_file 2 1) 0 = Some ([[97, 32, 98, 99], [32, 97]], 6)"
    by (subst split_all.simps) (simp only: s option.case prod.case bind.simps)
  then show ?thesis by (simp add: presplitter_init_def example_splits_def c_assert_def)
qed


section \<open>A small file\<close>

text \<open>With fewer bytes than splits asked for, the size of a split is 0 and the splitter stays at a border.\<close>

lemma splitter_stays:
  assumes "length fdata < splits_asked nsplits ncores" "fpos < length fdata" "border (fdata ! fpos)"
  shows "wordcount_splitter fdata nsplits ncores fpos = Some (Some [], fpos)"
proof -
  have "drop fpos fdata = fdata ! fpos # drop (Suc fpos) fdata" using assms(2) by (simp add: Cons_nth_drop_Suc)
  then show ?thesis using assms by (simp add: wordcount_splitter_def Let_def)
qed

lemma split_all_stays:
  assumes "split s = Some (Some x, s)"
  shows "split_all split s = None"
proof -
  have "\<not> (split = f \<and> t = s)" if "split_all f t = Some y" for f t y
    using that
  proof (rule split_all.raw_induct [of "\<lambda>f t y. \<not> (split = f \<and> t = s)", rotated])
    fix rec f t y
    assume IH: "\<And>f t y. rec f t = Some y \<Longrightarrow> \<not> (split = f \<and> t = s)"
      and body: "(case f t of None \<Rightarrow> None | Some (None, s') \<Rightarrow> Some ([], s')
        | Some (Some x, s') \<Rightarrow> rec f s' \<bind> (\<lambda>(xs, s''). Some (x # xs, s''))) = Some y"
    show "\<not> (split = f \<and> t = s)"
    proof
      assume "split = f \<and> t = s"
      then have "f t = Some (Some x, s)" "split = f" using assms by auto
      then have "rec f s \<noteq> None" using body by (auto split: bind_splits)
      then show False using IH [of f s] \<open>split = f\<close> by auto
    qed
  qed
  then show ?thesis by (cases "split_all split s") auto
qed

text \<open>C99: For a file with fewer bytes than splits are asked for (16 per core by default) that has a border (a blank, tab, line
  end or NUL) somewhere, the splitter of word count first returns what is before the first border; from there it returns an
  empty split and stays where it is, each time it is called.  It never reports its end, and preparing the splits does not
  return.\<close>

theorem small_file_never_split:
  assumes "length fdata < splits_asked nsplits ncores" "\<exists>c\<in>set fdata. border c"
    and n_def: "n = length (takeWhile (\<lambda>c. \<not> border c) fdata)"
  shows "n < length fdata \<and> wordcount_splitter fdata nsplits ncores 0 = Some (Some (take n fdata), n) \<and>
    wordcount_splitter fdata nsplits ncores n = Some (Some [], n) \<and>
    presplitter_init (wordcount_splitter fdata nsplits ncores) 0 = None"
proof -
  have "takeWhile (\<lambda>c. \<not> border c) fdata \<noteq> fdata" using assms(2) by (metis set_takeWhileD)
  moreover have "take n fdata = takeWhile (\<lambda>c. \<not> border c) fdata" by (simp add: n_def flip: takeWhile_eq_take)
  ultimately have n: "n < length fdata" by (metis not_le take_all)
  then have b: "border (fdata ! n)" using nth_length_takeWhile [of "\<lambda>c. \<not> border c" fdata] by (simp add: n_def)
  have stuck: "split_all (wordcount_splitter fdata nsplits ncores) n = None"
    by (rule split_all_stays [of _ n "[]"]) (rule splitter_stays [OF assms(1) n b])
  have first: "wordcount_splitter fdata nsplits ncores 0 = Some (Some (take n fdata), n)"
    using assms(1) n by (auto simp: wordcount_splitter_def Let_def n_def)
  then have "split_all (wordcount_splitter fdata nsplits ncores) 0 = None" using stuck by (subst split_all.simps) simp
  then show ?thesis using n first splitter_stays [OF assms(1) n b] by (simp add: presplitter_init_def)
qed

theorem small_file_never_split_witness:
  "wordcount_splitter example_file 0 1 0 = Some (Some [97], 1) \<and> wordcount_splitter example_file 0 1 1 = Some (Some [], 1) \<and>
    presplitter_init (wordcount_splitter example_file 0 1) 0 = None"
proof -
  have "length example_file < splits_asked 0 1" "\<exists>c\<in>set example_file. border c"
    "1 = length (takeWhile (\<lambda>c. \<not> border c) example_file)" "take 1 example_file = [97]"
    by (simp_all add: example_file_def border_def splits_asked_def def_nsplits_per_core_def)
  from small_file_never_split [OF this(1-3)] this(4) show ?thesis by simp
qed

end
