(* ===== verification/MT_Props.thy ===== *)
theory MT_Props
  imports MT_Count
begin

text \<open>
  The properties of the Metis library that rest on several of its parts: searching, the tree of pairs as a map, sorting and
  merging, the number of reduce tasks and whole jobs.
\<close>

section \<open>Searching\<close>



section \<open>The tree of pairs as a map\<close>

text \<open>Inserting pairs one after the other: key, value, length of the key and hash.\<close>

primrec bt_insert_all ::
    "('k, 'v) app_arg \<Rightarrow> ('k \<Rightarrow> 'k \<Rightarrow> int) \<Rightarrow> ('k \<Rightarrow> nat \<Rightarrow> 'k) option \<Rightarrow> ('k, 'v) btree \<Rightarrow> ('k \<times> 'v \<times> nat \<times> u32) list \<Rightarrow>
     ('k, 'v) btree option" where
  "bt_insert_all app cmp keycopy t [] = Some t"
| "bt_insert_all app cmp keycopy t (x # xs) =
     (case x of (key, val, keylen, hash) \<Rightarrow> do {
        (_, t') \<leftarrow> bt_insert_kv app cmp keycopy t key val keylen hash;
        bt_insert_all app cmp keycopy t' xs
      })"

lemma bt_insert_all_list: "bt_insert_all app cmp keycopy t xs = btree.insert_list app cmp keycopy t xs"
  by (induction xs arbitrary: t) (simp_all add: split_def)

text \<open>C99: The B+tree refines a sorted association list: inserting any pairs into the empty tree ends, and copying the tree
  gives the keys in ascending order with the values and hashes the list holds after the same insertions.\<close>

theorem btree_refines_list:
  assumes "key_order cmp" "\<forall>(key, val, keylen, hash)\<in>set xs. copies_ok cmp keycopy key keylen"
  shows "\<exists>t kvs. bt_insert_all app cmp keycopy bt_init xs = Some t \<and> bt_copy_kvs t = Some kvs \<and>
    map pair_entry kvs = put_all app cmp keycopy xs [] \<and> asc cmp (map kvs_key kvs)"
proof -
  obtain t where t: "bt_insert_all app cmp keycopy bt_init xs = Some t" "bt_ok cmp t" "bt_entries t = put_all app cmp keycopy xs []"
    using btree.insert_list_entries [OF assms(1) btree.coll_init(1) assms(2), of app]
    unfolding bt_insert_all_list btree.coll_init(2) by blast
  obtain kvs where kvs: "bt_copy_kvs t = Some kvs" "map pair_entry kvs = bt_entries t" using bt_copy_kvs_ok [OF t(2)] by blast
  have "map kvs_key kvs = map fst (bt_entries t)" unfolding kvs(2) [symmetric] by simp
  then show ?thesis using t kvs btree.ok_asc [OF assms(1) t(2)] by auto
qed

theorem btree_refines_list_witness:
  "\<exists>t kvs. bt_insert_all (wc_app True 3) mystrcmp None bt_init [([66], 1, 1, 7), ([65], 1, 1, 8), ([66], 1, 1, 7)] = Some t \<and>
    bt_copy_kvs t = Some kvs \<and> map pair_entry kvs = [([65], [1], 8), ([66], [2], 7)] \<and> asc mystrcmp (map kvs_key kvs)"
proof -
  have "put_all (wc_app True 3) mystrcmp None [([66], 1, 1, 7), ([65], 1, 1, 8), ([66], 1, 1, 7)] [] =
      [([65], [1], 8), ([66], [2], 7)]"
    by (simp add: put_all_def add_value_def wc_app_def app_vm_def mystrcmp_def copied_key_def wordcount_vm_def)
  moreover have "copies_ok mystrcmp None key n" for key n
    by (simp add: copies_ok_def copied_key_def mystrcmp_def strcmp_refl)
  ultimately show ?thesis
    using btree_refines_list [OF string_order.key_order_axioms,
        of "[([66], 1, 1, 7), ([65], 1, 1, 8), ([66], 1, 1, 7)]" None "wc_app True 3"]
    by simp
qed

section \<open>Sorting and merging\<close>

definition full_coll :: "'p list \<Rightarrow> 'p coll" where
  "full_coll ps = \<lparr>c_elems = ps, c_alloc = length ps, c_null = False\<rparr>"

lemma full_coll_simps [simp]:
  "c_elems (full_coll ps) = ps" "pch_get_len (full_coll ps) = length ps" "room_ok (full_coll ps)"
  "sorted_coll pcmp (full_coll ps) \<longleftrightarrow> ordered pcmp ps"
  by (auto simp: full_coll_def pch_get_len_def room_ok_def sorted_coll_def free_ok_def)

lemma int_order: "key_order (\<lambda>a b. a - b :: int)"
  by unfold_locales auto

text \<open>C99: Without regular sampling, the rounds of merges of the merge phase end with all pairs of the sorted buckets in
  bucket 0, in order, whatever the number of buckets and of CPUs.\<close>

theorem merge_rounds_sort:
  assumes "key_order pcmp" "\<forall>c\<in>set cs. sorted_coll pcmp c" "0 < length cs" "0 < ncpus"
  shows "\<exists>cs'. merge_phase False qs pcmp ncpus (length cs) cs = Some cs' \<and> mset (c_elems (cs' ! 0)) = all_pairs cs \<and>
    ordered pcmp (c_elems (cs' ! 0)) \<and> (\<forall>i<length cs. 0 < i \<longrightarrow> c_elems (cs' ! i) = [])"
proof -
  let ?nc = "let n = length cs div 2 in if n > ncpus then ncpus else n"
  obtain cs' where cs': "merge_phase_loop pcmp (length cs) ?nc cs = Some cs'" "round_of pcmp 1 cs cs'"
  proof -
    have "1 < length cs \<Longrightarrow> 0 < ?nc \<and> ?nc < length cs" using assms(4) by (auto simp: Let_def)
    then show ?thesis using merge_phase_loop_ok [OF assms(1,2,3), of ?nc] that by auto
  qed
  then show ?thesis using round_of_1 [OF cs'(2) assms(3)] by (auto simp: merge_phase_def round_of_def)
qed

theorem merge_rounds_sort_witness:
  "\<exists>cs'. merge_phase False insertion_sort (\<lambda>a b. a - b) 2 3 [full_coll [1, 4], full_coll [2 :: int], full_coll [0, 5]] = Some cs' \<and>
    mset (c_elems (cs' ! 0)) = all_pairs [full_coll [1, 4], full_coll [2], full_coll [0, 5]] \<and>
    ordered (\<lambda>a b. a - b) (c_elems (cs' ! 0)) \<and>
    (\<forall>i<3. 0 < i \<longrightarrow> c_elems (cs' ! i) = [])"
proof -
  have l: "length [full_coll [1, 4], full_coll [2 :: int], full_coll [0, 5]] = 3" by simp
  show ?thesis
    by (rule merge_rounds_sort [OF int_order, of "[full_coll [1, 4], full_coll [2], full_coll [0, 5]]" 2 insertion_sort, unfolded l])
      (simp_all add: ordered_def)
qed

text \<open>Sorting integers has one result.\<close>

lemma sorts_ints:
  assumes "sorts qs (\<lambda>a b. a - b :: int)"
  shows "qs (\<lambda>a b. a - b) ps = sort ps"
proof -
  have "sorted (qs (\<lambda>a b. a - b) ps)" using assms by (simp add: sorts_def ordered_def)
  then show ?thesis using assms by (intro properties_for_sort [symmetric]) (simp_all add: sorts_def)
qed

text \<open>C99: Sorting by regular sampling does not sort: on two CPUs, a bucket with the numbers from 1 to 8 comes out in another
  order, whatever \<open>qsort\<close> is used, because \<open>sublists\<close> searches for the borders in too few elements.\<close>

theorem regular_sampling_unsorted:
  assumes "sorts qs (\<lambda>a b. a - b :: int)"
  shows "\<exists>cs'. psrs_sort qs (\<lambda>a b. a - b) 2 [full_coll [1, 2, 3, 4, 5, 6, 7, 8]] = Some cs' \<and>
    c_elems (cs' ! 0) = [1, 2, 5, 6, 3, 4, 7, 8]"
proof -
  note q = sorts_ints [OF assms]
  have up: "[0..<2] = [0, 1 :: nat]" by (simp add: upt_rec)
  let ?c = "[full_coll [1, 2, 3, 4, 5, 6, 7, 8 :: int]]"
  have total: "sum_list (map pch_get_len ?c) = 8" and one: "2 - 1 = (1 :: nat)" and row: "replicate 1 0 = [0 :: int]" by simp_all
  have sorted: "sort [1, 2, 3, 4] = [1, 2, 3, 4 :: int]" "sort [5, 6, 7, 8] = [5, 6, 7, 8 :: int]" "sort [3, 7] = [3, 7 :: int]"
    by (simp_all add: sorted_sort_id)
  have local: "local_sorted qs (\<lambda>a b. a - b) ?c 8 2 0 = Some [1, 2, 3, 4]" "local_sorted qs (\<lambda>a b. a - b) ?c 8 2 1 = Some [5, 6, 7, 8]"
    by (simp_all add: local_sorted_def local_range_def copy_elems_def c_assert_def q sorted Let_def)
  have pivot: "local_pivots 2 [1, 2, 3, 4 :: int] = Some [3]" "local_pivots 2 [5, 6, 7, 8 :: int] = Some [7]"
    by (simp_all add: local_pivots_def nth_opt_def Let_def)
  have pivots: "select_pivots 2 [3, 7 :: int] = Some [3, 7]"
    by (simp add: select_pivots_def nth_opt_def c_assert_def)
  have cut: "sublists (\<lambda>a b. a - b) [1, 2, 3, 4 :: int] [3, 7] 0 3 1 1 [0, 0, 4] = Some [0, 2, 4]"
    "sublists (\<lambda>a b. a - b) [5, 6, 7, 8 :: int] [3, 7] 0 3 1 1 [0, 0, 4] = Some [0, 2, 4]"
    by (simp_all add: sublists.simps nth_opt_def bsearch_lar_def elem_at_def)
  have split: "psrs_split qs (\<lambda>a b. a - b) 2 ?c = Some [([1, 2, 3, 4], [0, 2, 4]), ([5, 6, 7, 8], [0, 2, 4])]"
    using local pivot pivots cut unfolding psrs_split_def Let_def up total one row by (simp add: q sorted del: One_nat_def)
  have merged: "merge_partition (\<lambda>a b. a - b) [([1, 2, 3, 4 :: int], [0, 2, 4]), ([5, 6, 7, 8], [0, 2, 4])] 0 = Some [1, 2, 5, 6]"
    "merge_partition (\<lambda>a b. a - b) [([1, 2, 3, 4 :: int], [0, 2, 4]), ([5, 6, 7, 8], [0, 2, 4])] 1 = Some [3, 4, 7, 8]"
    by (simp_all add: merge_partition_def parts_of_def c_assert_def nth_opt_def eval_nat_numeral)
  have "psrs_sort qs (\<lambda>a b. a - b) 2 ?c = Some [pch_set_elems [1, 2, 5, 6, 3, 4, 7, 8] (pch_shallow_free (hd ?c))]"
    using split merged by (simp add: psrs_sort_def few_pairs_def up free_arr_colls_def del: One_nat_def)
  then show ?thesis by simp
qed

theorem regular_sampling_unsorted_witness:
  "\<exists>cs'. psrs_sort insertion_sort (\<lambda>a b. a - b) 2 [full_coll [1, 2, 3, 4, 5, 6, 7, 8 :: int]] = Some cs' \<and>
    c_elems (cs' ! 0) = [1, 2, 5, 6, 3, 4, 7, 8]"
  by (rule regular_sampling_unsorted [OF insertion_sort_sorts [OF int_order]])

section \<open>The number of reduce tasks\<close>

lemma dbl_of_u64_exact: "unat w < 2 ^ 53 \<Longrightarrow> dbl_of_u64 w = unat w"
  using floorlog_leI [of "unat w" 2 53] by (simp add: dbl_of_u64_def Let_def)

lemma below_sqrt_less: "below_sqrt q d \<Longrightarrow> q * q < d"
proof -
  assume b: "below_sqrt q d"
  define P where "P = (2::nat) ^ (54 - floorlog 2 q)"
  have PP: "2 ^ (2 * (54 - floorlog 2 q)) = P * P" by (simp add: P_def power_add mult_2)
  have "(q * P + 1) * (q * P + 1) < d * (P * P)"
    using b unfolding below_sqrt_def Let_def PP P_def [symmetric] .
  moreover have "(q * P) * (q * P) \<le> (q * P + 1) * (q * P + 1)" by (intro mult_le_mono) simp_all
  moreover have "(q * P) * (q * P) = (q * q) * (P * P)" by (simp add: mult.commute mult.left_commute)
  ultimately have "(q * q) * (P * P) < d * (P * P)" by linarith
  then show "q * q < d" by (simp only: mult_less_cancel2)
qed

text \<open>For numbers in reach of the loop the test with the rounded root is exact.\<close>

lemma below_sqrt_exact:
  assumes "2 \<le> q" "q < 2 ^ 26"
  shows "below_sqrt q d \<longleftrightarrow> q * q < d"
proof
  assume lt: "q * q < d"
  define f where "f = floorlog 2 q"
  define P where "P = (2::nat) ^ (54 - f)"
  have f: "q < 2 ^ f" "f \<le> 26"
    using floorlog_bounds [of q 2] floorlog_leI [of q 2 26] assms by (simp_all add: f_def)
  have "P * 2 ^ f = 2 ^ 54" using f(2) by (simp add: P_def power_add [symmetric])
  moreover have "(q + 1) * P \<le> 2 ^ f * P" using f(1) by (intro mult_le_mono1) simp
  ultimately have qP: "q * P + P \<le> 2 ^ 54" by (simp add: algebra_simps)
  have P28: "2 ^ 28 \<le> P" unfolding P_def using f(2) by (intro power_increasing) simp_all
  then have "2 ^ 28 * 2 ^ 28 \<le> P * P" by (intro mult_le_mono)
  with qP P28 have "2 * (q * P) + 1 < P * P" by simp
  moreover have "(q * P + 1) * (q * P + 1) = (q * q) * (P * P) + (2 * (q * P) + 1)" by (simp add: algebra_simps)
  moreover have "(q * q + 1) * (P * P) \<le> d * (P * P)" using lt by (intro mult_le_mono1) simp
  then have "(q * q) * (P * P) + P * P \<le> d * (P * P)" by (simp add: algebra_simps)
  ultimately have r: "(q * P + 1) * (q * P + 1) < d * (P * P)" by linarith
  have PP: "(2::nat) ^ (2 * (54 - f)) = P * P" by (simp add: P_def power_add mult_2)
  from r show "below_sqrt q d" unfolding below_sqrt_def Let_def f_def [symmetric] PP P_def [symmetric] .
qed (rule below_sqrt_less)

lemma find_divisor_finds:
  assumes "unat n < 2 ^ 52" "2 \<le> q" "q \<le> 2 ^ 26"
  shows "find_divisor n q = Some (\<exists>d\<ge>q. d * d < unat n \<and> d dvd unat n)"
  using assms
proof (induction n q rule: find_divisor.induct)
  case (1 n q)
  have D: "dbl_of_u64 n = unat n" using "1.prems"(1) by (intro dbl_of_u64_exact) simp
  show ?case
  proof (cases "q * q < unat n")
    case False
    then have "\<not> d * d < unat n" if "q \<le> d" for d using mult_le_mono [OF that that] by linarith
    moreover have "\<not> below_sqrt q (unat n)" using below_sqrt_less False by blast
    ultimately show ?thesis by (auto simp: find_divisor.simps [of n q] D)
  next
    case True
    have q: "q < 2 ^ 26"
    proof (rule ccontr)
      assume "\<not> q < 2 ^ 26"
      then have "2 ^ 26 * 2 ^ 26 \<le> q * q" by (intro mult_le_mono) simp_all
      with True "1.prems"(1) show False by simp
    qed
    have b: "below_sqrt q (dbl_of_u64 n)" using True below_sqrt_exact [OF "1.prems"(2) q] D by simp
    have "unat (of_nat q :: u64) = q" using q by (simp add: unat_of_nat)
    then have "unat (n mod of_nat q) = unat n mod q" by (simp add: unat_mod_distrib)
    then have m: "n mod of_nat q = 0 \<longleftrightarrow> q dvd unat n"
      by (metis dvd_eq_mod_eq_0 unat_eq_zero)
    show ?thesis
    proof (cases "q dvd unat n")
      case True
      then show ?thesis using b m \<open>q * q < unat n\<close> by (auto simp: find_divisor.simps [of n q])
    next
      case False
      have "find_divisor n (q + 1) = Some (\<exists>d\<ge>q + 1. d * d < unat n \<and> d dvd unat n)"
        using "1.IH" b m False q "1.prems" by simp
      moreover have "(\<exists>d\<ge>q + 1. d * d < unat n \<and> d dvd unat n) = (\<exists>d\<ge>q. d * d < unat n \<and> d dvd unat n)"
        using False by (metis Suc_eq_plus1 Suc_leD le_neq_implies_less Suc_leI)
      ultimately show ?thesis using b m False q by (simp add: find_divisor.simps [of n q])
    qed
  qed
qed

lemma divisor_below_root:
  assumes "0 < (k :: nat)"
  shows "(\<exists>d\<ge>2. d * d < k \<and> d dvd k) = (\<exists>d. d dvd k \<and> d \<noteq> 1 \<and> d \<noteq> k \<and> d * d \<noteq> k)"
proof
  assume "\<exists>d\<ge>2. d * d < k \<and> d dvd k"
  then obtain d where d: "2 \<le> d" "d * d < k" "d dvd k" by blast
  have "d \<noteq> k" using d(1,2) by auto
  with d show "\<exists>d. d dvd k \<and> d \<noteq> 1 \<and> d \<noteq> k \<and> d * d \<noteq> k" by (intro exI [of _ d]) auto
next
  assume "\<exists>d. d dvd k \<and> d \<noteq> 1 \<and> d \<noteq> k \<and> d * d \<noteq> k"
  then obtain d e where d: "k = d * e" "d \<noteq> 1" "d \<noteq> k" "d * d \<noteq> k" by (auto simp: dvd_def)
  then have ne: "d \<noteq> 0" "e \<noteq> 0" "e \<noteq> 1" "d \<noteq> e" using assms by auto
  show "\<exists>d\<ge>2. d * d < k \<and> d dvd k"
  proof (cases "d < e")
    case True
    then show ?thesis using d ne by (intro exI [of _ d]) auto
  next
    case False
    then show ?thesis using d ne by (intro exI [of _ e]) auto
  qed
qed

text \<open>C99: For a positive number \<open>n\<close> the search for the number of reduce tasks ends, no later than at the first prime number \<open>p\<close>
  from \<open>n\<close> on (if there is one below \<open>2 ^ 52\<close>), with the least number from \<open>n\<close> on that has no divisors but 1, itself and
  possibly its root: a prime number or, since the loop stops before the root, the square of one.  0 is returned as it is.\<close>

theorem task_number_found:
  assumes "0 < unat n" "unat n \<le> p" "p < 2 ^ 52" "\<forall>q. 1 < q \<and> q < p \<longrightarrow> \<not> q dvd p"
  shows "next_task_number 0 = Some 0 \<and>
    (\<exists>m. next_task_number n = Some m \<and> n \<le> m \<and> unat m \<le> p \<and>
       (\<forall>d. d dvd unat m \<longrightarrow> d = 1 \<or> d = unat m \<or> d * d = unat m) \<and>
       (\<forall>k. n \<le> k \<and> k < m \<longrightarrow> (\<exists>d. d dvd unat k \<and> d \<noteq> 1 \<and> d \<noteq> unat k \<and> d * d \<noteq> unat k)))"
proof
  show "next_task_number 0 = Some 0"
    by (subst next_task_number.simps) (simp add: find_divisor_finds)
  have stop: "\<not> (\<exists>d\<ge>2. d * d < p \<and> d dvd p)"
    using assms(4) by (metis Suc_1 Suc_le_lessD le_square less_le_trans not_less)
  show "\<exists>m. next_task_number n = Some m \<and> n \<le> m \<and> unat m \<le> p \<and>
       (\<forall>d. d dvd unat m \<longrightarrow> d = 1 \<or> d = unat m \<or> d * d = unat m) \<and>
       (\<forall>k. n \<le> k \<and> k < m \<longrightarrow> (\<exists>d. d dvd unat k \<and> d \<noteq> 1 \<and> d \<noteq> unat k \<and> d * d \<noteq> unat k))"
    using assms(1,2)
  proof (induction "p - unat n" arbitrary: n rule: less_induct)
    case less
    have f: "find_divisor n 2 = Some (\<exists>d\<ge>2. d * d < unat n \<and> d dvd unat n)"
      using less.prems assms(3) by (intro find_divisor_finds) auto
    note root = divisor_below_root [OF less.prems(1)]
    show ?case
    proof (cases "\<exists>d\<ge>2. d * d < unat n \<and> d dvd unat n")
      case False
      then have "find_divisor n 2 = Some False" using f by simp
      then have "next_task_number n = Some n" by (simp add: next_task_number.simps [of n])
      with False root less.prems(2) show ?thesis by (intro exI [of _ n]) (auto simp: not_less)
    next
      case True
      then have np: "unat n < p" using stop less.prems(2) le_neq_implies_less by blast
      have u: "unat (n + 1) = unat n + 1" using np assms(3) by (simp add: unat_word_ariths)
      have "find_divisor n 2 = Some True" using f True by simp
      then have run: "next_task_number n = next_task_number (n + 1)" by (simp add: next_task_number.simps [of n])
      have "p - unat (n + 1) < p - unat n" "0 < unat (n + 1)" "unat (n + 1) \<le> p" using np u by simp_all
      from less.hyps [OF this] obtain m where m: "next_task_number (n + 1) = Some m" "n + 1 \<le> m" "unat m \<le> p"
        "\<forall>d. d dvd unat m \<longrightarrow> d = 1 \<or> d = unat m \<or> d * d = unat m"
        "\<forall>k. n + 1 \<le> k \<and> k < m \<longrightarrow> (\<exists>d. d dvd unat k \<and> d \<noteq> 1 \<and> d \<noteq> unat k \<and> d * d \<noteq> unat k)" by blast
      have "n \<le> m" using m(2) u by (simp add: word_le_nat_alt)
      moreover have "\<exists>d. d dvd unat k \<and> d \<noteq> 1 \<and> d \<noteq> unat k \<and> d * d \<noteq> unat k" if "n \<le> k" "k < m" for k
      proof (cases "k = n")
        case False
        then have "n + 1 \<le> k" using that(1) u by (simp add: word_le_nat_alt word_unat_eq_iff)
        with m(5) that(2) show ?thesis by blast
      qed (use True root in blast)
      ultimately show ?thesis using m run by (intro exI [of _ m]) auto
    qed
  qed
qed

text \<open>The square of 3 is taken, although it is not a prime number.\<close>

theorem task_number_found_witness: "next_task_number 8 = Some 9"
proof -
  have nine: "d = 1 \<or> d = 9 \<or> d * d = 9" if "d dvd (9::nat)" for d
  proof -
    have "d \<le> 9" using that by (intro dvd_imp_le) simp_all
    then have "d = 0 \<or> d = 1 \<or> d = 2 \<or> d = 3 \<or> d = 4 \<or> d = 5 \<or> d = 6 \<or> d = 7 \<or> d = 8 \<or> d = 9" by presburger
    then show ?thesis using that by auto
  qed
  have p: "\<not> q dvd (11::nat)" if "1 < q" "q < 11" for q
  proof -
    have "q = 2 \<or> q = 3 \<or> q = 4 \<or> q = 5 \<or> q = 6 \<or> q = 7 \<or> q = 8 \<or> q = 9 \<or> q = 10" using that by presburger
    then show ?thesis by auto
  qed
  obtain m where m: "next_task_number 8 = Some m" "8 \<le> m"
    "\<forall>d. d dvd unat m \<longrightarrow> d = 1 \<or> d = unat m \<or> d * d = unat m"
    "\<forall>k. 8 \<le> k \<and> k < m \<longrightarrow> (\<exists>d. d dvd unat k \<and> d \<noteq> 1 \<and> d \<noteq> unat k \<and> d * d \<noteq> unat k)"
    using task_number_found [of 8 11] p by auto
  have "m \<noteq> 8" using m(3) [rule_format, of 2] by auto
  moreover have "\<not> 9 < m"
  proof
    assume "9 < m"
    moreover have "(8::u64) \<le> 9" by simp
    ultimately obtain d where "d dvd unat (9::u64)" "d \<noteq> 1" "d \<noteq> unat (9::u64)" "d * d \<noteq> unat (9::u64)"
      using m(4) by blast
    with nine [of d] show False by simp
  qed
  ultimately have "m = 9" using m(2) by (auto simp: word_le_nat_alt word_less_nat_alt word_unat_eq_iff)
  then show ?thesis using m(1) by simp
qed

section \<open>Whole jobs\<close>

text \<open>Word count with a reduce function and a combiner, as \<open>do_mapreduce\<close> runs it when \<open>with_vm\<close> is 0, on one CPU.\<close>

definition plain_count :: "(text_bytes, text_bytes, u64) mr_param" where
  "plain_count = (wc_param False 1 3)
     \<lparr>app_args := (wc_app False 3)\<lparr>reduce_func := wordcount_reduce, combiner := Some wordcount_combine, vm := None\<rparr>\<rparr>"

lemma plain_count_simps:
  "nr_cpus plain_count = 1" "kv_outcmp (app_args plain_count) = Some out_cmp" "splits_left example_splits = ps_ma example_splits"
  by (simp_all add: plain_count_def wc_param_def wc_app_def splits_left_def example_splits_def)

lemma example_idle: "idle (Suc 0) example_store"
  by (simp add: idle_def example_store_def)

lemma plain_count_ok: "job_ok mystrcmp (Some wc_keycopy) plain_count [0, 0] example_splits"
proof -
  have "\<forall>sp\<in>set (ps_ma example_splits). wc_words sp None \<noteq> None"
    by (simp add: example_splits_def c_toupper_def is_letter_def max_key_len_def c_assert_def Let_def)
  from wc_emits(2) [OF this, of False 1 3] show ?thesis
    by (simp add: job_ok_def plain_count_def splits_left_def) (simp add: wc_param_def wc_app_def example_splits_def)
qed

text \<open>C99: A MapReduce job with trees as buckets and a given number of reduce tasks (at least 1): for every way the CPUs take
  the splits, the map and reduce phases end with bucket \<open>c\<close> holding what is emitted for the groups of column \<open>c\<close>, in their
  order; these groups are the keys of the column, each once, with all values that were emitted for it.  On one CPU, or when the
  number of pairs is below the cube of the number of CPUs, so that sorting runs on one, the whole job returns exactly these
  pairs, in the order asked for.\<close>

theorem mapreduce_job:
  fixes s :: "(('k, 'v) btree, ('k, 'v) keyvals coll, 'k, 'v) kvst"
  assumes "key_order cmp" and "job_ok cmp keycopy P sched ps" and "idle (nr_cpus P) s"
    and "sorts qs (rbkts_pair_cmp (kv_outcmp (app_args P)) cmp kv_key)"
  shows "\<exists>ps' s' gss. map_and_reduce (btreebktmgr (app_args P) cmp keycopy) P sched ps s = Some (ps', s') \<and>
    job_groups cmp keycopy P sched (splits_left ps) gss \<and>
    (\<forall>c<tasks (app_args P). bucket_pairs (kv_rbkts s') c = concat (map (emitted (app_args P)) (gss ! c))) \<and>
    (nr_cpus P = 1 \<or> length (job_pairs (app_args P) gss) < nr_cpus P * nr_cpus P * nr_cpus P \<longrightarrow>
      (\<exists>out. mr_run_scheduler (btreebktmgr (app_args P) cmp keycopy) qs cmp P sched0 sched (ps, s) = Some out \<and>
        mset (map kv_pair out) = mset (job_pairs (app_args P) gss) \<and>
        ordered (rbkts_pair_cmp (kv_outcmp (app_args P)) cmp kv_key) out))"
  using btree_store.store_job [OF assms(1) refl assms(2) _ _ _ assms(4)] assms(3) by (simp add: idle_def)

theorem mapreduce_job_witness:
  "\<exists>ps' s' gss. map_and_reduce (btreebktmgr (app_args plain_count) mystrcmp (Some wc_keycopy)) plain_count [0, 0]
      example_splits example_store = Some (ps', s') \<and>
    job_groups mystrcmp (Some wc_keycopy) plain_count [0, 0] (ps_ma example_splits) gss \<and>
    bucket_pairs (kv_rbkts s') 2 = concat (map (emitted (app_args plain_count)) (gss ! 2)) \<and>
    (\<exists>out. mr_run_scheduler (btreebktmgr (app_args plain_count) mystrcmp (Some wc_keycopy)) insertion_sort mystrcmp
        plain_count [] [0, 0] (example_splits, example_store) = Some out \<and>
      mset (map kv_pair out) = mset (job_pairs (app_args plain_count) gss) \<and> ordered (wc_order False) out)"
proof -
  have q: "sorts insertion_sort (rbkts_pair_cmp (kv_outcmp (app_args plain_count)) mystrcmp kv_key)"
    using insertion_sort_sorts [OF wc_order_ok [of False]] by (simp add: plain_count_simps wc_order_def)
  have t: "2 < tasks (app_args plain_count)" by (simp add: plain_count_def wc_param_def wc_app_def)
  show ?thesis
    using mapreduce_job [OF string_order.key_order_axioms plain_count_ok _ q, of example_store "[]"] t
    by (simp add: example_idle plain_count_simps wc_order_def) blast
qed

text \<open>The same with sorted arrays as buckets.\<close>

theorem mapreduce_job_arrays:
  fixes s :: "(('k, 'v) keyvals coll, ('k, 'v) keyvals coll, 'k, 'v) kvst"
  assumes "key_order cmp" and "job_ok cmp keycopy P sched ps" and "idle (nr_cpus P) s"
    and "sorts qs (rbkts_pair_cmp (kv_outcmp (app_args P)) cmp kv_key)"
  shows "\<exists>ps' s' gss. map_and_reduce (arraybktmgr (app_args P) cmp keycopy) P sched ps s = Some (ps', s') \<and>
    job_groups cmp keycopy P sched (splits_left ps) gss \<and>
    (\<forall>c<tasks (app_args P). bucket_pairs (kv_rbkts s') c = concat (map (emitted (app_args P)) (gss ! c))) \<and>
    (nr_cpus P = 1 \<or> length (job_pairs (app_args P) gss) < nr_cpus P * nr_cpus P * nr_cpus P \<longrightarrow>
      (\<exists>out. mr_run_scheduler (arraybktmgr (app_args P) cmp keycopy) qs cmp P sched0 sched (ps, s) = Some out \<and>
        mset (map kv_pair out) = mset (job_pairs (app_args P) gss) \<and>
        ordered (rbkts_pair_cmp (kv_outcmp (app_args P)) cmp kv_key) out))"
  using array_store.store_job [OF assms(1) refl assms(2) _ _ _ assms(4)] assms(3) by (simp add: idle_def)

theorem mapreduce_job_arrays_witness:
  "\<exists>ps' s' gss. map_and_reduce (arraybktmgr (app_args plain_count) mystrcmp (Some wc_keycopy)) plain_count [0, 0]
      example_splits example_store = Some (ps', s') \<and>
    job_groups mystrcmp (Some wc_keycopy) plain_count [0, 0] (ps_ma example_splits) gss \<and>
    bucket_pairs (kv_rbkts s') 2 = concat (map (emitted (app_args plain_count)) (gss ! 2)) \<and>
    (\<exists>out. mr_run_scheduler (arraybktmgr (app_args plain_count) mystrcmp (Some wc_keycopy)) insertion_sort mystrcmp
        plain_count [] [0, 0] (example_splits, example_store) = Some out \<and>
      mset (map kv_pair out) = mset (job_pairs (app_args plain_count) gss) \<and> ordered (wc_order False) out)"
proof -
  have q: "sorts insertion_sort (rbkts_pair_cmp (kv_outcmp (app_args plain_count)) mystrcmp kv_key)"
    using insertion_sort_sorts [OF wc_order_ok [of False]] by (simp add: plain_count_simps wc_order_def)
  have t: "2 < tasks (app_args plain_count)" by (simp add: plain_count_def wc_param_def wc_app_def)
  show ?thesis
    using mapreduce_job_arrays [OF string_order.key_order_axioms plain_count_ok _ q, of example_store "[]"] t
    by (simp add: example_idle plain_count_simps wc_order_def) blast
qed

end
