(* ===== verification/Spec2Isabelle.thy ===== *)
theory Spec2Isabelle
  imports MC_Hash MC_MachineProps MT_Props
begin

text \<open>
  A verification library for two C programs of this repository: the object cache \<open>memcached\<close>
  (\<open>src/hermit/apps/memcached/src\<close>) and the MapReduce library \<open>Metis\<close> with its word count application
  (\<open>src/hermit/apps/metis\<close>).  Theories \<open>MC_*\<close> are about memcached, \<open>MT_*\<close> about Metis; \<open>Prelude\<close> holds what both share
  (machine integers as words, pointers, the option monad with \<open>c_assert\<close>, chains and doubly linked segments in memory).

  \<^bold>\<open>How code is modelled.\<close>  A function of the program is a HOL function of the same name that takes and returns the state.
  The static variables of a source file are the fields of one record; the record of a file that calls another extends
  that file's record, so that a function is typed over every state that has its fields.  \<open>None\<close> is the result of a run that
  does not continue: a failed assertion, \<open>abort\<close> or \<open>exit\<close>, an access out of bounds (tested wherever the code around it
  does not exclude it, as in the page lists of \<open>slab_rebalance_finish\<close>), an \<open>int\<close> that leaves its range, a lock that is waited for in vain, or a
  loop that does not end (\<open>partial_function (option)\<close>).  Theorems that state \<open>Some\<close> or an equation with a result therefore
  include that the code returns.  Integers have their width where wrapping matters (memcached throughout, with \<open>int\<close> sums bounded
  by \<open>INT_MAX\<close> in \<open>MC_Prefix\<close>; in Metis the number of reduce tasks, with the rounding of its square root); the other
  counts and lengths of Metis are natural numbers.  Results of the system and of the C library (\<open>malloc\<close>, \<open>realloc\<close>, \<open>read\<close>,
  \<open>sendmsg\<close>, \<open>qsort\<close>, the clock, SASL) are arguments or streams of outcomes in the state.  Critical sections run one at a
  time; a background thread is a function from one wait to the next, and what other threads do meanwhile is a relation
  where a theorem depends on it (\<open>others_ok\<close> in \<open>MC_Rebalance\<close>).

  \<^bold>\<open>memcached, from the bottom up.\<close>
  \<^item> \<open>MC_Base\<close> (\<open>memcached.h\<close>): items, settings, global statistics, item locks.  \<open>MC_Util\<close> (\<open>util.c\<close>): parsing numbers, byte
    order.  \<open>MC_Hash\<close> (\<open>jenkins_hash.c\<close>, \<open>murmur3_hash.c\<close>, \<open>hash.c\<close>): the three readers of \<open>jenkins_hash\<close> agree, and both
    functions depend on the bytes of the key alone.  \<open>MC_Cache\<close> (\<open>cache.c\<close>): the object cache with its red zones.
  \<^item> \<open>MC_Assoc\<close> (\<open>assoc.c\<close>): the hash table with incremental expansion.  \<open>assoc_rel s M\<close> relates a state to the map \<open>M\<close>; every
    operation and every migration step refines the map's (locale \<open>key_table\<close>, interpreted on the table), and enough passes
    of the maintenance thread finish an expansion.
  \<^item> \<open>MC_Slabs\<close> (\<open>slabs.c\<close>): size classes, pages, free lists, and the start and end of moving a page.  \<open>slab_run\<close> are the runs of
    the allocator; chunks in use never overlap (locale \<open>chunk_allocator\<close>, interpreted on it).  \<open>MC_Rebalance\<close>: the move itself
    and the automover; a page that is declared done holds only cleared chunks.
  \<^item> \<open>MC_Items\<close>, \<open>MC_Lru\<close>, \<open>MC_Alloc\<close>, \<open>MC_ItemOps\<close> (\<open>items.c\<close>): items, LRU lists, allocation with expiry and eviction.
    \<open>cache_inv s M L F\<close> joins the map of the table, the LRU lists and the free chunks; linking, unlinking, replacing,
    updating, looking up and allocating items keep it and do what they promise; \<open>item_choice\<close> is the memory that a new item
    gets.  The theorems about allocation are for memory that is not preallocated and tail repair that is off.  \<open>MC_Crawler\<close>: the LRU crawler.
  \<^item> \<open>MC_Thread\<close>, \<open>MC_Stats\<close> (\<open>thread.c\<close>): handing connections to workers (locale \<open>handoff\<close>, interpreted on the queues), the
    switch of the lock type, statistics per thread and their sums.  \<open>MC_Access\<close>: item operations under their locks.
    \<open>MC_Prefix\<close> (\<open>stats.c\<close>): statistics per key prefix and their dump.
  \<^item> \<open>MC_Iov\<close>, \<open>MC_Conn\<close> (\<open>memcached.c\<close>): the fragments and messages of a reply, and connections.  \<open>MC_Store\<close>, \<open>MC_StoreInv\<close>,
    \<open>MC_StoreProps\<close>: \<open>do_store_item\<close>, \<open>do_add_delta\<close>; \<open>store_item\<close> answers and leaves the cache as \<open>store_spec\<close> says,
    and \<open>append\<close> fails exactly when the allocator gives nothing (\<open>memory_short\<close>).
  \<^item> \<open>MC_Command\<close>, \<open>MC_Binary\<close>: the text and the binary protocol.  \<open>MC_Machine\<close>: \<open>drive_machine\<close>, one function per state, on
    streams of network outcomes.  \<open>MC_CommandProps\<close>, \<open>MC_MachineProps\<close>: the tokenizer computes words; however the network
    splits them, input is neither lost nor reordered, values are stored byte for byte and replies are sent completely.

  A request passes through these parts from the end of the list to its beginning: \<open>event_handler\<close> runs \<open>drive_loop\<close>, which
  reads with \<open>try_read_network\<close>, parses with \<open>try_read_command\<close>, and calls a command; the command calls the operations of
  \<open>MC_Access\<close>, which take locks and call \<open>items.c\<close>, which uses the table and the allocator; the reply is queued with
  \<open>add_iov\<close> and sent by \<open>transmit\<close>.

  \<^bold>\<open>Metis, in the order data flows.\<close>
  \<^item> \<open>MT_Base\<close> (\<open>mr-types.h\<close>, \<open>bsearch.c\<close>, \<open>value_helper.c\<close>, arrays of pairs) and \<open>MT_Apps\<close>: what the library expects of a
    comparison is the locale \<open>key_order\<close>; it is interpreted on the comparison functions of the applications.
  \<^item> \<open>MT_Coll\<close>, \<open>MT_Btree\<close> (\<open>pchandler.h\<close>, \<open>keyvals_array.c\<close>, \<open>keyvals_btree.c\<close>): the two sorted collections of pairs.  The
    locales \<open>pair_collection\<close> and \<open>pair_iterator\<close> state what the library relies on, with the sorted association list
    \<open>put_all\<close> as specification; both are interpreted on arrays and on B+trees.  A node of the tree lives in a store;
    \<open>bt_shape\<close> describes each level as a list of nodes with the keys that separate them.
  \<^item> \<open>MT_Map\<close> (\<open>estimation.c\<close>, \<open>btreebktmgr.c\<close>, \<open>arraybktmgr.c\<close>, \<open>appendbktmgr.c\<close>): the tables of buckets; locale
    \<open>bucket_manager\<close>, interpreted on trees and arrays.
  \<^item> \<open>MT_Reduce\<close> (\<open>reduce.c\<close>, \<open>rbktsmgr.c\<close>): the groups of a column are its keys in order with all their values
    (\<open>groups_of\<close>).  \<open>MT_Sort\<close> (\<open>mergesort.c\<close>, \<open>psrs.c\<close>): merging and parallel sorting.
  \<^item> \<open>MT_Job\<close> (\<open>defsplitter.c\<close>, \<open>presplitter.c\<close>, \<open>kvstore.c\<close>, \<open>mr-sched.c\<close>): the phases of a job; locale \<open>job_store\<close> extends
    \<open>bucket_manager\<close> and is interpreted on the stores of the program.  The map phase runs on a schedule, the list of the
    CPUs that take the next split; theorems hold for every schedule.  What a whole job returns is stated for sorting on one CPU (few pairs or one CPU), since
    sorting on several leaves pairs out of order (\<open>regular_sampling_unsorted\<close>).
  \<^item> \<open>MT_Count\<close> (\<open>app/wc.c\<close>): jobs with a summing value modifier, and word count from the file to the sorted counts.
    \<open>MT_Props\<close>: properties over several of these parts.

  \<^bold>\<open>Bounds and termination.\<close>  No fuel is used.  Recursion over words (\<open>slabs_init_loop\<close>, the loops of \<open>jenkins_hash\<close>) and
  binary search have a termination proof; the other loops are partial functions, and theorems about them show their result.  The
  splitter of word count and the search for the number of tasks are of this kind: the first ends when the file has at least
  as many bytes as splits are asked for, and does not when it has fewer and a border somewhere (\<open>small_file_never_split\<close>);
  the second ends at the next prime at the latest, for numbers up to one below \<open>2 ^ 52\<close>.

  \<^bold>\<open>Examples.\<close>  A theorem with hypotheses is followed by its application to a concrete state (\<open>*_witness\<close>).  Insertion sort
  stands for \<open>qsort\<close> there.

  \<^bold>\<open>Not modelled.\<close>  Of memcached: the options, sockets, signals and daemonizing of \<open>main\<close>, libevent, SASL and tracing, which
  are calls of the system, and the vendored generator of Zipf numbers (\<open>zipf/\<close>).  Of Metis: threads and barriers
  (\<open>pthreadpool.c\<close>; the phases between barriers run one after the other), profiling and platform code, the allocator
  \<open>streamflow\<close> (third-party), whole jobs that only map or only group (their operations are modelled), reading the file
  and printing in \<open>wc.c\<close>, and the numeric work of the other applications.  Of the repository: the graph benchmarks
  (\<open>gapbs\<close>, third-party), the microbenchmarks and \<open>seq_scan\<close> (C++ programs that touch memory and measure), and scripts.
\<close>

end
